(* ===== verification/Prelude.thy ===== *)
theory Prelude
  imports Main "HOL-Library.Word" "HOL-Library.List_Lexorder" "HOL-Library.Product_Lexorder"
    "HOL-Library.Multiset" "HOL-Library.Sublist"
begin

text \<open>
  The shared vocabulary of the development: Go's fixed-width integers and byte slices, the two
  ways a Go function can fail (an \<open>error\<close> value and a run-time panic), big-endian integers, the
  byte-lexicographic order on keys, and the two loops that occur all over the Go sources: the
  binary search and the byte comparison. Everything below is generic; the components' theories
  hold what is specific to one package under \<^verbatim>\<open>src/go/internal\<close>.
\<close>

unbundle bit_operations_syntax

section \<open>Types\<close>

text \<open>
  Go's \<open>int64\<close> and \<open>uint64\<close> are both 64-bit words here (Go converts between them without
  changing the bits); a signed comparison of the source is written with \<^const>\<open>sint\<close>. A
  \<open>float64\<close> is represented by its IEEE-754 bit pattern, which is what \<open>math.Float64bits\<close> returns.
\<close>

type_synonym byte = "8 word"
type_synonym bytes = "byte list"
type_synonym uint16 = "16 word"
type_synonym uint32 = "32 word"
type_synonym uint64 = "64 word"
type_synonym int64 = "64 word"
type_synonym float64 = "64 word"

text \<open>A Go function fails with an error value or with a run-time panic.\<close>

datatype go_error = Error string | Panic string

type_synonym 'a result = "go_error + 'a"

text \<open>\<open>x, err := e; if err != nil { return \<dots>, err }\<close>\<close>

definition rbind :: "'a result \<Rightarrow> ('a \<Rightarrow> 'b result) \<Rightarrow> 'b result" where
  "rbind r f = (case r of Inl e \<Rightarrow> Inl e | Inr x \<Rightarrow> f x)"

lemma rbind_simps [simp]: "rbind (Inl e) f = Inl e" "rbind (Inr x) f = f x"
  by (simp_all add: rbind_def)

lemma rbind_Inr: "rbind r f = Inr y \<longleftrightarrow> (\<exists>x. r = Inr x \<and> f x = Inr y)"
  by (cases r) auto

lemma rbind_cong [fundef_cong]:
  "r = r' \<Longrightarrow> (\<And>x. r' = Inr x \<Longrightarrow> f x = f' x) \<Longrightarrow> rbind r f = rbind r' f'"
  by (cases r') auto

text \<open>Addition of Go \<open>int\<close>s, with its wrap-around.\<close>

definition wrapAdd :: "int \<Rightarrow> int \<Rightarrow> int" where
  "wrapAdd a b = sint (word_of_int (a + b) :: int64)"

text \<open>The bytes of a Go string and the string of a byte slice.\<close>

definition bytes_of :: "string \<Rightarrow> bytes" where
  "bytes_of s = map (\<lambda>c. word_of_nat (of_char c)) s"

definition string_of :: "bytes \<Rightarrow> string" where
  "string_of b = map (\<lambda>w. char_of (unat w)) b"

text \<open>\<open>xs[i:j]\<close>, for \<open>i \<le> j \<le> len(xs)\<close>; callers state what the source does elsewhere.\<close>

definition slice :: "'a list \<Rightarrow> nat \<Rightarrow> nat \<Rightarrow> 'a list" where
  "slice xs i j = take (j - i) (drop i xs)"

section \<open>Automation\<close>

named_theorems slice_simps \<open>rewriting of slices of concatenations\<close>
named_theorems cmp_simps \<open>byte comparisons as the order on byte lists\<close>

lemma length_bytes_of [simp]: "length (bytes_of s) = length s"
  by (simp add: bytes_of_def)

lemma length_string_of [simp]: "length (string_of b) = length b"
  by (simp add: string_of_def)

lemma string_of_bytes_of [simp]: "string_of (bytes_of s) = s"
proof -
  have "char_of (unat (word_of_nat (of_char c) :: 8 word)) = c" for c
  proof -
    have "(of_char c :: nat) mod 256 = of_char c" by (rule of_char_mod_256)
    then show ?thesis by (simp add: unat_of_nat del: of_char_mod_256)
  qed
  then show ?thesis by (simp add: bytes_of_def string_of_def comp_def)
qed

lemma bytes_of_string_of [simp]: "bytes_of (string_of b) = b"
proof -
  have "word_of_nat (of_char (char_of (unat w) :: char)) = w" for w :: "8 word"
  proof -
    have "unat w < 256" using unsigned_less [of w, where ?'a = nat] by simp
    then show ?thesis by (simp add: of_char_of)
  qed
  then show ?thesis by (simp add: bytes_of_def string_of_def comp_def)
qed

lemma bytes_of_inject [simp]: "bytes_of s = bytes_of t \<longleftrightarrow> s = t"
  by (metis string_of_bytes_of)

lemma string_of_inject [simp]: "string_of a = string_of b \<longleftrightarrow> a = b"
  by (metis bytes_of_string_of)

lemma wrapAdd_id:
  assumes "- (2 ^ 63) \<le> a + b" "a + b < 2 ^ 63"
  shows "wrapAdd a b = a + b"
  unfolding wrapAdd_def using assms by (subst signed_of_int) (simp add: signed_take_bit_int_eq_self)

lemma half_less: "xs \<noteq> [] \<Longrightarrow> length xs \<noteq> Suc 0 \<Longrightarrow> length xs - length xs div 2 < length xs"
  by (cases xs) (auto simp: Suc_le_eq)

section \<open>Slices\<close>

lemma nth_list_update_if: "j < length xs \<Longrightarrow> xs[i := x] ! j = (if i = j then x else xs ! j)"
  by (cases "i < length xs") (auto simp: nth_list_update)

lemma length_slice [slice_simps]:
  "j \<le> length xs \<Longrightarrow> length (slice xs i j) = j - i"
  by (simp add: slice_def)

lemma slice_append_left [slice_simps]:
  "j \<le> length xs \<Longrightarrow> slice (xs @ ys) i j = slice xs i j"
  by (auto simp: slice_def)

lemma slice_append_right [slice_simps]:
  "length xs \<le> i \<Longrightarrow> slice (xs @ ys) i j = slice ys (i - length xs) (j - length xs)"
  by (simp add: slice_def)

lemma slice_full [slice_simps]: "length xs \<le> j \<Longrightarrow> slice xs 0 j = xs"
  by (simp add: slice_def)

lemma slice_empty [slice_simps]: "j \<le> i \<Longrightarrow> slice xs i j = []"
  by (simp add: slice_def)

lemma slice_mid:
  "i = length a \<Longrightarrow> j = length a + length b \<Longrightarrow> slice (a @ b @ c) i j = b"
  by (simp add: slice_def)

lemma slice_join: "i \<le> j \<Longrightarrow> j \<le> k \<Longrightarrow> slice xs i j @ slice xs j k = slice xs i k"
proof -
  assume le: "i \<le> j" "j \<le> k"
  then have "slice xs i k = take ((j - i) + (k - j)) (drop i xs)" by (simp add: slice_def)
  also have "\<dots> = slice xs i j @ slice xs j k" unfolding take_add slice_def using le by simp
  finally show ?thesis by simp
qed

section \<open>Big-endian integers\<close>

text \<open>
  \<open>binary.BigEndian.PutUint16/32/64\<close> and the hand-written shifts \<open>byte(v >> 24), \<dots>\<close> of the
  sources are \<open>put_be 2/4/8\<close>; the reading loops \<open>v = (v << 8) | uint64(b)\<close> are \<open>get_be\<close>.
\<close>

primrec put_be :: "nat \<Rightarrow> 'a::len word \<Rightarrow> bytes" where
  "put_be 0 w = []"
| "put_be (Suc n) w = ucast (drop_bit (8 * n) w) # put_be n w"

definition get_be :: "bytes \<Rightarrow> 'a::len word" where
  "get_be bs = foldl (\<lambda>v b. push_bit 8 v OR ucast b) 0 bs"

text \<open>The number a byte string denotes.\<close>

definition be_nat :: "bytes \<Rightarrow> nat" where
  "be_nat bs = foldl (\<lambda>v b. v * 256 + unat b) 0 bs"

lemma length_put_be [simp]: "length (put_be n w) = n"
  by (induction n) simp_all

lemma be_nat_Nil [simp]: "be_nat [] = 0"
  by (simp add: be_nat_def)

lemma be_nat_snoc [simp]: "be_nat (bs @ [b]) = be_nat bs * 256 + unat b"
  by (simp add: be_nat_def)

lemma be_nat_append: "be_nat (xs @ ys) = be_nat xs * 256 ^ length ys + be_nat ys"
proof (induction ys rule: rev_induct)
  case Nil
  show ?case by simp
next
  case (snoc y ys)
  have "be_nat (xs @ ys @ [y]) = be_nat (xs @ ys) * 256 + unat y"
    using be_nat_snoc [of "xs @ ys" y] by simp
  then show ?case using snoc by (simp add: algebra_simps)
qed

lemma be_nat_Cons: "be_nat (x # xs) = unat x * 256 ^ length xs + be_nat xs"
  using be_nat_append [of "[x]" xs] be_nat_snoc [of "[]" x] by simp

lemma be_nat_less: "be_nat xs < 256 ^ length xs"
proof (induction xs)
  case Nil
  show ?case by simp
next
  case (Cons x xs)
  have "unat x < 256" using unsigned_less [of x, where ?'a = nat] by simp
  then have "unat x * 256 ^ length xs + 256 ^ length xs \<le> 256 * 256 ^ length xs"
    by (metis Suc_leI add.commute mult_Suc mult_le_mono1)
  then have "unat x * 256 ^ length xs + be_nat xs < 256 * 256 ^ length xs"
    using Cons by linarith
  then show ?case by (simp add: be_nat_Cons)
qed

lemma be_nat_put_be: "be_nat (put_be n w) = unat w mod 256 ^ n"
proof (induction n)
  case 0
  show ?case by simp
next
  case (Suc n)
  have byte: "unat (ucast (drop_bit (8 * n) w) :: 8 word) = unat w div 256 ^ n mod 256"
  proof -
    have "unat (drop_bit (8 * n) w) = unat w div 256 ^ n"
      by (subst unat_drop_bit_eq) (simp add: drop_bit_eq_div power_mult)
    then show ?thesis by (simp add: unsigned_ucast_eq take_bit_eq_mod del: unsigned_drop_bit_eq)
  qed
  have "unat w mod (256 ^ n * 256) = 256 ^ n * (unat w div 256 ^ n mod 256) + unat w mod 256 ^ n"
    by (rule mod_mult2_eq)
  with Suc byte show ?case
    by (simp add: be_nat_Cons algebra_simps)
qed

lemma be_nat_put_be_full:
  "unat w < 256 ^ n \<Longrightarrow> be_nat (put_be n w) = unat w"
  by (simp add: be_nat_put_be)

lemma get_be_eq: "get_be bs = (word_of_nat (be_nat bs) :: 'a::len word)"
proof (induction bs rule: rev_induct)
  case Nil
  show ?case by (simp add: get_be_def)
next
  case (snoc b bs)
  have "(get_be (bs @ [b]) :: 'a word) = push_bit 8 (get_be bs) OR ucast b"
    by (simp add: get_be_def)
  also have "\<dots> = push_bit 8 (get_be bs) + ucast b"
  proof (rule disjunctive_add [symmetric])
    fix n
    show "\<not> bit (push_bit 8 (get_be bs) :: 'a word) n \<or> \<not> bit (ucast b :: 'a word) n"
      using bit_imp_le_length [of b n] by (auto simp: bit_push_bit_iff bit_ucast_iff)
  qed
  also have "\<dots> = get_be bs * 256 + word_of_nat (unat b)"
    by (simp add: push_bit_eq_mult)
  finally show ?case using snoc by (simp add: mult.commute)
qed

lemma unat_get_be:
  "8 * length bs \<le> LENGTH('a::len) \<Longrightarrow> unat (get_be bs :: 'a word) = be_nat bs"
proof -
  assume len: "8 * length bs \<le> LENGTH('a)"
  have "be_nat bs < 2 ^ (8 * length bs)"
    using be_nat_less [of bs] by (simp add: power_mult)
  also have "\<dots> \<le> 2 ^ LENGTH('a)"
    using len by (simp add: power_increasing)
  finally show ?thesis by (simp add: get_be_eq unat_of_nat take_bit_eq_mod)
qed

lemma get_be_put_be [simp]:
  "8 * n = LENGTH('a) \<Longrightarrow> get_be (put_be n w) = (w :: 'a::len word)"
proof -
  assume n: "8 * n = LENGTH('a)"
  have "unat w < 256 ^ n"
  proof -
    have "(256 :: nat) ^ n = 2 ^ (8 * n)" by (simp add: power_mult)
    then show ?thesis using unsigned_less [of w, where ?'a = nat] n by simp
  qed
  then show ?thesis by (simp add: get_be_eq be_nat_put_be_full)
qed

lemma be_nat_inject:
  "length xs = length ys \<Longrightarrow> be_nat xs = be_nat ys \<longleftrightarrow> xs = ys"
proof (induction xs ys rule: list_induct2)
  case Nil
  show ?case by simp
next
  case (Cons x xs y ys)
  have "x = y \<and> be_nat xs = be_nat ys" if eq: "be_nat (x # xs) = be_nat (y # ys)"
  proof -
    let ?m = "256 ^ length ys :: nat"
    have lt: "be_nat xs < ?m" "be_nat ys < ?m"
      using be_nat_less [of xs] be_nat_less [of ys] Cons.hyps by auto
    have e: "unat x * ?m + be_nat xs = unat y * ?m + be_nat ys"
      using eq Cons.hyps by (simp add: be_nat_Cons)
    then have "(unat x * ?m + be_nat xs) div ?m = (unat y * ?m + be_nat ys) div ?m" by simp
    then have "unat x = unat y" using lt by simp
    with e show ?thesis by (simp add: word_unat_eq_iff)
  qed
  with Cons show ?case by (auto simp: be_nat_Cons)
qed

lemma put_be_get_be:
  "length bs = n \<Longrightarrow> 8 * n = LENGTH('a::len) \<Longrightarrow> put_be n (get_be bs :: 'a word) = bs"
  using be_nat_less [of bs]
  by (intro be_nat_inject [THEN iffD1]) (simp_all add: be_nat_put_be unat_get_be)

section \<open>The lexicographic order on byte strings\<close>

lemma append_less_append:
  fixes xs ys :: "'a::linorder list"
  shows "length xs = length ys \<Longrightarrow>
    xs @ us < ys @ vs \<longleftrightarrow> xs < ys \<or> xs = ys \<and> us < vs"
  by (induction xs ys rule: list_induct2) auto

lemma be_nat_less_iff:
  "length xs = length ys \<Longrightarrow> xs < ys \<longleftrightarrow> be_nat xs < be_nat ys"
proof (induction xs ys rule: list_induct2)
  case Nil
  show ?case by simp
next
  case (Cons x xs y ys)
  let ?m = "256 ^ length ys :: nat"
  have lt: "be_nat xs < ?m" "be_nat ys < ?m"
    using be_nat_less [of xs] be_nat_less [of ys] Cons.hyps by auto
  have step: "a * ?m + be_nat xs < b * ?m + be_nat ys \<longleftrightarrow> a < b \<or> a = b \<and> be_nat xs < be_nat ys"
    for a b :: nat
  proof (cases a b rule: linorder_cases)
    case less
    then have "Suc a * ?m \<le> b * ?m" by (intro mult_le_mono1) simp
    with less lt show ?thesis by simp
  next
    case equal
    then show ?thesis by simp
  next
    case greater
    then have "Suc b * ?m \<le> a * ?m" by (intro mult_le_mono1) simp
    with greater lt show ?thesis by simp
  qed
  show ?case
    using Cons step [of "unat x" "unat y"]
    by (simp add: be_nat_Cons word_less_nat_alt word_unat_eq_iff)
qed

lemma put_be_less_iff:
  "unat v < 256 ^ n \<Longrightarrow> unat w < 256 ^ n \<Longrightarrow> put_be n v < put_be n w \<longleftrightarrow> v < w"
  by (simp add: be_nat_less_iff be_nat_put_be_full word_less_nat_alt)

lemma put_be_inject:
  "unat v < 256 ^ n \<Longrightarrow> unat w < 256 ^ n \<Longrightarrow> put_be n v = put_be n w \<longleftrightarrow> v = w"
  by (metis be_nat_put_be_full word_unat_eq_iff)

text \<open>
  The comparison loop that the sources repeat (\<open>CmpSeq\<close>, \<open>CmpKeys\<close>, \<open>CmpBytes\<close>, \<open>cmpBytes\<close>):
  walk the common length, then compare the lengths.
\<close>

fun cmp_loop :: "bytes \<Rightarrow> bytes \<Rightarrow> int" where
  "cmp_loop (a # as) (b # bs) = (if a < b then -1 else if a > b then 1 else cmp_loop as bs)"
| "cmp_loop [] [] = 0"
| "cmp_loop [] (b # bs) = -1"
| "cmp_loop (a # as) [] = 1"

lemma cmp_loop_eq: "cmp_loop a b = (if a < b then -1 else if a = b then 0 else 1)"
  by (induction a b rule: cmp_loop.induct) auto

lemma cmp_loop_simps [cmp_simps]:
  "cmp_loop a b < 0 \<longleftrightarrow> a < b"
  "cmp_loop a b = 0 \<longleftrightarrow> a = b"
  "cmp_loop a b > 0 \<longleftrightarrow> b < a"
  "cmp_loop a b \<le> 0 \<longleftrightarrow> a \<le> b"
  "cmp_loop a b \<ge> 0 \<longleftrightarrow> b \<le> a"
  by (auto simp: cmp_loop_eq)

section \<open>Binary search\<close>

text \<open>
  The loop \<open>for lo < hi { mid := (lo + hi) >> 1; if p(mid) { lo = mid + 1 } else { hi = mid } }\<close>.
\<close>

function bsearch :: "(nat \<Rightarrow> bool) \<Rightarrow> nat \<Rightarrow> nat \<Rightarrow> nat" where
  "bsearch p lo hi =
     (if lo < hi then
        let mid = (lo + hi) div 2
        in if p mid then bsearch p (mid + 1) hi else bsearch p lo mid
      else lo)"
  by pat_completeness auto
termination
  by (relation "measure (\<lambda>(p, lo, hi). hi - lo)") (auto simp: Let_def)

declare bsearch.simps [simp del]

lemma bsearch_correct:
  assumes "lo \<le> hi" and "\<And>i j. i \<le> j \<Longrightarrow> j < hi \<Longrightarrow> p j \<Longrightarrow> p i"
  shows "lo \<le> bsearch p lo hi \<and> bsearch p lo hi \<le> hi
    \<and> (\<forall>i. lo \<le> i \<longrightarrow> i < bsearch p lo hi \<longrightarrow> p i)
    \<and> (\<forall>i. bsearch p lo hi \<le> i \<longrightarrow> i < hi \<longrightarrow> \<not> p i)"
  using assms
proof (induction p lo hi rule: bsearch.induct)
  case (1 p lo hi)
  show ?case
  proof (cases "lo < hi")
    case False
    then have "bsearch p lo hi = lo" by (simp add: bsearch.simps [of p lo hi])
    with "1.prems" False show ?thesis by simp
  next
    case True
    define mid where "mid = (lo + hi) div 2"
    have mid: "lo \<le> mid" "mid < hi" using True by (auto simp: mid_def)
    show ?thesis
    proof (cases "p mid")
      case True
      then have eq: "bsearch p lo hi = bsearch p (mid + 1) hi"
        using \<open>lo < hi\<close> by (simp add: bsearch.simps [of p lo hi] mid_def Let_def)
      have IH: "mid + 1 \<le> bsearch p (mid + 1) hi \<and> bsearch p (mid + 1) hi \<le> hi
        \<and> (\<forall>i. mid + 1 \<le> i \<longrightarrow> i < bsearch p (mid + 1) hi \<longrightarrow> p i)
        \<and> (\<forall>i. bsearch p (mid + 1) hi \<le> i \<longrightarrow> i < hi \<longrightarrow> \<not> p i)"
        using "1.IH"(1) [OF \<open>lo < hi\<close> mid_def True] mid "1.prems"(2) by simp
      have "p i" if "i \<le> mid" for i
        using "1.prems"(2) [OF that mid(2)] True by simp
      then have "p i" if "i < bsearch p (mid + 1) hi" for i
        using IH that by (cases "i \<le> mid") auto
      with IH mid show ?thesis unfolding eq by auto
    next
      case False
      then have eq: "bsearch p lo hi = bsearch p lo mid"
        using \<open>lo < hi\<close> by (simp add: bsearch.simps [of p lo hi] mid_def Let_def)
      have mono: "\<And>i j. i \<le> j \<Longrightarrow> j < mid \<Longrightarrow> p j \<Longrightarrow> p i"
        using "1.prems"(2) mid(2) by (meson order.strict_trans)
      have IH: "lo \<le> bsearch p lo mid \<and> bsearch p lo mid \<le> mid
        \<and> (\<forall>i. lo \<le> i \<longrightarrow> i < bsearch p lo mid \<longrightarrow> p i)
        \<and> (\<forall>i. bsearch p lo mid \<le> i \<longrightarrow> i < mid \<longrightarrow> \<not> p i)"
        using "1.IH"(2) [OF \<open>lo < hi\<close> mid_def False] mid mono by simp
      have "\<not> p i" if "mid \<le> i" "i < hi" for i
        using "1.prems"(2) [OF that] False by blast
      then have "\<not> p i" if "bsearch p lo mid \<le> i" "i < hi" for i
        using IH that by (cases "i < mid") auto
      with IH mid show ?thesis unfolding eq by auto
    qed
  qed
qed

lemma bsearch_takeWhile:
  assumes "\<And>i j. i \<le> j \<Longrightarrow> j < length xs \<Longrightarrow> P (xs ! j) \<Longrightarrow> P (xs ! i)"
  shows "bsearch (\<lambda>i. P (xs ! i)) 0 (length xs) = length (takeWhile P xs)"
proof -
  let ?r = "bsearch (\<lambda>i. P (xs ! i)) 0 (length xs)"
  have c: "0 \<le> ?r \<and> ?r \<le> length xs \<and> (\<forall>i. 0 \<le> i \<longrightarrow> i < ?r \<longrightarrow> P (xs ! i))
    \<and> (\<forall>i. ?r \<le> i \<longrightarrow> i < length xs \<longrightarrow> \<not> P (xs ! i))"
    by (rule bsearch_correct [OF le0]) (rule assms)
  have r: "?r \<le> length xs" "\<forall>i < ?r. P (xs ! i)" "\<forall>i. ?r \<le> i \<longrightarrow> i < length xs \<longrightarrow> \<not> P (xs ! i)"
    using c le0 by blast+
  have "takeWhile P xs = take ?r xs"
    using r(2,3) by (intro takeWhile_eq_take_P_nth) blast+
  with r(1) show ?thesis by simp
qed

text \<open>Strictly ascending key lists, the shape of every run, page and index node.\<close>

abbreviation ascending :: "'a::linorder list \<Rightarrow> bool" where
  "ascending \<equiv> sorted_wrt (<)"

lemma ascending_key_mono:
  assumes "ascending (map f xs)" "i \<le> j" "j < length xs"
  shows "f (xs ! i) \<le> f (xs ! j)"
proof (cases "i = j")
  case False
  with assms have "map f xs ! i < map f xs ! j" by (intro sorted_wrt_nth_less [of "(<)"]) auto
  with assms False show ?thesis by simp
qed simp

lemma bsearch_less_key:
  assumes "ascending (map f xs)"
  shows "bsearch (\<lambda>i. f (xs ! i) < t) 0 (length xs) = length (takeWhile (\<lambda>x. f x < t) xs)"
  using ascending_key_mono [OF assms] by (intro bsearch_takeWhile) (meson le_less_trans)

lemma bsearch_le_key:
  assumes "ascending (map f xs)"
  shows "bsearch (\<lambda>i. f (xs ! i) \<le> t) 0 (length xs) = length (takeWhile (\<lambda>x. f x \<le> t) xs)"
  using ascending_key_mono [OF assms] by (intro bsearch_takeWhile) (meson order_trans)

lemma bsearch_cong: "(\<And>i. i < hi \<Longrightarrow> p i = q i) \<Longrightarrow> bsearch p lo hi = bsearch q lo hi"
proof (induction p lo hi rule: bsearch.induct)
  case (1 p lo hi)
  show ?case
  proof (cases "lo < hi")
    case True
    have "p ((lo + hi) div 2) = q ((lo + hi) div 2)" using "1.prems" True by simp
    with 1 True show ?thesis by (subst (1 2) bsearch.simps) (simp add: Let_def)
  qed (simp add: bsearch.simps)
qed

text \<open>A binary search for the first element that is not below \<open>t\<close> finds \<open>t\<close> if it is there.\<close>

lemma bsearch_hit:
  assumes "sorted (map f xs)"
  shows "(let lo = bsearch (\<lambda>i. f (xs ! i) < t) 0 (length xs) in lo < length xs \<and> f (xs ! lo) = t) \<longleftrightarrow> t \<in> f ` set xs"
proof -
  let ?lo = "bsearch (\<lambda>i. f (xs ! i) < t) 0 (length xs)"
  have mono: "f (xs ! i) \<le> f (xs ! j)" if "i \<le> j" "j < length xs" for i j
    using sorted_nth_mono [OF assms, of i j] that by simp
  have "f (xs ! i) < t" if "i \<le> j" "j < length xs" "f (xs ! j) < t" for i j using mono [OF that(1,2)] that(3) by (rule le_less_trans)
  then have b: "\<And>i. i < ?lo \<Longrightarrow> f (xs ! i) < t" "\<And>i. ?lo \<le> i \<Longrightarrow> i < length xs \<Longrightarrow> \<not> f (xs ! i) < t"
    using bsearch_correct [of 0 "length xs" "\<lambda>i. f (xs ! i) < t"] by blast+
  have "?lo < length xs \<and> f (xs ! ?lo) = t" if i: "i < length xs" "f (xs ! i) = t" for i
  proof -
    have "?lo \<le> i" using b(1) [of i] i(2) by (meson less_irrefl not_le)
    then show ?thesis using b(2) [of ?lo] mono [of ?lo i] i by (auto simp: not_less)
  qed
  then show ?thesis by (auto simp: Let_def in_set_conv_nth intro: rev_image_eqI nth_mem)
qed

end
