(* ===== verification/KeyedLists.thy ===== *)
theory KeyedLists
  imports Prelude
begin

text \<open>
  Lists of keyed records in which a later record replaces an earlier one with the same key. The
  memtable's delta buffer, its runs, their merges and the flush all work on such lists; \<open>latest\<close>
  is what they have to agree on.
\<close>

section \<open>The newest record of a key\<close>

definition latest :: "('r \<Rightarrow> 'k) \<Rightarrow> 'r list \<Rightarrow> 'k \<Rightarrow> 'r option" where
  "latest f xs k = find (\<lambda>x. f x = k) (rev xs)"

lemma find_append: "find P (xs @ ys) = (case find P xs of None \<Rightarrow> find P ys | Some x \<Rightarrow> Some x)"
  by (induction xs) auto

lemma latest_Nil [simp]: "latest f [] k = None"
  by (simp add: latest_def)

lemma latest_append:
  "latest f (xs @ ys) k = (case latest f ys k of None \<Rightarrow> latest f xs k | Some x \<Rightarrow> Some x)"
  by (simp add: latest_def find_append split: option.split)

lemma latest_snoc: "latest f (xs @ [x]) k = (if f x = k then Some x else latest f xs k)"
  by (simp add: latest_append latest_def)

lemma latest_Cons:
  "latest f (x # xs) k = (case latest f xs k of None \<Rightarrow> if f x = k then Some x else None | Some y \<Rightarrow> Some y)"
  by (simp add: latest_def find_append split: option.split)

lemma latest_None_iff: "latest f xs k = None \<longleftrightarrow> k \<notin> f ` set xs"
  by (auto simp: latest_def find_None_iff)

lemma latest_SomeD: "latest f xs k = Some x \<Longrightarrow> x \<in> set xs \<and> f x = k"
  by (auto simp: latest_def find_Some_iff) (metis length_rev nth_mem set_rev)

lemma latest_filter:
  "latest f xs k = (let ys = filter (\<lambda>x. f x = k) xs in if ys = [] then None else Some (last ys))"
  by (induction xs rule: rev_induct) (auto simp: latest_snoc Let_def)

lemma latest_concat_cong:
  "(\<And>x. x \<in> set xs \<Longrightarrow> latest f (g x) k = latest f (h x) k) \<Longrightarrow>
     latest f (concat (map g xs)) k = latest f (concat (map h xs)) k"
  by (induction xs) (auto simp: latest_append split: option.split)

section \<open>Uniqueness of the sorted, deduplicated list\<close>

lemma ascending_map_Cons:
  "ascending (map f (x # xs)) \<longleftrightarrow> (\<forall>y \<in> set xs. f x < f y) \<and> ascending (map f xs)"
  by auto

lemma latest_ascending:
  assumes "ascending (map f xs)" "x \<in> set xs"
  shows "latest f xs (f x) = Some x"
  using assms
proof (induction xs)
  case (Cons y ys)
  show ?case
  proof (cases "x \<in> set ys")
    case True
    then show ?thesis using Cons by (simp add: latest_Cons)
  next
    case False
    then have x: "x = y" using Cons.prems by simp
    have "f x \<notin> f ` set ys" using Cons.prems x by force
    then have "latest f ys (f x) = None" by (simp only: latest_None_iff not_False_eq_True)
    then show ?thesis using x by (simp add: latest_Cons)
  qed
qed simp

lemma latest_ascending_iff:
  assumes "ascending (map f xs)"
  shows "latest f xs k = Some x \<longleftrightarrow> x \<in> set xs \<and> f x = k"
  using latest_ascending [OF assms] latest_SomeD [of f xs k x] by auto

lemma ascending_distinct: "ascending (map f xs) \<Longrightarrow> distinct xs"
  by (metis distinct_map strict_sorted_iff)

lemma ascending_unique:
  fixes f :: "'r \<Rightarrow> 'k::linorder"
  assumes "ascending (map f xs)" "ascending (map f ys)" "set xs = set ys"
  shows "xs = ys"
proof -
  have "map f xs = map f ys"
    using assms by (intro strict_sorted_equal) auto
  moreover have "inj_on f (set xs)"
    using assms(1) by (metis distinct_map strict_sorted_iff)
  ultimately show ?thesis
    using assms(3) by (metis map_inj_on Un_absorb)
qed

lemma latest_unique:
  fixes f :: "'r \<Rightarrow> 'k::linorder"
  assumes "ascending (map f xs)" "ascending (map f ys)" "\<And>k. latest f xs k = latest f ys k"
  shows "xs = ys"
proof (rule ascending_unique [OF assms(1,2)])
  have "x \<in> set xs \<longleftrightarrow> x \<in> set ys" for x
    using latest_ascending_iff [OF assms(1), of "f x" x] latest_ascending_iff [OF assms(2), of "f x" x]
      assms(3) [of "f x"] by simp
  then show "set xs = set ys" by blast
qed

section \<open>The grouping loop\<close>

text \<open>
  \<open>for i < n { j := i; for j+1 < n && key(j) == key(j+1) { j++ }; keep j; i = j + 1 }\<close>:
  of every maximal group of equal keys only the last record is kept.
\<close>

fun keepLast :: "('r \<Rightarrow> 'k) \<Rightarrow> 'r list \<Rightarrow> 'r list" where
  "keepLast f (x # y # zs) = (if f x = f y then keepLast f (y # zs) else x # keepLast f (y # zs))"
| "keepLast f xs = xs"

lemma set_keepLast_subset: "set (keepLast f xs) \<subseteq> set xs"
  by (induction f xs rule: keepLast.induct) auto

lemma latest_keepLast: "latest f (keepLast f xs) k = latest f xs k"
  by (induction f xs rule: keepLast.induct) (auto simp: latest_Cons split: option.splits)

lemma ascending_keepLast: "sorted (map f xs) \<Longrightarrow> ascending (map f (keepLast f xs))"
proof (induction f xs rule: keepLast.induct)
  case (1 f x y zs)
  then have IH: "ascending (map f (keepLast f (y # zs)))" by (cases "f x = f y") auto
  have lt: "f x < f z" if "z \<in> set (keepLast f (y # zs))" "f x \<noteq> f y" for z
  proof -
    have "z \<in> set (y # zs)" using that(1) set_keepLast_subset [of f "y # zs"] by (rule rev_subsetD)
    then have "f y \<le> f z" using "1.prems" by auto
    moreover have "f x < f y" using "1.prems" that(2) by (auto simp: less_le)
    ultimately show ?thesis by simp
  qed
  show ?case
  proof (cases "f x = f y")
    case True
    with IH show ?thesis by (simp only: keepLast.simps if_True refl)
  next
    case False
    with IH lt show ?thesis
      by (simp only: keepLast.simps if_False list.map sorted_wrt.simps ball_simps set_map imageE) blast
  qed
qed auto

section \<open>Sorting through an index permutation\<close>

text \<open>
  Both sorts of the memtable order an index slice by (key, tie-breaker), where the tie-breaker
  grows with the index; that is the stable sort of the records by key.
\<close>

lemma filter_split_nth:
  "b < length ys \<Longrightarrow> P (ys ! b) \<Longrightarrow>
     filter P ys = filter P (take b ys) @ ys ! b # filter P (drop (Suc b) ys)"
  using arg_cong [OF id_take_nth_drop [of b ys], where f = "filter P"] by simp

lemma sort_key_index:
  fixes g :: "nat \<Rightarrow> 'k::linorder" and h :: "nat \<Rightarrow> nat"
  assumes "\<And>i j. i \<le> j \<Longrightarrow> j < n \<Longrightarrow> h i \<le> h j"
  shows "sort_key (\<lambda>i. (g i, h i)) [0..<n] = sort_key g [0..<n]"
proof (rule properties_for_sort_key)
  let ?ys = "sort_key g [0..<n]"
  show "mset ?ys = mset [0..<n]" by simp
  have grp: "filter (\<lambda>i. g i = c) ?ys = filter (\<lambda>i. g i = c) [0..<n]" for c
    by (rule sort_key_stable)
  show "filter (\<lambda>x. (g k, h k) = (g x, h x)) ?ys = filter (\<lambda>x. (g k, h k) = (g x, h x)) [0..<n]" for k
  proof -
    have "filter (\<lambda>x. (g k, h k) = (g x, h x)) zs = filter (\<lambda>x. h k = h x) (filter (\<lambda>x. g x = g k) zs)" for zs
      by (simp add: filter_filter) (metis (mono_tags, lifting))
    then show ?thesis by (simp only: grp)
  qed
  show "sorted (map (\<lambda>i. (g i, h i)) ?ys)"
  proof (rule sorted_iff_nth_mono_less [THEN iffD2], intro allI impI)
    fix a b assume ab: "a < b" "b < length (map (\<lambda>i. (g i, h i)) ?ys)"
    then have len: "b < length ?ys" "a < length ?ys" by auto
    have "sorted (map g ?ys)" by simp
    then have le: "g (?ys ! a) \<le> g (?ys ! b)" using ab len by (auto simp: sorted_iff_nth_mono_less)
    have "h (?ys ! a) \<le> h (?ys ! b)" if eq: "g (?ys ! a) = g (?ys ! b)"
    proof -
      let ?P = "\<lambda>i. g i = g (?ys ! b)"
      define us vs where "us = filter ?P (take b ?ys)" and "vs = filter ?P (drop (Suc b) ?ys)"
      have uv1: "filter ?P [0..<n] = us @ ?ys ! b # vs"
        using filter_split_nth [of b ?ys ?P] len unfolding us_def vs_def grp by simp
      have "?ys ! a \<in> set (take b ?ys)" using ab len by (auto simp: in_set_conv_nth)
      then have uv2: "?ys ! a \<in> set us" using eq by (simp add: us_def)
      have "sorted (filter ?P [0..<n])" by (rule sorted_wrt_filter) simp
      then have "?ys ! a \<le> ?ys ! b" unfolding uv1 using uv2 by (auto simp: sorted_append)
      moreover have "?ys ! b < n" using len by (metis nth_mem set_sort set_upt atLeastLessThan_iff)
      ultimately show ?thesis by (rule assms)
    qed
    with le show "map (\<lambda>i. (g i, h i)) ?ys ! a \<le> map (\<lambda>i. (g i, h i)) ?ys ! b"
      using len by (auto simp: less_eq_prod_def less_le)
  qed
qed

lemma map_insort_key: "map g (insort_key (\<lambda>i. f (g i)) x xs) = insort_key f (g x) (map g xs)"
  by (induction xs) auto

lemma map_sort_key: "map g (sort_key (\<lambda>i. f (g i)) xs) = sort_key f (map g xs)"
  by (induction xs) (auto simp: map_insort_key)

lemma sort_by_index:
  fixes f :: "'r \<Rightarrow> 'k::linorder"
  assumes "\<And>i j. i \<le> j \<Longrightarrow> j < length xs \<Longrightarrow> h i \<le> (h j :: nat)"
  shows "map ((!) xs) (sort_key (\<lambda>i. (f (xs ! i), h i)) [0..<length xs]) = sort_key f xs"
  by (simp add: sort_key_index [OF assms] map_sort_key map_nth)

lemma latest_sort_key: "latest f (sort_key f xs) k = latest f xs k"
  by (simp add: latest_filter sort_key_stable)

text \<open>The newest record of every key, in key order: what materialisation, merging and draining
  all compute.\<close>

definition newest :: "('r \<Rightarrow> 'k::linorder) \<Rightarrow> 'r list \<Rightarrow> 'r list" where
  "newest f xs = keepLast f (sort_key f xs)"

lemma ascending_newest [simp]: "ascending (map f (newest f xs))"
  by (simp add: newest_def ascending_keepLast)

lemma latest_newest [simp]: "latest f (newest f xs) k = latest f xs k"
  by (simp add: newest_def latest_keepLast latest_sort_key)

lemma set_newest: "set (newest f xs) \<subseteq> set xs"
  using set_keepLast_subset [of f "sort_key f xs"] by (simp add: newest_def)

lemma keys_newest: "f ` set (newest f xs) = f ` set xs"
  using latest_None_iff [of f "newest f xs"] latest_None_iff [of f xs] by (auto simp only: latest_newest)

lemma newest_unique:
  "ascending (map f ys) \<Longrightarrow> (\<And>k. latest f ys k = latest f xs k) \<Longrightarrow> ys = newest f xs"
  by (rule latest_unique, assumption, rule ascending_newest, simp only: latest_newest)

lemma newest_append_cong:
  "newest f (newest f xs @ ys) = newest f (xs @ ys)"
  by (rule newest_unique) (simp_all add: latest_append split: option.split)

end
