(* ===== verification/Pages.thy ===== *)
theory Pages
  imports KeyedLists
begin

text \<open>
  The on-disk page formats of \<^verbatim>\<open>src/go/internal/pagestore\<close>: varints and prefix-compressed leaf pages
  (\<open>pages.go\<close>), index pages, root blobs, root names and prefix ranges (\<open>types.go\<close>), and the arena
  decoders (\<open>flat.go\<close>). Every format is shown to be read back as it was written, the arena decoders
  to agree with the nested ones, and the page splits to lose and reorder nothing.
\<close>

unbundle bit_operations_syntax

section \<open>Varints\<close>

fun CommonPrefixLen :: "bytes \<Rightarrow> bytes \<Rightarrow> nat" where
  "CommonPrefixLen (a # as) (b # bs) = (if a = b then Suc (CommonPrefixLen as bs) else 0)"
| "CommonPrefixLen _ _ = 0"

lemma unat_drop_bit_7_less: "drop_bit 7 (v::64 word) \<noteq> 0 \<Longrightarrow> unat (drop_bit 7 v) < unat v"
proof -
  assume a: "drop_bit 7 v \<noteq> 0"
  have d: "unat (drop_bit 7 v) = unat v div 128"
    by (subst unat_drop_bit_eq) (simp add: drop_bit_eq_div)
  have "unat (drop_bit 7 v) \<noteq> 0" using a by (simp only: unat_eq_zero not_False_eq_True)
  then show ?thesis unfolding d by simp
qed

function varintBytes :: "uint64 \<Rightarrow> bytes" where
  "varintBytes v =
     (let b = ucast (v AND 0x7f) :: byte; v' = drop_bit 7 v
      in if v' = 0 then [b] else (b OR 0x80) # varintBytes v')"
  by pat_completeness auto
termination
  by (relation "measure unat") (simp_all add: unat_drop_bit_7_less del: unsigned_drop_bit_eq)

declare varintBytes.simps [simp del]

text \<open>\<open>WriteVarint\<close> is only called on lengths.\<close>

definition WriteVarint :: "bytes \<Rightarrow> nat \<Rightarrow> bytes" where
  "WriteVarint buf value = buf @ varintBytes (word_of_nat value)"

function readVarintFrom :: "bytes \<Rightarrow> nat \<Rightarrow> nat \<Rightarrow> int64 \<Rightarrow> (int64 \<times> nat) result" where
  "readVarintFrom data offset shift value =
     (if offset \<ge> length data then Inl (Error ''truncated varint'')
      else
        let b = data ! offset;
            value' = value OR push_bit shift (ucast (b AND 0x7f))
        in if b AND 0x80 = 0 then Inr (value', offset + 1)
           else if shift + 7 \<ge> 64 then Inl (Error ''varint too long'')
           else readVarintFrom data (offset + 1) (shift + 7) value')"
  by pat_completeness auto
termination
  by (relation "measure (\<lambda>(data, offset, shift, value). length data - offset)") auto

declare readVarintFrom.simps [simp del]

definition ReadVarint :: "bytes \<Rightarrow> nat \<Rightarrow> (int64 \<times> nat) result" where
  "ReadVarint data offset = readVarintFrom data offset 0 0"

section \<open>Leaf pages\<close>

definition MaxRawSize :: nat where
  "MaxRawSize = 512 * 1024"

definition putCount :: "nat \<Rightarrow> bytes" where
  "putCount n = put_be 2 (word_of_nat n :: uint16)"

definition getCount :: "bytes \<Rightarrow> nat" where
  "getCount data = unat (get_be (take 2 data) :: uint16)"

definition serKey :: "bytes \<Rightarrow> bytes \<Rightarrow> bytes" where
  "serKey prev key =
     (let plen = CommonPrefixLen prev key; suffix = drop plen key
      in WriteVarint (WriteVarint [] plen) (length suffix) @ suffix)"

fun serKeys :: "bytes \<Rightarrow> bytes list \<Rightarrow> bytes" where
  "serKeys prev [] = []"
| "serKeys prev (key # ks) = serKey prev key @ serKeys key ks"

definition SerializePage :: "bytes list \<Rightarrow> bytes" where
  "SerializePage keys = putCount (length keys) @ serKeys [] keys"

text \<open>
  The part every decoder repeats: two varints, the truncation check (for index pages with room for
  the 16 bytes of the UUID), the clamped prefix, the suffix. Negative lengths, which a corrupt
  varint can produce, pass the truncation check and panic in the slice expressions.
\<close>

definition readKey :: "nat \<Rightarrow> string \<Rightarrow> bytes \<Rightarrow> nat \<Rightarrow> bytes \<Rightarrow> (bytes \<times> nat) result" where
  "readKey extra msg data offset prev =
     rbind (ReadVarint data offset) (\<lambda>(plenRaw, next1).
     rbind (ReadVarint data next1) (\<lambda>(slen, next2).
       let extent = wrapAdd (int next2) (sint slen)
       in if wrapAdd extent (int extra) > int (length data) then Inl (Error msg)
          else
            let plen = (if sint plenRaw > int (length prev) then int (length prev) else sint plenRaw)
            in if plen < 0 \<or> extent < int next2 \<or> extent > int (length data)
               then Inl (Panic ''slice bounds out of range'')
               else Inr (take (nat plen) prev @ slice data next2 (nat extent), nat extent)))"

fun deserLoop :: "nat \<Rightarrow> bytes \<Rightarrow> nat \<Rightarrow> bytes \<Rightarrow> bytes list result" where
  "deserLoop 0 data offset prev = Inr []"
| "deserLoop (Suc n) data offset prev =
     rbind (readKey 0 ''truncated key'' data offset prev) (\<lambda>(key, offset').
     rbind (deserLoop n data offset' key) (\<lambda>out. Inr (key # out)))"

definition DeserializePage :: "bytes \<Rightarrow> bytes list result" where
  "DeserializePage data =
     (if length data < 2 then Inl (Error ''page too short'')
      else deserLoop (getCount data) data 2 [])"

function BuildPages :: "bytes list \<Rightarrow> (bytes \<times> bytes) list" where
  "BuildPages keys =
     (if length keys = 0 then []
      else if length keys = 1 then [(keys ! 0, SerializePage keys)]
      else if sum_list (map length keys) \<le> MaxRawSize then [(keys ! 0, SerializePage keys)]
      else let mid = length keys div 2 in BuildPages (take mid keys) @ BuildPages (drop mid keys))"
  by pat_completeness auto
termination
  by (relation "measure length") (auto simp: half_less)

declare BuildPages.simps [simp del]

section \<open>Key-value leaf pages\<close>

fun serPairs :: "bytes \<Rightarrow> (bytes \<times> bytes) list \<Rightarrow> bytes" where
  "serPairs prev [] = []"
| "serPairs prev ((key, value) # ps) =
     serKey prev key @ WriteVarint [] (length value) @ value @ serPairs key ps"

definition SerializePageKv :: "(bytes \<times> bytes) list \<Rightarrow> bytes" where
  "SerializePageKv pairs = putCount (length pairs) @ serPairs [] pairs"

definition readValue :: "bytes \<Rightarrow> nat \<Rightarrow> (bytes \<times> nat) result" where
  "readValue data offset =
     rbind (ReadVarint data offset) (\<lambda>(vlen, next3).
       let valEnd = wrapAdd (int next3) (sint vlen)
       in if valEnd > int (length data) then Inl (Error ''truncated value'')
          else if valEnd < int next3 then Inl (Panic ''makeslice: len out of range'')
          else Inr (slice data next3 (nat valEnd), nat valEnd))"

fun deserKvLoop :: "nat \<Rightarrow> bytes \<Rightarrow> nat \<Rightarrow> bytes \<Rightarrow> (bytes \<times> bytes) list result" where
  "deserKvLoop 0 data offset prev = Inr []"
| "deserKvLoop (Suc n) data offset prev =
     rbind (readKey 0 ''truncated key'' data offset prev) (\<lambda>(key, offset').
     rbind (readValue data offset') (\<lambda>(value, offset'').
     rbind (deserKvLoop n data offset'' key) (\<lambda>out. Inr ((key, value) # out))))"

definition DeserializePageKv :: "bytes \<Rightarrow> (bytes \<times> bytes) list result" where
  "DeserializePageKv data =
     (if length data < 2 then Inl (Error ''page too short'')
      else deserKvLoop (getCount data) data 2 [])"

function BuildPagesKv :: "(bytes \<times> bytes) list \<Rightarrow> (bytes \<times> bytes) list" where
  "BuildPagesKv pairs =
     (if length pairs = 0 then []
      else if length pairs = 1 then [(fst (pairs ! 0), SerializePageKv pairs)]
      else if sum_list (map (\<lambda>p. length (fst p) + length (snd p)) pairs) \<le> MaxRawSize
      then [(fst (pairs ! 0), SerializePageKv pairs)]
      else let mid = length pairs div 2 in BuildPagesKv (take mid pairs) @ BuildPagesKv (drop mid pairs))"
  by pat_completeness auto
termination
  by (relation "measure length") (auto simp: half_less)

declare BuildPagesKv.simps [simp del]

section \<open>Index pages and roots\<close>

type_synonym UUID = bytes

record CfTree =
  RootUUID :: UUID
  Height :: byte
  NumLeaves :: uint32

definition EmptyUUID :: UUID where
  "EmptyUUID = replicate 16 0"

definition EmptyTree :: CfTree where
  "EmptyTree = \<lparr>RootUUID = EmptyUUID, Height = 0, NumLeaves = 0\<rparr>"

definition CmpSeq :: "bytes \<Rightarrow> bytes \<Rightarrow> int" where
  "CmpSeq a b = cmp_loop a b"

definition rootMagic :: bytes where
  "rootMagic = [0x45, 0x56, 0x54, 0x31]"

definition rootVersion :: uint16 where
  "rootVersion = 2"

definition serTree :: "CfTree \<Rightarrow> bytes" where
  "serTree t = RootUUID t @ [Height t] @ put_be 4 (NumLeaves t)"

definition SerializeRoot :: "CfTree list \<Rightarrow> bytes" where
  "SerializeRoot trees =
     rootMagic @ put_be 2 rootVersion @ putCount (length trees) @ concat (map serTree trees)"

fun deserTrees :: "nat \<Rightarrow> bytes \<Rightarrow> nat \<Rightarrow> CfTree list" where
  "deserTrees 0 data off = []"
| "deserTrees (Suc n) data off =
     \<lparr>RootUUID = slice data off (off + 16), Height = data ! (off + 16),
      NumLeaves = get_be (slice data (off + 17) (off + 21))\<rparr> # deserTrees n data (off + 21)"

definition DeserializeRoot :: "bytes \<Rightarrow> CfTree list result" where
  "DeserializeRoot data =
     (if length data < 8 \<or> take 4 data \<noteq> rootMagic then Inl (Error ''invalid root magic'')
      else if (get_be (slice data 4 6) :: uint16) \<noteq> rootVersion then Inl (Error ''unsupported root version'')
      else
        let numCf = unat (get_be (slice data 6 8) :: uint16)
        in if length data < 8 + numCf * 21 then Inl (Error ''truncated root'')
           else Inr (deserTrees numCf data 8))"

record IndexEntry =
  ieKey :: bytes
  ieUUID :: UUID

fun serEntries :: "bytes \<Rightarrow> IndexEntry list \<Rightarrow> bytes" where
  "serEntries prev [] = []"
| "serEntries prev (e # es) = serKey prev (ieKey e) @ ieUUID e @ serEntries (ieKey e) es"

definition SerializeIndexPage :: "IndexEntry list \<Rightarrow> bytes" where
  "SerializeIndexPage entries = putCount (length entries) @ serEntries [] entries"

fun deserIndexLoop :: "nat \<Rightarrow> bytes \<Rightarrow> nat \<Rightarrow> bytes \<Rightarrow> IndexEntry list result" where
  "deserIndexLoop 0 data offset prev = Inr []"
| "deserIndexLoop (Suc n) data offset prev =
     rbind (readKey 16 ''truncated index entry'' data offset prev) (\<lambda>(key, offset').
     rbind (deserIndexLoop n data (offset' + 16) key) (\<lambda>out.
       Inr (\<lparr>ieKey = key, ieUUID = slice data offset' (offset' + 16)\<rparr> # out)))"

definition DeserializeIndexPage :: "bytes \<Rightarrow> IndexEntry list result" where
  "DeserializeIndexPage data =
     (if length data < 2 then Inl (Error ''index page too short'')
      else deserIndexLoop (getCount data) data 2 [])"

definition IndexPageMaxSize :: nat where
  "IndexPageMaxSize = 512 * 1024"

function SplitIndexEntries :: "IndexEntry list \<Rightarrow> bytes list" where
  "SplitIndexEntries entries =
     (if length entries = 0 then []
      else let total = SerializeIndexPage entries
           in if length total \<le> IndexPageMaxSize \<or> length entries = 1 then [total]
              else let mid = length entries div 2
                   in SplitIndexEntries (take mid entries) @ SplitIndexEntries (drop mid entries))"
  by pat_completeness auto
termination
  by (relation "measure length") (auto simp: half_less)

declare SplitIndexEntries.simps [simp del]

section \<open>Root names\<close>

definition hexDigit :: "nat \<Rightarrow> char" where
  "hexDigit d = (if d < 10 then char_of (48 + d) else char_of (87 + d))"

definition hex16 :: "uint64 \<Rightarrow> string" where
  "hex16 w = concat (map (\<lambda>b. [hexDigit (unat b div 16), hexDigit (unat b mod 16)]) (put_be 8 w))"

text \<open>\<open>ts\<close> is the clock reading, nanoseconds since the epoch.\<close>

definition MakeRootName :: "int64 \<Rightarrow> string" where
  "MakeRootName ts = ''root_'' @ hex16 (NOT ts + 1)"

definition hexVal :: "char \<Rightarrow> nat option" where
  "hexVal c =
     (let n = (of_char c :: nat)
      in if 48 \<le> n \<and> n \<le> 57 then Some (n - 48)
         else if 97 \<le> n \<and> n \<le> 102 then Some (n - 87)
         else if 65 \<le> n \<and> n \<le> 70 then Some (n - 55) else None)"

text \<open>\<open>strconv.ParseUint(s, 16, 64)\<close>\<close>

fun parseHexFrom :: "nat \<Rightarrow> string \<Rightarrow> nat option" where
  "parseHexFrom acc [] = Some acc"
| "parseHexFrom acc (c # cs) =
     (case hexVal c of
        None \<Rightarrow> None
      | Some d \<Rightarrow> if acc * 16 + d \<ge> 2 ^ 64 then None else parseHexFrom (acc * 16 + d) cs)"

definition ParseRootUs :: "string \<Rightarrow> int64" where
  "ParseRootUs name =
     (if take 5 name \<noteq> ''root_'' then 0
      else case (if drop 5 name = [] then None else parseHexFrom 0 (drop 5 name)) of
          None \<Rightarrow> 0
        | Some bits \<Rightarrow> - word_of_nat bits)"

section \<open>Prefix ranges\<close>

definition partitionPoint :: "IndexEntry list \<Rightarrow> bytes \<Rightarrow> nat" where
  "partitionPoint entries target =
     bsearch (\<lambda>mid. CmpSeq (ieKey (entries ! mid)) target < 0) 0 (length entries)"

text \<open>The loop of \<open>PrefixEnd\<close> on the reversed bytes: the last byte is at the head.\<close>

fun prefixEndRev :: "bytes \<Rightarrow> bytes option" where
  "prefixEndRev [] = None"
| "prefixEndRev (b # bs) = (if b < 0xff then Some ((b + 1) # bs) else prefixEndRev bs)"

definition PrefixEnd :: "bytes \<Rightarrow> bytes option" where
  "PrefixEnd p = map_option rev (prefixEndRev (rev p))"

definition FindPrefixRange :: "IndexEntry list \<Rightarrow> bytes \<Rightarrow> nat \<times> nat" where
  "FindPrefixRange entries p =
     (if p = [] then (0, length entries)
      else
        let s = partitionPoint entries p;
            startIdx = (if s > 0 then s - 1 else 0);
            endIdx = (case PrefixEnd p of Some pe \<Rightarrow> partitionPoint entries pe | None \<Rightarrow> length entries)
        in (if endIdx < startIdx then endIdx else startIdx, endIdx))"

section \<open>Arena leaves\<close>

text \<open>Offsets are \<open>int32\<close>: 32-bit words read with their sign.\<close>

record FlatLeaf =
  flBuf :: bytes
  flOffs :: "32 word list"

record FlatLeafKV =
  fkKbuf :: bytes
  fkVbuf :: bytes
  fkKoffs :: "32 word list"
  fkVoffs :: "32 word list"

definition viewAt :: "bytes \<Rightarrow> 32 word list \<Rightarrow> nat \<Rightarrow> bytes" where
  "viewAt b offs i = slice b (nat (sint (offs ! i))) (nat (sint (offs ! (i + 1))))"

definition FlatLeaf_Count :: "FlatLeaf option \<Rightarrow> nat" where
  "FlatLeaf_Count f = (case f of None \<Rightarrow> 0 | Some l \<Rightarrow> length (flOffs l) - 1)"

definition FlatLeaf_Key :: "FlatLeaf \<Rightarrow> nat \<Rightarrow> bytes" where
  "FlatLeaf_Key f i = viewAt (flBuf f) (flOffs f) i"

definition FlatLeafKV_Count :: "FlatLeafKV option \<Rightarrow> nat" where
  "FlatLeafKV_Count f = (case f of None \<Rightarrow> 0 | Some l \<Rightarrow> length (fkKoffs l) - 1)"

definition FlatLeafKV_Key :: "FlatLeafKV \<Rightarrow> nat \<Rightarrow> bytes" where
  "FlatLeafKV_Key f i = viewAt (fkKbuf f) (fkKoffs f) i"

definition FlatLeafKV_Value :: "FlatLeafKV \<Rightarrow> nat \<Rightarrow> bytes" where
  "FlatLeafKV_Value f i = viewAt (fkVbuf f) (fkVoffs f) i"

definition FlatLeafKV_Pair :: "FlatLeafKV \<Rightarrow> nat \<Rightarrow> (bytes \<times> bytes) option" where
  "FlatLeafKV_Pair f i =
     (if i + 1 \<ge> length (fkKoffs f) then None else Some (FlatLeafKV_Key f i, FlatLeafKV_Value f i))"

definition off32 :: "bytes \<Rightarrow> 32 word" where
  "off32 b = word_of_nat (length b)"

fun flatLoop :: "nat \<Rightarrow> bytes \<Rightarrow> nat \<Rightarrow> nat \<times> nat \<Rightarrow> FlatLeaf \<Rightarrow> FlatLeaf result" where
  "flatLoop 0 data offset prev f = Inr f"
| "flatLoop (Suc n) data offset (prevStart, prevEnd) f =
     rbind (readKey 0 ''truncated key'' data offset (slice (flBuf f) prevStart prevEnd)) (\<lambda>(key, offset').
       let start = length (flBuf f); b = flBuf f @ key
       in flatLoop n data offset' (start, length b) (f\<lparr>flBuf := b, flOffs := flOffs f @ [off32 b]\<rparr>))"

definition DecodePageFlat :: "bytes \<Rightarrow> FlatLeaf result" where
  "DecodePageFlat data =
     (if length data < 2 then Inl (Error ''page too short'')
      else flatLoop (getCount data) data 2 (0, 0) \<lparr>flBuf = [], flOffs = [0]\<rparr>)"

fun flatKvLoop :: "nat \<Rightarrow> bytes \<Rightarrow> nat \<Rightarrow> nat \<times> nat \<Rightarrow> FlatLeafKV \<Rightarrow> FlatLeafKV result" where
  "flatKvLoop 0 data offset prev f = Inr f"
| "flatKvLoop (Suc n) data offset (prevStart, prevEnd) f =
     rbind (readKey 0 ''truncated key'' data offset (slice (fkKbuf f) prevStart prevEnd)) (\<lambda>(key, offset').
     rbind (readValue data offset') (\<lambda>(value, offset'').
       let kstart = length (fkKbuf f); kb = fkKbuf f @ key; vb = fkVbuf f @ value
       in flatKvLoop n data offset'' (kstart, length kb)
            (f\<lparr>fkKbuf := kb, fkKoffs := fkKoffs f @ [off32 kb],
               fkVbuf := vb, fkVoffs := fkVoffs f @ [off32 vb]\<rparr>)))"

definition DecodePageKvFlat :: "bytes \<Rightarrow> FlatLeafKV result" where
  "DecodePageKvFlat data =
     (if length data < 2 then Inl (Error ''page too short'')
      else flatKvLoop (getCount data) data 2 (0, 0)
             \<lparr>fkKbuf = [], fkVbuf = [], fkKoffs = [0], fkVoffs = [0]\<rparr>)"

definition ToFlat :: "bytes list \<Rightarrow> FlatLeaf" where
  "ToFlat keys =
     fold (\<lambda>k f. let b = flBuf f @ k in f\<lparr>flBuf := b, flOffs := flOffs f @ [off32 b]\<rparr>) keys
       \<lparr>flBuf = [], flOffs = [0]\<rparr>"

section \<open>Varints are read back\<close>

lemma lit_7f: "(0x7f :: 'a::len word) = mask 7"
  by (simp add: mask_eq_exp_minus_1)

lemma lit_80: "(0x80 :: byte) = push_bit 7 1"
  by simp

lemma bit_80: "bit (push_bit 7 1 :: byte) n \<longleftrightarrow> n = 7"
  unfolding bit_push_bit_iff bit_1_iff possible_bit_word by auto

lemma byte_low7: "ucast (((ucast (v AND 0x7f) :: byte) OR c) AND 0x7f) = v AND (0x7f :: uint64)"
  if "\<And>n. n < 7 \<Longrightarrow> \<not> bit c n"
proof (rule bit_word_eqI)
  fix n assume "n < LENGTH(64)"
  then show "bit (ucast (((ucast (v AND 0x7f) :: byte) OR c) AND 0x7f) :: uint64) n = bit (v AND 0x7f) n"
    unfolding lit_7f
    unfolding bit_ucast_iff bit_and_iff bit_or_iff bit_mask_iff using that by auto
qed

lemma byte_cont: "((ucast (v AND (0x7f :: uint64)) :: byte) OR 0x80) AND 0x80 \<noteq> 0"
  "(ucast (v AND (0x7f :: uint64)) :: byte) AND 0x80 = 0"
proof -
  have "bit (((ucast (v AND (0x7f :: uint64)) :: byte) OR 0x80) AND 0x80) 7"
    unfolding lit_80 bit_and_iff bit_or_iff bit_80 by simp
  then show "((ucast (v AND (0x7f :: uint64)) :: byte) OR 0x80) AND 0x80 \<noteq> 0" by (metis bit_0_eq bot_apply bot_bool_def)
  show "(ucast (v AND (0x7f :: uint64)) :: byte) AND 0x80 = 0"
    unfolding lit_7f lit_80
    by (rule bit_word_eqI) (unfold bit_and_iff bit_ucast_iff bit_mask_iff bit_80, auto)
qed

lemma push_bit_split7:
  "(push_bit s (v AND 0x7f) OR push_bit (s + 7) (drop_bit 7 v) :: uint64) = push_bit s v"
proof (rule bit_word_eqI)
  fix n assume "n < LENGTH(64)"
  then show "bit (push_bit s (v AND 0x7f) OR push_bit (s + 7) (drop_bit 7 v) :: uint64) n = bit (push_bit s v) n"
    unfolding lit_7f bit_or_iff bit_push_bit_iff bit_and_iff bit_mask_iff bit_drop_bit_eq
    by (cases "n < s + 7") (auto simp: add.commute)
qed

lemma bit80_low: "n < 7 \<Longrightarrow> \<not> bit (0x80 :: byte) n"
  unfolding lit_80 bit_80 by simp

lemma readVarintFrom_varintBytes:
  assumes "unat v < 2 ^ (64 - s)" "s < 64"
  shows "readVarintFrom (pre @ varintBytes v @ post) (length pre) s x
    = Inr (x OR push_bit s v, length pre + length (varintBytes v))"
  using assms
proof (induction v arbitrary: pre s x rule: varintBytes.induct)
  case (1 v)
  define b where "b = (ucast (v AND 0x7f) :: byte)"
  show ?case
  proof (cases "drop_bit 7 v = 0")
    case True
    have vb: "varintBytes v = [b]" using True by (simp add: varintBytes.simps [of v] b_def)
    have "v AND 0x7f = v"
      using push_bit_split7 [of 0 v] True by simp
    moreover have "ucast (b AND 0x7f) = v AND 0x7f"
      using byte_low7 [of 0 v] by (simp add: b_def)
    ultimately have "ucast (b AND 0x7f) = v" by simp
    moreover have "b AND 0x80 = 0" unfolding b_def by (rule byte_cont(2))
    ultimately show ?thesis
      by (simp add: readVarintFrom.simps [of "pre @ b # post"] vb nth_append)
  next
    case False
    let ?v' = "drop_bit 7 v"
    have vb: "varintBytes v = (b OR 0x80) # varintBytes ?v'"
      using False by (simp add: varintBytes.simps [of v] b_def)
    have u': "unat ?v' = unat v div 128"
      by (subst unat_drop_bit_eq) (simp add: drop_bit_eq_div)
    have "unat ?v' \<noteq> 0" using False by (simp only: unat_eq_zero not_False_eq_True)
    then have "128 \<le> unat v" unfolding u' by simp
    then have "(2::nat) ^ 7 < 2 ^ (64 - s)" using "1.prems"(1) by simp
    then have s7: "s + 7 < 64" using power_less_imp_less_exp [of "2::nat" 7 "64 - s"] by simp
    have "unat v < 128 * 2 ^ (64 - (s + 7))"
    proof -
      have "(2::nat) ^ (64 - s) = 2 ^ 7 * 2 ^ (64 - (s + 7))"
        using s7 power_add [of "2::nat" 7 "64 - (s + 7)"] by simp
      then show ?thesis using "1.prems"(1) by simp
    qed
    then have lt: "unat ?v' < 2 ^ (64 - (s + 7))" unfolding u' by (simp add: div_less_iff_less_mult mult.commute)
    have bb: "ucast ((b OR 0x80) AND 0x7f) = v AND 0x7f"
      using byte_low7 [of "0x80" v] bit80_low by (simp add: b_def)
    have IH: "readVarintFrom ((pre @ [b OR 0x80]) @ varintBytes ?v' @ post) (length (pre @ [b OR 0x80])) (s + 7) y
        = Inr (y OR push_bit (s + 7) ?v', length (pre @ [b OR 0x80]) + length (varintBytes ?v'))" for y
      using "1.IH" [OF b_def refl False, of "s + 7" "pre @ [b OR 0x80]" y] lt s7 by simp
    have "readVarintFrom (pre @ varintBytes v @ post) (length pre) s x
        = readVarintFrom (pre @ varintBytes v @ post) (length pre + 1) (s + 7) (x OR push_bit s (v AND 0x7f))"
      using byte_cont(1) [of v] s7 bb
      by (subst readVarintFrom.simps) (simp add: vb nth_append b_def [symmetric])
    also have "\<dots> = Inr ((x OR push_bit s (v AND 0x7f)) OR push_bit (s + 7) ?v',
        length pre + 1 + length (varintBytes ?v'))"
      using IH [of "x OR push_bit s (v AND 0x7f)"] by (simp add: vb)
    also have "(x OR push_bit s (v AND 0x7f)) OR push_bit (s + 7) ?v' = x OR push_bit s v"
      by (simp only: or.assoc push_bit_split7)
    finally show ?thesis by (simp add: vb)
  qed
qed

lemma ReadVarint_WriteVarint:
  assumes "n < 2 ^ 63" "off = length pre"
  shows "ReadVarint (pre @ WriteVarint [] n @ post) off = Inr (word_of_nat n, off + length (WriteVarint [] n))"
proof -
  have "unat (word_of_nat n :: uint64) < 2 ^ (64 - 0)" using unsigned_less [of "word_of_nat n :: uint64"] by simp
  then show ?thesis
    using readVarintFrom_varintBytes [of "word_of_nat n" 0 pre post 0] assms
    by (simp add: ReadVarint_def WriteVarint_def)
qed

lemma sint_of_nat_small: "n < 2 ^ 63 \<Longrightarrow> sint (word_of_nat n :: int64) = int n"
proof -
  assume n: "n < 2 ^ 63"
  have "(word_of_nat n :: int64) = word_of_int (int n)" by simp
  moreover have "sint (word_of_int (int n) :: int64) = int n"
    using n by (subst signed_of_int) (simp add: signed_take_bit_int_eq_self)
  ultimately show ?thesis by simp
qed

section \<open>Pages are read back\<close>

lemma CommonPrefixLen_le: "CommonPrefixLen a b \<le> length a" "CommonPrefixLen a b \<le> length b"
  by (induction a b rule: CommonPrefixLen.induct) auto

lemma CommonPrefixLen_take: "take (CommonPrefixLen a b) a = take (CommonPrefixLen a b) b"
  by (induction a b rule: CommonPrefixLen.induct) auto

lemma CommonPrefixLen_max:
  "i = CommonPrefixLen a b \<Longrightarrow> i < length a \<Longrightarrow> i < length b \<Longrightarrow> a ! i \<noteq> b ! i"
  by (induction a b arbitrary: i rule: CommonPrefixLen.induct) auto

text \<open>\<open>small\<close>: far below the range of a Go \<open>int\<close>.\<close>

abbreviation small :: "nat \<Rightarrow> bool" where
  "small n \<equiv> n < 2 ^ 62"

lemma readKey_serKey:
  assumes data: "data = pre @ serKey prev key @ post" "small (length data)" "small (length prev)"
    and extra: "extra \<le> length post"
  shows "readKey extra msg data (length pre) prev = Inr (key, length pre + length (serKey prev key))"
proof -
  define p where "p = CommonPrefixLen prev key"
  define s where "s = drop p key"
  let ?v1 = "WriteVarint [] p" and ?v2 = "WriteVarint [] (length s)"
  have ser: "serKey prev key = ?v1 @ ?v2 @ s"
    by (simp add: serKey_def Let_def p_def s_def WriteVarint_def)
  have d1: "data = pre @ ?v1 @ (?v2 @ s @ post)" and d2: "data = (pre @ ?v1) @ ?v2 @ (s @ post)"
    and d3: "data = (pre @ ?v1 @ ?v2) @ s @ post"
    using data(1) ser by simp_all
  define o1 o2 where "o1 = length pre + length ?v1" and "o2 = length pre + length ?v1 + length ?v2"
  have len: "length data = o2 + length s + length post" unfolding d3 by (simp add: o2_def)
  have p63: "p < 2 ^ 63" and s63: "length s < 2 ^ 63"
    using CommonPrefixLen_le(1) [of prev key] data(2,3) len by (simp_all add: p_def)
  have r1: "ReadVarint data (length pre) = Inr (word_of_nat p, o1)"
    unfolding d1 o1_def by (rule ReadVarint_WriteVarint [OF p63 refl])
  have r2: "ReadVarint data o1 = Inr (word_of_nat (length s), o2)"
    unfolding d2 o1_def o2_def using ReadVarint_WriteVarint [OF s63, of _ "pre @ ?v1" "s @ post"] by simp
  have si: "sint (word_of_nat (length s) :: int64) = int (length s)" "sint (word_of_nat p :: int64) = int p"
    using sint_of_nat_small [OF s63] sint_of_nat_small [OF p63] by simp_all
  have e1: "wrapAdd (int o2) (int (length s)) = int (o2 + length s)"
    using data(2) len by (subst wrapAdd_id) auto
  have e2: "wrapAdd (int (o2 + length s)) (int extra) = int (o2 + length s + extra)"
    using data(2) len extra by (subst wrapAdd_id) auto
  have pl: "\<not> int p > int (length prev)" using CommonPrefixLen_le(1) [of prev key] by (simp add: p_def)
  have sl: "slice data o2 (o2 + length s) = s"
    unfolding d3 by (rule slice_mid) (simp_all add: o2_def)
  have "take p prev @ s = key" using CommonPrefixLen_take [of prev key] by (simp add: p_def s_def)
  moreover have "o2 + length s = length pre + length (serKey prev key)" by (simp add: ser o2_def)
  ultimately show ?thesis
    unfolding readKey_def r1 r2 rbind_simps prod.case Let_def si e1 e2
    using pl len extra sl by (auto simp del: of_nat_add)
qed

lemma getCount_putCount: "n < 65536 \<Longrightarrow> getCount (putCount n @ rest) = n"
proof -
  assume n: "n < 65536"
  have "take 2 (putCount n @ rest) = putCount n" by (simp add: putCount_def)
  moreover have "unat (get_be (put_be 2 (word_of_nat n :: uint16)) :: uint16) = n"
    using n by (simp add: unat_of_nat take_bit_eq_mod)
  ultimately show ?thesis by (simp add: getCount_def putCount_def)
qed

lemma length_putCount [simp]: "length (putCount n) = 2"
  by (simp add: putCount_def)

lemma deserLoop_serKeys:
  assumes "data = pre @ serKeys prev keys @ post" "small (length data)" "small (length prev)"
    "\<forall>k \<in> set keys. small (length k)"
  shows "deserLoop (length keys) data (length pre) prev = Inr keys"
  using assms
proof (induction keys arbitrary: pre prev)
  case (Cons k ks)
  have d: "data = pre @ serKey prev k @ (serKeys k ks @ post)" using Cons.prems(1) by simp
  have r: "readKey 0 ''truncated key'' data (length pre) prev = Inr (k, length pre + length (serKey prev k))"
    by (rule readKey_serKey [OF d Cons.prems(2,3)]) simp
  have "deserLoop (length ks) data (length (pre @ serKey prev k)) k = Inr ks"
    by (rule Cons.IH) (use Cons.prems d in auto)
  then show ?case by (simp add: r)
qed simp

lemma deserKvLoop_serPairs:
  assumes "data = pre @ serPairs prev pairs @ post" "small (length data)" "small (length prev)"
    "\<forall>p \<in> set pairs. small (length (fst p))"
  shows "deserKvLoop (length pairs) data (length pre) prev = Inr pairs"
  using assms
proof (induction pairs arbitrary: pre prev)
  case (Cons kv ps)
  obtain k v where kv: "kv = (k, v)" by fastforce
  let ?v = "WriteVarint [] (length v)"
  have d: "data = pre @ serKey prev k @ (?v @ v @ serPairs k ps @ post)" using Cons.prems(1) kv by simp
  have r: "readKey 0 ''truncated key'' data (length pre) prev = Inr (k, length pre + length (serKey prev k))"
    by (rule readKey_serKey [OF d Cons.prems(2,3)]) simp
  define o1 o2 where "o1 = length pre + length (serKey prev k)" and "o2 = o1 + length ?v"
  have d1: "data = (pre @ serKey prev k) @ ?v @ (v @ serPairs k ps @ post)"
    and d2: "data = (pre @ serKey prev k @ ?v) @ v @ (serPairs k ps @ post)" using d by simp_all
  have len: "length data = o2 + length v + length (serPairs k ps @ post)"
    unfolding d2 by (simp add: o1_def o2_def)
  have v63: "length v < 2 ^ 63" using len Cons.prems(2) by simp
  have "ReadVarint data o1 = Inr (word_of_nat (length v), o2)"
    unfolding d1 o2_def o1_def using ReadVarint_WriteVarint [OF v63, of _ "pre @ serKey prev k"] by simp
  moreover have "wrapAdd (int o2) (sint (word_of_nat (length v) :: int64)) = int (o2 + length v)"
    unfolding sint_of_nat_small [OF v63] using len Cons.prems(2) by (subst wrapAdd_id) auto
  moreover have "slice data o2 (o2 + length v) = v"
    unfolding d2 by (rule slice_mid) (simp_all add: o1_def o2_def)
  ultimately have rv: "readValue data o1 = Inr (v, o2 + length v)"
    using len by (simp add: readValue_def Let_def del: of_nat_add)
  have "deserKvLoop (length ps) data (length (pre @ serKey prev k @ ?v @ v)) k = Inr ps"
    by (rule Cons.IH) (use Cons.prems kv d in auto)
  then have "deserKvLoop (length ps) data (o2 + length v) k = Inr ps" by (simp add: o1_def o2_def add.assoc)
  then show ?case by (simp add: kv r rv flip: o1_def)
qed simp

lemma deserIndexLoop_serEntries:
  assumes "data = pre @ serEntries prev es @ post" "small (length data)" "small (length prev)"
    "\<forall>e \<in> set es. small (length (ieKey e)) \<and> length (ieUUID e) = 16"
  shows "deserIndexLoop (length es) data (length pre) prev = Inr es"
  using assms
proof (induction es arbitrary: pre prev)
  case (Cons e es)
  have u: "length (ieUUID e) = 16" using Cons.prems(4) by simp
  have d: "data = pre @ serKey prev (ieKey e) @ (ieUUID e @ serEntries (ieKey e) es @ post)"
    using Cons.prems(1) by simp
  define o1 where "o1 = length pre + length (serKey prev (ieKey e))"
  have r: "readKey 16 ''truncated index entry'' data (length pre) prev = Inr (ieKey e, o1)"
    unfolding o1_def by (rule readKey_serKey [OF d Cons.prems(2,3)]) (simp add: u)
  have d1: "data = (pre @ serKey prev (ieKey e)) @ ieUUID e @ (serEntries (ieKey e) es @ post)"
    using d by simp
  have sl: "slice data o1 (o1 + 16) = ieUUID e"
    unfolding d1 o1_def by (rule slice_mid) (simp_all add: u)
  have "deserIndexLoop (length es) data (length (pre @ serKey prev (ieKey e) @ ieUUID e)) (ieKey e) = Inr es"
    by (rule Cons.IH) (use Cons.prems d in auto)
  then have "deserIndexLoop (length es) data (o1 + 16) (ieKey e) = Inr es" by (simp add: o1_def u add.assoc)
  then show ?case by (simp add: r sl)
qed simp

text \<open>A leaf page is read back as it was written: for up to 65535 keys (the count field is 16
  bits wide) of realistic size, decoding the prefix-compressed page returns the keys in order.\<close>

theorem DeserializePage_SerializePage:
  assumes "length keys < 65536" "small (length (SerializePage keys))" "\<forall>k \<in> set keys. small (length k)"
  shows "DeserializePage (SerializePage keys) = Inr keys"
proof -
  have "deserLoop (length keys) (SerializePage keys) (length (putCount (length keys))) [] = Inr keys"
    by (rule deserLoop_serKeys) (use assms in \<open>auto simp: SerializePage_def\<close>)
  then show ?thesis
    by (simp add: DeserializePage_def getCount_putCount [OF assms(1)] SerializePage_def)
qed

theorem DeserializePage_SerializePage_witness:
  "DeserializePage (SerializePage [[1, 2, 3], [1, 2, 4], [1, 9]]) = Inr [[1, 2, 3], [1, 2, 4], [1, 9]]"
proof (rule DeserializePage_SerializePage)
  have "length (SerializePage [[1, 2, 3], [1, 2, 4], [1, 9]]) = 13" by code_simp
  then show "small (length (SerializePage [[1, 2, 3], [1, 2, 4], [1, 9]]))" by simp
qed simp_all

lemma index_page_decodes:
  assumes "length es < 65536" "small (length (SerializeIndexPage es))"
    "\<forall>e \<in> set es. small (length (ieKey e)) \<and> length (ieUUID e) = 16"
  shows "DeserializeIndexPage (SerializeIndexPage es) = Inr es"
proof -
  have "deserIndexLoop (length es) (SerializeIndexPage es) (length (putCount (length es))) [] = Inr es"
    by (rule deserIndexLoop_serEntries) (use assms in \<open>auto simp: SerializeIndexPage_def\<close>)
  then show ?thesis
    by (simp add: DeserializeIndexPage_def getCount_putCount [OF assms(1)] SerializeIndexPage_def)
qed

text \<open>Key-value leaves and index pages are read back as they were written: keys with their
  values, and boundary keys with their 16-byte child identifiers.\<close>

theorem kv_and_index_pages_roundtrip:
  assumes "length pairs < 65536" "small (length (SerializePageKv pairs))" "\<forall>p \<in> set pairs. small (length (fst p))"
    and "length es < 65536" "small (length (SerializeIndexPage es))"
      "\<forall>e \<in> set es. small (length (ieKey e)) \<and> length (ieUUID e) = 16"
  shows "DeserializePageKv (SerializePageKv pairs) = Inr pairs
    \<and> DeserializeIndexPage (SerializeIndexPage es) = Inr es"
proof
  have "deserKvLoop (length pairs) (SerializePageKv pairs) (length (putCount (length pairs))) [] = Inr pairs"
    by (rule deserKvLoop_serPairs) (use assms(1-3) in \<open>auto simp: SerializePageKv_def\<close>)
  then show "DeserializePageKv (SerializePageKv pairs) = Inr pairs"
    by (simp add: DeserializePageKv_def getCount_putCount [OF assms(1)] SerializePageKv_def)
  show "DeserializeIndexPage (SerializeIndexPage es) = Inr es" by (rule index_page_decodes [OF assms(4-6)])
qed

theorem kv_and_index_pages_roundtrip_witness:
  "DeserializePageKv (SerializePageKv [([1, 2], [7]), ([1, 3], [])]) = Inr [([1, 2], [7]), ([1, 3], [])]
   \<and> DeserializeIndexPage (SerializeIndexPage [\<lparr>ieKey = [4], ieUUID = replicate 16 9\<rparr>])
     = Inr [\<lparr>ieKey = [4], ieUUID = replicate 16 9\<rparr>]"
proof (rule kv_and_index_pages_roundtrip)
  have "length (SerializePageKv [([1, 2], [7]), ([1, 3], [])]) = 12" by code_simp
  then show "small (length (SerializePageKv [([1, 2], [7]), ([1, 3], [])]))" by simp
  have "length (SerializeIndexPage [\<lparr>ieKey = [4], ieUUID = replicate 16 9\<rparr>]) = 21" by code_simp
  then show "small (length (SerializeIndexPage [\<lparr>ieKey = [4], ieUUID = replicate 16 9\<rparr>]))" by simp
qed simp_all

lemma length_serTree: "length (RootUUID t) = 16 \<Longrightarrow> length (serTree t) = 21"
  by (simp add: serTree_def)

lemma deserTrees_serTrees:
  assumes "data = pre @ concat (map serTree ts)" "\<forall>t \<in> set ts. length (RootUUID t) = 16"
  shows "deserTrees (length ts) data (length pre) = ts"
  using assms
proof (induction ts arbitrary: pre)
  case (Cons t ts)
  let ?r = "concat (map serTree ts)"
  have u: "length (RootUUID t) = 16" using Cons.prems by simp
  have d1: "data = pre @ RootUUID t @ ([Height t] @ put_be 4 (NumLeaves t) @ ?r)"
    and d2: "data = (pre @ RootUUID t @ [Height t]) @ put_be 4 (NumLeaves t) @ ?r"
    using Cons.prems(1) by (simp_all add: serTree_def [of t])
  have "slice data (length pre) (length pre + 16) = RootUUID t"
    unfolding d1 by (rule slice_mid) (simp_all add: u)
  moreover have "data ! (length pre + 16) = Height t" unfolding d1 by (simp add: nth_append u)
  moreover have "slice data (length pre + 17) (length pre + 21) = put_be 4 (NumLeaves t)"
    unfolding d2 by (rule slice_mid) (simp_all add: u)
  moreover have "deserTrees (length ts) data (length (pre @ serTree t)) = ts"
    by (rule Cons.IH) (use Cons.prems in auto)
  ultimately show ?case using length_serTree [OF u] by simp
qed simp

lemma root_decodes:
  assumes "length ts < 65536" "\<forall>t \<in> set ts. length (RootUUID t) = 16"
  shows "DeserializeRoot (SerializeRoot ts) = Inr ts"
proof -
  let ?c = "concat (map serTree ts)" and ?d = "SerializeRoot ts"
  have n: "unat (word_of_nat (length ts) :: uint16) = length ts"
    using assms(1) by (simp add: unat_of_nat take_bit_eq_mod)
  have d1: "?d = rootMagic @ put_be 2 rootVersion @ (putCount (length ts) @ ?c)"
    and d2: "?d = (rootMagic @ put_be 2 rootVersion) @ putCount (length ts) @ ?c"
    and d3: "?d = (rootMagic @ put_be 2 rootVersion @ putCount (length ts)) @ ?c"
    by (simp_all add: SerializeRoot_def)
  have m4: "length rootMagic = 4" by (simp add: rootMagic_def)
  have s1: "slice ?d 4 6 = put_be 2 rootVersion" unfolding d1 by (rule slice_mid) (simp_all add: m4)
  have s2: "slice ?d 6 8 = putCount (length ts)" unfolding d2 by (rule slice_mid) (simp_all add: m4)
  have len: "length ?c = length ts * 21"
    using assms(2) by (induction ts) (auto simp: length_serTree)
  have v: "(get_be (slice ?d 4 6) :: uint16) = rootVersion" unfolding s1 by simp
  have c: "unat (get_be (slice ?d 6 8) :: uint16) = length ts" unfolding s2 putCount_def using n by simp
  have "deserTrees (length ts) ?d (length (rootMagic @ put_be 2 rootVersion @ putCount (length ts))) = ts"
    by (rule deserTrees_serTrees [OF d3 assms(2)])
  then have t: "deserTrees (length ts) ?d 8 = ts" by (simp add: m4)
  show "DeserializeRoot ?d = Inr ts"
    unfolding DeserializeRoot_def v c Let_def using t len
    by (simp add: d1 m4)
qed

text \<open>A root blob is read back as the list of trees it was made from, and a blob that is too
  short, has another magic or another version is refused with an error.\<close>

theorem root_blob_roundtrip:
  assumes "length ts < 65536" "\<forall>t \<in> set ts. length (RootUUID t) = 16"
  shows "DeserializeRoot (SerializeRoot ts) = Inr ts
    \<and> (length blob < 8 \<or> take 4 blob \<noteq> rootMagic \<longrightarrow> DeserializeRoot blob = Inl (Error ''invalid root magic''))"
  using root_decodes [OF assms] by (auto simp: DeserializeRoot_def)

theorem root_blob_roundtrip_witness:
  "DeserializeRoot (SerializeRoot [EmptyTree, EmptyTree\<lparr>Height := 1, NumLeaves := 500\<rparr>])
     = Inr [EmptyTree, EmptyTree\<lparr>Height := 1, NumLeaves := 500\<rparr>]
   \<and> DeserializeRoot [1, 2, 3] = Inl (Error ''invalid root magic'')"
  using root_blob_roundtrip [of "[EmptyTree, EmptyTree\<lparr>Height := 1, NumLeaves := 500\<rparr>]" "[1, 2, 3]"]
  by (simp add: EmptyTree_def EmptyUUID_def)

section \<open>Splitting into pages\<close>

definition page_part :: "bytes list \<Rightarrow> bool" where
  "page_part p \<longleftrightarrow> p \<noteq> [] \<and> (length p = 1 \<or> sum_list (map length p) \<le> MaxRawSize)"

lemma BuildPages_parts:
  "\<exists>parts. concat parts = keys \<and> (\<forall>p \<in> set parts. page_part p)
     \<and> BuildPages keys = map (\<lambda>p. (hd p, SerializePage p)) parts"
proof (induction keys rule: BuildPages.induct)
  case (1 keys)
  consider "keys = []" | "keys \<noteq> []" "length keys = 1 \<or> sum_list (map length keys) \<le> MaxRawSize"
    | "keys \<noteq> []" "length keys \<noteq> 1" "\<not> sum_list (map length keys) \<le> MaxRawSize" by blast
  then show ?case
  proof cases
    case 1
    then show ?thesis by (intro exI [of _ "[]"]) (simp add: BuildPages.simps)
  next
    case 2
    then have "BuildPages keys = [(hd keys, SerializePage keys)]"
      by (subst BuildPages.simps) (auto simp: hd_conv_nth)
    then show ?thesis using 2 by (intro exI [of _ "[keys]"]) (simp add: page_part_def)
  next
    case 3
    let ?m = "length keys div 2"
    obtain ps qs where ps: "concat ps = take ?m keys" "\<forall>p \<in> set ps. page_part p"
        "BuildPages (take ?m keys) = map (\<lambda>p. (hd p, SerializePage p)) ps"
      and qs: "concat qs = drop ?m keys" "\<forall>p \<in> set qs. page_part p"
        "BuildPages (drop ?m keys) = map (\<lambda>p. (hd p, SerializePage p)) qs"
      using 1(1,2) 3 by auto
    have "BuildPages keys = BuildPages (take ?m keys) @ BuildPages (drop ?m keys)"
      using 3 by (subst BuildPages.simps) (simp add: Let_def)
    then show ?thesis using ps qs by (intro exI [of _ "ps @ qs"]) auto
  qed
qed

lemma min_length_count:
  "\<forall>k \<in> set p. 9 \<le> length k \<Longrightarrow> 9 * length p \<le> sum_list (map length p)"
  by (induction p) auto

lemma length_varintBytes: "unat v < 2 ^ (7 * n) \<Longrightarrow> 0 < n \<Longrightarrow> length (varintBytes v) \<le> n"
proof (induction v arbitrary: n rule: varintBytes.induct)
  case (1 v)
  show ?case
  proof (cases "drop_bit 7 v = 0")
    case True
    then show ?thesis using 1(3) by (simp add: varintBytes.simps [of v])
  next
    case False
    have u': "unat (drop_bit 7 v) = unat v div 128"
      by (subst unat_drop_bit_eq) (simp add: drop_bit_eq_div)
    have "unat (drop_bit 7 v) \<noteq> 0" using False by (simp only: unat_eq_zero not_False_eq_True)
    then have "128 \<le> unat v" unfolding u' by simp
    then have "(2::nat) ^ 7 < 2 ^ (7 * n)" using 1(2) by simp
    then have n: "1 < n" using power_less_imp_less_exp [of "2::nat" 7 "7 * n"] by simp
    then have "(2::nat) ^ (7 * n) = 2 ^ 7 * 2 ^ (7 * (n - 1))"
      by (cases n) (simp_all add: power_add)
    then have "unat (drop_bit 7 v) < 2 ^ (7 * (n - 1))" unfolding u' using 1(2) by simp
    then have "length (varintBytes (drop_bit 7 v)) \<le> n - 1"
      using "1.IH" [OF refl refl False] n by simp
    then show ?thesis using False n by (simp add: varintBytes.simps [of v])
  qed
qed

lemma length_WriteVarint: "length (WriteVarint [] n) \<le> 10"
proof -
  have "unat (word_of_nat n :: uint64) < 2 ^ 64" using unsigned_less [of "word_of_nat n :: uint64"] by simp
  also have "\<dots> < 2 ^ (7 * 10)" by simp
  finally show ?thesis using length_varintBytes [of "word_of_nat n" 10] by (simp add: WriteVarint_def)
qed

lemma length_serKey: "length (serKey prev k) \<le> 20 + length k"
  using length_WriteVarint [of "CommonPrefixLen prev k"]
    length_WriteVarint [of "length (drop (CommonPrefixLen prev k) k)"]
  by (simp add: serKey_def Let_def WriteVarint_def)

lemma length_serKeys: "length (serKeys prev ks) \<le> 20 * length ks + sum_list (map length ks)"
proof (induction ks arbitrary: prev)
  case (Cons k ks)
  show ?case using Cons [of k] length_serKey [of prev k] by simp
qed simp

lemma BuildPages_decodes:
  assumes "\<forall>k \<in> set keys. 9 \<le> length k \<and> length k < 2 ^ 61"
  shows "\<exists>parts. concat parts = keys
    \<and> BuildPages keys = map (\<lambda>p. (hd p, SerializePage p)) parts
    \<and> (\<forall>p \<in> set parts. p \<noteq> [] \<and> DeserializePage (SerializePage p) = Inr p
        \<and> (length p = 1 \<or> sum_list (map length p) \<le> MaxRawSize))"
proof -
  obtain parts where parts: "concat parts = keys" "\<forall>p \<in> set parts. page_part p"
    "BuildPages keys = map (\<lambda>p. (hd p, SerializePage p)) parts"
    using BuildPages_parts by blast
  have "DeserializePage (SerializePage p) = Inr p" if p: "p \<in> set parts" for p
  proof -
    have k: "\<forall>k \<in> set p. 9 \<le> length k \<and> length k < 2 ^ 61" using assms parts(1) p by auto
    have "length p < 65536 \<and> length (serKeys [] p) < 2 ^ 62 - 2"
    proof (cases "length p = 1")
      case True
      then obtain k where "p = [k]" by (auto simp: length_Suc_conv)
      then show ?thesis using k length_serKeys [of "[]" p] by simp
    next
      case False
      then have "sum_list (map length p) \<le> 524288"
        using bspec [OF parts(2) p] by (simp add: page_part_def MaxRawSize_def)
      then show ?thesis using min_length_count [of p] k length_serKeys [of "[]" p] by simp
    qed
    moreover have "deserLoop (length p) (SerializePage p) (length (putCount (length p))) [] = Inr p"
      by (rule deserLoop_serKeys) (use calculation k in \<open>auto simp: SerializePage_def\<close>)
    ultimately show ?thesis
      using getCount_putCount [of "length p" "serKeys [] p"]
      by (simp add: DeserializePage_def SerializePage_def)
  qed
  then show ?thesis using parts by (intro exI [of _ parts]) (auto simp: page_part_def)
qed

text \<open>Splitting loses and reorders nothing: the pages built from a key list decode, in order, to
  consecutive non-empty pieces of it, each labelled with its first key, and only a piece of a single
  oversized key exceeds the size limit. Keys have at least nine bytes, as every index key has; the
  16-bit count of a page is then never exceeded.\<close>

theorem BuildPages_keeps_keys:
  assumes "\<forall>k \<in> set keys. 9 \<le> length k \<and> length k < 2 ^ 61"
  shows "\<exists>parts. concat parts = keys
    \<and> BuildPages keys = map (\<lambda>p. (hd p, SerializePage p)) parts
    \<and> (\<forall>p \<in> set parts. p \<noteq> [] \<and> DeserializePage (SerializePage p) = Inr p
        \<and> (length p = 1 \<or> sum_list (map length p) \<le> MaxRawSize))"
  by (rule BuildPages_decodes [OF assms])

theorem BuildPages_keeps_keys_witness:
  "\<exists>parts. concat parts = [replicate 9 1, replicate 9 2]
    \<and> BuildPages [replicate 9 1, replicate 9 2] = map (\<lambda>p. (hd p, SerializePage p)) parts
    \<and> (\<forall>p \<in> set parts. p \<noteq> [] \<and> DeserializePage (SerializePage p) = Inr p
        \<and> (length p = 1 \<or> sum_list (map length p) \<le> MaxRawSize))"
  by (rule BuildPages_keeps_keys) simp

text \<open>The size limit alone does not protect the 16-bit count: 65536 keys of eight bytes fit the
  limit, go into one page, and that page decodes to the empty list.\<close>

theorem BuildPages_count_overflow:
  assumes "length keys = 65536" "\<forall>k \<in> set keys. length k = 8"
  shows "BuildPages keys = [(hd keys, SerializePage keys)] \<and> DeserializePage (SerializePage keys) = Inr []"
proof
  have "sum_list (map length keys) = 8 * length keys"
    using assms(2) by (induction keys) auto
  then show "BuildPages keys = [(hd keys, SerializePage keys)]"
    using assms(1) hd_conv_nth [of keys] length_0_conv [of keys]
    by (subst BuildPages.simps) (simp add: MaxRawSize_def)
  have "(word_of_nat (length keys) :: uint16) = 0"
    using assms(1) by (simp add: word_eq_iff_unsigned unat_of_nat take_bit_eq_mod)
  then have "take 2 (SerializePage keys) = [0, 0]"
    by (simp add: SerializePage_def putCount_def numeral_2_eq_2)
  then have "getCount (SerializePage keys) = 0" by (simp add: getCount_def get_be_def)
  then show "DeserializePage (SerializePage keys) = Inr []"
    by (simp add: DeserializePage_def) (simp add: SerializePage_def)
qed

theorem BuildPages_count_overflow_witness:
  "DeserializePage (SerializePage (map (\<lambda>i. put_be 8 (word_of_nat i :: uint64)) [0..<65536])) = Inr []"
proof -
  let ?ks = "map (\<lambda>i. put_be 8 (word_of_nat i :: uint64)) [0..<65536]"
  have "BuildPages ?ks = [(hd ?ks, SerializePage ?ks)] \<and> DeserializePage (SerializePage ?ks) = Inr []"
    by (rule BuildPages_count_overflow) (simp, auto)
  then show ?thesis by (rule conjunct2)
qed

section \<open>Arena leaves agree with nested leaves\<close>

definition addKey :: "bytes \<Rightarrow> FlatLeaf \<Rightarrow> FlatLeaf" where
  "addKey k f = (let b = flBuf f @ k in f\<lparr>flBuf := b, flOffs := flOffs f @ [off32 b]\<rparr>)"

definition addPair :: "bytes \<times> bytes \<Rightarrow> FlatLeafKV \<Rightarrow> FlatLeafKV" where
  "addPair p f =
     (let kb = fkKbuf f @ fst p; vb = fkVbuf f @ snd p
      in f\<lparr>fkKbuf := kb, fkKoffs := fkKoffs f @ [off32 kb], fkVbuf := vb, fkVoffs := fkVoffs f @ [off32 vb]\<rparr>)"

definition ToFlatKv :: "(bytes \<times> bytes) list \<Rightarrow> FlatLeafKV" where
  "ToFlatKv ps = fold addPair ps \<lparr>fkKbuf = [], fkVbuf = [], fkKoffs = [0], fkVoffs = [0]\<rparr>"

lemma slice_tail: "slice (a @ b) (length a) (length (a @ b)) = b"
  by (simp add: slice_def)

lemma flatLoop_deserLoop:
  "slice (flBuf f) ps pe = prev \<Longrightarrow>
     flatLoop n data off (ps, pe) f = rbind (deserLoop n data off prev) (\<lambda>ks. Inr (fold addKey ks f))"
proof (induction n arbitrary: off ps pe prev f)
  case (Suc n)
  show ?case
  proof (cases "readKey 0 ''truncated key'' data off prev")
    case (Inr r)
    obtain k off' where r: "r = (k, off')" by fastforce
    have "slice (flBuf (addKey k f)) (length (flBuf f)) (length (flBuf (addKey k f))) = k"
      by (simp add: addKey_def Let_def slice_def)
    note IH = Suc.IH [OF this, of off']
    have "flatLoop (Suc n) data off (ps, pe) f
        = flatLoop n data off' (length (flBuf f), length (flBuf (addKey k f))) (addKey k f)"
      using Inr r Suc.prems by (simp add: addKey_def Let_def)
    also have "\<dots> = rbind (deserLoop (Suc n) data off prev) (\<lambda>ks. Inr (fold addKey ks f))"
      unfolding IH using Inr r by (cases "deserLoop n data off' k") simp_all
    finally show ?thesis .
  qed (use Suc.prems in simp)
qed simp

lemma flatKvLoop_deserKvLoop:
  "slice (fkKbuf f) ps pe = prev \<Longrightarrow>
     flatKvLoop n data off (ps, pe) f = rbind (deserKvLoop n data off prev) (\<lambda>ks. Inr (fold addPair ks f))"
proof (induction n arbitrary: off ps pe prev f)
  case (Suc n)
  show ?case
  proof (cases "readKey 0 ''truncated key'' data off prev")
    case (Inr r)
    obtain k off1 where r: "r = (k, off1)" by fastforce
    show ?thesis
    proof (cases "readValue data off1")
      case v: (Inr rv)
      obtain v off2 where rv: "rv = (v, off2)" by fastforce
      have "slice (fkKbuf (addPair (k, v) f)) (length (fkKbuf f)) (length (fkKbuf (addPair (k, v) f))) = k"
        by (simp add: addPair_def Let_def slice_def)
      note IH = Suc.IH [OF this, of off2]
      have "flatKvLoop (Suc n) data off (ps, pe) f
          = flatKvLoop n data off2 (length (fkKbuf f), length (fkKbuf (addPair (k, v) f))) (addPair (k, v) f)"
        using Inr r v rv Suc.prems by (simp add: addPair_def Let_def)
      also have "\<dots> = rbind (deserKvLoop (Suc n) data off prev) (\<lambda>ks. Inr (fold addPair ks f))"
        unfolding IH using Inr r v rv by (cases "deserKvLoop n data off2 k") simp_all
      finally show ?thesis .
    qed (use Inr r Suc.prems in simp)
  qed (use Suc.prems in simp)
qed simp

text \<open>Views: offsets are the running lengths, wrapped to 32 bits.\<close>

definition runLens :: "bytes list \<Rightarrow> nat list" where
  "runLens ks = map (\<lambda>i. length (concat (take i ks))) [0..<Suc (length ks)]"

lemma runLens_snoc: "runLens (ks @ [k]) = runLens ks @ [length (concat (ks @ [k]))]"
  by (simp add: runLens_def)

lemma ToFlat_eq: "ToFlat ks = \<lparr>flBuf = concat ks, flOffs = map word_of_nat (runLens ks)\<rparr>"
proof (induction ks rule: rev_induct)
  case Nil
  show ?case by (simp add: ToFlat_def runLens_def)
next
  case (snoc k ks)
  have "ToFlat (ks @ [k]) = addKey k (ToFlat ks)" by (simp add: ToFlat_def addKey_def)
  then show ?case unfolding snoc by (simp add: addKey_def Let_def off32_def runLens_snoc)
qed

lemma ToFlatKv_eq:
  "ToFlatKv ps = \<lparr>fkKbuf = concat (map fst ps), fkVbuf = concat (map snd ps),
     fkKoffs = map word_of_nat (runLens (map fst ps)), fkVoffs = map word_of_nat (runLens (map snd ps))\<rparr>"
proof (induction ps rule: rev_induct)
  case Nil
  show ?case by (simp add: ToFlatKv_def runLens_def)
next
  case (snoc p ps)
  have "ToFlatKv (ps @ [p]) = addPair p (ToFlatKv ps)" by (simp add: ToFlatKv_def)
  then show ?case unfolding snoc by (simp add: addPair_def Let_def off32_def runLens_snoc)
qed

lemma viewAt_runLens:
  assumes "length (concat ks) < 2 ^ 31" "i < length ks"
  shows "viewAt (concat ks) (map word_of_nat (runLens ks)) i = ks ! i"
proof -
  have s32: "sint (word_of_nat n :: 32 word) = int n" if "n < 2 ^ 31" for n
  proof -
    have "(word_of_nat n :: 32 word) = word_of_int (int n)" by simp
    moreover have "sint (word_of_int (int n) :: 32 word) = int n"
      using that by (subst signed_of_int) (simp add: signed_take_bit_int_eq_self)
    ultimately show ?thesis by simp
  qed
  have bound: "length (concat (take j ks)) < 2 ^ 31" for j
  proof -
    have "length (concat (take j ks)) \<le> length (concat ks)"
      using arg_cong [OF concat_append [of "take j ks" "drop j ks"], of length] by simp
    then show ?thesis using assms(1) by simp
  qed
  have off: "nat (sint ((map word_of_nat (runLens ks) :: 32 word list) ! j)) = length (concat (take j ks))"
    if "j \<le> length ks" for j
    using that s32 [OF bound, of j] by (simp add: runLens_def nth_append del: upt_Suc)
  have c: "concat ks = concat (take i ks) @ ks ! i @ concat (drop (Suc i) ks)"
    using arg_cong [OF id_take_nth_drop [OF assms(2)], of concat] by simp
  have "length (concat (take (i + 1) ks)) = length (concat (take i ks)) + length (ks ! i)"
    using assms(2) by (simp add: take_Suc_conv_app_nth)
  then show ?thesis
    unfolding viewAt_def using off [of i] off [of "i + 1"] assms(2) by (subst c) (simp add: slice_mid)
qed

lemma DecodePageFlat_nested: "DecodePageFlat data = rbind (DeserializePage data) (\<lambda>ks. Inr (ToFlat ks))"
  using flatLoop_deserLoop [of "\<lparr>flBuf = [], flOffs = [0]\<rparr>" 0 0 "[]" "getCount data" data 2]
  by (simp add: DecodePageFlat_def DeserializePage_def ToFlat_def addKey_def [abs_def] slice_def)

lemma DecodePageKvFlat_nested: "DecodePageKvFlat data = rbind (DeserializePageKv data) (\<lambda>ps. Inr (ToFlatKv ps))"
  using flatKvLoop_deserKvLoop [of "\<lparr>fkKbuf = [], fkVbuf = [], fkKoffs = [0], fkVoffs = [0]\<rparr>" 0 0 "[]"
      "getCount data" data 2]
  by (simp add: DecodePageKvFlat_def DeserializePageKv_def ToFlatKv_def slice_def)

lemma ToFlat_keys:
  assumes "length (concat ks) < 2 ^ 31"
  shows "FlatLeaf_Count (Some (ToFlat ks)) = length ks"
    "map (FlatLeaf_Key (ToFlat ks)) [0..<FlatLeaf_Count (Some (ToFlat ks))] = ks"
proof -
  show c: "FlatLeaf_Count (Some (ToFlat ks)) = length ks" by (simp add: FlatLeaf_Count_def ToFlat_eq runLens_def)
  then show "map (FlatLeaf_Key (ToFlat ks)) [0..<FlatLeaf_Count (Some (ToFlat ks))] = ks"
    using viewAt_runLens [OF assms] by (intro nth_equalityI) (simp_all add: FlatLeaf_Key_def ToFlat_eq)
qed

text \<open>The arena decoders are equivalent to the nested ones: on every input they fail with the
  same error (or the same panic), and otherwise build exactly the arena of the decoded keys; as long
  as the key bytes stay below the 32-bit offset range, every view into the arena is the
  corresponding key.\<close>

theorem flat_decoders_equivalent:
  assumes "DeserializePage data = Inr ks \<longrightarrow> length (concat ks) < 2 ^ 31"
  shows "DecodePageFlat data = rbind (DeserializePage data) (\<lambda>ks. Inr (ToFlat ks))
    \<and> DecodePageKvFlat data = rbind (DeserializePageKv data) (\<lambda>ps. Inr (ToFlatKv ps))
    \<and> (DeserializePage data = Inr ks \<longrightarrow>
         map (FlatLeaf_Key (ToFlat ks)) [0..<FlatLeaf_Count (Some (ToFlat ks))] = ks)"
  using assms DecodePageFlat_nested DecodePageKvFlat_nested ToFlat_keys(2) by blast

theorem flat_decoders_equivalent_witness:
  "DecodePageFlat [0, 2, 0, 2, 5, 6, 1, 1, 7] = Inr (ToFlat [[5, 6], [5, 7]])
   \<and> map (FlatLeaf_Key (ToFlat [[5, 6], [5, 7]])) [0..<FlatLeaf_Count (Some (ToFlat [[5, 6], [5, 7]]))]
     = [[5, 6], [5, 7]]"
proof -
  have d: "DeserializePage [0, 2, 0, 2, 5, 6, 1, 1, 7] = Inr [[5, 6], [5, 7]]" by code_simp
  show ?thesis
    using flat_decoders_equivalent [of "[0, 2, 0, 2, 5, 6, 1, 1, 7]" "[[5, 6], [5, 7]]"]
    by (simp add: d)
qed

section \<open>Prefix ranges\<close>

lemma prefixEndRev_snoc:
  "prefixEndRev (rs @ [b]) =
     (case prefixEndRev rs of Some e \<Rightarrow> Some (e @ [b]) | None \<Rightarrow> if b < 0xff then Some [b + 1] else None)"
  by (induction rs) auto

lemma PrefixEnd_Cons:
  "PrefixEnd (b # p) =
     (case PrefixEnd p of Some e \<Rightarrow> Some (b # e) | None \<Rightarrow> if b < 0xff then Some [b + 1] else None)"
  by (simp add: PrefixEnd_def prefixEndRev_snoc split: option.split)

lemma PrefixEnd_Nil [simp]: "PrefixEnd [] = None"
  by (simp add: PrefixEnd_def)

lemma byte_less_Suc: "b < 0xff \<Longrightarrow> c < b + 1 \<longleftrightarrow> c \<le> (b :: byte)"
proof -
  assume b: "b < 0xff"
  then have "unat b + 1 < 256" by (simp add: word_less_nat_alt)
  then have "unat (b + 1) = unat b + 1" by (simp add: unat_word_ariths)
  then show ?thesis by (simp add: word_less_nat_alt word_le_nat_alt less_Suc_eq_le)
qed

lemma byte_max: "\<not> b < 0xff \<Longrightarrow> \<not> b < (c :: byte)"
  using unsigned_less [of c, where ?'a = nat] unsigned_less [of b, where ?'a = nat]
  by (simp add: word_less_nat_alt)

lemma PrefixEnd_correct:
  "prefix p k \<longleftrightarrow> p \<le> k \<and> (case PrefixEnd p of None \<Rightarrow> True | Some e \<Rightarrow> k < e)"
proof (induction p arbitrary: k)
  case (Cons b p)
  show ?case
  proof (cases k)
    case (Cons c k')
    show ?thesis
    proof (cases "PrefixEnd p")
      case None
      then have IH: "prefix p k' \<longleftrightarrow> p \<le> k'" using Cons.IH [of k'] by simp
      show ?thesis
      proof (cases "b < 0xff")
        case True
        then show ?thesis using None IH Cons byte_less_Suc [OF True, of c]
          by (auto simp: PrefixEnd_Cons)
      next
        case False
        then show ?thesis using None IH Cons byte_max [OF False, of c]
          by (auto simp: PrefixEnd_Cons)
      qed
    next
      case (Some e)
      then show ?thesis using Cons.IH [of k'] Cons by (auto simp: PrefixEnd_Cons)
    qed
  qed simp
qed simp

lemma CmpSeq_simps [cmp_simps]:
  "CmpSeq a b < 0 \<longleftrightarrow> a < b" "CmpSeq a b \<le> 0 \<longleftrightarrow> a \<le> b" "CmpSeq a b \<ge> 0 \<longleftrightarrow> b \<le> a" "CmpSeq a b = 0 \<longleftrightarrow> a = b"
  by (simp_all add: CmpSeq_def cmp_simps)

lemma partitionPoint_correct:
  assumes "ascending (map ieKey es)"
  shows "partitionPoint es t \<le> length es"
    "i < partitionPoint es t \<Longrightarrow> ieKey (es ! i) < t"
    "partitionPoint es t \<le> i \<Longrightarrow> i < length es \<Longrightarrow> t \<le> ieKey (es ! i)"
proof -
  have mono: "ieKey (es ! i) < t" if "i \<le> j" "j < length es" "ieKey (es ! j) < t" for i j
    using ascending_key_mono [OF assms that(1,2)] that(3) by simp
  have c: "0 \<le> partitionPoint es t \<and> partitionPoint es t \<le> length es
    \<and> (\<forall>i. 0 \<le> i \<longrightarrow> i < partitionPoint es t \<longrightarrow> ieKey (es ! i) < t)
    \<and> (\<forall>i. partitionPoint es t \<le> i \<longrightarrow> i < length es \<longrightarrow> \<not> ieKey (es ! i) < t)"
    unfolding partitionPoint_def cmp_simps
    using bsearch_correct [of 0 "length es" "\<lambda>mid. ieKey (es ! mid) < t"] mono by blast
  then show "partitionPoint es t \<le> length es"
    "i < partitionPoint es t \<Longrightarrow> ieKey (es ! i) < t"
    "partitionPoint es t \<le> i \<Longrightarrow> i < length es \<Longrightarrow> t \<le> ieKey (es ! i)"
    using not_less by auto
qed

lemma prefix_range_covers:
  assumes "ascending (map ieKey es)" "FindPrefixRange es p = (s, e)" "prefix p k"
    and "i < length es" "ieKey (es ! i) \<le> k" "i + 1 < length es \<longrightarrow> k < ieKey (es ! (i + 1))"
  shows "s \<le> i \<and> i < e"
proof (cases "p = []")
  case True
  then show ?thesis using assms(2,4) by (simp add: FindPrefixRange_def)
next
  case False
  define q where "q = partitionPoint es p"
  define r where "r = (case PrefixEnd p of Some pe \<Rightarrow> partitionPoint es pe | None \<Rightarrow> length es)"
  have se: "s = (if r < (if q > 0 then q - 1 else 0) then r else (if q > 0 then q - 1 else 0))" "e = r"
    using assms(2) False by (auto simp: FindPrefixRange_def Let_def q_def r_def)
  have pk: "p \<le> k" using assms(3) PrefixEnd_correct by blast
  have "q \<le> i + 1"
  proof (rule ccontr)
    assume "\<not> q \<le> i + 1"
    then have lt: "i + 1 < q" by simp
    then have "ieKey (es ! (i + 1)) < p" "i + 1 < length es"
      using partitionPoint_correct(2) [OF assms(1), of "i + 1" p] partitionPoint_correct(1) [OF assms(1), of p]
      by (simp_all add: q_def)
    then show False using assms(6) pk by force
  qed
  moreover have "i < r"
  proof (cases "PrefixEnd p")
    case None
    then show ?thesis using assms(4) by (simp add: r_def)
  next
    case (Some pe)
    then have "k < pe" using assms(3) PrefixEnd_correct [of p k] by simp
    then have "\<not> pe \<le> ieKey (es ! i)" using assms(5) by force
    then show ?thesis
      using partitionPoint_correct(3) [OF assms(1), of pe i] assms(4) Some by (force simp: r_def)
  qed
  ultimately show ?thesis using se by (auto split: if_splits)
qed

text \<open>A prefix range misses nothing: a key with the prefix that lies in child \<open>i\<close> of an index
  node (at or after the child's boundary key and before the next one) has \<open>i\<close> inside the range
  returned for the prefix.\<close>

theorem FindPrefixRange_covers:
  assumes "ascending (map ieKey es)" "FindPrefixRange es p = (s, e)" "prefix p k"
    and "i < length es" "ieKey (es ! i) \<le> k" "i + 1 < length es \<longrightarrow> k < ieKey (es ! (i + 1))"
  shows "s \<le> i \<and> i < e"
  using assms by (rule prefix_range_covers)

theorem FindPrefixRange_covers_witness:
  "FindPrefixRange [\<lparr>ieKey = [1], ieUUID = []\<rparr>, \<lparr>ieKey = [3], ieUUID = []\<rparr>] [3, 255] = (1, 2)
   \<and> (1::nat) \<le> 1 \<and> (1::nat) < 2"
proof -
  have r: "FindPrefixRange [\<lparr>ieKey = [1], ieUUID = []\<rparr>, \<lparr>ieKey = [3], ieUUID = []\<rparr>] [3, 255] = (1, 2)"
    by code_simp
  have "(1::nat) \<le> 1 \<and> (1::nat) < 2"
    by (rule FindPrefixRange_covers [OF _ r, of "[3, 255, 7]"]) auto
  with r show ?thesis by simp
qed

end
