(* ===== verification/BlobStore.thy ===== *)
theory BlobStore
  imports Pages "HOL-Library.AList" "HOL-Library.Char_ord" "HOL-Library.List_Lexorder"
begin

text \<open>
  The file-backed blob store, \<^verbatim>\<open>src/go/internal/blobstore/blobstore.go\<close>: blobs under sharded hexadecimal paths,
  named roots, atomic writes through a temporary file. The disk is an association list from paths to contents;
  every call that can fail takes its outcome from a list of faults, and the random identifiers come from a
  sequence. The interface \<open>BlobStore\<close> is a record of operations with its contract as a locale, which the file
  store is shown to meet.
\<close>

section \<open>The interface\<close>

text \<open>\<open>Get\<close> and \<open>GetRoot\<close> return \<open>(data, ok, err)\<close>; reading does not change the store.\<close>

record 's blob_ops =
  boPut :: "bytes \<Rightarrow> 's \<Rightarrow> UUID result \<times> 's"
  boGet :: "UUID \<Rightarrow> 's \<Rightarrow> bytes option result"
  boDelete :: "UUID \<Rightarrow> 's \<Rightarrow> go_error option \<times> 's"
  boList :: "'s \<Rightarrow> UUID list result"
  boPutRoot :: "string \<Rightarrow> bytes \<Rightarrow> 's \<Rightarrow> go_error option \<times> 's"
  boGetRoot :: "string \<Rightarrow> 's \<Rightarrow> bytes option result"
  boListRoots :: "'s \<Rightarrow> string list result"
  boDeleteRoot :: "string \<Rightarrow> 's \<Rightarrow> go_error option \<times> 's"

section \<open>Hexadecimal names\<close>

definition hexChar :: "nat \<Rightarrow> char" where
  "hexChar n = ''0123456789abcdef'' ! n"

definition idToHex :: "UUID \<Rightarrow> string" where
  "idToHex u = concat (map (\<lambda>b. [hexChar (unat (drop_bit 4 b)), hexChar (unat (b AND 0x0f))]) u)"

definition hexNibble :: "char \<Rightarrow> byte option" where
  "hexNibble c =
     (let n = (of_char c :: nat)
      in if 48 \<le> n \<and> n \<le> 57 then Some (word_of_nat (n - 48))
         else if 97 \<le> n \<and> n \<le> 102 then Some (word_of_nat (n - 97 + 10))
         else if 65 \<le> n \<and> n \<le> 70 then Some (word_of_nat (n - 65 + 10))
         else None)"

fun hexBytes :: "string \<Rightarrow> bytes option" where
  "hexBytes (h # l # cs) =
     (case (hexNibble h, hexNibble l) of
        (Some hi, Some lo) \<Rightarrow> map_option (Cons (push_bit 4 hi OR lo)) (hexBytes cs)
      | _ \<Rightarrow> None)"
| "hexBytes [] = Some []"
| "hexBytes [_] = None"

definition hexToID :: "string \<Rightarrow> UUID option" where
  "hexToID s = (if length s \<noteq> 32 then None else hexBytes s)"

section \<open>The disk\<close>

text \<open>
  Paths are relative to the blobs directory. \<open>dBad\<close> lists files and directories whose reads fail with an I/O
  error. \<open>dRand\<close>
  lists the identifiers the random source is going to return; there are only \<open>2 ^ 128\<close> of them, so a source of
  distinct ones runs dry, which is an error of the source.
\<close>

type_synonym path = "string list"

record disk =
  dFiles :: "(path \<times> bytes) list"
  dFaults :: "bool list"
  dBad :: "path list"
  dRand :: "UUID list"

definition osFault :: "disk \<Rightarrow> bool \<times> disk" where
  "osFault d = (case dFaults d of [] \<Rightarrow> (False, d) | b # bs \<Rightarrow> (b, d\<lparr>dFaults := bs\<rparr>))"

definition blobPath :: "UUID \<Rightarrow> path" where
  "blobPath u = (let hex = idToHex u in [slice hex 0 2, slice hex 2 4, hex])"

definition tmpPath :: "path \<Rightarrow> path" where
  "tmpPath p = butlast p @ [last p @ ''.tmp'']"

text \<open>A failed \<open>WriteFile\<close> leaves a truncated temporary file, a failed \<open>Rename\<close> leaves the whole one.\<close>

definition writeAtomic :: "path \<Rightarrow> bytes \<Rightarrow> disk \<Rightarrow> go_error option \<times> disk" where
  "writeAtomic p data d =
     (let (bad1, d1) = osFault d
      in if bad1 then (Some (Error ''createDir''), d1)
         else
           let (bad2, d2) = osFault d1
           in if bad2 then (Some (Error ''write''), d2\<lparr>dFiles := AList.update (tmpPath p) [] (dFiles d2)\<rparr>)
              else
                let (bad3, d3) = osFault d2
                in if bad3 then (Some (Error ''rename''), d3\<lparr>dFiles := AList.update (tmpPath p) data (dFiles d3)\<rparr>)
                   else (None, d3\<lparr>dFiles := AList.update p data (AList.delete (tmpPath p) (dFiles d3))\<rparr>))"

definition readFile :: "path \<Rightarrow> disk \<Rightarrow> bytes option result" where
  "readFile p d = (if p \<in> set (dBad d) then Inl (Error ''read'') else Inr (map_of (dFiles d) p))"

definition removeFile :: "path \<Rightarrow> disk \<Rightarrow> go_error option \<times> disk" where
  "removeFile p d =
     (let (bad, d1) = osFault d
      in if bad then (Some (Error ''remove''), d1) else (None, d1\<lparr>dFiles := AList.delete p (dFiles d1)\<rparr>))"

text \<open>\<open>os.ReadDir\<close>: the names in a directory, sorted, with whether they are directories.\<close>

definition readDir :: "path \<Rightarrow> disk \<Rightarrow> (string \<times> bool) list" where
  "readDir dir d =
     (let inside = filter (\<lambda>p. length dir < length p \<and> take (length dir) p = dir) (map fst (dFiles d))
      in map (\<lambda>n. (n, \<exists>p \<in> set inside. p ! length dir = n \<and> Suc (length dir) < length p))
           (sort (remdups (map (\<lambda>p. p ! length dir) inside))))"

text \<open>The same with the error of an unreadable directory.\<close>

definition readDirR :: "path \<Rightarrow> disk \<Rightarrow> (string \<times> bool) list result" where
  "readDirR dir d = (if dir \<in> set (dBad d) then Inl (Error ''readdir'') else Inr (readDir dir d))"

section \<open>FileBlobStore\<close>

definition readOnlyError :: go_error where
  "readOnlyError = Error ''read-only''"

definition fbPut :: "bool \<Rightarrow> bytes \<Rightarrow> disk \<Rightarrow> UUID result \<times> disk" where
  "fbPut readOnly data d =
     (if readOnly then (Inl readOnlyError, d)
      else
        let (bad, d1) = osFault d
        in if bad then (Inl (Error ''urandom''), d1)
           else
             (case dRand d1 of
                [] \<Rightarrow> (Inl (Error ''urandom''), d1)
              | u # us \<Rightarrow>
                  (case writeAtomic (blobPath u) data (d1\<lparr>dRand := us\<rparr>) of
                     (Some e, d2) \<Rightarrow> (Inl e, d2)
                   | (None, d2) \<Rightarrow> (Inr u, d2))))"

definition fbPutAt :: "bool \<Rightarrow> UUID \<Rightarrow> bytes \<Rightarrow> disk \<Rightarrow> go_error option \<times> disk" where
  "fbPutAt readOnly u data d =
     (if readOnly then (Some readOnlyError, d) else writeAtomic (blobPath u) data d)"

definition fbGet :: "UUID \<Rightarrow> disk \<Rightarrow> bytes option result" where
  "fbGet u d = readFile (blobPath u) d"

definition fbDelete :: "bool \<Rightarrow> UUID \<Rightarrow> disk \<Rightarrow> go_error option \<times> disk" where
  "fbDelete readOnly u d = (if readOnly then (Some readOnlyError, d) else removeFile (blobPath u) d)"

definition hasSuffixStr :: "string \<Rightarrow> string \<Rightarrow> bool" where
  "hasSuffixStr s x = (length x \<le> length s \<and> drop (length s - length x) s = x)"

text \<open>An unreadable base directory is an error, an unreadable shard is skipped.\<close>

definition shard :: "path \<Rightarrow> disk \<Rightarrow> (string \<times> bool) list" where
  "shard dir d = (case readDirR dir d of Inl _ \<Rightarrow> [] | Inr es \<Rightarrow> es)"

definition fbList :: "disk \<Rightarrow> UUID list result" where
  "fbList d =
     rbind (readDirR [] d) (\<lambda>entries.
       Inr (concat (map (\<lambda>(n1, d1). if \<not> d1 then [] else
         concat (map (\<lambda>(n2, d2). if \<not> d2 then [] else
           concat (map (\<lambda>(n3, d3). if d3 \<or> hasSuffixStr n3 ''.tmp'' then []
                                   else case hexToID n3 of Some u \<Rightarrow> [u] | None \<Rightarrow> [])
             (shard [n1, n2] d)))
           (shard [n1] d)))
         entries)))"

definition fbPutRoot :: "bool \<Rightarrow> string \<Rightarrow> bytes \<Rightarrow> disk \<Rightarrow> go_error option \<times> disk" where
  "fbPutRoot readOnly name data d =
     (if readOnly then (Some readOnlyError, d) else writeAtomic [name] data d)"

definition fbGetRoot :: "string \<Rightarrow> disk \<Rightarrow> bytes option result" where
  "fbGetRoot name d = readFile [name] d"

definition fbListRoots :: "disk \<Rightarrow> string list result" where
  "fbListRoots d =
     rbind (readDirR [] d) (\<lambda>entries.
       Inr (sort (map fst (filter (\<lambda>(n, isDir). \<not> isDir \<and> take 5 n = ''root_'' \<and> \<not> hasSuffixStr n ''.tmp'') entries))))"

definition fbDeleteRoot :: "bool \<Rightarrow> string \<Rightarrow> disk \<Rightarrow> go_error option \<times> disk" where
  "fbDeleteRoot readOnly name d = (if readOnly then (Some readOnlyError, d) else removeFile [name] d)"

definition fileOps :: "bool \<Rightarrow> disk blob_ops" where
  "fileOps readOnly =
     \<lparr>boPut = fbPut readOnly, boGet = fbGet, boDelete = fbDelete readOnly, boList = fbList,
      boPutRoot = fbPutRoot readOnly, boGetRoot = fbGetRoot, boListRoots = fbListRoots,
      boDeleteRoot = fbDeleteRoot readOnly\<rparr>"

section \<open>Names are unambiguous\<close>

lemma nibbles: "unat (drop_bit 4 (b :: byte)) < 16" "unat (b AND 0x0f) < 16"
proof -
  have "unat (drop_bit 4 b) = unat b div 16" by (subst unat_drop_bit_eq) (simp add: drop_bit_eq_div)
  moreover have "unat b < 256" using unsigned_less [of b, where ?'a = nat] by simp
  ultimately show "unat (drop_bit 4 b) < 16" by simp
  have e: "b AND 0x0f = take_bit 4 b" by (simp add: take_bit_eq_mask mask_numeral)
  have "unat (take_bit 4 b) = unat b mod 16" by (simp only: unsigned_take_bit_eq) (simp add: take_bit_eq_mod)
  then show "unat (b AND 0x0f) < 16" unfolding e by simp
qed

lemma hexNibble_hexChar: "n < 16 \<Longrightarrow> hexNibble (hexChar n) = Some (word_of_nat n)"
proof -
  assume "n < 16"
  then have "n \<in> {0, 1, 2, 3, 4, 5, 6, 7, 8, 9, 10, 11, 12, 13, 14, 15}"
    unfolding insert_iff empty_iff by presburger
  then show ?thesis by (elim insertE) (simp_all add: hexChar_def hexNibble_def)
qed

lemma nibbles_join: "push_bit 4 (drop_bit 4 (b :: byte)) OR (b AND 0x0f) = b"
proof -
  have "b AND 0x0f = take_bit 4 b" by (simp add: take_bit_eq_mask mask_numeral)
  then show ?thesis
    by (intro bit_eqI) (auto simp: bit_or_iff bit_push_bit_iff bit_drop_bit_eq bit_take_bit_iff)
qed

lemma hexBytes_idToHex: "hexBytes (idToHex u) = Some u"
proof (induction u)
  case (Cons b u)
  have "hexBytes (idToHex (b # u)) = map_option (Cons (push_bit 4 (drop_bit 4 b) OR (b AND 0x0f))) (hexBytes (idToHex u))"
    using hexNibble_hexChar [OF nibbles(1) [of b]] hexNibble_hexChar [OF nibbles(2) [of b]]
    by (simp add: idToHex_def)
  then show ?case unfolding nibbles_join using Cons.IH by simp
qed (simp add: idToHex_def)

lemma length_idToHex: "length (idToHex u) = 2 * length u"
  by (induction u) (simp_all add: idToHex_def)

lemma hexToID_idToHex: "length u = 16 \<Longrightarrow> hexToID (idToHex u) = Some u"
  by (simp add: hexToID_def length_idToHex hexBytes_idToHex)

lemma idToHex_inject [simp]: "idToHex u = idToHex v \<longleftrightarrow> u = v"
  using hexBytes_idToHex [of u] hexBytes_idToHex [of v] by (metis option.inject)

lemma hexChar_not_dot: "n < 16 \<Longrightarrow> hexChar n \<noteq> CHR ''.''"
  using hexNibble_hexChar [of n] by (auto simp: hexNibble_def)

lemma dot_not_hex: "CHR ''.'' \<notin> set (idToHex u)"
  using hexChar_not_dot nibbles by (auto simp: idToHex_def) metis+

lemma blobPath_inject [simp]: "blobPath u = blobPath v \<longleftrightarrow> u = v"
  by (auto simp: blobPath_def Let_def)

lemma tmp_not_blob [simp]: "tmpPath (blobPath u) \<noteq> blobPath v"
proof
  assume "tmpPath (blobPath u) = blobPath v"
  then have "idToHex v = idToHex u @ ''.tmp''" by (simp add: tmpPath_def blobPath_def Let_def)
  then show False using dot_not_hex [of v] by simp
qed

lemma length_paths [simp]: "length (blobPath u) = 3" "length (tmpPath [n]) = 1"
  by (simp_all add: blobPath_def tmpPath_def Let_def)

lemma path_lengths [simp]: "[n] \<noteq> blobPath u" "blobPath u \<noteq> [n]" "tmpPath [n] \<noteq> blobPath u"
  by (simp_all add: blobPath_def tmpPath_def Let_def)

section \<open>Atomic writes\<close>

lemma osFault_simps [simp]:
  "dFiles (snd (osFault d)) = dFiles d" "dBad (snd (osFault d)) = dBad d" "dRand (snd (osFault d)) = dRand d"
  "dFaults d = [] \<Longrightarrow> osFault d = (False, d)"
  by (simp_all add: osFault_def split: list.split)

lemma osFault_eq: "osFault d = (b, d') \<Longrightarrow> dFiles d' = dFiles d \<and> dBad d' = dBad d \<and> dRand d' = dRand d"
  using osFault_simps [of d] by simp

text \<open>Whatever fails, another file keeps its contents, and the target has its old or its new contents.\<close>

lemma writeAtomic_files:
  assumes "writeAtomic p data d = (e, d')" "p \<noteq> []"
  shows "dBad d' = dBad d" "dRand d' = dRand d"
    "q \<noteq> tmpPath p \<Longrightarrow> map_of (dFiles d') q = (if e = None \<and> q = p then Some data else map_of (dFiles d) q)"
proof -
  obtain b1 d1 where 1: "osFault d = (b1, d1)" by fastforce
  obtain b2 d2 where 2: "osFault d1 = (b2, d2)" by fastforce
  obtain b3 d3 where 3: "osFault d2 = (b3, d3)" by fastforce
  note f = osFault_eq [OF 1] osFault_eq [OF 2] osFault_eq [OF 3]
  have w: "(e, d') = (if b1 then (Some (Error ''createDir''), d1)
      else if b2 then (Some (Error ''write''), d2\<lparr>dFiles := AList.update (tmpPath p) [] (dFiles d2)\<rparr>)
      else if b3 then (Some (Error ''rename''), d3\<lparr>dFiles := AList.update (tmpPath p) data (dFiles d3)\<rparr>)
      else (None, d3\<lparr>dFiles := AList.update p data (AList.delete (tmpPath p) (dFiles d3))\<rparr>))"
    using assms(1) unfolding writeAtomic_def Let_def 1 2 3 case_prod_conv by (simp only:)
  show "dBad d' = dBad d" "dRand d' = dRand d" using w f by (auto split: if_splits)
  show "map_of (dFiles d') q = (if e = None \<and> q = p then Some data else map_of (dFiles d) q)" if "q \<noteq> tmpPath p"
    using w f that by (auto simp: update_conv' delete_conv' split: if_splits)
qed

lemma writeAtomic_clean:
  "dFaults d = [] \<Longrightarrow> \<exists>d'. writeAtomic p data d = (None, d') \<and> dFaults d' = []"
  by (simp add: writeAtomic_def)

text \<open>A write to the file store is atomic under any failure: it reports success exactly when the new
  contents are in place, it leaves the old contents otherwise, and no other blob changes.\<close>

theorem fbPutAt_atomic:
  assumes "blobPath u \<notin> set (dBad d)" "fbPutAt False u data d = (e, d')"
  shows "fbGet u d' = (if e = None then Inr (Some data) else fbGet u d)
    \<and> (v \<noteq> u \<longrightarrow> fbGet v d' = fbGet v d)"
proof -
  have w: "writeAtomic (blobPath u) data d = (e, d')" using assms(2) by (simp add: fbPutAt_def)
  have ne: "blobPath u \<noteq> []" by (simp add: blobPath_def Let_def)
  note f = writeAtomic_files [OF w ne]
  show ?thesis using assms(1) f(1) f(3) [of "blobPath u"] f(3) [of "blobPath v"]
    by (auto simp: fbGet_def readFile_def tmp_not_blob [symmetric] simp del: tmp_not_blob)
qed

definition demoStore :: disk where
  "demoStore = \<lparr>dFiles = [], dFaults = [False, False, True], dBad = [], dRand = []\<rparr>"

theorem fbPutAt_atomic_witness:
  "\<exists>e d'. fbPutAt False (replicate 16 7) [1] demoStore = (Some e, d') \<and> fbGet (replicate 16 7) d' = Inr None"
proof -
  obtain e d' where p: "fbPutAt False (replicate 16 7) [1] demoStore = (e, d')" by fastforce
  have "fst (fbPutAt False (replicate 16 7) [1] demoStore) = Some (Error ''rename'')" by code_simp
  then have "e = Some (Error ''rename'')" using p by simp
  moreover have "fbGet (replicate 16 7) demoStore = Inr None"
    by (simp add: fbGet_def readFile_def demoStore_def)
  ultimately show ?thesis using fbPutAt_atomic [OF _ p, of "replicate 16 7"] p by (simp add: demoStore_def)
qed

section \<open>The contract of a blob store\<close>

text \<open>
  \<open>wf\<close> holds of every reachable store, \<open>clean\<close> of one in which no call fails any more. A new blob gets an
  identifier that no blob had; nothing a store does to one blob or root shows in another.
\<close>

locale blob_store =
  fixes bo :: "'s blob_ops" and wf :: "'s \<Rightarrow> bool" and clean :: "'s \<Rightarrow> bool" and dry :: "'s \<Rightarrow> bool"
  assumes put_ok: "wf s \<Longrightarrow> boPut bo data s = (Inr u, s') \<Longrightarrow> wf s' \<and> u \<noteq> EmptyUUID \<and> length u = 16
      \<and> boGet bo u s = Inr None \<and> (\<forall>v. boGet bo v s' = (if v = u then Inr (Some data) else boGet bo v s))
      \<and> (\<forall>n. boGetRoot bo n s' = boGetRoot bo n s)"
    and put_err: "wf s \<Longrightarrow> boPut bo data s = (Inl e, s') \<Longrightarrow> wf s' \<and> (\<forall>v. boGet bo v s' = boGet bo v s)
      \<and> (\<forall>n. boGetRoot bo n s' = boGetRoot bo n s)"
    and clean_wf: "clean s \<Longrightarrow> wf s"
    and put_clean: "clean s \<Longrightarrow> boPut bo data s = (r, s') \<Longrightarrow> (case r of Inr u \<Rightarrow> clean s' | Inl e \<Rightarrow> dry s')"
    and put_dry: "dry s \<Longrightarrow> \<exists>e s'. boPut bo data s = (Inl e, s') \<and> dry s'"
    and putRoot: "wf s \<Longrightarrow> boPutRoot bo n data s = (e2, s') \<Longrightarrow> wf s' \<and> (\<forall>v. boGet bo v s' = boGet bo v s)"
    and putRoot_clean: "clean s \<Longrightarrow>
      \<exists>s'. boPutRoot bo n data s = (None, s') \<and> clean s' \<and> boGetRoot bo n s' = Inr (Some data)"

definition disk_ok :: "disk \<Rightarrow> bool" where
  "disk_ok d \<longleftrightarrow> distinct (dRand d) \<and> (\<forall>u \<in> set (dRand d). length u = 16 \<and> u \<noteq> EmptyUUID
     \<and> map_of (dFiles d) (blobPath u) = None \<and> blobPath u \<notin> set (dBad d))"

definition disk_clean :: "disk \<Rightarrow> bool" where
  "disk_clean d \<longleftrightarrow> disk_ok d \<and> dFaults d = [] \<and> dBad d = []"

text \<open>Every identifier of the supply has been used.\<close>

definition disk_dry :: "disk \<Rightarrow> bool" where
  "disk_dry d \<longleftrightarrow> dRand d = []"

lemma disk_ok_write:
  assumes ok: "disk_ok d" and w: "writeAtomic p data d = (e, d')" "p \<noteq> []"
    and p: "\<And>u. u \<in> set (dRand d) \<Longrightarrow> blobPath u \<noteq> p \<and> blobPath u \<noteq> tmpPath p"
  shows "disk_ok d'"
  using ok p writeAtomic_files [OF w] unfolding disk_ok_def by auto

lemma tmp_root_not_blob: "blobPath u \<noteq> tmpPath [n]"
  using path_lengths(3) by metis

lemma blob_tmp [simp]: "blobPath v \<noteq> tmpPath (blobPath u)"
  using tmp_not_blob by metis

lemma blobPath_nonempty [simp]: "blobPath u \<noteq> []"
  by (simp add: blobPath_def Let_def)

lemma fbPut_cases:
  assumes ok: "disk_ok d" and put: "fbPut False data d = (r, d')"
  shows "disk_ok d' \<and> (\<forall>n. fbGetRoot n d' = fbGetRoot n d)
    \<and> (case r of Inl e \<Rightarrow> \<forall>v. fbGet v d' = fbGet v d
       | Inr u \<Rightarrow> u \<noteq> EmptyUUID \<and> length u = 16 \<and> fbGet u d = Inr None
           \<and> (\<forall>v. fbGet v d' = (if v = u then Inr (Some data) else fbGet v d)))"
proof -
  obtain b d1 where 1: "osFault d = (b, d1)" by fastforce
  note f = osFault_eq [OF 1]
  have ok1: "disk_ok d1" using ok f by (simp add: disk_ok_def)
  show ?thesis
  proof (cases "b \<or> dRand d = []")
    case True
    then have "r = Inl (Error ''urandom'')" "d' = d1" using put 1 f by (auto simp: fbPut_def split: if_splits)
    then show ?thesis using ok1 f by (simp add: fbGet_def fbGetRoot_def readFile_def)
  next
    case False
    then obtain u us where us: "dRand d = u # us" by (cases "dRand d") auto
    define d2 where "d2 = d1\<lparr>dRand := us\<rparr>"
    obtain e d3 where w: "writeAtomic (blobPath u) data d2 = (e, d3)" by fastforce
    note wf = writeAtomic_files [OF w blobPath_nonempty]
    have r: "r = (case e of Some x \<Rightarrow> Inl x | None \<Rightarrow> Inr u)" "d' = d3"
      using put 1 False f w us by (auto simp: fbPut_def d2_def split: option.splits)
    have u: "u \<noteq> EmptyUUID" "length u = 16" "map_of (dFiles d) (blobPath u) = None" "blobPath u \<notin> set (dBad d)"
      "u \<notin> set us" using ok us by (auto simp: disk_ok_def)
    have ok2: "disk_ok d2" using ok1 f us by (auto simp: disk_ok_def d2_def)
    have "disk_ok d3"
      by (rule disk_ok_write [OF ok2 w]) (use u(5) f in \<open>auto simp: d2_def\<close>)
    moreover have "fbGetRoot n d3 = fbGetRoot n d" for n
      using wf(1) wf(3) [of "[n]"] f by (auto simp: fbGetRoot_def readFile_def d2_def tmpPath_def blobPath_def Let_def)
    moreover have "fbGet v d3 = (if v = u \<and> e = None then Inr (Some data) else fbGet v d)" for v
      using u(4) wf(1) wf(3) [of "blobPath v"] f by (auto simp: fbGet_def readFile_def d2_def)
    moreover have "fbGet u d = Inr None" using u by (simp add: fbGet_def readFile_def)
    ultimately show ?thesis using r u by (cases e) auto
  qed
qed

lemma fbPut_clean:
  assumes "disk_clean d" "fbPut False data d = (r, d')"
  shows "case r of Inr u \<Rightarrow> disk_clean d' | Inl e \<Rightarrow> disk_dry d'"
proof (cases "dRand d")
  case Nil
  then show ?thesis using assms by (auto simp: fbPut_def disk_clean_def disk_dry_def)
next
  case (Cons u us)
  obtain d2 where w: "writeAtomic (blobPath u) data (d\<lparr>dRand := us\<rparr>) = (None, d2)" "dFaults d2 = []"
    using writeAtomic_clean [of "d\<lparr>dRand := us\<rparr>"] assms(1) by (auto simp: disk_clean_def)
  have "r = Inr u" "d' = d2" using assms Cons w by (auto simp: fbPut_def disk_clean_def)
  moreover have "dBad d2 = []" using writeAtomic_files(1) [OF w(1)] assms(1) by (simp add: disk_clean_def)
  ultimately show ?thesis
    using fbPut_cases [OF _ assms(2)] assms(1) w(2) by (simp add: disk_clean_def)
qed

interpretation fb: blob_store "fileOps False" disk_ok disk_clean disk_dry
proof
  fix d d' :: disk and data u e n
  show "disk_ok d' \<and> u \<noteq> EmptyUUID \<and> length u = 16 \<and> boGet (fileOps False) u d = Inr None
      \<and> (\<forall>v. boGet (fileOps False) v d' = (if v = u then Inr (Some data) else boGet (fileOps False) v d))
      \<and> (\<forall>n. boGetRoot (fileOps False) n d' = boGetRoot (fileOps False) n d)"
    if "disk_ok d" "boPut (fileOps False) data d = (Inr u, d')"
    using fbPut_cases [OF that(1), of data "Inr u" d'] that(2) by (simp add: fileOps_def)
  show "disk_ok d' \<and> (\<forall>v. boGet (fileOps False) v d' = boGet (fileOps False) v d)
      \<and> (\<forall>n. boGetRoot (fileOps False) n d' = boGetRoot (fileOps False) n d)"
    if "disk_ok d" "boPut (fileOps False) data d = (Inl e, d')"
    using fbPut_cases [OF that(1), of data "Inl e" d'] that(2) by (simp add: fileOps_def)
  show "disk_ok d" if "disk_clean d" using that by (simp add: disk_clean_def)
  show "case r of Inr u \<Rightarrow> disk_clean d' | Inl e \<Rightarrow> disk_dry d'"
    if "disk_clean d" "boPut (fileOps False) data d = (r, d')" for r :: "UUID result"
    using fbPut_clean [OF that(1)] that(2) by (simp add: fileOps_def)
  show "\<exists>e s'. boPut (fileOps False) data d = (Inl e, s') \<and> disk_dry s'" if "disk_dry d"
  proof -
    obtain b d1 where 1: "osFault d = (b, d1)" by fastforce
    have "dRand d1 = []" using osFault_eq [OF 1] that by (simp add: disk_dry_def)
    then have "boPut (fileOps False) data d = (Inl (Error ''urandom''), d1)"
      by (simp add: fileOps_def fbPut_def 1)
    then show ?thesis using \<open>dRand d1 = []\<close> by (simp add: disk_dry_def)
  qed
  show "disk_ok d' \<and> (\<forall>v. boGet (fileOps False) v d' = boGet (fileOps False) v d)"
    if ok: "disk_ok d" and put: "boPutRoot (fileOps False) n data d = (r, d')" for r :: "go_error option"
  proof -
    have w: "writeAtomic [n] data d = (r, d')" using put by (simp add: fileOps_def fbPutRoot_def)
    note f = writeAtomic_files [OF w]
    have "disk_ok d'" by (rule disk_ok_write [OF ok w]) (auto simp: tmp_root_not_blob)
    then show ?thesis
      using f(1) f(3) [of "blobPath v" for v] by (auto simp: fileOps_def fbGet_def readFile_def tmp_root_not_blob)
  qed
  show "\<exists>s'. boPutRoot (fileOps False) n data d = (None, s') \<and> disk_clean s'
      \<and> boGetRoot (fileOps False) n s' = Inr (Some data)"
    if ok: "disk_clean d"
  proof -
    obtain s' where w: "writeAtomic [n] data d = (None, s')" "dFaults s' = []"
      using writeAtomic_clean [of d] ok by (auto simp: disk_clean_def)
    note f = writeAtomic_files [OF w(1)]
    have "disk_ok s'" by (rule disk_ok_write [OF _ w(1)]) (use ok in \<open>auto simp: tmp_root_not_blob disk_clean_def\<close>)
    moreover have "dBad s' = []" using f(1) ok by (simp add: disk_clean_def)
    moreover have "map_of (dFiles s') [n] = Some data" using f(3) [of "[n]"] by (simp add: tmpPath_def)
    ultimately show ?thesis
      using w by (simp add: fileOps_def fbPutRoot_def fbGetRoot_def readFile_def disk_clean_def)
  qed
qed

section \<open>Listing\<close>

text \<open>What the store leaves in its directory: root files, blobs and their temporary files.\<close>

definition layout :: "disk \<Rightarrow> bool" where
  "layout d \<longleftrightarrow> (\<forall>p \<in> fst ` set (dFiles d). length p = 1
     \<or> (\<exists>u. length u = 16 \<and> (p = blobPath u \<or> p = tmpPath (blobPath u))))"

lemma readDir_mem:
  "(n, b) \<in> set (readDir dir d) \<longleftrightarrow>
     (\<exists>p \<in> fst ` set (dFiles d). length dir < length p \<and> take (length dir) p = dir \<and> p ! length dir = n)
     \<and> b = (\<exists>p \<in> fst ` set (dFiles d). length dir < length p \<and> take (length dir) p = dir \<and> p ! length dir = n
              \<and> Suc (length dir) < length p)"
  unfolding readDir_def Let_def by (auto simp: image_iff)

lemma layout_long:
  assumes "layout d" "p \<in> fst ` set (dFiles d)" "2 \<le> length p"
  shows "length p = 3"
proof -
  have "length (tmpPath (blobPath u)) = 3" for u by (simp add: tmpPath_def blobPath_def Let_def)
  then show ?thesis using assms by (auto simp: layout_def)
qed

lemma three: "length p = 3 \<Longrightarrow> p = [p ! 0, p ! 1, p ! 2]"
  by (auto simp: numeral_3_eq_3 numeral_2_eq_2 length_Suc_conv)

lemma concat_dirs: "u \<in> set (concat (map (\<lambda>(n, b). if \<not> b then [] else f n) xs)) \<longleftrightarrow> (\<exists>n. (n, True) \<in> set xs \<and> u \<in> set (f n))"
  by (induction xs) (auto split: if_splits)

lemma concat_files:
  "u \<in> set (concat (map (\<lambda>(n, b). if b \<or> P n then [] else g n) xs)) \<longleftrightarrow> (\<exists>n. (n, False) \<in> set xs \<and> \<not> P n \<and> u \<in> set (g n))"
  by (induction xs) (auto split: if_splits)

lemma readable_dirs:
  assumes "\<forall>p \<in> set (dBad d). 3 \<le> length p"
  shows "readDirR [] d = Inr (readDir [] d)" "shard [a] d = readDir [a] d" "shard [a, b] d = readDir [a, b] d"
  using assms by (auto simp: shard_def readDirR_def)

lemma fbList_mem:
  assumes "\<forall>p \<in> set (dBad d). 3 \<le> length p"
  shows
  "u \<in> set (projr (fbList d)) \<longleftrightarrow> (\<exists>n1 n2 n3. (n1, True) \<in> set (readDir [] d) \<and> (n2, True) \<in> set (readDir [n1] d)
     \<and> (n3, False) \<in> set (readDir [n1, n2] d) \<and> \<not> hasSuffixStr n3 ''.tmp'' \<and> hexToID n3 = Some u)"
proof -
  have "u \<in> set (case hexToID n of Some u \<Rightarrow> [u] | None \<Rightarrow> []) \<longleftrightarrow> hexToID n = Some u" for n
    by (auto split: option.split)
  then show ?thesis unfolding fbList_def readable_dirs [OF assms] rbind_simps sum.sel concat_dirs concat_files by blast
qed

lemma not_tmp_suffix: "\<not> hasSuffixStr (idToHex u) ''.tmp''"
  using dot_not_hex [of u] by (auto simp: hasSuffixStr_def) (metis in_set_dropD list.set_intros(1))

text \<open>Listing is exact: in readable directories only the store has written to, \<open>List\<close> returns an identifier exactly
  when its blob exists; temporary files of failed writes and root files never show up.\<close>

theorem fbList_exact:
  assumes "layout d" and dirs: "\<forall>p \<in> set (dBad d). 3 \<le> length p"
  shows "\<exists>us. fbList d = Inr us \<and> set us = {u. length u = 16 \<and> map_of (dFiles d) (blobPath u) \<noteq> None}"
proof -
  have dm: "p \<in> fst ` set (dFiles d) \<longleftrightarrow> map_of (dFiles d) p \<noteq> None" for p by (simp add: map_of_eq_None_iff)
  have "u \<in> set (projr (fbList d)) \<longleftrightarrow> length u = 16 \<and> map_of (dFiles d) (blobPath u) \<noteq> None" (is "?L \<longleftrightarrow> ?R") for u
  proof
    assume ?L
    then obtain n1 n2 n3 where n: "(n3, False) \<in> set (readDir [n1, n2] d)" "\<not> hasSuffixStr n3 ''.tmp''" "hexToID n3 = Some u"
      using fbList_mem [OF dirs] by blast
    then obtain p where p: "p \<in> fst ` set (dFiles d)" "2 < length p" "p ! 2 = n3"
      using n(1) unfolding readDir_mem by (auto simp: numeral_2_eq_2)
    then obtain v where v: "length v = 16" "p = blobPath v \<or> p = tmpPath (blobPath v)"
      using assms(1) unfolding layout_def by fastforce
    have "\<not> p = tmpPath (blobPath v)"
      using n(2) p(3) by (auto simp: tmpPath_def blobPath_def Let_def hasSuffixStr_def)
    then have "p = blobPath v" using v(2) by blast
    then have "n3 = idToHex v" using p(3) by (simp add: blobPath_def Let_def)
    then have "v = u" using n(3) hexToID_idToHex [OF v(1)] by simp
    then show ?R using v(1) p(1) \<open>p = blobPath v\<close> dm by auto
  next
    assume r: ?R
    let ?h = "idToHex u" and ?a = "slice (idToHex u) 0 2" and ?b = "slice (idToHex u) 2 4"
    have p: "blobPath u \<in> fst ` set (dFiles d)" using r dm by blast
    have e: "blobPath u = [?a, ?b, ?h]" by (simp add: blobPath_def Let_def)
    have "(?a, True) \<in> set (readDir [] d)" "(?b, True) \<in> set (readDir [?a] d)"
      unfolding readDir_mem using p e by force+
    moreover have "(?h, False) \<in> set (readDir [?a, ?b] d)"
    proof -
      have "length q \<le> 3" if "q \<in> fst ` set (dFiles d)" for q
        using layout_long [OF assms(1) that] by (cases "2 \<le> length q") auto
      then show ?thesis unfolding readDir_mem using p e by force
    qed
    ultimately show ?L
      using fbList_mem [OF dirs] not_tmp_suffix hexToID_idToHex r by blast
  qed
  moreover have "fbList d = Inr (projr (fbList d))" by (simp add: fbList_def readable_dirs [OF dirs])
  ultimately show ?thesis by (intro exI [of _ "projr (fbList d)"]) auto
qed

theorem fbList_exact_witness:
  "\<exists>us. fbList (demoStore\<lparr>dFiles := [([''root_1''], [0]), (blobPath (replicate 16 7), [1])]\<rparr>) = Inr us
     \<and> replicate 16 7 \<in> set us"
proof -
  let ?d = "demoStore\<lparr>dFiles := [([''root_1''], [0]), (blobPath (replicate 16 7), [1])]\<rparr>"
  have "layout ?d" by (auto simp: layout_def)
  from fbList_exact [OF this] show ?thesis by (auto simp: demoStore_def)
qed

end
