(* ===== verification/TreeMerge.thy ===== *)
theory TreeMerge
  imports Store
begin

text \<open>
  Correctness of the copy-on-write merge of \<^verbatim>\<open>src/go/internal/pagestore/store.go\<close>. A B-tree is described by the pages
  it is made of; on a blob store that meets its contract, a merge leaves every page that was readable as it was,
  whatever fails, and when nothing fails it produces a well-formed tree that holds the union of the old and
  the new keys in order.
\<close>

section \<open>Merging two ascending lists\<close>

lemma mergeKeys_set: "set (mergeKeys a b) = set a \<union> set b"
  by (induction a b rule: mergeKeys.induct) (auto simp: cmp_simps)

lemma mergeKeys_ascending: "ascending a \<Longrightarrow> ascending b \<Longrightarrow> ascending (mergeKeys a b)"
  by (induction a b rule: mergeKeys.induct) (auto simp: cmp_simps mergeKeys_set)

lemma sequence_map_Inr: "sequence (map Inr xs) = Inr xs"
  by (induction xs) simp_all

lemma sequence_Inr: "sequence rs = Inr xs \<longleftrightarrow> rs = map Inr xs"
proof
  show "sequence rs = Inr xs \<Longrightarrow> rs = map Inr xs"
    by (induction rs arbitrary: xs) (auto simp: rbind_Inr)
qed (simp add: sequence_map_Inr)

section \<open>Keys the page formats can hold\<close>

text \<open>
  A key of at least nine bytes keeps the number of keys of a leaf below the 16-bit count; keys below 64 KiB keep
  several entries on an index page, so that every level is at most half as long as the one below.
\<close>

definition key_ok :: "bytes \<Rightarrow> bool" where
  "key_ok k \<longleftrightarrow> 9 \<le> length k \<and> length k < 65536"

definition leaf_part :: "bytes list \<Rightarrow> bool" where
  "leaf_part p \<longleftrightarrow> p \<noteq> [] \<and> key_ok (hd p) \<and> length (concat p) < 2 ^ 31 \<and> DeserializePage (SerializePage p) = Inr p"

definition entry_ok :: "IndexEntry \<Rightarrow> bool" where
  "entry_ok e \<longleftrightarrow> key_ok (ieKey e) \<and> length (ieUUID e) = 16 \<and> ieUUID e \<noteq> EmptyUUID"

lemma length_serEntries:
  assumes "\<forall>e \<in> set es. entry_ok e"
  shows "16 * length es \<le> length (serEntries prev es) \<and> length (serEntries prev es) \<le> 65572 * length es"
  using assms
proof (induction es arbitrary: prev)
  case (Cons e es)
  have "length (serKey prev (ieKey e)) \<le> 20 + 65536" "length (ieUUID e) = 16"
    using length_serKey [of prev "ieKey e"] Cons.prems by (auto simp: entry_ok_def key_ok_def)
  moreover
  have "16 * length es \<le> length (serEntries (ieKey e) es)" "length (serEntries (ieKey e) es) \<le> 65572 * length es"
    using Cons by simp_all
  ultimately show ?case by simp
qed simp

lemma length_SerializeIndexPage:
  assumes "\<forall>e \<in> set es. entry_ok e"
  shows "16 * length es + 2 \<le> length (SerializeIndexPage es)" "length (SerializeIndexPage es) \<le> 65572 * length es + 2"
  using length_serEntries [OF assms] by (simp_all add: SerializeIndexPage_def)

lemma index_page_ok:
  assumes "\<forall>e \<in> set es. entry_ok e" "length (SerializeIndexPage es) \<le> IndexPageMaxSize \<or> length es \<le> 1"
  shows "DeserializeIndexPage (SerializeIndexPage es) = Inr es"
proof (rule index_page_decodes)
  note l = length_SerializeIndexPage [OF assms(1)]
  show "length es < 65536" using assms(2) l by (auto simp: IndexPageMaxSize_def)
  show "small (length (SerializeIndexPage es))" using assms(2) l by (auto simp: IndexPageMaxSize_def)
  show "\<forall>e \<in> set es. small (length (ieKey e)) \<and> length (ieUUID e) = 16"
    using assms(1) by (auto simp: entry_ok_def key_ok_def)
qed

lemma big_index_long:
  assumes "\<forall>e \<in> set es. entry_ok e" "\<not> length (SerializeIndexPage es) \<le> IndexPageMaxSize"
  shows "4 \<le> length es"
  using length_SerializeIndexPage(2) [OF assms(1)] assms(2) by (simp add: IndexPageMaxSize_def)

text \<open>The pages of a split level, and what they decode to.\<close>

lemma SplitIndexEntries_parts:
  assumes "\<forall>e \<in> set es. entry_ok e" "es \<noteq> []"
  shows "\<exists>parts. SplitIndexEntries es = map SerializeIndexPage parts \<and> concat parts = es
    \<and> (\<forall>p \<in> set parts. p \<noteq> [] \<and> (2 \<le> length es \<longrightarrow> 2 \<le> length p) \<and> DeserializeIndexPage (SerializeIndexPage p) = Inr p)
    \<and> (IndexPageMaxSize < length (SerializeIndexPage es) \<and> 2 \<le> length es \<longrightarrow> 2 \<le> length parts)"
  using assms
proof (induction es rule: SplitIndexEntries.induct)
  case (1 es)
  let ?m = "length es div 2"
  show ?case
  proof (cases "length (SerializeIndexPage es) \<le> IndexPageMaxSize \<or> length es = 1")
    case True
    then have "SplitIndexEntries es = [SerializeIndexPage es]"
      using "1.prems"(2) by (subst SplitIndexEntries.simps) (simp add: Let_def)
    then show ?thesis
      using "1.prems" True index_page_ok [of es] by (intro exI [of _ "[es]"]) auto
  next
    case False
    then have s: "SplitIndexEntries es = SplitIndexEntries (take ?m es) @ SplitIndexEntries (drop ?m es)"
      using "1.prems"(2) by (subst SplitIndexEntries.simps) (simp add: Let_def)
    have long: "4 \<le> length es" using big_index_long "1.prems"(1) False by blast
    have ok: "\<forall>e \<in> set (take ?m es). entry_ok e" "\<forall>e \<in> set (drop ?m es). entry_ok e"
      using "1.prems"(1) by (auto dest: in_set_takeD in_set_dropD)
    have h: "2 \<le> length (take ?m es)" "2 \<le> length (drop ?m es)" "take ?m es \<noteq> []" "drop ?m es \<noteq> []"
      using long by auto
    obtain p1 where 1: "SplitIndexEntries (take ?m es) = map SerializeIndexPage p1" "concat p1 = take ?m es"
      "\<forall>p \<in> set p1. p \<noteq> [] \<and> (2 \<le> length (take ?m es) \<longrightarrow> 2 \<le> length p) \<and> DeserializeIndexPage (SerializeIndexPage p) = Inr p"
      using "1.IH"(1) [OF _ refl _ refl ok(1) h(3)] False "1.prems"(2) by auto
    obtain p2 where 2: "SplitIndexEntries (drop ?m es) = map SerializeIndexPage p2" "concat p2 = drop ?m es"
      "\<forall>p \<in> set p2. p \<noteq> [] \<and> (2 \<le> length (drop ?m es) \<longrightarrow> 2 \<le> length p) \<and> DeserializeIndexPage (SerializeIndexPage p) = Inr p"
      using "1.IH"(2) [OF _ refl _ refl ok(2) h(4)] False "1.prems"(2) by auto
    have "p1 \<noteq> []" "p2 \<noteq> []" using 1(2) 2(2) h(3,4) by auto
    then have "2 \<le> length (p1 @ p2)" by (cases p1; cases p2) auto
    then show ?thesis
      by (intro exI [of _ "p1 @ p2"]) (use s 1 2 h in auto)
  qed
qed

lemma parts_shrink: "\<forall>p \<in> set parts. 2 \<le> length p \<Longrightarrow> 2 * length parts \<le> length (concat parts)"
  by (induction parts) auto

section \<open>Trees\<close>

text \<open>What reading the blobs of a store gives: identifiers to decompressed pages.\<close>

type_synonym pages = "UUID \<rightharpoonup> bytes"

definition pageOf :: "zstd \<Rightarrow> 's blob_ops \<Rightarrow> 's \<Rightarrow> pages" where
  "pageOf z bo s u = (case blobGet z bo u s of Inr d \<Rightarrow> d | Inl _ \<Rightarrow> None)"

text \<open>
  \<open>tree P h u ks\<close>: the pages below \<open>u\<close> form a tree of height \<open>h\<close> whose keys, left to right, are \<open>ks\<close>. Index
  pages above the lowest level have at least two entries, so the height is logarithmic in the number of keys.
\<close>

fun tree :: "pages \<Rightarrow> nat \<Rightarrow> UUID \<Rightarrow> bytes list \<Rightarrow> bool" where
  "tree P 0 u ks = (\<exists>d. P u = Some d \<and> DeserializePage d = Inr ks \<and> ks \<noteq> [] \<and> length (concat ks) < 2 ^ 31)"
| "tree P (Suc h) u ks =
     (\<exists>d es kss. P u = Some d \<and> DeserializeIndexPage d = Inr es \<and> es \<noteq> [] \<and> (h = 0 \<or> 2 \<le> length es)
        \<and> ks = concat kss \<and> list_all2 (\<lambda>e l. entry_ok e \<and> ieKey e = hd l \<and> tree P h (ieUUID e) l) es kss)"

text \<open>A list of entries above trees of one height.\<close>

definition forest :: "pages \<Rightarrow> nat \<Rightarrow> IndexEntry list \<Rightarrow> bytes list list \<Rightarrow> bool" where
  "forest P h es kss \<longleftrightarrow> list_all2 (\<lambda>e l. entry_ok e \<and> ieKey e = hd l \<and> tree P h (ieUUID e) l) es kss"

lemma tree_Suc:
  "tree P (Suc h) u ks \<longleftrightarrow>
     (\<exists>d es kss. P u = Some d \<and> DeserializeIndexPage d = Inr es \<and> es \<noteq> [] \<and> (h = 0 \<or> 2 \<le> length es)
        \<and> ks = concat kss \<and> forest P h es kss)"
  by (simp add: forest_def)

lemma forest_simps [simp]:
  "forest P h [] kss \<longleftrightarrow> kss = []"
  "forest P h (e # es) kss \<longleftrightarrow>
     (\<exists>l ls. kss = l # ls \<and> entry_ok e \<and> ieKey e = hd l \<and> tree P h (ieUUID e) l \<and> forest P h es ls)"
  by (auto simp: forest_def list_all2_Cons1)

lemma forest_append: "forest P h es kss \<Longrightarrow> forest P h es' kss' \<Longrightarrow> forest P h (es @ es') (kss @ kss')"
  unfolding forest_def by (rule list_all2_appendI)

lemma forest_entries: "forest P h es kss \<Longrightarrow> \<forall>e \<in> set es. entry_ok e"
  by (induction es arbitrary: kss) auto

declare tree.simps(2) [simp del]

lemma tree_nonempty: "tree P h u ks \<Longrightarrow> ks \<noteq> []"
proof (induction h arbitrary: u ks)
  case (Suc h)
  then obtain es kss where t: "es \<noteq> []" "ks = concat kss" "forest P h es kss" unfolding tree_Suc by blast
  then obtain e es' where "es = e # es'" by (cases es) auto
  with t obtain l ls where "kss = l # ls" "tree P h (ieUUID e) l" by auto
  then show ?case using Suc.IH t(2) by auto
qed auto

lemma forest_size: "forest P h es kss \<Longrightarrow> (\<And>u ks. tree P h u ks \<Longrightarrow> n \<le> length ks) \<Longrightarrow> n * length es \<le> length (concat kss)"
proof (induction es arbitrary: kss)
  case (Cons e es)
  then obtain l ls where l: "kss = l # ls" "tree P h (ieUUID e) l" "forest P h es ls" by auto
  have "n \<le> length l" using Cons.prems(2) l(2) .
  moreover have "n * length es \<le> length (concat ls)" using Cons.IH [OF l(3)] Cons.prems(2) by blast
  ultimately show ?case using l(1) by simp
qed simp

lemma tree_size: "tree P h u ks \<Longrightarrow> 2 ^ (h - 1) \<le> length ks"
proof (induction h arbitrary: u ks)
  case 0
  then show ?case by (cases ks) auto
next
  case (Suc h)
  obtain es kss where t: "h = 0 \<or> 2 \<le> length es" "ks = concat kss" "forest P h es kss"
    using Suc.prems unfolding tree_Suc by blast
  show ?case
  proof (cases h)
    case 0
    then show ?thesis using tree_nonempty [OF Suc.prems] by (cases ks) auto
  next
    case (Suc n)
    have "2 ^ (h - 1) * 2 \<le> 2 ^ (h - 1) * length es" using t(1) Suc by simp
    also have "\<dots> \<le> length (concat kss)" by (rule forest_size [OF t(3) Suc.IH])
    finally show ?thesis using t(2) Suc by simp
  qed
qed

lemma tree_mono: "tree P h u ks \<Longrightarrow> P \<subseteq>\<^sub>m P' \<Longrightarrow> tree P' h u ks"
proof (induction h arbitrary: u ks)
  case 0
  then show ?case by (force simp: map_le_def)
next
  case (Suc h)
  then obtain d es kss where t: "P u = Some d" "DeserializeIndexPage d = Inr es" "es \<noteq> []" "h = 0 \<or> 2 \<le> length es" "ks = concat kss"
      "forest P h es kss"
    unfolding tree_Suc by blast
  have "forest P' h es kss"
    using t(6) unfolding forest_def by (rule list_all2_mono) (use Suc in blast)
  moreover have "P' u = Some d" using t(1) Suc.prems(2) by (force simp: map_le_def)
  ultimately show ?case using t unfolding tree_Suc by blast
qed

lemma forest_mono: "forest P h es kss \<Longrightarrow> P \<subseteq>\<^sub>m P' \<Longrightarrow> forest P' h es kss"
  unfolding forest_def by (erule list_all2_mono) (auto intro: tree_mono)

section \<open>A page store over a blob store\<close>

text \<open>
  What the page store relies on: the contract of the blob store, and that zstd decodes what it encoded.
  \<open>does b f s Q\<close>: run from \<open>s\<close>, the action keeps the store well formed and every page that could be read
  readable as it was, and a result satisfies \<open>Q\<close>; when \<open>b\<close> holds and the blob store is free of faults there is
  a result, unless the supply of identifiers has run dry.
\<close>

locale page_store = blob_store bo wf clean dry for bo :: "'s blob_ops" and wf clean dry +
  fixes z :: zstd
  assumes zstd_inverse: "Decompress z (compress z d) = Inr d"
begin

abbreviation pg :: "'s \<Rightarrow> pages" where
  "pg \<equiv> pageOf z bo"

definition does :: "bool \<Rightarrow> ('a, 's) action \<Rightarrow> 's \<Rightarrow> ('a \<Rightarrow> 's \<Rightarrow> bool) \<Rightarrow> bool" where
  "does b f s Q \<longleftrightarrow>
     (\<forall>r s'. f s = (r, s') \<longrightarrow> wf s' \<and> pg s \<subseteq>\<^sub>m pg s' \<and> (\<forall>x. r = Inr x \<longrightarrow> Q x s'))
     \<and> (b \<and> clean s \<longrightarrow> (\<forall>r s'. f s = (r, s') \<longrightarrow> (case r of Inr x \<Rightarrow> clean s' | Inl e \<Rightarrow> dry s')))"

lemma does_bind:
  assumes f: "does b f s Q" and g: "\<And>x s1. wf s1 \<Longrightarrow> pg s \<subseteq>\<^sub>m pg s1 \<Longrightarrow> Q x s1 \<Longrightarrow> does b (g x) s1 R"
  shows "does b (sbind f g) s R"
proof -
  obtain r s1 where fs: "f s = (r, s1)" by fastforce
  note f1 = f [unfolded does_def, THEN conjunct1, rule_format, OF fs]
  note f2 = f [unfolded does_def, THEN conjunct2, rule_format, OF _ fs]
  show ?thesis
  proof (cases r)
    case (Inl e)
    then have "sbind f g s = (Inl e, s1)" using fs by (simp add: sbind_def)
    then show ?thesis using f1 f2 Inl by (simp add: does_def)
  next
    case (Inr x)
    then have e: "sbind f g s = g x s1" using fs by (simp add: sbind_def)
    have d: "does b (g x) s1 R" using g f1 Inr by blast
    have c: "clean s1" if "b \<and> clean s" using f2 [OF that] Inr by simp
    show ?thesis unfolding does_def e
    proof (intro conjI allI impI)
      fix r' s2
      assume h: "g x s1 = (r', s2)"
      note g1 = d [unfolded does_def, THEN conjunct1, rule_format, OF h]
      show "wf s2" using g1 by blast
      show "pg s \<subseteq>\<^sub>m pg s2" using f1 g1 map_le_trans by blast
      show "R y s2" if "r' = Inr y" for y using g1 that by blast
      show "case r' of Inr x \<Rightarrow> clean s2 | Inl e \<Rightarrow> dry s2" if "b \<and> clean s"
        using d [unfolded does_def, THEN conjunct2, rule_format, OF _ h] c that by blast
    qed
  qed
qed

lemma does_return [intro]: "wf s \<Longrightarrow> Q x s \<Longrightarrow> does b (sreturn x) s Q"
  by (simp add: does_def sreturn_def)

lemma does_fail: "wf s \<Longrightarrow> \<not> b \<Longrightarrow> does b (sfail e) s Q"
  by (simp add: does_def sfail_def)

lemma does_lift: "wf s \<Longrightarrow> (b \<Longrightarrow> \<exists>x. r = Inr x) \<Longrightarrow> (\<And>x. r = Inr x \<Longrightarrow> Q x s) \<Longrightarrow> does b (slift r) s Q"
  by (auto simp: does_def slift_def)

lemma does_get:
  assumes "wf s" "b \<Longrightarrow> pg s u = Some d"
  shows "does b (sblobGet z bo u) s (\<lambda>x s'. s' = s \<and> (b \<longrightarrow> x = Some d))"
  using assms by (cases "blobGet z bo u s") (auto simp: does_def sblobGet_def pageOf_def)

lemma does_imp: "does b f s Q \<Longrightarrow> (\<And>x s'. wf s' \<Longrightarrow> pg s \<subseteq>\<^sub>m pg s' \<Longrightarrow> Q x s' \<Longrightarrow> R x s') \<Longrightarrow> does b f s R"
  unfolding does_def by blast

lemma does_put:
  assumes "wf s"
  shows "does True (blobPut z bo d) s (\<lambda>u s'. pg s' u = Some d \<and> length u = 16 \<and> u \<noteq> EmptyUUID)"
proof -
  have "wf s' \<and> pg s \<subseteq>\<^sub>m pg s' \<and> (\<forall>u. r = Inr u \<longrightarrow> pg s' u = Some d \<and> length u = 16 \<and> u \<noteq> EmptyUUID)"
    if p: "boPut bo (compress z d) s = (r, s')" for r s'
  proof (cases r)
    case (Inl e)
    then have "wf s'" "pg s' = pg s" using put_err [OF assms p [unfolded Inl]] by (auto simp: pageOf_def blobGet_def)
    then show ?thesis using Inl by simp
  next
    case (Inr u)
    note o = put_ok [OF assms p [unfolded Inr]]
    then have "pg s' = (pg s)(u := Some d)" "pg s u = None"
      by (auto simp: pageOf_def blobGet_def decompressOpt_def zstd_inverse fun_eq_iff)
    then show ?thesis using o Inr by (auto simp: map_le_def)
  qed
  then show ?thesis using put_clean [of s "compress z d"] unfolding does_def blobPut_def by blast
qed

lemma putAll_pages:
  assumes "wf s" "putAll z bo ps s = (rs, s')"
  shows "wf s' \<and> pg s \<subseteq>\<^sub>m pg s'
    \<and> list_all2 (\<lambda>r p. \<forall>u. r = Inr u \<longrightarrow> pg s' u = Some p \<and> length u = 16 \<and> u \<noteq> EmptyUUID) rs ps
    \<and> (clean s \<longrightarrow> clean s' \<and> (\<forall>r \<in> set rs. \<exists>u. r = Inr u) \<or> dry s' \<and> (\<exists>e. Inl e \<in> set rs))
    \<and> (dry s \<longrightarrow> dry s')"
  using assms
proof (induction ps arbitrary: s rs)
  case (Cons p ps)
  obtain r s1 where 1: "blobPut z bo p s = (r, s1)" by fastforce
  obtain rs2 where 2: "putAll z bo ps s1 = (rs2, s')" "rs = r # rs2"
    using Cons.prems(2) 1 by (auto split: prod.splits)
  note d = does_put [OF Cons.prems(1), of p, unfolded does_def]
  have w: "wf s1" "pg s \<subseteq>\<^sub>m pg s1" and u: "\<forall>u. r = Inr u \<longrightarrow> pg s1 u = Some p \<and> length u = 16 \<and> u \<noteq> EmptyUUID"
    using d 1 by auto
  have c: "clean s1 \<and> (\<exists>u. r = Inr u) \<or> dry s1 \<and> (\<exists>e. r = Inl e)" if "clean s"
    using d 1 that by (cases r) auto
  have y: "dry s1" if "dry s" using put_dry [OF that, of "compress z p"] 1 by (auto simp: blobPut_def)
  note IH = Cons.IH [OF w(1) 2(1)]
  have "\<forall>u. r = Inr u \<longrightarrow> pg s' u = Some p \<and> length u = 16 \<and> u \<noteq> EmptyUUID"
    using u IH by (force simp: map_le_def)
  moreover have "clean s' \<and> (\<forall>r \<in> set rs. \<exists>u. r = Inr u) \<or> dry s' \<and> (\<exists>e. Inl e \<in> set rs)" if "clean s"
    using IH c [OF that] 2(2) by auto
  ultimately show ?case using IH w(2) y 2(2) map_le_trans [of "pg s" "pg s1" "pg s'"] by auto
qed simp

lemma does_putPages:
  assumes "wf s"
  shows "does True (blobPutPages z bo ps) s
    (\<lambda>us s'. list_all2 (\<lambda>u p. pg s' u = Some p \<and> length u = 16 \<and> u \<noteq> EmptyUUID) us ps)"
proof -
  obtain rs s' where p: "putAll z bo ps s = (rs, s')" by fastforce
  note a = putAll_pages [OF assms p]
  have "list_all2 (\<lambda>u p. pg s' u = Some p \<and> length u = 16 \<and> u \<noteq> EmptyUUID) us ps" if "sequence rs = Inr us" for us
    using a that by (simp add: sequence_Inr list_all2_map1)
  moreover have "case sequence rs of Inr x \<Rightarrow> clean s' | Inl e \<Rightarrow> dry s'" if "clean s"
  proof (cases "\<forall>r \<in> set rs. \<exists>u. r = Inr u")
    case True
    then have "clean s'" using a that by auto
    moreover have "\<exists>us. sequence rs = Inr us" using True ex_map_conv [of rs Inr] by (auto simp: sequence_Inr)
    ultimately show ?thesis by auto
  next
    case False
    then have "dry s'" using a that by auto
    moreover have "\<not> (\<exists>us. sequence rs = Inr us)" using False by (auto simp: sequence_Inr)
    ultimately show ?thesis by (cases "sequence rs") auto
  qed
  ultimately show ?thesis using a p by (auto simp: does_def blobPutPages_def)
qed

end

section \<open>Writing leaves and index levels\<close>

lemma forest_head:
  assumes "forest P h es kss" "es \<noteq> []"
  shows "ieKey (es ! 0) = hd (concat kss)" "key_ok (ieKey (es ! 0))" "concat kss \<noteq> []"
proof -
  obtain e es' where e: "es = e # es'" using assms(2) by (cases es) auto
  with assms(1) obtain l ls where l: "kss = l # ls" "entry_ok e" "ieKey e = hd l" "tree P h (ieUUID e) l" by auto
  then have "l \<noteq> []" using tree_nonempty by blast
  then show "ieKey (es ! 0) = hd (concat kss)" "key_ok (ieKey (es ! 0))" "concat kss \<noteq> []"
    using e l by (auto simp: entry_ok_def)
qed

lemma forest_split:
  "forest P h (concat parts) kss \<Longrightarrow> \<exists>ksss. concat ksss = kss \<and> list_all2 (forest P h) parts ksss"
proof (induction parts arbitrary: kss)
  case (Cons p parts)
  then obtain k1 k2 where k: "kss = k1 @ k2" "forest P h p k1" "forest P h (concat parts) k2"
    unfolding forest_def by (auto simp: list_all2_append1)
  then obtain ksss where "concat ksss = k2" "list_all2 (forest P h) parts ksss" using Cons.IH by blast
  then show ?case using k by (intro exI [of _ "k1 # ksss"]) auto
qed auto

lemma forest_map2:
  assumes "length us = length pl" "length kss = length pl"
    and "\<And>i. i < length pl \<Longrightarrow> entry_ok (entryOf (ks ! i) (us ! i)) \<and> ks ! i = hd (kss ! i) \<and> tree P h (us ! i) (kss ! i)"
    and "length ks = length pl"
  shows "forest P h (map2 entryOf ks us) kss"
  using assms unfolding forest_def list_all2_conv_all_nth entryOf_def by auto metis

lemma newEntry: "entry_ok (entryOf k u) \<longleftrightarrow> key_ok k \<and> length u = 16 \<and> u \<noteq> EmptyUUID"
  by (simp add: entry_ok_def entryOf_def)

lemma concat_map_concat: "concat (map concat xsss) = concat (concat xsss)"
  by (induction xsss) auto

context page_store
begin

lemma does_weaken: "does True f s Q \<Longrightarrow> does b f s Q"
  by (simp add: does_def)

lemma does_putPageList:
  assumes "wf s" "b \<Longrightarrow> pl = map (\<lambda>p. (hd p, SerializePage p)) parts
    \<and> (\<forall>p \<in> set parts. leaf_part p)"
  shows "does b (putPageList z bo pl False) s (\<lambda>es s'. b \<longrightarrow> forest (pg s') 0 es parts)"
  unfolding putPageList_def
proof (rule does_bind [OF does_lift [where Q = "\<lambda>_ _. True"]])
  show "\<exists>x. sequence (map (validPage False \<circ> snd) pl) = Inr x" if b
    using assms(2) [OF that] by (auto simp: sequence_Inr validPage_def leaf_part_def intro!: exI [of _ "map (\<lambda>_. ()) parts"])
  show "does b (sbind (blobPutPages z bo (map snd pl)) (\<lambda>uuids. sreturn (map2 entryOf (map fst pl) uuids))) s1
      (\<lambda>es s'. b \<longrightarrow> forest (pg s') 0 es parts)" if w: "wf s1" for s1
  proof (rule does_bind [OF does_putPages [OF w, THEN does_weaken]], rule does_return)
    fix us s2
    assume us: "list_all2 (\<lambda>u p. pg s2 u = Some p \<and> length u = 16 \<and> u \<noteq> EmptyUUID) us (map snd pl)"
    show "b \<longrightarrow> forest (pg s2) 0 (map2 entryOf (map fst pl) us) parts"
    proof
      assume b
      note a = assms(2) [OF this]
      show "forest (pg s2) 0 (map2 entryOf (map fst pl) us) parts"
        by (rule forest_map2 [of _ parts]) (use us a in \<open>auto simp: list_all2_conv_all_nth newEntry leaf_part_def\<close>)
    qed
  qed
qed (use assms(1) in auto)

lemma does_putIndexPages:
  assumes "wf s" "b \<Longrightarrow> pages = map SerializeIndexPage parts
    \<and> (\<forall>p \<in> set parts. p \<noteq> [] \<and> (h = 0 \<or> 2 \<le> length p) \<and> DeserializeIndexPage (SerializeIndexPage p) = Inr p)
    \<and> list_all2 (forest (pg s) h) parts ksss"
  shows "does b (putIndexPages z bo pages) s
    (\<lambda>es s'. b \<longrightarrow> forest (pg s') (Suc h) es (map concat ksss) \<and> length es = length parts)"
  unfolding putIndexPages_def
proof (rule does_bind [OF does_lift [where Q = "\<lambda>x s'. s' = s \<and> (b \<longrightarrow> x = parts)"]])
  have dec: "map DeserializeIndexPage pages = map Inr parts" if b
    using assms(2) [OF that] by simp
  show "\<exists>x. sequence (map DeserializeIndexPage pages) = Inr x" if b
    using dec [OF that] by (simp add: sequence_map_Inr)
  show "s = s \<and> (b \<longrightarrow> x = parts)" if x: "sequence (map DeserializeIndexPage pages) = Inr x" for x
    using dec x by (auto simp: sequence_map_Inr)
next
  fix pes s1
  assume w: "wf s1" "pg s \<subseteq>\<^sub>m pg s1" "s1 = s \<and> (b \<longrightarrow> pes = parts)"
  let ?live = "filter (\<lambda>x. fst x \<noteq> []) (zip pes pages)"
  show "does b (let live = ?live in sbind (blobPutPages z bo (map snd live)) (\<lambda>uuids.
            sreturn (map2 entryOf (map (\<lambda>x. ieKey (fst x ! 0)) live) uuids))) s1
    (\<lambda>es s'. b \<longrightarrow> forest (pg s') (Suc h) es (map concat ksss) \<and> length es = length parts)"
    unfolding Let_def
  proof (rule does_bind [OF does_putPages [OF w(1), THEN does_weaken]], rule does_return)
    fix us s2
    assume us: "list_all2 (\<lambda>u p. pg s2 u = Some p \<and> length u = 16 \<and> u \<noteq> EmptyUUID) us (map snd ?live)"
      and g: "pg s1 \<subseteq>\<^sub>m pg s2"
    let ?es = "map2 entryOf (map (\<lambda>x. ieKey (fst x ! 0)) ?live) us"
    show "b \<longrightarrow> forest (pg s2) (Suc h) ?es (map concat ksss) \<and> length ?es = length parts"
    proof
      assume b
      note a = assms(2) [OF this]
      have pes: "pes = parts" using w(3) \<open>b\<close> by blast
      have "p \<noteq> []" if "(p, q) \<in> set (zip parts pages)" for p q using set_zip_leftD [OF that] a by blast
      then have live: "?live = zip parts pages" unfolding pes by (intro filter_True) auto
      have l: "length us = length parts" "length pages = length parts" "length ksss = length parts"
        using list_all2_lengthD [OF us] list_all2_lengthD [OF conjunct2 [OF conjunct2 [OF a]]] a live by simp_all
      have f: "forest (pg s2) h (parts ! i) (ksss ! i)" if "i < length parts" for i
        using a that w(3) forest_mono [OF _ g] by (auto simp: list_all2_conv_all_nth)
      have "forest (pg s2) (Suc h) ?es (map concat ksss)"
      proof (rule forest_map2 [of _ parts])
        fix i
        assume i: "i < length parts"
        then have p: "parts ! i \<noteq> []" using a by simp
        note hd = forest_head [OF f [OF i] p]
        have u: "pg s2 (us ! i) = Some (SerializeIndexPage (parts ! i))" "length (us ! i) = 16" "us ! i \<noteq> EmptyUUID"
          using us i l a live by (auto simp: list_all2_conv_all_nth)
        have "DeserializeIndexPage (SerializeIndexPage (parts ! i)) = Inr (parts ! i)" "h = 0 \<or> 2 \<le> length (parts ! i)"
          using a nth_mem [OF i] by blast+
        then have "tree (pg s2) (Suc h) (us ! i) (concat (ksss ! i))"
          unfolding tree_Suc using u(1) p f [OF i] by blast
        then show "entry_ok (entryOf (map (\<lambda>x. ieKey (fst x ! 0)) ?live ! i) (us ! i))
            \<and> map (\<lambda>x. ieKey (fst x ! 0)) ?live ! i = hd (map concat ksss ! i)
            \<and> tree (pg s2) (Suc h) (us ! i) (map concat ksss ! i)"
          using i l hd u live by (simp add: newEntry)
      qed (use l live in simp_all)
      then show "forest (pg s2) (Suc h) ?es (map concat ksss) \<and> length ?es = length parts" using l live by simp
    qed
  qed
qed (use assms(1) in auto)

end

lemma split_forest:
  assumes "forest P h es kss" "es \<noteq> []"
  obtains parts ksss where "SplitIndexEntries es = map SerializeIndexPage parts"
    "\<forall>p \<in> set parts. p \<noteq> [] \<and> (2 \<le> length es \<longrightarrow> 2 \<le> length p) \<and> DeserializeIndexPage (SerializeIndexPage p) = Inr p"
    "list_all2 (forest P h) parts ksss" "concat ksss = kss" "concat parts = es" "parts \<noteq> []"
    "IndexPageMaxSize < length (SerializeIndexPage es) \<and> 2 \<le> length es \<longrightarrow> 2 \<le> length parts"
proof -
  obtain parts where p: "SplitIndexEntries es = map SerializeIndexPage parts" "concat parts = es"
    "\<forall>p \<in> set parts. p \<noteq> [] \<and> (2 \<le> length es \<longrightarrow> 2 \<le> length p) \<and> DeserializeIndexPage (SerializeIndexPage p) = Inr p"
    "IndexPageMaxSize < length (SerializeIndexPage es) \<and> 2 \<le> length es \<longrightarrow> 2 \<le> length parts"
    using SplitIndexEntries_parts [OF forest_entries [OF assms(1)] assms(2)] by blast
  obtain ksss where k: "concat ksss = kss" "list_all2 (forest P h) parts ksss"
    using forest_split [of P h parts kss] assms(1) p(2) by auto
  have "parts \<noteq> []" using p(2) assms(2) by auto
  then show thesis by (rule that [OF p(1,3) k(2) k(1) p(2) _ p(4)])
qed

context page_store
begin

lemma does_putIndex:
  assumes "wf s" "b \<Longrightarrow> forest (pg s) h es kss \<and> es \<noteq> [] \<and> (h = 0 \<or> 2 \<le> length es) \<and> DeserializeIndexPage (SerializeIndexPage es) = Inr es"
  shows "does b (blobPut z bo (SerializeIndexPage es)) s
    (\<lambda>u s'. length u = 16 \<and> u \<noteq> EmptyUUID \<and> (b \<longrightarrow> tree (pg s') (Suc h) u (concat kss)))"
proof (rule does_imp [OF does_put [OF assms(1), THEN does_weaken]])
  fix u s'
  assume g: "pg s \<subseteq>\<^sub>m pg s'" and u: "pg s' u = Some (SerializeIndexPage es) \<and> length u = 16 \<and> u \<noteq> EmptyUUID"
  have "tree (pg s') (Suc h) u (concat kss)" if b
    unfolding tree_Suc using u assms(2) [OF that] forest_mono [OF _ g, of h es kss] by blast
  then show "length u = 16 \<and> u \<noteq> EmptyUUID \<and> (b \<longrightarrow> tree (pg s') (Suc h) u (concat kss))" using u by blast
qed

lemma does_result: "does b f s Q \<Longrightarrow> (\<And>x s'. f s = (Inr x, s') \<Longrightarrow> R x) \<Longrightarrow> does b f s (\<lambda>x s'. Q x s' \<and> R x)"
  unfolding does_def by blast

lemma does_splitLevel:
  assumes "wf s" "b \<Longrightarrow> forest (pg s) h es kss \<and> es \<noteq> [] \<and> (h = 0 \<or> 2 \<le> length es)"
  shows "does b (putIndexPages z bo (SplitIndexEntries es)) s
    (\<lambda>es' s'. b \<longrightarrow> es' \<noteq> [] \<and> (IndexPageMaxSize < length (SerializeIndexPage es) \<and> 2 \<le> length es \<longrightarrow> 2 \<le> length es')
      \<and> (\<exists>kss'. forest (pg s') (Suc h) es' kss' \<and> concat kss' = concat kss))"
proof (cases b)
  case True
  note a = assms(2) [OF True]
  then have f: "forest (pg s) h es kss" "es \<noteq> []" by blast+
  obtain parts ksss where p: "SplitIndexEntries es = map SerializeIndexPage parts"
    "\<forall>p \<in> set parts. p \<noteq> [] \<and> (2 \<le> length es \<longrightarrow> 2 \<le> length p) \<and> DeserializeIndexPage (SerializeIndexPage p) = Inr p"
    "list_all2 (forest (pg s) h) parts ksss" "concat ksss = kss" "parts \<noteq> []"
    "IndexPageMaxSize < length (SerializeIndexPage es) \<and> 2 \<le> length es \<longrightarrow> 2 \<le> length parts"
    by (rule split_forest [OF f])
  show ?thesis
  proof (rule does_imp [OF does_putIndexPages [OF assms(1), of b _ parts h ksss]])
    fix es' s'
    assume *: "b \<longrightarrow> forest (pg s') (Suc h) es' (map concat ksss) \<and> length es' = length parts"
    have "concat (map concat ksss) = concat kss" by (simp only: concat_map_concat p(4))
    with * True p(5,6) show "b \<longrightarrow> es' \<noteq> []
        \<and> (IndexPageMaxSize < length (SerializeIndexPage es) \<and> 2 \<le> length es \<longrightarrow> 2 \<le> length es')
        \<and> (\<exists>kss'. forest (pg s') (Suc h) es' kss' \<and> concat kss' = concat kss)" by auto
  qed (use p a in blast)
next
  case False
  then show ?thesis by (intro does_imp [OF does_putIndexPages [OF assms(1)]]) auto
qed

lemma does_writeIndexLevel:
  assumes "wf s" "b \<Longrightarrow> forest (pg s) h es kss \<and> es \<noteq> [] \<and> (h = 0 \<or> 2 \<le> length es)"
  shows "does b (writeIndexLevel z bo es) s
    (\<lambda>es' s'. b \<longrightarrow> es' \<noteq> [] \<and> (\<exists>kss'. forest (pg s') (Suc h) es' kss' \<and> concat kss' = concat kss))" (is "does b _ s ?Q")
proof (cases "length (SerializeIndexPage es) \<le> IndexPageMaxSize \<or> length es \<le> 1")
  case True
  have "does b (sbind (blobPut z bo (SerializeIndexPage es)) (\<lambda>uuid.
             if es = [] then sfail (Panic ''index out of range'') else sreturn [entryOf (ieKey (es ! 0)) uuid])) s ?Q"
  proof (rule does_bind [OF does_putIndex [OF assms(1), of b h es kss]], goal_cases)
    case 1
    then show ?case using assms(2) [OF 1] True index_page_ok forest_entries by blast
  next
    case (2 u s1)
    have "\<exists>kss'. forest (pg s1) (Suc h) [entryOf (ieKey (es ! 0)) u] kss' \<and> concat kss' = concat kss" if b
      by (rule exI [of _ "[concat kss]"])
        (use 2 forest_head assms(2) [OF that] that in \<open>auto simp: newEntry\<close>, auto simp: entryOf_def)
    then show ?case
      using 2 assms(2) by (cases "es = []") (auto intro!: does_fail does_return)
  qed
  then show ?thesis using True by (simp add: writeIndexLevel_def)
next
  case False
  show ?thesis
    using False does_imp [OF does_splitLevel [OF assms], where R = ?Q] by (auto simp: writeIndexLevel_def)
qed

text \<open>A root over the entries: its height, a byte in the code, is that of the tree.\<close>

definition root_of :: "bool \<Rightarrow> bytes list list \<Rightarrow> UUID \<times> byte \<Rightarrow> 's \<Rightarrow> bool" where
  "root_of b kss x s \<longleftrightarrow> (b \<longrightarrow> length (fst x) = 16 \<and> fst x \<noteq> EmptyUUID
     \<and> (\<exists>h. tree (pg s) h (fst x) (concat kss) \<and> snd x = word_of_nat h))"

lemma root_of_cong: "concat kss' = concat kss \<Longrightarrow> root_of b kss' = root_of b kss"
  by (simp add: fun_eq_iff root_of_def)

lemma does_putRoot:
  assumes "wf s" "b \<Longrightarrow> forest (pg s) h es kss \<and> es \<noteq> [] \<and> (h = 0 \<or> 2 \<le> length es) \<and> height = word_of_nat (Suc h)
    \<and> d = SerializeIndexPage es \<and> DeserializeIndexPage (SerializeIndexPage es) = Inr es"
  shows "does b (sbind (blobPut z bo d) (\<lambda>uuid. sreturn (uuid, height))) s (root_of b kss)"
proof (cases b)
  case True
  have "does b (blobPut z bo d) s
      (\<lambda>u s'. length u = 16 \<and> u \<noteq> EmptyUUID \<and> (b \<longrightarrow> tree (pg s') (Suc h) u (concat kss)))"
    using does_putIndex [OF assms(1), of b h es kss] assms(2) True by simp
  then show ?thesis
    by (rule does_bind) (use assms(2) [OF True] True in \<open>auto simp: root_of_def intro!: does_return exI [of _ "Suc h"]\<close>)
next
  case False
  then show ?thesis
    by (intro does_bind [OF does_put [OF assms(1), THEN does_weaken]]) (auto simp: root_of_def)
qed

lemma one_page:
  assumes "forest P h es kss" "es \<noteq> []" "length (SplitIndexEntries es) = 1"
  shows "SplitIndexEntries es ! 0 = SerializeIndexPage es \<and> DeserializeIndexPage (SerializeIndexPage es) = Inr es"
proof -
  obtain parts where s: "SplitIndexEntries es = map SerializeIndexPage parts" "concat parts = es"
      "\<forall>p \<in> set parts. p \<noteq> [] \<and> DeserializeIndexPage (SerializeIndexPage p) = Inr p"
    using split_forest [OF assms(1,2)] by metis
  then obtain q where "parts = [q]" using assms(3) by (auto simp: length_Suc_conv)
  then show ?thesis using s by auto
qed

lemma split_count:
  assumes "forest P h es kss" "es \<noteq> []" "length (SplitIndexEntries es) = length es"
  shows "DeserializeIndexPage (SerializeIndexPage es) = Inr es"
proof -
  obtain parts where s: "SplitIndexEntries es = map SerializeIndexPage parts" "concat parts = es"
      "\<forall>p \<in> set parts. p \<noteq> [] \<and> (2 \<le> length es \<longrightarrow> 2 \<le> length p) \<and> DeserializeIndexPage (SerializeIndexPage p) = Inr p"
    using split_forest [OF assms(1,2)] by metis
  have "\<not> 2 \<le> length es" using parts_shrink [of parts] s assms(2,3) by auto
  then show ?thesis using index_page_ok [OF forest_entries [OF assms(1)]] by simp
qed

lemma does_buildLevels:
  assumes "wf s" "b \<Longrightarrow> forest (pg s) h es kss \<and> 2 \<le> length es \<and> height = word_of_nat (Suc h)"
  shows "does b (buildLevels z bo es height) s (root_of b kss)"
  using assms
proof (induction es arbitrary: s h kss height rule: measure_induct_rule [where f = length])
  case (less es)
  note prems = less.prems
  have ne: "es \<noteq> []" if b using prems(2) [OF that] by auto
  let ?small = "length (SerializeIndexPage es) \<le> IndexPageMaxSize \<or> length (SplitIndexEntries es) = length es"
  have unf: "buildLevels z bo es height = (if ?small
      then sbind (blobPut z bo (SerializeIndexPage es)) (\<lambda>uuid. sreturn (uuid, height))
      else sbind (putIndexPages z bo (SplitIndexEntries es)) (\<lambda>nextLevel. buildLevels z bo nextLevel (height + 1)))"
    by (rule ext, subst buildLevels.simps) (simp add: Let_def)
  show ?case
  proof (cases ?small)
    case True
    have "does b (sbind (blobPut z bo (SerializeIndexPage es)) (\<lambda>uuid. sreturn (uuid, height))) s (root_of b kss)"
      by (rule does_putRoot [OF prems(1), of b h es])
        (use prems(2) ne True index_page_ok [OF forest_entries] split_count in blast)
    then show ?thesis unfolding unf using True by simp
  next
    case False
    have "does b (sbind (putIndexPages z bo (SplitIndexEntries es)) (\<lambda>nextLevel. buildLevels z bo nextLevel (height + 1))) s
        (root_of b kss)"
    proof (rule does_bind [OF does_result [OF does_splitLevel [OF prems(1), of b h es kss], where R = "\<lambda>l. length l < length es"]],
        goal_cases)
      case 1
      then show ?case using prems(2) ne by blast
    next
      case (2 l s1)
      then show ?case using length_putIndexPages [OF 2] length_SplitIndexEntries [of es] False by linarith
    next
      case (3 l s1)
      have "\<exists>kss'. concat kss' = concat kss \<and> (b \<longrightarrow> forest (pg s1) (Suc h) l kss')" using 3 by blast
      then obtain kss' where k: "concat kss' = concat kss" "b \<longrightarrow> forest (pg s1) (Suc h) l kss'" by blast
      have "does b (buildLevels z bo l (height + 1)) s1 (root_of b kss')"
        by (rule less.IH) (use 3 k prems(2) False in auto)
      then show ?case using root_of_cong [OF k(1)] by simp
    qed
    then show ?thesis unfolding unf using False by simp
  qed
qed

lemma does_buildIndexTree:
  assumes "wf s" "b \<Longrightarrow> forest (pg s) h es kss \<and> es \<noteq> [] \<and> (h = 0 \<or> 2 \<le> length es) \<and> childHeight = word_of_nat h"
  shows "does b (buildIndexTree z bo es childHeight) s (root_of b kss)"
proof (cases "es = []")
  case True
  then have "root_of b kss (EmptyUUID, 0) s" using assms(2) by (auto simp: root_of_def)
  then show ?thesis using True does_return [OF assms(1)] by (simp add: buildIndexTree_def)
next
  case ne: False
  let ?ser = "SerializeIndexPage es" and ?pages = "SplitIndexEntries es"
  have put: "does b (sbind (blobPut z bo d) (\<lambda>uuid. sreturn (uuid, childHeight + 1))) s (root_of b kss)"
    if "b \<Longrightarrow> d = ?ser \<and> DeserializeIndexPage ?ser = Inr es" for d
    by (rule does_putRoot [OF assms(1), of b h es]) (use assms(2) that in auto)
  have levels: "does b (sbind (putIndexPages z bo ?pages) (\<lambda>l. buildLevels z bo l (childHeight + 2))) s (root_of b kss)"
    if big: "\<not> length ?ser \<le> IndexPageMaxSize"
  proof (rule does_bind [OF does_splitLevel [OF assms(1), of b h es kss]], goal_cases)
    case 1
    then show ?case using assms(2) by blast
  next
    case (2 l s1)
    have "\<exists>kss'. concat kss' = concat kss \<and> (b \<longrightarrow> forest (pg s1) (Suc h) l kss')" using 2 by blast
    then obtain kss' where k: "concat kss' = concat kss" "b \<longrightarrow> forest (pg s1) (Suc h) l kss'" by blast
    have long: "2 \<le> length es" if b using big_index_long [OF forest_entries big] assms(2) [OF that] by fastforce
    have "does b (buildLevels z bo l (childHeight + 2)) s1 (root_of b kss')"
      by (rule does_buildLevels) (use 2 k assms(2) long big in auto)
    then show ?case using root_of_cong [OF k(1)] by simp
  qed
  have "does b (sbind (blobPut z bo ?ser) (\<lambda>uuid. sreturn (uuid, childHeight + 1))) s (root_of b kss)"
    if "length ?ser \<le> IndexPageMaxSize"
    by (rule put) (use that assms(2) index_page_ok [OF forest_entries] in blast)
  moreover have "does b (sbind (blobPut z bo (?pages ! 0)) (\<lambda>uuid. sreturn (uuid, childHeight + 1))) s (root_of b kss)"
    if "length ?pages = 1"
    by (rule put) (use that assms(2) one_page in blast)
  ultimately show ?thesis using ne levels by (simp add: buildIndexTree_def Let_def)
qed

end

section \<open>Merging into a subtree\<close>

text \<open>The pending keys that fall below the end of a range.\<close>

definition pending :: "bytes option \<Rightarrow> bytes list \<Rightarrow> nat \<Rightarrow> bytes list" where
  "pending rangeEnd newKeys idx = takeWhile (beforeEnd rangeEnd) (drop idx newKeys)"

lemma pending_Nil: "pending r ks i = [] \<longleftrightarrow> \<not> (i < length ks \<and> beforeEnd r (ks ! i))"
  by (cases "i < length ks") (simp_all add: pending_def flip: Cons_nth_drop_Suc)

lemma pending_subset: "set (pending r ks i) \<subseteq> set ks" "\<forall>k \<in> set (pending r ks i). beforeEnd r k"
  unfolding pending_def using set_drop_subset [of i ks] by (auto dest: set_takeWhileD)

lemma ascending_pending: "ascending ks \<Longrightarrow> ascending (pending r ks i)"
  unfolding pending_def by (metis sorted_wrt_drop sorted_wrt_take takeWhile_eq_take)

lemma length_pending: "i \<le> length ks \<Longrightarrow> i + length (pending r ks i) \<le> length ks"
  unfolding pending_def using length_takeWhile_le [of "beforeEnd r" "drop i ks"] by simp

text \<open>A range that is cut at \<open>m\<close>: the keys below \<open>m\<close> come first, the others are not below \<open>m\<close>.\<close>

lemma pending_cut:
  assumes "ascending ks" "beforeEnd r m"
  shows "pending r ks i = pending (Some m) ks i @ pending r ks (i + length (pending (Some m) ks i))"
    "\<forall>k \<in> set (pending r ks (i + length (pending (Some m) ks i))). m \<le> k"
proof -
  let ?xs = "drop i ks"
  have lt: "beforeEnd r x" if "beforeEnd (Some m) x" for x
    using that assms(2) by (cases r) (auto simp: beforeEnd_def cmp_simps)
  have d: "drop (i + length (pending (Some m) ks i)) ks = dropWhile (beforeEnd (Some m)) ?xs"
    by (simp add: pending_def dropWhile_eq_drop add.commute)
  have cut: "takeWhile (beforeEnd r) xs = takeWhile (beforeEnd (Some m)) xs @ takeWhile (beforeEnd r) (dropWhile (beforeEnd (Some m)) xs)" for xs
    using lt by (induction xs) simp_all
  show "pending r ks i = pending (Some m) ks i @ pending r ks (i + length (pending (Some m) ks i))"
    unfolding pending_def [of r] d unfolding pending_def by (rule cut)
  have "\<forall>k \<in> set (dropWhile (beforeEnd (Some m)) xs). m \<le> k" if "ascending xs" for xs
    using that
  proof (induction xs)
    case (Cons x xs)
    then show ?case by (cases "x < m") (auto simp: beforeEnd_def cmp_simps less_imp_le intro: order_trans)
  qed simp
  then have "\<forall>k \<in> set (dropWhile (beforeEnd (Some m)) ?xs). m \<le> k" using assms(1) sorted_wrt_drop by blast
  then show "\<forall>k \<in> set (pending r ks (i + length (pending (Some m) ks i))). m \<le> k"
    unfolding pending_def [of r] d by (auto dest: set_takeWhileD)
qed

text \<open>
  What merging one child, and the rest of the entries after it, owes: the range's pending keys are consumed, and
  the entries returned hold the old keys and those.
\<close>

definition merged :: "bytes list \<Rightarrow> bytes list \<Rightarrow> bytes list \<Rightarrow> bool" where
  "merged old new ks \<longleftrightarrow> ascending ks \<and> set ks = set old \<union> set new"

lemma merged_mergeKeys: "ascending a \<Longrightarrow> ascending b \<Longrightarrow> merged a b (mergeKeys a b)"
  by (simp add: merged_def mergeKeys_ascending mergeKeys_set)

lemma merged_append:
  assumes "merged a1 b1 k1" "merged a2 b2 k2"
    and "\<forall>x \<in> set a1 \<union> set b1. x < m" "\<forall>y \<in> set a2 \<union> set b2. m \<le> y"
  shows "merged (a1 @ a2) (b1 @ b2) (k1 @ k2)"
  using assms unfolding merged_def sorted_wrt_append by (auto intro: less_le_trans)

definition merge_input :: "bytes option \<Rightarrow> bytes list \<Rightarrow> bytes list \<Rightarrow> nat \<Rightarrow> bool" where
  "merge_input r ks newKeys idx \<longleftrightarrow> ascending ks \<and> (\<forall>k \<in> set ks. key_ok k \<and> beforeEnd r k)
     \<and> ascending newKeys \<and> (\<forall>k \<in> set newKeys. key_ok k) \<and> idx \<le> length newKeys"

definition merge_output ::
  "pages \<Rightarrow> nat \<Rightarrow> bytes option \<Rightarrow> bytes list \<Rightarrow> bytes list \<Rightarrow> nat \<Rightarrow> IndexEntry list option \<times> nat \<Rightarrow> bool" where
  "merge_output P h r ks newKeys idx x \<longleftrightarrow> snd x = idx + length (pending r newKeys idx)
     \<and> (case fst x of
          None \<Rightarrow> pending r newKeys idx = []
        | Some es \<Rightarrow> pending r newKeys idx \<noteq> [] \<and> es \<noteq> [] \<and> (\<exists>kss. forest P h es kss \<and> merged ks (pending r newKeys idx) (concat kss)))"

lemma merge_keys_ok:
  assumes "merge_input r ks newKeys idx"
  shows "\<forall>k \<in> set (mergeKeys ks (pending r newKeys idx)). key_ok k"
  using assms pending_subset(1) [of r newKeys idx] by (auto simp: merge_input_def mergeKeys_set)

lemma build_leaves:
  assumes "\<forall>k \<in> set keys. key_ok k"
  shows "\<exists>parts. concat parts = keys \<and> BuildPages keys = map (\<lambda>p. (hd p, SerializePage p)) parts
    \<and> (\<forall>p \<in> set parts. leaf_part p)"
proof -
  have "\<forall>k \<in> set keys. 9 \<le> length k \<and> length k < 2 ^ 61" using assms by (auto simp: key_ok_def)
  then obtain parts where p: "concat parts = keys" "BuildPages keys = map (\<lambda>p. (hd p, SerializePage p)) parts"
    "\<forall>p \<in> set parts. p \<noteq> [] \<and> DeserializePage (SerializePage p) = Inr p
        \<and> (length p = 1 \<or> sum_list (map length p) \<le> MaxRawSize)" using BuildPages_decodes by blast
  have "leaf_part q" if q: "q \<in> set parts" for q
  proof -
    have k: "\<forall>k \<in> set q. key_ok k" using assms p(1) q by auto
    have "length (concat q) < 2 ^ 31"
    proof (cases "length q = 1")
      case True
      then show ?thesis using k by (auto simp: length_Suc_conv key_ok_def)
    next
      case False
      then show ?thesis using p(3) q by (auto simp: length_concat MaxRawSize_def)
    qed
    then show ?thesis using k p(3) q hd_in_set [of q] by (auto simp: leaf_part_def)
  qed
  then show ?thesis using p by blast
qed

lemma child_entries:
  assumes "merge_output P h r ks nk idx (cr, i)" "entry_ok e" "ieKey e = hd ks" "tree P h (ieUUID e) ks" "ascending ks"
  shows "i = idx + length (pending r nk idx)" "cr = None \<longleftrightarrow> pending r nk idx = []"
    "(case cr of None \<Rightarrow> [e] | Some ces \<Rightarrow> ces) \<noteq> []"
    "\<exists>kss. forest P h (case cr of None \<Rightarrow> [e] | Some ces \<Rightarrow> ces) kss \<and> merged ks (pending r nk idx) (concat kss)"
proof -
  show "\<exists>kss. forest P h (case cr of None \<Rightarrow> [e] | Some ces \<Rightarrow> ces) kss \<and> merged ks (pending r nk idx) (concat kss)"
  proof (cases cr)
    case None
    then show ?thesis using assms by (intro exI [of _ "[ks]"]) (auto simp: merge_output_def merged_def)
  qed (use assms in \<open>auto simp: merge_output_def\<close>)
qed (use assms(1) in \<open>auto simp: merge_output_def split: option.splits\<close>)

text \<open>The keys of a forest are ascending: the first child's keys lie below the boundary key of the second.\<close>

lemma forest_bounds:
  assumes "forest P h (e2 # es) ls" "ascending (l @ concat ls)"
  shows "\<forall>x \<in> set l. x < ieKey e2" "\<forall>y \<in> set (concat ls). ieKey e2 \<le> y" "ieKey e2 \<in> set (concat ls)"
proof -
  have k: "ieKey e2 = hd (concat ls)" "concat ls \<noteq> []" using forest_head [OF assms(1)] by auto
  then obtain ys where y: "concat ls = ieKey e2 # ys" by (metis list.collapse)
  show "\<forall>x \<in> set l. x < ieKey e2" "\<forall>y \<in> set (concat ls). ieKey e2 \<le> y" "ieKey e2 \<in> set (concat ls)"
    using assms(2) unfolding y sorted_wrt_append by auto
qed

lemma merge_input_child:
  assumes f: "forest P h es ls" and m: "merge_input r (l @ concat ls) nk idx"
  shows "merge_input (case es of [] \<Rightarrow> r | e2 # _ \<Rightarrow> Some (ieKey e2)) l nk idx"
proof (cases es)
  case Nil
  then show ?thesis using f m by (auto simp: merge_input_def)
next
  case (Cons e2 es')
  have a: "ascending (l @ concat ls)" using m by (simp add: merge_input_def)
  have "\<forall>x \<in> set l. x < ieKey e2" using forest_bounds(1) f a unfolding Cons by blast
  then show ?thesis using m a by (simp add: Cons merge_input_def sorted_wrt_append beforeEnd_def cmp_simps)
qed

context page_store
begin

lemma does_mergeLeaf:
  assumes "wf s" "b \<Longrightarrow> tree (pg s) 0 u ks \<and> merge_input r ks newKeys idx"
  shows "does b (mergeLeaf z bo u r newKeys idx) s (\<lambda>x s'. b \<longrightarrow> merge_output (pg s') 0 r ks newKeys idx x)"
    (is "does b _ s ?Q")
proof -
  obtain d where d: "b \<Longrightarrow> pg s u = Some d \<and> DeserializePage d = Inr ks" using assms(2) by (cases b) auto
  let ?new = "pending r newKeys idx"
  have leaf: "does b (if ?new = [] then sreturn (None, idx + length ?new)
      else sbind (putPageList z bo (BuildPages (mergeKeys existing ?new)) False) (\<lambda>entries.
             sreturn (Some entries, idx + length ?new))) s ?Q"
    if ex: "b \<longrightarrow> existing = ks" for existing
  proof (cases "?new = []")
    case True
    then show ?thesis using assms(1) by (auto simp: merge_output_def)
  next
    case False
    have "\<exists>parts. b \<longrightarrow> concat parts = mergeKeys ks ?new
        \<and> BuildPages (mergeKeys ks ?new) = map (\<lambda>p. (hd p, SerializePage p)) parts
        \<and> (\<forall>p \<in> set parts. leaf_part p)"
      using build_leaves [OF merge_keys_ok, of r ks newKeys idx] assms(2) by blast
    then obtain parts where p: "b \<Longrightarrow> concat parts = mergeKeys ks ?new
        \<and> BuildPages (mergeKeys ks ?new) = map (\<lambda>p. (hd p, SerializePage p)) parts
        \<and> (\<forall>p \<in> set parts. leaf_part p)" by blast
    have "does b (putPageList z bo (BuildPages (mergeKeys existing ?new)) False) s (\<lambda>es s'. b \<longrightarrow> forest (pg s') 0 es parts)"
      by (rule does_putPageList [OF assms(1)]) (use p ex in auto)
    then have "does b (sbind (putPageList z bo (BuildPages (mergeKeys existing ?new)) False) (\<lambda>entries.
             sreturn (Some entries, idx + length ?new))) s ?Q"
    proof (rule does_bind, intro does_return)
      fix es s1
      assume f: "b \<longrightarrow> forest (pg s1) 0 es parts"
      have "merge_output (pg s1) 0 r ks newKeys idx (Some es, idx + length ?new)" if b
      proof -
        have m: "merged ks ?new (mergeKeys ks ?new)" using assms(2) [OF that] ascending_pending
          by (auto simp: merge_input_def intro: merged_mergeKeys)
        then have "es \<noteq> []" using f p that False by (auto simp: merged_def)
        then show ?thesis using m f p that False by (auto simp: merge_output_def)
      qed
      then show "?Q (Some es, idx + length ?new) s1" by blast
    qed
    then show ?thesis using False by simp
  qed
  show ?thesis unfolding mergeLeaf_def Let_def pending_def [symmetric]
  proof (rule does_bind [OF does_get [OF assms(1), of b u d]])
    fix data s1
    assume x: "wf s1" "s1 = s \<and> (b \<longrightarrow> data = Some d)"
    show "does b (case data of None \<Rightarrow> sfail (Error ''leaf blob not found'')
       | Some d \<Rightarrow> sbind (slift (DeserializePage d)) (\<lambda>existing.
             if ?new = [] then sreturn (None, idx + length ?new)
             else sbind (putPageList z bo (BuildPages (mergeKeys existing ?new)) False) (\<lambda>entries.
                       sreturn (Some entries, idx + length ?new)))) s1 ?Q"
    proof (cases data)
      case None
      then show ?thesis using x by (auto intro!: does_fail)
    next
      case (Some d')
      have l: "does b (slift (DeserializePage d')) s (\<lambda>existing s'. s' = s \<and> (b \<longrightarrow> existing = ks))"
        by (rule does_lift) (use x d Some in auto)
      have "s1 = s" using x by blast
      show ?thesis unfolding Some option.case \<open>s1 = s\<close>
      proof (rule does_bind [OF l])
        fix existing s2
        assume "s2 = s \<and> (b \<longrightarrow> existing = ks)"
        then have "s2 = s" "b \<longrightarrow> existing = ks" by blast+
        show "does b (if ?new = [] then sreturn (None, idx + length ?new)
             else sbind (putPageList z bo (BuildPages (mergeKeys existing ?new)) False) (\<lambda>entries.
                       sreturn (Some entries, idx + length ?new))) s2 ?Q"
          unfolding \<open>s2 = s\<close> by (rule leaf) fact
      qed
    qed
  qed (use d in blast)
qed

end

definition entries_output ::
  "pages \<Rightarrow> nat \<Rightarrow> bytes option \<Rightarrow> bytes list \<Rightarrow> bytes list \<Rightarrow> nat \<Rightarrow> nat \<Rightarrow> IndexEntry list \<times> bool \<times> nat \<Rightarrow> bool" where
  "entries_output P h r ks newKeys idx n = (\<lambda>(es, changed, i). n \<le> length es \<and> i = idx + length (pending r newKeys idx)
     \<and> (changed \<longleftrightarrow> pending r newKeys idx \<noteq> []) \<and> es \<noteq> []
     \<and> (\<exists>kss. forest P h es kss \<and> merged ks (pending r newKeys idx) (concat kss)))"

text \<open>One round of the loop of \<open>mergeSubtree\<close>, the last one and one before others.\<close>

lemma entries_last:
  assumes "merge_output P h r l nk idx (cr, i)" "entry_ok e" "ieKey e = hd l" "tree P h (ieUUID e) l" "ascending l"
  shows "entries_output P h r l nk idx 1 ((case cr of None \<Rightarrow> [e] | Some ces \<Rightarrow> ces), cr \<noteq> None, i)"
  using child_entries [OF assms] unfolding entries_output_def by (cases "case cr of None \<Rightarrow> [e] | Some ces \<Rightarrow> ces") auto

lemma entries_step:
  assumes o: "merge_output P h (Some (ieKey e2)) l nk idx (cr, i)"
    and e: "entry_ok e" "ieKey e = hd l" "tree P h (ieUUID e) l"
    and f: "forest P h (e2 # es) ls" and m: "merge_input r (l @ concat ls) nk idx"
    and rest: "entries_output P' h r (concat ls) nk i n (es', changed, i2)" and le: "P \<subseteq>\<^sub>m P'"
  shows "entries_output P' h r (l @ concat ls) nk idx (Suc n)
    ((case cr of None \<Rightarrow> [e] | Some ces \<Rightarrow> ces) @ es', cr \<noteq> None \<or> changed, i2)"
proof -
  have a: "ascending (l @ concat ls)" "ascending nk" using m by (auto simp: merge_input_def)
  then have al: "ascending l" by (simp add: sorted_wrt_append)
  note c = child_entries [OF o e al]
  note b = forest_bounds [OF f a(1)]
  have "beforeEnd r (ieKey e2)" using m b(3) by (auto simp: merge_input_def)
  note cut = pending_cut [OF a(2) this, of idx]
  obtain k1 where k1: "forest P h (case cr of None \<Rightarrow> [e] | Some ces \<Rightarrow> ces) k1"
    "merged l (pending (Some (ieKey e2)) nk idx) (concat k1)" using c(4) by blast
  obtain k2 where k2: "forest P' h es' k2" "merged (concat ls) (pending r nk i) (concat k2)"
    using rest by (auto simp: entries_output_def)
  have "merged (l @ concat ls) (pending (Some (ieKey e2)) nk idx @ pending r nk i) (concat k1 @ concat k2)"
    by (rule merged_append [OF k1(2) k2(2)])
      (use b cut(2) c(1) pending_subset(2) [of "Some (ieKey e2)" nk idx] in \<open>auto simp: beforeEnd_def cmp_simps\<close>)
  then have "merged (l @ concat ls) (pending r nk idx) (concat (k1 @ k2))" using cut(1) c(1) by simp
  moreover have "forest P' h ((case cr of None \<Rightarrow> [e] | Some ces \<Rightarrow> ces) @ es') (k1 @ k2)"
    by (rule forest_append [OF forest_mono [OF k1(1) le] k2(1)])
  moreover have "i2 = idx + length (pending r nk idx)" using rest c(1) cut(1) by (simp add: entries_output_def)
  moreover have "cr \<noteq> None \<or> changed \<longleftrightarrow> pending r nk idx \<noteq> []"
  proof -
    have "pending r nk idx = pending (Some (ieKey e2)) nk idx @ pending r nk i" using cut(1) c(1) by metis
    then show ?thesis using rest c(2) unfolding entries_output_def by auto
  qed
  moreover have "Suc n \<le> length ((case cr of None \<Rightarrow> [e] | Some ces \<Rightarrow> ces) @ es')"
    using c(3) rest by (cases "case cr of None \<Rightarrow> [e] | Some ces \<Rightarrow> ces") (auto simp: entries_output_def)
  ultimately show ?thesis using c(3) unfolding entries_output_def by auto
qed

lemma sbind_return: "sbind (sreturn x) g = g x"
  by (simp add: fun_eq_iff sbind_def sreturn_def)

lemma replace_entry:
  "(case cr of None \<Rightarrow> sreturn (e # rest, changed, i) | Some ces \<Rightarrow> sreturn (ces @ rest, True, i)) =
     sreturn ((case cr of None \<Rightarrow> [e] | Some ces \<Rightarrow> ces) @ rest, cr \<noteq> None \<or> changed, i)"
  by (cases cr) simp_all

context page_store
begin

lemma does_mergeEntries:
  assumes child: "\<And>s u r ks idx. wf s \<Longrightarrow> (b \<Longrightarrow> tree (pg s) h u ks \<and> merge_input r ks newKeys idx) \<Longrightarrow>
      does b (child u r newKeys idx) s (\<lambda>x s'. b \<longrightarrow> merge_output (pg s') h r ks newKeys idx x)"
    and "wf s" "b \<Longrightarrow> forest (pg s) h es kss \<and> es \<noteq> [] \<and> merge_input r (concat kss) newKeys idx"
  shows "does b (mergeEntries child es r newKeys idx) s (\<lambda>x s'. b \<longrightarrow> entries_output (pg s') h r (concat kss) newKeys idx (length es) x)"
  using assms(2,3)
proof (induction es arbitrary: s kss idx)
  case Nil
  then show ?case by auto
next
  case (Cons e es)
  let ?upto = "case es of [] \<Rightarrow> r | e2 # _ \<Rightarrow> Some (ieKey e2)"
  let ?has = "idx < length newKeys \<and> beforeEnd ?upto (newKeys ! idx)"
  have "\<exists>l ls. b \<longrightarrow> kss = l # ls \<and> entry_ok e \<and> ieKey e = hd l \<and> tree (pg s) h (ieUUID e) l \<and> forest (pg s) h es ls"
    using Cons.prems(2) by auto
  then obtain l ls where k: "b \<Longrightarrow> kss = l # ls \<and> entry_ok e \<and> ieKey e = hd l \<and> tree (pg s) h (ieUUID e) l \<and> forest (pg s) h es ls"
    by blast
  have inp: "merge_input ?upto l newKeys idx" if b
    by (rule merge_input_child [of "pg s" h]) (use k [OF that] Cons.prems(2) [OF that] in auto)
  have first: "does b (if ?has then child (ieUUID e) ?upto newKeys idx else sreturn (None, idx)) s
      (\<lambda>x s'. b \<longrightarrow> merge_output (pg s') h ?upto l newKeys idx x)"
  proof (cases ?has)
    case True
    have "does b (child (ieUUID e) ?upto newKeys idx) s (\<lambda>x s'. b \<longrightarrow> merge_output (pg s') h ?upto l newKeys idx x)"
      by (rule child [OF Cons.prems(1)]) (use k inp in blast)
    then show ?thesis using True by presburger
  next
    case False
    then have "pending ?upto newKeys idx = []" using pending_Nil by blast
    then have "does b (sreturn (None, idx)) s (\<lambda>x s'. b \<longrightarrow> merge_output (pg s') h ?upto l newKeys idx x)"
      using Cons.prems(1) by (auto simp: merge_output_def)
    then show ?thesis using False by presburger
  qed
  show ?case unfolding mergeEntries.simps Let_def
  proof (rule does_bind [OF first])
    fix x s1
    assume x: "wf s1" "pg s \<subseteq>\<^sub>m pg s1" "b \<longrightarrow> merge_output (pg s1) h ?upto l newKeys idx x"
    obtain cr i where xe: "x = (cr, i)" by fastforce
    have t1: "tree (pg s1) h (ieUUID e) l" "forest (pg s1) h es ls" if b
      using k [OF that] tree_mono forest_mono x(2) by blast+
    show "does b (case x of (childResult, idx') \<Rightarrow> sbind (mergeEntries child es r newKeys idx') (\<lambda>(rest, changed, idx2).
           case childResult of None \<Rightarrow> sreturn (e # rest, changed, idx2) | Some ces \<Rightarrow> sreturn (ces @ rest, True, idx2))) s1
        (\<lambda>x s'. b \<longrightarrow> entries_output (pg s') h r (concat kss) newKeys idx (length (e # es)) x)"
    proof (cases es)
      case Nil
      have "entries_output (pg s1) h r (concat kss) newKeys idx (length (e # es)) ((case cr of None \<Rightarrow> [e] | Some ces \<Rightarrow> ces), cr \<noteq> None, i)"
        if b
        using entries_last [of "pg s1" h r l newKeys idx cr i e] k [OF that] t1(1) [OF that] x(3) inp that Nil xe
        by (auto simp: merge_input_def)
      then show ?thesis using x(1) by (auto simp: xe Nil sbind_return replace_entry)
    next
      case (Cons e2 es2)
      have "does b (mergeEntries child es r newKeys i) s1 (\<lambda>x s'. b \<longrightarrow> entries_output (pg s') h r (concat ls) newKeys i (length es) x)"
      proof (rule Cons.IH [OF x(1)])
        assume b
        then have "i = idx + length (pending ?upto newKeys idx)" using x(3) xe by (simp add: merge_output_def)
        then have "i \<le> length newKeys" using length_pending inp [OF \<open>b\<close>] by (auto simp: merge_input_def)
        then show "forest (pg s1) h es ls \<and> es \<noteq> [] \<and> merge_input r (concat ls) newKeys i"
          using t1 k Cons.prems(2) \<open>b\<close> Cons by (auto simp: merge_input_def sorted_wrt_append)
      qed
      then show ?thesis unfolding xe prod.case replace_entry
      proof (rule does_bind)
        fix y s2
        assume y: "wf s2" "pg s1 \<subseteq>\<^sub>m pg s2" "b \<longrightarrow> entries_output (pg s2) h r (concat ls) newKeys i (length es) y"
        obtain es' changed i2 where ye: "y = (es', changed, i2)" by (cases y) auto
        have "entries_output (pg s2) h r (l @ concat ls) newKeys idx (length (e # es))
            ((case cr of None \<Rightarrow> [e] | Some ces \<Rightarrow> ces) @ es', cr \<noteq> None \<or> changed, i2)" if b
          using entries_step [of "pg s1" h e2 l newKeys idx cr i e es2 ls r "pg s2" "length es" es' changed i2]
            x(3) y(2,3) k [OF that] t1 [OF that] Cons.prems(2) [OF that] that by (simp add: xe ye Cons)
        then show "does b (case y of (rest, changed, idx2) \<Rightarrow>
              sreturn ((case cr of None \<Rightarrow> [e] | Some ces \<Rightarrow> ces) @ rest, cr \<noteq> None \<or> changed, idx2)) s2
            (\<lambda>x s'. b \<longrightarrow> entries_output (pg s') h r (concat kss) newKeys idx (length (e # es)) x)"
          using y(1) k by (auto simp: ye)
      qed
    qed
  qed
qed

end

section \<open>Whole trees\<close>

text \<open>The keys of a column family.\<close>

definition cf_tree :: "pages \<Rightarrow> CfTree \<Rightarrow> bytes list \<Rightarrow> bool" where
  "cf_tree P t ks \<longleftrightarrow> length (RootUUID t) = 16
     \<and> (if RootUUID t = EmptyUUID then ks = [] else tree P (unat (Height t)) (RootUUID t) ks)
     \<and> ascending ks \<and> (\<forall>k \<in> set ks. key_ok k)"

lemma cf_tree_mono: "cf_tree P t ks \<Longrightarrow> P \<subseteq>\<^sub>m P' \<Longrightarrow> cf_tree P' t ks"
  unfolding cf_tree_def using tree_mono by auto

text \<open>A height that fits its byte: fewer than \<open>2 ^ 63\<close> keys do.\<close>

lemma tree_height:
  assumes "tree P h u ks" "length ks < 2 ^ 63"
  shows "unat (word_of_nat h :: byte) = h"
proof -
  have "(2::nat) ^ (h - 1) < 2 ^ 63" using tree_size [OF assms(1)] assms(2) by linarith
  then have "h - 1 < 63" by (rule power_less_imp_less_exp [rotated]) simp
  then show ?thesis by (simp add: unat_of_nat)
qed

lemma merged_length: "merged a b ks \<Longrightarrow> length ks \<le> length a + length b"
proof -
  assume m: "merged a b ks"
  then have "distinct ks" by (auto simp: merged_def strict_sorted_iff)
  then have "length ks = card (set a \<union> set b)" using m distinct_card by (fastforce simp: merged_def)
  also have "\<dots> \<le> length a + length b" by (meson add_mono card_Un_le card_length le_trans)
  finally show ?thesis .
qed

definition merge_ok :: "bytes list \<Rightarrow> bytes list \<Rightarrow> bool" where
  "merge_ok ks keys \<longleftrightarrow> ascending keys \<and> (\<forall>k \<in> set keys. key_ok k) \<and> length ks + length keys < 2 ^ 63"

lemma pending_all: "pending None keys 0 = keys"
  by (simp add: pending_def beforeEnd_def takeWhile_eq_all_conv)

context page_store
begin

lemma does_mergeSubtree:
  assumes "wf s" "b \<Longrightarrow> tree (pg s) h u ks \<and> merge_input r ks newKeys idx"
  shows "does b (mergeSubtree z bo h u r newKeys idx) s (\<lambda>x s'. b \<longrightarrow> merge_output (pg s') h r ks newKeys idx x)"
  using assms
proof (induction h arbitrary: s u r ks idx)
  case 0
  then show ?case using does_mergeLeaf by simp
next
  case (Suc h)
  let ?Q = "\<lambda>x s'. b \<longrightarrow> merge_output (pg s') (Suc h) r ks newKeys idx x"
  have "\<exists>d es kss. b \<longrightarrow> pg s u = Some d \<and> DeserializeIndexPage d = Inr es \<and> es \<noteq> [] \<and> (h = 0 \<or> 2 \<le> length es)
      \<and> ks = concat kss \<and> forest (pg s) h es kss"
    using Suc.prems(2) unfolding tree_Suc by blast
  then obtain d es kss where t: "b \<Longrightarrow> pg s u = Some d \<and> DeserializeIndexPage d = Inr es \<and> es \<noteq> [] \<and> (h = 0 \<or> 2 \<le> length es)
      \<and> ks = concat kss \<and> forest (pg s) h es kss" by blast
  have node: "does b (sbind (mergeEntries (mergeSubtree z bo h) es' r newKeys idx) (\<lambda>(newEntries, changed, idx').
             if \<not> changed then sreturn (None, idx')
             else sbind (writeIndexLevel z bo newEntries) (\<lambda>l. sreturn (Some l, idx')))) s ?Q"
    if e: "b \<longrightarrow> es' = es" for es'
  proof (rule does_bind [OF does_mergeEntries [of b h newKeys "mergeSubtree z bo h" s es' kss r idx]], goal_cases)
    case (1 s' u' r' ks' idx')
    then show ?case by (rule Suc.IH)
  next
    case 2
    then show ?case by (rule Suc.prems(1))
  next
    case 3
    then show ?case using t Suc.prems(2) e by blast
  next
    case (4 x s1)
    obtain l changed i where x: "x = (l, changed, i)" by (cases x) auto
    have len: "length es \<le> length l" if b using 4(3) x e that by (simp add: entries_output_def)
    have "\<exists>kss'. b \<longrightarrow> forest (pg s1) h l kss' \<and> merged ks (pending r newKeys idx) (concat kss')"
      using 4(3) t x e by (auto simp: entries_output_def)
    then obtain kss' where k: "b \<Longrightarrow> forest (pg s1) h l kss' \<and> merged ks (pending r newKeys idx) (concat kss')" by blast
    have c: "i = idx + length (pending r newKeys idx) \<and> (changed \<longleftrightarrow> pending r newKeys idx \<noteq> []) \<and> l \<noteq> []" if b
      using 4(3) x that by (simp add: entries_output_def)
    have w: "does b (writeIndexLevel z bo l) s1
        (\<lambda>es' s'. b \<longrightarrow> es' \<noteq> [] \<and> (\<exists>kss2. forest (pg s') (Suc h) es' kss2 \<and> concat kss2 = concat kss'))"
      by (rule does_writeIndexLevel [OF 4(1)]) (use k c t len in fastforce)
    have "does b (sbind (writeIndexLevel z bo l) (\<lambda>l. sreturn (Some l, i))) s1 ?Q" if "changed"
    proof (rule does_bind [OF w], rule does_return)
      fix l' s2
      assume "b \<longrightarrow> l' \<noteq> [] \<and> (\<exists>kss2. forest (pg s2) (Suc h) l' kss2 \<and> concat kss2 = concat kss')"
      then show "?Q (Some l', i) s2" using k c that by (fastforce simp: merge_output_def)
    qed
    moreover have "does b (sreturn (None, i)) s1 ?Q" if "\<not> changed"
      using c that by (intro does_return [OF 4(1)]) (simp add: merge_output_def)
    ultimately show ?case by (simp add: x)
  qed
  show ?case unfolding mergeSubtree.simps
  proof (rule does_bind [OF does_get [OF Suc.prems(1), of b u d]], goal_cases)
    case 1
    then show ?case using t by blast
  next
    case (2 data s1)
    then have s1: "s1 = s" by blast
    show ?case
    proof (cases data)
      case None
      then show ?thesis using 2 by (auto intro!: does_return)
    next
      case (Some d')
      have l: "does b (slift (DeserializeIndexPage d')) s (\<lambda>x s'. s' = s \<and> (b \<longrightarrow> x = es))"
        by (rule does_lift) (use 2 t Some in auto)
      show ?thesis unfolding Some option.case s1
        by (rule does_bind [OF l]) (use node in blast)
    qed
  qed
qed

lemma does_buildTree:
  assumes "wf s" "b \<Longrightarrow> keys \<noteq> [] \<and> merge_ok [] keys"
  shows "does b (buildTree z bo (BuildPages keys) False) s (\<lambda>t s'. b \<longrightarrow> cf_tree (pg s') t keys)"
proof -
  have "\<exists>parts. b \<longrightarrow> concat parts = keys \<and> BuildPages keys = map (\<lambda>p. (hd p, SerializePage p)) parts
    \<and> (\<forall>p \<in> set parts. leaf_part p)"
    using build_leaves [of keys] assms(2) by (auto simp: merge_ok_def)
  then obtain parts where p: "b \<Longrightarrow> concat parts = keys \<and> BuildPages keys = map (\<lambda>p. (hd p, SerializePage p)) parts
    \<and> (\<forall>p \<in> set parts. leaf_part p)" by blast
  show ?thesis unfolding buildTree_def
  proof (rule does_bind [OF does_putPageList [OF assms(1), of b _ parts]], goal_cases)
    case 1
    then show ?case using p by blast
  next
    case (2 es s1)
    have r: "does b (buildIndexTree z bo es 0) s1 (root_of b parts)"
      by (rule does_buildIndexTree [of _ _ 0]) (use 2 p assms(2) in auto)
    show ?case
    proof (rule does_bind [OF r], goal_cases)
      case (1 x s2)
      have "cf_tree (pg s2) (newTreeOf (fst x) (snd x) n) keys" if flag: b for n
      proof -
        obtain h where h: "tree (pg s2) h (fst x) keys" "snd x = word_of_nat h" "length (fst x) = 16" "fst x \<noteq> EmptyUUID"
          using 1(3) p [OF flag] flag by (auto simp: root_of_def)
        then have "unat (snd x) = h" using tree_height assms(2) [OF flag] by (simp add: merge_ok_def)
        then show ?thesis using h assms(2) [OF flag]
          by (auto simp: newTreeOf_def cf_tree_def merge_ok_def)
      qed
      then show ?case using 1(1) by (cases x) auto
    qed
  qed
qed

end

context page_store
begin

text \<open>One column family: the tree holds the union of its keys and the merged ones.\<close>

lemma does_mergeTree:
  assumes "wf s" "b \<Longrightarrow> cf_tree (pg s) t ks \<and> keys \<noteq> [] \<and> merge_ok ks keys"
  shows "does b (mergeTree z bo t keys) s (\<lambda>t' s'. b \<longrightarrow> (\<exists>ks'. cf_tree (pg s') t' ks' \<and> merged ks keys ks'))"
    (is "does b _ s ?Q")
proof (cases "RootUUID t = EmptyUUID")
  case True
  have "does b (buildTree z bo (BuildPages keys) False) s (\<lambda>t s'. b \<longrightarrow> cf_tree (pg s') t keys)"
    by (rule does_buildTree [OF assms(1)]) (use assms(2) in \<open>auto simp: merge_ok_def\<close>)
  then have "does b (buildTree z bo (BuildPages keys) False) s ?Q"
    by (rule does_imp) (use assms(2) True in \<open>auto simp: cf_tree_def merge_ok_def merged_def\<close>)
  then show ?thesis using True by (simp add: mergeTree_def)
next
  case root: False
  let ?h = "unat (Height t)"
  have inp: "tree (pg s) ?h (RootUUID t) ks \<and> merge_input None ks keys 0" if b
    using assms(2) [OF that] root by (auto simp: cf_tree_def merge_input_def merge_ok_def beforeEnd_def)
  have cf: "cf_tree P t' ks'" if "b" "merged ks keys ks'" "length (RootUUID t') = 16" "RootUUID t' \<noteq> EmptyUUID"
      "tree P h' (RootUUID t') ks'" "Height t' = word_of_nat h'" for P t' ks' h'
  proof -
    have a: "cf_tree (pg s) t ks" "merge_ok ks keys" using assms(2) that(1) by auto
    have "length ks' < 2 ^ 63" using merged_length [OF that(2)] a(2) by (simp add: merge_ok_def)
    then have "unat (Height t') = h'" using tree_height [OF that(5)] that(6) by simp
    then show ?thesis using that a by (auto simp: cf_tree_def merged_def merge_ok_def)
  qed
  have "does b (sbind (mergeSubtree z bo ?h (RootUUID t) None keys 0) (\<lambda>(res, _).
          case res of
            None \<Rightarrow> sreturn t
          | Some es \<Rightarrow>
              if length es = 1 then sreturn (t\<lparr>RootUUID := ieUUID (es ! 0)\<rparr>)
              else sbind (buildIndexTree z bo es (Height t)) (\<lambda>(root, height).
                     sreturn (t\<lparr>RootUUID := root, Height := height\<rparr>)))) s ?Q"
  proof (rule does_bind [OF does_mergeSubtree [OF assms(1), of b ?h "RootUUID t" ks None keys 0]], goal_cases)
    case 1
    then show ?case by (rule inp)
  next
    case (2 x s1)
    obtain res i where x: "x = (res, i)" by fastforce
    have o: "merge_output (pg s1) ?h None ks keys 0 (res, i)" if b using 2(3) x that by blast
    show ?case
    proof (cases res)
      case None
      then have "\<not> b" using o assms(2) by (auto simp: merge_output_def pending_all)
      then show ?thesis using None x 2(1) by (auto intro!: does_return)
    next
      case (Some es)
      then have "\<exists>kss. b \<longrightarrow> es \<noteq> [] \<and> forest (pg s1) ?h es kss \<and> merged ks keys (concat kss)"
        using o by (auto simp: merge_output_def pending_all)
      then obtain kss where k: "b \<Longrightarrow> es \<noteq> [] \<and> forest (pg s1) ?h es kss \<and> merged ks keys (concat kss)" by blast
      show ?thesis
      proof (cases "length es = 1")
        case True
        then obtain e where e: "es = [e]" by (auto simp: length_Suc_conv)
        have "?Q (t\<lparr>RootUUID := ieUUID e\<rparr>) s1"
        proof
          assume b
          then obtain l where "kss = [l]" "entry_ok e" "tree (pg s1) ?h (ieUUID e) l" "merged ks keys l"
            using k e by auto
          then show "\<exists>ks'. cf_tree (pg s1) (t\<lparr>RootUUID := ieUUID e\<rparr>) ks' \<and> merged ks keys ks'"
            using cf [OF \<open>b\<close>, of l "t\<lparr>RootUUID := ieUUID e\<rparr>" "pg s1" ?h] by (auto simp: entry_ok_def)
        qed
        then show ?thesis unfolding x Some e using does_return [OF 2(1), where Q = ?Q] by simp
      next
        case False
        have two: "2 \<le> length es" if "es \<noteq> []" using False that by (cases es; cases "tl es") auto
        have r: "does b (buildIndexTree z bo es (Height t)) s1 (root_of b kss)"
          by (rule does_buildIndexTree [of _ _ ?h, OF 2(1)]) (use k two in auto)
        have "does b (sbind (buildIndexTree z bo es (Height t)) (\<lambda>(root, height).
            sreturn (t\<lparr>RootUUID := root, Height := height\<rparr>))) s1 ?Q"
        proof (rule does_bind [OF r], goal_cases)
          case (1 y s2)
          let ?t = "t\<lparr>RootUUID := fst y, Height := snd y\<rparr>"
          have "?Q ?t s2"
          proof
            assume b
            then obtain h' where "tree (pg s2) h' (fst y) (concat kss)" "snd y = word_of_nat h'"
              "length (fst y) = 16" "fst y \<noteq> EmptyUUID" using 1(3) by (auto simp: root_of_def)
            then have "cf_tree (pg s2) ?t (concat kss)"
              using cf [OF \<open>b\<close>, of "concat kss" ?t "pg s2" h'] k [OF \<open>b\<close>] by simp
            then show "\<exists>ks'. cf_tree (pg s2) ?t ks' \<and> merged ks keys ks'" using k [OF \<open>b\<close>] by blast
          qed
          then show ?case unfolding case_prod_beta by (rule does_return [OF 1(1)])
        qed
        then show ?thesis using Some x False by simp
      qed
    qed
  qed
  then show ?thesis using root by (simp add: mergeTree_def)
qed

end

section \<open>All column families\<close>

definition keysOf :: "(nat \<times> bytes list) list \<Rightarrow> nat \<Rightarrow> bytes list" where
  "keysOf keysByCf cf = (case map_of keysByCf cf of None \<Rightarrow> [] | Some keys \<Rightarrow> keys)"

definition trees_hold :: "pages \<Rightarrow> CfTree list \<Rightarrow> bytes list list \<Rightarrow> bool" where
  "trees_hold P ts kss \<longleftrightarrow> list_all2 (cf_tree P) ts kss"

text \<open>Column families named at most once, with keys their trees can take.\<close>

definition batch_ok :: "bytes list list \<Rightarrow> (nat \<times> bytes list) list \<Rightarrow> bool" where
  "batch_ok kss keysByCf \<longleftrightarrow> distinct (map fst keysByCf)
     \<and> (\<forall>(cf, keys) \<in> set keysByCf. cf < length kss \<longrightarrow> merge_ok (kss ! cf) keys)"

definition batch_merged :: "bytes list list \<Rightarrow> (nat \<times> bytes list) list \<Rightarrow> bytes list list \<Rightarrow> bool" where
  "batch_merged kss keysByCf kss' \<longleftrightarrow> length kss' = length kss
     \<and> (\<forall>cf < length kss. merged (kss ! cf) (keysOf keysByCf cf) (kss' ! cf))"

lemma trees_hold_mono: "trees_hold P ts kss \<Longrightarrow> P \<subseteq>\<^sub>m P' \<Longrightarrow> trees_hold P' ts kss"
  unfolding trees_hold_def by (erule list_all2_mono) (rule cf_tree_mono)

lemma trees_hold_nth: "trees_hold P ts kss \<Longrightarrow> cf < length ts \<Longrightarrow> cf_tree P (ts ! cf) (kss ! cf)"
  unfolding trees_hold_def by (rule list_all2_nthD)

lemma batch_merged_Nil: "trees_hold P ts kss \<Longrightarrow> batch_merged kss [] kss"
  by (auto simp: batch_merged_def keysOf_def merged_def trees_hold_def list_all2_conv_all_nth cf_tree_def)

lemma batch_merged_skip:
  assumes "batch_merged kss rest kss'" "length kss \<le> cf \<or> keys = []" "cf \<notin> set (map fst rest)"
  shows "batch_merged kss ((cf, keys) # rest) kss'"
proof -
  have "map_of rest cf = None" using assms(3) by (simp add: map_of_eq_None_iff)
  then show ?thesis using assms by (auto simp: batch_merged_def keysOf_def)
qed

lemma batch_merged_step:
  assumes "batch_merged (kss[cf := ks']) rest kss'" "cf < length kss" "merged (kss ! cf) keys ks'" "cf \<notin> set (map fst rest)"
  shows "batch_merged kss ((cf, keys) # rest) kss'"
proof -
  have "map_of rest cf = None" using assms(4) by (simp add: map_of_eq_None_iff)
  moreover have "merged (kss[cf := ks'] ! c) (keysOf rest c) (kss' ! c)" if "c < length kss" for c
    using assms(1) that by (simp add: batch_merged_def)
  ultimately show ?thesis using assms by (auto simp: batch_merged_def keysOf_def merged_def nth_list_update split: if_splits)
qed

context page_store
begin

lemma does_mergeTrees:
  assumes "wf s" "b \<Longrightarrow> trees_hold (pg s) ts kss \<and> batch_ok kss keysByCf"
  shows "does b (mergeTrees z bo keysByCf ts) s
    (\<lambda>ts' s'. b \<longrightarrow> (\<exists>kss'. trees_hold (pg s') ts' kss' \<and> batch_merged kss keysByCf kss'))"
  using assms
proof (induction keysByCf arbitrary: s ts kss)
  case Nil
  then show ?case using batch_merged_Nil by (auto intro!: does_return)
next
  case (Cons ck rest)
  obtain cf keys where ck: "ck = (cf, keys)" by fastforce
  have len: "length kss = length ts" if b using Cons.prems(2) [OF that] by (auto simp: trees_hold_def list_all2_lengthD)
  have new: "cf \<notin> set (map fst rest)" "batch_ok kss rest" if b
    using Cons.prems(2) [OF that] ck by (auto simp: batch_ok_def)
  show ?case
  proof (cases "length ts \<le> cf \<or> keys = []")
    case True
    have "does b (mergeTrees z bo rest ts) s (\<lambda>ts' s'. b \<longrightarrow> (\<exists>kss'. trees_hold (pg s') ts' kss' \<and> batch_merged kss rest kss'))"
      by (rule Cons.IH [OF Cons.prems(1)]) (use Cons.prems(2) new in blast)
    then have "does b (mergeTrees z bo rest ts) s (\<lambda>ts' s'. b \<longrightarrow> (\<exists>kss'. trees_hold (pg s') ts' kss' \<and> batch_merged kss (ck # rest) kss'))"
      by (rule does_imp) (use True len new ck batch_merged_skip in \<open>auto; metis\<close>)
    then show ?thesis using True by (simp add: ck)
  next
    case False
    have ok: "cf_tree (pg s) (ts ! cf) (kss ! cf) \<and> keys \<noteq> [] \<and> merge_ok (kss ! cf) keys" if b
      using Cons.prems(2) [OF that] False len [OF that] trees_hold_nth by (auto simp: ck batch_ok_def)
    have "does b (sbind (mergeTree z bo (ts ! cf) keys) (\<lambda>t. mergeTrees z bo rest (ts[cf := t]))) s
      (\<lambda>ts' s'. b \<longrightarrow> (\<exists>kss'. trees_hold (pg s') ts' kss' \<and> batch_merged kss (ck # rest) kss'))"
    proof (rule does_bind [OF does_mergeTree [OF Cons.prems(1), of b _ "kss ! cf"]], goal_cases)
      case 1
      then show ?case by (rule ok)
    next
      case (2 t s1)
      then obtain ks' where k: "b \<Longrightarrow> cf_tree (pg s1) t ks' \<and> merged (kss ! cf) keys ks'" by blast
      have "does b (mergeTrees z bo rest (ts[cf := t])) s1
          (\<lambda>ts' s'. b \<longrightarrow> (\<exists>kss'. trees_hold (pg s') ts' kss' \<and> batch_merged (kss[cf := ks']) rest kss'))"
      proof (rule Cons.IH [OF 2(1)])
        assume b
        have "trees_hold (pg s1) (ts[cf := t]) (kss[cf := ks'])"
          using trees_hold_mono [OF _ 2(2)] Cons.prems(2) [OF \<open>b\<close>] k [OF \<open>b\<close>]
          by (auto simp: trees_hold_def intro: list_all2_update_cong)
        moreover have "batch_ok (kss[cf := ks']) rest"
          using new [OF \<open>b\<close>] by (fastforce simp: batch_ok_def nth_list_update image_iff)
        ultimately show "trees_hold (pg s1) (ts[cf := t]) (kss[cf := ks']) \<and> batch_ok (kss[cf := ks']) rest" by blast
      qed
      then show ?case
        by (rule does_imp) (use False len new ck k batch_merged_step in \<open>auto; metis\<close>)
    qed
    then show ?thesis using False by (simp add: ck)
  qed
qed

end

section \<open>Publishing the merged trees\<close>

context page_store
begin

lemma does_writeRoot:
  assumes "wf s"
  shows "does True (writeRoot z bo now ts) s (\<lambda>x s'. x = (ts, MakeRootName now)
    \<and> (clean s \<longrightarrow> blobGetRoot z bo (MakeRootName now) s' = Inr (Some (SerializeRoot ts))))"
proof -
  obtain e s' where p: "boPutRoot bo (MakeRootName now) (compress z (SerializeRoot ts)) s = (e, s')" by fastforce
  have w: "wf s'" "pg s' = pg s" using putRoot [OF assms p] by (auto simp: pageOf_def blobGet_def)
  have c: "e = None \<and> clean s' \<and> blobGetRoot z bo (MakeRootName now) s' = Inr (Some (SerializeRoot ts))" if "clean s"
    using putRoot_clean [OF that, of "MakeRootName now" "compress z (SerializeRoot ts)"] p
    by (auto simp: blobGetRoot_def decompressOpt_def zstd_inverse)
  show ?thesis using w c p by (auto simp: does_def writeRoot_def blobPutRoot_def split: if_splits)
qed

text \<open>Whatever fails on the way, every page that could be read still can.\<close>

lemma prepare_keeps_pages:
  assumes "wf s" "PrepareMerge z bo now st base keysByCf s = (r, s')"
  shows "wf s' \<and> pg s \<subseteq>\<^sub>m pg s'"
proof -
  have "does False (PrepareMerge z bo now st base keysByCf) s (\<lambda>_ _. True)"
  proof (cases "stReadOnly st")
    case True
    then show ?thesis using assms(1) by (auto simp: PrepareMerge_def intro: does_fail)
  next
    case False
    have "does False (sbind (mergeTrees z bo keysByCf base) (\<lambda>ts. writeRoot z bo now ts)) s (\<lambda>_ _. True)"
      by (rule does_bind [OF does_mergeTrees [OF assms(1), of False _ "[]"]])
        (auto intro: does_imp [OF does_weaken [OF does_writeRoot]])
    then show ?thesis using False by (simp add: PrepareMerge_def)
  qed
  then show ?thesis using assms(2) by (simp add: does_def)
qed

lemma prepare_merges:
  assumes "clean s" "\<not> stReadOnly st" "trees_hold (pg s) base kss" "batch_ok kss keysByCf"
    and "PrepareMerge z bo now st base keysByCf s = (r, s')" "\<not> dry s'"
  shows "\<exists>ts kss'. r = Inr (ts, MakeRootName now) \<and> clean s' \<and> trees_hold (pg s') ts kss' \<and> batch_merged kss keysByCf kss'
    \<and> blobGetRoot z bo (MakeRootName now) s' = Inr (Some (SerializeRoot ts))"
proof -
  have wf: "wf s" using assms(1) clean_wf by blast
  obtain r1 s1 where m: "mergeTrees z bo keysByCf base s = (r1, s1)" by fastforce
  have d: "does True (mergeTrees z bo keysByCf base) s
    (\<lambda>ts' s'. True \<longrightarrow> (\<exists>kss'. trees_hold (pg s') ts' kss' \<and> batch_merged kss keysByCf kss'))"
    by (rule does_mergeTrees [OF wf]) (use assms in blast)
  have p: "PrepareMerge z bo now st base keysByCf s = sbind (mergeTrees z bo keysByCf base) (writeRoot z bo now) s"
    using assms(2) by (simp add: PrepareMerge_def)
  show ?thesis
  proof (cases r1)
    case (Inl e)
    then have "s' = s1" using assms(5) m p by (simp add: sbind_def)
    then show ?thesis using d assms(1,6) m Inl by (auto simp: does_def)
  next
    case (Inr ts)
    have 1: "wf s1" "clean s1" using d m assms(1) Inr by (auto simp: does_def)
    obtain kss' where k: "trees_hold (pg s1) ts kss'" "batch_merged kss keysByCf kss'" using d m Inr by (auto simp: does_def)
    have w: "writeRoot z bo now ts s1 = (r, s')" using assms(5) m p Inr by (simp add: sbind_def)
    note u = does_writeRoot [OF 1(1), of now ts, unfolded does_def, THEN conjunct1, rule_format, OF w]
    have c: "case r of Inr x \<Rightarrow> clean s' | Inl e \<Rightarrow> dry s'"
      using does_writeRoot [OF 1(1), of now ts] 1(2) w by (simp add: does_def)
    then obtain x where "r = Inr x" using assms(6) by (cases r) auto
    moreover have "trees_hold (pg s') ts kss'" using trees_hold_mono [OF k(1)] u by blast
    ultimately show ?thesis using u c k(2) 1(2) by auto
  qed
qed

end

lemma trees_hold_uuids: "trees_hold P ts kss \<Longrightarrow> \<forall>t \<in> set ts. length (RootUUID t) = 16"
  by (auto simp: trees_hold_def list_all2_conv_all_nth cf_tree_def in_set_conv_nth)

text \<open>The page store over the file-backed blob store, for any codec that decodes what it encoded.\<close>

lemma file_page_store:
  assumes "\<forall>x. Decompress z (compress z x) = Inr x"
  shows "page_store (fileOps False) disk_ok disk_clean disk_dry z"
  by unfold_locales (use assms in blast)

text \<open>A codec that stores its input behind the frame's magic number.\<close>

definition storedFrames :: zstd where
  "storedFrames = \<lparr>zEncode = (\<lambda>d. [0x28, 0xb5, 0x2f, 0xfd] @ d), zDecode = (\<lambda>c. Inr (drop 4 c))\<rparr>"

lemma storedFrames_inverse: "Decompress storedFrames (compress storedFrames x) = Inr x"
  by (simp add: storedFrames_def Decompress_def compress_def)

interpretation filePages: page_store "fileOps False" disk_ok disk_clean disk_dry storedFrames
  by (rule file_page_store) (simp add: storedFrames_inverse)

text \<open>C15. The merge is copy-on-write under any failure: after \<open>CommitMerge\<close>, successful or not, every tree that
  could be read before still can, with the same keys; and when it fails the store keeps its trees and its root.\<close>

theorem CommitMerge_keeps_trees:
  assumes "\<forall>x. Decompress z (compress z x) = Inr x" "disk_ok d"
    and "CommitMerge z (fileOps False) now keysByCf (st, d) = (r, st', d')"
  shows "(cf_tree (pageOf z (fileOps False) d) t ks \<longrightarrow> cf_tree (pageOf z (fileOps False) d') t ks)
    \<and> (\<forall>e. r = Inl e \<longrightarrow> st' = st)"
proof -
  obtain p d2 where p: "PrepareMerge z (fileOps False) now st (stTrees st) keysByCf d = (p, d2)" by fastforce
  have "pageOf z (fileOps False) d \<subseteq>\<^sub>m pageOf z (fileOps False) d2"
    using page_store.prepare_keeps_pages [OF file_page_store [OF assms(1)] assms(2) p] by blast
  then show ?thesis using assms(3) p cf_tree_mono by (auto simp: CommitMerge_def split: sum.splits)
qed

lemma commit_union:
  assumes "\<forall>x. Decompress z (compress z x) = Inr x" "disk_clean d" "\<not> stReadOnly st"
    and "trees_hold (pageOf z (fileOps False) d) (stTrees st) kss" "batch_ok kss keysByCf" "length (stTrees st) < 65536"
    and "CommitMerge z (fileOps False) now keysByCf (st, d) = (r, st', d')" "\<not> disk_dry d'"
  shows "r = Inr (MakeRootName now)
    \<and> (\<exists>kss'. trees_hold (pageOf z (fileOps False) d') (stTrees st') kss' \<and> batch_merged kss keysByCf kss')
    \<and> LoadRoot z (fileOps False) (MakeRootName now) d' replica =
        (Inr True, replica\<lparr>stTrees := padTrees (stNumCf replica) (stTrees st'), stRoot := MakeRootName now\<rparr>)"
proof -
  obtain p d2 where p: "PrepareMerge z (fileOps False) now st (stTrees st) keysByCf d = (p, d2)" by fastforce
  have d2: "d2 = d'" using assms(7) p by (auto simp: CommitMerge_def split: sum.splits)
  obtain ts kss' where k: "p = Inr (ts, MakeRootName now)" "trees_hold (pageOf z (fileOps False) d') ts kss'"
    "batch_merged kss keysByCf kss'" "blobGetRoot z (fileOps False) (MakeRootName now) d' = Inr (Some (SerializeRoot ts))"
    using page_store.prepare_merges [OF file_page_store [OF assms(1)] assms(2-5) p] assms(8) d2 by blast
  have st': "stTrees st' = ts" "r = Inr (MakeRootName now)"
    using assms(7) p k(1) by (auto simp: CommitMerge_def PublishTrees_def)
  have "length ts = length (stTrees st)"
    using list_all2_lengthD [OF k(2) [unfolded trees_hold_def]] list_all2_lengthD [OF assms(4) [unfolded trees_hold_def]] k(3)
    by (simp add: batch_merged_def)
  then have "DeserializeRoot (SerializeRoot ts) = Inr ts"
    using root_decodes trees_hold_uuids [OF k(2)] assms(6) by simp
  then show ?thesis using k st' by (auto simp: LoadRoot_def)
qed

text \<open>C14. A merge on a store without faults succeeds, as long as fresh identifiers last: each column family then
  holds exactly its old keys and the merged ones, in order, in a well-formed tree, and loading the root it wrote
  gives those trees.\<close>

theorem CommitMerge_union:
  assumes "\<forall>x. Decompress z (compress z x) = Inr x" "disk_clean d" "\<not> stReadOnly st"
    and "trees_hold (pageOf z (fileOps False) d) (stTrees st) kss" "batch_ok kss keysByCf" "length (stTrees st) < 65536"
    and "CommitMerge z (fileOps False) now keysByCf (st, d) = (r, st', d')" "\<not> disk_dry d'"
  shows "r = Inr (MakeRootName now)
    \<and> (\<exists>kss'. trees_hold (pageOf z (fileOps False) d') (stTrees st') kss' \<and> batch_merged kss keysByCf kss')
    \<and> LoadRoot z (fileOps False) (MakeRootName now) d' replica =
        (Inr True, replica\<lparr>stTrees := padTrees (stNumCf replica) (stTrees st'), stRoot := MakeRootName now\<rparr>)"
  using assms by (rule commit_union)

text \<open>C38. A missing index page makes a merge lose its keys without an error: when the root of a tree with index
  levels is not in the blob store, merging any keys succeeds and returns the tree unchanged.\<close>

theorem missing_index_drops_keys:
  assumes "RootUUID t \<noteq> EmptyUUID" "Height t \<noteq> 0" "blobGet z bo (RootUUID t) s = Inr None"
  shows "mergeTree z bo t keys s = (Inr t, s)"
proof -
  obtain h where "unat (Height t) = Suc h" using assms(2) by (metis not0_implies_Suc unat_eq_zero)
  then show ?thesis using assms by (simp add: mergeTree_def sbind_def sblobGet_def sreturn_def)
qed

definition demoDisk :: disk where
  "demoDisk = \<lparr>dFiles = [], dFaults = [], dBad = [], dRand = map (\<lambda>i. replicate 15 0 @ [i]) [1, 2, 3, 4]\<rparr>"

definition demoPages :: Store where
  "demoPages = \<lparr>stTrees = [EmptyTree], stNumCf = 1, stReadOnly = False, stRoot = ''''\<rparr>"

definition demoKeys :: "bytes list" where
  "demoKeys = [replicate 9 1, replicate 9 2]"

lemma demo_ids: "distinct (dRand demoDisk)" "\<forall>u \<in> set (dRand demoDisk). length u = 16 \<and> u \<noteq> EmptyUUID" "ascending demoKeys"
  by code_simp+

lemma demo_ok:
  "disk_clean demoDisk" "trees_hold P (stTrees demoPages) [[]]" "batch_ok [[]] [(0, demoKeys)]"
  using demo_ids
  by (simp_all add: disk_clean_def disk_ok_def demoDisk_def EmptyUUID_def trees_hold_def demoPages_def cf_tree_def
      EmptyTree_def batch_ok_def merge_ok_def demoKeys_def key_ok_def)

lemma fileOps_put:
  assumes "disk_clean d" "dRand d = u # us"
  shows "\<exists>d'. boPut (fileOps False) data d = (Inr u, d') \<and> disk_clean d' \<and> dRand d' = us"
proof -
  obtain d' where w: "writeAtomic (blobPath u) data (d\<lparr>dRand := us\<rparr>) = (None, d')"
    using writeAtomic_clean [of "d\<lparr>dRand := us\<rparr>"] assms(1) by (auto simp: disk_clean_def)
  then have p: "fbPut False data d = (Inr u, d')" using assms by (simp add: fbPut_def disk_clean_def)
  then show ?thesis using fbPut_clean [OF assms(1) p] writeAtomic_files(2) [OF w] by (simp add: fileOps_def)
qed

text \<open>The demonstration writes one leaf, one index page and a root.\<close>

lemma demo_build: "BuildPages demoKeys = [(replicate 9 1, SerializePage demoKeys)]"
  by (subst BuildPages.simps) (simp add: demoKeys_def MaxRawSize_def)

lemma demo_decodes: "DeserializePage (SerializePage demoKeys) = Inr demoKeys"
proof -
  have "\<forall>k \<in> set demoKeys. key_ok k" by (simp add: demoKeys_def key_ok_def)
  then obtain parts where p: "concat parts = demoKeys" "BuildPages demoKeys = map (\<lambda>p. (hd p, SerializePage p)) parts"
    "\<forall>p \<in> set parts. leaf_part p"
    using build_leaves by blast
  have "length parts = 1" using arg_cong [OF p(2), of length] demo_build by simp
  then obtain q where "parts = [q]" by (auto simp: length_Suc_conv)
  then show ?thesis using p(1,3) by (simp add: leaf_part_def)
qed

lemma demo_run: "dRand (snd (snd (CommitMerge storedFrames (fileOps False) 1 [(0, demoKeys)] (demoPages, demoDisk)))) \<noteq> []"
proof -
  obtain d1 where d1: "boPut (fileOps False) (compress storedFrames (SerializePage demoKeys)) demoDisk = (Inr (replicate 15 0 @ [1]), d1)"
    "disk_clean d1" "dRand d1 = map (\<lambda>i. replicate 15 0 @ [i]) [2, 3, 4]"
    using fileOps_put [OF demo_ok(1)] by (auto simp: demoDisk_def)
  let ?e = "entryOf (replicate 9 1) (replicate 15 0 @ [1])"
  have "length (SerializeIndexPage [?e]) \<le> IndexPageMaxSize"
    using length_SerializeIndexPage(2) [of "[?e]"] demo_ids by (simp add: newEntry key_ok_def IndexPageMaxSize_def demoDisk_def)
  moreover obtain d2 where d2: "boPut (fileOps False) (compress storedFrames (SerializeIndexPage [?e])) d1 = (Inr (replicate 15 0 @ [2]), d2)"
    "disk_clean d2" "dRand d2 = map (\<lambda>i. replicate 15 0 @ [i]) [3, 4]"
    using fileOps_put [OF d1(2)] d1(3) by auto
  ultimately obtain t where m: "mergeTree storedFrames (fileOps False) EmptyTree demoKeys demoDisk = (Inr t, d2)"
    using d1(1) d2(1) demo_decodes
    by (simp add: mergeTree_def buildTree_def buildIndexTree_def putPageList_def blobPutPages_def blobPut_def demo_build EmptyTree_def
        sbind_def slift_def sreturn_def validPage_def Let_def)
  obtain e d3 where w: "writeAtomic [MakeRootName 1] (compress storedFrames (SerializeRoot [t])) d2 = (e, d3)" by fastforce
  then have "dRand d3 = dRand d2" using writeAtomic_files(2) by simp
  moreover have "snd (snd (CommitMerge storedFrames (fileOps False) 1 [(0, demoKeys)] (demoPages, demoDisk))) = d3"
    using m w by (auto simp: CommitMerge_def PrepareMerge_def demoPages_def demoKeys_def sbind_def sreturn_def writeRoot_def
        blobPutRoot_def fileOps_def fbPutRoot_def)
  ultimately show ?thesis using d2(3) by simp
qed

lemma demo_commit:
  "\<exists>r st d t. CommitMerge storedFrames (fileOps False) 1 [(0, demoKeys)] (demoPages, demoDisk) = (r, st, d) \<and> stTrees st = [t]
    \<and> cf_tree (pageOf storedFrames (fileOps False) d) t demoKeys \<and> disk_ok d \<and> dRand d \<noteq> [] \<and> \<not> stReadOnly st"
proof -
  obtain r st d where c: "CommitMerge storedFrames (fileOps False) 1 [(0, demoKeys)] (demoPages, demoDisk) = (r, st, d)"
    using prod_cases3 by blast
  obtain p d2 where p: "PrepareMerge storedFrames (fileOps False) 1 demoPages (stTrees demoPages) [(0, demoKeys)] demoDisk = (p, d2)" by fastforce
  have d: "d2 = d" "\<not> stReadOnly st" using c p by (auto simp: CommitMerge_def PublishTrees_def demoPages_def split: sum.splits)
  have ok: "disk_ok d" using filePages.prepare_keeps_pages [OF _ p] demo_ok(1) d(1) by (simp add: disk_clean_def)
  have ne: "dRand d \<noteq> []" using c demo_run by simp
  then have "\<not> disk_dry d" by (simp add: disk_dry_def)
  then obtain kss where k: "trees_hold (pageOf storedFrames (fileOps False) d) (stTrees st) kss" "batch_merged [[]] [(0, demoKeys)] kss"
    using commit_union [OF _ demo_ok(1) _ demo_ok(2,3) _ c, of undefined] storedFrames_inverse by (auto simp: demoPages_def)
  have "length kss = 1" "merged [] demoKeys (kss ! 0)" using k(2) by (auto simp: batch_merged_def keysOf_def)
  then have "kss = [demoKeys]"
    using strict_sorted_equal [of demoKeys "kss ! 0"] demo_ids(3) by (auto simp: merged_def length_Suc_conv)
  then obtain t where "stTrees st = [t]" "cf_tree (pageOf storedFrames (fileOps False) d) t demoKeys"
    using k(1) by (auto simp: trees_hold_def list_all2_Cons2)
  then show ?thesis using c d(2) ok ne by blast
qed

text \<open>A second merge, into another column family, whose first page cannot be written.\<close>

lemma demo_failure:
  assumes "dRand d = u # us" "\<not> stReadOnly st" "stTrees st = [t, EmptyTree]"
  shows "\<exists>e d'. CommitMerge storedFrames (fileOps False) 2 [(1, demoKeys)] (st, d\<lparr>dFaults := [False, False, True]\<rparr>) = (Inl e, st, d')"
proof -
  have "\<exists>e d1. boPut (fileOps False) (compress storedFrames (SerializePage demoKeys)) (d\<lparr>dFaults := [False, False, True]\<rparr>) = (Inl e, d1)"
    using assms(1) by (simp add: fileOps_def fbPut_def writeAtomic_def osFault_def Let_def)
  then obtain e d1 where "boPut (fileOps False) (compress storedFrames (SerializePage demoKeys)) (d\<lparr>dFaults := [False, False, True]\<rparr>) = (Inl e, d1)"
    by blast
  then have "\<exists>e. mergeTree storedFrames (fileOps False) EmptyTree demoKeys (d\<lparr>dFaults := [False, False, True]\<rparr>) = (Inl e, d1)"
    using demo_decodes
    by (simp add: mergeTree_def buildTree_def putPageList_def blobPutPages_def blobPut_def demo_build EmptyTree_def
        sbind_def slift_def sreturn_def validPage_def Let_def)
  then show ?thesis using assms(2,3) by (auto simp: CommitMerge_def PrepareMerge_def sbind_def demoKeys_def)
qed

theorem CommitMerge_keeps_trees_witness:
  "\<exists>r st d t e d'. CommitMerge storedFrames (fileOps False) 1 [(0, demoKeys)] (demoPages, demoDisk) = (r, st, d) \<and> stTrees st = [t]
     \<and> CommitMerge storedFrames (fileOps False) 2 [(1, demoKeys)]
         (st\<lparr>stTrees := [t, EmptyTree]\<rparr>, d\<lparr>dFaults := [False, False, True]\<rparr>) = (Inl e, st\<lparr>stTrees := [t, EmptyTree]\<rparr>, d')
     \<and> cf_tree (pageOf storedFrames (fileOps False) d') t demoKeys"
proof -
  obtain r st d t where c: "CommitMerge storedFrames (fileOps False) 1 [(0, demoKeys)] (demoPages, demoDisk) = (r, st, d)" "stTrees st = [t]"
    "cf_tree (pageOf storedFrames (fileOps False) d) t demoKeys" "disk_ok d" "dRand d \<noteq> []" "\<not> stReadOnly st" using demo_commit by blast
  let ?st = "st\<lparr>stTrees := [t, EmptyTree]\<rparr>" and ?d = "d\<lparr>dFaults := [False, False, True]\<rparr>"
  obtain u us where "dRand d = u # us" using c(5) by (cases "dRand d") auto
  then obtain e d' where f: "CommitMerge storedFrames (fileOps False) 2 [(1, demoKeys)] (?st, ?d) = (Inl e, ?st, d')"
    using demo_failure [of d u us ?st t] c(6) by auto
  have same: "pageOf storedFrames (fileOps False) ?d = pageOf storedFrames (fileOps False) d"
    by (simp add: pageOf_def fileOps_def fbGet_def blobGet_def readFile_def fun_eq_iff)
  have "disk_ok ?d" using c(4) by (simp add: disk_ok_def)
  then have "cf_tree (pageOf storedFrames (fileOps False) d') t demoKeys"
    using CommitMerge_keeps_trees [OF _ _ f, of t demoKeys] storedFrames_inverse c(3) unfolding same by blast
  then show ?thesis using c(1,2) f by blast
qed

theorem CommitMerge_union_witness:
  "\<exists>r st' d' kss'. CommitMerge storedFrames (fileOps False) 1 [(0, demoKeys)] (demoPages, demoDisk) = (r, st', d')
     \<and> trees_hold (pageOf storedFrames (fileOps False) d') (stTrees st') kss' \<and> kss' ! 0 = demoKeys"
proof -
  obtain r st' d' where c: "CommitMerge storedFrames (fileOps False) 1 [(0, demoKeys)] (demoPages, demoDisk) = (r, st', d')"
    using prod_cases3 by blast
  have "\<not> disk_dry d'" using c demo_run by (simp add: disk_dry_def)
  then obtain kss' where k: "trees_hold (pageOf storedFrames (fileOps False) d') (stTrees st') kss'"
    "batch_merged [[]] [(0, demoKeys)] kss'"
    using CommitMerge_union [OF _ demo_ok(1) _ demo_ok(2,3) _ c, of undefined] storedFrames_inverse by (auto simp: demoPages_def)
  have "merged [] demoKeys (kss' ! 0)" using k(2) by (auto simp: batch_merged_def keysOf_def)
  then have "kss' ! 0 = demoKeys"
    using strict_sorted_equal [of demoKeys "kss' ! 0"] demo_ids(3) by (simp add: merged_def)
  then show ?thesis using c k by blast
qed

theorem missing_index_drops_keys_witness:
  "mergeTree storedFrames (fileOps False) \<lparr>RootUUID = replicate 16 9, Height = 1, NumLeaves = 1\<rparr> demoKeys demoDisk
     = (Inr \<lparr>RootUUID = replicate 16 9, Height = 1, NumLeaves = 1\<rparr>, demoDisk)"
  by (rule missing_index_drops_keys)
    (simp_all add: EmptyUUID_def blobGet_def decompressOpt_def fileOps_def fbGet_def readFile_def demoDisk_def)

end
