(* ===== verification/Gc.thy ===== *)
theory Gc
  imports TreeMerge
begin

text \<open>
  Garbage collection of roots and blobs, \<^verbatim>\<open>src/go/internal/pagestore/gc.go\<close>. Whatever the collection deletes and
  whichever of its calls fail, a retained root stays readable with every key of its trees. Root names carry
  nanoseconds while the age limit is computed in microseconds.
\<close>

section \<open>Roots\<close>

text \<open>The loop of \<open>ClassifyRoots\<close> from position \<open>i\<close>; \<open>int64\<close> arithmetic wraps.\<close>

fun classifyFrom :: "int64 \<Rightarrow> int64 \<Rightarrow> int \<Rightarrow> nat \<Rightarrow> string list \<Rightarrow> string list \<times> string list" where
  "classifyFrom latestUs maxAgeUs maxRootCount i [] = ([], [])"
| "classifyFrom latestUs maxAgeUs maxRootCount i (name # rest) =
     (let us = ParseRootUs name;
          tooOld = (sint (latestUs - us) > sint maxAgeUs);
          beyondCount = (maxRootCount > 0 \<and> int i \<ge> maxRootCount);
          (keep, remove) = classifyFrom latestUs maxAgeUs maxRootCount (Suc i) rest
      in if tooOld \<or> beyondCount then (keep, name # remove) else (name # keep, remove))"

definition ClassifyRoots :: "string list \<Rightarrow> uint64 \<Rightarrow> int \<Rightarrow> string list \<times> string list" where
  "ClassifyRoots roots maxAgeSecs maxRootCount =
     (if roots = [] then ([], [])
      else classifyFrom (ParseRootUs (roots ! 0)) (maxAgeSecs * 1000000) maxRootCount 0 roots)"

lemma hexVal_hexDigit: "d < 16 \<Longrightarrow> hexVal (hexDigit d) = Some d"
  by (cases "d < 10") (simp_all add: hexVal_def hexDigit_def)

lemma parseHexFrom_hex:
  "acc * 256 ^ length bs + be_nat bs < 2 ^ 64 \<Longrightarrow>
     parseHexFrom acc (concat (map (\<lambda>b. [hexDigit (unat b div 16), hexDigit (unat b mod 16)]) bs)) = Some (acc * 256 ^ length bs + be_nat bs)"
proof (induction bs arbitrary: acc)
  case (Cons b bs)
  let ?h = "unat b div 16" and ?l = "unat b mod 16"
  have b: "unat b < 256" using unsigned_less [of b, where ?'a = nat] by simp
  have v: "hexVal (hexDigit ?h) = Some ?h" "hexVal (hexDigit ?l) = Some ?l"
    by (rule hexVal_hexDigit; use b in simp)+
  have a: "(acc * 16 + ?h) * 16 + ?l = acc * 256 + unat b" by simp
  have e: "(acc * 256 + unat b) * 256 ^ length bs + be_nat bs = acc * 256 ^ length (b # bs) + be_nat (b # bs)"
    by (simp add: be_nat_Cons algebra_simps)
  have "acc * 256 + unat b \<le> (acc * 256 + unat b) * 256 ^ length bs" by simp
  then have lt: "acc * 256 + unat b < 2 ^ 64" using e Cons.prems by linarith
  then have "acc * 16 + ?h < 2 ^ 64" using a by linarith
  moreover have "parseHexFrom (acc * 256 + unat b) (concat (map (\<lambda>b. [hexDigit (unat b div 16), hexDigit (unat b mod 16)]) bs))
      = Some (acc * 256 ^ length (b # bs) + be_nat (b # bs))"
    using Cons.IH [of "acc * 256 + unat b"] Cons.prems e by simp
  ultimately show ?case using v lt a by (simp add: not_le add.commute mult.commute)
qed simp

lemma ParseRootUs_MakeRootName: "ParseRootUs (MakeRootName t) = t"
proof -
  let ?w = "NOT t + 1" and ?bs = "put_be 8 (NOT t + 1)"
  have u: "unat ?w < 256 ^ 8" using unsigned_less [of ?w, where ?'a = nat] by simp
  then have b: "be_nat ?bs = unat ?w" by (rule be_nat_put_be_full)
  have "parseHexFrom 0 (hex16 ?w) = Some (unat ?w)"
    unfolding hex16_def using parseHexFrom_hex [of 0 ?bs] u b by simp
  moreover have "drop 5 (MakeRootName t) = hex16 ?w" "take 5 (MakeRootName t) = ''root_''"
    by (simp_all add: MakeRootName_def)
  moreover have "hex16 ?w \<noteq> []" using length_put_be [of 8 ?w] by (cases ?bs) (simp_all add: hex16_def)
  moreover have "- ?w = t" by (simp add: not_eq_complement)
  ultimately show ?thesis by (simp add: ParseRootUs_def)
qed

section \<open>Live blobs\<close>

text \<open>What \<open>collectTreeUUIDs\<close> adds to the live set, for a tree of height \<open>h\<close> below \<open>u\<close>.\<close>

fun collectTreeUUIDs :: "zstd \<Rightarrow> 's blob_ops \<Rightarrow> 's \<Rightarrow> nat \<Rightarrow> UUID \<Rightarrow> UUID list" where
  "collectTreeUUIDs z bo s 0 u = (if u = EmptyUUID then [] else [u])"
| "collectTreeUUIDs z bo s (Suc h) u =
     (if u = EmptyUUID then []
      else
        u # (case blobGet z bo u s of
               Inr (Some data) \<Rightarrow>
                 (case DeserializeIndexPage data of
                    Inl _ \<Rightarrow> []
                  | Inr entries \<Rightarrow>
                      concat (map (\<lambda>e. ieUUID e # (if h > 0 then collectTreeUUIDs z bo s h (ieUUID e) else [])) entries))
             | _ \<Rightarrow> []))"

fun liveSet :: "zstd \<Rightarrow> 's blob_ops \<Rightarrow> 's \<Rightarrow> string list \<Rightarrow> UUID list result" where
  "liveSet z bo s [] = Inr []"
| "liveSet z bo s (name # names) =
     (case blobGetRoot z bo name s of
        Inr (Some data) \<Rightarrow>
          rbind (DeserializeRoot data) (\<lambda>trees.
          rbind (liveSet z bo s names) (\<lambda>rest.
            Inr (concat (map (\<lambda>t. collectTreeUUIDs z bo s (unat (Height t)) (RootUUID t)) trees) @ rest)))
      | _ \<Rightarrow> Inl (Error ''gcFull: root unreadable while building live-set''))"

definition HasOldRoots :: "'s blob_ops \<Rightarrow> 's \<Rightarrow> uint64 \<Rightarrow> int \<Rightarrow> bool" where
  "HasOldRoots bo s maxAgeSecs maxRootCount =
     (case boListRoots bo s of
        Inl _ \<Rightarrow> False
      | Inr roots \<Rightarrow> snd (ClassifyRoots roots maxAgeSecs maxRootCount) \<noteq> [])"

section \<open>The collection\<close>

fun deleteRoots :: "'s blob_ops \<Rightarrow> string list \<Rightarrow> 's \<Rightarrow> 's" where
  "deleteRoots bo [] s = s"
| "deleteRoots bo (name # names) s = deleteRoots bo names (snd (boDeleteRoot bo name s))"

text \<open>The loop over all blobs; the count of removed blobs comes first.\<close>

fun sweep :: "'s blob_ops \<Rightarrow> bool \<Rightarrow> UUID list \<Rightarrow> UUID list \<Rightarrow> nat \<Rightarrow> 's \<Rightarrow> nat \<times> 's" where
  "sweep bo dryRun live [] removed s = (removed, s)"
| "sweep bo dryRun live (u # us) removed s =
     (if u \<in> set live then sweep bo dryRun live us removed s
      else if dryRun then sweep bo dryRun live us removed s
      else
        (case boDelete bo u s of
           (Some _, s') \<Rightarrow> sweep bo dryRun live us removed s'
         | (None, s') \<Rightarrow> sweep bo dryRun live us (removed + 1) s'))"

definition put_le64 :: "nat \<Rightarrow> bytes" where
  "put_le64 n = rev (put_be 8 (word_of_nat n :: uint64))"

definition GcFull :: "zstd \<Rightarrow> 's blob_ops \<Rightarrow> Store \<Rightarrow> uint64 \<Rightarrow> int \<Rightarrow> bool \<Rightarrow> 's \<Rightarrow> bytes option result \<times> 's" where
  "GcFull z bo st maxAgeSecs maxRootCount dryRun s =
     (if stReadOnly st then (Inl (Error ''read-only''), s)
      else
        (case boListRoots bo s of
           Inl e \<Rightarrow> (Inl e, s)
         | Inr roots \<Rightarrow>
             if roots = [] then (Inr None, s)
             else
               let (keep, remove) = ClassifyRoots roots maxAgeSecs maxRootCount
               in case liveSet z bo s keep of
                    Inl e \<Rightarrow> (Inl e, s)
                  | Inr live \<Rightarrow>
                      let s1 = (if dryRun then s else deleteRoots bo remove s)
                      in case boList bo s1 of
                           Inl e \<Rightarrow> (Inl e, s1)
                         | Inr all \<Rightarrow>
                             let (blobsRemoved, s2) = sweep bo dryRun live all 0 s1
                             in (Inr (Some (put_le64 (length roots) @ put_le64 (length remove) @ put_le64 (length all)
                                   @ put_le64 blobsRemoved @ put_le64 (length (remdups live))
                                   @ [if dryRun then 1 else 0])), s2)))"

section \<open>Retained roots survive\<close>

lemma classifyFrom_set:
  "classifyFrom l m c i names = (keep, remove) \<Longrightarrow> set keep \<union> set remove = set names
    \<and> (distinct names \<longrightarrow> set keep \<inter> set remove = {})"
proof (induction names arbitrary: i keep remove)
  case (Cons n names)
  obtain k r where kr: "classifyFrom l m c (Suc i) names = (k, r)" by fastforce
  note IH = Cons.IH [OF kr]
  have "(keep, remove) = (k, n # r) \<or> (keep, remove) = (n # k, r)"
    using Cons.prems kr by (auto simp: Let_def split: if_splits)
  then show ?case using IH by (elim disjE) auto
qed simp

lemma classify_disjoint:
  assumes "ClassifyRoots roots a c = (keep, remove)" "distinct roots"
  shows "set keep \<inter> set remove = {}"
proof (cases "roots = []")
  case True
  then show ?thesis using assms(1) by (auto simp: ClassifyRoots_def)
next
  case False
  then have "classifyFrom (ParseRootUs (roots ! 0)) (a * 1000000) c 0 roots = (keep, remove)"
    using assms(1) by (simp add: ClassifyRoots_def)
  from classifyFrom_set [OF this] show ?thesis using assms(2) by blast
qed

text \<open>A tree depends on the pages its walk collects, and on no others.\<close>

lemma tree_live:
  assumes "tree (pageOf z bo s) h u ks" "u \<noteq> EmptyUUID"
    and "\<forall>v \<in> set (collectTreeUUIDs z bo s h u). P v = pageOf z bo s v"
  shows "tree P h u ks"
  using assms
proof (induction h arbitrary: u ks)
  case 0
  then show ?case by auto
next
  case (Suc h)
  obtain d es kss where t: "pageOf z bo s u = Some d" "DeserializeIndexPage d = Inr es" "es \<noteq> []" "h = 0 \<or> 2 \<le> length es"
    "ks = concat kss" "forest (pageOf z bo s) h es kss" using Suc.prems(1) unfolding tree_Suc by blast
  have g: "blobGet z bo u s = Inr (Some d)" using t(1) by (auto simp: pageOf_def split: sum.splits)
  have sub: "set (collectTreeUUIDs z bo s h (ieUUID e)) \<subseteq> set (collectTreeUUIDs z bo s (Suc h) u)" if "e \<in> set es" for e
  proof -
    have "collectTreeUUIDs z bo s (Suc h) u =
        u # concat (map (\<lambda>e. ieUUID e # (if h > 0 then collectTreeUUIDs z bo s h (ieUUID e) else [])) es)"
      using g t(2) Suc.prems(2) by simp
    moreover have "set (collectTreeUUIDs z bo s h (ieUUID e)) \<subseteq> {ieUUID e}" if "h = 0" using that by simp
    ultimately show ?thesis using that by (cases "h = 0") (auto simp del: collectTreeUUIDs.simps)
  qed
  have "tree P h (ieUUID (es ! i)) (kss ! i)" if i: "i < length es" for i
  proof (rule Suc.IH)
    show "tree (pageOf z bo s) h (ieUUID (es ! i)) (kss ! i)"
      using t(6) i by (auto simp: forest_def list_all2_conv_all_nth)
    show "ieUUID (es ! i) \<noteq> EmptyUUID" using t(6) i by (auto simp: forest_def list_all2_conv_all_nth entry_ok_def)
    show "\<forall>v \<in> set (collectTreeUUIDs z bo s h (ieUUID (es ! i))). P v = pageOf z bo s v"
      using sub [OF nth_mem [OF i]] Suc.prems(3) by blast
  qed
  then have "forest P h es kss" using t(6) by (auto simp: forest_def list_all2_conv_all_nth)
  moreover have "P u = Some d" using Suc.prems(2,3) t(1) by simp
  ultimately show ?case using t unfolding tree_Suc by blast
qed

lemma liveSet_trees:
  assumes "liveSet z bo s keep = Inr live" "name \<in> set keep" "blobGetRoot z bo name s = Inr (Some data)"
    "DeserializeRoot data = Inr ts" "t \<in> set ts"
  shows "set (collectTreeUUIDs z bo s (unat (Height t)) (RootUUID t)) \<subseteq> set live"
  using assms
proof (induction keep arbitrary: live)
  case (Cons n keep)
  obtain d trees rest where n: "blobGetRoot z bo n s = Inr (Some d)" "DeserializeRoot d = Inr trees"
    "liveSet z bo s keep = Inr rest"
    "live = concat (map (\<lambda>t. collectTreeUUIDs z bo s (unat (Height t)) (RootUUID t)) trees) @ rest"
    using Cons.prems(1) by (auto simp: rbind_Inr split: sum.splits option.splits)
  show ?case
  proof (cases "name = n")
    case True
    then show ?thesis using n Cons.prems by auto
  next
    case False
    then show ?thesis using Cons.IH [OF n(3)] Cons.prems n(4) by auto
  qed
qed simp

text \<open>Deleting touches what it names and nothing else.\<close>

locale deletable_store =
  fixes bo :: "'s blob_ops"
  assumes delete_other: "v \<noteq> u \<Longrightarrow> boGet bo v (snd (boDelete bo u s)) = boGet bo v s"
    and delete_root: "boGetRoot bo n (snd (boDelete bo u s)) = boGetRoot bo n s"
    and deleteRoot_blob: "boGet bo v (snd (boDeleteRoot bo n s)) = boGet bo v s"
    and roots_distinct: "boListRoots bo s = Inr roots \<Longrightarrow> distinct roots"
    and deleteRoot_other: "m \<noteq> n \<Longrightarrow> boGetRoot bo m (snd (boDeleteRoot bo n s)) = boGetRoot bo m s"
begin

lemma deleteRoots_keeps:
  "boGet bo v (deleteRoots bo names s) = boGet bo v s"
  "m \<notin> set names \<Longrightarrow> boGetRoot bo m (deleteRoots bo names s) = boGetRoot bo m s"
  by (induction names arbitrary: s) (auto simp: deleteRoot_blob deleteRoot_other)

lemma sweep_keeps:
  "(v \<in> set live \<longrightarrow> boGet bo v (snd (sweep bo dryRun live us n s)) = boGet bo v s)
   \<and> boGetRoot bo m (snd (sweep bo dryRun live us n s)) = boGetRoot bo m s"
proof (induction us arbitrary: n s)
  case (Cons u us)
  obtain e s' where d: "boDelete bo u s = (e, s')" by fastforce
  have "boGetRoot bo m s' = boGetRoot bo m s" "v \<noteq> u \<longrightarrow> boGet bo v s' = boGet bo v s"
    using delete_root [of m u s] delete_other [of v u s] d by simp_all
  then show ?case using Cons.IH by (cases e) (auto simp: d)
qed simp

lemma gc_keeps_retained:
  assumes roots: "boListRoots bo s = Inr roots" "name \<in> set (fst (ClassifyRoots roots a c))"
    and root: "blobGetRoot z bo name s = Inr (Some data)" "DeserializeRoot data = Inr ts"
    and hold: "trees_hold (pageOf z bo s) ts kss" and gc: "GcFull z bo st a c dryRun s = (r, s')"
  shows "blobGetRoot z bo name s' = Inr (Some data) \<and> trees_hold (pageOf z bo s') ts kss"
proof -
  obtain keep remove where k: "ClassifyRoots roots a c = (keep, remove)" by fastforce
  have name: "name \<in> set keep" "name \<notin> set remove"
    using roots(2) k classify_disjoint [OF k roots_distinct [OF roots(1)]] by auto
  have "\<exists>live. s' = s \<or> liveSet z bo s keep = Inr live
      \<and> (\<forall>v \<in> set live. boGet bo v s' = boGet bo v s) \<and> boGetRoot bo name s' = boGetRoot bo name s"
    using gc roots(1) k name(2)
    by (auto simp: GcFull_def Let_def sweep_keeps deleteRoots_keeps split: if_splits sum.splits prod.splits)
       (metis sweep_keeps deleteRoots_keeps snd_conv)+
  then show ?thesis
  proof (elim exE disjE conjE)
    fix live
    assume l: "liveSet z bo s keep = Inr live" "\<forall>v \<in> set live. boGet bo v s' = boGet bo v s"
      "boGetRoot bo name s' = boGetRoot bo name s"
    have "trees_hold (pageOf z bo s') ts kss"
      using hold unfolding trees_hold_def list_all2_conv_all_nth
    proof (intro conjI allI impI; elim conjE)
      fix i
      assume i: "i < length ts" "\<forall>i < length ts. cf_tree (pageOf z bo s) (ts ! i) (kss ! i)"
      have "set (collectTreeUUIDs z bo s (unat (Height (ts ! i))) (RootUUID (ts ! i))) \<subseteq> set live"
        using liveSet_trees [OF l(1) name(1) root] i(1) by simp
      then have "\<forall>v \<in> set (collectTreeUUIDs z bo s (unat (Height (ts ! i))) (RootUUID (ts ! i))). pageOf z bo s' v = pageOf z bo s v"
        using l(2) by (auto simp: pageOf_def blobGet_def)
      then show "cf_tree (pageOf z bo s') (ts ! i) (kss ! i)"
        using i(1) i(2) [rule_format, OF i(1)] tree_live [of z bo s "unat (Height (ts ! i))" "RootUUID (ts ! i)" "kss ! i"]
        by (simp add: cf_tree_def split: if_splits)
    qed
    then show ?thesis using root(1) l(3) by (simp add: blobGetRoot_def)
  qed (use root hold in simp_all)
qed

end

lemma removeFile_files:
  "q \<noteq> p \<Longrightarrow> map_of (dFiles (snd (removeFile p d))) q = map_of (dFiles d) q"
  "dBad (snd (removeFile p d)) = dBad d"
  by (auto simp: removeFile_def Let_def delete_conv' split: prod.split dest: osFault_eq)

interpretation fgc: deletable_store "fileOps readOnly" for readOnly
proof
  fix u v :: UUID and n m :: string and d :: disk and roots :: "string list"
  show "boGet (fileOps readOnly) v (snd (boDelete (fileOps readOnly) u d)) = boGet (fileOps readOnly) v d" if "v \<noteq> u"
    using that removeFile_files [where p = "blobPath u" and d = d] by (simp add: fileOps_def fbGet_def fbDelete_def readFile_def)
  show "boGetRoot (fileOps readOnly) n (snd (boDelete (fileOps readOnly) u d)) = boGetRoot (fileOps readOnly) n d"
    using removeFile_files [where p = "blobPath u" and d = d] by (simp add: fileOps_def fbGetRoot_def fbDelete_def readFile_def)
  show "boGet (fileOps readOnly) v (snd (boDeleteRoot (fileOps readOnly) n d)) = boGet (fileOps readOnly) v d"
    using removeFile_files [where p = "[n]" and d = d] by (simp add: fileOps_def fbGet_def fbDeleteRoot_def readFile_def)
  show "boGetRoot (fileOps readOnly) m (snd (boDeleteRoot (fileOps readOnly) n d)) = boGetRoot (fileOps readOnly) m d"
    if "m \<noteq> n"
    using that removeFile_files [where p = "[n]" and d = d] by (simp add: fileOps_def fbGetRoot_def fbDeleteRoot_def readFile_def)
  show "distinct roots" if "boListRoots (fileOps readOnly) d = Inr roots"
  proof -
    have "distinct (map fst (readDir [] d))" by (simp add: readDir_def Let_def comp_def)
    then show ?thesis using that by (auto simp: fileOps_def fbListRoots_def readDirR_def distinct_map_filter split: if_splits)
  qed
qed

section \<open>Properties of the collection\<close>

text \<open>C17. A collection never breaks a retained root: whatever it deletes, whichever deletions fail, dry run or
  not, a root that the age and count limits retain is still readable afterwards and its trees still hold
  exactly the keys they held.\<close>

theorem GcFull_keeps_retained:
  assumes "boListRoots (fileOps readOnly) d = Inr roots" "name \<in> set (fst (ClassifyRoots roots maxAgeSecs maxRootCount))"
    and "blobGetRoot z (fileOps readOnly) name d = Inr (Some data)" "DeserializeRoot data = Inr ts"
    and "trees_hold (pageOf z (fileOps readOnly) d) ts kss"
    and "GcFull z (fileOps readOnly) st maxAgeSecs maxRootCount dryRun d = (r, d')"
  shows "blobGetRoot z (fileOps readOnly) name d' = Inr (Some data) \<and> trees_hold (pageOf z (fileOps readOnly) d') ts kss"
  using assms by (rule fgc.gc_keeps_retained)

text \<open>A root with one leaf, and a blob that belongs to no tree.\<close>

definition rootDisk :: disk where
  "rootDisk =
     \<lparr>dFiles =
        [([MakeRootName 1], compress storedFrames (SerializeRoot [\<lparr>RootUUID = replicate 16 7, Height = 0, NumLeaves = 0\<rparr>])),
         (blobPath (replicate 16 7), compress storedFrames (SerializePage demoKeys)),
         (blobPath (replicate 16 8), [0])],
      dFaults = [], dBad = [], dRand = []\<rparr>"

theorem GcFull_keeps_retained_witness:
  "\<exists>r d'. GcFull storedFrames (fileOps False) demoPages 3600 0 False rootDisk = (r, d')
     \<and> trees_hold (pageOf storedFrames (fileOps False) d') [\<lparr>RootUUID = replicate 16 7, Height = 0, NumLeaves = 0\<rparr>] [demoKeys]"
proof -
  let ?t = "\<lparr>RootUUID = replicate 16 7, Height = 0, NumLeaves = 0\<rparr>"
  obtain r d' where gc: "GcFull storedFrames (fileOps False) demoPages 3600 0 False rootDisk = (r, d')" by fastforce
  have roots: "boListRoots (fileOps False) rootDisk = Inr [MakeRootName 1]" by code_simp
  have keep: "MakeRootName 1 \<in> set (fst (ClassifyRoots [MakeRootName 1] 3600 0))" by (simp add: ClassifyRoots_def)
  have root: "blobGetRoot storedFrames (fileOps False) (MakeRootName 1) rootDisk = Inr (Some (SerializeRoot [?t]))"
    using storedFrames_inverse
    by (simp add: blobGetRoot_def decompressOpt_def fileOps_def fbGetRoot_def readFile_def rootDisk_def)
  have dec: "DeserializeRoot (SerializeRoot [?t]) = Inr [?t]" by (rule root_decodes) simp_all
  have "pageOf storedFrames (fileOps False) rootDisk (replicate 16 7) = Some (SerializePage demoKeys)"
    using storedFrames_inverse
    by (simp add: pageOf_def blobGet_def decompressOpt_def fileOps_def fbGet_def readFile_def rootDisk_def)
  moreover have "DeserializePage (SerializePage demoKeys) = Inr demoKeys" by code_simp
  moreover have "replicate 16 (7::byte) \<noteq> EmptyUUID" by code_simp
  ultimately have "trees_hold (pageOf storedFrames (fileOps False) rootDisk) [?t] [demoKeys]"
    using demo_ids(3) by (simp add: trees_hold_def cf_tree_def demoKeys_def key_ok_def)
  from GcFull_keeps_retained [OF roots keep root dec this gc] gc show ?thesis by blast
qed

text \<open>The age limit is a thousand times shorter than configured: root names carry nanoseconds and the limit is
  computed in microseconds, so with a limit of an hour a root four seconds older than the newest is removed.\<close>

theorem age_limit_in_wrong_unit:
  "ClassifyRoots [MakeRootName 1700000004000000000, MakeRootName 1700000000000000000] 3600 0
     = ([MakeRootName 1700000004000000000], [MakeRootName 1700000000000000000])"
  by (simp add: ClassifyRoots_def ParseRootUs_MakeRootName)

definition badIndexDisk :: disk where
  "badIndexDisk =
     \<lparr>dFiles =
        [([MakeRootName 1], compress storedFrames (SerializeRoot [\<lparr>RootUUID = replicate 16 1, Height = 1, NumLeaves = 1\<rparr>])),
         (blobPath (replicate 16 1), compress storedFrames (SerializeIndexPage [entryOf (replicate 9 1) (replicate 16 2)])),
         (blobPath (replicate 16 2), compress storedFrames (SerializePage demoKeys))],
      dFaults = [], dBad = [blobPath (replicate 16 1)], dRand = []\<rparr>"

text \<open>A read error during a collection loses data: when an index page of a retained root cannot be read, the
  walk skips the pages below it without an error, and the collection, reporting success, deletes the leaf they
  contain.\<close>

theorem unreadable_index_loses_leaves:
  "(case GcFull storedFrames (fileOps False) demoPages 3600 0 False badIndexDisk of
      (r, d') \<Rightarrow> \<not> isl r \<and> fbGet (replicate 16 2) badIndexDisk \<noteq> Inr None \<and> fbGet (replicate 16 2) d' = Inr None)"
proof -
  have "boListRoots (fileOps False) badIndexDisk = Inr [MakeRootName 1]" by code_simp
  moreover have "ClassifyRoots [MakeRootName 1] 3600 0 = ([MakeRootName 1], [])"
    by (simp add: ClassifyRoots_def)
  moreover have "liveSet storedFrames (fileOps False) badIndexDisk [MakeRootName 1] = Inr [replicate 16 1]" by code_simp
  moreover have "boList (fileOps False) badIndexDisk = Inr [replicate 16 1, replicate 16 2]" by code_simp
  moreover have "fbGet (replicate 16 2) badIndexDisk \<noteq> Inr None
    \<and> fbGet (replicate 16 2) (snd (sweep (fileOps False) False [replicate 16 1] [replicate 16 1, replicate 16 2] 0 badIndexDisk)) = Inr None"
    by code_simp
  ultimately show ?thesis
    by (auto simp: GcFull_def demoPages_def Let_def split: prod.split)
qed

end
