(* ===== verification/MemTable.thy ===== *)
theory MemTable
  imports KeyedLists
begin

text \<open>
  The run-ladder memtable, \<^verbatim>\<open>src/go/internal/memtable/memtable.go\<close>: writes append records to a
  delta buffer per column family, materialisation sorts the buffer into an immutable run, runs merge
  past eight, a freeze moves the ladder to the draining side and a publish drops it. The mutex of
  the source makes every exported operation atomic; each one is a function on the state here. The
  specification is the log of the records in age order: a lookup returns the newest record of the
  key in that log, and every internal reorganisation keeps it.
\<close>

unbundle bit_operations_syntax

section \<open>Records\<close>

definition indexPanic :: go_error where
  "indexPanic = Panic ''index out of range''"

definition recKlen :: "bytes \<Rightarrow> nat" where
  "recKlen p = be_nat (slice p 1 5)"

definition recDeleted :: "bytes \<Rightarrow> bool" where
  "recDeleted p = (p ! 0 AND 1 \<noteq> 0)"

definition recKey :: "bytes \<Rightarrow> bytes" where
  "recKey p = slice p 5 (5 + recKlen p)"

text \<open>
  The value accessors index and slice the record; a key-only record ends with its key, so they panic on it.
  \<open>recBody\<close> is the value where the code has made sure that the record has one: drains of key-value families and
  pair cursors, which are opened on those families.
\<close>

definition recVlen :: "bytes \<Rightarrow> nat result" where
  "recVlen p =
     (let off = 5 + recKlen p
      in if length p < off + 4 then Inl indexPanic else Inr (be_nat (slice p off (off + 4))))"

definition recValue :: "bytes \<Rightarrow> bytes result" where
  "recValue p =
     (let off = 9 + recKlen p
      in rbind (recVlen p) (\<lambda>n. if length p < off + n then Inl indexPanic else Inr (slice p off (off + n))))"

definition recBody :: "bytes \<Rightarrow> bytes" where
  "recBody p = (case recValue p of Inr v \<Rightarrow> v | Inl _ \<Rightarrow> [])"

definition CmpKeys :: "bytes \<Rightarrow> bytes \<Rightarrow> int" where
  "CmpKeys a b = cmp_loop a b"

definition CmpRec :: "bytes \<Rightarrow> bytes \<Rightarrow> int" where
  "CmpRec a b = CmpKeys (recKey a) (recKey b)"

text \<open>The record bytes assembled by \<open>appendRecLocked\<close> (\<open>kv\<close> is \<open>cf >= 10\<close>).\<close>

definition makeRec :: "bool \<Rightarrow> bool \<Rightarrow> bytes \<Rightarrow> bytes \<Rightarrow> bytes" where
  "makeRec kv deleted key value =
     ((if deleted then 1 else 0) OR (if kv then 2 else 0))
     # put_be 4 (word_of_nat (length key) :: uint32) @ key
     @ (if kv then put_be 4 (word_of_nat (length value) :: uint32) @ value else [])"

section \<open>State\<close>

record Run =
  Records :: "bytes list"
  KV :: bool

datatype KvLookup = KvAbsent | KvDeleted | KvValue

record MemTable =
  numCf :: nat
  gen :: uint64
  runs :: "Run list list"
  draining :: "Run list list"
  buf :: "bytes list list"
  cfSize :: "int list"

definition MaxActiveRuns :: nat where "MaxActiveRuns = 8"
definition MaxBufEntries :: nat where "MaxBufEntries = 65536"

definition NewMemTable :: "nat \<Rightarrow> MemTable result" where
  "NewMemTable n =
     (if n = 0 then Inl (Panic ''memtable: numCf must be > 0'')
      else Inr \<lparr>numCf = n, gen = 0, runs = replicate n [], draining = replicate n [],
                buf = replicate n [], cfSize = replicate n 0\<rparr>)"

definition RunCounts :: "MemTable \<Rightarrow> nat \<times> nat" where
  "RunCounts mt = (\<Sum>cf \<leftarrow> [0..<numCf mt]. length (runs mt ! cf),
                   \<Sum>cf \<leftarrow> [0..<numCf mt]. length (draining mt ! cf))"

definition sizeLocked :: "MemTable \<Rightarrow> uint64" where
  "sizeLocked mt = word_of_int (sum_list (cfSize mt))"

section \<open>Materialise and merge\<close>

definition materializeLocked :: "nat \<Rightarrow> MemTable \<Rightarrow> MemTable" where
  "materializeLocked cf mt =
     (let b = buf mt ! cf
      in if b = [] then mt
         else
           let bufSum = sum_list (map recKlen b);
               order = sort_key (\<lambda>i. (recKey (b ! i), i)) [0..<length b];
               records = keepLast recKey (map ((!) b) order);
               keptBytes = sum_list (map recKlen records)
           in mt\<lparr>runs := (runs mt)[cf := runs mt ! cf @ [\<lparr>Records = records, KV = cf \<ge> 10\<rparr>]],
                 buf := (buf mt)[cf := []],
                 cfSize := (cfSize mt)[cf := cfSize mt ! cf - (int bufSum - int keptBytes)],
                 gen := gen mt + 1\<rparr>)"

definition maybeMergeLocked :: "nat \<Rightarrow> MemTable \<Rightarrow> MemTable" where
  "maybeMergeLocked cf mt =
     (let rs = runs mt ! cf
      in if length rs \<le> MaxActiveRuns then mt
         else
           let merged = concat (map Records rs);
               origin = concat (map (\<lambda>(ri, r). map (\<lambda>_. ri) (Records r)) (enumerate 0 rs));
               order = sort_key (\<lambda>i. (recKey (merged ! i), origin ! i)) [0..<length merged];
               records = keepLast recKey (map ((!) merged) order)
           in mt\<lparr>runs := (runs mt)[cf := [\<lparr>Records = records, KV = cf \<ge> 10\<rparr>]],
                 gen := gen mt + 1\<rparr>)"

section \<open>Writes\<close>

definition appendRecLocked :: "nat \<Rightarrow> bool \<Rightarrow> bytes \<Rightarrow> bytes \<Rightarrow> MemTable \<Rightarrow> MemTable result" where
  "appendRecLocked cf deleted key value mt =
     (if cf \<ge> length (buf mt) then Inl indexPanic
      else
        let p = makeRec (cf \<ge> 10) deleted key value;
            mt1 = mt\<lparr>buf := (buf mt)[cf := buf mt ! cf @ [p]],
                     cfSize := (cfSize mt)[cf := cfSize mt ! cf + int (length key)]\<rparr>
        in if length (buf mt1 ! cf) \<ge> MaxBufEntries
           then Inr (maybeMergeLocked cf (materializeLocked cf mt1))
           else Inr mt1)"

definition sized :: "MemTable result \<Rightarrow> (MemTable \<times> uint64) result" where
  "sized r = (case r of Inl e \<Rightarrow> Inl e | Inr mt \<Rightarrow> Inr (mt, sizeLocked mt))"

definition Put :: "nat \<Rightarrow> bytes \<Rightarrow> MemTable \<Rightarrow> (MemTable \<times> uint64) result" where
  "Put cf key mt = sized (appendRecLocked cf False key [] mt)"

definition PutKv :: "nat \<Rightarrow> bytes \<Rightarrow> bytes \<Rightarrow> MemTable \<Rightarrow> (MemTable \<times> uint64) result" where
  "PutKv cf key value mt = sized (appendRecLocked cf False key value mt)"

definition DeleteKv :: "nat \<Rightarrow> bytes \<Rightarrow> MemTable \<Rightarrow> MemTable result" where
  "DeleteKv cf key mt = appendRecLocked cf True key [] mt"

record CfKey =
  Cf :: byte
  CfKey_Key :: bytes

fun batchLoop :: "CfKey list \<Rightarrow> MemTable \<Rightarrow> MemTable result" where
  "batchLoop [] mt = Inr mt"
| "batchLoop (e # es) mt =
     (let cf = unat (Cf e)
      in if cf \<ge> numCf mt then batchLoop es mt
         else (case appendRecLocked cf False (CfKey_Key e) [] mt of
                 Inl err \<Rightarrow> Inl err
               | Inr mt' \<Rightarrow> batchLoop es mt'))"

definition Batch :: "CfKey list \<Rightarrow> MemTable \<Rightarrow> (MemTable \<times> uint64) result" where
  "Batch entries mt = sized (batchLoop entries mt)"

definition EnsureMaterialized :: "nat \<Rightarrow> MemTable \<Rightarrow> MemTable result" where
  "EnsureMaterialized cf mt =
     (if cf \<ge> length (buf mt) then Inl indexPanic
      else Inr (maybeMergeLocked cf (materializeLocked cf mt)))"

definition MaybeCapBuf :: "nat \<Rightarrow> MemTable \<Rightarrow> MemTable result" where
  "MaybeCapBuf cf mt =
     (if cf \<ge> length (buf mt) then Inl indexPanic
      else if length (buf mt ! cf) \<ge> MaxBufEntries
      then Inr (maybeMergeLocked cf (materializeLocked cf mt)) else Inr mt)"

definition MaterializeAll :: "MemTable \<Rightarrow> MemTable" where
  "MaterializeAll mt = fold (\<lambda>cf m. maybeMergeLocked cf (materializeLocked cf m)) [0..<numCf mt] mt"

section \<open>Snapshots and the flush protocol\<close>

definition SnapshotRuns :: "nat \<Rightarrow> MemTable \<Rightarrow> (MemTable \<times> Run list) result" where
  "SnapshotRuns cf mt =
     (if cf \<ge> length (buf mt) then Inl indexPanic
      else let mt' = maybeMergeLocked cf (materializeLocked cf mt)
           in Inr (mt', draining mt' ! cf @ runs mt' ! cf))"

definition freezeCf :: "nat \<Rightarrow> MemTable \<Rightarrow> MemTable" where
  "freezeCf cf mt =
     mt\<lparr>draining := (draining mt)[cf := runs mt ! cf], runs := (runs mt)[cf := []],
        buf := (buf mt)[cf := []], cfSize := (cfSize mt)[cf := 0]\<rparr>"

definition FreezeAllCapture :: "MemTable \<Rightarrow> MemTable \<times> Run list list" where
  "FreezeAllCapture mt =
     (let mt1 = MaterializeAll mt;
          mt2 = fold freezeCf [0..<numCf mt1] mt1
      in (mt2\<lparr>gen := gen mt2 + 1\<rparr>, map (\<lambda>cf. draining mt2 ! cf) [0..<numCf mt2]))"

definition Publish :: "MemTable \<Rightarrow> MemTable" where
  "Publish mt =
     (let mt1 = fold (\<lambda>cf m. m\<lparr>draining := (draining m)[cf := []]\<rparr>) [0..<numCf mt] mt
      in mt1\<lparr>gen := gen mt1 + 1\<rparr>)"

definition Clear :: "MemTable \<Rightarrow> MemTable" where
  "Clear mt =
     (let mt1 = fold (\<lambda>cf m. m\<lparr>runs := (runs m)[cf := []], draining := (draining m)[cf := []],
                               buf := (buf m)[cf := []], cfSize := (cfSize m)[cf := 0]\<rparr>)
                  [0..<numCf mt] mt
      in mt1\<lparr>gen := gen mt1 + 1\<rparr>)"

section \<open>Point lookups\<close>

definition findBufLocked :: "nat \<Rightarrow> bytes \<Rightarrow> MemTable \<Rightarrow> bytes option" where
  "findBufLocked cf key mt = find (\<lambda>p. CmpKeys (recKey p) key = 0) (rev (buf mt ! cf))"

definition findRun :: "Run \<Rightarrow> bytes \<Rightarrow> bytes option" where
  "findRun r key =
     (let lo = bsearch (\<lambda>mid. CmpKeys (recKey (Records r ! mid)) key < 0) 0 (length (Records r))
      in if lo < length (Records r) \<and> CmpKeys (recKey (Records r ! lo)) key = 0
         then Some (Records r ! lo) else None)"

text \<open>\<open>for i := len(rs) - 1; i >= 0; i-- { if p := findRun(rs[i], key); p != nil \<dots> }\<close>\<close>

fun findRuns :: "(bytes \<Rightarrow> bool) \<Rightarrow> Run list \<Rightarrow> bytes \<Rightarrow> bytes option" where
  "findRuns P [] key = None"
| "findRuns P (r # rs) key =
     (case findRun r key of
        Some p \<Rightarrow> if P p then Some p else findRuns P rs key
      | None \<Rightarrow> findRuns P rs key)"

definition lookupState :: "bytes \<Rightarrow> KvLookup" where
  "lookupState p = (if recDeleted p then KvDeleted else KvValue)"

definition lookupKvLocked :: "nat \<Rightarrow> bytes \<Rightarrow> MemTable \<Rightarrow> KvLookup" where
  "lookupKvLocked cf key mt =
     (case findBufLocked cf key mt of
        Some b \<Rightarrow> lookupState b
      | None \<Rightarrow> (case findRuns (\<lambda>_. True) (rev (runs mt ! cf)) key of
          Some p \<Rightarrow> lookupState p
        | None \<Rightarrow> (case findRuns (\<lambda>_. True) (rev (draining mt ! cf)) key of
            Some p \<Rightarrow> lookupState p
          | None \<Rightarrow> KvAbsent)))"

definition LookupKv :: "nat \<Rightarrow> bytes \<Rightarrow> MemTable \<Rightarrow> KvLookup result" where
  "LookupKv cf key mt =
     (if cf \<ge> length (buf mt) then Inl indexPanic else Inr (lookupKvLocked cf key mt))"

definition GetValue :: "nat \<Rightarrow> bytes \<Rightarrow> MemTable \<Rightarrow> bytes option result" where
  "GetValue cf key mt =
     (if cf \<ge> length (buf mt) then Inl indexPanic
      else if lookupKvLocked cf key mt \<noteq> KvValue then Inr None
      else
        let live = (\<lambda>p. \<not> recDeleted p);
            older = (case findRuns live (rev (runs mt ! cf)) key of
                       Some p \<Rightarrow> Some p
                     | None \<Rightarrow> findRuns live (rev (draining mt ! cf)) key)
        in (case (case findBufLocked cf key mt of
                    Some b \<Rightarrow> if live b then Some b else older
                  | None \<Rightarrow> older) of
              Some p \<Rightarrow> rbind (recValue p) (\<lambda>v. Inr (Some v))
            | None \<Rightarrow> Inr None))"

definition ContainsAny :: "nat \<Rightarrow> bytes \<Rightarrow> MemTable \<Rightarrow> bool result" where
  "ContainsAny cf key mt =
     (case LookupKv cf key mt of Inl e \<Rightarrow> Inl e | Inr l \<Rightarrow> Inr (l \<noteq> KvAbsent))"

section \<open>Draining\<close>

text \<open>
  One round of the k-way merge: the head with the smallest key, the newest run on a tie.
\<close>

fun pickBest :: "Run list \<Rightarrow> nat list \<Rightarrow> nat list \<Rightarrow> nat option \<Rightarrow> nat option" where
  "pickBest rs heads [] best = best"
| "pickBest rs heads (i # is) best =
     (if heads ! i \<ge> length (Records (rs ! i)) then pickBest rs heads is best
      else (case best of
          None \<Rightarrow> pickBest rs heads is (Some i)
        | Some b \<Rightarrow>
            let c = CmpRec (Records (rs ! i) ! (heads ! i)) (Records (rs ! b) ! (heads ! b))
            in if c < 0 \<or> c = 0 \<and> i > b then pickBest rs heads is (Some i)
               else pickBest rs heads is best))"

text \<open>\<open>for heads[i] < len(records) && CmpRec(records[heads[i]], win) == 0 { heads[i]++ }\<close>\<close>

definition skipEqual :: "bytes \<Rightarrow> Run \<Rightarrow> nat \<Rightarrow> nat" where
  "skipEqual win r h = h + length (takeWhile (\<lambda>p. CmpRec p win = 0) (drop h (Records r)))"

lemma pickBest_Some:
  assumes "pickBest rs heads is best = Some b"
    "\<forall>a. best = Some a \<longrightarrow> heads ! a < length (Records (rs ! a)) \<and> a < n" "\<forall>i \<in> set is. i < n"
  shows "b < n \<and> heads ! b < length (Records (rs ! b))"
  using assms
  by (induction rs heads "is" best rule: pickBest.induct)
    (auto simp: Let_def not_le split: if_splits option.splits)

text \<open>
  The loop shared by \<open>DrainSorted\<close> and \<open>DrainKvSorted\<close>: the winning records in output order. The
  scheduler yields of the source have no effect on the result and are left out.
\<close>

function drainLoop :: "Run list \<Rightarrow> nat list \<Rightarrow> bytes list" where
  "drainLoop rs heads =
     (case pickBest rs heads [0..<length rs] None of
        None \<Rightarrow> []
      | Some best \<Rightarrow>
          let win = Records (rs ! best) ! (heads ! best);
              heads' = map (\<lambda>i. if i = best then heads ! i + 1
                                else skipEqual win (rs ! i) (heads ! i)) [0..<length rs]
          in win # drainLoop rs heads')"
  by pat_completeness auto
termination
proof (relation "measure (\<lambda>(rs, heads). \<Sum>i < length rs. length (Records (rs ! i)) - heads ! i)")
  fix rs heads best win heads'
  assume b: "pickBest rs heads [0..<length rs] None = Some best"
    and h: "heads' = map (\<lambda>i. if i = best then heads ! i + 1
                                else skipEqual win (rs ! i) (heads ! i)) [0..<length rs]"
  have best: "best < length rs" "heads ! best < length (Records (rs ! best))"
    using pickBest_Some [OF b, of "length rs"] by auto
  have "(\<Sum>i < length rs. length (Records (rs ! i)) - heads' ! i)
      < (\<Sum>i < length rs. length (Records (rs ! i)) - heads ! i)"
  proof (rule sum_strict_mono_ex1)
    show "\<forall>i \<in> {..<length rs}. length (Records (rs ! i)) - heads' ! i \<le> length (Records (rs ! i)) - heads ! i"
      by (auto simp: h skipEqual_def)
    show "\<exists>i \<in> {..<length rs}. length (Records (rs ! i)) - heads' ! i < length (Records (rs ! i)) - heads ! i"
      using best by (intro bexI [of _ best]) (auto simp: h)
  qed simp
  then show "((rs, heads'), rs, heads) \<in> measure (\<lambda>(rs, heads). \<Sum>i < length rs. length (Records (rs ! i)) - heads ! i)"
    by simp
qed simp

declare drainLoop.simps [simp del]

definition drainWins :: "Run list \<Rightarrow> bytes list" where
  "drainWins rs = drainLoop rs (replicate (length rs) 0)"

definition DrainSorted :: "Run list \<Rightarrow> bytes list" where
  "DrainSorted rs = map recKey (drainWins rs)"

definition DrainKvSorted :: "Run list \<Rightarrow> (bytes \<times> bytes) list \<times> bytes list" where
  "DrainKvSorted rs =
     (let wins = drainWins rs
      in (map (\<lambda>p. (recKey p, recBody p)) (filter (\<lambda>p. \<not> recDeleted p) wins),
          map recKey (filter recDeleted wins)))"

section \<open>Record layout\<close>

lemma unat_len32: "n < 2 ^ 32 \<Longrightarrow> unat (word_of_nat n :: uint32) = n"
  by (simp add: unat_of_nat take_bit_eq_mod)

lemma be_nat_put_be4: "n < 2 ^ 32 \<Longrightarrow> be_nat (put_be 4 (word_of_nat n :: uint32)) = n"
  by (subst be_nat_put_be_full) (simp_all add: unat_len32)

lemma makeRec_split:
  "\<exists>tl. makeRec kv d k v = [(if d then 1 else 0) OR (if kv then 2 else 0)]
     @ put_be 4 (word_of_nat (length k) :: uint32) @ k @ tl"
  by (auto simp: makeRec_def)

lemma recKlen_makeRec:
  assumes "length k < 2 ^ 32"
  shows "recKlen (makeRec kv d k v) = length k"
proof -
  have "slice (makeRec kv d k v) 1 5 = put_be 4 (word_of_nat (length k) :: uint32)"
    using makeRec_split [of kv d k v] by (auto simp: slice_def)
  with assms show ?thesis by (simp only: recKlen_def be_nat_put_be4)
qed

lemma recKey_makeRec [simp]:
  assumes "length k < 2 ^ 32"
  shows "recKey (makeRec kv d k v) = k"
proof -
  have "slice (makeRec kv d k v) 5 (5 + length k) = k"
    using makeRec_split [of kv d k v] by (auto simp: slice_def)
  with assms show ?thesis by (simp only: recKey_def recKlen_makeRec)
qed

lemma recDeleted_makeRec [simp]: "recDeleted (makeRec kv d k v) = d"
  by (cases kv; cases d) (simp_all add: recDeleted_def makeRec_def)

lemma recValue_makeRec [simp]:
  assumes "length k < 2 ^ 32" "length v < 2 ^ 32"
  shows "recValue (makeRec True d k v) = Inr v"
proof -
  define hd where "hd = ((if d then 1 else 0) OR 2) # put_be 4 (word_of_nat (length k) :: uint32) @ k"
  have r: "makeRec True d k v = hd @ put_be 4 (word_of_nat (length v) :: uint32) @ v"
    and r': "makeRec True d k v = (hd @ put_be 4 (word_of_nat (length v) :: uint32)) @ v @ []"
    by (simp_all add: makeRec_def hd_def)
  have len: "length hd = 5 + length k" by (simp add: hd_def)
  have "slice (makeRec True d k v) (5 + length k) (5 + length k + 4)
      = put_be 4 (word_of_nat (length v) :: uint32)"
    unfolding r by (rule slice_mid) (simp_all add: len)
  moreover have long: "length (makeRec True d k v) = 9 + length k + length v" by (simp add: r len)
  ultimately have "recVlen (makeRec True d k v) = Inr (length v)"
    using assms by (simp add: recVlen_def Let_def recKlen_makeRec be_nat_put_be4)
  moreover have "slice (makeRec True d k v) (9 + length k) (9 + length k + length v) = v"
    unfolding r' by (rule slice_mid) (simp_all add: len)
  ultimately show ?thesis using assms long by (simp add: recValue_def Let_def recKlen_makeRec)
qed

lemma recBody_makeRec [simp]: "length k < 2 ^ 32 \<Longrightarrow> length v < 2 ^ 32 \<Longrightarrow> recBody (makeRec True d k v) = v"
  by (simp add: recBody_def)

lemma recValue_key_only: "length k < 2 ^ 32 \<Longrightarrow> recValue (makeRec False d k v) = Inl indexPanic"
  by (simp add: recValue_def recVlen_def Let_def recKlen_makeRec) (simp add: makeRec_def)

lemma CmpKeys_simps [cmp_simps]:
  "CmpKeys a b < 0 \<longleftrightarrow> a < b" "CmpKeys a b = 0 \<longleftrightarrow> a = b" "CmpKeys a b > 0 \<longleftrightarrow> b < a"
  by (simp_all add: CmpKeys_def cmp_simps)

lemma CmpRec_simps [cmp_simps]:
  "CmpRec p q < 0 \<longleftrightarrow> recKey p < recKey q" "CmpRec p q = 0 \<longleftrightarrow> recKey p = recKey q"
  by (simp_all add: CmpRec_def cmp_simps)

section \<open>Invariant and abstraction\<close>

definition run_ok :: "Run \<Rightarrow> bool" where
  "run_ok r = ascending (map recKey (Records r))"

definition mt_ok :: "MemTable \<Rightarrow> bool" where
  "mt_ok mt \<longleftrightarrow> length (runs mt) = numCf mt \<and> length (draining mt) = numCf mt
     \<and> length (buf mt) = numCf mt \<and> length (cfSize mt) = numCf mt
     \<and> (\<forall>cf < numCf mt. (\<forall>r \<in> set (runs mt ! cf). run_ok r) \<and> (\<forall>r \<in> set (draining mt ! cf). run_ok r))"

text \<open>The record log of a run list, and the two halves of the abstract state.\<close>

abbreviation log_of :: "Run list \<Rightarrow> bytes list" where
  "log_of rs \<equiv> concat (map Records rs)"

definition live :: "MemTable \<Rightarrow> nat \<Rightarrow> bytes \<Rightarrow> bytes option" where
  "live mt cf = (if cf < numCf mt then latest recKey (log_of (runs mt ! cf) @ buf mt ! cf) else Map.empty)"

definition frozen :: "MemTable \<Rightarrow> nat \<Rightarrow> bytes \<Rightarrow> bytes option" where
  "frozen mt cf = (if cf < numCf mt then latest recKey (log_of (draining mt ! cf)) else Map.empty)"

lemma findRun_latest:
  assumes "run_ok r"
  shows "findRun r k = latest recKey (Records r) k"
proof -
  let ?xs = "Records r" and ?P = "\<lambda>p. recKey p < k"
  have asc: "ascending (map recKey ?xs)" using assms by (simp add: run_ok_def)
  define lo where "lo = length (takeWhile ?P ?xs)"
  have eq: "findRun r k = (if lo < length ?xs \<and> recKey (?xs ! lo) = k then Some (?xs ! lo) else None)"
    unfolding findRun_def Let_def cmp_simps bsearch_less_key [OF asc] lo_def by (rule refl)
  show ?thesis
  proof (cases "latest recKey ?xs k")
    case None
    then have "k \<notin> recKey ` set ?xs" by (simp add: latest_None_iff)
    then show ?thesis using None by (auto simp: eq)
  next
    case (Some p)
    then have p: "p \<in> set ?xs" "recKey p = k" using latest_SomeD by fastforce+
    then have "p \<notin> set (takeWhile ?P ?xs)" by (auto dest: set_takeWhileD)
    then have "p \<in> set (dropWhile ?P ?xs)"
      using p(1) by (metis Un_iff set_append takeWhile_dropWhile_id)
    then have lt: "lo < length ?xs"
      unfolding lo_def by (metis append_Nil2 length_pos_if_in_set takeWhile_dropWhile_id
          length_append less_add_same_cancel1)
    then have "\<not> recKey (?xs ! lo) < k" unfolding lo_def by (metis nth_length_takeWhile)
    moreover have "recKey (?xs ! lo) \<le> recKey p"
    proof -
      obtain i where i: "i < length ?xs" "?xs ! i = p" using p(1) by (auto simp: in_set_conv_nth)
      have "lo \<le> i"
        using i p(2) unfolding lo_def
        by (metis (mono_tags, lifting) leI less_irrefl nth_mem set_takeWhileD takeWhile_nth)
      then show ?thesis using ascending_key_mono [OF asc] i by auto
    qed
    ultimately have "recKey (?xs ! lo) = k" using p(2) by simp
    then show ?thesis
      using eq lt latest_ascending [OF asc nth_mem [OF lt]] by simp
  qed
qed

lemma findRuns_latest:
  "\<forall>r \<in> set rs. run_ok r \<Longrightarrow> findRuns (\<lambda>_. True) (rev rs) k = latest recKey (log_of rs) k"
  by (induction rs rule: rev_induct) (auto simp: latest_append findRun_latest split: option.splits)

lemma findRuns_filter:
  "findRuns (\<lambda>_. True) rs k = Some p \<Longrightarrow> P p \<Longrightarrow> findRuns P rs k = Some p"
  "findRuns (\<lambda>_. True) rs k = None \<Longrightarrow> findRuns P rs k = None"
  by (induction rs) (auto split: option.splits)

lemma findBufLocked_latest: "findBufLocked cf k mt = latest recKey (buf mt ! cf) k"
  by (simp add: findBufLocked_def latest_def cmp_simps)

text \<open>The newest record of a key in the whole ladder.\<close>

definition mt_find :: "MemTable \<Rightarrow> nat \<Rightarrow> bytes \<Rightarrow> bytes option" where
  "mt_find mt cf k = (case live mt cf k of Some p \<Rightarrow> Some p | None \<Rightarrow> frozen mt cf k)"

lemma mt_find_cases:
  assumes "mt_ok mt" "cf < numCf mt"
  shows "mt_find mt cf k =
    (case latest recKey (buf mt ! cf) k of Some b \<Rightarrow> Some b
     | None \<Rightarrow> (case findRuns (\<lambda>_. True) (rev (runs mt ! cf)) k of Some p \<Rightarrow> Some p
         | None \<Rightarrow> findRuns (\<lambda>_. True) (rev (draining mt ! cf)) k))"
  using assms
  by (auto simp: mt_find_def live_def frozen_def latest_append findRuns_latest mt_ok_def
      split: option.splits)

lemma lookupKvLocked_find:
  assumes "mt_ok mt" "cf < numCf mt"
  shows "lookupKvLocked cf k mt = (case mt_find mt cf k of None \<Rightarrow> KvAbsent | Some p \<Rightarrow> lookupState p)"
  by (auto simp: lookupKvLocked_def mt_find_cases [OF assms] findBufLocked_latest split: option.splits)

lemma GetValue_find:
  assumes "mt_ok mt" "cf < numCf mt"
  shows "GetValue cf k mt =
    (case mt_find mt cf k of
       Some p \<Rightarrow> if recDeleted p then Inr None else rbind (recValue p) (\<lambda>v. Inr (Some v))
     | None \<Rightarrow> Inr None)"
proof -
  have len: "\<not> cf \<ge> length (buf mt)" using assms by (simp add: mt_ok_def)
  show ?thesis
    unfolding GetValue_def if_not_P [OF len] lookupKvLocked_find [OF assms] Let_def
    using findRuns_filter [where P = "\<lambda>p. \<not> recDeleted p" and k = k]
    by (auto simp: mt_find_cases [OF assms] findBufLocked_latest lookupState_def split: option.splits)
qed

section \<open>Reorganisations keep the abstract state\<close>

lemma materialized_records:
  "keepLast recKey (map ((!) b) (sort_key (\<lambda>i. (recKey (b ! i), i)) [0..<length b])) = newest recKey b"
  by (simp only: newest_def sort_by_index [where h = "\<lambda>i. i"])

lemma origin_sorted:
  "sorted (concat (map (\<lambda>(ri, r). map (\<lambda>_. ri) (Records r)) (enumerate n rs)))"
  "\<forall>x \<in> set (concat (map (\<lambda>(ri, r). map (\<lambda>_. ri) (Records r)) (enumerate n rs))). n \<le> x"
  "length (concat (map (\<lambda>(ri, r). map (\<lambda>_. ri) (Records r)) (enumerate n rs))) = length (log_of rs)"
proof (induction rs arbitrary: n)
  case Nil
  {
    case 1
    show ?case by simp
  next
    case 2
    show ?case by simp
  next
    case 3
    show ?case by simp
  }
next
  case (Cons r rs)
  {
    case 1
    have "n \<le> x" if "x \<in> set (concat (map (\<lambda>(ri, r). map (\<lambda>_. ri) (Records r)) (enumerate (Suc n) rs)))" for x
      using Cons(2) [of "Suc n"] that by (meson Suc_leD)
    then show ?case using Cons(1) [of "Suc n"]
      by (simp add: sorted_append map_replicate_const del: set_concat)
  next
    case 2
    have "n \<le> x" if "x \<in> set (concat (map (\<lambda>(ri, r). map (\<lambda>_. ri) (Records r)) (enumerate (Suc n) rs)))" for x
      using Cons(2) [of "Suc n"] that by (meson Suc_leD)
    then show ?case by (simp add: ball_Un del: set_concat)
  next
    case 3
    show ?case using Cons(3) [of "Suc n"] by simp
  }
qed

lemma merged_records:
  fixes rs :: "Run list"
  defines "merged \<equiv> log_of rs"
    and "origin \<equiv> concat (map (\<lambda>(ri, r). map (\<lambda>_. ri) (Records r)) (enumerate 0 rs))"
  shows "keepLast recKey (map ((!) merged)
      (sort_key (\<lambda>i. (recKey (merged ! i), origin ! i)) [0..<length merged])) = newest recKey merged"
proof -
  have "origin ! i \<le> origin ! j" if "i \<le> j" "j < length merged" for i j
    using origin_sorted(1,3) [of 0 rs] that unfolding origin_def merged_def
    by (simp only: sorted_iff_nth_mono)
  then show ?thesis by (simp only: newest_def sort_by_index [where h = "(!) origin"])
qed

lemma run_ok_newest [simp]: "run_ok \<lparr>Records = newest recKey xs, KV = b\<rparr>"
  by (simp add: run_ok_def)

lemma materializeLocked_eq:
  "materializeLocked cf mt =
     (if buf mt ! cf = [] then mt
      else mt\<lparr>runs := (runs mt)[cf := runs mt ! cf @ [\<lparr>Records = newest recKey (buf mt ! cf), KV = cf \<ge> 10\<rparr>]],
              buf := (buf mt)[cf := []],
              cfSize := (cfSize mt)[cf := cfSize mt ! cf - (int (sum_list (map recKlen (buf mt ! cf)))
                 - int (sum_list (map recKlen (newest recKey (buf mt ! cf)))))],
              gen := gen mt + 1\<rparr>)"
  by (simp only: materializeLocked_def Let_def materialized_records)

lemma maybeMergeLocked_eq:
  "maybeMergeLocked cf mt =
     (if length (runs mt ! cf) \<le> MaxActiveRuns then mt
      else mt\<lparr>runs := (runs mt)[cf := [\<lparr>Records = newest recKey (log_of (runs mt ! cf)), KV = cf \<ge> 10\<rparr>]],
              gen := gen mt + 1\<rparr>)"
  by (simp only: maybeMergeLocked_def Let_def merged_records)

text \<open>Equal abstract states; \<open>cfs_of\<close> records that no operation changes the family count.\<close>

definition same_abs :: "MemTable \<Rightarrow> MemTable \<Rightarrow> bool" where
  "same_abs mt mt' \<longleftrightarrow> live mt' = live mt \<and> frozen mt' = frozen mt \<and> numCf mt' = numCf mt"

lemma same_abs_trans: "same_abs a b \<Longrightarrow> same_abs b c \<Longrightarrow> same_abs a c"
  by (simp add: same_abs_def)

lemma live_eqI:
  assumes "numCf mt' = numCf mt"
    "\<And>cf k. cf < numCf mt \<Longrightarrow> latest recKey (log_of (runs mt' ! cf) @ buf mt' ! cf) k
        = latest recKey (log_of (runs mt ! cf) @ buf mt ! cf) k"
  shows "live mt' = live mt"
  using assms by (auto simp: live_def fun_eq_iff)

lemma materializeLocked_ok:
  assumes "mt_ok mt"
  shows "mt_ok (materializeLocked cf mt) \<and> same_abs mt (materializeLocked cf mt)"
proof -
  have "live (materializeLocked cf mt) = live mt"
    using assms
    by (intro live_eqI) (auto simp: materializeLocked_eq mt_ok_def nth_list_update_if latest_append
        split: option.splits)
  moreover have "mt_ok (materializeLocked cf mt)"
    using assms by (auto simp: materializeLocked_eq mt_ok_def nth_list_update_if)
  ultimately show ?thesis
    by (auto simp: same_abs_def frozen_def materializeLocked_eq fun_eq_iff)
qed

lemma maybeMergeLocked_ok:
  assumes "mt_ok mt"
  shows "mt_ok (maybeMergeLocked cf mt) \<and> same_abs mt (maybeMergeLocked cf mt)"
proof -
  have "live (maybeMergeLocked cf mt) = live mt"
    using assms
    by (intro live_eqI) (auto simp: maybeMergeLocked_eq mt_ok_def nth_list_update_if latest_append
        split: option.splits)
  moreover have "mt_ok (maybeMergeLocked cf mt)"
    using assms by (auto simp: maybeMergeLocked_eq mt_ok_def nth_list_update_if)
  ultimately show ?thesis
    by (auto simp: same_abs_def frozen_def maybeMergeLocked_eq fun_eq_iff)
qed

lemma reorganise_ok:
  assumes "mt_ok mt"
  shows "mt_ok (maybeMergeLocked cf (materializeLocked cf mt))"
    "same_abs mt (maybeMergeLocked cf (materializeLocked cf mt))"
  using materializeLocked_ok [OF assms, of cf] maybeMergeLocked_ok same_abs_trans by blast+

lemma appendRecLocked_ok:
  assumes ok: "mt_ok mt" and app: "appendRecLocked cf d k v mt = Inr mt'" and k: "length k < 2 ^ 32"
  shows "cf < numCf mt \<and> mt_ok mt' \<and> numCf mt' = numCf mt \<and> frozen mt' = frozen mt
    \<and> live mt' = (live mt)(cf := (live mt cf)(k \<mapsto> makeRec (cf \<ge> 10) d k v))"
proof -
  let ?p = "makeRec (cf \<ge> 10) d k v"
  define mt1 where "mt1 = mt\<lparr>buf := (buf mt)[cf := buf mt ! cf @ [?p]],
      cfSize := (cfSize mt)[cf := cfSize mt ! cf + int (length k)]\<rparr>"
  have cf: "cf < numCf mt" using app ok by (auto simp: appendRecLocked_def mt_ok_def split: if_splits)
  have ok1: "mt_ok mt1" using ok by (auto simp: mt1_def mt_ok_def)
  have n1: "numCf mt1 = numCf mt" and f1: "frozen mt1 = frozen mt"
    by (simp_all add: mt1_def frozen_def fun_eq_iff)
  have l1: "live mt1 = (live mt)(cf := (live mt cf)(k \<mapsto> ?p))"
    using cf k ok
    by (auto simp: fun_eq_iff live_def mt1_def mt_ok_def nth_list_update_if latest_snoc
        simp flip: append_assoc)
  have "mt' = mt1 \<or> mt' = maybeMergeLocked cf (materializeLocked cf mt1)"
    using app by (auto simp: appendRecLocked_def mt1_def Let_def split: if_splits)
  then show ?thesis
    using cf ok1 n1 f1 l1 reorganise_ok [OF ok1, of cf] by (auto simp: same_abs_def)
qed

lemma fold_reorganise_ok:
  "mt_ok mt \<Longrightarrow> mt_ok (fold (\<lambda>cf m. maybeMergeLocked cf (materializeLocked cf m)) cfs mt)
     \<and> same_abs mt (fold (\<lambda>cf m. maybeMergeLocked cf (materializeLocked cf m)) cfs mt)"
proof (induction cfs arbitrary: mt)
  case Nil
  then show ?case by (simp add: same_abs_def)
next
  case (Cons cf cfs)
  then show ?case using reorganise_ok [OF Cons.prems, of cf] same_abs_trans by fastforce
qed

section \<open>The operations as transitions\<close>

text \<open>
  Every exported state-changing operation, and what it does to the abstract state: a pair of maps
  per column family, the live records and the frozen (draining) ones.
\<close>

datatype mt_op =
    OpPut nat bytes | OpPutKv nat bytes bytes | OpDeleteKv nat bytes | OpBatch "CfKey list"
  | OpEnsure nat | OpCap nat | OpMaterializeAll | OpSnapshot nat
  | OpFreeze | OpPublish | OpClear

definition on_state :: "('a \<times> 'b) result \<Rightarrow> 'a result" where
  "on_state r = (case r of Inl e \<Rightarrow> Inl e | Inr (s, _) \<Rightarrow> Inr s)"

fun mt_exec :: "mt_op \<Rightarrow> MemTable \<Rightarrow> MemTable result" where
  "mt_exec (OpPut cf k) mt = on_state (Put cf k mt)"
| "mt_exec (OpPutKv cf k v) mt = on_state (PutKv cf k v mt)"
| "mt_exec (OpDeleteKv cf k) mt = DeleteKv cf k mt"
| "mt_exec (OpBatch es) mt = on_state (Batch es mt)"
| "mt_exec (OpEnsure cf) mt = EnsureMaterialized cf mt"
| "mt_exec (OpCap cf) mt = MaybeCapBuf cf mt"
| "mt_exec OpMaterializeAll mt = Inr (MaterializeAll mt)"
| "mt_exec (OpSnapshot cf) mt = on_state (SnapshotRuns cf mt)"
| "mt_exec OpFreeze mt = Inr (fst (FreezeAllCapture mt))"
| "mt_exec OpPublish mt = Inr (Publish mt)"
| "mt_exec OpClear mt = Inr (Clear mt)"

type_synonym layer = "nat \<Rightarrow> bytes \<Rightarrow> bytes option"

definition set_rec :: "nat \<Rightarrow> bool \<Rightarrow> bytes \<Rightarrow> bytes \<Rightarrow> layer \<Rightarrow> layer" where
  "set_rec cf d k v m = m(cf := (m cf)(k \<mapsto> makeRec (cf \<ge> 10) d k v))"

fun mt_spec :: "nat \<Rightarrow> mt_op \<Rightarrow> layer \<times> layer \<Rightarrow> layer \<times> layer" where
  "mt_spec n (OpPut cf k) (l, f) = (set_rec cf False k [] l, f)"
| "mt_spec n (OpPutKv cf k v) (l, f) = (set_rec cf False k v l, f)"
| "mt_spec n (OpDeleteKv cf k) (l, f) = (set_rec cf True k [] l, f)"
| "mt_spec n (OpBatch es) (l, f) =
     (fold (\<lambda>e m. if unat (Cf e) < n then set_rec (unat (Cf e)) False (CfKey_Key e) [] m else m) es l, f)"
| "mt_spec n OpFreeze (l, f) = (\<lambda>_. Map.empty, l)"
| "mt_spec n OpPublish (l, f) = (l, \<lambda>_. Map.empty)"
| "mt_spec n OpClear (l, f) = (\<lambda>_. Map.empty, \<lambda>_. Map.empty)"
| "mt_spec n _ s = s"

fun op_keys_ok :: "mt_op \<Rightarrow> bool" where
  "op_keys_ok (OpPut cf k) = (length k < 2 ^ 32)"
| "op_keys_ok (OpPutKv cf k v) = (length k < 2 ^ 32 \<and> length v < 2 ^ 32)"
| "op_keys_ok (OpDeleteKv cf k) = (length k < 2 ^ 32)"
| "op_keys_ok (OpBatch es) = (\<forall>e \<in> set es. length (CfKey_Key e) < 2 ^ 32)"
| "op_keys_ok _ = True"

lemma sized_Inr: "on_state (sized r) = r"
  by (simp add: on_state_def sized_def split: sum.split)

lemma on_state_SnapshotRuns: "on_state (SnapshotRuns cf mt) = EnsureMaterialized cf mt"
  by (simp add: on_state_def SnapshotRuns_def EnsureMaterialized_def Let_def)

lemma batchLoop_ok:
  assumes "mt_ok mt" "batchLoop es mt = Inr mt'" "\<forall>e \<in> set es. length (CfKey_Key e) < 2 ^ 32"
  shows "mt_ok mt' \<and> numCf mt' = numCf mt \<and> frozen mt' = frozen mt
    \<and> live mt' = fold (\<lambda>e m. if unat (Cf e) < numCf mt
        then set_rec (unat (Cf e)) False (CfKey_Key e) [] m else m) es (live mt)"
  using assms
proof (induction es mt rule: batchLoop.induct)
  case (2 e es mt)
  show ?case
  proof (cases "unat (Cf e) \<ge> numCf mt")
    case True
    then show ?thesis using "2.IH"(1) [OF refl True] "2.prems" by (simp add: Let_def)
  next
    case False
    then obtain mt1 where mt1: "appendRecLocked (unat (Cf e)) False (CfKey_Key e) [] mt = Inr mt1"
      "batchLoop es mt1 = Inr mt'"
      using "2.prems"(2) by (auto simp: Let_def split: sum.splits)
    have a: "mt_ok mt1 \<and> numCf mt1 = numCf mt \<and> frozen mt1 = frozen mt
      \<and> live mt1 = set_rec (unat (Cf e)) False (CfKey_Key e) [] (live mt)"
      using appendRecLocked_ok [OF "2.prems"(1) mt1(1)] "2.prems"(3) by (simp add: set_rec_def)
    then show ?thesis
      using "2.IH"(2) [OF refl False mt1(1)] mt1(2) "2.prems"(3) False by auto
  qed
qed auto

lemma fold_preserve:
  "(\<And>i s. g (h i s) = g s) \<Longrightarrow> g (fold h is s) = g s"
  by (induction "is" arbitrary: s) auto

text \<open>A loop over all families that stores a value depending only on the family's own cell.\<close>

lemma fold_update_nth:
  assumes "distinct is" "cf < length (g s)"
    "\<And>i s. g (h i s) = (g s)[i := c i s]" "\<And>i j s. i \<noteq> j \<Longrightarrow> c j (h i s) = c j s"
  shows "g (fold h is s) ! cf = (if cf \<in> set is then c cf s else g s ! cf)"
  using assms(1,2)
proof (induction "is" arbitrary: s)
  case (Cons i "is")
  then show ?case by (cases "i = cf") (auto simp: assms(3,4) nth_list_update_if)
qed simp

lemma freeze_fold:
  fixes n :: nat
  assumes "mt_ok mt"
  defines "mt' \<equiv> fold freezeCf [0..<n] mt"
  shows "numCf mt' = numCf mt" "length (runs mt') = numCf mt" "length (draining mt') = numCf mt"
    "length (buf mt') = numCf mt" "length (cfSize mt') = numCf mt"
    "cf < numCf mt \<Longrightarrow> cf < n \<Longrightarrow> runs mt' ! cf = [] \<and> buf mt' ! cf = [] \<and> cfSize mt' ! cf = 0
       \<and> draining mt' ! cf = runs mt ! cf"
proof -
  show "numCf mt' = numCf mt"
    unfolding mt'_def by (rule fold_preserve) (simp add: freezeCf_def)
  have len: "length (runs mt) = numCf mt" "length (draining mt) = numCf mt" "length (buf mt) = numCf mt"
    "length (cfSize mt) = numCf mt" using assms by (auto simp: mt_ok_def)
  have "length (runs mt') = length (runs mt)" "length (draining mt') = length (draining mt)"
    "length (buf mt') = length (buf mt)" "length (cfSize mt') = length (cfSize mt)"
    unfolding mt'_def
    by (rule fold_preserve [where g = "\<lambda>m. length (runs m)"], simp add: freezeCf_def)
      (rule fold_preserve [where g = "\<lambda>m. length (draining m)"], simp add: freezeCf_def,
       rule fold_preserve [where g = "\<lambda>m. length (buf m)"], simp add: freezeCf_def,
       rule fold_preserve [where g = "\<lambda>m. length (cfSize m)"], simp add: freezeCf_def)
  then show "length (runs mt') = numCf mt" "length (draining mt') = numCf mt"
    "length (buf mt') = numCf mt" "length (cfSize mt') = numCf mt" by (simp_all add: len)
  assume cf: "cf < numCf mt" "cf < n"
  have "runs mt' ! cf = []"
    unfolding mt'_def using fold_update_nth [of "[0..<n]" cf runs mt freezeCf "\<lambda>_ _. []"] cf len
    by (simp add: freezeCf_def)
  moreover have "buf mt' ! cf = []"
    unfolding mt'_def using fold_update_nth [of "[0..<n]" cf buf mt freezeCf "\<lambda>_ _. []"] cf len
    by (simp add: freezeCf_def)
  moreover have "cfSize mt' ! cf = 0"
    unfolding mt'_def using fold_update_nth [of "[0..<n]" cf cfSize mt freezeCf "\<lambda>_ _. 0"] cf len
    by (simp add: freezeCf_def)
  moreover have "draining mt' ! cf = runs mt ! cf"
    unfolding mt'_def
    using fold_update_nth [of "[0..<n]" cf draining mt freezeCf "\<lambda>i m. runs m ! i"] cf len
    by (simp add: freezeCf_def)
  ultimately show "runs mt' ! cf = [] \<and> buf mt' ! cf = [] \<and> cfSize mt' ! cf = 0
       \<and> draining mt' ! cf = runs mt ! cf" by simp
qed

lemma buf_reorganise: "buf (maybeMergeLocked cf (materializeLocked cf mt)) = (buf mt)[cf := []]"
proof -
  have "buf mt = (buf mt)[cf := []]" if "buf mt ! cf = []"
    using that by (cases "cf < length (buf mt)") (metis list_update_id, simp add: list_update_beyond)
  then show ?thesis by (auto simp: maybeMergeLocked_eq materializeLocked_eq)
qed

lemma MaterializeAll_ok:
  assumes "mt_ok mt"
  shows "mt_ok (MaterializeAll mt)" "same_abs mt (MaterializeAll mt)"
    "cf < numCf mt \<Longrightarrow> buf (MaterializeAll mt) ! cf = []"
proof -
  show "mt_ok (MaterializeAll mt)" "same_abs mt (MaterializeAll mt)"
    using fold_reorganise_ok [OF assms] by (simp_all add: MaterializeAll_def)
  show "buf (MaterializeAll mt) ! cf = []" if "cf < numCf mt"
    using fold_update_nth [of "[0..<numCf mt]" cf buf mt
        "\<lambda>cf m. maybeMergeLocked cf (materializeLocked cf m)" "\<lambda>_ _. []"] that assms
    by (simp add: MaterializeAll_def buf_reorganise mt_ok_def)
qed

lemma FreezeAllCapture_ok:
  assumes "mt_ok mt" "FreezeAllCapture mt = (mt', captured)"
  shows "mt_ok mt'" "numCf mt' = numCf mt" "live mt' = (\<lambda>_. Map.empty)" "frozen mt' = live mt"
    "captured = draining mt'" "\<forall>cf < numCf mt. \<forall>r \<in> set (captured ! cf). run_ok r"
proof -
  define m1 where "m1 = MaterializeAll mt"
  define m2 where "m2 = fold freezeCf [0..<numCf m1] m1"
  have m1: "mt_ok m1" "live m1 = live mt" "numCf m1 = numCf mt"
    using MaterializeAll_ok(1,2) [OF assms(1)] by (simp_all add: m1_def same_abs_def)
  have b1: "buf m1 ! cf = []" if "cf < numCf m1" for cf
    using MaterializeAll_ok(3) [OF assms(1)] that m1(3) by (simp add: m1_def)
  note fr = freeze_fold [OF m1(1), where n = "numCf m1", folded m2_def]
  have mt': "mt' = m2\<lparr>gen := gen m2 + 1\<rparr>" and cap: "captured = map ((!) (draining m2)) [0..<numCf m2]"
    using assms(2) by (auto simp: FreezeAllCapture_def Let_def m1_def m2_def)
  show n: "numCf mt' = numCf mt" by (simp add: mt' fr m1)
  have cell: "runs m2 ! cf = [] \<and> buf m2 ! cf = [] \<and> draining m2 ! cf = runs m1 ! cf"
    if "cf < numCf m1" for cf
    using fr(6) [OF that that] by simp
  show "mt_ok mt'" using m1(1) fr(1-5) cell by (simp add: mt_ok_def mt')
  show "live mt' = (\<lambda>_. Map.empty)" using fr(1) cell by (auto simp: live_def mt' fun_eq_iff)
  show "frozen mt' = live mt"
    unfolding m1(2) [symmetric] using fr(1) cell b1 by (auto simp: live_def frozen_def mt' fun_eq_iff)
  show "captured = draining mt'" using fr(1,3) map_nth [of "draining m2"] by (simp add: cap mt')
  then show "\<forall>cf < numCf mt. \<forall>r \<in> set (captured ! cf). run_ok r"
    using m1(1,3) cell by (simp add: mt' mt_ok_def)
qed

lemma Publish_ok:
  assumes "mt_ok mt"
  shows "mt_ok (Publish mt)" "numCf (Publish mt) = numCf mt" "live (Publish mt) = live mt"
    "frozen (Publish mt) = (\<lambda>_. Map.empty)"
proof -
  let ?h = "\<lambda>cf (m :: MemTable). m\<lparr>draining := (draining m)[cf := []]\<rparr>"
  define m where "m = fold ?h [0..<numCf mt] mt"
  have p: "Publish mt = m\<lparr>gen := gen m + 1\<rparr>" by (simp add: Publish_def m_def Let_def)
  have k: "numCf m = numCf mt" "runs m = runs mt" "buf m = buf mt" "cfSize m = cfSize mt"
    "length (draining m) = length (draining mt)"
    unfolding m_def
    by (rule fold_preserve, simp)+
  have d: "draining m ! cf = []" if "cf < numCf mt" for cf
    unfolding m_def
    using fold_update_nth [of "[0..<numCf mt]" cf draining mt ?h "\<lambda>_ _. []"] that assms
    by (simp add: mt_ok_def)
  show "mt_ok (Publish mt)" using assms k d by (simp add: p mt_ok_def)
  show "numCf (Publish mt) = numCf mt" "live (Publish mt) = live mt"
    using k by (simp_all add: p live_def fun_eq_iff)
  show "frozen (Publish mt) = (\<lambda>_. Map.empty)" using k d by (auto simp: p frozen_def fun_eq_iff)
qed

lemma Clear_ok:
  assumes "mt_ok mt"
  shows "mt_ok (Clear mt)" "numCf (Clear mt) = numCf mt" "live (Clear mt) = (\<lambda>_. Map.empty)"
    "frozen (Clear mt) = (\<lambda>_. Map.empty)"
proof -
  let ?h = "\<lambda>cf (m :: MemTable). m\<lparr>runs := (runs m)[cf := []], draining := (draining m)[cf := []],
                               buf := (buf m)[cf := []], cfSize := (cfSize m)[cf := 0]\<rparr>"
  define m where "m = fold ?h [0..<numCf mt] mt"
  have p: "Clear mt = m\<lparr>gen := gen m + 1\<rparr>" by (simp add: Clear_def m_def Let_def)
  have n: "numCf m = numCf mt" unfolding m_def by (rule fold_preserve) simp
  have len: "length (runs m) = length (runs mt)" "length (draining m) = length (draining mt)"
    "length (buf m) = length (buf mt)" "length (cfSize m) = length (cfSize mt)"
    unfolding m_def
    by (rule fold_preserve [where g = "\<lambda>m. length (runs m)"], simp)
      (rule fold_preserve [where g = "\<lambda>m. length (draining m)"], simp,
       rule fold_preserve [where g = "\<lambda>m. length (buf m)"], simp,
       rule fold_preserve [where g = "\<lambda>m. length (cfSize m)"], simp)
  have d: "runs m ! cf = [] \<and> draining m ! cf = [] \<and> buf m ! cf = []" if "cf < numCf mt" for cf
    unfolding m_def
    using fold_update_nth [of "[0..<numCf mt]" cf draining mt ?h "\<lambda>_ _. []"]
      fold_update_nth [of "[0..<numCf mt]" cf runs mt ?h "\<lambda>_ _. []"]
      fold_update_nth [of "[0..<numCf mt]" cf buf mt ?h "\<lambda>_ _. []"] that assms
    by (simp add: mt_ok_def)
  show "mt_ok (Clear mt)" using assms n len d by (simp add: p mt_ok_def)
  show "numCf (Clear mt) = numCf mt" using n by (simp add: p)
  show "live (Clear mt) = (\<lambda>_. Map.empty)" "frozen (Clear mt) = (\<lambda>_. Map.empty)"
    using n d by (auto simp: p live_def frozen_def fun_eq_iff)
qed

text \<open>Every operation implements its abstract counterpart.\<close>

lemma mt_exec_spec:
  assumes ok: "mt_ok mt" and ex: "mt_exec op mt = Inr mt'" and keys: "op_keys_ok op"
  shows "mt_ok mt' \<and> numCf mt' = numCf mt
    \<and> (live mt', frozen mt') = mt_spec (numCf mt) op (live mt, frozen mt)"
proof (cases op)
  case (OpPut cf k)
  then show ?thesis using ex keys appendRecLocked_ok [OF ok, of cf False k "[]" mt']
    by (simp add: Put_def sized_Inr set_rec_def)
next
  case (OpPutKv cf k v)
  then show ?thesis using ex keys appendRecLocked_ok [OF ok, of cf False k v mt']
    by (simp add: PutKv_def sized_Inr set_rec_def)
next
  case (OpDeleteKv cf k)
  then show ?thesis using ex keys appendRecLocked_ok [OF ok, of cf True k "[]" mt']
    by (simp add: DeleteKv_def set_rec_def)
next
  case (OpBatch es)
  then show ?thesis using ex keys batchLoop_ok [OF ok, of es mt'] by (simp add: Batch_def sized_Inr)
next
  case (OpEnsure cf)
  then show ?thesis using ex reorganise_ok [OF ok, of cf]
    by (auto simp: EnsureMaterialized_def same_abs_def split: if_splits)
next
  case (OpCap cf)
  then show ?thesis using ex ok reorganise_ok [OF ok, of cf]
    by (auto simp: MaybeCapBuf_def same_abs_def split: if_splits)
next
  case OpMaterializeAll
  then show ?thesis using ex MaterializeAll_ok(1,2) [OF ok] by (auto simp: same_abs_def)
next
  case (OpSnapshot cf)
  then show ?thesis using ex reorganise_ok [OF ok, of cf]
    by (auto simp: SnapshotRuns_def Let_def on_state_def same_abs_def split: if_splits)
next
  case OpFreeze
  then show ?thesis using ex FreezeAllCapture_ok [OF ok surjective_pairing] by auto
next
  case OpPublish
  then show ?thesis using ex Publish_ok [OF ok] by auto
next
  case OpClear
  then show ?thesis using ex Clear_ok [OF ok] by auto
qed

section \<open>Draining\<close>

lemma pickBest_None:
  "pickBest rs heads is best = None \<longleftrightarrow> best = None \<and> (\<forall>i \<in> set is. heads ! i \<ge> length (Records (rs ! i)))"
  by (induction rs heads "is" best rule: pickBest.induct)
    (auto simp: Let_def split: if_splits option.splits)

text \<open>\<open>hkey\<close>: the key at the head of run \<open>i\<close>; \<open>beats\<close>: smaller key, or an equal key and a run at
  least as new.\<close>

definition hkey :: "Run list \<Rightarrow> nat list \<Rightarrow> nat \<Rightarrow> bytes" where
  "hkey rs heads i = recKey (Records (rs ! i) ! (heads ! i))"

definition beats :: "Run list \<Rightarrow> nat list \<Rightarrow> nat \<Rightarrow> nat \<Rightarrow> bool" where
  "beats rs heads b i \<longleftrightarrow> hkey rs heads b < hkey rs heads i \<or> hkey rs heads b = hkey rs heads i \<and> i \<le> b"

lemma beats_trans: "beats rs heads a b \<Longrightarrow> beats rs heads b c \<Longrightarrow> beats rs heads a c"
  by (auto simp: beats_def)

lemma pickBest_beats:
  assumes "pickBest rs heads is best = Some b"
  shows "(\<forall>a. best = Some a \<longrightarrow> beats rs heads b a)
    \<and> (\<forall>i \<in> set is. heads ! i < length (Records (rs ! i)) \<longrightarrow> beats rs heads b i)"
  using assms
proof (induction rs heads "is" best rule: pickBest.induct)
  case (1 rs heads best)
  then show ?case by (auto simp: beats_def)
next
  case (2 rs heads i "is" best)
  show ?case
  proof (cases "heads ! i \<ge> length (Records (rs ! i))")
    case True
    then show ?thesis using 2 by auto
  next
    case live: False
    show ?thesis
    proof (cases best)
      case None
      then show ?thesis using 2 live by auto
    next
      case (Some a)
      let ?c = "CmpRec (Records (rs ! i) ! (heads ! i)) (Records (rs ! a) ! (heads ! a))"
      have c: "?c < 0 \<or> ?c = 0 \<and> i > a \<longleftrightarrow> hkey rs heads i < hkey rs heads a
        \<or> hkey rs heads i = hkey rs heads a \<and> a < i"
        by (simp add: cmp_simps hkey_def)
      show ?thesis
      proof (cases "?c < 0 \<or> ?c = 0 \<and> i > a")
        case True
        then have "beats rs heads i a" using c by (auto simp: beats_def)
        moreover have "beats rs heads b i \<and> (\<forall>i \<in> set is. heads ! i < length (Records (rs ! i)) \<longrightarrow> beats rs heads b i)"
          using "2.IH"(3) [OF live Some refl True] "2.prems" live Some True by simp
        ultimately show ?thesis using Some beats_trans [of rs heads b i a] by simp
      next
        case False
        then have "beats rs heads a i" using c by (auto simp: beats_def)
        moreover have "beats rs heads b a \<and> (\<forall>i \<in> set is. heads ! i < length (Records (rs ! i)) \<longrightarrow> beats rs heads b i)"
          using "2.IH"(4) [OF live Some refl False] "2.prems" live Some False by simp
        ultimately show ?thesis using Some beats_trans [of rs heads b a i] by simp
      qed
    qed
  qed
qed

lemma latest_remove_key:
  "latest f (filter (\<lambda>x. f x \<noteq> c) xs) k = (if k = c then None else latest f xs k)"
  by (induction xs rule: rev_induct) (auto simp: latest_snoc)

lemma ascending_dropWhile_eq:
  assumes "ascending (map f xs)" "\<forall>x \<in> set xs. c \<le> f x"
  shows "dropWhile (\<lambda>x. f x = c) xs = filter (\<lambda>x. f x \<noteq> c) xs"
proof (cases xs)
  case (Cons x ys)
  then have gt: "\<forall>y \<in> set ys. f x < f y" using assms(1) by simp
  then have "\<forall>y \<in> set ys. c < f y" using assms(2) Cons by fastforce
  then have "filter (\<lambda>x. f x \<noteq> c) ys = ys" "dropWhile (\<lambda>x. f x = c) ys = ys"
    by (auto simp: filter_id_conv dropWhile_eq_self_iff)
  then show ?thesis using Cons by auto
qed simp

text \<open>What is left of run \<open>i\<close>, and of all runs in age order.\<close>

definition remaining :: "Run list \<Rightarrow> nat list \<Rightarrow> nat \<Rightarrow> bytes list" where
  "remaining rs heads i = drop (heads ! i) (Records (rs ! i))"

definition remaining_log :: "Run list \<Rightarrow> nat list \<Rightarrow> bytes list" where
  "remaining_log rs heads = concat (map (remaining rs heads) [0..<length rs])"

lemma drop_skipEqual:
  "drop (skipEqual win r h) (Records r) = dropWhile (\<lambda>p. recKey p = recKey win) (drop h (Records r))"
  unfolding skipEqual_def cmp_simps dropWhile_eq_drop drop_drop by (simp only: add.commute)

lemma latest_concat_idx:
  assumes "b < n" "filter (\<lambda>x. f x = c) (g b) = [w]" "\<And>i. b < i \<Longrightarrow> i < n \<Longrightarrow> filter (\<lambda>x. f x = c) (g i) = []"
  shows "latest f (concat (map g [0..<n])) c = Some w"
proof -
  have "[0..<n] = [0..<b] @ b # [Suc b..<n]"
    using assms(1) upt_add_eq_append [of 0 b "n - b"] upt_conv_Cons [of b n] by simp
  then have "filter (\<lambda>x. f x = c) (concat (map g [0..<n]))
      = filter (\<lambda>x. f x = c) (concat (map g [0..<b])) @ [w]"
    using assms(2,3) by (simp add: filter_concat comp_def)
  then show ?thesis by (simp add: latest_filter Let_def)
qed

lemma drainLoop_newest:
  assumes "\<forall>r \<in> set rs. run_ok r"
  shows "drainLoop rs heads = newest recKey (remaining_log rs heads)"
  using assms
proof (induction rs heads rule: drainLoop.induct)
  case (1 rs heads)
  have asc: "ascending (map recKey (remaining rs heads i))" if "i < length rs" for i
  proof -
    have "ascending (map recKey (Records (rs ! i)))" using 1(2) that by (simp add: run_ok_def)
    then show ?thesis by (simp add: remaining_def sorted_wrt_drop flip: drop_map)
  qed
  show ?case
  proof (cases "pickBest rs heads [0..<length rs] None")
    case None
    then have "remaining_log rs heads = []" by (auto simp: pickBest_None remaining_log_def remaining_def)
    then show ?thesis using None by (simp add: drainLoop.simps newest_def)
  next
    case (Some b)
    define win where "win = Records (rs ! b) ! (heads ! b)"
    define heads' where "heads' = map (\<lambda>i. if i = b then heads ! i + 1
        else skipEqual win (rs ! i) (heads ! i)) [0..<length rs]"
    have b: "b < length rs" "heads ! b < length (Records (rs ! b))"
      using pickBest_Some [OF Some, of "length rs"] by auto
    have rb: "remaining rs heads b = win # tl (remaining rs heads b)"
      using b(2) by (metis Cons_nth_drop_Suc list.sel(3) remaining_def win_def)
    have ge: "beats rs heads b i" if "i < length rs" "heads ! i < length (Records (rs ! i))" for i
      using pickBest_beats [OF Some] that by simp
    have min: "recKey win \<le> recKey x \<and> (i > b \<longrightarrow> recKey win < recKey x)"
      if "i < length rs" "x \<in> set (remaining rs heads i)" for i x
    proof -
      have lt: "heads ! i < length (Records (rs ! i))"
        using that(2) by (cases "heads ! i < length (Records (rs ! i))") (simp_all add: remaining_def)
      then have "remaining rs heads i = Records (rs ! i) ! (heads ! i) # tl (remaining rs heads i)"
        by (metis Cons_nth_drop_Suc list.sel(3) remaining_def)
      then have "hkey rs heads i \<le> recKey x"
        using asc [OF that(1)] that(2)
        unfolding hkey_def
        by (cases "remaining rs heads i") (auto simp: remaining_def)
      then show ?thesis using ge [OF that(1) lt] by (auto simp: beats_def hkey_def win_def)
    qed
    have rem': "remaining rs heads' i = filter (\<lambda>p. recKey p \<noteq> recKey win) (remaining rs heads i)"
      if i: "i < length rs" for i
    proof (cases "i = b")
      case True
      have "remaining rs heads' i = tl (remaining rs heads b)"
        using True i by (simp add: heads'_def remaining_def drop_Suc tl_drop)
      also have "\<dots> = filter (\<lambda>p. recKey p \<noteq> recKey win) (remaining rs heads b)"
      proof -
        have "\<forall>x \<in> set (tl (remaining rs heads b)). recKey win < recKey x"
          using asc [OF b(1)] rb by (metis ascending_map_Cons)
        then have "filter (\<lambda>p. recKey p \<noteq> recKey win) (tl (remaining rs heads b)) = tl (remaining rs heads b)"
          by (auto simp: filter_id_conv)
        then show ?thesis by (subst (2) rb) simp
      qed
      finally show ?thesis using True by simp
    next
      case False
      then show ?thesis
        using i ascending_dropWhile_eq [OF asc [OF i], of "recKey win"] min [OF i]
        by (simp add: heads'_def remaining_def drop_skipEqual)
    qed
    have log': "remaining_log rs heads' = filter (\<lambda>p. recKey p \<noteq> recKey win) (remaining_log rs heads)"
      unfolding remaining_log_def filter_concat map_map comp_def
      by (rule arg_cong [where f = concat], rule map_cong) (simp_all add: rem')
    have "latest recKey (remaining_log rs heads) (recKey win) = Some win"
      unfolding remaining_log_def
    proof (rule latest_concat_idx [OF b(1)])
      have "\<forall>x \<in> set (tl (remaining rs heads b)). recKey win < recKey x"
        using asc [OF b(1)] rb by (metis ascending_map_Cons)
      then show "filter (\<lambda>x. recKey x = recKey win) (remaining rs heads b) = [win]"
        by (subst rb) (auto simp: filter_empty_conv)
      show "filter (\<lambda>x. recKey x = recKey win) (remaining rs heads i) = []" if "b < i" "i < length rs" for i
        using min [OF that(2)] that(1) by (metis (mono_tags, lifting) filter_False less_irrefl)
    qed
    moreover have out: "drainLoop rs heads = win # newest recKey (remaining_log rs heads')"
      unfolding drainLoop.simps [of rs heads] Some option.case Let_def
        win_def [symmetric] heads'_def [symmetric] 1(1) [OF Some win_def heads'_def 1(2)]
      by (rule refl)
    moreover have "recKey win < recKey x" if "x \<in> set (newest recKey (remaining_log rs heads'))" for x
    proof -
      have "x \<in> set (remaining_log rs heads')" by (rule subsetD [OF set_newest that])
      then obtain i where "i < length rs" "x \<in> set (remaining rs heads i)" "recKey x \<noteq> recKey win"
        unfolding log' by (auto simp: remaining_log_def)
      then show ?thesis using min by fastforce
    qed
    ultimately show ?thesis
      by (intro newest_unique)
        (auto simp: latest_Cons log' latest_remove_key split: option.splits)
  qed
qed

lemma drainWins_newest:
  assumes "\<forall>r \<in> set rs. run_ok r"
  shows "drainWins rs = newest recKey (log_of rs)"
proof -
  have "remaining_log rs (replicate (length rs) 0) = log_of rs"
    unfolding remaining_log_def
    by (rule arg_cong [where f = concat], rule nth_equalityI) (simp_all add: remaining_def)
  then show ?thesis using drainLoop_newest [OF assms] by (simp add: drainWins_def)
qed

section \<open>Size accounting\<close>

definition klen_sum :: "bytes list \<Rightarrow> nat" where
  "klen_sum ps = sum_list (map recKlen ps)"

lemma klen_sum_simps [simp]:
  "klen_sum [] = 0" "klen_sum (p # ps) = recKlen p + klen_sum ps"
  "klen_sum (ps @ qs) = klen_sum ps + klen_sum qs"
  by (simp_all add: klen_sum_def)

lemma klen_sum_sort: "klen_sum (sort_key f ps) = klen_sum ps"
  unfolding klen_sum_def by (metis mset_map mset_sort sum_mset_sum_list)

lemma klen_sum_newest: "klen_sum (newest f ps) \<le> klen_sum ps"
proof -
  have "klen_sum (keepLast f qs) \<le> klen_sum qs" for qs
    by (induction f qs rule: keepLast.induct) auto
  then show ?thesis unfolding newest_def by (metis klen_sum_sort)
qed

definition size_ok :: "MemTable \<Rightarrow> bool" where
  "size_ok mt \<longleftrightarrow> (\<forall>cf < numCf mt. int (klen_sum (log_of (runs mt ! cf) @ buf mt ! cf)) \<le> cfSize mt ! cf)"

lemma materializeLocked_size:
  assumes "mt_ok mt" "size_ok mt"
  shows "size_ok (materializeLocked cf mt)"
  using assms
  by (auto simp: size_ok_def materializeLocked_eq mt_ok_def nth_list_update_if
      klen_sum_def [symmetric] algebra_simps)

lemma maybeMergeLocked_size:
  assumes "mt_ok mt" "size_ok mt"
  shows "size_ok (maybeMergeLocked cf mt)"
proof -
  have "int (klen_sum (newest recKey (log_of (runs mt ! cf)))) \<le> int (klen_sum (log_of (runs mt ! cf)))"
    using klen_sum_newest [of recKey "log_of (runs mt ! cf)"] by simp
  with assms show ?thesis
    by (auto simp: size_ok_def maybeMergeLocked_eq mt_ok_def nth_list_update_if)
qed

lemma reorganise_size:
  "mt_ok mt \<Longrightarrow> size_ok mt \<Longrightarrow> size_ok (maybeMergeLocked cf (materializeLocked cf mt))"
  using materializeLocked_size maybeMergeLocked_size materializeLocked_ok by blast

lemma appendRecLocked_size:
  assumes "mt_ok mt" "size_ok mt" "appendRecLocked cf d k v mt = Inr mt'" "length k < 2 ^ 32"
  shows "size_ok mt'"
proof -
  define mt1 where "mt1 = mt\<lparr>buf := (buf mt)[cf := buf mt ! cf @ [makeRec (cf \<ge> 10) d k v]],
      cfSize := (cfSize mt)[cf := cfSize mt ! cf + int (length k)]\<rparr>"
  have ok1: "mt_ok mt1" using assms(1) by (auto simp: mt1_def mt_ok_def)
  have "size_ok mt1"
    using assms(1,2,4)
    by (auto simp: size_ok_def mt1_def mt_ok_def nth_list_update_if recKlen_makeRec)
  moreover have "mt' = mt1 \<or> mt' = maybeMergeLocked cf (materializeLocked cf mt1)"
    using assms(3) by (auto simp: appendRecLocked_def mt1_def Let_def split: if_splits)
  ultimately show ?thesis using reorganise_size [OF ok1] by auto
qed

lemma batchLoop_size:
  "batchLoop es mt = Inr mt' \<Longrightarrow> mt_ok mt \<Longrightarrow> size_ok mt \<Longrightarrow>
     \<forall>e \<in> set es. length (CfKey_Key e) < 2 ^ 32 \<Longrightarrow> size_ok mt'"
proof (induction es mt rule: batchLoop.induct)
  case (2 e es mt)
  show ?case
  proof (cases "unat (Cf e) \<ge> numCf mt")
    case True
    then show ?thesis using 2 by (simp add: Let_def)
  next
    case False
    then obtain mt1 where mt1: "appendRecLocked (unat (Cf e)) False (CfKey_Key e) [] mt = Inr mt1"
      "batchLoop es mt1 = Inr mt'"
      using "2.prems"(1) by (auto simp: Let_def split: sum.splits)
    have k: "length (CfKey_Key e) < 2 ^ 32" "\<forall>e \<in> set es. length (CfKey_Key e) < 2 ^ 32"
      using "2.prems"(4) by simp_all
    show ?thesis
      using "2.IH"(2) [OF refl False mt1(1,2)] appendRecLocked_ok [OF "2.prems"(2) mt1(1) k(1)]
        appendRecLocked_size [OF "2.prems"(2,3) mt1(1) k(1)] k(2) by blast
  qed
qed simp

lemma MaterializeAll_size: "mt_ok mt \<Longrightarrow> size_ok mt \<Longrightarrow> size_ok (MaterializeAll mt)"
proof -
  have "size_ok (fold (\<lambda>cf m. maybeMergeLocked cf (materializeLocked cf m)) cfs mt)"
    if "mt_ok mt" "size_ok mt" for cfs mt
    using that
    by (induction cfs arbitrary: mt) (auto intro: reorganise_size reorganise_ok)
  then show "mt_ok mt \<Longrightarrow> size_ok mt \<Longrightarrow> size_ok (MaterializeAll mt)" by (simp add: MaterializeAll_def)
qed

lemma mt_exec_size:
  assumes ok: "mt_ok mt" and sz: "size_ok mt" and ex: "mt_exec op mt = Inr mt'" and keys: "op_keys_ok op"
  shows "size_ok mt'"
proof (cases op)
  case OpFreeze
  define m1 where "m1 = MaterializeAll mt"
  have m1: "mt_ok m1" using MaterializeAll_ok(1) [OF ok] by (simp add: m1_def)
  note fr = freeze_fold [OF m1, where n = "numCf m1"]
  then show ?thesis using OpFreeze ex
    by (auto simp: size_ok_def FreezeAllCapture_def Let_def m1_def [symmetric])
next
  case OpPublish
  have "numCf (fold (\<lambda>cf m. m\<lparr>draining := (draining m)[cf := []]\<rparr>) cfs mt) = numCf mt"
    "runs (fold (\<lambda>cf m. m\<lparr>draining := (draining m)[cf := []]\<rparr>) cfs mt) = runs mt"
    "buf (fold (\<lambda>cf m. m\<lparr>draining := (draining m)[cf := []]\<rparr>) cfs mt) = buf mt"
    "cfSize (fold (\<lambda>cf m. m\<lparr>draining := (draining m)[cf := []]\<rparr>) cfs mt) = cfSize mt" for cfs
    by (rule fold_preserve, simp)+
  then show ?thesis using OpPublish ex sz by (auto simp: Publish_def Let_def size_ok_def)
next
  case OpClear
  let ?h = "\<lambda>cf (m :: MemTable). m\<lparr>runs := (runs m)[cf := []], draining := (draining m)[cf := []],
                               buf := (buf m)[cf := []], cfSize := (cfSize m)[cf := 0]\<rparr>"
  define m where "m = fold ?h [0..<numCf mt] mt"
  have "numCf m = numCf mt" unfolding m_def by (rule fold_preserve) simp
  moreover have "runs m ! cf = [] \<and> cfSize m ! cf = 0 \<and> buf m ! cf = []" if "cf < numCf mt" for cf
    unfolding m_def
    using fold_update_nth [of "[0..<numCf mt]" cf cfSize mt ?h "\<lambda>_ _. 0"]
      fold_update_nth [of "[0..<numCf mt]" cf runs mt ?h "\<lambda>_ _. []"]
      fold_update_nth [of "[0..<numCf mt]" cf buf mt ?h "\<lambda>_ _. []"] that ok
    by (simp add: mt_ok_def)
  ultimately show ?thesis using OpClear ex by (auto simp: Clear_def Let_def size_ok_def m_def [symmetric])
qed (use ex keys ok sz in \<open>auto simp: Put_def PutKv_def DeleteKv_def Batch_def EnsureMaterialized_def
    MaybeCapBuf_def SnapshotRuns_def on_state_def sized_def Let_def split: sum.splits if_splits
    intro: appendRecLocked_size batchLoop_size reorganise_size MaterializeAll_size\<close>)

section \<open>Properties of the memtable\<close>

fun mt_execs :: "mt_op list \<Rightarrow> MemTable \<Rightarrow> MemTable result" where
  "mt_execs [] mt = Inr mt"
| "mt_execs (op # ops) mt = (case mt_exec op mt of Inl e \<Rightarrow> Inl e | Inr mt' \<Rightarrow> mt_execs ops mt')"

lemma mt_execs_spec:
  assumes "mt_ok mt" "mt_execs ops mt = Inr mt'" "\<forall>op \<in> set ops. op_keys_ok op"
  shows "mt_ok mt' \<and> numCf mt' = numCf mt
    \<and> (live mt', frozen mt') = fold (mt_spec (numCf mt)) ops (live mt, frozen mt)"
  using assms
proof (induction ops mt rule: mt_execs.induct)
  case (2 op ops mt)
  obtain mt1 where mt1: "mt_exec op mt = Inr mt1" "mt_execs ops mt1 = Inr mt'"
    using "2.prems"(2) by (auto split: sum.splits)
  have keys: "op_keys_ok op" "\<forall>op \<in> set ops. op_keys_ok op" using "2.prems"(3) by simp_all
  note s1 = mt_exec_spec [OF "2.prems"(1) mt1(1) keys(1)]
  note s2 = "2.IH" [OF mt1(1) conjunct1 [OF s1] mt1(2) keys(2)]
  show ?case using s1 s2 by (simp del: mt_spec.simps)
qed auto

text \<open>The only failure of an operation is a column family out of range.\<close>

fun op_cf_ok :: "nat \<Rightarrow> mt_op \<Rightarrow> bool" where
  "op_cf_ok n (OpPut cf k) = (cf < n)"
| "op_cf_ok n (OpPutKv cf k v) = (cf < n)"
| "op_cf_ok n (OpDeleteKv cf k) = (cf < n)"
| "op_cf_ok n (OpEnsure cf) = (cf < n)"
| "op_cf_ok n (OpCap cf) = (cf < n)"
| "op_cf_ok n (OpSnapshot cf) = (cf < n)"
| "op_cf_ok n _ = True"

lemma appendRecLocked_total:
  "mt_ok mt \<Longrightarrow> (\<exists>mt'. appendRecLocked cf d k v mt = Inr mt') \<longleftrightarrow> cf < numCf mt"
  by (auto simp: appendRecLocked_def mt_ok_def Let_def)

lemma batchLoop_total:
  "mt_ok mt \<Longrightarrow> \<forall>e \<in> set es. length (CfKey_Key e) < 2 ^ 32 \<Longrightarrow> \<exists>mt'. batchLoop es mt = Inr mt'"
proof (induction es arbitrary: mt)
  case (Cons e es)
  show ?case
  proof (cases "unat (Cf e) \<ge> numCf mt")
    case True
    then show ?thesis using Cons by (simp add: Let_def)
  next
    case False
    then obtain mt1 where mt1: "appendRecLocked (unat (Cf e)) False (CfKey_Key e) [] mt = Inr mt1"
      using appendRecLocked_total [OF Cons.prems(1)] by (meson not_le)
    then have "mt_ok mt1" using appendRecLocked_ok [OF Cons.prems(1) mt1] Cons.prems(2) by simp
    then show ?thesis using Cons mt1 False by (simp add: Let_def)
  qed
qed simp

lemma mt_exec_total:
  assumes "mt_ok mt" "op_keys_ok op"
  shows "(\<exists>mt'. mt_exec op mt = Inr mt') \<longleftrightarrow> op_cf_ok (numCf mt) op"
  using assms appendRecLocked_total [OF assms(1)] batchLoop_total [OF assms(1)]
  by (cases op) (auto simp: Put_def PutKv_def DeleteKv_def Batch_def sized_Inr EnsureMaterialized_def
      MaybeCapBuf_def on_state_SnapshotRuns mt_ok_def)

lemma mt_execs_total:
  assumes "mt_ok mt" "\<forall>op \<in> set ops. op_keys_ok op \<and> op_cf_ok (numCf mt) op"
  shows "\<exists>mt'. mt_execs ops mt = Inr mt'"
  using assms
proof (induction ops arbitrary: mt)
  case (Cons op ops)
  then obtain mt1 where mt1: "mt_exec op mt = Inr mt1" using mt_exec_total [of mt op] by auto
  then have "mt_ok mt1" "numCf mt1 = numCf mt" using mt_exec_spec [of mt op mt1] Cons.prems by auto
  then show ?case using Cons.IH [of mt1] Cons.prems mt1 by simp
qed simp

lemma NewMemTable_ok:
  assumes "NewMemTable n = Inr mt"
  shows "mt_ok mt" "size_ok mt" "numCf mt = n" "live mt = (\<lambda>_. Map.empty)" "frozen mt = (\<lambda>_. Map.empty)"
  using assms
  by (auto simp: NewMemTable_def mt_ok_def size_ok_def live_def frozen_def fun_eq_iff split: if_splits)

text \<open>C5. Starting from a new memtable, after any sequence of writes, deletes, batches,
  materialisations, merges, snapshots, freezes, publishes and clears, in which every key and value is
  shorter than \<open>2 ^ 32\<close> bytes, a point read returns exactly what the abstract two-layer map says: the value of the
  newest live record of the key, else of the newest frozen one, with tombstones read as absent. When that record
  is a key-only one, which has no value, the read panics.\<close>

theorem memtable_refines_layers:
  assumes "NewMemTable n = Inr mt0" "mt_execs ops mt0 = Inr mt" "\<forall>op \<in> set ops. op_keys_ok op" "cf < n"
  shows "GetValue cf k mt =
    (let (l, f) = fold (mt_spec n) ops (\<lambda>_. Map.empty, \<lambda>_. Map.empty)
     in case (case l cf k of Some p \<Rightarrow> Some p | None \<Rightarrow> f cf k) of
          Some p \<Rightarrow> if recDeleted p then Inr None else rbind (recValue p) (\<lambda>v. Inr (Some v))
        | None \<Rightarrow> Inr None)"
proof -
  note new = NewMemTable_ok [OF assms(1)]
  have sp: "mt_ok mt" "numCf mt = n"
    "(live mt, frozen mt) = fold (mt_spec n) ops (\<lambda>_. Map.empty, \<lambda>_. Map.empty)"
    using mt_execs_spec [OF new(1) assms(2,3)] new(3-5) by auto
  show ?thesis
    using GetValue_find [OF sp(1), of cf k] assms(4) sp(2) by (simp add: sp(3) [symmetric] mt_find_def)
qed

theorem memtable_refines_layers_witness:
  "GetValue 10 [7] (projr (mt_execs [OpPutKv 10 [7] [1, 2], OpFreeze, OpPutKv 10 [7] [3], OpEnsure 10]
     (projr (NewMemTable 11)))) = Inr (Some [3])"
proof -
  let ?ops = "[OpPutKv 10 [7] [1, 2], OpFreeze, OpPutKv 10 [7] [3], OpEnsure 10]"
  have ex: "mt_execs ?ops (projr (NewMemTable 11)) = Inr (projr (mt_execs ?ops (projr (NewMemTable 11))))"
  proof -
    obtain mt0 where mt0: "NewMemTable 11 = Inr mt0" by (simp add: NewMemTable_def)
    then have "\<exists>mt'. mt_execs ?ops mt0 = Inr mt'"
      using NewMemTable_ok [OF mt0] by (intro mt_execs_total) auto
    with mt0 show ?thesis by auto
  qed
  have "GetValue 10 [7] (projr (mt_execs ?ops (projr (NewMemTable 11)))) =
    (let (l, f) = fold (mt_spec 11) ?ops (\<lambda>_. Map.empty, \<lambda>_. Map.empty)
     in case (case l 10 [7] of Some p \<Rightarrow> Some p | None \<Rightarrow> f 10 [7]) of
          Some p \<Rightarrow> if recDeleted p then Inr None else rbind (recValue p) (\<lambda>v. Inr (Some v))
        | None \<Rightarrow> Inr None)"
    by (rule memtable_refines_layers [OF _ ex]) (simp_all add: NewMemTable_def)
  also have "\<dots> = Inr (Some [3])" by (simp add: set_rec_def)
  finally show ?thesis .
qed

text \<open>A flush loses nothing and orders everything: after a freeze the captured runs of a column
  family drain to the ascending list of all live keys, and, for a key-value family, to the ascending
  live pairs and the ascending tombstones, in each case by the newest record of the key; readers see
  the same newest records before the freeze and, from the draining side, after it.\<close>

theorem flush_drains_newest:
  assumes "mt_ok mt" "FreezeAllCapture mt = (mt', captured)" "cf < numCf mt"
    "DrainKvSorted (captured ! cf) = (pairs, deleted)"
  shows "ascending (DrainSorted (captured ! cf)) \<and> set (DrainSorted (captured ! cf)) = dom (live mt cf)
    \<and> ascending (map fst pairs)
    \<and> (\<forall>k v. (k, v) \<in> set pairs \<longleftrightarrow> (\<exists>p. live mt cf k = Some p \<and> \<not> recDeleted p \<and> v = recBody p))
    \<and> ascending deleted
    \<and> (\<forall>k. k \<in> set deleted \<longleftrightarrow> (\<exists>p. live mt cf k = Some p \<and> recDeleted p))
    \<and> live mt' = (\<lambda>_. Map.empty) \<and> frozen mt' = live mt"
proof -
  note fr = FreezeAllCapture_ok [OF assms(1,2)]
  let ?w = "newest recKey (log_of (captured ! cf))"
  have ok: "\<forall>r \<in> set (captured ! cf). run_ok r" using fr(6) assms(3) by simp
  have w: "drainWins (captured ! cf) = ?w" by (rule drainWins_newest [OF ok])
  have lv: "latest recKey ?w k = live mt cf k" for k
  proof -
    have "live mt cf = latest recKey (log_of (captured ! cf))"
      unfolding fr(4) [symmetric] fr(5) using fr(2) assms(3) by (simp add: frozen_def)
    then show ?thesis by simp
  qed
  have mem: "p \<in> set ?w \<longleftrightarrow> live mt cf (recKey p) = Some p" for p
    unfolding lv [symmetric] latest_ascending_iff [OF ascending_newest] by simp
  have key: "live mt cf k = Some p \<Longrightarrow> recKey p = k" for k p
    unfolding lv [symmetric] using latest_SomeD [of recKey ?w k p] by blast
  have asc: "ascending (map recKey (filter P ?w))" for P
    using sorted_wrt_filter [of "\<lambda>x y. recKey x < recKey y" ?w P] ascending_newest [of recKey]
    by (simp only: sorted_wrt_map)
  have pairs: "pairs = map (\<lambda>p. (recKey p, recBody p)) (filter (\<lambda>p. \<not> recDeleted p) ?w)"
    and del: "deleted = map recKey (filter recDeleted ?w)"
    using assms(4) by (auto simp add: DrainKvSorted_def w Let_def)
  have dom: "dom (live mt cf) = recKey ` set ?w"
  proof (rule set_eqI)
    fix k
    have "live mt cf k = None \<longleftrightarrow> k \<notin> recKey ` set ?w" unfolding lv [symmetric] by (rule latest_None_iff)
    then show "k \<in> dom (live mt cf) \<longleftrightarrow> k \<in> recKey ` set ?w" by (simp only: domIff not_not)
  qed
  have "(k, v) \<in> set pairs \<longleftrightarrow> (\<exists>p. live mt cf k = Some p \<and> \<not> recDeleted p \<and> v = recBody p)" for k v
    unfolding pairs by (auto simp: mem image_iff dest: key)
  moreover have "k \<in> set deleted \<longleftrightarrow> (\<exists>p. live mt cf k = Some p \<and> recDeleted p)" for k
    unfolding del by (auto simp: mem image_iff dest: key)
  moreover have "map fst pairs = map recKey (filter (\<lambda>p. \<not> recDeleted p) ?w)"
    by (simp add: pairs comp_def)
  moreover have "ascending (DrainSorted (captured ! cf))" "set (DrainSorted (captured ! cf)) = dom (live mt cf)"
    unfolding DrainSorted_def w dom by simp_all
  ultimately show ?thesis
    using asc [of recDeleted] asc [of "\<lambda>p. \<not> recDeleted p"] fr(3,4) unfolding del by presburger
qed

theorem flush_drains_newest_witness:
  "DrainKvSorted (snd (FreezeAllCapture (projr (mt_execs
     [OpPutKv 10 [7] [1], OpPutKv 10 [5] [2], OpEnsure 10, OpDeleteKv 10 [7], OpPutKv 10 [5] [3]]
     (projr (NewMemTable 11))))) ! 10) = ([([5], [3])], [[7]])"
proof -
  let ?ops = "[OpPutKv 10 [7] [1], OpPutKv 10 [5] [2], OpEnsure 10, OpDeleteKv 10 [7], OpPutKv 10 [5] [3]]"
  obtain mt0 where mt0: "NewMemTable 11 = Inr mt0" by (simp add: NewMemTable_def)
  note new = NewMemTable_ok [OF mt0]
  obtain mt where mt: "mt_execs ?ops mt0 = Inr mt" using mt_execs_total [of mt0 ?ops] new by auto
  have sp: "mt_ok mt" "numCf mt = 11" "live mt = fst (fold (mt_spec 11) ?ops (\<lambda>_. Map.empty, \<lambda>_. Map.empty))"
    using mt_execs_spec [OF new(1) mt] new(3-5) by (auto dest: arg_cong [where f = fst])
  let ?c = "snd (FreezeAllCapture mt) ! 10"
  obtain pairs deleted where d: "DrainKvSorted ?c = (pairs, deleted)" by fastforce
  have live: "live mt 10 = [[7] \<mapsto> makeRec True True [7] [], [5] \<mapsto> makeRec True False [5] [3]]"
    by (simp add: sp(3) set_rec_def fun_eq_iff)
  have fl: "ascending (map fst pairs)"
    "\<forall>k v. (k, v) \<in> set pairs \<longleftrightarrow> (\<exists>p. live mt 10 k = Some p \<and> \<not> recDeleted p \<and> v = recBody p)"
    "ascending deleted" "\<forall>k. k \<in> set deleted \<longleftrightarrow> (\<exists>p. live mt 10 k = Some p \<and> recDeleted p)"
    using flush_drains_newest [OF sp(1) prod.collapse [symmetric] _ d] sp(2) by auto
  have "x \<in> set pairs \<longleftrightarrow> x = ([5], [3])" for x
    using fl(2) [rule_format, of "fst x" "snd x"] by (cases x) (auto simp: live)
  then have "set pairs = {([5], [3])}" by auto
  moreover have "k \<in> set deleted \<longleftrightarrow> k = [7]" for k
    using fl(4) [rule_format, of k] by (auto simp: live)
  then have "set deleted = {[7]}" by auto
  ultimately have "map fst pairs = [[5]]" "deleted = [[7]]"
    using fl(1,3) by (auto intro!: strict_sorted_equal)
  then have "pairs = [([5], [3])]" using \<open>set pairs = _\<close> by (cases pairs) auto
  then show ?thesis using d \<open>deleted = _\<close> mt0 mt by simp
qed

text \<open>The byte counter of a column family never falls below the key bytes it holds in its active
  runs and its buffer, whatever operations ran: a flush triggered by size is never late.\<close>

theorem memtable_size_covers_keys:
  assumes "NewMemTable n = Inr mt0" "mt_execs ops mt0 = Inr mt" "\<forall>op \<in> set ops. op_keys_ok op" "cf < n"
  shows "int (klen_sum (log_of (runs mt ! cf) @ buf mt ! cf)) \<le> cfSize mt ! cf"
proof -
  have "size_ok mt' \<and> mt_ok mt'" if "mt_ok m" "size_ok m" "mt_execs os m = Inr mt'" "\<forall>op \<in> set os. op_keys_ok op"
    for m mt' os
    using that
  proof (induction os arbitrary: m)
    case (Cons op os)
    obtain m1 where m1: "mt_exec op m = Inr m1" "mt_execs os m1 = Inr mt'"
      using Cons.prems(3) by (auto split: sum.splits)
    have keys: "op_keys_ok op" "\<forall>op \<in> set os. op_keys_ok op" using Cons.prems(4) by simp_all
    show ?case
      using Cons.IH [OF _ _ m1(2) keys(2)] mt_exec_spec [OF Cons.prems(1) m1(1) keys(1)]
        mt_exec_size [OF Cons.prems(1,2) m1(1) keys(1)] by blast
  qed simp
  then have "size_ok mt" using NewMemTable_ok [OF assms(1)] assms(2,3) by blast
  moreover have "numCf mt = n" using mt_execs_spec [OF _ assms(2,3)] NewMemTable_ok [OF assms(1)] by simp
  ultimately show ?thesis using assms(4) by (simp add: size_ok_def)
qed

theorem memtable_size_covers_keys_witness:
  "let mt = projr (mt_execs [OpPut 2 [1, 2, 3], OpEnsure 2, OpPut 2 [9]] (projr (NewMemTable 4)))
   in int (klen_sum (log_of (runs mt ! 2) @ buf mt ! 2)) \<le> cfSize mt ! 2"
proof -
  let ?ops = "[OpPut 2 [1, 2, 3], OpEnsure 2, OpPut 2 [9]]"
  obtain mt0 where mt0: "NewMemTable 4 = Inr mt0" by (simp add: NewMemTable_def)
  obtain mt where mt: "mt_execs ?ops mt0 = Inr mt"
    using mt_execs_total [of mt0 ?ops] NewMemTable_ok [OF mt0] by auto
  have "int (klen_sum (log_of (runs mt ! 2) @ buf mt ! 2)) \<le> cfSize mt ! 2"
    by (rule memtable_size_covers_keys [OF mt0 mt]) simp_all
  then show ?thesis by (simp only: mt0 mt sum.sel Let_def)
qed

text \<open>An operation of the memtable fails exactly when it names a column family that does not
  exist; batches skip such entries instead.\<close>

theorem memtable_fails_only_out_of_range:
  assumes "mt_ok mt" "op_keys_ok op"
  shows "(\<exists>e. mt_exec op mt = Inl e) \<longleftrightarrow> \<not> op_cf_ok (numCf mt) op"
  using mt_exec_total [OF assms] by (cases "mt_exec op mt") auto

theorem memtable_fails_only_out_of_range_witness:
  "(\<exists>e. mt_exec (OpPut 4 [1]) (projr (NewMemTable 4)) = Inl e)
   \<and> \<not> (\<exists>e. mt_exec (OpPut 3 [1]) (projr (NewMemTable 4)) = Inl e)"
proof -
  obtain mt0 where mt0: "NewMemTable 4 = Inr mt0" by (simp add: NewMemTable_def)
  note new = NewMemTable_ok [OF mt0]
  show ?thesis
    unfolding mt0 sum.sel memtable_fails_only_out_of_range [OF new(1), of "OpPut 4 [1]", simplified]
      memtable_fails_only_out_of_range [OF new(1), of "OpPut 3 [1]", simplified]
    using memtable_fails_only_out_of_range [OF new(1), of "OpPut 4 [1]"]
      memtable_fails_only_out_of_range [OF new(1), of "OpPut 3 [1]"] by (simp add: new(3))
qed

end
