(* ===== verification/RunCursor.thy ===== *)
theory RunCursor
  imports MemTable
begin

text \<open>
  Forward cursors over sorted key sources. The contract every source of the merge obeys is the
  locale \<open>sorted_cursor\<close>: a cursor stands before a suffix of its ascending keys. The cursor over one
  memtable run, \<^verbatim>\<open>src/go/internal/memtable/run_cursor.go\<close>, meets it twice, as a key cursor (tombstones
  included) and as a key-value cursor (tombstones skipped).
\<close>

section \<open>The run cursor\<close>

text \<open>The source's \<open>run\<close> pointer is never nil where a cursor is moved.\<close>

record RunCursor =
  rcRun :: Run
  rcPos :: nat
  rcAtEnd :: bool

definition NewRunCursor :: "Run \<Rightarrow> RunCursor" where
  "NewRunCursor r = \<lparr>rcRun = r, rcPos = 0, rcAtEnd = (Records r = [])\<rparr>"

definition rcAdvance :: "RunCursor \<Rightarrow> RunCursor" where
  "rcAdvance c =
     (if rcAtEnd c then c
      else let c' = c\<lparr>rcPos := rcPos c + 1\<rparr>
           in if rcPos c' \<ge> length (Records (rcRun c')) then c'\<lparr>rcAtEnd := True\<rparr> else c')"

definition rcPeek :: "RunCursor \<Rightarrow> bytes option" where
  "rcPeek c =
     (if rcAtEnd c \<or> rcPos c \<ge> length (Records (rcRun c)) then None
      else Some (recKey (Records (rcRun c) ! rcPos c)))"

definition rcNext :: "RunCursor \<Rightarrow> bytes option \<times> RunCursor" where
  "rcNext c = (case rcPeek c of Some k \<Rightarrow> (Some k, rcAdvance c) | None \<Rightarrow> (None, c))"

text \<open>
  The pair cursors are for the key-value families, whose records have a value; on a key-only record the source indexes
  past its end and panics where \<open>recBody\<close> is empty.
\<close>

function rcPeekKv :: "RunCursor \<Rightarrow> (bytes \<times> bytes) option \<times> RunCursor" where
  "rcPeekKv c =
     (if \<not> rcAtEnd c then
        let p = Records (rcRun c) ! rcPos c
        in if \<not> recDeleted p then (Some (recKey p, recBody p), c) else rcPeekKv (rcAdvance c)
      else (None, c))"
  by pat_completeness auto
termination
  by (relation "measure (\<lambda>c. if rcAtEnd c then 0 else Suc (length (Records (rcRun c)) - rcPos c))")
    (auto simp: rcAdvance_def Let_def)

declare rcPeekKv.simps [simp del]

definition rcNextKv :: "RunCursor \<Rightarrow> (bytes \<times> bytes) option \<times> RunCursor" where
  "rcNextKv c = (case rcPeekKv c of (Some p, c') \<Rightarrow> (Some p, rcAdvance c') | (None, c') \<Rightarrow> (None, c'))"

function rcNextDeleted :: "RunCursor \<Rightarrow> bytes option \<times> RunCursor" where
  "rcNextDeleted c =
     (if \<not> rcAtEnd c then
        let p = Records (rcRun c) ! rcPos c
        in if recDeleted p then (Some (recKey p), rcAdvance c) else rcNextDeleted (rcAdvance c)
      else (None, c))"
  by pat_completeness auto
termination
  by (relation "measure (\<lambda>c. if rcAtEnd c then 0 else Suc (length (Records (rcRun c)) - rcPos c))")
    (auto simp: rcAdvance_def Let_def)

declare rcNextDeleted.simps [simp del]

definition rcSeek :: "bytes \<Rightarrow> RunCursor \<Rightarrow> RunCursor" where
  "rcSeek target c =
     (let lo = bsearch (\<lambda>mid. CmpKeys (recKey (Records (rcRun c) ! mid)) target < 0) 0
                 (length (Records (rcRun c)))
      in c\<lparr>rcPos := lo, rcAtEnd := lo \<ge> length (Records (rcRun c))\<rparr>)"

definition rcSetAtEnd :: "bool \<Rightarrow> RunCursor \<Rightarrow> RunCursor" where
  "rcSetAtEnd v c = c\<lparr>rcAtEnd := v\<rparr>"

lemma asc_dropWhile_filter:
  fixes ks :: "'a::linorder list"
  shows "ascending ks \<Longrightarrow> dropWhile (\<lambda>k. k < t) ks = filter (\<lambda>k. t \<le> k) ks"
proof (induction ks)
  case (Cons k ks)
  show ?case
  proof (cases "k < t")
    case False
    then have "\<forall>x \<in> set ks. t \<le> x" using Cons.prems by force
    then show ?thesis using False by (auto simp: filter_id_conv)
  qed (use Cons in auto)
qed simp

section \<open>The cursor contract\<close>

text \<open>
  \<open>rest\<close> is what the cursor will still deliver, \<open>keys\<close> what it can be repositioned over.
  \<open>currentKey\<close> and \<open>currentPair\<close> may move the cursor over records that do not count.
\<close>

locale sorted_cursor =
  fixes valid :: "'c \<Rightarrow> bool" and currentKey :: "'c \<Rightarrow> bytes option \<times> 'c"
    and currentPair :: "'c \<Rightarrow> (bytes \<times> bytes) option \<times> 'c"
    and step :: "'c \<Rightarrow> 'c" and seek :: "bytes \<Rightarrow> 'c \<Rightarrow> 'c"
    and wf :: "'c \<Rightarrow> bool" and rest :: "'c \<Rightarrow> bytes list" and keys :: "'c \<Rightarrow> bytes list"
  assumes asc_keys: "wf c \<Longrightarrow> ascending (keys c)"
    and asc_rest: "wf c \<Longrightarrow> ascending (rest c)"
    and rest_keys: "wf c \<Longrightarrow> set (rest c) \<subseteq> set (keys c)"
    and not_valid: "wf c \<Longrightarrow> \<not> valid c \<Longrightarrow> rest c = []"
    and currentKey: "wf c \<Longrightarrow> currentKey c = (k, c') \<Longrightarrow>
      k = (if rest c = [] then None else Some (hd (rest c))) \<and> wf c' \<and> rest c' = rest c \<and> keys c' = keys c"
    and currentPair: "wf c \<Longrightarrow> currentPair c = (p, c') \<Longrightarrow> wf c' \<and> rest c' = rest c \<and> keys c' = keys c"
    and step: "wf c \<Longrightarrow> wf (step c) \<and> rest (step c) = tl (rest c) \<and> keys (step c) = keys c"
    and seek: "wf c \<Longrightarrow>
      wf (seek t c) \<and> rest (seek t c) = dropWhile (\<lambda>k. k < t) (keys c) \<and> keys (seek t c) = keys c"
begin

text \<open>The usual client loop: read the key, step, \<open>n\<close> times at most.\<close>

primrec scan :: "nat \<Rightarrow> 'c \<Rightarrow> bytes list" where
  "scan 0 c = []"
| "scan (Suc n) c =
     (if valid c then
        (case currentKey c of (None, _) \<Rightarrow> [] | (Some k, c') \<Rightarrow> k # scan n (step c'))
      else [])"

lemma scan_take: "wf c \<Longrightarrow> scan n c = take n (rest c)"
proof (induction n arbitrary: c)
  case (Suc n)
  obtain k c' where k: "currentKey c = (k, c')" by fastforce
  note ck = currentKey [OF Suc.prems k]
  show ?case
  proof (cases "rest c")
    case Nil
    then show ?thesis using ck k by simp
  next
    case (Cons x xs)
    then have "valid c" using not_valid [OF Suc.prems] by auto
    then show ?thesis
      using Cons ck k Suc.IH [of "step c'"] step [of c'] by simp
  qed
qed simp

text \<open>A scan from a sought position delivers the keys from the target on, in order.\<close>

lemma scan_seek:
  assumes "wf c" "length (keys c) \<le> n"
  shows "scan n (seek t c) = filter (\<lambda>k. t \<le> k) (keys c)"
proof -
  have "rest (seek t c) = filter (\<lambda>k. t \<le> k) (keys c)"
    using seek [OF assms(1), of t] asc_dropWhile_filter [OF asc_keys [OF assms(1)]] by simp
  moreover have "length (filter (\<lambda>k. t \<le> k) (keys c)) \<le> n"
    using assms(2) length_filter_le le_trans by blast
  ultimately show ?thesis using scan_take [of "seek t c" n] seek [OF assms(1), of t] by simp
qed

end

section \<open>The run cursor as a key cursor\<close>

definition rc_ok :: "RunCursor \<Rightarrow> bool" where
  "rc_ok c \<longleftrightarrow> run_ok (rcRun c) \<and> (\<not> rcAtEnd c \<longrightarrow> rcPos c < length (Records (rcRun c)))"

definition rcRest :: "RunCursor \<Rightarrow> bytes list" where
  "rcRest c = (if rcAtEnd c then [] else drop (rcPos c) (Records (rcRun c)))"

lemma NewRunCursor_ok: "run_ok r \<Longrightarrow> rc_ok (NewRunCursor r) \<and> rcRest (NewRunCursor r) = Records r"
  by (auto simp: rc_ok_def NewRunCursor_def rcRest_def)

lemma rcAdvance_ok:
  "rc_ok c \<Longrightarrow> rc_ok (rcAdvance c) \<and> rcRest (rcAdvance c) = tl (rcRest c) \<and> rcRun (rcAdvance c) = rcRun c"
  by (auto simp: rc_ok_def rcAdvance_def rcRest_def Let_def drop_Suc tl_drop)

lemma rcSeek_ok:
  assumes "rc_ok c"
  shows "rc_ok (rcSeek t c) \<and> rcRun (rcSeek t c) = rcRun c
    \<and> rcRest (rcSeek t c) = dropWhile (\<lambda>p. recKey p < t) (Records (rcRun c))"
proof -
  let ?xs = "Records (rcRun c)"
  have asc: "ascending (map recKey ?xs)" using assms by (simp add: rc_ok_def run_ok_def)
  have lo: "bsearch (\<lambda>mid. CmpKeys (recKey (?xs ! mid)) t < 0) 0 (length ?xs)
      = length (takeWhile (\<lambda>p. recKey p < t) ?xs)"
    unfolding cmp_simps by (rule bsearch_less_key [OF asc])
  show ?thesis
    using assms unfolding rcSeek_def Let_def lo
    by (auto simp: rc_ok_def rcRest_def dropWhile_eq_drop)
qed

lemma rcPeek_rest:
  "rc_ok c \<Longrightarrow> rcPeek c = (if rcRest c = [] then None else Some (recKey (hd (rcRest c))))"
  by (auto simp: rc_ok_def rcPeek_def rcRest_def hd_drop_conv_nth)

lemma rcNext_ok:
  "rc_ok c \<Longrightarrow> rc_ok (snd (rcNext c)) \<and> rcRest (snd (rcNext c)) = tl (rcRest c)
     \<and> rcRun (snd (rcNext c)) = rcRun c"
  using rcAdvance_ok [of c] rcPeek_rest [of c]
  by (cases "rcRest c") (auto simp: rcNext_def split: option.splits)

lemma suffix_rcRest: "suffix (rcRest c) (Records (rcRun c))"
  by (auto simp: rcRest_def suffix_drop)

lemma suffix_map: "suffix xs ys \<Longrightarrow> suffix (map f xs) (map f ys)"
  by (auto simp: suffix_def)

lemma suffix_filter: "suffix xs ys \<Longrightarrow> suffix (filter P xs) (filter P ys)"
  by (auto simp: suffix_def)

lemma asc_suffix: "suffix xs ys \<Longrightarrow> ascending ys \<Longrightarrow> ascending xs"
  by (auto simp: suffix_def sorted_wrt_append)

lemma map_dropWhile_key: "map f (dropWhile (\<lambda>p. f p < t) xs) = dropWhile (\<lambda>k. k < t) (map f xs)"
  by (simp add: dropWhile_map comp_def)

interpretation rk: sorted_cursor "\<lambda>c. \<not> rcAtEnd c" "\<lambda>c. (rcPeek c, c)" "\<lambda>c. (None, c)"
  "\<lambda>c. snd (rcNext c)" rcSeek rc_ok "\<lambda>c. map recKey (rcRest c)" "\<lambda>c. map recKey (Records (rcRun c))"
proof
  show "ascending (map recKey (Records (rcRun c)))" if "rc_ok c" for c
    using that by (simp add: rc_ok_def run_ok_def)
  show "ascending (map recKey (rcRest c))" if "rc_ok c" for c
    using that asc_suffix [OF suffix_map [OF suffix_rcRest]] by (auto simp: rc_ok_def run_ok_def)
  show "set (map recKey (rcRest c)) \<subseteq> set (map recKey (Records (rcRun c)))" for c
    by (rule set_mono_suffix [OF suffix_map [OF suffix_rcRest]])
  show "map recKey (rcRest c) = []" if "\<not> \<not> rcAtEnd c" for c
    using that by (simp add: rcRest_def)
qed (auto simp: rcPeek_rest hd_map rcNext_ok rcSeek_ok map_tl map_dropWhile_key)

section \<open>The run cursor as a key-value cursor\<close>

abbreviation kvLive :: "bytes list \<Rightarrow> bytes list" where
  "kvLive ps \<equiv> filter (\<lambda>p. \<not> recDeleted p) ps"

lemma rcPeekKv_ok:
  assumes "rc_ok c" "rcPeekKv c = (r, c')"
  shows "rc_ok c' \<and> rcRun c' = rcRun c \<and> rcRest c' = dropWhile recDeleted (rcRest c)
    \<and> r = (case rcRest c' of [] \<Rightarrow> None | p # _ \<Rightarrow> Some (recKey p, recBody p))"
  using assms
proof (induction c rule: rcPeekKv.induct)
  case (1 c)
  show ?case
  proof (cases "rcAtEnd c")
    case True
    then show ?thesis using "1.prems" by (auto simp: rcPeekKv.simps [of c] rcRest_def)
  next
    case False
    define p where "p = Records (rcRun c) ! rcPos c"
    have r: "rcRest c = p # tl (rcRest c)"
      using False "1.prems"(1) unfolding p_def rcRest_def rc_ok_def
      by (metis Cons_nth_drop_Suc list.sel(3))
    show ?thesis
    proof (cases "recDeleted p")
      case del: True
      then have "rcPeekKv (rcAdvance c) = (r, c')"
        using "1.prems"(2) False by (simp add: rcPeekKv.simps [of c] p_def)
      then have "rc_ok c' \<and> rcRun c' = rcRun (rcAdvance c) \<and> rcRest c' = dropWhile recDeleted (rcRest (rcAdvance c))
        \<and> r = (case rcRest c' of [] \<Rightarrow> None | p # _ \<Rightarrow> Some (recKey p, recBody p))"
        using "1.IH" [OF _ p_def] False del rcAdvance_ok [OF "1.prems"(1)] by simp
      moreover obtain qs where "rcRest c = p # qs" using r by blast
      ultimately show ?thesis using rcAdvance_ok [OF "1.prems"(1)] del by simp
    next
      case live: False
      then have "c' = c" "r = Some (recKey p, recBody p)"
        using "1.prems"(2) False by (auto simp: rcPeekKv.simps [of c] p_def Let_def)
      moreover obtain qs where "rcRest c = p # qs" using r by blast
      ultimately show ?thesis using "1.prems"(1) live by simp
    qed
  qed
qed

lemma kvLive_dropWhile: "kvLive (dropWhile recDeleted ps) = kvLive ps"
  by (induction ps) auto

lemma dropWhile_deleted_hd: "kvLive ps = (case dropWhile recDeleted ps of [] \<Rightarrow> [] | p # qs \<Rightarrow> p # kvLive qs)"
  by (induction ps) auto

lemma filter_dropWhile_key:
  assumes "ascending (map f xs)"
  shows "filter P (dropWhile (\<lambda>p. f p < t) xs) = dropWhile (\<lambda>p. f p < t) (filter P xs)"
  using assms
proof (induction xs)
  case (Cons x xs)
  show ?case
  proof (cases "f x < t")
    case False
    then have "\<forall>y \<in> set xs. \<not> f y < t" using Cons.prems by force
    then show ?thesis using False by (cases "filter P xs") (auto dest: filter_eq_ConsD)
  qed (use Cons in auto)
qed simp

lemma rcPeekKv_cases:
  assumes "rc_ok c" "rcPeekKv c = (r, c')"
  obtains (none) "rc_ok c'" "rcRun c' = rcRun c" "rcRest c' = []" "kvLive (rcRest c) = []" "r = None"
  | (some) p qs where "rc_ok c'" "rcRun c' = rcRun c" "rcRest c' = p # qs" "\<not> recDeleted p"
      "kvLive (rcRest c) = p # kvLive qs" "r = Some (recKey p, recBody p)"
proof -
  note ok = rcPeekKv_ok [OF assms]
  show thesis
  proof (cases "rcRest c'")
    case Nil
    then have d: "dropWhile recDeleted (rcRest c) = []" using ok by simp
    have "kvLive (rcRest c) = []" by (simp only: dropWhile_deleted_hd [of "rcRest c"] d list.case)
    with Nil ok none show thesis by (simp only: list.case)
  next
    case (Cons p qs)
    then have d: "dropWhile recDeleted (rcRest c) = p # qs" using ok by simp
    have "kvLive (rcRest c) = p # kvLive qs" by (simp only: dropWhile_deleted_hd [of "rcRest c"] d list.case)
    moreover have "\<not> recDeleted p" using d by (metis dropWhile_eq_Cons_conv)
    moreover have "r = Some (recKey p, recBody p)" using ok Cons by (simp only: list.case)
    ultimately show thesis using Cons ok by (intro some) simp_all
  qed
qed

lemma rcNextKv_ok:
  assumes "rc_ok c"
  shows "rc_ok (snd (rcNextKv c)) \<and> kvLive (rcRest (snd (rcNextKv c))) = tl (kvLive (rcRest c))
    \<and> rcRun (snd (rcNextKv c)) = rcRun c"
proof -
  obtain r c' where rc: "rcPeekKv c = (r, c')" by fastforce
  from assms rc show ?thesis
    by (cases rule: rcPeekKv_cases) (use rc rcAdvance_ok [of c'] in \<open>simp_all add: rcNextKv_def\<close>)
qed

lemma rcCurrentKv_ok:
  assumes "rc_ok c" "rcPeekKv c = (r, c')"
  shows "map_option fst r = (if kvLive (rcRest c) = [] then None else Some (recKey (hd (kvLive (rcRest c)))))
    \<and> rc_ok c' \<and> kvLive (rcRest c') = kvLive (rcRest c) \<and> rcRun c' = rcRun c"
  using assms by (cases rule: rcPeekKv_cases) simp_all

interpretation rkv: sorted_cursor "\<lambda>c. \<not> rcAtEnd c"
  "\<lambda>c. case rcPeekKv c of (r, c') \<Rightarrow> (map_option fst r, c')" rcPeekKv
  "\<lambda>c. snd (rcNextKv c)" rcSeek rc_ok "\<lambda>c. map recKey (kvLive (rcRest c))"
  "\<lambda>c. map recKey (kvLive (Records (rcRun c)))"
proof
  fix c c' :: RunCursor and k r t assume ok: "rc_ok c"
  have asc: "ascending (map recKey (Records (rcRun c)))" using ok by (simp add: rc_ok_def run_ok_def)
  show k: "ascending (map recKey (kvLive (Records (rcRun c))))"
    using asc sorted_wrt_filter [of "\<lambda>x y. recKey x < recKey y"] by (simp only: sorted_wrt_map)
  have suf: "suffix (map recKey (kvLive (rcRest c))) (map recKey (kvLive (Records (rcRun c))))"
    by (intro suffix_map suffix_filter suffix_rcRest)
  show "ascending (map recKey (kvLive (rcRest c)))" by (rule asc_suffix [OF suf k])
  show "set (map recKey (kvLive (rcRest c))) \<subseteq> set (map recKey (kvLive (Records (rcRun c))))"
    by (rule set_mono_suffix [OF suf])
  show "map recKey (kvLive (rcRest c)) = []" if "\<not> \<not> rcAtEnd c"
    using that by (simp add: rcRest_def)
  show "k = (if map recKey (kvLive (rcRest c)) = [] then None else Some (hd (map recKey (kvLive (rcRest c))))) \<and>
    rc_ok c' \<and> map recKey (kvLive (rcRest c')) = map recKey (kvLive (rcRest c)) \<and>
    map recKey (kvLive (Records (rcRun c'))) = map recKey (kvLive (Records (rcRun c)))"
    if "(case rcPeekKv c of (r, c') \<Rightarrow> (map_option fst r, c')) = (k, c')"
    using that rcCurrentKv_ok [OF ok] by (auto simp: hd_map split: prod.splits)
  show "rc_ok c' \<and> map recKey (kvLive (rcRest c')) = map recKey (kvLive (rcRest c)) \<and>
    map recKey (kvLive (Records (rcRun c'))) = map recKey (kvLive (Records (rcRun c)))"
    if "rcPeekKv c = (r, c')"
    using rcCurrentKv_ok [OF ok that] by simp
  show "rc_ok (snd (rcNextKv c)) \<and>
    map recKey (kvLive (rcRest (snd (rcNextKv c)))) = tl (map recKey (kvLive (rcRest c))) \<and>
    map recKey (kvLive (Records (rcRun (snd (rcNextKv c))))) = map recKey (kvLive (Records (rcRun c)))"
    using rcNextKv_ok [OF ok] by (simp add: map_tl)
  show "rc_ok (rcSeek t c) \<and>
    map recKey (kvLive (rcRest (rcSeek t c))) = dropWhile (\<lambda>k. k < t) (map recKey (kvLive (Records (rcRun c)))) \<and>
    map recKey (kvLive (Records (rcRun (rcSeek t c)))) = map recKey (kvLive (Records (rcRun c)))"
    using rcSeek_ok [OF ok, of t] by (simp add: filter_dropWhile_key [OF asc] map_dropWhile_key)
qed

end
