(* ===== verification/MinHeap.thy ===== *)
theory MinHeap
  imports Prelude
begin

text \<open>
  The binary min-heap of \<^verbatim>\<open>src/go/internal/cursor/cursor.go\<close> (\<open>minHeap.push\<close>, \<open>minHeap.pop\<close>): an
  array of (key, source) entries with the sift-up and sift-down loops written over indices and
  swaps. The priority-queue contract the merge relies on is a locale, interpreted on this heap.
\<close>

section \<open>The heap operations\<close>

record heapEntry =
  heKey :: bytes
  heSrc :: nat

definition swap :: "'a list \<Rightarrow> nat \<Rightarrow> nat \<Rightarrow> 'a list" where
  "swap d i j = d[i := d ! j, j := d ! i]"

function siftUp :: "heapEntry list \<Rightarrow> nat \<Rightarrow> heapEntry list" where
  "siftUp d i =
     (if i > 0 then
        let p = (i - 1) div 2
        in if cmp_loop (heKey (d ! i)) (heKey (d ! p)) < 0 then siftUp (swap d i p) p else d
      else d)"
  by pat_completeness auto
termination
  by (relation "measure snd") (auto simp: Let_def)

definition heapPush :: "heapEntry \<Rightarrow> heapEntry list \<Rightarrow> heapEntry list" where
  "heapPush e d = siftUp (d @ [e]) (length d)"

function siftDown :: "heapEntry list \<Rightarrow> nat \<Rightarrow> heapEntry list" where
  "siftDown d i =
     (let l = 2 * i + 1
      in if l \<ge> length d then d
         else
           let s1 = (if cmp_loop (heKey (d ! l)) (heKey (d ! i)) < 0 then l else i);
               r = l + 1;
               smallest = (if r < length d \<and> cmp_loop (heKey (d ! r)) (heKey (d ! s1)) < 0 then r else s1)
           in if smallest \<noteq> i then siftDown (swap d i smallest) smallest else d)"
  by pat_completeness auto
termination
  by (relation "measure (\<lambda>(d, i). length d - i)") (auto simp: Let_def swap_def split: if_splits)

declare siftUp.simps [simp del] siftDown.simps [simp del]

text \<open>\<open>pop\<close> indexes \<open>h.data[0]\<close>: on an empty heap it panics, which \<open>None\<close> stands for; the merge
  only pops after checking the length.\<close>

definition heapPop :: "heapEntry list \<Rightarrow> (heapEntry \<times> heapEntry list) option" where
  "heapPop d =
     (if d = [] then None
      else Some (d ! 0, siftDown (butlast (d[0 := last d])) 0))"

section \<open>The heap property\<close>

abbreviation le_at :: "heapEntry list \<Rightarrow> nat \<Rightarrow> nat \<Rightarrow> bool" where
  "le_at d i j \<equiv> heKey (d ! i) \<le> heKey (d ! j)"

definition parent :: "nat \<Rightarrow> nat" where
  "parent j = (j - 1) div 2"

definition heap_ok :: "heapEntry list \<Rightarrow> bool" where
  "heap_ok d \<longleftrightarrow> (\<forall>j. 0 < j \<longrightarrow> j < length d \<longrightarrow> le_at d (parent j) j)"

text \<open>The heap property with a hole at the child \<open>i\<close> (sift-up) or at the parent \<open>i\<close> (sift-down).\<close>

definition heap_up :: "heapEntry list \<Rightarrow> nat \<Rightarrow> bool" where
  "heap_up d i \<longleftrightarrow> (\<forall>j. 0 < j \<longrightarrow> j < length d \<longrightarrow> j \<noteq> i \<longrightarrow> le_at d (parent j) j)
     \<and> (\<forall>j. 0 < j \<longrightarrow> j < length d \<longrightarrow> parent j = i \<longrightarrow> 0 < i \<longrightarrow> le_at d (parent i) j)"

definition heap_down :: "heapEntry list \<Rightarrow> nat \<Rightarrow> bool" where
  "heap_down d i \<longleftrightarrow> (\<forall>j. 0 < j \<longrightarrow> j < length d \<longrightarrow> parent j \<noteq> i \<longrightarrow> le_at d (parent j) j)
     \<and> (\<forall>j. 0 < j \<longrightarrow> j < length d \<longrightarrow> parent j = i \<longrightarrow> 0 < i \<longrightarrow> le_at d (parent i) j)"

lemma parent_less: "0 < j \<Longrightarrow> parent j < j"
  by (auto simp: parent_def)

lemma parent_eq_iff: "0 < j \<Longrightarrow> parent j = i \<longleftrightarrow> j = 2 * i + 1 \<or> j = 2 * i + 2"
  unfolding parent_def by presburger

lemma length_swap [simp]: "length (swap d i j) = length d"
  by (simp add: swap_def)

lemma nth_swap:
  "i < length d \<Longrightarrow> j < length d \<Longrightarrow> k < length d \<Longrightarrow>
     swap d i j ! k = (if k = i then d ! j else if k = j then d ! i else d ! k)"
  by (auto simp: swap_def nth_list_update)

lemma mset_swap_eq: "i < length d \<Longrightarrow> j < length d \<Longrightarrow> mset (swap d i j) = mset d"
  by (simp add: swap_def mset_swap)

lemma heap_min:
  assumes "heap_ok d" "i < length d"
  shows "le_at d 0 i"
  using assms(2)
proof (induction i rule: less_induct)
  case (less i)
  show ?case
  proof (cases "i = 0")
    case False
    then have "le_at d 0 (parent i)" using less parent_less [of i] by simp
    moreover have "le_at d (parent i) i" using assms(1) less.prems False by (simp add: heap_ok_def)
    ultimately show ?thesis by simp
  qed simp
qed

lemma heap_up_step:
  assumes "heap_up d i" "0 < i" "i < length d" "heKey (d ! i) < heKey (d ! parent i)"
  shows "heap_up (swap d i (parent i)) (parent i)"
proof -
  let ?p = "parent i" and ?e = "swap d i (parent i)"
  have p: "?p < i" "?p < length d" using assms(2,3) parent_less [of i] by simp_all
  have a: "le_at d (parent j) j" if "0 < j" "j < length d" "j \<noteq> i" for j
    using assms(1) that by (simp add: heap_up_def)
  have b: "le_at d ?p j" if "0 < j" "j < length d" "parent j = i" for j
    using assms(1,2) that by (simp add: heap_up_def)
  have n: "?e ! k = (if k = i then d ! ?p else if k = ?p then d ! i else d ! k)" if "k < length d" for k
    using nth_swap [OF assms(3) p(2) that] .
  have "le_at ?e (parent j) j" if j: "0 < j" "j < length d" "j \<noteq> ?p" for j
  proof -
    have pj: "parent j < length d" using parent_less [of j] j by simp
    consider "j = i" | "j \<noteq> i" "parent j = i" | "j \<noteq> i" "parent j = ?p" "parent j \<noteq> i"
      | "j \<noteq> i" "parent j \<noteq> i" "parent j \<noteq> ?p" by blast
    then show ?thesis
    proof cases
      case 1
      then show ?thesis using assms(4) n [OF j(2)] n [OF pj] p by simp
    next
      case 2
      then show ?thesis using b [OF j(1,2)] n [OF j(2)] n [OF pj] j(3) p by simp
    next
      case 3
      then have "heKey (d ! i) \<le> heKey (d ! j)" using assms(4) a [OF j(1,2)] by simp
      then show ?thesis using 3 n [OF j(2)] n [OF pj] j(3) p by simp
    next
      case 4
      then show ?thesis using a [OF j(1,2)] n [OF j(2)] n [OF pj] j(3) by simp
    qed
  qed
  moreover have "le_at ?e (parent ?p) j" if j: "0 < j" "j < length d" "parent j = ?p" "0 < ?p" for j
  proof -
    have pp: "parent ?p < ?p" "parent ?p < length d" "parent ?p \<noteq> i"
      using parent_less [OF j(4)] p by simp_all
    have "le_at d (parent ?p) ?p" using a [OF j(4) p(2)] p by simp
    moreover have "j \<noteq> ?p" using j parent_less [of j] by auto
    moreover have "le_at d ?p j" if "j \<noteq> i" using a [OF j(1,2) that] j(3) by simp
    ultimately show ?thesis using n [OF j(2)] n [OF pp(2)] pp(1,3)
      by (cases "j = i") (auto intro: order_trans)
  qed
  ultimately show ?thesis by (simp add: heap_up_def)
qed

lemma siftUp_ok:
  assumes "heap_up d i" "i < length d"
  shows "heap_ok (siftUp d i) \<and> mset (siftUp d i) = mset d"
  using assms
proof (induction d i rule: siftUp.induct)
  case (1 d i)
  show ?case
  proof (cases "0 < i \<and> heKey (d ! i) < heKey (d ! parent i)")
    case True
    then have s: "siftUp d i = siftUp (swap d i (parent i)) (parent i)"
      by (subst siftUp.simps) (simp add: cmp_simps parent_def Let_def)
    have p: "parent i < length d" using parent_less [of i] True "1.prems" by simp
    have "heap_ok (siftUp (swap d i (parent i)) (parent i))
        \<and> mset (siftUp (swap d i (parent i)) (parent i)) = mset (swap d i (parent i))"
      using "1.IH" [OF _ parent_def, of] True "1.prems" heap_up_step [of d i] p
      by (simp add: cmp_simps parent_def)
    then show ?thesis using s mset_swap_eq [OF "1.prems"(2) p] by simp
  next
    case False
    then have s: "siftUp d i = d"
      by (subst siftUp.simps) (auto simp add: cmp_simps parent_def Let_def)
    have "le_at d (parent j) j" if "0 < j" "j < length d" for j
      using "1.prems"(1) False that by (cases "j = i") (auto simp: heap_up_def)
    then show ?thesis using s by (simp add: heap_ok_def)
  qed
qed

lemma heapPush_ok:
  assumes "heap_ok d"
  shows "heap_ok (heapPush e d) \<and> mset (heapPush e d) = add_mset e (mset d)"
proof -
  have "heap_up (d @ [e]) (length d)"
    using assms parent_less
    by (fastforce simp: heap_up_def heap_ok_def nth_append dest: parent_less)
  then show ?thesis using siftUp_ok [of "d @ [e]" "length d"] by (simp add: heapPush_def)
qed

lemma heap_down_step:
  assumes "heap_down d i" "i < length d" "s < length d" "0 < s" "parent s = i"
    "heKey (d ! s) < heKey (d ! i)"
    "\<And>j. 0 < j \<Longrightarrow> j < length d \<Longrightarrow> parent j = i \<Longrightarrow> le_at d s j"
  shows "heap_down (swap d i s) s"
proof -
  let ?e = "swap d i s"
  have lis: "i < s" using parent_less [OF assms(4)] assms(5) by simp
  have a: "le_at d (parent j) j" if "0 < j" "j < length d" "parent j \<noteq> i" for j
    using assms(1) that by (simp add: heap_down_def)
  have b: "le_at d (parent i) j" if "0 < j" "j < length d" "parent j = i" "0 < i" for j
    using assms(1) that by (simp add: heap_down_def)
  have n: "?e ! k = (if k = i then d ! s else if k = s then d ! i else d ! k)" if "k < length d" for k
    using nth_swap [OF assms(2,3) that] .
  have "le_at ?e (parent j) j" if j: "0 < j" "j < length d" "parent j \<noteq> s" for j
  proof -
    have pj: "parent j < length d" using parent_less [of j] j by simp
    consider "j = i" | "j = s" | "j \<noteq> i" "j \<noteq> s" "parent j = i" | "j \<noteq> i" "j \<noteq> s" "parent j \<noteq> i" by blast
    then show ?thesis
    proof cases
      case 1
      have "parent j \<noteq> i" using 1 j(1) parent_less [of j] by simp
      moreover have "le_at d (parent i) s" using b [OF assms(4,3,5)] 1 j(1) by simp
      ultimately show ?thesis using 1 j n [OF j(2)] n [OF pj] by simp
    next
      case 2
      then show ?thesis using assms(5,6) lis n [OF j(2)] n [OF pj] by simp
    next
      case 3
      then show ?thesis using assms(7) [OF j(1,2)] n [OF j(2)] n [OF pj] by simp
    next
      case 4
      then show ?thesis using a [OF j(1,2)] j(3) n [OF j(2)] n [OF pj] by simp
    qed
  qed
  moreover have "le_at ?e (parent s) j" if j: "0 < j" "j < length d" "parent j = s" for j
  proof -
    have "s < j" using parent_less [OF j(1)] j(3) by simp
    moreover have "le_at d s j" using a [OF j(1,2)] j(3) lis by simp
    ultimately show ?thesis using lis assms(2,5) n [OF j(2)] n [OF assms(2)] by simp
  qed
  ultimately show ?thesis by (simp add: heap_down_def)
qed

text \<open>What the two comparisons of the sift-down body select.\<close>

definition smallestOf :: "heapEntry list \<Rightarrow> nat \<Rightarrow> nat" where
  "smallestOf d i =
     (let l = 2 * i + 1; r = l + 1;
          s1 = (if heKey (d ! l) < heKey (d ! i) then l else i)
      in if r < length d \<and> heKey (d ! r) < heKey (d ! s1) then r else s1)"

lemma siftDown_unfold:
  "siftDown d i =
     (if 2 * i + 1 \<ge> length d then d
      else if smallestOf d i \<noteq> i then siftDown (swap d i (smallestOf d i)) (smallestOf d i) else d)"
  unfolding siftDown.simps [of d i] smallestOf_def Let_def cmp_simps by (rule refl)

lemma smallestOf_props:
  assumes "2 * i + 1 < length d"
  shows "smallestOf d i \<noteq> i \<Longrightarrow> smallestOf d i < length d \<and> i < smallestOf d i \<and> parent (smallestOf d i) = i
      \<and> heKey (d ! smallestOf d i) < heKey (d ! i)"
    and "j < length d \<Longrightarrow> 0 < j \<Longrightarrow> parent j = i \<Longrightarrow> le_at d (smallestOf d i) j"
proof -
  show "smallestOf d i < length d \<and> i < smallestOf d i \<and> parent (smallestOf d i) = i
      \<and> heKey (d ! smallestOf d i) < heKey (d ! i)" if "smallestOf d i \<noteq> i"
    using assms that by (auto simp: smallestOf_def Let_def parent_def split: if_splits)
  assume "j < length d" "0 < j" "parent j = i"
  then have "j = 2 * i + 1 \<or> j = 2 * i + 2 \<and> 2 * i + 2 < length d" using parent_eq_iff [of j i] by auto
  then show "le_at d (smallestOf d i) j"
    by (auto simp: smallestOf_def Let_def not_less)
qed

lemma siftDown_ok:
  assumes "heap_down d i"
  shows "heap_ok (siftDown d i) \<and> mset (siftDown d i) = mset d"
  using assms
proof (induction "length d - i" arbitrary: d i rule: less_induct)
  case (less d i)
  have fin: "heap_ok d" if "\<And>j. 0 < j \<Longrightarrow> j < length d \<Longrightarrow> parent j = i \<Longrightarrow> le_at d i j"
    using less.prems that by (auto simp: heap_ok_def heap_down_def)
  show ?case
  proof (cases "2 * i + 1 < length d \<and> smallestOf d i \<noteq> i")
    case True
    define s where "s = smallestOf d i"
    have s: "s < length d" "i < s" "parent s = i" "heKey (d ! s) < heKey (d ! i)"
      using smallestOf_props(1) [of i d] True by (auto simp: s_def)
    have "heap_down (swap d i s) s"
      using less.prems s smallestOf_props(2) [of i d] True
      by (intro heap_down_step) (auto simp: s_def)
    then have "heap_ok (siftDown (swap d i s) s) \<and> mset (siftDown (swap d i s) s) = mset (swap d i s)"
      using less.hyps [of "swap d i s" s] s by simp
    moreover have "siftDown d i = siftDown (swap d i s) s"
      using True siftDown_unfold [of d i] by (simp add: s_def)
    ultimately show ?thesis using mset_swap_eq [of i d s] s by simp
  next
    case False
    then have "siftDown d i = d" by (subst siftDown_unfold) auto
    moreover have "heap_ok d"
    proof (rule fin)
      fix j assume j: "0 < j" "j < length d" "parent j = i"
      then have "2 * i + 1 < length d" by (auto simp: parent_eq_iff)
      then show "le_at d i j" using smallestOf_props(2) [of i d j] j False by simp
    qed
    ultimately show ?thesis by simp
  qed
qed

lemma heapPop_ok:
  assumes "heap_ok d" "heapPop d = Some (e, d')"
  shows "heap_ok d' \<and> mset d = add_mset e (mset d') \<and> (\<forall>x \<in># mset d. heKey e \<le> heKey x)"
proof -
  have ne: "d \<noteq> []" and e: "e = d ! 0" and d': "d' = siftDown (butlast (d[0 := last d])) 0"
    using assms(2) by (auto simp: heapPop_def split: if_splits)
  let ?b = "butlast (d[0 := last d])"
  have len: "length ?b = length d - 1" by simp
  have nb: "?b ! k = (if k = 0 then last d else d ! k)" if "k < length ?b" for k
    using that ne by (simp add: nth_butlast nth_list_update)
  have "heap_down ?b 0"
  proof -
    have "le_at ?b (parent j) j" if "0 < j" "j < length ?b" "parent j \<noteq> 0" for j
      using nb [of j] nb [of "parent j"] parent_less [of j] that assms(1) by (simp add: heap_ok_def)
    then show ?thesis by (simp add: heap_down_def)
  qed
  then have sd: "heap_ok d'" "mset d' = mset ?b" using siftDown_ok d' by auto
  have "mset d = add_mset (d ! 0) (mset ?b)"
  proof (cases d)
    case (Cons x xs)
    show ?thesis
    proof (cases "xs = []")
      case False
      then have "mset xs = add_mset (last xs) (mset (butlast xs))"
        by (metis append_butlast_last_id mset.simps(1) mset.simps(2) union_code mset_append add_mset_add_single)
      then show ?thesis using Cons False by simp
    qed (use Cons in simp)
  qed (use ne in simp)
  moreover have "heKey e \<le> heKey x" if "x \<in># mset d" for x
    using that heap_min [OF assms(1)] e by (auto simp: in_set_conv_nth)
  ultimately show ?thesis using sd e by auto
qed

section \<open>The priority-queue contract\<close>

text \<open>What the merge needs of its heap: elements in and out are accounted for and a pop is minimal.\<close>

locale prio_queue =
  fixes key :: "'e \<Rightarrow> 'k::linorder" and inv :: "'h \<Rightarrow> bool" and elems :: "'h \<Rightarrow> 'e multiset"
    and push :: "'e \<Rightarrow> 'h \<Rightarrow> 'h" and pop :: "'h \<Rightarrow> ('e \<times> 'h) option"
  assumes push: "inv h \<Longrightarrow> inv (push e h) \<and> elems (push e h) = add_mset e (elems h)"
    and pop_None: "inv h \<Longrightarrow> pop h = None \<longleftrightarrow> elems h = {#}"
    and pop_Some: "inv h \<Longrightarrow> pop h = Some (e, h') \<Longrightarrow>
      inv h' \<and> elems h = add_mset e (elems h') \<and> (\<forall>x \<in># elems h. key e \<le> key x)"
begin

lemma push_all: "inv h \<Longrightarrow> inv (fold push es h) \<and> elems (fold push es h) = elems h + mset es"
  by (induction es arbitrary: h) (auto simp: push)

primrec pops :: "nat \<Rightarrow> 'h \<Rightarrow> 'e list" where
  "pops 0 h = []"
| "pops (Suc n) h = (case pop h of None \<Rightarrow> [] | Some (e, h') \<Rightarrow> e # pops n h')"

lemma set_pops: "inv h \<Longrightarrow> set (pops n h) \<subseteq> set_mset (elems h)"
proof (induction n arbitrary: h)
  case (Suc n)
  show ?case
  proof (cases "pop h")
    case (Some eh)
    obtain e h' where eh: "eh = (e, h')" by fastforce
    have p: "inv h'" "elems h = add_mset e (elems h')" using pop_Some [OF Suc.prems] Some eh by auto
    then show ?thesis using Suc.IH [OF p(1)] Some eh by auto
  qed simp
qed simp

lemma pops_sorted: "inv h \<Longrightarrow> sorted (map key (pops n h))"
proof (induction n arbitrary: h)
  case (Suc n)
  show ?case
  proof (cases "pop h")
    case (Some eh)
    obtain e h' where eh: "eh = (e, h')" by fastforce
    have p: "inv h'" "elems h = add_mset e (elems h')" "\<forall>x \<in># elems h. key e \<le> key x"
      using pop_Some [OF Suc.prems] Some eh by auto
    then show ?thesis using Suc.IH [OF p(1)] set_pops [OF p(1), of n] Some eh by auto
  qed simp
qed simp

lemma pops_all: "inv h \<Longrightarrow> size (elems h) \<le> n \<Longrightarrow> mset (pops n h) = elems h"
proof (induction n arbitrary: h)
  case (Suc n)
  show ?case
  proof (cases "pop h")
    case None
    then show ?thesis using pop_None [OF Suc.prems(1)] by simp
  next
    case (Some eh)
    obtain e h' where eh: "eh = (e, h')" by fastforce
    have p: "inv h'" "elems h = add_mset e (elems h')" using pop_Some [OF Suc.prems(1)] Some eh by auto
    then show ?thesis using Suc.IH [OF p(1)] Suc.prems(2) Some eh by simp
  qed
qed simp

end

interpretation mh: prio_queue heKey heap_ok mset heapPush heapPop
  by unfold_locales (auto simp: heapPush_ok heapPop_def heapPop_ok dest: heapPop_ok)

primrec popAll :: "nat \<Rightarrow> heapEntry list \<Rightarrow> heapEntry list" where
  "popAll 0 h = []"
| "popAll (Suc n) h = (case heapPop h of None \<Rightarrow> [] | Some (e, h') \<Rightarrow> e # popAll n h')"

lemma popAll_pops: "popAll n h = mh.pops n h"
  by (induction n arbitrary: h) (simp_all split: option.split)

text \<open>The index-and-swap heap is a priority queue: pushing any entries onto an empty heap and
  popping them all yields exactly those entries in ascending key order.\<close>

theorem heap_sorts:
  "sorted (map heKey (popAll (length es) (fold heapPush es [])))
   \<and> mset (popAll (length es) (fold heapPush es [])) = mset es"
proof -
  have ok: "heap_ok []" by (simp add: heap_ok_def)
  note all = mh.push_all [OF ok, of es]
  have "size (mset (fold heapPush es [])) \<le> length es" using all by simp
  then show ?thesis
    using mh.pops_sorted [OF conjunct1 [OF all]] mh.pops_all [OF conjunct1 [OF all]] all
    by (simp add: popAll_pops)
qed

end
