(* ===== verification/Sexpr.thy ===== *)
theory Sexpr
  imports Prelude
begin

text \<open>
  The Scheme S-expressions of \<^verbatim>\<open>src/go/internal/sexpr/sexpr.go\<close>: the node type that the query
  programs, the scanner and the value decoder share.
\<close>

section \<open>S-expression nodes\<close>

datatype expr =
    SInt int64
  | SFloat float64
  | SStr string
  | SBool bool
  | SVoid
  | SBytes bytes
  | SSymbol string
  | SKeyword string
  | SList "expr list"
  | SResource int

end
