(* ===== verification/Keys.thy ===== *)
theory Keys
  imports Sexpr
begin

text \<open>
  The key encoding of the EAVT engine, \<^verbatim>\<open>src/go/internal/eavt/keys.go\<close>: the value encodings
  (sign-flipped integers, order-preserving floats, 8+1 block strings, length-prefixed blobs), the
  transaction suffix, the four index keys of a datom, and the decoders. The lemmas show that every
  encoding is inverted by its decoder and that byte order on keys is the order on datoms the
  indexes rely on.
\<close>

unbundle bit_operations_syntax

section \<open>Value types and encode modes\<close>

definition DbTypeString :: uint32 where [simp]: "DbTypeString = 20"
definition DbTypeRef :: uint32 where [simp]: "DbTypeRef = 21"
definition DbTypeLong :: uint32 where [simp]: "DbTypeLong = 22"
definition DbTypeKeyword :: uint32 where [simp]: "DbTypeKeyword = 23"
definition DbTypeBoolean :: uint32 where [simp]: "DbTypeBoolean = 24"
definition DbTypeInstant :: uint32 where [simp]: "DbTypeInstant = 25"
definition DbTypeBytes :: uint32 where [simp]: "DbTypeBytes = 26"
definition DbTypeFloat :: uint32 where [simp]: "DbTypeFloat = 27"
definition DbTypeBlob :: uint32 where [simp]: "DbTypeBlob = 28"

datatype EncodeMode = EmRef | EmVariable | EmBlob | EmFixed

section \<open>The transaction suffix\<close>

definition EncodeSuffix :: "int64 \<Rightarrow> bool \<Rightarrow> uint64" where
  "EncodeSuffix t retracted =
     (let s = push_bit 1 t in if retracted then s OR 1 else s)"

definition DecodeSuffix :: "uint64 \<Rightarrow> int64 \<times> bool" where
  "DecodeSuffix encoded = (drop_bit 1 encoded, encoded AND 1 \<noteq> 0)"

section \<open>Value encodings\<close>

definition signBit :: uint64 where
  "signBit = push_bit 63 1"

definition EncodeInt :: "int64 \<Rightarrow> bytes" where
  "EncodeInt n = put_be 8 (n XOR signBit)"

definition EncodeEid :: "int64 \<Rightarrow> bytes" where
  "EncodeEid eid = EncodeInt eid"

text \<open>\<open>math.Float64bits\<close> is the identity on the bit patterns that stand for floats here.\<close>

definition orderFloatBits :: "float64 \<Rightarrow> uint64" where
  "orderFloatBits x = (if drop_bit 63 x = 1 then NOT x else x XOR signBit)"

definition EncodeFloat :: "float64 \<Rightarrow> bytes" where
  "EncodeFloat f = put_be 8 (orderFloatBits f)"

definition firstNul :: "bytes \<Rightarrow> nat" where
  "firstNul s = length (takeWhile (\<lambda>b. b \<noteq> 0) s)"

text \<open>The loop body of \<open>EncodeVariable\<close>: blocks of eight bytes, each with a control byte.\<close>

function encodeVariableFrom :: "bytes \<Rightarrow> nat \<Rightarrow> nat \<Rightarrow> bytes" where
  "encodeVariableFrom s n pos =
     (if pos < n then
        let remaining = n - pos
        in (if remaining > 8
            then slice s pos (pos + 8) @ [0xff]
            else slice s pos (pos + remaining) @ replicate (8 - remaining) 0
                   @ [word_of_nat remaining])
           @ encodeVariableFrom s n (pos + 8)
      else [])"
  by pat_completeness auto
termination
  by (relation "measure (\<lambda>(s, n, pos). n - pos)") auto

declare encodeVariableFrom.simps [simp del]

definition EncodeVariable :: "string \<Rightarrow> bytes" where
  "EncodeVariable s = (let b = bytes_of s in encodeVariableFrom b (firstNul b) 0)"

definition EncodeVariableUnordered :: "bytes \<Rightarrow> bytes" where
  "EncodeVariableUnordered data = put_be 4 (word_of_nat (length data) :: uint32) @ data"

text \<open>\<open>strconv.ParseInt(s, 10, 64)\<close>: an optional sign, then decimal digits, then the range check.\<close>

definition isDigitChar :: "char \<Rightarrow> bool" where
  "isDigitChar c = (48 \<le> (of_char c :: nat) \<and> (of_char c :: nat) \<le> 57)"

definition ParseInt64 :: "string \<Rightarrow> int64 option" where
  "ParseInt64 s =
     (let (neg, ds) = (case s of [] \<Rightarrow> (False, [])
           | c # r \<Rightarrow> if c = CHR ''-'' then (True, r)
                    else if c = CHR ''+'' then (False, r) else (False, s))
      in if ds = [] \<or> \<not> list_all isDigitChar ds then None
         else let un = foldl (\<lambda>a c. a * 10 + (of_char c - 48)) (0::nat) ds
              in if neg then (if un > 2 ^ 63 then None else Some (word_of_int (- int un)))
                 else (if un \<ge> 2 ^ 63 then None else Some (word_of_int (int un))))"

text \<open>
  \<open>parseFloat\<close> stands for \<open>strconv.ParseFloat(v, 64)\<close> (the correctly rounded decimal conversion
  of Go's library), applied only when the text is no boolean and no 64-bit integer.
\<close>

definition EncodeValue ::
  "(string \<Rightarrow> float64 option) \<Rightarrow> string \<Rightarrow> EncodeMode \<Rightarrow> int64 \<Rightarrow> bytes result" where
  "EncodeValue parseFloat v mode refEid =
     (case mode of
        EmRef \<Rightarrow> Inr (EncodeEid refEid)
      | EmVariable \<Rightarrow> Inr (EncodeVariable v)
      | EmBlob \<Rightarrow> Inr (EncodeVariableUnordered (bytes_of v))
      | EmFixed \<Rightarrow>
          if v = ''true'' then Inr (EncodeInt 1)
          else if v = ''false'' then Inr (EncodeInt 0)
          else (case ParseInt64 v of
                  Some n \<Rightarrow> Inr (EncodeInt n)
                | None \<Rightarrow> (case parseFloat v of
                      Some f \<Rightarrow> Inr (EncodeFloat f)
                    | None \<Rightarrow> Inl (Error ''cannot encode fixed value (not int/float)''))))"

section \<open>Key builders\<close>

definition BuildEavtKey :: "int64 \<Rightarrow> uint32 \<Rightarrow> bytes \<Rightarrow> int64 \<Rightarrow> bool \<Rightarrow> bytes" where
  "BuildEavtKey eid attr valueEncoded t retracted =
     EncodeEid eid @ put_be 4 attr @ valueEncoded @ put_be 8 (EncodeSuffix t retracted)"

definition BuildAevtKey :: "uint32 \<Rightarrow> int64 \<Rightarrow> bytes \<Rightarrow> int64 \<Rightarrow> bool \<Rightarrow> bytes" where
  "BuildAevtKey attr eid valueEncoded t retracted =
     put_be 4 attr @ EncodeEid eid @ valueEncoded @ put_be 8 (EncodeSuffix t retracted)"

definition BuildAvetKey :: "uint32 \<Rightarrow> bytes \<Rightarrow> int64 \<Rightarrow> int64 \<Rightarrow> bool \<Rightarrow> bytes" where
  "BuildAvetKey attr valueEncoded eid t retracted =
     put_be 4 attr @ valueEncoded @ EncodeEid eid @ put_be 8 (EncodeSuffix t retracted)"

definition BuildVaetKey :: "bytes \<Rightarrow> uint32 \<Rightarrow> int64 \<Rightarrow> int64 \<Rightarrow> bool \<Rightarrow> bytes" where
  "BuildVaetKey valueEncoded attr eid t retracted =
     valueEncoded @ put_be 4 attr @ EncodeEid eid @ put_be 8 (EncodeSuffix t retracted)"

record EavtEntry =
  CF :: byte
  Key :: bytes

text \<open>
  \<open>copy(p[off:], b)\<close> on a slice that is long enough, and the two stores of the bulk builder.
\<close>

definition copyAt :: "bytes \<Rightarrow> nat \<Rightarrow> bytes \<Rightarrow> bytes" where
  "copyAt p off b = take off p @ take (length p - off) b @ drop (off + length b) p"

definition storeBE64 :: "bytes \<Rightarrow> nat \<Rightarrow> uint64 \<Rightarrow> bytes" where
  "storeBE64 p off v = copyAt p off (put_be 8 v)"

definition storeBE32 :: "bytes \<Rightarrow> nat \<Rightarrow> uint32 \<Rightarrow> bytes" where
  "storeBE32 p off v = copyAt p off (put_be 4 v)"

definition BuildEavtEntries ::
  "int64 \<Rightarrow> uint32 \<Rightarrow> bytes \<Rightarrow> int64 \<Rightarrow> bool \<Rightarrow> EncodeMode \<Rightarrow> bool \<Rightarrow> EavtEntry list" where
  "BuildEavtEntries eid attr encodedValue t retracted mode indexed =
     (let sf = EncodeSuffix t retracted;
          ex = eid XOR signBit;
          vlen = length encodedValue;
          klen = 8 + 4 + vlen + 8;
          blank = replicate klen 0;
          eavt = storeBE64 (copyAt (storeBE32 (storeBE64 blank 0 ex) 8 attr) 12 encodedValue)
                   (12 + vlen) sf;
          aevt = storeBE64 (copyAt (storeBE64 (storeBE32 blank 0 attr) 4 ex) 12 encodedValue)
                   (12 + vlen) sf;
          avet = storeBE64 (storeBE64 (copyAt (storeBE32 blank 0 attr) 4 encodedValue) (4 + vlen) ex)
                   (12 + vlen) sf;
          vaet = storeBE64 (storeBE64 (storeBE32 (copyAt blank 0 encodedValue) vlen attr)
                   (vlen + 4) ex) (vlen + 12) sf;
          base = [\<lparr>CF = 0, Key = eavt\<rparr>, \<lparr>CF = 1, Key = aevt\<rparr>]
      in if mode = EmRef
         then base @ [\<lparr>CF = 3, Key = vaet\<rparr>] @ (if indexed then [\<lparr>CF = 2, Key = avet\<rparr>] else [])
         else base @ (if indexed then [\<lparr>CF = 2, Key = avet\<rparr>] else []))"

section \<open>Decoding\<close>

definition DecodeInt64 :: "uint64 \<Rightarrow> int64" where
  "DecodeInt64 raw = raw XOR signBit"

definition DecodeEid :: "uint64 \<Rightarrow> int64" where
  "DecodeEid raw = DecodeInt64 raw"

definition DecodeFloat64 :: "uint64 \<Rightarrow> float64" where
  "DecodeFloat64 raw = (if drop_bit 63 raw = 1 then raw XOR signBit else NOT raw)"

text \<open>
  The two readers index \<open>data[start] \<dots> data[start+7]\<close> (\<open>data[start+3]\<close>); every call in the
  sources is behind a length check, which the models of the callers repeat.
\<close>

definition BeUint64 :: "bytes \<Rightarrow> nat \<Rightarrow> uint64" where
  "BeUint64 data start = get_be (slice data start (start + 8))"

definition BeUint32 :: "bytes \<Rightarrow> nat \<Rightarrow> uint32" where
  "BeUint32 data start = get_be (slice data start (start + 4))"

function decodeVariableFrom :: "bytes \<Rightarrow> nat \<Rightarrow> bytes \<Rightarrow> bytes" where
  "decodeVariableFrom data pos b =
     (if pos + 9 \<le> length data then
        let control = data ! (pos + 8);
            b' = b @ slice data pos (pos + 8)
        in if control \<noteq> 0xff
           then (let valid = unat control
                 in if valid < 8 then take (length b' - (8 - valid)) b' else b')
           else decodeVariableFrom data (pos + 9) b'
      else b)"
  by pat_completeness auto
termination
  by (relation "measure (\<lambda>(data, pos, b). length data - pos)") auto

declare decodeVariableFrom.simps [simp del]

definition DecodeVariableStr :: "bytes \<Rightarrow> nat \<Rightarrow> string" where
  "DecodeVariableStr data start = string_of (decodeVariableFrom data start [])"

definition DecodeStoredValue :: "bytes \<Rightarrow> uint32 \<Rightarrow> expr" where
  "DecodeStoredValue data vt =
     (if vt = DbTypeRef then
        (if length data \<ge> 8 then SInt (DecodeInt64 (BeUint64 data 0)) else SInt 0)
      else if vt = DbTypeBoolean then
        (if length data \<ge> 8 then SBool (DecodeInt64 (BeUint64 data 0) \<noteq> 0) else SBool False)
      else if vt = DbTypeLong \<or> vt = DbTypeInstant then
        (if length data \<ge> 8 then SInt (DecodeInt64 (BeUint64 data 0)) else SInt 0)
      else if vt = DbTypeFloat then
        (if length data \<ge> 8 then SFloat (DecodeFloat64 (BeUint64 data 0)) else SFloat 0)
      else if vt = DbTypeBytes \<or> vt = DbTypeBlob then
        (if length data \<ge> 4
         then let n = unat (BeUint32 data 0);
                  m = (if n > length data - 4 then length data - 4 else n)
              in SBytes (slice data 4 (4 + m))
         else SBytes [])
      else SStr (DecodeVariableStr data 0))"

definition EncodeFixed :: "expr \<Rightarrow> bytes" where
  "EncodeFixed val =
     (case val of
        SInt v \<Rightarrow> put_be 8 (v XOR signBit)
      | SFloat v \<Rightarrow> put_be 8 (orderFloatBits v)
      | SBool v \<Rightarrow> if v then 0x80 # replicate 7 0 else replicate 8 0
      | _ \<Rightarrow> replicate 8 0)"

definition EncodeBoundValue :: "expr \<Rightarrow> bytes" where
  "EncodeBoundValue val =
     (case val of
        SStr v \<Rightarrow> EncodeVariable v
      | SKeyword v \<Rightarrow> EncodeVariable v
      | SBytes v \<Rightarrow> EncodeVariableUnordered v
      | _ \<Rightarrow> EncodeFixed val)"

text \<open>\<open>strings.ToLower\<close> on the ASCII letters, the only ones the index names contain.\<close>

definition lowerChar :: "char \<Rightarrow> char" where
  "lowerChar c = (let n = (of_char c :: nat) in if 65 \<le> n \<and> n \<le> 90 then char_of (n + 32) else c)"

definition CfNameToID :: "string \<Rightarrow> nat" where
  "CfNameToID name =
     (let n = map lowerChar name
      in if n = ''eavt'' then 0 else if n = ''aevt'' then 1
         else if n = ''avet'' then 2 else if n = ''vaet'' then 3 else 0)"

definition IndexOrder :: "string \<Rightarrow> string list" where
  "IndexOrder index =
     (let n = map lowerChar index
      in if n = ''eavt'' then [''e'', ''a'', ''v'']
         else if n = ''aevt'' then [''a'', ''e'', ''v'']
         else if n = ''avet'' then [''a'', ''v'', ''e'']
         else if n = ''vaet'' then [''v'', ''a'', ''e'']
         else [''e'', ''a'', ''v''])"

section \<open>Fixed-width encodings: inverses and order\<close>

lemma DecodeSuffix_EncodeSuffix:
  "0 \<le> sint t \<Longrightarrow> DecodeSuffix (EncodeSuffix t r) = (t, r)"
proof -
  assume "0 \<le> sint t"
  then have msb: "\<not> bit t 63" using bit_last_iff [of t] by simp
  have "drop_bit 1 (EncodeSuffix t r) = t"
  proof (rule bit_word_eqI)
    fix n assume n: "n < LENGTH(64)"
    have "bit (EncodeSuffix t r) (Suc n) = (Suc n < 64 \<and> bit t n)"
      unfolding EncodeSuffix_def Let_def
      by (cases r) (simp_all only: if_True if_False bit_or_iff bit_push_bit_iff bit_1_iff, auto)
    then show "bit (drop_bit 1 (EncodeSuffix t r)) n = bit t n"
      using msb n by (cases "n = 63") (auto simp: bit_drop_bit_eq)
  qed
  moreover have "(EncodeSuffix t r AND 1 \<noteq> 0) = r"
  proof -
    have "bit (EncodeSuffix t r) 0 = r"
      unfolding EncodeSuffix_def Let_def
      by (cases r) (simp_all only: if_True if_False bit_or_iff bit_push_bit_iff bit_1_iff, auto)
    then show ?thesis using and_exp_eq_0_iff_not_bit [of "EncodeSuffix t r" 0] by simp
  qed
  ultimately show ?thesis by (simp add: DecodeSuffix_def)
qed

text \<open>Flipping the sign bit maps the signed order to the unsigned one.\<close>

lemma bit_signBit: "bit signBit n \<longleftrightarrow> n = 63"
  unfolding signBit_def bit_push_bit_iff bit_1_iff by auto

lemma uint_signBit: "uint signBit = 2 ^ 63"
  by (simp add: signBit_def)

lemma xor_signBit_idem [simp]: "(x XOR signBit) XOR signBit = x"
  by (simp add: xor.assoc)

lemma xor_signBit_add: "x XOR signBit = x + signBit"
proof (cases "bit x 63")
  case False
  then have "x AND signBit = 0"
    by (intro bit_word_eqI) (auto simp add: bit_and_iff bit_signBit)
  then show ?thesis by (simp add: disjunctive_add_eq_xor)
next
  case True
  let ?y = "x XOR signBit"
  have "?y AND signBit = 0"
    using True by (intro bit_word_eqI) (auto simp add: bit_and_iff bit_xor_iff bit_signBit)
  then have "?y + signBit = x"
    by (simp add: disjunctive_add_eq_xor)
  then have "x + signBit = ?y + (signBit + signBit)" by (simp only: add.assoc [symmetric])
  also have "signBit + signBit = 0" by (simp add: signBit_def)
  finally show ?thesis by simp
qed

lemma uint_xor_signBit: "uint (x XOR signBit) = sint x + 2 ^ 63"
proof -
  have "uint x = sint x mod 2 ^ 64"
    using uint_sint [of x] by (simp add: take_bit_eq_mod)
  then have "uint (x XOR signBit) = (sint x + 2 ^ 63) mod 2 ^ 64"
    by (simp add: xor_signBit_add uint_word_ariths uint_signBit mod_add_left_eq)
  also have "\<dots> = sint x + 2 ^ 63"
    using sint_ge [of x] sint_lt [of x] by (intro mod_pos_pos_trivial) auto
  finally show ?thesis .
qed

lemma length_EncodeInt [simp]: "length (EncodeInt n) = 8"
  by (simp add: EncodeInt_def)

lemma length_EncodeEid [simp]: "length (EncodeEid n) = 8"
  by (simp add: EncodeEid_def)

lemma length_EncodeFloat [simp]: "length (EncodeFloat n) = 8"
  by (simp add: EncodeFloat_def)

lemma unat_bounded_8: "unat (x :: 64 word) < 256 ^ 8"
  using unsigned_less [of x, where ?'a = nat] by simp

lemma unat_bounded_4: "unat (x :: 32 word) < 256 ^ 4"
  using unsigned_less [of x, where ?'a = nat] by simp

lemmas put_be_8_less = put_be_less_iff [OF unat_bounded_8 unat_bounded_8]
lemmas put_be_4_less = put_be_less_iff [OF unat_bounded_4 unat_bounded_4]
lemmas put_be_8_inject [simp] = put_be_inject [OF unat_bounded_8 unat_bounded_8]
lemmas put_be_4_inject [simp] = put_be_inject [OF unat_bounded_4 unat_bounded_4]

lemma EncodeInt_less_iff: "EncodeInt m < EncodeInt n \<longleftrightarrow> sint m < sint n"
  by (simp add: EncodeInt_def put_be_8_less word_less_def uint_xor_signBit)

lemma EncodeInt_inject [simp]: "EncodeInt m = EncodeInt n \<longleftrightarrow> m = n"
  by (metis EncodeInt_def put_be_8_inject xor_signBit_idem)

lemma BeUint64_put_be:
  "start = length a \<Longrightarrow> BeUint64 (a @ put_be 8 w @ c) start = w"
  by (simp add: BeUint64_def slice_mid)

lemma BeUint32_put_be:
  "start = length a \<Longrightarrow> BeUint32 (a @ put_be 4 w @ c) start = w"
  by (simp add: BeUint32_def slice_mid)

lemma DecodeEid_EncodeEid:
  "start = length a \<Longrightarrow> DecodeEid (BeUint64 (a @ EncodeEid n @ c) start) = n"
  by (simp add: EncodeEid_def EncodeInt_def BeUint64_put_be DecodeEid_def DecodeInt64_def)

section \<open>Floats\<close>

text \<open>
  The exact value of an IEEE-754 binary64 pattern, scaled by \<open>2 ^ 1074\<close> so that it is an
  integer: sign, exponent field and fraction field, with the hidden bit for normal numbers.
\<close>

definition float_mag :: "nat \<Rightarrow> nat \<Rightarrow> nat" where
  "float_mag p m =
     (if m div 2 ^ p = 0 then m mod 2 ^ p else (2 ^ p + m mod 2 ^ p) * 2 ^ (m div 2 ^ p - 1))"

definition f64_scaled :: "float64 \<Rightarrow> int" where
  "f64_scaled x =
     (let m = int (float_mag 52 (unat x mod 2 ^ 63))
      in if bit x 63 then - m else m)"

lemma float_mag_mono:
  assumes "a < b"
  shows "float_mag p a < float_mag p b"
proof -
  define ea fa eb fb where d: "ea = a div 2 ^ p" "fa = a mod 2 ^ p"
    "eb = b div 2 ^ p" "fb = b mod 2 ^ p"
  have ab: "a = ea * 2 ^ p + fa" "b = eb * 2 ^ p + fb"
    unfolding d by (simp_all only: div_mult_mod_eq)
  have f: "fa < 2 ^ p" "fb < 2 ^ p"
    unfolding d by simp_all
  have va: "float_mag p a = (if ea = 0 then fa else (2 ^ p + fa) * 2 ^ (ea - 1))"
    and vb: "float_mag p b = (if eb = 0 then fb else (2 ^ p + fb) * 2 ^ (eb - 1))"
    by (simp_all only: float_mag_def d)
  have le: "ea \<le> eb" using assms unfolding d by (simp add: div_le_mono)
  show ?thesis
  proof (cases "ea = eb")
    case True
    with assms ab have "fa < fb" by simp
    with True show ?thesis by (simp add: va vb)
  next
    case False
    then have lt: "ea < eb" using le by simp
    have "float_mag p a < 2 ^ p * 2 ^ ea"
    proof (cases "ea = 0")
      case True
      then show ?thesis using f by (simp add: va)
    next
      case False
      have "(2 ^ p + fa) * 2 ^ (ea - 1) < (2 ^ p * 2) * 2 ^ (ea - 1)" using f by simp
      also have "(2 ^ p * 2) * 2 ^ (ea - 1) = (2::nat) ^ p * 2 ^ ea"
        using False by (cases ea) simp_all
      finally show ?thesis using False by (simp add: va)
    qed
    also have "(2::nat) ^ p * 2 ^ ea \<le> 2 ^ p * 2 ^ (eb - 1)"
      using lt by (intro mult_le_mono2 power_increasing) auto
    also have "\<dots> \<le> float_mag p b" using lt by (simp add: vb)
    finally show ?thesis .
  qed
qed

lemma float_mag_less_iff: "float_mag p a < float_mag p b \<longleftrightarrow> a < b"
  using float_mag_mono [of a b p] float_mag_mono [of b a p]
  by (cases a b rule: linorder_cases) auto

lemma float_mag_0 [simp]: "float_mag p 0 = 0"
  by (simp add: float_mag_def)

lemma float_mag_zero: "float_mag p m = 0 \<longleftrightarrow> m = 0"
  using float_mag_mono [of 0 m p] by (cases "m = 0") auto

lemma drop_bit_63: "drop_bit 63 (x :: 64 word) = (if bit x 63 then 1 else 0)"
proof (rule bit_word_eqI)
  fix n assume "n < LENGTH(64)"
  have "\<not> bit x (63 + n)" if "n \<noteq> 0"
    using bit_imp_le_length [of x "63 + n"] that by auto
  then show "bit (drop_bit 63 x) n = bit (if bit x 63 then 1 else 0 :: 64 word) n"
    by (cases "n = 0") (auto simp: bit_drop_bit_eq bit_1_iff)
qed

lemma drop_bit_63_eq_1: "drop_bit 63 (x :: 64 word) = 1 \<longleftrightarrow> bit x 63"
  unfolding drop_bit_63 by simp

lemma unat_split_63:
  "unat (x :: 64 word) = (if bit x 63 then 2 ^ 63 else 0) + unat x mod 2 ^ 63"
proof -
  have "unat (drop_bit 63 x) = (if bit x 63 then 1 else 0)" unfolding drop_bit_63 by simp
  moreover have "unat (drop_bit 63 x) = unat x div 2 ^ 63"
    by (subst unat_drop_bit_eq) (simp only: drop_bit_eq_div)
  ultimately have "unat x div 2 ^ 63 = (if bit x 63 then 1 else 0)" by (simp only:)
  then show ?thesis using div_mult_mod_eq [of "unat x" "2 ^ 63"] by (simp split: if_splits)
qed

lemma unat_not: "unat (NOT x :: 64 word) = 2 ^ 64 - 1 - unat x"
proof -
  have "NOT x = - 1 - x" by (simp add: not_eq_complement)
  moreover have "unat (- 1 - x) = unat (- 1 :: 64 word) - unat x"
    by (rule unat_sub) simp
  ultimately show ?thesis by (simp add: unsigned_minus_1_eq_mask mask_eq_exp_minus_1)
qed

lemma unat_orderFloatBits:
  "unat (orderFloatBits x) =
     (if bit x 63 then 2 ^ 63 - 1 - unat x mod 2 ^ 63 else 2 ^ 63 + unat x mod 2 ^ 63)"
proof (cases "bit x 63")
  case True
  show ?thesis using True unat_split_63 [of x] unat_not [of x]
    by (simp add: orderFloatBits_def drop_bit_63_eq_1)
next
  case False
  have "int (unat (x XOR signBit)) = sint x + 2 ^ 63"
    using uint_xor_signBit [of x] by simp
  moreover have "sint x = uint x"
    using False bit_last_iff [of x] uint_sint [of x] sint_lt [of x]
    by (simp add: take_bit_int_eq_self not_less)
  ultimately have "int (unat (x XOR signBit)) = int (unat x + 2 ^ 63)" by simp
  then have "unat (x XOR signBit) = unat x + 2 ^ 63" by (simp only: of_nat_eq_iff)
  then show ?thesis using False unat_split_63 [of x]
    by (simp add: orderFloatBits_def drop_bit_63_eq_1)
qed

lemma unat_mod63: "unat (x :: 64 word) mod 2 ^ 63 < 2 ^ 63"
  by simp

lemma EncodeFloat_unat_less: "EncodeFloat x < EncodeFloat y \<longleftrightarrow> unat (orderFloatBits x) < unat (orderFloatBits y)"
  by (simp add: EncodeFloat_def put_be_8_less word_less_nat_alt)

text \<open>
  Byte order of the float encoding: sign first, then the magnitude, reversed for negative numbers.
\<close>

definition f64_key_less :: "float64 \<Rightarrow> float64 \<Rightarrow> bool" where
  "f64_key_less x y \<longleftrightarrow> f64_scaled x < f64_scaled y \<or> f64_scaled x = f64_scaled y \<and> bit x 63 \<and> \<not> bit y 63"

lemma f64_scaled_if:
  "f64_scaled x = (if bit x 63 then - int (float_mag 52 (unat x mod 2 ^ 63))
     else int (float_mag 52 (unat x mod 2 ^ 63)))"
  unfolding f64_scaled_def Let_def by (rule refl)

lemma EncodeFloat_less_iff: "EncodeFloat x < EncodeFloat y \<longleftrightarrow> f64_key_less x y"
proof -
  define a b where ab: "a = unat x mod 2 ^ 63" "b = unat y mod 2 ^ 63"
  have lt: "a < 2 ^ 63" "b < 2 ^ 63" unfolding ab by (simp_all only: unat_mod63)
  have sx: "f64_scaled x = (if bit x 63 then - int (float_mag 52 a) else int (float_mag 52 a))"
    and sy: "f64_scaled y = (if bit y 63 then - int (float_mag 52 b) else int (float_mag 52 b))"
    unfolding f64_scaled_if ab by (rule refl)+
  have ux: "unat (orderFloatBits x) = (if bit x 63 then 2 ^ 63 - 1 - a else 2 ^ 63 + a)"
    and uy: "unat (orderFloatBits y) = (if bit y 63 then 2 ^ 63 - 1 - b else 2 ^ 63 + b)"
    unfolding unat_orderFloatBits ab by (rule refl)+
  have mag: "float_mag 52 a < float_mag 52 b \<longleftrightarrow> a < b" "float_mag 52 b < float_mag 52 a \<longleftrightarrow> b < a"
    by (rule float_mag_less_iff)+
  consider "bit x 63" "bit y 63" | "bit x 63" "\<not> bit y 63" | "\<not> bit x 63" "bit y 63"
    | "\<not> bit x 63" "\<not> bit y 63" by blast
  then show ?thesis
  proof cases
    case 1
    have "2 ^ 63 - 1 - a < 2 ^ 63 - 1 - b \<longleftrightarrow> b < a" using lt by linarith
    then show ?thesis using 1 mag
      unfolding EncodeFloat_unat_less f64_key_less_def sx sy ux uy by simp
  next
    case 2
    have "(2::nat) ^ 63 - 1 - a < 2 ^ 63 + b" by simp
    then show ?thesis using 2
      unfolding EncodeFloat_unat_less f64_key_less_def sx sy ux uy by simp linarith
  next
    case 3
    have "\<not> (2::nat) ^ 63 + a < 2 ^ 63 - 1 - b" by simp
    then show ?thesis using 3
      unfolding EncodeFloat_unat_less f64_key_less_def sx sy ux uy by simp
  next
    case 4
    show ?thesis using 4 mag
      unfolding EncodeFloat_unat_less f64_key_less_def sx sy ux uy by simp
  qed
qed

lemma DecodeFloat64_orderFloatBits [simp]: "DecodeFloat64 (orderFloatBits x) = x"
proof (cases "bit x 63")
  case True
  then have "\<not> bit (orderFloatBits x) 63"
    unfolding orderFloatBits_def drop_bit_63_eq_1 by (simp add: bit_not_iff)
  then show ?thesis using True
    by (simp add: DecodeFloat64_def orderFloatBits_def drop_bit_63_eq_1)
next
  case False
  then have "bit (orderFloatBits x) 63"
    unfolding orderFloatBits_def drop_bit_63_eq_1 by (simp add: bit_xor_iff bit_signBit)
  then show ?thesis using False
    unfolding DecodeFloat64_def drop_bit_63_eq_1
    by (simp add: orderFloatBits_def drop_bit_63_eq_1)
qed

lemma EncodeFloat_inject [simp]: "EncodeFloat x = EncodeFloat y \<longleftrightarrow> x = y"
  by (metis DecodeFloat64_orderFloatBits EncodeFloat_def put_be_8_inject)

section \<open>Block strings\<close>

text \<open>The encoding loop as a recursion on the remaining bytes.\<close>

fun blocks :: "bytes \<Rightarrow> bytes" where
  "blocks [] = []"
| "blocks (x # xs) =
     (if length xs \<ge> 8 then take 8 (x # xs) @ 0xff # blocks (drop 7 xs)
      else (x # xs) @ replicate (7 - length xs) 0 @ [word_of_nat (Suc (length xs))])"

lemma blocks_long: "length s > 8 \<Longrightarrow> blocks s = take 8 s @ 0xff # blocks (drop 8 s)"
  by (cases s) auto

lemma blocks_short:
  "s \<noteq> [] \<Longrightarrow> length s \<le> 8 \<Longrightarrow> blocks s = s @ replicate (8 - length s) 0 @ [word_of_nat (length s)]"
  by (cases s) auto

lemma encodeVariableFrom_blocks:
  "n \<le> length s \<Longrightarrow> encodeVariableFrom s n pos = blocks (drop pos (take n s))"
proof (induction s n pos rule: encodeVariableFrom.induct)
  case (1 s n pos)
  let ?r = "drop pos (take n s)"
  have len: "length ?r = n - pos" using "1.prems" by simp
  consider "n \<le> pos" | "pos < n" "n - pos > 8" | "pos < n" "n - pos \<le> 8" by linarith
  then show ?case
  proof cases
    case 1
    then show ?thesis by (simp add: encodeVariableFrom.simps)
  next
    case 2
    have "slice s pos (pos + 8) = take 8 ?r"
      using 2 by (simp add: slice_def drop_take)
    then show ?thesis
      using 2 len "1.IH" [OF \<open>pos < n\<close> refl "1.prems"]
      by (simp add: encodeVariableFrom.simps [of s n pos] blocks_long add.commute)
  next
    case 3
    have "slice s pos n = ?r"
      using 3 by (simp add: slice_def drop_take)
    moreover have "encodeVariableFrom s n (pos + 8) = []"
      using 3 by (simp add: encodeVariableFrom.simps [of s n "pos + 8"])
    moreover have "?r \<noteq> []" using 3 len by (metis length_0_conv zero_less_diff less_irrefl)
    ultimately show ?thesis
      using 3 len by (simp add: encodeVariableFrom.simps [of s n pos] blocks_short)
  qed
qed

text \<open>A NUL-free string; \<open>EncodeVariable\<close> cuts at the first NUL.\<close>

definition nul_free :: "bytes \<Rightarrow> bool" where
  "nul_free s \<longleftrightarrow> 0 \<notin> set s"

definition ok_string :: "string \<Rightarrow> bool" where
  "ok_string s \<longleftrightarrow> s \<noteq> [] \<and> nul_free (bytes_of s)"

lemma take_firstNul: "take (firstNul s) s = takeWhile (\<lambda>b. b \<noteq> 0) s"
  unfolding firstNul_def by (metis takeWhile_eq_take)

lemma EncodeVariable_eq: "EncodeVariable s = blocks (takeWhile (\<lambda>b. b \<noteq> 0) (bytes_of s))"
proof -
  have "firstNul (bytes_of s) \<le> length (bytes_of s)"
    unfolding firstNul_def by (rule length_takeWhile_le)
  then show ?thesis
    by (simp add: EncodeVariable_def Let_def encodeVariableFrom_blocks take_firstNul)
qed

lemma EncodeVariable_nul_free: "nul_free (bytes_of s) \<Longrightarrow> EncodeVariable s = blocks (bytes_of s)"
  unfolding EncodeVariable_eq nul_free_def
  by (rule arg_cong [where f = blocks]) (simp only: takeWhile_eq_all_conv, metis)

lemma decodeVariableFrom_blocks:
  "s \<noteq> [] \<Longrightarrow> decodeVariableFrom (pre @ blocks s @ post) (length pre) b = b @ s"
proof (induction s arbitrary: pre b rule: length_induct)
  case (1 s)
  let ?d = "pre @ blocks s @ post"
  show ?case
  proof (cases "length s > 8")
    case True
    then have d: "?d = pre @ take 8 s @ 0xff # blocks (drop 8 s) @ post"
      by (simp add: blocks_long)
    then have d': "?d = (pre @ take 8 s @ [0xff]) @ blocks (drop 8 s) @ post" by simp
    have len: "length (take 8 s) = 8" using True by simp
    have ctl: "?d ! (length pre + 8) = 0xff"
      unfolding d using len by (simp add: nth_append)
    have sl: "slice ?d (length pre) (length pre + 8) = take 8 s"
      unfolding d using len by (intro slice_mid) simp_all
    have "decodeVariableFrom ?d (length pre + 9) (b @ take 8 s) = (b @ take 8 s) @ drop 8 s"
      using "1.IH" [rule_format, of "drop 8 s" "pre @ take 8 s @ [0xff]" "b @ take 8 s"] True
      unfolding d' by (simp add: len)
    moreover have "length pre + 9 \<le> length ?d" unfolding d using len by simp
    ultimately show ?thesis
      by (subst decodeVariableFrom.simps) (simp only: if_True ctl sl Let_def, simp)
  next
    case False
    then have short: "length s \<le> 8" by simp
    then have d: "?d = pre @ (s @ replicate (8 - length s) 0) @ word_of_nat (length s) # post"
      using "1.prems" by (simp add: blocks_short)
    have len: "length (s @ replicate (8 - length s) 0) = 8" using short by simp
    have ctl: "?d ! (length pre + 8) = word_of_nat (length s)"
      unfolding d using len by (simp add: nth_append)
    have sl: "slice ?d (length pre) (length pre + 8) = s @ replicate (8 - length s) 0"
      unfolding d using len by (intro slice_mid) simp_all
    have un: "unat (word_of_nat (length s) :: byte) = length s"
      using short by (simp add: unat_of_nat take_bit_eq_mod)
    then have ne: "(word_of_nat (length s) :: byte) \<noteq> 0xff"
      using short by (auto dest: arg_cong [where f = unat])
    have "length pre + 9 \<le> length ?d" unfolding d using len by simp
    then show ?thesis
      using short
      by (subst decodeVariableFrom.simps) (simp only: if_True ctl sl Let_def ne un, simp)
  qed
qed

lemma DecodeVariableStr_EncodeVariable:
  assumes "ok_string s" "start = length a"
  shows "DecodeVariableStr (a @ EncodeVariable s @ c) start = s"
proof -
  have "bytes_of s \<noteq> []" using assms(1) by (metis bytes_of_def list.map_disc_iff ok_string_def)
  then show ?thesis
    using assms decodeVariableFrom_blocks [of "bytes_of s" a c "[]"]
    by (simp add: ok_string_def DecodeVariableStr_def EncodeVariable_nul_free)
qed

lemma pad_less:
  "nul_free s \<Longrightarrow> nul_free t \<Longrightarrow> length s \<le> n \<Longrightarrow> length t \<le> n \<Longrightarrow>
     s @ replicate (n - length s) 0 < t @ replicate (n - length t) 0 \<longleftrightarrow> s < t"
proof (induction n arbitrary: s t)
  case 0
  then show ?case by simp
next
  case (Suc n)
  then show ?case by (cases s; cases t) (auto simp: nul_free_def word_neq_0_conv)
qed

lemma pad_eq:
  "nul_free s \<Longrightarrow> nul_free t \<Longrightarrow> length s \<le> n \<Longrightarrow> length t \<le> n \<Longrightarrow>
     s @ replicate (n - length s) 0 = t @ replicate (n - length t) 0 \<longleftrightarrow> s = t"
  by (metis pad_less less_irrefl linorder_neqE)

lemma less_take_iff:
  fixes s t :: bytes
  shows "length s \<le> n \<Longrightarrow> n < length t \<Longrightarrow> s < t \<longleftrightarrow> s \<le> take n t"
    and "length s \<le> n \<Longrightarrow> n < length t \<Longrightarrow> t < s \<longleftrightarrow> take n t < s"
  by (induction n arbitrary: s t; case_tac s; case_tac t; force)+

lemma take_drop_less_iff:
  fixes s t :: bytes
  assumes "n \<le> length s" "n \<le> length t"
  shows "s < t \<longleftrightarrow> take n s < take n t \<or> take n s = take n t \<and> drop n s < drop n t"
  using append_less_append [of "take n s" "take n t" "drop n s" "drop n t"] assms by simp

lemma blocks_less:
  "s \<noteq> [] \<Longrightarrow> t \<noteq> [] \<Longrightarrow> nul_free s \<Longrightarrow> nul_free t \<Longrightarrow> s \<noteq> t \<Longrightarrow>
     blocks s @ u < blocks t @ v \<longleftrightarrow> s < t"
proof (induction s arbitrary: t rule: length_induct)
  case (1 s t)
  let ?pad = "\<lambda>s :: bytes. s @ replicate (8 - length s) 0"
  have short: "blocks w @ x = ?pad w @ word_of_nat (length w) # x"
    if "w \<noteq> []" "length w \<le> 8" for w x
    using that by (simp add: blocks_short)
  have long: "blocks w @ x = take 8 w @ 0xff # blocks (drop 8 w) @ x" if "8 < length w" for w x
    using that by (simp add: blocks_long)
  have free: "nul_free (take 8 s)" "nul_free (take 8 t)" "nul_free (drop 8 s)" "nul_free (drop 8 t)"
    using "1.prems" by (auto simp: nul_free_def dest: in_set_takeD in_set_dropD)
  consider "length s \<le> 8" "length t \<le> 8" | "length s \<le> 8" "8 < length t"
    | "8 < length s" "length t \<le> 8" | "8 < length s" "8 < length t" by linarith
  then show ?case
  proof cases
    case 1
    have "?pad s < ?pad t \<longleftrightarrow> s < t" "?pad s = ?pad t \<longleftrightarrow> s = t"
      using 1 "1.prems" pad_less [of s t 8] pad_eq [of s t 8] by auto
    then show ?thesis
      using 1 "1.prems" by (simp add: short append_less_append del: append_assoc)
  next
    case 2
    have "?pad s < take 8 t \<longleftrightarrow> s < take 8 t" "?pad s = take 8 t \<longleftrightarrow> s = take 8 t"
      using 2 "1.prems" free pad_less [of s "take 8 t" 8] pad_eq [of s "take 8 t" 8] by auto
    moreover have "(word_of_nat (length s) :: byte) < 0xff"
      using 2 by (simp add: word_less_nat_alt unat_of_nat take_bit_eq_mod)
    ultimately show ?thesis
      using 2 "1.prems" less_take_iff(1) [of s 8 t]
      by (simp add: short long append_less_append le_less del: append_assoc)
  next
    case 3
    have "take 8 s < ?pad t \<longleftrightarrow> take 8 s < t" "take 8 s = ?pad t \<longleftrightarrow> take 8 s = t"
      using 3 "1.prems" free pad_less [of "take 8 s" t 8] pad_eq [of "take 8 s" t 8] by auto
    moreover have "\<not> 0xff < (word_of_nat (length t) :: byte)" "(word_of_nat (length t) :: byte) \<noteq> 0xff"
      using 3 by (auto simp: word_less_nat_alt unat_of_nat take_bit_eq_mod
          dest: arg_cong [where f = unat])
    ultimately show ?thesis
      using 3 "1.prems" less_take_iff(2) [of t 8 s]
      by (simp add: short long append_less_append del: append_assoc)
  next
    case 4
    have "drop 8 s \<noteq> drop 8 t" if "take 8 s = take 8 t"
      using that "1.prems"(5) by (metis append_take_drop_id)
    then have "blocks (drop 8 s) @ u < blocks (drop 8 t) @ v \<longleftrightarrow> drop 8 s < drop 8 t"
      if "take 8 s = take 8 t"
      using "1.IH" [rule_format, of "drop 8 s" "drop 8 t"] that 4 free by simp
    then show ?thesis
      using 4 take_drop_less_iff [of 8 s t] by (auto simp add: long append_less_append)
  qed
qed

section \<open>Ordered encodings and the order of index keys\<close>

text \<open>
  What the indexes need of a value encoding: whatever follows the value in the key, byte order
  decides by the value order first. The four encodings of the source are instances below.
\<close>

locale ordered_encoding =
  fixes enc :: "'v \<Rightarrow> bytes" and less_v :: "'v \<Rightarrow> 'v \<Rightarrow> bool" and ok :: "'v \<Rightarrow> bool"
  assumes enc_less: "ok v \<Longrightarrow> ok w \<Longrightarrow> v \<noteq> w \<Longrightarrow> enc v @ a < enc w @ b \<longleftrightarrow> less_v v w"
    and less_irrefl: "\<not> less_v v v"
begin

lemma enc_less_append:
  "ok v \<Longrightarrow> ok w \<Longrightarrow> enc v @ a < enc w @ b \<longleftrightarrow> less_v v w \<or> v = w \<and> a < b"
  using enc_less [of v w a b] less_irrefl by (cases "v = w") (auto simp: append_less_append)

lemma enc_inject:
  assumes "ok v" "ok w" "enc v @ a = enc w @ b"
  shows "v = w \<and> a = b"
proof -
  have "v = w"
  proof (rule ccontr)
    assume ne: "v \<noteq> w"
    have nl: "\<not> less_v v w" "\<not> less_v w v"
      using enc_less [OF assms(1,2) ne, of a b] enc_less [OF assms(2,1) ne [symmetric], of b a] assms(3)
      by auto
    have same: "enc v @ x = enc w @ y" for x y
      using enc_less [OF assms(1,2) ne, of x y] enc_less [OF assms(2,1) ne [symmetric], of y x] nl
      by (metis linorder_neqE)
    show False using same [of "[]" "[]"] same [of "[0]" "[]"] by simp
  qed
  with assms(3) show ?thesis by simp
qed

lemma eavt_less:
  assumes "ok v" "ok v'"
  shows "BuildEavtKey e a (enc v) t r < BuildEavtKey e' a' (enc v') t' r' \<longleftrightarrow>
    sint e < sint e' \<or> e = e' \<and> (a < a' \<or> a = a' \<and>
      (less_v v v' \<or> v = v' \<and> EncodeSuffix t r < EncodeSuffix t' r'))"
  using assms
  by (simp add: BuildEavtKey_def EncodeEid_def EncodeInt_less_iff append_less_append put_be_4_less
      put_be_8_less enc_less_append)

lemma aevt_less:
  assumes "ok v" "ok v'"
  shows "BuildAevtKey a e (enc v) t r < BuildAevtKey a' e' (enc v') t' r' \<longleftrightarrow>
    a < a' \<or> a = a' \<and> (sint e < sint e' \<or> e = e' \<and>
      (less_v v v' \<or> v = v' \<and> EncodeSuffix t r < EncodeSuffix t' r'))"
  using assms
  by (simp add: BuildAevtKey_def EncodeEid_def EncodeInt_less_iff append_less_append put_be_4_less
      put_be_8_less enc_less_append)

lemma avet_less:
  assumes "ok v" "ok v'"
  shows "BuildAvetKey a (enc v) e t r < BuildAvetKey a' (enc v') e' t' r' \<longleftrightarrow>
    a < a' \<or> a = a' \<and> (less_v v v' \<or> v = v' \<and> (sint e < sint e' \<or> e = e' \<and>
      EncodeSuffix t r < EncodeSuffix t' r'))"
  using assms
  by (simp add: BuildAvetKey_def EncodeEid_def EncodeInt_less_iff append_less_append put_be_4_less
      put_be_8_less enc_less_append)

lemma vaet_less:
  assumes "ok v" "ok v'"
  shows "BuildVaetKey (enc v) a e t r < BuildVaetKey (enc v') a' e' t' r' \<longleftrightarrow>
    less_v v v' \<or> v = v' \<and> (a < a' \<or> a = a' \<and> (sint e < sint e' \<or> e = e' \<and>
      EncodeSuffix t r < EncodeSuffix t' r'))"
  using assms
  by (simp add: BuildVaetKey_def EncodeEid_def EncodeInt_less_iff append_less_append put_be_4_less
      put_be_8_less enc_less_append)

lemma eavt_inject:
  assumes "ok v" "ok v'"
  shows "BuildEavtKey e a (enc v) t r = BuildEavtKey e' a' (enc v') t' r' \<longleftrightarrow>
    e = e' \<and> a = a' \<and> v = v' \<and> EncodeSuffix t r = EncodeSuffix t' r'"
  using assms enc_inject [of v v' "put_be 8 (EncodeSuffix t r)" "put_be 8 (EncodeSuffix t' r')"]
  by (auto simp add: BuildEavtKey_def EncodeEid_def)

end

interpretation int_enc: ordered_encoding EncodeInt "\<lambda>m n. sint m < sint n" "\<lambda>_. True"
proof
  show "EncodeInt v @ a < EncodeInt w @ b \<longleftrightarrow> sint v < sint w" if "v \<noteq> w" for v w a b
    using that by (simp add: append_less_append EncodeInt_less_iff)
qed simp

interpretation float_enc: ordered_encoding EncodeFloat f64_key_less "\<lambda>_. True"
proof
  show "EncodeFloat v @ a < EncodeFloat w @ b \<longleftrightarrow> f64_key_less v w" if "v \<noteq> w" for v w a b
    using that by (simp add: append_less_append EncodeFloat_less_iff)
qed (simp add: f64_key_less_def)

interpretation str_enc: ordered_encoding EncodeVariable "\<lambda>s t. bytes_of s < bytes_of t" ok_string
proof
  show "EncodeVariable v @ a < EncodeVariable w @ b \<longleftrightarrow> bytes_of v < bytes_of w"
    if "ok_string v" "ok_string w" "v \<noteq> w" for v w a b
  proof -
    have ne: "bytes_of v \<noteq> []" "bytes_of w \<noteq> []"
      using that(1,2) by (simp_all add: ok_string_def bytes_of_def)
    show ?thesis
      using that ne blocks_less [of "bytes_of v" "bytes_of w" a b]
      by (simp add: ok_string_def EncodeVariable_nul_free)
  qed
qed simp

lemma EncodeVariableUnordered_less:
  assumes "length v < 2 ^ 32" "length w < 2 ^ 32"
  shows "EncodeVariableUnordered v @ a < EncodeVariableUnordered w @ b \<longleftrightarrow>
    length v < length w \<or> length v = length w \<and> (v < w \<or> v = w \<and> a < b)"
proof -
  have un: "unat (word_of_nat (length v) :: 32 word) = length v"
    "unat (word_of_nat (length w) :: 32 word) = length w"
    using assms by (simp_all add: unat_of_nat take_bit_eq_mod)
  then have "(word_of_nat (length v) :: 32 word) < word_of_nat (length w) \<longleftrightarrow> length v < length w"
    "(word_of_nat (length v) :: 32 word) = word_of_nat (length w) \<longleftrightarrow> length v = length w"
    by (simp_all only: word_less_nat_alt word_unat_eq_iff)
  then show ?thesis
    by (auto simp add: EncodeVariableUnordered_def append_less_append put_be_4_less)
qed

interpretation blob_enc: ordered_encoding EncodeVariableUnordered
  "\<lambda>v w. length v < length w \<or> length v = length w \<and> v < w" "\<lambda>v. length v < 2 ^ 32"
proof
  show "EncodeVariableUnordered v @ a < EncodeVariableUnordered w @ b \<longleftrightarrow>
      length v < length w \<or> length v = length w \<and> v < w"
    if "length v < 2 ^ 32" "length w < 2 ^ 32" "v \<noteq> w" for v w a b
    using that by (simp only: EncodeVariableUnordered_less simp_thms)
qed simp

text \<open>
  The values an attribute of a given type holds, and their order: the abstract counterpart of the
  encodings. \<open>EncodeBoundValue\<close> is an ordered encoding on each type.
\<close>

definition value_ok :: "uint32 \<Rightarrow> expr \<Rightarrow> bool" where
  "value_ok vt v = (case v of
       SInt _ \<Rightarrow> vt = DbTypeRef \<or> vt = DbTypeLong \<or> vt = DbTypeInstant
     | SFloat _ \<Rightarrow> vt = DbTypeFloat
     | SStr s \<Rightarrow> vt = DbTypeString \<and> ok_string s
     | SBytes b \<Rightarrow> (vt = DbTypeBytes \<or> vt = DbTypeBlob) \<and> length b < 2 ^ 32
     | _ \<Rightarrow> False)"

fun value_less :: "expr \<Rightarrow> expr \<Rightarrow> bool" where
  "value_less (SInt m) (SInt n) = (sint m < sint n)"
| "value_less (SFloat x) (SFloat y) = f64_key_less x y"
| "value_less (SStr s) (SStr t) = (bytes_of s < bytes_of t)"
| "value_less (SBytes v) (SBytes w) = (length v < length w \<or> length v = length w \<and> v < w)"
| "value_less _ _ = False"

lemma EncodeFixed_num:
  "EncodeFixed (SInt n) = EncodeInt n" "EncodeFixed (SFloat f) = EncodeFloat f"
  by (simp_all add: EncodeFixed_def EncodeInt_def EncodeFloat_def)

lemma EncodeBoundValue_simps [simp]:
  "EncodeBoundValue (SInt n) = EncodeInt n" "EncodeBoundValue (SFloat f) = EncodeFloat f"
  "EncodeBoundValue (SStr s) = EncodeVariable s"
  "EncodeBoundValue (SBytes b) = EncodeVariableUnordered b"
  by (simp_all add: EncodeBoundValue_def EncodeFixed_num)

interpretation value_enc: ordered_encoding EncodeBoundValue value_less "value_ok vt" for vt
proof
  show "EncodeBoundValue v @ a < EncodeBoundValue w @ b \<longleftrightarrow> value_less v w"
    if "value_ok vt v" "value_ok vt w" "v \<noteq> w" for v w a b
    using that int_enc.enc_less float_enc.enc_less str_enc.enc_less blob_enc.enc_less
    by (auto simp add: value_ok_def split: expr.splits)
  show "\<not> value_less v v" for v
    by (cases v) (auto simp: f64_key_less_def)
qed

section \<open>Properties of the key layout\<close>

lemma decode_encoded:
  assumes "value_ok vt v"
  shows "DecodeStoredValue (EncodeBoundValue v @ rest) vt = v"
proof (cases v)
  case (SInt n)
  have "DecodeInt64 (BeUint64 (EncodeInt n @ rest) 0) = n"
    using BeUint64_put_be [of 0 "[]" "n XOR signBit" rest] by (simp add: EncodeInt_def DecodeInt64_def)
  with SInt assms show ?thesis
    by (auto simp: value_ok_def DecodeStoredValue_def)
next
  case (SFloat f)
  have "DecodeFloat64 (BeUint64 (EncodeFloat f @ rest) 0) = f"
    using BeUint64_put_be [of 0 "[]" "orderFloatBits f" rest] by (simp add: EncodeFloat_def)
  with SFloat assms show ?thesis
    by (auto simp: value_ok_def DecodeStoredValue_def)
next
  case (SStr s)
  with assms show ?thesis
    using DecodeVariableStr_EncodeVariable [of s 0 "[]" rest]
    by (auto simp: value_ok_def DecodeStoredValue_def)
next
  case (SBytes b)
  have "BeUint32 (EncodeVariableUnordered b @ rest) 0 = word_of_nat (length b)"
    using BeUint32_put_be [of 0 "[]" "word_of_nat (length b)" "b @ rest"]
    by (simp add: EncodeVariableUnordered_def)
  moreover have "slice (EncodeVariableUnordered b @ rest) 4 (4 + length b) = b"
    unfolding EncodeVariableUnordered_def append_assoc by (rule slice_mid) simp_all
  moreover have "length b < 2 ^ 32 \<Longrightarrow> unat (word_of_nat (length b) :: uint32) = length b"
    by (simp add: unat_of_nat take_bit_eq_mod)
  moreover have "length (EncodeVariableUnordered b @ rest) = 4 + length b + length rest"
    by (simp add: EncodeVariableUnordered_def)
  ultimately show ?thesis using SBytes assms
    by (auto simp: value_ok_def DecodeStoredValue_def Let_def)
qed (use assms in \<open>auto simp: value_ok_def\<close>)

text \<open>C19. Decoding inverts encoding for the \<open>value_ok\<close> values of a type: integers for long, reference and instant attributes, floats
  for float attributes, non-empty strings without NUL characters for string attributes, and byte strings of less than \<open>2 ^ 32\<close>
  bytes for bytes and blob attributes, whatever bytes follow the value (in AVET and VAET keys the entity and the suffix
  follow). Booleans, keywords, empty strings and strings with NUL characters are not covered, and do not all come back
  (see \<open>EncodeFixed_bool_mismatch\<close>).\<close>

theorem DecodeStoredValue_EncodeBoundValue:
  assumes "value_ok vt v"
  shows "DecodeStoredValue (EncodeBoundValue v @ rest) vt = v"
  using assms by (rule decode_encoded)

theorem DecodeStoredValue_witness:
  "DecodeStoredValue (EncodeBoundValue (SStr ''hello, world'') @ [1, 2, 3]) 20 = SStr ''hello, world''"
  by (rule DecodeStoredValue_EncodeBoundValue)
    (simp add: value_ok_def ok_string_def nul_free_def bytes_of_def)

text \<open>The suffix of a non-negative transaction id is \<open>2 t\<close>, plus one for a retraction.\<close>

lemma unat_EncodeSuffix:
  assumes "0 \<le> sint t"
  shows "unat (EncodeSuffix t r) = 2 * unat t + (if r then 1 else 0)"
proof -
  have dec: "DecodeSuffix (EncodeSuffix t r) = (t, r)" by (rule DecodeSuffix_EncodeSuffix [OF assms])
  let ?s = "EncodeSuffix t r"
  have "unat (drop_bit 1 ?s) = unat ?s div 2"
    by (subst unat_drop_bit_eq) (simp add: drop_bit_eq_div)
  then have d: "unat t = unat ?s div 2" using dec by (simp add: DecodeSuffix_def)
  have "bit ?s 0 = r"
    using dec and_exp_eq_0_iff_not_bit [of ?s 0] by (simp add: DecodeSuffix_def)
  moreover have "bit (unat ?s) 0 = bit ?s 0" by (simp only: bit_unsigned_iff) simp
  ultimately have "odd (unat ?s) = r" by (simp only: bit_0)
  with d show ?thesis by (cases r) (auto elim!: oddE evenE)
qed

lemma EncodeSuffix_less:
  assumes "0 \<le> sint t" "0 \<le> sint t'"
  shows "EncodeSuffix t r < EncodeSuffix t' r' \<longleftrightarrow> sint t < sint t' \<or> t = t' \<and> \<not> r \<and> r'"
proof -
  have "sint t = int (unat t)" "sint t' = int (unat t')"
    using assms sint_lt [of t] sint_lt [of t'] uint_sint [of t] uint_sint [of t']
    by (auto simp add: take_bit_int_eq_self)
  then have "sint t < sint t' \<longleftrightarrow> unat t < unat t'" by (simp only: of_nat_less_iff)
  then show ?thesis
    using assms
    by (cases r; cases r') (auto simp: word_less_nat_alt unat_EncodeSuffix word_unat_eq_iff)
qed

text \<open>
  The four index orders on datoms. \<open>datom_order\<close> compares a list of components given as
  (less, equal) pairs, most significant first.
\<close>

fun datom_order :: "(bool \<times> bool) list \<Rightarrow> bool" where
  "datom_order [] = False"
| "datom_order ((l, e) # cs) = (l \<or> e \<and> datom_order cs)"

text \<open>C3. Byte order of the four index keys is the order on datoms their names announce: entity, attribute, value, transaction for
  EAVT, and correspondingly for AEVT, AVET and VAET; the last component puts the retraction of a transaction after its
  assertion. This holds for two datoms with values of one type, both of them \<open>value_ok\<close>: integers for long, reference and instant
  attributes, floats for float attributes, non-empty strings without NUL characters for string attributes, and byte
  strings of less than \<open>2 ^ 32\<close> bytes for bytes and blob attributes; and for transactions that are not negative. Empty
  strings, strings with NUL characters, booleans and keywords are not covered: an empty string is followed at once by the
  next component in AVET, and a string is cut at its first NUL character.\<close>

theorem index_key_order:
  fixes e e' t t' :: int64 and a a' :: uint32 and r r' :: bool
  assumes "value_ok vt v" "value_ok vt v'" "0 \<le> sint t" "0 \<le> sint t'"
  defines "E \<equiv> (sint e < sint e', e = e')" and "A \<equiv> (a < a', a = a')"
    and "V \<equiv> (value_less v v', v = v')" and "T \<equiv> (sint t < sint t', t = t')"
    and "R \<equiv> (\<not> r \<and> r', r = r')"
  defines "b \<equiv> EncodeBoundValue v" and "b' \<equiv> EncodeBoundValue v'"
  shows "(BuildEavtKey e a b t r < BuildEavtKey e' a' b' t' r' \<longleftrightarrow> datom_order [E, A, V, T, R])
    \<and> (BuildAevtKey a e b t r < BuildAevtKey a' e' b' t' r' \<longleftrightarrow> datom_order [A, E, V, T, R])
    \<and> (BuildAvetKey a b e t r < BuildAvetKey a' b' e' t' r' \<longleftrightarrow> datom_order [A, V, E, T, R])
    \<and> (BuildVaetKey b a e t r < BuildVaetKey b' a' e' t' r' \<longleftrightarrow> datom_order [V, A, E, T, R])"
  unfolding E_def A_def V_def T_def R_def b_def b'_def
  by (simp add: value_enc.eavt_less [OF assms(1,2)] value_enc.aevt_less [OF assms(1,2)]
      value_enc.avet_less [OF assms(1,2)] value_enc.vaet_less [OF assms(1,2)]
      EncodeSuffix_less [OF assms(3,4)])

theorem index_key_order_witness:
  "BuildAvetKey 7 (EncodeBoundValue (SStr ''ann'')) 9 5 False
     < BuildAvetKey 7 (EncodeBoundValue (SStr ''bob'')) 2 3 True"
  using index_key_order [where vt = 20 and v = "SStr ''ann''" and v' = "SStr ''bob''" and t = 5
      and t' = 3 and e = 9 and e' = 2 and a = 7 and a' = 7 and r = False and r' = True]
  by (simp add: value_ok_def ok_string_def nul_free_def bytes_of_def)

lemma copyAt_replicate:
  assumes "off = length a" "n = length b + m"
  shows "copyAt (a @ replicate n 0) off b = (a @ b) @ replicate m 0"
  using assms by (simp add: copyAt_def)

text \<open>The bulk builder, which stores the fields at computed offsets of preallocated buffers,
  yields exactly the keys of the single-key builders: EAVT and AEVT always, VAET for references,
  AVET for indexed attributes.\<close>

theorem BuildEavtEntries_keys:
  "BuildEavtEntries e a v t r mode indexed =
     [\<lparr>CF = 0, Key = BuildEavtKey e a v t r\<rparr>, \<lparr>CF = 1, Key = BuildAevtKey a e v t r\<rparr>]
     @ (if mode = EmRef then [\<lparr>CF = 3, Key = BuildVaetKey v a e t r\<rparr>] else [])
     @ (if indexed then [\<lparr>CF = 2, Key = BuildAvetKey a v e t r\<rparr>] else [])"
proof -
  define z :: bytes where "z = replicate (8 + 4 + length v + 8) 0"
  define sf ex where "sf = EncodeSuffix t r" and "ex = e XOR signBit"
  have s64: "storeBE64 (x @ replicate n 0) off w = (x @ put_be 8 w) @ replicate m 0"
    if "off = length x" "n = 8 + m" for x n off m and w :: uint64
    unfolding storeBE64_def using that by (intro copyAt_replicate) simp_all
  have s32: "storeBE32 (x @ replicate n 0) off w = (x @ put_be 4 w) @ replicate m 0"
    if "off = length x" "n = 4 + m" for x n off m and w :: uint32
    unfolding storeBE32_def using that by (intro copyAt_replicate) simp_all
  have z: "z = [] @ replicate (8 + 4 + length v + 8) 0" by (simp add: z_def)
  have 1: "storeBE64 (copyAt (storeBE32 (storeBE64 z 0 ex) 8 a) 12 v) (12 + length v) sf
      = BuildEavtKey e a v t r"
    unfolding z by (subst s64 [where m = "4 + length v + 8"], simp, simp,
        subst s32 [where m = "length v + 8"], simp, simp,
        subst copyAt_replicate [where m = 8], simp, simp, subst s64 [where m = 0], simp, simp)
      (simp add: BuildEavtKey_def EncodeEid_def EncodeInt_def sf_def ex_def)
  have 2: "storeBE64 (copyAt (storeBE64 (storeBE32 z 0 a) 4 ex) 12 v) (12 + length v) sf
      = BuildAevtKey a e v t r"
    unfolding z by (subst s32 [where m = "8 + length v + 8"], simp, simp,
        subst s64 [where m = "length v + 8"], simp, simp,
        subst copyAt_replicate [where m = 8], simp, simp, subst s64 [where m = 0], simp, simp)
      (simp add: BuildAevtKey_def EncodeEid_def EncodeInt_def sf_def ex_def)
  have 3: "storeBE64 (storeBE64 (copyAt (storeBE32 z 0 a) 4 v) (4 + length v) ex) (12 + length v) sf
      = BuildAvetKey a v e t r"
    unfolding z by (subst s32 [where m = "length v + 16"], simp, simp,
        subst copyAt_replicate [where m = 16], simp, simp,
        subst s64 [where m = 8], simp, simp, subst s64 [where m = 0], simp, simp)
      (simp add: BuildAvetKey_def EncodeEid_def EncodeInt_def sf_def ex_def)
  have 4: "storeBE64 (storeBE64 (storeBE32 (copyAt z 0 v) (length v) a) (length v + 4) ex)
      (length v + 12) sf = BuildVaetKey v a e t r"
    unfolding z by (subst copyAt_replicate [where m = 20], simp, simp,
        subst s32 [where m = 16], simp, simp,
        subst s64 [where m = 8], simp, simp, subst s64 [where m = 0], simp, simp)
      (simp add: BuildVaetKey_def EncodeEid_def EncodeInt_def sf_def ex_def)
  show ?thesis
    unfolding BuildEavtEntries_def Let_def z_def [symmetric] sf_def [symmetric] ex_def [symmetric] 1 2 3 4
    by simp
qed

text \<open>The fixed encoding used for scanner bounds inverts booleans with respect to the stored
  form: the bound for \<open>true\<close> is the stored encoding of \<open>false\<close>, and the bound for \<open>false\<close> is
  the encoding of no stored boolean at all.\<close>

theorem EncodeFixed_bool_mismatch:
  "EncodeValue pf ''false'' EmFixed 0 = Inr (EncodeFixed (SBool True))
   \<and> DecodeStoredValue (EncodeFixed (SBool True)) DbTypeBoolean = SBool False
   \<and> EncodeValue pf ''true'' EmFixed 0 \<noteq> Inr (EncodeFixed (SBool False))
   \<and> EncodeValue pf ''false'' EmFixed 0 \<noteq> Inr (EncodeFixed (SBool False))"
proof -
  have t: "EncodeFixed (SBool True) = EncodeInt 0" and f: "EncodeFixed (SBool False) \<noteq> EncodeInt 0"
    and f': "EncodeFixed (SBool False) \<noteq> EncodeInt 1" by code_simp+
  have "DecodeStoredValue (EncodeInt 0) DbTypeBoolean = SBool False" by code_simp
  with t f f' show ?thesis by (simp add: EncodeValue_def)
qed

end
