(* ===== verification/CursorMerge.thy ===== *)
theory CursorMerge
  imports RunCursor MinHeap Keys
begin

text \<open>
  The merging cursor, \<^verbatim>\<open>src/go/internal/cursor/cursor.go\<close>: the cursor implementations behind the
  \<open>Cursor\<close> interface, and \<open>MergedCursor\<close>, which merges several sorted sources through a heap,
  skips duplicate keys, and can serve an entity from its hydrated key set. The main result is that a
  merged cursor is again a sorted cursor over the union of its sources.
\<close>

section \<open>The cursors behind the interface\<close>

text \<open>
  The page-store cursor's methods, as the wrapper \<open>pageStoreCursor\<close> calls them (errors dropped, as
  the wrapper drops them).
\<close>

record 'p page_ops =
  pgAtEnd :: "'p \<Rightarrow> bool"
  pgPeek :: "'p \<Rightarrow> bytes option \<times> 'p"
  pgPeekKv :: "'p \<Rightarrow> (bytes \<times> bytes) option \<times> 'p"
  pgNext :: "'p \<Rightarrow> 'p"
  pgSeek :: "bytes \<Rightarrow> 'p \<Rightarrow> 'p"
  pgSetAtEnd :: "'p \<Rightarrow> 'p"

record keysCursor =
  kcKeys :: "bytes list"
  kcPos :: nat

datatype 'p Cursor =
    PageStoreCursor 'p
  | RunCursorC RunCursor
  | RunKvCursorC RunCursor
  | MockCursor keysCursor
  | HydCursor keysCursor
  | InvalidCursor

fun prefixCmp :: "bytes \<Rightarrow> bytes \<Rightarrow> int" where
  "prefixCmp k [] = 0"
| "prefixCmp [] (t # ts) = -1"
| "prefixCmp (k # ks) (t # ts) = (if k < t then -1 else if k > t then 1 else prefixCmp ks ts)"

definition kcValid :: "keysCursor \<Rightarrow> bool" where
  "kcValid c = (kcPos c < length (kcKeys c))"

definition kcCurrentKey :: "keysCursor \<Rightarrow> bytes option" where
  "kcCurrentKey c = (if kcPos c < length (kcKeys c) then Some (kcKeys c ! kcPos c) else None)"

definition kcStep :: "keysCursor \<Rightarrow> keysCursor" where
  "kcStep c = c\<lparr>kcPos := kcPos c + 1\<rparr>"

definition mockSeek :: "bytes \<Rightarrow> keysCursor \<Rightarrow> keysCursor" where
  "mockSeek t c = c\<lparr>kcPos := bsearch (\<lambda>mid. prefixCmp (kcKeys c ! mid) t < 0) 0 (length (kcKeys c))\<rparr>"

definition hydSeek :: "bytes \<Rightarrow> keysCursor \<Rightarrow> keysCursor" where
  "hydSeek t c = c\<lparr>kcPos := bsearch (\<lambda>mid. cmp_loop (kcKeys c ! mid) t < 0) 0 (length (kcKeys c))\<rparr>"

definition kcInvalidate :: "keysCursor \<Rightarrow> keysCursor" where
  "kcInvalidate c = c\<lparr>kcPos := length (kcKeys c)\<rparr>"

fun Valid :: "'p page_ops \<Rightarrow> 'p Cursor \<Rightarrow> bool" where
  "Valid pg (PageStoreCursor p) = (\<not> pgAtEnd pg p)"
| "Valid pg (RunCursorC c) = (\<not> rcAtEnd c)"
| "Valid pg (RunKvCursorC c) = (\<not> rcAtEnd c)"
| "Valid pg (MockCursor c) = kcValid c"
| "Valid pg (HydCursor c) = kcValid c"
| "Valid pg InvalidCursor = False"

fun CurrentKey :: "'p page_ops \<Rightarrow> 'p Cursor \<Rightarrow> bytes option \<times> 'p Cursor" where
  "CurrentKey pg (PageStoreCursor p) = (case pgPeek pg p of (k, p') \<Rightarrow> (k, PageStoreCursor p'))"
| "CurrentKey pg (RunCursorC c) = (rcPeek c, RunCursorC c)"
| "CurrentKey pg (RunKvCursorC c) = (case rcPeekKv c of (r, c') \<Rightarrow> (map_option fst r, RunKvCursorC c'))"
| "CurrentKey pg (MockCursor c) = (kcCurrentKey c, MockCursor c)"
| "CurrentKey pg (HydCursor c) = (kcCurrentKey c, HydCursor c)"
| "CurrentKey pg InvalidCursor = (None, InvalidCursor)"

fun CurrentPair :: "'p page_ops \<Rightarrow> 'p Cursor \<Rightarrow> (bytes \<times> bytes) option \<times> 'p Cursor" where
  "CurrentPair pg (PageStoreCursor p) = (case pgPeekKv pg p of (r, p') \<Rightarrow> (r, PageStoreCursor p'))"
| "CurrentPair pg (RunKvCursorC c) = (case rcPeekKv c of (r, c') \<Rightarrow> (r, RunKvCursorC c'))"
| "CurrentPair pg c = (None, c)"

fun Step :: "'p page_ops \<Rightarrow> 'p Cursor \<Rightarrow> 'p Cursor" where
  "Step pg (PageStoreCursor p) = PageStoreCursor (pgNext pg p)"
| "Step pg (RunCursorC c) = RunCursorC (snd (rcNext c))"
| "Step pg (RunKvCursorC c) = RunKvCursorC (snd (rcNextKv c))"
| "Step pg (MockCursor c) = MockCursor (kcStep c)"
| "Step pg (HydCursor c) = HydCursor (kcStep c)"
| "Step pg InvalidCursor = InvalidCursor"

fun Seek :: "'p page_ops \<Rightarrow> bytes \<Rightarrow> 'p Cursor \<Rightarrow> 'p Cursor" where
  "Seek pg t (PageStoreCursor p) = PageStoreCursor (pgSeek pg t p)"
| "Seek pg t (RunCursorC c) = RunCursorC (rcSeek t c)"
| "Seek pg t (RunKvCursorC c) = RunKvCursorC (rcSeek t c)"
| "Seek pg t (MockCursor c) = MockCursor (mockSeek t c)"
| "Seek pg t (HydCursor c) = HydCursor (hydSeek t c)"
| "Seek pg t InvalidCursor = InvalidCursor"

fun Invalidate :: "'p page_ops \<Rightarrow> 'p Cursor \<Rightarrow> 'p Cursor" where
  "Invalidate pg (PageStoreCursor p) = PageStoreCursor (pgSetAtEnd pg p)"
| "Invalidate pg (RunCursorC c) = RunCursorC (rcSetAtEnd True c)"
| "Invalidate pg (RunKvCursorC c) = RunKvCursorC (rcSetAtEnd True c)"
| "Invalidate pg (MockCursor c) = MockCursor (kcInvalidate c)"
| "Invalidate pg (HydCursor c) = HydCursor (kcInvalidate c)"
| "Invalidate pg InvalidCursor = InvalidCursor"

section \<open>MergedCursor\<close>

text \<open>
  \<open>(lastKey, hasLast)\<close>, \<open>(curKey, hasKey)\<close> and \<open>(curPair, hasPair)\<close> are options. The hydrated set is
  reached through \<open>ProbeComplete\<close> and \<open>KeysFrom\<close> only.
\<close>

record hyd_view =
  ProbeComplete :: "int64 \<Rightarrow> bool"
  KeysFrom :: "int64 \<Rightarrow> bytes \<Rightarrow> bytes list"

record 'p MergedCursor =
  mcSources :: "'p Cursor list"
  mcHeap :: "heapEntry list"
  mcLast :: "bytes option"
  mcAtEnd :: bool
  mcKey :: "bytes option"
  mcPair :: "(bytes \<times> bytes) option"
  mcIsKv :: bool
  mcCF :: int
  mcRootUUID :: bytes
  mcHeight :: byte
  mcRunGen :: uint64
  mcHydMode :: bool
  mcBase :: "'p Cursor list"

text \<open>\<open>if src.Valid() { if k, ok := src.CurrentKey(); ok { heap.push({k, i}) } }\<close>\<close>

definition pushCurrent :: "'p page_ops \<Rightarrow> nat \<Rightarrow> 'p MergedCursor \<Rightarrow> 'p MergedCursor" where
  "pushCurrent pg i mc =
     (let src = mcSources mc ! i
      in if Valid pg src then
           (case CurrentKey pg src of
              (Some k, src') \<Rightarrow> mc\<lparr>mcSources := (mcSources mc)[i := src'],
                                   mcHeap := heapPush \<lparr>heKey = k, heSrc = i\<rparr> (mcHeap mc)\<rparr>
            | (None, src') \<Rightarrow> mc\<lparr>mcSources := (mcSources mc)[i := src']\<rparr>)
         else mc)"

definition emptyMerged :: "'p Cursor list \<Rightarrow> 'p MergedCursor" where
  "emptyMerged srcs =
     \<lparr>mcSources = srcs, mcHeap = [], mcLast = None, mcAtEnd = False, mcKey = None, mcPair = None,
      mcIsKv = False, mcCF = 0, mcRootUUID = replicate 16 0, mcHeight = 0, mcRunGen = 0,
      mcHydMode = False, mcBase = []\<rparr>"

definition NewMergedCursor :: "'p page_ops \<Rightarrow> 'p Cursor list \<Rightarrow> 'p MergedCursor" where
  "NewMergedCursor pg srcs = fold (pushCurrent pg) [0..<length srcs] (emptyMerged srcs)"

definition AddSource :: "'p page_ops \<Rightarrow> 'p Cursor \<Rightarrow> 'p MergedCursor \<Rightarrow> 'p MergedCursor" where
  "AddSource pg src mc =
     pushCurrent pg (length (mcSources mc)) (mc\<lparr>mcSources := mcSources mc @ [src]\<rparr>)"

definition stepSource :: "'p page_ops \<Rightarrow> nat \<Rightarrow> 'p MergedCursor \<Rightarrow> 'p MergedCursor" where
  "stepSource pg i mc = mc\<lparr>mcSources := (mcSources mc)[i := Step pg (mcSources mc ! i)]\<rparr>"

definition takePair :: "'p page_ops \<Rightarrow> nat \<Rightarrow> 'p MergedCursor \<Rightarrow> 'p MergedCursor" where
  "takePair pg i mc =
     (if mcIsKv mc then
        (case CurrentPair pg (mcSources mc ! i) of
           (r, src') \<Rightarrow> mc\<lparr>mcPair := r, mcSources := (mcSources mc)[i := src']\<rparr>)
      else mc)"

text \<open>The loop of \<open>advance\<close>; \<open>None\<close> is a loop that never ends.\<close>

partial_function (option) advanceLoop :: "'p page_ops \<Rightarrow> 'p MergedCursor \<Rightarrow> 'p MergedCursor option" where
  "advanceLoop pg mc =
     (case heapPop (mcHeap mc) of
        None \<Rightarrow> Some (mc\<lparr>mcAtEnd := True, mcKey := None, mcPair := None\<rparr>)
      | Some eh \<Rightarrow>
          let i = heSrc (fst eh); k = heKey (fst eh); mc1 = mc\<lparr>mcHeap := snd eh\<rparr>
          in if (case mcLast mc of Some l \<Rightarrow> cmp_loop k l = 0 | None \<Rightarrow> False)
             then advanceLoop pg
                    (if Valid pg (mcSources mc1 ! i) then pushCurrent pg i (stepSource pg i mc1) else mc1)
             else Some (pushCurrent pg i (stepSource pg i (takePair pg i
                     (mc1\<lparr>mcLast := Some k, mcKey := Some k\<rparr>)))))"

definition advance :: "'p page_ops \<Rightarrow> 'p MergedCursor \<Rightarrow> 'p MergedCursor option" where
  "advance pg mc = (if mcAtEnd mc then Some mc else advanceLoop pg mc)"

definition ensure :: "'p page_ops \<Rightarrow> 'p MergedCursor \<Rightarrow> 'p MergedCursor option" where
  "ensure pg mc =
     (if mcKey mc = None \<and> \<not> mcAtEnd mc \<and> mcPair mc = None then advance pg mc else Some mc)"

definition mcPeek :: "'p page_ops \<Rightarrow> 'p MergedCursor \<Rightarrow> (bytes option \<times> 'p MergedCursor) option" where
  "mcPeek pg mc =
     map_option (\<lambda>m. (if mcAtEnd m then None else mcKey m, m)) (ensure pg mc)"

definition mcNext :: "'p page_ops \<Rightarrow> 'p MergedCursor \<Rightarrow> (bytes option \<times> 'p MergedCursor) option" where
  "mcNext pg mc =
     Option.bind (ensure pg mc) (\<lambda>m. map_option (Pair (mcKey m)) (advance pg (m\<lparr>mcKey := None\<rparr>)))"

definition mcPeekKv ::
  "'p page_ops \<Rightarrow> 'p MergedCursor \<Rightarrow> ((bytes \<times> bytes) option \<times> 'p MergedCursor) option" where
  "mcPeekKv pg mc =
     map_option (\<lambda>m. (if mcAtEnd m then None else mcPair m, m)) (ensure pg mc)"

definition mcNextKv ::
  "'p page_ops \<Rightarrow> 'p MergedCursor \<Rightarrow> ((bytes \<times> bytes) option \<times> 'p MergedCursor) option" where
  "mcNextKv pg mc =
     Option.bind (ensure pg mc) (\<lambda>m. map_option (Pair (mcPair m)) (advance pg (m\<lparr>mcPair := None\<rparr>)))"

definition resetMerged :: "'p MergedCursor \<Rightarrow> 'p MergedCursor" where
  "resetMerged mc = mc\<lparr>mcLast := None, mcAtEnd := False, mcKey := None, mcPair := None\<rparr>"

definition seekSources :: "'p page_ops \<Rightarrow> bytes \<Rightarrow> 'p MergedCursor \<Rightarrow> 'p MergedCursor option" where
  "seekSources pg target mc =
     (let mc1 = mc\<lparr>mcSources := map (Seek pg target) (mcSources mc), mcHeap := []\<rparr>;
          mc2 = fold (pushCurrent pg) [0..<length (mcSources mc1)] mc1
      in advance pg (resetMerged mc2))"

definition mcSeek ::
  "'p page_ops \<Rightarrow> hyd_view option \<Rightarrow> bytes \<Rightarrow> 'p MergedCursor \<Rightarrow> 'p MergedCursor option" where
  "mcSeek pg hyd target mc =
     (case hyd of
        Some hv \<Rightarrow>
          (if mcCF mc = 0 \<and> length target \<ge> 8 then
             let eid = DecodeEid (BeUint64 target 0)
             in if ProbeComplete hv eid then
                  let hc = HydCursor \<lparr>kcKeys = KeysFrom hv eid target, kcPos = 0\<rparr>;
                      mc1 = (if \<not> mcHydMode mc then mc\<lparr>mcBase := mcSources mc, mcHydMode := True\<rparr> else mc);
                      mc2 = pushCurrent pg 0 (mc1\<lparr>mcSources := [hc], mcHeap := []\<rparr>)
                  in advance pg (resetMerged mc2)
                else seekSources pg target
                       (if mcHydMode mc then mc\<lparr>mcSources := mcBase mc, mcHydMode := False\<rparr> else mc)
           else seekSources pg target mc)
      | None \<Rightarrow> seekSources pg target mc)"

definition runSources :: "bool \<Rightarrow> Run list \<Rightarrow> 'p Cursor list" where
  "runSources isKv rs =
     map (\<lambda>r. if isKv then RunKvCursorC (NewRunCursor r) else RunCursorC (NewRunCursor r)) rs"

text \<open>\<open>Update\<close>; \<open>pgUpdate\<close> is the page cursor's own \<open>Update(root, height)\<close>.\<close>

definition mcUpdate ::
  "(bytes \<Rightarrow> byte \<Rightarrow> 'p \<Rightarrow> 'p) \<Rightarrow> bytes \<Rightarrow> byte \<Rightarrow> Run list \<Rightarrow> Run list \<Rightarrow> uint64 \<Rightarrow>
   'p MergedCursor \<Rightarrow> 'p MergedCursor" where
  "mcUpdate pgUpdate root height drn active runGen mc =
     (let put = (\<lambda>src m. if mcHydMode m then m\<lparr>mcBase := src\<rparr> else m\<lparr>mcSources := src\<rparr>);
          src = (if mcHydMode mc then mcBase mc else mcSources mc);
          (src1, mc1) = (case src of
              PageStoreCursor p # rest \<Rightarrow>
                if mcRootUUID mc \<noteq> root
                then (PageStoreCursor (pgUpdate root height p) # rest,
                      mc\<lparr>mcRootUUID := root, mcHeight := height\<rparr>)
                else (src, mc)
            | _ \<Rightarrow> (src, mc));
          mc2 = put src1 mc1;
          mc3 = (if mcRunGen mc2 \<noteq> runGen
                 then put ((if length src1 > 1 then take 1 src1 else src1)
                           @ runSources (mcIsKv mc2) drn @ runSources (mcIsKv mc2) active)
                        (mc2\<lparr>mcRunGen := runGen\<rparr>)
                 else mc2)
      in (resetMerged mc3)\<lparr>mcHeap := []\<rparr>)"

definition mcInvalidate :: "'p MergedCursor \<Rightarrow> 'p MergedCursor" where
  "mcInvalidate mc = mc\<lparr>mcAtEnd := True\<rparr>"

section \<open>Every implementation is a sorted cursor\<close>

fun c_wf :: "('p \<Rightarrow> bool) \<Rightarrow> 'p Cursor \<Rightarrow> bool" where
  "c_wf pwf (PageStoreCursor p) = pwf p"
| "c_wf pwf (RunCursorC c) = rc_ok c"
| "c_wf pwf (RunKvCursorC c) = rc_ok c"
| "c_wf pwf (MockCursor c) = ascending (kcKeys c)"
| "c_wf pwf (HydCursor c) = ascending (kcKeys c)"
| "c_wf pwf InvalidCursor = True"

fun c_rest :: "('p \<Rightarrow> bytes list) \<Rightarrow> 'p Cursor \<Rightarrow> bytes list" where
  "c_rest prest (PageStoreCursor p) = prest p"
| "c_rest prest (RunCursorC c) = map recKey (rcRest c)"
| "c_rest prest (RunKvCursorC c) = map recKey (kvLive (rcRest c))"
| "c_rest prest (MockCursor c) = drop (kcPos c) (kcKeys c)"
| "c_rest prest (HydCursor c) = drop (kcPos c) (kcKeys c)"
| "c_rest prest InvalidCursor = []"

fun c_keys :: "('p \<Rightarrow> bytes list) \<Rightarrow> 'p Cursor \<Rightarrow> bytes list" where
  "c_keys pkeys (PageStoreCursor p) = pkeys p"
| "c_keys pkeys (RunCursorC c) = map recKey (Records (rcRun c))"
| "c_keys pkeys (RunKvCursorC c) = map recKey (kvLive (Records (rcRun c)))"
| "c_keys pkeys (MockCursor c) = kcKeys c"
| "c_keys pkeys (HydCursor c) = kcKeys c"
| "c_keys pkeys InvalidCursor = []"

lemma prefixCmp_less: "prefixCmp k t < 0 \<longleftrightarrow> k < t"
  by (induction k t rule: prefixCmp.induct) auto

lemma kc_seek_eq: "mockSeek t c = hydSeek t c"
  by (simp add: mockSeek_def hydSeek_def prefixCmp_less cmp_simps)

lemma hydSeek_pos:
  assumes "ascending (kcKeys c)"
  shows "drop (kcPos (hydSeek t c)) (kcKeys c) = dropWhile (\<lambda>k. k < t) (kcKeys c)"
proof -
  have "kcPos (hydSeek t c) = length (takeWhile (\<lambda>k. k < t) (kcKeys c))"
    using bsearch_less_key [of "\<lambda>k. k" "kcKeys c" t] assms by (simp add: hydSeek_def cmp_simps)
  then show ?thesis by (simp only: dropWhile_eq_drop)
qed

lemma kcKeys_simps [simp]:
  "kcKeys (hydSeek t c) = kcKeys c" "kcKeys (kcStep c) = kcKeys c"
  by (simp_all add: hydSeek_def kcStep_def)

interpretation kc: sorted_cursor kcValid "\<lambda>c. (kcCurrentKey c, c)" "\<lambda>c. (None, c)" kcStep hydSeek
  "\<lambda>c. ascending (kcKeys c)" "\<lambda>c. drop (kcPos c) (kcKeys c)" kcKeys
proof
  show "ascending (drop (kcPos c) (kcKeys c))" if "ascending (kcKeys c)" for c
    using that by (simp add: sorted_wrt_drop)
  show "set (drop (kcPos c) (kcKeys c)) \<subseteq> set (kcKeys c)" for c
    by (rule set_drop_subset)
qed (auto simp: kcValid_def kcCurrentKey_def kcStep_def hd_drop_conv_nth drop_Suc tl_drop hydSeek_pos)

text \<open>The page-store side is a parameter of the contract: its laws are the cursor laws again.\<close>

locale page_source =
  pg: sorted_cursor "\<lambda>p. \<not> pgAtEnd pg p" "pgPeek pg" "pgPeekKv pg" "pgNext pg" "pgSeek pg" pwf prest pkeys
  for pg :: "'p page_ops" and pwf :: "'p \<Rightarrow> bool" and prest :: "'p \<Rightarrow> bytes list"
    and pkeys :: "'p \<Rightarrow> bytes list"

sublocale page_source \<subseteq> src: sorted_cursor "Valid pg" "CurrentKey pg" "CurrentPair pg" "Step pg" "Seek pg"
  "c_wf pwf" "c_rest prest" "c_keys pkeys"
proof
  fix c c' :: "'p Cursor" and k r t assume wf: "c_wf pwf c"
  show "ascending (c_keys pkeys c)"
    using wf pg.asc_keys rk.asc_keys rkv.asc_keys by (cases c) auto
  show "ascending (c_rest prest c)"
    using wf pg.asc_rest rk.asc_rest rkv.asc_rest kc.asc_rest by (cases c) auto
  show "set (c_rest prest c) \<subseteq> set (c_keys pkeys c)"
  proof (cases c)
    case (PageStoreCursor p)
    show ?thesis using pg.rest_keys [of p] wf unfolding PageStoreCursor c_wf.simps c_rest.simps c_keys.simps .
  next
    case (RunCursorC x)
    show ?thesis using rk.rest_keys [of x] wf unfolding RunCursorC c_wf.simps c_rest.simps c_keys.simps .
  next
    case (RunKvCursorC x)
    show ?thesis using rkv.rest_keys [of x] wf unfolding RunKvCursorC c_wf.simps c_rest.simps c_keys.simps .
  next
    case (MockCursor x)
    show ?thesis unfolding MockCursor c_rest.simps c_keys.simps by (rule set_drop_subset)
  next
    case (HydCursor x)
    show ?thesis unfolding HydCursor c_rest.simps c_keys.simps by (rule set_drop_subset)
  qed simp
  show "c_rest prest c = []" if "\<not> Valid pg c"
    using that wf by (cases c) (auto simp: rcRest_def kcValid_def dest: pg.not_valid)
  show "k = (if c_rest prest c = [] then None else Some (hd (c_rest prest c))) \<and> c_wf pwf c'
      \<and> c_rest prest c' = c_rest prest c \<and> c_keys pkeys c' = c_keys pkeys c"
    if "CurrentKey pg c = (k, c')"
    using that wf
  proof (cases c)
    case (PageStoreCursor p)
    obtain r p' where p: "pgPeek pg p = (r, p')" by fastforce
    show ?thesis using PageStoreCursor p that wf pg.currentKey [OF _ p] by auto
  next
    case (RunCursorC x)
    then show ?thesis using that wf rk.currentKey [of x "rcPeek x" x] by auto
  next
    case (RunKvCursorC x)
    obtain r x' where x: "rcPeekKv x = (r, x')" by fastforce
    show ?thesis using RunKvCursorC x that wf rcCurrentKv_ok [OF _ x] by (auto simp: hd_map)
  next
    case (MockCursor x)
    then show ?thesis using that wf kc.currentKey [of x "kcCurrentKey x" x] by auto
  next
    case (HydCursor x)
    then show ?thesis using that wf kc.currentKey [of x "kcCurrentKey x" x] by auto
  qed auto
  show "c_wf pwf c' \<and> c_rest prest c' = c_rest prest c \<and> c_keys pkeys c' = c_keys pkeys c"
    if "CurrentPair pg c = (r, c')"
    using that wf
  proof (cases c)
    case (PageStoreCursor p)
    obtain r p' where p: "pgPeekKv pg p = (r, p')" by fastforce
    show ?thesis using PageStoreCursor p that wf pg.currentPair [OF _ p] by auto
  next
    case (RunKvCursorC x)
    obtain r x' where x: "rcPeekKv x = (r, x')" by fastforce
    show ?thesis using RunKvCursorC x that wf rcCurrentKv_ok [OF _ x] by auto
  qed auto
  show "c_wf pwf (Step pg c) \<and> c_rest prest (Step pg c) = tl (c_rest prest c)
      \<and> c_keys pkeys (Step pg c) = c_keys pkeys c"
    using wf pg.step rk.step rkv.step kc.step by (cases c) auto
  show "c_wf pwf (Seek pg t c) \<and> c_rest prest (Seek pg t c) = dropWhile (\<lambda>k. k < t) (c_keys pkeys c)
      \<and> c_keys pkeys (Seek pg t c) = c_keys pkeys c"
    using wf pg.seek rk.seek rkv.seek kc.seek by (cases c) (auto simp: kc_seek_eq)
qed

section \<open>The merge invariant\<close>

text \<open>
  \<open>heap_for R D h\<close>: the heap holds exactly the heads of the non-empty remainders \<open>R ! i\<close>, \<open>i \<in> D\<close>.
\<close>

definition heap_for :: "bytes list list \<Rightarrow> nat set \<Rightarrow> heapEntry list \<Rightarrow> bool" where
  "heap_for R D h \<longleftrightarrow> heap_ok h \<and>
     mset h = image_mset (\<lambda>i. \<lparr>heKey = hd (R ! i), heSrc = i\<rparr>) (mset_set {i \<in> D. R ! i \<noteq> []})"

text \<open>The keys still to come, above the last one delivered.\<close>

definition above :: "bytes option \<Rightarrow> bytes \<Rightarrow> bool" where
  "above l k = (case l of None \<Rightarrow> True | Some x \<Rightarrow> x < k)"

definition pending :: "bytes option \<Rightarrow> bytes list list \<Rightarrow> bytes list" where
  "pending l R = sorted_list_of_set {k \<in> \<Union>(set ` set R). above l k}"

lemma heap_for_push:
  assumes "heap_for R D h" "finite D" "i \<notin> D" "R ! i \<noteq> []"
  shows "heap_for R (insert i D) (heapPush \<lparr>heKey = hd (R ! i), heSrc = i\<rparr> h)"
proof -
  have "{j \<in> insert i D. R ! j \<noteq> []} = insert i {j \<in> D. R ! j \<noteq> []}" using assms(4) by auto
  then show ?thesis using assms mh.push [of h] by (simp add: heap_for_def)
qed

lemma heap_for_skip: "heap_for R D h \<Longrightarrow> R ! i = [] \<Longrightarrow> heap_for R (insert i D) h"
proof -
  assume "heap_for R D h" "R ! i = []"
  moreover have "{j \<in> insert i D. R ! j \<noteq> []} = {j \<in> D. R ! j \<noteq> []}" using \<open>R ! i = []\<close> by auto
  ultimately show ?thesis by (simp add: heap_for_def)
qed

lemma heap_for_pop_None:
  assumes "heap_for R D h" "finite D" "heapPop h = None" "i \<in> D"
  shows "R ! i = []"
proof -
  have "mset h = {#}" using mh.pop_None [of h] assms(1,3) by (simp add: heap_for_def)
  then have "{j \<in> D. R ! j \<noteq> []} = {}" using assms(1,2) by (simp add: heap_for_def mset_set_empty_iff)
  then show ?thesis using assms(4) by blast
qed

lemma heap_for_pop:
  assumes "heap_for R D h" "finite D" "heapPop h = Some (e, h')"
  shows "heSrc e \<in> D \<and> R ! heSrc e \<noteq> [] \<and> heKey e = hd (R ! heSrc e) \<and> heap_for R (D - {heSrc e}) h'
    \<and> (\<forall>j \<in> D. R ! j \<noteq> [] \<longrightarrow> heKey e \<le> hd (R ! j))"
proof -
  let ?S = "{i \<in> D. R ! i \<noteq> []}" and ?f = "\<lambda>i. \<lparr>heKey = hd (R ! i), heSrc = i\<rparr>"
  have fin: "finite ?S" using assms(2) by simp
  have hm: "mset h = image_mset ?f (mset_set ?S)" using assms(1) by (simp add: heap_for_def)
  have p: "heap_ok h'" "mset h = add_mset e (mset h')" "\<forall>x \<in># mset h. heKey e \<le> heKey x"
    using mh.pop_Some [OF _ assms(3)] assms(1) unfolding heap_for_def by blast+
  have "e \<in># image_mset ?f (mset_set ?S)" using p(2) hm by (metis union_single_eq_member)
  then obtain i where i: "i \<in> ?S" "e = ?f i" using fin by auto
  have "mset_set ?S = add_mset i (mset_set (?S - {i}))" using fin i(1) by (simp add: mset_set.remove)
  then have "add_mset e (mset h') = add_mset e (image_mset ?f (mset_set (?S - {i})))"
    using hm p(2) i(2) by simp
  moreover have "?S - {i} = {j \<in> D - {i}. R ! j \<noteq> []}" by auto
  ultimately have "heap_for R (D - {i}) h'" using p(1) by (simp add: heap_for_def)
  moreover have "heKey e \<le> hd (R ! j)" if "j \<in> D" "R ! j \<noteq> []" for j
  proof -
    have "?f j \<in># mset h" using hm fin that by auto
    then show ?thesis using p(3) by fastforce
  qed
  ultimately show ?thesis using i by auto
qed

lemma heap_for_update:
  "heap_for R D h \<Longrightarrow> i \<notin> D \<Longrightarrow> heap_for (R[i := x]) D h"
proof -
  assume h: "heap_for R D h" and i: "i \<notin> D"
  have eq: "(R[i := x]) ! j = R ! j" if "j \<in> D" for j using i that by (metis nth_list_update_neq)
  then have "{j \<in> D. (R[i := x]) ! j \<noteq> []} = {j \<in> D. R ! j \<noteq> []}" by auto
  moreover have "image_mset (\<lambda>j. \<lparr>heKey = hd ((R[i := x]) ! j), heSrc = j\<rparr>) (mset_set {j \<in> D. R ! j \<noteq> []})
      = image_mset (\<lambda>j. \<lparr>heKey = hd (R ! j), heSrc = j\<rparr>) (mset_set {j \<in> D. R ! j \<noteq> []})"
    by (rule image_mset_cong) (metis (mono_tags, lifting) elem_mset_set eq finite_set_mset_mset_set
        mem_Collect_eq mset_set.infinite empty_iff set_mset_empty)
  ultimately show "heap_for (R[i := x]) D h" using h by (simp add: heap_for_def)
qed

lemma heap_for_min:
  assumes "\<And>r. r \<in> set R \<Longrightarrow> ascending r" "\<forall>j \<in> {..<length R}. R ! j \<noteq> [] \<longrightarrow> k \<le> hd (R ! j)"
    "x \<in> \<Union>(set ` set R)"
  shows "k \<le> x"
proof -
  obtain j where j: "j < length R" "x \<in> set (R ! j)" using assms(3) by (metis UN_E in_set_conv_nth)
  then have "k \<le> hd (R ! j)" using bspec [OF assms(2), of j] by auto
  moreover have "hd (R ! j) \<le> x"
    using assms(1) [OF nth_mem [OF j(1)]] j(2) by (cases "R ! j") auto
  ultimately show ?thesis by simp
qed

lemma union_update_tl:
  assumes "i < length R" "R ! i = k # ks"
  shows "\<Union>(set ` set R) = insert k (\<Union>(set ` set (R[i := ks])))"
proof -
  have R: "R = take i R @ (k # ks) # drop (Suc i) R"
    using id_take_nth_drop [OF assms(1)] assms(2) by simp
  have "set R = set (take i R) \<union> {k # ks} \<union> set (drop (Suc i) R)" by (subst R) auto
  moreover have "set (R[i := ks]) = set (take i R) \<union> {ks} \<union> set (drop (Suc i) R)"
    using assms(1) by (simp add: upd_conv_take_nth_drop)
  ultimately show ?thesis by auto
qed

lemma pending_dup:
  assumes "i < length R" "R ! i = k # ks"
  shows "pending (Some k) (R[i := ks]) = pending (Some k) R"
  using union_update_tl [OF assms] by (auto simp: pending_def above_def intro: arg_cong)

lemma pending_next:
  assumes "i < length R" "R ! i = k # ks" "above l k" "\<forall>x \<in> \<Union>(set ` set R). k \<le> x"
  shows "pending l R = k # pending (Some k) (R[i := ks])"
proof -
  let ?U = "\<Union>(set ` set R)" and ?S = "{x \<in> \<Union>(set ` set R). above l x}"
  have fin: "finite ?S" by simp
  have k: "k \<in> ?S" using assms(3) union_update_tl [OF assms(1,2)] by simp
  then have m: "Min ?S = k" using assms(4) by (intro Min_eqI) auto
  have "?S - {k} = {x \<in> ?U. above (Some k) x}"
    using assms(3,4) by (auto simp: above_def less_le split: option.splits)
  then have "pending l R = k # pending (Some k) R"
    using sorted_list_of_set_nonempty [OF fin] k m by (auto simp: pending_def)
  then show ?thesis using pending_dup [OF assms(1,2)] by simp
qed

lemma sum_list_decr:
  fixes xs :: "nat list"
  assumes "i < length xs" "0 < xs ! i"
  shows "sum_list (xs[i := xs ! i - 1]) < sum_list xs"
  using sum_list_update [OF assms(1), of "xs ! i - 1"] elem_le_sum_list [OF assms(1)] assms(2) by linarith

text \<open>Fields the loops never touch.\<close>

definition same_config :: "'p MergedCursor \<Rightarrow> 'p MergedCursor \<Rightarrow> bool" where
  "same_config m m' \<longleftrightarrow> mcIsKv m' = mcIsKv m \<and> mcCF m' = mcCF m \<and> mcRootUUID m' = mcRootUUID m
     \<and> mcHeight m' = mcHeight m \<and> mcRunGen m' = mcRunGen m \<and> mcHydMode m' = mcHydMode m \<and> mcBase m' = mcBase m"

lemma same_config_refl [simp]: "same_config m m"
  by (simp add: same_config_def)

lemma same_config_trans: "same_config a b \<Longrightarrow> same_config b c \<Longrightarrow> same_config a c"
  by (simp add: same_config_def)

context page_source
begin

definition rests :: "'p MergedCursor \<Rightarrow> bytes list list" where
  "rests mc = map (c_rest prest) (mcSources mc)"

definition keyss :: "'p MergedCursor \<Rightarrow> bytes list list" where
  "keyss mc = map (c_keys pkeys) (mcSources mc)"

definition sources_ok :: "'p MergedCursor \<Rightarrow> bool" where
  "sources_ok mc \<longleftrightarrow> (\<forall>s \<in> set (mcSources mc). c_wf pwf s)"

lemma length_rests [simp]: "length (rests mc) = length (mcSources mc)"
  by (simp add: rests_def)

lemma asc_rests: "sources_ok mc \<Longrightarrow> r \<in> set (rests mc) \<Longrightarrow> ascending r"
  using src.asc_rest by (auto simp: sources_ok_def rests_def)

text \<open>What replacing source \<open>i\<close> by an equivalent or a stepped cursor does.\<close>

lemma replace_source:
  assumes "sources_ok mc" "i < length (mcSources mc)" "c_wf pwf s"
    "c_keys pkeys s = c_keys pkeys (mcSources mc ! i)"
  shows "sources_ok (mc\<lparr>mcSources := (mcSources mc)[i := s]\<rparr>)"
    "rests (mc\<lparr>mcSources := (mcSources mc)[i := s]\<rparr>) = (rests mc)[i := c_rest prest s]"
    "keyss (mc\<lparr>mcSources := (mcSources mc)[i := s]\<rparr>) = keyss mc"
proof -
  show "sources_ok (mc\<lparr>mcSources := (mcSources mc)[i := s]\<rparr>)"
    using assms(1,3) set_update_subset_insert [of "mcSources mc" i s] by (auto simp: sources_ok_def)
  show "rests (mc\<lparr>mcSources := (mcSources mc)[i := s]\<rparr>) = (rests mc)[i := c_rest prest s]"
    by (simp add: rests_def map_update)
  show "keyss (mc\<lparr>mcSources := (mcSources mc)[i := s]\<rparr>) = keyss mc"
    using assms(2,4) by (simp add: keyss_def map_update) (metis length_map list_update_id nth_map)
qed

lemma pushCurrent_ok:
  assumes ok: "sources_ok mc" and i: "i < length (mcSources mc)"
    and h: "heap_for (rests mc) D (mcHeap mc)" "finite D" "i \<notin> D"
  shows "sources_ok (pushCurrent pg i mc) \<and> rests (pushCurrent pg i mc) = rests mc
    \<and> keyss (pushCurrent pg i mc) = keyss mc
    \<and> heap_for (rests mc) (insert i D) (mcHeap (pushCurrent pg i mc))
    \<and> mcLast (pushCurrent pg i mc) = mcLast mc \<and> mcAtEnd (pushCurrent pg i mc) = mcAtEnd mc
    \<and> mcKey (pushCurrent pg i mc) = mcKey mc \<and> mcPair (pushCurrent pg i mc) = mcPair mc
    \<and> same_config mc (pushCurrent pg i mc)"
proof -
  let ?s = "mcSources mc ! i"
  have wf: "c_wf pwf ?s" using ok i by (simp add: sources_ok_def)
  have ri: "rests mc ! i = c_rest prest ?s" using i by (simp add: rests_def)
  show ?thesis
  proof (cases "Valid pg ?s")
    case False
    then have "rests mc ! i = []" using src.not_valid [OF wf] ri by simp
    then show ?thesis using False ok heap_for_skip [OF h(1)] by (simp add: pushCurrent_def)
  next
    case True
    obtain k s' where ck: "CurrentKey pg ?s = (k, s')" by fastforce
    note c = src.currentKey [OF wf ck]
    have same: "(rests mc)[i := c_rest prest s'] = rests mc" using c ri by (metis list_update_id)
    note rs = replace_source [OF ok i, of s']
    show ?thesis
    proof (cases "rests mc ! i = []")
      case e: True
      then have "k = None" using c ri by simp
      then have p: "pushCurrent pg i mc = mc\<lparr>mcSources := (mcSources mc)[i := s']\<rparr>"
        using True ck by (simp add: pushCurrent_def)
      show ?thesis unfolding p using rs c same heap_for_skip [OF h(1) e] by (simp add: same_config_def)
    next
      case ne: False
      then have k: "k = Some (hd (rests mc ! i))" using c ri by simp
      define m1 where "m1 = mc\<lparr>mcSources := (mcSources mc)[i := s']\<rparr>"
      have p: "pushCurrent pg i mc = m1\<lparr>mcHeap := heapPush \<lparr>heKey = hd (rests mc ! i), heSrc = i\<rparr> (mcHeap mc)\<rparr>"
        using True ck k by (simp add: pushCurrent_def m1_def)
      have "sources_ok m1" "rests m1 = rests mc" "keyss m1 = keyss mc" using rs c same by (simp_all add: m1_def)
      then show ?thesis unfolding p using heap_for_push [OF h ne]
        by (simp add: same_config_def m1_def sources_ok_def rests_def keyss_def)
    qed
  qed
qed

lemma stepSource_ok:
  assumes "sources_ok mc" "i < length (mcSources mc)"
  shows "sources_ok (stepSource pg i mc)" "rests (stepSource pg i mc) = (rests mc)[i := tl (rests mc ! i)]"
    "keyss (stepSource pg i mc) = keyss mc" "same_config mc (stepSource pg i mc)"
    "mcHeap (stepSource pg i mc) = mcHeap mc" "mcLast (stepSource pg i mc) = mcLast mc"
    "mcKey (stepSource pg i mc) = mcKey mc" "mcPair (stepSource pg i mc) = mcPair mc"
    "mcAtEnd (stepSource pg i mc) = mcAtEnd mc" "length (mcSources (stepSource pg i mc)) = length (mcSources mc)"
proof -
  have wf: "c_wf pwf (mcSources mc ! i)" using assms by (simp add: sources_ok_def)
  have ri: "rests mc ! i = c_rest prest (mcSources mc ! i)" using assms(2) by (simp add: rests_def)
  note s = src.step [OF wf]
  note rs = replace_source [OF assms, of "Step pg (mcSources mc ! i)"]
  show "sources_ok (stepSource pg i mc)" "rests (stepSource pg i mc) = (rests mc)[i := tl (rests mc ! i)]"
    "keyss (stepSource pg i mc) = keyss mc"
    using rs s ri by (simp_all add: stepSource_def)
qed (simp_all add: stepSource_def same_config_def)

lemma takePair_ok:
  assumes "sources_ok mc" "i < length (mcSources mc)"
  shows "sources_ok (takePair pg i mc)" "rests (takePair pg i mc) = rests mc"
    "keyss (takePair pg i mc) = keyss mc" "same_config mc (takePair pg i mc)"
    "mcHeap (takePair pg i mc) = mcHeap mc" "mcLast (takePair pg i mc) = mcLast mc"
    "mcKey (takePair pg i mc) = mcKey mc" "mcAtEnd (takePair pg i mc) = mcAtEnd mc"
    "length (mcSources (takePair pg i mc)) = length (mcSources mc)"
proof -
  have wf: "c_wf pwf (mcSources mc ! i)" using assms by (simp add: sources_ok_def)
  have ri: "rests mc ! i = c_rest prest (mcSources mc ! i)" using assms(2) by (simp add: rests_def)
  obtain r s' where cp: "CurrentPair pg (mcSources mc ! i) = (r, s')" by fastforce
  note s = src.currentPair [OF wf cp]
  note rs = replace_source [OF assms, of s']
  have same: "(rests mc)[i := c_rest prest s'] = rests mc" using s ri by (metis list_update_id)
  let ?m = "mc\<lparr>mcSources := (mcSources mc)[i := s']\<rparr>"
  have t: "takePair pg i mc = (if mcIsKv mc then ?m\<lparr>mcPair := r\<rparr> else mc)"
    using cp by (simp add: takePair_def)
  have "sources_ok ?m" "rests ?m = rests mc" "keyss ?m = keyss mc" using rs s same by simp_all
  then show "sources_ok (takePair pg i mc)" "rests (takePair pg i mc) = rests mc"
    "keyss (takePair pg i mc) = keyss mc"
    using assms(1) unfolding t by (auto simp: sources_ok_def rests_def keyss_def)
  show "same_config mc (takePair pg i mc)"
    "mcHeap (takePair pg i mc) = mcHeap mc" "mcLast (takePair pg i mc) = mcLast mc"
    "mcKey (takePair pg i mc) = mcKey mc" "mcAtEnd (takePair pg i mc) = mcAtEnd mc"
    "length (mcSources (takePair pg i mc)) = length (mcSources mc)"
    unfolding t by (simp_all add: same_config_def)
qed

end

context page_source
begin

definition m_inv :: "'p MergedCursor \<Rightarrow> bool" where
  "m_inv mc \<longleftrightarrow> sources_ok mc \<and> heap_for (rests mc) {..<length (mcSources mc)} (mcHeap mc)
     \<and> (\<forall>l. mcLast mc = Some l \<longrightarrow> (\<forall>x \<in> \<Union>(set ` set (rests mc)). l \<le> x))"

abbreviation pend :: "'p MergedCursor \<Rightarrow> bytes list" where
  "pend mc \<equiv> pending (mcLast mc) (rests mc)"

text \<open>Popping an entry and moving its source, the common part of the two branches of the loop.\<close>

lemma pop_step:
  assumes inv: "m_inv mc" and pop: "heapPop (mcHeap mc) = Some (e, h')"
    and mc1: "sources_ok mc1" "rests mc1 = rests mc" "keyss mc1 = keyss mc" "mcHeap mc1 = h'"
      "length (mcSources mc1) = length (mcSources mc)"
  defines "i \<equiv> heSrc e" and "k \<equiv> heKey e"
  defines "m' \<equiv> pushCurrent pg i (stepSource pg i mc1)"
  shows "i < length (mcSources mc)" "rests mc ! i = k # tl (rests mc ! i)" "Valid pg (mcSources mc ! i)"
    "\<forall>x \<in> \<Union>(set ` set (rests mc)). k \<le> x"
    "sources_ok m'" "rests m' = (rests mc)[i := tl (rests mc ! i)]" "keyss m' = keyss mc"
    "heap_for (rests m') {..<length (mcSources m')} (mcHeap m')"
    "mcLast m' = mcLast mc1" "mcKey m' = mcKey mc1" "mcPair m' = mcPair mc1" "mcAtEnd m' = mcAtEnd mc1"
    "same_config mc1 m'" "length (mcSources m') = length (mcSources mc)"
proof -
  let ?D = "{..<length (mcSources mc)}"
  have hf: "heap_for (rests mc) ?D (mcHeap mc)" and ok: "sources_ok mc" using inv by (simp_all add: m_inv_def)
  have hp: "i \<in> ?D" "rests mc ! i \<noteq> []" "k = hd (rests mc ! i)" "heap_for (rests mc) (?D - {i}) h'"
    "\<forall>j \<in> ?D. rests mc ! j \<noteq> [] \<longrightarrow> k \<le> hd (rests mc ! j)"
    using heap_for_pop [OF hf finite_lessThan pop] unfolding i_def k_def by blast+
  show i: "i < length (mcSources mc)" using hp(1) by simp
  show "rests mc ! i = k # tl (rests mc ! i)" using hp(2,3) by simp
  show "Valid pg (mcSources mc ! i)"
    using hp(2) i ok src.not_valid [of "mcSources mc ! i"] by (auto simp: sources_ok_def rests_def)
  have "k \<le> x" if "x \<in> \<Union>(set ` set (rests mc))" for x
    by (rule heap_for_min [OF asc_rests [OF ok] _ that]) (use hp(5) in simp_all)
  then show "\<forall>x \<in> \<Union>(set ` set (rests mc)). k \<le> x" by blast
  have i1: "i < length (mcSources mc1)" using i mc1(5) by simp
  note st = stepSource_ok [OF mc1(1) i1]
  have hs: "heap_for (rests (stepSource pg i mc1)) (?D - {i}) (mcHeap (stepSource pg i mc1))"
    unfolding st mc1 by (rule heap_for_update [OF hp(4)]) simp
  have i2: "i < length (mcSources (stepSource pg i mc1))" using i1 st by simp
  have n: "i \<notin> ?D - {i}" and fin: "finite (?D - {i})" by simp_all
  note pc = pushCurrent_ok [OF st(1) i2 hs fin n, folded m'_def]
  have ins: "insert i (?D - {i}) = ?D" using hp(1) by blast
  show "sources_ok m'" using pc by blast
  show "rests m' = (rests mc)[i := tl (rests mc ! i)]" using pc st(2) mc1(2) by simp
  show "keyss m' = keyss mc" using pc st(3) mc1(3) by simp
  show len: "length (mcSources m') = length (mcSources mc)"
    using pc st(10) mc1(5) by (metis length_rests)
  show "heap_for (rests m') {..<length (mcSources m')} (mcHeap m')"
    using pc unfolding len ins by simp
  show "mcLast m' = mcLast mc1" "mcKey m' = mcKey mc1" "mcPair m' = mcPair mc1" "mcAtEnd m' = mcAtEnd mc1"
    "same_config mc1 m'"
    using pc st by (auto intro: same_config_trans)
qed

definition advanced :: "'p MergedCursor \<Rightarrow> 'p MergedCursor \<Rightarrow> bool" where
  "advanced mc m' \<longleftrightarrow> m_inv m' \<and> keyss m' = keyss mc \<and> same_config mc m'
     \<and> (case pend mc of
          [] \<Rightarrow> mcAtEnd m' \<and> mcKey m' = None \<and> mcPair m' = None
        | k # ks \<Rightarrow> mcAtEnd m' = mcAtEnd mc \<and> mcKey m' = Some k \<and> mcLast m' = Some k \<and> pend m' = ks)"

lemma advanceLoop_ok:
  assumes "m_inv mc"
  shows "\<exists>m'. advanceLoop pg mc = Some m' \<and> advanced mc m'"
  using assms
proof (induction "sum_list (map length (rests mc))" arbitrary: mc rule: less_induct)
  case (less mc)
  note inv = less.prems
  show ?case
  proof (cases "heapPop (mcHeap mc)")
    case None
    have "rests mc ! i = []" if "i < length (mcSources mc)" for i
      using heap_for_pop_None [OF _ _ None] inv that by (auto simp: m_inv_def)
    then have e: "\<Union>(set ` set (rests mc)) = {}" by (auto simp: in_set_conv_nth)
    have "pend mc = []" unfolding pending_def e by simp
    moreover have "advanceLoop pg mc = Some (mc\<lparr>mcAtEnd := True, mcKey := None, mcPair := None\<rparr>)"
      by (simp add: advanceLoop.simps None)
    moreover have "m_inv (mc\<lparr>mcAtEnd := True, mcKey := None, mcPair := None\<rparr>)"
      using inv by (simp add: m_inv_def sources_ok_def rests_def)
    ultimately show ?thesis by (simp add: advanced_def same_config_def keyss_def)
  next
    case (Some eh)
    obtain e h' where eh: "eh = (e, h')" by fastforce
    define i k where ik: "i = heSrc e" "k = heKey e"
    have pop: "heapPop (mcHeap mc) = Some (e, h')" using Some eh by simp
    have ok: "sources_ok mc" using inv by (simp add: m_inv_def)
    define mc1 where "mc1 = mc\<lparr>mcHeap := h'\<rparr>"
    have mc1: "sources_ok mc1" "rests mc1 = rests mc" "keyss mc1 = keyss mc" "mcHeap mc1 = h'"
      "length (mcSources mc1) = length (mcSources mc)" "mcSources mc1 = mcSources mc"
      using ok by (simp_all add: mc1_def sources_ok_def rests_def keyss_def)
    note ps = pop_step [OF inv pop mc1(1-5), folded ik]
    let ?dup = "case mcLast mc of Some l \<Rightarrow> cmp_loop k l = 0 | None \<Rightarrow> False"
    have dup: "?dup \<longleftrightarrow> mcLast mc = Some k" by (auto simp: cmp_simps split: option.split)
    show ?thesis
    proof (cases "mcLast mc = Some k")
      case True
      define m' where "m' = pushCurrent pg i (stepSource pg i mc1)"
      note q = ps [folded m'_def]
      have lp: "advanceLoop pg mc = advanceLoop pg m'"
        using True dup q(3) mc1(6)
        by (subst advanceLoop.simps) (simp add: Some eh ik [symmetric] mc1_def [symmetric] m'_def Let_def)
      have pd: "pend m' = pend mc"
        using pending_dup [of i "rests mc" k] q(1,2,6,9) True by (simp add: mc1_def)
      have inv': "m_inv m'"
        using q(4-6,8,9) True union_update_tl [of i "rests mc" k] q(1,2)
        by (auto simp: m_inv_def mc1_def)
      have "sum_list (map length (rests m')) < sum_list (map length (rests mc))"
      proof -
        have "map length (rests m') = (map length (rests mc))[i := length (rests mc ! i) - 1]"
          using q(6) by (simp add: map_update)
        moreover have "0 < length (rests mc ! i)" using q(2) by (metis length_greater_0_conv list.distinct(1))
        ultimately show ?thesis using sum_list_decr [of i "map length (rests mc)"] q(1) by simp
      qed
      then obtain m'' where m'': "advanceLoop pg m' = Some m''" "advanced m' m''"
        using less.hyps [OF _ inv'] by blast
      have "same_config mc m'" "mcAtEnd m' = mcAtEnd mc"
        using q(12,13) by (simp_all add: mc1_def same_config_def)
      then have "advanced mc m''"
        using m''(2) pd q(7) unfolding advanced_def by (auto intro: same_config_trans split: list.splits)
      then show ?thesis using lp m''(1) by simp
    next
      case False
      define mk where "mk = takePair pg i (mc1\<lparr>mcLast := Some k, mcKey := Some k\<rparr>)"
      have a: "sources_ok (mc1\<lparr>mcLast := Some k, mcKey := Some k\<rparr>)" using mc1(1) by (simp add: sources_ok_def)
      note tp = takePair_ok [OF a, of i, folded mk_def]
      have il: "i < length (mcSources (mc1\<lparr>mcLast := Some k, mcKey := Some k\<rparr>))" using ps(1) mc1 by simp
      have mk: "sources_ok mk" "rests mk = rests mc" "keyss mk = keyss mc" "mcHeap mk = h'"
        "length (mcSources mk) = length (mcSources mc)"
        using tp [OF il] mc1 by (simp_all add: rests_def keyss_def)
      define m' where "m' = pushCurrent pg i (stepSource pg i mk)"
      note q = pop_step [OF inv pop mk, folded ik, folded m'_def]
      have lp: "advanceLoop pg mc = Some m'"
        using False dup
        by (subst advanceLoop.simps)
          (simp add: Some eh ik [symmetric] mc1_def [symmetric] m'_def mk_def Let_def)
      have last: "mcLast m' = Some k" "mcKey m' = Some k" "mcAtEnd m' = mcAtEnd mc" "same_config mc m'"
        using q(9,10,12,13) tp [OF il] by (simp_all add: mc1_def same_config_def)
      have "above (mcLast mc) k"
        using inv q(1,2,4) False union_update_tl [of i "rests mc" k]
        by (auto simp: above_def m_inv_def less_le split: option.splits)
      then have "pend mc = k # pend m'"
        using pending_next [of i "rests mc" k "tl (rests mc ! i)" "mcLast mc"] q(1,2,4,6) last by simp
      moreover have "m_inv m'"
        using q(4-6,8) last union_update_tl [of i "rests mc" k] q(1,2) by (auto simp: m_inv_def)
      ultimately show ?thesis using lp last q(7) by (simp add: advanced_def)
    qed
  qed
qed

end

section \<open>A merged cursor is a sorted cursor\<close>

lemma ascending_sorted_list_of_set: "ascending (sorted_list_of_set (A :: 'a::linorder set))"
  by (rule strict_sorted_list_of_set)

context page_source
begin

definition all_keys :: "'p MergedCursor \<Rightarrow> bytes set" where
  "all_keys mc = \<Union>(set ` set (keyss mc))"

definition mc_wf :: "'p MergedCursor \<Rightarrow> bool" where
  "mc_wf mc \<longleftrightarrow> m_inv mc \<and> (\<forall>k. mcKey mc = Some k \<longrightarrow> mcLast mc = Some k \<and> k \<in> all_keys mc)
     \<and> (\<not> mcAtEnd mc \<longrightarrow> mcPair mc \<noteq> None \<longrightarrow> mcKey mc \<noteq> None)"

definition mc_rest :: "'p MergedCursor \<Rightarrow> bytes list" where
  "mc_rest mc = (if mcAtEnd mc then [] else (case mcKey mc of None \<Rightarrow> [] | Some k \<Rightarrow> [k]) @ pend mc)"

definition mc_keys :: "'p MergedCursor \<Rightarrow> bytes list" where
  "mc_keys mc = sorted_list_of_set (all_keys mc)"

lemma finite_all_keys [simp]: "finite (all_keys mc)"
  by (simp add: all_keys_def)

lemma set_pend: "m_inv mc \<Longrightarrow> set (pend mc) \<subseteq> all_keys mc"
proof -
  assume inv: "m_inv mc"
  have "set (c_rest prest s) \<subseteq> set (c_keys pkeys s)" if "s \<in> set (mcSources mc)" for s
    using inv that src.rest_keys by (auto simp: m_inv_def sources_ok_def)
  then show ?thesis by (auto simp: pending_def all_keys_def keyss_def rests_def)
qed

lemma advance_ok:
  assumes "m_inv mc" "\<not> mcAtEnd mc"
  shows "\<exists>m'. advance pg mc = Some m' \<and> mc_wf m' \<and> mc_rest m' = pend mc \<and> keyss m' = keyss mc
    \<and> same_config mc m' \<and> (mcAtEnd m' \<or> mcKey m' \<noteq> None)"
proof -
  obtain m' where m': "advanceLoop pg mc = Some m'" "advanced mc m'"
    using advanceLoop_ok [OF assms(1)] by blast
  have "mc_wf m' \<and> mc_rest m' = pend mc \<and> (mcAtEnd m' \<or> mcKey m' \<noteq> None)"
  proof (cases "pend mc")
    case Nil
    then show ?thesis using m'(2) by (simp add: advanced_def mc_wf_def mc_rest_def)
  next
    case (Cons k ks)
    then have "k \<in> all_keys m'"
      using set_pend [OF assms(1)] m'(2) by (auto simp: advanced_def all_keys_def)
    moreover have "m_inv m'" "\<not> mcAtEnd m'" "mcKey m' = Some k" "mcLast m' = Some k" "pend m' = ks"
      using m'(2) [unfolded advanced_def Cons list.case] assms(2) by blast+
    ultimately show ?thesis unfolding Cons mc_wf_def mc_rest_def by simp
  qed
  then show ?thesis using m' assms(2) by (auto simp: advance_def advanced_def)
qed

lemma ensure_ok:
  assumes "mc_wf mc"
  shows "\<exists>m'. ensure pg mc = Some m' \<and> mc_wf m' \<and> mc_rest m' = mc_rest mc \<and> keyss m' = keyss mc
    \<and> same_config mc m' \<and> (mcAtEnd m' \<or> mcKey m' \<noteq> None)"
proof (cases "mcKey mc = None \<and> \<not> mcAtEnd mc \<and> mcPair mc = None")
  case True
  then show ?thesis using advance_ok [of mc] assms by (auto simp: ensure_def mc_wf_def mc_rest_def)
next
  case False
  then show ?thesis using assms by (auto simp: ensure_def mc_wf_def)
qed

lemma rest_hd:
  assumes "mcAtEnd m \<or> mcKey m \<noteq> None"
  shows "(if mcAtEnd m then None else mcKey m) = (if mc_rest m = [] then None else Some (hd (mc_rest m)))"
  using assms by (auto simp: mc_rest_def)

lemma mcPeek_ok:
  assumes "mc_wf mc"
  shows "\<exists>m'. mcPeek pg mc = Some (if mc_rest mc = [] then None else Some (hd (mc_rest mc)), m')
    \<and> mc_wf m' \<and> mc_rest m' = mc_rest mc \<and> keyss m' = keyss mc"
proof -
  obtain m where m: "ensure pg mc = Some m" "mc_wf m" "mc_rest m = mc_rest mc" "keyss m = keyss mc"
    "mcAtEnd m \<or> mcKey m \<noteq> None"
    using ensure_ok [OF assms] by blast
  have "mcPeek pg mc = Some (if mcAtEnd m then None else mcKey m, m)" using m(1) by (simp add: mcPeek_def)
  then show ?thesis using rest_hd [OF m(5)] m(2-4) by (intro exI [of _ m]) (simp only: simp_thms)
qed

lemma mcPeekKv_ok:
  assumes "mc_wf mc"
  shows "\<exists>r m'. mcPeekKv pg mc = Some (r, m') \<and> mc_wf m' \<and> mc_rest m' = mc_rest mc \<and> keyss m' = keyss mc"
  using ensure_ok [OF assms] by (auto simp: mcPeekKv_def)

lemma mcNext_ok:
  assumes "mc_wf mc"
  shows "\<exists>k m'. mcNext pg mc = Some (k, m') \<and> mc_wf m' \<and> mc_rest m' = tl (mc_rest mc) \<and> keyss m' = keyss mc
    \<and> (mc_rest mc \<noteq> [] \<longrightarrow> k = Some (hd (mc_rest mc)))"
proof -
  obtain m where m: "ensure pg mc = Some m" "mc_wf m" "mc_rest m = mc_rest mc" "keyss m = keyss mc"
    "mcAtEnd m \<or> mcKey m \<noteq> None"
    using ensure_ok [OF assms] by blast
  let ?m0 = "m\<lparr>mcKey := None\<rparr>"
  have inv0: "m_inv ?m0" and k0: "keyss ?m0 = keyss m" and p0: "pend ?m0 = pend m"
    using m(2) by (simp_all add: mc_wf_def m_inv_def sources_ok_def rests_def keyss_def)
  show ?thesis
  proof (cases "mcAtEnd m")
    case True
    then have "mc_wf ?m0" "mc_rest ?m0 = []" "mc_rest mc = []"
      using inv0 m(3) by (auto simp: mc_wf_def mc_rest_def)
    then show ?thesis using True m(1,4) k0 by (auto simp: mcNext_def advance_def)
  next
    case False
    then obtain k where k: "mcKey m = Some k" using m(5) by auto
    then have r: "mc_rest mc = k # pend m" using False m(3) by (simp add: mc_rest_def)
    obtain m' where "advance pg ?m0 = Some m'" "mc_wf m'" "mc_rest m' = pend ?m0" "keyss m' = keyss ?m0"
      using advance_ok [OF inv0] False by auto
    then show ?thesis using m(1,4) k k0 p0 r by (auto simp: mcNext_def)
  qed
qed

lemma pushAll_ok:
  assumes "sources_ok mc" "mcHeap mc = []" "n \<le> length (mcSources mc)"
  defines "m' \<equiv> fold (pushCurrent pg) [0..<n] mc"
  shows "sources_ok m' \<and> rests m' = rests mc \<and> keyss m' = keyss mc \<and> heap_for (rests m') {..<n} (mcHeap m')
    \<and> mcLast m' = mcLast mc \<and> mcAtEnd m' = mcAtEnd mc \<and> mcKey m' = mcKey mc \<and> mcPair m' = mcPair mc
    \<and> same_config mc m' \<and> length (mcSources m') = length (mcSources mc)"
  using assms(3) unfolding m'_def
proof (induction n)
  case 0
  have "heap_for (rests mc) {} []" by (simp add: heap_for_def heap_ok_def)
  then show ?case using assms(1,2) by simp
next
  case (Suc n)
  define m1 where "m1 = fold (pushCurrent pg) [0..<n] mc"
  have IH: "sources_ok m1" "rests m1 = rests mc" "keyss m1 = keyss mc" "heap_for (rests m1) {..<n} (mcHeap m1)"
    "mcLast m1 = mcLast mc" "mcAtEnd m1 = mcAtEnd mc" "mcKey m1 = mcKey mc" "mcPair m1 = mcPair mc"
    "same_config mc m1" "length (mcSources m1) = length (mcSources mc)"
    using Suc.IH Suc_leD [OF Suc.prems] unfolding m1_def by blast+
  have n: "n < length (mcSources m1)" using Suc.prems IH(10) by simp
  have f: "fold (pushCurrent pg) [0..<Suc n] mc = pushCurrent pg n m1" by (simp add: m1_def)
  note pc = pushCurrent_ok [OF IH(1) n IH(4) finite_lessThan, simplified]
  have "length (mcSources (pushCurrent pg n m1)) = length (mcSources mc)"
    using pc IH(10) by (metis length_rests)
  then show ?case
    unfolding f using pc IH by (auto simp: lessThan_Suc intro: same_config_trans)
qed

lemma seekSources_ok:
  assumes "sources_ok mc"
  shows "\<exists>m'. seekSources pg t mc = Some m' \<and> mc_wf m' \<and> mc_rest m' = dropWhile (\<lambda>k. k < t) (mc_keys mc)
    \<and> keyss m' = keyss mc \<and> same_config mc m'"
proof -
  define m1 where "m1 = mc\<lparr>mcSources := map (Seek pg t) (mcSources mc), mcHeap := []\<rparr>"
  define m2 where "m2 = fold (pushCurrent pg) [0..<length (mcSources m1)] m1"
  have sk: "c_wf pwf (Seek pg t s) \<and> c_rest prest (Seek pg t s) = dropWhile (\<lambda>k. k < t) (c_keys pkeys s)
      \<and> c_keys pkeys (Seek pg t s) = c_keys pkeys s" if "s \<in> set (mcSources mc)" for s
    using src.seek assms that by (simp add: sources_ok_def)
  have m1: "sources_ok m1" "rests m1 = map (dropWhile (\<lambda>k. k < t)) (keyss mc)" "keyss m1 = keyss mc"
    "mcHeap m1 = []" "same_config mc m1"
    using sk by (simp_all add: m1_def sources_ok_def rests_def keyss_def same_config_def)
  note m2 = pushAll_ok [OF m1(1,4) order_refl, folded m2_def]
  have inv: "m_inv (resetMerged m2)" "keyss (resetMerged m2) = keyss mc" "same_config mc (resetMerged m2)"
    "pend (resetMerged m2) = pending None (map (dropWhile (\<lambda>k. k < t)) (keyss mc))" "\<not> mcAtEnd (resetMerged m2)"
    using m2 m1
    by (auto simp: m_inv_def resetMerged_def sources_ok_def rests_def keyss_def same_config_def)
  obtain m' where m': "advance pg (resetMerged m2) = Some m'" "mc_wf m'" "mc_rest m' = pend (resetMerged m2)"
    "keyss m' = keyss (resetMerged m2)" "same_config (resetMerged m2) m'"
    using advance_ok [OF inv(1,5)] by blast
  have "pending None (map (dropWhile (\<lambda>k. k < t)) (keyss mc)) = dropWhile (\<lambda>k. k < t) (mc_keys mc)"
  proof (rule strict_sorted_equal)
    show "ascending (pending None (map (dropWhile (\<lambda>k. k < t)) (keyss mc)))"
      by (simp add: pending_def ascending_sorted_list_of_set)
    have asc: "ascending (mc_keys mc)" by (simp add: mc_keys_def ascending_sorted_list_of_set)
    then show "ascending (dropWhile (\<lambda>k. k < t) (mc_keys mc))"
      by (simp add: asc_dropWhile_filter sorted_wrt_filter)
    have "set (dropWhile (\<lambda>k. k < t) r) = {k \<in> set r. t \<le> k}" if "r \<in> set (keyss mc)" for r
      using that assms src.asc_keys by (auto simp: keyss_def sources_ok_def asc_dropWhile_filter)
    then have "set (pending None (map (dropWhile (\<lambda>k. k < t)) (keyss mc))) = {k \<in> all_keys mc. t \<le> k}"
      by (auto simp: pending_def above_def all_keys_def)
    moreover have "set (dropWhile (\<lambda>k. k < t) (mc_keys mc)) = {k \<in> all_keys mc. t \<le> k}"
      unfolding asc_dropWhile_filter [OF asc] by (auto simp: mc_keys_def)
    ultimately show "set (pending None (map (dropWhile (\<lambda>k. k < t)) (keyss mc))) = set (dropWhile (\<lambda>k. k < t) (mc_keys mc))"
      by simp
  qed
  moreover have "seekSources pg t mc = advance pg (resetMerged m2)"
    by (simp add: seekSources_def Let_def m1_def m2_def)
  ultimately show ?thesis using m' inv(2-4) by (auto intro: same_config_trans)
qed

end

sublocale page_source \<subseteq> mcur: sorted_cursor "\<lambda>m. \<not> mcAtEnd m" "\<lambda>m. the (mcPeek pg m)"
  "\<lambda>m. the (mcPeekKv pg m)" "\<lambda>m. snd (the (mcNext pg m))" "\<lambda>t m. the (seekSources pg t m)"
  mc_wf mc_rest mc_keys
proof
  fix c c' :: "'p MergedCursor" and k r t assume wf: "mc_wf c"
  show "ascending (mc_keys c)" by (simp add: mc_keys_def ascending_sorted_list_of_set)
  show "ascending (mc_rest c)"
    using wf by (auto simp: mc_rest_def mc_wf_def pending_def above_def ascending_sorted_list_of_set
        split: option.splits)
  show "set (mc_rest c) \<subseteq> set (mc_keys c)"
    using wf set_pend [of c] by (auto simp: mc_rest_def mc_wf_def mc_keys_def split: option.splits)
  show "mc_rest c = []" if "\<not> \<not> mcAtEnd c" using that by (simp add: mc_rest_def)
  show "k = (if mc_rest c = [] then None else Some (hd (mc_rest c))) \<and> mc_wf c' \<and> mc_rest c' = mc_rest c
      \<and> mc_keys c' = mc_keys c" if "the (mcPeek pg c) = (k, c')"
    using mcPeek_ok [OF wf] that by (auto simp: mc_keys_def all_keys_def)
  show "mc_wf c' \<and> mc_rest c' = mc_rest c \<and> mc_keys c' = mc_keys c" if "the (mcPeekKv pg c) = (r, c')"
    using mcPeekKv_ok [OF wf] that by (auto simp: mc_keys_def all_keys_def)
  show "mc_wf (snd (the (mcNext pg c))) \<and> mc_rest (snd (the (mcNext pg c))) = tl (mc_rest c)
      \<and> mc_keys (snd (the (mcNext pg c))) = mc_keys c"
    using mcNext_ok [OF wf] by (auto simp: mc_keys_def all_keys_def)
  have "sources_ok c" using wf by (simp add: mc_wf_def m_inv_def)
  then show "mc_wf (the (seekSources pg t c)) \<and> mc_rest (the (seekSources pg t c)) = dropWhile (\<lambda>k. k < t) (mc_keys c)
      \<and> mc_keys (the (seekSources pg t c)) = mc_keys c"
    using seekSources_ok [of c t] by (auto simp: mc_keys_def all_keys_def)
qed

end
