(* ===== verification/PageCursor.thy ===== *)
theory PageCursor
  imports Pages CursorMerge
begin

text \<open>
  The lazy forward cursor over one column family's B-tree, \<^verbatim>\<open>src/go/internal/pagestore/cursor.go\<close>. The
  page loads of the store (\<open>loadLeafKeys\<close>, \<open>loadLeafPairs\<close>, \<open>loadIndexPage\<close>) are the record
  \<open>loader\<close>; the store instantiates it with its blobs. On trees of height at most one the cursor meets
  the sorted-cursor contract; the step to a sibling leaf below a deeper index is shown to fail.
\<close>

section \<open>State\<close>

record loader =
  ldLeafKeys :: "UUID \<Rightarrow> FlatLeaf result"
  ldLeafPairs :: "UUID \<Rightarrow> FlatLeafKV result"
  ldIndexPage :: "UUID \<Rightarrow> IndexEntry list result"

record indexPos =
  ipEntries :: "IndexEntry list"
  ipPos :: nat

text \<open>
  \<open>pcStack\<close> holds the top of the index stack at its head. \<open>pcIdx\<close> is \<open>leafIdx\<close>, which starts at -1.
  \<open>(curKey, hasKey)\<close> and \<open>(curPair, hasPair)\<close> are options.
\<close>

record PageCursor =
  pcAtEnd :: bool
  pcStack :: "indexPos list"
  pcLeaf :: "FlatLeaf option"
  pcLeafKV :: "FlatLeafKV option"
  pcIdx :: int
  pcKey :: "bytes option"
  pcPair :: "(bytes \<times> bytes) option"
  pcRoot :: UUID
  pcHeight :: nat
  pcIsKv :: bool

text \<open>An operation returns its error, if any, and the cursor as it was left.\<close>

type_synonym pc_result = "go_error option \<times> PageCursor"

definition NewPageCursor :: "UUID \<Rightarrow> nat \<Rightarrow> bool \<Rightarrow> PageCursor" where
  "NewPageCursor root height isKv =
     \<lparr>pcAtEnd = (root = EmptyUUID), pcStack = [], pcLeaf = None, pcLeafKV = None, pcIdx = -1, pcKey = None,
      pcPair = None, pcRoot = root, pcHeight = height, pcIsKv = isKv\<rparr>"

definition loadLeaf :: "loader \<Rightarrow> UUID \<Rightarrow> PageCursor \<Rightarrow> pc_result" where
  "loadLeaf ld u c =
     (if pcIsKv c then
        (case ldLeafPairs ld u of
           Inl e \<Rightarrow> (Some e, c)
         | Inr l \<Rightarrow> (None, c\<lparr>pcLeafKV := Some l, pcIdx := -1\<rparr>))
      else
        (case ldLeafKeys ld u of
           Inl e \<Rightarrow> (Some e, c)
         | Inr l \<Rightarrow> (None, c\<lparr>pcLeaf := Some l, pcIdx := -1\<rparr>)))"

definition keyCount :: "PageCursor \<Rightarrow> nat" where
  "keyCount c = (if pcIsKv c then FlatLeafKV_Count (pcLeafKV c) else FlatLeaf_Count (pcLeaf c))"

definition leafKeyAt :: "PageCursor \<Rightarrow> nat \<Rightarrow> bytes" where
  "leafKeyAt c i =
     (if pcIsKv c then FlatLeafKV_Key (the (pcLeafKV c)) i else FlatLeaf_Key (the (pcLeaf c)) i)"

definition cmpKeyAt :: "PageCursor \<Rightarrow> nat \<Rightarrow> bytes \<Rightarrow> int" where
  "cmpKeyAt c i target = CmpSeq (leafKeyAt c i) target"

definition emptyIndexPanic :: go_error where
  "emptyIndexPanic = Panic ''index out of range''"

fun descendFirst :: "loader \<Rightarrow> nat \<Rightarrow> UUID \<Rightarrow> PageCursor \<Rightarrow> pc_result" where
  "descendFirst ld 0 cur c = loadLeaf ld cur c"
| "descendFirst ld (Suc h) cur c =
     (case ldIndexPage ld cur of
        Inl e \<Rightarrow> (Some e, c)
      | Inr es \<Rightarrow>
          let c' = c\<lparr>pcStack := \<lparr>ipEntries = es, ipPos = 0\<rparr> # pcStack c\<rparr>
          in if es = [] then (Some emptyIndexPanic, c') else descendFirst ld h (ieUUID (es ! 0)) c')"

definition descendToFirstLeaf :: "loader \<Rightarrow> UUID \<Rightarrow> nat \<Rightarrow> PageCursor \<Rightarrow> pc_result" where
  "descendToFirstLeaf ld u h c = descendFirst ld h u (c\<lparr>pcStack := []\<rparr>)"

definition childPos :: "IndexEntry list \<Rightarrow> bytes \<Rightarrow> nat" where
  "childPos es target =
     (let lo = bsearch (\<lambda>mid. CmpSeq (ieKey (es ! mid)) target \<le> 0) 0 (length es)
      in if lo > 0 then lo - 1 else 0)"

fun descendAt :: "loader \<Rightarrow> nat \<Rightarrow> UUID \<Rightarrow> bytes \<Rightarrow> PageCursor \<Rightarrow> pc_result" where
  "descendAt ld 0 cur target c = loadLeaf ld cur c"
| "descendAt ld (Suc h) cur target c =
     (case ldIndexPage ld cur of
        Inl e \<Rightarrow> (Some e, c)
      | Inr es \<Rightarrow>
          let pos = childPos es target;
              c' = c\<lparr>pcStack := \<lparr>ipEntries = es, ipPos = pos\<rparr> # pcStack c\<rparr>
          in if es = [] then (Some emptyIndexPanic, c') else descendAt ld h (ieUUID (es ! pos)) target c')"

definition descendToLeafAt :: "loader \<Rightarrow> UUID \<Rightarrow> nat \<Rightarrow> bytes \<Rightarrow> PageCursor \<Rightarrow> pc_result" where
  "descendToLeafAt ld u h target c = descendAt ld h u target (c\<lparr>pcStack := []\<rparr>)"

text \<open>
  The inner loop of \<open>advanceToNextLeaf\<close>: it parses every page below the sibling as an index page
  until one has no entries, then loads that page as a leaf. \<open>None\<close>: the loop never ends.
\<close>

partial_function (option) siblingLoop :: "loader \<Rightarrow> UUID \<Rightarrow> PageCursor \<Rightarrow> pc_result option" where
  "siblingLoop ld cur c =
     (case ldIndexPage ld cur of
        Inl e \<Rightarrow> Some (Some e, c)
      | Inr es \<Rightarrow>
          if es \<noteq> []
          then siblingLoop ld (ieUUID (es ! 0)) (c\<lparr>pcStack := \<lparr>ipEntries = es, ipPos = 0\<rparr> # pcStack c\<rparr>)
          else Some (loadLeaf ld cur c))"

function advanceToNextLeaf :: "loader \<Rightarrow> PageCursor \<Rightarrow> pc_result option" where
  "advanceToNextLeaf ld c =
     (case pcStack c of
        [] \<Rightarrow> Some (None, c\<lparr>pcAtEnd := True\<rparr>)
      | tp # rest \<Rightarrow>
          let tp2 = tp\<lparr>ipPos := ipPos tp + 1\<rparr>; c1 = c\<lparr>pcStack := tp2 # rest\<rparr>
          in if ipPos tp2 < length (ipEntries tp2) then
               (let cur = ieUUID (ipEntries tp2 ! ipPos tp2)
                in if pcHeight c = 1 \<and> length (pcStack c1) = 1 then Some (loadLeaf ld cur c1)
                   else siblingLoop ld cur c1)
             else advanceToNextLeaf ld (c\<lparr>pcStack := rest\<rparr>))"
  by pat_completeness auto
termination
  by (relation "measure (\<lambda>(ld, c). length (pcStack c))") auto

declare advanceToNextLeaf.simps [simp del]

definition takeCurrent :: "PageCursor \<Rightarrow> PageCursor" where
  "takeCurrent c =
     (let i = nat (pcIdx c)
      in if pcIsKv c
         then c\<lparr>pcPair := FlatLeafKV_Pair (the (pcLeafKV c)) i, pcKey := Some (leafKeyAt c i)\<rparr>
         else c\<lparr>pcKey := Some (leafKeyAt c i)\<rparr>)"

partial_function (option) pcAdvanceLoop :: "loader \<Rightarrow> PageCursor \<Rightarrow> pc_result option" where
  "pcAdvanceLoop ld c =
     (let c1 = c\<lparr>pcIdx := pcIdx c + 1\<rparr>
      in if pcIdx c1 < int (keyCount c1) then Some (None, takeCurrent c1)
         else if pcStack c1 \<noteq> [] then
           (case advanceToNextLeaf ld c1 of
              None \<Rightarrow> None
            | Some r \<Rightarrow>
                (case fst r of
                   Some e \<Rightarrow> Some (Some e, snd r)
                 | None \<Rightarrow> if pcAtEnd (snd r) then Some (None, snd r) else pcAdvanceLoop ld (snd r)))
         else Some (None, c1\<lparr>pcAtEnd := True\<rparr>))"

definition pcAdvance :: "loader \<Rightarrow> PageCursor \<Rightarrow> pc_result option" where
  "pcAdvance ld c =
     (if pcAtEnd c then Some (None, c) else pcAdvanceLoop ld (c\<lparr>pcKey := None, pcPair := None\<rparr>))"

definition pcLoadRoot :: "loader \<Rightarrow> PageCursor \<Rightarrow> pc_result" where
  "pcLoadRoot ld c =
     (if pcHeight c = 0 then loadLeaf ld (pcRoot c) c else descendToFirstLeaf ld (pcRoot c) (pcHeight c) c)"

definition pcEnsure :: "loader \<Rightarrow> PageCursor \<Rightarrow> pc_result option" where
  "pcEnsure ld c =
     (if pcKey c = None \<and> \<not> pcAtEnd c then
        (if pcRoot c = EmptyUUID then Some (None, c\<lparr>pcAtEnd := True\<rparr>)
         else
           let (err, c1) = (if keyCount c = 0 \<and> pcStack c = [] then pcLoadRoot ld c else (None, c))
           in case err of Some e \<Rightarrow> Some (Some e, c1) | None \<Rightarrow> pcAdvance ld c1)
      else Some (None, c))"

definition pcPeekR :: "loader \<Rightarrow> PageCursor \<Rightarrow> ((bytes option result) \<times> PageCursor) option" where
  "pcPeekR ld c =
     map_option (\<lambda>(err, c1). (case err of Some e \<Rightarrow> Inl e
        | None \<Rightarrow> Inr (if pcAtEnd c1 then None else pcKey c1), c1)) (pcEnsure ld c)"

definition pcPeekKvR :: "loader \<Rightarrow> PageCursor \<Rightarrow> ((bytes \<times> bytes) option result \<times> PageCursor) option" where
  "pcPeekKvR ld c =
     map_option (\<lambda>(err, c1). (case err of Some e \<Rightarrow> Inl e
        | None \<Rightarrow> Inr (if pcAtEnd c1 then None else pcPair c1), c1)) (pcEnsure ld c)"

definition pcNextR :: "loader \<Rightarrow> PageCursor \<Rightarrow> ((bytes option result) \<times> PageCursor) option" where
  "pcNextR ld c =
     Option.bind (pcEnsure ld c) (\<lambda>(err, c1).
       case err of
         Some e \<Rightarrow> Some (Inl e, c1)
       | None \<Rightarrow> map_option (\<lambda>(err2, c2). (case err2 of Some e \<Rightarrow> Inl e | None \<Rightarrow> Inr (pcKey c1), c2))
                   (pcAdvance ld c1))"

definition pcNextKvR :: "loader \<Rightarrow> PageCursor \<Rightarrow> ((bytes \<times> bytes) option result \<times> PageCursor) option" where
  "pcNextKvR ld c =
     Option.bind (pcEnsure ld c) (\<lambda>(err, c1).
       case err of
         Some e \<Rightarrow> Some (Inl e, c1)
       | None \<Rightarrow> map_option (\<lambda>(err2, c2). (case err2 of Some e \<Rightarrow> Inl e | None \<Rightarrow> Inr (pcPair c1), c2))
                   (pcAdvance ld c1))"

definition leafLowerBound :: "PageCursor \<Rightarrow> bytes \<Rightarrow> nat" where
  "leafLowerBound c target = bsearch (\<lambda>mid. cmpKeyAt c mid target < 0) 0 (keyCount c)"

definition pcReposition :: "bytes \<Rightarrow> PageCursor \<Rightarrow> PageCursor" where
  "pcReposition target c =
     c\<lparr>pcIdx := int (leafLowerBound c target) - 1, pcKey := None, pcPair := None, pcAtEnd := False\<rparr>"

text \<open>\<open>for !c.AtEnd { c.advance(); if c.hasKey && CmpSeq(c.curKey, target) >= 0 { return nil } }\<close>\<close>

partial_function (option) pcSeekLoop :: "loader \<Rightarrow> bytes \<Rightarrow> PageCursor \<Rightarrow> pc_result option" where
  "pcSeekLoop ld target c =
     (if pcAtEnd c then Some (None, c\<lparr>pcAtEnd := True\<rparr>)
      else
        (case pcAdvance ld c of
           None \<Rightarrow> None
         | Some r \<Rightarrow>
             (case fst r of
                Some e \<Rightarrow> Some (Some e, snd r)
              | None \<Rightarrow>
                  if (case pcKey (snd r) of Some k \<Rightarrow> CmpSeq k target \<ge> 0 | None \<Rightarrow> False)
                  then Some (None, snd r)
                  else pcSeekLoop ld target (snd r))))"

definition pcSeekR :: "loader \<Rightarrow> bytes \<Rightarrow> PageCursor \<Rightarrow> pc_result option" where
  "pcSeekR ld target c =
     (if pcRoot c = EmptyUUID then Some (None, c\<lparr>pcAtEnd := True\<rparr>)
      else if keyCount c > 0 \<and> cmpKeyAt c 0 target \<le> 0 \<and> cmpKeyAt c (keyCount c - 1) target \<ge> 0
      then pcAdvance ld (pcReposition target c)
      else
        let (err, c1) = (if pcHeight c = 0 then loadLeaf ld (pcRoot c) c
                         else descendToLeafAt ld (pcRoot c) (pcHeight c) target c)
        in case err of
             Some e \<Rightarrow> Some (Some e, c1)
           | None \<Rightarrow> pcSeekLoop ld target (pcReposition target c1))"

definition pcUpdate :: "UUID \<Rightarrow> byte \<Rightarrow> PageCursor \<Rightarrow> PageCursor" where
  "pcUpdate root height c =
     c\<lparr>pcRoot := root, pcHeight := unat height, pcStack := [], pcLeaf := None, pcLeafKV := None, pcIdx := 0,
       pcKey := None, pcPair := None, pcAtEnd := (root = EmptyUUID)\<rparr>"

text \<open>The methods as the wrapper \<open>pageStoreCursor\<close> uses them: errors are dropped.\<close>

definition okOr :: "('a option result) \<Rightarrow> 'a option" where
  "okOr r = (case r of Inl _ \<Rightarrow> None | Inr x \<Rightarrow> x)"

definition pageOps :: "loader \<Rightarrow> PageCursor page_ops" where
  "pageOps ld =
     \<lparr>pgAtEnd = pcAtEnd,
      pgPeek = (\<lambda>c. case the (pcPeekR ld c) of (r, c') \<Rightarrow> (okOr r, c')),
      pgPeekKv = (\<lambda>c. case the (pcPeekKvR ld c) of (r, c') \<Rightarrow> (okOr r, c')),
      pgNext = (\<lambda>c. snd (the (pcNextR ld c))),
      pgSeek = (\<lambda>t c. snd (the (pcSeekR ld t c))),
      pgSetAtEnd = (\<lambda>c. c\<lparr>pcAtEnd := True\<rparr>)\<rparr>"

section \<open>Shallow trees\<close>

text \<open>The keys of a leaf, as the cursor reads them.\<close>

definition leafOf :: "loader \<Rightarrow> bool \<Rightarrow> UUID \<Rightarrow> bytes list option" where
  "leafOf ld kv u =
     (if kv then
        (case ldLeafPairs ld u of
           Inl _ \<Rightarrow> None | Inr l \<Rightarrow> Some (map (FlatLeafKV_Key l) [0..<FlatLeafKV_Count (Some l)]))
      else
        (case ldLeafKeys ld u of
           Inl _ \<Rightarrow> None | Inr l \<Rightarrow> Some (map (FlatLeaf_Key l) [0..<FlatLeaf_Count (Some l)])))"

definition leafKeys :: "PageCursor \<Rightarrow> bytes list" where
  "leafKeys c = map (leafKeyAt c) [0..<keyCount c]"

definition indexOf :: "loader \<Rightarrow> UUID \<Rightarrow> IndexEntry list" where
  "indexOf ld u = (case ldIndexPage ld u of Inl _ \<Rightarrow> [] | Inr es \<Rightarrow> es)"

text \<open>The leaves of a tree of height 0 or 1, left to right.\<close>

definition treeLeaves :: "loader \<Rightarrow> PageCursor \<Rightarrow> bytes list list" where
  "treeLeaves ld c =
     (if pcRoot c = EmptyUUID then []
      else if pcHeight c = 0 then [the (leafOf ld (pcIsKv c) (pcRoot c))]
      else map (\<lambda>e. the (leafOf ld (pcIsKv c) (ieUUID e))) (indexOf ld (pcRoot c)))"

text \<open>
  A tree the store writes: readable, non-empty leaves in ascending order, each under its first key.
\<close>

definition shallow_tree :: "loader \<Rightarrow> PageCursor \<Rightarrow> bool" where
  "shallow_tree ld c \<longleftrightarrow> pcHeight c \<le> 1 \<and> ascending (concat (treeLeaves ld c))
     \<and> (\<forall>l \<in> set (treeLeaves ld c). l \<noteq> [])
     \<and> (pcRoot c \<noteq> EmptyUUID \<longrightarrow> pcHeight c = 0 \<longrightarrow> leafOf ld (pcIsKv c) (pcRoot c) \<noteq> None)
     \<and> (pcRoot c \<noteq> EmptyUUID \<longrightarrow> pcHeight c = 1 \<longrightarrow>
          ldIndexPage ld (pcRoot c) = Inr (indexOf ld (pcRoot c)) \<and> indexOf ld (pcRoot c) \<noteq> []
          \<and> (\<forall>e \<in> set (indexOf ld (pcRoot c)). leafOf ld (pcIsKv c) (ieUUID e) \<noteq> None)
          \<and> map ieKey (indexOf ld (pcRoot c)) = map hd (treeLeaves ld c))"

text \<open>Where the cursor stands: nothing loaded, or leaf \<open>p\<close> loaded with the matching stack.\<close>

definition unloaded :: "PageCursor \<Rightarrow> bool" where
  "unloaded c \<longleftrightarrow> keyCount c = 0 \<and> pcStack c = []"

definition atLeaf :: "loader \<Rightarrow> PageCursor \<Rightarrow> nat \<Rightarrow> bool" where
  "atLeaf ld c p \<longleftrightarrow> p < length (treeLeaves ld c) \<and> leafKeys c = treeLeaves ld c ! p
     \<and> (pcHeight c = 0 \<longrightarrow> pcStack c = [])
     \<and> (pcHeight c = 1 \<longrightarrow> pcStack c = [\<lparr>ipEntries = indexOf ld (pcRoot c), ipPos = p\<rparr>]
          \<or> pcStack c = [] \<and> Suc p = length (treeLeaves ld c))
     \<and> (\<not> pcAtEnd c \<longrightarrow> -1 \<le> pcIdx c \<and> pcIdx c < int (keyCount c))
     \<and> (\<not> pcAtEnd c \<longrightarrow> pcKey c \<noteq> None \<longrightarrow> 0 \<le> pcIdx c \<and> pcKey c = Some (leafKeys c ! nat (pcIdx c)))"

definition pc_wf :: "loader \<Rightarrow> PageCursor \<Rightarrow> bool" where
  "pc_wf ld c \<longleftrightarrow> shallow_tree ld c
     \<and> (if pcRoot c = EmptyUUID then pcAtEnd c
        else unloaded c \<and> (\<not> pcAtEnd c \<longrightarrow> pcKey c = None) \<or> (\<exists>p. atLeaf ld c p))"

definition later :: "loader \<Rightarrow> PageCursor \<Rightarrow> bytes list" where
  "later ld c =
     (case pcStack c of [] \<Rightarrow> []
      | ip # _ \<Rightarrow> concat (map (\<lambda>e. the (leafOf ld (pcIsKv c) (ieUUID e))) (drop (Suc (ipPos ip)) (ipEntries ip))))"

definition pc_keys :: "loader \<Rightarrow> PageCursor \<Rightarrow> bytes list" where
  "pc_keys ld c = concat (treeLeaves ld c)"

definition pc_rest :: "loader \<Rightarrow> PageCursor \<Rightarrow> bytes list" where
  "pc_rest ld c =
     (if pcAtEnd c then []
      else if unloaded c then pc_keys ld c
      else drop (nat (pcIdx c + (if pcKey c = None then 1 else 0))) (leafKeys c) @ later ld c)"

text \<open>Fields that fix the tree.\<close>

definition same_tree :: "PageCursor \<Rightarrow> PageCursor \<Rightarrow> bool" where
  "same_tree c c' \<longleftrightarrow> pcRoot c' = pcRoot c \<and> pcHeight c' = pcHeight c \<and> pcIsKv c' = pcIsKv c"

lemma same_tree_leaves: "same_tree c c' \<Longrightarrow> treeLeaves ld c' = treeLeaves ld c"
  by (simp add: same_tree_def treeLeaves_def)

lemma same_tree_shallow: "same_tree c c' \<Longrightarrow> shallow_tree ld c' = shallow_tree ld c"
  by (simp add: same_tree_def treeLeaves_def shallow_tree_def)

lemma length_leafKeys [simp]: "length (leafKeys c) = keyCount c"
  by (simp add: leafKeys_def)

lemma leafKeys_nth: "i < keyCount c \<Longrightarrow> leafKeys c ! i = leafKeyAt c i"
  by (simp add: leafKeys_def)

lemma leafKeys_cong:
  "pcIsKv c' = pcIsKv c \<Longrightarrow> pcLeaf c' = pcLeaf c \<Longrightarrow> pcLeafKV c' = pcLeafKV c \<Longrightarrow>
     leafKeys c' = leafKeys c \<and> keyCount c' = keyCount c"
  by (simp add: leafKeys_def keyCount_def leafKeyAt_def cong: map_cong)

lemma loadLeaf_ok:
  assumes "leafOf ld (pcIsKv c) u = Some ks"
  shows "\<exists>c'. loadLeaf ld u c = (None, c') \<and> leafKeys c' = ks \<and> same_tree c c' \<and> pcIdx c' = -1
    \<and> pcStack c' = pcStack c \<and> pcAtEnd c' = pcAtEnd c \<and> pcKey c' = pcKey c \<and> pcPair c' = pcPair c"
proof (cases "pcIsKv c")
  case True
  then obtain l where "ldLeafPairs ld u = Inr l" using assms by (auto simp: leafOf_def split: sum.splits)
  then show ?thesis
    using True assms
    by (intro exI [of _ "c\<lparr>pcLeafKV := Some l, pcIdx := -1\<rparr>"])
      (simp add: loadLeaf_def leafOf_def same_tree_def leafKeys_def keyCount_def leafKeyAt_def [abs_def])
next
  case False
  then obtain l where "ldLeafKeys ld u = Inr l" using assms by (auto simp: leafOf_def split: sum.splits)
  then show ?thesis
    using False assms
    by (intro exI [of _ "c\<lparr>pcLeaf := Some l, pcIdx := -1\<rparr>"])
      (simp add: loadLeaf_def leafOf_def same_tree_def leafKeys_def keyCount_def leafKeyAt_def [abs_def])
qed

lemma later_atLeaf:
  assumes "shallow_tree ld c" "atLeaf ld c p"
  shows "later ld c = concat (drop (Suc p) (treeLeaves ld c))"
proof -
  have nz: "pcRoot c \<noteq> EmptyUUID" using assms(2) by (auto simp: atLeaf_def treeLeaves_def)
  show ?thesis
  proof (cases "pcHeight c = 0")
    case True
    then show ?thesis using assms(2) nz by (simp add: later_def atLeaf_def treeLeaves_def)
  next
    case False
    then have "pcHeight c = 1" using assms(1) by (simp add: shallow_tree_def)
    then show ?thesis
      using assms(2) nz by (auto simp: later_def atLeaf_def treeLeaves_def drop_map)
  qed
qed

lemma atLeaf_loaded: "shallow_tree ld c \<Longrightarrow> atLeaf ld c p \<Longrightarrow> \<not> unloaded c"
  using nth_mem [of p "treeLeaves ld c"]
  by (auto simp: unloaded_def atLeaf_def shallow_tree_def simp flip: length_leafKeys)

lemma takeCurrent_simps [simp]:
  "pcAtEnd (takeCurrent c) = pcAtEnd c" "pcStack (takeCurrent c) = pcStack c" "pcIdx (takeCurrent c) = pcIdx c"
  "pcKey (takeCurrent c) = Some (leafKeyAt c (nat (pcIdx c)))" "same_tree c (takeCurrent c)"
  "leafKeys (takeCurrent c) = leafKeys c" "keyCount (takeCurrent c) = keyCount c"
  using leafKeys_cong [of "takeCurrent c" c]
  by (simp_all add: takeCurrent_def same_tree_def Let_def)

section \<open>Advancing\<close>

text \<open>What \<open>advance\<close> leaves: the same remainder, with its first key loaded unless the cursor is at the end.\<close>

definition settled :: "loader \<Rightarrow> PageCursor \<Rightarrow> bytes list \<Rightarrow> PageCursor \<Rightarrow> bool" where
  "settled ld c r c' \<longleftrightarrow> same_tree c c' \<and> (\<exists>p. atLeaf ld c' p) \<and> pc_rest ld c' = r
     \<and> (pcAtEnd c' \<and> pcKey c' = None \<or> \<not> pcAtEnd c' \<and> pcKey c' \<noteq> None)"

lemma same_tree_refl [simp]: "same_tree c c"
  by (simp add: same_tree_def)

lemma same_tree_trans: "same_tree a b \<Longrightarrow> same_tree b c \<Longrightarrow> same_tree a c"
  by (simp add: same_tree_def)

lemma rest_atLeaf:
  assumes "shallow_tree ld c" "atLeaf ld c p" "\<not> pcAtEnd c"
  shows "pc_rest ld c = drop (nat (pcIdx c + (if pcKey c = None then 1 else 0))) (leafKeys c)
    @ concat (drop (Suc p) (treeLeaves ld c))"
  using assms atLeaf_loaded [OF assms(1,2)] later_atLeaf [OF assms(1,2)] by (simp add: pc_rest_def)

lemma advance_in_leaf:
  assumes s: "shallow_tree ld c" and a: "atLeaf ld c p" and "\<not> pcAtEnd c" "pcKey c = None"
    and i: "pcIdx c + 1 < int (keyCount c)"
  shows "\<exists>c'. pcAdvanceLoop ld c = Some (None, c') \<and> settled ld c (pc_rest ld c) c'"
proof -
  define c1 where "c1 = c\<lparr>pcIdx := pcIdx c + 1\<rparr>"
  have lk: "leafKeys c1 = leafKeys c" "keyCount c1 = keyCount c"
    using leafKeys_cong [of c1 c] by (simp_all add: c1_def)
  have st: "same_tree c c1" by (simp add: c1_def same_tree_def)
  have tk: "same_tree c (takeCurrent c1)" by (rule same_tree_trans [OF st]) simp
  have e: "pcAdvanceLoop ld c = Some (None, takeCurrent c1)"
    using i lk by (subst pcAdvanceLoop.simps) (simp add: c1_def)
  have n: "0 \<le> pcIdx c + 1" using a assms(3) by (simp add: atLeaf_def)
  have k: "pcKey (takeCurrent c1) = Some (leafKeys c ! nat (pcIdx c + 1))"
    using i n lk leafKeys_nth [of "nat (pcIdx c + 1)" c1] by (simp add: c1_def)
  have a': "atLeaf ld (takeCurrent c1) p"
    using a k i n lk assms(3) same_tree_leaves [OF tk, of ld] tk
    by (simp add: atLeaf_def same_tree_def c1_def)
  have "pc_rest ld (takeCurrent c1) = pc_rest ld c"
    using rest_atLeaf [OF _ a'] rest_atLeaf [OF s a assms(3)] assms(3,4) same_tree_shallow [OF tk, of ld] s
      same_tree_leaves [OF tk, of ld] lk
    by (simp add: c1_def)
  then show ?thesis using e tk a' assms(3) by (auto simp: settled_def c1_def)
qed

lemma at_end_settled:
  assumes "shallow_tree ld c" "atLeaf ld c p" "Suc p = length (treeLeaves ld c)" "pcKey c = None"
  shows "settled ld c [] (c\<lparr>pcIdx := i, pcStack := [], pcAtEnd := True\<rparr>)"
proof -
  let ?c = "c\<lparr>pcIdx := i, pcStack := [], pcAtEnd := True\<rparr>"
  have st: "same_tree c ?c" by (simp add: same_tree_def)
  have "leafKeys ?c = leafKeys c" using leafKeys_cong [of ?c c] by simp
  then have "atLeaf ld ?c p" using assms same_tree_leaves [OF st, of ld] by (simp add: atLeaf_def)
  then show ?thesis using st assms(4) by (auto simp: settled_def pc_rest_def)
qed

text \<open>The entry of the index page that names leaf \<open>p\<close>.\<close>

lemma index_leaf:
  assumes s: "shallow_tree ld c" and h: "pcHeight c = 1" and p: "p < length (treeLeaves ld c)"
  shows "pcRoot c \<noteq> EmptyUUID" "length (treeLeaves ld c) = length (indexOf ld (pcRoot c))"
    "leafOf ld (pcIsKv c) (ieUUID (indexOf ld (pcRoot c) ! p)) = Some (treeLeaves ld c ! p)"
    "ldIndexPage ld (pcRoot c) = Inr (indexOf ld (pcRoot c))"
    "ieKey (indexOf ld (pcRoot c) ! p) = hd (treeLeaves ld c ! p)"
proof -
  show nz: "pcRoot c \<noteq> EmptyUUID" using p by (auto simp: treeLeaves_def)
  show l: "length (treeLeaves ld c) = length (indexOf ld (pcRoot c))" using nz h by (simp add: treeLeaves_def)
  have "indexOf ld (pcRoot c) ! p \<in> set (indexOf ld (pcRoot c))" using p l by simp
  then have "leafOf ld (pcIsKv c) (ieUUID (indexOf ld (pcRoot c) ! p)) \<noteq> None"
    using s h nz unfolding shallow_tree_def by blast
  then show "leafOf ld (pcIsKv c) (ieUUID (indexOf ld (pcRoot c) ! p)) = Some (treeLeaves ld c ! p)"
    using p l h nz by (auto simp: treeLeaves_def)
  show "ldIndexPage ld (pcRoot c) = Inr (indexOf ld (pcRoot c))" using s h nz unfolding shallow_tree_def by blast
  have "map ieKey (indexOf ld (pcRoot c)) = map hd (treeLeaves ld c)" using s h nz unfolding shallow_tree_def by blast
  then show "ieKey (indexOf ld (pcRoot c) ! p) = hd (treeLeaves ld c ! p)" using p l by (metis nth_map)
qed

lemma leaf_nonempty: "shallow_tree ld c \<Longrightarrow> p < length (treeLeaves ld c) \<Longrightarrow> treeLeaves ld c ! p \<noteq> []"
  unfolding shallow_tree_def using nth_mem by blast

lemma enter_leaf:
  assumes s: "shallow_tree ld c" and p: "p < length (treeLeaves ld c)"
    and l: "loadLeaf ld u c = (None, c')" "leafOf ld (pcIsKv c) u = Some (treeLeaves ld c ! p)"
    and st: "pcHeight c = 0 \<and> pcStack c = []
      \<or> pcHeight c = 1 \<and> pcStack c = [\<lparr>ipEntries = indexOf ld (pcRoot c), ipPos = p\<rparr>]"
    and k: "pcKey c = None \<or> pcAtEnd c"
  shows "atLeaf ld c' p \<and> same_tree c c' \<and> shallow_tree ld c' \<and> pcKey c' = pcKey c \<and> pcAtEnd c' = pcAtEnd c
    \<and> pcIdx c' = -1 \<and> 0 < keyCount c'
    \<and> (\<not> pcAtEnd c \<longrightarrow> pc_rest ld c' = concat (drop p (treeLeaves ld c)))"
proof -
  have c': "leafKeys c' = treeLeaves ld c ! p" "same_tree c c'" "pcIdx c' = -1" "pcStack c' = pcStack c"
    "pcAtEnd c' = pcAtEnd c" "pcKey c' = pcKey c"
    using loadLeaf_ok [OF l(2)] l(1) by auto
  have tl: "treeLeaves ld c' = treeLeaves ld c" by (rule same_tree_leaves [OF c'(2)])
  have sh: "shallow_tree ld c'" using s same_tree_shallow [OF c'(2)] by simp
  have a: "atLeaf ld c' p" using c' tl p st k by (auto simp: atLeaf_def same_tree_def)
  have kc: "0 < keyCount c'" using leaf_nonempty [OF s p] c'(1) by (metis length_greater_0_conv length_leafKeys)
  have "pc_rest ld c' = concat (drop p (treeLeaves ld c))" if "\<not> pcAtEnd c"
    using rest_atLeaf [OF sh a] that k c' tl Cons_nth_drop_Suc [OF p]
    by (metis append_Nil concat.simps(2) drop0 nat_0 right_minus_eq add.commute add.right_inverse)
  then show ?thesis using a c' sh kc by blast
qed

lemma pcAdvanceLoop_ok:
  assumes s: "shallow_tree ld c" and a: "atLeaf ld c p" and ne: "\<not> pcAtEnd c" and k: "pcKey c = None"
  shows "\<exists>c'. pcAdvanceLoop ld c = Some (None, c') \<and> settled ld c (pc_rest ld c) c'"
proof (cases "pcIdx c + 1 < int (keyCount c)")
  case True
  then show ?thesis by (rule advance_in_leaf [OF assms])
next
  case False
  define c1 where "c1 = c\<lparr>pcIdx := pcIdx c + 1\<rparr>"
  have lk: "leafKeys c1 = leafKeys c" "keyCount c1 = keyCount c"
    using leafKeys_cong [of c1 c] by (simp_all add: c1_def)
  have st: "same_tree c c1" by (simp add: c1_def same_tree_def)
  have r: "pc_rest ld c = concat (drop (Suc p) (treeLeaves ld c))"
    using rest_atLeaf [OF s a ne] False k by simp
  show ?thesis
  proof (cases "Suc p < length (treeLeaves ld c)")
    case True
    have h: "pcHeight c = 1"
      using True s a by (auto simp: shallow_tree_def treeLeaves_def atLeaf_def le_Suc_eq split: if_splits)
    let ?es = "indexOf ld (pcRoot c)"
    have sk: "pcStack c = [\<lparr>ipEntries = ?es, ipPos = p\<rparr>]" using a h True by (simp add: atLeaf_def)
    note il = index_leaf [OF s h True]
    define c2 where "c2 = c1\<lparr>pcStack := [\<lparr>ipEntries = ?es, ipPos = Suc p\<rparr>]\<rparr>"
    have st2: "same_tree c c2" by (simp add: c2_def c1_def same_tree_def)
    have s2: "shallow_tree ld c2" "treeLeaves ld c2 = treeLeaves ld c"
      using same_tree_shallow [OF st2] same_tree_leaves [OF st2] s by simp_all
    obtain c3 where c3: "loadLeaf ld (ieUUID (?es ! Suc p)) c2 = (None, c3)"
      using loadLeaf_ok [of ld c2] il(3) st2 by (auto simp: same_tree_def)
    have e: "atLeaf ld c3 (Suc p) \<and> same_tree c2 c3 \<and> shallow_tree ld c3 \<and> pcKey c3 = pcKey c2
        \<and> pcAtEnd c3 = pcAtEnd c2 \<and> pcIdx c3 = -1 \<and> 0 < keyCount c3
        \<and> (\<not> pcAtEnd c2 \<longrightarrow> pc_rest ld c3 = concat (drop (Suc p) (treeLeaves ld c2)))"
      by (rule enter_leaf [OF s2(1) _ c3]) (use s2(2) True il(3) st2 h k in \<open>auto simp: same_tree_def c2_def c1_def\<close>)
    have nx: "advanceToNextLeaf ld c1 = Some (None, c3)"
      using sk il(2) True h c3 by (subst advanceToNextLeaf.simps) (simp add: c1_def c2_def Let_def)
    have "pcAtEnd c3 = False" "pcKey c3 = None" using e ne k by (simp_all add: c2_def c1_def)
    moreover obtain c' where c': "pcAdvanceLoop ld c3 = Some (None, c')" "settled ld c3 (pc_rest ld c3) c'"
      using advance_in_leaf [of ld c3 "Suc p"] e calculation by auto
    ultimately have "pcAdvanceLoop ld c = Some (None, c')"
      using False nx sk lk by (subst pcAdvanceLoop.simps) (simp add: c1_def)
    moreover have "pc_rest ld c3 = pc_rest ld c" using e s2(2) r ne by (simp add: c2_def c1_def)
    moreover have "same_tree c c3" using e st2 by (blast intro: same_tree_trans)
    ultimately show ?thesis using c' by (auto simp: settled_def intro: same_tree_trans)
  next
    case last: False
    then have p: "Suc p = length (treeLeaves ld c)" using a by (simp add: atLeaf_def)
    have s1: "shallow_tree ld c1" "treeLeaves ld c1 = treeLeaves ld c"
      using same_tree_shallow [OF st] same_tree_leaves [OF st] s by simp_all
    let ?e = "c1\<lparr>pcStack := [], pcAtEnd := True\<rparr>"
    have "pcAdvanceLoop ld c = Some (None, ?e)"
    proof (cases "pcStack c = []")
      case True
      then have "?e = c1\<lparr>pcAtEnd := True\<rparr>" by (simp add: c1_def)
      then show ?thesis using False True lk by (subst pcAdvanceLoop.simps) (simp add: c1_def)
    next
      case ns: False
      then have h: "pcHeight c = 1" using a s by (auto simp: atLeaf_def shallow_tree_def le_Suc_eq)
      then have "pcStack c = [\<lparr>ipEntries = indexOf ld (pcRoot c), ipPos = p\<rparr>]" using a ns by (simp add: atLeaf_def)
      moreover have "length (indexOf ld (pcRoot c)) = Suc p"
        using p index_leaf(2) [OF s h, of p] a by (simp add: atLeaf_def)
      ultimately have "advanceToNextLeaf ld c1 = Some (None, ?e)"
        by (subst advanceToNextLeaf.simps) (simp add: c1_def Let_def advanceToNextLeaf.simps)
      then show ?thesis using False ns lk by (subst pcAdvanceLoop.simps) (simp add: c1_def)
    qed
    moreover have "settled ld c [] ?e"
      using at_end_settled [OF s a p k] by (simp add: c1_def)
    ultimately show ?thesis using r p by simp
  qed
qed

section \<open>The cursor contract on shallow trees\<close>

lemma atLeaf_current:
  assumes "atLeaf ld c p" "\<not> pcAtEnd c" "pcKey c \<noteq> None"
  shows "0 \<le> pcIdx c" "nat (pcIdx c) < keyCount c" "pcKey c = Some (leafKeys c ! nat (pcIdx c))"
  using assms unfolding atLeaf_def by linarith+

lemma pcAdvance_ok:
  assumes s: "shallow_tree ld c" and a: "atLeaf ld c p" and ne: "\<not> pcAtEnd c"
  shows "\<exists>c'. pcAdvance ld c = Some (None, c')
    \<and> settled ld c (if pcKey c = None then pc_rest ld c else tl (pc_rest ld c)) c'"
proof -
  define c0 where "c0 = c\<lparr>pcKey := None, pcPair := None\<rparr>"
  have lk: "leafKeys c0 = leafKeys c" "keyCount c0 = keyCount c"
    using leafKeys_cong [of c0 c] by (simp_all add: c0_def)
  have st: "same_tree c c0" by (simp add: c0_def same_tree_def)
  have s0: "shallow_tree ld c0" and t0: "treeLeaves ld c0 = treeLeaves ld c"
    using same_tree_shallow [OF st] same_tree_leaves [OF st] s by simp_all
  have a0: "atLeaf ld c0 p" using a lk t0 by (simp add: atLeaf_def c0_def)
  obtain c' where c': "pcAdvanceLoop ld c0 = Some (None, c')" "settled ld c0 (pc_rest ld c0) c'"
    using pcAdvanceLoop_ok [OF s0 a0] ne by (auto simp: c0_def)
  have "pc_rest ld c0 = (if pcKey c = None then pc_rest ld c else tl (pc_rest ld c))"
  proof (cases "pcKey c = None")
    case True
    then show ?thesis
      using rest_atLeaf [OF s0 a0] rest_atLeaf [OF s a ne] ne lk t0 by (simp add: c0_def)
  next
    case False
    then have i: "0 \<le> pcIdx c" "nat (pcIdx c) < length (leafKeys c)" using atLeaf_current [OF a ne] by simp_all
    then have "nat (pcIdx c + 1) = Suc (nat (pcIdx c))" by simp
    then have "tl (drop (nat (pcIdx c)) (leafKeys c) @ x) = drop (nat (pcIdx c + 1)) (leafKeys c) @ x" for x
      by (simp add: Cons_nth_drop_Suc [OF i(2), symmetric])
    moreover have "pc_rest ld c = drop (nat (pcIdx c)) (leafKeys c) @ concat (drop (Suc p) (treeLeaves ld c))"
      using rest_atLeaf [OF s a ne] False by simp
    ultimately show ?thesis
      using False rest_atLeaf [OF s0 a0] ne lk t0 by (auto simp: c0_def)
  qed
  moreover have "settled ld c r c' = settled ld c0 r c'" for r
    by (simp add: settled_def same_tree_def c0_def)
  ultimately show ?thesis using c' ne by (simp add: pcAdvance_def c0_def)
qed

lemma settled_wf:
  assumes "shallow_tree ld c" "settled ld c r c'"
  shows "pc_wf ld c'" "pc_keys ld c' = pc_keys ld c" "pc_rest ld c' = r" "shallow_tree ld c'"
    "(if pcAtEnd c' then None else pcKey c') = (if r = [] then None else Some (hd r))"
proof -
  obtain p where p: "atLeaf ld c' p" and st: "same_tree c c'" and r: "pc_rest ld c' = r"
    and e: "pcAtEnd c' \<and> pcKey c' = None \<or> \<not> pcAtEnd c' \<and> pcKey c' \<noteq> None"
    using assms(2) unfolding settled_def by blast
  show sh: "shallow_tree ld c'" using same_tree_shallow [OF st] assms(1) by simp
  have nz: "pcRoot c' \<noteq> EmptyUUID" using p by (auto simp: atLeaf_def treeLeaves_def)
  show "pc_wf ld c'" unfolding pc_wf_def using sh nz p by auto
  show "pc_keys ld c' = pc_keys ld c" using same_tree_leaves [OF st] by (simp add: pc_keys_def)
  show "pc_rest ld c' = r" by (rule r)
  show "(if pcAtEnd c' then None else pcKey c') = (if r = [] then None else Some (hd r))"
  proof (cases "pcAtEnd c'")
    case True
    then show ?thesis using r by (simp add: pc_rest_def)
  next
    case False
    then have i: "0 \<le> pcIdx c'" "nat (pcIdx c') < length (leafKeys c')"
      and k: "pcKey c' = Some (leafKeys c' ! nat (pcIdx c'))"
      using atLeaf_current [OF p False] e by simp_all
    have "r = drop (nat (pcIdx c')) (leafKeys c') @ concat (drop (Suc p) (treeLeaves ld c'))"
      using rest_atLeaf [OF sh p False] k r by simp
    then show ?thesis using i(2) k False by (simp add: hd_drop_conv_nth)
  qed
qed

lemma pcLoadRoot_ok:
  assumes w: "pc_wf ld c" and nz: "pcRoot c \<noteq> EmptyUUID" and u: "unloaded c" and ne: "\<not> pcAtEnd c"
    and k: "pcKey c = None"
  shows "\<exists>c'. pcLoadRoot ld c = (None, c') \<and> atLeaf ld c' 0 \<and> same_tree c c' \<and> \<not> pcAtEnd c' \<and> pcKey c' = None
    \<and> pc_rest ld c' = pc_keys ld c"
proof -
  have s: "shallow_tree ld c" using w by (simp add: pc_wf_def)
  have sk: "pcStack c = []" using u by (simp add: unloaded_def)
  show ?thesis
  proof (cases "pcHeight c = 0")
    case True
    then have t: "treeLeaves ld c = [the (leafOf ld (pcIsKv c) (pcRoot c))]" using nz by (simp add: treeLeaves_def)
    have l: "leafOf ld (pcIsKv c) (pcRoot c) = Some (treeLeaves ld c ! 0)"
      using s True nz t by (auto simp: shallow_tree_def)
    obtain c' where c': "loadLeaf ld (pcRoot c) c = (None, c')" using loadLeaf_ok [OF l] by blast
    have "0 < length (treeLeaves ld c)" using t by simp
    then show ?thesis
      using enter_leaf [OF s _ c' l] c' True sk k ne t by (simp add: pcLoadRoot_def pc_keys_def)
  next
    case False
    then have h: "pcHeight c = 1" using s by (simp add: shallow_tree_def)
    have ne0: "indexOf ld (pcRoot c) \<noteq> []" using s h nz by (simp add: shallow_tree_def)
    then have p: "0 < length (treeLeaves ld c)" using nz h by (simp add: treeLeaves_def)
    note il = index_leaf [OF s h p]
    define c1 where "c1 = c\<lparr>pcStack := [\<lparr>ipEntries = indexOf ld (pcRoot c), ipPos = 0\<rparr>]\<rparr>"
    have st: "same_tree c c1" by (simp add: c1_def same_tree_def)
    have s1: "shallow_tree ld c1" and t1: "treeLeaves ld c1 = treeLeaves ld c"
      using same_tree_shallow [OF st] same_tree_leaves [OF st] s by simp_all
    have l: "leafOf ld (pcIsKv c1) (ieUUID (indexOf ld (pcRoot c) ! 0)) = Some (treeLeaves ld c1 ! 0)"
      using il(3) t1 by (simp add: c1_def)
    obtain c' where c': "loadLeaf ld (ieUUID (indexOf ld (pcRoot c) ! 0)) c1 = (None, c')"
      using loadLeaf_ok [OF l] by blast
    have "pcLoadRoot ld c = (None, c')"
      using h il(4) ne0 c' by (simp add: pcLoadRoot_def descendToFirstLeaf_def Let_def c1_def)
    moreover have "pcRoot c1 = pcRoot c" "pcHeight c1 = 1" "pcKey c1 = None" "\<not> pcAtEnd c1"
      "pcStack c1 = [\<lparr>ipEntries = indexOf ld (pcRoot c), ipPos = 0\<rparr>]"
      using h k ne by (simp_all add: c1_def)
    ultimately show ?thesis
      using enter_leaf [OF s1 _ c' l] p t1 same_tree_trans [OF st] by (auto simp: pc_keys_def)
  qed
qed

lemma pcEnsure_ok:
  assumes w: "pc_wf ld c"
  shows "\<exists>c'. pcEnsure ld c = Some (None, c') \<and> pc_wf ld c' \<and> pc_keys ld c' = pc_keys ld c
    \<and> pc_rest ld c' = pc_rest ld c
    \<and> (if pcAtEnd c' then None else pcKey c') = (if pc_rest ld c = [] then None else Some (hd (pc_rest ld c)))
    \<and> (pcAtEnd c' \<or> (\<exists>p. atLeaf ld c' p) \<and> pcKey c' \<noteq> None)"
proof -
  have s: "shallow_tree ld c" using w by (simp add: pc_wf_def)
  consider (done0) "pcAtEnd c" | (have0) "\<not> pcAtEnd c" "pcKey c \<noteq> None" | (need) "\<not> pcAtEnd c" "pcKey c = None"
    by blast
  then show ?thesis
  proof cases
    case done0
    then show ?thesis using w by (simp add: pcEnsure_def pc_rest_def)
  next
    case have0
    then obtain p where p: "atLeaf ld c p" using w by (auto simp: pc_wf_def split: if_splits)
    then have "settled ld c (pc_rest ld c) c" using have0 by (auto simp: settled_def)
    note sw = settled_wf [OF s this]
    have "pcEnsure ld c = Some (None, c)" using have0 by (auto simp: pcEnsure_def)
    then show ?thesis using have0 w p sw(5) by blast
  next
    case need
    then have nz: "pcRoot c \<noteq> EmptyUUID" using w by (auto simp: pc_wf_def)
    have "\<exists>c'. pcEnsure ld c = Some (None, c') \<and> settled ld c (pc_rest ld c) c'"
    proof (cases "unloaded c")
      case True
      obtain c1 where c1: "pcLoadRoot ld c = (None, c1)" "atLeaf ld c1 0" "same_tree c c1" "\<not> pcAtEnd c1"
        "pcKey c1 = None" "pc_rest ld c1 = pc_keys ld c"
        using pcLoadRoot_ok [OF w nz True need] by blast
      have s1: "shallow_tree ld c1" using same_tree_shallow [OF c1(3)] s by simp
      obtain c' where c': "pcAdvance ld c1 = Some (None, c')" "settled ld c1 (pc_rest ld c1) c'"
        using pcAdvance_ok [OF s1 c1(2,4)] c1(5) by auto
      have "pcEnsure ld c = Some (None, c')"
        using need nz True c1(1) c'(1) by (simp add: pcEnsure_def unloaded_def)
      moreover have "settled ld c (pc_rest ld c) c'"
        using c' c1 True need by (auto simp: settled_def pc_rest_def [of ld c] intro: same_tree_trans)
      ultimately show ?thesis by blast
    next
      case False
      then obtain p where p: "atLeaf ld c p" using w nz by (auto simp: pc_wf_def)
      obtain c' where c': "pcAdvance ld c = Some (None, c')" "settled ld c (pc_rest ld c) c'"
        using pcAdvance_ok [OF s p need(1)] need(2) by auto
      have "pcEnsure ld c = Some (None, c')"
        using need nz False c'(1) by (auto simp: pcEnsure_def unloaded_def)
      then show ?thesis using c' by blast
    qed
    then obtain c' where c': "pcEnsure ld c = Some (None, c')" "settled ld c (pc_rest ld c) c'" by blast
    have "pcAtEnd c' \<or> (\<exists>p. atLeaf ld c' p) \<and> pcKey c' \<noteq> None" using c'(2) by (auto simp: settled_def)
    then show ?thesis using c' settled_wf [OF s c'(2)] by blast
  qed
qed

subsection \<open>Seek\<close>

text \<open>In an ascending list of non-empty leaves, the leaf whose range holds the target splits the search.\<close>

lemma seek_split:
  fixes t :: bytes
  assumes asc: "ascending (concat Ls)" and p: "p < length Ls" and ne: "\<forall>l \<in> set Ls. l \<noteq> []"
    and lo: "0 < p \<Longrightarrow> hd (Ls ! p) \<le> t"
    and hi: "Suc p < length Ls \<Longrightarrow> t \<le> hd (Ls ! Suc p)"
  shows "dropWhile (\<lambda>k. k < t) (concat Ls) = dropWhile (\<lambda>k. k < t) (Ls ! p) @ concat (drop (Suc p) Ls)"
proof -
  have eq: "concat Ls = concat (take p Ls) @ Ls ! p @ concat (drop (Suc p) Ls)"
    by (subst id_take_nth_drop [OF p]) simp
  have a: "ascending (Ls ! p)" "\<forall>x \<in> set (concat (take p Ls)). \<forall>y \<in> set (Ls ! p). x < y"
    using asc unfolding eq by (auto simp: sorted_wrt_append)
  have "\<not> t \<le> x" if x: "x \<in> set (concat (take p Ls))" for x
  proof -
    have p0: "0 < p" using x by (cases p) auto
    have "x < hd (Ls ! p)" using a(2) x hd_in_set [of "Ls ! p"] ne nth_mem [OF p] by blast
    then show ?thesis using lo [OF p0] by simp
  qed
  then have 1: "filter (\<lambda>k. t \<le> k) (concat (take p Ls)) = []" by (metis filter_False)
  have "t \<le> x" if x: "x \<in> set (concat (drop (Suc p) Ls))" for x
  proof -
    have sp: "Suc p < length Ls" using x by (cases "Suc p < length Ls") auto
    have eq2: "concat (drop (Suc p) Ls) = Ls ! Suc p @ concat (drop (Suc (Suc p)) Ls)"
      using Cons_nth_drop_Suc [OF sp] by (metis concat.simps(2))
    have b: "ascending (Ls ! Suc p @ concat (drop (Suc (Suc p)) Ls))"
      using asc unfolding eq eq2 [symmetric] by (simp add: sorted_wrt_append)
    obtain h r where hr: "Ls ! Suc p = h # r" using ne nth_mem [OF sp] by (cases "Ls ! Suc p") auto
    have "h \<le> x" using b x unfolding eq2 hr by (auto intro: less_imp_le)
    then show ?thesis using hi [OF sp] hr by simp
  qed
  then have 2: "filter (\<lambda>k. t \<le> k) (concat (drop (Suc p) Ls)) = concat (drop (Suc p) Ls)" by (metis filter_True)
  show ?thesis unfolding asc_dropWhile_filter [OF asc] asc_dropWhile_filter [OF a(1)]
    by (subst eq) (simp only: filter_append 1 2 append_Nil)
qed

lemma asc_leaf: "shallow_tree ld c \<Longrightarrow> p < length (treeLeaves ld c) \<Longrightarrow> ascending (treeLeaves ld c ! p)"
proof -
  assume s: "shallow_tree ld c" and p: "p < length (treeLeaves ld c)"
  have "ascending (concat (take p (treeLeaves ld c)) @ treeLeaves ld c ! p @ concat (drop (Suc p) (treeLeaves ld c)))"
    using s id_take_nth_drop [OF p] unfolding shallow_tree_def by (metis concat.simps(2) concat_append)
  then show ?thesis by (simp add: sorted_wrt_append)
qed

lemma leafLowerBound_ok:
  assumes asc: "ascending (leafKeys c)"
  shows "leafLowerBound c t \<le> keyCount c" "drop (leafLowerBound c t) (leafKeys c) = dropWhile (\<lambda>k. k < t) (leafKeys c)"
proof -
  let ?P = "\<lambda>mid. leafKeyAt c mid < t" and ?r = "leafLowerBound c t"
  have r: "?r = bsearch ?P 0 (keyCount c)" by (simp add: leafLowerBound_def cmpKeyAt_def cmp_simps)
  have mono: "?P i" if "i \<le> j" "j < keyCount c" "?P j" for i j
  proof (cases "i = j")
    case False
    then have "leafKeys c ! i < leafKeys c ! j"
      using sorted_wrt_nth_less [OF asc, of i j] that by simp
    then show ?thesis using that by (simp add: leafKeys_nth)
  qed (use that in simp)
  have c: "0 \<le> ?r \<and> ?r \<le> keyCount c \<and> (\<forall>i. 0 \<le> i \<longrightarrow> i < ?r \<longrightarrow> ?P i) \<and> (\<forall>i. ?r \<le> i \<longrightarrow> i < keyCount c \<longrightarrow> \<not> ?P i)"
    unfolding r by (rule bsearch_correct [OF le0]) (rule mono)
  then show le: "?r \<le> keyCount c" by blast
  have "takeWhile (\<lambda>k. k < t) (leafKeys c) = take ?r (leafKeys c)"
  proof (rule takeWhile_eq_take_P_nth)
    show "leafKeys c ! i < t" if "i < ?r" "i < length (leafKeys c)" for i
      using c that by (simp add: leafKeys_nth)
    show "\<not> leafKeys c ! ?r < t" if "?r < length (leafKeys c)" using c that by (simp add: leafKeys_nth)
  qed
  then show "drop ?r (leafKeys c) = dropWhile (\<lambda>k. k < t) (leafKeys c)"
    using le by (simp add: dropWhile_eq_drop)
qed

lemma pcReposition_ok:
  assumes s: "shallow_tree ld c" and a: "atLeaf ld c p"
    and lo: "0 < p \<Longrightarrow> hd (treeLeaves ld c ! p) \<le> t"
    and hi: "Suc p < length (treeLeaves ld c) \<Longrightarrow> t \<le> hd (treeLeaves ld c ! Suc p)"
  defines "c' \<equiv> pcReposition t c"
  shows "atLeaf ld c' p \<and> same_tree c c' \<and> \<not> pcAtEnd c' \<and> pcKey c' = None
    \<and> pc_rest ld c' = dropWhile (\<lambda>k. k < t) (pc_keys ld c)"
proof -
  have p: "p < length (treeLeaves ld c)" and lkc: "leafKeys c = treeLeaves ld c ! p"
    using a by (simp_all add: atLeaf_def)
  have asc: "ascending (leafKeys c)" using asc_leaf [OF s p] lkc by simp
  note lb = leafLowerBound_ok [OF asc, of t]
  have st: "same_tree c c'" by (simp add: c'_def pcReposition_def same_tree_def)
  have tl: "treeLeaves ld c' = treeLeaves ld c" by (rule same_tree_leaves [OF st])
  have lk: "leafKeys c' = leafKeys c" "keyCount c' = keyCount c"
    using leafKeys_cong [of c' c] by (simp_all add: c'_def pcReposition_def)
  have ps: "pcStack c' = pcStack c" "\<not> pcAtEnd c'" "pcKey c' = None" "pcIdx c' = int (leafLowerBound c t) - 1"
    by (simp_all add: c'_def pcReposition_def)
  have a': "atLeaf ld c' p" using a lk tl ps st lb(1) by (simp add: atLeaf_def same_tree_def)
  have s': "shallow_tree ld c'" using same_tree_shallow [OF st] s by simp
  have "pc_rest ld c' = dropWhile (\<lambda>k. k < t) (leafKeys c) @ concat (drop (Suc p) (treeLeaves ld c))"
    using rest_atLeaf [OF s' a' ps(2)] ps(3,4) lk tl lb(2) by simp
  moreover have "dropWhile (\<lambda>k. k < t) (concat (treeLeaves ld c))
      = dropWhile (\<lambda>k. k < t) (treeLeaves ld c ! p) @ concat (drop (Suc p) (treeLeaves ld c))"
    using s p lo hi by (intro seek_split) (auto simp: shallow_tree_def)
  ultimately show ?thesis using a' st ps lkc by (simp add: pc_keys_def)
qed

lemma asc_leaf_hds: "ascending (concat Ls) \<Longrightarrow> \<forall>l \<in> set Ls. l \<noteq> [] \<Longrightarrow> ascending (map hd Ls)"
proof (induction Ls)
  case (Cons l Ls)
  have "hd l < hd l'" if "l' \<in> set Ls" for l'
    using Cons.prems that hd_in_set [of l] hd_in_set [of l'] by (auto simp: sorted_wrt_append)
  then show ?case using Cons by (auto simp: sorted_wrt_append)
qed simp

text \<open>\<open>childPos\<close> picks the last boundary not above the target, or the first child.\<close>

lemma childPos_ok:
  assumes "ascending (map ieKey es)" "es \<noteq> []"
  shows "childPos es t < length es" "0 < childPos es t \<Longrightarrow> ieKey (es ! childPos es t) \<le> t"
    "Suc (childPos es t) < length es \<Longrightarrow> t < ieKey (es ! Suc (childPos es t))"
proof -
  let ?n = "length (takeWhile (\<lambda>e. ieKey e \<le> t) es)"
  have c: "childPos es t = (if ?n > 0 then ?n - 1 else 0)"
    using bsearch_le_key [OF assms(1), of t] by (simp add: childPos_def cmp_simps Let_def)
  have n: "?n \<le> length es" by (rule length_takeWhile_le)
  have "(if 0 < i then i - 1 else 0) < m" if "0 < m" "i \<le> m" for i m :: nat using that by (cases i) auto
  then show "childPos es t < length es" unfolding c using n assms(2) by blast
  show "ieKey (es ! childPos es t) \<le> t" if "0 < childPos es t"
    using that c nth_mem [of "childPos es t" "takeWhile (\<lambda>e. ieKey e \<le> t) es"] takeWhile_nth [of "childPos es t" "\<lambda>e. ieKey e \<le> t" es]
      set_takeWhileD by (metis diff_less less_numeral_extra(3) zero_less_one)
  show "t < ieKey (es ! Suc (childPos es t))" if "Suc (childPos es t) < length es"
  proof (cases "?n = 0")
    case True
    then have "\<not> ieKey (es ! 0) \<le> t" using assms(2) by (cases es) auto
    moreover have "ieKey (es ! 0) < ieKey (es ! 1)"
      using sorted_wrt_nth_less [OF assms(1), of 0 1] that c True nth_map [of 0 es ieKey] assms(2) by simp
    ultimately show ?thesis using c True by simp
  next
    case False
    then have "Suc (childPos es t) = ?n" using c by simp
    then show ?thesis using nth_length_takeWhile [of "\<lambda>e. ieKey e \<le> t" es] that by simp
  qed
qed

lemma pcSeekLoop_ok:
  assumes s: "shallow_tree ld c" and a: "atLeaf ld c p" and ne: "\<not> pcAtEnd c" and k: "pcKey c = None"
    and r: "pc_rest ld c = dropWhile (\<lambda>k. k < t) ks"
  shows "\<exists>c'. pcSeekLoop ld t c = Some (None, c') \<and> settled ld c (pc_rest ld c) c'"
proof -
  obtain c' where c': "pcAdvance ld c = Some (None, c')" "settled ld c (pc_rest ld c) c'"
    using pcAdvance_ok [OF s a ne] k by auto
  note sw = settled_wf [OF s c'(2)]
  have "pcSeekLoop ld t c = Some (None, c')"
  proof (cases "pcAtEnd c'")
    case True
    then have "pcKey c' = None" using c'(2) by (simp add: settled_def)
    moreover have "pcSeekLoop ld t c' = Some (None, c')" using True by (subst pcSeekLoop.simps) simp
    ultimately show ?thesis using ne c'(1) by (subst pcSeekLoop.simps) simp
  next
    case False
    then have "pc_rest ld c \<noteq> []" "pcKey c' = Some (hd (pc_rest ld c))"
      using sw(5) c'(2) by (auto simp: settled_def split: if_splits)
    moreover have "\<not> hd (pc_rest ld c) < t" using calculation(1) hd_dropWhile [of "\<lambda>k. k < t" ks] r by simp
    ultimately show ?thesis using ne c'(1) by (subst pcSeekLoop.simps) (simp add: cmp_simps not_less)
  qed
  then show ?thesis using c'(2) by blast
qed

lemma tree_hds:
  assumes s: "shallow_tree ld c" and h: "pcHeight c = 1" and nz: "pcRoot c \<noteq> EmptyUUID"
  shows "ascending (map ieKey (indexOf ld (pcRoot c)))" "indexOf ld (pcRoot c) \<noteq> []"
    "length (treeLeaves ld c) = length (indexOf ld (pcRoot c))"
proof -
  have "map ieKey (indexOf ld (pcRoot c)) = map hd (treeLeaves ld c)" using s h nz unfolding shallow_tree_def by blast
  then show "ascending (map ieKey (indexOf ld (pcRoot c)))"
    using asc_leaf_hds [of "treeLeaves ld c"] s unfolding shallow_tree_def by simp
  show "indexOf ld (pcRoot c) \<noteq> []" using s h nz unfolding shallow_tree_def by blast
  show "length (treeLeaves ld c) = length (indexOf ld (pcRoot c))" using h nz by (simp add: treeLeaves_def)
qed

text \<open>The descent to the leaf that may hold the target.\<close>

lemma load_reposition:
  assumes s: "shallow_tree ld c" and p: "p < length (treeLeaves ld c)"
    and u: "leafOf ld (pcIsKv c) u = Some (treeLeaves ld c ! p)"
    and st: "pcHeight c = 0 \<and> pcStack c = []
      \<or> pcHeight c = 1 \<and> pcStack c = [\<lparr>ipEntries = indexOf ld (pcRoot c), ipPos = p\<rparr>]"
    and lo: "0 < p \<Longrightarrow> hd (treeLeaves ld c ! p) \<le> t"
    and hi: "Suc p < length (treeLeaves ld c) \<Longrightarrow> t \<le> hd (treeLeaves ld c ! Suc p)"
  shows "\<exists>c'. loadLeaf ld u c = (None, c') \<and> atLeaf ld (pcReposition t c') p \<and> same_tree c (pcReposition t c')
    \<and> pc_rest ld (pcReposition t c') = dropWhile (\<lambda>k. k < t) (pc_keys ld c)"
proof -
  obtain c' where c': "loadLeaf ld u c = (None, c')" using loadLeaf_ok [OF u] by blast
  define c0 where "c0 = c\<lparr>pcKey := None\<rparr>"
  have st0: "same_tree c c0" by (simp add: c0_def same_tree_def)
  have s0: "shallow_tree ld c0" and t0: "treeLeaves ld c0 = treeLeaves ld c"
    using same_tree_shallow [OF st0] same_tree_leaves [OF st0] s by simp_all
  have l0: "loadLeaf ld u c0 = (None, c'\<lparr>pcKey := None\<rparr>)"
    using c' by (auto simp: c0_def loadLeaf_def split: if_splits sum.splits)
  have e: "atLeaf ld (c'\<lparr>pcKey := None\<rparr>) p \<and> same_tree c0 (c'\<lparr>pcKey := None\<rparr>) \<and> shallow_tree ld (c'\<lparr>pcKey := None\<rparr>)
      \<and> pcKey (c'\<lparr>pcKey := None\<rparr>) = pcKey c0 \<and> pcAtEnd (c'\<lparr>pcKey := None\<rparr>) = pcAtEnd c0
      \<and> pcIdx (c'\<lparr>pcKey := None\<rparr>) = -1 \<and> 0 < keyCount (c'\<lparr>pcKey := None\<rparr>)
      \<and> (\<not> pcAtEnd c0 \<longrightarrow> pc_rest ld (c'\<lparr>pcKey := None\<rparr>) = concat (drop p (treeLeaves ld c0)))"
    by (rule enter_leaf [OF s0 _ l0]) (use p u st t0 in \<open>auto simp: c0_def\<close>)
  have t1: "treeLeaves ld (c'\<lparr>pcKey := None\<rparr>) = treeLeaves ld c"
    using same_tree_leaves [of c0 "c'\<lparr>pcKey := None\<rparr>" ld] e t0 by simp
  have "pcReposition t (c'\<lparr>pcKey := None\<rparr>) = pcReposition t c'"
    by (simp add: pcReposition_def leafLowerBound_def cmpKeyAt_def leafKeyAt_def keyCount_def)
  moreover note pcReposition_ok [of ld "c'\<lparr>pcKey := None\<rparr>" p t]
  ultimately have "atLeaf ld (pcReposition t c') p \<and> same_tree (c'\<lparr>pcKey := None\<rparr>) (pcReposition t c')
      \<and> pc_rest ld (pcReposition t c') = dropWhile (\<lambda>k. k < t) (pc_keys ld (c'\<lparr>pcKey := None\<rparr>))"
    using e t1 lo hi by simp
  then show ?thesis
    using c' e st0 t1 by (auto simp: pc_keys_def intro: same_tree_trans)
qed

lemma seek_descend:
  assumes w: "pc_wf ld c" and nz: "pcRoot c \<noteq> EmptyUUID"
  shows "\<exists>c' p. (if pcHeight c = 0 then loadLeaf ld (pcRoot c) c
                 else descendToLeafAt ld (pcRoot c) (pcHeight c) t c) = (None, c')
    \<and> atLeaf ld (pcReposition t c') p \<and> same_tree c (pcReposition t c')
    \<and> pc_rest ld (pcReposition t c') = dropWhile (\<lambda>k. k < t) (pc_keys ld c)"
proof -
  have s: "shallow_tree ld c" using w by (simp add: pc_wf_def)
  show ?thesis
  proof (cases "pcHeight c = 0")
    case True
    have t: "treeLeaves ld c = [the (leafOf ld (pcIsKv c) (pcRoot c))]" using nz True by (simp add: treeLeaves_def)
    have l: "leafOf ld (pcIsKv c) (pcRoot c) = Some (treeLeaves ld c ! 0)"
      using s True nz t by (auto simp: shallow_tree_def)
    have "pcStack c = []" using w nz True by (auto simp: pc_wf_def unloaded_def atLeaf_def)
    then show ?thesis using load_reposition [OF s _ l, of t] True t by auto
  next
    case False
    then have h: "pcHeight c = 1" using s by (simp add: shallow_tree_def)
    let ?es = "indexOf ld (pcRoot c)"
    note th = tree_hds [OF s h nz]
    define p where "p = childPos ?es t"
    note cp = childPos_ok [OF th(1,2), of t, folded p_def]
    have p: "p < length (treeLeaves ld c)" using cp(1) th(3) by simp
    note il = index_leaf [OF s h]
    define c1 where "c1 = c\<lparr>pcStack := [\<lparr>ipEntries = ?es, ipPos = p\<rparr>]\<rparr>"
    have st: "same_tree c c1" by (simp add: c1_def same_tree_def)
    have s1: "shallow_tree ld c1" and t1: "treeLeaves ld c1 = treeLeaves ld c"
      using same_tree_shallow [OF st] same_tree_leaves [OF st] s by simp_all
    have kk: "pc_keys ld c1 = pc_keys ld c" by (simp add: pc_keys_def t1)
    have "\<exists>c'. loadLeaf ld (ieUUID (?es ! p)) c1 = (None, c') \<and> atLeaf ld (pcReposition t c') p
        \<and> same_tree c1 (pcReposition t c')
        \<and> pc_rest ld (pcReposition t c') = dropWhile (\<lambda>k. k < t) (pc_keys ld c1)"
    proof (rule load_reposition [OF s1])
      show "hd (treeLeaves ld c1 ! p) \<le> t" if "0 < p" using cp(2) that il(5) [OF p] t1 by simp
      show "t \<le> hd (treeLeaves ld c1 ! Suc p)" if "Suc p < length (treeLeaves ld c1)"
        using cp(3) that il(5) [of "Suc p"] t1 th(3) by simp
    qed (use p t1 il(3) [OF p] h in \<open>simp_all add: c1_def\<close>)
    then obtain c' where c': "loadLeaf ld (ieUUID (?es ! p)) c1 = (None, c')" "atLeaf ld (pcReposition t c') p"
      "same_tree c1 (pcReposition t c')" "pc_rest ld (pcReposition t c') = dropWhile (\<lambda>k. k < t) (pc_keys ld c1)"
      by blast
    have "descendToLeafAt ld (pcRoot c) (pcHeight c) t c = (None, c')"
      using h th(2) il(4) [OF p] c'(1) by (simp add: descendToLeafAt_def Let_def c1_def p_def)
    then show ?thesis using c' st False kk by (auto intro: same_tree_trans)
  qed
qed

lemma pcSeekR_ok:
  assumes w: "pc_wf ld c"
  shows "\<exists>c'. pcSeekR ld t c = Some (None, c') \<and> pc_wf ld c' \<and> pc_keys ld c' = pc_keys ld c
    \<and> pc_rest ld c' = dropWhile (\<lambda>k. k < t) (pc_keys ld c)"
proof (cases "pcRoot c = EmptyUUID")
  case True
  then have "pc_wf ld (c\<lparr>pcAtEnd := True\<rparr>)"
    using w by (simp add: pc_wf_def shallow_tree_def treeLeaves_def)
  then show ?thesis using True by (simp add: pcSeekR_def pc_rest_def pc_keys_def treeLeaves_def)
next
  case nz: False
  have s: "shallow_tree ld c" using w by (simp add: pc_wf_def)
  have fin: ?thesis if "pcSeekR ld t c = Some (None, c')" "settled ld c1 r c'" "same_tree c c1"
    "r = dropWhile (\<lambda>k. k < t) (pc_keys ld c)" for c' c1 r
  proof -
    have "settled ld c r c'" using that(2,3) by (auto simp: settled_def intro: same_tree_trans)
    then show ?thesis using settled_wf [OF s] that(1,4) by blast
  qed
  show ?thesis
  proof (cases "keyCount c > 0 \<and> cmpKeyAt c 0 t \<le> 0 \<and> cmpKeyAt c (keyCount c - 1) t \<ge> 0")
    case True
    then have kc: "keyCount c > 0" and b: "leafKeys c ! 0 \<le> t" "t \<le> leafKeys c ! (keyCount c - 1)"
      by (simp_all add: cmpKeyAt_def cmp_simps leafKeys_nth)
    obtain p where a: "atLeaf ld c p" using w nz kc by (auto simp: pc_wf_def unloaded_def)
    then have p: "p < length (treeLeaves ld c)" and lk: "leafKeys c = treeLeaves ld c ! p"
      by (simp_all add: atLeaf_def)
    have lo: "hd (treeLeaves ld c ! p) \<le> t"
      using b(1) kc lk hd_conv_nth [of "leafKeys c"] by (metis length_greater_0_conv length_leafKeys)
    have hi: "t \<le> hd (treeLeaves ld c ! Suc p)" if sp: "Suc p < length (treeLeaves ld c)"
    proof -
      have "concat (drop p (treeLeaves ld c))
          = treeLeaves ld c ! p @ treeLeaves ld c ! Suc p @ concat (drop (Suc (Suc p)) (treeLeaves ld c))"
        using Cons_nth_drop_Suc [OF p] Cons_nth_drop_Suc [OF sp] by (metis concat.simps(2))
      moreover have "ascending (concat (take p (treeLeaves ld c)) @ concat (drop p (treeLeaves ld c)))"
        using s by (simp add: shallow_tree_def flip: concat_append)
      ultimately have "ascending (treeLeaves ld c ! p @ treeLeaves ld c ! Suc p @ concat (drop (Suc (Suc p)) (treeLeaves ld c)))"
        by (simp add: sorted_wrt_append)
      then have "\<forall>x \<in> set (treeLeaves ld c ! p). x < hd (treeLeaves ld c ! Suc p)"
        using hd_in_set [OF leaf_nonempty [OF s sp]] by (simp add: sorted_wrt_append)
      moreover have "leafKeys c ! (keyCount c - 1) \<in> set (treeLeaves ld c ! p)"
        unfolding lk [symmetric] using kc by (intro nth_mem) simp
      ultimately show ?thesis using b(2) by (meson le_less_trans less_imp_le)
    qed
    have r: "atLeaf ld (pcReposition t c) p \<and> same_tree c (pcReposition t c) \<and> \<not> pcAtEnd (pcReposition t c)
        \<and> pcKey (pcReposition t c) = None \<and> pc_rest ld (pcReposition t c) = dropWhile (\<lambda>k. k < t) (pc_keys ld c)"
      by (rule pcReposition_ok [OF s a]) (use lo hi in auto)
    have s': "shallow_tree ld (pcReposition t c)" using r same_tree_shallow s by blast
    obtain c' where c': "pcAdvance ld (pcReposition t c) = Some (None, c')"
      "settled ld (pcReposition t c) (pc_rest ld (pcReposition t c)) c'"
      using pcAdvance_ok [OF s', of p] r by auto
    have "pcSeekR ld t c = Some (None, c')" using True nz c'(1) by (simp add: pcSeekR_def)
    then show ?thesis using fin c'(2) r by blast
  next
    case False
    obtain c1 p where c1: "(if pcHeight c = 0 then loadLeaf ld (pcRoot c) c
        else descendToLeafAt ld (pcRoot c) (pcHeight c) t c) = (None, c1)" "atLeaf ld (pcReposition t c1) p"
      "same_tree c (pcReposition t c1)" "pc_rest ld (pcReposition t c1) = dropWhile (\<lambda>k. k < t) (pc_keys ld c)"
      using seek_descend [OF w nz] by blast
    have s1: "shallow_tree ld (pcReposition t c1)" using same_tree_shallow [OF c1(3)] s by simp
    have "\<not> pcAtEnd (pcReposition t c1)" "pcKey (pcReposition t c1) = None" by (simp_all add: pcReposition_def)
    then obtain c' where c': "pcSeekLoop ld t (pcReposition t c1) = Some (None, c')"
      "settled ld (pcReposition t c1) (pc_rest ld (pcReposition t c1)) c'"
      using pcSeekLoop_ok [OF s1 c1(2)] c1(4) by blast
    have "pcSeekR ld t c = Some (None, c')"
      unfolding pcSeekR_def c1(1) using False nz c'(1) by auto
    then show ?thesis using fin c'(2) c1(3,4) by blast
  qed
qed

lemma pcNextR_ok:
  assumes w: "pc_wf ld c"
  shows "\<exists>k c'. pcNextR ld c = Some (Inr k, c') \<and> pc_wf ld c' \<and> pc_keys ld c' = pc_keys ld c
    \<and> pc_rest ld c' = tl (pc_rest ld c)"
proof -
  obtain c1 where c1: "pcEnsure ld c = Some (None, c1)" "pc_wf ld c1" "pc_keys ld c1 = pc_keys ld c"
    "pc_rest ld c1 = pc_rest ld c" "pcAtEnd c1 \<or> (\<exists>p. atLeaf ld c1 p) \<and> pcKey c1 \<noteq> None"
    using pcEnsure_ok [OF w] by blast
  have s1: "shallow_tree ld c1" using c1(2) by (simp add: pc_wf_def)
  show ?thesis
  proof (cases "pcAtEnd c1")
    case True
    then have "pc_rest ld c = []" using c1(4) by (simp add: pc_rest_def)
    then show ?thesis using c1 True by (simp add: pcNextR_def pcAdvance_def)
  next
    case False
    then obtain p where p: "atLeaf ld c1 p" "pcKey c1 \<noteq> None" using c1(5) by blast
    obtain c' where c': "pcAdvance ld c1 = Some (None, c')" "settled ld c1 (tl (pc_rest ld c1)) c'"
      using pcAdvance_ok [OF s1 p(1) False] p(2) by (auto split: if_splits)
    then show ?thesis using c1 settled_wf [OF s1 c'(2)] by (simp add: pcNextR_def)
  qed
qed

lemma asc_pc_keys: "pc_wf ld c \<Longrightarrow> ascending (pc_keys ld c)"
  by (simp add: pc_wf_def shallow_tree_def pc_keys_def)

lemma rest_suffix: "pc_wf ld c \<Longrightarrow> \<exists>xs. pc_keys ld c = xs @ pc_rest ld c"
proof -
  assume w: "pc_wf ld c"
  have s: "shallow_tree ld c" using w by (simp add: pc_wf_def)
  show ?thesis
  proof (cases "pcAtEnd c \<or> unloaded c")
    case True
    then show ?thesis by (auto simp: pc_rest_def)
  next
    case False
    then obtain p where p: "atLeaf ld c p" using w by (auto simp: pc_wf_def split: if_splits)
    define i where "i = nat (pcIdx c + (if pcKey c = None then 1 else 0))"
    have "pc_rest ld c = drop i (leafKeys c) @ concat (drop (Suc p) (treeLeaves ld c))"
      using rest_atLeaf [OF s p] False by (simp add: i_def)
    moreover have "pc_keys ld c = concat (take p (treeLeaves ld c)) @ leafKeys c @ concat (drop (Suc p) (treeLeaves ld c))"
      using p id_take_nth_drop [of p "treeLeaves ld c"] unfolding pc_keys_def atLeaf_def
      by (metis concat.simps(2) concat_append)
    ultimately show ?thesis by (metis append.assoc append_take_drop_id)
  qed
qed

interpretation pc: page_source "pageOps ld" "pc_wf ld" "pc_rest ld" "pc_keys ld" for ld
proof
  fix c c' k r t assume w: "pc_wf ld c"
  show "ascending (pc_keys ld c)" by (rule asc_pc_keys [OF w])
  show "ascending (pc_rest ld c)"
    using rest_suffix [OF w] asc_pc_keys [OF w] by (auto simp: sorted_wrt_append)
  show "set (pc_rest ld c) \<subseteq> set (pc_keys ld c)" using rest_suffix [OF w] by auto
  show "pc_rest ld c = []" if "\<not> \<not> pgAtEnd (pageOps ld) c"
    using that by (simp add: pc_rest_def pageOps_def)
  show "k = (if pc_rest ld c = [] then None else Some (hd (pc_rest ld c))) \<and> pc_wf ld c' \<and> pc_rest ld c' = pc_rest ld c
      \<and> pc_keys ld c' = pc_keys ld c" if "pgPeek (pageOps ld) c = (k, c')"
    using pcEnsure_ok [OF w] that by (auto simp: pageOps_def pcPeekR_def okOr_def)
  show "pc_wf ld c' \<and> pc_rest ld c' = pc_rest ld c \<and> pc_keys ld c' = pc_keys ld c"
    if "pgPeekKv (pageOps ld) c = (r, c')"
    using pcEnsure_ok [OF w] that by (auto simp: pageOps_def pcPeekKvR_def)
  show "pc_wf ld (pgNext (pageOps ld) c) \<and> pc_rest ld (pgNext (pageOps ld) c) = tl (pc_rest ld c)
      \<and> pc_keys ld (pgNext (pageOps ld) c) = pc_keys ld c"
    using pcNextR_ok [OF w] by (auto simp: pageOps_def)
  show "pc_wf ld (pgSeek (pageOps ld) t c) \<and> pc_rest ld (pgSeek (pageOps ld) t c) = dropWhile (\<lambda>k. k < t) (pc_keys ld c)
      \<and> pc_keys ld (pgSeek (pageOps ld) t c) = pc_keys ld c"
    using pcSeekR_ok [OF w, of t] by (auto simp: pageOps_def)
qed

end
