(* ===== verification/MergedScan.thy ===== *)
theory MergedScan
  imports PageCursor
begin

text \<open>
  What a reader of the merged cursor sees (\<^verbatim>\<open>src/go/internal/cursor/cursor.go\<close> over
  \<^verbatim>\<open>src/go/internal/pagestore/cursor.go\<close>): the interpretation of the cursor contract on page trees gives
  the keys that \<open>Seek\<close>, \<open>Peek\<close> and \<open>Next\<close> deliver, with and without the hydrated shortcut, and after an
  \<open>Update\<close> to a newer root. The last theorems show two cases in which keys are lost.
\<close>

section \<open>The reading loop\<close>

text \<open>\<open>for { k, ok := mc.Peek(); if !ok { break }; ...; mc.Next() }\<close>, \<open>n\<close> rounds at most.\<close>

primrec readKeys :: "loader \<Rightarrow> nat \<Rightarrow> PageCursor MergedCursor \<Rightarrow> bytes list option" where
  "readKeys ld 0 mc = Some []"
| "readKeys ld (Suc n) mc =
     Option.bind (mcPeek (pageOps ld) mc) (\<lambda>(k, m).
       case k of
         None \<Rightarrow> Some []
       | Some k \<Rightarrow> Option.bind (mcNext (pageOps ld) m) (\<lambda>(_, m'). map_option (Cons k) (readKeys ld n m')))"

definition sourcesOk :: "loader \<Rightarrow> PageCursor Cursor list \<Rightarrow> bool" where
  "sourcesOk ld srcs \<longleftrightarrow> (\<forall>s \<in> set srcs. c_wf (pc_wf ld) s)"

definition sourceKeys :: "loader \<Rightarrow> PageCursor Cursor list \<Rightarrow> bytes set" where
  "sourceKeys ld srcs = (\<Union>s \<in> set srcs. set (c_keys (pc_keys ld) s))"

lemma finite_sourceKeys [simp]: "finite (sourceKeys ld srcs)"
  by (simp add: sourceKeys_def)

lemma readKeys_take:
  assumes "pc.mc_wf ld mc"
  shows "readKeys ld n mc = Some (take n (pc.mc_rest ld mc))"
  using assms
proof (induction n arbitrary: mc)
  case (Suc n)
  obtain m where m: "mcPeek (pageOps ld) mc
      = Some (if pc.mc_rest ld mc = [] then None else Some (hd (pc.mc_rest ld mc)), m)"
    "pc.mc_wf ld m" "pc.mc_rest ld m = pc.mc_rest ld mc"
    using pc.mcPeek_ok [OF Suc.prems] by blast
  obtain k m' where m': "mcNext (pageOps ld) m = Some (k, m')" "pc.mc_wf ld m'"
    "pc.mc_rest ld m' = tl (pc.mc_rest ld m)"
    using pc.mcNext_ok [OF m(2)] by blast
  show ?case
    using m(1,3) m' Suc.IH [OF m'(2)] by (cases "pc.mc_rest ld mc") simp_all
qed simp

lemma seekSources_reads:
  assumes "sourcesOk ld (mcSources mc)"
  shows "\<exists>m. seekSources (pageOps ld) t mc = Some m \<and> pc.mc_wf ld m
    \<and> pc.mc_rest ld m = sorted_list_of_set {k \<in> sourceKeys ld (mcSources mc). t \<le> k}
    \<and> readKeys ld n m = Some (take n (sorted_list_of_set {k \<in> sourceKeys ld (mcSources mc). t \<le> k}))"
proof -
  have "pc.sources_ok ld mc" using assms by (simp add: pc.sources_ok_def sourcesOk_def)
  then obtain m where m: "seekSources (pageOps ld) t mc = Some m" "pc.mc_wf ld m"
    "pc.mc_rest ld m = dropWhile (\<lambda>k. k < t) (pc.mc_keys ld mc)"
    using pc.seekSources_ok [of ld mc t] by blast
  have a: "pc.all_keys ld mc = sourceKeys ld (mcSources mc)"
    by (simp add: pc.all_keys_def pc.keyss_def sourceKeys_def)
  have "dropWhile (\<lambda>k. k < t) (pc.mc_keys ld mc) = sorted_list_of_set {k \<in> sourceKeys ld (mcSources mc). t \<le> k}"
    unfolding pc.mc_keys_def a asc_dropWhile_filter [OF ascending_sorted_list_of_set]
    by (rule sorted_list_of_set.idem_if_sorted_distinct [THEN sym, THEN trans])
      (auto simp: sorted_wrt_filter intro: arg_cong)
  then show ?thesis using m readKeys_take [OF m(2)] by simp
qed

section \<open>Seeking the sources\<close>

text \<open>C4. A seek on a merged cursor ends, and reading on from it delivers exactly the keys at or above the target that any source
  holds, in ascending order, each once. The sources are cursors over page trees of height at most one, with readable, non-empty,
  ascending leaves under their first keys, and cursors over ascending runs of the memtable; no cache of hydrated entities
  is attached. On deeper trees the reading stops early, as shown below.\<close>

theorem merged_seek_reads:
  assumes "sourcesOk ld (mcSources mc)"
  shows "\<exists>m. mcSeek (pageOps ld) None t mc = Some m
    \<and> readKeys ld n m = Some (take n (sorted_list_of_set {k \<in> sourceKeys ld (mcSources mc). t \<le> k}))"
  using seekSources_reads [OF assms, of t n] by (auto simp: mcSeek_def)

text \<open>A page tree of height one (an index page over two leaves) and a run, for the witnesses.\<close>

definition uuidOf :: "byte \<Rightarrow> UUID" where
  "uuidOf b = replicate 15 0 @ [b]"

definition demoLoader :: loader where
  "demoLoader =
     \<lparr>ldLeafKeys = (\<lambda>u. if u = uuidOf 2 then Inr (ToFlat [[1], [2]]) else if u = uuidOf 3 then Inr (ToFlat [[5]])
                        else Inl (Error ''not found'')),
      ldLeafPairs = (\<lambda>u. Inl (Error ''not found'')),
      ldIndexPage = (\<lambda>u. if u = uuidOf 1
                         then Inr [\<lparr>ieKey = [1], ieUUID = uuidOf 2\<rparr>, \<lparr>ieKey = [5], ieUUID = uuidOf 3\<rparr>]
                         else Inl (Error ''not found''))\<rparr>"

definition demoPage :: PageCursor where
  "demoPage = NewPageCursor (uuidOf 1) 1 False"

definition demoRun :: Run where
  "demoRun = \<lparr>Records = [makeRec False False [2] [], makeRec False False [4] []], KV = False\<rparr>"

definition demoSources :: "PageCursor Cursor list" where
  "demoSources = [PageStoreCursor demoPage, RunCursorC (NewRunCursor demoRun)]"

lemma demo_leaves: "treeLeaves demoLoader demoPage = [[[1], [2]], [[5]]]"
  by code_simp

lemma demo_page_ok: "pc_wf demoLoader demoPage"
proof -
  have "pcRoot demoPage = uuidOf 1" "pcHeight demoPage = 1" "pcIsKv demoPage = False" "unloaded demoPage"
    "\<not> pcAtEnd demoPage" "pcKey demoPage = None" "uuidOf 1 \<noteq> EmptyUUID"
    by code_simp+
  moreover have "indexOf demoLoader (uuidOf 1) = [\<lparr>ieKey = [1], ieUUID = uuidOf 2\<rparr>, \<lparr>ieKey = [5], ieUUID = uuidOf 3\<rparr>]"
    "ldIndexPage demoLoader (uuidOf 1) = Inr (indexOf demoLoader (uuidOf 1))"
    "leafOf demoLoader False (uuidOf 2) \<noteq> None" "leafOf demoLoader False (uuidOf 3) \<noteq> None"
    by code_simp+
  ultimately show ?thesis by (simp add: pc_wf_def shallow_tree_def demo_leaves)
qed

lemma demo_sources: "sourcesOk demoLoader demoSources" "sourceKeys demoLoader demoSources = {[1], [2], [4], [5]}"
proof -
  have "ascending (map recKey (Records demoRun))" "map recKey (Records demoRun) = [[2], [4]]" by code_simp+
  then have r: "run_ok demoRun" "map recKey (Records (rcRun (NewRunCursor demoRun))) = [[2], [4]]"
    by (simp_all add: run_ok_def NewRunCursor_def)
  show "sourcesOk demoLoader demoSources"
    using demo_page_ok NewRunCursor_ok [OF r(1)] by (simp add: sourcesOk_def demoSources_def)
  have "pc_keys demoLoader demoPage = [[1], [2], [5]]" by (simp add: pc_keys_def demo_leaves)
  then show "sourceKeys demoLoader demoSources = {[1], [2], [4], [5]}"
    using r(2) by (auto simp: sourceKeys_def demoSources_def simp del: map_eq_Cons_conv)
qed

theorem merged_seek_reads_witness:
  "\<exists>m. mcSeek (pageOps demoLoader) None [2] (emptyMerged demoSources) = Some m
    \<and> readKeys demoLoader 9 m = Some [[2], [4], [5]]"
proof -
  have "{k \<in> {[1], [2], [4], [5]}. [2 :: byte] \<le> k} = set [[2], [4], [5]]" by auto
  moreover have "sorted_list_of_set (set [[2], [4], [5 :: byte]]) = [[2], [4], [5]]" by simp
  ultimately show ?thesis
    using merged_seek_reads [of demoLoader "emptyMerged demoSources" "[2]" 9] demo_sources
    by (simp add: emptyMerged_def)
qed

section \<open>Refreshing a cursor\<close>

lemma pcUpdate_wf: "shallow_tree ld (pcUpdate root height p) \<Longrightarrow> pc_wf ld (pcUpdate root height p)"
  by (simp add: pc_wf_def pcUpdate_def unloaded_def keyCount_def FlatLeaf_Count_def FlatLeafKV_Count_def)

lemma pc_keys_update:
  "pcRoot p = root \<Longrightarrow> pcHeight p = unat height \<Longrightarrow> pc_keys ld p = pc_keys ld (pcUpdate root height p)"
  using same_tree_leaves [of p "pcUpdate root height p" ld]
  by (simp add: same_tree_def pcUpdate_def pc_keys_def)

lemma runSources_ok: "\<forall>r \<in> set rs. run_ok r \<Longrightarrow> sourcesOk ld (runSources kv rs)"
  using NewRunCursor_ok by (auto simp: sourcesOk_def runSources_def)

lemma runSources_append: "runSources kv (a @ b) = runSources kv a @ runSources kv b"
  by (simp add: runSources_def)

lemma mcUpdate_sources:
  assumes "mcSources mc = PageStoreCursor p # rest" "\<not> mcHydMode mc"
  shows "mcSources (mcUpdate pcUpdate root height drn active rg mc)
    = PageStoreCursor (if mcRootUUID mc = root then p else pcUpdate root height p)
      # (if mcRunGen mc = rg then rest else runSources (mcIsKv mc) (drn @ active))"
  using assms by (cases rest) (auto simp: mcUpdate_def Let_def resetMerged_def runSources_append)

text \<open>After \<open>Update\<close> to a new root and a new set of runs, a seek reads the new tree and the new runs:
  whatever part was already current (same root, same run generation) is kept, the rest is replaced, and no key
  of the old state is delivered.\<close>

theorem update_then_seek:
  assumes src: "mcSources mc = PageStoreCursor p # rest" "\<not> mcHydMode mc"
    and tree: "shallow_tree ld (pcUpdate root height p)" and runs: "\<forall>r \<in> set (drn @ active). run_ok r"
    and old_root: "mcRootUUID mc = root \<Longrightarrow> pc_wf ld p \<and> pcRoot p = root \<and> pcHeight p = unat height"
    and old_runs: "mcRunGen mc = rg \<Longrightarrow> sourcesOk ld rest
      \<and> sourceKeys ld rest = sourceKeys ld (runSources (mcIsKv mc) (drn @ active))"
  shows "\<exists>m. mcSeek (pageOps ld) None t (mcUpdate pcUpdate root height drn active rg mc) = Some m
    \<and> readKeys ld n m = Some (take n (sorted_list_of_set {k \<in> set (pc_keys ld (pcUpdate root height p))
         \<union> sourceKeys ld (runSources (mcIsKv mc) (drn @ active)). t \<le> k}))"
proof -
  let ?m = "mcUpdate pcUpdate root height drn active rg mc"
  note eq = mcUpdate_sources [OF src, of root height drn active rg]
  have ok: "sourcesOk ld (mcSources ?m)"
    using old_root old_runs runSources_ok [OF runs, of ld "mcIsKv mc"] pcUpdate_wf [OF tree]
    unfolding eq by (auto simp: sourcesOk_def)
  have "sourceKeys ld (mcSources ?m) = set (pc_keys ld (pcUpdate root height p))
      \<union> sourceKeys ld (runSources (mcIsKv mc) (drn @ active))"
    using old_root old_runs pc_keys_update [of p root height ld]
    unfolding eq by (auto simp: sourceKeys_def)
  then show ?thesis using seekSources_reads [OF ok, of t n] by (auto simp: mcSeek_def)
qed

theorem update_then_seek_witness:
  "\<exists>m. mcSeek (pageOps demoLoader) None [] (mcUpdate pcUpdate (uuidOf 1) 1 [] [demoRun] 7
        (emptyMerged [PageStoreCursor (NewPageCursor EmptyUUID 0 False)])) = Some m
    \<and> readKeys demoLoader 9 m = Some [[1], [2], [4], [5]]"
proof -
  let ?mc = "emptyMerged [PageStoreCursor (NewPageCursor EmptyUUID 0 False)]"
  let ?p = "pcUpdate (uuidOf 1) 1 (NewPageCursor EmptyUUID 0 False)"
  have st: "same_tree demoPage ?p"
    by (simp add: same_tree_def demoPage_def NewPageCursor_def pcUpdate_def)
  have s: "shallow_tree demoLoader ?p"
    using same_tree_shallow [OF st] demo_page_ok by (simp add: pc_wf_def)
  have "pc_keys demoLoader ?p = [[1], [2], [5]]"
    using same_tree_leaves [OF st, of demoLoader] by (simp add: pc_keys_def demo_leaves)
  moreover have r: "map recKey (Records demoRun) = [[2], [4]]" by code_simp
  ultimately have k: "{k \<in> set (pc_keys demoLoader ?p) \<union> sourceKeys demoLoader (runSources False ([] @ [demoRun])). [] \<le> k}
      = set [[1], [2], [4], [5]]"
    by (auto simp: sourceKeys_def runSources_def NewRunCursor_def simp del: map_eq_Cons_conv)
  have "sorted_list_of_set (set [[1], [2], [4], [5 :: byte]]) = [[1], [2], [4], [5]]" by simp
  moreover have "run_ok demoRun" using r by (simp add: run_ok_def)
  moreover have "replicate 16 0 \<noteq> uuidOf 1" by code_simp
  ultimately show ?thesis
    using update_then_seek [of ?mc "NewPageCursor EmptyUUID 0 False" "[]" demoLoader "uuidOf 1" 1 "[]" "[demoRun]" 7 "[]" 9] s k
    by (simp add: emptyMerged_def)
qed

section \<open>The hydrated shortcut\<close>

lemma sourceKeys_keyss: "sourceKeys ld (mcSources m) = \<Union>(set ` set (pc.keyss ld m))"
  by (simp add: sourceKeys_def pc.keyss_def)

lemma hyd_seek_reads:
  assumes "mcCF mc = 0" "8 \<le> length t" "ProbeComplete hv (DecodeEid (BeUint64 t 0))"
    "ascending (KeysFrom hv (DecodeEid (BeUint64 t 0)) t)"
  shows "\<exists>m. mcSeek (pageOps ld) (Some hv) t mc = Some m \<and> pc.mc_wf ld m
    \<and> readKeys ld n m = Some (take n (KeysFrom hv (DecodeEid (BeUint64 t 0)) t))
    \<and> mcBase m = (if mcHydMode mc then mcBase mc else mcSources mc) \<and> mcHydMode m \<and> mcCF m = 0
    \<and> sourcesOk ld (mcSources m) \<and> sourceKeys ld (mcSources m) = set (KeysFrom hv (DecodeEid (BeUint64 t 0)) t)"
proof -
  let ?ks = "KeysFrom hv (DecodeEid (BeUint64 t 0)) t"
  define mc1 where "mc1 = (if \<not> mcHydMode mc then mc\<lparr>mcBase := mcSources mc, mcHydMode := True\<rparr> else mc)"
  define mc2 where "mc2 = mc1\<lparr>mcSources := [HydCursor \<lparr>kcKeys = ?ks, kcPos = 0\<rparr>], mcHeap := []\<rparr>"
  have ok: "pc.sources_ok ld mc2" "mcHeap mc2 = []" "length (mcSources mc2) = 1"
    using assms(4) by (simp_all add: pc.sources_ok_def mc2_def)
  define mc3 where "mc3 = fold (pushCurrent (pageOps ld)) [0..<1] mc2"
  note p = pc.pushAll_ok [OF ok(1,2), of 1, folded mc3_def]
  have mc3: "mc3 = pushCurrent (pageOps ld) 0 mc2" by (simp add: mc3_def)
  have r: "pc.rests ld mc3 = [?ks]" using p ok by (simp add: pc.rests_def mc2_def)
  have inv: "pc.m_inv ld (resetMerged mc3)" "\<not> mcAtEnd (resetMerged mc3)"
    using p ok by (auto simp: pc.m_inv_def resetMerged_def pc.sources_ok_def pc.rests_def)
  have pd: "pending (mcLast (resetMerged mc3)) (pc.rests ld (resetMerged mc3)) = ?ks"
    using r assms(4) by (simp add: pending_def above_def resetMerged_def pc.rests_def
        sorted_list_of_set.idem_if_sorted_distinct strict_sorted_iff)
  obtain m where m: "advance (pageOps ld) (resetMerged mc3) = Some m" "pc.mc_wf ld m" "pc.mc_rest ld m = ?ks"
    "same_config (resetMerged mc3) m" "pc.keyss ld m = pc.keyss ld (resetMerged mc3)"
    using pc.advance_ok [OF inv] pd by auto
  have "pc.keyss ld (resetMerged mc3) = [?ks]" using p ok by (simp add: pc.keyss_def mc2_def resetMerged_def)
  then have sk: "sourcesOk ld (mcSources m) \<and> sourceKeys ld (mcSources m) = set ?ks"
    using m(2,5) by (simp add: pc.mc_wf_def pc.m_inv_def pc.sources_ok_def sourcesOk_def sourceKeys_keyss)
  have "mcSeek (pageOps ld) (Some hv) t mc = Some m"
    using assms(1-3) m(1) unfolding mc3 mc2_def mc1_def by (simp add: mcSeek_def Let_def)
  moreover have "same_config mc2 m" using m(4) p ok by (simp add: same_config_def resetMerged_def)
  ultimately show ?thesis
    using m(2,3) readKeys_take [OF m(2)] assms(1) sk by (auto simp: same_config_def mc2_def mc1_def)
qed

text \<open>A seek at a hydrated entity reads the entity's cached keys from the target on, without touching
  the page tree or the runs; the next seek at an entity that is not hydrated reads the parked sources as if the
  shortcut had not been taken.\<close>

theorem hydrated_seek_and_back:
  assumes "\<not> mcHydMode mc" "mcCF mc = 0" "sourcesOk ld (mcSources mc)" "8 \<le> length t" "8 \<le> length t'"
    and "ProbeComplete hv (DecodeEid (BeUint64 t 0))" "\<not> ProbeComplete hv (DecodeEid (BeUint64 t' 0))"
    and "ascending (KeysFrom hv (DecodeEid (BeUint64 t 0)) t)"
  shows "\<exists>m m'. mcSeek (pageOps ld) (Some hv) t mc = Some m
    \<and> readKeys ld n m = Some (take n (KeysFrom hv (DecodeEid (BeUint64 t 0)) t))
    \<and> mcSeek (pageOps ld) (Some hv) t' m = Some m'
    \<and> readKeys ld n' m' = Some (take n' (sorted_list_of_set {k \<in> sourceKeys ld (mcSources mc). t' \<le> k}))"
proof -
  obtain m where m: "mcSeek (pageOps ld) (Some hv) t mc = Some m"
    "readKeys ld n m = Some (take n (KeysFrom hv (DecodeEid (BeUint64 t 0)) t))"
    "mcBase m = mcSources mc" "mcHydMode m" "mcCF m = 0"
    using hyd_seek_reads [OF assms(2,4,6,8), of ld n] assms(1) by auto
  let ?m0 = "m\<lparr>mcSources := mcBase m, mcHydMode := False\<rparr>"
  obtain m' where "seekSources (pageOps ld) t' ?m0 = Some m'"
    "readKeys ld n' m' = Some (take n' (sorted_list_of_set {k \<in> sourceKeys ld (mcSources mc). t' \<le> k}))"
    using seekSources_reads [of ld ?m0 t' n'] assms(3) m(3) by auto
  then show ?thesis using m assms(5,7) by (auto simp: mcSeek_def Let_def)
qed

definition demoHyd :: hyd_view where
  "demoHyd =
     \<lparr>ProbeComplete = (\<lambda>e. e = DecodeEid (BeUint64 (replicate 7 0 @ [9]) 0)),
      KeysFrom = (\<lambda>e t. filter (\<lambda>k. t \<le> k) [replicate 7 0 @ [9, 1], replicate 7 0 @ [9, 2]])\<rparr>"

theorem hydrated_seek_and_back_witness:
  "\<exists>m m'. mcSeek (pageOps demoLoader) (Some demoHyd) (replicate 7 0 @ [9]) (emptyMerged demoSources) = Some m
    \<and> readKeys demoLoader 9 m = Some [replicate 7 0 @ [9, 1], replicate 7 0 @ [9, 2]]
    \<and> mcSeek (pageOps demoLoader) (Some demoHyd) (replicate 8 1) m = Some m'
    \<and> readKeys demoLoader 9 m' = Some [[2], [4], [5]]"
proof -
  let ?t = "replicate 7 0 @ [9 :: byte]" and ?t' = "replicate 8 (1 :: byte)"
  have k: "KeysFrom demoHyd (DecodeEid (BeUint64 ?t 0)) ?t = [replicate 7 0 @ [9, 1], replicate 7 0 @ [9, 2]]"
    "ascending [replicate 7 0 @ [9, 1], replicate 7 0 @ [9, 2 :: byte]]"
    "ProbeComplete demoHyd (DecodeEid (BeUint64 ?t 0))" "\<not> ProbeComplete demoHyd (DecodeEid (BeUint64 ?t' 0))"
    "8 \<le> length ?t" "8 \<le> length ?t'"
    by code_simp+
  have "\<not> ?t' \<le> [1]" "?t' \<le> [2]" "?t' \<le> [4]" "?t' \<le> [5]" by code_simp+
  then have "{k \<in> {[1], [2], [4], [5]}. ?t' \<le> k} = set [[2], [4], [5]]" by auto
  moreover have "sorted_list_of_set (set [[2], [4], [5 :: byte]]) = [[2], [4], [5]]" by simp
  ultimately show ?thesis
    using hydrated_seek_and_back [of "emptyMerged demoSources" demoLoader ?t ?t' demoHyd 9 9] demo_sources k
    by (simp add: emptyMerged_def)
qed

section \<open>Where keys are lost\<close>

text \<open>After a seek served by the hydrated set, a seek whose target is shorter than an entity id never
  looks at the parked sources: it delivers the hydrated keys at or above the target and nothing else, although
  the page tree and the runs may hold other keys there.\<close>

theorem hydrated_short_seek_loses_keys:
  assumes "\<not> mcHydMode mc" "mcCF mc = 0" "8 \<le> length t" "length t' < 8"
    and "ProbeComplete hv (DecodeEid (BeUint64 t 0))" "ascending (KeysFrom hv (DecodeEid (BeUint64 t 0)) t)"
  shows "\<exists>m m'. mcSeek (pageOps ld) (Some hv) t mc = Some m \<and> mcBase m = mcSources mc
    \<and> mcSeek (pageOps ld) (Some hv) t' m = Some m'
    \<and> readKeys ld n m' = Some (take n (filter (\<lambda>k. t' \<le> k) (KeysFrom hv (DecodeEid (BeUint64 t 0)) t)))"
proof -
  let ?ks = "KeysFrom hv (DecodeEid (BeUint64 t 0)) t"
  obtain m where m: "mcSeek (pageOps ld) (Some hv) t mc = Some m" "sourcesOk ld (mcSources m)"
    "sourceKeys ld (mcSources m) = set ?ks" "mcBase m = mcSources mc"
    using hyd_seek_reads [OF assms(2,3,5,6), of ld n] assms(1) by auto
  have "sorted_list_of_set {k \<in> set ?ks. t' \<le> k} = filter (\<lambda>k. t' \<le> k) ?ks"
    by (rule strict_sorted_equal)
      (use assms(6) in \<open>auto simp: ascending_sorted_list_of_set sorted_wrt_filter\<close>)
  then show ?thesis
    using seekSources_reads [OF m(2), of t' n] m(1,3,4) assms(4) by (auto simp: mcSeek_def)
qed

theorem hydrated_short_seek_loses_keys_witness:
  "(\<exists>m m'. mcSeek (pageOps demoLoader) (Some demoHyd) (replicate 7 0 @ [9]) (emptyMerged demoSources) = Some m
      \<and> mcBase m = demoSources \<and> mcSeek (pageOps demoLoader) (Some demoHyd) [1] m = Some m'
      \<and> readKeys demoLoader 9 m' = Some [])
   \<and> [5] \<in> sourceKeys demoLoader demoSources"
proof -
  let ?t = "replicate 7 0 @ [9 :: byte]"
  have k: "ascending (KeysFrom demoHyd (DecodeEid (BeUint64 ?t 0)) ?t)"
    "ProbeComplete demoHyd (DecodeEid (BeUint64 ?t 0))" "8 \<le> length ?t"
    "filter (\<lambda>k. [1] \<le> k) (KeysFrom demoHyd (DecodeEid (BeUint64 ?t 0)) ?t) = []"
    by code_simp+
  show ?thesis
    using hydrated_short_seek_loses_keys [of "emptyMerged demoSources" ?t "[1]" demoHyd demoLoader 9] k demo_sources(2)
    by (simp add: emptyMerged_def)
qed

section \<open>Deep trees\<close>

text \<open>Reading a page cursor through the wrapper \<open>pageStoreCursor\<close>: \<open>CurrentKey\<close> and \<open>Step\<close>, \<open>n\<close> rounds at most.\<close>

primrec readPage :: "loader \<Rightarrow> nat \<Rightarrow> PageCursor \<Rightarrow> bytes list" where
  "readPage ld 0 c = []"
| "readPage ld (Suc n) c =
     (case pgPeek (pageOps ld) c of
        (None, _) \<Rightarrow> []
      | (Some k, c1) \<Rightarrow> k # readPage ld n (pgNext (pageOps ld) c1))"

text \<open>
  A tree of height two whose leaves the index decoder refuses: the pages under the root load as index pages, and the pages
  under those do not. \<open>kids\<close> are the entries of the first index page below the root.
\<close>

definition deep_tree :: "loader \<Rightarrow> UUID \<Rightarrow> IndexEntry list \<Rightarrow> IndexEntry list \<Rightarrow> bool" where
  "deep_tree ld root tops kids \<longleftrightarrow> root \<noteq> EmptyUUID \<and> ldIndexPage ld root = Inr tops \<and> tops \<noteq> []
     \<and> ldIndexPage ld (ieUUID (hd tops)) = Inr kids
     \<and> (\<forall>t \<in> set tops. \<exists>ls. ldIndexPage ld (ieUUID t) = Inr ls \<and> ls \<noteq> [] \<and> (\<forall>l \<in> set ls. \<exists>e. ldIndexPage ld (ieUUID l) = Inl e))"

lemma deep_tops:
  "deep_tree ld root tops kids \<Longrightarrow> t \<in> set tops \<Longrightarrow>
    \<exists>ls. ldIndexPage ld (ieUUID t) = Inr ls \<and> ls \<noteq> [] \<and> (\<forall>l \<in> set ls. \<exists>e. ldIndexPage ld (ieUUID l) = Inl e)"
  unfolding deep_tree_def by blast

lemma deep_kids: "deep_tree ld root tops kids \<Longrightarrow> l \<in> set kids \<Longrightarrow> \<exists>e. ldIndexPage ld (ieUUID l) = Inl e"
  unfolding deep_tree_def by (metis sum.sel(2) list.set_sel(1))

text \<open>On key \<open>i\<close> of the first leaf, and after the failed step to the second one.\<close>

definition onLeaf :: "IndexEntry list \<Rightarrow> IndexEntry list \<Rightarrow> bytes list \<Rightarrow> nat \<Rightarrow> PageCursor \<Rightarrow> bool" where
  "onLeaf tops kids ks i c \<longleftrightarrow> \<not> pcAtEnd c \<and> pcHeight c = 2 \<and> pcRoot c \<noteq> EmptyUUID \<and> leafKeys c = ks \<and> pcIdx c = int i
     \<and> pcKey c = Some (ks ! i) \<and> pcStack c = [\<lparr>ipEntries = kids, ipPos = 0\<rparr>, \<lparr>ipEntries = tops, ipPos = 0\<rparr>]"

definition pastLeaf :: "IndexEntry list \<Rightarrow> IndexEntry list \<Rightarrow> bytes list \<Rightarrow> PageCursor \<Rightarrow> bool" where
  "pastLeaf tops kids ks c \<longleftrightarrow> \<not> pcAtEnd c \<and> pcHeight c = 2 \<and> pcRoot c \<noteq> EmptyUUID \<and> leafKeys c = ks \<and> pcIdx c = int (length ks)
     \<and> pcKey c = None \<and> pcStack c = [\<lparr>ipEntries = kids, ipPos = 1\<rparr>, \<lparr>ipEntries = tops, ipPos = 0\<rparr>]"

lemma keyCount_leafKeys: "keyCount c = length (leafKeys c)"
  by simp

lemma advance_step:
  assumes "\<not> pcAtEnd c" "0 \<le> pcIdx c + 1" "pcIdx c + 1 < int (length (leafKeys c))"
  shows "\<exists>c'. pcAdvance ld c = Some (None, c') \<and> pcKey c' = Some (leafKeys c ! nat (pcIdx c + 1)) \<and> pcIdx c' = pcIdx c + 1
    \<and> leafKeys c' = leafKeys c \<and> pcStack c' = pcStack c \<and> same_tree c c' \<and> \<not> pcAtEnd c'"
proof -
  define c1 where "c1 = c\<lparr>pcKey := None, pcPair := None, pcIdx := pcIdx c + 1\<rparr>"
  have lk: "leafKeys c1 = leafKeys c" "keyCount c1 = keyCount c" using leafKeys_cong [of c1 c] by (simp_all add: c1_def)
  have "pcAdvance ld c = Some (None, takeCurrent c1)"
    using assms lk(2) by (simp add: pcAdvance_def) (subst pcAdvanceLoop.simps, simp add: c1_def Let_def)
  moreover have "same_tree c (takeCurrent c1)" proof (rule same_tree_trans)
    show "same_tree c c1" by (simp add: c1_def same_tree_def)
  qed simp
  moreover have "pcKey (takeCurrent c1) = Some (leafKeys c ! nat (pcIdx c + 1))"
    using assms(2,3) lk leafKeys_nth [of "nat (pcIdx c + 1)" c1] by (simp add: c1_def)
  ultimately show ?thesis using assms(1) lk(1) by (simp add: c1_def)
qed

lemma deep_first_leaf:
  assumes "deep_tree ld root tops kids" "kids = l0 # ls" "leafOf ld kv (ieUUID l0) = Some ks" "ks \<noteq> []"
  shows "\<exists>c. pcEnsure ld (NewPageCursor root 2 kv) = Some (None, c) \<and> onLeaf tops kids ks 0 c"
proof -
  let ?c0 = "NewPageCursor root 2 kv"
  let ?c1 = "?c0\<lparr>pcStack := [\<lparr>ipEntries = kids, ipPos = 0\<rparr>, \<lparr>ipEntries = tops, ipPos = 0\<rparr>]\<rparr>"
  have d: "root \<noteq> EmptyUUID" "ldIndexPage ld root = Inr tops" "tops \<noteq> []" "ldIndexPage ld (ieUUID (tops ! 0)) = Inr kids"
    using assms(1) by (auto simp: deep_tree_def hd_conv_nth)
  obtain c2 where c2: "loadLeaf ld (ieUUID l0) ?c1 = (None, c2)" "leafKeys c2 = ks" "same_tree ?c1 c2" "pcIdx c2 = -1"
    "pcStack c2 = pcStack ?c1" "\<not> pcAtEnd c2"
    using loadLeaf_ok [of ld ?c1 "ieUUID l0" ks] assms(3) d(1) by (auto simp: NewPageCursor_def)
  have r: "pcLoadRoot ld ?c0 = (None, c2)"
    using d c2(1) assms(2)
    by (simp add: pcLoadRoot_def descendToFirstLeaf_def numeral_2_eq_2 Let_def) (simp add: NewPageCursor_def)
  have k: "keyCount ?c0 = 0" "pcStack ?c0 = []" "pcKey ?c0 = None" "\<not> pcAtEnd ?c0" "pcRoot ?c0 = root"
    using d(1) by (auto simp: NewPageCursor_def keyCount_def FlatLeaf_Count_def FlatLeafKV_Count_def)
  obtain c where "pcAdvance ld c2 = Some (None, c)" "pcKey c = Some (ks ! 0)" "pcIdx c = 0" "leafKeys c = ks" "pcStack c = pcStack ?c1"
    "same_tree c2 c" "\<not> pcAtEnd c" using advance_step [of c2 ld] c2 assms(4) by auto
  then show ?thesis using c2(3) d(1) k r
    by (intro exI [of _ c]) (simp add: pcEnsure_def onLeaf_def same_tree_def, simp add: NewPageCursor_def)
qed

lemma deep_step:
  assumes "onLeaf tops kids ks i c" "Suc i < length ks"
  shows "\<exists>c'. pcAdvance ld c = Some (None, c') \<and> onLeaf tops kids ks (Suc i) c'"
  using advance_step [of c ld] assms by (fastforce simp: onLeaf_def same_tree_def nat_add_distrib)

lemma deep_failure:
  assumes "onLeaf tops kids ks i c" "Suc i = length ks" "2 \<le> length kids" "ldIndexPage ld (ieUUID (kids ! 1)) = Inl e"
  shows "\<exists>c'. pcAdvance ld c = Some (Some e, c') \<and> pastLeaf tops kids ks c'"
proof -
  define c1 where "c1 = c\<lparr>pcKey := None, pcPair := None, pcIdx := pcIdx c + 1\<rparr>"
  let ?c2 = "c1\<lparr>pcStack := [\<lparr>ipEntries = kids, ipPos = 1\<rparr>, \<lparr>ipEntries = tops, ipPos = 0\<rparr>]\<rparr>"
  have lk: "leafKeys ?c2 = leafKeys c" "keyCount c1 = keyCount c"
    using leafKeys_cong [of ?c2 c] leafKeys_cong [of c1 c] by (simp_all add: c1_def)
  have "siblingLoop ld (ieUUID (kids ! 1)) ?c2 = Some (Some e, ?c2)"
    using assms(4) by (subst siblingLoop.simps) simp
  then have "advanceToNextLeaf ld c1 = Some (Some e, ?c2)"
    using assms(1,3) by (subst advanceToNextLeaf.simps) (simp add: onLeaf_def Let_def c1_def)
  then have "pcAdvance ld c = Some (Some e, ?c2)"
    using assms(1,2) lk(2) by (simp add: pcAdvance_def onLeaf_def keyCount_leafKeys del: length_leafKeys)
      (subst pcAdvanceLoop.simps, simp add: c1_def Let_def keyCount_leafKeys del: length_leafKeys)
  moreover have "pastLeaf tops kids ks ?c2" using assms(1,2) lk(1) by (auto simp: onLeaf_def pastLeaf_def c1_def)
  ultimately show ?thesis by blast
qed

text \<open>Past the failure every further step fails too: the wrapper shows no key.\<close>

lemma sibling_refused:
  assumes "ldIndexPage ld u = Inr ls" "ls \<noteq> []" "\<forall>l \<in> set ls. \<exists>e. ldIndexPage ld (ieUUID l) = Inl e"
  shows "\<exists>e c'. siblingLoop ld u c = Some (Some e, c')"
proof -
  obtain e where "ldIndexPage ld (ieUUID (ls ! 0)) = Inl e" using assms(2,3) by (metis length_greater_0_conv nth_mem)
  then show ?thesis using assms(1,2) by (subst siblingLoop.simps, simp, subst siblingLoop.simps) simp
qed

lemma deep_end:
  assumes "deep_tree ld root tops kids" "pastLeaf tops kids ks c" "2 \<le> length kids"
  shows "\<exists>r c'. pcEnsure ld c = Some (r, c') \<and> (r \<noteq> None \<or> pcAtEnd c')"
proof -
  define c1 where "c1 = c\<lparr>pcKey := None, pcPair := None, pcIdx := pcIdx c + 1\<rparr>"
  have kc: "keyCount c1 = keyCount c" using leafKeys_cong [of c1 c] by (simp add: c1_def)
  have "\<exists>r c'. advanceToNextLeaf ld c1 = Some (r, c') \<and> (r \<noteq> None \<or> pcAtEnd c')"
  proof (cases "2 < length kids")
    case True
    then obtain e where "ldIndexPage ld (ieUUID (kids ! 2)) = Inl e" using deep_kids [OF assms(1)] nth_mem by blast
    then show ?thesis using assms(2) True
      by (subst advanceToNextLeaf.simps) (simp add: pastLeaf_def c1_def Let_def numeral_2_eq_2, subst siblingLoop.simps, simp)
  next
    case False
    let ?c2 = "c1\<lparr>pcStack := [\<lparr>ipEntries = tops, ipPos = 0\<rparr>]\<rparr>"
    have pop: "advanceToNextLeaf ld c1 = advanceToNextLeaf ld ?c2"
      using assms(2) False by (subst advanceToNextLeaf.simps) (simp add: pastLeaf_def c1_def Let_def)
    show ?thesis
    proof (cases "1 < length tops")
      case True
      then obtain ls where "ldIndexPage ld (ieUUID (tops ! 1)) = Inr ls" "ls \<noteq> []" "\<forall>l \<in> set ls. \<exists>e. ldIndexPage ld (ieUUID l) = Inl e"
        using deep_tops [OF assms(1)] nth_mem by blast
      from sibling_refused [OF this] obtain e c' where "siblingLoop ld (ieUUID (tops ! 1)) (c1\<lparr>pcStack := [\<lparr>ipEntries = tops, ipPos = 1\<rparr>]\<rparr>) = Some (Some e, c')"
        by blast
      then have "advanceToNextLeaf ld ?c2 = Some (Some e, c')"
        using assms(2) True by (subst advanceToNextLeaf.simps) (simp add: pastLeaf_def c1_def Let_def)
      then show ?thesis using pop by simp
    next
      case False
      then show ?thesis unfolding pop by (subst advanceToNextLeaf.simps, simp add: Let_def, subst advanceToNextLeaf.simps) simp
    qed
  qed
  then obtain r c' where a: "advanceToNextLeaf ld c1 = Some (r, c')" "r \<noteq> None \<or> pcAtEnd c'" by blast
  have "pcAdvance ld c = Some (r, c')"
    using assms(2) a kc by (simp add: pcAdvance_def pastLeaf_def keyCount_leafKeys del: length_leafKeys)
      (subst pcAdvanceLoop.simps, auto simp: c1_def Let_def keyCount_leafKeys simp del: length_leafKeys split: option.splits)
  then show ?thesis using assms(2) a(2) by (auto simp: pcEnsure_def pastLeaf_def)
qed

lemma readPage_past:
  assumes "deep_tree ld root tops kids" "pastLeaf tops kids ks c" "2 \<le> length kids"
  shows "readPage ld n c = []"
proof (cases n)
  case (Suc m)
  obtain r c' where "pcEnsure ld c = Some (r, c')" "r \<noteq> None \<or> pcAtEnd c'" using deep_end [OF assms] by blast
  then have "fst (pgPeek (pageOps ld) c) = None" by (auto simp: pageOps_def pcPeekR_def okOr_def split: option.splits)
  then show ?thesis using Suc by (simp add: case_prod_beta)
qed simp

lemma readPage_leaf:
  assumes "deep_tree ld root tops kids" "2 \<le> length kids" "onLeaf tops kids ks i c" "i < length ks"
  shows "readPage ld n c = take n (drop i ks)"
  using assms(3,4)
proof (induction n arbitrary: i c)
  case (Suc n)
  have en: "pcEnsure ld c = Some (None, c)" using Suc.prems(1) by (simp add: pcEnsure_def onLeaf_def)
  have peek: "pgPeek (pageOps ld) c = (Some (ks ! i), c)"
    using en Suc.prems(1) by (simp add: pageOps_def pcPeekR_def okOr_def onLeaf_def)
  have step: "pgNext (pageOps ld) c = c'" if "pcAdvance ld c = Some (r, c')" for r c'
    using en that by (simp add: pageOps_def pcNextR_def)
  show ?case
  proof (cases "Suc i < length ks")
    case True
    then show ?thesis using deep_step [OF Suc.prems(1) True, of ld] step Suc.IH peek Suc.prems(2) by (auto simp: Cons_nth_drop_Suc [symmetric])
  next
    case False
    then have last: "Suc i = length ks" using Suc.prems(2) by simp
    have "kids ! 1 \<in> set kids" using assms(2) by simp
    then obtain e where "ldIndexPage ld (ieUUID (kids ! 1)) = Inl e" using deep_kids [OF assms(1)] by blast
    from deep_failure [OF Suc.prems(1) last assms(2) this] obtain c' where "pcAdvance ld c = Some (Some e, c')" "pastLeaf tops kids ks c'" by blast
    then show ?thesis using step readPage_past [OF assms(1) _ assms(2)] peek last by (simp add: Cons_nth_drop_Suc [symmetric])
  qed
qed simp

text \<open>C37. A scan of a deep tree ends after its first leaf: in a tree of height two whose index pages load, whose first index page has
  at least two leaves, and whose leaves the index decoder refuses, the step from the first leaf to its sibling parses the
  sibling as an index page and fails; the wrapper drops the error, every later step fails in the same way, and a reader that
  starts at the beginning gets exactly the keys of the first leaf and then the end, however long it reads. The keys
  of all other leaves are skipped.\<close>

theorem deep_sibling_fails:
  assumes "deep_tree ld root tops (l0 # l1 # ls)" "leafOf ld kv (ieUUID l0) = Some ks" "ks \<noteq> []"
  shows "readPage ld n (NewPageCursor root 2 kv) = take n ks"
proof (cases n)
  case (Suc m)
  obtain c where c: "pcEnsure ld (NewPageCursor root 2 kv) = Some (None, c)" "onLeaf tops (l0 # l1 # ls) ks 0 c"
    using deep_first_leaf [OF assms(1) refl assms(2,3)] by blast
  have en: "pcEnsure ld c = Some (None, c)" using c(2) by (simp add: pcEnsure_def onLeaf_def)
  have "readPage ld (Suc m) (NewPageCursor root 2 kv) = readPage ld (Suc m) c"
    using c(1) en by (simp add: pageOps_def pcPeekR_def)
  also have "\<dots> = take n ks" using readPage_leaf [OF assms(1) _ c(2), of n] assms(3) Suc by simp
  finally show ?thesis using Suc by simp
qed simp

text \<open>The witness: a tree of height two with three leaves, whose pages are the encoded ones; the index decoder is the program's.\<close>

definition deepPages :: "(UUID \<times> bytes) list" where
  "deepPages = [(uuidOf 1, SerializeIndexPage [\<lparr>ieKey = [1], ieUUID = uuidOf 2\<rparr>, \<lparr>ieKey = [8], ieUUID = uuidOf 3\<rparr>]),
     (uuidOf 2, SerializeIndexPage [\<lparr>ieKey = [1], ieUUID = uuidOf 4\<rparr>, \<lparr>ieKey = [5], ieUUID = uuidOf 5\<rparr>]),
     (uuidOf 3, SerializeIndexPage [\<lparr>ieKey = [8], ieUUID = uuidOf 6\<rparr>]),
     (uuidOf 4, SerializePage [[1], [2]]), (uuidOf 5, SerializePage [[5], [6]]), (uuidOf 6, SerializePage [[8], [9]])]"

definition deepLoader :: loader where
  "deepLoader =
     \<lparr>ldLeafKeys = (\<lambda>u. case map_of deepPages u of None \<Rightarrow> Inl (Error ''not found'') | Some p \<Rightarrow> rbind (DeserializePage p) (\<lambda>ks. Inr (ToFlat ks))),
      ldLeafPairs = (\<lambda>u. Inl (Error ''not found'')),
      ldIndexPage = (\<lambda>u. case map_of deepPages u of None \<Rightarrow> Inl (Error ''not found'') | Some p \<Rightarrow> DeserializeIndexPage p)\<rparr>"

theorem deep_sibling_fails_witness:
  "readPage deepLoader 9 (NewPageCursor (uuidOf 1) 2 False) = [[1], [2]] \<and> leafOf deepLoader False (uuidOf 5) = Some [[5], [6]]"
proof -
  let ?t = "\<lambda>k n. \<lparr>ieKey = [k], ieUUID = uuidOf n\<rparr>"
  have "ldIndexPage deepLoader (uuidOf 1) = Inr [?t 1 2, ?t 8 3]" "ldIndexPage deepLoader (uuidOf 2) = Inr [?t 1 4, ?t 5 5]"
    "ldIndexPage deepLoader (uuidOf 3) = Inr [?t 8 6]" "uuidOf 1 \<noteq> EmptyUUID"
    "ldIndexPage deepLoader (uuidOf 4) = Inl (Error ''truncated index entry'')"
    "ldIndexPage deepLoader (uuidOf 5) = Inl (Error ''truncated index entry'')"
    "ldIndexPage deepLoader (uuidOf 6) = Inl (Error ''truncated index entry'')"
    by code_simp+
  then have "deep_tree deepLoader (uuidOf 1) [?t 1 2, ?t 8 3] [?t 1 4, ?t 5 5]" by (simp add: deep_tree_def)
  moreover have "leafOf deepLoader False (uuidOf 4) = Some [[1], [2]]" "leafOf deepLoader False (uuidOf 5) = Some [[5], [6]]" by code_simp+
  ultimately show ?thesis using deep_sibling_fails [of deepLoader "uuidOf 1" _ "?t 1 4" "?t 5 5" "[]" False "[[1], [2]]" 9] by simp
qed

end
