(* ===== verification/Journal.thy ===== *)
theory Journal
  imports MemTable
begin

text \<open>
  The journal record format of \<^verbatim>\<open>src/go/internal/kvstore/kvstore.go\<close> (which the write-ahead log and the
  replication stream share): the encoder, the record-length check, the resynchronising parser, and the replay of
  the journal directory into the memtable. Parsing gives back what was written; the last theorems show what the
  parser does with oversized and torn records.
\<close>

section \<open>Records\<close>

definition maxJournalKeyLen :: nat where
  "maxJournalKeyLen = 65536"

definition maxJournalValLen :: nat where
  "maxJournalValLen = 65536"

definition journalResync :: nat where
  "journalResync = 3"

text \<open>\<open>value\<close> is \<open>None\<close> for the Go \<open>nil\<close> of a key-only record; lengths are cut to 32 bits.\<close>

definition journalRecord :: "byte \<Rightarrow> bytes \<Rightarrow> bytes option \<Rightarrow> bool \<Rightarrow> bytes" where
  "journalRecord cf key val deleted =
     put_be 4 (word_of_nat (1 + length key) :: 32 word) @ [cf] @ key @
     (if deleted then [0xff, 0xff, 0xff, 0xff]
      else case val of
             None \<Rightarrow> [0, 0, 0, 1, 0]
           | Some v \<Rightarrow> put_be 4 (word_of_nat (length v) :: 32 word) @ v)"

definition journalRecordLenAt :: "bytes \<Rightarrow> nat \<Rightarrow> int" where
  "journalRecordLenAt data pos =
     (if pos + 10 > length data then -1
      else
        let klen = be_nat (slice data pos (pos + 4))
        in if klen < 1 \<or> klen > maxJournalKeyLen then -1
           else if pos + 4 + klen + 4 > length data then -1
           else if unat (data ! (pos + 4)) > 63 then -1
           else
             let vp = pos + 4 + klen; vlen = be_nat (slice data vp (vp + 4))
             in if vlen > maxJournalValLen then -1
                else if vp + 4 + vlen > length data then -1
                else int (4 + klen + 4 + vlen))"

lemma journalRecordLenAt_pos: "0 \<le> journalRecordLenAt data pos \<Longrightarrow> 0 < nat (journalRecordLenAt data pos)"
  by (auto simp: journalRecordLenAt_def Let_def split: if_splits)

text \<open>The loop that follows consecutive records; it returns where it stopped and how many it saw.\<close>

function chainFrom :: "bytes \<Rightarrow> nat \<Rightarrow> nat \<Rightarrow> nat \<times> nat" where
  "chainFrom data p n =
     (if p + 10 \<le> length data then
        let rl = journalRecordLenAt data p
        in if rl < 0 then (p, n) else chainFrom data (p + nat rl) (n + 1)
      else (p, n))"
  by pat_completeness auto
termination
proof (relation "measure (\<lambda>(data, p, n). length data - p)", goal_cases)
  case (2 data p n rl)
  then show ?case using journalRecordLenAt_pos [of data p] by auto
qed simp

declare chainFrom.simps [simp del]

definition journalChainLenAt :: "bytes \<Rightarrow> nat \<Rightarrow> nat" where
  "journalChainLenAt data pos = snd (chainFrom data pos 0)"

function resyncLoop :: "bytes \<Rightarrow> nat \<Rightarrow> nat option" where
  "resyncLoop data c =
     (if c + 10 \<le> length data then
        let (p, chain) = chainFrom data c 0
        in if chain \<ge> journalResync then Some c
           else if chain > 0 \<and> p + 10 > length data then Some c
           else resyncLoop data (c + 1)
      else None)"
  by pat_completeness auto
termination
  by (relation "measure (\<lambda>(data, c). length data - c)") auto

declare resyncLoop.simps [simp del]

text \<open>\<open>None\<close> is the Go result -1.\<close>

definition journalResyncFrom :: "bytes \<Rightarrow> nat \<Rightarrow> nat option" where
  "journalResyncFrom data broken = resyncLoop data (broken + 1)"

lemma resyncLoop_ge: "resyncLoop data c = Some d \<Longrightarrow> c \<le> d \<and> d + 10 \<le> length data"
proof (induction data c rule: resyncLoop.induct)
  case (1 data c)
  obtain p chain where pc: "chainFrom data c 0 = (p, chain)" by fastforce
  show ?case
  proof (cases "c + 10 \<le> length data \<and> \<not> (chain \<ge> journalResync \<or> chain > 0 \<and> p + 10 > length data)")
    case True
    then have "resyncLoop data (c + 1) = Some d"
      using "1.prems" pc by (subst (asm) resyncLoop.simps) (auto split: if_splits)
    then show ?thesis using "1.IH" [of "(p, chain)" p chain] True pc by auto
  next
    case False
    then show ?thesis
      using "1.prems" pc by (subst (asm) resyncLoop.simps) (auto split: if_splits)
  qed
qed

function parseLoop :: "bytes \<Rightarrow> nat \<Rightarrow> CfKey list" where
  "parseLoop data pos =
     (if pos + 10 \<le> length data then
        let rl = journalRecordLenAt data pos
        in if rl > 0 then
             let klen = be_nat (slice data pos (pos + 4)); cf = data ! (pos + 4)
             in (if cf \<le> 3 then [\<lparr>Cf = cf, CfKey_Key = slice data (pos + 5) (pos + 5 + klen - 1)\<rparr>] else [])
                @ parseLoop data (pos + nat rl)
           else
             (case journalResyncFrom data pos of
                None \<Rightarrow> []
              | Some c \<Rightarrow> parseLoop data c)
      else [])"
  by pat_completeness auto
termination
  by (relation "measure (\<lambda>(data, pos). length data - pos)")
    (auto simp: journalResyncFrom_def dest!: resyncLoop_ge)

declare parseLoop.simps [simp del]

definition ParseJournalRecords :: "bytes \<Rightarrow> CfKey list" where
  "ParseJournalRecords data = parseLoop data 0"

section \<open>Writing and parsing\<close>

text \<open>A key-only record, as the log writes it.\<close>

definition keyRecord :: "CfKey \<Rightarrow> bytes" where
  "keyRecord e = journalRecord (Cf e) (CfKey_Key e) None False"

definition frames :: "CfKey list \<Rightarrow> bytes" where
  "frames es = concat (map keyRecord es)"

text \<open>What the parser accepts: a column family up to 63 and a length field of at most 65536.\<close>

definition journalable :: "CfKey \<Rightarrow> bool" where
  "journalable e \<longleftrightarrow> Cf e \<le> 63 \<and> length (CfKey_Key e) < maxJournalKeyLen"

lemma length_keyRecord [simp]: "length (keyRecord e) = 10 + length (CfKey_Key e)"
  by (simp add: keyRecord_def journalRecord_def)

lemma frames_simps [simp]:
  "frames [] = []" "frames (e # es) = keyRecord e @ frames es" "frames (es @ fs) = frames es @ frames fs"
  by (simp_all add: frames_def)

lemma frames_nonempty: "es \<noteq> [] \<Longrightarrow> 0 < length (frames es)"
  by (cases es) simp_all

lemma record_fields:
  assumes "journalable e" "data = pre @ keyRecord e @ post"
  shows "be_nat (slice data (length pre) (length pre + 4)) = 1 + length (CfKey_Key e)"
    "data ! (length pre + 4) = Cf e"
    "slice data (length pre + 5) (length pre + 5 + length (CfKey_Key e)) = CfKey_Key e"
    "slice data (length pre + 5 + length (CfKey_Key e)) (length pre + 9 + length (CfKey_Key e)) = [0, 0, 0, 1]"
proof -
  let ?k = "CfKey_Key e" and ?h = "put_be 4 (word_of_nat (1 + length (CfKey_Key e)) :: 32 word)"
  have l: "length ?k < 65536" using assms(1) by (simp add: journalable_def maxJournalKeyLen_def)
  have d: "data = pre @ ?h @ Cf e # ?k @ [0, 0, 0, 1] @ 0 # post"
    using assms(2) by (simp add: keyRecord_def journalRecord_def)
  have "slice data (length pre) (length pre + 4) = ?h" unfolding d by (rule slice_mid) simp_all
  moreover have "unat (word_of_nat (1 + length ?k) :: 32 word) = 1 + length ?k"
    using l by (simp add: unat_of_nat take_bit_eq_mod del: of_nat_add of_nat_Suc)
  ultimately show "be_nat (slice data (length pre) (length pre + 4)) = 1 + length ?k"
    using l by (simp add: be_nat_put_be)
  show "data ! (length pre + 4) = Cf e" unfolding d by (simp add: nth_append)
  have d2: "data = (pre @ ?h @ [Cf e]) @ ?k @ ([0, 0, 0, 1] @ 0 # post)" unfolding d by simp
  show "slice data (length pre + 5) (length pre + 5 + length ?k) = ?k"
    unfolding d2 by (rule slice_mid) simp_all
  have d3: "data = (pre @ ?h @ [Cf e] @ ?k) @ [0, 0, 0, 1] @ (0 # post)" unfolding d by simp
  show "slice data (length pre + 5 + length ?k) (length pre + 9 + length ?k) = [0, 0, 0, 1]"
    unfolding d3 by (rule slice_mid) simp_all
qed

lemma recordLen_ok:
  assumes "journalable e" "data = pre @ keyRecord e @ post"
  shows "journalRecordLenAt data (length pre) = int (length (keyRecord e))"
proof -
  note f = record_fields [OF assms]
  have vl: "be_nat [0, 0, 0, 1] = 1" by code_simp
  have "slice data (length pre + 4 + (1 + length (CfKey_Key e))) (length pre + 4 + (1 + length (CfKey_Key e)) + 4) = [0, 0, 0, 1]"
    using f(4) by (simp add: add.commute add.left_commute)
  moreover have "length data = length pre + 10 + length (CfKey_Key e) + length post" using assms(2) by simp
  moreover have "unat (Cf e) \<le> 63" using assms(1) by (simp add: journalable_def word_le_nat_alt)
  ultimately show ?thesis
    using f(1,2) assms(1) vl
    by (simp add: journalRecordLenAt_def Let_def journalable_def maxJournalKeyLen_def maxJournalValLen_def)
qed

lemma parseLoop_record:
  assumes "journalable e" "data = pre @ keyRecord e @ post"
  shows "parseLoop data (length pre)
    = (if Cf e \<le> 3 then [e] else []) @ parseLoop data (length (pre @ keyRecord e))"
proof -
  note f = record_fields [OF assms]
  have l: "length pre + 10 \<le> length data" using assms(2) by simp
  have "slice data (length pre + 5) (length pre + 5 + (1 + length (CfKey_Key e)) - 1) = CfKey_Key e"
    using f(3) by (simp add: ac_simps)
  moreover have "nat (10 + int (length (CfKey_Key e))) = 10 + length (CfKey_Key e)" by simp
  ultimately show ?thesis
    by (subst parseLoop.simps) (simp add: l recordLen_ok [OF assms] f(1,2) Let_def)
qed

lemma parseLoop_frames:
  "\<forall>e \<in> set es. journalable e \<Longrightarrow> data = pre @ frames es @ post \<Longrightarrow>
     parseLoop data (length pre) = filter (\<lambda>e. Cf e \<le> 3) es @ parseLoop data (length (pre @ frames es))"
proof (induction es arbitrary: pre)
  case (Cons e es)
  have d: "data = pre @ keyRecord e @ (frames es @ post)" using Cons.prems(2) by simp
  have "parseLoop data (length (pre @ keyRecord e))
      = filter (\<lambda>e. Cf e \<le> 3) es @ parseLoop data (length ((pre @ keyRecord e) @ frames es))"
    by (rule Cons.IH) (use Cons.prems in auto)
  then show ?case using parseLoop_record [OF _ d] Cons.prems(1) by simp
qed simp

lemma Parse_frames_tail:
  assumes "\<forall>e \<in> set es. journalable e" "length tail < 10"
  shows "ParseJournalRecords (frames es @ tail) = filter (\<lambda>e. Cf e \<le> 3) es"
  using parseLoop_frames [OF assms(1), of "frames es @ tail" "[]" tail] assms(2)
  by (simp add: ParseJournalRecords_def parseLoop.simps [of _ "length (frames es)"])

text \<open>The journal is read back as it was written: parsing the records of any list of entries (column
  families up to 63, keys up to 65535 bytes) returns the datom entries (families 0 to 3) in order, and a torn
  tail shorter than a record header is ignored.\<close>

theorem ParseJournalRecords_frames:
  assumes "\<forall>e \<in> set es. journalable e" "length tail < 10"
  shows "ParseJournalRecords (frames es @ tail) = filter (\<lambda>e. Cf e \<le> 3) es"
  by (rule Parse_frames_tail [OF assms])

theorem ParseJournalRecords_frames_witness:
  "ParseJournalRecords (frames [\<lparr>Cf = 0, CfKey_Key = [7, 8]\<rparr>, \<lparr>Cf = 12, CfKey_Key = []\<rparr>, \<lparr>Cf = 3, CfKey_Key = [9]\<rparr>]
     @ [0, 0, 0, 5, 1]) = [\<lparr>Cf = 0, CfKey_Key = [7, 8]\<rparr>, \<lparr>Cf = 3, CfKey_Key = [9]\<rparr>]"
  using ParseJournalRecords_frames [of "[\<lparr>Cf = 0, CfKey_Key = [7, 8]\<rparr>, \<lparr>Cf = 12, CfKey_Key = []\<rparr>, \<lparr>Cf = 3, CfKey_Key = [9]\<rparr>]"
      "[0, 0, 0, 5, 1]"]
  by (simp add: journalable_def maxJournalKeyLen_def)

section \<open>What the parser does with other bytes\<close>

lemma parse_no_record:
  assumes "\<And>pos. journalRecordLenAt data pos < 0"
  shows "ParseJournalRecords data = []"
proof -
  have ch: "chainFrom data p n = (p, n)" for p n
    using assms by (subst chainFrom.simps) (simp add: Let_def)
  have "resyncLoop data c = None" for c
  proof (induction "length data - c" arbitrary: c rule: less_induct)
    case less
    then show ?case by (subst resyncLoop.simps) (auto simp: ch journalResync_def)
  qed
  then show ?thesis
    using assms [of 0] by (simp add: ParseJournalRecords_def journalResyncFrom_def parseLoop.simps Let_def)
qed

text \<open>A key of 65536 bytes or more (below 4 GiB) is journaled and never replayed: its record is written,
  but its length field is above the bound the parser enforces, so no record is recognised at its start.\<close>

theorem oversized_record_rejected:
  assumes "maxJournalKeyLen \<le> length (CfKey_Key e)" "length (CfKey_Key e) < 2 ^ 32 - 1"
  shows "journalRecordLenAt (keyRecord e @ post) 0 = -1"
proof -
  let ?h = "put_be 4 (word_of_nat (1 + length (CfKey_Key e)) :: 32 word)"
  have "slice (keyRecord e @ post) 0 4 = ?h"
    by (simp add: keyRecord_def journalRecord_def slice_def)
  moreover have "unat (word_of_nat (1 + length (CfKey_Key e)) :: 32 word) = 1 + length (CfKey_Key e)"
    using assms(2) by (simp add: unat_of_nat take_bit_eq_mod del: of_nat_add of_nat_Suc)
  ultimately have "be_nat (slice (keyRecord e @ post) 0 (0 + 4)) = 1 + length (CfKey_Key e)"
    using assms(2) by (simp add: be_nat_put_be)
  then show ?thesis using assms(1) by (simp add: journalRecordLenAt_def Let_def maxJournalKeyLen_def)
qed

theorem oversized_record_rejected_witness:
  "journalRecordLenAt (keyRecord \<lparr>Cf = 0, CfKey_Key = replicate 65536 1\<rparr> @ []) 0 = -1"
  by (rule oversized_record_rejected) (simp_all add: maxJournalKeyLen_def)

text \<open>The resynchronisation after a torn record can invent an entry: when the bytes of a key contain
  what looks like a record, cutting the log right after them makes the parser deliver that embedded record,
  which was never written as one.\<close>

theorem torn_record_can_invent_entry:
  "let e = \<lparr>Cf = 0, CfKey_Key = [1] @ keyRecord \<lparr>Cf = 0, CfKey_Key = [7]\<rparr> @ [2, 3]\<rparr>
   in journalable e
      \<and> ParseJournalRecords (take (length (frames [e]) - 7) (frames [e])) = [\<lparr>Cf = 0, CfKey_Key = [7]\<rparr>]"
proof -
  let ?d = "[0, 0, 0, 15, 0, 1, 0, 0, 0, 2, 0, 7, 0, 0, 0, 1, 0] :: bytes"
  note eval = journalRecordLenAt_def slice_def be_nat_def maxJournalKeyLen_def maxJournalValLen_def Let_def
  have l: "journalRecordLenAt ?d 0 = -1" "journalRecordLenAt ?d 1 = -1" "journalRecordLenAt ?d 2 = -1"
    "journalRecordLenAt ?d 3 = -1" "journalRecordLenAt ?d 4 = -1" "journalRecordLenAt ?d 5 = -1"
    "journalRecordLenAt ?d 6 = 11" "journalRecordLenAt ?d 17 = -1"
    by (simp_all add: eval)
  have c: "chainFrom ?d p n = (p, n)" if "p \<in> {1, 2, 3, 4, 5, 17}" for p n
    using l that by (subst chainFrom.simps) auto
  have c6: "chainFrom ?d 6 0 = (17, 1)"
    using c [of 17 1] by (subst chainFrom.simps) (simp add: l)
  have "resyncLoop ?d 6 = Some 6" by (subst resyncLoop.simps) (simp add: c6 journalResync_def)
  then have "resyncLoop ?d 5 = Some 6" by (subst resyncLoop.simps) (simp add: c journalResync_def)
  then have "resyncLoop ?d 4 = Some 6" by (subst resyncLoop.simps) (simp add: c journalResync_def)
  then have "resyncLoop ?d 3 = Some 6" by (subst resyncLoop.simps) (simp add: c journalResync_def)
  then have "resyncLoop ?d 2 = Some 6" by (subst resyncLoop.simps) (simp add: c journalResync_def)
  then have "journalResyncFrom ?d 0 = Some 6"
    unfolding journalResyncFrom_def
    by (subst resyncLoop.simps) (simp add: c journalResync_def flip: numeral_2_eq_2)
  moreover have "parseLoop ?d 17 = []" by (subst parseLoop.simps) simp
  then have "parseLoop ?d 6 = [\<lparr>Cf = 0, CfKey_Key = [7]\<rparr>]"
    by (subst parseLoop.simps) (simp add: l slice_def be_nat_def)
  ultimately have "ParseJournalRecords ?d = [\<lparr>Cf = 0, CfKey_Key = [7]\<rparr>]"
    unfolding ParseJournalRecords_def by (subst parseLoop.simps) (simp add: l)
  moreover have r: "keyRecord \<lparr>Cf = 0, CfKey_Key = [7]\<rparr> = [0, 0, 0, 2, 0, 7, 0, 0, 0, 1, 0]" by code_simp
  moreover have "take (length (frames [\<lparr>Cf = 0, CfKey_Key = [1, 0, 0, 0, 2, 0, 7, 0, 0, 0, 1, 0, 2, 3]\<rparr>]) - 7)
      (frames [\<lparr>Cf = 0, CfKey_Key = [1, 0, 0, 0, 2, 0, 7, 0, 0, 0, 1, 0, 2, 3]\<rparr>]) = ?d"
    by code_simp
  ultimately show ?thesis
    unfolding Let_def r append.simps by (simp only: journalable_def maxJournalKeyLen_def) simp
qed

end
