(* ===== verification/Decimal.thy ===== *)
theory Decimal
  imports Keys
begin

text \<open>
  Decimal text of integers, \<^verbatim>\<open>strconv.FormatInt\<close> and \<^verbatim>\<open>strconv.FormatUint\<close> of Go's library with base 10, which the
  schema datoms and the printed forms use; \<open>ParseInt64\<close> reads it back.
\<close>

definition digitChar :: "nat \<Rightarrow> char" where
  "digitChar n = char_of (48 + n)"

fun decimal :: "nat \<Rightarrow> string" where
  "decimal n = (if n < 10 then [digitChar n] else decimal (n div 10) @ [digitChar (n mod 10)])"

declare decimal.simps [simp del]

definition FormatUint :: "uint64 \<Rightarrow> string" where
  "FormatUint w = decimal (unat w)"

definition FormatInt :: "int64 \<Rightarrow> string" where
  "FormatInt w = (if sint w < 0 then CHR ''-'' # decimal (nat (- sint w)) else decimal (nat (sint w)))"

lemma of_digitChar [simp]: "d < 10 \<Longrightarrow> of_char (digitChar d) = (48 + d :: nat)"
  by (simp add: digitChar_def of_char_of)

lemma isDigitChar_digitChar [simp]: "d < 10 \<Longrightarrow> isDigitChar (digitChar d)"
  by (simp add: isDigitChar_def)

lemma decimal_value:
  "foldl (\<lambda>a c. a * 10 + (of_char c - 48)) (0::nat) (decimal n) = n"
  by (induction n rule: decimal.induct) (subst decimal.simps, simp)

lemma decimal_digits: "list_all isDigitChar (decimal n)"
  by (induction n rule: decimal.induct) (subst decimal.simps, simp)

lemma decimal_nonempty [simp]: "decimal n \<noteq> []"
  by (subst decimal.simps) simp

lemma isDigitChar_sign: "isDigitChar c \<Longrightarrow> c \<noteq> CHR ''-'' \<and> c \<noteq> CHR ''+''"
  by (auto simp: isDigitChar_def)

lemma ParseInt64_decimal:
  assumes "n < 2 ^ 63"
  shows "ParseInt64 (decimal n) = Some (word_of_nat n)"
proof -
  obtain c r where d: "decimal n = c # r" by (cases "decimal n") auto
  then have "c \<noteq> CHR ''-'' \<and> c \<noteq> CHR ''+''"
    using decimal_digits [of n] by (intro isDigitChar_sign) simp
  then show ?thesis
    using assms decimal_digits [of n] decimal_value [of n] d by (simp add: ParseInt64_def Let_def)
qed

lemma ParseInt64_FormatInt [simp]: "ParseInt64 (FormatInt w) = Some w"
proof (cases "sint w < 0")
  case True
  have le: "nat (- sint w) \<le> 2 ^ 63" using sint_ge [of w] by simp
  have "ParseInt64 (CHR ''-'' # decimal (nat (- sint w))) = Some (word_of_int (- int (nat (- sint w))))"
    using le decimal_digits decimal_value [of "nat (- sint w)"] by (simp add: ParseInt64_def Let_def)
  with True show ?thesis by (simp add: FormatInt_def)
next
  case False
  have "nat (sint w) < 2 ^ 63" using sint_less [of w] by simp
  with ParseInt64_decimal [OF this] False show ?thesis
    by (simp add: FormatInt_def)
qed

lemma ParseInt64_FormatUint: "unat w < 2 ^ 63 \<Longrightarrow> ParseInt64 (FormatUint w) = Some w"
  by (simp add: FormatUint_def ParseInt64_decimal)

end
