(* ===== verification/Wal.thy ===== *)
theory Wal
  imports Journal Decimal "HOL-Library.AList"
begin

text \<open>
  The segmented write-ahead log, \<^verbatim>\<open>src/go/internal/wal/wal.go\<close>. A journal directory is an association list
  from file names to contents; every operating-system call that can fail takes its outcome from a list of
  faults. The main results: the bytes handed to the log are always the sealed segments, the current segment
  and the buffer, in order and cut at record boundaries, whatever writes fail; replaying the directory gives
  back the entries; and only segments that a published flush covers are deleted.
\<close>

section \<open>The journal directory\<close>

text \<open>The faults of \<open>WriteAt\<close>, of opening a segment and of \<open>Remove\<close>; an empty list means no more faults.\<close>

record jdisk =
  jFiles :: "(string \<times> bytes) list"
  jWriteFaults :: "bool list"
  jOpenFaults :: "bool list"
  jRemoveFaults :: "bool list"

text \<open>\<open>fmt.Sprintf("%0*d", segDigits, idx)\<close>\<close>

definition pad5 :: "nat \<Rightarrow> string" where
  "pad5 n = replicate (5 - length (decimal n)) (digitChar 0) @ decimal n"

definition segPath :: "nat \<Rightarrow> string" where
  "segPath idx = ''journal.'' @ pad5 idx"

definition digitVal :: "char \<Rightarrow> nat option" where
  "digitVal c = (let n = of_char c in if 48 \<le> n \<and> n \<le> 57 then Some (n - 48) else None)"

text \<open>\<open>strconv.Atoi\<close>: an optional sign, at least one digit, within 64 bits.\<close>

fun digitsVal :: "string \<Rightarrow> nat \<Rightarrow> nat option" where
  "digitsVal [] acc = Some acc"
| "digitsVal (c # cs) acc = (case digitVal c of None \<Rightarrow> None | Some d \<Rightarrow> digitsVal cs (acc * 10 + d))"

definition atoi :: "string \<Rightarrow> int option" where
  "atoi s =
     (let neg = (s \<noteq> [] \<and> hd s = CHR ''-''); body = (if s \<noteq> [] \<and> (hd s = CHR ''-'' \<or> hd s = CHR ''+'') then tl s else s)
      in if body = [] then None
         else case digitsVal body 0 of
                None \<Rightarrow> None
              | Some n \<Rightarrow>
                  let v = (if neg then - int n else int n)
                  in if - (2 ^ 63) \<le> v \<and> v < 2 ^ 63 then Some v else None)"

definition hasPrefixStr :: "string \<Rightarrow> string \<Rightarrow> bool" where
  "hasPrefixStr s p = (take (length p) s = p)"

text \<open>The segment number of a file name, if it has one.\<close>

definition segOf :: "string \<Rightarrow> int option" where
  "segOf name = (if hasPrefixStr name ''journal.'' then atoi (drop (length ''journal.'') name) else None)"

definition listSegments :: "(string \<times> bytes) list \<Rightarrow> string list" where
  "listSegments fs = map snd (sort_key fst (List.map_filter (\<lambda>n. map_option (\<lambda>i. (i, n)) (segOf n)) (map fst fs)))"

definition takeFault :: "bool list \<Rightarrow> bool \<times> bool list" where
  "takeFault fs = (case fs of [] \<Rightarrow> (False, []) | b # bs \<Rightarrow> (b, bs))"

text \<open>\<open>O_RDWR|O_CREATE\<close>; the result is the size of the file.\<close>

definition openSeg :: "nat \<Rightarrow> jdisk \<Rightarrow> nat result \<times> jdisk" where
  "openSeg idx d =
     (let (bad, rest) = takeFault (jOpenFaults d); d1 = d\<lparr>jOpenFaults := rest\<rparr>
      in if bad then (Inl (Error ''open''), d1)
         else (case map_of (jFiles d1) (segPath idx) of
                 Some c \<Rightarrow> (Inr (length c), d1)
               | None \<Rightarrow> (Inr 0, d1\<lparr>jFiles := AList.update (segPath idx) [] (jFiles d1)\<rparr>)))"

definition writeBytes :: "bytes \<Rightarrow> nat \<Rightarrow> bytes \<Rightarrow> bytes" where
  "writeBytes old off data =
     (let base = (if length old < off then old @ replicate (off - length old) 0 else old)
      in take off base @ data @ drop (off + length data) base)"

definition WriteAt :: "string \<Rightarrow> bool \<Rightarrow> bytes \<Rightarrow> nat \<Rightarrow> jdisk \<Rightarrow> go_error option \<times> jdisk" where
  "WriteAt path isOpen data off d =
     (let (bad, rest) = takeFault (jWriteFaults d); d1 = d\<lparr>jWriteFaults := rest\<rparr>
      in if bad \<or> \<not> isOpen then (Some (Error ''write''), d1)
         else (case map_of (jFiles d1) path of
                 None \<Rightarrow> (None, d1)
               | Some c \<Rightarrow> (None, d1\<lparr>jFiles := AList.update path (writeBytes c off data) (jFiles d1)\<rparr>)))"

definition RemoveFile :: "string \<Rightarrow> jdisk \<Rightarrow> go_error option \<times> jdisk" where
  "RemoveFile path d =
     (let (bad, rest) = takeFault (jRemoveFaults d); d1 = d\<lparr>jRemoveFaults := rest\<rparr>
      in if bad \<or> map_of (jFiles d1) path = None then (Some (Error ''remove''), d1)
         else (None, d1\<lparr>jFiles := AList.delete path (jFiles d1)\<rparr>))"

section \<open>The writer\<close>

record sealedSeg =
  ssIdx :: nat
  ssPath :: string
  ssBoundary :: int

text \<open>
  \<open>f\<close> is \<open>(wFile, wOpen)\<close>. \<open>OnWal\<close> and \<open>OnSeal\<close> are the lists of calls made to the callbacks. Positions are
  unbounded: 64-bit byte offsets are out of reach.
\<close>

record Writer =
  wSegIdx :: nat
  wFile :: string
  wOpen :: bool
  wOffset :: nat
  wBuf :: bytes
  wBufPos :: nat
  wLogicalEnd :: nat
  wSealBoundary :: int
  wSealed :: "sealedSeg list"
  wStopped :: bool
  wOnWal :: "bytes list"
  wOnSeal :: "nat list"

text \<open>\<open>Attach\<close> without its goroutine: \<open>walTick\<close> is one round of \<open>cycle\<close>.\<close>

definition maxSeg :: "(string \<times> bytes) list \<Rightarrow> int" where
  "maxSeg fs = fold max (List.map_filter segOf (map fst fs)) (-1)"

definition Attach :: "jdisk \<Rightarrow> Writer result \<times> jdisk" where
  "Attach d =
     (let idx = nat (maxSeg (jFiles d) + 1)
      in case openSeg idx d of
           (Inl e, d1) \<Rightarrow> (Inl e, d1)
         | (Inr off, d1) \<Rightarrow>
             (Inr \<lparr>wSegIdx = idx, wFile = segPath idx, wOpen = True, wOffset = off, wBuf = [], wBufPos = 0,
                   wLogicalEnd = 0, wSealBoundary = -1, wSealed = [], wStopped = False, wOnWal = [], wOnSeal = []\<rparr>, d1))"

text \<open>The branch of the loop of \<open>drainLocked\<close> for a pending seal.\<close>

definition writeSplit :: "nat \<Rightarrow> Writer \<Rightarrow> jdisk \<Rightarrow> go_error option \<times> Writer \<times> jdisk" where
  "writeSplit split w d =
     (if split > 0 then
        (case WriteAt (wFile w) (wOpen w) (take split (wBuf w)) (wOffset w) d of
           (Some e, d1) \<Rightarrow> (Some e, w, d1)
         | (None, d1) \<Rightarrow> (None, w\<lparr>wOffset := wOffset w + split, wBufPos := wBufPos w + split,
                                  wBuf := drop split (wBuf w)\<rparr>, d1))
      else (None, w, d))"

definition rotate :: "Writer \<Rightarrow> jdisk \<Rightarrow> go_error option \<times> Writer \<times> jdisk" where
  "rotate w d =
     (let w1 = w\<lparr>wOpen := False,
                wSealed := wSealed w @ [\<lparr>ssIdx = wSegIdx w, ssPath = segPath (wSegIdx w), ssBoundary = wSealBoundary w\<rparr>],
                wSegIdx := wSegIdx w + 1, wOnSeal := wOnSeal w @ [wSegIdx w]\<rparr>
      in case openSeg (wSegIdx w1) d of
           (Inl e, d1) \<Rightarrow> (Some e, w1, d1)
         | (Inr off, d1) \<Rightarrow>
             (None, w1\<lparr>wFile := segPath (wSegIdx w1), wOpen := True, wOffset := off, wSealBoundary := -1\<rparr>, d1))"

definition sealStep :: "Writer \<Rightarrow> jdisk \<Rightarrow> go_error option \<times> Writer \<times> jdisk" where
  "sealStep w d =
     (let split = (if wSealBoundary w > int (wBufPos w)
                   then min (nat (wSealBoundary w - int (wBufPos w))) (length (wBuf w)) else 0)
      in case writeSplit split w d of
           (Some e, w1, d1) \<Rightarrow> (Some e, w1, d1)
         | (None, w1, d1) \<Rightarrow> if int (wBufPos w1) \<ge> wSealBoundary w1 then rotate w1 d1 else (None, w1, d1))"

lemma sealStep_clears:
  assumes "sealStep w d = (None, w', d')" "wBuf w' \<noteq> []"
  shows "wSealBoundary w' = -1"
  using assms
  by (auto simp: sealStep_def writeSplit_def rotate_def Let_def min_def
      split: if_splits option.splits prod.splits sum.splits)

function drainLocked :: "Writer \<Rightarrow> jdisk \<Rightarrow> go_error option \<times> Writer \<times> jdisk" where
  "drainLocked w d =
     (if wSealBoundary w \<ge> 0 then
        (case sealStep w d of
           (Some e, w1, d1) \<Rightarrow> (Some e, w1, d1)
         | (None, w1, d1) \<Rightarrow> if wBuf w1 = [] then (None, w1, d1) else drainLocked w1 d1)
      else if wBuf w = [] then (None, w, d)
      else
        (case WriteAt (wFile w) (wOpen w) (wBuf w) (wOffset w) d of
           (Some e, d1) \<Rightarrow> (Some e, w, d1)
         | (None, d1) \<Rightarrow> (None, w\<lparr>wOffset := wOffset w + length (wBuf w), wBufPos := wBufPos w + length (wBuf w),
                                  wBuf := []\<rparr>, d1)))"
  by pat_completeness auto
termination
  by (relation "measure (\<lambda>(w, d). if wSealBoundary w \<ge> 0 then 1 else 0)")
    (auto dest!: sym [THEN sealStep_clears] sealStep_clears)

declare drainLocked.simps [simp del]

definition Sink :: "CfKey list \<Rightarrow> Writer \<Rightarrow> jdisk \<Rightarrow> Writer \<times> jdisk" where
  "Sink entries w d =
     (if wStopped w then (w, d)
      else
        let rec = frames entries;
            w1 = w\<lparr>wBuf := wBuf w @ rec, wLogicalEnd := wLogicalEnd w + length rec,
                   wOnWal := (if rec \<noteq> [] then wOnWal w @ [rec] else wOnWal w)\<rparr>
        in snd (drainLocked w1 d))"

definition Seal :: "Writer \<Rightarrow> int \<times> Writer" where
  "Seal w = (int (wLogicalEnd w), w\<lparr>wSealBoundary := int (wLogicalEnd w)\<rparr>)"

definition Drain :: "Writer \<Rightarrow> jdisk \<Rightarrow> go_error option \<times> Writer \<times> jdisk" where
  "Drain w d = drainLocked w d"

fun deleteSegs :: "int \<Rightarrow> sealedSeg list \<Rightarrow> jdisk \<Rightarrow> sealedSeg list \<times> jdisk" where
  "deleteSegs durable [] d = ([], d)"
| "deleteSegs durable (s # ss) d =
     (if ssBoundary s \<le> durable then
        (case RemoveFile (ssPath s) d of
           (Some e, d1) \<Rightarrow> (s # ss, d1)
         | (None, d1) \<Rightarrow> deleteSegs durable ss d1)
      else (s # ss, d))"

text \<open>\<open>durable\<close> is the value of the shared counter, or -1 when there is none.\<close>

definition deleteDurable :: "int \<Rightarrow> Writer \<Rightarrow> jdisk \<Rightarrow> Writer \<times> jdisk" where
  "deleteDurable durable w d =
     (let (ss, d1) = deleteSegs durable (wSealed w) d in (w\<lparr>wSealed := ss\<rparr>, d1))"

text \<open>One tick of \<open>cycle\<close>; \<open>Sync\<close> does not change the contents.\<close>

definition walTick :: "int \<Rightarrow> Writer \<Rightarrow> jdisk \<Rightarrow> Writer \<times> jdisk" where
  "walTick durable w d =
     (if wStopped w then (w, d)
      else let (w1, d1) = snd (drainLocked w d) in deleteDurable durable w1 d1)"

definition Stop :: "Writer \<Rightarrow> jdisk \<Rightarrow> Writer \<times> jdisk" where
  "Stop w d =
     (if wStopped w then (w, d)
      else let (w1, d1) = snd (drainLocked (w\<lparr>wStopped := True\<rparr>) d) in (w1\<lparr>wOpen := False\<rparr>, d1))"

definition OpenTail :: "Writer \<Rightarrow> bytes" where
  "OpenTail w = wBuf w"

text \<open>The paths of the segments other than the live one, and the bytes of the live one.\<close>

definition SnapshotLocked :: "Writer \<Rightarrow> jdisk \<Rightarrow> (string list \<times> bytes) \<times> Writer \<times> jdisk" where
  "SnapshotLocked w d =
     (let (w1, d1) = snd (drainLocked w d); cur = segPath (wSegIdx w1)
      in ((filter (\<lambda>p. p \<noteq> cur) (listSegments (jFiles d1)),
           case map_of (jFiles d1) cur of Some c \<Rightarrow> c | None \<Rightarrow> []), w1, d1))"

section \<open>Segment names\<close>

lemma digitVal_digitChar [simp]: "d < 10 \<Longrightarrow> digitVal (digitChar d) = Some d"
  by (simp add: digitVal_def digitChar_def)

lemma digitsVal_append:
  "digitsVal (xs @ ys) a = (case digitsVal xs a of None \<Rightarrow> None | Some b \<Rightarrow> digitsVal ys b)"
  by (induction xs arbitrary: a) (auto split: option.splits)

lemma digitsVal_decimal: "digitsVal (decimal n) a = Some (a * 10 ^ length (decimal n) + n)"
proof (induction n arbitrary: a rule: decimal.induct)
  case (1 n)
  show ?case
  proof (cases "n < 10")
    case True
    then show ?thesis by (simp add: decimal.simps [of n])
  next
    case False
    then have d: "decimal n = decimal (n div 10) @ [digitChar (n mod 10)]" by (simp add: decimal.simps [of n])
    show ?thesis using "1.IH" [OF False] by (simp add: d digitsVal_append algebra_simps)
  qed
qed

lemma digitsVal_zeros: "digitsVal (replicate k (digitChar 0)) 0 = Some 0"
  by (induction k) simp_all

lemma digitsVal_pad5: "digitsVal (pad5 n) 0 = Some n"
  by (simp add: pad5_def digitsVal_append digitsVal_zeros digitsVal_decimal)

lemma set_decimal: "c \<in> set (decimal n) \<Longrightarrow> \<exists>d<10. c = digitChar d"
proof (induction n rule: decimal.induct)
  case (1 n)
  show ?case
  proof (cases "n < 10")
    case True
    then show ?thesis using "1.prems" by (auto simp: decimal.simps [of n])
  next
    case False
    then consider "c \<in> set (decimal (n div 10))" | "c = digitChar (n mod 10)"
      using "1.prems" by (auto simp: decimal.simps [of n])
    then show ?thesis
    proof cases
      case 2
      have "n mod 10 < 10" by simp
      then show ?thesis using 2 by blast
    qed (rule "1.IH" [OF False])
  qed
qed

lemma hd_pad5: "pad5 n \<noteq> []" "hd (pad5 n) \<noteq> CHR ''-''" "hd (pad5 n) \<noteq> CHR ''+''"
proof -
  show ne: "pad5 n \<noteq> []" by (simp add: pad5_def)
  then have "hd (pad5 n) \<in> set (pad5 n)" by simp
  then have "hd (pad5 n) = digitChar 0 \<or> hd (pad5 n) \<in> set (decimal n)" by (auto simp: pad5_def)
  then obtain d where d: "d < 10" "hd (pad5 n) = digitChar d"
    using set_decimal [of "hd (pad5 n)" n] zero_less_numeral by metis
  have "digitVal (hd (pad5 n)) = Some d" using d by simp
  then show "hd (pad5 n) \<noteq> CHR ''-''" "hd (pad5 n) \<noteq> CHR ''+''" by (auto simp: digitVal_def)
qed

lemma segPath_inject [simp]: "segPath m = segPath n \<longleftrightarrow> m = n"
proof
  assume "segPath m = segPath n"
  then have "pad5 m = pad5 n" by (simp add: segPath_def)
  then have "Some m = Some n" unfolding digitsVal_pad5 [symmetric] by simp
  then show "m = n" by simp
qed simp

lemma segOf_segPath: "n < 2 ^ 63 \<Longrightarrow> segOf (segPath n) = Some (int n)"
proof -
  assume n: "n < 2 ^ 63"
  then have "int n < int (2 ^ 63)" by (rule of_nat_less_iff [THEN iffD2])
  then have "int n < 2 ^ 63" by simp
  then have "atoi (pad5 n) = Some (int n)"
    using hd_pad5 [of n] by (simp add: atoi_def digitsVal_pad5 Let_def)
  then show ?thesis by (simp add: segOf_def hasPrefixStr_def segPath_def)
qed

section \<open>Invariant\<close>

text \<open>
  \<open>gone\<close> are the entries of deleted segments, \<open>segs\<close> those of the sealed segments on disk and \<open>cur\<close> those
  since the last rotation (in the current file or still in the buffer).
\<close>

fun sealed_ok :: "(string \<times> bytes) list \<Rightarrow> CfKey list \<Rightarrow> sealedSeg list \<Rightarrow> CfKey list list \<Rightarrow> bool" where
  "sealed_ok fs gone [] [] = True"
| "sealed_ok fs gone (s # ss) (es # segs) =
     (ssPath s = segPath (ssIdx s) \<and> map_of fs (ssPath s) = Some (frames es)
      \<and> ssBoundary s = int (length (frames (gone @ es))) \<and> sealed_ok fs (gone @ es) ss segs)"
| "sealed_ok fs gone _ _ = False"

definition pending_ok :: "Writer \<Rightarrow> nat \<Rightarrow> CfKey list \<Rightarrow> bool" where
  "pending_ok w base cur \<longleftrightarrow> wSealBoundary w = -1
     \<or> (\<exists>n \<le> length cur. wSealBoundary w = int (base + length (frames (take n cur)))
          \<and> wOffset w \<le> length (frames (take n cur)))"

definition wal_files :: "nat \<Rightarrow> (string \<times> bytes) list \<Rightarrow> Writer \<Rightarrow> jdisk \<Rightarrow> bool" where
  "wal_files f0 old w d \<longleftrightarrow> jOpenFaults d = [] \<and> distinct (map fst (jFiles d)) \<and> f0 \<le> wSegIdx w
     \<and> sorted_wrt (<) (map ssIdx (wSealed w) @ [wSegIdx w]) \<and> (\<forall>s \<in> set (wSealed w). f0 \<le> ssIdx s)
     \<and> (\<forall>n \<ge> f0. n \<notin> ssIdx ` set (wSealed w) \<longrightarrow> n \<noteq> wSegIdx w \<longrightarrow> map_of (jFiles d) (segPath n) = None)
     \<and> (\<forall>p. (\<forall>n \<ge> f0. p \<noteq> segPath n) \<longrightarrow> map_of (jFiles d) p = map_of old p)"

definition wal_inv ::
  "nat \<Rightarrow> (string \<times> bytes) list \<Rightarrow> Writer \<Rightarrow> jdisk \<Rightarrow> CfKey list \<Rightarrow> CfKey list list \<Rightarrow> CfKey list \<Rightarrow> bool" where
  "wal_inv f0 old w d gone segs cur \<longleftrightarrow> wal_files f0 old w d \<and> wFile w = segPath (wSegIdx w)
     \<and> map_of (jFiles d) (wFile w) = Some (take (wOffset w) (frames cur)) \<and> wOffset w \<le> length (frames cur)
     \<and> wBuf w = drop (wOffset w) (frames cur)
     \<and> wBufPos w = length (frames (gone @ concat segs)) + wOffset w
     \<and> wLogicalEnd w = length (frames (gone @ concat segs @ cur))
     \<and> pending_ok w (length (frames (gone @ concat segs))) cur
     \<and> sealed_ok (jFiles d) gone (wSealed w) segs"

lemma writeBytes_append: "writeBytes c (length c) data = c @ data"
  by (simp add: writeBytes_def)

lemma takeFault_Nil [simp]: "takeFault [] = (False, [])"
  by (simp add: takeFault_def)

lemma sealed_ok_cong:
  "(\<And>s. s \<in> set ss \<Longrightarrow> map_of fs' (ssPath s) = map_of fs (ssPath s)) \<Longrightarrow>
     sealed_ok fs' gone ss segs = sealed_ok fs gone ss segs"
  by (induction fs gone ss segs rule: sealed_ok.induct) auto

lemma sealed_ok_snoc:
  "sealed_ok fs gone ss segs \<Longrightarrow> ssPath s = segPath (ssIdx s) \<Longrightarrow> map_of fs (ssPath s) = Some (frames es) \<Longrightarrow>
     ssBoundary s = int (length (frames (gone @ concat segs @ es))) \<Longrightarrow>
     sealed_ok fs gone (ss @ [s]) (segs @ [es])"
  by (induction fs gone ss segs rule: sealed_ok.induct) auto

lemma sealed_paths: "sealed_ok fs gone ss segs \<Longrightarrow> s \<in> set ss \<Longrightarrow> ssPath s = segPath (ssIdx s)"
  by (induction fs gone ss segs rule: sealed_ok.induct) auto

text \<open>Writing to the current file leaves the other files alone.\<close>

lemma WriteAt_cases:
  assumes "WriteAt path op data off d = (e, d')"
  obtains (fail) "e \<noteq> None" "jFiles d' = jFiles d" "jOpenFaults d' = jOpenFaults d"
  | (ok) "e = None" "jOpenFaults d' = jOpenFaults d"
      "\<And>c. map_of (jFiles d) path = Some c \<Longrightarrow> jFiles d' = AList.update path (writeBytes c off data) (jFiles d)"
  using assms by (auto simp: WriteAt_def Let_def split: prod.splits if_splits option.splits)

lemma wal_files_update:
  assumes "wal_files f0 old w d" "jFiles d' = AList.update (segPath (wSegIdx w)) c (jFiles d)"
    "jOpenFaults d' = jOpenFaults d" "wSegIdx w' = wSegIdx w" "wSealed w' = wSealed w"
  shows "wal_files f0 old w' d'"
  using assms by (auto simp: wal_files_def update_conv' distinct_update)

lemma wal_files_same:
  assumes "wal_files f0 old w d" "jFiles d' = jFiles d" "jOpenFaults d' = jOpenFaults d"
    "wSegIdx w' = wSegIdx w" "wSealed w' = wSealed w"
  shows "wal_files f0 old w' d'"
  using assms by (simp add: wal_files_def)

lemma sealed_not_current:
  assumes "wal_files f0 old w d" "sealed_ok fs gone (wSealed w) segs" "s \<in> set (wSealed w)"
  shows "ssPath s \<noteq> segPath (wSegIdx w)"
  using assms sealed_paths [OF assms(2,3)] by (auto simp: wal_files_def sorted_wrt_append)

section \<open>Draining keeps the invariant\<close>

text \<open>A successful write of the next \<open>k\<close> bytes of the buffer.\<close>

lemma write_some:
  assumes inv: "wal_inv f0 old w d gone segs cur" and k: "k \<le> length (wBuf w)"
    and wr: "WriteAt (wFile w) (wOpen w) (take k (wBuf w)) (wOffset w) d = (None, d')"
    and pd: "pending_ok (w\<lparr>wOffset := wOffset w + k\<rparr>) (length (frames (gone @ concat segs))) cur"
  shows "wal_inv f0 old (w\<lparr>wOffset := wOffset w + k, wBufPos := wBufPos w + k, wBuf := drop k (wBuf w)\<rparr>) d' gone segs cur"
proof -
  note i = inv [unfolded wal_inv_def]
  have fl: "wFile w = segPath (wSegIdx w)" using i by blast
  have c: "map_of (jFiles d) (wFile w) = Some (take (wOffset w) (frames cur))" using i by blast
  have ol: "wOffset w \<le> length (frames cur)" using i by blast
  then have lc: "length (take (wOffset w) (frames cur)) = wOffset w" by simp
  from wr show ?thesis
  proof (cases rule: WriteAt_cases)
    case ok
    have fs: "jFiles d' = AList.update (wFile w) (take (wOffset w) (frames cur) @ take k (wBuf w)) (jFiles d)"
      using ok(3) [OF c] writeBytes_append [of "take (wOffset w) (frames cur)"] lc by simp
    have bw: "wBuf w = drop (wOffset w) (frames cur)" using i by blast
    have nw: "take (wOffset w) (frames cur) @ take k (wBuf w) = take (wOffset w + k) (frames cur)"
      unfolding bw by (simp add: take_add)
    have so: "sealed_ok (jFiles d') gone (wSealed w) segs"
    proof (rule sealed_ok_cong [THEN iffD2])
      show "map_of (jFiles d') (ssPath s) = map_of (jFiles d) (ssPath s)" if "s \<in> set (wSealed w)" for s
        using sealed_not_current [of f0 old w d "jFiles d" gone segs s] i that by (auto simp: fs update_conv')
      show "sealed_ok (jFiles d) gone (wSealed w) segs" using i by blast
    qed
    have "wal_files f0 old (w\<lparr>wOffset := wOffset w + k, wBufPos := wBufPos w + k, wBuf := drop k (wBuf w)\<rparr>) d'"
      using wal_files_update [of f0 old w d d'] i fs fl ok(2) by simp
    moreover have "wOffset w + k \<le> length (frames cur)" using k ol bw by simp
    moreover have "drop k (wBuf w) = drop (wOffset w + k) (frames cur)" unfolding bw by (simp add: add.commute)
    ultimately show ?thesis
      using i so pd nw by (auto simp: wal_inv_def fs pending_ok_def update_conv')
  qed simp
qed

lemma write_failed:
  assumes "wal_inv f0 old w d gone segs cur" "jFiles d' = jFiles d" "jOpenFaults d' = jOpenFaults d"
  shows "wal_inv f0 old w d' gone segs cur"
  using assms wal_files_same [of f0 old w d d' w] by (auto simp: wal_inv_def)

lemma rotate_ok:
  assumes inv: "wal_inv f0 old w d gone segs cur"
    and n: "n \<le> length cur" "wSealBoundary w = int (length (frames (gone @ concat segs)) + length (frames (take n cur)))"
    and off: "wOffset w = length (frames (take n cur))"
  shows "\<exists>w' d'. rotate w d = (None, w', d') \<and> wal_inv f0 old w' d' gone (segs @ [take n cur]) (drop n cur)
    \<and> wSealBoundary w' = -1 \<and> wBuf w' = wBuf w \<and> wStopped w' = wStopped w \<and> wOnWal w' = wOnWal w"
proof -
  note i = inv [unfolded wal_inv_def]
  have wf: "wal_files f0 old w d" using i by blast
  have nf: "jOpenFaults d = []" "map_of (jFiles d) (segPath (Suc (wSegIdx w))) = None"
  proof -
    show "jOpenFaults d = []" using wf by (simp add: wal_files_def)
    have "Suc (wSegIdx w) \<notin> ssIdx ` set (wSealed w)"
      using wf by (auto simp: wal_files_def sorted_wrt_append)
    then show "map_of (jFiles d) (segPath (Suc (wSegIdx w))) = None" using wf by (simp add: wal_files_def)
  qed
  define s where "s = \<lparr>ssIdx = wSegIdx w, ssPath = segPath (wSegIdx w), ssBoundary = wSealBoundary w\<rparr>"
  define d' where "d' = d\<lparr>jFiles := AList.update (segPath (Suc (wSegIdx w))) [] (jFiles d)\<rparr>"
  define w' where "w' = w\<lparr>wOpen := True, wSealed := wSealed w @ [s], wSegIdx := Suc (wSegIdx w),
    wOnSeal := wOnSeal w @ [wSegIdx w], wFile := segPath (Suc (wSegIdx w)), wOffset := 0, wSealBoundary := -1\<rparr>"
  have "openSeg (Suc (wSegIdx w)) d = (Inr 0, d')"
    using nf by (simp add: openSeg_def d'_def)
  then have r: "rotate w d = (None, w', d')" by (simp add: rotate_def Let_def w'_def s_def)
  have sp: "frames cur = frames (take n cur) @ frames (drop n cur)"
    by (metis append_take_drop_id frames_simps(3))
  have cf: "map_of (jFiles d) (segPath (wSegIdx w)) = Some (frames (take n cur))" using i off sp by auto
  have mo: "map_of (jFiles d') p = (if p = segPath (Suc (wSegIdx w)) then Some [] else map_of (jFiles d) p)" for p
    by (simp add: d'_def update_conv')
  have lt: "\<forall>x \<in> set (wSealed w). ssIdx x < wSegIdx w" using wf by (auto simp: wal_files_def sorted_wrt_append)
  have pth: "ssPath x = segPath (ssIdx x)" if "x \<in> set (wSealed w)" for x
    using sealed_paths [OF _ that] i by blast
  have so: "sealed_ok (jFiles d') gone (wSealed w) segs"
  proof (rule sealed_ok_cong [THEN iffD2])
    show "map_of (jFiles d') (ssPath x) = map_of (jFiles d) (ssPath x)" if "x \<in> set (wSealed w)" for x
      using lt that pth [OF that] by (auto simp: mo)
    show "sealed_ok (jFiles d) gone (wSealed w) segs" using i by blast
  qed
  have so': "sealed_ok (jFiles d') gone (wSealed w @ [s]) (segs @ [take n cur])"
    by (rule sealed_ok_snoc [OF so]) (use cf n(2) in \<open>simp_all add: s_def mo\<close>)
  have "wal_files f0 old w' d'"
    unfolding wal_files_def
  proof (intro conjI allI impI)
    show "distinct (map fst (jFiles d'))" using wf by (simp add: wal_files_def d'_def distinct_update)
    show "sorted_wrt (<) (map ssIdx (wSealed w') @ [wSegIdx w'])"
      using wf lt by (auto simp: wal_files_def w'_def s_def sorted_wrt_append)
    show "map_of (jFiles d') p = map_of old p" if "\<forall>n \<ge> f0. p \<noteq> segPath n" for p
      using wf that by (auto simp: wal_files_def mo)
    show "map_of (jFiles d') (segPath m) = None"
      if "f0 \<le> m" "m \<notin> ssIdx ` set (wSealed w')" "m \<noteq> wSegIdx w'" for m
      using wf that by (auto simp: wal_files_def mo w'_def s_def)
  qed (use wf in \<open>auto simp: wal_files_def w'_def s_def d'_def\<close>)
  moreover have "wBuf w = frames (drop n cur)" using i off sp by simp
  ultimately have "wal_inv f0 old w' d' gone (segs @ [take n cur]) (drop n cur)"
    using i so' off sp by (simp add: wal_inv_def w'_def mo pending_ok_def)
  then show ?thesis using r by (simp add: w'_def)
qed

text \<open>What draining may change: the segmentation, never the entries.\<close>

definition same_log :: "CfKey list list \<Rightarrow> CfKey list \<Rightarrow> CfKey list list \<Rightarrow> CfKey list \<Rightarrow> bool" where
  "same_log segs cur segs' cur' \<longleftrightarrow> concat segs' @ cur' = concat segs @ cur"

lemma sealStep_ok:
  assumes inv: "wal_inv f0 old w d gone segs cur" and b: "0 \<le> wSealBoundary w" and r: "sealStep w d = (e, w', d')"
  shows "\<exists>segs' cur'. wal_inv f0 old w' d' gone segs' cur' \<and> same_log segs cur segs' cur'
    \<and> wStopped w' = wStopped w \<and> wOnWal w' = wOnWal w"
proof -
  note i = inv [unfolded wal_inv_def]
  let ?B = "length (frames (gone @ concat segs))"
  obtain n where n: "n \<le> length cur" "wSealBoundary w = int (?B + length (frames (take n cur)))"
    "wOffset w \<le> length (frames (take n cur))"
    using i b unfolding pending_ok_def by auto
  have bp: "wBufPos w = ?B + wOffset w" using i by blast
  define k where "k = length (frames (take n cur)) - wOffset w"
  have sp: "frames cur = frames (take n cur) @ frames (drop n cur)"
    by (metis append_take_drop_id frames_simps(3))
  have bw: "wBuf w = drop (wOffset w) (frames cur)" using i by blast
  have kb: "k \<le> length (wBuf w)" unfolding bw sp k_def by simp
  have split: "(if wSealBoundary w > int (wBufPos w)
      then min (nat (wSealBoundary w - int (wBufPos w))) (length (wBuf w)) else 0) = k"
    using n(2,3) bp kb by (auto simp: k_def min_def)
  have pd: "pending_ok (w\<lparr>wOffset := wOffset w + k\<rparr>) ?B cur"
    using n unfolding pending_ok_def by (auto simp: k_def)
  have step: "sealStep w d = (case writeSplit k w d of
      (Some e, w1, d1) \<Rightarrow> (Some e, w1, d1)
    | (None, w1, d1) \<Rightarrow> if int (wBufPos w1) \<ge> wSealBoundary w1 then rotate w1 d1 else (None, w1, d1))"
    unfolding sealStep_def split Let_def ..
  have fin: ?thesis if iv: "wal_inv f0 old w1 d1 gone segs cur" and w1: "wOffset w1 = length (frames (take n cur))"
    "wSealBoundary w1 = wSealBoundary w" "wStopped w1 = wStopped w" "wOnWal w1 = wOnWal w"
    and ws: "writeSplit k w d = (None, w1, d1)" for w1 d1
  proof -
    have "wBufPos w1 = ?B + length (frames (take n cur))" using iv w1(1) unfolding wal_inv_def by simp
    then have "rotate w1 d1 = (e, w', d')" using r n(2) w1(2) unfolding step ws by simp
    then show ?thesis
      using rotate_ok [OF iv n(1)] n(2) w1 by (auto simp: same_log_def intro!: exI [of _ "drop n cur"])
  qed
  show ?thesis
  proof (cases "k = 0")
    case True
    then show ?thesis using fin [OF inv] n(3) by (simp add: writeSplit_def k_def)
  next
    case False
    obtain e1 d1 where wr: "WriteAt (wFile w) (wOpen w) (take k (wBuf w)) (wOffset w) d = (e1, d1)" by fastforce
    show ?thesis
    proof (cases e1)
      case None
      let ?w = "w\<lparr>wOffset := wOffset w + k, wBufPos := wBufPos w + k, wBuf := drop k (wBuf w)\<rparr>"
      have "wal_inv f0 old ?w d1 gone segs cur" using write_some [OF inv kb _ pd] wr None by simp
      moreover have "writeSplit k w d = (None, ?w, d1)" using False wr None by (simp add: writeSplit_def)
      ultimately show ?thesis using fin [of ?w d1] n(3) by (simp add: k_def)
    next
      case (Some x)
      then have "sealStep w d = (Some x, w, d1)" using False wr by (simp add: step writeSplit_def)
      moreover have "jFiles d1 = jFiles d" "jOpenFaults d1 = jOpenFaults d"
        using wr Some by (auto elim: WriteAt_cases)
      ultimately show ?thesis
        using write_failed [OF inv] r by (auto simp: same_log_def)
    qed
  qed
qed

lemma drainLocked_ok:
  "wal_inv f0 old w d gone segs cur \<Longrightarrow> drainLocked w d = (e, w', d') \<Longrightarrow>
     \<exists>segs' cur'. wal_inv f0 old w' d' gone segs' cur' \<and> same_log segs cur segs' cur'
       \<and> wStopped w' = wStopped w \<and> wOnWal w' = wOnWal w"
proof (induction w d arbitrary: segs cur rule: drainLocked.induct)
  case (1 w d)
  show ?case
  proof (cases "0 \<le> wSealBoundary w")
    case True
    obtain e1 w1 d1 where s: "sealStep w d = (e1, w1, d1)" using prod_cases3 by blast
    obtain segs1 cur1 where i1: "wal_inv f0 old w1 d1 gone segs1 cur1" "same_log segs cur segs1 cur1"
      "wStopped w1 = wStopped w" "wOnWal w1 = wOnWal w"
      using sealStep_ok [OF "1.prems"(1) True s] by blast
    show ?thesis
    proof (cases "e1 = None \<and> wBuf w1 \<noteq> []")
      case rec: True
      then have "drainLocked w1 d1 = (e, w', d')"
        using "1.prems"(2) True s by (subst (asm) drainLocked.simps) simp
      then obtain segs2 cur2 where "wal_inv f0 old w' d' gone segs2 cur2" "same_log segs1 cur1 segs2 cur2"
        "wStopped w' = wStopped w1" "wOnWal w' = wOnWal w1"
        using "1.IH" [OF True, of e1 "(w1, d1)" w1 d1] s rec i1(1) by fastforce
      then show ?thesis using i1 by (auto simp: same_log_def)
    next
      case False
      then have "(e, w', d') = (e1, w1, d1)"
        using "1.prems"(2) True s by (subst (asm) drainLocked.simps) (auto split: option.splits)
      then show ?thesis using i1 by blast
    qed
  next
    case neg: False
    show ?thesis
    proof (cases "wBuf w = []")
      case True
      then have "(e, w', d') = (None, w, d)"
        using "1.prems"(2) neg by (subst (asm) drainLocked.simps) simp
      then show ?thesis using "1.prems"(1) by (auto simp: same_log_def)
    next
      case False
      obtain e1 d1 where wr: "WriteAt (wFile w) (wOpen w) (take (length (wBuf w)) (wBuf w)) (wOffset w) d = (e1, d1)"
        by fastforce
      let ?w = "w\<lparr>wOffset := wOffset w + length (wBuf w), wBufPos := wBufPos w + length (wBuf w),
                wBuf := drop (length (wBuf w)) (wBuf w)\<rparr>"
      have dr: "(e, w', d') = (case e1 of Some x \<Rightarrow> (Some x, w, d1) | None \<Rightarrow> (None, ?w, d1))"
        using "1.prems"(2) neg False wr by (subst (asm) drainLocked.simps) (auto split: option.splits)
      show ?thesis
      proof (cases e1)
        case None
        have "pending_ok (w\<lparr>wOffset := wOffset w + length (wBuf w)\<rparr>) (length (frames (gone @ concat segs))) cur"
          using "1.prems"(1) neg unfolding wal_inv_def pending_ok_def by auto
        then have "wal_inv f0 old ?w d1 gone segs cur"
          using write_some [OF "1.prems"(1) order_refl] wr None by simp
        then show ?thesis using dr None by (auto simp: same_log_def)
      next
        case (Some x)
        moreover have "jFiles d1 = jFiles d" "jOpenFaults d1 = jOpenFaults d"
          using wr Some by (auto elim: WriteAt_cases)
        ultimately show ?thesis using write_failed [OF "1.prems"(1)] dr by (auto simp: same_log_def)
      qed
    qed
  qed
qed

section \<open>Deleting covered segments\<close>

lemma remove_first:
  assumes inv: "wal_inv f0 old w d gone segs cur" and ss: "wSealed w = s # ss"
    and rm: "RemoveFile (ssPath s) d = (None, d')"
  shows "\<exists>es segs'. segs = es # segs' \<and> ssBoundary s = int (length (frames (gone @ es)))
    \<and> wal_inv f0 old (w\<lparr>wSealed := ss\<rparr>) d' (gone @ es) segs' cur"
proof -
  note i = inv [unfolded wal_inv_def]
  have so: "sealed_ok (jFiles d) gone (s # ss) segs" using i ss by metis
  then obtain es segs' where e: "segs = es # segs'" by (cases segs) auto
  have so': "sealed_ok (jFiles d) (gone @ es) ss segs'" and b: "ssBoundary s = int (length (frames (gone @ es)))"
    and p: "ssPath s = segPath (ssIdx s)"
    using so e by auto
  have fs: "jFiles d' = AList.delete (ssPath s) (jFiles d)" "jOpenFaults d' = jOpenFaults d"
    using rm by (auto simp: RemoveFile_def Let_def split: prod.splits if_splits)
  have wf: "wal_files f0 old w d" using i by blast
  have lt: "\<forall>x \<in> set ss. ssIdx s < ssIdx x" "ssIdx s < wSegIdx w" "f0 \<le> ssIdx s"
    using wf ss by (auto simp: wal_files_def)
  have mo: "map_of (jFiles d') q = (if q = segPath (ssIdx s) then None else map_of (jFiles d) q)" for q
    by (simp add: fs p delete_conv')
  have so2: "sealed_ok (jFiles d') (gone @ es) ss segs'"
  proof (rule sealed_ok_cong [THEN iffD2])
    show "map_of (jFiles d') (ssPath x) = map_of (jFiles d) (ssPath x)" if "x \<in> set ss" for x
      using lt(1) that sealed_paths [OF so' that] by (auto simp: mo)
  qed (rule so')
  have "wal_files f0 old (w\<lparr>wSealed := ss\<rparr>) d'"
    unfolding wal_files_def
  proof (intro conjI allI impI)
    show "distinct (map fst (jFiles d'))" using wf by (simp add: wal_files_def fs distinct_delete)
    show "map_of (jFiles d') p = map_of old p" if "\<forall>n \<ge> f0. p \<noteq> segPath n" for p
      using wf that lt(3) by (auto simp: wal_files_def mo)
    show "map_of (jFiles d') (segPath m) = None"
      if "f0 \<le> m" "m \<notin> ssIdx ` set (wSealed (w\<lparr>wSealed := ss\<rparr>))" "m \<noteq> wSegIdx (w\<lparr>wSealed := ss\<rparr>)" for m
      using wf that ss by (auto simp: wal_files_def mo)
  qed (use wf ss fs in \<open>auto simp: wal_files_def\<close>)
  then have "wal_inv f0 old (w\<lparr>wSealed := ss\<rparr>) d' (gone @ es) segs' cur"
    using i e so2 lt(2) by (auto simp: wal_inv_def mo pending_ok_def)
  then show ?thesis using e b by blast
qed

lemma deleteSegs_ok:
  "wal_inv f0 old w d gone segs cur \<Longrightarrow> deleteSegs durable (wSealed w) d = (ss, d') \<Longrightarrow>
     \<exists>gone' segs'. wal_inv f0 old (w\<lparr>wSealed := ss\<rparr>) d' gone' segs' cur \<and> gone' @ concat segs' = gone @ concat segs
       \<and> (gone' = gone \<or> int (length (frames gone')) \<le> durable)"
proof (induction "wSealed w" arbitrary: w d gone segs)
  case Nil
  then show ?case by (auto simp: wal_inv_def wal_files_def pending_ok_def intro!: exI [of _ gone] exI [of _ segs])
next
  case (Cons s rest)
  have stay: ?case if "ss = s # rest" "jFiles d' = jFiles d" "jOpenFaults d' = jOpenFaults d"
  proof -
    have "w\<lparr>wSealed := ss\<rparr> = w" using that(1) Cons.hyps(2) by simp
    then show ?thesis using write_failed [OF Cons.prems(1) that(2,3)] by auto
  qed
  show ?case
  proof (cases "ssBoundary s \<le> durable")
    case False
    then show ?thesis using stay Cons.prems(2) Cons.hyps(2) [symmetric] by auto
  next
    case True
    obtain e1 d1 where rm: "RemoveFile (ssPath s) d = (e1, d1)" by fastforce
    show ?thesis
    proof (cases e1)
      case (Some x)
      moreover have "jFiles d1 = jFiles d" "jOpenFaults d1 = jOpenFaults d"
        using rm Some by (auto simp: RemoveFile_def Let_def split: prod.splits if_splits)
      ultimately show ?thesis using stay Cons.prems(2) Cons.hyps(2) [symmetric] True rm by auto
    next
      case None
      let ?w = "w\<lparr>wSealed := rest\<rparr>"
      obtain es segs1 where r: "segs = es # segs1" "ssBoundary s = int (length (frames (gone @ es)))"
        "wal_inv f0 old ?w d1 (gone @ es) segs1 cur"
        using remove_first [OF Cons.prems(1) Cons.hyps(2) [symmetric]] rm None by blast
      have "deleteSegs durable (wSealed ?w) d1 = (ss, d')"
        using Cons.prems(2) Cons.hyps(2) [symmetric] True rm None by simp
      then obtain gone' segs' where "wal_inv f0 old (?w\<lparr>wSealed := ss\<rparr>) d' gone' segs' cur"
        "gone' @ concat segs' = (gone @ es) @ concat segs1" "gone' = gone @ es \<or> int (length (frames gone')) \<le> durable"
        using Cons.hyps(1) [of ?w] r(3) by fastforce
      then show ?thesis using r(1,2) True by (intro exI [of _ gone'] exI [of _ segs']) auto
    qed
  qed
qed

section \<open>Every run keeps the log\<close>

datatype wal_op = OpSink "CfKey list" | OpSeal | OpDrain | OpTick int | OpStop | OpSnapshot

fun walExec :: "wal_op \<Rightarrow> Writer \<times> jdisk \<Rightarrow> Writer \<times> jdisk" where
  "walExec (OpSink es) (w, d) = Sink es w d"
| "walExec OpSeal (w, d) = (snd (Seal w), d)"
| "walExec OpDrain (w, d) = snd (Drain w d)"
| "walExec (OpTick durable) (w, d) = walTick durable w d"
| "walExec OpStop (w, d) = Stop w d"
| "walExec OpSnapshot (w, d) = snd (SnapshotLocked w d)"

text \<open>The entries a run accepts, and the largest durable position it was told.\<close>

fun accepted :: "wal_op \<Rightarrow> Writer \<Rightarrow> CfKey list" where
  "accepted (OpSink es) w = (if wStopped w then [] else es)"
| "accepted _ w = []"

fun walRun :: "wal_op list \<Rightarrow> Writer \<times> jdisk \<Rightarrow> (Writer \<times> jdisk) \<times> CfKey list" where
  "walRun [] s = (s, [])"
| "walRun (x # xs) s = (let (s', es) = walRun xs (walExec x s) in (s', accepted x (fst s) @ es))"

fun durables :: "wal_op list \<Rightarrow> int set" where
  "durables [] = {}"
| "durables (OpTick t # xs) = insert t (durables xs)"
| "durables (_ # xs) = durables xs"

definition log_of :: "nat \<Rightarrow> (string \<times> bytes) list \<Rightarrow> int set \<Rightarrow> Writer \<times> jdisk \<Rightarrow> CfKey list \<Rightarrow> bool" where
  "log_of f0 old ts s es \<longleftrightarrow> (\<exists>gone segs cur. wal_inv f0 old (fst s) (snd s) gone segs cur
     \<and> es = gone @ concat segs @ cur \<and> concat (wOnWal (fst s)) = frames es
     \<and> (gone = [] \<or> (\<exists>t \<in> ts. int (length (frames gone)) \<le> t)))"

lemma log_ofI:
  "wal_inv f0 old w d gone segs cur \<Longrightarrow> es = gone @ concat segs @ cur \<Longrightarrow> concat (wOnWal w) = frames es \<Longrightarrow>
     gone = [] \<or> (\<exists>t \<in> ts. int (length (frames gone)) \<le> t) \<Longrightarrow> log_of f0 old ts (w, d) es"
  unfolding log_of_def fst_conv snd_conv by blast

lemma pending_ok_cong:
  "wSealBoundary w' = wSealBoundary w \<Longrightarrow> wOffset w' = wOffset w \<Longrightarrow> pending_ok w' base cur = pending_ok w base cur"
  by (simp add: pending_ok_def)

lemma drain_log:
  assumes "log_of f0 old ts (w, d) es" "drainLocked w d = (e, w', d')"
  shows "log_of f0 old ts (w', d') es"
proof -
  obtain gone segs cur where l: "wal_inv f0 old w d gone segs cur" "es = gone @ concat segs @ cur"
    "concat (wOnWal w) = frames es" "gone = [] \<or> (\<exists>t \<in> ts. int (length (frames gone)) \<le> t)"
    using assms(1) unfolding log_of_def fst_conv snd_conv by blast
  obtain segs' cur' where "wal_inv f0 old w' d' gone segs' cur'" "same_log segs cur segs' cur'"
    "wOnWal w' = wOnWal w"
    using drainLocked_ok [OF l(1) assms(2)] by blast
  then show ?thesis using l by (intro log_ofI [of f0 old w' d' gone segs' cur']) (simp_all add: same_log_def)
qed

lemma log_of_flags [simp]:
  "log_of f0 old ts (w\<lparr>wStopped := b\<rparr>, d) es = log_of f0 old ts (w, d) es"
  "log_of f0 old ts (w\<lparr>wOpen := b\<rparr>, d) es = log_of f0 old ts (w, d) es"
  by (simp_all add: log_of_def wal_inv_def wal_files_def pending_ok_def)

lemma pending_ok_append: "pending_ok w base cur \<Longrightarrow> pending_ok w base (cur @ xs)"
  unfolding pending_ok_def
proof (elim disjE exE conjE)
  fix n assume "n \<le> length cur" "wSealBoundary w = int (base + length (frames (take n cur)))"
    "wOffset w \<le> length (frames (take n cur))"
  then show "wSealBoundary w = -1 \<or> (\<exists>n \<le> length (cur @ xs).
      wSealBoundary w = int (base + length (frames (take n (cur @ xs)))) \<and> wOffset w \<le> length (frames (take n (cur @ xs))))"
    by (intro disjI2 exI [of _ n]) simp
qed simp

lemma walExec_log:
  assumes l: "log_of f0 old ts (w, d) es" and ts: "ts \<subseteq> ts'" "\<And>t. x = OpTick t \<Longrightarrow> t \<in> ts'"
  shows "log_of f0 old ts' (walExec x (w, d)) (es @ accepted x w)"
proof -
  obtain gone segs cur where i: "wal_inv f0 old w d gone segs cur" "es = gone @ concat segs @ cur"
    "concat (wOnWal w) = frames es" "gone = [] \<or> (\<exists>t \<in> ts'. int (length (frames gone)) \<le> t)"
    using l ts(1) unfolding log_of_def by fastforce
  have l': "log_of f0 old ts' (w, d) es" using i by (auto simp: log_of_def)
  obtain e1 w1 d1 where dr: "drainLocked w d = (e1, w1, d1)" using prod_cases3 by blast
  note l1 = drain_log [OF l' dr]
  show ?thesis
  proof (cases x)
    case (OpSink xs)
    show ?thesis
    proof (cases "wStopped w")
      case True
      then show ?thesis using OpSink l' by (simp add: Sink_def)
    next
      case False
      define w2 where "w2 = w\<lparr>wBuf := wBuf w @ frames xs, wLogicalEnd := wLogicalEnd w + length (frames xs),
        wOnWal := (if frames xs \<noteq> [] then wOnWal w @ [frames xs] else wOnWal w)\<rparr>"
      have "pending_ok w2 (length (frames (gone @ concat segs))) (cur @ xs)"
        using i(1) pending_ok_append [of w _ cur xs] pending_ok_cong [of w2 w]
        by (simp add: wal_inv_def w2_def)
      then have "wal_inv f0 old w2 d gone segs (cur @ xs)"
        using i(1) by (auto simp: wal_inv_def w2_def wal_files_def)
      moreover have "concat (wOnWal w2) = frames (es @ xs)" using i(3) by (simp add: w2_def)
      ultimately have "log_of f0 old ts' (w2, d) (es @ xs)"
        using i(2,4) by (intro log_ofI [of f0 old w2 d gone segs "cur @ xs"]) simp_all
      moreover obtain e3 w3 d3 where "drainLocked w2 d = (e3, w3, d3)" using prod_cases3 by blast
      ultimately show ?thesis
        using drain_log [of f0 old ts' w2 d "es @ xs"] OpSink False by (simp add: Sink_def Let_def w2_def)
    qed
  next
    case OpSeal
    have "wOffset w \<le> length (frames cur)" using i(1) by (simp add: wal_inv_def)
    then have "wal_inv f0 old (snd (Seal w)) d gone segs cur"
      using i(1) by (auto simp: wal_inv_def Seal_def wal_files_def pending_ok_def intro!: exI [of _ "length cur"])
    then show ?thesis
      using i OpSeal by (auto simp: log_of_def Seal_def)
  next
    case OpDrain
    then show ?thesis using l1 dr by (simp add: Drain_def)
  next
    case (OpTick t)
    show ?thesis
    proof (cases "wStopped w")
      case True
      then show ?thesis using OpTick l' by (simp add: walTick_def)
    next
      case False
      obtain g sg cr where j: "wal_inv f0 old w1 d1 g sg cr" "es = g @ concat sg @ cr" "concat (wOnWal w1) = frames es"
        "g = [] \<or> (\<exists>t \<in> ts'. int (length (frames g)) \<le> t)"
        using l1 unfolding log_of_def fst_conv snd_conv by blast
      obtain ss d2 where ds: "deleteSegs t (wSealed w1) d1 = (ss, d2)" by fastforce
      obtain g' sg' where "wal_inv f0 old (w1\<lparr>wSealed := ss\<rparr>) d2 g' sg' cr" "g' @ concat sg' = g @ concat sg"
        "g' = g \<or> int (length (frames g')) \<le> t"
        using deleteSegs_ok [OF j(1) ds] by blast
      then have "log_of f0 old ts' (w1\<lparr>wSealed := ss\<rparr>, d2) es"
        using j ts(2) [OF OpTick] by (intro log_ofI [of f0 old _ d2 g' sg' cr]) auto
      then show ?thesis using OpTick False dr ds by (simp add: walTick_def deleteDurable_def)
    qed
  next
    case OpStop
    show ?thesis
    proof (cases "wStopped w")
      case False
      have "log_of f0 old ts' (w\<lparr>wStopped := True\<rparr>, d) es" using l' by simp
      moreover obtain e3 w3 d3 where d3: "drainLocked (w\<lparr>wStopped := True\<rparr>) d = (e3, w3, d3)" using prod_cases3 by blast
      ultimately have "log_of f0 old ts' (w3, d3) es" by (rule drain_log)
      then show ?thesis using OpStop False d3 by (simp add: Stop_def)
    qed (use OpStop l' in \<open>simp add: Stop_def\<close>)
  next
    case OpSnapshot
    then show ?thesis using l1 dr by (simp add: SnapshotLocked_def Let_def)
  qed
qed

lemma walRun_log:
  "log_of f0 old ts s es \<Longrightarrow> walRun xs s = (s', new) \<Longrightarrow> log_of f0 old (ts \<union> durables xs) s' (es @ new)"
proof (induction xs arbitrary: s es ts new)
  case (Cons x xs)
  obtain w d where s: "s = (w, d)" by fastforce
  obtain new' where r: "walRun xs (walExec x s) = (s', new')" "new = accepted x w @ new'"
    using Cons.prems(2) s by (auto split: prod.splits)
  let ?ts = "ts \<union> durables [x]"
  have u: "ts \<union> durables (x # xs) = ?ts \<union> durables xs" by (cases x) auto
  have "log_of f0 old ?ts (walExec x s) (es @ accepted x w)"
    unfolding s by (rule walExec_log [OF Cons.prems(1) [unfolded s]]) auto
  from Cons.IH [OF this r(1)] show ?case unfolding u r(2) append_assoc .
qed simp

text \<open>
  A directory the log can attach to: names are distinct, no two segment files have the same number, and
  numbers stay far below the 64-bit limit.
\<close>

definition sane_dir :: "(string \<times> bytes) list \<Rightarrow> bool" where
  "sane_dir fs \<longleftrightarrow> distinct (map fst fs) \<and> distinct (List.map_filter segOf (map fst fs))
     \<and> (\<forall>i \<in> set (List.map_filter segOf (map fst fs)). i < 2 ^ 62)
     \<and> (\<forall>n \<ge> 2 ^ 62. map_of fs (segPath n) = None)"

lemma fold_max: "fold max xs (a :: int) = Max (insert a (set xs))"
  by (metis Max.set_eq_fold fold_simps(2) list.simps(15) max.commute)

lemma set_map_filter: "i \<in> set (List.map_filter f xs) \<longleftrightarrow> (\<exists>x \<in> set xs. f x = Some i)"
  by (induction xs) (auto simp: map_filter_simps split: option.splits)

lemma maxSeg_ge: "segOf n = Some i \<Longrightarrow> map_of fs n \<noteq> None \<Longrightarrow> i \<le> maxSeg fs"
proof -
  assume "segOf n = Some i" "map_of fs n \<noteq> None"
  then have "i \<in> set (List.map_filter segOf (map fst fs))"
    by (auto simp: set_map_filter map_of_eq_None_iff)
  then show ?thesis by (simp add: maxSeg_def fold_max)
qed

lemma Attach_fresh:
  assumes "sane_dir fs" "nat (maxSeg fs + 1) \<le> n"
  shows "map_of fs (segPath n) = None"
proof (cases "n < 2 ^ 62")
  case True
  have "-1 \<le> maxSeg fs" by (simp add: maxSeg_def fold_max)
  moreover have "segOf (segPath n) = Some (int n)" using True by (intro segOf_segPath) simp
  ultimately show ?thesis using maxSeg_ge [of "segPath n" "int n" fs] assms(2) by fastforce
next
  case False
  then show ?thesis using assms(1) by (simp add: sane_dir_def)
qed

lemma Attach_log:
  assumes sane: "sane_dir (jFiles d)" and nf: "jOpenFaults d = []" and at: "Attach d = (Inr w, d')"
  shows "log_of (nat (maxSeg (jFiles d) + 1)) (jFiles d) {} (w, d') []" "wStopped w = False"
proof -
  let ?f = "nat (maxSeg (jFiles d) + 1)"
  have none: "map_of (jFiles d) (segPath n) = None" if "?f \<le> n" for n by (rule Attach_fresh [OF sane that])
  have o: "openSeg ?f d = (Inr 0, d\<lparr>jFiles := AList.update (segPath ?f) [] (jFiles d)\<rparr>)"
    using none [of ?f] nf by (simp add: openSeg_def)
  have w: "wSegIdx w = ?f" "wFile w = segPath ?f" "wOffset w = 0" "wBuf w = []" "wBufPos w = 0" "wLogicalEnd w = 0"
    "wSealBoundary w = -1" "wSealed w = []" "wStopped w = False" "wOnWal w = []"
    and d': "d' = d\<lparr>jFiles := AList.update (segPath ?f) [] (jFiles d)\<rparr>"
    using at unfolding Attach_def Let_def o by auto
  have "distinct (map fst (jFiles d))" using sane by (simp add: sane_dir_def)
  then have "wal_files ?f (jFiles d) w d'"
    using none nf w unfolding wal_files_def d' by (auto simp: distinct_update update_conv')
  then have "wal_inv ?f (jFiles d) w d' [] [] []"
    using w unfolding wal_inv_def by (simp add: d' update_conv' pending_ok_def)
  then show "log_of ?f (jFiles d) {} (w, d') []" using w by (intro log_ofI [of _ _ w d' "[]" "[]" "[]"]) simp_all
  show "wStopped w = False" by (rule w)
qed

lemma sealed_files: "sealed_ok fs gone ss segs \<Longrightarrow> map (\<lambda>s. map_of fs (ssPath s)) ss = map (\<lambda>es. Some (frames es)) segs"
  by (induction fs gone ss segs rule: sealed_ok.induct) auto

text \<open>C18. No run of the log loses, reorders or splits a record, whatever writes and removals fail: the entries
  accepted since the log was attached are those of deleted segments, then those of the sealed segments (each
  file holding whole records), then those of the current segment, whose bytes are in the file up to the write
  offset and in the buffer after it. The bytes broadcast to followers are the same stream, and segments are
  deleted only below a position reported durable.\<close>

theorem wal_log_intact:
  assumes "sane_dir (jFiles d)" "jOpenFaults d = []" "Attach d = (Inr w0, d0)"
    and "walRun ops (w0, d0) = ((w, d'), es)"
  shows "\<exists>gone segs cur. es = gone @ concat segs @ cur
    \<and> map (\<lambda>s. map_of (jFiles d') (ssPath s)) (wSealed w) = map (\<lambda>es. Some (frames es)) segs
    \<and> map_of (jFiles d') (wFile w) = Some (take (wOffset w) (frames cur)) \<and> wBuf w = drop (wOffset w) (frames cur)
    \<and> concat (wOnWal w) = frames es
    \<and> (gone = [] \<or> (\<exists>t \<in> durables ops. int (length (frames gone)) \<le> t))"
proof -
  have "log_of (nat (maxSeg (jFiles d) + 1)) (jFiles d) ({} \<union> durables ops) (w, d') ([] @ es)"
    by (rule walRun_log [OF Attach_log(1) [OF assms(1-3)] assms(4)])
  then obtain gone segs cur where l: "wal_inv (nat (maxSeg (jFiles d) + 1)) (jFiles d) w d' gone segs cur"
    "es = gone @ concat segs @ cur" "concat (wOnWal w) = frames es"
    "gone = [] \<or> (\<exists>t \<in> durables ops. int (length (frames gone)) \<le> t)"
    unfolding log_of_def fst_conv snd_conv append_Nil Un_empty_left by blast
  have "map (\<lambda>s. map_of (jFiles d') (ssPath s)) (wSealed w) = map (\<lambda>es. Some (frames es)) segs"
    using l(1) sealed_files unfolding wal_inv_def by blast
  moreover have "map_of (jFiles d') (wFile w) = Some (take (wOffset w) (frames cur))" "wBuf w = drop (wOffset w) (frames cur)"
    using l(1) unfolding wal_inv_def by blast+
  ultimately show ?thesis using l(2-4) by blast
qed

definition demoDisk :: jdisk where
  "demoDisk = \<lparr>jFiles = [], jWriteFaults = [True], jOpenFaults = [], jRemoveFaults = []\<rparr>"

definition demoOps :: "wal_op list" where
  "demoOps = [OpSink [\<lparr>Cf = 0, CfKey_Key = [7]\<rparr>], OpSeal, OpSink [\<lparr>Cf = 1, CfKey_Key = [8]\<rparr>], OpTick 11]"

lemma sane_empty: "sane_dir []"
  by (simp add: sane_dir_def map_filter_simps)

lemma demo_attach: "\<exists>w0 d0. Attach demoDisk = (Inr w0, d0)"
  by (simp add: Attach_def openSeg_def demoDisk_def Let_def)

theorem wal_log_intact_witness:
  "\<exists>w0 d0 w d' es gone segs cur. Attach demoDisk = (Inr w0, d0) \<and> walRun demoOps (w0, d0) = ((w, d'), es)
    \<and> es = gone @ concat segs @ cur \<and> concat (wOnWal w) = frames es
    \<and> map (\<lambda>s. map_of (jFiles d') (ssPath s)) (wSealed w) = map (\<lambda>es. Some (frames es)) segs"
proof -
  obtain w0 d0 where a: "Attach demoDisk = (Inr w0, d0)" using demo_attach by blast
  obtain w d' es where r: "walRun demoOps (w0, d0) = ((w, d'), es)" by (metis surj_pair)
  have "sane_dir (jFiles demoDisk)" "jOpenFaults demoDisk = []" by (simp_all add: demoDisk_def sane_empty)
  from wal_log_intact [OF this a r] show ?thesis using a r by blast
qed

section \<open>Replay\<close>

text \<open>\<open>replayJournals\<close>: the legacy file, then the segments by number; each non-empty parse is one batch.\<close>

definition replayFiles :: "(string \<times> bytes) list \<Rightarrow> string list" where
  "replayFiles fs = (if map_of fs ''journal'' \<noteq> None then [''journal''] else []) @ listSegments fs"

definition fileData :: "(string \<times> bytes) list \<Rightarrow> string \<Rightarrow> bytes" where
  "fileData fs p = (case map_of fs p of Some c \<Rightarrow> c | None \<Rightarrow> [])"

definition replayBatches :: "(string \<times> bytes) list \<Rightarrow> CfKey list list" where
  "replayBatches fs =
     filter (\<lambda>b. b \<noteq> []) (map (\<lambda>p. ParseJournalRecords (fileData fs p))
        (filter (\<lambda>p. fileData fs p \<noteq> []) (replayFiles fs)))"

fun applyBatches :: "CfKey list list \<Rightarrow> MemTable \<times> uint64 \<Rightarrow> (MemTable \<times> uint64) result" where
  "applyBatches [] s = Inr s"
| "applyBatches (b # bs) s = rbind (Batch b (fst s)) (applyBatches bs)"

definition replayJournals :: "(string \<times> bytes) list \<Rightarrow> MemTable \<times> uint64 \<Rightarrow> (MemTable \<times> uint64) result" where
  "replayJournals fs s = applyBatches (replayBatches fs) s"

lemma Parse_Nil: "ParseJournalRecords [] = []"
  by (simp add: ParseJournalRecords_def parseLoop.simps)

lemma concat_replayBatches:
  "concat (replayBatches fs) = concat (map (\<lambda>p. ParseJournalRecords (fileData fs p)) (replayFiles fs))"
proof -
  have "concat (filter (\<lambda>b. b \<noteq> []) (map g (filter (\<lambda>p. f p \<noteq> []) ps))) = concat (map g ps)"
    if "\<And>p. f p = [] \<Longrightarrow> g p = []" for f :: "string \<Rightarrow> bytes" and g :: "string \<Rightarrow> CfKey list" and ps
    using that by (induction ps) auto
  then show ?thesis unfolding replayBatches_def by (simp add: Parse_Nil)
qed

definition segNum :: "string \<Rightarrow> int" where
  "segNum p = the (segOf p)"

lemma set_listSegments: "set (listSegments fs) = {p. p \<in> fst ` set fs \<and> segOf p \<noteq> None}"
  unfolding listSegments_def by (force simp: set_map_filter)

lemma sorted_listSegments: "sorted (map segNum (listSegments fs))"
proof -
  let ?L = "List.map_filter (\<lambda>n. map_option (\<lambda>i. (i, n)) (segOf n)) (map fst fs)"
  have "segNum (snd x) = fst x" if "x \<in> set ?L" for x
    using that by (auto simp: set_map_filter segNum_def)
  then have "map segNum (listSegments fs) = map fst (sort_key fst ?L)"
    unfolding listSegments_def by simp
  then show ?thesis by simp
qed

lemma distinct_listSegments:
  assumes "distinct (map fst fs)"
  shows "distinct (listSegments fs)"
proof -
  have "map snd (List.map_filter (\<lambda>n. map_option (\<lambda>i. (i, n)) (segOf n)) xs) = filter (\<lambda>n. segOf n \<noteq> None) xs" for xs
    by (induction xs) (auto simp: map_filter_simps split: option.splits)
  then have "distinct (map snd (List.map_filter (\<lambda>n. map_option (\<lambda>i. (i, n)) (segOf n)) (map fst fs)))"
    using assms by simp
  then show ?thesis unfolding listSegments_def
    by (metis (no_types, lifting) distinct_map distinct_sort set_sort)
qed

lemma listSegments_eqI:
  assumes "distinct (map fst fs)" "set xs = {p. p \<in> fst ` set fs \<and> segOf p \<noteq> None}"
    "sorted_wrt (<) (map segNum xs)"
  shows "listSegments fs = xs"
proof -
  let ?ys = "listSegments fs"
  have st: "set ?ys = set xs" using set_listSegments assms(2) by simp
  have "distinct (map segNum xs)" using assms(3) by (simp add: strict_sorted_iff)
  then have inj: "inj_on segNum (set xs)" by (simp add: distinct_map)
  then have "distinct (map segNum ?ys)" using distinct_listSegments [OF assms(1)] st by (simp add: distinct_map)
  then have "sorted_wrt (<) (map segNum ?ys)" using sorted_listSegments by (simp add: strict_sorted_iff)
  then have "map segNum ?ys = map segNum xs" using assms(3) st by (intro strict_sorted_equal) simp_all
  then show ?thesis using inj st by (metis inj_on_map_eq_map Un_absorb)
qed

lemma segOf_journal [simp]: "segOf ''journal'' = None"
  by (simp add: segOf_def hasPrefixStr_def)

lemma journal_not_seg [simp]: "''journal'' \<noteq> segPath n"
  by (simp add: segPath_def)

lemma sorted_old:
  assumes "sane_dir fs"
  shows "sorted_wrt (<) (map segNum (listSegments fs))"
proof -
  have d: "distinct (List.map_filter segOf (map fst fs))" "distinct (map fst fs)"
    using assms by (simp_all add: sane_dir_def)
  have mf: "List.map_filter segOf xs = map segNum (filter (\<lambda>p. segOf p \<noteq> None) xs)" for xs
    by (induction xs) (auto simp: map_filter_simps segNum_def split: option.splits)
  have "set (filter (\<lambda>p. segOf p \<noteq> None) (map fst fs)) = set (listSegments fs)"
    by (auto simp: set_listSegments)
  then have "inj_on segNum (set (listSegments fs))"
    using d(1) unfolding mf distinct_map by metis
  then have "distinct (map segNum (listSegments fs))"
    using distinct_listSegments [OF d(2)] by (simp add: distinct_map)
  then show ?thesis using sorted_listSegments by (simp add: strict_sorted_iff)
qed

text \<open>The files a session leaves: the old ones, the sealed ones, the current one.\<close>

lemma session_segments:
  assumes inv: "wal_inv f0 old w d gone segs cur" and sane: "sane_dir old" and f0: "f0 = nat (maxSeg old + 1)"
    and none: "\<And>n. f0 \<le> n \<Longrightarrow> map_of old (segPath n) = None" and lim: "wSegIdx w < 2 ^ 63"
  shows "listSegments (jFiles d) = listSegments old @ map ssPath (wSealed w) @ [wFile w]"
proof (rule listSegments_eqI)
  note i = inv [unfolded wal_inv_def]
  have wf: "wal_files f0 old w d" and cf: "wFile w = segPath (wSegIdx w)"
    and so: "sealed_ok (jFiles d) gone (wSealed w) segs" using i by blast+
  show "distinct (map fst (jFiles d))" using wf by (simp add: wal_files_def)
  have pth: "map ssPath (wSealed w) = map segPath (map ssIdx (wSealed w))"
    using sealed_paths [OF so] by simp
  let ?ns = "map ssIdx (wSealed w) @ [wSegIdx w]"
  have ns: "sorted_wrt (<) ?ns" "\<forall>n \<in> set ?ns. f0 \<le> n"
    using wf by (auto simp: wal_files_def)
  have lt: "\<forall>n \<in> set ?ns. n < 2 ^ 63" using ns(1) lim by (auto simp: sorted_wrt_append)
  have eq: "map ssPath (wSealed w) @ [wFile w] = map segPath ?ns" by (simp add: pth cf)
  have new: "map_of (jFiles d) (segPath n) \<noteq> None \<longleftrightarrow> n \<in> set ?ns" if "f0 \<le> n" for n
  proof
    show "n \<in> set ?ns" if "map_of (jFiles d) (segPath n) \<noteq> None"
      using wf that \<open>f0 \<le> n\<close> unfolding wal_files_def by auto
    show "map_of (jFiles d) (segPath n) \<noteq> None" if mem: "n \<in> set ?ns"
    proof (cases "n = wSegIdx w")
      case True
      then show ?thesis using i cf by auto
    next
      case False
      then obtain s where s: "s \<in> set (wSealed w)" "n = ssIdx s" using mem by auto
      have "map_of (jFiles d) (ssPath s) \<in> set (map (\<lambda>es. Some (frames es)) segs)"
        unfolding sealed_files [OF so, symmetric] using s(1) by simp
      then show ?thesis using s sealed_paths [OF so s(1)] by auto
    qed
  qed
  have dm: "p \<in> fst ` set fs \<longleftrightarrow> map_of fs p \<noteq> None" for p and fs :: "(string \<times> bytes) list"
    by (simp add: map_of_eq_None_iff)
  show "set (listSegments old @ map ssPath (wSealed w) @ [wFile w])
      = {p. p \<in> fst ` set (jFiles d) \<and> segOf p \<noteq> None}" (is "?A = ?B")
  proof (rule set_eqI)
    fix p
    show "p \<in> ?A \<longleftrightarrow> p \<in> ?B"
    proof (cases "\<exists>n \<ge> f0. p = segPath n")
      case True
      then obtain n where n: "f0 \<le> n" "p = segPath n" by blast
      have "p \<notin> set (listSegments old)" using none [OF n(1)] n(2) dm by (auto simp: set_listSegments)
      moreover have "p \<in> set (map segPath ?ns) \<longleftrightarrow> n \<in> set ?ns" using n(2) by (auto simp del: set_map) auto
      moreover have "n \<in> set ?ns \<Longrightarrow> segOf p \<noteq> None" using lt n(2) segOf_segPath by fastforce
      ultimately show ?thesis using new [OF n(1)] n(2) dm [of p "jFiles d"] unfolding set_append eq by auto
    next
      case False
      then have "map_of (jFiles d) p = map_of old p" using wf unfolding wal_files_def by blast
      moreover have "p \<notin> set (map segPath ?ns)" using False ns(2) by auto
      ultimately show ?thesis unfolding set_append eq by (auto simp: set_listSegments dm)
    qed
  qed
  have k: "segNum (segPath n) = int n" if "n \<in> set ?ns" for n
    unfolding segNum_def segOf_segPath [OF bspec [OF lt that]] by simp
  have mk: "map segNum (map segPath ?ns) = map int ?ns" using k by simp
  have old: "segNum p < int f0" if mem: "p \<in> set (listSegments old)" for p
  proof -
    obtain i where "segOf p = Some i" "map_of old p \<noteq> None" using mem dm by (auto simp: set_listSegments)
    then have "i \<le> maxSeg old" by (rule maxSeg_ge)
    then show ?thesis using f0 \<open>segOf p = Some i\<close> by (simp add: segNum_def)
  qed
  have "map segNum (listSegments old @ map ssPath (wSealed w) @ [wFile w])
      = map segNum (listSegments old) @ map int ?ns"
    unfolding eq mk [symmetric] by simp
  moreover have "sorted_wrt (<) (map int ?ns)" using ns(1) by (simp add: sorted_wrt_map del: map_append)
  moreover have "x < y" if "x \<in> set (map segNum (listSegments old))" "y \<in> set (map int ?ns)" for x y
    using that old ns(2) by fastforce
  ultimately show "sorted_wrt (<) (map segNum (listSegments old @ map ssPath (wSealed w) @ [wFile w]))"
    using sorted_old [OF sane] by (simp add: sorted_wrt_append del: map_append)
qed

lemma replay_sealed:
  "sealed_ok fs gone ss segs \<Longrightarrow> \<forall>e \<in> set (concat segs). journalable e \<Longrightarrow>
     concat (map (\<lambda>p. ParseJournalRecords (fileData fs p)) (map ssPath ss)) = filter (\<lambda>e. Cf e \<le> 3) (concat segs)"
proof (induction fs gone ss segs rule: sealed_ok.induct)
  case (2 fs gone s ss es segs)
  then show ?case using Parse_frames_tail [of es "[]"] by (auto simp: fileData_def)
qed auto

text \<open>The replay of a directory that a session has left with an empty buffer.\<close>

lemma replay_inv:
  assumes l: "wal_inv (nat (maxSeg old + 1)) old w d' gone segs cur" and sane: "sane_dir old"
    and j: "\<forall>e \<in> set (concat segs @ cur). journalable e" and b: "wBuf w = []" "wSegIdx w < 2 ^ 63"
  shows "concat (replayBatches (jFiles d')) = concat (replayBatches old) @ filter (\<lambda>e. Cf e \<le> 3) (concat segs @ cur)"
proof -
  let ?f = "nat (maxSeg old + 1)"
  note i = l [unfolded wal_inv_def]
  have none: "map_of old (segPath n) = None" if "?f \<le> n" for n by (rule Attach_fresh [OF sane that])
  note ls = session_segments [OF l sane refl none b(2)]
  have old: "map_of (jFiles d') p = map_of old p" if "\<forall>n \<ge> ?f. p \<noteq> segPath n" for p
    using i that unfolding wal_files_def by blast
  have oldp: "fileData (jFiles d') p = fileData old p" if "p \<in> set (replayFiles old)" for p
  proof -
    have "map_of old p \<noteq> None"
      using that by (auto simp: replayFiles_def set_listSegments map_of_eq_None_iff split: if_splits)
    then have "\<forall>n \<ge> ?f. p \<noteq> segPath n" using none by auto
    then show ?thesis using old by (simp add: fileData_def)
  qed
  have rf: "replayFiles (jFiles d') = replayFiles old @ map ssPath (wSealed w) @ [wFile w]"
    using old [of "''journal''"] by (simp add: replayFiles_def ls)
  have "take (wOffset w) (frames cur) = frames cur" using i b(1) by simp
  then have "fileData (jFiles d') (wFile w) = frames cur" using i by (auto simp: fileData_def)
  then have "ParseJournalRecords (fileData (jFiles d') (wFile w)) = filter (\<lambda>e. Cf e \<le> 3) cur"
    using Parse_frames_tail [of cur "[]"] j by simp
  moreover have "concat (map (\<lambda>p. ParseJournalRecords (fileData (jFiles d') p)) (map ssPath (wSealed w)))
      = filter (\<lambda>e. Cf e \<le> 3) (concat segs)"
    by (rule replay_sealed) (use i j in auto)
  moreover have "map (\<lambda>p. ParseJournalRecords (fileData (jFiles d') p)) (replayFiles old)
      = map (\<lambda>p. ParseJournalRecords (fileData old p)) (replayFiles old)"
    using oldp by simp
  ultimately show ?thesis
    unfolding concat_replayBatches rf map_append concat_append by (simp only: filter_append) simp
qed

text \<open>C6. Recovery is complete. Attach the log to a journal directory whose segment numbers are distinct and below \<open>2 ^ 62\<close>, and let it
  run in any way in which every open of a segment succeeds (writes and deletions may fail) and every accepted record has a
  column family of at most 63 and a key of less than 65536 bytes (a longer key is accepted and not replayed, see
  \<open>oversized_record_rejected\<close>). When the run ends with an empty buffer and a segment number below \<open>2 ^ 63\<close>, replaying the
  directory gives what it gave before the log was attached, followed by the entries with column family at most 3 of every
  accepted record that was not in a deleted segment, in the order they were accepted; and what was deleted lies before a
  position that was declared durable.\<close>

theorem wal_replay_complete:
  assumes "sane_dir (jFiles d)" "jOpenFaults d = []" "Attach d = (Inr w0, d0)"
    and "walRun ops (w0, d0) = ((w, d'), es)" "\<forall>e \<in> set es. journalable e" "wBuf w = []" "wSegIdx w < 2 ^ 63"
  shows "\<exists>gone kept. es = gone @ kept \<and> (gone = [] \<or> (\<exists>t \<in> durables ops. int (length (frames gone)) \<le> t))
    \<and> concat (replayBatches (jFiles d')) = concat (replayBatches (jFiles d)) @ filter (\<lambda>e. Cf e \<le> 3) kept"
proof -
  have "log_of (nat (maxSeg (jFiles d) + 1)) (jFiles d) ({} \<union> durables ops) (w, d') ([] @ es)"
    by (rule walRun_log [OF Attach_log(1) [OF assms(1-3)] assms(4)])
  then obtain gone segs cur where l: "wal_inv (nat (maxSeg (jFiles d) + 1)) (jFiles d) w d' gone segs cur"
    "es = gone @ concat segs @ cur" "gone = [] \<or> (\<exists>t \<in> durables ops. int (length (frames gone)) \<le> t)"
    unfolding log_of_def fst_conv snd_conv append_Nil Un_empty_left by blast
  moreover have "\<forall>e \<in> set (concat segs @ cur). journalable e" using assms(5) l(2) by simp
  note replay_inv [OF l(1) assms(1) this assms(6,7)]
  ultimately show ?thesis by blast
qed

lemma demo_result:
  "case Attach demoDisk of (Inl e, d0) \<Rightarrow> False
   | (Inr w0, d0) \<Rightarrow>
       (case walRun demoOps (w0, d0) of ((w, d'), es) \<Rightarrow>
          wBuf w = [] \<and> wSegIdx w = 1 \<and> es = [\<lparr>Cf = 0, CfKey_Key = [7]\<rparr>, \<lparr>Cf = 1, CfKey_Key = [8]\<rparr>])"
  by code_simp

theorem wal_replay_complete_witness:
  "\<exists>w0 d0 w d' gone kept. Attach demoDisk = (Inr w0, d0)
    \<and> walRun demoOps (w0, d0) = ((w, d'), [\<lparr>Cf = 0, CfKey_Key = [7]\<rparr>, \<lparr>Cf = 1, CfKey_Key = [8]\<rparr>])
    \<and> [\<lparr>Cf = 0, CfKey_Key = [7]\<rparr>, \<lparr>Cf = 1, CfKey_Key = [8]\<rparr>] = gone @ kept
    \<and> concat (replayBatches (jFiles d')) = filter (\<lambda>e. Cf e \<le> 3) kept"
proof -
  obtain w0 d0 where a: "Attach demoDisk = (Inr w0, d0)" using demo_attach by blast
  obtain w d' es where r: "walRun demoOps (w0, d0) = ((w, d'), es)" by (metis surj_pair)
  have v: "wBuf w = []" "wSegIdx w = 1" "es = [\<lparr>Cf = 0, CfKey_Key = [7]\<rparr>, \<lparr>Cf = 1, CfKey_Key = [8]\<rparr>]"
    using demo_result a r by simp_all
  have s: "sane_dir (jFiles demoDisk)" "jOpenFaults demoDisk = []" "jFiles demoDisk = []"
    by (simp_all add: demoDisk_def sane_empty)
  have "replayBatches [] = []" by (simp add: replayBatches_def replayFiles_def listSegments_def map_filter_simps)
  moreover have "\<forall>e \<in> set es. journalable e" using v(3) by (simp add: journalable_def maxJournalKeyLen_def)
  ultimately show ?thesis
    using wal_replay_complete [OF s(1,2) a r _ v(1)] v(2,3) s(3) a r by simp blast
qed

section \<open>A segment that was never opened\<close>

text \<open>What a drain may change: it creates files of later segments only and seals segments from the current one on.\<close>

definition fileNames :: "jdisk \<Rightarrow> string set" where
  "fileNames d = dom (map_of (jFiles d))"

definition seg_step :: "Writer \<times> jdisk \<Rightarrow> Writer \<times> jdisk \<Rightarrow> bool" where
  "seg_step s s' \<longleftrightarrow> wSegIdx (fst s) \<le> wSegIdx (fst s') \<and> fileNames (snd s) \<subseteq> fileNames (snd s')
     \<and> fileNames (snd s') \<subseteq> fileNames (snd s) \<union> {segPath i | i. wSegIdx (fst s) < i}
     \<and> (\<exists>more. wSealed (fst s') = wSealed (fst s) @ more
          \<and> (\<forall>t \<in> set more. ssPath t = segPath (ssIdx t) \<and> wSegIdx (fst s) \<le> ssIdx t \<and> ssIdx t < wSegIdx (fst s')))"

lemma seg_step_refl: "wSegIdx w' = wSegIdx w \<Longrightarrow> wSealed w' = wSealed w \<Longrightarrow> fileNames d' = fileNames d \<Longrightarrow> seg_step (w, d) (w', d')"
  by (simp add: seg_step_def)

lemma seg_step_names: "seg_step a b \<Longrightarrow> x \<in> fileNames (snd b) \<Longrightarrow> x \<in> fileNames (snd a) \<or> (\<exists>i > wSegIdx (fst a). x = segPath i)"
  unfolding seg_step_def by blast

lemma seg_step_trans:
  assumes "seg_step a b" "seg_step b c"
  shows "seg_step a c"
proof -
  obtain m n where m: "wSealed (fst b) = wSealed (fst a) @ m" "\<forall>t \<in> set m. ssPath t = segPath (ssIdx t) \<and> wSegIdx (fst a) \<le> ssIdx t \<and> ssIdx t < wSegIdx (fst b)"
    and n: "wSealed (fst c) = wSealed (fst b) @ n" "\<forall>t \<in> set n. ssPath t = segPath (ssIdx t) \<and> wSegIdx (fst b) \<le> ssIdx t \<and> ssIdx t < wSegIdx (fst c)"
    using assms unfolding seg_step_def by blast
  have le: "wSegIdx (fst a) \<le> wSegIdx (fst b)" "wSegIdx (fst b) \<le> wSegIdx (fst c)" using assms by (auto simp: seg_step_def)
  have "fileNames (snd c) \<subseteq> fileNames (snd a) \<union> {segPath i | i. wSegIdx (fst a) < i}"
  proof
    fix x assume "x \<in> fileNames (snd c)"
    from seg_step_names [OF assms(2) this] have "x \<in> fileNames (snd a) \<or> (\<exists>i > wSegIdx (fst a). x = segPath i)"
    proof
      assume "x \<in> fileNames (snd b)"
      then show ?thesis by (rule seg_step_names [OF assms(1)])
    next
      assume "\<exists>i > wSegIdx (fst b). x = segPath i"
      then show ?thesis using le(1) by (metis le_less_trans)
    qed
    then show "x \<in> fileNames (snd a) \<union> {segPath i | i. wSegIdx (fst a) < i}" by blast
  qed
  moreover have "\<forall>t \<in> set (m @ n). ssPath t = segPath (ssIdx t) \<and> wSegIdx (fst a) \<le> ssIdx t \<and> ssIdx t < wSegIdx (fst c)"
    using m(2) n(2) le by auto
  moreover have "fileNames (snd a) \<subseteq> fileNames (snd c)" using assms unfolding seg_step_def by blast
  ultimately show ?thesis using m(1) n(1) le unfolding seg_step_def by (intro conjI exI [of _ "m @ n"]) simp_all
qed

lemma WriteAt_names: "WriteAt path isOpen data off d = (e, d') \<Longrightarrow> fileNames d' = fileNames d"
  by (auto simp: WriteAt_def Let_def fileNames_def update_conv' split: prod.splits if_splits option.splits)

lemma openSeg_names: "openSeg i d = (r, d') \<Longrightarrow> fileNames d \<subseteq> fileNames d' \<and> fileNames d' \<subseteq> insert (segPath i) (fileNames d)"
  by (auto simp: openSeg_def Let_def fileNames_def update_conv' split: prod.splits if_splits option.splits)

lemma rotate_seg_step: "rotate w d = (e, w', d') \<Longrightarrow> seg_step (w, d) (w', d')"
proof -
  assume r: "rotate w d = (e, w', d')"
  obtain q d1 where o: "openSeg (wSegIdx w + 1) d = (q, d1)" by fastforce
  have "d' = d1" "wSegIdx w' = wSegIdx w + 1"
    "wSealed w' = wSealed w @ [\<lparr>ssIdx = wSegIdx w, ssPath = segPath (wSegIdx w), ssBoundary = wSealBoundary w\<rparr>]"
    using r o by (auto simp: rotate_def Let_def split: sum.splits)
  then show ?thesis using openSeg_names [OF o] unfolding seg_step_def by auto
qed

lemma writeSplit_seg_step: "writeSplit n w d = (e, w', d') \<Longrightarrow> seg_step (w, d) (w', d')"
  by (rule seg_step_refl) (auto simp: writeSplit_def dest: WriteAt_names split: if_splits prod.splits option.splits)

lemma sealStep_seg_step:
  assumes "sealStep w d = (e, w', d')"
  shows "seg_step (w, d) (w', d')"
proof -
  let ?n = "if wSealBoundary w > int (wBufPos w) then min (nat (wSealBoundary w - int (wBufPos w))) (length (wBuf w)) else 0"
  obtain r w1 d1 where s: "writeSplit ?n w d = (r, w1, d1)" using prod_cases3 by blast
  consider "(w', d') = (w1, d1)" | "rotate w1 d1 = (e, w', d')"
    using assms s by (auto simp: sealStep_def Let_def split: option.splits if_splits)
  then show ?thesis using writeSplit_seg_step [OF s] rotate_seg_step seg_step_trans by cases auto
qed

lemma drain_seg_step: "seg_step (w, d) (snd (drainLocked w d))"
proof (induction w d rule: drainLocked.induct)
  case (1 w d)
  show ?case
  proof (cases "wSealBoundary w \<ge> 0")
    case True
    obtain e w1 d1 where s: "sealStep w d = (e, w1, d1)" using prod_cases3 by blast
    note st = sealStep_seg_step [OF s]
    show ?thesis
    proof (cases "e = None \<and> wBuf w1 \<noteq> []")
      case more: True
      then have "drainLocked w d = drainLocked w1 d1" using True s by (subst drainLocked.simps) simp
      moreover have "seg_step (w1, d1) (snd (drainLocked w1 d1))" using "1.IH" [OF True s [symmetric] _ refl] more by simp
      ultimately show ?thesis using st seg_step_trans by metis
    next
      case False
      then have "snd (drainLocked w d) = (w1, d1)" using True s by (subst drainLocked.simps) (auto split: option.splits)
      then show ?thesis using st by simp
    qed
  next
    case False
    then show ?thesis
      by (subst drainLocked.simps) (auto intro!: seg_step_refl dest: WriteAt_names split: prod.splits option.splits)
  qed
qed

text \<open>
  \<open>blocked p\<close>: segment \<open>p\<close> has been sealed but has no file, and every segment sealed before it has a lower number.
\<close>

definition blocked :: "nat \<Rightarrow> Writer \<times> jdisk \<Rightarrow> bool" where
  "blocked p s \<longleftrightarrow> p < wSegIdx (fst s) \<and> segPath p \<notin> fileNames (snd s)
     \<and> (\<exists>pre t post. wSealed (fst s) = pre @ t # post \<and> ssIdx t = p \<and> ssPath t = segPath p
          \<and> (\<forall>u \<in> set pre. ssPath u = segPath (ssIdx u) \<and> ssIdx u < p))"

text \<open>Files of the segments after \<open>p\<close> are kept.\<close>

definition keepsLater :: "nat \<Rightarrow> Writer \<times> jdisk \<Rightarrow> Writer \<times> jdisk \<Rightarrow> bool" where
  "keepsLater p s s' \<longleftrightarrow> (\<forall>j > p. segPath j \<in> fileNames (snd s) \<longrightarrow> segPath j \<in> fileNames (snd s'))"

lemma blocked_seg_step:
  assumes "blocked p s" "seg_step s s'"
  shows "blocked p s' \<and> keepsLater p s s'"
proof -
  obtain pre t post where t: "wSealed (fst s) = pre @ t # post" "ssIdx t = p" "ssPath t = segPath p"
    "\<forall>u \<in> set pre. ssPath u = segPath (ssIdx u) \<and> ssIdx u < p" and p: "p < wSegIdx (fst s)" "segPath p \<notin> fileNames (snd s)"
    using assms(1) unfolding blocked_def by blast
  obtain more where "wSealed (fst s') = pre @ t # (post @ more)" using assms(2) t(1) by (auto simp: seg_step_def)
  moreover have "segPath p \<notin> fileNames (snd s')" using assms(2) p by (auto simp: seg_step_def)
  moreover have "p < wSegIdx (fst s')" using assms(2) p(1) by (simp add: seg_step_def)
  ultimately have "blocked p s'" using t(2-4) unfolding blocked_def by blast
  then show ?thesis using assms(2) by (auto simp: keepsLater_def seg_step_def)
qed

lemma deleteSegs_blocked:
  assumes "\<forall>u \<in> set pre. ssPath u = segPath (ssIdx u) \<and> ssIdx u < p" "ssPath t = segPath p" "segPath p \<notin> fileNames d"
  shows "\<exists>pre' d'. deleteSegs durable (pre @ t # post) d = (pre' @ t # post, d') \<and> set pre' \<subseteq> set pre
    \<and> fileNames d' \<subseteq> fileNames d \<and> (\<forall>j > p. segPath j \<in> fileNames d \<longrightarrow> segPath j \<in> fileNames d')"
  using assms
proof (induction pre arbitrary: d)
  case Nil
  then have "map_of (jFiles d) (segPath p) = None" by (simp add: fileNames_def domIff)
  then show ?case using Nil(2)
    by (auto simp: RemoveFile_def Let_def fileNames_def split: prod.splits intro!: exI [of _ "[]"])
next
  case (Cons u pre)
  obtain e d1 where r: "RemoveFile (ssPath u) d = (e, d1)" by fastforce
  then have n: "fileNames d1 = (if e = None then fileNames d - {ssPath u} else fileNames d)"
    by (auto simp: RemoveFile_def Let_def fileNames_def delete_conv' split: prod.splits if_splits)
  consider "durable < ssBoundary u" | x where "ssBoundary u \<le> durable" "e = Some x" | "ssBoundary u \<le> durable" "e = None" by force
  then show ?case
  proof cases
    case 1
    then show ?thesis by (intro exI [of _ "u # pre"] exI [of _ d]) simp
  next
    case 2
    then show ?thesis using r n by (intro exI [of _ "u # pre"] exI [of _ d1]) simp
  next
    case 3
    obtain pre' d' where i: "deleteSegs durable (pre @ t # post) d1 = (pre' @ t # post, d')" "set pre' \<subseteq> set pre" "fileNames d' \<subseteq> fileNames d1"
      "\<forall>j > p. segPath j \<in> fileNames d1 \<longrightarrow> segPath j \<in> fileNames d'"
      using Cons.IH [of d1] Cons.prems n 3(2) by auto
    moreover have "segPath j \<in> fileNames d1" if "j > p" "segPath j \<in> fileNames d" for j
      using that Cons.prems(1) n segPath_inject by (metis Diff_iff list.set_intros(1) not_less_iff_gr_or_eq singletonD)
    ultimately show ?thesis using 3 r n by (intro exI [of _ pre'] exI [of _ d']) auto
  qed
qed

lemma keepsLater_trans: "keepsLater p a b \<Longrightarrow> keepsLater p b c \<Longrightarrow> keepsLater p a c"
  by (simp add: keepsLater_def)

lemma blocked_delete:
  assumes "blocked p (w, d)"
  shows "blocked p (deleteDurable durable w d) \<and> keepsLater p (w, d) (deleteDurable durable w d)"
proof -
  obtain pre t post where t: "wSealed w = pre @ t # post" "ssIdx t = p" "ssPath t = segPath p"
    "\<forall>u \<in> set pre. ssPath u = segPath (ssIdx u) \<and> ssIdx u < p" "p < wSegIdx w" "segPath p \<notin> fileNames d"
    using assms unfolding blocked_def fst_conv snd_conv by blast
  obtain pre' d' where "deleteSegs durable (pre @ t # post) d = (pre' @ t # post, d')" "set pre' \<subseteq> set pre"
    "fileNames d' \<subseteq> fileNames d" "\<forall>j > p. segPath j \<in> fileNames d \<longrightarrow> segPath j \<in> fileNames d'"
    using deleteSegs_blocked [OF t(4,3,6), of durable post] by blast
  note d = this
  have "deleteDurable durable w d = (w\<lparr>wSealed := pre' @ t # post\<rparr>, d')" using d(1) t(1) by (simp add: deleteDurable_def)
  moreover have "blocked p (w\<lparr>wSealed := pre' @ t # post\<rparr>, d')"
    unfolding blocked_def using t d(2,3) by (intro conjI exI [of _ pre'] exI [of _ t] exI [of _ post]) auto
  moreover have "keepsLater p (w, d) (w\<lparr>wSealed := pre' @ t # post\<rparr>, d')" using d(4) by (simp add: keepsLater_def)
  ultimately show ?thesis by simp
qed

lemma walExec_seg_step:
  "(\<exists>durable w d. x = OpTick durable \<and> s = (w, d) \<and> walExec x s = deleteDurable durable (fst (snd (drainLocked w d))) (snd (snd (drainLocked w d))))
     \<or> seg_step s (walExec x s)"
proof -
  obtain w d where s: "s = (w, d)" by fastforce
  have dr: "seg_step (w, d) (snd (drainLocked w1 d))" if "wSegIdx w1 = wSegIdx w" "wSealed w1 = wSealed w" for w1
    using seg_step_trans [OF seg_step_refl drain_seg_step] that by simp
  have same: "seg_step (w, d) (w1, d1)" if "seg_step (w, d) (w2, d1)" "wSegIdx w1 = wSegIdx w2" "wSealed w1 = wSealed w2" for w1 w2 d1
    using seg_step_trans [OF that(1) seg_step_refl] that by simp
  show ?thesis
  proof (cases x)
    case (OpSink es)
    then show ?thesis using dr by (auto simp: s Sink_def Let_def intro: seg_step_refl)
  next
    case OpSeal
    then show ?thesis by (auto simp: s Seal_def intro: seg_step_refl)
  next
    case OpDrain
    then show ?thesis using dr by (auto simp: s Drain_def)
  next
    case (OpTick durable)
    then show ?thesis by (auto simp: s walTick_def case_prod_beta intro: seg_step_refl)
  next
    case OpStop
    obtain e w2 d2 where r: "drainLocked (w\<lparr>wStopped := True\<rparr>) d = (e, w2, d2)" using prod_cases3 by blast
    have "seg_step (w, d) (w2, d2)" using dr [of "w\<lparr>wStopped := True\<rparr>"] r by simp
    then have "seg_step (w, d) (w2\<lparr>wOpen := False\<rparr>, d2)" by (rule same) simp_all
    then show ?thesis unfolding OpStop s using r by (simp add: Stop_def seg_step_refl)
  next
    case OpSnapshot
    then show ?thesis using dr by (auto simp: s SnapshotLocked_def case_prod_beta Let_def)
  qed
qed

lemma blocked_exec:
  assumes "blocked p s"
  shows "blocked p (walExec x s) \<and> keepsLater p s (walExec x s)"
  using walExec_seg_step [of x s]
proof (elim disjE exE conjE)
  fix durable w d
  assume x: "s = (w, d)" "walExec x s = deleteDurable durable (fst (snd (drainLocked w d))) (snd (snd (drainLocked w d)))"
  have "blocked p (snd (drainLocked w d)) \<and> keepsLater p s (snd (drainLocked w d))"
    using blocked_seg_step [OF assms] drain_seg_step x(1) by blast
  then show ?thesis using blocked_delete [of p "fst (snd (drainLocked w d))" "snd (snd (drainLocked w d))" durable] keepsLater_trans
    unfolding x(2) prod.collapse by blast
qed (rule blocked_seg_step [OF assms])

lemma blocked_run: "blocked p s \<Longrightarrow> blocked p (fst (walRun ops s)) \<and> keepsLater p s (fst (walRun ops s))"
proof (induction ops arbitrary: s)
  case (Cons x ops)
  from blocked_exec [OF Cons.prems, of x] have "blocked p (walExec x s)" "keepsLater p s (walExec x s)" by blast+
  then show ?case using Cons.IH [of "walExec x s"] keepsLater_trans by (auto simp: case_prod_beta Let_def)
qed (simp add: keepsLater_def)

text \<open>The segments sealed in a run from \<open>Attach\<close> have numbers below the current one.\<close>

definition numbered :: "Writer \<times> jdisk \<Rightarrow> bool" where
  "numbered s \<longleftrightarrow> (\<forall>t \<in> set (wSealed (fst s)). ssPath t = segPath (ssIdx t) \<and> ssIdx t < wSegIdx (fst s))"

lemma numbered_seg_step: "numbered s \<Longrightarrow> seg_step s s' \<Longrightarrow> numbered s'"
  unfolding numbered_def seg_step_def by fastforce

lemma deleteSegs_subset: "set (fst (deleteSegs durable ss d)) \<subseteq> set ss"
proof (induction ss arbitrary: d)
  case (Cons u ss)
  obtain e d1 where "RemoveFile (ssPath u) d = (e, d1)" by fastforce
  then show ?case using Cons.IH [of d1] by (cases e) auto
qed simp

lemma numbered_run: "numbered s \<Longrightarrow> numbered (fst (walRun ops s))"
proof (induction ops arbitrary: s)
  case (Cons x ops)
  have "numbered (walExec x s)" using walExec_seg_step [of x s]
  proof (elim disjE exE conjE)
    fix durable w d
    assume x: "s = (w, d)" "walExec x s = deleteDurable durable (fst (snd (drainLocked w d))) (snd (snd (drainLocked w d)))"
    have "numbered (snd (drainLocked w d))" using numbered_seg_step [OF Cons.prems] drain_seg_step x(1) by blast
    then show ?thesis using deleteSegs_subset [of durable] unfolding x(2) deleteDurable_def numbered_def
      by (auto simp: Let_def case_prod_beta dest: subsetD)
  qed (rule numbered_seg_step [OF Cons.prems])
  then show ?case using Cons.IH by (simp add: case_prod_beta Let_def)
qed simp

text \<open>The failed open and the drain after it.\<close>

lemma phantom_sealed:
  assumes "numbered (w, d)" "0 \<le> wSealBoundary w" "wSealBoundary w \<le> int (wBufPos w)" "jOpenFaults d = True # fs"
    and "segPath (Suc (wSegIdx w)) \<notin> fileNames d"
  shows "blocked (Suc (wSegIdx w)) (snd (drainLocked (fst (snd (drainLocked w d))) (snd (snd (drainLocked w d)))))"
proof -
  let ?s = "\<lparr>ssIdx = wSegIdx w, ssPath = segPath (wSegIdx w), ssBoundary = wSealBoundary w\<rparr>"
  let ?t = "\<lparr>ssIdx = Suc (wSegIdx w), ssPath = segPath (Suc (wSegIdx w)), ssBoundary = wSealBoundary w\<rparr>"
  define w1 where "w1 = w\<lparr>wOpen := False, wSealed := wSealed w @ [?s], wSegIdx := Suc (wSegIdx w), wOnSeal := wOnSeal w @ [wSegIdx w]\<rparr>"
  define d1 where "d1 = d\<lparr>jOpenFaults := fs\<rparr>"
  have "rotate w d = (Some (Error ''open''), w1, d1)"
    using assms(4) by (simp add: rotate_def openSeg_def takeFault_def Let_def w1_def d1_def)
  then have 1: "snd (drainLocked w d) = (w1, d1)"
    using assms(2,3) by (subst drainLocked.simps) (simp add: sealStep_def writeSplit_def)
  obtain e w2 d2 where r: "rotate w1 d1 = (e, w2, d2)" using prod_cases3 by blast
  obtain q d3 where o: "openSeg (Suc (Suc (wSegIdx w))) d1 = (q, d3)" by fastforce
  have f: "d2 = d3" "wSealed w2 = (wSealed w @ [?s]) @ ?t # []" "wSegIdx w2 = Suc (Suc (wSegIdx w))"
    using r o by (auto simp: rotate_def Let_def w1_def split: sum.splits)
  have "segPath (Suc (wSegIdx w)) \<notin> fileNames d2"
    using openSeg_names [OF o] assms(5) f(1) by (auto simp: d1_def fileNames_def)
  moreover have "\<forall>u \<in> set (wSealed w @ [?s]). ssPath u = segPath (ssIdx u) \<and> ssIdx u < Suc (wSegIdx w)"
    using assms(1) by (auto simp: numbered_def)
  ultimately have b: "blocked (Suc (wSegIdx w)) (w2, d2)" 
    unfolding blocked_def fst_conv snd_conv f(2,3) by (intro conjI exI [of _ "wSealed w @ [?s]"] exI [of _ ?t] exI [of _ "[]"]) simp_all
  have w1: "0 \<le> wSealBoundary w1" "wSealBoundary w1 \<le> int (wBufPos w1)" using assms(2,3) by (simp_all add: w1_def)
  have "sealStep w1 d1 = (e, w2, d2)" using w1 r by (simp add: sealStep_def writeSplit_def)
  then have "snd (drainLocked w1 d1) = (w2, d2) \<or> snd (drainLocked w1 d1) = snd (drainLocked w2 d2)"
    using w1(1) by (subst (1 2) drainLocked.simps) (auto split: option.splits)
  then have "blocked (Suc (wSegIdx w)) (snd (drainLocked w1 d1))" using b blocked_seg_step [OF b drain_seg_step] by auto
  then show ?thesis by (simp add: 1)
qed

text \<open>C39. A segment that could not be opened blocks the deletion of every later segment for good. Let the writer, attached
  to a directory, be in any state it can reach, with a seal due whose bytes are all written, and let the open of the next
  segment, which has no file yet, fail. The drain after that seals this segment although its file was never created. From
  then on, whatever the writer is asked to do and whatever positions become durable, the sealed segment stays in the list of
  segments to delete, and every segment file with a higher number that exists at some moment exists ever after.\<close>

theorem deleteDurable_stuck:
  assumes "Attach d0 = (Inr w0, d1)" "walRun ops (w0, d1) = ((w, d), es)"
    and "0 \<le> wSealBoundary w" "wSealBoundary w \<le> int (wBufPos w)" "jOpenFaults d = True # fs"
    and "map_of (jFiles d) (segPath (Suc (wSegIdx w))) = None"
    and "walRun ([OpDrain, OpDrain] @ ops1) (w, d) = ((w2, d2), es2)" "walRun ops2 (w2, d2) = ((w3, d3), es3)"
  shows "(\<exists>t \<in> set (wSealed w3). ssIdx t = Suc (wSegIdx w))
    \<and> (\<forall>j > Suc (wSegIdx w). map_of (jFiles d2) (segPath j) \<noteq> None \<longrightarrow> map_of (jFiles d3) (segPath j) \<noteq> None)"
proof -
  have "wSealed w0 = []" using assms(1) by (auto simp: Attach_def Let_def split: prod.splits sum.splits)
  then have "numbered (w, d)" using numbered_run [of "(w0, d1)" ops] assms(2) by (simp add: numbered_def)
  moreover have "segPath (Suc (wSegIdx w)) \<notin> fileNames d" using assms(6) by (auto simp: fileNames_def domIff)
  ultimately have "blocked (Suc (wSegIdx w)) (walExec OpDrain (walExec OpDrain (w, d)))"
    using phantom_sealed [OF _ assms(3-5)] by (simp add: Drain_def) (metis prod.collapse walExec.simps(3) Drain_def)
  then have b: "blocked (Suc (wSegIdx w)) (w2, d2)"
    using blocked_run [of "Suc (wSegIdx w)" "walExec OpDrain (walExec OpDrain (w, d))" ops1] assms(7) by (auto simp: Let_def case_prod_beta)
  from blocked_run [OF b, of ops2] have "blocked (Suc (wSegIdx w)) (w3, d3)" "keepsLater (Suc (wSegIdx w)) (w2, d2) (w3, d3)"
    using assms(8) by simp_all
  then show ?thesis unfolding blocked_def keepsLater_def fileNames_def by (auto simp: domIff)
qed

definition stuckDisk :: jdisk where
  "stuckDisk = \<lparr>jFiles = [], jWriteFaults = [], jOpenFaults = [False, True], jRemoveFaults = []\<rparr>"

text \<open>A record is journalled and a seal asked for; the rotation fails; a second record is journalled, sealed and declared durable.\<close>

definition stuckBefore :: "wal_op list" where
  "stuckBefore = [OpSink [\<lparr>Cf = 0, CfKey_Key = [7]\<rparr>], OpSeal]"

definition stuckAfter :: "wal_op list" where
  "stuckAfter = [OpSink [\<lparr>Cf = 0, CfKey_Key = [8]\<rparr>], OpSeal, OpDrain]"

theorem deleteDurable_stuck_witness:
  "\<exists>w0 d0 w d es w2 d2 es2 w3 d3 es3. Attach stuckDisk = (Inr w0, d0) \<and> walRun stuckBefore (w0, d0) = ((w, d), es) \<and> wSegIdx w = 0
    \<and> walRun ([OpDrain, OpDrain] @ stuckAfter) (w, d) = ((w2, d2), es2) \<and> walRun [OpTick 1000, OpTick 1000] (w2, d2) = ((w3, d3), es3)
    \<and> (\<exists>t \<in> set (wSealed w3). ssIdx t = 1) \<and> map_of (jFiles d3) (segPath 2) \<noteq> None"
proof -
  have e: "case Attach stuckDisk of (Inl e, d0) \<Rightarrow> False
    | (Inr w0, d0) \<Rightarrow> (case walRun stuckBefore (w0, d0) of ((w, d), es) \<Rightarrow>
        wSegIdx w = 0 \<and> 0 \<le> wSealBoundary w \<and> wSealBoundary w \<le> int (wBufPos w) \<and> jOpenFaults d = [True] \<and> map_of (jFiles d) (segPath 1) = None
        \<and> (case walRun ([OpDrain, OpDrain] @ stuckAfter) (w, d) of ((w2, d2), es2) \<Rightarrow> map_of (jFiles d2) (segPath 2) \<noteq> None))"
    by code_simp
  obtain w0 d0 where a: "Attach stuckDisk = (Inr w0, d0)" using e by (cases "Attach stuckDisk") (auto split: sum.splits)
  obtain w d es where r: "walRun stuckBefore (w0, d0) = ((w, d), es)" by (metis surj_pair)
  obtain w2 d2 es2 where r2: "walRun ([OpDrain, OpDrain] @ stuckAfter) (w, d) = ((w2, d2), es2)" by (metis surj_pair)
  obtain w3 d3 es3 where r3: "walRun [OpTick 1000, OpTick 1000] (w2, d2) = ((w3, d3), es3)" by (metis surj_pair)
  have v: "wSegIdx w = 0" "0 \<le> wSealBoundary w" "wSealBoundary w \<le> int (wBufPos w)" "jOpenFaults d = True # []" "map_of (jFiles d) (segPath (Suc (wSegIdx w))) = None"
    "map_of (jFiles d2) (segPath 2) \<noteq> None" using e a r r2 by simp_all
  from deleteDurable_stuck [OF a r v(2-5) r2 r3] v(1,6) have "\<exists>t \<in> set (wSealed w3). ssIdx t = 1" "map_of (jFiles d3) (segPath 2) \<noteq> None" by auto
  then show ?thesis using a r r2 r3 v(1) by blast
qed

end
