(* ===== verification/Cache.thy ===== *)
theory Cache
  imports TreeMerge
begin

text \<open>
  The page cache, \<^verbatim>\<open>src/go/internal/pagestore/cache.go\<close>, and the page loads of \<^verbatim>\<open>store.go\<close> that go through it. The cache
  holds raw pages and decoded ones under one identifier, within a byte budget, and evicts the entry used least
  recently. It stays within its budget, and a load through a cache that agrees with the pages returns what
  decoding the page gives.
\<close>

section \<open>The cache\<close>

datatype cacheVal =
    CkBytes bytes
  | CkIndex "IndexEntry list"
  | CkLeafKeys FlatLeaf
  | CkLeafKV FlatLeafKV

record cacheEntry =
  ceVal :: cacheVal
  ceSize :: nat
  ceOrder :: nat

text \<open>The Go map as an association list; \<open>order\<close> counts uses and is unique, so the entry to evict is too.\<close>

record pageCache =
  pcM :: "(UUID \<times> cacheEntry) list"
  pcMax :: int
  pcCur :: int
  pcNext :: nat

definition newPageCache :: "int \<Rightarrow> pageCache" where
  "newPageCache maxBytes = \<lparr>pcM = [], pcMax = maxBytes, pcCur = 0, pcNext = 1\<rparr>"

text \<open>The scan for the least recently used entry.\<close>

fun oldest :: "(UUID \<times> cacheEntry) list \<Rightarrow> UUID \<times> cacheEntry" where
  "oldest [x] = x"
| "oldest (x # y # zs) = (let m = oldest (y # zs) in if ceOrder (snd m) < ceOrder (snd x) then m else x)"
| "oldest [] = undefined"

lemma oldest_mem: "m \<noteq> [] \<Longrightarrow> oldest m \<in> set m"
  by (induction m rule: oldest.induct) (auto simp: Let_def)

definition removeEntry :: "UUID \<times> cacheEntry \<Rightarrow> pageCache \<Rightarrow> pageCache" where
  "removeEntry x c = c\<lparr>pcM := AList.delete (fst x) (pcM c), pcCur := pcCur c - int (ceSize (snd x))\<rparr>"

lemma length_removeEntry: "x \<in> set (pcM c) \<Longrightarrow> length (pcM (removeEntry x c)) < length (pcM c)"
proof -
  assume "x \<in> set (pcM c)"
  then have "fst x \<in> fst ` set (pcM c)" by auto
  then show ?thesis by (auto simp: removeEntry_def AList.delete_eq intro!: length_filter_less)
qed

function evictToBudget :: "int \<Rightarrow> pageCache \<Rightarrow> pageCache" where
  "evictToBudget incoming c =
     (if pcMax c < pcCur c + incoming \<and> pcM c \<noteq> []
      then evictToBudget incoming (removeEntry (oldest (pcM c)) c)
      else c)"
  by pat_completeness auto
termination
  by (relation "measure (\<lambda>(i, c). length (pcM c))") (auto intro!: length_removeEntry oldest_mem)

declare evictToBudget.simps [simp del]

definition slotFor :: "UUID \<Rightarrow> nat \<Rightarrow> pageCache \<Rightarrow> bool \<times> pageCache" where
  "slotFor u sz c =
     (let c1 = (case map_of (pcM c) u of None \<Rightarrow> c | Some e \<Rightarrow> removeEntry (u, e) c)
      in (int sz \<le> pcMax c, evictToBudget (int sz) c1))"

definition touch :: "UUID \<Rightarrow> cacheEntry \<Rightarrow> pageCache \<Rightarrow> pageCache" where
  "touch u e c = c\<lparr>pcM := AList.update u (e\<lparr>ceOrder := pcNext c\<rparr>) (pcM c), pcNext := pcNext c + 1\<rparr>"

text \<open>The four readers differ in the kind they accept.\<close>

definition cacheGet :: "(cacheVal \<Rightarrow> 'a option) \<Rightarrow> UUID \<Rightarrow> pageCache \<Rightarrow> 'a option \<times> pageCache" where
  "cacheGet kind u c =
     (case map_of (pcM c) u of
        None \<Rightarrow> (None, c)
      | Some e \<Rightarrow> (case kind (ceVal e) of None \<Rightarrow> (None, c) | Some x \<Rightarrow> (Some x, touch u e c)))"

definition cachePut :: "UUID \<Rightarrow> cacheVal \<Rightarrow> nat \<Rightarrow> pageCache \<Rightarrow> pageCache" where
  "cachePut u v sz c =
     (case slotFor u sz c of
        (fits, c1) \<Rightarrow>
          if \<not> fits then c1
          else c1\<lparr>pcCur := pcCur c1 + int sz,
                  pcM := AList.update u \<lparr>ceVal = v, ceSize = sz, ceOrder = pcNext c1\<rparr> (pcM c1),
                  pcNext := pcNext c1 + 1\<rparr>)"

definition getBytes :: "UUID \<Rightarrow> pageCache \<Rightarrow> bytes option \<times> pageCache" where
  "getBytes = cacheGet (\<lambda>v. case v of CkBytes d \<Rightarrow> Some d | _ \<Rightarrow> None)"

definition putBytes :: "UUID \<Rightarrow> bytes \<Rightarrow> pageCache \<Rightarrow> pageCache" where
  "putBytes u data = cachePut u (CkBytes data) (length data)"

definition getIndex :: "UUID \<Rightarrow> pageCache \<Rightarrow> IndexEntry list option \<times> pageCache" where
  "getIndex = cacheGet (\<lambda>v. case v of CkIndex es \<Rightarrow> Some es | _ \<Rightarrow> None)"

definition putIndex :: "UUID \<Rightarrow> IndexEntry list \<Rightarrow> pageCache \<Rightarrow> pageCache" where
  "putIndex u entries = cachePut u (CkIndex entries) (sum_list (map (\<lambda>e. length (ieKey e) + 16 + 32) entries))"

definition getLeafKeys :: "UUID \<Rightarrow> pageCache \<Rightarrow> FlatLeaf option \<times> pageCache" where
  "getLeafKeys = cacheGet (\<lambda>v. case v of CkLeafKeys l \<Rightarrow> Some l | _ \<Rightarrow> None)"

definition FlatLeaf_Bytes :: "FlatLeaf \<Rightarrow> nat" where
  "FlatLeaf_Bytes l = length (flBuf l) + length (flOffs l) * 4 + 48"

definition FlatLeafKV_Bytes :: "FlatLeafKV \<Rightarrow> nat" where
  "FlatLeafKV_Bytes l =
     length (fkKbuf l) + length (fkVbuf l) + (length (fkKoffs l) + length (fkVoffs l)) * 4 + 64"

definition putLeafKeys :: "UUID \<Rightarrow> FlatLeaf \<Rightarrow> pageCache \<Rightarrow> pageCache" where
  "putLeafKeys u leaf = cachePut u (CkLeafKeys leaf) (FlatLeaf_Bytes leaf)"

definition getLeafKV :: "UUID \<Rightarrow> pageCache \<Rightarrow> FlatLeafKV option \<times> pageCache" where
  "getLeafKV = cacheGet (\<lambda>v. case v of CkLeafKV l \<Rightarrow> Some l | _ \<Rightarrow> None)"

definition putLeafKV :: "UUID \<Rightarrow> FlatLeafKV \<Rightarrow> pageCache \<Rightarrow> pageCache" where
  "putLeafKV u leaf = cachePut u (CkLeafKV leaf) (FlatLeafKV_Bytes leaf)"

section \<open>Loading pages\<close>

text \<open>Actions on the cache; the blobs \<open>s\<close> do not change while reading.\<close>

definition loadLeafRaw :: "zstd \<Rightarrow> 's blob_ops \<Rightarrow> 's \<Rightarrow> UUID \<Rightarrow> (bytes, pageCache) action" where
  "loadLeafRaw z bo s u c =
     (case getBytes u c of
        (Some d, c1) \<Rightarrow> (Inr d, c1)
      | (None, c1) \<Rightarrow>
          (case blobGet z bo u s of
             Inl e \<Rightarrow> (Inl e, c1)
           | Inr None \<Rightarrow> (Inl (Error ''leaf blob not found''), c1)
           | Inr (Some d) \<Rightarrow> (Inr d, putBytes u d c1)))"

definition loadDecoded ::
  "(UUID \<Rightarrow> pageCache \<Rightarrow> 'a option \<times> pageCache) \<Rightarrow> (bytes \<Rightarrow> 'a result) \<Rightarrow> (UUID \<Rightarrow> 'a \<Rightarrow> pageCache \<Rightarrow> pageCache) \<Rightarrow>
   zstd \<Rightarrow> 's blob_ops \<Rightarrow> 's \<Rightarrow> UUID \<Rightarrow> ('a, pageCache) action" where
  "loadDecoded get decode put z bo s u c =
     (case get u c of
        (Some x, c1) \<Rightarrow> (Inr x, c1)
      | (None, c1) \<Rightarrow>
          sbind (loadLeafRaw z bo s u) (\<lambda>raw c2.
            case decode raw of Inl e \<Rightarrow> (Inl e, c2) | Inr x \<Rightarrow> (Inr x, put u x c2)) c1)"

definition loadLeafKeys :: "zstd \<Rightarrow> 's blob_ops \<Rightarrow> 's \<Rightarrow> UUID \<Rightarrow> (FlatLeaf, pageCache) action" where
  "loadLeafKeys = loadDecoded getLeafKeys DecodePageFlat putLeafKeys"

definition loadLeafPairs :: "zstd \<Rightarrow> 's blob_ops \<Rightarrow> 's \<Rightarrow> UUID \<Rightarrow> (FlatLeafKV, pageCache) action" where
  "loadLeafPairs = loadDecoded getLeafKV DecodePageKvFlat putLeafKV"

definition loadIndexPage :: "zstd \<Rightarrow> 's blob_ops \<Rightarrow> 's \<Rightarrow> UUID \<Rightarrow> (IndexEntry list, pageCache) action" where
  "loadIndexPage = loadDecoded getIndex DeserializeIndexPage putIndex"

section \<open>The budget\<close>

definition sizes :: "(UUID \<times> cacheEntry) list \<Rightarrow> nat" where
  "sizes m = sum_list (map (ceSize \<circ> snd) m)"

definition cache_ok :: "pageCache \<Rightarrow> bool" where
  "cache_ok c \<longleftrightarrow> distinct (map fst (pcM c)) \<and> pcCur c = int (sizes (pcM c)) \<and> 0 \<le> pcMax c \<and> pcCur c \<le> pcMax c"

lemma sizes_delete: "distinct (map fst m) \<Longrightarrow> (u, e) \<in> set m \<Longrightarrow> sizes (AList.delete u m) + ceSize e = sizes m"
proof (induction m)
  case (Cons x m)
  have "AList.delete u m = m" if "u \<notin> fst ` set m"
    using that by (force simp: AList.delete_eq filter_id_conv)
  then show ?case using Cons by (cases "fst x = u") (auto simp: sizes_def AList.delete_eq image_iff)
qed (simp add: sizes_def)

lemma sizes_update:
  "u \<notin> fst ` set m \<Longrightarrow> sizes (AList.update u e m) = sizes m + ceSize e"
  "distinct (map fst m) \<Longrightarrow> map_of m u = Some e0 \<Longrightarrow> ceSize e = ceSize e0 \<Longrightarrow> sizes (AList.update u e m) = sizes m"
proof -
  show "u \<notin> fst ` set m \<Longrightarrow> sizes (AList.update u e m) = sizes m + ceSize e"
    by (induction m) (auto simp: sizes_def)
  show "distinct (map fst m) \<Longrightarrow> map_of m u = Some e0 \<Longrightarrow> ceSize e = ceSize e0 \<Longrightarrow> sizes (AList.update u e m) = sizes m"
    by (induction m) (auto simp: sizes_def split: if_splits)
qed

lemma removeEntry_ok:
  assumes "cache_ok c" "x \<in> set (pcM c)"
  shows "cache_ok (removeEntry x c)" "pcMax (removeEntry x c) = pcMax c"
  using assms sizes_delete [of "pcM c" "fst x" "snd x"] by (auto simp: cache_ok_def removeEntry_def distinct_delete)

lemma evictToBudget_ok:
  assumes "cache_ok c"
  shows "cache_ok (evictToBudget i c) \<and> pcMax (evictToBudget i c) = pcMax c
    \<and> (pcCur (evictToBudget i c) + i \<le> pcMax c \<or> pcM (evictToBudget i c) = [])
    \<and> (\<forall>u e. map_of (pcM (evictToBudget i c)) u = Some e \<longrightarrow> map_of (pcM c) u = Some e)"
  using assms
proof (induction i c rule: evictToBudget.induct)
  case (1 i c)
  let ?x = "oldest (pcM c)"
  show ?case
  proof (cases "pcMax c < pcCur c + i \<and> pcM c \<noteq> []")
    case True
    have x: "?x \<in> set (pcM c)" using True oldest_mem by blast
    have e: "evictToBudget i c = evictToBudget i (removeEntry ?x c)" using True by (subst evictToBudget.simps) simp
    have "map_of (pcM (removeEntry ?x c)) u = Some e \<longrightarrow> map_of (pcM c) u = Some e" for u e
      by (auto simp: removeEntry_def delete_conv' split: if_splits)
    then show ?thesis unfolding e using "1.IH" [OF True] removeEntry_ok [OF "1.prems" x] by metis
  next
    case False
    then have "evictToBudget i c = c" by (subst evictToBudget.simps) auto
    then show ?thesis using False "1.prems" by auto
  qed
qed

lemma slotFor_ok:
  assumes "cache_ok c" "slotFor u sz c = (fits, c')"
  shows "cache_ok c'" "pcMax c' = pcMax c" "fits \<longleftrightarrow> int sz \<le> pcMax c" "fits \<Longrightarrow> pcCur c' + int sz \<le> pcMax c"
    "map_of (pcM c') u = None" "map_of (pcM c') v = Some e \<Longrightarrow> map_of (pcM c) v = Some e"
proof -
  define c1 where "c1 = (case map_of (pcM c) u of None \<Rightarrow> c | Some e \<Rightarrow> removeEntry (u, e) c)"
  have c1: "cache_ok c1" "pcMax c1 = pcMax c" "map_of (pcM c1) u = None"
    using assms(1) removeEntry_ok [OF assms(1), of "(u, e)" for e] map_of_SomeD [of "pcM c" u]
    by (auto simp: c1_def removeEntry_def delete_conv' split: option.split)
  have c1_old: "map_of (pcM c) v = Some e" if "map_of (pcM c1) v = Some e" for v e
    using that by (auto simp: c1_def removeEntry_def delete_conv' split: option.splits if_splits)
  have c': "c' = evictToBudget (int sz) c1" "fits \<longleftrightarrow> int sz \<le> pcMax c"
    using assms(2) by (auto simp: slotFor_def c1_def Let_def)
  note e = evictToBudget_ok [OF c1(1), of "int sz", folded c'(1)]
  show "cache_ok c'" "pcMax c' = pcMax c" "fits \<longleftrightarrow> int sz \<le> pcMax c" using e c' c1(2) by auto
  show "pcCur c' + int sz \<le> pcMax c" if fits using e c1(2) c'(2) that by (auto simp: cache_ok_def sizes_def)
  show "map_of (pcM c') u = None" using e c1(3) by (cases "map_of (pcM c') u") auto
  show "map_of (pcM c) v = Some e" if "map_of (pcM c') v = Some e" using e c1_old that by blast
qed

lemma cachePut_ok:
  assumes "cache_ok c"
  shows "cache_ok (cachePut u v sz c)" "pcMax (cachePut u v sz c) = pcMax c"
    "map_of (pcM (cachePut u v sz c)) w = Some e \<Longrightarrow> w = u \<and> ceVal e = v \<or> map_of (pcM c) w = Some e"
proof -
  obtain fits c1 where s: "slotFor u sz c = (fits, c1)" by fastforce
  note k = slotFor_ok [OF assms s]
  have d: "u \<notin> fst ` set (pcM c1)" using k(5) by (simp add: map_of_eq_None_iff)
  show "cache_ok (cachePut u v sz c)" "pcMax (cachePut u v sz c) = pcMax c"
    using k(1-4) sizes_update(1) [OF d] by (auto simp: cachePut_def s cache_ok_def distinct_update)
  show "w = u \<and> ceVal e = v \<or> map_of (pcM c) w = Some e" if "map_of (pcM (cachePut u v sz c)) w = Some e"
    using that k(6) by (auto simp: cachePut_def s update_conv' split: if_splits)
qed

lemma cacheGet_ok:
  assumes "cache_ok c" "cacheGet kind u c = (r, c')"
  shows "cache_ok c'" "pcMax c' = pcMax c" "map_of (pcM c') w = Some e \<Longrightarrow> \<exists>e0. map_of (pcM c) w = Some e0 \<and> ceVal e0 = ceVal e"
    "r = Some x \<Longrightarrow> \<exists>e. map_of (pcM c) u = Some e \<and> kind (ceVal e) = Some x"
proof -
  show "r = Some x \<Longrightarrow> \<exists>e. map_of (pcM c) u = Some e \<and> kind (ceVal e) = Some x"
    using assms(2) by (auto simp: cacheGet_def split: option.splits)
  show "cache_ok c'" "pcMax c' = pcMax c"
    using assms sizes_update(2) [of "pcM c" u]
    by (auto simp: cacheGet_def touch_def cache_ok_def distinct_update split: option.splits)
  show "map_of (pcM c') w = Some e \<Longrightarrow> \<exists>e0. map_of (pcM c) w = Some e0 \<and> ceVal e0 = ceVal e"
    using assms(2) by (auto simp: cacheGet_def touch_def update_conv' split: option.splits if_splits)
qed

text \<open>Any run of the cache's operations.\<close>

datatype cacheOp =
    OpGetBytes UUID | OpPutBytes UUID bytes
  | OpGetIndex UUID | OpPutIndex UUID "IndexEntry list"
  | OpGetLeafKeys UUID | OpPutLeafKeys UUID FlatLeaf
  | OpGetLeafKV UUID | OpPutLeafKV UUID FlatLeafKV

fun cacheStep :: "cacheOp \<Rightarrow> pageCache \<Rightarrow> pageCache" where
  "cacheStep (OpGetBytes u) c = snd (getBytes u c)"
| "cacheStep (OpPutBytes u d) c = putBytes u d c"
| "cacheStep (OpGetIndex u) c = snd (getIndex u c)"
| "cacheStep (OpPutIndex u es) c = putIndex u es c"
| "cacheStep (OpGetLeafKeys u) c = snd (getLeafKeys u c)"
| "cacheStep (OpPutLeafKeys u l) c = putLeafKeys u l c"
| "cacheStep (OpGetLeafKV u) c = snd (getLeafKV u c)"
| "cacheStep (OpPutLeafKV u l) c = putLeafKV u l c"

lemmas cache_defs = getBytes_def putBytes_def getIndex_def putIndex_def getLeafKeys_def putLeafKeys_def getLeafKV_def putLeafKV_def

lemma cacheGet_keeps: "cache_ok c \<Longrightarrow> cache_ok (snd (cacheGet kind u c))" "cache_ok c \<Longrightarrow> pcMax (snd (cacheGet kind u c)) = pcMax c"
  using cacheGet_ok(1,2) [OF _ surjective_pairing] by blast+

lemma cacheStep_ok: "cache_ok c \<Longrightarrow> cache_ok (cacheStep op c) \<and> pcMax (cacheStep op c) = pcMax c"
  by (cases op) (simp_all add: cache_defs cacheGet_keeps cachePut_ok(1,2))

text \<open>C29. The page cache never exceeds its budget: after any sequence of reads and writes, however large the
  pages, the accounted size is the total size of the entries and at most the configured maximum.\<close>

theorem cache_within_budget:
  assumes "0 \<le> maxBytes" "c = fold cacheStep ops (newPageCache maxBytes)"
  shows "pcCur c = int (sizes (pcM c)) \<and> pcCur c \<le> maxBytes \<and> distinct (map fst (pcM c))"
proof -
  have "cache_ok c \<and> pcMax c = maxBytes" if "cache_ok c0" "pcMax c0 = maxBytes" "c = fold cacheStep os c0" for os c0 c
    using that by (induction os arbitrary: c0) (auto simp: cacheStep_ok)
  from this [of "newPageCache maxBytes" c ops] show ?thesis
    using assms by (auto simp: cache_ok_def newPageCache_def sizes_def)
qed

theorem cache_within_budget_witness:
  "pcCur (fold cacheStep [OpPutBytes [1] [0, 0, 0], OpPutBytes [2] [0, 0], OpGetBytes [2], OpPutBytes [3] [0]] (newPageCache 4)) \<le> 4"
  by (rule cache_within_budget [OF _ refl, THEN conjunct2, THEN conjunct1]) simp

section \<open>Loads see through the cache\<close>

text \<open>
  A cached entry agrees with the page in the blob store. Entries of pages that are gone (deleted by a garbage
  collection) are not constrained.
\<close>

fun decodes :: "bytes \<Rightarrow> cacheVal \<Rightarrow> bool" where
  "decodes d (CkBytes b) = (b = d)"
| "decodes d (CkIndex es) = (DeserializeIndexPage d = Inr es)"
| "decodes d (CkLeafKeys l) = (DecodePageFlat d = Inr l)"
| "decodes d (CkLeafKV l) = (DecodePageKvFlat d = Inr l)"

definition coherent :: "pages \<Rightarrow> pageCache \<Rightarrow> bool" where
  "coherent P c \<longleftrightarrow> cache_ok c \<and> (\<forall>u e d. map_of (pcM c) u = Some e \<longrightarrow> P u = Some d \<longrightarrow> decodes d (ceVal e))"

text \<open>
  Pages the cache holds are readable (which a merge keeps, and a garbage collection may end); a load keeps both,
  since it caches only what it has read.
\<close>

definition cachedIn :: "pages \<Rightarrow> pageCache \<Rightarrow> bool" where
  "cachedIn P c \<longleftrightarrow> (\<forall>u. map_of (pcM c) u \<noteq> None \<longrightarrow> P u \<noteq> None)"

definition keeps :: "pages \<Rightarrow> pageCache \<Rightarrow> pageCache \<Rightarrow> bool" where
  "keeps P c c' \<longleftrightarrow> coherent P c' \<and> (cachedIn P c \<longrightarrow> cachedIn P c')"

lemma coherent_mono: "coherent P c \<Longrightarrow> cachedIn P c \<Longrightarrow> P \<subseteq>\<^sub>m P' \<Longrightarrow> coherent P' c \<and> cachedIn P' c"
  unfolding coherent_def cachedIn_def map_le_def by (metis domIff option.distinct(1) option.exhaust)

lemma keeps_trans [trans]: "keeps P a b \<Longrightarrow> keeps P b c \<Longrightarrow> keeps P a c"
  by (simp add: keeps_def)

lemma keeps_coherent: "keeps P c c' \<Longrightarrow> coherent P c'"
  by (simp add: keeps_def)

lemma coherent_get:
  assumes "coherent P c" "cacheGet kind u c = (r, c')"
  shows "keeps P c c'" "r = Some x \<Longrightarrow> P u = Some d \<Longrightarrow> \<exists>v. decodes d v \<and> kind v = Some x"
proof -
  note k = cacheGet_ok [of c kind u r c', OF _ assms(2)]
  have ok: "cache_ok c" using assms(1) by (simp add: coherent_def)
  have "coherent P c'" using assms(1) k(1,3) [OF ok] unfolding coherent_def by metis
  moreover have "cachedIn P c'" if "cachedIn P c" using that k(3) [OF ok] unfolding cachedIn_def by blast
  ultimately show "keeps P c c'" by (simp add: keeps_def)
  show "r = Some x \<Longrightarrow> P u = Some d \<Longrightarrow> \<exists>v. decodes d v \<and> kind v = Some x"
    using assms(1) k(4) [OF ok] unfolding coherent_def by metis
qed

lemma coherent_put:
  assumes "coherent P c" "P u = Some d" "decodes d v"
  shows "keeps P c (cachePut u v sz c)"
proof -
  have ok: "cache_ok c" using assms(1) by (simp add: coherent_def)
  note k = cachePut_ok [OF ok, of u v sz]
  have "coherent P (cachePut u v sz c)" using assms k(1,3) unfolding coherent_def by (metis option.inject)
  moreover have "cachedIn P (cachePut u v sz c)" if "cachedIn P c"
    using that k(3) assms(2) unfolding cachedIn_def by (metis not_None_eq)
  ultimately show ?thesis by (simp add: keeps_def)
qed

lemma pageOf_Some: "pageOf z bo s u = Some d \<longleftrightarrow> blobGet z bo u s = Inr (Some d)"
  by (auto simp: pageOf_def split: sum.split)

lemma loadLeafRaw_correct:
  assumes "coherent (pageOf z bo s) c" "pageOf z bo s u = Some d"
  shows "\<exists>c'. loadLeafRaw z bo s u c = (Inr d, c') \<and> keeps (pageOf z bo s) c c'"
proof -
  obtain r c1 where g: "getBytes u c = (r, c1)" by fastforce
  note k = coherent_get [OF assms(1) g [unfolded getBytes_def]]
  show ?thesis
  proof (cases r)
    case None
    have "keeps (pageOf z bo s) c1 (putBytes u d c1)"
      unfolding putBytes_def by (rule coherent_put [OF keeps_coherent [OF k(1)] assms(2)]) simp
    with k(1) have "keeps (pageOf z bo s) c (putBytes u d c1)" by (rule keeps_trans)
    then show ?thesis using None g assms(2) by (simp add: loadLeafRaw_def pageOf_Some)
  next
    case (Some x)
    then obtain v where "decodes d v" "(case v of CkBytes d \<Rightarrow> Some d | _ \<Rightarrow> None) = Some x" using k(2) assms(2) by blast
    then have "x = d" by (cases v) auto
    then show ?thesis using Some g k(1) by (simp add: loadLeafRaw_def)
  qed
qed

text \<open>The three decoding loads have the same shape.\<close>

lemma loadDecoded_correct:
  assumes c: "coherent (pageOf z bo s) c" "pageOf z bo s u = Some d" "decode d = Inr x"
    and get: "get = cacheGet kind" "\<And>v y. kind v = Some y \<Longrightarrow> decodes d v \<Longrightarrow> decode d = Inr y"
    and put: "\<And>y. put u y = cachePut u (mk y) (sz y)" "\<And>y. decode d = Inr y \<Longrightarrow> decodes d (mk y)"
  shows "\<exists>c'. loadDecoded get decode put z bo s u c = (Inr x, c') \<and> keeps (pageOf z bo s) c c'"
proof -
  obtain r c1 where g: "get u c = (r, c1)" by fastforce
  note k = coherent_get [OF c(1) g [unfolded get(1)]]
  show ?thesis
  proof (cases r)
    case None
    obtain c2 where l: "loadLeafRaw z bo s u c1 = (Inr d, c2)" "keeps (pageOf z bo s) c1 c2"
      using loadLeafRaw_correct [OF keeps_coherent [OF k(1)] c(2)] by blast
    have "keeps (pageOf z bo s) c2 (put u x c2)"
      unfolding put(1) by (rule coherent_put [OF keeps_coherent [OF l(2)] c(2)]) (use c(3) put(2) in auto)
    then have "keeps (pageOf z bo s) c (put u x c2)" using k(1) l(2) keeps_trans by blast
    then show ?thesis using None g l c(3) by (simp add: loadDecoded_def sbind_def)
  next
    case (Some y)
    then obtain v where "decodes d v" "kind v = Some y" using k(2) c(2) by blast
    then have "y = x" using get(2) c(3) by fastforce
    then show ?thesis using Some g k(1) by (simp add: loadDecoded_def)
  qed
qed

lemma loads_correct:
  assumes "coherent (pageOf z bo s) c" "pageOf z bo s u = Some d"
  shows "DecodePageFlat d = Inr l \<Longrightarrow> \<exists>c'. loadLeafKeys z bo s u c = (Inr l, c') \<and> keeps (pageOf z bo s) c c'"
    "DecodePageKvFlat d = Inr p \<Longrightarrow> \<exists>c'. loadLeafPairs z bo s u c = (Inr p, c') \<and> keeps (pageOf z bo s) c c'"
    "DeserializeIndexPage d = Inr es \<Longrightarrow> \<exists>c'. loadIndexPage z bo s u c = (Inr es, c') \<and> keeps (pageOf z bo s) c c'"
proof -
  show "\<exists>c'. loadLeafKeys z bo s u c = (Inr l, c') \<and> keeps (pageOf z bo s) c c'" if "DecodePageFlat d = Inr l"
    unfolding loadLeafKeys_def
    by (rule loadDecoded_correct [OF assms _ getLeafKeys_def, where decode = DecodePageFlat and mk = CkLeafKeys and sz = FlatLeaf_Bytes])
      (use that in \<open>auto simp: putLeafKeys_def split: cacheVal.splits\<close>)
  show "\<exists>c'. loadLeafPairs z bo s u c = (Inr p, c') \<and> keeps (pageOf z bo s) c c'" if "DecodePageKvFlat d = Inr p"
    unfolding loadLeafPairs_def
    by (rule loadDecoded_correct [OF assms _ getLeafKV_def, where decode = DecodePageKvFlat and mk = CkLeafKV and sz = FlatLeafKV_Bytes])
      (use that in \<open>auto simp: putLeafKV_def split: cacheVal.splits\<close>)
  show "\<exists>c'. loadIndexPage z bo s u c = (Inr es, c') \<and> keeps (pageOf z bo s) c c'" if "DeserializeIndexPage d = Inr es"
    unfolding loadIndexPage_def
    by (rule loadDecoded_correct [OF assms _ getIndex_def, where decode = DeserializeIndexPage and mk = CkIndex
          and sz = "\<lambda>entries. sum_list (map (\<lambda>e. length (ieKey e) + 16 + 32) entries)"])
      (use that in \<open>auto simp: putIndex_def split: cacheVal.splits\<close>)
qed

end
