(* ===== verification/Reads.thy ===== *)
theory Reads
  imports Cache "HOL-Library.Multiset"
begin

text \<open>
  Prefix reads and the key-value merge of \<^verbatim>\<open>src/go/internal/pagestore/store.go\<close>. On a tree the store wrote, with a
  cache that agrees with the pages, a prefix read returns exactly the keys with that prefix, in order. The
  stack in \<open>GetPairsInPrefix\<close> visits the index pages of trees of height three from right to left.
\<close>

section \<open>Prefix reads of keys\<close>

definition hasPrefix :: "bytes \<Rightarrow> bytes \<Rightarrow> bool" where
  "hasPrefix k p = (if length k < length p then False else list_all (\<lambda>i. k ! i = p ! i) [0..<length p])"

text \<open>A loop over index entries that appends what each child yields.\<close>

fun forEntries :: "(IndexEntry \<Rightarrow> ('a list, 'c) action) \<Rightarrow> IndexEntry list \<Rightarrow> ('a list, 'c) action" where
  "forEntries f [] = sreturn []"
| "forEntries f (e # es) = sbind (f e) (\<lambda>xs. sbind (forEntries f es) (\<lambda>ys. sreturn (xs @ ys)))"

definition matchingKeys :: "bytes \<Rightarrow> FlatLeaf \<Rightarrow> bytes list" where
  "matchingKeys p l = filter (\<lambda>k. hasPrefix k p) (map (FlatLeaf_Key l) [0..<FlatLeaf_Count (Some l)])"

definition leafKeysWith :: "zstd \<Rightarrow> 's blob_ops \<Rightarrow> 's \<Rightarrow> bytes \<Rightarrow> UUID \<Rightarrow> (bytes list, pageCache) action" where
  "leafKeysWith z bo s p u = sbind (loadLeafKeys z bo s u) (\<lambda>l. sreturn (matchingKeys p l))"

text \<open>An index page is read from the blob store, past the cache, and only its range for the prefix is visited.\<close>

definition rangeEntries :: "zstd \<Rightarrow> 's blob_ops \<Rightarrow> 's \<Rightarrow> string \<Rightarrow> UUID \<Rightarrow> bytes \<Rightarrow> (IndexEntry list, 'c) action" where
  "rangeEntries z bo s what u p =
     sbind (slift (blobGet z bo u s)) (\<lambda>data.
       case data of
         None \<Rightarrow> sfail (Error (''prefix scan: '' @ what @ '' unreadable''))
       | Some d \<Rightarrow>
           sbind (slift (DeserializeIndexPage d)) (\<lambda>entries.
             let (start, stop) = FindPrefixRange entries p in sreturn (slice entries start stop)))"

text \<open>The recursion argument is \<open>height - 1\<close>: the children of the lowest index pages are leaves.\<close>

fun collectKeysFromIndex :: "zstd \<Rightarrow> 's blob_ops \<Rightarrow> 's \<Rightarrow> nat \<Rightarrow> bytes \<Rightarrow> UUID \<Rightarrow> (bytes list, pageCache) action" where
  "collectKeysFromIndex z bo s 0 p u =
     sbind (rangeEntries z bo s ''index page'' u p) (forEntries (\<lambda>e. leafKeysWith z bo s p (ieUUID e)))"
| "collectKeysFromIndex z bo s (Suc h) p u =
     sbind (rangeEntries z bo s ''index page'' u p) (forEntries (\<lambda>e. collectKeysFromIndex z bo s h p (ieUUID e)))"

definition GetKeysInPrefix :: "zstd \<Rightarrow> 's blob_ops \<Rightarrow> 's \<Rightarrow> Store \<Rightarrow> int \<Rightarrow> bytes \<Rightarrow> (bytes list, pageCache) action" where
  "GetKeysInPrefix z bo s st cf p =
     (if cf \<ge> int (stNumCf st) then sreturn []
      else
        let tree = treeAt cf st
        in if RootUUID tree = EmptyUUID then sreturn []
           else if Height tree = 0 then leafKeysWith z bo s p (RootUUID tree)
           else collectKeysFromIndex z bo s (unat (Height tree) - 1) p (RootUUID tree))"

definition KeyExists :: "zstd \<Rightarrow> 's blob_ops \<Rightarrow> 's \<Rightarrow> Store \<Rightarrow> int \<Rightarrow> bytes \<Rightarrow> (bool, pageCache) action" where
  "KeyExists z bo s st cf key =
     sbind (GetKeysInPrefix z bo s st cf key) (\<lambda>keys. sreturn (list_ex (\<lambda>k. CmpSeq k key = 0) keys))"

section \<open>Prefix reads of pairs\<close>

text \<open>\<open>Pair\<close> reports whether the index is in range; a pair out of range is skipped.\<close>

definition matchingPairs :: "bytes \<Rightarrow> FlatLeafKV \<Rightarrow> (bytes \<times> bytes) list" where
  "matchingPairs p l =
     filter (\<lambda>q. hasPrefix (fst q) p)
       (List.map_filter (FlatLeafKV_Pair l) [0..<FlatLeafKV_Count (Some l)])"

definition leafPairsWith :: "zstd \<Rightarrow> 's blob_ops \<Rightarrow> 's \<Rightarrow> bytes \<Rightarrow> UUID \<Rightarrow> ((bytes \<times> bytes) list, pageCache) action" where
  "leafPairsWith z bo s p u = sbind (loadLeafPairs z bo s u) (\<lambda>l. sreturn (matchingPairs p l))"

text \<open>
  The explicit stack below a child of the root: the top at the head, nodes with \<open>height - 1\<close>. Children are pushed
  left to right, so the rightmost is popped first.
\<close>

function pairsStack ::
  "zstd \<Rightarrow> 's blob_ops \<Rightarrow> 's \<Rightarrow> bytes \<Rightarrow> (UUID \<times> nat) list \<Rightarrow> ((bytes \<times> bytes) list, pageCache) action" where
  "pairsStack z bo s p [] c = sreturn [] c"
| "pairsStack z bo s p ((u, 0) # stack) c =
     sbind (sbind (rangeEntries z bo s ''child page'' u p) (forEntries (\<lambda>e. leafPairsWith z bo s p (ieUUID e)))) (\<lambda>xs.
     sbind (pairsStack z bo s p stack) (\<lambda>ys. sreturn (xs @ ys))) c"
| "pairsStack z bo s p ((u, Suc h) # stack) c =
     sbind (rangeEntries z bo s ''child page'' u p) (\<lambda>es.
       pairsStack z bo s p (rev (map (\<lambda>e. (ieUUID e, h)) es) @ stack)) c"
  by pat_completeness auto
termination
proof (relation "inv_image (mult less_than) (\<lambda>(z, bo, s, p, stack, c). mset (map snd stack))", goal_cases)
  case 1
  show ?case by (simp add: wf_mult)
next
  case (2 z bo s p u stack c xs c1)
  show ?case by (simp add: subset_implies_mult)
next
  case (3 z bo s p u h stack c es c1)
  have "(mset (map snd stack) + mset (map (\<lambda>_. h) es), mset (map snd stack) + {#Suc h#}) \<in> mult less_than"
    by (rule one_step_implies_mult) auto
  then show ?case by (simp add: multiset.map_comp comp_def add.commute)
qed

definition GetPairsInPrefix ::
  "zstd \<Rightarrow> 's blob_ops \<Rightarrow> 's \<Rightarrow> Store \<Rightarrow> int \<Rightarrow> bytes \<Rightarrow> ((bytes \<times> bytes) list, pageCache) action" where
  "GetPairsInPrefix z bo s st cf p =
     (if cf \<ge> int (stNumCf st) then sreturn []
      else
        let tree = treeAt cf st
        in if RootUUID tree = EmptyUUID then sreturn []
           else if Height tree = 0 then leafPairsWith z bo s p (RootUUID tree)
           else
             sbind (rangeEntries z bo s ''root index page'' (RootUUID tree) p)
               (forEntries (\<lambda>e.
                  if Height tree = 1 then leafPairsWith z bo s p (ieUUID e)
                  else pairsStack z bo s p [(ieUUID e, unat (Height tree) - 2)])))"

definition KeyExistsKv :: "zstd \<Rightarrow> 's blob_ops \<Rightarrow> 's \<Rightarrow> Store \<Rightarrow> int \<Rightarrow> bytes \<Rightarrow> (bytes option, pageCache) action" where
  "KeyExistsKv z bo s st cf key =
     sbind (GetPairsInPrefix z bo s st cf key) (\<lambda>pairs.
       sreturn (map_option snd (List.find (\<lambda>q. CmpSeq (fst q) key = 0) pairs)))"

section \<open>The key-value merge\<close>

text \<open>Blobs and cache together.\<close>

definition onBlobs :: "('a, 's) action \<Rightarrow> ('a, 's \<times> pageCache) action" where
  "onBlobs f sc = (case f (fst sc) of (r, s') \<Rightarrow> (r, s', snd sc))"

definition onCache :: "('s \<Rightarrow> ('a, pageCache) action) \<Rightarrow> ('a, 's \<times> pageCache) action" where
  "onCache f sc = (case f (fst sc) (snd sc) of (r, c') \<Rightarrow> (r, fst sc, c'))"

text \<open>The set of deleted keys of a column family; a family that is not in the Go map has none.\<close>

definition delSet :: "(nat \<times> bytes list) list \<Rightarrow> nat \<Rightarrow> bytes \<Rightarrow> bool" where
  "delSet deletedByCf cf k = (case map_of deletedByCf cf of None \<Rightarrow> False | Some ks \<Rightarrow> k \<in> set ks)"

definition keepPairs :: "(bytes \<Rightarrow> bool) \<Rightarrow> (bytes \<times> bytes) list \<Rightarrow> (bytes \<times> bytes) list" where
  "keepPairs del ps = filter (\<lambda>p. \<not> del (fst p)) ps"

fun mergePairs :: "(bytes \<Rightarrow> bool) \<Rightarrow> (bytes \<times> bytes) list \<Rightarrow> (bytes \<times> bytes) list \<Rightarrow> (bytes \<times> bytes) list" where
  "mergePairs del [] bs = keepPairs del bs"
| "mergePairs del as [] = keepPairs del as"
| "mergePairs del (a # as) (b # bs) =
     (let c = CmpSeq (fst a) (fst b)
      in if c < 0 then keepPairs del [a] @ mergePairs del as (b # bs)
         else if c > 0 then keepPairs del [b] @ mergePairs del (a # as) bs
         else keepPairs del [b] @ mergePairs del as bs)"

text \<open>The closure \<open>rebuild\<close>: a new tree for one column family.\<close>

definition rebuild :: "zstd \<Rightarrow> 's blob_ops \<Rightarrow> (bytes \<times> bytes) list \<Rightarrow> (CfTree, 's) action" where
  "rebuild z bo pairs = (if pairs = [] then sreturn EmptyTree else buildTree z bo (BuildPagesKv pairs) True)"

fun deletePass ::
  "zstd \<Rightarrow> 's blob_ops \<Rightarrow> Store \<Rightarrow> (nat \<Rightarrow> bool) \<Rightarrow> (nat \<times> bytes list) list \<Rightarrow> (nat \<times> bytes list) list \<Rightarrow> CfTree list \<Rightarrow>
   (CfTree list, 's \<times> pageCache) action" where
  "deletePass z bo st inPairs deleted [] trees = sreturn trees"
| "deletePass z bo st inPairs deleted ((cf, ks) # rest) trees =
     (if inPairs cf \<or> cf \<ge> stNumCf st then deletePass z bo st inPairs deleted rest trees
      else if cf \<ge> length trees then sfail (Panic ''index out of range'')
      else if RootUUID (trees ! cf) = EmptyUUID then deletePass z bo st inPairs deleted rest trees
      else
        sbind (onCache (\<lambda>s. GetPairsInPrefix z bo s st (int cf) [])) (\<lambda>all.
        sbind (onBlobs (rebuild z bo (keepPairs (delSet deleted cf) all))) (\<lambda>t.
          deletePass z bo st inPairs deleted rest (trees[cf := t]))))"

fun mergePass ::
  "zstd \<Rightarrow> 's blob_ops \<Rightarrow> Store \<Rightarrow> (nat \<times> bytes list) list \<Rightarrow> (nat \<times> (bytes \<times> bytes) list) list \<Rightarrow> CfTree list \<Rightarrow>
   (CfTree list, 's \<times> pageCache) action" where
  "mergePass z bo st deleted [] trees = sreturn trees"
| "mergePass z bo st deleted ((cf, sortedPairs) # rest) trees =
     (if cf \<ge> stNumCf st \<or> sortedPairs = [] then mergePass z bo st deleted rest trees
      else if cf \<ge> length trees then sfail (Panic ''index out of range'')
      else if RootUUID (trees ! cf) = EmptyUUID then
        sbind (onBlobs (rebuild z bo (keepPairs (delSet deleted cf) sortedPairs))) (\<lambda>t.
          mergePass z bo st deleted rest (trees[cf := t]))
      else
        sbind (onCache (\<lambda>s. GetPairsInPrefix z bo s st (int cf) [])) (\<lambda>all.
        sbind (onBlobs (rebuild z bo (mergePairs (delSet deleted cf) (keepPairs (delSet deleted cf) all) sortedPairs))) (\<lambda>t.
          mergePass z bo st deleted rest (trees[cf := t]))))"

text \<open>The Go maps are association lists here: their order is the order the two loops visit them in.\<close>

definition PrepareMergeKv ::
  "zstd \<Rightarrow> 's blob_ops \<Rightarrow> int64 \<Rightarrow> Store \<Rightarrow> CfTree list \<Rightarrow> (nat \<times> (bytes \<times> bytes) list) list \<Rightarrow> (nat \<times> bytes list) list \<Rightarrow>
   (CfTree list \<times> string, 's \<times> pageCache) action" where
  "PrepareMergeKv z bo now st baseTrees pairsByCf deletedByCf =
     (if stReadOnly st then sfail (Error ''read-only'')
      else
        sbind (deletePass z bo st (\<lambda>cf. cf \<in> fst ` set pairsByCf) deletedByCf deletedByCf baseTrees) (\<lambda>trees1.
        sbind (mergePass z bo st deletedByCf pairsByCf trees1) (\<lambda>newTrees.
          onBlobs (writeRoot z bo now newTrees))))"

definition CommitMergeKv ::
  "zstd \<Rightarrow> 's blob_ops \<Rightarrow> int64 \<Rightarrow> (nat \<times> (bytes \<times> bytes) list) list \<Rightarrow> (nat \<times> bytes list) list \<Rightarrow>
   Store \<times> 's \<times> pageCache \<Rightarrow> string result \<times> Store \<times> 's \<times> pageCache" where
  "CommitMergeKv z bo now pairsByCf deletedByCf ss =
     (case PrepareMergeKv z bo now (fst ss) (stTrees (fst ss)) pairsByCf deletedByCf (snd ss) of
        (Inl e, sc) \<Rightarrow> (Inl e, fst ss, sc)
      | (Inr (trees, root), sc) \<Rightarrow> (Inr root, PublishTrees trees root (fst ss), sc))"

section \<open>Reading keys\<close>

lemma hasPrefix_iff: "hasPrefix k p \<longleftrightarrow> prefix p k"
  by (auto simp: hasPrefix_def list_all_iff prefix_def nth_append not_less
      intro!: exI [of _ "drop (length p) k"] nth_equalityI)

lemma matchingKeys_leaf:
  assumes "DeserializePage d = Inr ks" "length (concat ks) < 2 ^ 31"
  shows "DecodePageFlat d = Inr (ToFlat ks)" "matchingKeys p (ToFlat ks) = filter (prefix p) ks"
  using assms ToFlat_keys [OF assms(2)] by (simp_all add: DecodePageFlat_nested matchingKeys_def hasPrefix_iff [abs_def])

text \<open>\<open>reads f c Q xs\<close>: from a cache that agrees with the pages the read returns \<open>xs\<close> and leaves such a cache.\<close>

definition reads :: "pages \<Rightarrow> ('a, pageCache) action \<Rightarrow> 'a \<Rightarrow> bool" where
  "reads P f x \<longleftrightarrow> (\<forall>c. coherent P c \<longrightarrow> (\<exists>c'. f c = (Inr x, c') \<and> keeps P c c'))"

lemma reads_bind: "reads P f x \<Longrightarrow> reads P (g x) y \<Longrightarrow> reads P (sbind f g) y"
  unfolding reads_def sbind_def using keeps_coherent keeps_trans by fastforce

lemma reads_return: "reads P (sreturn x) x"
  by (simp add: reads_def sreturn_def keeps_def)

lemma reads_forEntries:
  assumes "list_all2 (\<lambda>e xs. reads P (f e) xs) es xss"
  shows "reads P (forEntries f es) (concat xss)"
  using assms
proof (induction es xss rule: list_all2_induct)
  case (Cons e es xs xss)
  then show ?case by (auto intro!: reads_bind [OF Cons.hyps(1)] reads_bind [OF Cons.IH] reads_return)
qed (simp add: reads_return)

lemma reads_leaf:
  assumes "tree (pageOf z bo s) 0 u ks"
  shows "reads (pageOf z bo s) (leafKeysWith z bo s p u) (filter (prefix p) ks)"
proof -
  obtain d where d: "pageOf z bo s u = Some d" "DeserializePage d = Inr ks" "length (concat ks) < 2 ^ 31"
    using assms by auto
  note m = matchingKeys_leaf [OF d(2,3)]
  have "reads (pageOf z bo s) (loadLeafKeys z bo s u) (ToFlat ks)"
    unfolding reads_def using loads_correct(1) [OF _ d(1) m(1)] by blast
  then show ?thesis unfolding leafKeysWith_def using reads_return m(2) by (metis reads_bind)
qed

lemma concat_slice:
  assumes "\<And>i. i < length xs \<Longrightarrow> \<not> (a \<le> i \<and> i < b) \<Longrightarrow> f (xs ! i) = []"
  shows "concat (map f (slice xs a b)) = concat (map f xs)"
proof -
  have nil: "concat (map f ys) = []" if "\<And>y. y \<in> set ys \<Longrightarrow> f y = []" for ys using that by auto
  have "concat (map f (take a xs)) = []"
    by (rule nil) (use assms in \<open>auto simp: in_set_conv_nth\<close>)
  moreover have "concat (map f (drop (b - a) (drop a xs))) = []"
    by (rule nil) (use assms in \<open>auto simp: in_set_conv_nth\<close>)
  moreover have "xs = take a xs @ slice xs a b @ drop (b - a) (drop a xs)"
    unfolding slice_def by (simp only: append_take_drop_id)
  ultimately show ?thesis by (metis append_Nil append_Nil2 concat_append map_append)
qed

lemma ascending_boundaries:
  assumes "forest P h es kss" "ascending (concat kss)"
  shows "ascending (map ieKey es)" "i < length es \<Longrightarrow> k \<in> set (kss ! i) \<Longrightarrow> ieKey (es ! i) \<le> k"
    "i + 1 < length es \<Longrightarrow> k \<in> set (kss ! i) \<Longrightarrow> k < ieKey (es ! (i + 1))"
proof -
  have "ascending (map ieKey es) \<and> (\<forall>i k. i < length es \<longrightarrow> k \<in> set (kss ! i) \<longrightarrow> ieKey (es ! i) \<le> k)
    \<and> (\<forall>i k. i + 1 < length es \<longrightarrow> k \<in> set (kss ! i) \<longrightarrow> k < ieKey (es ! (i + 1)))"
    using assms
  proof (induction es arbitrary: kss)
    case (Cons e es)
    then obtain l ls where l: "kss = l # ls" "ieKey e = hd l" "tree P h (ieUUID e) l" "forest P h es ls" by auto
    have a: "ascending (l @ concat ls)" using Cons.prems(2) l(1) by simp
    note IH = Cons.IH [OF l(4)]
    have ls: "ascending (concat ls)" "ascending l" using a by (simp_all add: sorted_wrt_append)
    have ne: "l \<noteq> []" using tree_nonempty l(3) by blast
    then have e: "\<forall>k \<in> set l. ieKey e \<le> k" using ls(2) l(2) by (cases l) auto
    have e2: "\<forall>k \<in> set l. k < ieKey e2" if "es = e2 # es2" for e2 es2
      using forest_bounds(1) [of P h e2 es2 ls l] l(4) a that by simp
    have "\<forall>x \<in> set es. ieKey e < ieKey x"
    proof (cases es)
      case (Cons e2 es2)
      have "ieKey e < ieKey e2" using e2 [OF Cons] e ne l(2) by simp
      then show ?thesis using IH [OF ls(1)] Cons by auto
    qed simp
    moreover have "k < ieKey ((e # es) ! (i + 1))" if "i + 1 < length (e # es)" "k \<in> set (kss ! i)" for i k
      using that e2 IH [OF ls(1)] l(1) by (cases i; cases es) auto
    moreover have "ieKey ((e # es) ! i) \<le> k" if "i < length (e # es)" "k \<in> set (kss ! i)" for i k
      using that e IH [OF ls(1)] l(1) by (cases i) auto
    ultimately show ?case using IH [OF ls(1)] by simp
  qed simp
  then show "ascending (map ieKey es)" "i < length es \<Longrightarrow> k \<in> set (kss ! i) \<Longrightarrow> ieKey (es ! i) \<le> k"
    "i + 1 < length es \<Longrightarrow> k \<in> set (kss ! i) \<Longrightarrow> k < ieKey (es ! (i + 1))" by blast+
qed

lemma range_keys:
  assumes f: "forest P h es kss" "ascending (concat kss)" and r: "FindPrefixRange es p = (a, b)"
  shows "concat (map (filter (prefix p)) (slice kss a b)) = filter (prefix p) (concat kss)"
proof -
  have len: "length kss = length es" using f(1) by (auto simp: forest_def dest: list_all2_lengthD)
  have "filter (prefix p) (kss ! i) = []" if i: "i < length kss" "\<not> (a \<le> i \<and> i < b)" for i
  proof (rule ccontr)
    assume "filter (prefix p) (kss ! i) \<noteq> []"
    then obtain k where k: "k \<in> set (kss ! i)" "prefix p k" by (auto simp: filter_empty_conv)
    note b = ascending_boundaries [OF f]
    have "a \<le> i \<and> i < b"
      by (rule prefix_range_covers [OF b(1) r k(2)]) (use i(1) len k(1) b(2,3) in auto)
    then show False using i(2) by blast
  qed
  then have "concat (map (filter (prefix p)) (slice kss a b)) = concat (map (filter (prefix p)) kss)"
    by (rule concat_slice)
  then show ?thesis by (simp add: filter_concat)
qed

lemma reads_range:
  assumes "pageOf z bo s u = Some d" "DeserializeIndexPage d = Inr es" "FindPrefixRange es p = (a, b)"
  shows "reads P (rangeEntries z bo s what u p) (slice es a b)"
  using assms by (simp add: reads_def rangeEntries_def sbind_def slift_def sreturn_def pageOf_Some keeps_def)

lemma forest_slice: "forest P h es kss \<Longrightarrow> forest P h (slice es a b) (slice kss a b)"
  unfolding forest_def slice_def by (intro list_all2_takeI list_all2_dropI)

lemma reads_index:
  assumes t: "tree (pageOf z bo s) (Suc h) u ks" "ascending ks"
    and child: "\<And>e l. tree (pageOf z bo s) h (ieUUID e) l \<Longrightarrow> ascending l \<Longrightarrow> reads (pageOf z bo s) (f e) (filter (prefix p) l)"
  shows "reads (pageOf z bo s) (sbind (rangeEntries z bo s what u p) (forEntries f)) (filter (prefix p) ks)"
proof -
  obtain d es kss where k: "pageOf z bo s u = Some d" "DeserializeIndexPage d = Inr es" "ks = concat kss"
    "forest (pageOf z bo s) h es kss" using t(1) unfolding tree_Suc by blast
  obtain a b where r: "FindPrefixRange es p = (a, b)" by fastforce
  have "list_all2 (\<lambda>e l. reads (pageOf z bo s) (f e) (filter (prefix p) l)) (slice es a b) (slice kss a b)"
  proof -
    have "ascending l" if "l \<in> set kss" for l
      using t(2) k(3) that by (metis in_set_conv_decomp concat.simps(2) concat_append sorted_wrt_append)
    then have "ascending l" if "l \<in> set (slice kss a b)" for l
      using that by (auto simp: slice_def dest: in_set_takeD in_set_dropD)
    then show ?thesis using forest_slice [OF k(4), of a b] child
      unfolding forest_def list_all2_conv_all_nth by (metis nth_mem)
  qed
  then have "list_all2 (\<lambda>e xs. reads (pageOf z bo s) (f e) xs) (slice es a b) (map (filter (prefix p)) (slice kss a b))"
    by (simp add: list_all2_map2)
  then have "reads (pageOf z bo s) (forEntries f (slice es a b)) (filter (prefix p) ks)"
    using reads_forEntries range_keys [OF k(4) _ r] t(2) k(3) by metis
  then show ?thesis by (rule reads_bind [OF reads_range [OF k(1,2) r]])
qed

lemma reads_collect:
  "tree (pageOf z bo s) (Suc h) u ks \<Longrightarrow> ascending ks \<Longrightarrow>
     reads (pageOf z bo s) (collectKeysFromIndex z bo s h p u) (filter (prefix p) ks)"
proof (induction h arbitrary: u ks)
  case 0
  show ?case unfolding collectKeysFromIndex.simps by (rule reads_index [OF 0]) (rule reads_leaf)
next
  case (Suc h)
  show ?case unfolding collectKeysFromIndex.simps by (rule reads_index [OF Suc.prems]) (rule Suc.IH)
qed

lemma reads_GetKeysInPrefix:
  assumes "cf < stNumCf st" "cf < length (stTrees st)" "cf_tree (pageOf z bo s) (stTrees st ! cf) ks"
  shows "reads (pageOf z bo s) (GetKeysInPrefix z bo s st (int cf) p) (filter (prefix p) ks)"
proof -
  let ?t = "stTrees st ! cf"
  have tr: "treeAt (int cf) st = ?t" using assms(2) by (simp add: treeAt_def)
  show ?thesis
  proof (cases "RootUUID ?t = EmptyUUID")
    case True
    then show ?thesis using assms tr reads_return by (simp add: GetKeysInPrefix_def cf_tree_def)
  next
    case False
    then have t: "tree (pageOf z bo s) (unat (Height ?t)) (RootUUID ?t) ks" "ascending ks"
      using assms(3) by (auto simp: cf_tree_def)
    show ?thesis
    proof (cases "Height ?t = 0")
      case True
      then show ?thesis using False assms(1) tr t reads_leaf [of z bo s "RootUUID ?t" ks p] by (simp add: GetKeysInPrefix_def)
    next
      case nz: False
      then have "unat (Height ?t) \<noteq> 0" by (simp add: unat_eq_zero)
      then have h: "unat (Height ?t) = Suc (unat (Height ?t) - 1)" by simp
      have "reads (pageOf z bo s) (collectKeysFromIndex z bo s (unat (Height ?t) - 1) p (RootUUID ?t)) (filter (prefix p) ks)"
        by (rule reads_collect) (use t h in simp_all)
      then show ?thesis using nz False assms(1) tr by (simp add: GetKeysInPrefix_def Let_def)
    qed
  qed
qed

text \<open>A prefix read is exact: on a well-formed tree of any height, with any cache that agrees with the pages,
  \<open>GetKeysInPrefix\<close> returns the keys that start with the prefix, all of them and in order, and the cache still
  agrees with the pages.\<close>

theorem GetKeysInPrefix_exact:
  assumes "cf < stNumCf st" "cf < length (stTrees st)" "cf_tree (pageOf z bo s) (stTrees st ! cf) ks"
    and "coherent (pageOf z bo s) c"
  shows "\<exists>c'. GetKeysInPrefix z bo s st (int cf) p c = (Inr (filter (prefix p) ks), c') \<and> coherent (pageOf z bo s) c'"
  using reads_GetKeysInPrefix [OF assms(1-3), of p] assms(4) keeps_coherent unfolding reads_def by blast

lemma reads_KeyExists:
  assumes "cf < stNumCf st" "cf < length (stTrees st)" "cf_tree (pageOf z bo s) (stTrees st ! cf) ks"
  shows "reads (pageOf z bo s) (KeyExists z bo s st (int cf) key) (key \<in> set ks)"
proof -
  have "list_ex (\<lambda>k. CmpSeq k key = 0) (filter (prefix key) ks) \<longleftrightarrow> key \<in> set ks"
    by (auto simp: list_ex_iff cmp_simps)
  then show ?thesis unfolding KeyExists_def
    by (intro reads_bind [OF reads_GetKeysInPrefix [OF assms]]) (simp add: reads_return)
qed

text \<open>C16. Keys are found after a merge: once \<open>CommitMerge\<close> has run on a store without faults, \<open>KeyExists\<close> reports a key
  exactly when it was in the column family before or was merged into it.\<close>

theorem KeyExists_after_merge:
  assumes "\<forall>x. Decompress z (compress z x) = Inr x" "disk_clean d" "\<not> stReadOnly st"
    and "trees_hold (pageOf z (fileOps False) d) (stTrees st) kss" "batch_ok kss keysByCf" "length (stTrees st) < 65536"
    and "CommitMerge z (fileOps False) now keysByCf (st, d) = (r, st', d')" "\<not> disk_dry d'"
    and "cf < stNumCf st" "cf < length (stTrees st)" "coherent (pageOf z (fileOps False) d') c"
  shows "\<exists>c'. KeyExists z (fileOps False) d' st' (int cf) key c =
      (Inr (key \<in> set (kss ! cf) \<or> key \<in> set (keysOf keysByCf cf)), c')"
proof -
  obtain kss' where r: "r = Inr (MakeRootName now)" and
    k: "trees_hold (pageOf z (fileOps False) d') (stTrees st') kss'" "batch_merged kss keysByCf kss'"
    using commit_union [OF assms(1-8)] by blast
  have len: "length (stTrees st') = length kss'" "length (stTrees st) = length kss"
    using list_all2_lengthD k(1) assms(4) unfolding trees_hold_def by blast+
  have cf: "cf < length kss" using assms(10) len(2) by simp
  have l: "cf < length (stTrees st')" "length kss' = length kss" using cf len(1) k(2) by (simp_all add: batch_merged_def)
  have "stNumCf st' = stNumCf st"
    using assms(7) by (auto simp: CommitMerge_def PublishTrees_def split: sum.splits prod.splits)
  moreover have "set (kss' ! cf) = set (kss ! cf) \<union> set (keysOf keysByCf cf)"
    using k(2) cf by (simp add: batch_merged_def merged_def)
  ultimately have "reads (pageOf z (fileOps False) d') (KeyExists z (fileOps False) d' st' (int cf) key)
      (key \<in> set (kss ! cf) \<or> key \<in> set (keysOf keysByCf cf))"
    using reads_KeyExists [of cf st' z "fileOps False" d' "kss' ! cf" key] assms(9) l(1) trees_hold_nth [OF k(1) l(1)]
    by simp
  then show ?thesis using assms(11) unfolding reads_def by blast
qed

lemma new_cache_coherent: "0 \<le> n \<Longrightarrow> coherent P (newPageCache n)"
  by (simp add: coherent_def newPageCache_def cache_ok_def sizes_def)

text \<open>One leaf as the root of the only column family.\<close>

definition leafDisk :: disk where
  "leafDisk = \<lparr>dFiles = [(blobPath (replicate 16 7), compress storedFrames (SerializePage demoKeys))], dFaults = [], dBad = [], dRand = []\<rparr>"

definition leafStore :: Store where
  "leafStore = \<lparr>stTrees = [\<lparr>RootUUID = replicate 16 7, Height = 0, NumLeaves = 0\<rparr>], stNumCf = 1, stReadOnly = False, stRoot = ''''\<rparr>"

lemma leaf_tree: "cf_tree (pageOf storedFrames (fileOps False) leafDisk) (stTrees leafStore ! 0) demoKeys"
proof -
  have "pageOf storedFrames (fileOps False) leafDisk (replicate 16 7) = Some (SerializePage demoKeys)"
    using storedFrames_inverse
    by (simp add: pageOf_def blobGet_def decompressOpt_def fileOps_def fbGet_def readFile_def leafDisk_def)
  moreover have "DeserializePage (SerializePage demoKeys) = Inr demoKeys" by code_simp
  moreover have "replicate 16 (7::byte) \<noteq> EmptyUUID" by code_simp
  ultimately show ?thesis using demo_ids(3)
    by (simp add: cf_tree_def leafStore_def demoKeys_def key_ok_def)
qed

theorem GetKeysInPrefix_exact_witness:
  "\<exists>c'. GetKeysInPrefix storedFrames (fileOps False) leafDisk leafStore 0 [2, 2] (newPageCache 1000) = (Inr [replicate 9 2], c')"
proof -
  have f: "filter (prefix [2, 2]) demoKeys = [replicate 9 2]" by code_simp
  show ?thesis
    using GetKeysInPrefix_exact [OF _ _ leaf_tree new_cache_coherent, of 1000 "[2, 2]"]
    by (auto simp: f leafStore_def)
qed

theorem KeyExists_after_merge_witness:
  "\<exists>r st' d' c'. CommitMerge storedFrames (fileOps False) 1 [(0, demoKeys)] (demoPages, demoDisk) = (r, st', d')
     \<and> KeyExists storedFrames (fileOps False) d' st' 0 (replicate 9 1) (newPageCache 1000) = (Inr True, c')"
proof -
  obtain r st' d' where c: "CommitMerge storedFrames (fileOps False) 1 [(0, demoKeys)] (demoPages, demoDisk) = (r, st', d')"
    using prod_cases3 by blast
  have "\<not> disk_dry d'" using c demo_run by (simp add: disk_dry_def)
  moreover have "replicate 9 1 \<in> set (keysOf [(0, demoKeys)] 0)" by (simp add: keysOf_def demoKeys_def)
  ultimately have "\<exists>c'. KeyExists storedFrames (fileOps False) d' st' (int 0) (replicate 9 1) (newPageCache 1000) = (Inr True, c')"
    using KeyExists_after_merge [OF _ demo_ok(1) _ demo_ok(2,3) _ c _ _ _ new_cache_coherent, of 0 1000 "replicate 9 1"]
      storedFrames_inverse by (auto simp: demoPages_def)
  then show ?thesis using c by auto
qed

section \<open>Key-value merges\<close>

lemma keepPairs_map: "map_of (keepPairs del ps) k = (if del k then None else map_of ps k)"
  by (induction ps) (auto simp: keepPairs_def)

lemma mergePairs_keys: "set (mergePairs del as bs) \<subseteq> set as \<union> set bs"
  by (induction del as bs rule: mergePairs.induct) (auto simp: keepPairs_def Let_def split: if_splits)

lemma CmpSeq_pos [cmp_simps]: "0 < CmpSeq a b \<longleftrightarrow> b < a"
  using CmpSeq_simps(2) [of a b] by (metis not_le)

lemma ascending_keepPairs: "ascending (map fst ps) \<Longrightarrow> ascending (map fst (keepPairs del ps))"
  unfolding keepPairs_def by (induction ps) auto

text \<open>In the key-value merge the new value wins and deletion wins over both: from ascending inputs the
  merged list is ascending, and looking a key up in it finds nothing if the key is deleted, else its new value
  if there is one, else its old one.\<close>

theorem mergePairs_newest_wins:
  assumes "ascending (map fst live)" "ascending (map fst new)"
  shows "ascending (map fst (mergePairs del live new))
    \<and> map_of (mergePairs del live new) k = (if del k then None else (map_of live ++ map_of new) k)"
  using assms
proof (induction del live new rule: mergePairs.induct)
  case (1 del bs)
  then show ?case by (simp add: keepPairs_map ascending_keepPairs)
next
  case (2 del a as)
  then show ?case using ascending_keepPairs [of "a # as" del] by (simp add: keepPairs_map)
next
  case (3 del a as b bs)
  have none: "map_of ps x = None" if "\<forall>y \<in> fst ` set ps. x < y" for ps and x :: bytes
    using that by (auto simp: map_of_eq_None_iff)
  consider "fst a < fst b" | "fst b < fst a" | "fst a = fst b" by fastforce
  then show ?case
  proof cases
    case 1
    have "ascending (map fst (mergePairs del as (b # bs)))
        \<and> map_of (mergePairs del as (b # bs)) k = (if del k then None else (map_of as ++ map_of (b # bs)) k)"
      by (rule "3.IH"(1)) (use 1 "3.prems" in \<open>auto simp: cmp_simps\<close>)
    moreover have "\<forall>y \<in> fst ` set (mergePairs del as (b # bs)). fst a < y"
      using mergePairs_keys [of del as "b # bs"] "3.prems" 1 by fastforce
    moreover have "map_of (b # bs) (fst a) = None" by (rule none) (use 1 "3.prems" in auto)
    ultimately show ?thesis using 1 by (auto simp: cmp_simps keepPairs_def map_add_def Let_def split: option.split)
  next
    case 2
    have "ascending (map fst (mergePairs del (a # as) bs))
        \<and> map_of (mergePairs del (a # as) bs) k = (if del k then None else (map_of (a # as) ++ map_of bs) k)"
      by (rule "3.IH"(2)) (use 2 "3.prems" in \<open>auto simp: cmp_simps\<close>)
    moreover have "\<forall>y \<in> fst ` set (mergePairs del (a # as) bs). fst b < y"
      using mergePairs_keys [of del "a # as" bs] "3.prems" 2 by fastforce
    ultimately show ?thesis using 2 by (auto simp: cmp_simps keepPairs_def map_add_def Let_def split: option.split)
  next
    case eq: 3
    have "ascending (map fst (mergePairs del as bs))
        \<and> map_of (mergePairs del as bs) k = (if del k then None else (map_of as ++ map_of bs) k)"
      by (rule "3.IH"(3)) (use eq "3.prems" in \<open>auto simp: cmp_simps\<close>)
    moreover have "\<forall>y \<in> fst ` set (mergePairs del as bs). fst b < y"
      using mergePairs_keys [of del as bs] "3.prems" eq by fastforce
    ultimately show ?thesis using eq by (auto simp: cmp_simps keepPairs_def map_add_def Let_def split: option.split)
  qed
qed

theorem mergePairs_newest_wins_witness:
  "ascending (map fst (mergePairs (\<lambda>k. k = [3]) [([1], [10]), ([3], [30])] [([1], [11]), ([2], [20]), ([3], [31])]))
   \<and> map_of (mergePairs (\<lambda>k. k = [3]) [([1], [10]), ([3], [30])] [([1], [11]), ([2], [20]), ([3], [31])]) [1] = Some [11]"
  using mergePairs_newest_wins [of "[([1], [10]), ([3], [30])]" "[([1], [11]), ([2], [20]), ([3], [31])]" "\<lambda>k. k = [3]" "[1]"]
  by simp

text \<open>A tree of height three: a root, one page below it, two lowest index pages, each with one leaf.\<close>

definition deepDisk :: disk where
  "deepDisk =
     (let e = (\<lambda>k i. entryOf [k] (replicate 16 i))
      in \<lparr>dFiles = map (\<lambda>(i, d). (blobPath (replicate 16 i), d))
            [(1, SerializeIndexPage [e 1 2]), (2, SerializeIndexPage [e 1 3, e 5 4]),
             (3, SerializeIndexPage [e 1 5]), (4, SerializeIndexPage [e 5 6]),
             (5, SerializePageKv [([1], [10])]), (6, SerializePageKv [([5], [50])])],
          dFaults = [], dBad = [], dRand = []\<rparr>)"

definition deepStore :: Store where
  "deepStore = \<lparr>stTrees = [\<lparr>RootUUID = replicate 16 1, Height = 3, NumLeaves = 2\<rparr>], stNumCf = 1, stReadOnly = False, stRoot = ''''\<rparr>"

text \<open>\<open>GetPairsInPrefix\<close> loses the order in trees of height three: it pops the index pages of the third level
  from the right, so it returns the pairs of the right page first, which the merge of the next flush takes for
  sorted input.\<close>

theorem deep_pairs_out_of_order:
  "fst (GetPairsInPrefix storedFrames (fileOps False) deepDisk deepStore 0 [] (newPageCache 1000)) = Inr [([5], [50]), ([1], [10])]"
  by code_simp

end
