(* ===== verification/KVStore.thy ===== *)
theory KVStore
  imports MergedScan Wal Reads
begin

text \<open>
  The storage facade, \<^verbatim>\<open>src/go/internal/kvstore/kvstore.go\<close>: writes go to the journal and the memtable, point reads
  and scans look at the memtable and the page trees, and a flush moves the frozen memtable into the trees in
  three steps (capture, prepare, publish) between which other writes run. The blob operations, zstd and the
  callbacks are parameters; the callbacks act on a state \<open>'w\<close> of their own and on the journal directory.
\<close>

section \<open>Configuration\<close>

record S3Config =
  s3Endpoint :: string
  s3Bucket :: string
  s3Region :: string
  s3AccessKey :: string
  s3SecretKey :: string
  s3Prefix :: string
  s3PathStyle :: bool

record Config =
  cfgBackend :: string
  cfgPath :: string
  cfgReadOnly :: bool
  cfgNumCf :: int
  cfgFlushThreshold :: uint64
  cfgReplayOff :: bool
  cfgPageCacheSize :: int
  cfgOwnsPath :: bool
  cfgGcMaxAgeSecs :: uint64
  cfgGcMaxRootCount :: int
  cfgS3 :: S3Config

text \<open>\<open>strconv.ParseUint(s, 10, 64)\<close>: digits only, below \<open>2 ^ 64\<close>.\<close>

definition parseUint :: "string \<Rightarrow> uint64 option" where
  "parseUint s =
     (if s = [] then None
      else case digitsVal s 0 of None \<Rightarrow> None | Some n \<Rightarrow> if n < 2 ^ 64 then Some (word_of_nat n) else None)"

definition mapGet :: "(string \<Rightarrow> string option) \<Rightarrow> string \<Rightarrow> string \<Rightarrow> string" where
  "mapGet m k def = (case m k of Some v \<Rightarrow> v | None \<Rightarrow> def)"

definition orElse :: "'a option \<Rightarrow> 'a \<Rightarrow> 'a" where
  "orElse x d = (case x of Some v \<Rightarrow> v | None \<Rightarrow> d)"

definition FromMap :: "(string \<Rightarrow> string option) \<Rightarrow> Config" where
  "FromMap m =
     \<lparr>cfgBackend = mapGet m ''backend'' ''file'', cfgPath = mapGet m ''path'' '''',
      cfgReadOnly = (mapGet m ''read_only'' ''false'' = ''true''),
      cfgNumCf = orElse (atoi (mapGet m ''num_cf'' ''64'')) 64,
      cfgFlushThreshold = orElse (parseUint (mapGet m ''flush_threshold'' ''16777216'')) 16777216,
      cfgReplayOff = (mapGet m ''replay_off'' ''false'' = ''true''),
      cfgPageCacheSize = orElse (atoi (mapGet m ''page_cache_size'' ''0'')) 0,
      cfgOwnsPath = (mapGet m ''owns_path'' ''false'' = ''true''),
      cfgGcMaxAgeSecs = orElse (parseUint (mapGet m ''gc_max_age_secs'' ''43200'')) 43200,
      cfgGcMaxRootCount = orElse (atoi (mapGet m ''gc_root_count'' ''10'')) 10,
      cfgS3 = \<lparr>s3Endpoint = mapGet m ''endpoint'' '''', s3Bucket = mapGet m ''bucket_name'' '''',
               s3Region = mapGet m ''region'' '''', s3AccessKey = mapGet m ''access_key'' '''',
               s3SecretKey = mapGet m ''secret_key'' '''', s3Prefix = mapGet m ''prefix'' '''',
               s3PathStyle = (mapGet m ''path_style'' ''true'' = ''true'')\<rparr>\<rparr>"

section \<open>The store\<close>

text \<open>
  \<open>kvBlobs\<close> and \<open>kvCache\<close> are the blobs and the page cache behind \<open>PS\<close>. The pointer \<open>WalDurableUpTo\<close> is an
  option. The world is the state of the callbacks with the journal directory. The counters of nanoseconds are
  left out.
\<close>

record ('s, 'w) KVStore =
  kvPS :: Store
  kvBlobs :: 's
  kvCache :: pageCache
  kvMT :: MemTable
  memSize :: uint64
  kvReadOnly :: bool
  kvNumCf :: nat
  FlushThreshold :: uint64
  GcMaxAgeSecs :: uint64
  GcMaxRootCount :: int
  flushActive :: bool
  kvPath :: string
  ownsPath :: bool
  WalDurableUpTo :: "int option"
  bwCount :: int64
  bwKeys :: int64
  kvWorld :: "'w \<times> jdisk"

text \<open>The callbacks; \<open>None\<close> is the Go \<open>nil\<close>.\<close>

record 'w hooks =
  JournalSink :: "(CfKey list \<Rightarrow> 'w \<times> jdisk \<Rightarrow> 'w \<times> jdisk) option"
  JournalSeal :: "('w \<times> jdisk \<Rightarrow> int \<times> 'w \<times> jdisk) option"
  OnFlushRequest :: "('w \<times> jdisk \<Rightarrow> 'w \<times> jdisk) option"
  OnFlushPublish :: "(string \<Rightarrow> int \<Rightarrow> 'w \<times> jdisk \<Rightarrow> 'w \<times> jdisk) option"

definition noHooks :: "'w hooks" where
  "noHooks = \<lparr>JournalSink = None, JournalSeal = None, OnFlushRequest = None, OnFlushPublish = None\<rparr>"

definition WriteStats :: "('s, 'w) KVStore \<Rightarrow> int64 \<times> int64" where
  "WriteStats kv = (bwCount kv, bwKeys kv)"

definition ResetWriteCounters :: "('s, 'w) KVStore \<Rightarrow> ('s, 'w) KVStore" where
  "ResetWriteCounters kv = kv\<lparr>bwCount := 0, bwKeys := 0\<rparr>"

definition MemtableSize :: "('s, 'w) KVStore \<Rightarrow> uint64" where
  "MemtableSize kv = memSize kv"

definition journaling :: "('s, 'w) KVStore \<Rightarrow> bool" where
  "journaling kv \<longleftrightarrow> kvPath kv \<noteq> [] \<and> \<not> kvReadOnly kv"

text \<open>The result of a memtable operation, stored back: \<open>kv.memSize.Store(kv.MT.f(...))\<close>.\<close>

definition storeSized :: "(MemTable \<times> uint64) result \<Rightarrow> ('s, 'w) KVStore \<Rightarrow> ('s, 'w) KVStore result" where
  "storeSized r kv = (case r of Inl e \<Rightarrow> Inl e | Inr (mt, n) \<Rightarrow> Inr (kv\<lparr>kvMT := mt, memSize := n\<rparr>))"

text \<open>
  \<open>New\<close>: \<open>d\<close> is the opened blob backend, \<open>w\<close> the world, \<open>now\<close> names the root of a new store. A negative number of
  column families makes a slice of negative length, for the trees of a new store or for the memtable.
\<close>

definition NewKVStore ::
  "zstd \<Rightarrow> 's blob_ops \<Rightarrow> int64 \<Rightarrow> Config \<Rightarrow> 's \<Rightarrow> 'w \<times> jdisk \<Rightarrow> ('s, 'w) KVStore result" where
  "NewKVStore z bo now cfg d w =
     (let numCf = (if cfgNumCf cfg = 0 then 64 else cfgNumCf cfg);
          threshold = (if cfgFlushThreshold cfg = 0 then 16777216 else cfgFlushThreshold cfg);
          cacheSize = (if cfgPageCacheSize cfg = 0 then 536870912 else cfgPageCacheSize cfg)
      in if cfgPath cfg = [] then Inl (Error ''kvstore: path is required'')
         else if numCf < 0 then
           (case boListRoots bo d of
              Inl e \<Rightarrow> Inl e
            | Inr [] \<Rightarrow> Inl (Panic ''makeslice: len out of range'')
            | Inr _ \<Rightarrow> (case fst (OpenStore z bo now 0 (cfgReadOnly cfg) d) of
                Inl e \<Rightarrow> Inl e | Inr _ \<Rightarrow> Inl (Panic ''makeslice: len out of range'')))
         else
           (case OpenStore z bo now (nat numCf) (cfgReadOnly cfg) d of
              (Inl e, _) \<Rightarrow> Inl e
            | (Inr ps, d1) \<Rightarrow>
                rbind (NewMemTable (nat numCf)) (\<lambda>mt0.
                  let kv = \<lparr>kvPS = ps, kvBlobs = d1, kvCache = newPageCache cacheSize, kvMT = mt0, memSize = 0,
                            kvReadOnly = cfgReadOnly cfg, kvNumCf = nat numCf, FlushThreshold = threshold,
                            GcMaxAgeSecs = cfgGcMaxAgeSecs cfg, GcMaxRootCount = cfgGcMaxRootCount cfg,
                            flushActive = False, kvPath = cfgPath cfg, ownsPath = cfgOwnsPath cfg,
                            WalDurableUpTo = None, bwCount = 0, bwKeys = 0, kvWorld = w\<rparr>
                  in if cfgReadOnly cfg \<or> cfgReplayOff cfg then Inr kv
                     else storeSized (replayJournals (jFiles (snd w)) (mt0, 0)) kv)))"

section \<open>Journal delivery\<close>

text \<open>
  The legacy journal file: \<open>MkdirAll\<close> and \<open>OpenFile\<close> can fail, and then nothing is written; a failed \<open>Write\<close> is
  ignored and leaves the file as it was. The parent directory of the file is the journal directory.
\<close>

definition openLegacy :: "jdisk \<Rightarrow> bool \<times> jdisk" where
  "openLegacy d =
     (let (badDir, fs1) = takeFault (jOpenFaults d)
      in if badDir then (False, d\<lparr>jOpenFaults := fs1\<rparr>)
         else let (badOpen, fs2) = takeFault fs1; d1 = d\<lparr>jOpenFaults := fs2\<rparr>
              in if badOpen then (False, d1)
                 else (True, d1\<lparr>jFiles := (case map_of (jFiles d1) ''journal'' of
                         None \<Rightarrow> AList.update ''journal'' [] (jFiles d1) | Some _ \<Rightarrow> jFiles d1)\<rparr>))"

definition appendFile :: "bytes \<Rightarrow> jdisk \<Rightarrow> jdisk" where
  "appendFile rec d =
     (let (bad, fs) = takeFault (jWriteFaults d); d1 = d\<lparr>jWriteFaults := fs\<rparr>
      in if bad then d1
         else d1\<lparr>jFiles := AList.update ''journal'' (fileData (jFiles d1) ''journal'' @ rec) (jFiles d1)\<rparr>)"

definition appendLegacyJournal :: "bytes \<Rightarrow> ('s, 'w) KVStore \<Rightarrow> ('s, 'w) KVStore" where
  "appendLegacyJournal rec kv =
     (let (w, d) = kvWorld kv
      in case openLegacy d of
           (False, d1) \<Rightarrow> kv\<lparr>kvWorld := (w, d1)\<rparr>
         | (True, d1) \<Rightarrow> kv\<lparr>kvWorld := (w, appendFile rec d1)\<rparr>)"

definition journalDeliver :: "'w hooks \<Rightarrow> CfKey list \<Rightarrow> ('s, 'w) KVStore \<Rightarrow> ('s, 'w) KVStore" where
  "journalDeliver h entries kv =
     (case JournalSink h of
        Some sink \<Rightarrow> kv\<lparr>kvWorld := sink entries (kvWorld kv)\<rparr>
      | None \<Rightarrow>
          let (w, d) = kvWorld kv
          in case openLegacy d of
               (False, d1) \<Rightarrow> kv\<lparr>kvWorld := (w, d1)\<rparr>
             | (True, d1) \<Rightarrow>
                 kv\<lparr>kvWorld := (w, fold (\<lambda>e. appendFile (journalRecord (Cf e) (CfKey_Key e) None False)) entries d1)\<rparr>)"

section \<open>The replica stream\<close>

definition ApplyJournalRecords :: "bytes \<Rightarrow> ('s, 'w) KVStore \<Rightarrow> ('s, 'w) KVStore result" where
  "ApplyJournalRecords data kv =
     (if data = [] then Inr kv
      else let entries = ParseJournalRecords data
           in if entries = [] then Inr kv else storeSized (Batch entries (kvMT kv)) kv)"

definition ApplyJournalRecordsExpanded :: "CfKey list \<Rightarrow> ('s, 'w) KVStore \<Rightarrow> ('s, 'w) KVStore result" where
  "ApplyJournalRecordsExpanded entries kv =
     (if entries = [] then Inr kv else storeSized (Batch entries (kvMT kv)) kv)"

definition SealLiveToFlush :: "('s, 'w) KVStore \<Rightarrow> ('s, 'w) KVStore" where
  "SealLiveToFlush kv = kv\<lparr>kvMT := fst (FreezeAllCapture (kvMT kv)), flushActive := True, memSize := 0\<rparr>"

definition RootHasData :: "('s, 'w) KVStore \<Rightarrow> bool" where
  "RootHasData kv = list_ex (\<lambda>t. NumLeaves t > 0) (take 4 (stTrees (kvPS kv)))"

definition PublishRoot :: "zstd \<Rightarrow> 's blob_ops \<Rightarrow> string \<Rightarrow> ('s, 'w) KVStore \<Rightarrow> ('s, 'w) KVStore" where
  "PublishRoot z bo rootName kv =
     (case LoadRoot z bo rootName (kvBlobs kv) (kvPS kv) of
        (Inr True, ps) \<Rightarrow> kv\<lparr>kvPS := ps, kvMT := Publish (kvMT kv), flushActive := False, memSize := 0\<rparr>
      | (_, ps) \<Rightarrow> kv\<lparr>kvPS := ps\<rparr>)"

section \<open>Point operations\<close>

definition maybeArmFlush :: "'w hooks \<Rightarrow> ('s, 'w) KVStore \<Rightarrow> ('s, 'w) KVStore" where
  "maybeArmFlush h kv =
     (case OnFlushRequest h of
        Some f \<Rightarrow> if memSize kv \<ge> FlushThreshold kv then kv\<lparr>kvWorld := f (kvWorld kv)\<rparr> else kv
      | None \<Rightarrow> kv)"

definition KVGet :: "zstd \<Rightarrow> 's blob_ops \<Rightarrow> nat \<Rightarrow> bytes \<Rightarrow> ('s, 'w) KVStore \<Rightarrow> bool result \<times> ('s, 'w) KVStore" where
  "KVGet z bo cf key kv =
     (case ContainsAny cf key (kvMT kv) of
        Inl e \<Rightarrow> (Inl e, kv)
      | Inr True \<Rightarrow> (Inr True, kv)
      | Inr False \<Rightarrow>
          (case KeyExists z bo (kvBlobs kv) (kvPS kv) (int cf) key (kvCache kv) of (r, c) \<Rightarrow> (r, kv\<lparr>kvCache := c\<rparr>)))"

definition KVGetKv :: "zstd \<Rightarrow> 's blob_ops \<Rightarrow> nat \<Rightarrow> bytes \<Rightarrow> ('s, 'w) KVStore \<Rightarrow> bytes option result \<times> ('s, 'w) KVStore" where
  "KVGetKv z bo cf key kv =
     (case LookupKv cf key (kvMT kv) of
        Inl e \<Rightarrow> (Inl e, kv)
      | Inr KvValue \<Rightarrow> (GetValue cf key (kvMT kv), kv)
      | Inr KvDeleted \<Rightarrow> (Inr None, kv)
      | Inr KvAbsent \<Rightarrow>
          (case KeyExistsKv z bo (kvBlobs kv) (kvPS kv) (int cf) key (kvCache kv) of (r, c) \<Rightarrow> (r, kv\<lparr>kvCache := c\<rparr>)))"

definition KVPut :: "'w hooks \<Rightarrow> nat \<Rightarrow> bytes \<Rightarrow> ('s, 'w) KVStore \<Rightarrow> ('s, 'w) KVStore result" where
  "KVPut h cf key kv =
     rbind (storeSized (Put cf key (kvMT kv)) kv) (\<lambda>kv1.
       Inr (maybeArmFlush h
         (if journaling kv1 then journalDeliver h [\<lparr>Cf = word_of_nat cf, CfKey_Key = key\<rparr>] kv1 else kv1)))"

definition KVPutKv :: "'w hooks \<Rightarrow> nat \<Rightarrow> bytes \<Rightarrow> bytes \<Rightarrow> ('s, 'w) KVStore \<Rightarrow> ('s, 'w) KVStore result" where
  "KVPutKv h cf key val kv =
     rbind (storeSized (PutKv cf key val (kvMT kv)) kv) (\<lambda>kv1.
       Inr (maybeArmFlush h
         (if journaling kv1 \<and> JournalSink h = None
          then appendLegacyJournal (journalRecord (word_of_nat cf) key (Some val) False) kv1 else kv1)))"

definition KVDeleteKv :: "'w hooks \<Rightarrow> nat \<Rightarrow> bytes \<Rightarrow> ('s, 'w) KVStore \<Rightarrow> ('s, 'w) KVStore result" where
  "KVDeleteKv h cf key kv =
     rbind (DeleteKv cf key (kvMT kv)) (\<lambda>mt.
       let kv1 = kv\<lparr>kvMT := mt\<rparr>
       in Inr (maybeArmFlush h
            (if journaling kv1 \<and> JournalSink h = None
             then appendLegacyJournal (journalRecord (word_of_nat cf) key None True) kv1 else kv1)))"

text \<open>The journal is delivered before the counters and again after them.\<close>

definition BatchWrite :: "'w hooks \<Rightarrow> CfKey list \<Rightarrow> bool \<Rightarrow> ('s, 'w) KVStore \<Rightarrow> ('s, 'w) KVStore result" where
  "BatchWrite h entries journal kv =
     (let deliver = (\<lambda>k. if journal \<and> journaling k \<and> entries \<noteq> [] then journalDeliver h entries k else k);
          kv1 = deliver kv;
          kv2 = kv1\<lparr>bwCount := bwCount kv1 + 1, bwKeys := bwKeys kv1 + word_of_nat (length entries)\<rparr>;
          kv3 = deliver kv2
      in rbind (storeSized (Batch entries (kvMT kv3)) kv3) (\<lambda>kv4. Inr (maybeArmFlush h kv4)))"

definition JournalOnly :: "'w hooks \<Rightarrow> CfKey list \<Rightarrow> ('s, 'w) KVStore \<Rightarrow> ('s, 'w) KVStore" where
  "JournalOnly h entries kv = (if journaling kv \<and> entries \<noteq> [] then journalDeliver h entries kv else kv)"

section \<open>The flush\<close>

text \<open>
  The Go maps are association lists in the order of the column families; the nil slice \<open>captured\<close> is the empty
  list.
\<close>

record FlushBatch =
  KeysByCf :: "(nat \<times> bytes list) list"
  PairsByCf :: "(nat \<times> (bytes \<times> bytes) list) list"
  DeletedByCf :: "(nat \<times> bytes list) list"
  BaseTrees :: "CfTree list"
  SealBoundary :: int
  MaxT :: int
  captured :: "Run list list"

definition CaptureFlush :: "'w hooks \<Rightarrow> ('s, 'w) KVStore \<Rightarrow> FlushBatch option \<times> ('s, 'w) KVStore" where
  "CaptureFlush h kv =
     (if kvReadOnly kv \<or> flushActive kv then (None, kv)
      else
        let (mt, runs) = FreezeAllCapture (kvMT kv);
            kv1 = kv\<lparr>flushActive := True, kvMT := mt, memSize := 0\<rparr>;
            (boundary, kv2) = (case JournalSeal h of
                None \<Rightarrow> (-1, kv1)
              | Some seal \<Rightarrow> (case seal (kvWorld kv1) of (b, w) \<Rightarrow> (b, kv1\<lparr>kvWorld := w\<rparr>)))
        in (Some \<lparr>KeysByCf = [], PairsByCf = [], DeletedByCf = [], BaseTrees = stTrees (kvPS kv2),
                  SealBoundary = boundary, MaxT = -1, captured = runs\<rparr>, kv2))"

definition drainCf :: "nat \<Rightarrow> Run list \<Rightarrow> FlushBatch \<Rightarrow> FlushBatch" where
  "drainCf cf rs b =
     (if rs = [] then b
      else if cf \<ge> 10 then
        let (pairs, deleted) = DrainKvSorted rs;
            b1 = (if pairs \<noteq> [] then b\<lparr>PairsByCf := PairsByCf b @ [(cf, pairs)]\<rparr> else b)
        in if deleted \<noteq> [] then b1\<lparr>DeletedByCf := DeletedByCf b1 @ [(cf, deleted)]\<rparr> else b1
      else
        let keys = DrainSorted rs
        in if keys \<noteq> [] then b\<lparr>KeysByCf := KeysByCf b @ [(cf, keys)]\<rparr> else b)"

fun drainCfs :: "nat list \<Rightarrow> FlushBatch \<Rightarrow> FlushBatch result" where
  "drainCfs [] b = Inr b"
| "drainCfs (cf # cfs) b =
     (if cf \<ge> length (captured b) then Inl indexPanic else drainCfs cfs (drainCf cf (captured b ! cf) b))"

text \<open>The transaction of a datom key: its last eight bytes without the lowest bit.\<close>

definition keyT :: "bytes \<Rightarrow> int" where
  "keyT k = uint (drop_bit 1 (get_be (drop (length k - 8) k) :: 64 word))"

definition maxTOf :: "(nat \<times> bytes list) list \<Rightarrow> int \<Rightarrow> int" where
  "maxTOf keysByCf t0 =
     fold (\<lambda>(cf, keys) t. if cf \<ge> 10 then t else fold (\<lambda>k t. if length k < 8 then t else max t (keyT k)) keys t) keysByCf t0"

definition drainBatch :: "nat \<Rightarrow> FlushBatch \<Rightarrow> FlushBatch result" where
  "drainBatch n b =
     rbind (drainCfs [0..<n] b) (\<lambda>b1. Inr (b1\<lparr>captured := [], MaxT := maxTOf (KeysByCf b1) (MaxT b1)\<rparr>))"

text \<open>The caller keeps the batch, which \<open>drainBatch\<close> has changed in place; two clock readings name the roots.\<close>

definition PrepareFlush ::
  "zstd \<Rightarrow> 's blob_ops \<Rightarrow> int64 \<Rightarrow> int64 \<Rightarrow> FlushBatch \<Rightarrow> ('s, 'w) KVStore \<Rightarrow>
   (CfTree list \<times> string) result \<times> FlushBatch \<times> ('s, 'w) KVStore" where
  "PrepareFlush z bo now now2 b kv =
     (case drainBatch (kvNumCf kv) b of
        Inl e \<Rightarrow> (Inl e, b, kv)
      | Inr b1 \<Rightarrow>
          (case PrepareMerge z bo now (kvPS kv) (BaseTrees b1) (KeysByCf b1) (kvBlobs kv) of
             (Inl e, s1) \<Rightarrow> (Inl e, b1, kv\<lparr>kvBlobs := s1\<rparr>)
           | (Inr (trees, root), s1) \<Rightarrow>
               if PairsByCf b1 \<noteq> [] \<or> DeletedByCf b1 \<noteq> [] then
                 (case PrepareMergeKv z bo now2 (kvPS kv) trees (PairsByCf b1) (DeletedByCf b1) (s1, kvCache kv) of
                    (r, s2, c2) \<Rightarrow> (r, b1, kv\<lparr>kvBlobs := s2, kvCache := c2\<rparr>))
               else (Inr (trees, root), b1, kv\<lparr>kvBlobs := s1\<rparr>)))"

definition PublishFlush :: "'w hooks \<Rightarrow> FlushBatch \<Rightarrow> CfTree list \<Rightarrow> string \<Rightarrow> ('s, 'w) KVStore \<Rightarrow> ('s, 'w) KVStore" where
  "PublishFlush h b trees root kv =
     (let kv1 = kv\<lparr>kvPS := PublishTrees trees root (kvPS kv), kvMT := Publish (kvMT kv), flushActive := False, memSize := 0\<rparr>;
          kv2 = (if SealBoundary b \<ge> 0 \<and> WalDurableUpTo kv1 \<noteq> None
                 then kv1\<lparr>WalDurableUpTo := Some (SealBoundary b)\<rparr> else kv1)
      in case OnFlushPublish h of
           None \<Rightarrow> kv2
         | Some f \<Rightarrow> kv2\<lparr>kvWorld := f root (MaxT b) (kvWorld kv2)\<rparr>)"

definition AbortFlush :: "('s, 'w) KVStore \<Rightarrow> ('s, 'w) KVStore" where
  "AbortFlush kv = kv\<lparr>kvMT := Publish (kvMT kv), flushActive := False, memSize := 0\<rparr>"

text \<open>The synchronous flush; it does not abort when the preparation fails.\<close>

definition Flush :: "zstd \<Rightarrow> 's blob_ops \<Rightarrow> 'w hooks \<Rightarrow> int64 \<Rightarrow> int64 \<Rightarrow> ('s, 'w) KVStore \<Rightarrow> unit result \<times> ('s, 'w) KVStore" where
  "Flush z bo h now now2 kv =
     (case CaptureFlush h kv of
        (None, kv1) \<Rightarrow> (Inr (), kv1)
      | (Some b, kv1) \<Rightarrow>
          (case PrepareFlush z bo now now2 b kv1 of
             (Inl e, b1, kv2) \<Rightarrow> (Inl e, kv2)
           | (Inr (trees, root), b1, kv2) \<Rightarrow> (Inr (), PublishFlush h b1 trees root kv2)))"

section \<open>Scan cursors\<close>

text \<open>The pages as a cursor loads them; the page cache does not change what is loaded.\<close>

definition pageDecoded :: "zstd \<Rightarrow> 's blob_ops \<Rightarrow> 's \<Rightarrow> (bytes \<Rightarrow> 'a result) \<Rightarrow> UUID \<Rightarrow> 'a result" where
  "pageDecoded z bo s decode u =
     rbind (blobGet z bo u s) (\<lambda>x. case x of None \<Rightarrow> Inl (Error ''leaf blob not found'') | Some d \<Rightarrow> decode d)"

definition storeLoader :: "zstd \<Rightarrow> 's blob_ops \<Rightarrow> 's \<Rightarrow> loader" where
  "storeLoader z bo s =
     \<lparr>ldLeafKeys = pageDecoded z bo s DecodePageFlat, ldLeafPairs = pageDecoded z bo s DecodePageKvFlat,
      ldIndexPage = pageDecoded z bo s DeserializeIndexPage\<rparr>"

definition OpenScanCursor ::
  "zstd \<Rightarrow> 's blob_ops \<Rightarrow> nat \<Rightarrow> ('s, 'w) KVStore \<Rightarrow> (PageCursor MergedCursor \<times> ('s, 'w) KVStore) result" where
  "OpenScanCursor z bo cf kv =
     rbind (SnapshotRuns cf (kvMT kv)) (\<lambda>(mt, runs).
       let tree = treeAt (int cf) (kvPS kv);
           psc = NewPageCursor (RootUUID tree) (unat (Height tree)) False;
           sources = PageStoreCursor psc # runSources False runs;
           mc = NewMergedCursor (pageOps (storeLoader z bo (kvBlobs kv))) sources
       in Inr (mc\<lparr>mcCF := int cf, mcRootUUID := RootUUID tree, mcHeight := Height tree, mcRunGen := gen mt\<rparr>,
               kv\<lparr>kvMT := mt\<rparr>))"

definition OpenScanCursorKv ::
  "zstd \<Rightarrow> 's blob_ops \<Rightarrow> nat \<Rightarrow> ('s, 'w) KVStore \<Rightarrow> (PageCursor MergedCursor \<times> ('s, 'w) KVStore) result" where
  "OpenScanCursorKv z bo cf kv =
     rbind (SnapshotRuns cf (kvMT kv)) (\<lambda>(mt, runs).
       let tree = treeAt (int cf) (kvPS kv);
           pages = (if RootUUID tree \<noteq> EmptyUUID
                    then [PageStoreCursor (NewPageCursor (RootUUID tree) (unat (Height tree)) True)] else []);
           mc = NewMergedCursor (pageOps (storeLoader z bo (kvBlobs kv))) (pages @ runSources True runs)
       in Inr (mc\<lparr>mcIsKv := True, mcCF := int cf, mcRootUUID := RootUUID tree, mcHeight := Height tree, mcRunGen := gen mt\<rparr>,
               kv\<lparr>kvMT := mt\<rparr>))"

end
