(* ===== verification/FlushProtocol.thy ===== *)
theory FlushProtocol
  imports KVStore
begin

text \<open>
  What a client of the storage facade sees while a flush runs (\<^verbatim>\<open>src/go/internal/kvstore/kvstore.go\<close>, driven by \<open>runFlush\<close> of
  \<^verbatim>\<open>src/go/internal/transactor/server.go\<close>): a step relation interleaves writes, reads and the log's background work with
  capture, prepare, publish and abort, and every trace of it is a trace of three sets of keys. With the
  write-ahead log behind the callbacks, every datom is in the published trees or in the log, as long as no flush is
  aborted; an aborted flush followed by a successful one loses its datoms.
\<close>

section \<open>The machine\<close>

text \<open>What \<open>runFlush\<close> holds between its steps.\<close>

datatype flusher = Idle | Captured FlushBatch | Failed | Prepared FlushBatch "CfTree list" string

datatype flush_label =
    LWrite "CfKey list" | LGet nat bytes "bool result" | LTick
  | LCapture | LPrepared | LFailed | LPublish | LAbort

text \<open>
  The storage part of the engine's \<open>BatchWrite\<close> (\<^verbatim>\<open>src/go/internal/eavt/write.go\<close>), which the engine lock makes one step:
  the datoms (column family 0) are journaled, then all entries go to the memtable.
\<close>

definition writeEntries :: "'w hooks \<Rightarrow> CfKey list \<Rightarrow> ('s, 'w) KVStore \<Rightarrow> ('s, 'w) KVStore result" where
  "writeEntries h es kv =
     (if es = [] then Inr kv
      else let durable = filter (\<lambda>e. Cf e = 0) es;
               kv1 = (if durable \<noteq> [] then JournalOnly h durable kv else kv)
           in BatchWrite h es False kv1)"

text \<open>\<open>bg\<close> is what the background tasks behind the callbacks can do, given the durable position.\<close>

inductive flush_step ::
  "zstd \<Rightarrow> 's blob_ops \<Rightarrow> 'w hooks \<Rightarrow> (int option \<Rightarrow> 'w \<times> jdisk \<Rightarrow> 'w \<times> jdisk \<Rightarrow> bool) \<Rightarrow>
   ('s, 'w) KVStore \<times> flusher \<Rightarrow> flush_label \<Rightarrow> ('s, 'w) KVStore \<times> flusher \<Rightarrow> bool"
  for z :: zstd and bo :: "'s blob_ops" and h :: "'w hooks" and bg
where
  Write: "writeEntries h es kv = Inr kv' \<Longrightarrow> flush_step z bo h bg (kv, fl) (LWrite es) (kv', fl)"
| Get: "KVGet z bo cf k kv = (r, kv') \<Longrightarrow> flush_step z bo h bg (kv, fl) (LGet cf k r) (kv', fl)"
| Tick: "bg (WalDurableUpTo kv) (kvWorld kv) w \<Longrightarrow> flush_step z bo h bg (kv, fl) LTick (kv\<lparr>kvWorld := w\<rparr>, fl)"
| Capture: "CaptureFlush h kv = (Some b, kv') \<Longrightarrow> flush_step z bo h bg (kv, Idle) LCapture (kv', Captured b)"
| Prepare: "PrepareFlush z bo now now2 b kv = (Inr (ts, root), b', kv') \<Longrightarrow>
    flush_step z bo h bg (kv, Captured b) LPrepared (kv', Prepared b' ts root)"
| Fail: "PrepareFlush z bo now now2 b kv = (Inl e, b', kv') \<Longrightarrow>
    flush_step z bo h bg (kv, Captured b) LFailed (kv', Failed)"
| Publish: "flush_step z bo h bg (kv, Prepared b ts root) LPublish (PublishFlush h b ts root kv, Idle)"
| Abort: "flush_step z bo h bg (kv, Failed) LAbort (AbortFlush kv, Idle)"

inductive flush_steps ::
  "zstd \<Rightarrow> 's blob_ops \<Rightarrow> 'w hooks \<Rightarrow> (int option \<Rightarrow> 'w \<times> jdisk \<Rightarrow> 'w \<times> jdisk \<Rightarrow> bool) \<Rightarrow>
   ('s, 'w) KVStore \<times> flusher \<Rightarrow> flush_label list \<Rightarrow> ('s, 'w) KVStore \<times> flusher \<Rightarrow> bool"
  for z :: zstd and bo :: "'s blob_ops" and h :: "'w hooks" and bg
where
  NoStep: "flush_steps z bo h bg s [] s"
| OneStep: "flush_steps z bo h bg s ls s' \<Longrightarrow> flush_step z bo h bg s' l s'' \<Longrightarrow> flush_steps z bo h bg s (ls @ [l]) s''"

inductive_cases flush_stepE: "flush_step z bo h bg s l s'"

section \<open>The abstract store\<close>

text \<open>The keys of each column family in the published trees, in the frozen memtable and in the live one.\<close>

record spec =
  spStored :: "nat \<Rightarrow> bytes set"
  spFrozen :: "nat \<Rightarrow> bytes set"
  spLive :: "nat \<Rightarrow> bytes set"

definition visible :: "spec \<Rightarrow> nat \<Rightarrow> bytes set" where
  "visible sp cf = spStored sp cf \<union> spFrozen sp cf \<union> spLive sp cf"

definition keysIn :: "nat \<Rightarrow> CfKey list \<Rightarrow> nat \<Rightarrow> bytes set" where
  "keysIn n es cf = CfKey_Key ` {e \<in> set es. unat (Cf e) = cf \<and> cf < n}"

fun spec_next :: "nat \<Rightarrow> spec \<Rightarrow> flush_label \<Rightarrow> spec" where
  "spec_next n sp (LWrite es) = sp\<lparr>spLive := (\<lambda>cf. spLive sp cf \<union> keysIn n es cf)\<rparr>"
| "spec_next n sp LCapture = sp\<lparr>spFrozen := spLive sp, spLive := (\<lambda>_. {})\<rparr>"
| "spec_next n sp LPublish = sp\<lparr>spStored := (\<lambda>cf. spStored sp cf \<union> spFrozen sp cf), spFrozen := (\<lambda>_. {})\<rparr>"
| "spec_next n sp LAbort = sp\<lparr>spFrozen := (\<lambda>_. {})\<rparr>"
| "spec_next n sp _ = sp"

text \<open>A read is answered with the visible keys.\<close>

fun answers :: "spec \<Rightarrow> flush_label \<Rightarrow> bool" where
  "answers sp (LGet cf k r) \<longleftrightarrow> r = Inr (k \<in> visible sp cf)"
| "answers sp _ \<longleftrightarrow> True"

fun spec_trace :: "nat \<Rightarrow> spec \<Rightarrow> flush_label list \<Rightarrow> bool" where
  "spec_trace n sp [] \<longleftrightarrow> True"
| "spec_trace n sp (l # ls) \<longleftrightarrow> answers sp l \<and> spec_trace n (spec_next n sp l) ls"

text \<open>What the clients respect: families of keys, keys within the bounds of the page formats.\<close>

fun label_ok :: "nat \<Rightarrow> flush_label \<Rightarrow> bool" where
  "label_ok n (LWrite es) \<longleftrightarrow> (\<forall>e \<in> set es. unat (Cf e) < 10 \<and> key_ok (CfKey_Key e))"
| "label_ok n (LGet cf k r) \<longleftrightarrow> cf < n"
| "label_ok n _ \<longleftrightarrow> True"

fun weight :: "flush_label \<Rightarrow> nat" where
  "weight (LWrite es) = length es"
| "weight _ = 0"

lemma spec_trace_snoc: "spec_trace n sp (ls @ [l]) \<longleftrightarrow> spec_trace n sp ls \<and> answers (foldl (spec_next n) sp ls) l"
  by (induction ls arbitrary: sp) auto

section \<open>The memtable's part\<close>

lemma dom_fold_set_rec:
  "dom (fold (\<lambda>e m. if unat (Cf e) < n then set_rec (unat (Cf e)) False (CfKey_Key e) [] m else m) es m cf)
     = dom (m cf) \<union> keysIn n es cf"
proof (induction es arbitrary: m)
  case (Cons e es)
  have "keysIn n (e # es) cf = (if unat (Cf e) = cf \<and> cf < n then {CfKey_Key e} else {}) \<union> keysIn n es cf"
    by (auto simp: keysIn_def)
  then show ?case by (auto simp: Cons.IH set_rec_def split: if_splits)
qed (simp add: keysIn_def)

lemma Batch_keys:
  assumes "mt_ok mt" "Batch es mt = Inr (mt', n)" "\<forall>e \<in> set es. key_ok (CfKey_Key e)"
  shows "mt_ok mt'" "numCf mt' = numCf mt" "frozen mt' = frozen mt"
    "dom (live mt' cf) = dom (live mt cf) \<union> keysIn (numCf mt) es cf"
proof -
  have b: "batchLoop es mt = Inr mt'" using assms(2) by (auto simp: Batch_def sized_def split: sum.splits)
  have k: "\<forall>e \<in> set es. length (CfKey_Key e) < 2 ^ 32"
  proof
    fix e assume "e \<in> set es"
    then have "length (CfKey_Key e) < 65536" using assms(3) by (simp add: key_ok_def)
    also have "(65536::nat) < 2 ^ 32" by simp
    finally show "length (CfKey_Key e) < 2 ^ 32" .
  qed
  note r = batchLoop_ok [OF assms(1) b k]
  show "mt_ok mt'" "numCf mt' = numCf mt" "frozen mt' = frozen mt" using r by blast+
  show "dom (live mt' cf) = dom (live mt cf) \<union> keysIn (numCf mt) es cf"
    using r dom_fold_set_rec [of "numCf mt" es "live mt" cf] by simp
qed

lemma drain_captured:
  assumes "mt_ok mt" "FreezeAllCapture mt = (mt', cap)" "cf < numCf mt"
  shows "ascending (DrainSorted (cap ! cf))" "set (DrainSorted (cap ! cf)) = dom (live mt cf)" "length cap = numCf mt"
proof -
  note fr = FreezeAllCapture_ok [OF assms(1,2)]
  let ?w = "newest recKey (concat (map Records (cap ! cf)))"
  have w: "drainWins (cap ! cf) = ?w" by (rule drainWins_newest) (use fr(6) assms(3) in blast)
  have "live mt cf = latest recKey (concat (map Records (cap ! cf)))"
    unfolding fr(4) [symmetric] fr(5) using fr(2) assms(3) by (simp add: frozen_def)
  then have lv: "live mt cf k = latest recKey ?w k" for k by simp
  show "ascending (DrainSorted (cap ! cf))" by (simp add: DrainSorted_def w)
  show "set (DrainSorted (cap ! cf)) = dom (live mt cf)"
  proof (rule set_eqI)
    fix k
    have "live mt cf k = None \<longleftrightarrow> k \<notin> recKey ` set ?w" unfolding lv by (rule latest_None_iff)
    then show "k \<in> set (DrainSorted (cap ! cf)) \<longleftrightarrow> k \<in> dom (live mt cf)" by (auto simp: DrainSorted_def w)
  qed
  show "length cap = numCf mt" using fr(1,2,5) by (simp add: mt_ok_def)
qed

lemma ContainsAny_keys:
  assumes "mt_ok mt" "cf < numCf mt"
  shows "ContainsAny cf k mt = Inr (k \<in> dom (live mt cf) \<union> dom (frozen mt cf))"
  using assms lookupKvLocked_find [OF assms, of k]
  by (auto simp: ContainsAny_def LookupKv_def mt_ok_def mt_find_def lookupState_def split: option.splits)

section \<open>The drained batch\<close>

lemma drainCfs_keys:
  assumes "\<forall>cf \<in> set cfs. cf < length (captured b)" "\<forall>cf \<in> set cfs. 10 \<le> cf \<longrightarrow> DrainSorted (captured b ! cf) = []"
  shows "drainCfs cfs b = Inr (b\<lparr>KeysByCf := KeysByCf b
    @ filter (\<lambda>x. snd x \<noteq> []) (map (\<lambda>cf. (cf, DrainSorted (captured b ! cf))) cfs)\<rparr>)"
  using assms
proof (induction cfs arbitrary: b)
  case (Cons cf cfs)
  have e: "DrainSorted [] = []" by (simp add: DrainSorted_def drainWins_def drainLoop.simps)
  have kv: "DrainKvSorted (captured b ! cf) = ([], [])" if "10 \<le> cf"
    using Cons.prems(2) that by (simp add: DrainKvSorted_def DrainSorted_def)
  show ?case using Cons.prems e kv Cons.IH [of b] Cons.IH [of "b\<lparr>KeysByCf := KeysByCf b @ [(cf, DrainSorted (captured b ! cf))]\<rparr>"]
    by (cases "10 \<le> cf") (auto simp: Let_def drainCf_def)
qed simp

definition drained :: "nat \<Rightarrow> FlushBatch \<Rightarrow> (nat \<times> bytes list) list" where
  "drained n b = filter (\<lambda>x. snd x \<noteq> []) (map (\<lambda>cf. (cf, DrainSorted (captured b ! cf))) [0..<n])"

lemma keysOf_drained: "cf < n \<Longrightarrow> keysOf (drained n b) cf = DrainSorted (captured b ! cf)"
proof -
  assume "cf < n"
  have "map_of (filter (\<lambda>x. snd x \<noteq> []) (map (\<lambda>c. (c, f c)) cfs)) cf = (if cf \<in> set cfs \<and> f cf \<noteq> [] then Some (f cf) else None)"
    for f :: "nat \<Rightarrow> bytes list" and cfs
    by (induction cfs) auto
  then show ?thesis using \<open>cf < n\<close> by (simp add: keysOf_def drained_def)
qed

lemma distinct_drained: "distinct (map fst (drained n b))"
proof -
  have "distinct (map fst (filter P (map (\<lambda>c. (c, f c)) cfs)))" if "distinct cfs" for P and f :: "nat \<Rightarrow> bytes list" and cfs
    using that by (induction cfs) auto
  then show ?thesis by (simp add: drained_def)
qed

lemma drainBatch_keys:
  assumes "length (captured b) = n" "KeysByCf b = []" "\<forall>cf < n. 10 \<le> cf \<longrightarrow> DrainSorted (captured b ! cf) = []"
  shows "drainBatch n b = Inr (b\<lparr>KeysByCf := drained n b, captured := [], MaxT := maxTOf (drained n b) (MaxT b)\<rparr>)"
  using drainCfs_keys [of "[0..<n]" b] assms by (simp add: drainBatch_def drained_def)

section \<open>The simulation\<close>

definition flusher_ok :: "pages \<Rightarrow> nat \<Rightarrow> CfTree list \<Rightarrow> bytes list list \<Rightarrow> spec \<Rightarrow> flusher \<Rightarrow> bool" where
  "flusher_ok P n ts kss sp fl \<longleftrightarrow> (case fl of
       Idle \<Rightarrow> spFrozen sp = (\<lambda>_. {})
     | Failed \<Rightarrow> True
     | Captured b \<Rightarrow> KeysByCf b = [] \<and> PairsByCf b = [] \<and> DeletedByCf b = [] \<and> BaseTrees b = ts
         \<and> length (captured b) = n
         \<and> (\<forall>cf < n. ascending (DrainSorted (captured b ! cf)) \<and> set (DrainSorted (captured b ! cf)) = spFrozen sp cf)
     | Prepared b ts' root \<Rightarrow> \<exists>kss'. trees_hold P ts' kss' \<and> length kss' = length kss
         \<and> (\<forall>cf < n. set (kss' ! cf) = set (kss ! cf) \<union> spFrozen sp cf
              \<and> length (kss' ! cf) \<le> length (kss ! cf) + card (spFrozen sp cf)))"

definition keys_fit :: "nat \<Rightarrow> nat \<Rightarrow> bytes list list \<Rightarrow> spec \<Rightarrow> bool" where
  "keys_fit N n kss sp \<longleftrightarrow> (\<forall>cf < n. length (kss ! cf) + card (spFrozen sp cf) + card (spLive sp cf) \<le> N)
     \<and> (\<forall>cf. \<forall>k \<in> spFrozen sp cf \<union> spLive sp cf. key_ok k \<and> cf < 10)"

text \<open>The memtable, the trees and the cache of a store that stands for \<open>sp\<close>; at most \<open>N\<close> keys per family.\<close>

definition store_ok :: "pages \<Rightarrow> ('s, 'w) KVStore \<Rightarrow> bytes list list \<Rightarrow> spec \<Rightarrow> bool" where
  "store_ok P kv kss sp \<longleftrightarrow> mt_ok (kvMT kv) \<and> numCf (kvMT kv) = kvNumCf kv \<and> stNumCf (kvPS kv) = kvNumCf kv
     \<and> kvNumCf kv \<le> length kss \<and> trees_hold P (stTrees (kvPS kv)) kss
     \<and> coherent P (kvCache kv) \<and> cachedIn P (kvCache kv)
     \<and> spStored sp = (\<lambda>cf. if cf < kvNumCf kv then set (kss ! cf) else {})
     \<and> spFrozen sp = (\<lambda>cf. dom (frozen (kvMT kv) cf)) \<and> spLive sp = (\<lambda>cf. dom (live (kvMT kv) cf))"

definition sim ::
  "('s \<Rightarrow> pages) \<Rightarrow> ('s \<Rightarrow> bool) \<Rightarrow> nat \<Rightarrow> ('s, 'w) KVStore \<times> flusher \<Rightarrow> spec \<Rightarrow> bool" where
  "sim pg good N s sp \<longleftrightarrow> (case s of (kv, fl) \<Rightarrow> good (kvBlobs kv) \<and> (\<exists>kss. store_ok (pg (kvBlobs kv)) kv kss sp
     \<and> keys_fit N (kvNumCf kv) kss sp
     \<and> flusher_ok (pg (kvBlobs kv)) (kvNumCf kv) (stTrees (kvPS kv)) kss sp fl))"

lemma keys_fit_mono: "keys_fit N n kss sp \<Longrightarrow> N \<le> N' \<Longrightarrow> keys_fit N' n kss sp"
  by (fastforce simp: keys_fit_def)

lemma store_ok_mono:
  assumes "store_ok P kv kss sp" "P \<subseteq>\<^sub>m P'"
  shows "store_ok P' kv kss sp"
  using assms trees_hold_mono coherent_mono unfolding store_ok_def by metis

lemma flusher_ok_mono: "flusher_ok P n ts kss sp fl \<Longrightarrow> P \<subseteq>\<^sub>m P' \<Longrightarrow> flusher_ok P' n ts kss sp fl"
  unfolding flusher_ok_def by (cases fl) (auto dest: trees_hold_mono)

text \<open>Steps that leave the memtable, the trees and the blobs alone.\<close>

lemma sim_frame:
  assumes "sim pg good N (kv, fl) sp" "kvPS kv' = kvPS kv" "kvBlobs kv' = kvBlobs kv" "kvMT kv' = kvMT kv"
    "kvNumCf kv' = kvNumCf kv" "kvCache kv' = kvCache kv"
  shows "sim pg good N (kv', fl) sp"
  using assms by (simp add: sim_def store_ok_def)

subsection \<open>Writes\<close>

lemma journalDeliver_frame [simp]:
  "kvPS (journalDeliver h es kv) = kvPS kv" "kvBlobs (journalDeliver h es kv) = kvBlobs kv"
  "kvMT (journalDeliver h es kv) = kvMT kv" "kvNumCf (journalDeliver h es kv) = kvNumCf kv"
  "kvCache (journalDeliver h es kv) = kvCache kv" "flushActive (journalDeliver h es kv) = flushActive kv"
  "WalDurableUpTo (journalDeliver h es kv) = WalDurableUpTo kv" "kvReadOnly (journalDeliver h es kv) = kvReadOnly kv"
  "kvPath (journalDeliver h es kv) = kvPath kv"
  by (auto simp: journalDeliver_def split: option.splits prod.splits bool.splits)

lemma maybeArmFlush_frame [simp]:
  "kvPS (maybeArmFlush h kv) = kvPS kv" "kvBlobs (maybeArmFlush h kv) = kvBlobs kv"
  "kvMT (maybeArmFlush h kv) = kvMT kv" "kvNumCf (maybeArmFlush h kv) = kvNumCf kv"
  "kvCache (maybeArmFlush h kv) = kvCache kv" "flushActive (maybeArmFlush h kv) = flushActive kv"
  "WalDurableUpTo (maybeArmFlush h kv) = WalDurableUpTo kv" "kvReadOnly (maybeArmFlush h kv) = kvReadOnly kv"
  "kvPath (maybeArmFlush h kv) = kvPath kv"
  by (auto simp: maybeArmFlush_def split: option.splits)

lemma writeEntries_cases:
  assumes "writeEntries h es kv = Inr kv'" "es \<noteq> []"
  shows "\<exists>mt n. Batch es (kvMT kv) = Inr (mt, n) \<and> kvMT kv' = mt \<and> kvPS kv' = kvPS kv \<and> kvBlobs kv' = kvBlobs kv
    \<and> kvNumCf kv' = kvNumCf kv \<and> kvCache kv' = kvCache kv \<and> flushActive kv' = flushActive kv
    \<and> WalDurableUpTo kv' = WalDurableUpTo kv \<and> kvReadOnly kv' = kvReadOnly kv \<and> kvPath kv' = kvPath kv"
  using assms
  by (auto simp: writeEntries_def BatchWrite_def JournalOnly_def storeSized_def Let_def rbind_Inr
      split: sum.splits if_splits)

lemma keysIn_card: "card (keysIn n es cf) \<le> length es"
proof -
  have "card (keysIn n es cf) \<le> card {e \<in> set es. unat (Cf e) = cf \<and> cf < n}" unfolding keysIn_def by (rule card_image_le) simp
  also have "\<dots> \<le> card (set es)" by (rule card_mono) auto
  also have "\<dots> \<le> length es" by (rule card_length)
  finally show ?thesis .
qed

lemma sim_write:
  assumes s: "sim pg good N (kv, fl) sp" and w: "writeEntries h es kv = Inr kv'" and ok: "label_ok n (LWrite es)"
  shows "sim pg good (N + length es) (kv', fl) (spec_next (kvNumCf kv) sp (LWrite es)) \<and> kvNumCf kv' = kvNumCf kv"
proof (cases "es = []")
  case True
  then have "kv' = kv" using w by (simp add: writeEntries_def)
  then show ?thesis using s True by (simp add: keysIn_def)
next
  case False
  obtain mt m where b: "Batch es (kvMT kv) = Inr (mt, m)" "kvMT kv' = mt" and f: "kvPS kv' = kvPS kv" "kvBlobs kv' = kvBlobs kv"
    "kvNumCf kv' = kvNumCf kv" "kvCache kv' = kvCache kv"
    using writeEntries_cases [OF w False] by blast
  obtain kss where k: "good (kvBlobs kv)" "store_ok (pg (kvBlobs kv)) kv kss sp" "keys_fit N (kvNumCf kv) kss sp"
    "flusher_ok (pg (kvBlobs kv)) (kvNumCf kv) (stTrees (kvPS kv)) kss sp fl"
    using s by (auto simp: sim_def)
  have mt: "mt_ok (kvMT kv)" "numCf (kvMT kv) = kvNumCf kv" using k(2) by (auto simp: store_ok_def)
  have keys: "\<forall>e \<in> set es. key_ok (CfKey_Key e)" using ok by simp
  note bk = Batch_keys [OF mt(1) b(1) keys]
  let ?sp = "spec_next (kvNumCf kv) sp (LWrite es)"
  have "store_ok (pg (kvBlobs kv)) kv' kss ?sp"
    using k(2) bk mt(2) b(2) f by (simp add: store_ok_def)
  moreover have "keys_fit (N + length es) (kvNumCf kv) kss ?sp"
  proof -
    have c: "card (spLive sp cf \<union> keysIn (kvNumCf kv) es cf) \<le> card (spLive sp cf) + length es" for cf
      using card_Un_le [of "spLive sp cf" "keysIn (kvNumCf kv) es cf"] keysIn_card [of "kvNumCf kv" es cf] by linarith
    have "length (kss ! cf) + card (spFrozen sp cf) + card (spLive sp cf \<union> keysIn (kvNumCf kv) es cf) \<le> N + length es"
      if "cf < kvNumCf kv" for cf
      using k(3) that c [of cf]
      unfolding keys_fit_def by fastforce
    moreover have "\<forall>x \<in> keysIn (kvNumCf kv) es cf. key_ok x \<and> cf < 10" for cf using ok by (auto simp: keysIn_def)
    ultimately show ?thesis using k(3) by (auto simp: keys_fit_def)
  qed
  moreover have "flusher_ok (pg (kvBlobs kv)) (kvNumCf kv) (stTrees (kvPS kv)) kss ?sp fl"
    using k(4) by (simp add: flusher_ok_def cong: flusher.case_cong)
  ultimately show ?thesis using k(1) f by (auto simp: sim_def)
qed

subsection \<open>Reads\<close>

lemma sim_get:
  assumes s: "sim (pageOf z bo) good N (kv, fl) sp" and g: "KVGet z bo cf k kv = (r, kv')" and cf: "cf < kvNumCf kv"
  shows "sim (pageOf z bo) good N (kv', fl) sp \<and> kvNumCf kv' = kvNumCf kv \<and> r = Inr (k \<in> visible sp cf)"
proof -
  let ?P = "pageOf z bo (kvBlobs kv)"
  obtain kss where ks: "good (kvBlobs kv)" "store_ok ?P kv kss sp" "keys_fit N (kvNumCf kv) kss sp"
    "flusher_ok ?P (kvNumCf kv) (stTrees (kvPS kv)) kss sp fl"
    using s by (auto simp: sim_def)
  note o = ks(2) [unfolded store_ok_def]
  have c: "ContainsAny cf k (kvMT kv) = Inr (k \<in> spLive sp cf \<union> spFrozen sp cf)"
    using ContainsAny_keys [of "kvMT kv" cf k] o cf by simp
  show ?thesis
  proof (cases "k \<in> spLive sp cf \<union> spFrozen sp cf")
    case True
    then have "kv' = kv" "r = Inr True" using g c by (simp_all add: KVGet_def)
    then show ?thesis using s True by (auto simp: visible_def)
  next
    case False
    have len: "cf < length (stTrees (kvPS kv))" using o cf list_all2_lengthD unfolding trees_hold_def by fastforce
    have "reads ?P (KeyExists z bo (kvBlobs kv) (kvPS kv) (int cf) k) (k \<in> set (kss ! cf))"
      by (rule reads_KeyExists) (use o cf len trees_hold_nth in auto)
    then obtain c' where e: "KeyExists z bo (kvBlobs kv) (kvPS kv) (int cf) k (kvCache kv) = (Inr (k \<in> set (kss ! cf)), c')"
      "keeps ?P (kvCache kv) c'" using o unfolding reads_def by blast
    have kv': "kv' = kv\<lparr>kvCache := c'\<rparr>" "r = Inr (k \<in> set (kss ! cf))" using g c False e(1) by (auto simp: KVGet_def)
    have "store_ok ?P kv' kss sp" using ks(2) e(2) by (simp add: store_ok_def kv' keeps_def)
    moreover have "k \<in> visible sp cf \<longleftrightarrow> k \<in> set (kss ! cf)" using False o cf by (auto simp: visible_def)
    ultimately show ?thesis using ks kv' by (auto simp: sim_def)
  qed
qed

subsection \<open>The steps of a flush\<close>

lemma CaptureFlush_cases:
  assumes "CaptureFlush h kv = (Some b, kv')"
  shows "\<exists>mt runs. FreezeAllCapture (kvMT kv) = (mt, runs) \<and> kvMT kv' = mt \<and> captured b = runs \<and> KeysByCf b = []
    \<and> PairsByCf b = [] \<and> DeletedByCf b = [] \<and> BaseTrees b = stTrees (kvPS kv) \<and> kvPS kv' = kvPS kv \<and> kvBlobs kv' = kvBlobs kv
    \<and> kvNumCf kv' = kvNumCf kv \<and> kvCache kv' = kvCache kv \<and> WalDurableUpTo kv' = WalDurableUpTo kv
    \<and> kvPath kv' = kvPath kv \<and> kvReadOnly kv' = kvReadOnly kv
    \<and> (case JournalSeal h of None \<Rightarrow> SealBoundary b = -1 \<and> kvWorld kv' = kvWorld kv
         | Some seal \<Rightarrow> seal (kvWorld kv) = (SealBoundary b, kvWorld kv'))"
  using assms by (auto simp: CaptureFlush_def Let_def split: if_splits prod.splits option.splits)

lemma sim_capture:
  assumes s: "sim pg good N (kv, Idle) sp" and c: "CaptureFlush h kv = (Some b, kv')"
  shows "sim pg good N (kv', Captured b) (spec_next (kvNumCf kv) sp LCapture) \<and> kvNumCf kv' = kvNumCf kv"
proof -
  let ?sp = "spec_next (kvNumCf kv) sp LCapture"
  obtain kss where k: "good (kvBlobs kv)" "store_ok (pg (kvBlobs kv)) kv kss sp" "keys_fit N (kvNumCf kv) kss sp"
    "spFrozen sp = (\<lambda>_. {})"
    using s by (auto simp: sim_def flusher_ok_def)
  note o = k(2) [unfolded store_ok_def]
  obtain mt runs where f: "FreezeAllCapture (kvMT kv) = (mt, runs)" "kvMT kv' = mt" "captured b = runs"
    and b: "KeysByCf b = []" "PairsByCf b = []" "DeletedByCf b = []" "BaseTrees b = stTrees (kvPS kv)"
    and e: "kvPS kv' = kvPS kv" "kvBlobs kv' = kvBlobs kv" "kvNumCf kv' = kvNumCf kv" "kvCache kv' = kvCache kv"
    using CaptureFlush_cases [OF c] by blast
  have mt: "mt_ok (kvMT kv)" "numCf (kvMT kv) = kvNumCf kv" using o by blast+
  note fr = FreezeAllCapture_ok [OF mt(1) f(1)]
  have "store_ok (pg (kvBlobs kv)) kv' kss ?sp" using o fr f(2) e by (simp add: store_ok_def)
  moreover have "keys_fit N (kvNumCf kv) kss ?sp" using k(3) by (fastforce simp: keys_fit_def)
  moreover have "length runs = kvNumCf kv" using fr(1,2,5) mt(2) by (simp add: mt_ok_def)
  then have "flusher_ok (pg (kvBlobs kv)) (kvNumCf kv) (stTrees (kvPS kv)) kss ?sp (Captured b)"
    using drain_captured(1,2) [OF mt(1) f(1)] mt(2) o b f(3) by (simp add: flusher_ok_def)
  ultimately show ?thesis using k(1) e by (auto simp: sim_def)
qed

lemma drainCfs_seal: "drainCfs cfs b = Inr b' \<Longrightarrow> SealBoundary b' = SealBoundary b"
proof (induction cfs arbitrary: b)
  case (Cons cf cfs)
  have "SealBoundary (drainCf cf rs b) = SealBoundary b" for rs
    by (cases "DrainKvSorted rs") (simp add: drainCf_def Let_def)
  then show ?case using Cons by (metis drainCfs.simps(2) sum.distinct(1))
qed simp

lemma PrepareFlush_frame:
  assumes "PrepareFlush z bo now now2 b kv = (r, b', kv')"
  shows "SealBoundary b' = SealBoundary b" "kvMT kv' = kvMT kv" "kvPS kv' = kvPS kv" "kvNumCf kv' = kvNumCf kv"
    "kvWorld kv' = kvWorld kv" "WalDurableUpTo kv' = WalDurableUpTo kv" "flushActive kv' = flushActive kv"
    "kvPath kv' = kvPath kv" "kvReadOnly kv' = kvReadOnly kv"
  using assms drainCfs_seal
  by (auto simp: PrepareFlush_def drainBatch_def rbind_Inr split: sum.splits prod.splits if_splits)

text \<open>Without key-value records a preparation is one merge of the drained keys.\<close>

lemma PrepareFlush_keys:
  assumes s: "sim pg good N (kv, Captured b) sp"
  shows "PrepareFlush z bo now now2 b kv =
    (case PrepareMerge z bo now (kvPS kv) (stTrees (kvPS kv)) (drained (kvNumCf kv) b) (kvBlobs kv) of (r, s1) \<Rightarrow>
       (r, b\<lparr>KeysByCf := drained (kvNumCf kv) b, captured := [], MaxT := maxTOf (drained (kvNumCf kv) b) (MaxT b)\<rparr>, kv\<lparr>kvBlobs := s1\<rparr>))"
proof -
  let ?n = "kvNumCf kv"
  obtain kss where k: "keys_fit N ?n kss sp"
    and b: "KeysByCf b = []" "PairsByCf b = []" "DeletedByCf b = []" "BaseTrees b = stTrees (kvPS kv)" "length (captured b) = ?n"
    "\<And>cf. cf < ?n \<Longrightarrow> set (DrainSorted (captured b ! cf)) = spFrozen sp cf"
    using s by (auto simp: sim_def flusher_ok_def)
  have "DrainSorted (captured b ! cf) = []" if "cf < ?n" "10 \<le> cf" for cf
    using b(6) [OF that(1)] k that(2) unfolding keys_fit_def by (metis UnI1 not_le set_empty ex_in_conv)
  then have "drainBatch ?n b = Inr (b\<lparr>KeysByCf := drained ?n b, captured := [], MaxT := maxTOf (drained ?n b) (MaxT b)\<rparr>)"
    by (intro drainBatch_keys) (use b in auto)
  then show ?thesis using b by (auto simp: PrepareFlush_def split: sum.split prod.split)
qed

context page_store
begin

lemma prepare_union:
  assumes "wf s" "trees_hold (pg s) base kss" "batch_ok kss keysByCf"
    and "PrepareMerge z bo now st base keysByCf s = (Inr (ts, root), s')"
  shows "\<exists>kss'. trees_hold (pg s') ts kss' \<and> batch_merged kss keysByCf kss'"
proof -
  have ro: "\<not> stReadOnly st" using assms(4) by (auto simp: PrepareMerge_def sfail_def split: if_splits)
  have d: "does True (mergeTrees z bo keysByCf base) s
    (\<lambda>ts' s'. True \<longrightarrow> (\<exists>kss'. trees_hold (pg s') ts' kss' \<and> batch_merged kss keysByCf kss'))"
    by (rule does_mergeTrees [OF assms(1)]) (use assms in blast)
  obtain ts1 s1 where m: "mergeTrees z bo keysByCf base s = (Inr ts1, s1)" "writeRoot z bo now ts1 s1 = (Inr (ts, root), s')"
    using assms(4) ro by (auto simp: PrepareMerge_def sbind_Inr)
  note 1 = d [unfolded does_def, THEN conjunct1, rule_format, OF m(1)]
  obtain kss' where k: "trees_hold (pg s1) ts1 kss'" "batch_merged kss keysByCf kss'" using 1 by blast
  note 2 = does_writeRoot [OF conjunct1 [OF 1], of now ts1, unfolded does_def, THEN conjunct1, rule_format, OF m(2)]
  show ?thesis using 2 k trees_hold_mono by fastforce
qed

lemma sim_prepare:
  assumes s: "sim pg wf N (kv, Captured b) sp" and N: "N < 2 ^ 63"
    and p: "PrepareFlush z bo now now2 b kv = (r, b', kv')"
  shows "sim pg wf N (kv', case r of Inr (ts, root) \<Rightarrow> Prepared b' ts root | Inl e \<Rightarrow> Failed) sp \<and> kvNumCf kv' = kvNumCf kv"
proof -
  let ?n = "kvNumCf kv" and ?s = "kvBlobs kv"
  obtain kss where k: "wf ?s" "store_ok (pg ?s) kv kss sp" "keys_fit N ?n kss sp"
    and b: "KeysByCf b = []" "PairsByCf b = []" "DeletedByCf b = []" "BaseTrees b = stTrees (kvPS kv)" "length (captured b) = ?n"
    "\<And>cf. cf < ?n \<Longrightarrow> ascending (DrainSorted (captured b ! cf)) \<and> set (DrainSorted (captured b ! cf)) = spFrozen sp cf"
    using s by (auto simp: sim_def flusher_ok_def)
  note o = k(2) [unfolded store_ok_def]
  have len: "length (DrainSorted (captured b ! cf)) = card (spFrozen sp cf)" if "cf < ?n" for cf
    using b(6) [OF that] distinct_card [of "DrainSorted (captured b ! cf)"] by (auto simp: strict_sorted_iff)
  have ok: "batch_ok kss (drained ?n b)"
    unfolding batch_ok_def
  proof (intro conjI ballI, rule distinct_drained)
    fix x assume "x \<in> set (drained ?n b)"
    then obtain cf where cf: "cf < ?n" "x = (cf, DrainSorted (captured b ! cf))" by (auto simp: drained_def)
    have "length (kss ! cf) + length (DrainSorted (captured b ! cf)) < 2 ^ 63"
      using k(3) N len [OF cf(1)] cf(1) unfolding keys_fit_def by fastforce
    then show "case x of (cf, keys) \<Rightarrow> cf < length kss \<longrightarrow> merge_ok (kss ! cf) keys"
      using b(6) [OF cf(1)] k(3) cf(2) by (auto simp: merge_ok_def keys_fit_def)
  qed
  obtain r1 s1 where m: "PrepareMerge z bo now (kvPS kv) (stTrees (kvPS kv)) (drained ?n b) ?s = (r1, s1)" by fastforce
  have kv': "kv' = kv\<lparr>kvBlobs := s1\<rparr>" "r = r1" using p m by (auto simp: PrepareFlush_keys [OF s])
  have w: "wf s1" "pg ?s \<subseteq>\<^sub>m pg s1" using prepare_keeps_pages [OF k(1) m] by auto
  have st: "store_ok (pg s1) kv' kss sp"
    using store_ok_mono [OF k(2) w(2)] by (simp add: store_ok_def kv')
  have "flusher_ok (pg s1) ?n (stTrees (kvPS kv)) kss sp (case r of Inr (ts, root) \<Rightarrow> Prepared b' ts root | Inl e \<Rightarrow> Failed)"
  proof (cases r)
    case (Inr x)
    obtain ts root where x: "x = (ts, root)" by fastforce
    have th: "trees_hold (pg ?s) (stTrees (kvPS kv)) kss" using o by blast
    obtain kss' where k': "trees_hold (pg s1) ts kss'" "batch_merged kss (drained ?n b) kss'"
      using prepare_union [OF k(1) th ok] m kv'(2) Inr x by blast
    have mg: "merged (kss ! cf) (DrainSorted (captured b ! cf)) (kss' ! cf)" if "cf < ?n" for cf
    proof -
      have "cf < length kss" using that o by linarith
      then have "merged (kss ! cf) (keysOf (drained ?n b) cf) (kss' ! cf)" using k'(2) by (simp add: batch_merged_def)
      then show ?thesis by (simp only: keysOf_drained [OF that])
    qed
    have "set (kss' ! cf) = set (kss ! cf) \<union> spFrozen sp cf \<and> length (kss' ! cf) \<le> length (kss ! cf) + card (spFrozen sp cf)"
      if "cf < ?n" for cf
      using mg [OF that] merged_length [OF mg [OF that]] b(6) [OF that] len [OF that] by (simp add: merged_def)
    then show ?thesis using k' Inr x by (auto simp: flusher_ok_def batch_merged_def)
  qed (simp add: flusher_ok_def)
  then show ?thesis using st w(1) k(3) kv' by (auto simp: sim_def)
qed

end

lemma PublishFlush_frame:
  "kvBlobs (PublishFlush h b ts root kv) = kvBlobs kv" "kvCache (PublishFlush h b ts root kv) = kvCache kv"
  "kvNumCf (PublishFlush h b ts root kv) = kvNumCf kv" "kvPS (PublishFlush h b ts root kv) = PublishTrees ts root (kvPS kv)"
  "kvMT (PublishFlush h b ts root kv) = Publish (kvMT kv)" "kvPath (PublishFlush h b ts root kv) = kvPath kv"
  "kvReadOnly (PublishFlush h b ts root kv) = kvReadOnly kv"
  "WalDurableUpTo (PublishFlush h b ts root kv) =
     (if SealBoundary b \<ge> 0 \<and> WalDurableUpTo kv \<noteq> None then Some (SealBoundary b) else WalDurableUpTo kv)"
  by (simp_all add: PublishFlush_def Let_def split: option.split)

lemma sim_publish:
  assumes "sim pg good N (kv, Prepared b ts root) sp"
  shows "sim pg good N (PublishFlush h b ts root kv, Idle) (spec_next (kvNumCf kv) sp LPublish)"
proof -
  let ?sp = "spec_next (kvNumCf kv) sp LPublish" and ?kv = "PublishFlush h b ts root kv"
  obtain kss kss' where k: "good (kvBlobs kv)" "store_ok (pg (kvBlobs kv)) kv kss sp" "keys_fit N (kvNumCf kv) kss sp"
    "trees_hold (pg (kvBlobs kv)) ts kss'" "length kss' = length kss"
    "\<forall>cf < kvNumCf kv. set (kss' ! cf) = set (kss ! cf) \<union> spFrozen sp cf
       \<and> length (kss' ! cf) \<le> length (kss ! cf) + card (spFrozen sp cf)"
    using assms by (auto simp: sim_def flusher_ok_def)
  note o = k(2) [unfolded store_ok_def]
  have pub: "mt_ok (Publish (kvMT kv))" "numCf (Publish (kvMT kv)) = numCf (kvMT kv)" "live (Publish (kvMT kv)) = live (kvMT kv)"
    "frozen (Publish (kvMT kv)) = (\<lambda>_. Map.empty)" using Publish_ok o by blast+
  have out: "spFrozen sp cf = {}" if "\<not> cf < kvNumCf kv" for cf using o that by (simp add: frozen_def)
  have "store_ok (pg (kvBlobs kv)) ?kv kss' ?sp"
    using o pub k(4-6) out by (auto simp: store_ok_def PublishFlush_frame PublishTrees_def fun_eq_iff)
  moreover have "keys_fit N (kvNumCf kv) kss' ?sp"
    using k(3,6) by (fastforce simp: keys_fit_def)
  ultimately show ?thesis using k(1) by (auto simp: sim_def flusher_ok_def PublishFlush_frame)
qed

lemma sim_abort:
  assumes "sim pg good N (kv, Failed) sp"
  shows "sim pg good N (AbortFlush kv, Idle) (spec_next (kvNumCf kv) sp LAbort)"
proof -
  obtain kss where k: "good (kvBlobs kv)" "store_ok (pg (kvBlobs kv)) kv kss sp" "keys_fit N (kvNumCf kv) kss sp"
    using assms by (auto simp: sim_def)
  note o = k(2) [unfolded store_ok_def]
  have "store_ok (pg (kvBlobs kv)) (AbortFlush kv) kss (spec_next (kvNumCf kv) sp LAbort)"
    using o Publish_ok [of "kvMT kv"] by (simp add: store_ok_def AbortFlush_def)
  moreover have "keys_fit N (kvNumCf kv) kss (spec_next (kvNumCf kv) sp LAbort)"
    using k(3) by (fastforce simp: keys_fit_def)
  ultimately show ?thesis using k(1) by (auto simp: sim_def flusher_ok_def AbortFlush_def)
qed

section \<open>Every trace is a trace of the abstract store\<close>

context page_store
begin

lemma sim_step:
  assumes st: "flush_step z bo h bg s l s'" and s: "sim pg wf N s sp" "kvNumCf (fst s) = n" and N: "N < 2 ^ 63" and ok: "label_ok n l"
  shows "answers sp l \<and> sim pg wf (N + weight l) s' (spec_next n sp l) \<and> kvNumCf (fst s') = n"
  using st
proof cases
  case (Write es kv kv' fl)
  then show ?thesis using sim_write [of pg wf N kv fl sp h es kv' n] s ok by auto
next
  case (Get cf k kv r kv' fl)
  then show ?thesis using sim_get [of z bo wf N kv fl sp cf k r kv'] s ok by auto
next
  case (Tick kv w fl)
  then show ?thesis using s sim_frame [of pg wf N kv fl sp "kv\<lparr>kvWorld := w\<rparr>"] by auto
next
  case (Capture kv b kv')
  then show ?thesis using sim_capture [of pg wf N kv sp h b kv'] s by auto
next
  case (Prepare now now2 b kv ts root b' kv')
  then show ?thesis using sim_prepare [OF _ N, of kv b sp now now2 "Inr (ts, root)" b' kv'] s by auto
next
  case (Fail now now2 b kv e b' kv')
  then show ?thesis using sim_prepare [OF _ N, of kv b sp now now2 "Inl e" b' kv'] s by auto
next
  case (Publish kv b ts root)
  then show ?thesis using sim_publish [of pg wf N kv b ts root sp h] s by (auto simp: PublishFlush_frame)
next
  case (Abort kv)
  then show ?thesis using sim_abort [of pg wf N kv sp] s by (auto simp: AbortFlush_def)
qed

lemma sim_steps:
  assumes "flush_steps z bo h bg s ls s'" "sim pg wf N s sp" "kvNumCf (fst s) = n"
    and "N + sum_list (map weight ls) < 2 ^ 63" "\<forall>l \<in> set ls. label_ok n l"
  shows "spec_trace n sp ls \<and> sim pg wf (N + sum_list (map weight ls)) s' (foldl (spec_next n) sp ls) \<and> kvNumCf (fst s') = n"
  using assms
proof (induction rule: flush_steps.induct)
  case (OneStep s ls s' l s'')
  then have "spec_trace n sp ls" "sim pg wf (N + sum_list (map weight ls)) s' (foldl (spec_next n) sp ls)" "kvNumCf (fst s') = n"
    by auto
  moreover note sim_step [OF OneStep.hyps(2) this(2,3)]
  ultimately show ?case using OneStep.prems by (simp add: spec_trace_snoc add.assoc)
qed simp

end

section \<open>Opening a store\<close>

text \<open>What an opened store stands for: the keys of its trees, and the replayed entries in the live memtable.\<close>

definition opened :: "nat \<Rightarrow> bytes list list \<Rightarrow> CfKey list \<Rightarrow> spec" where
  "opened n kss replayed =
     \<lparr>spStored = (\<lambda>cf. if cf < n then set (kss ! cf) else {}), spFrozen = (\<lambda>_. {}), spLive = keysIn n replayed\<rparr>"

lemma keysIn_append: "keysIn n (es @ fs) cf = keysIn n es cf \<union> keysIn n fs cf"
  by (auto simp: keysIn_def)

lemma applyBatches_keys:
  assumes "applyBatches bs (mt, m) = Inr (mt', m')" "mt_ok mt" "\<forall>e \<in> set (concat bs). key_ok (CfKey_Key e)"
  shows "mt_ok mt' \<and> numCf mt' = numCf mt \<and> frozen mt' = frozen mt
    \<and> (\<forall>cf. dom (live mt' cf) = dom (live mt cf) \<union> keysIn (numCf mt) (concat bs) cf)"
  using assms
proof (induction bs arbitrary: mt m)
  case (Cons b bs)
  obtain mt1 m1 where b: "Batch b mt = Inr (mt1, m1)" "applyBatches bs (mt1, m1) = Inr (mt', m')"
    using Cons.prems(1) by (auto simp: rbind_Inr)
  have "\<forall>e \<in> set b. key_ok (CfKey_Key e)" using Cons.prems(3) by simp
  note k = Batch_keys [OF Cons.prems(2) b(1) this]
  show ?case using Cons.IH [OF b(2) k(1)] k Cons.prems(3) by (auto simp: keysIn_append)
qed (simp add: keysIn_def)

lemma OpenStore_cases:
  assumes "OpenStore z bo now n ro d = (Inr ps, d')" "n \<noteq> 0"
  shows "stNumCf ps = n \<and> n \<le> length (stTrees ps) \<and> (d' = d \<or> (\<exists>name data e. boPutRoot bo name data d = (e, d')))"
  using assms
  by (auto simp: OpenStore_def Let_def padTrees_def blobPutRoot_def split: sum.splits list.splits prod.splits if_splits option.splits)

lemma NewKVStore_cases:
  assumes "NewKVStore z bo now cfg d w = Inr kv" "\<not> cfgReadOnly cfg" "\<not> cfgReplayOff cfg"
  shows "\<exists>n ps d' mt0 mt m. n \<noteq> 0 \<and> OpenStore z bo now n False d = (Inr ps, d') \<and> NewMemTable n = Inr mt0
    \<and> applyBatches (replayBatches (jFiles (snd w))) (mt0, 0) = Inr (mt, m)
    \<and> kvPS kv = ps \<and> kvBlobs kv = d' \<and> kvMT kv = mt \<and> kvNumCf kv = n \<and> flushActive kv = False
    \<and> kvCache kv = newPageCache (if cfgPageCacheSize cfg = 0 then 536870912 else cfgPageCacheSize cfg)
    \<and> kvWorld kv = w \<and> kvPath kv = cfgPath cfg \<and> cfgPath cfg \<noteq> [] \<and> kvReadOnly kv = False"
proof -
  define n where "n = (if cfgNumCf cfg = 0 then 64 else cfgNumCf cfg)"
  have path: "cfgPath cfg \<noteq> []" using assms(1) by (auto simp: NewKVStore_def Let_def)
  have "\<not> n < 0"
    using assms(1) path by (auto simp: NewKVStore_def Let_def n_def split: sum.splits list.splits)
  then have n: "0 < n" "nat n \<noteq> 0" by (auto simp: n_def split: if_splits)
  obtain r d' where o: "OpenStore z bo now (nat n) False d = (r, d')" by fastforce
  note new = assms(1) [unfolded NewKVStore_def Let_def, folded n_def]
  obtain ps where ps: "r = Inr ps" using new path n(1) o assms(2) by (cases r) simp_all
  obtain mt0 where mt0: "NewMemTable (nat n) = Inr mt0" using new path n(1) o ps assms(2) by (cases "NewMemTable (nat n)") simp_all
  obtain mt m where mt: "applyBatches (replayBatches (jFiles (snd w))) (mt0, 0) = Inr (mt, m)"
    using new path n(1) o ps mt0 assms(2,3) by (auto simp: storeSized_def replayJournals_def split: sum.splits)
  show ?thesis
    using new path n o ps mt0 mt assms(2,3)
    by (intro exI [of _ "nat n"] exI [of _ ps] exI [of _ d'] exI [of _ mt0] exI [of _ mt] exI [of _ m])
      (auto simp: storeSized_def replayJournals_def)
qed

lemma length_keys_le: "\<forall>ks \<in> set kss. length ks \<le> (N :: nat) \<Longrightarrow> cf < length kss \<Longrightarrow> length (kss ! cf) \<le> N"
  by simp

context page_store
begin

lemma NewKVStore_sim:
  fixes kv :: "('s, 'w) KVStore"
  assumes new: "NewKVStore z bo now cfg d w = Inr kv" "\<not> cfgReadOnly cfg" "\<not> cfgReplayOff cfg" "0 \<le> cfgPageCacheSize cfg"
    and d: "wf d" and ts: "trees_hold (pg (kvBlobs kv)) (stTrees (kvPS kv)) kss" "\<forall>ks \<in> set kss. length ks \<le> N"
    and ok: "label_ok n (LWrite (concat (replayBatches (jFiles (snd w)))))"
  shows "sim pg wf (N + length (concat (replayBatches (jFiles (snd w))))) (kv, Idle)
    (opened (kvNumCf kv) kss (concat (replayBatches (jFiles (snd w)))))"
proof -
  let ?es = "concat (replayBatches (jFiles (snd w)))" and ?n = "kvNumCf kv"
  obtain mt0 m where n: "?n \<noteq> 0" and o: "OpenStore z bo now ?n False d = (Inr (kvPS kv), kvBlobs kv)"
    and mt: "NewMemTable ?n = Inr mt0" "applyBatches (replayBatches (jFiles (snd w))) (mt0, 0) = Inr (kvMT kv, m)"
    and c: "kvCache kv = newPageCache (if cfgPageCacheSize cfg = 0 then 536870912 else cfgPageCacheSize cfg)"
    using NewKVStore_cases [OF new(1-3)] by blast
  have keys: "\<forall>e \<in> set ?es. key_ok (CfKey_Key e)" using ok by simp
  note nm = NewMemTable_ok [OF mt(1)]
  have a: "mt_ok (kvMT kv)" "numCf (kvMT kv) = ?n" "frozen (kvMT kv) = (\<lambda>_. Map.empty)"
    "\<And>cf. dom (live (kvMT kv) cf) = keysIn ?n ?es cf"
    using applyBatches_keys [OF mt(2) nm(1) keys] nm(3-5) by auto
  note os = OpenStore_cases [OF o n]
  have len: "?n \<le> length kss" using os ts(1) list_all2_lengthD unfolding trees_hold_def by fastforce
  have good: "wf (kvBlobs kv)" using os d putRoot by blast
  have "coherent (pg (kvBlobs kv)) (kvCache kv)" unfolding c by (rule new_cache_coherent) (use new(4) in simp)
  moreover have "cachedIn (pg (kvBlobs kv)) (kvCache kv)" by (simp add: c cachedIn_def newPageCache_def)
  ultimately have "store_ok (pg (kvBlobs kv)) kv kss (opened ?n kss ?es)"
    using a(1-3) ext [of _ "keysIn ?n ?es", OF a(4)] os len ts(1) by (simp add: store_ok_def opened_def)
  moreover have "keys_fit (N + length ?es) ?n kss (opened ?n kss ?es)"
  proof -
    have "length (kss ! cf) + card (keysIn ?n ?es cf) \<le> N + length ?es" if "cf < ?n" for cf
      using length_keys_le [OF ts(2), of cf] that len keysIn_card [of ?n ?es cf] by linarith
    moreover have "\<forall>k \<in> keysIn ?n ?es cf. key_ok k \<and> cf < 10" for cf using ok by (auto simp: keysIn_def)
    ultimately show ?thesis by (simp add: keys_fit_def opened_def)
  qed
  ultimately show ?thesis using good by (auto simp: sim_def flusher_ok_def opened_def)
qed

end

text \<open>C1. The store is a set of keys through every flush: open a store, replaying its journal, and let writes, reads,
  the log's background work and the phases of flushes run in any order, with any failures of the blob store. Every
  read returns whether the key is among the keys of the opened trees, the replayed keys and the keys written since,
  less those of captures that were aborted: no key is missed or seen too early between freezing, preparing and
  publishing.\<close>

theorem store_refines_key_sets:
  fixes kv :: "(disk, 'w) KVStore"
  assumes replayed: "replayed = concat (replayBatches (jFiles (snd w)))"
    and "\<forall>x. Decompress z (compress z x) = Inr x" "NewKVStore z (fileOps False) now cfg d w = Inr kv"
    and "\<not> cfgReadOnly cfg" "\<not> cfgReplayOff cfg" "0 \<le> cfgPageCacheSize cfg" "disk_ok d"
    and "trees_hold (pageOf z (fileOps False) (kvBlobs kv)) (stTrees (kvPS kv)) kss" "\<forall>ks \<in> set kss. length ks \<le> N"
    and "\<forall>l \<in> set (LWrite replayed # ls). label_ok (kvNumCf kv) l"
    and "N + sum_list (map weight (LWrite replayed # ls)) < 2 ^ 63"
    and "flush_steps z (fileOps False) h bg (kv, Idle) ls s"
  shows "spec_trace (kvNumCf kv) (opened (kvNumCf kv) kss replayed) ls"
proof -
  note ps = file_page_store [OF assms(2)]
  have "label_ok (kvNumCf kv) (LWrite (concat (replayBatches (jFiles (snd w)))))" using assms(10) by (simp add: replayed)
  note s = page_store.NewKVStore_sim [OF ps assms(3-9) this, folded replayed]
  have "N + length replayed + sum_list (map weight ls) < 2 ^ 63" "\<forall>l \<in> set ls. label_ok (kvNumCf kv) l"
    using assms(10,11) by simp_all
  then show ?thesis using page_store.sim_steps [OF ps assms(12) s] by simp
qed

text \<open>An empty data directory with one column family, for the witnesses.\<close>

definition demoCfg :: Config where
  "demoCfg = (FromMap (\<lambda>_. None))\<lparr>cfgPath := ''db'', cfgNumCf := 1, cfgPageCacheSize := 100\<rparr>"

definition demoJournal :: jdisk where
  "demoJournal = \<lparr>jFiles = [], jWriteFaults = [], jOpenFaults = [], jRemoveFaults = []\<rparr>"

definition demoEntry :: "byte \<Rightarrow> CfKey" where
  "demoEntry b = \<lparr>Cf = 0, CfKey_Key = replicate 9 b\<rparr>"

lemma demo_replay: "replayBatches (jFiles demoJournal) = []"
  by (simp add: demoJournal_def replayBatches_def replayFiles_def listSegments_def map_filter_simps)

lemma demo_cfg: "cfgPath demoCfg = ''db''" "cfgNumCf demoCfg = 1" "cfgPageCacheSize demoCfg = 100"
  "\<not> cfgReadOnly demoCfg" "\<not> cfgReplayOff demoCfg"
  by (simp_all add: demoCfg_def FromMap_def mapGet_def)

lemma demo_open:
  assumes "disk_clean d" "boListRoots (fileOps False) d = Inr []"
  shows "\<exists>kv d1. NewKVStore z (fileOps False) now demoCfg d (w, demoJournal) = Inr kv \<and> disk_clean d1 \<and> kvBlobs kv = d1
    \<and> dRand d1 = dRand d \<and> stTrees (kvPS kv) = [EmptyTree] \<and> stReadOnly (kvPS kv) = False \<and> kvNumCf kv = 1 \<and> \<not> flushActive kv \<and> \<not> kvReadOnly kv
    \<and> kvWorld kv = (w, demoJournal)"
proof -
  let ?data = "compress z (SerializeRoot [EmptyTree])"
  obtain d1 where p: "boPutRoot (fileOps False) (MakeRootName now) ?data d = (None, d1)" "disk_clean d1"
    using fb.putRoot_clean [OF assms(1), of "MakeRootName now" ?data] by blast
  have "dRand d1 = dRand d"
    using p(1) writeAtomic_files(2) by (auto simp: fileOps_def fbPutRoot_def)
  moreover obtain mt where "NewMemTable 1 = Inr mt" by (simp add: NewMemTable_def)
  ultimately show ?thesis using p assms(2)
    by (auto simp: NewKVStore_def demo_cfg OpenStore_def blobPutRoot_def replayJournals_def demo_replay storeSized_def Let_def)
qed

lemma demo_trees: "stTrees ps = [EmptyTree] \<Longrightarrow> trees_hold P (stTrees ps) [[]]"
  by (simp add: trees_hold_def cf_tree_def EmptyTree_def EmptyUUID_def)

lemma demo_entry_ok: "label_ok n (LWrite (map demoEntry bs))"
  by (auto simp: demoEntry_def key_ok_def)

text \<open>Writes and captures always go through.\<close>

lemma write_total:
  assumes "sim pg good N (kv, fl) sp" "label_ok n (LWrite es)"
  shows "\<exists>kv'. writeEntries h es kv = Inr kv'"
proof -
  have mt: "mt_ok (kvMT kv)" using assms(1) by (auto simp: sim_def store_ok_def)
  have "\<forall>e \<in> set es. length (CfKey_Key e) < 2 ^ 32" using assms(2) by (auto simp: key_ok_def)
  then obtain mt where "batchLoop es (kvMT kv) = Inr mt" using batchLoop_total [OF mt] by blast
  then show ?thesis
    by (simp add: writeEntries_def BatchWrite_def JournalOnly_def Batch_def sized_def storeSized_def Let_def)
qed

lemma capture_total: "\<not> kvReadOnly kv \<Longrightarrow> \<not> flushActive kv \<Longrightarrow> \<exists>b kv'. CaptureFlush h kv = (Some b, kv')"
  by (auto simp: CaptureFlush_def Let_def split: prod.split option.split)

lemma writeEntries_flags: "writeEntries h es kv = Inr kv' \<Longrightarrow> flushActive kv' = flushActive kv \<and> kvReadOnly kv' = kvReadOnly kv"
  using writeEntries_cases [of h es kv kv'] by (cases "es = []") (auto simp: writeEntries_def)

lemma demo_roots: "boListRoots (fileOps False) TreeMerge.demoDisk = Inr []"
  by (simp add: fileOps_def) code_simp

theorem store_refines_key_sets_witness:
  "\<exists>(kv :: (disk, unit) KVStore) s r. NewKVStore storedFrames (fileOps False) 1 demoCfg TreeMerge.demoDisk ((), demoJournal) = Inr kv
    \<and> flush_steps storedFrames (fileOps False) noHooks (\<lambda>_ _ _. False) (kv, Idle)
        [LWrite [demoEntry 7], LCapture, LGet 0 (replicate 9 7) r] s
    \<and> r = Inr True"
proof -
  obtain kv :: "(disk, unit) KVStore" where kv: "NewKVStore storedFrames (fileOps False) 1 demoCfg TreeMerge.demoDisk ((), demoJournal) = Inr kv"
    "stTrees (kvPS kv) = [EmptyTree]" "kvNumCf kv = 1" "\<not> flushActive kv" "\<not> kvReadOnly kv"
    using demo_open [OF demo_ok(1) demo_roots, of storedFrames 1 "()"] by blast
  note th = demo_trees [OF kv(2)]
  have d: "disk_ok TreeMerge.demoDisk" using demo_ok(1) by (simp add: disk_clean_def)
  have z: "\<forall>x. Decompress storedFrames (compress storedFrames x) = Inr x" by (simp add: storedFrames_inverse)
  have sm: "sim (pageOf storedFrames (fileOps False)) disk_ok 0 (kv, Idle) (opened 1 [[]] [])"
    using filePages.NewKVStore_sim [OF kv(1) demo_cfg(4,5) _ d th, of 0 1] kv(3) by (simp add: demo_cfg demo_replay)
  obtain kv1 where w: "writeEntries noHooks [demoEntry 7] kv = Inr kv1"
    using write_total [OF sm, of 1 "[demoEntry 7]" noHooks] demo_entry_ok [of 1 "[7]"] by auto
  obtain b kv2 where c: "CaptureFlush noHooks kv1 = (Some b, kv2)"
    using capture_total [of kv1 noHooks] writeEntries_flags [OF w] kv(4,5) by blast
  obtain r kv3 where g: "KVGet storedFrames (fileOps False) 0 (replicate 9 7) kv2 = (r, kv3)" by fastforce
  let ?ls = "[LWrite [demoEntry 7], LCapture, LGet 0 (replicate 9 7) r]"
  have st: "flush_steps storedFrames (fileOps False) noHooks (\<lambda>_ _ _. False) (kv, Idle) ?ls (kv3, Captured b)"
    using flush_steps.OneStep [OF flush_steps.OneStep [OF flush_steps.OneStep [OF flush_steps.NoStep Write [OF w]] Capture [OF c]] Get [OF g]]
    by simp
  have "spec_trace 1 (opened 1 [[]] []) ?ls"
    using store_refines_key_sets [OF refl z kv(1) demo_cfg(4,5) _ d th, of 0 ?ls noHooks "\<lambda>_ _ _. False" "(kv3, Captured b)"] st kv(3)
      demo_entry_ok [of 1 "[7]"] by (simp add: demo_cfg demo_replay)
  moreover have "demoEntry 7 \<in> {e. e = demoEntry 7 \<and> unat (Cf e) = 0}" by (simp add: demoEntry_def)
  then have "replicate 9 7 \<in> CfKey_Key ` {e. e = demoEntry 7 \<and> unat (Cf e) = 0}"
    by (rule image_eqI [rotated]) (simp add: demoEntry_def)
  ultimately have "r = Inr True" by (simp add: opened_def visible_def keysIn_def)
  then show ?thesis using kv(1) st by blast
qed

end
