(* ===== verification/Durability.thy ===== *)
theory Durability
  imports FlushProtocol
begin

text \<open>
  The facade with the write-ahead log behind its callbacks, as \<^verbatim>\<open>src/go/internal/transactor/server.go\<close> wires them: the log
  receives the datoms, a capture seals it, and a published flush reports the sealed position as durable, below
  which the log deletes its segments. Without aborted flushes every datom is in the published trees or in the
  log; after an aborted flush the next one reports datoms durable that are in neither.
\<close>

section \<open>The wiring\<close>

text \<open>Before the log is attached the state of the callbacks is \<open>None\<close>.\<close>

definition onLog :: "(Writer \<Rightarrow> jdisk \<Rightarrow> Writer \<times> jdisk) \<Rightarrow> Writer option \<times> jdisk \<Rightarrow> Writer option \<times> jdisk" where
  "onLog f s = (case fst s of None \<Rightarrow> s | Some w \<Rightarrow> (case f w (snd s) of (w', d') \<Rightarrow> (Some w', d')))"

text \<open>The sink and the seal; the callbacks that tell the hub and the flusher do not touch the log.\<close>

definition walHooks :: "Writer option hooks" where
  "walHooks =
     \<lparr>JournalSink = Some (\<lambda>es. onLog (Sink es)),
      JournalSeal = Some (\<lambda>s. case fst s of
          None \<Rightarrow> (-1, s)
        | Some w \<Rightarrow> (case Seal w of (b, w') \<Rightarrow> (b, Some w', snd s))),
      OnFlushRequest = None, OnFlushPublish = None\<rparr>"

text \<open>\<open>wal.Attach\<close>, the durable counter at -1, and the callbacks of \<open>NewEngineConfig\<close>.\<close>

definition attachWal :: "('s, Writer option) KVStore \<Rightarrow> ('s, Writer option) KVStore result" where
  "attachWal kv =
     (case Attach (snd (kvWorld kv)) of
        (Inl e, _) \<Rightarrow> Inl e
      | (Inr w, d) \<Rightarrow> Inr (kv\<lparr>kvWorld := (Some w, d), WalDurableUpTo := Some (-1)\<rparr>))"

text \<open>The work of the log while the engine runs: its cycle with the durable counter, drains, snapshots for replicas.\<close>

definition walWork :: "int option \<Rightarrow> Writer option \<times> jdisk \<Rightarrow> Writer option \<times> jdisk \<Rightarrow> bool" where
  "walWork durable s s' \<longleftrightarrow>
     (\<exists>op \<in> {OpDrain, OpSnapshot, OpTick (case durable of None \<Rightarrow> -1 | Some t \<Rightarrow> t)}. s' = onLog (\<lambda>w d. walExec op (w, d)) s)"

fun datoms :: "flush_label \<Rightarrow> CfKey list" where
  "datoms (LWrite es) = filter (\<lambda>e. Cf e = 0) es"
| "datoms _ = []"

section \<open>The log stays open\<close>

lemma sealStep_stopped: "sealStep w d = (e, w', d') \<Longrightarrow> wStopped w' = wStopped w"
proof -
  have ws: "writeSplit n w d = (e, w', d') \<Longrightarrow> wStopped w' = wStopped w" for n w d e w' d'
    by (auto simp: writeSplit_def split: if_splits prod.splits option.splits)
  have ro: "rotate w d = (e, w', d') \<Longrightarrow> wStopped w' = wStopped w" for w d e w' d'
    by (auto simp: rotate_def Let_def split: prod.splits sum.splits)
  assume "sealStep w d = (e, w', d')"
  then show ?thesis unfolding sealStep_def Let_def by (auto split: prod.splits option.splits if_splits dest!: ws ro)
qed

lemma drainLocked_stopped: "drainLocked w d = (e, w', d') \<Longrightarrow> wStopped w' = wStopped w"
proof (induction w d rule: drainLocked.induct)
  case (1 w d)
  obtain e1 w1 d1 where s: "sealStep w d = (e1, w1, d1)" using prod_cases3 by blast
  show ?case
    using "1.prems" "1.IH" [OF _ s [symmetric]] sealStep_stopped [OF s]
    by (subst (asm) drainLocked.simps) (auto simp: s split: if_splits prod.splits option.splits)
qed

lemma walExec_stopped:
  assumes "op = OpDrain \<or> op = OpSnapshot \<or> op = OpSeal \<or> (\<exists>t. op = OpTick t) \<or> (\<exists>es. op = OpSink es)"
  shows "wStopped (fst (walExec op (w, d))) = wStopped w"
proof -
  obtain e w1 d1 where dr: "drainLocked w d = (e, w1, d1)" using prod_cases3 by blast
  note ds = drainLocked_stopped [OF dr]
  have "wStopped (fst (Sink es w d)) = wStopped w" for es
  proof -
    let ?w = "w\<lparr>wBuf := wBuf w @ frames es, wLogicalEnd := wLogicalEnd w + length (frames es),
      wOnWal := (if frames es \<noteq> [] then wOnWal w @ [frames es] else wOnWal w)\<rparr>"
    obtain e2 w2 d2 where dr2: "drainLocked ?w d = (e2, w2, d2)" using prod_cases3 by blast
    then show ?thesis using drainLocked_stopped [OF dr2] by (simp add: Sink_def Let_def)
  qed
  moreover have "wStopped (fst (walTick t w d)) = wStopped w" for t
    using ds dr by (simp add: walTick_def deleteDurable_def split: prod.split)
  ultimately show ?thesis using assms ds dr by (auto simp: Drain_def Seal_def SnapshotLocked_def Let_def)
qed

lemma frames_prefix:
  assumes "es = a @ b" "es = c @ e" "length (frames a) \<le> length (frames c)"
  shows "set a \<subseteq> set c"
proof -
  consider us where "a = c @ us" | us where "c = a @ us" using assms(1,2) by (metis append_eq_append_conv2)
  then show ?thesis
  proof cases
    case 1
    then have "frames us = []" using assms(3) by simp
    then show ?thesis using 1 frames_nonempty [of us] by fastforce
  qed simp
qed

section \<open>The invariant\<close>

text \<open>The records below position \<open>t\<close> of the log of \<open>es\<close> are among \<open>S\<close>.\<close>

definition covered :: "int \<Rightarrow> CfKey list \<Rightarrow> bytes set \<Rightarrow> bool" where
  "covered t es S \<longleftrightarrow> (\<exists>a b. es = a @ b \<and> t \<le> int (length (frames a)) \<and> CfKey_Key ` set a \<subseteq> S)"

lemma covered_mono: "covered t es S \<Longrightarrow> S \<subseteq> S' \<Longrightarrow> covered t (es @ fs) S'"
  unfolding covered_def by (metis append.assoc subset_trans)

definition seal_ok :: "int \<Rightarrow> CfKey list \<Rightarrow> spec \<Rightarrow> flusher \<Rightarrow> bool" where
  "seal_ok dur es sp fl \<longleftrightarrow> (case fl of
       Captured b \<Rightarrow> dur \<le> SealBoundary b \<and> covered (SealBoundary b) es (spStored sp 0 \<union> spFrozen sp 0)
     | Prepared b _ _ \<Rightarrow> dur \<le> SealBoundary b \<and> covered (SealBoundary b) es (spStored sp 0 \<union> spFrozen sp 0)
     | _ \<Rightarrow> True)"

definition log_inv ::
  "nat \<Rightarrow> (string \<times> bytes) list \<Rightarrow> spec \<Rightarrow> CfKey list \<Rightarrow> ('s, Writer option) KVStore \<times> flusher \<Rightarrow> bool" where
  "log_inv f0 old sp es s \<longleftrightarrow> (case s of (kv, fl) \<Rightarrow> \<exists>w d ts dur.
     kvWorld kv = (Some w, d) \<and> Wal.log_of f0 old ts (w, d) es \<and> \<not> wStopped w \<and> journaling kv
     \<and> WalDurableUpTo kv = Some dur \<and> (\<forall>t \<in> ts. t \<le> dur) \<and> covered dur es (spStored sp 0)
     \<and> CfKey_Key ` set es \<subseteq> visible sp 0 \<and> seal_ok dur es sp fl)"

lemma log_invI:
  assumes "kvWorld kv = (Some w, d)" "Wal.log_of f0 old ts (w, d) es" "\<not> wStopped w" "journaling kv"
    "WalDurableUpTo kv = Some dur" "\<forall>t \<in> ts. t \<le> dur" "covered dur es (spStored sp 0)"
    "CfKey_Key ` set es \<subseteq> visible sp 0" "seal_ok dur es sp fl"
  shows "log_inv f0 old sp es (kv, fl)"
  using assms unfolding log_inv_def by blast

text \<open>One operation of the log, which stays open.\<close>

lemma log_exec:
  assumes "Wal.log_of f0 old ts (w, d) es" "\<not> wStopped w" "walExec op (w, d) = (w', d')"
    and "op = OpDrain \<or> op = OpSnapshot \<or> op = OpSeal \<or> op = OpTick t \<or> (\<exists>es. op = OpSink es)"
  shows "Wal.log_of f0 old (insert t ts) (w', d') (es @ accepted op w) \<and> \<not> wStopped w'"
proof -
  have "Wal.log_of f0 old (insert t ts) (walExec op (w, d)) (es @ accepted op w)"
    by (rule walExec_log [OF assms(1)]) (use assms(4) in auto)
  moreover have "wStopped (fst (walExec op (w, d))) = wStopped w"
    by (rule walExec_stopped) (use assms(4) in auto)
  ultimately show ?thesis using assms(2,3) by simp
qed

lemma write_world:
  assumes "writeEntries walHooks es kv = Inr kv'" "kvWorld kv = (Some w, d)" "journaling kv" "\<not> wStopped w"
  shows "\<exists>w' d'. kvWorld kv' = (Some w', d') \<and> walExec (OpSink (filter (\<lambda>e. Cf e = 0) es)) (w, d) = (w', d')
    \<or> kvWorld kv' = (Some w, d) \<and> filter (\<lambda>e. Cf e = 0) es = []"
proof -
  let ?ds = "filter (\<lambda>e. Cf e = 0) es"
  define kv1 where "kv1 = (if ?ds \<noteq> [] then JournalOnly walHooks ?ds kv else kv)"
  have "kvWorld kv' = kvWorld kv1"
  proof (cases "es = []")
    case False
    then have "BatchWrite walHooks es False kv1 = Inr kv'" using assms(1) by (simp add: writeEntries_def kv1_def Let_def)
    then show ?thesis
      by (auto simp: BatchWrite_def storeSized_def maybeArmFlush_def walHooks_def Let_def rbind_Inr split: sum.splits)
  qed (use assms(1) in \<open>simp add: writeEntries_def kv1_def\<close>)
  moreover obtain w' d' where "Sink ?ds w d = (w', d')" by fastforce
  ultimately show ?thesis using assms(2,3)
    by (auto simp: kv1_def JournalOnly_def journalDeliver_def walHooks_def onLog_def)
qed

lemma log_write:
  assumes l: "log_inv f0 old sp es (kv, fl)" and w: "writeEntries walHooks new kv = Inr kv'" and n: "0 < n"
  shows "log_inv f0 old (spec_next n sp (LWrite new)) (es @ datoms (LWrite new)) (kv', fl)"
proof -
  let ?ds = "filter (\<lambda>e. Cf e = 0) new" and ?sp = "spec_next n sp (LWrite new)"
  obtain lw d ts dur where i: "kvWorld kv = (Some lw, d)" "Wal.log_of f0 old ts (lw, d) es" "\<not> wStopped lw" "journaling kv"
    "WalDurableUpTo kv = Some dur" "\<forall>t \<in> ts. t \<le> dur" "covered dur es (spStored sp 0)" "CfKey_Key ` set es \<subseteq> visible sp 0"
    "seal_ok dur es sp fl"
    using l unfolding log_inv_def by blast
  have k: "WalDurableUpTo kv' = Some dur" "journaling kv'"
    using writeEntries_cases [OF w] w i(4,5) by (cases "new = []"; auto simp: writeEntries_def journaling_def)+
  have "Cf e = 0 \<Longrightarrow> unat (Cf e) = 0" for e :: CfKey by simp
  then have "CfKey_Key ` set ?ds \<subseteq> keysIn n new 0" using n by (auto simp: keysIn_def)
  then have vis: "CfKey_Key ` set (es @ ?ds) \<subseteq> visible ?sp 0" using i(8) by (auto simp: visible_def)
  have cov: "covered dur (es @ ?ds) (spStored ?sp 0)" using covered_mono [OF i(7)] by simp
  have "spStored ?sp 0 \<union> spFrozen ?sp 0 = spStored sp 0 \<union> spFrozen sp 0" by simp
  then have sl: "seal_ok dur (es @ ?ds) ?sp fl"
    using i(9) covered_mono by (auto simp: seal_ok_def split: flusher.splits)
  obtain w' d' ts' where "kvWorld kv' = (Some w', d')" "Wal.log_of f0 old ts' (w', d') (es @ ?ds)" "\<not> wStopped w'" "\<forall>t \<in> ts'. t \<le> dur"
  proof -
    assume goal: "\<And>w' d' ts'. kvWorld kv' = (Some w', d') \<Longrightarrow> Wal.log_of f0 old ts' (w', d') (es @ ?ds) \<Longrightarrow> \<not> wStopped w' \<Longrightarrow>
      \<forall>t \<in> ts'. t \<le> dur \<Longrightarrow> thesis"
    from write_world [OF w i(1,4,3)] show thesis
    proof (elim exE disjE conjE)
      fix w' d' assume e: "kvWorld kv' = (Some w', d')" "walExec (OpSink ?ds) (lw, d) = (w', d')"
      have "Wal.log_of f0 old (insert dur ts) (w', d') (es @ accepted (OpSink ?ds) lw) \<and> \<not> wStopped w'"
        by (rule log_exec [OF i(2,3) e(2)]) blast
      then show thesis using goal [OF e(1), of "insert dur ts"] i(3,6) by simp
    next
      assume "kvWorld kv' = (Some lw, d)" "?ds = []"
      then show thesis using goal [of lw d ts] i(2,3,6) by simp
    qed
  qed
  then show ?thesis using k cov vis sl by (intro log_invI [of kv' w' d' f0 old ts' _ dur]) simp_all
qed

lemma log_frame:
  assumes "log_inv f0 old sp es (kv, fl)" "kvWorld kv' = kvWorld kv" "journaling kv' = journaling kv" "WalDurableUpTo kv' = WalDurableUpTo kv"
    and "\<And>dur. seal_ok dur es sp fl \<Longrightarrow> seal_ok dur es sp fl'"
  shows "log_inv f0 old sp es (kv', fl')"
proof -
  obtain w d ts dur where i: "kvWorld kv = (Some w, d)" "Wal.log_of f0 old ts (w, d) es" "\<not> wStopped w" "journaling kv"
    "WalDurableUpTo kv = Some dur" "\<forall>t \<in> ts. t \<le> dur" "covered dur es (spStored sp 0)" "CfKey_Key ` set es \<subseteq> visible sp 0"
    "seal_ok dur es sp fl"
    using assms(1) unfolding log_inv_def by blast
  then show ?thesis using assms(2-5) by (intro log_invI [of kv' w d f0 old ts es dur]) simp_all
qed

lemma log_tick:
  assumes "log_inv f0 old sp es (kv, fl)" "walWork (WalDurableUpTo kv) (kvWorld kv) w'"
  shows "log_inv f0 old sp es (kv\<lparr>kvWorld := w'\<rparr>, fl)"
proof -
  obtain w d ts dur where i: "kvWorld kv = (Some w, d)" "Wal.log_of f0 old ts (w, d) es" "\<not> wStopped w" "journaling kv"
    "WalDurableUpTo kv = Some dur" "\<forall>t \<in> ts. t \<le> dur" "covered dur es (spStored sp 0)" "CfKey_Key ` set es \<subseteq> visible sp 0"
    "seal_ok dur es sp fl"
    using assms(1) unfolding log_inv_def by blast
  obtain op where op: "op \<in> {OpDrain, OpSnapshot, OpTick dur}" "w' = onLog (\<lambda>w d. walExec op (w, d)) (Some w, d)"
    using assms(2) [unfolded walWork_def i(1,5) option.case] by blast
  obtain w1 d1 where e: "walExec op (w, d) = (w1, d1)" by fastforce
  have "Wal.log_of f0 old (insert dur ts) (w1, d1) (es @ accepted op w) \<and> \<not> wStopped w1"
    by (rule log_exec [OF i(2,3) e]) (use op(1) in auto)
  moreover have "accepted op w = []" using op(1) by auto
  moreover have "w' = (Some w1, d1)" using op(2) e by (simp add: onLog_def)
  ultimately show ?thesis
    using i(4-9) by (intro log_invI [of _ w1 d1 f0 old "insert dur ts" _ dur]) (simp_all add: journaling_def)
qed

lemma log_capture:
  assumes l: "log_inv f0 old sp es (kv, Idle)" and c: "CaptureFlush walHooks kv = (Some b, kv')" and n: "spFrozen sp = (\<lambda>_. {})"
  shows "log_inv f0 old (spec_next n sp LCapture) es (kv', Captured b)"
proof -
  obtain w d ts dur where i: "kvWorld kv = (Some w, d)" "Wal.log_of f0 old ts (w, d) es" "\<not> wStopped w" "journaling kv"
    "WalDurableUpTo kv = Some dur" "\<forall>t \<in> ts. t \<le> dur" "covered dur es (spStored sp 0)" "CfKey_Key ` set es \<subseteq> visible sp 0"
    using l unfolding log_inv_def by blast
  let ?sp = "spec_next n sp LCapture"
  have k: "WalDurableUpTo kv' = Some dur" "journaling kv'"
    using CaptureFlush_cases [OF c] i(4,5) by (auto simp: journaling_def)
  have sb: "SealBoundary b = int (wLogicalEnd w)" "kvWorld kv' = (Some (snd (Seal w)), d)"
    using CaptureFlush_cases [OF c] i(1) by (auto simp: walHooks_def Seal_def)
  have "Wal.log_of f0 old (insert dur ts) (snd (Seal w), d) (es @ accepted OpSeal w) \<and> \<not> wStopped (snd (Seal w))"
    by (rule log_exec [OF i(2,3)]) auto
  moreover have "wLogicalEnd w = length (frames es)" using i(2) by (auto simp: Wal.log_of_def wal_inv_def)
  then have "covered (SealBoundary b) es (spStored ?sp 0 \<union> spFrozen ?sp 0)" "dur \<le> SealBoundary b"
    using i(7,8) n sb(1) by (auto simp: covered_def visible_def)
  moreover have "CfKey_Key ` set es \<subseteq> visible ?sp 0" using i(8) n by (auto simp: visible_def)
  ultimately show ?thesis using k sb(2) i(6,7)
    by (intro log_invI [of kv' "snd (Seal w)" d f0 old "insert dur ts" _ dur]) (simp_all add: seal_ok_def)
qed

lemma log_publish:
  assumes "log_inv f0 old sp es (kv, Prepared b ts' root)"
  shows "log_inv f0 old (spec_next n sp LPublish) es (PublishFlush walHooks b ts' root kv, Idle)"
proof -
  obtain w d ts dur where i: "kvWorld kv = (Some w, d)" "Wal.log_of f0 old ts (w, d) es" "\<not> wStopped w" "journaling kv"
    "WalDurableUpTo kv = Some dur" "\<forall>t \<in> ts. t \<le> dur" "covered dur es (spStored sp 0)" "CfKey_Key ` set es \<subseteq> visible sp 0"
    "dur \<le> SealBoundary b" "covered (SealBoundary b) es (spStored sp 0 \<union> spFrozen sp 0)"
    using assms unfolding log_inv_def seal_ok_def by auto
  let ?kv = "PublishFlush walHooks b ts' root kv" and ?sp = "spec_next n sp LPublish"
  have "kvWorld ?kv = (Some w, d)" using i(1) by (simp add: PublishFlush_def walHooks_def Let_def)
  moreover obtain dur' where "WalDurableUpTo ?kv = Some dur'" "dur \<le> dur'" "covered dur' es (spStored ?sp 0)"
    using i(5,9,10) covered_mono [OF i(7), of "spStored ?sp 0" "[]"]
    by (cases "0 \<le> SealBoundary b") (auto simp: PublishFlush_frame)
  moreover have "journaling ?kv" using i(4) by (simp add: journaling_def PublishFlush_frame)
  moreover have "CfKey_Key ` set es \<subseteq> visible ?sp 0" using i(8) by (auto simp: visible_def)
  ultimately show ?thesis using i(2,3,6)
    by (intro log_invI [of ?kv w d f0 old ts _ dur']) (auto simp: seal_ok_def)
qed

lemma log_step:
  assumes st: "flush_step z bo walHooks walWork s l s'" and l: "log_inv f0 old sp es s" and sm: "sim pg good N s sp"
    and n: "0 < n" and na: "l \<noteq> LAbort"
  shows "log_inv f0 old (spec_next n sp l) (es @ datoms l) s'"
  using st
proof cases
  case (Write new kv kv' fl)
  then show ?thesis using log_write [of f0 old sp es kv fl new kv' n] l n by simp
next
  case (Get cf k kv r kv' fl)
  then have "kvWorld kv' = kvWorld kv" "journaling kv' = journaling kv" "WalDurableUpTo kv' = WalDurableUpTo kv"
    by (auto simp: KVGet_def journaling_def split: sum.splits bool.splits prod.splits)
  then show ?thesis using log_frame [of f0 old sp es kv fl kv' fl] l Get by simp
next
  case (Tick kv w fl)
  then show ?thesis using log_tick [of f0 old sp es kv fl w] l by simp
next
  case (Capture kv b kv')
  then show ?thesis using log_capture [of f0 old sp es kv b kv' n] l sm by (auto simp: sim_def flusher_ok_def)
next
  case (Prepare now now2 b kv ts root b' kv')
  note f = PrepareFlush_frame [OF Prepare(4)]
  have "journaling kv' = journaling kv" using f by (simp add: journaling_def)
  then show ?thesis using log_frame [of f0 old sp es kv "Captured b" kv' "Prepared b' ts root"] l Prepare f by (simp add: seal_ok_def)
next
  case (Fail now now2 b kv e b' kv')
  note f = PrepareFlush_frame [OF Fail(4)]
  have "journaling kv' = journaling kv" using f by (simp add: journaling_def)
  then show ?thesis using log_frame [of f0 old sp es kv "Captured b" kv' Failed] l Fail f by (simp add: seal_ok_def)
next
  case (Publish kv b ts root)
  then show ?thesis using log_publish [of f0 old sp es kv b ts root n] l by simp
qed (use na in simp)

section \<open>Every datom is in the trees or in the log\<close>

context page_store
begin

lemma log_steps:
  assumes "flush_steps z bo walHooks walWork s ls s'" "log_inv f0 old sp es s" "sim pg wf N s sp" "kvNumCf (fst s) = n" "0 < n"
    and "N + sum_list (map weight ls) < 2 ^ 63" "\<forall>l \<in> set ls. label_ok n l" "LAbort \<notin> set ls"
  shows "log_inv f0 old (foldl (spec_next n) sp ls) (es @ concat (map datoms ls)) s'"
  using assms
proof (induction rule: flush_steps.induct)
  case (OneStep s ls s' l s'')
  have sm: "sim pg wf (N + sum_list (map weight ls)) s' (foldl (spec_next n) sp ls)"
    using sim_steps [OF OneStep.hyps(1)] OneStep.prems by simp
  have "log_inv f0 old (foldl (spec_next n) sp ls) (es @ concat (map datoms ls)) s'"
    using OneStep.IH OneStep.prems by simp
  from log_step [OF OneStep.hyps(2) this sm OneStep.prems(4)] show ?case using OneStep.prems(7) by auto
qed simp

end

text \<open>The log as it is attached: nothing recorded, nothing durable.\<close>

lemma attach_inv:
  assumes "attachWal kv0 = Inr kv" "sane_dir (jFiles (snd (kvWorld kv0)))" "jOpenFaults (snd (kvWorld kv0)) = []" "journaling kv0"
  shows "log_inv (nat (maxSeg (jFiles (snd (kvWorld kv0))) + 1)) (jFiles (snd (kvWorld kv0))) sp [] (kv, Idle)"
    "sim pg good N (kv0, Idle) sp \<Longrightarrow> sim pg good N (kv, Idle) sp" "kvNumCf kv = kvNumCf kv0" "kvBlobs kv = kvBlobs kv0" "kvPS kv = kvPS kv0"
    "flushActive kv = flushActive kv0" "kvReadOnly kv = kvReadOnly kv0"
proof -
  obtain w d where a: "Attach (snd (kvWorld kv0)) = (Inr w, d)" "kv = kv0\<lparr>kvWorld := (Some w, d), WalDurableUpTo := Some (-1)\<rparr>"
    using assms(1) by (auto simp: attachWal_def split: prod.splits sum.splits)
  note l = Attach_log [OF assms(2,3) a(1)]
  show "log_inv (nat (maxSeg (jFiles (snd (kvWorld kv0))) + 1)) (jFiles (snd (kvWorld kv0))) sp [] (kv, Idle)"
    using l assms(4) by (intro log_invI [of _ w d _ _ "{}" _ "-1"]) (auto simp: a(2) journaling_def covered_def seal_ok_def)
  show "sim pg good N (kv0, Idle) sp \<Longrightarrow> sim pg good N (kv, Idle) sp" by (erule sim_frame) (simp_all add: a(2))
qed (use assms(1) in \<open>auto simp: attachWal_def split: prod.splits sum.splits\<close>)

lemma datoms_ok:
  assumes "\<forall>l \<in> set ls. label_ok n l" "e \<in> set (concat (map datoms ls))"
  shows "journalable e \<and> Cf e = 0"
proof -
  obtain l where l: "l \<in> set ls" "e \<in> set (datoms l)" using assms(2) by auto
  from l(2) obtain es where "l = LWrite es" "e \<in> set es" "Cf e = 0" by (cases l) auto
  then show ?thesis using assms(1) l(1) by (auto simp: journalable_def maxJournalKeyLen_def key_ok_def)
qed

lemma log_inv_datoms:
  assumes l: "log_inv (nat (maxSeg old + 1)) old sp es (kv, fl)" and w: "kvWorld kv = (Some w, j)" "wBuf w = []" "wSegIdx w < 2 ^ 63"
    and old: "sane_dir old" and ok: "\<forall>e \<in> set es. journalable e \<and> Cf e = 0"
  shows "\<exists>gone kept. es = gone @ kept \<and> CfKey_Key ` set gone \<subseteq> spStored sp 0
    \<and> concat (replayBatches (jFiles j)) = concat (replayBatches old) @ kept"
proof -
  obtain ts dur where i: "Wal.log_of (nat (maxSeg old + 1)) old ts (w, j) es" "\<forall>t \<in> ts. t \<le> dur" "covered dur es (spStored sp 0)"
    using l w(1) unfolding log_inv_def by auto
  obtain gone segs cur where g: "wal_inv (nat (maxSeg old + 1)) old w j gone segs cur" "es = gone @ concat segs @ cur"
    "gone = [] \<or> (\<exists>t \<in> ts. int (length (frames gone)) \<le> t)"
    using i(1) unfolding Wal.log_of_def fst_conv snd_conv by blast
  obtain a b where c: "es = a @ b" "dur \<le> int (length (frames a))" "CfKey_Key ` set a \<subseteq> spStored sp 0"
    using i(3) unfolding covered_def by blast
  have "set gone \<subseteq> set a"
  proof (cases "gone = []")
    case False
    then have "length (frames gone) \<le> length (frames a)" using g(3) i(2) c(2) by force
    then show ?thesis by (rule frames_prefix [OF g(2) c(1)])
  qed simp
  then have "CfKey_Key ` set gone \<subseteq> spStored sp 0" using c(3) by blast
  moreover have "concat (replayBatches (jFiles j)) = concat (replayBatches old) @ filter (\<lambda>e. Cf e \<le> 3) (concat segs @ cur)"
    by (rule replay_inv [OF g(1) old _ w(2,3)]) (use ok g(2) in auto)
  moreover have "\<forall>e \<in> set (concat segs @ cur). Cf e \<le> 3" using ok g(2) by auto
  then have "filter (\<lambda>e. Cf e \<le> 3) (concat segs @ cur) = concat segs @ cur" by (rule filter_True)
  ultimately show ?thesis using g(2) by auto
qed

text \<open>C2. No datom is lost between the log and the trees. Open a store on a page cache of size at least zero and a journal
  directory whose segment numbers are distinct and below \<open>2 ^ 62\<close>, attach the log, and let writes, reads, the log's own work and
  flushes run in any order, with any failures of the blob store and of writing and deleting segments, but without an aborted flush
  and with every open of a segment succeeding. Let every written and replayed entry have a column family below 10 and a key of
  9 to 65535 bytes (a longer key is acknowledged and not replayed, see \<open>oversized_record_rejected\<close>), and let the keys be fewer than \<open>2 ^ 63\<close>. Then,
  whenever the log's buffer is empty, every CF-0 entry written since, and every entry that was replayed at the start, is in the
  published tree of column family 0 or comes back when the journal is replayed; so segments are deleted only when the trees
  hold their datoms.\<close>

theorem no_datom_lost:
  fixes kv0 :: "(disk, Writer option) KVStore"
  assumes "replayed = concat (replayBatches (jFiles j))" "\<forall>x. Decompress z (compress z x) = Inr x"
    and "NewKVStore z (fileOps False) now cfg d (None, j) = Inr kv0" "attachWal kv0 = Inr kv"
    and "\<not> cfgReadOnly cfg" "\<not> cfgReplayOff cfg" "0 \<le> cfgPageCacheSize cfg" "disk_ok d" "sane_dir (jFiles j)" "jOpenFaults j = []"
    and "trees_hold (pageOf z (fileOps False) (kvBlobs kv0)) (stTrees (kvPS kv0)) kss" "\<forall>ks \<in> set kss. length ks \<le> N"
    and "\<forall>l \<in> set (LWrite replayed # ls). label_ok (kvNumCf kv0) l"
    and "N + sum_list (map weight (LWrite replayed # ls)) < 2 ^ 63"
    and "flush_steps z (fileOps False) walHooks walWork (kv, Idle) ls (kv', fl)" "LAbort \<notin> set ls"
    and "kvWorld kv' = (Some w, j')" "wBuf w = []" "wSegIdx w < 2 ^ 63"
  shows "\<exists>kss'. trees_hold (pageOf z (fileOps False) (kvBlobs kv')) (stTrees (kvPS kv')) kss'
    \<and> (\<forall>e \<in> set (replayed @ concat (map datoms ls)).
         e \<in> set (concat (replayBatches (jFiles j'))) \<or> Cf e = 0 \<and> CfKey_Key e \<in> set (kss' ! 0))"
proof -
  note ps = file_page_store [OF assms(2)]
  let ?n = "kvNumCf kv0" and ?pg = "pageOf z (fileOps False)"
  have n: "0 < ?n" "journaling kv0" "kvWorld kv0 = (None, j)"
    using NewKVStore_cases [OF assms(3,5,6)] by (auto simp: journaling_def)
  have "label_ok ?n (LWrite (concat (replayBatches (jFiles (snd (None :: Writer option, j))))))" using assms(1,13) by simp
  note s0 = page_store.NewKVStore_sim [OF ps assms(3,5-8,11,12) this, unfolded snd_conv, folded assms(1)]
  note at = attach_inv [OF assms(4), unfolded n(3) snd_conv, OF assms(9,10) n(2)]
  have sm: "sim ?pg disk_ok (N + length replayed) (kv, Idle) (opened ?n kss replayed)" by (rule at(2) [OF s0])
  have b: "N + length replayed + sum_list (map weight ls) < 2 ^ 63" "\<forall>l \<in> set ls. label_ok ?n l" using assms(13,14) by simp_all
  let ?sp = "foldl (spec_next ?n) (opened ?n kss replayed) ls" and ?es = "concat (map datoms ls)"
  have "log_inv (nat (maxSeg (jFiles j) + 1)) (jFiles j) ?sp ([] @ ?es) (kv', fl)"
    by (rule page_store.log_steps [OF ps assms(15) at(1) sm _ n(1) b assms(16)]) (simp add: at(3))
  from log_inv_datoms [OF this assms(17-19) assms(9)] obtain gone kept where g: "?es = gone @ kept"
    "CfKey_Key ` set gone \<subseteq> spStored ?sp 0" "concat (replayBatches (jFiles j')) = replayed @ kept"
    using datoms_ok [OF b(2)] assms(1) by auto
  have e: "sim ?pg disk_ok (N + length replayed + sum_list (map weight ls)) (kv', fl) ?sp \<and> kvNumCf kv' = ?n"
    using page_store.sim_steps [OF ps assms(15) sm _ b] at(3) by simp
  then obtain kss' where "store_ok (?pg (kvBlobs kv')) kv' kss' ?sp" by (auto simp: sim_def)
  then have k: "trees_hold (?pg (kvBlobs kv')) (stTrees (kvPS kv')) kss'" "spStored ?sp 0 = set (kss' ! 0)"
    using e n(1) by (auto simp: store_ok_def)
  have "\<forall>e \<in> set (replayed @ ?es). e \<in> set (replayed @ kept) \<or> Cf e = 0 \<and> CfKey_Key e \<in> set (kss' ! 0)"
    using g(1,2) k(2) datoms_ok [OF b(2)] by auto
  then show ?thesis using k(1) g(3) by metis
qed

section \<open>An aborted flush\<close>

lemma flush_steps_append:
  "flush_steps z bo h bg s' ms s'' \<Longrightarrow> flush_steps z bo h bg s ls s' \<Longrightarrow> flush_steps z bo h bg s (ls @ ms) s''"
  by (induction rule: flush_steps.induct) (simp, metis append_assoc flush_steps.OneStep)

lemma flush_steps_snocD:
  "flush_steps z bo h bg s (ls @ [l]) s'' \<Longrightarrow> \<exists>s'. flush_steps z bo h bg s ls s' \<and> flush_step z bo h bg s' l s''"
  by (erule flush_steps.cases) auto

lemma flush_steps_NilD: "flush_steps z bo h bg s [] s' \<Longrightarrow> s' = s"
  by (erule flush_steps.cases) auto

lemma flush_after_abort:
  assumes "flush_steps z bo walHooks walWork (kv1, Failed) [LAbort, LCapture, LPrepared, LPublish] (kv2, fl2)"
    and "kvWorld kv1 = (Some w, j)" "WalDurableUpTo kv1 \<noteq> None"
  shows "WalDurableUpTo kv2 = Some (int (wLogicalEnd w))"
proof -
  let ?st = "flush_step z bo walHooks walWork"
  have "flush_steps z bo walHooks walWork (kv1, Failed) ((([LAbort] @ [LCapture]) @ [LPrepared]) @ [LPublish]) (kv2, fl2)"
    using assms(1) by simp
  from flush_steps_snocD [OF this] obtain s3 where s3: "?st s3 LPublish (kv2, fl2)"
    "flush_steps z bo walHooks walWork (kv1, Failed) (([LAbort] @ [LCapture]) @ [LPrepared]) s3" by blast
  from flush_steps_snocD [OF s3(2)] obtain s2 where s2: "?st s2 LPrepared s3"
    "flush_steps z bo walHooks walWork (kv1, Failed) ([LAbort] @ [LCapture]) s2" by blast
  from flush_steps_snocD [OF s2(2)] obtain s1 where s1: "?st s1 LCapture s2"
    "flush_steps z bo walHooks walWork (kv1, Failed) ([] @ [LAbort]) s1" by auto
  from flush_steps_snocD [OF s1(2)] have a: "?st (kv1, Failed) LAbort s1" using flush_steps_NilD by blast
  have "s1 = (AbortFlush kv1, Idle)" using a by (auto elim: flush_step.cases)
  then obtain b kva where c: "CaptureFlush walHooks (AbortFlush kv1) = (Some b, kva)" "s2 = (kva, Captured b)"
    using s1(1) by (auto elim: flush_step.cases)
  then obtain now now2 b' kvb ts root where p: "PrepareFlush z bo now now2 b kva = (Inr (ts, root), b', kvb)" "s3 = (kvb, Prepared b' ts root)"
    using s2(1) by (auto elim: flush_step.cases)
  then have e: "kv2 = PublishFlush walHooks b' ts root kvb" using s3(1) by (auto elim: flush_step.cases)
  have "SealBoundary b = int (wLogicalEnd w)" "WalDurableUpTo kva = WalDurableUpTo kv1"
    using CaptureFlush_cases [OF c(1)] assms(2) by (auto simp: walHooks_def Seal_def AbortFlush_def)
  then show ?thesis using PrepareFlush_frame [OF p(1)] assms(3) by (simp add: e PublishFlush_frame)
qed

text \<open>C40. An aborted flush forgets datoms. Open a store and attach the log, and let it run as in the theorem above, with keys of
  9 to 65535 bytes, every open of a segment succeeding and no abort, up to a failed preparation. Take a CF-0 key that is in the frozen runs only, neither in the trees nor in the live runs. After the
  abort, a capture, a preparation that succeeds and its publication, with nothing written in between, a read does not find
  the key, and the durable position that the flush reports to the log is the end of everything journalled, the record of
  that key included: the position up to which the log may delete its segments.\<close>

theorem aborted_flush_forgets_datoms:
  fixes kv0 :: "(disk, Writer option) KVStore"
  assumes "replayed = concat (replayBatches (jFiles j))" "\<forall>x. Decompress z (compress z x) = Inr x"
    and "NewKVStore z (fileOps False) now cfg d (None, j) = Inr kv0" "attachWal kv0 = Inr kv"
    and "\<not> cfgReadOnly cfg" "\<not> cfgReplayOff cfg" "0 \<le> cfgPageCacheSize cfg" "disk_ok d" "sane_dir (jFiles j)" "jOpenFaults j = []"
    and "trees_hold (pageOf z (fileOps False) (kvBlobs kv0)) (stTrees (kvPS kv0)) kss" "\<forall>ks \<in> set kss. length ks \<le> N"
    and "\<forall>l \<in> set (LWrite replayed # ls). label_ok (kvNumCf kv0) l"
    and "N + sum_list (map weight (LWrite replayed # ls)) < 2 ^ 63"
    and "flush_steps z (fileOps False) walHooks walWork (kv, Idle) ls (kv1, Failed)" "LAbort \<notin> set ls"
    and "flush_steps z (fileOps False) walHooks walWork (kv1, Failed) [LAbort, LCapture, LPrepared, LPublish] (kv2, fl2)"
    and "sp = foldl (spec_next (kvNumCf kv0)) (opened (kvNumCf kv0) kss replayed) ls"
    and "k \<in> spFrozen sp 0" "k \<notin> spStored sp 0" "k \<notin> spLive sp 0"
  shows "fst (KVGet z (fileOps False) 0 k kv2) = Inr False
    \<and> WalDurableUpTo kv2 = Some (int (length (frames (concat (map datoms ls)))))"
proof -
  note ps = file_page_store [OF assms(2)]
  let ?n = "kvNumCf kv0" and ?pg = "pageOf z (fileOps False)" and ?ms = "[LAbort, LCapture, LPrepared, LPublish]"
  have n: "0 < ?n" "journaling kv0" "kvWorld kv0 = (None, j)"
    using NewKVStore_cases [OF assms(3,5,6)] by (auto simp: journaling_def)
  have "label_ok ?n (LWrite (concat (replayBatches (jFiles (snd (None :: Writer option, j))))))" using assms(1,13) by simp
  note s0 = page_store.NewKVStore_sim [OF ps assms(3,5-8,11,12) this, unfolded snd_conv, folded assms(1)]
  note at = attach_inv [OF assms(4), unfolded n(3) snd_conv, OF assms(9,10) n(2)]
  have sm: "sim ?pg disk_ok (N + length replayed) (kv, Idle) (opened ?n kss replayed)" by (rule at(2) [OF s0])
  have b: "N + length replayed + sum_list (map weight ls) < 2 ^ 63" "\<forall>l \<in> set ls. label_ok ?n l" using assms(13,14) by simp_all
  have "log_inv (nat (maxSeg (jFiles j) + 1)) (jFiles j) sp ([] @ concat (map datoms ls)) (kv1, Failed)"
    unfolding assms(18) by (rule page_store.log_steps [OF ps assms(15) at(1) sm _ n(1) b assms(16)]) (simp add: at(3))
  then obtain w j1 ts where l: "kvWorld kv1 = (Some w, j1)" "WalDurableUpTo kv1 \<noteq> None"
    "Wal.log_of (nat (maxSeg (jFiles j) + 1)) (jFiles j) ts (w, j1) (concat (map datoms ls))"
    unfolding log_inv_def by auto
  have "wLogicalEnd w = length (frames (concat (map datoms ls)))" using l(3) by (auto simp: Wal.log_of_def wal_inv_def)
  then have dur: "WalDurableUpTo kv2 = Some (int (length (frames (concat (map datoms ls)))))"
    using flush_after_abort [OF assms(17) l(1,2)] by simp
  have all: "flush_steps z (fileOps False) walHooks walWork (kv, Idle) (ls @ ?ms) (kv2, fl2)"
    by (rule flush_steps_append [OF assms(17,15)])
  have "sim ?pg disk_ok (N + length replayed + sum_list (map weight (ls @ ?ms))) (kv2, fl2) (foldl (spec_next ?n) sp ?ms)
      \<and> kvNumCf kv2 = ?n"
    using page_store.sim_steps [OF ps all sm] b at(3) assms(18) by simp
  then have "fst (KVGet z (fileOps False) 0 k kv2) = Inr (k \<in> visible (foldl (spec_next ?n) sp ?ms) 0)"
    using sim_get [of z "fileOps False" disk_ok _ kv2 fl2 _ 0 k "fst (KVGet z (fileOps False) 0 k kv2)"] n(1) by (metis prod.collapse)
  then show ?thesis using dur assms(20,21) by (simp add: visible_def)
qed

section \<open>A session, for the witnesses\<close>

text \<open>A data directory whose source of identifiers has run dry: no page can be written, roots can.\<close>

definition dryDisk :: disk where
  "dryDisk = TreeMerge.demoDisk\<lparr>dRand := []\<rparr>"

lemma dry_clean: "disk_clean dryDisk" "disk_ok dryDisk" "boListRoots (fileOps False) dryDisk = Inr []"
proof -
  show "disk_clean dryDisk" by (simp add: dryDisk_def disk_clean_def disk_ok_def TreeMerge.demoDisk_def)
  then show "disk_ok dryDisk" by (simp add: disk_clean_def)
  show "boListRoots (fileOps False) dryDisk = Inr []" by (simp add: fileOps_def) code_simp
qed

lemma demo_session:
  "\<exists>(kv0 :: (disk, Writer option) KVStore) kv. NewKVStore storedFrames (fileOps False) 1 demoCfg dryDisk (None, demoJournal) = Inr kv0
    \<and> attachWal kv0 = Inr kv \<and> stTrees (kvPS kv0) = [EmptyTree] \<and> kvNumCf kv0 = 1 \<and> \<not> flushActive kv \<and> \<not> kvReadOnly kv
    \<and> disk_clean (kvBlobs kv) \<and> dRand (kvBlobs kv) = [] \<and> stReadOnly (kvPS kv) = False \<and> stTrees (kvPS kv) = [EmptyTree]
    \<and> (\<exists>w d. Attach demoJournal = (Inr w, d) \<and> kvWorld kv = (Some w, d))
    \<and> sim (pageOf storedFrames (fileOps False)) disk_ok 0 (kv, Idle) (opened 1 [[]] []) \<and> kvNumCf kv = 1"
proof -
  obtain kv0 :: "(disk, Writer option) KVStore" where kv0: "NewKVStore storedFrames (fileOps False) 1 demoCfg dryDisk (None, demoJournal) = Inr kv0"
    "stTrees (kvPS kv0) = [EmptyTree]" "kvNumCf kv0 = 1" "\<not> flushActive kv0" "\<not> kvReadOnly kv0" "kvWorld kv0 = (None, demoJournal)"
    "disk_clean (kvBlobs kv0)" "dRand (kvBlobs kv0) = []" "stReadOnly (kvPS kv0) = False"
    using demo_open [OF dry_clean(1,3), of storedFrames 1 None] by (auto simp: dryDisk_def)
  obtain w d where a: "Attach demoJournal = (Inr w, d)" by (simp add: Attach_def openSeg_def demoJournal_def Let_def)
  then obtain kv where kv: "attachWal kv0 = Inr kv" "kvWorld kv = (Some w, d)" using kv0(6) by (simp add: attachWal_def)
  have "journaling kv0" using NewKVStore_cases [OF kv0(1) demo_cfg(4,5)] by (auto simp: journaling_def)
  then have at: "sim pg good N (kv0, Idle) sp \<Longrightarrow> sim pg good N (kv, Idle) sp" "kvNumCf kv = 1" "kvBlobs kv = kvBlobs kv0" "kvPS kv = kvPS kv0"
    "flushActive kv = flushActive kv0" "kvReadOnly kv = kvReadOnly kv0" for pg :: "disk \<Rightarrow> pages" and good N sp
    using attach_inv(2-7) [OF kv(1)] kv0(3,6) by (simp_all add: demoJournal_def sane_empty)
  have "sim (pageOf storedFrames (fileOps False)) disk_ok 0 (kv0, Idle) (opened 1 [[]] [])"
    using filePages.NewKVStore_sim [OF kv0(1) demo_cfg(4,5) _ dry_clean(2) demo_trees [OF kv0(2)], of 0 1] kv0(3)
    by (simp add: demo_cfg demo_replay)
  then have "sim (pageOf storedFrames (fileOps False)) disk_ok 0 (kv, Idle) (opened 1 [[]] [])" by (rule at(1))
  then show ?thesis using kv0 kv a at(2-6) by (intro exI [of _ kv0] exI [of _ kv]) auto
qed

lemma sink_demo:
  "case Attach demoJournal of (Inl e, d0) \<Rightarrow> False
   | (Inr w0, d0) \<Rightarrow> (case Sink [demoEntry 7] w0 d0 of (w, j) \<Rightarrow> wBuf w = [] \<and> wSegIdx w = 0 \<and> \<not> wStopped w0)"
  by code_simp

theorem no_datom_lost_witness:
  "\<exists>(kv :: (disk, Writer option) KVStore) kv' w j' kss'. flush_steps storedFrames (fileOps False) walHooks walWork (kv, Idle) [LWrite [demoEntry 7]] (kv', Idle)
    \<and> kvWorld kv' = (Some w, j') \<and> trees_hold (pageOf storedFrames (fileOps False) (kvBlobs kv')) (stTrees (kvPS kv')) kss'
    \<and> (demoEntry 7 \<in> set (concat (replayBatches (jFiles j'))) \<or> replicate 9 7 \<in> set (kss' ! 0))"
proof -
  obtain kv0 kv :: "(disk, Writer option) KVStore" and w0 d0 where kv: "NewKVStore storedFrames (fileOps False) 1 demoCfg dryDisk (None, demoJournal) = Inr kv0"
    "attachWal kv0 = Inr kv" "stTrees (kvPS kv0) = [EmptyTree]" "kvNumCf kv0 = 1" "Attach demoJournal = (Inr w0, d0)" "kvWorld kv = (Some w0, d0)"
    "sim (pageOf storedFrames (fileOps False)) disk_ok 0 (kv, Idle) (opened 1 [[]] [])"
    using demo_session by blast
  have j: "journaling kv" using NewKVStore_cases [OF kv(1) demo_cfg(4,5)] kv(2)
    by (auto simp: journaling_def attachWal_def split: prod.splits sum.splits)
  obtain kv' where w: "writeEntries walHooks [demoEntry 7] kv = Inr kv'"
    using write_total [OF kv(7), of 1 "[demoEntry 7]" walHooks] demo_entry_ok [of 1 "[7]"] by auto
  have st: "flush_steps storedFrames (fileOps False) walHooks walWork (kv, Idle) [LWrite [demoEntry 7]] (kv', Idle)"
    using flush_steps.OneStep [OF flush_steps.NoStep Write [OF w]] by simp
  obtain lw j' where s: "Sink [demoEntry 7] w0 d0 = (lw, j')" by fastforce
  then have lw: "wBuf lw = []" "wSegIdx lw = 0" "\<not> wStopped w0" using sink_demo kv(5) by auto
  have "filter (\<lambda>e. Cf e = 0) [demoEntry 7] = [demoEntry 7]" by (simp add: demoEntry_def)
  then have wd: "kvWorld kv' = (Some lw, j')" using write_world [OF w kv(6) j lw(3)] s by auto
  have d: "sane_dir (jFiles demoJournal)" "jOpenFaults demoJournal = []" by (simp_all add: demoJournal_def sane_empty)
  have z: "\<forall>x. Decompress storedFrames (compress storedFrames x) = Inr x" by (simp add: storedFrames_inverse)
  have "\<exists>kss'. trees_hold (pageOf storedFrames (fileOps False) (kvBlobs kv')) (stTrees (kvPS kv')) kss'
      \<and> (\<forall>e \<in> set ([] @ concat (map datoms [LWrite [demoEntry 7]])).
           e \<in> set (concat (replayBatches (jFiles j'))) \<or> Cf e = 0 \<and> CfKey_Key e \<in> set (kss' ! 0))"
    by (rule no_datom_lost [OF _ z kv(1,2) demo_cfg(4,5) _ dry_clean(2) d demo_trees [OF kv(3)] _ _ _ st _ wd lw(1), where N = 0])
      (use demo_entry_ok [of 1 "[7]"] kv(4) lw(2) in \<open>simp_all add: demo_replay demo_cfg\<close>)
  moreover have "set ([] @ concat (map datoms [LWrite [demoEntry 7]])) = {demoEntry 7}" by (simp add: demoEntry_def)
  moreover have "CfKey_Key (demoEntry 7) = replicate 9 7" by (simp add: demoEntry_def)
  ultimately have "\<exists>kss'. trees_hold (pageOf storedFrames (fileOps False) (kvBlobs kv')) (stTrees (kvPS kv')) kss'
      \<and> (demoEntry 7 \<in> set (concat (replayBatches (jFiles j'))) \<or> replicate 9 7 \<in> set (kss' ! 0))"
    by (metis singletonI)
  then show ?thesis using st wd by blast
qed

text \<open>Without identifiers a non-empty merge fails and leaves the disk alone; an empty one writes its root.\<close>

lemma dry_put: "disk_clean d \<Longrightarrow> dRand d = [] \<Longrightarrow> \<exists>e. boPut (fileOps False) data d = (Inl e, d)"
  by (simp add: fileOps_def fbPut_def osFault_def disk_clean_def Let_def)

lemma dry_putAll:
  assumes "disk_clean d" "dRand d = []"
  shows "\<exists>rs. putAll z (fileOps False) ps d = (rs, d) \<and> (ps \<noteq> [] \<longrightarrow> (\<exists>e rs'. rs = Inl e # rs'))"
proof (induction ps)
  case (Cons p ps)
  obtain e where "blobPut z (fileOps False) p d = (Inl e, d)" using dry_put [OF assms] by (auto simp: blobPut_def)
  then show ?case using Cons by auto
qed simp

lemma dry_prepare:
  assumes "disk_clean d" "dRand d = []" "\<not> stReadOnly st" "stTrees st = [EmptyTree]"
  shows "\<exists>e. PrepareMerge z (fileOps False) now st (stTrees st) [(0, [replicate 9 7])] d = (Inl e, d)"
proof -
  have b: "BuildPages [replicate 9 7] = [(replicate 9 7, SerializePage [replicate 9 7])]"
    by (subst BuildPages.simps) (simp add: MaxRawSize_def)
  obtain e rs where "putAll z (fileOps False) [SerializePage [replicate 9 7]] d = (Inl e # rs, d)"
    using dry_putAll [OF assms(1,2), of z "[SerializePage [replicate 9 7]]"] by auto
  then have "\<exists>e. putPageList z (fileOps False) (BuildPages [replicate 9 7]) False d = (Inl e, d)"
    by (cases "sequence (map (validPage False \<circ> snd) (BuildPages [replicate 9 7]))")
      (simp_all add: putPageList_def sbind_def slift_def blobPutPages_def b del: putAll.simps)
  then show ?thesis
    using assms(3,4) by (auto simp: PrepareMerge_def mergeTree_def buildTree_def sbind_def EmptyTree_def)
qed

lemma empty_prepare:
  assumes "disk_clean d" "\<not> stReadOnly st"
  shows "\<exists>ts root d'. PrepareMerge z (fileOps False) now st base [] d = (Inr (ts, root), d')"
  using fb.putRoot_clean [OF assms(1), of "MakeRootName now" "compress z (SerializeRoot base)"] assms(2)
  by (auto simp: PrepareMerge_def sbind_def sreturn_def writeRoot_def blobPutRoot_def)

theorem aborted_flush_forgets_datoms_witness:
  "\<exists>(kv :: (disk, Writer option) KVStore) kv1 kv2.
    flush_steps storedFrames (fileOps False) walHooks walWork (kv, Idle) [LWrite [demoEntry 7], LCapture, LFailed] (kv1, Failed)
    \<and> flush_steps storedFrames (fileOps False) walHooks walWork (kv1, Failed) [LAbort, LCapture, LPrepared, LPublish] (kv2, Idle)
    \<and> fst (KVGet storedFrames (fileOps False) 0 (replicate 9 7) kv2) = Inr False \<and> WalDurableUpTo kv2 = Some 19"
proof -
  let ?st = "flush_steps storedFrames (fileOps False) walHooks walWork" and ?pg = "pageOf storedFrames (fileOps False)"
  obtain kv0 kv :: "(disk, Writer option) KVStore" where kv: "NewKVStore storedFrames (fileOps False) 1 demoCfg dryDisk (None, demoJournal) = Inr kv0"
    "attachWal kv0 = Inr kv" "stTrees (kvPS kv0) = [EmptyTree]" "kvNumCf kv0 = 1" "\<not> flushActive kv" "\<not> kvReadOnly kv"
    "disk_clean (kvBlobs kv)" "dRand (kvBlobs kv) = []" "stReadOnly (kvPS kv) = False" "stTrees (kvPS kv) = [EmptyTree]"
    "sim ?pg disk_ok 0 (kv, Idle) (opened 1 [[]] [])" "kvNumCf kv = 1"
    using demo_session by blast
  let ?w = "LWrite [demoEntry 7]"
  have ok: "label_ok 1 ?w" using demo_entry_ok [of 1 "[7]"] by simp
  obtain kva where a: "writeEntries walHooks [demoEntry 7] kv = Inr kva" using write_total [OF kv(11) ok] by auto
  note fa = writeEntries_cases [OF a] writeEntries_flags [OF a]
  obtain b kvb where b: "CaptureFlush walHooks kva = (Some b, kvb)" using capture_total [of kva walHooks] fa(2) kv(5,6) by auto
  note fb1 = CaptureFlush_cases [OF b]
  have ab: "?st (kv, Idle) [?w, LCapture] (kvb, Captured b)"
    using flush_steps.OneStep [OF flush_steps.OneStep [OF flush_steps.NoStep Write [OF a]] Capture [OF b]] by simp
  have sb: "sim ?pg disk_ok 1 (kvb, Captured b) (foldl (spec_next 1) (opened 1 [[]] []) [?w, LCapture])" "kvNumCf kvb = 1"
    using filePages.sim_steps [OF ab kv(11)] kv(12) ok by auto
  have live: "keysIn 1 [demoEntry 7] 0 = {replicate 9 7}" by (auto simp: keysIn_def demoEntry_def image_iff)
  then have "set (DrainSorted (captured b ! 0)) = {replicate 9 7} \<and> ascending (DrainSorted (captured b ! 0))"
    using sb by (auto simp: sim_def flusher_ok_def opened_def keysIn_def)
  then have "DrainSorted (captured b ! 0) = [replicate 9 7]" using strict_sorted_equal [of "[replicate 9 (7 :: byte)]"] by simp
  then have dr: "drained (kvNumCf kvb) b = [(0, [replicate 9 7])]" using sb(2) by (simp add: drained_def)
  have ps: "kvPS kvb = kvPS kv" "kvBlobs kvb = kvBlobs kv" using fa(1) fb1 by auto
  obtain e where "PrepareMerge storedFrames (fileOps False) 2 (kvPS kv) (stTrees (kvPS kv)) [(0, [replicate 9 7])] (kvBlobs kv) = (Inl e, kvBlobs kv)"
    using dry_prepare [OF kv(7,8) _ kv(10)] kv(9) by auto
  then obtain b' where f: "PrepareFlush storedFrames (fileOps False) 2 2 b kvb = (Inl e, b', kvb\<lparr>kvBlobs := kvBlobs kv\<rparr>)"
    using PrepareFlush_keys [OF sb(1), of storedFrames "fileOps False" 2 2] dr ps by simp
  let ?kv1 = "kvb\<lparr>kvBlobs := kvBlobs kv\<rparr>" and ?ls = "[?w, LCapture, LFailed]"
  have st1: "?st (kv, Idle) ?ls (?kv1, Failed)" using flush_steps.OneStep [OF ab Fail [OF f]] by simp
  let ?kv2 = "AbortFlush ?kv1"
  obtain b2 kv3 where c: "CaptureFlush walHooks ?kv2 = (Some b2, kv3)"
    using capture_total [of ?kv2 walHooks] fa(2) fb1 kv(6) by (auto simp: AbortFlush_def)
  have st2: "?st (?kv1, Failed) [LAbort, LCapture] (kv3, Captured b2)"
    using flush_steps.OneStep [OF flush_steps.OneStep [OF flush_steps.NoStep Abort] Capture [OF c]] by simp
  have s3: "sim ?pg disk_ok 1 (kv3, Captured b2) (foldl (spec_next 1) (opened 1 [[]] []) (?ls @ [LAbort, LCapture]))" "kvNumCf kv3 = 1"
    using filePages.sim_steps [OF flush_steps_append [OF st2 st1] kv(11)] kv(12) ok by auto
  have "DrainSorted (captured b2 ! 0) = []" using s3 by (auto simp: sim_def flusher_ok_def opened_def)
  then have dr3: "drained (kvNumCf kv3) b2 = []" using s3(2) by (simp add: drained_def)
  have ps3: "kvPS kv3 = kvPS kv" "kvBlobs kv3 = kvBlobs kv" using CaptureFlush_cases [OF c] ps by (auto simp: AbortFlush_def)
  obtain ts root d' where "PrepareMerge storedFrames (fileOps False) 3 (kvPS kv3) (stTrees (kvPS kv3)) [] (kvBlobs kv3) = (Inr (ts, root), d')"
    using empty_prepare [of "kvBlobs kv3" "kvPS kv3"] kv(7,9) ps3 by metis
  then obtain b3 kv4 where p: "PrepareFlush storedFrames (fileOps False) 3 3 b2 kv3 = (Inr (ts, root), b3, kv4)"
    using PrepareFlush_keys [OF s3(1), of storedFrames "fileOps False" 3 3] dr3 by simp
  let ?kv5 = "PublishFlush walHooks b3 ts root kv4"
  have st3: "?st (?kv1, Failed) [LAbort, LCapture, LPrepared, LPublish] (?kv5, Idle)"
    using flush_steps.OneStep [OF flush_steps.OneStep [OF st2 Prepare [OF p]] Publish] by simp
  have d: "sane_dir (jFiles demoJournal)" "jOpenFaults demoJournal = []" by (simp_all add: demoJournal_def sane_empty)
  have z: "\<forall>x. Decompress storedFrames (compress storedFrames x) = Inr x" by (simp add: storedFrames_inverse)
  have fr: "int (length (frames (concat (map datoms ?ls)))) = 19" by (simp add: demoEntry_def)
  have "fst (KVGet storedFrames (fileOps False) 0 (replicate 9 7) ?kv5) = Inr False
      \<and> WalDurableUpTo ?kv5 = Some (int (length (frames (concat (map datoms ?ls)))))"
    by (rule aborted_flush_forgets_datoms [OF _ z kv(1,2) demo_cfg(4,5) _ dry_clean(2) d demo_trees [OF kv(3)] _ _ _ st1 _ st3 refl, where N = 0 and replayed = "[]"])
      (use ok kv(4) live in \<open>simp_all add: demo_replay demo_cfg opened_def keysIn_def\<close>)
  then show ?thesis using st1 st3 fr by metis
qed

end
