(* ===== verification/Msgpack.thy ===== *)
theory Msgpack
  imports Prelude
begin

text \<open>
  The MessagePack codec, \<^verbatim>\<open>src/go/internal/msgpack/msgpack.go\<close> and \<^verbatim>\<open>scan.go\<close>: the value type, the encoder,
  the decoder with its cursor over a byte slice, structural lookup in maps, and the injection of a pair into an
  encoded map without decoding it. Decoding inverts encoding, never panics, ends on every input, and its results
  can be encoded again.
\<close>

unbundle bit_operations_syntax

section \<open>Values\<close>

definition ExtSymbol :: int where [simp]: "ExtSymbol = 5"
definition ExtKeyword :: int where [simp]: "ExtKeyword = 6"

datatype Value =
    MNil
  | MBool bool
  | MInt int64
  | MFloat float64
  | MStr string
  | MBin bytes
  | MArray "Value list"
  | MMap "(Value \<times> Value) list"
  | MExt int bytes
  | MRaw bytes

section \<open>Encoder\<close>

text \<open>Each function returns the bytes its Go original appends to the buffer of the encoder.\<close>

definition be16 :: "uint16 \<Rightarrow> bytes" where "be16 v = put_be 2 v"
definition be32 :: "uint32 \<Rightarrow> bytes" where "be32 v = put_be 4 v"
definition be64 :: "uint64 \<Rightarrow> bytes" where "be64 v = put_be 8 v"

definition encodeInt :: "int64 \<Rightarrow> bytes" where
  "encodeInt v =
     (if 0 \<le> sint v \<and> sint v \<le> 0x7f then [ucast v]
      else if sint v < 0 \<and> -32 \<le> sint v then [ucast v]
      else if 0 \<le> sint v \<and> sint v \<le> 0xff then [0xcc, ucast v]
      else if sint v < 0 \<and> -128 \<le> sint v then [0xd0, ucast v]
      else if 0 \<le> sint v \<and> sint v \<le> 0xffff then 0xcd # be16 (ucast v)
      else if sint v < 0 \<and> -32768 \<le> sint v then 0xd1 # be16 (ucast v)
      else if 0 \<le> sint v \<and> sint v \<le> 0xffffffff then 0xce # be32 (ucast v)
      else if sint v < 0 \<and> - (2 ^ 31) \<le> sint v then 0xd2 # be32 (ucast v)
      else 0xd3 # be64 v)"

text \<open>The length headers: a short form with the length in the first byte, then 8, 16 and 32 bits.\<close>

definition encodeStr :: "string \<Rightarrow> bytes" where
  "encodeStr s =
     (let n = length s
      in (if n \<le> 31 then [0xa0 OR word_of_nat n]
          else if n \<le> 0xff then [0xd9, word_of_nat n]
          else if n \<le> 0xffff then 0xda # be16 (word_of_nat n)
          else 0xdb # be32 (word_of_nat n)) @ bytes_of s)"

definition encodeBin :: "bytes \<Rightarrow> bytes" where
  "encodeBin b =
     (let n = length b
      in (if n \<le> 0xff then [0xc4, word_of_nat n]
          else if n \<le> 0xffff then 0xc5 # be16 (word_of_nat n)
          else 0xc6 # be32 (word_of_nat n)) @ b)"

definition EncodeArrayHeader :: "nat \<Rightarrow> bytes" where
  "EncodeArrayHeader n =
     (if n \<le> 15 then [0x90 OR word_of_nat n]
      else if n \<le> 0xffff then 0xdc # be16 (word_of_nat n)
      else 0xdd # be32 (word_of_nat n))"

definition EncodeMapHeader :: "nat \<Rightarrow> bytes" where
  "EncodeMapHeader n =
     (if n \<le> 15 then [0x80 OR word_of_nat n]
      else if n \<le> 0xffff then 0xde # be16 (word_of_nat n)
      else 0xdf # be32 (word_of_nat n))"

definition encodeExt :: "int \<Rightarrow> bytes \<Rightarrow> bytes" where
  "encodeExt ty data =
     (let n = length data; t = word_of_int ty
      in if n = 1 then 0xd4 # t # data
         else if n = 2 then 0xd5 # t # data
         else if n = 4 then 0xd6 # t # data
         else if n = 8 then 0xd7 # t # data
         else if n = 16 then 0xd8 # t # data
         else (if n \<le> 0xff then [0xc7, word_of_nat n]
               else if n \<le> 0xffff then 0xc8 # be16 (word_of_nat n)
               else 0xc9 # be32 (word_of_nat n)) @ t # data)"

fun Encode :: "Value \<Rightarrow> bytes" where
  "Encode MNil = [0xc0]"
| "Encode (MBool x) = (if x then [0xc3] else [0xc2])"
| "Encode (MInt x) = encodeInt x"
| "Encode (MFloat x) = 0xcb # be64 x"
| "Encode (MStr x) = encodeStr x"
| "Encode (MBin x) = encodeBin x"
| "Encode (MArray xs) = EncodeArrayHeader (length xs) @ concat (map Encode xs)"
| "Encode (MMap ps) = EncodeMapHeader (length ps) @ concat (map (\<lambda>(k, v). Encode k @ Encode v) ps)"
| "Encode (MExt ty data) = encodeExt ty data"
| "Encode (MRaw x) = x"

definition Marshal :: "Value \<Rightarrow> bytes" where
  "Marshal v = Encode v"

section \<open>Decoder\<close>

record Decoder =
  dBuf :: bytes
  dPos :: nat
  dLimit :: nat

definition NewDecoder :: "bytes \<Rightarrow> Decoder" where
  "NewDecoder b = \<lparr>dBuf = b, dPos = 0, dLimit = length b\<rparr>"

definition NewDecoderAt :: "bytes \<Rightarrow> nat \<Rightarrow> nat \<Rightarrow> Decoder" where
  "NewDecoderAt b start limit = \<lparr>dBuf = b, dPos = start, dLimit = limit\<rparr>"

definition truncated :: go_error where
  "truncated = Error ''msgpack: decode error: truncated''"

text \<open>A limit beyond the buffer, which only \<open>NewDecoderAt\<close> allows, makes the reads panic.\<close>

definition takeN :: "nat \<Rightarrow> Decoder \<Rightarrow> (bytes \<times> Decoder) result" where
  "takeN n d =
     (if dPos d + n > dLimit d then Inl truncated
      else if dPos d + n > length (dBuf d) then Inl (Panic ''slice bounds out of range'')
      else Inr (slice (dBuf d) (dPos d) (dPos d + n), d\<lparr>dPos := dPos d + n\<rparr>))"

definition u8 :: "Decoder \<Rightarrow> (byte \<times> Decoder) result" where
  "u8 d =
     (if dPos d \<ge> dLimit d then Inl truncated
      else if dPos d \<ge> length (dBuf d) then Inl (Panic ''index out of range'')
      else Inr (dBuf d ! dPos d, d\<lparr>dPos := dPos d + 1\<rparr>))"

definition uN :: "nat \<Rightarrow> Decoder \<Rightarrow> ('a::len word \<times> Decoder) result" where
  "uN n d = rbind (takeN n d) (\<lambda>(b, d1). Inr (get_be b, d1))"

definition u16 :: "Decoder \<Rightarrow> (uint16 \<times> Decoder) result" where "u16 = uN 2"
definition u32 :: "Decoder \<Rightarrow> (uint32 \<times> Decoder) result" where "u32 = uN 4"
definition u64 :: "Decoder \<Rightarrow> (uint64 \<times> Decoder) result" where "u64 = uN 8"

text \<open>\<open>float64(math.Float32frombits(v))\<close>: widening is exact; a signalling NaN becomes quiet.\<close>

definition widen :: "uint32 \<Rightarrow> float64" where
  "widen v =
     (let sign = push_bit 63 (ucast (drop_bit 31 v)) :: 64 word;
          e = unat (drop_bit 23 v AND 0xff);
          frac = ucast (v AND 0x7fffff) :: 64 word
      in if e = 255 then
           (if frac = 0 then sign OR push_bit 52 0x7ff
            else sign OR push_bit 52 0x7ff OR push_bit 51 1 OR push_bit 29 frac)
         else if e \<noteq> 0 then sign OR push_bit 52 (word_of_nat (e + 896)) OR push_bit 29 frac
         else if frac = 0 then sign
         else let k = length (takeWhile (\<lambda>i. \<not> bit frac i) (rev [0..<23]));
                  top = 22 - k
              in sign OR push_bit 52 (word_of_nat (top + 874))
                   OR (push_bit (52 - top) frac AND 0xfffffffffffff))"

definition lenOf :: "byte \<Rightarrow> Decoder \<Rightarrow> (nat \<times> Decoder) result" where
  "lenOf b d =
     (if b = 0xc4 \<or> b = 0xc7 \<or> b = 0xd9 then rbind (u8 d) (\<lambda>(v, d1). Inr (unat v, d1))
      else if b = 0xc5 \<or> b = 0xc8 \<or> b = 0xda \<or> b = 0xdc \<or> b = 0xde then rbind (u16 d) (\<lambda>(v, d1). Inr (unat v, d1))
      else if b = 0xc6 \<or> b = 0xc9 \<or> b = 0xdb \<or> b = 0xdd \<or> b = 0xdf then rbind (u32 d) (\<lambda>(v, d1). Inr (unat v, d1))
      else Inl (Error ''msgpack: decode error: bad length header''))"

text \<open>What the switch of \<open>DecodeValue\<close> has read when it is about to decode elements, if any.\<close>

datatype head = Leaf Value | ArrayOf nat | MapOf nat

definition decodeExtN :: "nat \<Rightarrow> Decoder \<Rightarrow> (head \<times> Decoder) result" where
  "decodeExtN n d =
     rbind (u8 d) (\<lambda>(ty, d1). rbind (takeN n d1) (\<lambda>(body, d2). Inr (Leaf (MExt (uint ty) body), d2)))"

definition intOf :: "('a::len word \<times> Decoder) result \<Rightarrow> ('a word \<Rightarrow> int64) \<Rightarrow> (head \<times> Decoder) result" where
  "intOf r f = rbind r (\<lambda>(v, d). Inr (Leaf (MInt (f v)), d))"

definition decodeHead :: "Decoder \<Rightarrow> (head \<times> Decoder) result" where
  "decodeHead d0 = rbind (u8 d0) (\<lambda>(b, d).
     if b \<le> 0x7f then Inr (Leaf (MInt (ucast b)), d)
     else if b \<ge> 0xe0 then Inr (Leaf (MInt (scast b)), d)
     else if b \<ge> 0x90 \<and> b \<le> 0x9f then Inr (ArrayOf (unat (b AND 0x0f)), d)
     else if b \<ge> 0xa0 \<and> b \<le> 0xbf then rbind (takeN (unat (b AND 0x1f)) d) (\<lambda>(s, d). Inr (Leaf (MStr (string_of s)), d))
     else if b \<ge> 0x80 \<and> b \<le> 0x8f then Inr (MapOf (unat (b AND 0x0f)), d)
     else if b = 0xc0 then Inr (Leaf MNil, d)
     else if b = 0xc2 then Inr (Leaf (MBool False), d)
     else if b = 0xc3 then Inr (Leaf (MBool True), d)
     else if b = 0xc4 \<or> b = 0xc5 \<or> b = 0xc6 then
       rbind (lenOf b d) (\<lambda>(n, d). rbind (takeN n d) (\<lambda>(body, d). Inr (Leaf (MBin body), d)))
     else if b = 0xc7 \<or> b = 0xc8 \<or> b = 0xc9 then rbind (lenOf b d) (\<lambda>(n, d). decodeExtN n d)
     else if b = 0xca then rbind (u32 d) (\<lambda>(v, d). Inr (Leaf (MFloat (widen v)), d))
     else if b = 0xcb then rbind (u64 d) (\<lambda>(v, d). Inr (Leaf (MFloat v), d))
     else if b = 0xcc then intOf (u8 d) ucast
     else if b = 0xcd then intOf (u16 d) ucast
     else if b = 0xce then intOf (u32 d) ucast
     else if b = 0xcf then intOf (u64 d) (\<lambda>v. v)
     else if b = 0xd0 then intOf (u8 d) scast
     else if b = 0xd1 then intOf (u16 d) scast
     else if b = 0xd2 then intOf (u32 d) scast
     else if b = 0xd3 then intOf (u64 d) (\<lambda>v. v)
     else if b \<ge> 0xd4 \<and> b \<le> 0xd8 then decodeExtN (2 ^ unat (b - 0xd4)) d
     else if b = 0xd9 \<or> b = 0xda \<or> b = 0xdb then
       rbind (lenOf b d) (\<lambda>(n, d). rbind (takeN n d) (\<lambda>(body, d). Inr (Leaf (MStr (string_of body)), d)))
     else if b = 0xdc \<or> b = 0xdd then rbind (lenOf b d) (\<lambda>(n, d). Inr (ArrayOf n, d))
     else if b = 0xde \<or> b = 0xdf then rbind (lenOf b d) (\<lambda>(n, d). Inr (MapOf n, d))
     else Inl (Error ''msgpack: decode error: unknown format byte''))"

text \<open>A read that succeeds moves the position forward, never past the limit.\<close>

definition advances :: "Decoder \<Rightarrow> Decoder \<Rightarrow> bool" where
  "advances d d' \<longleftrightarrow> dBuf d' = dBuf d \<and> dLimit d' = dLimit d \<and> dPos d \<le> dPos d' \<and> (dPos d \<le> dLimit d \<longrightarrow> dPos d' \<le> dLimit d)"

lemma advances_refl [simp]: "advances d d"
  by (simp add: advances_def)

lemma advances_trans: "advances a b \<Longrightarrow> advances b c \<Longrightarrow> advances a c"
  by (auto simp: advances_def)

lemma takeN_advances: "takeN n d = Inr (b, d') \<Longrightarrow> advances d d'"
  by (auto simp: takeN_def advances_def split: if_splits)

lemma u8_advances: "u8 d = Inr (b, d') \<Longrightarrow> advances d d' \<and> dPos d' = Suc (dPos d) \<and> dPos d < dLimit d"
  by (auto simp: u8_def advances_def split: if_splits)

lemma uN_advances: "uN n d = Inr (b, d') \<Longrightarrow> advances d d'"
  by (auto simp: uN_def rbind_Inr dest: takeN_advances)

lemma lenOf_advances: "lenOf b d = Inr (n, d') \<Longrightarrow> advances d d'"
  by (auto simp: lenOf_def rbind_Inr u16_def u32_def split: if_splits dest: uN_advances u8_advances)

lemma decodeExtN_advances: "decodeExtN n d = Inr (h, d') \<Longrightarrow> advances d d'"
  by (auto simp: decodeExtN_def rbind_Inr dest!: takeN_advances u8_advances intro: advances_trans)

lemma intOf_advances:
  assumes "intOf r f = Inr (h, d')" "\<And>v d1. r = Inr (v, d1) \<Longrightarrow> advances d d1"
  shows "advances d d'"
  using assms by (auto simp: intOf_def rbind_Inr)

lemmas read_advances = takeN_advances u8_advances [THEN conjunct1] uN_advances lenOf_advances decodeExtN_advances

lemma decodeHead_advances:
  assumes "decodeHead d = Inr (h, d')"
  shows "advances d d' \<and> dPos d < dPos d' \<and> dPos d' \<le> dLimit d"
proof -
  obtain b d1 where b: "u8 d = Inr (b, d1)" using assms by (auto simp: decodeHead_def rbind_Inr)
  have "advances d1 d'"
    using assms b unfolding decodeHead_def rbind_simps prod.case u16_def u32_def u64_def
    by (auto simp: rbind_Inr split: if_splits
        dest: read_advances elim!: intOf_advances intro: advances_trans)
  with u8_advances [OF b] show ?thesis by (auto simp: advances_def)
qed

text \<open>
  \<open>decodeArray\<close> and \<open>decodeMap\<close> reserve room for the announced number of elements, of 16 and of 32 bytes, before they
  read the first; \<open>make\<close> panics beyond the address space of \<open>2 ^ 48\<close> bytes. \<open>decodeOpen\<close> reads a head and reserves.
  The counts of the format stay far below that limit.
\<close>

definition makeCap :: "nat \<Rightarrow> nat \<Rightarrow> unit result" where
  "makeCap elem n = (if int elem * int n > 0x1000000000000 then Inl (Panic ''makeslice: cap out of range'') else Inr ())"

definition reserve :: "head \<Rightarrow> unit result" where
  "reserve h = (case h of Leaf v \<Rightarrow> Inr () | ArrayOf n \<Rightarrow> makeCap 16 n | MapOf n \<Rightarrow> makeCap 32 n)"

definition decodeOpen :: "Decoder \<Rightarrow> (head \<times> Decoder) result" where
  "decodeOpen d = rbind (decodeHead d) (\<lambda>(h, d1). rbind (reserve h) (\<lambda>_. Inr (h, d1)))"

definition gives :: "(Decoder \<Rightarrow> ('a \<times> Decoder) result) \<Rightarrow> ('a \<Rightarrow> bool) \<Rightarrow> bool" where
  "gives f P \<longleftrightarrow> (\<forall>d v d'. f d = Inr (v, d') \<longrightarrow> P v)"

lemma gives_Inr: "P v \<Longrightarrow> gives (\<lambda>d. Inr (v, d)) P"
  by (simp add: gives_def)

lemma gives_Inl: "gives (\<lambda>d. Inl e) P"
  by (simp add: gives_def)

lemma gives_if: "(c \<Longrightarrow> gives f P) \<Longrightarrow> (\<not> c \<Longrightarrow> gives g P) \<Longrightarrow> gives (\<lambda>d. if c then f d else g d) P"
  by (cases c) simp_all

lemma gives_bind:
  "gives f Q \<Longrightarrow> (\<And>v. Q v \<Longrightarrow> gives (g v) P) \<Longrightarrow> gives (\<lambda>d. rbind (f d) (\<lambda>p. case p of (v, d1) \<Rightarrow> g v d1)) P"
  by (fastforce simp: gives_def rbind_Inr)

lemma gives_any: "gives f (\<lambda>_. True)"
  by (simp add: gives_def)

lemma gives_takeN: "gives (takeN n) (\<lambda>b. length b = n)"
  by (auto simp: gives_def takeN_def slice_simps split: if_splits)

lemma word_bounds: "unat (b :: 8 word) < 2 ^ 32" "unat (x :: 16 word) < 2 ^ 32" "unat (y :: 32 word) < 2 ^ 32"
  "uint b < 256"
  using unsigned_less [of b, where ?'a = nat] unsigned_less [of x, where ?'a = nat]
    unsigned_less [of y, where ?'a = nat] unsigned_less [of b, where ?'a = int] by simp_all

lemma gives_lenOf: "gives (lenOf b) (\<lambda>n. n < 2 ^ 32)"
  unfolding lenOf_def [abs_def]
  by (intro gives_if gives_bind [OF gives_any] gives_Inr gives_Inl word_bounds)

lemma reserve_leaf: "gives (\<lambda>d. Inr (Leaf v, d)) (\<lambda>h. reserve h = Inr ())"
  by (simp add: gives_def reserve_def)

lemma reserve_count:
  "n < 2 ^ 32 \<Longrightarrow> gives (\<lambda>d. Inr (ArrayOf n, d)) (\<lambda>h. reserve h = Inr ())"
  "n < 2 ^ 32 \<Longrightarrow> gives (\<lambda>d. Inr (MapOf n, d)) (\<lambda>h. reserve h = Inr ())"
  by (simp_all add: gives_def reserve_def makeCap_def)

lemma reserve_decodeHead: "gives decodeHead (\<lambda>h. reserve h = Inr ())"
  unfolding decodeHead_def [abs_def] intOf_def decodeExtN_def
  by (rule gives_bind [OF gives_any], intro gives_if)
    (rule gives_Inl reserve_leaf reserve_count word_bounds(1) gives_bind [OF gives_lenOf] gives_bind [OF gives_any] | assumption)+

lemma decodeOpen_eq [simp]: "decodeOpen d = decodeHead d"
proof (cases "decodeHead d")
  case (Inr p)
  moreover have "reserve (fst p) = Inr ()" using reserve_decodeHead Inr unfolding gives_def by (metis prod.collapse)
  ultimately show ?thesis by (simp add: decodeOpen_def case_prod_beta)
qed (simp add: decodeOpen_def)

function (sequential)
  decodeValue :: "Decoder \<Rightarrow> (Value \<times> Decoder) result" and
  decodeArray :: "nat \<Rightarrow> Decoder \<Rightarrow> (Value list \<times> Decoder) result" and
  decodeMap :: "nat \<Rightarrow> Decoder \<Rightarrow> ((Value \<times> Value) list \<times> Decoder) result" where
  "decodeValue d =
     rbind (decodeOpen d) (\<lambda>p. case p of
       (Leaf v, d1) \<Rightarrow> Inr (v, d1)
     | (ArrayOf n, d1) \<Rightarrow> rbind (decodeArray n d1) (\<lambda>(vs, d2). Inr (MArray vs, d2))
     | (MapOf n, d1) \<Rightarrow> rbind (decodeMap n d1) (\<lambda>(ps, d2). Inr (MMap ps, d2)))"
| "decodeArray 0 d = Inr ([], d)"
| "decodeArray (Suc n) d =
     rbind (decodeValue d) (\<lambda>(v, d1). rbind (decodeArray n d1) (\<lambda>(vs, d2). Inr (v # vs, d2)))"
| "decodeMap 0 d = Inr ([], d)"
| "decodeMap (Suc n) d =
     rbind (decodeValue d) (\<lambda>(k, d1). rbind (decodeValue d1) (\<lambda>(v, d2).
       rbind (decodeMap n d2) (\<lambda>(ps, d3). Inr ((k, v) # ps, d3))))"
  by pat_completeness auto

termination
proof -
  have advances:
    "decodeValue_decodeArray_decodeMap_dom (Inl d) \<Longrightarrow> decodeValue d = Inr (v, d') \<Longrightarrow> advances d d'"
    "decodeValue_decodeArray_decodeMap_dom (Inr (Inl (n, d))) \<Longrightarrow> decodeArray n d = Inr (vs, d') \<Longrightarrow> advances d d'"
    "decodeValue_decodeArray_decodeMap_dom (Inr (Inr (n, d))) \<Longrightarrow> decodeMap n d = Inr (ps, d') \<Longrightarrow> advances d d'"
    for d v d' n vs ps
  proof (induction d and n d and n d arbitrary: v d' and vs d' and ps d' rule: decodeValue_decodeArray_decodeMap.pinduct)
    case (1 d)
    then obtain h d1 where h: "decodeHead d = Inr (h, d1)" by (auto simp: decodeValue.psimps rbind_Inr)
    then have "advances d d1" using decodeHead_advances by blast
    moreover have "advances d1 d'" using 1 h by (cases h) (auto simp: decodeValue.psimps rbind_Inr)
    ultimately show ?case by (rule advances_trans)
  next
    case (2 d)
    then show ?case by (simp add: decodeArray.psimps)
  next
    case (3 n d)
    then show ?case by (auto simp: decodeArray.psimps rbind_Inr intro: advances_trans)
  next
    case (4 d)
    then show ?case by (simp add: decodeMap.psimps)
  next
    case (5 n d)
    from \<open>decodeMap (Suc n) d = Inr (ps, d')\<close> 5 obtain k d1 v d2 qs where
      e: "decodeValue d = Inr (k, d1)" "decodeValue d1 = Inr (v, d2)" "decodeMap n d2 = Inr (qs, d')"
      by (auto simp: decodeMap.psimps rbind_Inr)
    with 5 have "advances d d1" "advances d1 d2" "advances d2 d'" by fastforce+
    then show ?case using advances_trans by blast
  qed
  show ?thesis
  proof (relation "inv_image (less_than <*lex*> less_than <*lex*> less_than)
      (\<lambda>x. case x of Inl d \<Rightarrow> (dLimit d - dPos d, 0, 0)
         | Inr (Inl (n, d)) \<Rightarrow> (dLimit d - dPos d, 1, n)
         | Inr (Inr (n, d)) \<Rightarrow> (dLimit d - dPos d, 1, n))", goal_cases)
    case 1
    show ?case by (intro wf_inv_image wf_lex_prod wf_less_than)
  qed (auto simp: advances_def dest!: advances decodeHead_advances)
qed

definition Unmarshal :: "bytes \<Rightarrow> Value result" where
  "Unmarshal b =
     rbind (decodeValue (NewDecoder b)) (\<lambda>(v, d).
       if dPos d \<noteq> length b then Inl (Error ''msgpack: decode error: trailing content'') else Inr v)"

section \<open>Lookup in maps\<close>

text \<open>Go's \<open>==\<close> on floats, on their bit patterns: a NaN differs from everything, the two zeros are equal.\<close>

definition isNaN :: "float64 \<Rightarrow> bool" where
  "isNaN x \<longleftrightarrow> x AND 0x7fffffffffffffff > 0x7ff0000000000000"

definition floatEq :: "float64 \<Rightarrow> float64 \<Rightarrow> bool" where
  "floatEq x y \<longleftrightarrow> \<not> isNaN x \<and> \<not> isNaN y \<and> (x = y \<or> (x OR y) AND 0x7fffffffffffffff = 0)"

definition Equal :: "Value \<Rightarrow> Value \<Rightarrow> bool" where
  "Equal a b =
     (case a of
        MStr x \<Rightarrow> (case b of MStr y \<Rightarrow> x = y | _ \<Rightarrow> False)
      | MInt x \<Rightarrow> (case b of MInt y \<Rightarrow> x = y | _ \<Rightarrow> False)
      | MBool x \<Rightarrow> (case b of MBool y \<Rightarrow> x = y | _ \<Rightarrow> False)
      | MNil \<Rightarrow> (case b of MNil \<Rightarrow> True | _ \<Rightarrow> False)
      | MFloat x \<Rightarrow> (case b of MFloat y \<Rightarrow> floatEq x y | _ \<Rightarrow> False)
      | MBin x \<Rightarrow> (case b of MBin y \<Rightarrow> x = y | _ \<Rightarrow> False)
      | MExt t x \<Rightarrow> (case b of MExt u y \<Rightarrow> t = u \<and> x = y | _ \<Rightarrow> False)
      | _ \<Rightarrow> False)"

fun Member :: "(Value \<times> Value) list \<Rightarrow> Value \<Rightarrow> Value option" where
  "Member [] key = None"
| "Member ((k, v) # ps) key = (if Equal k key then Some v else Member ps key)"

section \<open>Adding a pair to an encoded map\<close>

definition mapCountAndHeaderLen :: "bytes \<Rightarrow> (nat \<times> nat) option" where
  "mapCountAndHeaderLen raw =
     (if raw = [] then None
      else let b = raw ! 0
           in if b \<ge> 0x80 \<and> b \<le> 0x8f then Some (unat (b AND 0x0f), 1)
              else if b = 0xde then
                (if length raw < 3 then None else Some (unat (get_be (slice raw 1 3) :: uint16), 3))
              else if b = 0xdf then
                (if length raw < 5 then None else Some (unat (get_be (slice raw 1 5) :: uint32), 5))
              else None)"

text \<open>The package's second string encoder, on the bytes of the string.\<close>

definition scanEncodeStr :: "string \<Rightarrow> bytes" where
  "scanEncodeStr s =
     (let n = length s
      in if n < 32 then (0xa0 OR word_of_nat n) # bytes_of s
         else if n \<le> 0xff then 0xd9 # word_of_nat n # bytes_of s
         else if n \<le> 0xffff then 0xda # put_be 2 (word_of_nat n :: uint16) @ bytes_of s
         else 0xdb # put_be 4 (word_of_nat n :: uint32) @ bytes_of s)"

definition grownHeader :: "nat \<Rightarrow> nat \<Rightarrow> bytes result" where
  "grownHeader cnt hdr =
     (if hdr = 1 then
        (if cnt < 15 then Inr [0x80 OR word_of_nat (cnt + 1)] else Inr [0xde, 0x00, 0x10])
      else if hdr = 3 then
        (if cnt < 0xffff then Inr (0xde # put_be 2 (word_of_nat (cnt + 1) :: uint16))
         else Inr [0xdf, 0x00, 0x01, 0x00, 0x00])
      else if cnt = 0xffffffff then Inl (Error ''msgpack: map32 count overflow'')
      else Inr (0xdf # put_be 4 (word_of_nat (cnt + 1) :: uint32)))"

definition InjectTopPair :: "bytes \<Rightarrow> string \<Rightarrow> string \<Rightarrow> bytes result" where
  "InjectTopPair raw key val =
     (case mapCountAndHeaderLen raw of
        None \<Rightarrow> Inl (Error ''msgpack: not a top-level map (or truncated header)'')
      | Some (cnt, hdr) \<Rightarrow>
          rbind (grownHeader cnt hdr) (\<lambda>header.
            Inr (header @ drop hdr raw @ scanEncodeStr key @ scanEncodeStr val)))"

section \<open>Parsers\<close>

text \<open>A decoder over a whole buffer that has read \<open>a\<close> and has \<open>r\<close> before it.\<close>

definition reading :: "bytes \<Rightarrow> bytes \<Rightarrow> Decoder" where
  "reading a r = \<lparr>dBuf = a @ r, dPos = length a, dLimit = length (a @ r)\<rparr>"

lemma NewDecoder_reading: "NewDecoder b = reading [] b"
  by (simp add: NewDecoder_def reading_def)

lemma reading_eq [simp]: "reading a r = reading a' r' \<longleftrightarrow> a = a' \<and> r = r'"
  by (auto simp: reading_def)

lemma u8_reading [simp]:
  "u8 (reading a (b # r)) = Inr (b, reading (a @ [b]) r)" "u8 (reading a []) = Inl truncated"
  by (simp_all add: u8_def reading_def)

lemma takeN_reading: "length x = n \<Longrightarrow> takeN n (reading a (x @ r)) = Inr (x, reading (a @ x) r)"
  by (simp add: takeN_def reading_def slice_simps)

lemma takeN_short: "length r < n \<Longrightarrow> takeN n (reading a r) = Inl truncated"
  by (simp add: takeN_def reading_def)

lemma uN_reading: "length x = n \<Longrightarrow> uN n (reading a (x @ r)) = Inr (get_be x, reading (a @ x) r)"
  by (simp add: uN_def takeN_reading)

text \<open>
  A parser fails with an error, or consumes a prefix \<open>x\<close> of its input; then it does the same wherever it finds \<open>x\<close>.
\<close>

definition parses :: "(Decoder \<Rightarrow> ('a \<times> Decoder) result) \<Rightarrow> bytes \<Rightarrow> bytes \<Rightarrow> bool" where
  "parses f a r \<longleftrightarrow>
     (\<exists>m. f (reading a r) = Inl (Error m)) \<or>
     (\<exists>v x r'. r = x @ r' \<and> (\<forall>a2 r2. f (reading a2 (x @ r2)) = Inr (v, reading (a2 @ x) r2)))"

lemma parses_Inr [intro, simp]: "parses (\<lambda>d. Inr (v, d)) a r"
  unfolding parses_def by (intro disjI2 exI [of _ v] exI [of _ "[]"] exI [of _ r]) simp

lemma parses_Error [intro, simp]: "parses (\<lambda>d. Inl (Error m)) a r"
  by (simp add: parses_def)

lemma parses_if [intro]:
  "(c \<Longrightarrow> parses f a r) \<Longrightarrow> (\<not> c \<Longrightarrow> parses g a r) \<Longrightarrow> parses (\<lambda>d. if c then f d else g d) a r"
  by (cases c) simp_all

lemma parses_bind:
  assumes "parses f a r"
    and "\<And>v x r'. r = x @ r' \<Longrightarrow> f (reading a r) = Inr (v, reading (a @ x) r') \<Longrightarrow> parses (g v) (a @ x) r'"
  shows "parses (\<lambda>d. rbind (f d) (\<lambda>p. case p of (v, d1) \<Rightarrow> g v d1)) a r"
proof (cases "\<exists>m. f (reading a r) = Inl (Error m)")
  case True
  then show ?thesis by (auto simp: parses_def)
next
  case False
  with assms(1) obtain v x r' where r: "r = x @ r'"
    and f: "f (reading a2 (x @ r2)) = Inr (v, reading (a2 @ x) r2)" for a2 r2
    by (auto simp: parses_def)
  then have "parses (g v) (a @ x) r'" by (intro assms(2)) auto
  then consider m where "g v (reading (a @ x) r') = Inl (Error m)"
    | w y r'' where "r' = y @ r''" "\<And>a2 r2. g v (reading a2 (y @ r2)) = Inr (w, reading (a2 @ y) r2)"
    unfolding parses_def by blast
  then show ?thesis
  proof cases
    case 1
    then show ?thesis by (auto simp: parses_def r f)
  next
    case 2
    then show ?thesis unfolding parses_def r f
      by (intro disjI2 exI [of _ w] exI [of _ "x @ y"] exI [of _ r'']) (simp add: f)
  qed
qed

lemma parses_u8 [intro, simp]: "parses u8 a r"
proof (cases r)
  case Nil
  then show ?thesis by (simp add: parses_def truncated_def)
next
  case (Cons b r')
  then show ?thesis unfolding parses_def
    by (intro disjI2 exI [of _ b] exI [of _ "[b]"] exI [of _ r']) simp
qed

lemma parses_takeN [intro, simp]: "parses (takeN n) a r"
proof (cases "length r < n")
  case True
  then show ?thesis by (simp add: parses_def takeN_short truncated_def)
next
  case False
  then show ?thesis unfolding parses_def
    by (intro disjI2 exI [of _ "take n r"] exI [of _ "take n r"] exI [of _ "drop n r"]) (simp add: takeN_reading)
qed

lemma parses_uN [intro, simp]: "parses (uN n) a r"
  unfolding uN_def [abs_def] by (intro parses_bind) simp_all

lemma parses_lenOf [intro, simp]: "parses (lenOf b) a r"
  unfolding lenOf_def [abs_def] u16_def u32_def by (intro parses_if parses_bind) simp_all

lemma parses_decodeExtN [intro, simp]: "parses (decodeExtN n) a r"
  unfolding decodeExtN_def [abs_def] by (intro parses_bind) simp_all

lemma parses_decodeHead [intro, simp]: "parses decodeHead a r"
  unfolding decodeHead_def [abs_def] intOf_def u16_def u32_def u64_def
  by (intro parses_bind parses_if) simp_all

lemma parses_result:
  assumes "parses f a r" "f (reading a r) = Inr (v, d)"
  obtains x r' where "r = x @ r'" "d = reading (a @ x) r'"
    "\<And>a2 r2. f (reading a2 (x @ r2)) = Inr (v, reading (a2 @ x) r2)"
  using assms unfolding parses_def by fastforce

lemma parses_decode:
  "d = reading a r \<Longrightarrow> parses decodeValue a r"
  "d = reading a r \<Longrightarrow> parses (decodeArray n) a r"
  "d = reading a r \<Longrightarrow> parses (decodeMap n) a r"
proof (induction d and n d and n d arbitrary: a r and a r and a r rule: decodeValue_decodeArray_decodeMap.induct)
  case (1 d)
  have "parses (\<lambda>d. rbind (decodeHead d) (\<lambda>p. case p of (h, d1) \<Rightarrow>
      (case h of Leaf v \<Rightarrow> Inr (v, d1)
       | ArrayOf n \<Rightarrow> rbind (decodeArray n d1) (\<lambda>(vs, d2). Inr (MArray vs, d2))
       | MapOf n \<Rightarrow> rbind (decodeMap n d1) (\<lambda>(ps, d2). Inr (MMap ps, d2))))) a r"
  proof (rule parses_bind)
    fix h x r'
    assume r: "r = x @ r'" and h: "decodeHead (reading a r) = Inr (h, reading (a @ x) r')"
    show "parses (\<lambda>d1. case h of Leaf v \<Rightarrow> Inr (v, d1)
       | ArrayOf n \<Rightarrow> rbind (decodeArray n d1) (\<lambda>(vs, d2). Inr (MArray vs, d2))
       | MapOf n \<Rightarrow> rbind (decodeMap n d1) (\<lambda>(ps, d2). Inr (MMap ps, d2))) (a @ x) r'"
      using 1 h by (cases h) (auto intro!: parses_bind)
  qed simp
  moreover have "decodeValue = (\<lambda>d. rbind (decodeHead d) (\<lambda>p. case p of (h, d1) \<Rightarrow>
      (case h of Leaf v \<Rightarrow> Inr (v, d1)
       | ArrayOf n \<Rightarrow> rbind (decodeArray n d1) (\<lambda>(vs, d2). Inr (MArray vs, d2))
       | MapOf n \<Rightarrow> rbind (decodeMap n d1) (\<lambda>(ps, d2). Inr (MMap ps, d2)))))"
    by (rule ext) (auto intro!: arg_cong [where f = "rbind _"] split: head.splits)
  ultimately show ?case by simp
next
  case (3 n d)
  then show ?case unfolding decodeArray.simps(2) [abs_def] by (intro parses_bind) auto
next
  case (5 n d)
  then show ?case unfolding decodeMap.simps(2) [abs_def] by (intro parses_bind) auto
qed (simp_all add: decodeArray.simps [abs_def] decodeMap.simps [abs_def])

section \<open>Decoding what was encoded\<close>

text \<open>
  The values that have an encoding of their own: 32-bit lengths, extension types of one byte, no raw bytes.
\<close>

fun encodable :: "Value \<Rightarrow> bool" where
  "encodable (MStr s) = (length s < 2 ^ 32)"
| "encodable (MBin b) = (length b < 2 ^ 32)"
| "encodable (MArray vs) = (length vs < 2 ^ 32 \<and> list_all encodable vs)"
| "encodable (MMap ps) = (length ps < 2 ^ 32 \<and> list_all (\<lambda>(k, v). encodable k \<and> encodable v) ps)"
| "encodable (MExt ty data) = (0 \<le> ty \<and> ty < 256 \<and> length data < 2 ^ 32)"
| "encodable (MRaw b) = False"
| "encodable _ = True"

lemma ucast_ucast_sint:
  assumes "0 \<le> sint (v :: int64)" "sint v < 2 ^ LENGTH('a::len)"
  shows "ucast (ucast v :: 'a word) = v"
proof -
  have v: "uint v = sint v" using assms(1) sint_less [of v] by (simp add: uint_sint take_bit_int_eq_self)
  have "uint (ucast (ucast v :: 'a word) :: int64) = take_bit LENGTH('a) (take_bit LENGTH(64) (uint v))"
    by (simp only: unsigned_ucast_eq unsigned_take_bit_eq)
  also have "\<dots> = uint v" using v assms sint_less [of v] by (simp add: take_bit_int_eq_self)
  finally show ?thesis by (rule word_uint_eqI)
qed

lemma scast_ucast_sint:
  assumes "- (2 ^ (LENGTH('a) - 1)) \<le> sint (v :: int64)" "sint v < 2 ^ (LENGTH('a) - 1)" "LENGTH('a::len) \<le> 64"
  shows "scast (ucast v :: 'a word) = v"
proof -
  have "LENGTH('a) - Suc 0 \<le> 63" using assms(3) by simp
  then have "sint (ucast v :: 'a word) = signed_take_bit (LENGTH('a) - 1) (sint v)"
    using assms(3) by (simp add: sint_uint unsigned_ucast_eq signed_take_bit_take_bit min_def)
  then have "sint (ucast v :: 'a word) = sint v" using assms by (simp add: signed_take_bit_int_eq_self)
  then have "word_of_int (sint (ucast v :: 'a word)) = v" by simp
  then show ?thesis by simp
qed

text \<open>The one-byte headers.\<close>

lemma short_headers_all:
  "list_all (\<lambda>n. unat (0xa0 OR word_of_nat n :: byte) = 160 + n \<and> unat ((0xa0 OR word_of_nat n :: byte) AND 0x1f) = n) [0..<32]"
  "list_all (\<lambda>n. unat (0x90 OR word_of_nat n :: byte) = 144 + n \<and> unat ((0x90 OR word_of_nat n :: byte) AND 0x0f) = n) [0..<16]"
  "list_all (\<lambda>n. unat (0x80 OR word_of_nat n :: byte) = 128 + n \<and> unat ((0x80 OR word_of_nat n :: byte) AND 0x0f) = n) [0..<16]"
  by code_simp+

lemma short_headers:
  "n \<le> 31 \<Longrightarrow> unat (0xa0 OR word_of_nat n :: byte) = 160 + n"
  "n \<le> 31 \<Longrightarrow> unat ((0xa0 OR word_of_nat n :: byte) AND 0x1f) = n"
  "n \<le> 15 \<Longrightarrow> unat (0x90 OR word_of_nat n :: byte) = 144 + n"
  "n \<le> 15 \<Longrightarrow> unat ((0x90 OR word_of_nat n :: byte) AND 0x0f) = n"
  "n \<le> 15 \<Longrightarrow> unat (0x80 OR word_of_nat n :: byte) = 128 + n"
  "n \<le> 15 \<Longrightarrow> unat ((0x80 OR word_of_nat n :: byte) AND 0x0f) = n"
  using short_headers_all by (simp_all add: list_all_iff)

lemmas reads = takeN_reading uN_reading u16_def u32_def u64_def be16_def be32_def be64_def

lemma decodeHead_int: "decodeHead (reading a (encodeInt v @ r)) = Inr (Leaf (MInt v), reading (a @ encodeInt v) r)"
proof -
  have u: "0 \<le> sint v \<Longrightarrow> sint v < 256 \<Longrightarrow> ucast (ucast v :: 8 word) = v"
    "0 \<le> sint v \<Longrightarrow> sint v < 65536 \<Longrightarrow> ucast (ucast v :: 16 word) = v"
    "0 \<le> sint v \<Longrightarrow> sint v < 4294967296 \<Longrightarrow> ucast (ucast v :: 32 word) = v"
    using ucast_ucast_sint [of v, where ?'a = 8] ucast_ucast_sint [of v, where ?'a = 16]
      ucast_ucast_sint [of v, where ?'a = 32] by simp_all
  have s: "- 128 \<le> sint v \<Longrightarrow> sint v < 128 \<Longrightarrow> scast (ucast v :: 8 word) = v"
    "- 32768 \<le> sint v \<Longrightarrow> sint v < 32768 \<Longrightarrow> scast (ucast v :: 16 word) = v"
    "- 2147483648 \<le> sint v \<Longrightarrow> sint v < 2147483648 \<Longrightarrow> scast (ucast v :: 32 word) = v"
    using scast_ucast_sint [of v, where ?'a = 8] scast_ucast_sint [of v, where ?'a = 16]
      scast_ucast_sint [of v, where ?'a = 32] by simp_all
  have byte: "uint (ucast v :: byte) = sint v mod 256"
    by (simp add: unsigned_ucast_eq uint_sint [of v] take_bit_eq_mod mod_mod_cancel)
  have pos: "(ucast v :: byte) \<le> 0x7f" if "0 \<le> sint v" "sint v \<le> 127"
    using that byte by (simp add: word_le_def)
  have neg: "(0xe0 :: byte) \<le> ucast v" "\<not> (ucast v :: byte) \<le> 0x7f" if "sint v < 0" "-32 \<le> sint v"
  proof -
    have "sint v mod 256 = sint v + 256" using that by (intro int_mod_pos_eq [of _ _ "-1"]) auto
    with byte that show "(0xe0 :: byte) \<le> ucast v" "\<not> (ucast v :: byte) \<le> 0x7f" by (simp_all add: word_le_def)
  qed
  show ?thesis
    unfolding encodeInt_def decodeHead_def
    using u s pos neg by (simp add: reads intOf_def)
qed

lemma unat_word_of_nat: "n < 2 ^ LENGTH('a) \<Longrightarrow> unat (word_of_nat n :: 'a::len word) = n"
  by (simp add: unat_of_nat take_bit_nat_eq_self)

lemma lengths:
  "n < 256 \<Longrightarrow> unat (word_of_nat n :: byte) = n"
  "n < 65536 \<Longrightarrow> unat (word_of_nat n :: uint16) = n"
  "n < 4294967296 \<Longrightarrow> unat (word_of_nat n :: uint32) = n"
  by (simp_all add: unat_word_of_nat)

lemma decodeHead_str:
  "length s < 2 ^ 32 \<Longrightarrow> decodeHead (reading a (encodeStr s @ r)) = Inr (Leaf (MStr s), reading (a @ encodeStr s) r)"
  unfolding encodeStr_def decodeHead_def
  by (simp add: reads intOf_def lenOf_def Let_def lengths short_headers word_le_nat_alt)

lemma decodeHead_bin:
  "length b < 2 ^ 32 \<Longrightarrow> decodeHead (reading a (encodeBin b @ r)) = Inr (Leaf (MBin b), reading (a @ encodeBin b) r)"
  unfolding encodeBin_def decodeHead_def
  by (simp add: reads intOf_def lenOf_def Let_def lengths word_le_nat_alt)

lemma decodeHead_ext:
  assumes "length b < 2 ^ 32" "0 \<le> ty" "ty < 256"
  shows "decodeHead (reading a (encodeExt ty b @ r)) = Inr (Leaf (MExt ty b), reading (a @ encodeExt ty b) r)"
proof -
  have ty: "uint (word_of_int ty :: byte) = ty" using assms(2,3) by (simp add: uint_word_of_int_eq take_bit_int_eq_self)
  show ?thesis using assms(1)
    unfolding encodeExt_def decodeHead_def
    by (simp add: reads intOf_def lenOf_def decodeExtN_def Let_def lengths word_le_nat_alt ty)
qed

lemma decodeHead_array:
  "n < 2 ^ 32 \<Longrightarrow> decodeHead (reading a (EncodeArrayHeader n @ r)) = Inr (ArrayOf n, reading (a @ EncodeArrayHeader n) r)"
  unfolding EncodeArrayHeader_def decodeHead_def
  by (simp add: reads intOf_def lenOf_def Let_def lengths short_headers word_le_nat_alt)

lemma decodeHead_map:
  "n < 2 ^ 32 \<Longrightarrow> decodeHead (reading a (EncodeMapHeader n @ r)) = Inr (MapOf n, reading (a @ EncodeMapHeader n) r)"
  unfolding EncodeMapHeader_def decodeHead_def
  by (simp add: reads intOf_def lenOf_def Let_def lengths short_headers word_le_nat_alt)

lemma decodeHead_const:
  "decodeHead (reading a (0xc0 # r)) = Inr (Leaf MNil, reading (a @ [0xc0]) r)"
  "decodeHead (reading a (0xc2 # r)) = Inr (Leaf (MBool False), reading (a @ [0xc2]) r)"
  "decodeHead (reading a (0xc3 # r)) = Inr (Leaf (MBool True), reading (a @ [0xc3]) r)"
  "decodeHead (reading a (0xcb # be64 x @ r)) = Inr (Leaf (MFloat x), reading (a @ 0xcb # be64 x) r)"
  unfolding decodeHead_def by (simp_all add: reads)

lemmas decodeHead_encoded = decodeHead_int decodeHead_str decodeHead_bin decodeHead_ext decodeHead_array
  decodeHead_map decodeHead_const

declare decodeValue.simps [simp del]

lemma decodeArray_encoded:
  assumes "\<And>v a r. v \<in> set vs \<Longrightarrow> decodeValue (reading a (Encode v @ r)) = Inr (v, reading (a @ Encode v) r)"
  shows "decodeArray (length vs) (reading a (concat (map Encode vs) @ r))
    = Inr (vs, reading (a @ concat (map Encode vs)) r)"
  using assms by (induction vs arbitrary: a) simp_all

lemma decodeMap_encoded:
  assumes "\<And>k v a r. (k, v) \<in> set ps \<Longrightarrow> decodeValue (reading a (Encode k @ r)) = Inr (k, reading (a @ Encode k) r)"
    and "\<And>k v a r. (k, v) \<in> set ps \<Longrightarrow> decodeValue (reading a (Encode v @ r)) = Inr (v, reading (a @ Encode v) r)"
  shows "decodeMap (length ps) (reading a (concat (map (\<lambda>(k, v). Encode k @ Encode v) ps) @ r))
    = Inr (ps, reading (a @ concat (map (\<lambda>(k, v). Encode k @ Encode v) ps)) r)"
  using assms
proof (induction ps arbitrary: a)
  case (Cons p ps)
  obtain k v where p: "p = (k, v)" by (cases p)
  have kv: "decodeValue (reading a (Encode k @ r)) = Inr (k, reading (a @ Encode k) r)"
    "decodeValue (reading a (Encode v @ r)) = Inr (v, reading (a @ Encode v) r)" for a r
    using Cons.prems [of k v] p by auto
  have "decodeMap (length ps) (reading a (concat (map (\<lambda>(k, v). Encode k @ Encode v) ps) @ r))
    = Inr (ps, reading (a @ concat (map (\<lambda>(k, v). Encode k @ Encode v) ps)) r)" for a
    using Cons.prems by (intro Cons.IH) (meson list.set_intros(2))+
  then show ?case by (simp add: p kv)
qed simp

lemma decodeValue_Encode:
  "encodable v \<Longrightarrow> decodeValue (reading a (Encode v @ r)) = Inr (v, reading (a @ Encode v) r)"
proof (induction v arbitrary: a r)
  case (MArray vs)
  then have "decodeValue (reading a (Encode v @ r)) = Inr (v, reading (a @ Encode v) r)" if "v \<in> set vs" for v a r
    using that by (simp add: list_all_iff)
  with MArray.prems show ?case
    by (simp add: decodeValue.simps [of "reading _ _"] decodeHead_encoded decodeArray_encoded)
next
  case (MMap ps)
  have "decodeValue (reading a (Encode k @ r)) = Inr (k, reading (a @ Encode k) r)"
    "decodeValue (reading a (Encode v @ r)) = Inr (v, reading (a @ Encode v) r)" if "(k, v) \<in> set ps" for k v a r
    using that MMap by (fastforce simp: list_all_iff)+
  with MMap.prems show ?case
    by (simp add: decodeValue.simps [of "reading _ _"] decodeHead_encoded decodeMap_encoded)
qed (simp_all add: decodeValue.simps [of "reading _ _"] decodeHead_encoded)

lemma Unmarshal_Encode: "encodable v \<Longrightarrow> Unmarshal (Encode v) = Inr v"
  using decodeValue_Encode [of v "[]" "[]"]
  by (simp add: Unmarshal_def NewDecoder_reading) (simp add: reading_def)

text \<open>C20. Decoding inverts encoding: a value with 32-bit lengths and one-byte extension types, without raw bytes
  in it, is read back from its encoding.\<close>

theorem Unmarshal_Marshal:
  assumes "encodable v"
  shows "Unmarshal (Marshal v) = Inr v"
  using Unmarshal_Encode [OF assms] by (simp add: Marshal_def)

theorem Unmarshal_Marshal_witness:
  "Unmarshal (Marshal (MMap [(MStr ''a'', MArray [MInt (- 200), MExt 5 [1, 2, 3]]), (MNil, MFloat 7)]))
     = Inr (MMap [(MStr ''a'', MArray [MInt (- 200), MExt 5 [1, 2, 3]]), (MNil, MFloat 7)])"
  by (rule Unmarshal_Marshal) simp

section \<open>What the decoder returns\<close>

text \<open>Heads whose value, element count or pair count fits the encoder.\<close>

fun head_ok :: "head \<Rightarrow> bool" where
  "head_ok (Leaf v) = encodable v"
| "head_ok (ArrayOf n) = (n < 2 ^ 32)"
| "head_ok (MapOf n) = (n < 2 ^ 32)"

lemma gives_decodeExtN: "n < 2 ^ 32 \<Longrightarrow> gives (decodeExtN n) head_ok"
  unfolding decodeExtN_def [abs_def]
  by (intro gives_bind [OF gives_any] gives_bind [OF gives_takeN] gives_Inr) (simp add: word_bounds [simplified])

lemma gives_leaf: "encodable v \<Longrightarrow> gives (\<lambda>d. Inr (Leaf v, d)) head_ok"
  by (simp add: gives_def)

lemma gives_count: "n < 2 ^ 32 \<Longrightarrow> gives (\<lambda>d. Inr (ArrayOf n, d)) head_ok" "n < 2 ^ 32 \<Longrightarrow> gives (\<lambda>d. Inr (MapOf n, d)) head_ok"
  by (simp_all add: gives_def)

lemma gives_body:
  assumes "\<And>b. length b = n \<Longrightarrow> encodable (g b)"
  shows "gives (\<lambda>d. rbind (takeN n d) (\<lambda>p. case p of (b, d1) \<Rightarrow> Inr (Leaf (g b), d1))) head_ok"
  by (intro gives_bind [OF gives_takeN] gives_leaf assms)

lemma gives_scalar: "(\<And>x. encodable (g x)) \<Longrightarrow> gives (\<lambda>d. rbind (f d) (\<lambda>p. case p of (x, d1) \<Rightarrow> Inr (Leaf (g x), d1))) head_ok"
  by (intro gives_bind [OF gives_any] gives_leaf)

lemma ext_length: "b \<le> 0xd8 \<Longrightarrow> 0xd4 \<le> b \<Longrightarrow> (2 :: nat) ^ unat (b - 0xd4 :: byte) < 2 ^ 32"
proof -
  assume "b \<le> 0xd8" "0xd4 \<le> b"
  then have "unat (b - 0xd4) \<le> 4" by (simp add: word_le_nat_alt unat_sub_if')
  then show ?thesis by (intro power_strict_increasing) auto
qed

lemma gives_decodeHead: "gives decodeHead head_ok"
  unfolding decodeHead_def [abs_def] intOf_def
  by (rule gives_bind [OF gives_any], intro gives_if)
    (rule gives_Inl gives_leaf gives_body gives_count word_bounds(1) gives_bind [OF gives_lenOf] gives_decodeExtN
      | (rule gives_scalar, simp only: encodable.simps)
      | (erule conjE, rule ext_length, assumption, assumption)
      | simp only: encodable.simps length_string_of word_bounds
      | assumption)+

lemma decodeHead_ok: "decodeHead d = Inr (h, d') \<Longrightarrow> head_ok h"
  using gives_decodeHead unfolding gives_def by blast

lemma decode_encodable:
  "decodeValue d = Inr (v, d') \<Longrightarrow> encodable v"
  "decodeArray n d = Inr (vs, d') \<Longrightarrow> length vs = n \<and> list_all encodable vs"
  "decodeMap n d = Inr (ps, d') \<Longrightarrow> length ps = n \<and> list_all (\<lambda>(k, v). encodable k \<and> encodable v) ps"
proof (induction d and n d and n d arbitrary: v d' and vs d' and ps d' rule: decodeValue_decodeArray_decodeMap.induct)
  case (1 d)
  then obtain h d1 where h: "decodeHead d = Inr (h, d1)" by (auto simp: decodeValue.simps rbind_Inr)
  with decodeHead_ok [OF h] 1 show ?case by (cases h) (auto simp: decodeValue.simps rbind_Inr)
next
  case (5 n d)
  from \<open>decodeMap (Suc n) d = Inr (ps, d')\<close> obtain k d1 v d2 qs where
    e: "decodeValue d = Inr (k, d1)" "decodeValue d1 = Inr (v, d2)" "decodeMap n d2 = Inr (qs, d')" "ps = (k, v) # qs"
    by (auto simp: rbind_Inr)
  have "encodable k" "encodable v" "length qs = n \<and> list_all (\<lambda>(k, v). encodable k \<and> encodable v) qs"
    using 5 e(1-3) by fastforce+
  with e(4) show ?case by simp
qed (auto simp: rbind_Inr)

text \<open>The decoder returns values of the codec: whatever bytes decode to a value, the value has an encoding, and
  the encoding decodes to the same value, also when the input used longer forms than the encoder does.\<close>

theorem Unmarshal_encodable:
  assumes "Unmarshal b = Inr v"
  shows "encodable v \<and> Unmarshal (Marshal v) = Inr v"
proof -
  from assms obtain d where "decodeValue (NewDecoder b) = Inr (v, d)"
    by (auto simp: Unmarshal_def rbind_Inr split: if_splits)
  then have "encodable v" by (rule decode_encodable)
  then show ?thesis by (simp add: Unmarshal_Encode Marshal_def)
qed

theorem Unmarshal_encodable_witness:
  "encodable (MArray [MInt 1]) \<and> Unmarshal (Marshal (MArray [MInt 1])) = Inr (MArray [MInt 1])"
proof -
  have "Unmarshal [0xdc, 0x00, 0x01, 0xd2, 0x00, 0x00, 0x00, 0x01] = Inr (MArray [MInt 1])" by code_simp
  from Unmarshal_encodable [OF this] show ?thesis .
qed

text \<open>C22. The decoder ends on every byte string with a value or with an error: its loops and its recursion consume
  input, no index or slice it computes is out of range, and the room it reserves for an announced count is within
  what \<open>make\<close> accepts. The memory and the stack the process has are not bounded in the model: an input that announces
  billions of elements, or nests millions of arrays, can exhaust them.\<close>

theorem Unmarshal_total: "(\<exists>v. Unmarshal b = Inr v) \<or> (\<exists>m. Unmarshal b = Inl (Error m))"
proof -
  have "parses decodeValue [] b" by (rule parses_decode(1)) (rule refl)
  then show ?thesis
    unfolding parses_def Unmarshal_def NewDecoder_reading by (auto split: if_split_asm)
qed

section \<open>Injection\<close>

lemma scanEncodeStr_eq: "scanEncodeStr s = encodeStr s"
  by (simp add: scanEncodeStr_def encodeStr_def Let_def be16_def be32_def)

lemma decodeMap_append:
  assumes "decodeMap n d = Inr (ps, d1)" "decodeMap m d1 = Inr (qs, d2)"
  shows "decodeMap (n + m) d = Inr (ps @ qs, d2)"
  using assms
proof (induction n arbitrary: d ps)
  case (Suc n)
  then show ?case by (fastforce simp: rbind_Inr)
qed simp

lemma uN_result:
  assumes "uN n (reading a r) = Inr (v :: 'a::len word, d)"
  shows "n \<le> length r \<and> v = get_be (take n r) \<and> d = reading (a @ take n r) (drop n r)"
proof (cases "length r < n")
  case True
  then show ?thesis using assms by (simp add: uN_def takeN_short)
next
  case False
  then have "uN n (reading a r) = Inr (get_be (take n r) :: 'a word, reading (a @ take n r) (drop n r))"
    using uN_reading [of "take n r" n a "drop n r"] by simp
  with False assms show ?thesis by auto
qed

lemma gives_no_map:
  assumes "\<not> (0x80 \<le> b \<and> b \<le> 0x8f)" "b \<noteq> 0xde" "b \<noteq> 0xdf"
  shows "decodeHead (reading a (b # r)) \<noteq> Inr (MapOf n, d)"
proof
  assume "decodeHead (reading a (b # r)) = Inr (MapOf n, d)"
  then show False using assms
    unfolding decodeHead_def u8_reading rbind_simps prod.case intOf_def decodeExtN_def
    by (simp add: rbind_Inr split: if_split_asm split del: if_split)
qed

lemma decodeHead_scalar: "decodeHead (reading a r) \<noteq> Inr (Leaf (MMap ps), d)"
proof
  assume "decodeHead (reading a r) = Inr (Leaf (MMap ps), d)"
  then show False
    unfolding decodeHead_def intOf_def decodeExtN_def rbind_Inr
    by (auto simp: rbind_Inr split: if_split_asm)
qed

lemma map_head:
  assumes "decodeHead (reading [] raw) = Inr (MapOf n, d)"
  obtains hdr where "mapCountAndHeaderLen raw = Some (n, hdr)" "hdr \<le> length raw" "d = reading (take hdr raw) (drop hdr raw)"
    "hdr = 1 \<and> n \<le> 15 \<or> hdr = 3 \<and> n \<le> 0xffff \<or> hdr = 5 \<and> n < 2 ^ 32"
proof -
  obtain b r where raw: "raw = b # r" using assms by (cases raw) (auto simp: decodeHead_def truncated_def)
  consider "0x80 \<le> b \<and> b \<le> 0x8f" | "b = 0xde" | "b = 0xdf"
    using gives_no_map [of b "[]" r n d] assms raw by blast
  then show ?thesis
  proof cases
    case 1
    have "unat (b AND 0x0f) \<le> 15" using word_and_le1 [of b "0x0f"] by (simp add: word_le_nat_alt)
    with 1 assms raw that [of 1] show ?thesis by (auto simp: decodeHead_def mapCountAndHeaderLen_def word_le_nat_alt)
  next
    case 2
    then obtain v where "uN 2 (reading [b] r) = Inr (v, d)" "unat (v :: uint16) = n" using assms raw
      by (auto simp: decodeHead_def lenOf_def rbind_Inr u16_def)
    moreover have "unat v \<le> 65535" using unsigned_less [of v, where ?'a = nat] by simp
    ultimately show ?thesis using 2 raw
      by (intro that [of 3]) (auto dest!: uN_result simp: mapCountAndHeaderLen_def slice_def)
  next
    case 3
    then obtain v where "uN 4 (reading [b] r) = Inr (v, d)" "unat (v :: uint32) = n" using assms raw
      by (auto simp: decodeHead_def lenOf_def rbind_Inr u32_def)
    moreover have "unat v < 2 ^ 32" using unsigned_less [of v, where ?'a = nat] by simp
    ultimately show ?thesis using 3 raw
      by (intro that [of 5]) (auto dest!: uN_result simp: mapCountAndHeaderLen_def slice_def)
  qed
qed

lemma grown_head:
  assumes "hdr = 1 \<and> n \<le> 15 \<or> hdr = 3 \<and> n \<le> 0xffff \<or> hdr = 5 \<and> n < 2 ^ 32 - 1"
  obtains h where "grownHeader n hdr = Inr h" "\<And>r. decodeHead (reading [] (h @ r)) = Inr (MapOf (Suc n), reading h r)"
proof -
  have g: "unat (get_be [0x00, 0x10] :: uint16) = 16" "unat (get_be [0x00, 0x01, 0x00, 0x00] :: uint32) = 65536"
    by (simp_all add: get_be_def)
  have fixed: "decodeHead (reading [] ([0xde, 0x00, 0x10] @ r)) = Inr (MapOf 16, reading [0xde, 0x00, 0x10] r)"
    "decodeHead (reading [] ([0xdf, 0x00, 0x01, 0x00, 0x00] @ r)) = Inr (MapOf 65536, reading [0xdf, 0x00, 0x01, 0x00, 0x00] r)" for r
    using uN_reading [of "[0x00, 0x10]" 2 "[0xde]" r, where ?'a = 16]
      uN_reading [of "[0x00, 0x01, 0x00, 0x00]" 4 "[0xdf]" r, where ?'a = 32]
    by (simp_all add: decodeHead_def lenOf_def u16_def u32_def g)
  have long: "decodeHead (reading [] ((0xde # put_be 2 (word_of_nat m :: uint16)) @ r))
      = Inr (MapOf m, reading (0xde # put_be 2 (word_of_nat m :: uint16)) r)" if "m < 65536" for m r
    using that by (simp add: decodeHead_def lenOf_def reads lengths)
  have longer: "decodeHead (reading [] ((0xdf # put_be 4 (word_of_nat m :: uint32)) @ r))
      = Inr (MapOf m, reading (0xdf # put_be 4 (word_of_nat m :: uint32)) r)" if "m < 4294967296" for m r
    using that by (simp add: decodeHead_def lenOf_def reads lengths)
  consider "hdr = 1" "n < 15" | "hdr = 1" "n = 15" | "hdr = 3" "n < 0xffff" | "hdr = 3" "n = 0xffff"
    | "hdr = 5" "n < 2 ^ 32 - 1" using assms by linarith
  then show ?thesis
  proof cases
    case 1
    then show ?thesis using decodeHead_map [of "Suc n" "[]"]
      by (intro that [of "EncodeMapHeader (Suc n)"]) (simp_all add: grownHeader_def EncodeMapHeader_def)
  next
    case 2
    then show ?thesis using fixed(1) by (intro that [of "[0xde, 0x00, 0x10]"]) (simp_all add: grownHeader_def)
  next
    case 3
    then show ?thesis using long [of "Suc n"]
      by (intro that [of "0xde # put_be 2 (word_of_nat (Suc n) :: uint16)"]) (simp_all add: grownHeader_def)
  next
    case 4
    then show ?thesis using fixed(2) by (intro that [of "[0xdf, 0x00, 0x01, 0x00, 0x00]"]) (simp_all add: grownHeader_def)
  next
    case 5
    then show ?thesis using longer [of "Suc n"]
      by (intro that [of "0xdf # put_be 4 (word_of_nat (Suc n) :: uint32)"]) (simp_all add: grownHeader_def)
  qed
qed

text \<open>C21. Injecting a pair into an encoded map without decoding it has the effect of decoding, appending the pair and
  encoding again: the result decodes to the old pairs followed by the new one. It fails only for values that are
  not maps and for a map whose count cannot grow.\<close>

theorem InjectTopPair_appends:
  assumes "Unmarshal raw = Inr (MMap ps)" "length ps < 2 ^ 32 - 1" "length k < 2 ^ 32" "length v < 2 ^ 32"
  shows "\<exists>out. InjectTopPair raw k v = Inr out \<and> Unmarshal out = Inr (MMap (ps @ [(MStr k, MStr v)]))"
proof -
  from assms(1) obtain d where d: "decodeValue (reading [] raw) = Inr (MMap ps, d)" and dpos: "dPos d = length raw"
    by (auto simp: Unmarshal_def rbind_Inr NewDecoder_reading split: if_splits)
  obtain hd d1 where hd: "decodeHead (reading [] raw) = Inr (hd, d1)" using d by (auto simp: decodeValue.simps rbind_Inr)
  with d decodeHead_scalar [of "[]" raw ps] obtain n where head: "decodeHead (reading [] raw) = Inr (MapOf n, d1)"
    and m: "decodeMap n d1 = Inr (ps, d)"
    by (cases hd) (auto simp: decodeValue.simps rbind_Inr)
  from map_head [OF head] obtain hdr where hdr: "mapCountAndHeaderLen raw = Some (n, hdr)" "hdr \<le> length raw"
      "d1 = reading (take hdr raw) (drop hdr raw)"
      "hdr = 1 \<and> n \<le> 15 \<or> hdr = 3 \<and> n \<le> 0xffff \<or> hdr = 5 \<and> n < 2 ^ 32" .
  have n: "n = length ps" using decode_encodable(3) [OF m] by simp
  then obtain h where h: "grownHeader n hdr = Inr h"
    "\<And>r. decodeHead (reading [] (h @ r)) = Inr (MapOf (Suc n), reading h r)"
    using grown_head [of hdr n] hdr(4) assms(2) by auto
  have p: "parses (decodeMap n) (take hdr raw) (drop hdr raw)" by (rule parses_decode(3)) (rule refl)
  obtain x r' where x: "drop hdr raw = x @ r'" "d = reading (take hdr raw @ x) r'"
    "\<And>a2 r2. decodeMap n (reading a2 (x @ r2)) = Inr (ps, reading (a2 @ x) r2)"
    using parses_result [OF p m [unfolded hdr(3)]] by blast
  have "length raw = length (take hdr raw @ x)" using dpos by (simp add: x(2)) (simp add: reading_def)
  then have "length (drop hdr raw) = length x" using hdr(2) by simp
  then have r': "r' = []" using x(1) by simp
  let ?e = "encodeStr k @ encodeStr v"
  have "decodeValue (reading a (encodeStr s @ r)) = Inr (MStr s, reading (a @ encodeStr s) r)" if "length s < 2 ^ 32" for a s r
    using decodeValue_Encode [of "MStr s" a r] that by simp
  from this [of k "h @ x" "encodeStr v"] this [of v "h @ x @ encodeStr k" "[]"]
  have "decodeMap 1 (reading (h @ x) ?e) = Inr ([(MStr k, MStr v)], reading (h @ x @ ?e) [])"
    using assms(3,4) by simp
  from decodeMap_append [OF x(3) [of h ?e] this] h(2) [of "x @ ?e"]
  have "Unmarshal (h @ x @ ?e) = Inr (MMap (ps @ [(MStr k, MStr v)]))"
    by (simp add: Unmarshal_def NewDecoder_reading decodeValue.simps) (simp add: reading_def)
  moreover have "InjectTopPair raw k v = Inr (h @ x @ ?e)"
    using hdr(1) h(1) x(1) r' by (simp add: InjectTopPair_def scanEncodeStr_eq)
  ultimately show ?thesis by blast
qed

theorem InjectTopPair_appends_witness:
  "\<exists>out. InjectTopPair [0x81, 0xa1, 0x61, 0x05] ''id'' ''7'' = Inr out \<and>
     Unmarshal out = Inr (MMap ([(MStr ''a'', MInt 5)] @ [(MStr ''id'', MStr ''7'')]))"
proof -
  have "Unmarshal [0x81, 0xa1, 0x61, 0x05] = Inr (MMap [(MStr ''a'', MInt 5)])" by code_simp
  from InjectTopPair_appends [OF this, of "''id''" "''7''"] show ?thesis by simp
qed

end
