(* ===== verification/Wire.thy ===== *)
theory Wire
  imports Sexpr Msgpack
begin

text \<open>
  The wire form of S-expressions, \<^verbatim>\<open>src/go/internal/sexpr/sexpr.go\<close>: programs travel as MessagePack values, symbols
  and keywords as extensions 5 and 6. A program that is nested at most 64 levels deep is read back as it was sent;
  a deeper one is refused.
\<close>

section \<open>Encoding\<close>

fun encodeWire :: "expr \<Rightarrow> bytes result" and encodeWires :: "expr list \<Rightarrow> bytes result" where
  "encodeWire (SInt x) = Inr (Encode (MInt x))"
| "encodeWire (SFloat x) = Inr (Encode (MFloat x))"
| "encodeWire (SStr x) = Inr (Encode (MStr x))"
| "encodeWire (SBool x) = Inr (Encode (MBool x))"
| "encodeWire SVoid = Inr (Encode MNil)"
| "encodeWire (SSymbol x) = Inr (Encode (MExt ExtSymbol (bytes_of x)))"
| "encodeWire (SKeyword x) = Inr (Encode (MExt ExtKeyword (bytes_of x)))"
| "encodeWire (SBytes x) = Inr (Encode (MBin x))"
| "encodeWire (SList xs) = rbind (encodeWires xs) (\<lambda>b. Inr (EncodeArrayHeader (length xs) @ b))"
| "encodeWire (SResource r) = Inl (Panic ''sexpr: cannot encode sResource on the wire'')"
| "encodeWires [] = Inr []"
| "encodeWires (x # xs) = rbind (encodeWire x) (\<lambda>b. rbind (encodeWires xs) (\<lambda>c. Inr (b @ c)))"

definition ToWire :: "expr \<Rightarrow> bytes result" where
  "ToWire e = encodeWire e"

section \<open>Decoding\<close>

definition MaxWireDepth :: nat where [simp]: "MaxWireDepth = 64"

fun wireFromValue :: "Value \<Rightarrow> nat \<Rightarrow> expr result" and wireFromValues :: "Value list \<Rightarrow> nat \<Rightarrow> expr list result" where
  "wireFromValue v depth =
     (if depth > MaxWireDepth then Inl (Error ''wire node nesting deeper than 64'')
      else case v of
        MInt x \<Rightarrow> Inr (SInt x)
      | MFloat x \<Rightarrow> Inr (SFloat x)
      | MStr x \<Rightarrow> Inr (SStr x)
      | MBool x \<Rightarrow> Inr (SBool x)
      | MNil \<Rightarrow> Inr SVoid
      | MBin x \<Rightarrow> Inr (SBytes x)
      | MArray xs \<Rightarrow> rbind (wireFromValues xs (depth + 1)) (\<lambda>es. Inr (SList es))
      | MExt ty data \<Rightarrow>
          if ty = ExtSymbol then Inr (SSymbol (string_of data))
          else if ty = ExtKeyword then Inr (SKeyword (string_of data))
          else Inl (Error ''unknown ext type in wire program'')
      | MMap ps \<Rightarrow> Inl (Error ''maps are not allowed inside a wire program'')
      | MRaw b \<Rightarrow> Inl (Error ''unexpected value in wire program''))"
| "wireFromValues [] depth = Inr []"
| "wireFromValues (v # vs) depth =
     rbind (wireFromValue v depth) (\<lambda>e. rbind (wireFromValues vs depth) (\<lambda>es. Inr (e # es)))"

definition UnmarshalWire :: "bytes \<Rightarrow> expr result" where
  "UnmarshalWire data = rbind (Unmarshal data) (\<lambda>v. wireFromValue v 0)"

text \<open>The form of result rows: symbols and keywords become strings, a resource becomes nil.\<close>

fun ToPlainValue :: "expr \<Rightarrow> Value" where
  "ToPlainValue (SInt x) = MInt x"
| "ToPlainValue (SFloat x) = MFloat x"
| "ToPlainValue (SStr x) = MStr x"
| "ToPlainValue (SSymbol x) = MStr x"
| "ToPlainValue (SKeyword x) = MStr x"
| "ToPlainValue (SBool x) = MBool x"
| "ToPlainValue (SBytes x) = MBin x"
| "ToPlainValue SVoid = MNil"
| "ToPlainValue (SList xs) = MArray (map ToPlainValue xs)"
| "ToPlainValue (SResource r) = MNil"

section \<open>Round trip\<close>

text \<open>Programs that can be sent: no resource, 32-bit lengths. \<open>nesting\<close> counts the lists around the deepest node.\<close>

fun sendable :: "expr \<Rightarrow> bool" where
  "sendable (SStr x) = (length x < 2 ^ 32)"
| "sendable (SSymbol x) = (length x < 2 ^ 32)"
| "sendable (SKeyword x) = (length x < 2 ^ 32)"
| "sendable (SBytes x) = (length x < 2 ^ 32)"
| "sendable (SList xs) = (length xs < 2 ^ 32 \<and> list_all sendable xs)"
| "sendable (SResource r) = False"
| "sendable _ = True"

fun nesting :: "expr \<Rightarrow> nat" where
  "nesting (SList xs) = fold max (map (\<lambda>e. Suc (nesting e)) xs) 0"
| "nesting _ = 0"

fun wireValue :: "expr \<Rightarrow> Value" where
  "wireValue (SSymbol x) = MExt ExtSymbol (bytes_of x)"
| "wireValue (SKeyword x) = MExt ExtKeyword (bytes_of x)"
| "wireValue (SList xs) = MArray (map wireValue xs)"
| "wireValue e = ToPlainValue e"

lemma encodeWire_value:
  "sendable e \<Longrightarrow> encodeWire e = Inr (Encode (wireValue e)) \<and> encodable (wireValue e)"
  "list_all sendable es \<Longrightarrow> encodeWires es = Inr (concat (map (\<lambda>e. Encode (wireValue e)) es)) \<and> list_all encodable (map wireValue es)"
  by (induction e and es rule: encodeWire_encodeWires.induct) (simp_all add: comp_def)

lemma fold_max_le: "fold max xs (a :: nat) \<le> n \<longleftrightarrow> a \<le> n \<and> (\<forall>x \<in> set xs. x \<le> n)"
  by (induction xs arbitrary: a) auto

declare wireFromValue.simps [simp del]

lemma wireFromValue_value:
  "sendable e \<Longrightarrow> depth \<le> 64 \<Longrightarrow> wireFromValue (wireValue e) depth
     = (if depth + nesting e \<le> 64 then Inr e else Inl (Error ''wire node nesting deeper than 64''))"
  "list_all sendable es \<Longrightarrow> wireFromValues (map wireValue es) depth
     = (if \<forall>e \<in> set es. depth + nesting e \<le> 64 then Inr es else Inl (Error ''wire node nesting deeper than 64''))"
proof (induction e and es arbitrary: depth and depth rule: encodeWire_encodeWires.induct)
  case (9 xs)
  have "depth + nesting (SList xs) \<le> 64 \<longleftrightarrow> nesting (SList xs) \<le> 64 - depth" using 9 by auto
  also have "\<dots> \<longleftrightarrow> (\<forall>e \<in> set xs. depth + 1 + nesting e \<le> 64)" using 9 by (auto simp: fold_max_le)
  finally show ?case using 9 by (simp add: wireFromValue.simps del: nesting.simps)
next
  case (12 x xs)
  show ?case
  proof (cases "depth \<le> 64")
    case True
    with 12 encodeWire_value(1) [of x] show ?thesis by auto
  next
    case False
    then show ?thesis by (auto simp: wireFromValue.simps)
  qed
qed (simp_all add: wireFromValue.simps)

lemma UnmarshalWire_ToWire_eq:
  assumes "sendable e"
  shows "\<exists>b. ToWire e = Inr b \<and> UnmarshalWire b
    = (if nesting e \<le> 64 then Inr e else Inl (Error ''wire node nesting deeper than 64''))"
  using encodeWire_value(1) [OF assms] wireFromValue_value(1) [OF assms, of 0]
  by (simp add: ToWire_def UnmarshalWire_def Unmarshal_Encode)

text \<open>C23. A program without resources and with 32-bit lengths is sent, and the receiver reads back the same program
  when it is nested at most 64 lists deep, and refuses it when it is deeper.\<close>

theorem UnmarshalWire_ToWire:
  assumes "sendable e"
  shows "\<exists>b. ToWire e = Inr b \<and> UnmarshalWire b
    = (if nesting e \<le> 64 then Inr e else Inl (Error ''wire node nesting deeper than 64''))"
  using assms by (rule UnmarshalWire_ToWire_eq)

theorem UnmarshalWire_ToWire_witness:
  "\<exists>b. ToWire (SList [SSymbol ''+'', SInt 1, SList []]) = Inr b \<and>
     UnmarshalWire b = Inr (SList [SSymbol ''+'', SInt 1, SList []])"
  using UnmarshalWire_ToWire [of "SList [SSymbol ''+'', SInt 1, SList []]"] by simp

section \<open>What the receiver accepts\<close>

lemma wireFromValue_result:
  "wireFromValue v depth = Inr e \<Longrightarrow> encodable v \<Longrightarrow> sendable e \<and> wireValue e = v \<and> depth + nesting e \<le> 64"
  "wireFromValues vs depth = Inr es \<Longrightarrow> list_all encodable vs \<Longrightarrow>
     list_all sendable es \<and> map wireValue es = vs \<and> (\<forall>e \<in> set es. depth + nesting e \<le> 64)"
proof (induction v depth and vs depth arbitrary: e and es rule: wireFromValue_wireFromValues.induct)
  case (1 v depth)
  then have d: "depth \<le> 64" by (auto simp: wireFromValue.simps split: if_splits)
  show ?case
  proof (cases v)
    case (MArray xs)
    with 1 d obtain es where e: "e = SList es" "wireFromValues xs (depth + 1) = Inr es"
      by (auto simp: wireFromValue.simps rbind_Inr)
    have "list_all encodable xs" using \<open>encodable v\<close> MArray by simp
    from "1.IH" [OF _ MArray e(2) this] d have es: "list_all sendable es" "map wireValue es = xs"
      "\<forall>e \<in> set es. depth + 1 + nesting e \<le> 64" by simp_all
    have "depth + nesting (SList es) \<le> 64 \<longleftrightarrow> nesting (SList es) \<le> 64 - depth" using d by auto
    also have "\<dots>" using es(3) by (auto simp: fold_max_le)
    finally have "depth + nesting (SList es) \<le> 64" .
    moreover have "length es < 2 ^ 32" using \<open>encodable v\<close> MArray es(2) by auto
    ultimately show ?thesis using es(1,2) e(1) MArray by (simp del: nesting.simps)
  qed (use 1 d in \<open>auto simp: wireFromValue.simps split: if_splits\<close>)
qed (auto simp: rbind_Inr)

text \<open>C24. Whatever the receiver accepts is a program of the sender: it has no resource, it is at most 64 lists deep,
  and sending it again gives the same program.\<close>

theorem UnmarshalWire_program:
  assumes "UnmarshalWire data = Inr e"
  shows "sendable e \<and> nesting e \<le> 64 \<and> (\<exists>b. ToWire e = Inr b \<and> UnmarshalWire b = Inr e)"
proof -
  from assms obtain v where v: "Unmarshal data = Inr v" "wireFromValue v 0 = Inr e"
    by (auto simp: UnmarshalWire_def rbind_Inr)
  from v(1) have "encodable v"
    by (auto simp: Unmarshal_def rbind_Inr split: if_splits dest: decode_encodable(1))
  from wireFromValue_result(1) [OF v(2) this] have e: "sendable e" "nesting e \<le> 64" by auto
  with UnmarshalWire_ToWire_eq [OF e(1)] show ?thesis by simp
qed

theorem UnmarshalWire_program_witness:
  "sendable (SList [SKeyword ''a'', SVoid]) \<and> nesting (SList [SKeyword ''a'', SVoid]) \<le> 64 \<and>
     (\<exists>b. ToWire (SList [SKeyword ''a'', SVoid]) = Inr b \<and> UnmarshalWire b = Inr (SList [SKeyword ''a'', SVoid]))"
proof -
  have "UnmarshalWire [0x92, 0xc7, 0x01, 0x06, 0x61, 0xc0] = Inr (SList [SKeyword ''a'', SVoid])" by code_simp
  then show ?thesis by (rule UnmarshalWire_program)
qed

text \<open>Rows can always be encoded: a plain value has an encoding when the lengths are below \<open>2 ^ 32\<close>.\<close>

lemma ToPlainValue_encodable: "sendable e \<Longrightarrow> encodable (ToPlainValue e)"
  by (induction e) (auto simp: list_all_iff)

end
