(* ===== verification/Edn.thy ===== *)
theory Edn
  imports Decimal
begin

text \<open>
  The EDN reader, \<^verbatim>\<open>src/go/internal/edn/edn.go\<close>: transactions and queries arrive as EDN text. The reader is a
  recursive descent over positions in the text. It ends on every text, and it accepts exactly the texts of the
  grammar \<open>form\<close>, with the value the grammar gives them.
\<close>

section \<open>Values and characters\<close>

datatype ednValue =
    EInt int64
  | EFloat float64
  | EStr string
  | EBool bool
  | ENil
  | EKeyword string
  | ESymbol string
  | EList "ednValue list"

definition isWS :: "char \<Rightarrow> bool" where
  "isWS c \<longleftrightarrow> c = CHR '' '' \<or> c = CHR 0x09 \<or> c = CHR 0x0A \<or> c = CHR 0x0D \<or> c = CHR '',''"

definition skipWS :: "string \<Rightarrow> nat \<Rightarrow> nat" where
  "skipWS s pos = pos + length (takeWhile isWS (drop pos s))"

definition isDelim :: "char \<Rightarrow> bool" where
  "isDelim c \<longleftrightarrow> isWS c \<or> c = CHR ''('' \<or> c = CHR '')'' \<or> c = CHR ''['' \<or> c = CHR '']''
     \<or> c = CHR ''{'' \<or> c = CHR ''}'' \<or> c = CHR 0x22"

definition isDigit :: "char \<Rightarrow> bool" where
  "isDigit c = isDigitChar c"

section \<open>Strings and atoms\<close>

definition unescape :: "char \<Rightarrow> char option" where
  "unescape c =
     (if c = CHR ''n'' then Some (CHR 0x0A)
      else if c = CHR ''t'' then Some (CHR 0x09)
      else if c = CHR ''r'' then Some (CHR 0x0D)
      else if c = CHR 0x22 then Some (CHR 0x22)
      else if c = CHR 0x5C then Some (CHR 0x5C)
      else None)"

text \<open>The loop of \<open>parseString\<close>, from position \<open>i\<close> with the bytes \<open>b\<close> written so far.\<close>

function parseStringFrom :: "string \<Rightarrow> nat \<Rightarrow> string \<Rightarrow> (string \<times> nat) result" where
  "parseStringFrom s i b =
     (if i \<ge> length s then Inl (Error ''edn: unterminated string'')
      else if s ! i = CHR 0x22 then Inr (b, i + 1)
      else if s ! i = CHR 0x5C then
        (if i + 1 \<ge> length s then Inl (Error ''edn: unterminated escape at end of input'')
         else case unescape (s ! (i + 1)) of
             None \<Rightarrow> Inl (Error ''edn: unsupported escape'')
           | Some c \<Rightarrow> parseStringFrom s (i + 2) (b @ [c]))
      else parseStringFrom s (i + 1) (b @ [s ! i]))"
  by pat_completeness auto
termination
  by (relation "measure (\<lambda>(s, i, b). length s - i)") auto

declare parseStringFrom.simps [simp del]

definition parseString :: "string \<Rightarrow> nat \<Rightarrow> (string \<times> nat) result" where
  "parseString s pos = parseStringFrom s (pos + 1) []"

text \<open>
  What a run of non-delimiters denotes. \<open>pf\<close> is \<open>strconv.ParseFloat(atom, 64)\<close>, Go's decimal conversion.
\<close>

definition atomValue :: "(string \<Rightarrow> float64 option) \<Rightarrow> string \<Rightarrow> ednValue result" where
  "atomValue pf atom =
     (if atom = ''nil'' then Inr ENil
      else if atom = ''true'' then Inr (EBool True)
      else if atom = ''false'' then Inr (EBool False)
      else if atom = ''_'' then Inr (ESymbol ''_'')
      else if atom = '':'' then Inl (Error ''edn: bare colon'')
      else if hd atom = CHR '':'' then Inr (EKeyword (tl atom))
      else if isDigit (hd atom)
           \<or> ((hd atom = CHR ''-'' \<or> hd atom = CHR ''+'') \<and> length atom > 1 \<and> isDigit (atom ! 1)) then
        (case ParseInt64 atom of
           Some n \<Rightarrow> Inr (EInt n)
         | None \<Rightarrow> (case pf atom of Some f \<Rightarrow> Inr (EFloat f) | None \<Rightarrow> Inr (ESymbol atom)))
      else if list_ex isDigit atom then
        (case pf atom of Some f \<Rightarrow> Inr (EFloat f) | None \<Rightarrow> Inr (ESymbol atom))
      else Inr (ESymbol atom))"

section \<open>Values\<close>

lemma skipWS_le: "pos \<le> skipWS s pos"
  by (simp add: skipWS_def)

lemma parseStringFrom_bounds: "parseStringFrom s i b = Inr (t, j) \<Longrightarrow> i < j \<and> j \<le> length s"
proof (induction s i b rule: parseStringFrom.induct)
  case (1 s i b)
  show ?case
    using "1.prems" "1.IH" by (subst (asm) parseStringFrom.simps) (fastforce split: if_splits option.splits)
qed

text \<open>\<open>parseItems\<close> is the loop of \<open>parseSeq\<close>, from position \<open>i\<close> on; the items before \<open>i\<close> are its caller's.\<close>

function (sequential)
  parseValue :: "(string \<Rightarrow> float64 option) \<Rightarrow> string \<Rightarrow> nat \<Rightarrow> (ednValue \<times> nat) result" and
  parseItems :: "(string \<Rightarrow> float64 option) \<Rightarrow> string \<Rightarrow> nat \<Rightarrow> char \<Rightarrow> (ednValue list \<times> nat) result" where
  "parseValue pf s pos0 =
     (let pos = skipWS s pos0
      in if pos \<ge> length s then Inl (Error ''edn: unexpected end of input'')
         else if s ! pos = CHR ''['' then rbind (parseItems pf s (pos + 1) (CHR '']'')) (\<lambda>(vs, i). Inr (EList vs, i))
         else if s ! pos = CHR ''('' then rbind (parseItems pf s (pos + 1) (CHR '')'')) (\<lambda>(vs, i). Inr (EList vs, i))
         else if s ! pos = CHR ''{'' then Inl (Error ''edn: maps not supported'')
         else if s ! pos = CHR ''#'' then
           (if pos + 1 < length s \<and> s ! (pos + 1) = CHR ''{'' then Inl (Error ''edn: sets not supported'')
            else Inl (Error ''edn: unsupported dispatch''))
         else if s ! pos = CHR 0x22 then rbind (parseString s pos) (\<lambda>(str, i). Inr (EStr str, i))
         else let atom = takeWhile (\<lambda>c. \<not> isDelim c) (drop pos s); stop = pos + length atom
              in if stop = pos then Inl (Error ''edn: empty atom'')
                 else rbind (atomValue pf atom) (\<lambda>v. Inr (v, stop)))"
| "parseItems pf s i0 close =
     (let i = skipWS s i0
      in if i \<ge> length s then Inl (Error ''edn: unterminated'')
         else if s ! i = close then Inr ([], i + 1)
         else rbind (parseValue pf s i) (\<lambda>(v, next).
                rbind (parseItems pf s next close) (\<lambda>(vs, j). Inr (v # vs, j))))"
  by pat_completeness auto

termination
proof -
  have advances:
    "parseValue_parseItems_dom (Inl (pf, s, pos)) \<Longrightarrow> parseValue pf s pos = Inr (v, j) \<Longrightarrow> pos < j \<and> j \<le> length s"
    "parseValue_parseItems_dom (Inr (pf, s, i, close)) \<Longrightarrow> parseItems pf s i close = Inr (vs, j) \<Longrightarrow> i < j \<and> j \<le> length s"
    for pf s pos v j i close vs
  proof (induction pf s pos and pf s i close arbitrary: v j and vs j rule: parseValue_parseItems.pinduct)
    case (1 pf s pos)
    define p where "p = skipWS s pos"
    define atom where "atom = takeWhile (\<lambda>c. \<not> isDelim c) (drop p s)"
    have p: "pos \<le> p" "p < length s"
      using 1 by (auto simp: p_def skipWS_le parseValue.psimps Let_def split: if_splits)
    have atom: "length atom \<le> length s - p" unfolding atom_def by (metis length_drop length_takeWhile_le)
    have IH: "p + 1 < j \<and> j \<le> length s" if "parseItems pf s (p + 1) c = Inr (vs, j)"
      "c = CHR '']'' \<and> s ! p = CHR ''['' \<or> c = CHR '')'' \<and> s ! p = CHR ''(''" for c vs
      using that 1 p(2) unfolding p_def by (auto simp: Let_def)
    have str: "p + 1 < j \<and> j \<le> length s" if "parseString s p = Inr (t, j)" for t
      using parseStringFrom_bounds that unfolding parseString_def by blast
    have "p < j \<and> j \<le> length s"
    proof (cases "s ! p = CHR ''['' \<or> s ! p = CHR ''(''")
      case True
      then show ?thesis using "1.prems" p(2) IH unfolding parseValue.psimps [OF 1(1)] Let_def p_def [symmetric]
        by (elim disjE) (fastforce simp: rbind_Inr)+
    next
      case False
      show ?thesis using "1.prems" p(2) str atom False
        unfolding parseValue.psimps [OF 1(1)] Let_def p_def [symmetric] atom_def [symmetric]
        by (cases "s ! p = CHR 0x22") (auto simp: rbind_Inr split: if_split_asm dest: str)
    qed
    with p show ?case by linarith
  next
    case (2 pf s i close)
    define p where "p = skipWS s i"
    have p: "i \<le> p" "p < length s"
      using 2 by (auto simp: p_def skipWS_le parseItems.psimps Let_def split: if_splits)
    show ?case
    proof (cases "s ! p = close")
      case True
      then show ?thesis using 2 p by (auto simp: parseItems.psimps Let_def p_def)
    next
      case False
      then obtain v n ws where "parseValue pf s p = Inr (v, n)" "parseItems pf s n close = Inr (ws, j)"
        using 2 p by (auto simp: parseItems.psimps Let_def p_def rbind_Inr split: if_splits)
      with 2 p False have "p < n" "n < j \<and> j \<le> length s" unfolding p_def by auto
      with p show ?thesis by linarith
    qed
  qed
  show ?thesis
  proof (relation "inv_image (less_than <*lex*> less_than)
      (\<lambda>x. case x of Inl (pf, s, pos) \<Rightarrow> (length s - pos, 0)
         | Inr (pf, s, i, c) \<Rightarrow> (length s - i, 1))", goal_cases)
    case 1
    show ?case by (intro wf_inv_image wf_lex_prod wf_less_than)
  next
    case (4 pf s i c x)
    then show ?case using skipWS_le [of i s] by (cases "skipWS s i = i") auto
  next
    case (5 pf s i c x xa xaa y)
    then have "x < y \<and> y \<le> length s" by (auto dest: advances)
    then show ?case using 5 skipWS_le [of i s] by auto
  next
    case (2 pf s pos x)
    then show ?case using skipWS_le [of pos s] by auto
  next
    case (3 pf s pos x)
    then show ?case using skipWS_le [of pos s] by auto
  qed
qed

definition Read :: "(string \<Rightarrow> float64 option) \<Rightarrow> string \<Rightarrow> ednValue result" where
  "Read pf s =
     rbind (parseValue pf s 0) (\<lambda>(v, pos).
       if skipWS s pos \<noteq> length s then Inl (Error ''edn: trailing content'') else Inr v)"

definition ReadVector :: "(string \<Rightarrow> float64 option) \<Rightarrow> string \<Rightarrow> ednValue list result" where
  "ReadVector pf s =
     (let pos = skipWS s 0
      in if pos \<ge> length s \<or> s ! pos \<noteq> CHR ''['' then Inl (Error ''edn: expected tx-data vector, got'')
         else rbind (parseValue pf s pos) (\<lambda>(v, _).
           case v of EList vs \<Rightarrow> Inr vs | _ \<Rightarrow> Inl (Error ''edn: expected tx-data vector'')))"

section \<open>The grammar\<close>

text \<open>The body of a string literal and the text it denotes.\<close>

inductive quoted :: "string \<Rightarrow> string \<Rightarrow> bool" where
  quoted_Nil: "quoted [] []"
| quoted_char: "c \<noteq> CHR 0x22 \<Longrightarrow> c \<noteq> CHR 0x5C \<Longrightarrow> quoted e t \<Longrightarrow> quoted (c # e) (c # t)"
| quoted_escape: "unescape c = Some d \<Longrightarrow> quoted e t \<Longrightarrow> quoted (CHR 0x5C # c # e) (d # t)"

text \<open>
  \<open>form pf f v\<close>: the text \<open>f\<close>, without white space around it, denotes \<open>v\<close>. \<open>items pf w vs\<close>: the text \<open>w\<close> between
  brackets denotes the elements \<open>vs\<close>. An atom ends where the text ends or at a delimiter.
\<close>

definition separated :: "string \<Rightarrow> string \<Rightarrow> bool" where
  "separated f r \<longleftrightarrow> isDelim (last f) \<or> r = [] \<or> isDelim (hd r)"

inductive form :: "(string \<Rightarrow> float64 option) \<Rightarrow> string \<Rightarrow> ednValue \<Rightarrow> bool"
  and items :: "(string \<Rightarrow> float64 option) \<Rightarrow> string \<Rightarrow> ednValue list \<Rightarrow> bool" for pf where
  form_atom: "a \<noteq> [] \<Longrightarrow> list_all (\<lambda>c. \<not> isDelim c) a \<Longrightarrow> hd a \<noteq> CHR ''#'' \<Longrightarrow> atomValue pf a = Inr v \<Longrightarrow> form pf a v"
| form_string: "quoted e t \<Longrightarrow> form pf (CHR 0x22 # e @ [CHR 0x22]) (EStr t)"
| form_vector: "items pf w vs \<Longrightarrow> form pf (CHR ''['' # w @ [CHR '']'']) (EList vs)"
| form_list: "items pf w vs \<Longrightarrow> form pf (CHR ''('' # w @ [CHR '')'']) (EList vs)"
| items_Nil: "list_all isWS w \<Longrightarrow> items pf w []"
| items_Cons: "list_all isWS w \<Longrightarrow> form pf f v \<Longrightarrow> separated f r \<Longrightarrow> items pf r vs \<Longrightarrow> items pf (w @ f @ r) (v # vs)"

definition denotes :: "(string \<Rightarrow> float64 option) \<Rightarrow> string \<Rightarrow> ednValue \<Rightarrow> bool" where
  "denotes pf s v \<longleftrightarrow> (\<exists>w f w'. s = w @ f @ w' \<and> list_all isWS w \<and> form pf f v \<and> list_all isWS w')"

section \<open>The reader accepts the grammar\<close>

lemma takeWhile_all: "list_all P w \<Longrightarrow> (r \<noteq> [] \<longrightarrow> \<not> P (hd r)) \<Longrightarrow> takeWhile P (w @ r) = w"
  by (induction w) (auto simp: takeWhile_eq_Nil_iff)

lemma skipWS_at: "list_all isWS w \<Longrightarrow> (r \<noteq> [] \<longrightarrow> \<not> isWS (hd r)) \<Longrightarrow> skipWS (a @ w @ r) (length a) = length a + length w"
  by (simp add: skipWS_def takeWhile_all)

lemma isWS_delims:
  "\<not> isWS (CHR ''['')" "\<not> isWS (CHR '']'')" "\<not> isWS (CHR ''('')" "\<not> isWS (CHR '')'')" "\<not> isWS (CHR 0x22)"
  "isDelim (CHR ''['')" "isDelim (CHR '']'')" "isDelim (CHR ''('')" "isDelim (CHR '')'')" "isDelim (CHR 0x22)"
  "isDelim (CHR ''{'')" "isWS c \<Longrightarrow> isDelim c"
  by (simp_all add: isWS_def isDelim_def)

lemma parseStringFrom_quoted:
  "quoted e t \<Longrightarrow> parseStringFrom (a @ e @ CHR 0x22 # r) (length a) b = Inr (b @ t, length a + length e + 1)"
proof (induction e t arbitrary: a b rule: quoted.induct)
  case quoted_Nil
  then show ?case by (simp add: parseStringFrom.simps)
next
  case (quoted_char c e t)
  from quoted_char.IH [of "a @ [c]" "b @ [c]"] quoted_char.hyps show ?case
    by (subst parseStringFrom.simps) simp
next
  case (quoted_escape c d e t)
  from quoted_escape.IH [of "a @ [CHR 0x5C, c]" "b @ [d]"] quoted_escape.hyps show ?case
    by (subst parseStringFrom.simps) (simp add: nth_append)
qed

lemma form_start: "form pf f v \<Longrightarrow> f \<noteq> [] \<and> \<not> isWS (hd f) \<and> hd f \<noteq> CHR '']'' \<and> hd f \<noteq> CHR '')''"
proof (induction rule: form.cases)
  case (form_atom a v)
  then have "\<not> isDelim (hd a)" by (cases a) auto
  with form_atom show ?case using isWS_delims by metis
qed (simp_all add: isWS_delims)

declare parseValue.simps [simp del] parseItems.simps [simp del]

lemma parse_grammar:
  "form pf f v \<Longrightarrow> separated f r \<Longrightarrow> parseValue pf (a @ f @ r) (length a) = Inr (v, length a + length f)"
  "items pf w vs \<Longrightarrow> c = CHR '']'' \<or> c = CHR '')'' \<Longrightarrow>
     parseItems pf (a @ w @ c # r) (length a) c = Inr (vs, length a + length w + 1)"
proof (induction arbitrary: a r and a r c rule: form_items.inducts)
  case (form_atom x v)
  have "\<not> isDelim (hd x)" using form_atom by (cases x) auto
  then have h: "\<not> isWS (hd x)" "hd x \<noteq> CHR ''[''" "hd x \<noteq> CHR ''(''" "hd x \<noteq> CHR ''{''" "hd x \<noteq> CHR 0x22"
    using isWS_delims by metis+
  have l: "\<not> isDelim (last x)" using form_atom by (simp add: list_all_iff)
  then have "takeWhile (\<lambda>c. \<not> isDelim c) (x @ r) = x"
    using form_atom by (intro takeWhile_all) (auto simp: separated_def)
  moreover have "skipWS (a @ x @ r) (length a) = length a" using skipWS_at [of "[]" "x @ r" a] h form_atom by simp
  moreover have "(a @ x @ r) ! length a = hd x" using form_atom by (cases x) (auto simp: nth_append)
  ultimately show ?case using form_atom h by (simp add: parseValue.simps Let_def)
next
  case (form_string e t)
  have "skipWS (a @ (CHR 0x22 # e @ [CHR 0x22]) @ r) (length a) = length a"
    using skipWS_at [of "[]" "CHR 0x22 # e @ [CHR 0x22] @ r" a] by (simp add: isWS_delims)
  then show ?case using parseStringFrom_quoted [OF form_string.hyps, of "a @ [CHR 0x22]" r "[]"]
    by (simp add: parseValue.simps parseString_def)
next
  case (form_vector w vs)
  have "skipWS (a @ (CHR ''['' # w @ [CHR '']'']) @ r) (length a) = length a"
    using skipWS_at [of "[]" "CHR ''['' # w @ [CHR '']''] @ r" a] by (simp add: isWS_delims)
  moreover have "parseItems pf ((a @ [CHR ''['']) @ w @ CHR '']'' # r) (length (a @ [CHR ''[''])) (CHR '']'')
      = Inr (vs, length (a @ [CHR ''['']) + length w + 1)" by (rule form_vector.IH) simp
  ultimately show ?case by (simp add: parseValue.simps)
next
  case (form_list w vs)
  have "skipWS (a @ (CHR ''('' # w @ [CHR '')'']) @ r) (length a) = length a"
    using skipWS_at [of "[]" "CHR ''('' # w @ [CHR '')''] @ r" a] by (simp add: isWS_delims)
  moreover have "parseItems pf ((a @ [CHR ''('']) @ w @ CHR '')'' # r) (length (a @ [CHR ''(''])) (CHR '')'')
      = Inr (vs, length (a @ [CHR ''('']) + length w + 1)" by (rule form_list.IH) simp
  ultimately show ?case by (simp add: parseValue.simps)
next
  case (items_Nil w)
  have "skipWS (a @ w @ c # r) (length a) = length a + length w"
    using items_Nil isWS_delims by (intro skipWS_at) auto
  then show ?case by (simp add: parseItems.simps)
next
  case (items_Cons w f v r' vs)
  have f: "f \<noteq> []" "\<not> isWS (hd f)" "hd f \<noteq> c" using form_start [OF \<open>form pf f v\<close>] items_Cons.prems by auto
  have sk: "skipWS (a @ (w @ f @ r') @ c # r) (length a) = length (a @ w)"
    using skipWS_at [of w "f @ r' @ c # r" a] items_Cons.hyps(1) f by simp
  have nth: "(a @ (w @ f @ r') @ c # r) ! length (a @ w) = hd f" using f by (cases f) (auto simp: nth_append)
  have "separated f (r' @ c # r)" using items_Cons.hyps items_Cons.prems isWS_delims by (cases r') (auto simp: separated_def)
  then have "parseValue pf ((a @ w) @ f @ r' @ c # r) (length (a @ w)) = Inr (v, length (a @ w) + length f)"
    by (rule items_Cons.IH)
  moreover have "parseItems pf ((a @ w @ f) @ r' @ c # r) (length (a @ w @ f)) c = Inr (vs, length (a @ w @ f) + length r' + 1)"
    using items_Cons.prems by (rule items_Cons.IH)
  ultimately show ?case using sk nth f by (subst parseItems.simps) (simp add: Let_def add.assoc)
qed

section \<open>The reader accepts nothing else\<close>

lemma skipWS_drop: "\<exists>w. list_all isWS w \<and> drop pos s = w @ drop (skipWS s pos) s"
proof -
  have "drop pos s = takeWhile isWS (drop pos s) @ dropWhile isWS (drop pos s)" by simp
  also have "dropWhile isWS (drop pos s) = drop (skipWS s pos) s"
    by (simp add: skipWS_def dropWhile_eq_drop add.commute)
  finally show ?thesis by (metis list_all_iff set_takeWhileD)
qed

lemma parseStringFrom_sound:
  "parseStringFrom s i b = Inr (t, j) \<Longrightarrow> \<exists>e t'. t = b @ t' \<and> quoted e t' \<and> drop i s = e @ CHR 0x22 # drop j s"
proof (induction s i b rule: parseStringFrom.induct)
  case (1 s i b)
  have i: "i < length s" using "1.prems" by (auto simp: parseStringFrom.simps [of s i] split: if_splits)
  consider "s ! i = CHR 0x22" | d where "s ! i = CHR 0x5C" "i + 1 < length s" "unescape (s ! (i + 1)) = Some d"
      "parseStringFrom s (i + 2) (b @ [d]) = Inr (t, j)"
    | "s ! i \<noteq> CHR 0x22" "s ! i \<noteq> CHR 0x5C" "parseStringFrom s (i + 1) (b @ [s ! i]) = Inr (t, j)"
    using "1.prems" i by (auto simp: parseStringFrom.simps [of s i] split: if_splits option.splits)
  then show ?case
  proof cases
    case 1
    then show ?thesis using "1.prems" i quoted_Nil by (auto simp: parseStringFrom.simps [of s i] Cons_nth_drop_Suc [symmetric])
  next
    case 2
    with "1.IH"(1) i obtain e t' where e: "t = (b @ [d]) @ t'" "quoted e t'" "drop (i + 2) s = e @ CHR 0x22 # drop j s" by auto
    have "drop i s = CHR 0x5C # s ! (i + 1) # drop (i + 2) s" using 2 i by (simp add: Cons_nth_drop_Suc [symmetric])
    with e quoted_escape [OF 2(3) e(2)] show ?thesis by auto
  next
    case 3
    with "1.IH"(2) i obtain e t' where e: "t = (b @ [s ! i]) @ t'" "quoted e t'" "drop (i + 1) s = e @ CHR 0x22 # drop j s" by auto
    have "drop i s = s ! i # drop (i + 1) s" using i by (simp add: Cons_nth_drop_Suc)
    with e quoted_char [OF 3(1,2) e(2)] show ?thesis by auto
  qed
qed

lemma parse_sound:
  "parseValue pf s pos = Inr (v, j) \<Longrightarrow>
     \<exists>w f. drop pos s = w @ f @ drop j s \<and> list_all isWS w \<and> form pf f v \<and> separated f (drop j s)"
  "parseItems pf s i c = Inr (vs, j) \<Longrightarrow> \<exists>w. drop i s = w @ c # drop j s \<and> items pf w vs"
proof (induction pf s pos and pf s i c arbitrary: v j and vs j rule: parseValue_parseItems.induct)
  case (1 pf s pos)
  define p where "p = skipWS s pos"
  have p: "p < length s" using 1 by (auto simp: p_def parseValue.simps Let_def split: if_splits)
  have d: "drop p s = s ! p # drop (p + 1) s" using p by (simp add: Cons_nth_drop_Suc)
  have seq: "\<exists>w vs. drop (p + 1) s = w @ c # drop j s \<and> items pf w vs \<and> v = EList vs"
    if "s ! p = CHR ''['' \<and> c = CHR '']'' \<or> s ! p = CHR ''('' \<and> c = CHR '')''" for c
  proof -
    have "\<exists>vs. parseItems pf s (p + 1) c = Inr (vs, j) \<and> v = EList vs"
      using that "1.prems" p by (auto simp: parseValue.simps Let_def p_def [symmetric] rbind_Inr)
    with "1.IH" [of p] that p p_def show ?thesis by auto
  qed
  have "\<exists>f. drop p s = f @ drop j s \<and> form pf f v \<and> separated f (drop j s)"
  proof (cases "s ! p = CHR ''['' \<or> s ! p = CHR ''('' \<or> s ! p = CHR 0x22")
    case True
    then consider "s ! p = CHR ''[''" | "s ! p = CHR ''(''" | "s ! p = CHR 0x22" by blast
    then show ?thesis
    proof cases
      case 1
      with seq [of "CHR '']''"] obtain w vs where "drop (p + 1) s = w @ CHR '']'' # drop j s" "items pf w vs" "v = EList vs" by auto
      with d 1 form_vector show ?thesis
        by (intro exI [of _ "CHR ''['' # w @ [CHR '']'']"]) (auto simp: separated_def isWS_delims)
    next
      case 2
      with seq [of "CHR '')''"] obtain w vs where "drop (p + 1) s = w @ CHR '')'' # drop j s" "items pf w vs" "v = EList vs" by auto
      with d 2 form_list show ?thesis
        by (intro exI [of _ "CHR ''('' # w @ [CHR '')'']"]) (auto simp: separated_def isWS_delims)
    next
      case 3
      then obtain t where t: "parseStringFrom s (p + 1) [] = Inr (t, j)" "v = EStr t"
        using "1.prems" p by (auto simp: parseValue.simps Let_def p_def [symmetric] rbind_Inr parseString_def)
      from parseStringFrom_sound [OF t(1)] obtain e where "quoted e t" "drop (p + 1) s = e @ CHR 0x22 # drop j s" by auto
      with d 3 t(2) form_string show ?thesis
        by (intro exI [of _ "CHR 0x22 # e @ [CHR 0x22]"]) (auto simp: separated_def isWS_delims)
    qed
  next
    case False
    define x where "x = takeWhile (\<lambda>c. \<not> isDelim c) (drop p s)"
    have x: "s ! p \<noteq> CHR ''#''" "x \<noteq> []" "atomValue pf x = Inr v" "j = p + length x"
      using "1.prems" p False by (auto simp: parseValue.simps Let_def p_def [symmetric] x_def [symmetric] rbind_Inr split: if_splits)
    have j: "drop j s = dropWhile (\<lambda>c. \<not> isDelim c) (drop p s)"
      unfolding x(4) x_def by (simp add: dropWhile_eq_drop add.commute)
    have "drop p s = x @ drop j s" unfolding j x_def by simp
    moreover have "form pf x v"
    proof (rule form_atom)
      show "list_all (\<lambda>c. \<not> isDelim c) x" unfolding x_def list_all_iff by (blast dest: set_takeWhileD)
      have "hd x = s ! p" using x(2) d unfolding x_def by (metis list.sel(1) takeWhile.simps(2))
      then show "hd x \<noteq> CHR ''#''" using x(1) by simp
    qed (fact x)+
    moreover have "separated x (drop j s)"
      unfolding separated_def j using hd_dropWhile [of "\<lambda>c. \<not> isDelim c" "drop p s"] by blast
    ultimately show ?thesis by blast
  qed
  with skipWS_drop [of pos s] show ?case unfolding p_def by (metis append_assoc)
next
  case (2 pf s i c)
  define p where "p = skipWS s i"
  have p: "p < length s" using 2 by (auto simp: p_def parseItems.simps Let_def split: if_splits)
  obtain w where w: "list_all isWS w" "drop i s = w @ drop p s" using skipWS_drop [of i s] p_def by blast
  show ?case
  proof (cases "s ! p = c")
    case True
    with 2 p have "vs = []" "j = p + 1" by (auto simp: parseItems.simps Let_def p_def [symmetric])
    with w True p items_Nil [OF w(1)] show ?thesis by (auto simp: Cons_nth_drop_Suc [symmetric])
  next
    case False
    then obtain v n ws where n: "parseValue pf s p = Inr (v, n)" "parseItems pf s n c = Inr (ws, j)" "vs = v # ws"
      using 2 p by (auto simp: parseItems.simps Let_def p_def [symmetric] rbind_Inr)
    from 2 n p False obtain u f where f: "drop p s = u @ f @ drop n s" "list_all isWS u" "form pf f v" "separated f (drop n s)"
      unfolding p_def by force
    from 2 n p False obtain r where r: "drop n s = r @ c # drop j s" "items pf r ws"
      unfolding p_def by force
    have "items pf ((w @ u) @ f @ r) (v # ws)"
      using w(1) f(2-4) r by (intro items_Cons) (auto simp: separated_def hd_append split: if_splits)
    with w(2) f(1) r(1) n(3) show ?thesis by (intro exI [of _ "(w @ u) @ f @ r"]) simp
  qed
qed

lemma skipWS_end: "skipWS s pos = length s \<longleftrightarrow> pos \<le> length s \<and> list_all isWS (drop pos s)"
proof
  assume a: "skipWS s pos = length s"
  then have "length (takeWhile isWS (drop pos s)) = length (drop pos s)" "pos \<le> length s" by (auto simp: skipWS_def)
  then have "takeWhile isWS (drop pos s) = drop pos s"
    by (metis takeWhile_dropWhile_id length_append append_Nil2 length_0_conv add_cancel_left_right)
  with \<open>pos \<le> length s\<close> show "pos \<le> length s \<and> list_all isWS (drop pos s)"
    by (metis list_all_iff takeWhile_eq_all_conv)
next
  assume "pos \<le> length s \<and> list_all isWS (drop pos s)"
  then have "takeWhile isWS (drop pos s) = drop pos s" "pos \<le> length s" by (auto simp: list_all_iff takeWhile_eq_all_conv)
  then show "skipWS s pos = length s" by (simp only: skipWS_def length_drop)
qed

lemma skipWS_skipWS: "skipWS s (skipWS s pos) = skipWS s pos"
proof -
  have "drop (skipWS s pos) s = dropWhile isWS (drop pos s)"
    by (simp add: skipWS_def dropWhile_eq_drop add.commute)
  moreover have "takeWhile isWS (dropWhile isWS xs) = []" for xs by (induction xs) simp_all
  ultimately show ?thesis by (simp add: skipWS_def [of s "skipWS s pos"])
qed

lemma parseValue_skipWS: "parseValue pf s (skipWS s pos) = parseValue pf s pos"
  by (simp add: parseValue.simps [of pf s] skipWS_skipWS)

lemma parseStringFrom_error: "parseStringFrom s i b = Inl e \<Longrightarrow> \<exists>m. e = Error m"
proof (induction s i b rule: parseStringFrom.induct)
  case (1 s i b)
  then show ?case by (subst (asm) (3) parseStringFrom.simps) (fastforce split: if_splits option.splits)
qed

lemma atomValue_error: "atomValue pf a = Inl e \<Longrightarrow> \<exists>m. e = Error m"
  by (auto simp: atomValue_def split: if_splits option.splits)

lemma rbind_Inl: "rbind r f = Inl e \<longleftrightarrow> r = Inl e \<or> (\<exists>x. r = Inr x \<and> f x = Inl e)"
  by (cases r) auto

lemma parse_error:
  "parseValue pf s pos = Inl e \<Longrightarrow> \<exists>m. e = Error m"
  "parseItems pf s i c = Inl e \<Longrightarrow> \<exists>m. e = Error m"
proof (induction pf s pos and pf s i c arbitrary: e and e rule: parseValue_parseItems.induct)
  case (1 pf s pos)
  define p where "p = skipWS s pos"
  have IH: "\<exists>m. e = Error m" if "parseItems pf s (p + 1) c = Inl e" "p < length s"
    "s ! p = CHR ''['' \<and> c = CHR '']'' \<or> s ! p = CHR ''('' \<and> c = CHR '')''" for c
    using that 1 p_def by auto
  show ?case
    using "1.prems" IH unfolding parseValue.simps [of pf s pos] Let_def p_def [symmetric]
    by (auto simp: rbind_Inl parseString_def split: if_split_asm prod.splits
        dest: parseStringFrom_error atomValue_error)
next
  case (2 pf s i c)
  define p where "p = skipWS s i"
  consider "p \<ge> length s" | "p < length s" "s ! p \<noteq> c" using 2 by (force simp: p_def parseItems.simps Let_def)
  then show ?case
  proof cases
    case 1
    with 2 show ?thesis by (auto simp: p_def parseItems.simps Let_def)
  next
    case n: 2
    then consider "parseValue pf s p = Inl e" | v k where "parseValue pf s p = Inr (v, k)" "parseItems pf s k c = Inl e"
      using "2.prems" by (fastforce simp: p_def parseItems.simps [of pf s i] Let_def rbind_Inl)
    then show ?thesis using n 2 unfolding p_def by cases auto
  qed
qed

lemma Read_denotes: "Read pf s = Inr v \<longleftrightarrow> denotes pf s v"
proof
  assume "Read pf s = Inr v"
  then obtain j where j: "parseValue pf s 0 = Inr (v, j)" "skipWS s j = length s"
    by (auto simp: Read_def rbind_Inr split: if_splits)
  from parse_sound(1) [OF j(1)] obtain w f where "s = w @ f @ drop j s" "list_all isWS w" "form pf f v" by auto
  with j(2) show "denotes pf s v" unfolding denotes_def skipWS_end by blast
next
  assume "denotes pf s v"
  then obtain w f w' where s: "s = w @ f @ w'" and w: "list_all isWS w" and f: "form pf f v" and w': "list_all isWS w'"
    unfolding denotes_def by blast
  have "separated f w'" using w' isWS_delims by (cases w') (auto simp: separated_def)
  from parse_grammar(1) [OF f this, of w] have "parseValue pf s (length w) = Inr (v, length (w @ f))" by (simp add: s)
  moreover have "skipWS s 0 = length w" using skipWS_at [of w "f @ w'" "[]"] form_start [OF f] w by (simp add: s)
  ultimately have "parseValue pf s 0 = Inr (v, length (w @ f))" by (metis parseValue_skipWS)
  moreover have "skipWS s (length (w @ f)) = length s" unfolding skipWS_end using w' by (simp add: s)
  ultimately show "Read pf s = Inr v" by (simp add: Read_def)
qed

text \<open>C25. The reader implements its grammar: it returns \<open>v\<close> exactly when the text is a form of \<open>v\<close> with white space
  around it; on every other text it returns an error. It ends on every text, and never panics.\<close>

theorem Read_grammar:
  "(Read pf s = Inr v \<longleftrightarrow> denotes pf s v) \<and> ((\<exists>x. Read pf s = Inr x) \<or> (\<exists>m. Read pf s = Inl (Error m)))"
proof (cases "Read pf s")
  case (Inl e)
  then have "\<exists>m. e = Error m" by (auto simp: Read_def rbind_Inl split: if_splits dest: parse_error)
  with Inl Read_denotes [of pf s v] show ?thesis by auto
qed (use Read_denotes [of pf s v] in auto)

text \<open>\<open>ReadVector\<close> returns the elements of the first vector of the text and ignores everything after it, and
  refuses a text that does not start with a vector.\<close>

theorem ReadVector_first:
  assumes "list_all isWS u"
  shows "items pf w vs \<Longrightarrow> ReadVector pf (u @ CHR ''['' # w @ CHR '']'' # junk) = Inr vs"
    and "r = [] \<or> hd r \<noteq> CHR ''['' \<and> \<not> isWS (hd r) \<Longrightarrow> \<exists>m. ReadVector pf (u @ r) = Inl (Error m)"
proof -
  assume w: "items pf w vs"
  let ?f = "CHR ''['' # w @ [CHR '']'']"
  have "separated ?f junk" by (simp add: separated_def isWS_delims)
  from parse_grammar(1) [OF form_vector [OF w] this, of u]
  have "parseValue pf (u @ CHR ''['' # w @ CHR '']'' # junk) (length u) = Inr (EList vs, length u + length ?f)" by simp
  moreover have "skipWS (u @ CHR ''['' # w @ CHR '']'' # junk) 0 = length u"
    using skipWS_at [of u "CHR ''['' # w @ CHR '']'' # junk" "[]"] assms by (simp add: isWS_delims)
  ultimately show "ReadVector pf (u @ CHR ''['' # w @ CHR '']'' # junk) = Inr vs" by (simp add: ReadVector_def)
next
  assume r: "r = [] \<or> hd r \<noteq> CHR ''['' \<and> \<not> isWS (hd r)"
  then have "skipWS (u @ r) 0 = length u" using skipWS_at [of u r "[]"] assms by auto
  with r show "\<exists>m. ReadVector pf (u @ r) = Inl (Error m)"
    by (cases r) (auto simp: ReadVector_def)
qed

theorem ReadVector_first_witness:
  "ReadVector (\<lambda>_. None) ('' '' @ CHR ''['' # '':a '' @ CHR '']'' # '' junk'') = Inr [EKeyword ''a'']
    \<and> (\<exists>m. ReadVector (\<lambda>_. None) ('' '' @ ''(1)'') = Inl (Error m))"
proof -
  have "form (\<lambda>_. None) '':a'' (EKeyword ''a'')" by (rule form_atom) (simp_all add: isDelim_def isWS_def atomValue_def)
  moreover have "separated '':a'' '' ''" by (simp add: separated_def isDelim_def isWS_def)
  moreover have "items (\<lambda>_. None) '' '' []" by (rule items_Nil) (simp add: isWS_def)
  ultimately have "items (\<lambda>_. None) ([] @ '':a'' @ '' '') [EKeyword ''a'']" by (intro items_Cons) simp_all
  then show ?thesis
    using ReadVector_first(1) [of "'' ''" "\<lambda>_. None" "'':a ''"] ReadVector_first(2) [of "'' ''" "''(1)''" "\<lambda>_. None"]
    by (simp add: isWS_def)
qed

end
