(* ===== verification/Active.thy ===== *)
theory Active
  imports Keys
begin

text \<open>
  Versions of a datom. A key of the index ends in eight bytes: the transaction and, in the lowest bit, whether the
  datom is retracted. Keys that differ only there are versions of one datom; the newest version decides whether
  the datom is active. The loop of \<open>ScanPrefixActive\<close> in \<^verbatim>\<open>src/go/internal/eavt/eavt.go\<close> picks the active datoms from a
  sorted list of keys in one pass from the end; it is shown to return exactly the active ones.
\<close>

unbundle bit_operations_syntax

section \<open>Versions\<close>

definition logical :: "bytes \<Rightarrow> bytes" where
  "logical k = take (length k - 8) k"

definition suffixOf :: "bytes \<Rightarrow> uint64" where
  "suffixOf k = BeUint64 k (length k - 8)"

definition isRetraction :: "bytes \<Rightarrow> bool" where
  "isRetraction k \<longleftrightarrow> suffixOf k AND 1 = 1"

section \<open>The loop\<close>

text \<open>
  The loop over \<open>collected\<close> from its end; \<open>lastPrefix\<close> is the datom of the previous key. Keys come out in the
  order they are visited.
\<close>

fun keepActive :: "bytes list \<Rightarrow> bytes option \<Rightarrow> bytes list" where
  "keepActive [] lastPrefix = []"
| "keepActive (k # ks) lastPrefix =
     (if length k < 8 then keepActive ks lastPrefix
      else if lastPrefix = Some (logical k) then keepActive ks lastPrefix
      else if suffixOf k AND 1 = 0 then k # keepActive ks (Some (logical k))
      else keepActive ks (Some (logical k)))"

definition activeKeys :: "bytes list \<Rightarrow> bytes list" where
  "activeKeys collected = rev (keepActive (rev collected) None)"

section \<open>Keys with a prefix\<close>

lemma prefix_le: "take (length p) k = p \<Longrightarrow> p \<le> (k :: bytes)"
  by (induction p arbitrary: k) (case_tac k, auto)+

lemma prefix_convex: "p \<le> a \<Longrightarrow> a \<le> b \<Longrightarrow> take (length p) b = p \<Longrightarrow> take (length p) a = (p :: bytes)"
proof (induction p arbitrary: a b)
  case (Cons x p)
  then obtain b' where b: "b = x # b'" "take (length p) b' = p" by (cases b) auto
  with Cons.prems obtain a' where "a = x # a'" "p \<le> a'" "a' \<le> b'" by (cases a) auto
  with Cons.IH b show ?case by simp
qed simp

lemma takeWhile_prefix:
  assumes "ascending ks" "\<forall>k \<in> set ks. p \<le> k"
  shows "takeWhile (\<lambda>k. take (length p) k = p) ks = filter (\<lambda>k. take (length p) k = (p :: bytes)) ks"
  using assms
proof (induction ks)
  case (Cons k ks)
  show ?case
  proof (cases "take (length p) k = p")
    case False
    have "take (length p) y \<noteq> p" if "y \<in> set ks" for y
    proof
      assume "take (length p) y = p"
      then have "take (length p) k = p" using Cons.prems that by (intro prefix_convex [of p k y]) auto
      with False show False ..
    qed
    with False show ?thesis by simp
  qed (use Cons in simp)
qed simp

text \<open>Reading on from the first key at or after a prefix up to the first key without it finds all keys with the prefix.\<close>

lemma seek_takeWhile_prefix:
  assumes "ascending ks"
  shows "takeWhile (\<lambda>k. take (length p) k = p) (dropWhile (\<lambda>k. k < p) ks) = filter (\<lambda>k. take (length p) k = (p :: bytes)) ks"
proof -
  let ?d = "dropWhile (\<lambda>k. k < p) ks"
  have "sorted_wrt (<) (takeWhile (\<lambda>k. k < p) ks @ ?d)" using assms by simp
  then have a: "ascending ?d" by (simp only: sorted_wrt_append)
  have "\<forall>k \<in> set ?d. p \<le> k"
  proof (cases ?d)
    case (Cons k d)
    then have "\<not> k < p" using hd_dropWhile [of "\<lambda>k. k < p" ks] by (metis list.sel(1) list.simps(3))
    with a Cons show ?thesis by (fastforce simp: not_less)
  next
    case Nil
    show ?thesis unfolding Nil by simp
  qed
  from takeWhile_prefix [OF a this]
  have "takeWhile (\<lambda>k. take (length p) k = p) ?d = filter (\<lambda>k. take (length p) k = p) ?d" .
  also have "\<dots> = filter (\<lambda>k. take (length p) k = p) (takeWhile (\<lambda>k. k < p) ks @ ?d)"
  proof -
    have "filter (\<lambda>k. take (length p) k = p) (takeWhile (\<lambda>k. k < p) ks) = []"
      unfolding filter_empty_conv using prefix_le [of p] by (meson set_takeWhileD not_le)
    then show ?thesis by (simp only: filter_append append_Nil)
  qed
  finally show ?thesis by simp
qed

section \<open>Active datoms\<close>

text \<open>The newest version of a datom in a set of keys, if it is no retraction.\<close>

definition active :: "bytes set \<Rightarrow> bytes \<Rightarrow> bool" where
  "active K k \<longleftrightarrow> k \<in> K \<and> 8 \<le> length k \<and> \<not> isRetraction k
     \<and> (\<forall>k' \<in> K. 8 \<le> length k' \<and> logical k' = logical k \<longrightarrow> k' \<le> k)"

text \<open>
  Byte order of the keys is the order of the datoms: no datom lies between two versions of another. The index
  encodings have this property.
\<close>

definition uniform :: "bytes set \<Rightarrow> bool" where
  "uniform K \<longleftrightarrow> (\<forall>a \<in> K. \<forall>b \<in> K. 8 \<le> length a \<longrightarrow> 8 \<le> length b \<longrightarrow> logical a < logical b \<longrightarrow> a < b)"

lemma uniform_mono: "uniform K \<Longrightarrow> L \<subseteq> K \<Longrightarrow> uniform L"
  by (auto simp: uniform_def)

lemma uniform_le: "uniform K \<Longrightarrow> a \<in> K \<Longrightarrow> b \<in> K \<Longrightarrow> 8 \<le> length a \<Longrightarrow> 8 \<le> length b \<Longrightarrow> a \<le> b \<Longrightarrow> logical a \<le> logical b"
  unfolding uniform_def by (metis leD leI)

lemma suffix_bit: "suffixOf k AND 1 = 0 \<longleftrightarrow> \<not> isRetraction k"
  by (simp add: isRetraction_def and_one_eq odd_iff_mod_2_eq_one)

text \<open>The keys already visited are the keys \<open>S\<close> after those of \<open>ks\<close>; \<open>lastPrefix\<close> is the datom of the first of them.\<close>

definition visited :: "bytes set \<Rightarrow> bytes option \<Rightarrow> bool" where
  "visited S l \<longleftrightarrow> (case l of
       None \<Rightarrow> \<forall>s \<in> S. length s < 8
     | Some p \<Rightarrow> \<exists>s \<in> S. 8 \<le> length s \<and> p = logical s \<and> (\<forall>s' \<in> S. 8 \<le> length s' \<longrightarrow> s \<le> s'))"

lemma visited_short: "visited S l \<Longrightarrow> length k < 8 \<Longrightarrow> visited (insert k S) l"
  by (auto simp: visited_def split: option.splits)

lemma visited_long: "8 \<le> length k \<Longrightarrow> (\<And>s. s \<in> S \<Longrightarrow> k < s) \<Longrightarrow> visited (insert k S) (Some (logical k))"
  unfolding visited_def by (auto intro!: bexI [of _ k] less_imp_le)

lemma visited_decides:
  assumes "visited S l" "uniform (insert k S)" "8 \<le> length k" "\<And>s. s \<in> S \<Longrightarrow> k < s"
  shows "l = Some (logical k) \<longleftrightarrow> (\<exists>s \<in> S. 8 \<le> length s \<and> logical s = logical k)"
proof
  assume "l = Some (logical k)"
  then show "\<exists>s \<in> S. 8 \<le> length s \<and> logical s = logical k" using assms(1) by (auto simp: visited_def)
next
  assume "\<exists>s \<in> S. 8 \<le> length s \<and> logical s = logical k"
  then obtain s' where s': "s' \<in> S" "8 \<le> length s'" "logical s' = logical k" by blast
  with assms(1) obtain s where s: "s \<in> S" "8 \<le> length s" "l = Some (logical s)" "s \<le> s'"
    by (cases l) (auto simp: visited_def not_le [symmetric])
  have "logical k \<le> logical s"
    by (rule uniform_le [OF assms(2)]) (use s assms(3) assms(4) [OF s(1)] in auto)
  moreover have "logical s \<le> logical s'"
    by (rule uniform_le [OF assms(2)]) (use s s' in auto)
  ultimately show "l = Some (logical k)" using s' s(3) by simp
qed

lemma keepActive_spec:
  assumes "sorted_wrt (>) ks" "\<And>k s. k \<in> set ks \<Longrightarrow> s \<in> S \<Longrightarrow> k < s" "uniform (set ks \<union> S)" "visited S l"
  shows "keepActive ks l = filter (active (set ks \<union> S)) ks"
  using assms
proof (induction ks arbitrary: S l)
  case (Cons k ks)
  let ?U = "set (k # ks) \<union> S"
  have U: "set ks \<union> insert k S = ?U" by auto
  have IH: "keepActive ks l' = filter (active ?U) ks" if "visited (insert k S) l'" for l'
    using Cons.IH [of "insert k S" l'] Cons.prems that U by auto
  have k: "\<And>s. s \<in> S \<Longrightarrow> k < s" using Cons.prems(2) by simp
  have below: "\<And>x. x \<in> set ks \<Longrightarrow> x < k" using Cons.prems(1) by simp
  show ?case
  proof (cases "length k < 8")
    case True
    then have "\<not> active ?U k" by (simp add: active_def)
    with True show ?thesis using IH [OF visited_short [OF Cons.prems(4) True]] by simp
  next
    case False
    have "uniform (insert k S)" using Cons.prems(3) by (rule uniform_mono) auto
    then have d: "l = Some (logical k) \<longleftrightarrow> (\<exists>s \<in> S. 8 \<le> length s \<and> logical s = logical k)"
      using visited_decides [OF Cons.prems(4)] False k by simp
    have "active ?U k \<longleftrightarrow> \<not> isRetraction k \<and> l \<noteq> Some (logical k)"
      unfolding d active_def using False k [unfolded not_le [symmetric]] below [THEN less_imp_le] by auto
    then show ?thesis using IH [OF visited_long] False k suffix_bit [of k] by simp
  qed
qed simp

lemma activeKeys_filter:
  assumes "ascending ks" "uniform (set ks)"
  shows "activeKeys ks = filter (active (set ks)) ks"
proof -
  have "sorted_wrt (>) (rev ks)" using assms(1) by (simp add: sorted_wrt_rev)
  then have "keepActive (rev ks) None = filter (active (set (rev ks) \<union> {})) (rev ks)"
    using assms(2) by (intro keepActive_spec) (auto simp: visited_def)
  then show ?thesis by (simp add: activeKeys_def rev_filter)
qed

text \<open>The loop of \<open>ScanPrefixActive\<close> is exact: on an ascending list of keys it returns, in order, the newest version
  of every datom whose newest version is no retraction, and nothing else.\<close>

theorem activeKeys_exact:
  assumes "ascending ks" "uniform (set ks)"
  shows "activeKeys ks = filter (active (set ks)) ks"
  using assms by (rule activeKeys_filter)

theorem activeKeys_exact_witness:
  "activeKeys [[7, 0, 0, 0, 0, 0, 0, 0, 2], [7, 0, 0, 0, 0, 0, 0, 0, 4], [9, 0, 0, 0, 0, 0, 0, 0, 2], [9, 0, 0, 0, 0, 0, 0, 0, 3]]
    = [[7, 0, 0, 0, 0, 0, 0, 0, 4]]"
proof -
  let ?ks = "[[7, 0, 0, 0, 0, 0, 0, 0, 2], [7, 0, 0, 0, 0, 0, 0, 0, 4], [9, 0, 0, 0, 0, 0, 0, 0, 2], [9, 0, 0, 0, 0, 0, 0, 0, 3]] :: bytes list"
  have "ascending ?ks" "uniform (set ?ks)" by (simp_all add: uniform_def logical_def)
  from activeKeys_exact [OF this] show ?thesis
    by (simp add: active_def isRetraction_def suffixOf_def logical_def BeUint64_def get_be_def slice_def)
qed

end
