(* ===== verification/Hydrated.thy ===== *)
theory Hydrated
  imports Active "HOL-Library.AList"
begin

text \<open>
  The cache of hydrated entities, \<^verbatim>\<open>src/go/internal/hydrated/hydrated.go\<close>. An entry holds all active CF-0 keys of one
  entity in a flat buffer with the offsets of the keys; the write path applies every new key to it. The flat
  operations implement insertion, replacement and removal in a list of keys, and as long as each write is the
  newest version of its datom the entry holds exactly the active keys of the entity.
\<close>

unbundle bit_operations_syntax

section \<open>Entries\<close>

text \<open>
  An offset is an \<^verbatim>\<open>int32\<close> in the source and a natural number here. The two agree as long as the buffer of the entry has
  less than \<open>2\<^sup>3\<^sup>1\<close> bytes; past that the source's offsets wrap to negative numbers and the next access panics. The runs
  \<open>caches\<close> below keep to such buffers (\<open>fits32\<close>), and \<open>caches_offsets\<close> shows that there every offset is its own \<^verbatim>\<open>int32\<close>.
\<close>

record hentry =
  heBuf :: bytes
  heOffs :: "nat list"
  heBytes :: int

definition keyStart :: "hentry \<Rightarrow> nat \<Rightarrow> nat" where
  "keyStart e i = heOffs e ! i"

definition keyEnd :: "hentry \<Rightarrow> nat \<Rightarrow> nat" where
  "keyEnd e i = (if i + 1 < length (heOffs e) then heOffs e ! (i + 1) else length (heBuf e))"

definition keyLenAt :: "hentry \<Rightarrow> nat \<Rightarrow> nat" where
  "keyLenAt e i = keyEnd e i - keyStart e i"

definition keyAt :: "hentry \<Rightarrow> nat \<Rightarrow> bytes" where
  "keyAt e i = slice (heBuf e) (keyStart e i) (keyEnd e i)"

definition cmpFullAt :: "hentry \<Rightarrow> nat \<Rightarrow> bytes \<Rightarrow> int" where
  "cmpFullAt e i key = cmp_loop (keyAt e i) key"

text \<open>Compares without the last eight bytes of both keys; the key searched for has at least eight.\<close>

definition cmpPrefixAt :: "hentry \<Rightarrow> nat \<Rightarrow> bytes \<Rightarrow> int" where
  "cmpPrefixAt e i key = cmp_loop (take (keyLenAt e i - 8) (keyAt e i)) (take (length key - 8) key)"

definition findKeyPos :: "hentry \<Rightarrow> bytes \<Rightarrow> nat option" where
  "findKeyPos e key =
     (let lo = bsearch (\<lambda>mid. cmpPrefixAt e mid key < 0) 0 (length (heOffs e))
      in if lo < length (heOffs e) \<and> cmpPrefixAt e lo key = 0 then Some lo else None)"

text \<open>\<open>copy(dst[at:], src)\<close>: as many bytes as fit; the source is read before the destination is written.\<close>

definition blit :: "bytes \<Rightarrow> nat \<Rightarrow> bytes \<Rightarrow> bytes" where
  "blit dst at src = take at dst @ take (length dst - at) src @ drop (at + length src) dst"

definition shiftFrom :: "nat \<Rightarrow> (nat \<Rightarrow> nat) \<Rightarrow> nat list \<Rightarrow> nat list" where
  "shiftFrom j f offs = take j offs @ map f (drop j offs)"

definition replaceKeyAt :: "nat \<Rightarrow> bytes \<Rightarrow> hentry \<Rightarrow> hentry" where
  "replaceKeyAt pos key e =
     (let start = keyStart e pos; next = keyEnd e pos; old = next - start; n = length key; buf = heBuf e;
          e1 = (if n \<noteq> old then
                  let tail = length buf - next;
                      buf1 = (if n > old then buf @ replicate (n - old) 0 else buf);
                      buf2 = (if tail > 0 then blit buf1 (next + n - old) (slice buf1 next (next + tail)) else buf1);
                      buf3 = (if n < old then take (length buf2 - (old - n)) buf2 else buf2)
                  in e\<lparr>heBuf := buf3, heOffs := shiftFrom (pos + 1) (\<lambda>o'. o' + n - old) (heOffs e)\<rparr>
                else e)
      in e1\<lparr>heBuf := blit (heBuf e1) start key\<rparr>)"

definition insertKeyAt :: "nat \<Rightarrow> bytes \<Rightarrow> hentry \<Rightarrow> hentry" where
  "insertKeyAt idx key e =
     (let buf = heBuf e; n = length key;
          ins = (if idx < length (heOffs e) then keyStart e idx else length buf);
          buf1 = buf @ replicate n 0;
          tail = length buf1 - ins - n;
          buf2 = (if tail > 0 then blit buf1 (ins + n) (slice buf1 ins (ins + tail)) else buf1)
      in e\<lparr>heBuf := blit buf2 ins key,
           heOffs := take idx (heOffs e) @ ins # map (\<lambda>o'. o' + n) (drop idx (heOffs e))\<rparr>)"

definition removeKeyAt :: "nat \<Rightarrow> hentry \<Rightarrow> nat \<times> hentry" where
  "removeKeyAt pos e =
     (let start = keyStart e pos; next = keyEnd e pos; old = next - start; buf = heBuf e;
          tail = length buf - next;
          buf1 = (if tail > 0 then blit buf start (slice buf next (next + tail)) else buf)
      in (old, e\<lparr>heBuf := take (length buf1 - old) buf1,
                 heOffs := take pos (heOffs e) @ map (\<lambda>o'. o' - old) (drop (pos + 1) (heOffs e))\<rparr>))"

section \<open>The set\<close>

text \<open>
  The doubly linked list between the sentinels is the list of its entities, most recently used first; an entry
  and its list node are one object in the source and share the entity here.
\<close>

record HydSet =
  hIndex :: "(int64 \<times> hentry) list"
  hLru :: "int64 list"
  hMaxBytes :: int
  hCurBytes :: int
  hHits :: int
  hMisses :: int
  hHydrations :: int
  hRejected :: int
  hEvictions :: int

definition NewHydSet :: "int \<Rightarrow> HydSet" where
  "NewHydSet maxBytes = \<lparr>hIndex = [], hLru = [], hMaxBytes = maxBytes, hCurBytes = 0, hHits = 0, hMisses = 0,
     hHydrations = 0, hRejected = 0, hEvictions = 0\<rparr>"

definition hLen :: "HydSet \<Rightarrow> nat" where
  "hLen h = length (hIndex h)"

definition hTouch :: "int64 \<Rightarrow> HydSet \<Rightarrow> HydSet" where
  "hTouch eid h = h\<lparr>hLru := eid # remove1 eid (hLru h)\<rparr>"

section \<open>Reads\<close>

definition hContains :: "int64 \<Rightarrow> HydSet \<Rightarrow> bool" where
  "hContains eid h = (map_of (hIndex h) eid \<noteq> None)"

definition hProbe :: "int64 \<Rightarrow> HydSet \<Rightarrow> bool \<times> HydSet" where
  "hProbe eid h =
     (case map_of (hIndex h) eid of
        Some e \<Rightarrow> (True, (hTouch eid h)\<lparr>hHits := hHits h + 1\<rparr>)
      | None \<Rightarrow> (False, h\<lparr>hMisses := hMisses h + 1\<rparr>))"

definition hProbeComplete :: "int64 \<Rightarrow> HydSet \<Rightarrow> bool \<times> HydSet" where
  "hProbeComplete = hProbe"

definition hEntryBytes :: "int64 \<Rightarrow> HydSet \<Rightarrow> int" where
  "hEntryBytes eid h = (case map_of (hIndex h) eid of Some e \<Rightarrow> heBytes e | None \<Rightarrow> 0)"

definition hKeyCount :: "int64 \<Rightarrow> HydSet \<Rightarrow> nat" where
  "hKeyCount eid h = (case map_of (hIndex h) eid of Some e \<Rightarrow> length (heOffs e) | None \<Rightarrow> 0)"

text \<open>Compares the first twelve bytes of a stored key with a twelve-byte prefix.\<close>

definition cmpAttrAt :: "hentry \<Rightarrow> nat \<Rightarrow> bytes \<Rightarrow> int" where
  "cmpAttrAt e i pfx =
     (let k = keyAt e i; n = min (length k) 12; c = cmp_loop (take n k) (take n pfx)
      in if c \<noteq> 0 then c else if length k < 12 then -1 else 0)"

definition hHasAttrKey :: "int64 \<Rightarrow> uint32 \<Rightarrow> HydSet \<Rightarrow> bool" where
  "hHasAttrKey eid aid h =
     (case map_of (hIndex h) eid of
        None \<Rightarrow> False
      | Some e \<Rightarrow>
          let pfx = EncodeEid eid @ put_be 4 aid;
              lo = bsearch (\<lambda>mid. cmpAttrAt e mid pfx < 0) 0 (length (heOffs e))
          in lo < length (heOffs e) \<and> cmpAttrAt e lo pfx = 0)"

fun rangeFrom :: "bytes list \<Rightarrow> bytes \<Rightarrow> bytes list" where
  "rangeFrom [] pfx = []"
| "rangeFrom (k # ks) pfx =
     (if length k < length pfx then []
      else if take (length pfx) k \<noteq> pfx then []
      else k # rangeFrom ks pfx)"

definition keysFromIndex :: "hentry \<Rightarrow> nat \<Rightarrow> bytes list" where
  "keysFromIndex e lo = map (keyAt e) [lo..<length (heOffs e)]"

definition hLookupRange :: "int64 \<Rightarrow> bytes \<Rightarrow> HydSet \<Rightarrow> bytes list" where
  "hLookupRange eid pfx h =
     (case map_of (hIndex h) eid of
        None \<Rightarrow> []
      | Some e \<Rightarrow>
          let lo = bsearch (\<lambda>mid. cmpFullAt e mid pfx < 0) 0 (length (heOffs e))
          in rangeFrom (keysFromIndex e lo) pfx)"

definition hKeysFrom :: "int64 \<Rightarrow> bytes \<Rightarrow> HydSet \<Rightarrow> bytes list" where
  "hKeysFrom eid target h =
     (case map_of (hIndex h) eid of
        None \<Rightarrow> []
      | Some e \<Rightarrow> keysFromIndex e (bsearch (\<lambda>mid. cmpFullAt e mid target < 0) 0 (length (heOffs e))))"

section \<open>Writes\<close>

text \<open>The loop that walks back from the end to the place of a new key.\<close>

fun insertPos :: "hentry \<Rightarrow> bytes \<Rightarrow> nat \<Rightarrow> nat" where
  "insertPos e key 0 = 0"
| "insertPos e key (Suc i) = (if cmpFullAt e i key > 0 then insertPos e key i else Suc i)"

definition applyEntry :: "bytes \<Rightarrow> hentry \<Rightarrow> int \<times> hentry" where
  "applyEntry key e =
     (let klen = int (length key)
      in if suffixOf key AND 1 = 0 then
           (case findKeyPos e key of
              Some pos \<Rightarrow>
                let delta = klen - int (keyLenAt e pos); e1 = replaceKeyAt pos key e
                in (delta, e1\<lparr>heBytes := heBytes e1 + delta\<rparr>)
            | None \<Rightarrow>
                let e1 = insertKeyAt (insertPos e key (length (heOffs e))) key e
                in (klen, e1\<lparr>heBytes := heBytes e1 + klen\<rparr>))
         else
           (case findKeyPos e key of
              Some pos \<Rightarrow> (case removeKeyAt pos e of (old, e1) \<Rightarrow> (- int old, e1\<lparr>heBytes := heBytes e1 - int old\<rparr>))
            | None \<Rightarrow> (0, e)))"

definition hApplyKey :: "bytes \<Rightarrow> HydSet \<Rightarrow> HydSet" where
  "hApplyKey key h =
     (if length key < 20 then h
      else
        let eid = DecodeEid (BeUint64 key 0)
        in case map_of (hIndex h) eid of
             None \<Rightarrow> h
           | Some e \<Rightarrow>
               (case applyEntry key e of (delta, e1) \<Rightarrow>
                  h\<lparr>hIndex := AList.update eid e1 (hIndex h), hCurBytes := hCurBytes h + delta\<rparr>))"

definition hDrop :: "int64 \<Rightarrow> hentry \<Rightarrow> HydSet \<Rightarrow> HydSet" where
  "hDrop eid e h = h\<lparr>hIndex := AList.delete eid (hIndex h), hLru := remove1 eid (hLru h), hCurBytes := hCurBytes h - heBytes e\<rparr>"

text \<open>A victim is an entry of the index, so its object is at hand.\<close>

function evictLruUntilFits :: "int \<Rightarrow> HydSet \<Rightarrow> HydSet" where
  "evictLruUntilFits incoming h =
     (if hCurBytes h + incoming > hMaxBytes h \<and> hIndex h \<noteq> [] then
        if hLru h = [] then h
        else let victim = last (hLru h)
             in case map_of (hIndex h) victim of
                  Some e \<Rightarrow> evictLruUntilFits incoming ((hDrop victim e h)\<lparr>hEvictions := hEvictions h + 1\<rparr>)
                | None \<Rightarrow> h
      else h)"
  by pat_completeness auto
termination
  by (relation "measure (\<lambda>(i, h). length (hLru h))")
    (auto simp: hDrop_def length_remove1 intro: diff_less split: if_splits)

declare evictLruUntilFits.simps [simp del]

definition hHydrateEmpty :: "int64 \<Rightarrow> HydSet \<Rightarrow> HydSet" where
  "hHydrateEmpty eid h =
     (if hContains eid h then hTouch eid h
      else h\<lparr>hIndex := AList.update eid \<lparr>heBuf = [], heOffs = [], heBytes = 0\<rparr> (hIndex h), hLru := eid # hLru h\<rparr>)"

fun packKeys :: "bytes list \<Rightarrow> hentry \<Rightarrow> hentry" where
  "packKeys [] e = e"
| "packKeys (k # ks) e = packKeys ks (e\<lparr>heOffs := heOffs e @ [length (heBuf e)], heBuf := heBuf e @ k\<rparr>)"

definition hHydrate :: "int64 \<Rightarrow> bytes list \<Rightarrow> HydSet \<Rightarrow> HydSet" where
  "hHydrate eid keys h =
     (if hContains eid h then hTouch eid h
      else
        let total = int (sum_list (map length keys))
        in if total > hMaxBytes h then h\<lparr>hRejected := hRejected h + 1\<rparr>
           else
             let h1 = evictLruUntilFits total h;
                 e = packKeys keys \<lparr>heBuf = [], heOffs = [], heBytes = total\<rparr>
             in h1\<lparr>hIndex := AList.update eid e (hIndex h1), hLru := eid # hLru h1,
                   hCurBytes := hCurBytes h1 + total, hHydrations := hHydrations h1 + 1\<rparr>)"

definition hEvict :: "int64 \<Rightarrow> HydSet \<Rightarrow> HydSet" where
  "hEvict eid h = (case map_of (hIndex h) eid of Some e \<Rightarrow> hDrop eid e h | None \<Rightarrow> h)"

definition hClear :: "HydSet \<Rightarrow> HydSet" where
  "hClear h = h\<lparr>hIndex := [], hLru := [], hCurBytes := 0\<rparr>"

section \<open>Entries as lists of keys\<close>

fun offsetsFrom :: "nat \<Rightarrow> bytes list \<Rightarrow> nat list" where
  "offsetsFrom a [] = []"
| "offsetsFrom a (k # ks) = a # offsetsFrom (a + length k) ks"

definition rep :: "hentry \<Rightarrow> bytes list \<Rightarrow> bool" where
  "rep e ks \<longleftrightarrow> heBuf e = concat ks \<and> heOffs e = offsetsFrom 0 ks"

lemma length_offsetsFrom [simp]: "length (offsetsFrom a ks) = length ks"
  by (induction ks arbitrary: a) simp_all

lemma offsetsFrom_append: "offsetsFrom a (xs @ ys) = offsetsFrom a xs @ offsetsFrom (a + length (concat xs)) ys"
  by (induction xs arbitrary: a) (simp_all add: add.assoc)

lemma offsetsFrom_nth: "i < length ks \<Longrightarrow> offsetsFrom a ks ! i = a + length (concat (take i ks))"
proof (induction ks arbitrary: a i)
  case (Cons k ks)
  then show ?case by (cases i) simp_all
qed simp

lemma offsetsFrom_shift: "map (\<lambda>o'. o' + n) (offsetsFrom a ks) = offsetsFrom (a + n) ks"
  by (induction ks arbitrary: a) (simp_all add: add.commute add.left_commute)

lemma offsetsFrom_unshift: "n \<le> a \<Longrightarrow> map (\<lambda>o'. o' - n) (offsetsFrom a ks) = offsetsFrom (a - n) ks"
  by (induction ks arbitrary: a) simp_all

lemma offsetsFrom_move: "m \<le> a + n \<Longrightarrow> map (\<lambda>o'. o' + n - m) (offsetsFrom a ks) = offsetsFrom (a + n - m) ks"
  by (induction ks arbitrary: a) (simp_all add: add.commute add.left_commute)

lemma rep_split:
  assumes "rep e (xs @ k # ys)"
  shows "keyStart e (length xs) = length (concat xs)" "keyEnd e (length xs) = length (concat xs) + length k"
    "keyAt e (length xs) = k" "keyLenAt e (length xs) = length k"
proof -
  have b: "heBuf e = concat xs @ k @ concat ys" and o: "heOffs e = offsetsFrom 0 (xs @ k # ys)" using assms by (auto simp: rep_def)
  show s: "keyStart e (length xs) = length (concat xs)" by (simp add: keyStart_def o offsetsFrom_nth)
  show n: "keyEnd e (length xs) = length (concat xs) + length k"
    by (cases ys) (simp_all add: keyEnd_def o b offsetsFrom_nth)
  show "keyAt e (length xs) = k" unfolding keyAt_def s n b by (rule slice_mid) simp_all
  show "keyLenAt e (length xs) = length k" by (simp add: keyLenAt_def s n)
qed

lemma rep_nth:
  assumes "rep e ks" "i < length ks"
  shows "keyAt e i = ks ! i" "keyLenAt e i = length (ks ! i)"
proof -
  have "ks = take i ks @ ks ! i # drop (Suc i) ks" using assms(2) by (rule id_take_nth_drop)
  then have "rep e (take i ks @ ks ! i # drop (Suc i) ks)" using assms(1) by simp
  from rep_split [OF this] assms(2) show "keyAt e i = ks ! i" "keyLenAt e i = length (ks ! i)" by simp_all
qed

lemma rep_length: "rep e ks \<Longrightarrow> length (heOffs e) = length ks"
  by (simp add: rep_def)

lemma rep_keys: "rep e ks \<Longrightarrow> map (keyAt e) [0..<length (heOffs e)] = ks"
  by (rule nth_equalityI) (simp_all add: rep_length rep_nth)

lemma blit_mid: "length b = length c \<Longrightarrow> blit (a @ b @ d) (length a) c = a @ c @ d"
  by (simp add: blit_def)

lemma blit_at: "n = length a \<Longrightarrow> length b = length c \<Longrightarrow> blit (a @ b @ d) n c = a @ c @ d"
  by (simp add: blit_mid)

lemma blit_over: "length a \<le> n \<Longrightarrow> length a + length b = n + length c \<Longrightarrow> blit (a @ b) n c = a @ take (n - length a) b @ c"
  by (simp add: blit_def)

lemma rep_replace:
  assumes "rep e (xs @ k # ys)"
  shows "rep (replaceKeyAt (length xs) key e) (xs @ key # ys)"
proof -
  let ?X = "concat xs" and ?Y = "concat ys" and ?n = "length key" and ?o = "length k"
  have b: "heBuf e = ?X @ k @ ?Y" and o: "heOffs e = offsetsFrom 0 xs @ length ?X # offsetsFrom (length ?X + ?o) ys"
    using assms by (auto simp: rep_def offsetsFrom_append)
  note k = rep_split [OF assms]
  have offs: "shiftFrom (Suc (length xs)) (\<lambda>o'. o' + ?n - ?o) (heOffs e) = offsetsFrom 0 (xs @ key # ys)"
    by (simp add: o shiftFrom_def offsetsFrom_append offsetsFrom_move)
  consider "?n = ?o" | "?n > ?o" | "?n < ?o" by linarith
  then show ?thesis
  proof cases
    case 1
    then show ?thesis using b o by (simp add: replaceKeyAt_def k rep_def offsetsFrom_append blit_at)
  next
    case 2
    let ?Z = "take ?n (k @ ?Y @ replicate (?n - ?o) 0)"
    have "blit (?X @ k @ ?Y @ replicate (?n - ?o) 0) (length ?X + ?n) ?Y = ?X @ ?Z @ ?Y"
      using 2 blit_over [of ?X "length ?X + ?n" "k @ ?Y @ replicate (?n - ?o) 0" ?Y] by simp
    moreover have "blit (?X @ ?Z @ ?Y) (length ?X) key = ?X @ key @ ?Y"
      using 2 by (intro blit_at) simp_all
    moreover have "blit (?X @ k @ replicate (?n - ?o) 0) (length ?X) key = ?X @ key"
      using 2 blit_at [of "length ?X" ?X "k @ replicate (?n - ?o) 0" key "[]"] by simp
    ultimately show ?thesis using 2 offs b
      by (cases "?Y = []") (simp_all add: replaceKeyAt_def k rep_def Let_def slice_def del: concat_eq_Nil_conv)
  next
    case 3
    have "take (length ?X + (?o + length ?Y) - (?o - ?n)) (blit (?X @ k @ ?Y) (length ?X + ?n) ?Y) = ?X @ take ?n k @ ?Y"
      using 3 by (simp add: blit_def)
    moreover have "blit (?X @ take ?n k @ ?Y) (length ?X) key = ?X @ key @ ?Y" using 3 by (intro blit_at) simp_all
    moreover have "take (length ?X + ?o - (?o - ?n)) (?X @ k) = ?X @ take ?n k" using 3 by simp
    moreover have "length (blit (?X @ k @ ?Y) (length ?X + ?n) ?Y) = length ?X + (?o + length ?Y)" using 3 by (simp add: blit_def)
    ultimately show ?thesis using 3 offs b
      by (cases "?Y = []") (simp_all add: replaceKeyAt_def k rep_def Let_def slice_def del: concat_eq_Nil_conv)
  qed
qed

lemma rep_insert:
  assumes "rep e (xs @ ys)"
  shows "rep (insertKeyAt (length xs) key e) (xs @ key # ys)"
proof -
  let ?X = "concat xs" and ?Y = "concat ys" and ?n = "length key"
  have b: "heBuf e = ?X @ ?Y" and o: "heOffs e = offsetsFrom 0 xs @ offsetsFrom (length ?X) ys"
    using assms by (auto simp: rep_def offsetsFrom_append)
  have ins: "(if length xs < length (heOffs e) then keyStart e (length xs) else length (?X @ ?Y)) = length ?X"
    using assms by (cases ys) (auto simp: rep_def rep_split(1))
  have "blit (?X @ ?Y @ replicate ?n 0) (length ?X + ?n) ?Y = ?X @ take ?n (?Y @ replicate ?n 0) @ ?Y"
    using blit_over [of ?X "length ?X + ?n" "?Y @ replicate ?n 0" ?Y] by simp
  moreover have "blit (?X @ take ?n (?Y @ replicate ?n 0) @ ?Y) (length ?X) key = ?X @ key @ ?Y" by (intro blit_at) simp_all
  moreover have "blit (?X @ replicate ?n 0) (length ?X) key = ?X @ key" using blit_at [of "length ?X" ?X "replicate ?n 0" key "[]"] by simp
  ultimately have "heBuf (insertKeyAt (length xs) key e) = ?X @ key @ ?Y"
    unfolding insertKeyAt_def Let_def b ins
    by (cases "?Y = []") (simp_all add: slice_def del: concat_eq_Nil_conv)
  moreover have "heOffs (insertKeyAt (length xs) key e) = offsetsFrom 0 (xs @ key # ys)"
    unfolding insertKeyAt_def Let_def b ins by (simp add: o offsetsFrom_append offsetsFrom_shift)
  ultimately show ?thesis by (simp add: rep_def)
qed

lemma rep_remove:
  assumes "rep e (xs @ k # ys)"
  shows "fst (removeKeyAt (length xs) e) = length k" "rep (snd (removeKeyAt (length xs) e)) (xs @ ys)"
proof -
  let ?X = "concat xs" and ?Y = "concat ys" and ?o = "length k"
  have b: "heBuf e = ?X @ k @ ?Y" and o: "heOffs e = offsetsFrom 0 xs @ length ?X # offsetsFrom (length ?X + ?o) ys"
    using assms by (auto simp: rep_def offsetsFrom_append)
  note k = rep_split [OF assms]
  show "fst (removeKeyAt (length xs) e) = length k" by (simp add: removeKeyAt_def k Let_def)
  have "take (length ?X + length ?Y) (blit (?X @ k @ ?Y) (length ?X) ?Y) = ?X @ ?Y" by (simp add: blit_def)
  moreover have "length (blit (?X @ k @ ?Y) (length ?X) ?Y) = length ?X + (?o + length ?Y)" by (simp add: blit_def)
  ultimately show "rep (snd (removeKeyAt (length xs) e)) (xs @ ys)"
    by (cases "?Y = []") (simp_all add: removeKeyAt_def k rep_def Let_def slice_def b o offsetsFrom_append offsetsFrom_unshift
      del: concat_eq_Nil_conv)
qed

lemma rep_bytes:
  "heBytes (replaceKeyAt i key e) = heBytes e" "heBytes (insertKeyAt i key e) = heBytes e"
  "heBytes (snd (removeKeyAt i e)) = heBytes e"
  by (simp_all add: replaceKeyAt_def insertKeyAt_def removeKeyAt_def Let_def)

lemma packKeys_rep: "rep e xs \<Longrightarrow> rep (packKeys ks e) (xs @ ks) \<and> heBytes (packKeys ks e) = heBytes e"
proof (induction ks arbitrary: e xs)
  case (Cons k ks)
  let ?e = "e\<lparr>heOffs := heOffs e @ [length (heBuf e)], heBuf := heBuf e @ k\<rparr>"
  have "rep ?e (xs @ [k])" using Cons.prems by (simp add: rep_def offsetsFrom_append)
  from Cons.IH [OF this] show ?case by simp
qed simp

section \<open>Applying a key to an entry\<close>

text \<open>The effect of \<open>applyEntry\<close> on an ascending list of keys in which every datom has one version.\<close>

lemma findKeyPos_rep:
  assumes "rep e ks" "ascending (map logical ks)"
  shows "findKeyPos e key = (let lo = length (takeWhile (\<lambda>x. logical x < logical key) ks)
    in if lo < length ks \<and> logical (ks ! lo) = logical key then Some lo else None)"
proof -
  have c: "cmpPrefixAt e i key = cmp_loop (logical (ks ! i)) (logical key)" if "i < length ks" for i
    using that by (simp add: cmpPrefixAt_def rep_nth [OF assms(1)] logical_def)
  have "bsearch (\<lambda>mid. cmpPrefixAt e mid key < 0) 0 (length ks) = bsearch (\<lambda>i. logical (ks ! i) < logical key) 0 (length ks)"
    using c by (intro bsearch_cong) (simp add: cmp_simps)
  then show ?thesis
    using bsearch_less_key [OF assms(2), of "logical key"] c
    by (auto simp: findKeyPos_def rep_length [OF assms(1)] Let_def cmp_loop_simps)
qed

lemma insertPos_rep:
  assumes "rep e ks" "ascending ks" "n \<le> length ks"
  shows "insertPos e key n = length (takeWhile (\<lambda>x. x \<le> key) (take n ks))"
  using assms(3)
proof (induction n)
  case (Suc n)
  then have n: "n < length ks" by simp
  have t: "take (Suc n) ks = take n ks @ [ks ! n]" using n by (rule take_Suc_conv_app_nth)
  have c: "cmpFullAt e n key > 0 \<longleftrightarrow> key < ks ! n" by (simp add: cmpFullAt_def rep_nth [OF assms(1) n] cmp_simps)
  have less: "x < ks ! n" if "x \<in> set (take n ks)" for x
    using that n assms(2) by (auto simp: in_set_conv_nth intro: sorted_wrt_nth_less)
  show ?case
  proof (cases "key < ks ! n")
    case True
    then have "\<not> ks ! n \<le> key" by simp
    then show ?thesis using c True Suc t takeWhile_tail [of "\<lambda>x. x \<le> key" "ks ! n" "take n ks" "[]"] by simp
  next
    case False
    then have "\<forall>x \<in> set (take n ks). x \<le> key" using less by (meson le_less_trans less_imp_le not_le)
    then show ?thesis using False c t n by (auto simp: takeWhile_append2 not_less)
  qed
qed simp

text \<open>
  The list after a key is applied: other datoms keep their keys, and an assertion's key takes the place of the
  datom's previous version.
\<close>

definition applied :: "bytes \<Rightarrow> bytes set \<Rightarrow> bytes set" where
  "applied key S = {x \<in> S. logical x \<noteq> logical key} \<union> (if isRetraction key then {} else {key})"

lemma ascending_logical:
  assumes "ascending ks" "uniform (set ks)" "\<forall>k \<in> set ks. 8 \<le> length k" "inj_on logical (set ks)"
  shows "ascending (map logical ks)"
  unfolding sorted_wrt_map
proof (rule sorted_wrt_mono_rel [OF _ assms(1)])
  fix x y assume "x \<in> set ks" "y \<in> set ks" "x < y"
  then show "logical x < logical y"
    using uniform_le [OF assms(2)] assms(3) inj_onD [OF assms(4)] by (metis less_imp_le order.not_eq_order_implies_strict less_irrefl)
qed

lemma applyEntry_rep:
  assumes "rep e ks" "ascending ks" "uniform (insert key (set ks))" "\<forall>k \<in> set ks. 8 \<le> length k" "8 \<le> length key"
    and "inj_on logical (set ks)" "\<And>k. k \<in> set ks \<Longrightarrow> logical k = logical key \<Longrightarrow> k \<le> key"
  shows "\<exists>ks'. rep (snd (applyEntry key e)) ks' \<and> ascending ks' \<and> set ks' = applied key (set ks)
    \<and> heBytes (snd (applyEntry key e)) = heBytes e + fst (applyEntry key e)
    \<and> int (length (concat ks')) = int (length (concat ks)) + fst (applyEntry key e)"
proof -
  have asc: "ascending (map logical ks)" using assms by (intro ascending_logical) (auto intro: uniform_mono)
  show ?thesis
  proof (cases "\<exists>k \<in> set ks. logical k = logical key")
    case True
    then obtain xs k ys where ks: "ks = xs @ k # ys" and k: "logical k = logical key" by (auto dest: split_list)
    have xs: "logical x < logical key" if "x \<in> set xs" for x using asc that k by (auto simp: ks sorted_wrt_append)
    then have "takeWhile (\<lambda>x. logical x < logical key) ks = xs" by (simp add: ks k)
    then have pos: "findKeyPos e key = Some (length xs)"
      by (simp add: findKeyPos_rep [OF assms(1) asc] Let_def ks k)
    have ys: "logical key < logical y" if "y \<in> set ys" for y using asc that k by (auto simp: ks sorted_wrt_append)
    note split = rep_split [OF assms(1) [unfolded ks]]
    show ?thesis
    proof (cases "isRetraction key")
      case r: True
      have "rep (snd (removeKeyAt (length xs) e)) (xs @ ys)" "fst (removeKeyAt (length xs) e) = length k"
        using rep_remove [OF assms(1) [unfolded ks]] by blast+
      then have "rep (snd (applyEntry key e)) (xs @ ys)" "fst (applyEntry key e) = - int (length k)"
        "heBytes (snd (applyEntry key e)) = heBytes e - int (length k)"
        using r pos by (auto simp: applyEntry_def suffix_bit rep_bytes case_prod_beta rep_def)
      moreover have "set (xs @ ys) = applied key (set ks)" using xs ys r k by (fastforce simp: applied_def ks)
      moreover have "ascending (xs @ ys)" using assms(2) by (simp add: ks sorted_wrt_append)
      ultimately show ?thesis by (intro exI [of _ "xs @ ys"]) (simp add: ks)
    next
      case r: False
      have "rep (replaceKeyAt (length xs) key e) (xs @ key # ys)" using rep_replace [OF assms(1) [unfolded ks]] .
      then have "rep (snd (applyEntry key e)) (xs @ key # ys)" "fst (applyEntry key e) = int (length key) - int (length k)"
        "heBytes (snd (applyEntry key e)) = heBytes e + (int (length key) - int (length k))"
        using r pos split by (auto simp: applyEntry_def suffix_bit rep_bytes Let_def rep_def)
      moreover have "set (xs @ key # ys) = applied key (set ks)" using xs ys r k by (fastforce simp: applied_def ks)
      moreover have "ascending (xs @ key # ys)"
      proof -
        have "x < key" if "x \<in> set xs" for x
          using assms(3-5) xs [OF that] that by (auto simp: uniform_def ks)
        moreover have "key < y" if "y \<in> set ys" for y
          using assms(3-5) ys [OF that] that by (auto simp: uniform_def ks)
        ultimately show ?thesis using assms(2) by (auto simp: ks sorted_wrt_append)
      qed
      ultimately show ?thesis by (intro exI [of _ "xs @ key # ys"]) (simp add: ks)
    qed
  next
    case False
    let ?lo = "length (takeWhile (\<lambda>x. logical x < logical key) ks)"
    have "logical (ks ! ?lo) \<noteq> logical key" if "?lo < length ks" using False that by (metis nth_mem)
    then have pos: "findKeyPos e key = None" by (auto simp: findKeyPos_rep [OF assms(1) asc] Let_def)
    show ?thesis
    proof (cases "isRetraction key")
      case r: True
      have "applyEntry key e = (0, e)" using r pos by (simp add: applyEntry_def suffix_bit)
      moreover have "applied key (set ks) = set ks" using r False by (auto simp: applied_def)
      ultimately show ?thesis using assms(1,2) by auto
    next
      case r: False
      define xs ys where "xs = takeWhile (\<lambda>x. x \<le> key) ks" and "ys = dropWhile (\<lambda>x. x \<le> key) ks"
      have ks: "ks = xs @ ys" by (simp add: xs_def ys_def)
      have ip: "insertPos e key (length (heOffs e)) = length xs"
        using insertPos_rep [OF assms(1,2), of "length ks" key] by (simp add: rep_length [OF assms(1)] xs_def)
      have "rep (insertKeyAt (length xs) key e) (xs @ key # ys)" using rep_insert assms(1) ks by simp
      then have "rep (snd (applyEntry key e)) (xs @ key # ys)" "fst (applyEntry key e) = int (length key)"
        "heBytes (snd (applyEntry key e)) = heBytes e + int (length key)"
        using r pos ip by (auto simp: applyEntry_def suffix_bit rep_bytes Let_def rep_def)
      moreover have "set (xs @ key # ys) = applied key (set ks)" using r False by (auto simp: applied_def ks)
      moreover have "ascending (xs @ key # ys)"
      proof -
        have "key \<notin> set ks" using False by auto
        then have "x < key" if "x \<in> set xs" for x
          using that unfolding xs_def by (metis le_neq_trans set_takeWhileD)
        moreover have "key < y" if "y \<in> set ys" for y
        proof (cases ys)
          case (Cons z zs)
          then have "\<not> z \<le> key" using hd_dropWhile [of "\<lambda>x. x \<le> key" ks] by (metis list.sel(1) list.simps(3) ys_def)
          moreover have "z \<le> y" using that assms(2) by (auto simp: ks Cons sorted_wrt_append)
          ultimately show ?thesis by simp
        qed (use that in simp)
        ultimately show ?thesis using assms(2) by (auto simp: ks sorted_wrt_append)
      qed
      ultimately show ?thesis by (intro exI [of _ "xs @ key # ys"]) (simp add: ks)
    qed
  qed
qed

section \<open>The set mirrors the store\<close>

definition eidOf :: "bytes \<Rightarrow> bytes" where
  "eidOf k = take 8 k"

text \<open>The active keys of an entity in a set of CF-0 keys.\<close>

definition entityKeys :: "bytes set \<Rightarrow> int64 \<Rightarrow> bytes set" where
  "entityKeys K eid = {k. active K k \<and> eidOf k = EncodeEid eid}"

definition holds :: "bytes set \<Rightarrow> int64 \<Rightarrow> hentry \<Rightarrow> bool" where
  "holds K eid e \<longleftrightarrow> (\<exists>ks. rep e ks \<and> ascending ks \<and> set ks = entityKeys K eid \<and> heBytes e = int (length (concat ks)))"

definition mirrors :: "bytes set \<Rightarrow> HydSet \<Rightarrow> bool" where
  "mirrors K h \<longleftrightarrow> distinct (map fst (hIndex h)) \<and> (\<forall>eid e. map_of (hIndex h) eid = Some e \<longrightarrow> holds K eid e)
     \<and> distinct (hLru h) \<and> set (hLru h) = dom (map_of (hIndex h)) \<and> hCurBytes h = sum_list (map (heBytes \<circ> snd) (hIndex h))"

text \<open>CF-0 keys as the write path makes them.\<close>

definition datomKeys :: "bytes set \<Rightarrow> bool" where
  "datomKeys K \<longleftrightarrow> finite K \<and> uniform K \<and> (\<forall>k \<in> K. 20 \<le> length k)"

definition newestKey :: "bytes set \<Rightarrow> bytes \<Rightarrow> bool" where
  "newestKey K k \<longleftrightarrow> (\<forall>k' \<in> K. logical k' = logical k \<longrightarrow> k' \<le> k)"

lemma eidOf_logical: "20 \<le> length k \<Longrightarrow> eidOf k = take 8 (logical k)"
  by (simp add: eidOf_def logical_def min_def)

lemma active_insert:
  assumes "datomKeys (insert k K)" "newestKey K k"
  shows "active (insert k K) x \<longleftrightarrow> (active K x \<and> logical x \<noteq> logical k) \<or> x = k \<and> \<not> isRetraction k"
proof -
  have len: "20 \<le> length k" "\<forall>y \<in> K. 20 \<le> length y" using assms(1) by (auto simp: datomKeys_def)
  show ?thesis
  proof (cases "logical x = logical k")
    case True
    have "x = k" if "active (insert k K) x"
      using that True assms(2) len by (auto simp: active_def newestKey_def intro: order.antisym)
    moreover have "active (insert k K) k \<longleftrightarrow> \<not> isRetraction k" using len assms(2) by (auto simp: active_def newestKey_def)
    ultimately show ?thesis using True by auto
  next
    case False
    then show ?thesis by (auto simp: active_def)
  qed
qed

lemma entityKeys_insert:
  assumes "datomKeys (insert k K)" "newestKey K k"
  shows "entityKeys (insert k K) eid = (if eidOf k = EncodeEid eid then applied k (entityKeys K eid) else entityKeys K eid)"
proof (cases "eidOf k = EncodeEid eid")
  case True
  then show ?thesis using active_insert [OF assms] by (auto simp: entityKeys_def applied_def)
next
  case False
  have "logical x \<noteq> logical k" if "active K x" "eidOf x = EncodeEid eid" for x
  proof
    assume l: "logical x = logical k"
    have "20 \<le> length x" "20 \<le> length k" using that assms(1) by (auto simp: active_def datomKeys_def)
    then have "eidOf x = eidOf k" using l by (simp add: eidOf_logical)
    with False that show False by simp
  qed
  with False show ?thesis using active_insert [OF assms] by (auto simp: entityKeys_def)
qed

lemma entityKeys_inj: "inj_on logical (entityKeys K eid)"
  by (auto simp: inj_on_def entityKeys_def active_def intro: order.antisym)

lemma holds_apply:
  assumes "holds K eid e" "datomKeys (insert k K)" "newestKey K k" "eidOf k = EncodeEid eid"
  shows "holds (insert k K) eid (snd (applyEntry k e))"
proof -
  from assms(1) obtain ks where ks: "rep e ks" "ascending ks" "set ks = entityKeys K eid" "heBytes e = int (length (concat ks))"
    by (auto simp: holds_def)
  have sub: "set ks \<subseteq> K" using ks(3) by (auto simp: entityKeys_def active_def)
  have "\<exists>ks'. rep (snd (applyEntry k e)) ks' \<and> ascending ks' \<and> set ks' = applied k (set ks)
    \<and> heBytes (snd (applyEntry k e)) = heBytes e + fst (applyEntry k e)
    \<and> int (length (concat ks')) = int (length (concat ks)) + fst (applyEntry k e)"
  proof (rule applyEntry_rep [OF ks(1,2)])
    show "uniform (insert k (set ks))" using assms(2) sub by (auto simp: datomKeys_def intro: uniform_mono)
    have len: "8 \<le> length x" if "x \<in> insert k K" for x using assms(2) that by (auto simp: datomKeys_def dest: bspec)
    show "\<forall>x \<in> set ks. 8 \<le> length x" "8 \<le> length k" using len sub by auto
    show "inj_on logical (set ks)" using entityKeys_inj ks(3) by simp
    show "x \<le> k" if "x \<in> set ks" "logical x = logical k" for x using that sub assms(3) by (auto simp: newestKey_def)
  qed
  then show ?thesis
    unfolding holds_def entityKeys_insert [OF assms(2,3)] using assms(4) ks(3,4) by auto
qed

lemma eid_roundtrip: "8 \<le> length k \<Longrightarrow> EncodeEid (DecodeEid (BeUint64 k 0)) = eidOf k"
  by (simp add: EncodeEid_def EncodeInt_def DecodeEid_def DecodeInt64_def BeUint64_def slice_def put_be_get_be eidOf_def)

lemma EncodeEid_inj: "EncodeEid a = EncodeEid b \<longleftrightarrow> a = b"
  by (simp add: EncodeEid_def)

lemma entityKeys_other:
  assumes "datomKeys (insert k K)" "newestKey K k" "DecodeEid (BeUint64 k 0) \<noteq> eid"
  shows "entityKeys (insert k K) eid = entityKeys K eid"
proof -
  have "8 \<le> length k" using assms(1) by (auto simp: datomKeys_def)
  then have "eidOf k \<noteq> EncodeEid eid" using assms(3) eid_roundtrip EncodeEid_inj by metis
  then show ?thesis by (simp add: entityKeys_insert [OF assms(1,2)])
qed

subsection \<open>Every operation keeps the mirror\<close>

lemma sum_AList_update:
  "distinct (map fst xs) \<Longrightarrow>
    sum_list (map (f \<circ> snd) (AList.update k v xs))
      = sum_list (map (f \<circ> snd) xs) + f v - (case map_of xs k of Some u \<Rightarrow> f u | None \<Rightarrow> (0::int))"
  by (induction xs) (auto simp: dom_map_of_conv_image_fst split: option.splits)

lemma sum_AList_delete:
  "distinct (map fst xs) \<Longrightarrow>
    sum_list (map (f \<circ> snd) (AList.delete k xs))
      = sum_list (map (f \<circ> snd) xs) - (case map_of xs k of Some u \<Rightarrow> f u | None \<Rightarrow> (0::int))"
  by (induction xs) (auto simp: delete_id)

lemma mirrors_new: "mirrors K (NewHydSet m)"
  by (simp add: mirrors_def NewHydSet_def)

lemma mirrors_touch: "mirrors K h \<Longrightarrow> hContains eid h \<Longrightarrow> mirrors K (hTouch eid h)"
  by (auto simp: mirrors_def hTouch_def hContains_def simp del: map_of_eq_Some_iff)

lemma mirrors_counters [simp]:
  "mirrors K (h\<lparr>hHits := n\<rparr>) = mirrors K h" "mirrors K (h\<lparr>hMisses := n\<rparr>) = mirrors K h"
  "mirrors K (h\<lparr>hHydrations := n\<rparr>) = mirrors K h" "mirrors K (h\<lparr>hRejected := n\<rparr>) = mirrors K h"
  "mirrors K (h\<lparr>hEvictions := n\<rparr>) = mirrors K h"
  by (simp_all add: mirrors_def)

lemma mirrors_probe: "mirrors K h \<Longrightarrow> mirrors K (snd (hProbe eid h))"
  by (auto simp: hProbe_def hContains_def mirrors_touch split: option.splits)

lemma mirrors_drop: "mirrors K h \<Longrightarrow> map_of (hIndex h) eid = Some e \<Longrightarrow> mirrors K (hDrop eid e h)"
  by (auto simp: mirrors_def hDrop_def sum_AList_delete distinct_delete delete_conv' simp del: map_of_eq_Some_iff
      split: if_splits)

lemma mirrors_evict: "mirrors K h \<Longrightarrow> mirrors K (hEvict eid h)"
  by (auto simp: hEvict_def mirrors_drop split: option.splits)

lemma mirrors_clear: "mirrors K (hClear h)"
  by (simp add: mirrors_def hClear_def)

lemma mirrors_evictLru: "mirrors K h \<Longrightarrow> mirrors K (evictLruUntilFits n h) \<and> hMaxBytes (evictLruUntilFits n h) = hMaxBytes h"
proof (induction n h rule: evictLruUntilFits.induct)
  case (1 n h)
  show ?case
  proof (cases "hCurBytes h + n > hMaxBytes h \<and> hIndex h \<noteq> [] \<and> hLru h \<noteq> [] \<and> map_of (hIndex h) (last (hLru h)) \<noteq> None")
    case True
    then obtain e where e: "map_of (hIndex h) (last (hLru h)) = Some e" by blast
    let ?h = "(hDrop (last (hLru h)) e h)\<lparr>hEvictions := hEvictions h + 1\<rparr>"
    have "mirrors K ?h" using mirrors_drop [OF "1.prems" e] by simp
    moreover have "evictLruUntilFits n h = evictLruUntilFits n ?h"
      using True e by (simp add: evictLruUntilFits.simps [of n h] Let_def)
    ultimately show ?thesis using "1.IH" [OF _ _ refl e] True by (simp add: hDrop_def)
  next
    case False
    then have "evictLruUntilFits n h = h"
      by (auto simp: evictLruUntilFits.simps [of n h] Let_def split: option.splits)
    then show ?thesis using "1.prems" by simp
  qed
qed

lemma hContains_apply: "hContains eid (hApplyKey k h) \<longleftrightarrow> hContains eid h"
  by (auto simp: hContains_def hApplyKey_def Let_def update_conv' case_prod_beta simp del: map_of_eq_Some_iff split: option.splits if_splits)

lemma evictLru_absent: "map_of (hIndex h) eid = None \<Longrightarrow> map_of (hIndex (evictLruUntilFits n h)) eid = None"
proof (induction n h rule: evictLruUntilFits.induct)
  case (1 n h)
  then show ?case
    by (subst evictLruUntilFits.simps) (auto simp: Let_def hDrop_def delete_conv' split: option.splits)
qed

lemma mirrors_install:
  assumes "mirrors K h" "map_of (hIndex h) eid = None" "holds K eid e"
  shows "mirrors K (h\<lparr>hIndex := AList.update eid e (hIndex h), hLru := eid # hLru h, hCurBytes := hCurBytes h + heBytes e\<rparr>)"
  using assms
  by (auto simp: mirrors_def sum_AList_update update_conv' distinct_update simp del: map_of_eq_Some_iff split: if_splits)

definition scanActive :: "bytes set \<Rightarrow> bytes \<Rightarrow> bytes list" where
  "scanActive K pfx = activeKeys (filter (\<lambda>k. take (length pfx) k = pfx) (sorted_list_of_set K))"

lemma scanActive_spec:
  assumes "datomKeys K" "length pfx \<le> 12"
  shows "scanActive K pfx = filter (\<lambda>k. active K k \<and> take (length pfx) k = pfx) (sorted_list_of_set K)"
proof -
  let ?ks = "filter (\<lambda>k. take (length pfx) k = pfx) (sorted_list_of_set K)"
  have fin: "finite K" and long: "\<And>k. k \<in> K \<Longrightarrow> 20 \<le> length k" using assms(1) by (auto simp: datomKeys_def)
  have pre: "take (length pfx) k = take (length pfx) (logical k)" if "k \<in> K" for k
    using long [OF that] assms(2) by (simp add: logical_def min_def)
  have set: "set ?ks = {k \<in> K. take (length pfx) k = pfx}" using fin by auto
  have "uniform (set ?ks)" using assms(1) by (auto simp: datomKeys_def intro: uniform_mono)
  then have "scanActive K pfx = filter (active (set ?ks)) ?ks"
    unfolding scanActive_def by (intro activeKeys_filter) (simp_all add: sorted_wrt_filter)
  also have "\<dots> = filter (active K) ?ks"
  proof (rule filter_cong [OF refl])
    fix k assume "k \<in> set ?ks"
    then show "active (set ?ks) k = active K k" unfolding set using pre by (auto simp: active_def)
  qed
  finally show ?thesis by (simp add: conj_commute)
qed

lemma set_scanActive_entity: "datomKeys K \<Longrightarrow> set (scanActive K (EncodeEid eid)) = entityKeys K eid"
  by (auto simp: scanActive_spec entityKeys_def eidOf_def active_def datomKeys_def)

lemma ascending_scanActive: "datomKeys K \<Longrightarrow> length pfx \<le> 12 \<Longrightarrow> ascending (scanActive K pfx)"
  by (simp add: scanActive_spec sorted_wrt_filter)

lemma mirrors_hydrate:
  assumes "mirrors K h" "datomKeys K"
  shows "mirrors K (hHydrate eid (scanActive K (EncodeEid eid)) h)"
proof -
  let ?ks = "scanActive K (EncodeEid eid)" and ?e0 = "\<lparr>heBuf = [], heOffs = [], heBytes = int (length (concat (scanActive K (EncodeEid eid))))\<rparr>"
  have total: "sum_list (map length ?ks) = length (concat ?ks)" by (simp add: length_concat)
  have "rep (packKeys ?ks ?e0) ?ks \<and> heBytes (packKeys ?ks ?e0) = heBytes ?e0"
    using packKeys_rep [of ?e0 "[]" ?ks] by (simp add: rep_def)
  then have holds: "holds K eid (packKeys ?ks ?e0)" and bytes: "heBytes (packKeys ?ks ?e0) = int (length (concat ?ks))"
    using assms(2) by (auto simp: holds_def set_scanActive_entity ascending_scanActive)
  let ?h1 = "evictLruUntilFits (int (length (concat ?ks))) h"
  have "mirrors K ?h1" using mirrors_evictLru [OF assms(1)] by blast
  moreover have "map_of (hIndex ?h1) eid = None" if "map_of (hIndex h) eid = None"
    using that by (rule evictLru_absent)
  ultimately show ?thesis
    using mirrors_install [OF _ _ holds, of ?h1] assms(1) unfolding hHydrate_def total
    by (auto simp: mirrors_touch hContains_def Let_def bytes)
qed

lemma mirrors_hydrateEmpty: "mirrors K h \<Longrightarrow> entityKeys K eid = {} \<Longrightarrow> mirrors K (hHydrateEmpty eid h)"
  using mirrors_install [of K h eid "\<lparr>heBuf = [], heOffs = [], heBytes = 0\<rparr>"]
  by (auto simp: hHydrateEmpty_def mirrors_touch hContains_def holds_def rep_def)

lemma mirrors_apply:
  assumes "mirrors K h" "datomKeys (insert k K)" "newestKey K k"
  shows "mirrors (insert k K) (hApplyKey k h)"
proof -
  have long: "20 \<le> length k" using assms(2) by (simp add: datomKeys_def)
  let ?eid = "DecodeEid (BeUint64 k 0)"
  have eid: "eidOf k = EncodeEid ?eid" using long by (simp add: eid_roundtrip)
  have other: "holds (insert k K) eid e" if "holds K eid e" "eid \<noteq> ?eid" for eid e
    using that by (simp add: holds_def entityKeys_other [OF assms(2,3)])
  show ?thesis
  proof (cases "map_of (hIndex h) ?eid")
    case None
    then have "holds (insert k K) eid e" if "map_of (hIndex h) eid = Some e" for eid e
      using that assms(1) by (intro other) (auto simp: mirrors_def simp del: map_of_eq_Some_iff)
    then show ?thesis using assms(1) long None by (simp add: mirrors_def hApplyKey_def del: map_of_eq_Some_iff)
  next
    case (Some e)
    have "holds (insert k K) ?eid (snd (applyEntry k e))"
      using assms Some eid by (intro holds_apply) (auto simp: mirrors_def simp del: map_of_eq_Some_iff)
    moreover have "heBytes (snd (applyEntry k e)) = heBytes e + fst (applyEntry k e)"
      by (auto simp: applyEntry_def rep_bytes Let_def case_prod_beta split: option.splits)
    ultimately show ?thesis using assms(1) other long Some unfolding mirrors_def hApplyKey_def
      by (auto simp: Let_def case_prod_beta update_conv' distinct_update sum_AList_update simp del: map_of_eq_Some_iff
          split: if_splits)
  qed
qed

lemma rangeFrom_takeWhile: "rangeFrom ks pfx = takeWhile (\<lambda>k. take (length pfx) k = pfx) ks"
  by (induction ks) (auto dest: arg_cong [of _ _ length])

lemma lookup_rep:
  assumes "rep e ks" "ascending ks"
  shows "keysFromIndex e (bsearch (\<lambda>mid. cmpFullAt e mid t < 0) 0 (length (heOffs e))) = dropWhile (\<lambda>k. k < t) ks"
proof -
  have "bsearch (\<lambda>mid. cmpFullAt e mid t < 0) 0 (length ks) = bsearch (\<lambda>i. ks ! i < t) 0 (length ks)"
    by (intro bsearch_cong) (simp add: cmpFullAt_def rep_nth [OF assms(1)] cmp_simps)
  also have "\<dots> = length (takeWhile (\<lambda>k. k < t) ks)" using bsearch_less_key [of "\<lambda>k. k" ks t] assms(2) by simp
  finally show ?thesis unfolding rep_length [OF assms(1)] keysFromIndex_def
    by (intro nth_equalityI) (simp_all add: rep_nth [OF assms(1)] rep_length [OF assms(1)] dropWhile_eq_drop)
qed

lemma mirrors_lookup:
  assumes "mirrors K h" "datomKeys K" "hContains eid h" "take 8 pfx = EncodeEid eid" "length pfx \<le> 12"
  shows "hLookupRange eid pfx h = scanActive K pfx"
proof -
  from assms(3) obtain e where e: "map_of (hIndex h) eid = Some e" by (auto simp: hContains_def simp del: map_of_eq_Some_iff)
  with assms(1) have "holds K eid e" by (simp add: mirrors_def del: map_of_eq_Some_iff)
  then obtain ks where ks: "rep e ks" "ascending ks" "set ks = entityKeys K eid" by (auto simp: holds_def)
  have "hLookupRange eid pfx h = filter (\<lambda>k. take (length pfx) k = pfx) ks"
    unfolding hLookupRange_def e by (simp add: Let_def lookup_rep [OF ks(1,2)] rangeFrom_takeWhile seek_takeWhile_prefix [OF ks(2)])
  also have "\<dots> = scanActive K pfx"
  proof (rule strict_sorted_equal)
    show "ascending (filter (\<lambda>k. take (length pfx) k = pfx) ks)" using ks(2) by (rule sorted_wrt_filter)
    show "ascending (scanActive K pfx)" using assms(2,5) by (rule ascending_scanActive)
    have len: "8 \<le> length pfx" using arg_cong [OF assms(4), of length] by simp
    have "eidOf k = EncodeEid eid" if "take (length pfx) k = pfx" for k
    proof -
      have "take 8 k = take 8 (take (length pfx) k)" using len by (simp add: min_def)
      then show ?thesis using that assms(4) by (simp add: eidOf_def)
    qed
    then show "set (filter (\<lambda>k. take (length pfx) k = pfx) ks) = set (scanActive K pfx)"
      using assms(2) by (auto simp: scanActive_spec [OF assms(2,5)] ks(3) entityKeys_def active_def datomKeys_def)
  qed
  finally show ?thesis .
qed

lemma take_le_mono: "x \<le> y \<Longrightarrow> take n x \<le> take n (y :: bytes)"
proof (induction n arbitrary: x y)
  case (Suc n)
  then show ?case by (cases x; cases y) auto
qed simp

lemma mirrors_hasAttr:
  assumes "mirrors K h" "datomKeys K" "hContains eid h"
  shows "hHasAttrKey eid aid h \<longleftrightarrow> (\<exists>k. active K k \<and> take 12 k = EncodeEid eid @ put_be 4 aid)"
proof -
  let ?pfx = "EncodeEid eid @ put_be 4 aid"
  from assms(3) obtain e where e: "map_of (hIndex h) eid = Some e" by (auto simp: hContains_def simp del: map_of_eq_Some_iff)
  with assms(1) have "holds K eid e" by (simp add: mirrors_def del: map_of_eq_Some_iff)
  then obtain ks where ks: "rep e ks" "ascending ks" "set ks = entityKeys K eid" by (auto simp: holds_def)
  have "20 \<le> length k" if "k \<in> K" for k using that assms(2) by (auto simp: datomKeys_def)
  then have long: "20 \<le> length k" if "k \<in> set ks" for k using that by (auto simp: ks(3) entityKeys_def active_def)
  have c: "cmpAttrAt e i ?pfx = cmp_loop (take 12 (ks ! i)) ?pfx" if "i < length ks" for i
    using long [of "ks ! i"] that by (simp add: cmpAttrAt_def rep_nth [OF ks(1)] Let_def)
  have lo: "bsearch (\<lambda>mid. cmpAttrAt e mid ?pfx < 0) 0 (length ks) = bsearch (\<lambda>i. take 12 (ks ! i) < ?pfx) 0 (length ks)"
    by (intro bsearch_cong) (simp add: c cmp_simps)
  have "sorted (map (take 12) ks)"
    unfolding sorted_wrt_map by (rule sorted_wrt_mono_rel [OF _ ks(2)]) (simp add: take_le_mono)
  note hit = bsearch_hit [OF this, of ?pfx, unfolded Let_def, folded lo]
  have "hHasAttrKey eid aid h \<longleftrightarrow> ?pfx \<in> take 12 ` set ks"
    unfolding hHasAttrKey_def e hit [symmetric] by (auto simp: Let_def rep_length [OF ks(1)] c cmp_loop_simps)
  also have "\<dots> \<longleftrightarrow> (\<exists>k. active K k \<and> take 12 k = ?pfx)"
  proof -
    have "eidOf k = EncodeEid eid" if "take 12 k = ?pfx" for k
      using arg_cong [OF that, of "take 8"] by (simp add: eidOf_def)
    then show ?thesis by (auto simp: ks(3) entityKeys_def image_iff)
  qed
  finally show ?thesis .
qed

section \<open>Runs of the cache\<close>

text \<open>
  \<open>caches h K\<close>: the cache \<open>h\<close> is the result of operations during which the CF-0 keys of the store grew to \<open>K\<close>. Each
  written key is the newest version of its datom, an entity is hydrated from a scan of the store, and only an
  entity without datoms is declared empty.
\<close>

definition fits32 :: "HydSet \<Rightarrow> bool" where
  "fits32 h \<longleftrightarrow> (\<forall>(eid, e) \<in> set (hIndex h). int (length (heBuf e)) < 2 ^ 31)"

inductive caches :: "HydSet \<Rightarrow> bytes set \<Rightarrow> bool" where
  on_new: "datomKeys K \<Longrightarrow> caches (NewHydSet m) K"
| on_write: "caches h K \<Longrightarrow> datomKeys (insert k K) \<Longrightarrow> newestKey K k \<Longrightarrow> fits32 (hApplyKey k h) \<Longrightarrow> caches (hApplyKey k h) (insert k K)"
| on_hydrate: "caches h K \<Longrightarrow> fits32 (hHydrate eid (scanActive K (EncodeEid eid)) h) \<Longrightarrow>
    caches (hHydrate eid (scanActive K (EncodeEid eid)) h) K"
| on_fresh: "caches h K \<Longrightarrow> entityKeys K eid = {} \<Longrightarrow> caches (hHydrateEmpty eid h) K"
| on_probe: "caches h K \<Longrightarrow> caches (snd (hProbe eid h)) K"
| on_evict: "caches h K \<Longrightarrow> caches (hEvict eid h) K"
| on_clear: "caches h K \<Longrightarrow> caches (hClear h) K"

lemma caches_ok: "caches h K \<Longrightarrow> mirrors K h \<and> datomKeys K"
  by (induction rule: caches.induct)
    (auto simp: mirrors_new mirrors_apply mirrors_hydrate mirrors_hydrateEmpty mirrors_probe mirrors_evict mirrors_clear)

lemma set_AList_update: "set (AList.update k v xs) \<subseteq> insert (k, v) (set xs)"
  by (induction xs) auto

lemma caches_fits32: "caches h K \<Longrightarrow> fits32 h"
proof (induction rule: caches.induct)
  case (on_fresh h K eid)
  then show ?case
    using set_AList_update [of eid "\<lparr>heBuf = [], heOffs = [], heBytes = 0\<rparr>" "hIndex h"]
    by (auto simp: fits32_def hHydrateEmpty_def hTouch_def)
next
  case (on_evict h K eid)
  then show ?case by (auto simp: fits32_def hEvict_def hDrop_def AList.delete_eq split: option.splits)
qed (auto simp: fits32_def NewHydSet_def hProbe_def hTouch_def hClear_def split: option.splits)

lemma offsetsFrom_le: "o' \<in> set (offsetsFrom a ks) \<Longrightarrow> o' \<le> a + length (concat ks)"
  by (induction ks arbitrary: a) fastforce+

lemma caches_offsets:
  assumes "caches h K" "map_of (hIndex h) eid = Some e" "o' \<in> set (heOffs e)"
  shows "signed_take_bit 31 (int o') = int o'"
proof -
  have "holds K eid e" using caches_ok [OF assms(1)] assms(2) by (simp add: mirrors_def del: map_of_eq_Some_iff)
  then have "o' \<le> length (heBuf e)" using assms(3) offsetsFrom_le [of o' 0] by (auto simp: holds_def rep_def)
  moreover have "length (heBuf e) < 2 ^ 31" using caches_fits32 [OF assms(1)] map_of_SomeD [OF assms(2)] by (auto simp: fits32_def)
  ultimately show ?thesis by (simp add: signed_take_bit_int_eq_self)
qed

text \<open>C12. The cache of hydrated entities is transparent. Take any sequence of writes, hydrations, probes, evictions and
  clears on keys of datoms (at least 20 bytes, and no datom between two versions of another) in which every written key is the
  newest version of its datom (saving a stored value of a cardinality-one attribute again is not such a write: it writes
  an assertion and a retraction of one transaction, and the retraction sorts last), an entity is hydrated from a scan of
  the store, only an entity without active datoms is declared empty, and the buffer of every entity stays below
  \<open>2\<^sup>3\<^sup>1\<close> bytes, where the int32 offsets are exact. Then a scan of a cached entity, for the entity's prefix or the
  entity's and an attribute's (at most twelve bytes), is answered from its flat buffer with exactly the keys that
  \<open>ScanPrefixActive\<close> computes from the stored keys.\<close>

theorem hydrated_scan_exact:
  assumes "caches h K" "hContains eid h" "take 8 pfx = EncodeEid eid" "length pfx \<le> 12"
  shows "hLookupRange eid pfx h = scanActive K pfx"
  using caches_ok [OF assms(1)] assms(2-4) by (simp add: mirrors_lookup)

text \<open>The presence test of an attribute is exact, and the byte count is the size of the keys held.\<close>

theorem hydrated_attr_exact:
  assumes "caches h K" "hContains eid h"
  shows "hHasAttrKey eid aid h \<longleftrightarrow> (\<exists>k. active K k \<and> take 12 k = EncodeEid eid @ put_be 4 aid)"
  using caches_ok [OF assms(1)] assms(2) by (simp add: mirrors_hasAttr)

subsection \<open>A worked run\<close>

definition demoKey :: "byte \<Rightarrow> byte \<Rightarrow> bytes" where
  "demoKey v sfx = EncodeEid 5 @ [0, 0, 0, 7] @ [v] @ replicate 7 0 @ [sfx]"

lemma demoKey_facts:
  "length (demoKey v s) = 21" "logical (demoKey v s) = EncodeEid 5 @ [0, 0, 0, 7, v]"
  by (simp_all add: demoKey_def logical_def)

theorem hydrated_scan_exact_witness:
  "hLookupRange 5 (EncodeEid 5) (hApplyKey (demoKey 1 4) (hApplyKey (demoKey 1 2) (hHydrateEmpty 5 (NewHydSet 100))))
    = scanActive {demoKey 1 2, demoKey 1 4} (EncodeEid 5)"
proof -
  let ?K = "{demoKey 1 2, demoKey 1 4}" and ?h0 = "hHydrateEmpty 5 (NewHydSet 100)"
  have fits: "fits32 (hApplyKey (demoKey 1 2) ?h0)" "fits32 (hApplyKey (demoKey 1 4) (hApplyKey (demoKey 1 2) ?h0))"
    by code_simp+
  have lt: "demoKey 1 2 < demoKey 1 4" by (simp add: demoKey_def append_less_append)
  have ok: "datomKeys K" if "K \<subseteq> ?K" for K
  proof -
    have "logical a = logical (demoKey 1 2)" "length a = 21" if "a \<in> K" for a
      using that \<open>K \<subseteq> ?K\<close> by (auto simp: demoKey_facts)
    then show ?thesis using finite_subset [OF that] by (simp add: datomKeys_def uniform_def)
  qed
  have "caches (hHydrateEmpty 5 (NewHydSet 100)) {}"
    using on_fresh [OF on_new [OF ok [of "{}"]]] by (simp add: entityKeys_def active_def)
  then have "caches (hApplyKey (demoKey 1 2) (hHydrateEmpty 5 (NewHydSet 100))) {demoKey 1 2}"
    by (rule on_write) (simp_all add: ok newestKey_def fits)
  then have "caches (hApplyKey (demoKey 1 4) (hApplyKey (demoKey 1 2) (hHydrateEmpty 5 (NewHydSet 100)))) (insert (demoKey 1 4) {demoKey 1 2})"
    by (rule on_write) (use lt in \<open>simp_all add: ok newestKey_def fits insert_commute less_imp_le\<close>)
  moreover have "hContains 5 (hApplyKey (demoKey 1 4) (hApplyKey (demoKey 1 2) (hHydrateEmpty 5 (NewHydSet 100))))"
    by (simp add: hContains_apply) (simp add: hHydrateEmpty_def NewHydSet_def hContains_def)
  ultimately show ?thesis using hydrated_scan_exact by (simp add: insert_commute)
qed

section \<open>The budget\<close>

lemma evictLru_fits:
  assumes "mirrors K h"
  shows "hCurBytes (evictLruUntilFits n h) + n \<le> hMaxBytes h \<or> hIndex (evictLruUntilFits n h) = []"
  using assms
proof (induction n h rule: evictLruUntilFits.induct)
  case (1 n h)
  show ?case
  proof (cases "hCurBytes h + n > hMaxBytes h \<and> hIndex h \<noteq> []")
    case True
    from True have "dom (map_of (hIndex h)) \<noteq> {}" by (simp add: dom_map_of_conv_image_fst)
    then have ne: "hLru h \<noteq> []" using "1.prems" unfolding mirrors_def by (metis list.set(1))
    then have "last (hLru h) \<in> dom (map_of (hIndex h))" using "1.prems" last_in_set by (fastforce simp: mirrors_def)
    then obtain e where e: "map_of (hIndex h) (last (hLru h)) = Some e" by blast
    let ?h = "(hDrop (last (hLru h)) e h)\<lparr>hEvictions := hEvictions h + 1\<rparr>"
    have "mirrors K ?h" using mirrors_drop [OF "1.prems" e] by simp
    moreover have "evictLruUntilFits n h = evictLruUntilFits n ?h"
      using True e ne by (simp add: evictLruUntilFits.simps [of n h] Let_def)
    ultimately show ?thesis using "1.IH" [OF _ ne refl e] True by (simp add: hDrop_def)
  next
    case False
    then have "evictLruUntilFits n h = h" by (simp add: evictLruUntilFits.simps [of n h])
    then show ?thesis using False by auto
  qed
qed

text \<open>Hydration respects the byte budget: installing an entity whose keys fit the budget evicts enough of the least
  recently used entities, and a larger one is rejected and leaves the cache as it is.\<close>

theorem hydrate_within_budget:
  assumes "caches h K" "\<not> hContains eid h"
  shows "hCurBytes (hHydrate eid keys h) \<le> hMaxBytes h
    \<or> (hMaxBytes h < int (sum_list (map length keys)) \<and> hIndex (hHydrate eid keys h) = hIndex h)"
proof -
  let ?n = "int (sum_list (map length keys))"
  have m: "mirrors K h" using caches_ok [OF assms(1)] by blast
  then have "hIndex (evictLruUntilFits ?n h) = [] \<Longrightarrow> hCurBytes (evictLruUntilFits ?n h) = 0"
    using mirrors_evictLru [of K h ?n] by (simp add: mirrors_def)
  then show ?thesis using evictLru_fits [OF m, of ?n] assms(2) by (auto simp: hHydrate_def Let_def)
qed

theorem hydrate_within_budget_witness:
  "hCurBytes (hHydrate 5 [demoKey 1 2] (NewHydSet 100)) \<le> 100"
proof -
  have "caches (NewHydSet 100) {}" by (rule on_new) (simp add: datomKeys_def uniform_def)
  from hydrate_within_budget [OF this, of 5 "[demoKey 1 2]"] show ?thesis
    by (simp add: hContains_def NewHydSet_def demoKey_facts)
qed

text \<open>Writes do not respect it: a key applied to a cached entity is counted but evicts nothing, so an entity
  declared empty grows past any budget.\<close>

theorem apply_exceeds_budget:
  "\<exists>h K. caches h K \<and> hMaxBytes h < hCurBytes h"
proof -
  have ok: "datomKeys {}" "datomKeys {demoKey 1 2}" by (auto simp: datomKeys_def uniform_def demoKey_facts)
  let ?h = "hHydrateEmpty 5 (NewHydSet 20)"
  have "caches ?h {}" using on_fresh [OF on_new [OF ok(1)]] by (simp add: entityKeys_def active_def)
  then have "caches (hApplyKey (demoKey 1 2) ?h) {demoKey 1 2}"
  proof (rule on_write)
    show "fits32 (hApplyKey (demoKey 1 2) ?h)" by code_simp
  qed (simp_all add: ok newestKey_def)
  moreover have "hMaxBytes (hApplyKey (demoKey 1 2) ?h) < hCurBytes (hApplyKey (demoKey 1 2) ?h)" by code_simp
  ultimately show ?thesis by blast
qed

end
