(* ===== verification/Anchor.thy ===== *)
theory Anchor
  imports Prelude
begin

text \<open>
  The anchor index, \<^verbatim>\<open>src/go/internal/anchor/anchor.go\<close>: a hash table from (attribute, value) to entity with linear probing,
  tombstones, records in a slice with a free list, keys in a byte arena, an intrusive doubly linked list in order
  of use, and eviction under a byte budget. Every search ends, the table behaves as a map that may forget entries
  but never returns a stale one, and the budget holds.
\<close>

unbundle bit_operations_syntax

section \<open>Records and state\<close>

text \<open>
  Slots hold the index of a record, or \<open>emptySlot\<close> or \<open>tombSlot\<close>; offsets and positions are numbers. The offset of a record is
  an \<^verbatim>\<open>int32\<close> in the source: it is the number below as long as the arena has less than \<open>2\<^sup>3\<^sup>1\<close> bytes, and past that \<^verbatim>\<open>Put\<close>
  indexes the arena with the wrapped, negative offset and panics. The runs \<open>anchored\<close> below keep to such arenas, and
  \<open>anchored_offsets\<close> shows that there every offset is its own \<^verbatim>\<open>int32\<close>. A key has at most \<open>maxKeyLen\<close> bytes, so its length
  is its own \<^verbatim>\<open>int16\<close>.
\<close>

definition emptySlot :: int where "emptySlot = -1"
definition tombSlot :: int where "tombSlot = -2"
definition minSlots :: nat where "minSlots = 1024"
definition maxKeyLen :: nat where "maxKeyLen = 32000"
definition recSize :: int where "recSize = 40"

record arec =
  rcOff :: nat
  rcKlen :: nat
  rcSlotPos :: int
  rcEid :: int64
  rcPrev :: int
  rcNext :: int
  rcLive :: bool

record AnchorIndex =
  anSlots :: "int list"
  anMask :: nat
  anLive :: int
  anTombs :: int
  anRecs :: "arec list"
  anFree :: "nat list"
  anArena :: bytes
  anHead :: int
  anTail :: int
  anMaxBytes :: int
  anCurBytes :: int
  anHits :: int
  anMisses :: int
  anEvict :: int
  anRehashes :: int
  anRejected :: int

definition NewAnchor :: "int \<Rightarrow> AnchorIndex" where
  "NewAnchor maxBytes = \<lparr>anSlots = [emptySlot, emptySlot], anMask = 1, anLive = 0, anTombs = 0, anRecs = [], anFree = [],
     anArena = [], anHead = -1, anTail = -1, anMaxBytes = maxBytes, anCurBytes = 0, anHits = 0, anMisses = 0, anEvict = 0,
     anRehashes = 0, anRejected = 0\<rparr>"

definition anLen :: "AnchorIndex \<Rightarrow> int" where
  "anLen x = anLive x"

section \<open>Hash and comparison\<close>

definition fnvBytes :: "bytes \<Rightarrow> uint64" where
  "fnvBytes bs = foldl (\<lambda>h b. (h XOR ucast b) * 0x100000001b3) 0xcbf29ce484222325 bs"

definition fnv :: "uint32 \<Rightarrow> bytes \<Rightarrow> uint64" where
  "fnv aid val = fnvBytes (put_be 4 aid @ val)"

definition fnvAt :: "AnchorIndex \<Rightarrow> nat \<Rightarrow> nat \<Rightarrow> uint64" where
  "fnvAt x off klen = fnvBytes (slice (anArena x) off (off + klen))"

definition keyEq :: "AnchorIndex \<Rightarrow> int \<Rightarrow> uint32 \<Rightarrow> bytes \<Rightarrow> bool" where
  "keyEq x r aid val =
     (let rc = anRecs x ! nat r
      in if rcKlen rc \<noteq> 4 + length val then False
         else slice (anArena x) (rcOff rc) (rcOff rc + 4) = put_be 4 aid
           \<and> slice (anArena x) (rcOff rc + 4) (rcOff rc + 4 + length val) = val)"

section \<open>The list in order of use\<close>

definition modRec :: "int \<Rightarrow> (arec \<Rightarrow> arec) \<Rightarrow> AnchorIndex \<Rightarrow> AnchorIndex" where
  "modRec i f x = x\<lparr>anRecs := (anRecs x)[nat i := f (anRecs x ! nat i)]\<rparr>"

definition lruUnlink :: "int \<Rightarrow> AnchorIndex \<Rightarrow> AnchorIndex" where
  "lruUnlink i x =
     (let r = anRecs x ! nat i; p = rcPrev r; n = rcNext r;
          x1 = (if p \<ge> 0 then modRec p (\<lambda>q. q\<lparr>rcNext := n\<rparr>) x else x\<lparr>anHead := n\<rparr>);
          x2 = (if n \<ge> 0 then modRec n (\<lambda>q. q\<lparr>rcPrev := p\<rparr>) x1 else x1\<lparr>anTail := p\<rparr>)
      in modRec i (\<lambda>q. q\<lparr>rcPrev := -1, rcNext := -1\<rparr>) x2)"

definition lruPush :: "int \<Rightarrow> AnchorIndex \<Rightarrow> AnchorIndex" where
  "lruPush i x =
     (let x1 = modRec i (\<lambda>q. q\<lparr>rcPrev := -1, rcNext := anHead x\<rparr>) x;
          x2 = (if anHead x \<ge> 0 then modRec (anHead x) (\<lambda>q. q\<lparr>rcPrev := i\<rparr>) x1 else x1\<lparr>anTail := i\<rparr>)
      in x2\<lparr>anHead := i\<rparr>)"

definition anTouch :: "int \<Rightarrow> AnchorIndex \<Rightarrow> AnchorIndex" where
  "anTouch i x = (if anHead x \<noteq> i then lruPush i (lruUnlink i x) else x)"

section \<open>Searching a slot\<close>

text \<open>The loop has no exit but an empty slot or the key; without either it would not end.\<close>

partial_function (option) findSlotLoop :: "AnchorIndex \<Rightarrow> uint32 \<Rightarrow> bytes \<Rightarrow> nat \<Rightarrow> int \<Rightarrow> (nat \<times> int \<times> int) option" where
  "findSlotLoop x aid val p tomb =
     (let s = anSlots x ! p
      in if s = emptySlot then Some (if tomb \<ge> 0 then nat tomb else p, -1, tomb)
         else if s = tombSlot then findSlotLoop x aid val ((p + 1) AND anMask x) (if tomb < 0 then int p else tomb)
         else if keyEq x s aid val then Some (p, s, tomb)
         else findSlotLoop x aid val ((p + 1) AND anMask x) tomb)"

definition findSlot :: "AnchorIndex \<Rightarrow> uint32 \<Rightarrow> bytes \<Rightarrow> uint64 \<Rightarrow> (nat \<times> int \<times> int) option" where
  "findSlot x aid val h = findSlotLoop x aid val (unat h AND anMask x) (-1)"

definition anProbe :: "uint32 \<Rightarrow> bytes \<Rightarrow> AnchorIndex \<Rightarrow> ((int64 \<times> bool) \<times> AnchorIndex) option" where
  "anProbe aid val x =
     (if anLive x = 0 then Some ((0, False), x\<lparr>anMisses := anMisses x + 1\<rparr>)
      else case findSlot x aid val (fnv aid val) of
        None \<Rightarrow> None
      | Some (pos, r, tomb) \<Rightarrow>
          (if r \<ge> 0 then
             let x1 = anTouch r x in Some ((rcEid (anRecs x1 ! nat r), True), x1\<lparr>anHits := anHits x1 + 1\<rparr>)
           else Some ((0, False), x\<lparr>anMisses := anMisses x + 1\<rparr>)))"

section \<open>Removal\<close>

definition recBytes :: "nat \<Rightarrow> int" where
  "recBytes klen = int klen + 8 + recSize + 4"

definition killRec :: "int \<Rightarrow> AnchorIndex \<Rightarrow> AnchorIndex" where
  "killRec r x =
     (let x1 = x\<lparr>anSlots := (anSlots x)[nat (rcSlotPos (anRecs x ! nat r)) := tombSlot], anTombs := anTombs x + 1\<rparr>;
          x2 = lruUnlink r x1;
          x3 = modRec r (\<lambda>q. q\<lparr>rcLive := False, rcPrev := -1, rcNext := -1, rcSlotPos := emptySlot\<rparr>) x2
      in x3\<lparr>anFree := anFree x3 @ [nat r], anLive := anLive x3 - 1,
            anCurBytes := anCurBytes x3 - recBytes (rcKlen (anRecs x3 ! nat r))\<rparr>)"

definition anDel :: "uint32 \<Rightarrow> bytes \<Rightarrow> AnchorIndex \<Rightarrow> AnchorIndex option" where
  "anDel aid val x =
     (if anLive x = 0 then Some x
      else case findSlot x aid val (fnv aid val) of
        None \<Rightarrow> None
      | Some (pos, r, tomb) \<Rightarrow> Some (if r \<ge> 0 then killRec r x else x))"

section \<open>Rehash\<close>

partial_function (option) freeSlot :: "int list \<Rightarrow> nat \<Rightarrow> nat \<Rightarrow> nat option" where
  "freeSlot slots m p = (if slots ! p \<noteq> emptySlot then freeSlot slots m ((p + 1) AND m) else Some p)"

text \<open>
  The loop over the records; the new arena is written from left to right, so \<open>write\<close> is its length so far.
\<close>

fun rehashLoop :: "AnchorIndex \<Rightarrow> nat \<Rightarrow> nat list \<Rightarrow> int list \<times> arec list \<times> bytes \<Rightarrow> (int list \<times> arec list \<times> bytes) option" where
  "rehashLoop x newCap [] (slots, recs, arena) = Some (slots, recs, arena)"
| "rehashLoop x newCap (r # rs) (slots, recs, arena) =
     (let rc = anRecs x ! r
      in if \<not> rcLive rc then rehashLoop x newCap rs (slots, recs, arena)
         else case freeSlot slots (newCap - 1) (unat (fnvAt x (rcOff rc) (rcKlen rc)) AND (newCap - 1)) of
           None \<Rightarrow> None
         | Some p \<Rightarrow> rehashLoop x newCap rs
             (slots[p := int r], recs[r := rc\<lparr>rcSlotPos := int p, rcOff := length arena\<rparr>],
              arena @ slice (anArena x) (rcOff rc) (rcOff rc + rcKlen rc)))"

definition rehash :: "nat \<Rightarrow> AnchorIndex \<Rightarrow> AnchorIndex option" where
  "rehash newCap x =
     (case rehashLoop x newCap [0..<length (anRecs x)] (replicate newCap emptySlot, anRecs x, []) of
        None \<Rightarrow> None
      | Some (slots, recs, arena) \<Rightarrow>
          Some (x\<lparr>anSlots := slots, anMask := newCap - 1, anRecs := recs, anArena := arena, anTombs := 0,
                  anRehashes := anRehashes x + 1\<rparr>))"

section \<open>Insertion\<close>

text \<open>Each round removes a live record, so the loop ends; the measure is the number of live records.\<close>

function evictUntilFits :: "int \<Rightarrow> AnchorIndex \<Rightarrow> AnchorIndex" where
  "evictUntilFits incoming x =
     (if anCurBytes x + incoming > anMaxBytes x \<and> anLive x > 0 then
        if anTail x < 0 then x
        else let x1 = killRec (anTail x) x in evictUntilFits incoming (x1\<lparr>anEvict := anEvict x1 + 1\<rparr>)
      else x)"
  by pat_completeness auto
termination
proof -
  have "anLive (killRec r x) = anLive x - 1" for r x
    by (simp add: killRec_def lruUnlink_def modRec_def Let_def)
  then show ?thesis by (relation "measure (\<lambda>(i, x). nat (anLive x))") (simp_all add: Let_def)
qed

declare evictUntilFits.simps [simp del]

definition growIfLoaded :: "AnchorIndex \<Rightarrow> AnchorIndex option" where
  "growIfLoaded x =
     (if (anLive x + anTombs x + 1) * 10 \<ge> int (length (anSlots x)) * 7 then
        if anTombs x > anLive x div 4 then rehash (length (anSlots x)) x
        else rehash (max (length (anSlots x) * 2) minSlots) x
      else Some x)"

text \<open>Taking a record from the free list, or a new one, for an insertion.\<close>

definition takeRec :: "AnchorIndex \<Rightarrow> nat \<times> AnchorIndex" where
  "takeRec x = (if anFree x \<noteq> [] then (last (anFree x), x\<lparr>anFree := butlast (anFree x)\<rparr>)
     else (length (anRecs x), x\<lparr>anRecs := anRecs x @
       [\<lparr>rcOff = 0, rcKlen = 0, rcSlotPos = 0, rcEid = 0, rcPrev = 0, rcNext = 0, rcLive = False\<rparr>]\<rparr>))"

definition anPut :: "uint32 \<Rightarrow> bytes \<Rightarrow> int64 \<Rightarrow> AnchorIndex \<Rightarrow> AnchorIndex option" where
  "anPut aid val eid x =
     (if 4 + length val > maxKeyLen then Some (x\<lparr>anRejected := anRejected x + 1\<rparr>)
      else
        let klen = 4 + length val; entryBytes = recBytes klen
        in case growIfLoaded x of
          None \<Rightarrow> None
        | Some x1 \<Rightarrow>
            (case findSlot x1 aid val (fnv aid val) of
               None \<Rightarrow> None
             | Some (pos, r, tomb) \<Rightarrow>
                 (if r \<ge> 0 then Some (anTouch r (modRec r (\<lambda>q. q\<lparr>rcEid := eid\<rparr>) x1))
                  else if entryBytes > anMaxBytes x1 then Some (x1\<lparr>anRejected := anRejected x1 + 1\<rparr>)
                  else
                    let (nr, x2) = takeRec x1;
                        x3 = evictUntilFits entryBytes x2;
                        x4 = modRec (int nr) (\<lambda>q. q\<lparr>rcOff := length (anArena x3), rcKlen := klen, rcSlotPos := int pos,
                               rcEid := eid, rcLive := True\<rparr>) x3;
                        x5 = x4\<lparr>anArena := anArena x4 @ put_be 4 aid @ val, anSlots := (anSlots x4)[pos := int nr],
                               anLive := anLive x4 + 1, anCurBytes := anCurBytes x4 + entryBytes\<rparr>
                    in Some (lruPush (int nr) x5))))"

definition anClear :: "AnchorIndex \<Rightarrow> AnchorIndex" where
  "anClear x = x\<lparr>anSlots := replicate minSlots emptySlot, anMask := minSlots - 1, anLive := 0, anTombs := 0, anRecs := [],
     anFree := [], anArena := [], anHead := -1, anTail := -1, anCurBytes := 0\<rparr>"

section \<open>Linear probing\<close>

text \<open>
  \<open>reach slots b p\<close>: a search that starts at slot \<open>b\<close> gets to slot \<open>p\<close> without meeting an empty slot. In a well-placed
  table every live record is reached from the slot its key hashes to.
\<close>

definition reach :: "int list \<Rightarrow> nat \<Rightarrow> nat \<Rightarrow> bool" where
  "reach slots b p \<longleftrightarrow> (\<exists>d. p = (b + d) mod length slots \<and> (\<forall>j < d. slots ! ((b + j) mod length slots) \<noteq> -1))"

definition home :: "bytes \<Rightarrow> nat" where
  "home k = unat (fnvBytes k)"

definition placed :: "int list \<Rightarrow> nat set \<Rightarrow> (nat \<Rightarrow> bytes) \<Rightarrow> (nat \<Rightarrow> nat) \<Rightarrow> bool" where
  "placed slots L key pos \<longleftrightarrow>
     (\<forall>p < length slots. slots ! p = -1 \<or> slots ! p = -2 \<or> (slots ! p \<ge> 0 \<and> nat (slots ! p) \<in> L \<and> pos (nat (slots ! p)) = p))
     \<and> (\<forall>r \<in> L. pos r < length slots \<and> slots ! pos r = int r \<and> reach slots (home (key r)) (pos r))
     \<and> inj_on key L"

definition capOk :: "int list \<Rightarrow> nat \<Rightarrow> bool" where
  "capOk slots m \<longleftrightarrow> (\<exists>n. length slots = 2 ^ n \<and> m = 2 ^ n - 1)"

lemma and_mask_mod: "capOk slots m \<Longrightarrow> a AND m = a mod length slots"
proof -
  assume "capOk slots m"
  then obtain n where n: "length slots = 2 ^ n" "m = 2 ^ n - 1" by (auto simp: capOk_def)
  have "a AND m = a AND mask n" unfolding n(2) mask_eq_exp_minus_1 ..
  also have "\<dots> = a mod 2 ^ n" by (simp add: take_bit_eq_mask [symmetric] take_bit_eq_mod)
  finally show ?thesis using n(1) by simp
qed

lemma capOk_pos: "capOk slots m \<Longrightarrow> 0 < length slots"
  by (auto simp: capOk_def)

lemma step_mod: "capOk slots m \<Longrightarrow> ((b + j) mod length slots + 1) AND m = (b + Suc j) mod length slots"
  by (simp add: and_mask_mod mod_Suc_eq)

lemma reach_mono:
  assumes "reach slots b p" "length slots' = length slots" "\<And>i. i < length slots \<Longrightarrow> slots ! i \<noteq> -1 \<Longrightarrow> slots' ! i \<noteq> -1" "0 < length slots"
  shows "reach slots' b p"
  using assms unfolding reach_def by (metis mod_less_divisor)

lemma walk_covers: "p < n \<Longrightarrow> \<exists>j. p = (b + j) mod (n :: nat)"
proof -
  assume p: "p < n"
  have "(b + (p + (n - b mod n))) mod n = (b mod n + (p + (n - b mod n))) mod n"
    by (rule mod_add_left_eq [symmetric])
  also have "b mod n + (p + (n - b mod n)) = p + n" using p mod_less_divisor [of n b] by linarith
  finally show ?thesis using p by (metis mod_add_self2 mod_less)
qed

lemma placed_kill:
  assumes "placed slots L key pos" "r \<in> L" "0 < length slots"
  shows "placed (slots[pos r := -2]) (L - {r}) key pos"
proof -
  have other: "pos q \<noteq> pos r" if "q \<in> L" "q \<noteq> r" for q using assms that unfolding placed_def by (metis of_nat_eq_iff)
  have other': "pos r \<noteq> pos q" if "q \<in> L" "q \<noteq> r" for q using other [OF that] by simp
  have pr: "pos r < length slots" using assms(1,2) by (simp add: placed_def)
  have reach: "reach (slots[pos r := -2]) b p" if "reach slots b p" for b p
    using that by (rule reach_mono) (use pr in \<open>auto simp: nth_list_update\<close>)
  show ?thesis unfolding placed_def
  proof (intro conjI ballI allI impI)
    show "inj_on key (L - {r})" using assms(1) by (auto simp: placed_def intro: inj_on_subset)
    show "pos q < length (slots[pos r := -2])" "slots[pos r := -2] ! pos q = int q" "reach (slots[pos r := -2]) (home (key q)) (pos q)"
      if "q \<in> L - {r}" for q using assms(1) that other' reach pr by (auto simp: placed_def nth_list_update)
  next
    fix p assume "p < length (slots[pos r := -2])"
    then show "slots[pos r := -2] ! p = -1 \<or> slots[pos r := -2] ! p = -2 \<or> slots[pos r := -2] ! p \<ge> 0
      \<and> nat (slots[pos r := -2] ! p) \<in> L - {r} \<and> pos (nat (slots[pos r := -2] ! p)) = p"
      using assms(1) pr by (auto simp: placed_def nth_list_update)
  qed
qed

lemma placed_insert:
  assumes "placed slots L key pos" "r \<notin> L" "p < length slots" "slots ! p < 0" "reach slots (home k) p" "k \<notin> key ` L"
  shows "placed (slots[p := int r]) (insert r L) (key(r := k)) (pos(r := p))"
proof -
  have other: "pos q \<noteq> p" if "q \<in> L" for q using assms that unfolding placed_def by (metis of_nat_less_0_iff)
  have reach: "reach (slots[p := int r]) b q" if "reach slots b q" for b q
    using that by (rule reach_mono) (use assms(3) in \<open>auto simp: nth_list_update\<close>)
  have "inj_on (key(r := k)) (insert r L)" using assms unfolding placed_def by (auto simp: inj_on_def)
  then show ?thesis using assms other reach unfolding placed_def
    by (auto simp: nth_list_update)
qed

section \<open>The search ends\<close>

definition liveRecs :: "AnchorIndex \<Rightarrow> nat set" where
  "liveRecs x = {r. r < length (anRecs x) \<and> rcLive (anRecs x ! r)}"

definition akey :: "AnchorIndex \<Rightarrow> nat \<Rightarrow> bytes" where
  "akey x r = slice (anArena x) (rcOff (anRecs x ! r)) (rcOff (anRecs x ! r) + rcKlen (anRecs x ! r))"

definition apos :: "AnchorIndex \<Rightarrow> nat \<Rightarrow> nat" where
  "apos x r = nat (rcSlotPos (anRecs x ! r))"

definition tableOk :: "AnchorIndex \<Rightarrow> bool" where
  "tableOk x \<longleftrightarrow> capOk (anSlots x) (anMask x) \<and> placed (anSlots x) (liveRecs x) (akey x) (apos x)
     \<and> (\<forall>r \<in> liveRecs x. rcOff (anRecs x ! r) + rcKlen (anRecs x ! r) \<le> length (anArena x) \<and> 0 \<le> rcSlotPos (anRecs x ! r))"

lemma keyEq_akey:
  assumes "tableOk x" "r \<in> liveRecs x"
  shows "keyEq x (int r) aid val \<longleftrightarrow> akey x r = put_be 4 aid @ val"
proof -
  let ?rc = "anRecs x ! r"
  have le: "rcOff ?rc + rcKlen ?rc \<le> length (anArena x)" using assms by (simp add: tableOk_def)
  have len: "length (akey x r) = rcKlen ?rc" using le by (simp add: akey_def length_slice)
  show ?thesis
  proof (cases "rcKlen ?rc = 4 + length val")
    case True
    have "akey x r = slice (anArena x) (rcOff ?rc) (rcOff ?rc + 4) @ slice (anArena x) (rcOff ?rc + 4) (rcOff ?rc + 4 + length val)"
      unfolding akey_def True by (simp add: slice_join add.assoc)
    then show ?thesis using True le by (simp add: keyEq_def Let_def length_slice)
  next
    case False
    then have "akey x r \<noteq> put_be 4 aid @ val" using len by (metis length_append length_put_be)
    with False show ?thesis by (simp add: keyEq_def Let_def)
  qed
qed

text \<open>The search goes on past slots that are neither empty nor hold the key, remembering the first tombstone.\<close>

lemma findSlot_walk:
  fixes b :: nat
  assumes "capOk (anSlots x) (anMask x)"
    and "\<And>j. j < n \<Longrightarrow> anSlots x ! ((b + j) mod length (anSlots x)) \<noteq> -1
      \<and> (anSlots x ! ((b + j) mod length (anSlots x)) = -2 \<or> \<not> keyEq x (anSlots x ! ((b + j) mod length (anSlots x))) aid val)"
  shows "\<exists>t. findSlotLoop x aid val (b mod length (anSlots x)) (-1) = findSlotLoop x aid val ((b + n) mod length (anSlots x)) t
    \<and> (t = -1 \<or> (\<exists>j < n. t = int ((b + j) mod length (anSlots x)) \<and> anSlots x ! nat t = -2))"
  using assms(2)
proof (induction n)
  case 0
  then show ?case by auto
next
  case (Suc n)
  let ?q = "(b + n) mod length (anSlots x)"
  obtain t where t: "findSlotLoop x aid val (b mod length (anSlots x)) (-1) = findSlotLoop x aid val ?q t"
    "t = -1 \<or> (\<exists>j < n. t = int ((b + j) mod length (anSlots x)) \<and> anSlots x ! nat t = -2)"
    using Suc.IH Suc.prems by (metis less_SucI)
  let ?t = "if anSlots x ! ?q = -2 \<and> t < 0 then int ?q else t"
  have "findSlotLoop x aid val ?q t = findSlotLoop x aid val ((b + Suc n) mod length (anSlots x)) ?t"
    using Suc.prems [of n] step_mod [OF assms(1), of b n]
    by (subst findSlotLoop.simps) (auto simp: Let_def emptySlot_def tombSlot_def)
  moreover have "?t = -1 \<or> (\<exists>j < Suc n. ?t = int ((b + j) mod length (anSlots x)) \<and> anSlots x ! nat ?t = -2)"
    using t(2) by (auto simp: less_Suc_eq)
  ultimately show ?case unfolding t(1) by (intro exI [of _ ?t] conjI)
qed

lemma find_spec:
  fixes aid :: uint32 and val :: bytes
  assumes ok: "tableOk x" and e: "p0 < length (anSlots x)" "anSlots x ! p0 = -1"
  defines "k \<equiv> put_be 4 aid @ val"
  shows "\<exists>pos r tomb. findSlot x aid val (fnv aid val) = Some (pos, r, tomb)
    \<and> (if r \<ge> 0 then nat r \<in> liveRecs x \<and> akey x (nat r) = k
       else r = -1 \<and> k \<notin> akey x ` liveRecs x \<and> pos < length (anSlots x) \<and> anSlots x ! pos < 0 \<and> reach (anSlots x) (home k) pos)"
proof -
  let ?s = "anSlots x" and ?b = "home k"
  let ?q = "\<lambda>j. (home k + j) mod length (anSlots x)"
  have cap: "capOk ?s (anMask x)" and pl: "placed ?s (liveRecs x) (akey x) (apos x)" using ok by (auto simp: tableOk_def)
  have pos: "0 < length ?s" using cap by (rule capOk_pos)
  define stop where "stop j \<longleftrightarrow> ?s ! ?q j = -1 \<or> (?s ! ?q j \<noteq> -2 \<and> keyEq x (?s ! ?q j) aid val)" for j
  have "\<exists>j. stop j" using walk_covers [OF e(1), of ?b] e(2) by (auto simp: stop_def)
  define N where "N = (LEAST j. stop j)"
  have N: "stop N" and before: "\<And>j. j < N \<Longrightarrow> \<not> stop j"
    using \<open>\<exists>j. stop j\<close> by (auto simp: N_def intro: LeastI_ex dest: not_less_Least)
  obtain t where t: "findSlotLoop x aid val (?b mod length ?s) (-1) = findSlotLoop x aid val (?q N) t"
    "t = -1 \<or> (\<exists>j < N. t = int (?q j) \<and> ?s ! nat t = -2)"
    using findSlot_walk [OF cap, of N ?b aid val] before by (auto simp: stop_def)
  have start: "findSlot x aid val (fnv aid val) = findSlotLoop x aid val (?q N) t"
    using t(1) by (simp add: findSlot_def and_mask_mod [OF cap] home_def fnv_def k_def)
  have slot: "?s ! ?q N = -1 \<or> ?s ! ?q N = -2 \<or> ?s ! ?q N \<ge> 0 \<and> nat (?s ! ?q N) \<in> liveRecs x"
    using pl pos unfolding placed_def by (meson mod_less_divisor)
  show ?thesis
  proof (cases "?s ! ?q N = -1")
    case False
    then have l: "?s ! ?q N \<ge> 0" "nat (?s ! ?q N) \<in> liveRecs x" "keyEq x (?s ! ?q N) aid val" using N slot by (auto simp: stop_def)
    then have "akey x (nat (?s ! ?q N)) = k" using keyEq_akey [OF ok l(2), of aid val] by (simp add: k_def)
    moreover have "findSlotLoop x aid val (?q N) t = Some (?q N, ?s ! ?q N, t)"
      using l False by (subst findSlotLoop.simps) (simp add: Let_def emptySlot_def tombSlot_def)
    ultimately show ?thesis using l start by simp
  next
    case True
    let ?p = "if t \<ge> 0 then nat t else ?q N"
    have r: "findSlotLoop x aid val (?q N) t = Some (?p, -1, t)"
      using True by (subst findSlotLoop.simps) (simp add: Let_def emptySlot_def)
    have nonempty: "?s ! ?q j \<noteq> -1" if "j < N" for j using before [OF that] by (simp add: stop_def)
    have "k \<notin> akey x ` liveRecs x"
    proof
      assume "k \<in> akey x ` liveRecs x"
      then obtain r where r: "r \<in> liveRecs x" "akey x r = k" by auto
      then obtain d where d: "apos x r = ?q d" "\<forall>j < d. ?s ! ?q j \<noteq> -1" and sr: "?s ! apos x r = int r"
        using pl by (auto simp: placed_def reach_def)
      have "stop d" using d(1) sr keyEq_akey [OF ok r(1), of aid val] r(2) by (simp add: stop_def k_def)
      then have "N \<le> d" using before not_le by blast
      then show False using d True sr by (cases "N = d") auto
    qed
    moreover have "?p < length ?s \<and> ?s ! ?p < 0 \<and> reach ?s ?b ?p"
    proof (cases "t \<ge> 0")
      case True
      then obtain j where "j < N" "t = int (?q j)" "?s ! nat t = -2" using t(2) by auto
      then show ?thesis using pos nonempty True by (auto simp: reach_def intro!: exI [of _ j])
    next
      case False
      then show ?thesis using pos nonempty True by (auto simp: reach_def intro!: exI [of _ N])
    qed
    ultimately show ?thesis using start r by simp
  qed
qed

section \<open>The list in order of use is well linked\<close>

definition firstOf :: "nat list \<Rightarrow> int" where
  "firstOf xs = (case xs of [] \<Rightarrow> -1 | i # _ \<Rightarrow> int i)"

definition lastOf :: "nat list \<Rightarrow> int" where
  "lastOf xs = (if xs = [] then -1 else int (last xs))"

definition linked :: "arec list \<Rightarrow> int \<Rightarrow> int \<Rightarrow> nat list \<Rightarrow> bool" where
  "linked recs h t xs \<longleftrightarrow> distinct xs \<and> (\<forall>i \<in> set xs. i < length recs) \<and> h = firstOf xs \<and> t = lastOf xs
     \<and> (\<forall>as i bs. xs = as @ i # bs \<longrightarrow> rcPrev (recs ! i) = lastOf as \<and> rcNext (recs ! i) = firstOf bs)"

lemma ends_simps [simp]:
  "firstOf [] = -1" "firstOf (i # xs) = int i" "lastOf [] = -1" "lastOf (xs @ [i]) = int i"
  "firstOf xs \<noteq> -2" "firstOf xs = -1 \<longleftrightarrow> xs = []" "lastOf xs = -1 \<longleftrightarrow> xs = []"
  "0 \<le> firstOf xs \<longleftrightarrow> xs \<noteq> []" "0 \<le> lastOf xs \<longleftrightarrow> xs \<noteq> []"
  by (auto simp: firstOf_def lastOf_def split: list.splits)

lemma ends_append: "firstOf (xs @ ys) = (if xs = [] then firstOf ys else firstOf xs)"
  "lastOf (xs @ ys) = (if ys = [] then lastOf xs else lastOf ys)"
  "lastOf (i # xs) = (if xs = [] then int i else lastOf xs)"
  by (auto simp: firstOf_def lastOf_def split: list.splits)

lemma ends_in: "xs \<noteq> [] \<Longrightarrow> nat (firstOf xs) \<in> set xs" "xs \<noteq> [] \<Longrightarrow> nat (lastOf xs) \<in> set xs"
  by (auto simp: firstOf_def lastOf_def split: list.splits)

definition core :: "arec \<Rightarrow> nat \<times> nat \<times> int \<times> int64 \<times> bool" where
  "core rc = (rcOff rc, rcKlen rc, rcSlotPos rc, rcEid rc, rcLive rc)"

lemma core_update [simp]: "core (rc\<lparr>rcPrev := p\<rparr>) = core rc" "core (rc\<lparr>rcNext := p\<rparr>) = core rc"
  by (simp_all add: core_def)

lemma modRec_nth: "j < length (anRecs x) \<Longrightarrow> anRecs (modRec i f x) ! j = (if j = nat i then f (anRecs x ! j) else anRecs x ! j)"
  by (auto simp: modRec_def nth_list_update_if)

lemma modRec_fields [simp]:
  "length (anRecs (modRec i f x)) = length (anRecs x)" "anSlots (modRec i f x) = anSlots x" "anMask (modRec i f x) = anMask x"
  "anLive (modRec i f x) = anLive x" "anTombs (modRec i f x) = anTombs x" "anFree (modRec i f x) = anFree x"
  "anArena (modRec i f x) = anArena x" "anHead (modRec i f x) = anHead x" "anTail (modRec i f x) = anTail x"
  "anMaxBytes (modRec i f x) = anMaxBytes x" "anCurBytes (modRec i f x) = anCurBytes x"
  by (simp_all add: modRec_def)

lemma lruUnlink_linked:
  assumes "linked (anRecs x) (anHead x) (anTail x) (as @ i # bs)"
  shows "linked (anRecs (lruUnlink (int i) x)) (anHead (lruUnlink (int i) x)) (anTail (lruUnlink (int i) x)) (as @ bs)"
    and "map core (anRecs (lruUnlink (int i) x)) = map core (anRecs x)"
proof -
  let ?x = "lruUnlink (int i) x" and ?n = "length (anRecs x)"
  have d: "distinct (as @ i # bs)" and lt: "\<And>j. j \<in> set (as @ i # bs) \<Longrightarrow> j < ?n"
    and ht: "anHead x = firstOf (as @ i # bs)" "anTail x = lastOf (as @ i # bs)"
    and lk: "\<And>cs j ds. as @ i # bs = cs @ j # ds \<Longrightarrow> rcPrev (anRecs x ! j) = lastOf cs \<and> rcNext (anRecs x ! j) = firstOf ds"
    using assms unfolding linked_def by blast+
  have pn: "rcPrev (anRecs x ! i) = lastOf as" "rcNext (anRecs x ! i) = firstOf bs" using lk [of as i bs] by simp_all
  have recs: "anRecs ?x ! j = (let rc = anRecs x ! j;
      rc1 = (if as \<noteq> [] \<and> j = nat (lastOf as) then rc\<lparr>rcNext := firstOf bs\<rparr> else rc);
      rc2 = (if bs \<noteq> [] \<and> j = nat (firstOf bs) then rc1\<lparr>rcPrev := lastOf as\<rparr> else rc1)
      in if j = i then rc2\<lparr>rcPrev := -1, rcNext := -1\<rparr> else rc2)" if "j < ?n" for j
    using that by (cases "as = []"; cases "bs = []") (simp_all add: lruUnlink_def Let_def pn modRec_nth)
  have len: "length (anRecs ?x) = ?n" by (simp add: lruUnlink_def Let_def)
  show "map core (anRecs ?x) = map core (anRecs x)"
    by (rule nth_equalityI) (auto simp: len recs Let_def)
  have hd: "anHead ?x = firstOf (as @ bs)" "anTail ?x = lastOf (as @ bs)"
    by (simp_all add: lruUnlink_def Let_def pn ht ends_append)
  have "rcPrev (anRecs ?x ! j) = lastOf cs \<and> rcNext (anRecs ?x ! j) = firstOf ds" if eq: "as @ bs = cs @ j # ds" for cs j ds
  proof -
    have j: "j \<in> set (as @ bs)" unfolding eq by simp
    then have "j < ?n" "j \<noteq> i" using lt d by auto
    from eq obtain us where "as = cs @ us \<and> us @ bs = j # ds \<or> as @ us = cs \<and> bs = us @ j # ds"
      unfolding append_eq_append_conv2 by blast
    then consider es where "as = cs @ j # es" "ds = es @ bs" | es where "cs = as @ es" "bs = es @ j # ds"
      by (cases us) auto
    then show ?thesis
    proof cases
      case 1
      have "j \<noteq> nat (firstOf bs)" if "bs \<noteq> []" using ends_in(1) [OF that] 1(1) d by auto
      moreover have "j = nat (lastOf as) \<longleftrightarrow> es = []" using 1(1) d ends_in(2) [of es] by (auto simp: ends_append)
      moreover have "as @ i # bs = cs @ j # (es @ i # bs)" using 1(1) by simp
      ultimately show ?thesis using recs [OF \<open>j < ?n\<close>] \<open>j \<noteq> i\<close> lk [of cs j "es @ i # bs"] 1
        by (auto simp: Let_def ends_append)
    next
      case 2
      have "j \<noteq> nat (lastOf as)" if "as \<noteq> []" using ends_in(2) [OF that] 2(2) d by auto
      moreover have "j = nat (firstOf bs) \<longleftrightarrow> es = []" using 2(2) d ends_in(1) [of es] by (auto simp: ends_append)
      moreover have "as @ i # bs = (as @ i # es) @ j # ds" using 2(2) by simp
      ultimately show ?thesis using recs [OF \<open>j < ?n\<close>] \<open>j \<noteq> i\<close> lk [of "as @ i # es" j ds] 2
        by (auto simp: Let_def ends_append)
    qed
  qed
  then show "linked (anRecs ?x) (anHead ?x) (anTail ?x) (as @ bs)"
    unfolding linked_def using d lt hd len by auto
qed

lemma lruPush_linked:
  assumes "linked (anRecs x) (anHead x) (anTail x) xs" "i \<notin> set xs" "i < length (anRecs x)"
  shows "linked (anRecs (lruPush (int i) x)) (anHead (lruPush (int i) x)) (anTail (lruPush (int i) x)) (i # xs)"
    and "map core (anRecs (lruPush (int i) x)) = map core (anRecs x)"
proof -
  let ?x = "lruPush (int i) x" and ?n = "length (anRecs x)"
  have d: "distinct xs" and lt: "\<And>j. j \<in> set xs \<Longrightarrow> j < ?n" and ht: "anHead x = firstOf xs" "anTail x = lastOf xs"
    and lk: "\<And>cs j ds. xs = cs @ j # ds \<Longrightarrow> rcPrev (anRecs x ! j) = lastOf cs \<and> rcNext (anRecs x ! j) = firstOf ds"
    using assms(1) unfolding linked_def by blast+
  have recs: "anRecs ?x ! j = (if j = i then (anRecs x ! i)\<lparr>rcPrev := -1, rcNext := firstOf xs\<rparr>
      else if xs \<noteq> [] \<and> j = nat (firstOf xs) then (anRecs x ! j)\<lparr>rcPrev := int i\<rparr> else anRecs x ! j)" if "j < ?n" for j
    using that assms(2) ends_in(1) [of xs] by (cases "xs = []") (auto simp: lruPush_def Let_def ht modRec_nth)
  have len: "length (anRecs ?x) = ?n" by (simp add: lruPush_def Let_def)
  show "map core (anRecs ?x) = map core (anRecs x)"
    by (rule nth_equalityI) (auto simp: len recs core_def)
  have hd: "anHead ?x = int i" "anTail ?x = lastOf (i # xs)"
    by (simp_all add: lruPush_def Let_def ht ends_append)
  have "rcPrev (anRecs ?x ! j) = lastOf cs \<and> rcNext (anRecs ?x ! j) = firstOf ds" if eq: "i # xs = cs @ j # ds" for cs j ds
  proof (cases cs)
    case Nil
    then show ?thesis using eq recs [OF assms(3)] by simp
  next
    case (Cons c es)
    then have xs: "xs = es @ j # ds" "c = i" using eq by auto
    then have "j < ?n" "j \<noteq> i" using lt assms(2) by auto
    moreover have "j = nat (firstOf xs) \<longleftrightarrow> es = []" using xs(1) d ends_in(1) [of es] by (auto simp: ends_append)
    ultimately show ?thesis using recs lk [OF xs(1)] Cons xs by (auto simp: ends_append)
  qed
  then show "linked (anRecs ?x) (anHead ?x) (anTail ?x) (i # xs)"
    unfolding linked_def using d lt hd len assms(2,3) by auto
qed

section \<open>The invariant\<close>

definition used :: "int list \<Rightarrow> nat set" where
  "used slots = {p. p < length slots \<and> slots ! p \<noteq> -1}"

definition deadSet :: "AnchorIndex \<Rightarrow> nat set" where
  "deadSet x = {r. r < length (anRecs x) \<and> \<not> rcLive (anRecs x ! r)}"

text \<open>\<open>F\<close> is the record an insertion has taken from the free list and not yet filled; \<open>xs\<close> is the order of use.\<close>

definition anchorInv :: "nat set \<Rightarrow> nat list \<Rightarrow> AnchorIndex \<Rightarrow> bool" where
  "anchorInv F xs x \<longleftrightarrow> tableOk x \<and> linked (anRecs x) (anHead x) (anTail x) xs \<and> set xs = liveRecs x
     \<and> distinct (anFree x) \<and> set (anFree x) = deadSet x - F \<and> F \<subseteq> deadSet x
     \<and> anLive x = int (card (liveRecs x)) \<and> 0 \<le> anTombs x
     \<and> int (card (used (anSlots x))) \<le> anLive x + anTombs x \<and> anLive x + anTombs x < int (length (anSlots x))
     \<and> anCurBytes x = (\<Sum>r \<in> liveRecs x. recBytes (rcKlen (anRecs x ! r)))"

lemma finite_live [simp]: "finite (liveRecs x)" "finite (used slots)"
  by (simp_all add: liveRecs_def used_def)

lemma placed_cong:
  "(\<And>r. r \<in> L \<Longrightarrow> key' r = key r \<and> pos' r = pos r) \<Longrightarrow> placed slots L key pos \<Longrightarrow> placed slots L key' pos'"
  unfolding placed_def by (auto simp: inj_on_def)

lemma core_eq:
  assumes "core a = core b"
  shows "rcOff a = rcOff b" "rcKlen a = rcKlen b" "rcSlotPos a = rcSlotPos b" "rcEid a = rcEid b" "rcLive a = rcLive b"
  using assms by (simp_all add: core_def)

text \<open>An index in which only the links and counters changed is the same table.\<close>

lemma same_core:
  assumes "map core (anRecs x') = map core (anRecs x)" "anArena x' = anArena x"
  shows "length (anRecs x') = length (anRecs x)" "liveRecs x' = liveRecs x" "deadSet x' = deadSet x"
    and "r < length (anRecs x) \<Longrightarrow> akey x' r = akey x r \<and> apos x' r = apos x r \<and> core (anRecs x' ! r) = core (anRecs x ! r)"
proof -
  show len: "length (anRecs x') = length (anRecs x)" using assms(1) by (metis length_map)
  have c: "core (anRecs x' ! r) = core (anRecs x ! r)" if "r < length (anRecs x)" for r
    using assms(1) len that by (metis nth_map)
  note f = core_eq [OF c]
  show "liveRecs x' = liveRecs x" "deadSet x' = deadSet x" using f by (auto simp: liveRecs_def deadSet_def len)
  show "akey x' r = akey x r \<and> apos x' r = apos x r \<and> core (anRecs x' ! r) = core (anRecs x ! r)" if "r < length (anRecs x)"
    using f [OF that] c [OF that] assms(2) by (simp add: akey_def apos_def)
qed

lemma tableOk_same:
  assumes "tableOk x" "map core (anRecs x') = map core (anRecs x)" "anArena x' = anArena x" "anSlots x' = anSlots x" "anMask x' = anMask x"
  shows "tableOk x'"
proof -
  note s = same_core [OF assms(2,3)]
  have live: "r < length (anRecs x)" if "r \<in> liveRecs x" for r using that by (simp add: liveRecs_def)
  have "placed (anSlots x) (liveRecs x) (akey x') (apos x')"
    by (rule placed_cong [of _ _ "akey x" _ "apos x"]) (use assms(1) live s(4) in \<open>auto simp: tableOk_def\<close>)
  then show ?thesis using assms s(2) live s(4) [THEN conjunct2, THEN conjunct2, THEN core_eq(1)]
    s(4) [THEN conjunct2, THEN conjunct2, THEN core_eq(2)] s(4) [THEN conjunct2, THEN conjunct2, THEN core_eq(3)]
    by (simp add: tableOk_def)
qed

lemma inv_same:
  assumes "anchorInv F xs x" "map core (anRecs x') = map core (anRecs x)" "anArena x' = anArena x" "anSlots x' = anSlots x" "anMask x' = anMask x"
    "anFree x' = anFree x" "anLive x' = anLive x" "anTombs x' = anTombs x" "anCurBytes x' = anCurBytes x"
    "linked (anRecs x') (anHead x') (anTail x') ys" "set ys = set xs"
  shows "anchorInv F ys x'"
proof -
  note s = same_core [OF assms(2,3)]
  have "rcKlen (anRecs x' ! r) = rcKlen (anRecs x ! r)" if "r \<in> liveRecs x" for r
    using s(4) [THEN conjunct2, THEN conjunct2, THEN core_eq(2)] that by (simp add: liveRecs_def)
  then have "(\<Sum>r \<in> liveRecs x. recBytes (rcKlen (anRecs x' ! r))) = (\<Sum>r \<in> liveRecs x. recBytes (rcKlen (anRecs x ! r)))" by simp
  moreover have "tableOk x'" using assms by (intro tableOk_same [of x x']) (simp_all add: anchorInv_def)
  ultimately show ?thesis using assms s(2,3) by (simp add: anchorInv_def)
qed

lemma unlink_fields [simp]:
  "anSlots (lruUnlink i x) = anSlots x" "anMask (lruUnlink i x) = anMask x" "anLive (lruUnlink i x) = anLive x"
  "anTombs (lruUnlink i x) = anTombs x" "anFree (lruUnlink i x) = anFree x" "anArena (lruUnlink i x) = anArena x"
  "anMaxBytes (lruUnlink i x) = anMaxBytes x" "anCurBytes (lruUnlink i x) = anCurBytes x"
  "anSlots (lruPush i x) = anSlots x" "anMask (lruPush i x) = anMask x" "anLive (lruPush i x) = anLive x"
  "anTombs (lruPush i x) = anTombs x" "anFree (lruPush i x) = anFree x" "anArena (lruPush i x) = anArena x"
  "anMaxBytes (lruPush i x) = anMaxBytes x" "anCurBytes (lruPush i x) = anCurBytes x"
  by (simp_all add: lruUnlink_def lruPush_def Let_def)

lemma touch_inv:
  assumes "anchorInv F xs x" "r \<in> liveRecs x"
  shows "\<exists>ys. anchorInv F ys (anTouch (int r) x)" "map core (anRecs (anTouch (int r) x)) = map core (anRecs x)"
    "anArena (anTouch (int r) x) = anArena x" "anMaxBytes (anTouch (int r) x) = anMaxBytes x" "anCurBytes (anTouch (int r) x) = anCurBytes x"
proof -
  have "\<exists>ys. anchorInv F ys (anTouch (int r) x) \<and> map core (anRecs (anTouch (int r) x)) = map core (anRecs x)"
  proof (cases "anHead x = int r")
    case True
    then show ?thesis using assms(1) by (auto simp: anTouch_def)
  next
    case False
    have l: "linked (anRecs x) (anHead x) (anTail x) xs" and "r \<in> set xs" using assms by (auto simp: anchorInv_def)
    then obtain as bs where xs: "xs = as @ r # bs" by (meson split_list)
    let ?u = "lruUnlink (int r) x"
    note u = lruUnlink_linked [OF l [unfolded xs]]
    have "distinct xs" "r < length (anRecs x)" using l xs by (auto simp: linked_def)
    then have "r \<notin> set (as @ bs)" "r < length (anRecs ?u)" using xs same_core(1) [OF u(2)] by auto
    note p = lruPush_linked [OF u(1) this]
    have "anchorInv F (r # as @ bs) (lruPush (int r) ?u)"
      by (rule inv_same [OF assms(1)]) (use u p xs in auto)
    then show ?thesis using False u(2) p(2) by (auto simp: anTouch_def)
  qed
  then show "\<exists>ys. anchorInv F ys (anTouch (int r) x)" "map core (anRecs (anTouch (int r) x)) = map core (anRecs x)" by blast+
  show "anArena (anTouch (int r) x) = anArena x" "anMaxBytes (anTouch (int r) x) = anMaxBytes x" "anCurBytes (anTouch (int r) x) = anCurBytes x"
    by (simp_all add: anTouch_def)
qed

lemma linked_cong:
  assumes "linked recs h t xs" "length recs \<le> length recs'"
    "\<And>i. i \<in> set xs \<Longrightarrow> rcPrev (recs' ! i) = rcPrev (recs ! i) \<and> rcNext (recs' ! i) = rcNext (recs ! i)"
  shows "linked recs' h t xs"
  unfolding linked_def
proof (intro conjI allI impI)
  fix as i bs assume xs: "xs = as @ i # bs"
  then have "i \<in> set xs" by simp
  with xs show "rcPrev (recs' ! i) = lastOf as" "rcNext (recs' ! i) = firstOf bs"
    using assms(1,3) by (auto simp: linked_def)
qed (use assms in \<open>auto simp: linked_def\<close>)

lemma kill_inv:
  assumes "anchorInv F xs x" "r \<in> liveRecs x"
  defines "y \<equiv> killRec (int r) x"
  shows "\<exists>ys. anchorInv F ys y" "liveRecs y = liveRecs x - {r}" "anMaxBytes y = anMaxBytes x" "anLive y = anLive x - 1"
    "anCurBytes y = anCurBytes x - recBytes (rcKlen (anRecs x ! r))" "length (anSlots y) = length (anSlots x)" "anFree y = anFree x @ [r]"
    and "\<And>q. q \<in> liveRecs y \<Longrightarrow> akey y q = akey x q \<and> rcEid (anRecs y ! q) = rcEid (anRecs x ! q)"
    and "\<And>p. p < length (anSlots x) \<Longrightarrow> anSlots x ! p \<noteq> -1 \<Longrightarrow> anSlots y ! p \<noteq> -1"
    and "\<And>p. anSlots x ! p < 0 \<Longrightarrow> anSlots y ! p < 0" "length (anRecs y) = length (anRecs x)" "anArena y = anArena x"
    "anLive y + anTombs y = anLive x + anTombs x" "anMask y = anMask x"
proof -
  have ok: "tableOk x" and l: "linked (anRecs x) (anHead x) (anTail x) xs" and set: "set xs = liveRecs x"
    and inv: "distinct (anFree x)" "set (anFree x) = deadSet x - F" "F \<subseteq> deadSet x" "anLive x = int (card (liveRecs x))" "0 \<le> anTombs x"
      "int (card (used (anSlots x))) \<le> anLive x + anTombs x" "anLive x + anTombs x < int (length (anSlots x))"
      "anCurBytes x = (\<Sum>r \<in> liveRecs x. recBytes (rcKlen (anRecs x ! r)))"
    using assms(1) by (auto simp: anchorInv_def)
  have "r \<in> set xs" using set assms(2) by simp
  then obtain as bs where xs: "xs = as @ r # bs" by (meson split_list)
  define x1 where "x1 = x\<lparr>anSlots := (anSlots x)[nat (rcSlotPos (anRecs x ! r)) := tombSlot], anTombs := anTombs x + 1\<rparr>"
  have l1: "linked (anRecs x1) (anHead x1) (anTail x1) (as @ r # bs)" using l by (simp add: x1_def xs)
  note u = lruUnlink_linked [OF l1]
  have rl: "r < length (anRecs x)" using assms(2) by (simp add: liveRecs_def)
  have len: "length (anRecs y) = length (anRecs x)" using same_core(1) [OF u(2)]
    by (simp add: y_def killRec_def Let_def x1_def)
  have recs: "anRecs y ! q = (if q = r then (anRecs (lruUnlink (int r) x1) ! q)\<lparr>rcLive := False, rcPrev := -1, rcNext := -1, rcSlotPos := emptySlot\<rparr>
      else anRecs (lruUnlink (int r) x1) ! q)" if "q < length (anRecs x)" for q
    using that same_core(1) [OF u(2)] modRec_nth [of q "lruUnlink (int r) x1" "int r"]
    by (simp add: y_def killRec_def Let_def x1_def)
  have core: "core (anRecs (lruUnlink (int r) x1) ! q) = core (anRecs x ! q)" if "q < length (anRecs x)" for q
    using same_core(4) [OF u(2)] that by (simp add: x1_def)
  note c = core_eq [OF core]
  have slots: "anSlots y = (anSlots x)[apos x r := -2]"
    by (simp add: y_def killRec_def Let_def x1_def apos_def tombSlot_def)
  show arena: "anArena y = anArena x" "anMask y = anMask x" "anMaxBytes y = anMaxBytes x" "anLive y = anLive x - 1"
    "anFree y = anFree x @ [r]" "anLive y + anTombs y = anLive x + anTombs x"
    by (simp_all add: y_def killRec_def Let_def x1_def)
  show live: "liveRecs y = liveRecs x - {r}" using recs c by (auto simp: liveRecs_def len split: if_splits)
  have dead: "deadSet y = insert r (deadSet x)" using recs c rl by (auto simp: deadSet_def len split: if_splits)
  have key: "akey y q = akey x q \<and> apos y q = apos x q \<and> rcEid (anRecs y ! q) = rcEid (anRecs x ! q) \<and> anRecs y ! q = anRecs (lruUnlink (int r) x1) ! q"
    if "q \<in> liveRecs y" for q
  proof -
    have q: "q < length (anRecs x)" "q \<noteq> r" using that live by (auto simp: liveRecs_def)
    then have "anRecs y ! q = anRecs (lruUnlink (int r) x1) ! q" using recs by simp
    then show ?thesis using c [OF q(1)] arena(1) by (simp add: akey_def apos_def)
  qed
  then show "\<And>q. q \<in> liveRecs y \<Longrightarrow> akey y q = akey x q \<and> rcEid (anRecs y ! q) = rcEid (anRecs x ! q)" by blast
  have cap: "0 < length (anSlots x)" using ok capOk_pos by (auto simp: tableOk_def)
  have pos: "apos x r < length (anSlots x)" "anSlots x ! apos x r = int r" using ok assms(2) by (auto simp: tableOk_def placed_def)
  show keep: "anSlots y ! p \<noteq> -1" if "p < length (anSlots x)" "anSlots x ! p \<noteq> -1" for p using that by (simp add: slots nth_list_update_if)
  show "anSlots y ! p < 0" if "anSlots x ! p < 0" for p using that pos by (cases "p = apos x r") (auto simp: slots)
  show lens: "length (anSlots y) = length (anSlots x)" by (simp add: slots)
  have klen: "rcKlen (anRecs y ! q) = rcKlen (anRecs x ! q)" if "q \<in> liveRecs x" for q
    using that recs c by (auto simp: liveRecs_def)
  show cur: "anCurBytes y = anCurBytes x - recBytes (rcKlen (anRecs x ! r))"
    using c(2) [OF rl] same_core(1) [OF u(2)] rl by (simp add: y_def killRec_def Let_def modRec_nth x1_def)
  have "placed (anSlots y) (liveRecs x - {r}) (akey x) (apos x)"
    unfolding slots using ok cap assms(2) by (intro placed_kill) (auto simp: tableOk_def)
  then have "placed (anSlots y) (liveRecs y) (akey y) (apos y)"
    unfolding live by (rule placed_cong [rotated]) (use key live in auto)
  moreover have "rcOff (anRecs y ! q) + rcKlen (anRecs y ! q) \<le> length (anArena y) \<and> 0 \<le> rcSlotPos (anRecs y ! q)" if "q \<in> liveRecs y" for q
  proof -
    have "q \<in> liveRecs x" "q < length (anRecs x)" using that live by (auto simp: liveRecs_def)
    then show ?thesis using ok key [OF that] c [of q] arena by (simp add: tableOk_def)
  qed
  ultimately have tab: "tableOk y" using ok arena lens by (simp add: tableOk_def capOk_def)
  have "used (anSlots y) = used (anSlots x)" using pos by (auto simp: used_def slots nth_list_update_if split: if_splits)
  moreover have "linked (anRecs y) (anHead y) (anTail y) (as @ bs)"
  proof -
    have "anRecs y ! q = anRecs (lruUnlink (int r) x1) ! q" if "q \<in> set (as @ bs)" for q
      using that recs u(1) l xs by (auto simp: linked_def)
    moreover have "anHead y = anHead (lruUnlink (int r) x1)" "anTail y = anTail (lruUnlink (int r) x1)"
      by (simp_all add: y_def killRec_def Let_def x1_def)
    ultimately show ?thesis using linked_cong [OF u(1), of "anRecs y"] len same_core(1) [OF u(2)] by (simp add: x1_def)
  qed
  moreover have "set (as @ bs) = liveRecs y" using set xs l live by (auto simp: linked_def)
  moreover have "(\<Sum>q \<in> liveRecs y. recBytes (rcKlen (anRecs y ! q))) = (\<Sum>q \<in> liveRecs x. recBytes (rcKlen (anRecs x ! q))) - recBytes (rcKlen (anRecs x ! r))"
    using klen assms(2) by (simp add: live sum_diff1)
  moreover have "r \<notin> deadSet x" using assms(2) by (simp add: liveRecs_def deadSet_def)
  then have "distinct (anFree y)" "set (anFree y) = deadSet y - F" "F \<subseteq> deadSet y"
    using inv(1-3) unfolding arena dead by auto
  moreover have "anLive y = int (card (liveRecs y))"
  proof -
    have "0 < card (liveRecs x)" using assms(2) by (auto simp: card_gt_0_iff)
    then show ?thesis using inv(4) assms(2) unfolding arena live by (simp add: card_Diff_singleton of_nat_diff)
  qed
  moreover have "0 \<le> anTombs y" using inv(5) arena by simp
  ultimately have "anchorInv F (as @ bs) y"
    unfolding anchorInv_def using tab inv(6-8) arena cur lens by simp
  then show "\<exists>ys. anchorInv F ys y" ..
  show "length (anRecs y) = length (anRecs x)" by (rule len)
qed

section \<open>Eviction\<close>

text \<open>The index \<open>y\<close> is \<open>x\<close> with some records removed.\<close>

definition shrinks :: "AnchorIndex \<Rightarrow> AnchorIndex \<Rightarrow> bool" where
  "shrinks x y \<longleftrightarrow> liveRecs y \<subseteq> liveRecs x
     \<and> (\<forall>q \<in> liveRecs y. akey y q = akey x q \<and> rcEid (anRecs y ! q) = rcEid (anRecs x ! q))
     \<and> length (anSlots y) = length (anSlots x) \<and> length (anRecs y) = length (anRecs x) \<and> anArena y = anArena x
     \<and> anMaxBytes y = anMaxBytes x \<and> anMask y = anMask x \<and> anLive y + anTombs y = anLive x + anTombs x
     \<and> (\<forall>p < length (anSlots x). anSlots x ! p \<noteq> -1 \<longrightarrow> anSlots y ! p \<noteq> -1) \<and> (\<forall>p. anSlots x ! p < 0 \<longrightarrow> anSlots y ! p < 0)"

lemma shrinks_refl: "shrinks x x"
  by (simp add: shrinks_def)

lemma shrinks_trans: "shrinks x y \<Longrightarrow> shrinks y z \<Longrightarrow> shrinks x z"
  unfolding shrinks_def by (intro conjI; force)

lemma shrinks_kill: "anchorInv F xs x \<Longrightarrow> r \<in> liveRecs x \<Longrightarrow> shrinks x (killRec (int r) x)"
  using kill_inv [of F xs x r] unfolding shrinks_def by auto

lemma view_counters [simp]:
  "anchorInv F xs (x\<lparr>anEvict := n\<rparr>) = anchorInv F xs x" "anchorInv F xs (x\<lparr>anHits := n\<rparr>) = anchorInv F xs x"
  "anchorInv F xs (x\<lparr>anMisses := n\<rparr>) = anchorInv F xs x" "anchorInv F xs (x\<lparr>anRejected := n\<rparr>) = anchorInv F xs x"
  "shrinks z (x\<lparr>anEvict := n\<rparr>) = shrinks z x" "liveRecs (x\<lparr>anEvict := n\<rparr>) = liveRecs x"
  "akey (x\<lparr>anEvict := n\<rparr>) = akey x"
  by (simp_all add: anchorInv_def tableOk_def liveRecs_def deadSet_def akey_def [abs_def] apos_def [abs_def] shrinks_def)

lemma tail_live:
  assumes "anchorInv F xs x" "0 < anLive x"
  shows "\<exists>r \<in> liveRecs x. anTail x = int r"
proof -
  have "xs \<noteq> []" "anTail x = lastOf xs" "set xs = liveRecs x" using assms by (auto simp: anchorInv_def linked_def)
  then show ?thesis using last_in_set [of xs] by (auto simp: lastOf_def)
qed

lemma evict_inv:
  "anchorInv F xs x \<Longrightarrow> \<exists>ys. anchorInv F ys (evictUntilFits n x) \<and> shrinks x (evictUntilFits n x)
    \<and> (anCurBytes (evictUntilFits n x) + n \<le> anMaxBytes x \<or> liveRecs (evictUntilFits n x) = {})
    \<and> (\<exists>dead. anFree (evictUntilFits n x) = anFree x @ dead)"
proof (induction n x arbitrary: xs rule: evictUntilFits.induct)
  case (1 n x)
  show ?case
  proof (cases "anCurBytes x + n > anMaxBytes x \<and> anLive x > 0")
    case True
    obtain r where r: "r \<in> liveRecs x" "anTail x = int r" using tail_live "1.prems" True by blast
    let ?k = "killRec (int r) x" let ?x = "?k\<lparr>anEvict := anEvict ?k + 1\<rparr>"
    note k = kill_inv [OF "1.prems" r(1)]
    obtain ys where ys: "anchorInv F ys ?x" using k(1) by auto
    have e: "evictUntilFits n x = evictUntilFits n ?x" using True r(2) by (simp add: evictUntilFits.simps [of n x] Let_def)
    have s: "shrinks x ?x" using shrinks_kill [OF "1.prems" r(1)] by simp
    show ?thesis using "1.IH" [OF True, of ?k ys] r(2) ys shrinks_trans [OF s] k(3,7) unfolding e by auto
  next
    case False
    have e: "evictUntilFits n x = x" by (subst evictUntilFits.simps) (rule if_not_P [OF False])
    have "liveRecs x = {}" if "\<not> anLive x > 0" using that "1.prems" by (simp add: anchorInv_def card_gt_0_iff)
    then show ?thesis unfolding e using "1.prems" False shrinks_refl by auto
  qed
qed

section \<open>Rehash\<close>

lemma freeSlot_spec:
  assumes "capOk slots m" "p0 < length slots" "slots ! p0 = -1"
  shows "\<exists>p. freeSlot slots m (b AND m) = Some p \<and> p < length slots \<and> slots ! p = -1 \<and> reach slots b p"
proof -
  let ?q = "\<lambda>j. (b + j) mod length slots"
  have "\<exists>j. slots ! ?q j = -1" using walk_covers [OF assms(2), of b] assms(3) by auto
  define N where "N = (LEAST j. slots ! ?q j = -1)"
  have N: "slots ! ?q N = -1" and before: "\<And>j. j < N \<Longrightarrow> slots ! ?q j \<noteq> -1"
    using \<open>\<exists>j. slots ! ?q j = -1\<close> by (auto simp: N_def intro: LeastI_ex dest: not_less_Least)
  have "freeSlot slots m (?q 0) = freeSlot slots m (?q n)" if "n \<le> N" for n
    using that
  proof (induction n)
    case (Suc n)
    then have "freeSlot slots m (?q n) = freeSlot slots m (?q (Suc n))"
      using before [of n] step_mod [OF assms(1), of b n] by (subst freeSlot.simps) (simp add: emptySlot_def)
    then show ?case using Suc by simp
  qed simp
  from this [of N] have "freeSlot slots m (b AND m) = Some (?q N)"
    using N and_mask_mod [OF assms(1), of b] freeSlot.simps [of slots m "?q N"] by (simp add: emptySlot_def)
  then show ?thesis using N before capOk_pos [OF assms(1)] by (auto simp: reach_def)
qed

lemma empty_slot:
  assumes "card (used slots) < length slots"
  shows "\<exists>p < length slots. slots ! p = -1"
proof (rule ccontr)
  assume "\<not> ?thesis"
  then have "used slots = {..< length slots}" by (auto simp: used_def)
  with assms show False by simp
qed

lemma used_update: "p < length slots \<Longrightarrow> v \<noteq> -1 \<Longrightarrow> used (slots[p := v]) = insert p (used slots)"
  by (auto simp: used_def nth_list_update_if split: if_splits)

text \<open>The state of the loop after the live records \<open>D\<close>: they are placed in the new table and their keys copied.\<close>

definition moved :: "AnchorIndex \<Rightarrow> nat \<Rightarrow> nat set \<Rightarrow> int list \<times> arec list \<times> bytes \<Rightarrow> bool" where
  "moved x newCap D = (\<lambda>(slots, recs, arena). length slots = newCap \<and> card (used slots) \<le> card D
     \<and> placed slots D (akey x) (\<lambda>r. nat (rcSlotPos (recs ! r))) \<and> length recs = length (anRecs x)
     \<and> (\<forall>r < length recs. recs ! r = (anRecs x ! r)\<lparr>rcSlotPos := rcSlotPos (recs ! r), rcOff := rcOff (recs ! r)\<rparr>)
     \<and> (\<forall>r \<in> D. slice arena (rcOff (recs ! r)) (rcOff (recs ! r) + rcKlen (anRecs x ! r)) = akey x r
          \<and> rcOff (recs ! r) + rcKlen (anRecs x ! r) \<le> length arena \<and> 0 \<le> rcSlotPos (recs ! r)))"

lemma moved_step:
  assumes m: "moved x newCap D (slots, recs, arena)" and "tableOk x" "r \<in> liveRecs x" "r \<notin> D" "D \<subseteq> liveRecs x"
    and p: "p < length slots" "slots ! p = -1" "reach slots (home (akey x r)) p"
  shows "moved x newCap (insert r D) (slots[p := int r],
    recs[r := (anRecs x ! r)\<lparr>rcSlotPos := int p, rcOff := length arena\<rparr>], arena @ akey x r)"
proof -
  let ?recs = "recs[r := (anRecs x ! r)\<lparr>rcSlotPos := int p, rcOff := length arena\<rparr>]"
  have fin: "finite D" using finite_subset [OF assms(5)] by simp
  have pl: "placed slots D (akey x) (\<lambda>r. nat (rcSlotPos (recs ! r)))" and len: "length recs = length (anRecs x)"
    using m by (auto simp: moved_def)
  have r: "r < length recs" "length (akey x r) = rcKlen (anRecs x ! r)"
    using assms(2,3) len by (auto simp: liveRecs_def tableOk_def akey_def length_slice)
  have inj: "inj_on (akey x) (liveRecs x)" using assms(2) by (auto simp: tableOk_def placed_def)
  then have "akey x r \<notin> akey x ` D" using assms(3-5) by (auto dest: inj_onD)
  then have "placed (slots[p := int r]) (insert r D) ((akey x)(r := akey x r)) ((\<lambda>r. nat (rcSlotPos (recs ! r)))(r := p))"
    using pl p assms(4) by (intro placed_insert) auto
  then have "placed (slots[p := int r]) (insert r D) (akey x) (\<lambda>q. nat (rcSlotPos (?recs ! q)))"
    by (rule placed_cong [rotated]) (use r assms(4) in auto)
  moreover have "card (used (slots[p := int r])) \<le> card (insert r D)"
    using m p fin assms(4) by (simp add: moved_def used_update card_insert_if)
  moreover have "\<forall>q < length ?recs. ?recs ! q = (anRecs x ! q)\<lparr>rcSlotPos := rcSlotPos (?recs ! q), rcOff := rcOff (?recs ! q)\<rparr>"
    using m r by (auto simp: moved_def nth_list_update)
  moreover have "slice (arena @ akey x r) (rcOff (?recs ! q)) (rcOff (?recs ! q) + rcKlen (anRecs x ! q)) = akey x q
      \<and> rcOff (?recs ! q) + rcKlen (anRecs x ! q) \<le> length (arena @ akey x r) \<and> 0 \<le> rcSlotPos (?recs ! q)" if "q \<in> insert r D" for q
  proof (cases "q = r")
    case True
    then show ?thesis using r by (simp add: slice_append_right slice_full)
  next
    case False
    then show ?thesis using that m by (auto simp: moved_def slice_append_left)
  qed
  ultimately show ?thesis using m by (auto simp: moved_def)
qed

lemma rehashLoop_spec:
  assumes "tableOk x" "moved x newCap D st" "distinct rs" "set rs \<inter> D = {}" "set rs \<subseteq> {..< length (anRecs x)}" "D \<subseteq> liveRecs x"
    and "card (liveRecs x) < newCap" "\<exists>n. newCap = 2 ^ n"
  shows "\<exists>st'. rehashLoop x newCap rs st = Some st' \<and> moved x newCap (D \<union> (liveRecs x \<inter> set rs)) st'"
  using assms(2-6)
proof (induction rs arbitrary: D st)
  case Nil
  then show ?case by (cases st) auto
next
  case (Cons r rs)
  obtain slots recs arena where st: "st = (slots, recs, arena)" by (cases st)
  show ?case
  proof (cases "rcLive (anRecs x ! r)")
    case False
    then have "liveRecs x \<inter> set (r # rs) = liveRecs x \<inter> set rs" by (auto simp: liveRecs_def)
    then show ?thesis using Cons False by (simp add: st)
  next
    case True
    then have r: "r \<in> liveRecs x" "r \<notin> D" using Cons.prems by (auto simp: liveRecs_def)
    have len: "length slots = newCap" and cap: "capOk slots (newCap - 1)" using Cons.prems(1) assms(8) by (auto simp: moved_def st capOk_def)
    have "card (used slots) \<le> card D" using Cons.prems(1) by (simp add: moved_def st)
    also have "\<dots> \<le> card (liveRecs x)" using Cons.prems(5) by (simp add: card_mono)
    finally have "\<exists>p < length slots. slots ! p = -1" using assms(7) len by (intro empty_slot) simp
    then obtain p where p: "freeSlot slots (newCap - 1) (home (akey x r) AND (newCap - 1)) = Some p"
      "p < length slots" "slots ! p = -1" "reach slots (home (akey x r)) p"
      using freeSlot_spec [OF cap, of _ "home (akey x r)"] by blast
    let ?st = "(slots[p := int r], recs[r := (anRecs x ! r)\<lparr>rcSlotPos := int p, rcOff := length arena\<rparr>], arena @ akey x r)"
    have "moved x newCap (insert r D) ?st"
      using Cons.prems(1,5) p r assms(1) unfolding st by (intro moved_step)
    then obtain st' where st': "rehashLoop x newCap rs ?st = Some st'" "moved x newCap (insert r D \<union> (liveRecs x \<inter> set rs)) st'"
      using Cons.IH [of "insert r D" ?st] Cons.prems r by auto
    have "rehashLoop x newCap (r # rs) st = rehashLoop x newCap rs ?st"
      using p(1) True by (simp add: st Let_def home_def fnvAt_def akey_def)
    moreover have "insert r D \<union> (liveRecs x \<inter> set rs) = D \<union> (liveRecs x \<inter> set (r # rs))" using r by auto
    ultimately show ?thesis using st' by simp
  qed
qed

text \<open>The contents of the index.\<close>

definition entries :: "AnchorIndex \<Rightarrow> (bytes \<times> int64) set" where
  "entries x = (\<lambda>r. (akey x r, rcEid (anRecs x ! r))) ` liveRecs x"

lemma rehash_inv:
  assumes "anchorInv F xs x" "card (liveRecs x) < newCap" "newCap = 2 ^ n"
  shows "\<exists>y. rehash newCap x = Some y \<and> anchorInv F xs y \<and> entries y = entries x \<and> length (anSlots y) = newCap
    \<and> anLive y = anLive x \<and> anTombs y = 0 \<and> anMaxBytes y = anMaxBytes x \<and> anCurBytes y = anCurBytes x"
proof -
  let ?z = "(replicate newCap (-1), anRecs x, [] :: bytes)"
  have ok: "tableOk x" and l: "linked (anRecs x) (anHead x) (anTail x) xs" and set: "set xs = liveRecs x"
    and inv: "distinct (anFree x)" "set (anFree x) = deadSet x - F" "F \<subseteq> deadSet x" "anLive x = int (card (liveRecs x))"
      "anCurBytes x = (\<Sum>r \<in> liveRecs x. recBytes (rcKlen (anRecs x ! r)))"
    using assms(1) by (auto simp: anchorInv_def)
  have "used (replicate newCap (-1)) = {}" by (auto simp: used_def)
  then have z: "moved x newCap {} ?z" by (simp add: moved_def placed_def)
  have "{0..<length (anRecs x)} \<inter> liveRecs x = liveRecs x" by (auto simp: liveRecs_def)
  then obtain slots recs arena where lp: "rehashLoop x newCap [0..<length (anRecs x)] ?z = Some (slots, recs, arena)"
    "moved x newCap (liveRecs x) (slots, recs, arena)"
    using rehashLoop_spec [OF ok z, of "[0..<length (anRecs x)]"] assms(2,3) by (auto simp: Int_commute lessThan_atLeast0)
  define y where "y = x\<lparr>anSlots := slots, anMask := newCap - 1, anRecs := recs, anArena := arena, anTombs := 0, anRehashes := anRehashes x + 1\<rparr>"
  have y: "rehash newCap x = Some y" using lp(1) by (simp add: rehash_def y_def emptySlot_def)
  have len: "length recs = length (anRecs x)" and rc: "\<And>r. r < length (anRecs x) \<Longrightarrow>
      recs ! r = (anRecs x ! r)\<lparr>rcSlotPos := rcSlotPos (recs ! r), rcOff := rcOff (recs ! r)\<rparr>"
    using lp(2) by (auto simp: moved_def)
  have f: "rcKlen (recs ! r) = rcKlen (anRecs x ! r)" "rcLive (recs ! r) = rcLive (anRecs x ! r)" "rcEid (recs ! r) = rcEid (anRecs x ! r)"
    "rcPrev (recs ! r) = rcPrev (anRecs x ! r)" "rcNext (recs ! r) = rcNext (anRecs x ! r)" if "r < length (anRecs x)" for r
    by (subst rc [OF that], simp)+
  have live: "liveRecs y = liveRecs x" "deadSet y = deadSet x" using f(2) len by (auto simp: liveRecs_def deadSet_def y_def)
  have lt: "r < length (anRecs x)" if "r \<in> liveRecs x" for r using that by (simp add: liveRecs_def)
  have key: "akey y r = akey x r" if "r \<in> liveRecs x" for r using lp(2) that f(1) [OF lt [OF that]] by (auto simp: akey_def y_def moved_def)
  have "placed slots (liveRecs x) (akey y) (apos y)"
    by (rule placed_cong [of _ _ "akey x" _ "\<lambda>r. nat (rcSlotPos (recs ! r))"]) (use lp(2) key in \<open>auto simp: moved_def apos_def y_def\<close>)
  then have tab: "tableOk y" using lp(2) live f(1) lt assms(3) by (auto simp: tableOk_def y_def moved_def capOk_def)
  have "linked recs (anHead x) (anTail x) xs" by (rule linked_cong [OF l]) (use set lt f len in auto)
  moreover have "(\<Sum>r \<in> liveRecs x. recBytes (rcKlen (recs ! r))) = (\<Sum>r \<in> liveRecs x. recBytes (rcKlen (anRecs x ! r)))" using f(1) lt by simp
  ultimately have "anchorInv F xs y" using tab live inv set assms(2) lp(2) unfolding anchorInv_def by (simp add: y_def moved_def)
  moreover have "entries y = entries x" unfolding entries_def live using key f(3) lt by (auto simp: y_def)
  ultimately show ?thesis using y lp(2) by (simp add: y_def moved_def)
qed

lemma grow_inv:
  assumes "anchorInv F xs x"
  shows "\<exists>y. growIfLoaded x = Some y \<and> anchorInv F xs y \<and> entries y = entries x
    \<and> anLive y + anTombs y + 1 < int (length (anSlots y)) \<and> anMaxBytes y = anMaxBytes x \<and> anCurBytes y = anCurBytes x"
proof -
  let ?n = "length (anSlots x)"
  have inv: "anLive x = int (card (liveRecs x))" "0 \<le> anTombs x" "anLive x + anTombs x < int ?n"
    and "capOk (anSlots x) (anMask x)"
    using assms by (auto simp: anchorInv_def tableOk_def)
  then obtain n where n: "?n = 2 ^ n" by (auto simp: capOk_def)
  have c: "card (liveRecs x) < ?n" using inv by linarith
  consider "(anLive x + anTombs x + 1) * 10 < int ?n * 7"
    | "(anLive x + anTombs x + 1) * 10 \<ge> int ?n * 7" "anTombs x > anLive x div 4"
    | "(anLive x + anTombs x + 1) * 10 \<ge> int ?n * 7" "\<not> anTombs x > anLive x div 4" by linarith
  then show ?thesis
  proof cases
    case 1
    then show ?thesis using assms inv by (simp add: growIfLoaded_def)
  next
    case 2
    have "0 \<le> anLive x div 4" using inv(1) by simp
    then have "anLive x + 1 < int ?n" using 2(2) inv(3) by linarith
    then show ?thesis using 2 rehash_inv [OF assms c n] by (auto simp: growIfLoaded_def)
  next
    case 3
    let ?c = "max (?n * 2) minSlots"
    have "max (2 ^ Suc n) (2 ^ 10) = (2 :: nat) ^ max (Suc n) 10" by (rule max_of_mono) (simp add: mono_def)
    then have "?c = 2 ^ max (Suc n) 10" by (simp add: n minSlots_def)
    moreover have "card (liveRecs x) < ?c" "anLive x + 1 < int ?c" using c inv(1) by (auto simp: max_def)
    ultimately obtain y where "rehash ?c x = Some y" "anchorInv F xs y" "entries y = entries x" "length (anSlots y) = ?c"
      "anLive y = anLive x" "anTombs y = 0" "anMaxBytes y = anMaxBytes x" "anCurBytes y = anCurBytes x" "anLive x + 1 < int ?c"
      using rehash_inv [OF assms, of ?c] by blast
    moreover have "growIfLoaded x = rehash ?c x" using 3 by (simp add: growIfLoaded_def)
    ultimately show ?thesis by simp
  qed
qed

section \<open>The operations\<close>

lemma inv_find:
  assumes "anchorInv F xs x"
  shows "\<exists>pos r tomb. findSlot x aid val (fnv aid val) = Some (pos, r, tomb)
    \<and> (if r \<ge> 0 then nat r \<in> liveRecs x \<and> akey x (nat r) = put_be 4 aid @ val
       else r = -1 \<and> put_be 4 aid @ val \<notin> akey x ` liveRecs x \<and> pos < length (anSlots x) \<and> anSlots x ! pos < 0
         \<and> reach (anSlots x) (home (put_be 4 aid @ val)) pos)"
proof -
  have "card (used (anSlots x)) < length (anSlots x)" using assms unfolding anchorInv_def by linarith
  then obtain p where "p < length (anSlots x)" "anSlots x ! p = -1" using empty_slot by blast
  moreover have "tableOk x" using assms by (simp add: anchorInv_def)
  ultimately show ?thesis using find_spec by blast
qed

lemma entries_counters [simp]:
  "entries (x\<lparr>anEvict := n\<rparr>) = entries x" "entries (x\<lparr>anHits := n\<rparr>) = entries x" "entries (x\<lparr>anMisses := n\<rparr>) = entries x"
  "entries (x\<lparr>anRejected := n\<rparr>) = entries x"
  by (simp_all add: entries_def liveRecs_def akey_def [abs_def])

lemma entries_key: "(k, e) \<in> entries x \<Longrightarrow> anchorInv F xs x \<Longrightarrow> r \<in> liveRecs x \<Longrightarrow> akey x r = k \<Longrightarrow> e = rcEid (anRecs x ! r)"
  by (auto simp: entries_def anchorInv_def tableOk_def placed_def dest: inj_onD)

lemma entries_same: "map core (anRecs x') = map core (anRecs x) \<Longrightarrow> anArena x' = anArena x \<Longrightarrow> entries x' = entries x"
proof -
  assume a: "map core (anRecs x') = map core (anRecs x)" "anArena x' = anArena x"
  note s = same_core [OF a]
  have "akey x' r = akey x r \<and> rcEid (anRecs x' ! r) = rcEid (anRecs x ! r)" if "r \<in> liveRecs x" for r
    using s(4) [of r] that core_eq(4) [of "anRecs x' ! r" "anRecs x ! r"] by (simp add: liveRecs_def)
  then show ?thesis by (simp add: entries_def s(2))
qed

lemma probe_inv:
  assumes "anchorInv F xs x"
  shows "\<exists>res y ys. anProbe aid val x = Some (res, y) \<and> anchorInv F ys y \<and> entries y = entries x
    \<and> anMaxBytes y = anMaxBytes x \<and> anCurBytes y = anCurBytes x
    \<and> (snd res \<longleftrightarrow> (\<exists>e. (put_be 4 aid @ val, e) \<in> entries x)) \<and> (snd res \<longrightarrow> (put_be 4 aid @ val, fst res) \<in> entries x)"
proof (cases "anLive x = 0")
  case True
  then have "entries x = {}" using assms by (simp add: anchorInv_def entries_def)
  then show ?thesis using True assms by (auto simp: anProbe_def)
next
  case False
  obtain pos r tomb where f: "findSlot x aid val (fnv aid val) = Some (pos, r, tomb)"
    "if r \<ge> 0 then nat r \<in> liveRecs x \<and> akey x (nat r) = put_be 4 aid @ val
       else put_be 4 aid @ val \<notin> akey x ` liveRecs x" using inv_find [OF assms] by metis
  show ?thesis
  proof (cases "r \<ge> 0")
    case True
    then have r: "nat r \<in> liveRecs x" "akey x (nat r) = put_be 4 aid @ val" "int (nat r) = r" using f(2) by auto
    let ?t = "anTouch r x"
    note t = touch_inv [OF assms r(1), unfolded r(3)]
    have e: "entries ?t = entries x" using entries_same t by blast
    have eid: "rcEid (anRecs ?t ! nat r) = rcEid (anRecs x ! nat r)"
      using same_core(4) [OF t(2,3), of "nat r"] r(1) core_eq(4) [of "anRecs ?t ! nat r" "anRecs x ! nat r"] by (simp add: liveRecs_def)
    have "(put_be 4 aid @ val, rcEid (anRecs x ! nat r)) \<in> entries x"
      unfolding entries_def by (rule rev_image_eqI [OF r(1)]) (simp add: r(2))
    then show ?thesis using False f(1) True t(1,4,5) e eid by (auto simp: anProbe_def Let_def)
  next
    case neg: False
    then have "put_be 4 aid @ val \<notin> akey x ` liveRecs x" using f(2) by simp
    then have "\<nexists>e. (put_be 4 aid @ val, e) \<in> entries x" by (auto simp: entries_def)
    then show ?thesis using False f(1) neg assms by (auto simp: anProbe_def)
  qed
qed

lemma del_inv:
  assumes "anchorInv F xs x"
  shows "\<exists>y ys. anDel aid val x = Some y \<and> anchorInv F ys y \<and> anMaxBytes y = anMaxBytes x \<and> anCurBytes y \<le> anCurBytes x
    \<and> entries y = {(k, e) \<in> entries x. k \<noteq> put_be 4 aid @ val}"
proof (cases "anLive x = 0")
  case True
  then have "entries x = {}" using assms by (simp add: anchorInv_def entries_def)
  then show ?thesis using True assms by (auto simp: anDel_def)
next
  case False
  obtain pos r tomb where f: "findSlot x aid val (fnv aid val) = Some (pos, r, tomb)"
    "if r \<ge> 0 then nat r \<in> liveRecs x \<and> akey x (nat r) = put_be 4 aid @ val
       else put_be 4 aid @ val \<notin> akey x ` liveRecs x" using inv_find [OF assms] by metis
  show ?thesis
  proof (cases "r \<ge> 0")
    case True
    then have r: "nat r \<in> liveRecs x" "akey x (nat r) = put_be 4 aid @ val" "int (nat r) = r" using f(2) by auto
    note k = kill_inv [OF assms r(1), unfolded r(3)]
    have "inj_on (akey x) (liveRecs x)" using assms by (simp add: anchorInv_def tableOk_def placed_def)
    then have ne: "akey x q \<noteq> put_be 4 aid @ val" if "q \<in> liveRecs x" "q \<noteq> nat r" for q
      using that r(1,2) by (metis inj_onD)
    have img: "entries (killRec r x) = (\<lambda>q. (akey x q, rcEid (anRecs x ! q))) ` (liveRecs x - {nat r})"
      unfolding entries_def using k(2,8) by (auto intro!: image_cong)
    have "entries (killRec r x) = {(k, e) \<in> entries x. k \<noteq> put_be 4 aid @ val}"
      unfolding img using ne r(2) by (auto simp: entries_def)
    moreover have "0 \<le> recBytes (rcKlen (anRecs x ! nat r))" by (simp add: recBytes_def recSize_def)
    ultimately show ?thesis using False f(1) True k(1,3,5) by (auto simp: anDel_def)
  next
    case neg: False
    then have "akey x q \<noteq> put_be 4 aid @ val" if "q \<in> liveRecs x" for q using f(2) that by (metis imageI)
    then have "{(k, e) \<in> entries x. k \<noteq> put_be 4 aid @ val} = entries x" by (auto simp: entries_def)
    then show ?thesis using False f(1) neg assms by (auto simp: anDel_def)
  qed
qed

lemma takeRec_inv:
  assumes "anchorInv {} xs x" "takeRec x = (nr, y)"
  shows "anchorInv {nr} xs y" "nr < length (anRecs y)" "nr \<notin> liveRecs y" "entries y = entries x" "anSlots y = anSlots x"
    "anLive y = anLive x" "anTombs y = anTombs x" "anMaxBytes y = anMaxBytes x" "liveRecs y = liveRecs x"
    "\<And>r. r \<in> liveRecs x \<Longrightarrow> akey y r = akey x r" "anMask y = anMask x" "anCurBytes y = anCurBytes x"
proof -
  have inv: "tableOk x" "linked (anRecs x) (anHead x) (anTail x) xs" "set xs = liveRecs x" "distinct (anFree x)" "set (anFree x) = deadSet x"
    using assms(1) by (auto simp: anchorInv_def)
  have "anchorInv {nr} xs y \<and> nr < length (anRecs y) \<and> nr \<notin> liveRecs y \<and> entries y = entries x \<and> anSlots y = anSlots x
    \<and> anLive y = anLive x \<and> anTombs y = anTombs x \<and> anMaxBytes y = anMaxBytes x \<and> liveRecs y = liveRecs x
    \<and> (\<forall>r \<in> liveRecs x. akey y r = akey x r) \<and> anMask y = anMask x \<and> anCurBytes y = anCurBytes x"
  proof (cases "anFree x = []")
    case False
    then have y: "nr = last (anFree x)" "y = x\<lparr>anFree := butlast (anFree x)\<rparr>" using assms(2) by (auto simp: takeRec_def)
    have nr: "nr \<in> deadSet x" using False y(1) inv(5) last_in_set by blast
    have "anFree x = butlast (anFree x) @ [nr]" using False y(1) by simp
    then have fr: "set (butlast (anFree x)) = deadSet x - {nr}" "distinct (butlast (anFree x))"
      using inv(4,5) by (metis distinct_append Diff_insert_absorb Un_insert_right disjoint_insert(1) list.set(1) list.set(2) set_append sup_bot.right_neutral) (use inv(4) in \<open>simp add: distinct_butlast\<close>)
    show ?thesis using assms(1) nr fr unfolding y(2)
      by (auto simp: anchorInv_def tableOk_def liveRecs_def deadSet_def akey_def [abs_def] apos_def [abs_def] entries_def)
  next
    case True
    define z where "z = \<lparr>rcOff = 0, rcKlen = 0, rcSlotPos = 0, rcEid = 0, rcPrev = 0, rcNext = 0, rcLive = False\<rparr>"
    have y: "nr = length (anRecs x)" "y = x\<lparr>anRecs := anRecs x @ [z]\<rparr>" using True assms(2) by (auto simp: takeRec_def z_def)
    have at: "anRecs y ! r = anRecs x ! r" if "r < length (anRecs x)" for r using that by (simp add: y nth_append)
    have live: "liveRecs y = liveRecs x" "deadSet y = insert nr (deadSet x)"
      by (auto simp: liveRecs_def deadSet_def y nth_append z_def less_Suc_eq)
    have lt: "r < length (anRecs x)" if "r \<in> liveRecs x" for r using that by (simp add: liveRecs_def)
    have key: "akey y r = akey x r" "apos y r = apos x r" if "r \<in> liveRecs x" for r using at [OF lt [OF that]] by (simp_all add: akey_def apos_def y)
    have "placed (anSlots x) (liveRecs x) (akey y) (apos y)"
      by (rule placed_cong [of _ _ "akey x" _ "apos x"]) (use inv(1) key in \<open>auto simp: tableOk_def\<close>)
    then have tab: "tableOk y" using inv(1) at lt live by (simp add: tableOk_def y)
    have "linked (anRecs y) (anHead y) (anTail y) xs"
      using linked_cong [OF inv(2), of "anRecs y"] inv(3) at lt by (simp add: y)
    moreover have "(\<Sum>r \<in> liveRecs x. recBytes (rcKlen (anRecs y ! r))) = (\<Sum>r \<in> liveRecs x. recBytes (rcKlen (anRecs x ! r)))" using at lt by simp
    moreover have "set (anFree y) = deadSet y - {nr}" using True inv(5) live by (auto simp: y deadSet_def)
    moreover have "{nr} \<subseteq> deadSet y" using live(2) by blast
    ultimately have "anchorInv {nr} xs y" using assms(1) tab live(1) unfolding anchorInv_def by (simp add: y)
    moreover have "entries y = entries x" unfolding entries_def live using key at lt by (auto intro!: image_cong)
    moreover have "nr \<notin> liveRecs x" by (simp add: liveRecs_def y)
    ultimately show ?thesis using live key by (simp add: y)
  qed
  then show "anchorInv {nr} xs y" "nr < length (anRecs y)" "nr \<notin> liveRecs y" "entries y = entries x" "anSlots y = anSlots x"
    "anLive y = anLive x" "anTombs y = anTombs x" "anMaxBytes y = anMaxBytes x" "liveRecs y = liveRecs x"
    "\<And>r. r \<in> liveRecs x \<Longrightarrow> akey y r = akey x r" "anMask y = anMask x" "anCurBytes y = anCurBytes x" by blast+
qed

lemma insert_inv:
  fixes eid :: int64
  assumes inv: "anchorInv {nr} ys x" and nr: "nr < length (anRecs x)"
    and p: "p < length (anSlots x)" "anSlots x ! p < 0" "reach (anSlots x) (home k) p" "k \<notin> akey x ` liveRecs x"
    and room: "anLive x + anTombs x + 1 < int (length (anSlots x))"
  defines "y \<equiv> (modRec (int nr) (\<lambda>q. q\<lparr>rcOff := length (anArena x), rcKlen := length k, rcSlotPos := int p, rcEid := eid, rcLive := True\<rparr>) x)
      \<lparr>anArena := anArena x @ k, anSlots := (anSlots x)[p := int nr], anLive := anLive x + 1, anCurBytes := anCurBytes x + recBytes (length k)\<rparr>"
  shows "anchorInv {} (nr # ys) (lruPush (int nr) y)" "entries (lruPush (int nr) y) = insert (k, eid) (entries x)"
proof -
  have tab: "tableOk x" and l: "linked (anRecs x) (anHead x) (anTail x) ys" and set: "set ys = liveRecs x" and dead: "nr \<in> deadSet x"
    and i: "distinct (anFree x)" "set (anFree x) = deadSet x - {nr}" "anLive x = int (card (liveRecs x))" "0 \<le> anTombs x"
      "int (card (used (anSlots x))) \<le> anLive x + anTombs x" "anCurBytes x = (\<Sum>r \<in> liveRecs x. recBytes (rcKlen (anRecs x ! r)))"
    using inv by (auto simp: anchorInv_def)
  have nl: "nr \<notin> liveRecs x" using dead by (simp add: deadSet_def liveRecs_def)
  have at: "anRecs y ! r = (if r = nr then (anRecs x ! r)\<lparr>rcOff := length (anArena x), rcKlen := length k, rcSlotPos := int p, rcEid := eid, rcLive := True\<rparr>
      else anRecs x ! r)" if "r < length (anRecs x)" for r using that by (simp add: y_def modRec_nth)
  have len: "length (anRecs y) = length (anRecs x)" and ar: "anArena y = anArena x @ k" by (simp_all add: y_def)
  have live: "liveRecs y = insert nr (liveRecs x)" "deadSet y = deadSet x - {nr}" using at nr by (auto simp: liveRecs_def deadSet_def len split: if_splits)
  have lt: "r < length (anRecs x)" if "r \<in> liveRecs x" for r using that by (simp add: liveRecs_def)
  have fits: "rcOff (anRecs x ! r) + rcKlen (anRecs x ! r) \<le> length (anArena x)" "0 \<le> rcSlotPos (anRecs x ! r)" if "r \<in> liveRecs x" for r
    using tab that by (auto simp: tableOk_def)
  have old: "akey y r = akey x r \<and> apos y r = apos x r \<and> anRecs y ! r = anRecs x ! r" if "r \<in> liveRecs x" for r
  proof -
    have "anRecs y ! r = anRecs x ! r" using at [OF lt [OF that]] that nl by auto
    then show ?thesis using fits(1) [OF that] by (simp add: akey_def apos_def y_def slice_append_left)
  qed
  have new: "akey y nr = k" "apos y nr = p" "rcEid (anRecs y ! nr) = eid"
    using at [OF nr] by (simp_all add: akey_def apos_def) (simp add: y_def slice_append_right slice_full)
  have "placed (anSlots y) (insert nr (liveRecs x)) ((akey x)(nr := k)) ((apos x)(nr := p))"
    using placed_insert [of "anSlots x" "liveRecs x" "akey x" "apos x" nr p k] tab nl p by (simp add: tableOk_def y_def)
  then have "placed (anSlots y) (liveRecs y) (akey y) (apos y)"
    unfolding live by (rule placed_cong [rotated]) (use old new nl in auto)
  moreover have "rcOff (anRecs y ! r) + rcKlen (anRecs y ! r) \<le> length (anArena y) \<and> 0 \<le> rcSlotPos (anRecs y ! r)" if "r \<in> liveRecs y" for r
  proof (cases "r = nr")
    case True
    then show ?thesis using at [OF nr] ar by simp
  next
    case False
    then have "r \<in> liveRecs x" using that live by simp
    then show ?thesis using old fits [of r] ar by (simp add: trans_le_add1)
  qed
  ultimately have taby: "tableOk y" using tab by (simp add: tableOk_def capOk_def y_def)
  have "linked (anRecs y) (anHead y) (anTail y) ys"
    using linked_cong [OF l, of "anRecs y"] old set len by (simp add: y_def)
  note push = lruPush_linked [OF this, of nr, unfolded len set, OF nl nr]
  note sm = same_core [OF push(2)]
  have klen: "rcKlen (anRecs (lruPush (int nr) y) ! r) = (if r = nr then length k else rcKlen (anRecs x ! r))" if "r \<in> liveRecs y" for r
  proof -
    have "r < length (anRecs y)" using that by (simp add: liveRecs_def)
    then have "rcKlen (anRecs (lruPush (int nr) y) ! r) = rcKlen (anRecs y ! r)"
      using core_eq(2) [OF sm(4) [THEN conjunct2, THEN conjunct2]] by simp
    then show ?thesis using that old at [OF nr] unfolding live by auto
  qed
  have "(\<Sum>r \<in> liveRecs y. recBytes (rcKlen (anRecs (lruPush (int nr) y) ! r))) = (\<Sum>r \<in> liveRecs y. recBytes (if r = nr then length k else rcKlen (anRecs x ! r)))"
    by (rule sum.cong) (simp_all add: klen)
  also have "\<dots> = recBytes (length k) + (\<Sum>r \<in> liveRecs x. recBytes (if r = nr then length k else rcKlen (anRecs x ! r)))" using nl by (simp add: live)
  also have "(\<Sum>r \<in> liveRecs x. recBytes (if r = nr then length k else rcKlen (anRecs x ! r))) = anCurBytes x"
    unfolding i(6) by (rule sum.cong) (use nl in auto)
  finally have cur: "(\<Sum>r \<in> liveRecs y. recBytes (rcKlen (anRecs (lruPush (int nr) y) ! r))) = anCurBytes y" by (simp add: y_def)
  have "card (used (anSlots y)) \<le> card (used (anSlots x)) + 1"
    using p(1) by (simp add: y_def used_update card_insert_if)
  then have u: "int (card (used (anSlots y))) \<le> anLive y + anTombs y" "anLive y + anTombs y < int (length (anSlots y))"
    using i(5) room by (simp_all add: y_def)
  have t: "tableOk (lruPush (int nr) y)" by (rule tableOk_same [OF taby push(2)]) simp_all
  have fr: "anFree y = anFree x" "anTombs y = anTombs x" "anLive y = anLive x + 1" by (simp_all add: y_def)
  have c: "anLive y = int (card (liveRecs y))" using nl i(3) by (simp add: live(1) fr(3))
  show "anchorInv {} (nr # ys) (lruPush (int nr) y)"
    unfolding anchorInv_def sm(2,3) [OF unlink_fields(14)]
    using t push(1) set live i cur u c fr by simp
  have "entries (lruPush (int nr) y) = entries y" by (rule entries_same [OF push(2)]) simp
  also have "\<dots> = insert (k, eid) (entries x)" unfolding entries_def live using old new by (auto simp: image_iff)
  finally show "entries (lruPush (int nr) y) = insert (k, eid) (entries x)" .
qed

lemma setEid_inv:
  fixes eid :: int64
  assumes "anchorInv F xs x" "r \<in> liveRecs x"
  defines "y \<equiv> modRec (int r) (\<lambda>q. q\<lparr>rcEid := eid\<rparr>) x"
  shows "anchorInv F xs y" "liveRecs y = liveRecs x" "entries y = insert (akey x r, eid) {(k, e) \<in> entries x. k \<noteq> akey x r}"
proof -
  have at: "anRecs y ! q = (if q = r then (anRecs x ! q)\<lparr>rcEid := eid\<rparr> else anRecs x ! q)" if "q < length (anRecs x)" for q
    using that by (simp add: y_def modRec_nth)
  have f: "rcOff (anRecs y ! q) = rcOff (anRecs x ! q)" "rcKlen (anRecs y ! q) = rcKlen (anRecs x ! q)" "rcLive (anRecs y ! q) = rcLive (anRecs x ! q)"
    "rcSlotPos (anRecs y ! q) = rcSlotPos (anRecs x ! q)" "rcPrev (anRecs y ! q) = rcPrev (anRecs x ! q)" "rcNext (anRecs y ! q) = rcNext (anRecs x ! q)"
    if "q < length (anRecs x)" for q using at [OF that] by simp_all
  have len: "length (anRecs y) = length (anRecs x)" and ar: "anArena y = anArena x" by (simp_all add: y_def)
  show live: "liveRecs y = liveRecs x" using f(3) len by (auto simp: liveRecs_def)
  have dead: "deadSet y = deadSet x" using f(3) len by (auto simp: deadSet_def)
  have lt: "q < length (anRecs x)" if "q \<in> liveRecs x" for q using that by (simp add: liveRecs_def)
  have key: "akey y q = akey x q \<and> apos y q = apos x q" if "q \<in> liveRecs x" for q using f [OF lt [OF that]] by (simp add: akey_def apos_def ar)
  have inv: "tableOk x" "linked (anRecs x) (anHead x) (anTail x) xs" "set xs = liveRecs x" using assms(1) by (auto simp: anchorInv_def)
  have "placed (anSlots x) (liveRecs x) (akey y) (apos y)"
    by (rule placed_cong [of _ _ "akey x" _ "apos x"]) (use inv(1) key in \<open>auto simp: tableOk_def\<close>)
  moreover have "anSlots y = anSlots x" "anMask y = anMask x" by (simp_all add: y_def)
  ultimately have tab: "tableOk y" using inv(1) f(1,2,4) lt ar by (simp add: tableOk_def live)
  have "linked (anRecs y) (anHead x) (anTail x) xs" using linked_cong [OF inv(2), of "anRecs y"] inv(3) f lt len by simp
  moreover have "(\<Sum>q \<in> liveRecs x. recBytes (rcKlen (anRecs y ! q))) = (\<Sum>q \<in> liveRecs x. recBytes (rcKlen (anRecs x ! q)))" using f lt by simp
  ultimately show "anchorInv F xs y" using assms(1) tab unfolding anchorInv_def live dead by (simp add: y_def)
  have inj: "inj_on (akey x) (liveRecs x)" using inv(1) by (simp add: tableOk_def placed_def)
  have "entries y = (\<lambda>q. (akey x q, if q = r then eid else rcEid (anRecs x ! q))) ` liveRecs x"
    unfolding entries_def live using key at lt by (auto intro!: image_cong)
  also have "\<dots> = insert (akey x r, eid) ((\<lambda>q. (akey x q, rcEid (anRecs x ! q))) ` (liveRecs x - {r}))"
    using assms(2) by auto
  also have "(\<lambda>q. (akey x q, rcEid (anRecs x ! q))) ` (liveRecs x - {r}) = {(k, e) \<in> entries x. k \<noteq> akey x r}"
    using assms(2) inj_onD [OF inj] by (auto simp: entries_def)
  finally show "entries y = insert (akey x r, eid) {(k, e) \<in> entries x. k \<noteq> akey x r}" .
qed

lemma entries_keys: "fst ` entries x = akey x ` liveRecs x"
  by (simp add: entries_def image_image)

lemma shrinks_entries: "shrinks x y \<Longrightarrow> entries y \<subseteq> entries x"
  by (auto simp: shrinks_def entries_def)

lemma put_inv:
  assumes "anchorInv {} xs x" "anCurBytes x \<le> anMaxBytes x \<or> liveRecs x = {}" "\<forall>(k, e) \<in> entries x. length k \<le> maxKeyLen"
  shows "\<exists>y ys. anPut aid val eid x = Some y \<and> anchorInv {} ys y \<and> anMaxBytes y = anMaxBytes x
    \<and> (anCurBytes y \<le> anMaxBytes y \<or> liveRecs y = {}) \<and> (\<forall>(k, e) \<in> entries y. length k \<le> maxKeyLen)
    \<and> entries y - {(put_be 4 aid @ val, eid)} \<subseteq> {(k, e) \<in> entries x. k \<noteq> put_be 4 aid @ val}
    \<and> (4 + length val \<le> maxKeyLen \<longrightarrow> recBytes (4 + length val) \<le> anMaxBytes x \<longrightarrow> (put_be 4 aid @ val, eid) \<in> entries y)"
proof (cases "4 + length val > maxKeyLen")
  case True
  then have "k \<noteq> put_be 4 aid @ val" if "(k, e) \<in> entries x" for k e using assms(3) that by auto
  moreover have "liveRecs (x\<lparr>anRejected := n\<rparr>) = liveRecs x" for n by (simp add: liveRecs_def)
  ultimately show ?thesis using True assms by (auto simp: anPut_def)
next
  case False
  let ?k = "put_be 4 aid @ val"
  obtain x1 where x1: "growIfLoaded x = Some x1" "anchorInv {} xs x1" "entries x1 = entries x" "anLive x1 + anTombs x1 + 1 < int (length (anSlots x1))"
    "anMaxBytes x1 = anMaxBytes x" "anCurBytes x1 = anCurBytes x" using grow_inv [OF assms(1)] by blast
  have empty: "liveRecs x1 = {} \<longleftrightarrow> liveRecs x = {}" using arg_cong [OF x1(3), of "\<lambda>A. A = {}"] by (simp add: entries_def)
  obtain pos r tomb where f: "findSlot x1 aid val (fnv aid val) = Some (pos, r, tomb)"
    "if r \<ge> 0 then nat r \<in> liveRecs x1 \<and> akey x1 (nat r) = ?k
       else r = -1 \<and> ?k \<notin> akey x1 ` liveRecs x1 \<and> pos < length (anSlots x1) \<and> anSlots x1 ! pos < 0 \<and> reach (anSlots x1) (home ?k) pos"
    using inv_find [OF x1(2)] by blast
  consider "r \<ge> 0" | "\<not> r \<ge> 0" "recBytes (4 + length val) > anMaxBytes x1" | "\<not> r \<ge> 0" "recBytes (4 + length val) \<le> anMaxBytes x1" by linarith
  then show ?thesis
  proof cases
    case 1
    then have r: "nat r \<in> liveRecs x1" "akey x1 (nat r) = ?k" "int (nat r) = r" using f(2) by auto
    let ?s = "modRec r (\<lambda>q. q\<lparr>rcEid := eid\<rparr>) x1"
    note s = setEid_inv [OF x1(2) r(1), of eid, unfolded r(3)]
    have rl: "nat r \<in> liveRecs ?s" using s(2) r(1) by simp
    note t = touch_inv [OF s(1) rl, unfolded r(3)]
    have e: "entries (anTouch r ?s) = entries ?s" by (rule entries_same [OF t(2,3)])
    have lv: "liveRecs (anTouch r ?s) = liveRecs x1" using same_core(2) [OF t(2,3)] s(2) by simp
    have "anPut aid val eid x = Some (anTouch r ?s)" using False x1(1) f(1) 1 by (simp add: anPut_def Let_def)
    moreover have "\<forall>(k, e) \<in> entries (anTouch r ?s). length k \<le> maxKeyLen"
      using False assms(3) x1(3) r(2) unfolding e s(3) by auto
    ultimately show ?thesis using t(1,4,5) x1(3,5,6) assms(2) empty e s(3) r(2) lv by auto
  next
    case 2
    then have "?k \<notin> fst ` entries x1" using f(2) by (simp add: entries_keys)
    then have "k \<noteq> ?k" if "(k, e) \<in> entries x1" for k e using that by force
    moreover have "liveRecs (x1\<lparr>anRejected := n\<rparr>) = liveRecs x1" for n by (simp add: liveRecs_def)
    ultimately show ?thesis using 2 False x1 f(1) assms(2,3) empty by (auto simp: anPut_def Let_def)
  next
    case 3
    then have miss: "?k \<notin> akey x1 ` liveRecs x1" "pos < length (anSlots x1)" "anSlots x1 ! pos < 0" "reach (anSlots x1) (home ?k) pos"
      using f(2) by auto
    obtain nr x2 where tk: "takeRec x1 = (nr, x2)" by fastforce
    note t = takeRec_inv [OF x1(2) tk]
    let ?x3 = "evictUntilFits (recBytes (4 + length val)) x2"
    obtain ys where ys: "anchorInv {nr} ys ?x3" "shrinks x2 ?x3"
      "anCurBytes ?x3 + recBytes (4 + length val) \<le> anMaxBytes x2 \<or> liveRecs ?x3 = {}" using evict_inv [OF t(1)] by blast
    have l3: "length (anSlots ?x3) = length (anSlots x1)" "anMaxBytes ?x3 = anMaxBytes x" "nr < length (anRecs ?x3)"
      using ys(2) t(2,5,8) x1(5) by (auto simp: shrinks_def)
    have "reach (anSlots ?x3) (home ?k) pos"
      by (rule reach_mono [OF miss(4)]) (use ys(2) t(5) miss(2) in \<open>auto simp: shrinks_def\<close>)
    moreover have "?k \<notin> akey ?x3 ` liveRecs ?x3" using miss(1) ys(2) t(9,10) by (auto simp: shrinks_def)
    moreover have "anSlots ?x3 ! pos < 0" using miss(3) ys(2) t(5) by (simp add: shrinks_def)
    moreover have "anLive ?x3 + anTombs ?x3 + 1 < int (length (anSlots ?x3))" using x1(4) t(5-7) ys(2) by (simp add: shrinks_def)
    moreover have "pos < length (anSlots ?x3)" using miss(2) l3 by simp
    ultimately have ins: "anchorInv {nr} ys ?x3" "nr < length (anRecs ?x3)" "pos < length (anSlots ?x3)" "anSlots ?x3 ! pos < 0"
      "reach (anSlots ?x3) (home ?k) pos" "?k \<notin> akey ?x3 ` liveRecs ?x3" "anLive ?x3 + anTombs ?x3 + 1 < int (length (anSlots ?x3))"
      using ys(1) l3(3) by blast+
    define y where "y = (modRec (int nr) (\<lambda>q. q\<lparr>rcOff := length (anArena ?x3), rcKlen := length ?k, rcSlotPos := int pos, rcEid := eid, rcLive := True\<rparr>) ?x3)
      \<lparr>anArena := anArena ?x3 @ ?k, anSlots := (anSlots ?x3)[pos := int nr], anLive := anLive ?x3 + 1, anCurBytes := anCurBytes ?x3 + recBytes (length ?k)\<rparr>"
    note fin = insert_inv [OF ins, of eid, folded y_def]
    have put: "anPut aid val eid x = Some (lruPush (int nr) y)"
      using False x1(1) f(1) 3 tk by (simp add: anPut_def Let_def y_def)
    have "anCurBytes ?x3 = 0" if "liveRecs ?x3 = {}" using ys(1) that by (simp add: anchorInv_def)
    then have "anCurBytes y \<le> anMaxBytes y" using ys(3) 3(2) t(8) l3(2) x1(5) by (auto simp: y_def)
    moreover have "anMaxBytes y = anMaxBytes x" using l3(2) by (simp add: y_def)
    moreover have "?k \<notin> fst ` entries x" using miss(1) x1(3) entries_keys by metis
    then have "k \<noteq> ?k" if "(k, e) \<in> entries x" for k e using that by (metis fst_conv imageI)
    then have "entries ?x3 \<subseteq> {(k, e) \<in> entries x. k \<noteq> ?k}" using shrinks_entries [OF ys(2), unfolded t(4) x1(3)] by blast
    ultimately have "anMaxBytes (lruPush (int nr) y) = anMaxBytes x" "anCurBytes (lruPush (int nr) y) \<le> anMaxBytes (lruPush (int nr) y)"
      "entries ?x3 \<subseteq> {(k, e) \<in> entries x. k \<noteq> ?k}" by simp_all
    moreover from this(3) have "\<forall>(k, e) \<in> entries (lruPush (int nr) y). length k \<le> maxKeyLen"
      "entries (lruPush (int nr) y) - {(?k, eid)} \<subseteq> {(k, e) \<in> entries x. k \<noteq> ?k}"
      using assms(3) False unfolding fin(2) by auto
    ultimately show ?thesis using put fin by (intro exI [of _ "lruPush (int nr) y"] exI [of _ "nr # ys"]) simp
  qed
qed

section \<open>The index as a lossy map\<close>

definition anchorOk :: "AnchorIndex \<Rightarrow> bool" where
  "anchorOk x \<longleftrightarrow> (\<exists>xs. anchorInv {} xs x) \<and> (anCurBytes x \<le> anMaxBytes x \<or> liveRecs x = {}) \<and> (\<forall>(k, e) \<in> entries x. length k \<le> maxKeyLen)"

lemma emptyTable_inv:
  assumes "anSlots x = replicate (2 ^ n) (-1)" "anMask x = 2 ^ n - 1" "anRecs x = []" "anFree x = []" "anHead x = -1" "anTail x = -1"
    "anLive x = 0" "anTombs x = 0" "anCurBytes x = 0"
  shows "anchorOk x" "entries x = {}"
proof -
  have "liveRecs x = {}" "deadSet x = {}" "used (anSlots x) = {}" using assms by (auto simp: liveRecs_def deadSet_def used_def)
  then have "anchorInv {} [] x" using assms by (auto simp: anchorInv_def tableOk_def capOk_def placed_def linked_def)
  then show "anchorOk x" "entries x = {}" using \<open>liveRecs x = {}\<close> by (auto simp: anchorOk_def entries_def)
qed

text \<open>
  \<open>anchored x m\<close>: the index \<open>x\<close> results from operations after which \<open>m\<close> holds, for every key, the entity of its last write
  unless the key was deleted since.
\<close>

inductive anchored :: "AnchorIndex \<Rightarrow> (bytes \<rightharpoonup> int64) \<Rightarrow> bool" where
  on_new: "anchored (NewAnchor maxBytes) Map.empty"
| on_put: "anchored x m \<Longrightarrow> anPut aid val eid x = Some y \<Longrightarrow> int (length (anArena y)) < 2 ^ 31 \<Longrightarrow>
    anchored y (m(put_be 4 aid @ val \<mapsto> eid))"
| on_del: "anchored x m \<Longrightarrow> anDel aid val x = Some y \<Longrightarrow> anchored y (m(put_be 4 aid @ val := None))"
| on_probe: "anchored x m \<Longrightarrow> anProbe aid val x = Some (res, y) \<Longrightarrow> anchored y m"
| on_clear: "anchored x m \<Longrightarrow> anchored (anClear x) m"

lemma put_ok:
  assumes "anchorOk x"
  shows "\<exists>y. anPut aid val eid x = Some y \<and> anchorOk y \<and> anMaxBytes y = anMaxBytes x
    \<and> entries y - {(put_be 4 aid @ val, eid)} \<subseteq> {(k, e) \<in> entries x. k \<noteq> put_be 4 aid @ val}
    \<and> (4 + length val \<le> maxKeyLen \<longrightarrow> recBytes (4 + length val) \<le> anMaxBytes x \<longrightarrow> (put_be 4 aid @ val, eid) \<in> entries y)"
proof -
  obtain xs where "anchorInv {} xs x" "anCurBytes x \<le> anMaxBytes x \<or> liveRecs x = {}" "\<forall>(k, e) \<in> entries x. length k \<le> maxKeyLen"
    using assms by (auto simp: anchorOk_def)
  from put_inv [OF this, of aid val eid] show ?thesis unfolding anchorOk_def by blast
qed

lemma del_ok:
  assumes "anchorOk x"
  shows "\<exists>y. anDel aid val x = Some y \<and> anchorOk y \<and> anMaxBytes y = anMaxBytes x \<and> entries y = {(k, e) \<in> entries x. k \<noteq> put_be 4 aid @ val}"
proof -
  obtain xs where x: "anchorInv {} xs x" "anCurBytes x \<le> anMaxBytes x \<or> liveRecs x = {}" "\<forall>(k, e) \<in> entries x. length k \<le> maxKeyLen"
    using assms by (auto simp: anchorOk_def)
  from del_inv [OF x(1), of aid val] obtain y ys where y: "anDel aid val x = Some y" "anchorInv {} ys y" "anMaxBytes y = anMaxBytes x"
    "anCurBytes y \<le> anCurBytes x" "entries y = {(k, e) \<in> entries x. k \<noteq> put_be 4 aid @ val}" by blast
  have "liveRecs y = {}" if "liveRecs x = {}" using y(5) that by (auto simp: entries_def)
  then have "anCurBytes y \<le> anMaxBytes y \<or> liveRecs y = {}" using x(2) y(3,4) by auto
  moreover have "\<forall>(k, e) \<in> entries y. length k \<le> maxKeyLen" using x(3) unfolding y(5) by auto
  ultimately show ?thesis using y by (auto simp: anchorOk_def)
qed

lemma probe_ok:
  assumes "anchorOk x"
  shows "\<exists>res y. anProbe aid val x = Some (res, y) \<and> anchorOk y \<and> anMaxBytes y = anMaxBytes x \<and> entries y = entries x
    \<and> (snd res \<longleftrightarrow> (\<exists>e. (put_be 4 aid @ val, e) \<in> entries x)) \<and> (snd res \<longrightarrow> (put_be 4 aid @ val, fst res) \<in> entries x)"
proof -
  obtain xs where x: "anchorInv {} xs x" "anCurBytes x \<le> anMaxBytes x \<or> liveRecs x = {}" "\<forall>(k, e) \<in> entries x. length k \<le> maxKeyLen"
    using assms by (auto simp: anchorOk_def)
  from probe_inv [OF x(1), of aid val] obtain res y ys where y: "anProbe aid val x = Some (res, y)" "anchorInv {} ys y" "anMaxBytes y = anMaxBytes x"
    "anCurBytes y = anCurBytes x" "entries y = entries x"
    "(snd res \<longleftrightarrow> (\<exists>e. (put_be 4 aid @ val, e) \<in> entries x)) \<and> (snd res \<longrightarrow> (put_be 4 aid @ val, fst res) \<in> entries x)" by blast
  have "liveRecs y = {}" if "liveRecs x = {}" using y(5) that by (auto simp: entries_def)
  then have "anchorOk y" using x y by (auto simp: anchorOk_def)
  then show ?thesis using y by blast
qed

lemma clear_ok: "anchorOk (anClear x)" "entries (anClear x) = {}"
  by (rule emptyTable_inv [of _ 10]; simp add: anClear_def emptySlot_def minSlots_def)+

lemma anchored_ok: "anchored x m \<Longrightarrow> anchorOk x \<and> (\<forall>(k, e) \<in> entries x. m k = Some e)"
proof (induction rule: anchored.induct)
  case (on_new maxBytes)
  have "anchorOk (NewAnchor maxBytes)" "entries (NewAnchor maxBytes) = {}"
    by (rule emptyTable_inv [of _ 1]; simp add: NewAnchor_def emptySlot_def numeral_2_eq_2)+
  then show ?case by simp
next
  case (on_put x m aid val eid y)
  then have "entries y - {(put_be 4 aid @ val, eid)} \<subseteq> {(k, e) \<in> entries x. k \<noteq> put_be 4 aid @ val}" "anchorOk y"
    using put_ok [of x aid val eid] by auto
  moreover have "(m(put_be 4 aid @ val \<mapsto> eid)) k = Some e"
    if "(k, e) \<in> entries y" "entries y - {(put_be 4 aid @ val, eid)} \<subseteq> {(k, e) \<in> entries x. k \<noteq> put_be 4 aid @ val}" for k e
  proof (cases "(k, e) = (put_be 4 aid @ val, eid)")
    case False
    then have "(k, e) \<in> entries x \<and> k \<noteq> put_be 4 aid @ val" using that by blast
    then show ?thesis using on_put.IH by auto
  qed simp
  ultimately show ?case by blast
next
  case (on_del x m aid val y)
  then show ?case using del_ok [of x aid val] by auto
next
  case (on_probe x m aid val res y)
  then show ?case using probe_ok [of x aid val] by auto
next
  case (on_clear x m)
  then show ?case using clear_ok by simp
qed

lemma anArena_killRec: "anArena (killRec r x) = anArena x"
  by (simp add: killRec_def Let_def)

lemma anchored_arena: "anchored x m \<Longrightarrow> int (length (anArena x)) < 2 ^ 31"
proof (induction rule: anchored.induct)
  case (on_del x m aid val y)
  then show ?case by (auto simp: anDel_def anArena_killRec split: if_splits option.splits prod.splits)
next
  case (on_probe x m aid val res y)
  then show ?case by (auto simp: anProbe_def Let_def anTouch_def split: if_splits option.splits prod.splits)
qed (simp_all add: NewAnchor_def anClear_def)

lemma anchored_offsets:
  assumes "anchored x m" "r \<in> liveRecs x"
  shows "signed_take_bit 31 (int (rcOff (anRecs x ! r))) = int (rcOff (anRecs x ! r))"
proof -
  have "rcOff (anRecs x ! r) \<le> length (anArena x)"
    using anchored_ok [OF assms(1)] assms(2) by (fastforce simp: anchorOk_def anchorInv_def tableOk_def)
  then show ?thesis using anchored_arena [OF assms(1)] by (simp add: signed_take_bit_int_eq_self)
qed

text \<open>C13. The anchor index never returns a stale entity: after any sequence of insertions, deletions, probes, evictions,
  rehashes and clears in which the arena of keys stays below \<open>2\<^sup>3\<^sup>1\<close> bytes (it grows with every insertion until the next
  rehash; past that the int32 offset of a new record wraps and the insertion panics), a probe that hits returns the entity
  of the last write of that attribute and value, and that write has not been deleted since.\<close>

theorem anchor_never_stale:
  assumes "anchored x m" "anProbe aid val x = Some ((eid, True), y)"
  shows "m (put_be 4 aid @ val) = Some eid"
  using anchored_ok [OF assms(1)] probe_ok [of x aid val] assms(2) by auto

text \<open>The loops of the hash table end: from every reachable state a probe, a deletion and an insertion return,
  although the search for a slot has no bound of its own.\<close>

theorem anchor_operations_return:
  assumes "anchored x m"
  shows "(\<exists>r. anProbe aid val x = Some r) \<and> (\<exists>y. anDel aid val x = Some y) \<and> (\<exists>y. anPut aid val eid x = Some y)"
  using anchored_ok [OF assms] put_ok [of x aid val eid] del_ok [of x aid val] probe_ok [of x aid val] by blast

text \<open>An insertion that fits the key limit and the budget is found by the next probe, and the bytes in use never
  exceed the budget.\<close>

theorem anchor_put_probe:
  assumes "anchored x m" "4 + length val \<le> maxKeyLen" "recBytes (4 + length val) \<le> anMaxBytes x" "anPut aid val eid x = Some y"
  shows "(\<exists>z. anProbe aid val y = Some ((eid, True), z)) \<and> anCurBytes y \<le> anMaxBytes y"
proof -
  have y: "anchorOk y" "(put_be 4 aid @ val, eid) \<in> entries y" "anMaxBytes y = anMaxBytes x"
    using put_ok [of x aid val eid] anchored_ok [OF assms(1)] assms(2-4) by auto
  have m: "\<forall>(k, e) \<in> entries y. k = put_be 4 aid @ val \<longrightarrow> e = eid"
    using put_ok [of x aid val eid] anchored_ok [OF assms(1)] assms(4) by auto
  obtain res z where z: "anProbe aid val y = Some (res, z)" "snd res" "(put_be 4 aid @ val, fst res) \<in> entries y"
    using probe_ok [OF y(1), of aid val] y(2) by blast
  have "fst res = eid" using m z(3) by auto
  then have "res = (eid, True)" using z(2) by (cases res) simp
  moreover have "liveRecs y \<noteq> {}" using y(2) by (auto simp: entries_def)
  ultimately show ?thesis using z(1) y(1) by (auto simp: anchorOk_def)
qed

subsection \<open>A worked run\<close>

lemma anArena_evict: "anArena (evictUntilFits n x) = anArena x"
proof (induction n x rule: evictUntilFits.induct)
  case (1 n x)
  then show ?case by (subst evictUntilFits.simps) (auto simp: Let_def anArena_killRec)
qed

lemma anArena_put:
  assumes "growIfLoaded x = Some x" "anPut aid val eid x = Some y"
  shows "length (anArena y) \<le> length (anArena x) + 4 + length val"
  using assms
  by (auto simp: anPut_def Let_def anTouch_def anArena_evict takeRec_def case_prod_beta split: if_splits option.splits prod.splits)

definition demoIndex :: AnchorIndex where
  "demoIndex = the (anPut 7 [65] 11 (NewAnchor 4096))"

lemma demoIndex_anchored: "anchored demoIndex [put_be 4 (7 :: uint32) @ [65] \<mapsto> 11]" "anPut 7 [65] 11 (NewAnchor 4096) = Some demoIndex"
proof -
  have "anchorOk (NewAnchor 4096)" using anchored_ok [OF on_new] by blast
  from put_ok [OF this, of 7 "[65]" 11] show p: "anPut 7 [65] 11 (NewAnchor 4096) = Some demoIndex" by (auto simp: demoIndex_def)
  have "growIfLoaded (NewAnchor 4096) = Some (NewAnchor 4096)" by code_simp
  from anArena_put [OF this p] have "int (length (anArena demoIndex)) < 2 ^ 31" by (simp add: NewAnchor_def)
  then show "anchored demoIndex [put_be 4 (7 :: uint32) @ [65] \<mapsto> 11]" by (rule on_put [OF on_new p])
qed

theorem anchor_put_probe_witness:
  "(\<exists>z. anProbe 7 [65] demoIndex = Some ((11, True), z)) \<and> anCurBytes demoIndex \<le> anMaxBytes demoIndex"
  by (rule anchor_put_probe [OF on_new _ _ demoIndex_anchored(2)])
    (simp_all add: maxKeyLen_def recBytes_def recSize_def NewAnchor_def)

theorem anchor_operations_return_witness: "\<exists>r. anProbe 7 [65] demoIndex = Some r"
  using anchor_operations_return [OF demoIndex_anchored(1), of 7 "[65]"] by blast

lemma demoIndex_probe: "\<exists>y. anProbe 7 [65] demoIndex = Some ((11, True), y)"
proof -
  have "anchorOk (NewAnchor 4096)" using anchored_ok [OF on_new] by blast
  from put_ok [OF this, of 7 "[65]" 11] have "(put_be 4 (7 :: uint32) @ [65], 11) \<in> entries demoIndex" "anchorOk demoIndex"
    using demoIndex_anchored(2) by (auto simp: maxKeyLen_def recBytes_def recSize_def NewAnchor_def)
  moreover have "\<forall>(k, e) \<in> entries demoIndex. k = put_be 4 (7 :: uint32) @ [65] \<longrightarrow> e = 11"
    using anchored_ok [OF demoIndex_anchored(1)] by auto
  ultimately show ?thesis using probe_ok [of demoIndex 7 "[65]"] by fastforce
qed

theorem anchor_never_stale_witness: "\<exists>y. anProbe 7 [65] demoIndex = Some ((11, True), y) \<and> [put_be 4 (7 :: uint32) @ [65] \<mapsto> (11 :: int64)] (put_be 4 (7 :: uint32) @ [65]) = Some 11"
  using demoIndex_probe anchor_never_stale [OF demoIndex_anchored(1)] by blast

end
