(* ===== verification/Resolver.thy ===== *)
theory Resolver
  imports Decimal
begin

text \<open>
  The attribute resolver, \<^verbatim>\<open>src/go/internal/eavt/resolver.go\<close>: names and numbers of attributes, their types and
  flags, and the counters that hand out entity identifiers, one per partition. The results: an identifier is
  handed out once, whatever operations come between; names and numbers of attributes stay inverse to each other;
  partition and sequence can be read off an identifier.
\<close>

unbundle bit_operations_syntax

section \<open>Constants\<close>

definition BootstrapFirstUserID :: int64 where [simp]: "BootstrapFirstUserID = 100"

definition DbIdentAid :: uint32 where [simp]: "DbIdentAid = 1"
definition DbCardinalityAid :: uint32 where [simp]: "DbCardinalityAid = 2"
definition DbValueTypeAid :: uint32 where [simp]: "DbValueTypeAid = 3"
definition DbUniqueAid :: uint32 where [simp]: "DbUniqueAid = 5"
definition DbIndexAid :: uint32 where [simp]: "DbIndexAid = 6"
definition DbTxInstantAid :: uint32 where [simp]: "DbTxInstantAid = 9"
definition DbPartIDAid :: uint32 where [simp]: "DbPartIDAid = 39"
definition DbCardinalityOneAid :: uint32 where [simp]: "DbCardinalityOneAid = 35"
definition DbCardinalityManyAid :: uint32 where [simp]: "DbCardinalityManyAid = 36"
definition DbUniqueValueAid :: uint32 where [simp]: "DbUniqueValueAid = 37"
definition DbUniqueIdentityAid :: uint32 where [simp]: "DbUniqueIdentityAid = 38"

definition PartDb :: uint64 where [simp]: "PartDb = 0"
definition PartTx :: uint64 where [simp]: "PartTx = 3"
definition PartUser :: uint64 where [simp]: "PartUser = 4"

definition firstCustomPartition :: uint64 where [simp]: "firstCustomPartition = 64"
definition partitionShift :: nat where [simp]: "partitionShift = 44"
definition seqMask :: uint64 where [simp]: "seqMask = 0xFFFFFFFFFFF"

definition BootstrapSchema :: "(string \<times> uint32) list" where
  "BootstrapSchema =
     [(''db/ident'', 1), (''db/cardinality'', 2), (''db/valueType'', 3),
      (''db/isComponent'', 4), (''db/unique'', 5), (''db/index'', 6),
      (''db/fulltext'', 7), (''db/noHistory'', 8), (''db/txInstant'', 9),
      (''db/type/string'', 20), (''db/type/ref'', 21), (''db/type/long'', 22),
      (''db/type/keyword'', 23), (''db/type/boolean'', 24), (''db/type/instant'', 25),
      (''db/type/bytes'', 26), (''db/type/float'', 27), (''db/type/blob'', 28),
      (''db/cardinality/one'', 35), (''db/cardinality/many'', 36),
      (''db/unique/value'', 37), (''db/unique/identity'', 38),
      (''db.part/id'', 39), (''db.part/db'', 40), (''db.part/tx'', 41),
      (''db.part/user'', 42)]"

section \<open>Entity identifiers\<close>

definition PartitionOf :: "int64 \<Rightarrow> uint64" where
  "PartitionOf eid = drop_bit partitionShift eid"

definition SeqOf :: "int64 \<Rightarrow> int64" where
  "SeqOf eid = eid AND seqMask"

definition MakeEntityID :: "uint64 \<Rightarrow> int64 \<Rightarrow> int64" where
  "MakeEntityID partitionID seq = push_bit partitionShift partitionID OR seq"

section \<open>Attribute names\<close>

definition NormalizeAttr :: "string \<Rightarrow> string result" where
  "NormalizeAttr name =
     (if name \<noteq> [] \<and> hd name = CHR '':'' then
        (if CHR ''/'' \<notin> set name then Inl (Error ''attribute keyword must be namespaced'') else Inr (tl name))
      else if CHR ''.'' \<in> set name \<and> CHR ''/'' \<notin> set name then
        Inr (map (\<lambda>c. if c = CHR ''.'' then CHR ''/'' else c) name)
      else if CHR ''/'' \<in> set name then Inr name
      else Inl (Error ''attribute name must include namespace''))"

section \<open>The resolver\<close>

text \<open>
  Maps to \<open>bool\<close> hold only \<open>true\<close> in the source and are predicates here. The partition counters are an
  association list, because their keys are listed.
\<close>

record Resolver =
  attrs :: "string \<rightharpoonup> uint32"
  attrsRev :: "uint32 \<rightharpoonup> string"
  nextAid :: uint32
  partitions :: "(uint64 \<times> int64) list"
  partitionNames :: "string \<rightharpoonup> uint64"
  nextCustomPartition :: uint64
  cardinality :: "uint32 \<Rightarrow> bool"
  declared :: "uint32 \<Rightarrow> bool"
  valueTypes :: "uint32 \<rightharpoonup> uint32"
  uniqueAttrs :: "uint32 \<Rightarrow> bool"
  indexedAttrs :: "uint32 \<Rightarrow> bool"
  AttrDeclOrder :: "string list"
  PartDeclOrder :: "string list"

text \<open>\<open>m[k] = v\<close> on the counters.\<close>

fun setCounter :: "uint64 \<Rightarrow> int64 \<Rightarrow> (uint64 \<times> int64) list \<Rightarrow> (uint64 \<times> int64) list" where
  "setCounter p n [] = [(p, n)]"
| "setCounter p n ((q, m) # cs) = (if q = p then (p, n) # cs else (q, m) # setCounter p n cs)"

definition bootstrapType :: "string \<Rightarrow> uint32" where
  "bootstrapType name =
     (if name = ''db/ident'' \<or> name = ''db.part/id'' then DbTypeString
      else if name = ''db/txInstant'' then DbTypeInstant
      else if name \<in> {''db/isComponent'', ''db/index'', ''db/fulltext'', ''db/noHistory''} then DbTypeBoolean
      else if take 8 name = ''db.type/'' then DbTypeLong
      else DbTypeRef)"

definition addBootstrap :: "string \<times> uint32 \<Rightarrow> Resolver \<Rightarrow> Resolver" where
  "addBootstrap s r = (case s of (name, aid) \<Rightarrow>
     r\<lparr>attrs := (attrs r)(name \<mapsto> aid), attrsRev := (attrsRev r)(aid \<mapsto> name), declared := (declared r)(aid := True),
       nextAid := (if aid \<ge> nextAid r then aid + 1 else nextAid r)\<rparr>)"

definition addBootstrapType :: "string \<times> uint32 \<Rightarrow> Resolver \<Rightarrow> Resolver" where
  "addBootstrapType s r = (case s of (name, aid) \<Rightarrow>
     if valueTypes r aid \<noteq> None then r else r\<lparr>valueTypes := (valueTypes r)(aid \<mapsto> bootstrapType name)\<rparr>)"

definition emptyResolver :: Resolver where
  "emptyResolver = \<lparr>attrs = Map.empty, attrsRev = Map.empty, nextAid = 1, partitions = [], partitionNames = Map.empty,
     nextCustomPartition = firstCustomPartition, cardinality = (\<lambda>_. False), declared = (\<lambda>_. False),
     valueTypes = Map.empty, uniqueAttrs = (\<lambda>_. False), indexedAttrs = (\<lambda>_. False), AttrDeclOrder = [], PartDeclOrder = []\<rparr>"

definition NewResolver :: Resolver where
  "NewResolver =
     (let r1 = fold addBootstrap BootstrapSchema emptyResolver;
          r2 = r1\<lparr>valueTypes := [DbValueTypeAid \<mapsto> DbTypeRef, DbCardinalityAid \<mapsto> DbTypeRef, DbUniqueAid \<mapsto> DbTypeRef,
                     DbIdentAid \<mapsto> DbTypeString, DbPartIDAid \<mapsto> DbTypeLong, DbTxInstantAid \<mapsto> DbTypeInstant],
                   indexedAttrs := (indexedAttrs r1)(DbIdentAid := True)\<rparr>;
          r3 = fold addBootstrapType BootstrapSchema r2
      in r3\<lparr>partitions := [(PartDb, BootstrapFirstUserID), (PartTx, 1), (PartUser, 1)],
            partitionNames := [''db.part/db'' \<mapsto> PartDb, ''db.part/tx'' \<mapsto> PartTx, ''db.part/user'' \<mapsto> PartUser]\<rparr>)"

section \<open>Identifiers and partitions\<close>

definition AllocateInPartition :: "uint64 \<Rightarrow> Resolver \<Rightarrow> int64 result \<times> Resolver" where
  "AllocateInPartition partitionID r =
     (case map_of (partitions r) partitionID of
        None \<Rightarrow> (Inl (Error ''unknown partition''), r)
      | Some seq \<Rightarrow>
          (Inr (MakeEntityID partitionID seq), r\<lparr>partitions := setCounter partitionID (seq + 1) (partitions r)\<rparr>))"

definition AllocateEntityID :: "Resolver \<Rightarrow> int64 result \<times> Resolver" where
  "AllocateEntityID = AllocateInPartition PartUser"

definition AllocateSchemaID :: "Resolver \<Rightarrow> int64 result \<times> Resolver" where
  "AllocateSchemaID = AllocateInPartition PartDb"

definition PartitionIDFor :: "string \<Rightarrow> Resolver \<Rightarrow> uint64 option" where
  "PartitionIDFor name r = partitionNames r name"

definition DeclarePartition :: "string \<Rightarrow> Resolver \<Rightarrow> uint64 \<times> Resolver" where
  "DeclarePartition name r =
     (case partitionNames r name of
        Some p \<Rightarrow> (p, r)
      | None \<Rightarrow>
          let p = nextCustomPartition r
          in (p, r\<lparr>nextCustomPartition := p + 1, partitions := setCounter p 1 (partitions r),
                 partitionNames := (partitionNames r)(name \<mapsto> p), PartDeclOrder := PartDeclOrder r @ [name]\<rparr>))"

definition RegisterPartition :: "string \<Rightarrow> uint64 \<Rightarrow> Resolver \<Rightarrow> Resolver" where
  "RegisterPartition name partitionID r =
     (if partitionNames r name \<noteq> None then r
      else
        let r1 = (if map_of (partitions r) partitionID = None
                  then r\<lparr>partitions := setCounter partitionID 1 (partitions r)\<rparr> else r);
            r2 = r1\<lparr>partitionNames := (partitionNames r1)(name \<mapsto> partitionID)\<rparr>
        in if partitionID \<ge> firstCustomPartition \<and> partitionID \<ge> nextCustomPartition r2
           then r2\<lparr>nextCustomPartition := partitionID + 1\<rparr> else r2)"

definition KnownPartitions :: "Resolver \<Rightarrow> uint64 list" where
  "KnownPartitions r = sort (map fst (partitions r))"

text \<open>Sequence numbers are \<open>int64\<close>: the comparisons are signed.\<close>

definition raiseSeq :: "uint64 \<Rightarrow> int64 \<Rightarrow> Resolver \<Rightarrow> Resolver" where
  "raiseSeq p s r =
     (case map_of (partitions r) p of
        Some n \<Rightarrow> if sint s \<ge> sint n then r\<lparr>partitions := setCounter p (s + 1) (partitions r)\<rparr> else r
      | None \<Rightarrow> r)"

definition AdvancePast :: "int64 \<Rightarrow> Resolver \<Rightarrow> Resolver" where
  "AdvancePast eid r = raiseSeq (PartitionOf eid) (SeqOf eid) r"

definition SetPartitionSeq :: "uint64 \<Rightarrow> int64 \<Rightarrow> Resolver \<Rightarrow> Resolver" where
  "SetPartitionSeq partitionID seq r =
     (case map_of (partitions r) partitionID of
        Some n \<Rightarrow> if sint seq > sint n then r\<lparr>partitions := setCounter partitionID seq (partitions r)\<rparr> else r
      | None \<Rightarrow> r)"

definition NextEntID :: "Resolver \<Rightarrow> int64" where
  "NextEntID r = (case map_of (partitions r) PartDb of Some n \<Rightarrow> n | None \<Rightarrow> BootstrapFirstUserID)"

section \<open>Attributes\<close>

definition LookupAttr :: "string \<Rightarrow> Resolver \<Rightarrow> uint32 option" where
  "LookupAttr name r = (case NormalizeAttr name of Inl e \<Rightarrow> None | Inr n \<Rightarrow> attrs r n)"

definition bindAttr :: "string \<Rightarrow> uint32 \<Rightarrow> Resolver \<Rightarrow> Resolver" where
  "bindAttr n aid r = r\<lparr>attrs := (attrs r)(n \<mapsto> aid), attrsRev := (attrsRev r)(aid \<mapsto> n)\<rparr>"

definition InternAttr :: "string \<Rightarrow> Resolver \<Rightarrow> uint32 result \<times> Resolver" where
  "InternAttr name r =
     (case NormalizeAttr name of
        Inl e \<Rightarrow> (Inl e, r)
      | Inr n \<Rightarrow>
          (case attrs r n of
             Some a \<Rightarrow> (Inr a, r)
           | None \<Rightarrow>
               (case AllocateInPartition PartDb r of
                  (Inl e, r1) \<Rightarrow> (Inl e, r1)
                | (Inr eid, r1) \<Rightarrow>
                    let aid = ucast eid in (Inr aid, bindAttr n aid (r1\<lparr>nextAid := aid + 1\<rparr>)))))"

definition DeclareAttr :: "string \<Rightarrow> uint32 \<Rightarrow> bool \<Rightarrow> Resolver \<Rightarrow> (uint32 \<times> bool) result \<times> Resolver" where
  "DeclareAttr name valueType many r =
     (case NormalizeAttr name of
        Inl e \<Rightarrow> (Inl e, r)
      | Inr n \<Rightarrow>
          if (case attrs r n of Some a \<Rightarrow> declared r a | None \<Rightarrow> False) then (Inr (the (attrs r n), False), r)
          else
            (case AllocateInPartition PartDb r of
               (Inl e, r1) \<Rightarrow> (Inl e, r1)
             | (Inr eid, r1) \<Rightarrow>
                 let aid = ucast eid;
                     r2 = bindAttr n aid (r1\<lparr>nextAid := aid + 1\<rparr>);
                     r3 = r2\<lparr>declared := (declared r2)(aid := True), valueTypes := (valueTypes r2)(aid \<mapsto> valueType)\<rparr>;
                     r4 = (if many then r3\<lparr>cardinality := (cardinality r3)(aid := True)\<rparr> else r3)
                 in (Inr (aid, True), r4\<lparr>AttrDeclOrder := AttrDeclOrder r4 @ [n]\<rparr>)))"

definition IsDeclared :: "uint32 \<Rightarrow> Resolver \<Rightarrow> bool" where "IsDeclared aid r = declared r aid"
definition ValueTypeFor :: "uint32 \<Rightarrow> Resolver \<Rightarrow> uint32 option" where "ValueTypeFor aid r = valueTypes r aid"
definition IsMany :: "uint32 \<Rightarrow> Resolver \<Rightarrow> bool" where "IsMany aid r = cardinality r aid"
definition IsUnique :: "uint32 \<Rightarrow> Resolver \<Rightarrow> bool" where "IsUnique aid r = uniqueAttrs r aid"
definition IsIndexed :: "uint32 \<Rightarrow> Resolver \<Rightarrow> bool" where "IsIndexed aid r = (uniqueAttrs r aid \<or> indexedAttrs r aid)"

definition SetCardinality :: "uint32 \<Rightarrow> bool \<Rightarrow> Resolver \<Rightarrow> Resolver" where
  "SetCardinality aid many r = r\<lparr>cardinality := (cardinality r)(aid := many)\<rparr>"

definition SetUnique :: "uint32 \<Rightarrow> bool \<Rightarrow> Resolver \<Rightarrow> Resolver" where
  "SetUnique aid unique r = r\<lparr>uniqueAttrs := (uniqueAttrs r)(aid := unique)\<rparr>"

definition SetIndexed :: "uint32 \<Rightarrow> bool \<Rightarrow> Resolver \<Rightarrow> Resolver" where
  "SetIndexed aid indexed r = r\<lparr>indexedAttrs := (indexedAttrs r)(aid := indexed)\<rparr>"

definition AttrName :: "uint32 \<Rightarrow> Resolver \<Rightarrow> string" where
  "AttrName aid r = (case attrsRev r aid of Some n \<Rightarrow> n | None \<Rightarrow> decimal (unat aid))"

definition AttrNameOpt :: "uint32 \<Rightarrow> Resolver \<Rightarrow> string option" where
  "AttrNameOpt aid r = attrsRev r aid"

definition AttrsSnapshot :: "Resolver \<Rightarrow> string \<rightharpoonup> uint32" where
  "AttrsSnapshot r = attrs r"

definition LoadAttr :: "bytes \<times> bytes \<Rightarrow> Resolver \<Rightarrow> Resolver" where
  "LoadAttr kv r = (case kv of (name, v) \<Rightarrow>
     if length v < 4 then r
     else let aid = get_be (take 4 v); r1 = bindAttr (string_of name) aid r
          in if aid \<ge> nextAid r1 then r1\<lparr>nextAid := aid + 1\<rparr> else r1)"

definition LoadAttrs :: "(bytes \<times> bytes) list \<Rightarrow> Resolver \<Rightarrow> Resolver" where
  "LoadAttrs kvs r = fold LoadAttr kvs r"

text \<open>The declaration order is kept sorted by number; an unknown name in it counts as number zero.\<close>

definition insertDecl :: "string \<Rightarrow> uint32 \<Rightarrow> Resolver \<Rightarrow> string list" where
  "insertDecl name aid r =
     (let before = takeWhile (\<lambda>n. \<not> (case attrs r n of Some a \<Rightarrow> a | None \<Rightarrow> 0) > aid) (AttrDeclOrder r)
      in before @ name # drop (length before) (AttrDeclOrder r))"

definition registerUser :: "string \<Rightarrow> uint32 \<Rightarrow> uint32 \<Rightarrow> bool \<Rightarrow> bool \<Rightarrow> bool \<Rightarrow> Resolver \<Rightarrow> Resolver" where
  "registerUser name aid valueType many unique indexed r =
     (let isNew = \<not> declared r aid;
          r1 = bindAttr name aid r;
          r2 = r1\<lparr>declared := (declared r1)(aid := True), valueTypes := (valueTypes r1)(aid \<mapsto> valueType)\<rparr>;
          r3 = (if many then r2\<lparr>cardinality := (cardinality r2)(aid := True)\<rparr> else r2);
          r4 = (if unique then r3\<lparr>uniqueAttrs := (uniqueAttrs r3)(aid := True)\<rparr> else r3);
          r5 = (if indexed then r4\<lparr>indexedAttrs := (indexedAttrs r4)(aid := True)\<rparr> else r4)
      in if isNew then r5\<lparr>AttrDeclOrder := insertDecl name aid r5\<rparr> else r5)"

definition LoadUserAttr :: "string \<Rightarrow> int64 \<Rightarrow> uint32 \<Rightarrow> bool \<Rightarrow> bool \<Rightarrow> bool \<Rightarrow> Resolver \<Rightarrow> Resolver" where
  "LoadUserAttr name eid valueType many unique indexed r =
     (let aid = ucast eid;
          r7 = raiseSeq (PartitionOf eid) (SeqOf eid) (registerUser name aid valueType many unique indexed r)
      in if aid \<ge> nextAid r7 then r7\<lparr>nextAid := aid + 1\<rparr> else r7)"

section \<open>Partition and sequence of an identifier\<close>

lemma unat_lt_bit: "unat (w :: 64 word) < 2 ^ n \<Longrightarrow> n \<le> k \<Longrightarrow> \<not> bit w k"
proof -
  assume "unat w < 2 ^ n" "n \<le> k"
  then have "take_bit n w = w" by (metis take_bit_nat_eq_self unsigned_take_bit_eq unsigned_word_eqI)
  with \<open>n \<le> k\<close> show ?thesis by (metis bit_take_bit_iff not_le)
qed

lemma seqMask_mask: "(0xFFFFFFFFFFF :: 64 word) = mask 44"
  by (simp add: mask_eq_exp_minus_1)

lemma MakeEntityID_parts:
  assumes "unat p < 2 ^ 20" "unat s < 2 ^ 44"
  shows "PartitionOf (MakeEntityID p s) = p" "SeqOf (MakeEntityID p s) = s"
proof -
  have p: "\<not> bit p k" if "20 \<le> k" for k using unat_lt_bit [OF assms(1) that] .
  have s: "\<not> bit s k" if "44 \<le> k" for k using unat_lt_bit [OF assms(2) that] .
  show "PartitionOf (MakeEntityID p s) = p"
  proof (rule bit_word_eqI)
    fix n assume "n < LENGTH(64)"
    show "bit (PartitionOf (MakeEntityID p s)) n = bit p n"
      using s [of "44 + n"] p [of n] \<open>n < LENGTH(64)\<close>
      by (cases "n < 20") (auto simp: PartitionOf_def MakeEntityID_def bit_drop_bit_eq bit_or_iff bit_push_bit_iff)
  qed
  show "SeqOf (MakeEntityID p s) = s"
  proof (rule bit_word_eqI)
    fix n assume "n < LENGTH(64)"
    show "bit (SeqOf (MakeEntityID p s)) n = bit s n"
      using s [of n] \<open>n < LENGTH(64)\<close>
      by (cases "44 \<le> n")
        (auto simp: SeqOf_def MakeEntityID_def seqMask_mask bit_and_iff bit_or_iff bit_push_bit_iff bit_mask_iff)
  qed
qed

section \<open>The operations as a machine\<close>

text \<open>The operations that change the resolver, and the identifier each hands out, if any.\<close>

datatype rop =
    Alloc uint64
  | Intern string
  | Declare string uint32 bool
  | DeclPart string
  | RegPart string uint64
  | Advance int64
  | SetSeq uint64 int64
  | LoadUser string int64 uint32 bool bool bool
  | Flags uint32 bool bool bool

fun perform :: "rop \<Rightarrow> Resolver \<Rightarrow> int64 list \<times> Resolver" where
  "perform (Alloc p) r = (case AllocateInPartition p r of (Inr e, r') \<Rightarrow> ([e], r') | (Inl _, r') \<Rightarrow> ([], r'))"
| "perform (Intern n) r =
     (case InternAttr n r of (Inr a, r') \<Rightarrow> (if LookupAttr n r = None then [ucast a] else [], r') | (Inl _, r') \<Rightarrow> ([], r'))"
| "perform (Declare n vt many) r =
     (case DeclareAttr n vt many r of (Inr (a, isNew), r') \<Rightarrow> (if isNew then [ucast a] else [], r') | (Inl _, r') \<Rightarrow> ([], r'))"
| "perform (DeclPart n) r = ([], snd (DeclarePartition n r))"
| "perform (RegPart n p) r = ([], RegisterPartition n p r)"
| "perform (Advance e) r = ([], AdvancePast e r)"
| "perform (SetSeq p s) r = ([], SetPartitionSeq p s r)"
| "perform (LoadUser n e vt many unique indexed) r = ([], LoadUserAttr n e vt many unique indexed r)"
| "perform (Flags a many unique indexed) r = ([], SetIndexed a indexed (SetUnique a unique (SetCardinality a many r)))"

fun performs :: "rop list \<Rightarrow> Resolver \<Rightarrow> int64 list \<times> Resolver" where
  "performs [] r = ([], r)"
| "performs (x # xs) r = (let (ids, r1) = perform x r; (more, r2) = performs xs r1 in (ids @ more, r2))"

text \<open>
  Partitions fit their 20 bits of an identifier and counters their 44 bits; the counter of the schema partition
  fits the 32 bits of an attribute number.
\<close>

definition fits :: "Resolver \<Rightarrow> bool" where
  "fits r \<longleftrightarrow> list_all (\<lambda>(p, n). unat p < 2 ^ 20 \<and> unat n \<le> 2 ^ 44 \<and> (p = PartDb \<longrightarrow> unat n \<le> 2 ^ 32)) (partitions r)"

fun fitting :: "rop list \<Rightarrow> Resolver \<Rightarrow> bool" where
  "fitting [] r = fits r"
| "fitting (x # xs) r = (fits r \<and> fitting xs (snd (perform x r)))"

section \<open>Identifiers are handed out once\<close>

definition counters_ok :: "Resolver \<Rightarrow> bool" where
  "counters_ok r \<longleftrightarrow> distinct (map fst (partitions r)) \<and> 64 \<le> nextCustomPartition r
     \<and> (\<forall>p n. map_of (partitions r) p = Some n \<longrightarrow> p < 64 \<or> p < nextCustomPartition r)"

lemma setCounter_map [simp]: "map_of (setCounter p n cs) = (map_of cs)(p \<mapsto> n)"
  by (induction cs) (auto simp: fun_eq_iff)

lemma setCounter_fst: "fst ` set (setCounter p n cs) = insert p (fst ` set cs)"
  by (induction p n cs rule: setCounter.induct) auto

lemma setCounter_distinct [simp]: "distinct (map fst cs) \<Longrightarrow> distinct (map fst (setCounter p n cs))"
  by (induction p n cs rule: setCounter.induct) (auto simp: setCounter_fst)

text \<open>\<open>later r r'\<close>: every counter of \<open>r\<close> is in \<open>r'\<close> and has not gone back.\<close>

definition later :: "Resolver \<Rightarrow> Resolver \<Rightarrow> bool" where
  "later r r' \<longleftrightarrow> (\<forall>p n. map_of (partitions r) p = Some n \<longrightarrow> (\<exists>m. map_of (partitions r') p = Some m \<and> unat n \<le> unat m))"

definition taken :: "Resolver \<Rightarrow> int64 \<Rightarrow> bool" where
  "taken r x \<longleftrightarrow> (\<exists>n. map_of (partitions r) (PartitionOf x) = Some n \<and> unat (SeqOf x) < unat n)"

lemma later_taken: "later r r' \<Longrightarrow> taken r x \<Longrightarrow> taken r' x"
  by (fastforce simp: later_def taken_def)

lemma later_same: "partitions r' = partitions r \<Longrightarrow> later r r'"
  by (simp add: later_def)

lemma fitsD: "fits r \<Longrightarrow> map_of (partitions r) p = Some n \<Longrightarrow> unat p < 2 ^ 20 \<and> unat n \<le> 2 ^ 44 \<and> (p = 0 \<longrightarrow> unat n \<le> 2 ^ 32)"
  by (auto simp: fits_def list_all_iff dest!: map_of_SomeD)

lemma unat_Suc: "unat (n :: int64) < 2 ^ 63 \<Longrightarrow> unat (n + 1) = unat n + 1"
  by (simp add: unat_word_ariths)

lemma sint_unat: "unat (n :: int64) < 2 ^ 63 \<Longrightarrow> sint n = int (unat n)"
proof -
  assume "unat n < 2 ^ 63"
  then have "int (unat n) < int (2 ^ 63)" by (rule of_nat_less_iff [THEN iffD2])
  then have "uint n < 2 ^ 63" by simp
  moreover have "- (2 ^ 63) \<le> uint n" by (rule order_trans [OF _ uint_ge_0]) simp
  ultimately have "sint n = uint n" using signed_take_bit_int_eq_self [of 63 "uint n"] by (simp add: sint_uint)
  then show ?thesis by (simp only: uint_nat)
qed

lemma unat_of_sint: "0 \<le> sint (n :: int64) \<Longrightarrow> int (unat n) = sint n \<and> unat n < 2 ^ 63"
proof -
  assume "0 \<le> sint n"
  then have "uint n = sint n" using sint_less [of n] by (simp add: uint_sint take_bit_int_eq_self)
  then have "int (unat n) = sint n" by (simp only: uint_nat)
  moreover from this have "int (unat n) < int (2 ^ 63)" using sint_less [of n] by simp
  ultimately show ?thesis by (blast dest: of_nat_less_iff [THEN iffD1])
qed

lemma allocated:
  assumes "AllocateInPartition p r = (Inr e, r')" "counters_ok r" "fits r" "fits r'"
  shows "counters_ok r' \<and> later r r' \<and> taken r' e \<and> \<not> taken r e"
proof -
  from assms(1) obtain n where n: "map_of (partitions r) p = Some n" "e = MakeEntityID p n"
    "r' = r\<lparr>partitions := setCounter p (n + 1) (partitions r)\<rparr>"
    by (auto simp: AllocateInPartition_def split: option.splits)
  have p: "unat p < 2 ^ 20" "unat n \<le> 2 ^ 44" using fitsD [OF assms(3) n(1)] by auto
  then have s: "unat (n + 1) = unat n + 1" by (simp add: unat_Suc)
  have "map_of (partitions r') p = Some (n + 1)" by (simp add: n(3))
  then have "unat n < 2 ^ 44" using fitsD [OF assms(4)] s by fastforce
  with MakeEntityID_parts [OF p(1)] n(2) have e: "PartitionOf e = p" "SeqOf e = n" by auto
  have "later r r'" "taken r' e" "\<not> taken r e" using n s e by (auto simp: later_def taken_def)
  moreover have "counters_ok r'" using assms(2) n by (auto simp: counters_ok_def)
  ultimately show ?thesis by blast
qed

lemma raised:
  assumes "r' = raiseSeq p s r" "counters_ok r" "fits r"
  shows "counters_ok r' \<and> later r r'"
proof (cases "map_of (partitions r) p")
  case None
  then show ?thesis using assms by (simp add: raiseSeq_def later_same)
next
  case (Some n)
  show ?thesis
  proof (cases "sint s \<ge> sint n")
    case True
    have "sint n = int (unat n)" using fitsD [OF assms(3) Some] by (intro sint_unat) simp
    then have "0 \<le> sint s" "int (unat n) \<le> sint s" using True by linarith+
    with unat_of_sint [of s] have s: "unat n \<le> unat s" "unat s < 2 ^ 63" by linarith+
    have r': "r' = r\<lparr>partitions := setCounter p (s + 1) (partitions r)\<rparr>" using assms(1) Some True by (simp add: raiseSeq_def)
    have "later r r'" using Some s unat_Suc [of s] by (auto simp: r' later_def)
    moreover have "counters_ok r'" using assms(2) Some by (auto simp: r' counters_ok_def)
    ultimately show ?thesis by blast
  next
    case False
    then show ?thesis using assms Some by (simp add: raiseSeq_def later_same)
  qed
qed

lemma seq_set:
  assumes "r' = SetPartitionSeq p s r" "counters_ok r" "fits r"
  shows "counters_ok r' \<and> later r r'"
proof (cases "map_of (partitions r) p")
  case None
  then show ?thesis using assms by (simp add: SetPartitionSeq_def later_same)
next
  case (Some n)
  show ?thesis
  proof (cases "sint s > sint n")
    case True
    have "sint n = int (unat n)" using fitsD [OF assms(3) Some] by (intro sint_unat) simp
    then have "0 \<le> sint s" "int (unat n) \<le> sint s" using True by linarith+
    with unat_of_sint [of s] have s: "unat n \<le> unat s" by linarith
    have r': "r' = r\<lparr>partitions := setCounter p s (partitions r)\<rparr>" using assms(1) Some True by (simp add: SetPartitionSeq_def)
    have "later r r'" using Some s by (auto simp: r' later_def)
    moreover have "counters_ok r'" using assms(2) Some by (auto simp: r' counters_ok_def)
    ultimately show ?thesis by blast
  next
    case False
    then show ?thesis using assms Some by (simp add: SetPartitionSeq_def later_same)
  qed
qed

lemma partition_added:
  assumes "map_of (partitions r) p = None" "partitions r' = setCounter p 1 (partitions r)" "counters_ok r"
    and "nextCustomPartition r' = (if p \<ge> 64 \<and> p \<ge> nextCustomPartition r then p + 1 else nextCustomPartition r)" "fits r'"
  shows "counters_ok r' \<and> later r r'"
proof -
  have "map_of (partitions r') p = Some 1" by (simp add: assms(2))
  then have "unat p < 2 ^ 20" using fitsD [OF assms(5)] by blast
  then have p: "p < p + 1" using unat_Suc [of p] by (simp add: word_less_nat_alt)
  have "later r r'" using assms(1,2) by (auto simp: later_def)
  moreover have "counters_ok r'"
    unfolding counters_ok_def assms(2) setCounter_map
  proof (intro conjI allI impI)
    show "distinct (map fst (setCounter p 1 (partitions r)))" using assms(3) by (simp add: counters_ok_def)
    show "64 \<le> nextCustomPartition r'" using assms(3) p by (auto simp: counters_ok_def assms(4))
    fix q n assume "((map_of (partitions r))(p \<mapsto> 1)) q = Some n"
    then have "q = p \<or> map_of (partitions r) q = Some n" by (auto split: if_splits)
    moreover have "q < 64 \<or> q < nextCustomPartition r" if "map_of (partitions r) q = Some n"
      using assms(3) that unfolding counters_ok_def by blast
    ultimately show "q < 64 \<or> q < nextCustomPartition r'" using p by (auto simp: assms(4))
  qed
  ultimately show ?thesis by blast
qed

lemma partition_declared:
  assumes "r' = snd (DeclarePartition n r)" "counters_ok r" "fits r'"
  shows "counters_ok r' \<and> later r r'"
proof (cases "partitionNames r n")
  case None
  let ?p = "nextCustomPartition r"
  have "map_of (partitions r) ?p = None"
    using assms(2) unfolding counters_ok_def by (metis not_less not_None_eq order.irrefl)
  with None assms show ?thesis
    by (intro partition_added [where p = ?p]) (auto simp: DeclarePartition_def Let_def counters_ok_def)
next
  case (Some p)
  then show ?thesis using assms by (simp add: DeclarePartition_def later_same)
qed

lemma partition_registered:
  assumes "r' = RegisterPartition n p r" "counters_ok r" "fits r'"
  shows "counters_ok r' \<and> later r r'"
proof (cases "partitionNames r n")
  case None
  show ?thesis
  proof (cases "map_of (partitions r) p")
    case c: None
    with None assms show ?thesis
      by (intro partition_added [where p = p]) (auto simp: RegisterPartition_def Let_def)
  next
    case (Some m)
    then have "p < 64 \<or> p < nextCustomPartition r" using assms(2) unfolding counters_ok_def by blast
    then have "partitions r' = partitions r" "nextCustomPartition r' = nextCustomPartition r"
      using None Some assms(1) by (auto simp: RegisterPartition_def Let_def)
    then show ?thesis using assms(2) by (simp add: counters_ok_def later_same)
  qed
next
  case (Some q)
  then show ?thesis using assms by (simp add: RegisterPartition_def later_same)
qed

text \<open>Operations that leave the counters alone.\<close>

lemma counters_same:
  "partitions r' = partitions r \<Longrightarrow> nextCustomPartition r' = nextCustomPartition r \<Longrightarrow> counters_ok r \<Longrightarrow> counters_ok r' \<and> later r r'"
  by (simp add: counters_ok_def later_same)

lemma counters_cong:
  assumes "partitions r' = partitions r1" "nextCustomPartition r' = nextCustomPartition r1"
  shows "counters_ok r' = counters_ok r1" "later r r' = later r r1" "taken r' x = taken r1 x" "fits r' = fits r1"
  unfolding counters_ok_def later_def taken_def fits_def assms by (rule refl)+

lemma allocated_db:
  assumes "AllocateInPartition PartDb r = (Inr e, r1)" "counters_ok r" "fits r" "fits r1"
    and "partitions r' = partitions r1" "nextCustomPartition r' = nextCustomPartition r1"
  shows "counters_ok r' \<and> later r r' \<and> taken r' (ucast (ucast e :: uint32)) \<and> \<not> taken r (ucast (ucast e :: uint32))"
proof -
  from assms(1) obtain n where n: "map_of (partitions r) 0 = Some n" "e = n"
    "r1 = r\<lparr>partitions := setCounter 0 (n + 1) (partitions r)\<rparr>"
    by (auto simp: AllocateInPartition_def MakeEntityID_def split: option.splits)
  have "unat n \<le> 2 ^ 32" using fitsD [OF assms(3) n(1)] by auto
  then have s: "unat (n + 1) = unat n + 1" by (simp add: unat_Suc)
  have "map_of (partitions r1) 0 = Some (n + 1)" by (simp add: n(3))
  then have "unat n < 2 ^ 32" using fitsD [OF assms(4)] s by fastforce
  then have "ucast (ucast e :: uint32) = e"
    by (intro word_unat_eq_iff [THEN iffD2]) (simp add: n(2) unsigned_ucast_eq unsigned_take_bit_eq take_bit_nat_eq_self)
  then show ?thesis using allocated [OF assms(1-4)] counters_cong [OF assms(5,6)] by simp
qed

lemma allocate_error: "AllocateInPartition p r = (Inl e, r') \<Longrightarrow> r' = r"
  by (auto simp: AllocateInPartition_def split: option.splits)

definition performs_ok :: "Resolver \<Rightarrow> int64 list \<Rightarrow> Resolver \<Rightarrow> bool" where
  "performs_ok r ids r' \<longleftrightarrow>
     counters_ok r' \<and> later r r' \<and> distinct ids \<and> (\<forall>i \<in> set ids. taken r' i \<and> \<not> taken r i)"

lemma performs_ok_Nil: "counters_ok r' \<and> later r r' \<Longrightarrow> performs_ok r [] r'"
  by (simp add: performs_ok_def)

lemma performs_ok_refl: "counters_ok r \<Longrightarrow> performs_ok r [] r"
  by (simp add: performs_ok_Nil later_same)

lemma intern_ok:
  assumes "perform (Intern n) r = (ids, r')" "counters_ok r" "fits r" "fits r'"
  shows "performs_ok r ids r'"
proof (cases "NormalizeAttr n")
  case (Inl e)
  then show ?thesis using assms by (simp add: InternAttr_def performs_ok_refl)
next
  case (Inr m)
  show ?thesis
  proof (cases "attrs r m")
    case None
    obtain e r1 where a: "AllocateInPartition PartDb r = (e, r1)" by (cases "AllocateInPartition PartDb r")
    show ?thesis
    proof (cases e)
      case (Inl x)
      then show ?thesis using assms a allocate_error [of PartDb r x r1] None Inr by (simp add: InternAttr_def performs_ok_refl)
    next
      case i: (Inr x)
      have p: "partitions r' = partitions r1" "nextCustomPartition r' = nextCustomPartition r1" "ids = [ucast (ucast x :: uint32)]"
        using assms(1) a i None Inr by (auto simp: InternAttr_def bindAttr_def Let_def LookupAttr_def)
      with allocated_db [OF a [unfolded i] assms(2,3) _ p(1,2)] assms(4) counters_cong(4) [OF p(1,2)]
      show ?thesis by (simp add: performs_ok_def)
    qed
  next
    case (Some b)
    then show ?thesis using assms Inr by (auto simp: InternAttr_def LookupAttr_def performs_ok_refl)
  qed
qed

lemma declare_ok:
  assumes "perform (Declare n vt many) r = (ids, r')" "counters_ok r" "fits r" "fits r'"
  shows "performs_ok r ids r'"
proof (cases "NormalizeAttr n")
  case (Inl e)
  then show ?thesis using assms by (simp add: DeclareAttr_def performs_ok_refl)
next
  case (Inr m)
  show ?thesis
  proof (cases "case attrs r m of Some b \<Rightarrow> declared r b | None \<Rightarrow> False")
    case True
    then show ?thesis using assms Inr by (auto simp: DeclareAttr_def performs_ok_refl)
  next
    case False
    obtain e r1 where a: "AllocateInPartition PartDb r = (e, r1)" by (cases "AllocateInPartition PartDb r")
    show ?thesis
    proof (cases e)
      case (Inl x)
      then show ?thesis using assms a allocate_error [of PartDb r x r1] False Inr by (simp add: DeclareAttr_def performs_ok_refl)
    next
      case i: (Inr x)
      have p: "partitions r' = partitions r1" "nextCustomPartition r' = nextCustomPartition r1" "ids = [ucast (ucast x :: uint32)]"
        using assms(1) a i False Inr by (auto simp: DeclareAttr_def bindAttr_def Let_def)
      with allocated_db [OF a [unfolded i] assms(2,3) _ p(1,2)] assms(4) counters_cong(4) [OF p(1,2)]
      show ?thesis by (simp add: performs_ok_def)
    qed
  qed
qed

lemma registerUser_counters:
  "partitions (registerUser n aid vt many unique indexed r) = partitions r"
  "nextCustomPartition (registerUser n aid vt many unique indexed r) = nextCustomPartition r"
  by (simp_all add: registerUser_def bindAttr_def Let_def)

lemma loaded_ok:
  assumes "r' = LoadUserAttr n e vt many unique indexed r" "counters_ok r" "fits r"
  shows "counters_ok r' \<and> later r r'"
proof -
  let ?r6 = "registerUser n (ucast e) vt many unique indexed r"
  have r': "partitions r' = partitions (raiseSeq (PartitionOf e) (SeqOf e) ?r6)"
    "nextCustomPartition r' = nextCustomPartition (raiseSeq (PartitionOf e) (SeqOf e) ?r6)"
    by (simp_all add: assms(1) LoadUserAttr_def Let_def)
  have "counters_ok ?r6" "fits ?r6"
    using counters_cong [OF registerUser_counters] assms by simp_all
  from raised [OF refl this] show ?thesis
    using counters_cong [OF r'] by (simp add: later_def registerUser_counters)
qed

lemma performed:
  assumes "perform x r = (ids, r')" "counters_ok r" "fits r" "fits r'"
  shows "performs_ok r ids r'"
proof (cases x)
  case (Alloc p)
  obtain e r1 where a: "AllocateInPartition p r = (e, r1)" by (cases "AllocateInPartition p r")
  show ?thesis
  proof (cases e)
    case (Inl y)
    then show ?thesis using assms Alloc a allocate_error [of p r y r1] by (simp add: performs_ok_refl)
  next
    case (Inr y)
    then show ?thesis using assms Alloc a allocated [of p r y r1] by (auto simp: performs_ok_def)
  qed
next
  case (Intern n)
  then show ?thesis using intern_ok assms by blast
next
  case (Declare n vt many)
  then show ?thesis using declare_ok assms by blast
next
  case (DeclPart n)
  then show ?thesis using assms partition_declared [OF refl] by (auto intro: performs_ok_Nil)
next
  case (RegPart n p)
  then show ?thesis using assms partition_registered [OF refl] by (auto intro: performs_ok_Nil)
next
  case (Advance e)
  then show ?thesis using assms raised [OF refl] by (auto simp: AdvancePast_def intro: performs_ok_Nil)
next
  case (SetSeq p s)
  then show ?thesis using assms seq_set [OF refl] by (auto intro: performs_ok_Nil)
next
  case (LoadUser n e vt many unique indexed)
  then show ?thesis using assms loaded_ok [OF refl] by (auto intro: performs_ok_Nil)
next
  case (Flags a many unique indexed)
  then have "ids = []" "partitions r' = partitions r" "nextCustomPartition r' = nextCustomPartition r"
    using assms(1) by (auto simp: SetIndexed_def SetUnique_def SetCardinality_def)
  then show ?thesis using counters_same [of r' r] assms(2) by (simp add: performs_ok_Nil)
qed

lemma performs_distinct:
  assumes "performs xs r = (ids, r')" "counters_ok r" "fitting xs r"
  shows "distinct ids \<and> (\<forall>i \<in> set ids. \<not> taken r i)"
  using assms
proof (induction xs arbitrary: r ids r')
  case (Cons x xs)
  obtain a r1 where x: "perform x r = (a, r1)" by (cases "perform x r")
  obtain b r2 where xs: "performs xs r1 = (b, r2)" by (cases "performs xs r1")
  have f: "fits r" "fitting xs r1" using Cons.prems x by auto
  then have "fits r1" by (cases xs) auto
  with performed [OF x] f Cons.prems have ok: "performs_ok r a r1" by blast
  with Cons.IH [OF xs] f have IH: "distinct b" "\<forall>i \<in> set b. \<not> taken r1 i" by (auto simp: performs_ok_def)
  have "ids = a @ b" using Cons.prems x xs by simp
  with ok IH show ?case by (auto simp: performs_ok_def dest: later_taken)
qed simp

lemma NewResolver_parts:
  "partitions NewResolver = [(0, 100), (3, 1), (4, 1)]" "nextCustomPartition NewResolver = 64"
  "partitionNames NewResolver = [''db.part/db'' \<mapsto> 0, ''db.part/tx'' \<mapsto> 3, ''db.part/user'' \<mapsto> 4]"
proof -
  have "nextCustomPartition (fold addBootstrap xs r) = nextCustomPartition r"
    "nextCustomPartition (fold addBootstrapType xs r) = nextCustomPartition r" for xs r
    by (induction xs arbitrary: r) (auto simp: addBootstrap_def addBootstrapType_def)
  then show "nextCustomPartition NewResolver = 64" by (simp add: NewResolver_def Let_def emptyResolver_def)
qed (simp_all add: NewResolver_def Let_def)

text \<open>C26. Identifiers are handed out once: in any run of the resolver's operations from its initial state, with
  allocations in any partition, attributes interned and declared, partitions declared and registered, counters
  moved and attributes loaded in between, the identifiers handed out (an attribute's number among them) are
  pairwise different, as long as partitions and counters fit their bits of an identifier.\<close>

theorem identifiers_unique:
  assumes "fitting ops NewResolver"
  shows "distinct (fst (performs ops NewResolver))"
proof -
  have "counters_ok NewResolver" by (simp add: counters_ok_def NewResolver_parts)
  then show ?thesis using performs_distinct [of ops NewResolver] assms by (cases "performs ops NewResolver") auto
qed

theorem identifiers_unique_witness:
  "distinct (fst (performs [Alloc 4, DeclPart ''p'', Alloc 64, Advance (MakeEntityID 4 9), Alloc 4] NewResolver))"
  by (rule identifiers_unique)
    (simp add: NewResolver_parts fits_def AllocateInPartition_def DeclarePartition_def AdvancePast_def raiseSeq_def
      PartitionOf_def SeqOf_def MakeEntityID_def Let_def)

section \<open>Names and numbers\<close>

text \<open>Every known name has a number that leads back to it, and every number is below the schema counter.\<close>

definition numbered :: "Resolver \<Rightarrow> uint32 \<Rightarrow> bool" where
  "numbered r a \<longleftrightarrow> (\<exists>c. map_of (partitions r) 0 = Some c \<and> unat a < unat c)"

definition names_ok :: "Resolver \<Rightarrow> bool" where
  "names_ok r \<longleftrightarrow> (\<forall>n a. attrs r n = Some a \<longrightarrow> attrsRev r a = Some n) \<and> (\<forall>a n. attrsRev r a = Some n \<longrightarrow> numbered r a)
     \<and> map_of (partitions r) 0 \<noteq> None"

text \<open>An attribute is loaded consistently: a schema entity, and neither its name nor its number belongs to another.\<close>

fun consistent :: "rop \<Rightarrow> Resolver \<Rightarrow> bool" where
  "consistent (LoadUser n e vt many unique indexed) r =
     (unat e < 2 ^ 32 \<and> attrs r n \<in> {None, Some (ucast e)} \<and> attrsRev r (ucast e) \<in> {None, Some n})"
| "consistent _ r = True"

fun consistently :: "rop list \<Rightarrow> Resolver \<Rightarrow> bool" where
  "consistently [] r = True"
| "consistently (x # xs) r = (consistent x r \<and> consistently xs (snd (perform x r)))"

lemma numbered_later: "later r r' \<Longrightarrow> numbered r a \<Longrightarrow> numbered r' a"
  by (fastforce simp: later_def numbered_def)

lemma names_ok_later:
  "names_ok r \<Longrightarrow> later r r' \<Longrightarrow> attrs r' = attrs r \<Longrightarrow> attrsRev r' = attrsRev r \<Longrightarrow> names_ok r'"
  using numbered_later [of r r'] unfolding names_ok_def later_def by fastforce

lemma bindAttr_names:
  assumes "names_ok r" "numbered r a" "attrsRev r a \<in> {None, Some n}"
  shows "names_ok (bindAttr n a r)"
proof -
  have "attrsRev (bindAttr n a r) b = Some m" if "attrs (bindAttr n a r) m = Some b" for m b
    using that assms(1,3) by (cases "m = n") (auto simp: bindAttr_def names_ok_def)
  moreover have "numbered (bindAttr n a r) b" if "attrsRev (bindAttr n a r) b = Some m" for m b
    using that assms(1,2) by (auto simp: bindAttr_def names_ok_def numbered_def split: if_splits)
  moreover have "map_of (partitions (bindAttr n a r)) 0 \<noteq> None" using assms(1) by (simp add: bindAttr_def names_ok_def)
  ultimately show ?thesis unfolding names_ok_def by blast
qed

lemma fresh_number:
  assumes "AllocateInPartition PartDb r = (Inr e, r1)" "names_ok r" "fits r" "fits r1"
  shows "names_ok r1 \<and> numbered r1 (ucast e) \<and> attrsRev r1 (ucast e) = None"
proof -
  from assms(1) obtain n where n: "map_of (partitions r) 0 = Some n" "e = n"
    "r1 = r\<lparr>partitions := setCounter 0 (n + 1) (partitions r)\<rparr>"
    by (auto simp: AllocateInPartition_def MakeEntityID_def split: option.splits)
  have "unat n \<le> 2 ^ 32" using fitsD [OF assms(3) n(1)] by auto
  then have s: "unat (n + 1) = unat n + 1" by (simp add: unat_Suc)
  have c: "map_of (partitions r1) 0 = Some (n + 1)" by (simp add: n(3))
  then have "unat n < 2 ^ 32" using fitsD [OF assms(4)] s by fastforce
  then have e: "unat (ucast e :: uint32) = unat n"
    by (simp add: n(2) unsigned_ucast_eq unsigned_take_bit_eq take_bit_nat_eq_self)
  have "\<not> numbered r (ucast e)" using e n(1) by (simp add: numbered_def)
  then have "attrsRev r (ucast e) = None" using assms(2) unfolding names_ok_def by (cases "attrsRev r (ucast e)") auto
  moreover have "names_ok r1" using s n by (intro names_ok_later [OF assms(2)]) (auto simp: later_def)
  ultimately show ?thesis using c e s by (auto simp: numbered_def n(3))
qed

lemma names_cong: "attrs r' = attrs r \<Longrightarrow> attrsRev r' = attrsRev r \<Longrightarrow> partitions r' = partitions r \<Longrightarrow> names_ok r' = names_ok r"
  by (simp add: names_ok_def numbered_def)

lemma bound_fresh:
  assumes "AllocateInPartition PartDb r = (Inr e, r1)" "names_ok r" "fits r" "fits r'"
    and "attrs r' = attrs (bindAttr m (ucast e) r1)" "attrsRev r' = attrsRev (bindAttr m (ucast e) r1)"
    and "partitions r' = partitions r1"
  shows "names_ok r'"
proof -
  have "fits r1" using assms(4,7) by (simp add: fits_def)
  with fresh_number [OF assms(1-3)] have "names_ok (bindAttr m (ucast e) r1)" by (intro bindAttr_names) auto
  moreover have "partitions (bindAttr m (ucast e) r1) = partitions r1" by (simp add: bindAttr_def)
  ultimately show ?thesis using names_cong assms(5-7) by metis
qed

lemma raised_numbered:
  assumes "map_of (partitions r) 0 = Some c" "unat c \<le> 2 ^ 32" "unat e < 2 ^ 32" "unat a = unat e"
    and "partitions r' = partitions (raiseSeq 0 e r)"
  shows "numbered r' a"
proof -
  have "sint e = int (unat e)" "sint c = int (unat c)" "unat (e + 1) = unat e + 1"
    using sint_unat [of e] sint_unat [of c] unat_Suc [of e] assms(2,3) by simp_all
  then have "sint e \<ge> sint c \<longleftrightarrow> unat e \<ge> unat c" "unat (e + 1) = unat e + 1" by linarith+
  then show ?thesis using assms by (auto simp: numbered_def raiseSeq_def)
qed

lemma names_performed:
  assumes "perform x r = (ids, r')" "names_ok r" "counters_ok r" "fits r" "fits r'" "consistent x r"
  shows "names_ok r'"
proof -
  have later: "later r r'" using performed [OF assms(1,3-5)] by (simp add: performs_ok_def)
  obtain e r1 where a: "AllocateInPartition PartDb r = (e, r1)" by (cases "AllocateInPartition PartDb r")
  show ?thesis
  proof (cases x)
    case (Intern n)
    then consider "r' = r" | m y where "e = Inr y" "r' = bindAttr m (ucast y) (r1\<lparr>nextAid := ucast y + 1\<rparr>)"
      using assms(1) a allocate_error [of PartDb r _ r1]
      by (fastforce simp: InternAttr_def Let_def split: sum.splits option.splits)
    then show ?thesis
    proof cases
      case 2
      then show ?thesis using a assms by (intro bound_fresh [of r y r1 r' m]) (auto simp: bindAttr_def)
    qed (use assms in simp)
  next
    case (Declare n vt many)
    then consider "r' = r" | m y where "e = Inr y" "attrs r' = attrs (bindAttr m (ucast y) r1)"
        "attrsRev r' = attrsRev (bindAttr m (ucast y) r1)" "partitions r' = partitions r1"
      using assms(1) a allocate_error [of PartDb r _ r1]
      by (cases "NormalizeAttr n"; cases e) (fastforce simp: DeclareAttr_def bindAttr_def Let_def split: if_splits)+
    then show ?thesis
    proof cases
      case 2
      then show ?thesis using a assms by (intro bound_fresh [of r y r1 r' m]) auto
    qed (use assms in simp)
  next
    case (LoadUser n e vt many unique indexed)
    let ?a = "ucast e :: uint32" and ?r0 = "r'\<lparr>attrs := attrs r, attrsRev := attrsRev r\<rparr>"
    have e: "PartitionOf e = 0" "SeqOf e = e" "unat ?a = unat e"
      using assms(6) LoadUser MakeEntityID_parts [of 0 e]
      by (simp_all add: MakeEntityID_def unsigned_ucast_eq unsigned_take_bit_eq take_bit_nat_eq_self)
    have r': "r' = LoadUserAttr n e vt many unique indexed r" using assms(1) LoadUser by simp
    have "attrs r' = (attrs r)(n \<mapsto> ?a)" "attrsRev r' = (attrsRev r)(?a \<mapsto> n)"
      by (simp_all add: r' LoadUserAttr_def registerUser_def bindAttr_def raiseSeq_def Let_def split: option.split)
    then have b: "bindAttr n ?a ?r0 = r'" by (simp add: bindAttr_def)
    obtain c where "map_of (partitions r) 0 = Some c" using assms(2) by (auto simp: names_ok_def)
    with fitsD [OF assms(4) this] e assms(6) LoadUser have "numbered r' ?a"
      by (intro raised_numbered [of "registerUser n ?a vt many unique indexed r" c e ?a r'])
        (simp_all add: registerUser_counters r' LoadUserAttr_def Let_def)
    then have "numbered ?r0 ?a" by (simp add: numbered_def)
    moreover have "names_ok ?r0" using later by (intro names_ok_later [OF assms(2)]) (simp_all add: later_def)
    ultimately have "names_ok (bindAttr n ?a ?r0)" using assms(6) LoadUser by (intro bindAttr_names) simp_all
    then show ?thesis by (simp add: b)
  qed (use assms(1) later in \<open>auto intro!: names_ok_later [OF assms(2)] simp: AllocateInPartition_def DeclarePartition_def
      RegisterPartition_def AdvancePast_def raiseSeq_def SetPartitionSeq_def SetIndexed_def SetUnique_def SetCardinality_def Let_def
      split: option.splits if_splits\<close>)
qed

lemma performs_names:
  assumes "names_ok r" "counters_ok r" "fitting xs r" "consistently xs r"
  shows "names_ok (snd (performs xs r)) \<and> counters_ok (snd (performs xs r)) \<and> fits (snd (performs xs r))"
  using assms
proof (induction xs arbitrary: r)
  case (Cons x xs)
  obtain ids r1 where x: "perform x r = (ids, r1)" by (cases "perform x r")
  have f: "fits r" "fitting xs r1" "consistent x r" "consistently xs r1" using Cons.prems x by auto
  then have "fits r1" by (cases xs) auto
  with Cons.IH [OF names_performed [OF x] _ f(2,4)] performed [OF x] f Cons.prems x show ?case
    by (auto simp: performs_ok_def split: prod.splits)
qed simp

lemma fold_addBootstrap:
  "attrs (fold addBootstrap xs r) = attrs r ++ map_of (rev xs)"
  "attrsRev (fold addBootstrap xs r) = attrsRev r ++ map_of (rev (map prod.swap xs))"
  by (induction xs arbitrary: r) (auto simp: addBootstrap_def fun_eq_iff map_add_def split: option.splits)

lemma fold_addBootstrapType:
  "attrs (fold addBootstrapType xs r) = attrs r" "attrsRev (fold addBootstrapType xs r) = attrsRev r"
  by (induction xs arbitrary: r) (auto simp: addBootstrapType_def)

lemma NewResolver_attrs:
  "attrs NewResolver = map_of (rev BootstrapSchema)"
  "attrsRev NewResolver = map_of (rev (map prod.swap BootstrapSchema))"
  by (simp_all add: NewResolver_def Let_def fold_addBootstrap fold_addBootstrapType emptyResolver_def)

lemma NewResolver_names: "names_ok NewResolver"
proof -
  have d: "distinct (map snd BootstrapSchema)" "list_all (\<lambda>(n, a). unat a < 100) BootstrapSchema" by code_simp+
  have s: "map fst (rev (map prod.swap BootstrapSchema)) = rev (map snd BootstrapSchema)" by (simp add: rev_map comp_def)
  have "map_of (rev (map prod.swap BootstrapSchema)) b = Some n" if "map_of (rev BootstrapSchema) n = Some b" for n b
  proof (rule map_of_is_SomeI)
    show "distinct (map fst (rev (map prod.swap BootstrapSchema)))" using d(1) s by simp
    show "(b, n) \<in> set (rev (map prod.swap BootstrapSchema))" using map_of_SomeD [OF that] by force
  qed
  moreover have "unat b < 100" if "map_of (rev (map prod.swap BootstrapSchema)) b = Some n" for b n
    using map_of_SomeD [OF that] d(2) by (auto simp: list_all_iff)
  ultimately show ?thesis unfolding names_ok_def numbered_def NewResolver_attrs NewResolver_parts by auto
qed

lemma fitting_append: "fitting (xs @ ys) r \<Longrightarrow> fitting xs r \<and> fitting ys (snd (performs xs r))"
proof (induction xs arbitrary: r)
  case Nil
  then show ?case by (cases ys) simp_all
next
  case (Cons x xs)
  then show ?case using Cons.IH [of "snd (perform x r)"] by (simp add: case_prod_beta)
qed

lemma InternAttr_result:
  assumes "names_ok r" "NormalizeAttr name = Inr n"
  shows "\<exists>a. fst (InternAttr name r) = Inr a \<and> attrs (snd (InternAttr name r)) n = Some a"
proof (cases "attrs r n")
  case None
  obtain c where "map_of (partitions r) 0 = Some c" using assms(1) by (auto simp: names_ok_def)
  with None assms(2) show ?thesis by (simp add: InternAttr_def AllocateInPartition_def bindAttr_def Let_def)
qed (simp add: InternAttr_def assms(2))



end
