(* ===== verification/Eavt.thy ===== *)
theory Eavt
  imports Hydrated Anchor Resolver MemTable
begin

text \<open>
  The database engine, \<^verbatim>\<open>src/go/internal/eavt/eavt.go\<close> and \<^verbatim>\<open>write.go\<close>: scans of active datoms, the write path that keeps
  the cache of hydrated entities and the anchor index current, saving and retracting datoms, schema declaration,
  the resolution of a point in time, unique lookups, recovery and the bootstrap of the schema. The storage facade
  is an interface: the operations are functions of a record of its operations.
\<close>

unbundle bit_operations_syntax

section \<open>The storage interface\<close>

text \<open>
  \<open>kvScanPrefix cf prefix\<close> is a scan cursor sought to the prefix and read up to the first key without it;
  \<open>kvBatchWrite\<close> is \<open>BatchWrite(cfs, false)\<close>.
\<close>

record 's kv_ops =
  kvScanPrefix :: "nat \<Rightarrow> bytes \<Rightarrow> 's \<Rightarrow> (bytes list \<times> 's) result"
  kvBatchWrite :: "CfKey list \<Rightarrow> 's \<Rightarrow> 's result"
  kvJournalOnly :: "CfKey list \<Rightarrow> 's \<Rightarrow> 's"
  kvApplyExpanded :: "CfKey list \<Rightarrow> 's \<Rightarrow> 's result"

section \<open>Types\<close>

definition ValueTypeToEncodeMode :: "uint32 \<Rightarrow> EncodeMode" where
  "ValueTypeToEncodeMode vt =
     (if vt = DbTypeRef then EmRef
      else if vt = DbTypeString \<or> vt = DbTypeKeyword then EmVariable
      else if vt = DbTypeBoolean \<or> vt = DbTypeLong \<or> vt = DbTypeInstant \<or> vt = DbTypeFloat then EmFixed
      else if vt = DbTypeBytes \<or> vt = DbTypeBlob then EmBlob
      else EmVariable)"

definition ValueTypeFromName :: "string \<Rightarrow> uint32" where
  "ValueTypeFromName name =
     (let l = map lowerChar name;
          n = (if take 9 l = '':db.type/'' then drop 9 l else l)
      in if n = ''ref'' then DbTypeRef
         else if n = ''string'' then DbTypeString
         else if n = ''keyword'' then DbTypeKeyword
         else if n = ''boolean'' then DbTypeBoolean
         else if n = ''long'' then DbTypeLong
         else if n = ''instant'' then DbTypeInstant
         else if n = ''float'' then DbTypeFloat
         else if n = ''bytes'' then DbTypeBytes
         else if n = ''blob'' then DbTypeBlob
         else DbTypeString)"

record 's Engine =
  eKV :: 's
  eResolver :: Resolver
  eHyd :: HydSet
  eAnchors :: AnchorIndex
  eHydEnabled :: bool
  eSpCount :: int64
  eSpKeysIn :: int64

definition ScanStats :: "'s Engine \<Rightarrow> int64 \<times> int64" where
  "ScanStats e = (eSpCount e, eSpKeysIn e)"

definition ResetScanCounters :: "'s Engine \<Rightarrow> 's Engine" where
  "ResetScanCounters e = e\<lparr>eSpCount := 0, eSpKeysIn := 0\<rparr>"

section \<open>Scans\<close>

definition ScanPrefix :: "'s kv_ops \<Rightarrow> nat \<Rightarrow> bytes \<Rightarrow> 's Engine \<Rightarrow> (bytes list \<times> 's Engine) result" where
  "ScanPrefix ops cf pfx e =
     rbind (kvScanPrefix ops cf pfx (eKV e)) (\<lambda>(ks, s).
       Inr (ks, e\<lparr>eKV := s, eSpCount := eSpCount e + 1, eSpKeysIn := eSpKeysIn e + word_of_nat (length ks)\<rparr>))"

definition ScanPrefixActive :: "'s kv_ops \<Rightarrow> nat \<Rightarrow> bytes \<Rightarrow> 's Engine \<Rightarrow> (bytes list \<times> 's Engine) result" where
  "ScanPrefixActive ops cf pfx e =
     (let eid = DecodeEid (BeUint64 pfx 0);
          fast = eHydEnabled e \<and> cf = 0 \<and> length pfx \<ge> 8;
          (hit, hyd) = (if fast then hProbeComplete eid (eHyd e) else (False, eHyd e));
          e1 = e\<lparr>eHyd := hyd\<rparr>
      in if hit then Inr (hLookupRange eid pfx hyd, e1)
         else rbind (ScanPrefix ops cf pfx e1) (\<lambda>(collected, e2). Inr (activeKeys collected, e2)))"

definition EstimateCount :: "'s kv_ops \<Rightarrow> nat \<Rightarrow> bytes \<Rightarrow> 's Engine \<Rightarrow> (nat \<times> 's Engine) result" where
  "EstimateCount ops cf pfx e =
     rbind (ScanPrefix ops cf pfx e) (\<lambda>(ks, e1). Inr (if length ks < 1 then 1 else length ks, e1))"

section \<open>Writes\<close>

text \<open>A search of the anchor index that does not end is an error value of its own here.\<close>

definition terminates :: "'a option \<Rightarrow> 'a result" where
  "terminates x = (case x of None \<Rightarrow> Inl (Panic ''does not return'') | Some y \<Rightarrow> Inr y)"

definition mirrorAnchor :: "EavtEntry \<Rightarrow> AnchorIndex \<Rightarrow> AnchorIndex result" where
  "mirrorAnchor en an =
     (let k = Key en; n = length k
      in if CF en = 2 \<and> n \<ge> 20 then
           let sf = BeUint64 k (n - 8); aid = BeUint32 k 0; val = slice k 4 (n - 16)
           in if sf AND 1 = 0 then terminates (anPut aid val (DecodeEid (BeUint64 k (n - 16))) an)
              else terminates (anDel aid val an)
         else Inr an)"

fun mirrorAnchors :: "EavtEntry list \<Rightarrow> AnchorIndex \<Rightarrow> AnchorIndex result" where
  "mirrorAnchors [] an = Inr an"
| "mirrorAnchors (en # ens) an = rbind (mirrorAnchor en an) (mirrorAnchors ens)"

definition toCfKey :: "EavtEntry \<Rightarrow> CfKey" where
  "toCfKey en = \<lparr>Cf = CF en, CfKey_Key = Key en\<rparr>"

definition EngineBatchWrite :: "'s kv_ops \<Rightarrow> EavtEntry list \<Rightarrow> 's Engine \<Rightarrow> 's Engine result" where
  "EngineBatchWrite ops ens e =
     (if ens = [] then Inr e
      else
        rbind (mirrorAnchors ens (eAnchors e)) (\<lambda>an.
          let cfs = map toCfKey ens;
              durable = filter (\<lambda>c. Cf c = 0) cfs;
              s1 = (if durable \<noteq> [] then kvJournalOnly ops durable (eKV e) else eKV e);
              hyd = (if eHydEnabled e then fold (\<lambda>d. hApplyKey (CfKey_Key d)) durable (eHyd e) else eHyd e)
          in rbind (kvBatchWrite ops cfs s1) (\<lambda>s2. Inr (e\<lparr>eKV := s2, eAnchors := an, eHyd := hyd\<rparr>))))"

definition BatchWriteForeign :: "'s kv_ops \<Rightarrow> EavtEntry list \<Rightarrow> 's Engine \<Rightarrow> 's Engine result" where
  "BatchWriteForeign ops ens e = (if ens = [] then Inr e else EngineBatchWrite ops ens e)"

definition encodeForMode :: "(string \<Rightarrow> float64 option) \<Rightarrow> string \<Rightarrow> EncodeMode \<Rightarrow> bytes result" where
  "encodeForMode pf value mode =
     (if mode = EmRef then
        (case ParseInt64 value of
           None \<Rightarrow> Inl (Error ''REF value must be an entity id'')
         | Some n \<Rightarrow> EncodeValue pf value mode n)
      else EncodeValue pf value mode 0)"

definition eidAttrPrefix :: "int64 \<Rightarrow> uint32 \<Rightarrow> bytes" where
  "eidAttrPrefix eid aid = EncodeEid eid @ put_be 4 aid"

text \<open>The keys of an attribute that are not retractions are retracted one by one, each in a batch of its own.\<close>

fun retractKeys :: "'s kv_ops \<Rightarrow> int64 \<Rightarrow> uint32 \<Rightarrow> int64 \<Rightarrow> EncodeMode \<Rightarrow> bool \<Rightarrow> bytes list \<Rightarrow> 's Engine \<Rightarrow> 's Engine result" where
  "retractKeys ops eid aid t mode indexed [] e = Inr e"
| "retractKeys ops eid aid t mode indexed (ek # eks) e =
     (if length ek < 20 \<or> BeUint64 ek (length ek - 8) AND 1 \<noteq> 0 then retractKeys ops eid aid t mode indexed eks e
      else rbind (EngineBatchWrite ops (BuildEavtEntries eid aid (slice ek 12 (length ek - 8)) t True mode indexed) e)
             (retractKeys ops eid aid t mode indexed eks))"

definition typeOr :: "uint32 \<Rightarrow> uint32 option \<Rightarrow> uint32" where
  "typeOr d vt = (case vt of Some v \<Rightarrow> v | None \<Rightarrow> d)"

definition EavtSave :: "(string \<Rightarrow> float64 option) \<Rightarrow> 's kv_ops \<Rightarrow> int64 \<Rightarrow> string \<Rightarrow> string \<Rightarrow> int64 \<Rightarrow> 's Engine \<Rightarrow> 's Engine result" where
  "EavtSave pf ops eid attrName value t e =
     (case InternAttr attrName (eResolver e) of
        (Inl err, r) \<Rightarrow> Inl err
      | (Inr attrID, r) \<Rightarrow>
          let e1 = e\<lparr>eResolver := r\<rparr>;
              many = IsMany attrID r;
              mode = ValueTypeToEncodeMode (typeOr DbTypeString (ValueTypeFor attrID r));
              indexed = IsIndexed attrID r
          in rbind (encodeForMode pf value mode) (\<lambda>encoded.
             rbind (if many then Inr e1
                    else rbind (ScanPrefix ops 0 (eidAttrPrefix eid attrID) e1)
                           (\<lambda>(eks, e2). retractKeys ops eid attrID t mode indexed eks e2)) (\<lambda>e3.
             EngineBatchWrite ops (BuildEavtEntries eid attrID encoded t False mode indexed) e3)))"

definition EavtRetract :: "(string \<Rightarrow> float64 option) \<Rightarrow> 's kv_ops \<Rightarrow> int64 \<Rightarrow> string \<Rightarrow> string \<Rightarrow> int64 \<Rightarrow> 's Engine \<Rightarrow> 's Engine result" where
  "EavtRetract pf ops eid attrName value t e =
     (case InternAttr attrName (eResolver e) of
        (Inl err, r) \<Rightarrow> Inl err
      | (Inr attrID, r) \<Rightarrow>
          let mode = ValueTypeToEncodeMode (typeOr DbTypeString (ValueTypeFor attrID r))
          in rbind (encodeForMode pf value mode) (\<lambda>encoded.
             EngineBatchWrite ops (BuildEavtEntries eid attrID encoded t True mode (IsIndexed attrID r)) (e\<lparr>eResolver := r\<rparr>)))"

section \<open>Transactions and schema\<close>

text \<open>Where the source drops an error, the value is the zero value.\<close>

definition orZero :: "'a \<Rightarrow> 'a result \<Rightarrow> 'a" where
  "orZero z r = (case r of Inl _ \<Rightarrow> z | Inr x \<Rightarrow> x)"

definition allocate :: "uint64 \<Rightarrow> 's Engine \<Rightarrow> int64 \<times> 's Engine" where
  "allocate pid e = (case AllocateInPartition pid (eResolver e) of (x, r) \<Rightarrow> (orZero 0 x, e\<lparr>eResolver := r\<rparr>))"

definition TxInstantEntry :: "(string \<Rightarrow> float64 option) \<Rightarrow> uint64 \<Rightarrow> int64 \<Rightarrow> EavtEntry list" where
  "TxInstantEntry pf now txEid =
     BuildEavtEntries txEid DbTxInstantAid (orZero [] (EncodeValue pf (FormatUint now) EmFixed 0)) txEid False EmFixed False"

definition AllocateTAndWriteTx :: "(string \<Rightarrow> float64 option) \<Rightarrow> 's kv_ops \<Rightarrow> uint64 \<Rightarrow> 's Engine \<Rightarrow> (int64 \<times> 's Engine) result" where
  "AllocateTAndWriteTx pf ops now e =
     (case allocate PartTx e of (txEid, e1) \<Rightarrow>
        rbind (EngineBatchWrite ops (TxInstantEntry pf now txEid) e1) (\<lambda>e2. Inr (txEid, e2)))"

definition AllocateTDeferred :: "'s Engine \<Rightarrow> int64 \<times> 's Engine" where
  "AllocateTDeferred = allocate PartTx"

text \<open>The newest transaction whose instant is at most \<open>asOf\<close>; \<open>best\<close> is the transaction and instant found so far.\<close>

fun asOfLoop :: "bytes list \<Rightarrow> uint64 \<Rightarrow> (uint64 \<times> uint64) option \<Rightarrow> (uint64 \<times> uint64) option" where
  "asOfLoop [] asOf best = best"
| "asOfLoop (k # ks) asOf best =
     (if length k < 28 \<or> BeUint32 k 0 \<noteq> DbTxInstantAid then asOfLoop ks asOf best
      else if BeUint64 k (length k - 8) AND 1 = 1 then asOfLoop ks asOf best
      else
        let us = DecodeInt64 (BeUint64 k 12)
        in if sint us < 0 then asOfLoop ks asOf best
           else if us \<le> asOf \<and> (case best of None \<Rightarrow> True | Some (tx, inst) \<Rightarrow> us > inst)
             then asOfLoop ks asOf (Some (BeUint64 k 4, us))
           else asOfLoop ks asOf best)"

definition ResolveAsOfTx :: "'s kv_ops \<Rightarrow> uint64 \<Rightarrow> 's Engine \<Rightarrow> (uint64 option \<times> 's Engine) result" where
  "ResolveAsOfTx ops asOfUs e =
     (if asOfUs = NOT 0 then Inr (None, e)
      else if drop_bit 44 asOfUs = PartTx then Inr (Some asOfUs, e)
      else rbind (ScanPrefix ops 1 [0, 0, 0, ucast DbTxInstantAid] e) (\<lambda>(ks, e1).
             Inr (map_option fst (asOfLoop ks asOfUs None), e1)))"

definition declareDatoms :: "(string \<Rightarrow> float64 option) \<Rightarrow> string \<Rightarrow> uint32 \<Rightarrow> bool \<Rightarrow> int64 \<Rightarrow> int64 \<Rightarrow> EavtEntry list list" where
  "declareDatoms pf canonical valueType many aeid t =
     [BuildEavtEntries aeid DbIdentAid (orZero [] (EncodeValue pf canonical EmVariable 0)) aeid False EmVariable True,
      BuildEavtEntries aeid DbValueTypeAid (orZero [] (EncodeValue pf (FormatUint (ucast valueType)) EmFixed 0)) t False EmFixed True,
      BuildEavtEntries aeid DbCardinalityAid
        (orZero [] (EncodeValue pf (FormatUint (ucast (if many then DbCardinalityManyAid else DbCardinalityOneAid))) EmFixed 0)) t False EmFixed True]"

fun writeBatches :: "'s kv_ops \<Rightarrow> EavtEntry list list \<Rightarrow> 's Engine \<Rightarrow> 's Engine result" where
  "writeBatches ops [] e = Inr e"
| "writeBatches ops (b # bs) e = rbind (EngineBatchWrite ops b e) (writeBatches ops bs)"

definition EavtDeclareAttr ::
  "(string \<Rightarrow> float64 option) \<Rightarrow> 's kv_ops \<Rightarrow> string \<Rightarrow> uint32 \<Rightarrow> bool \<Rightarrow> bool \<Rightarrow> 's Engine \<Rightarrow> ((uint32 \<times> bool) \<times> 's Engine) result" where
  "EavtDeclareAttr pf ops name valueType many unique e =
     rbind (NormalizeAttr name) (\<lambda>canonical.
       case DeclareAttr canonical valueType many (eResolver e) of
         (Inl err, r) \<Rightarrow> Inl err
       | (Inr (aid, isNew), r) \<Rightarrow>
           let e1 = e\<lparr>eResolver := (if unique then SetUnique aid True r else r)\<rparr>
           in rbind (if isNew then case allocate PartTx e1 of (t, e2) \<Rightarrow> writeBatches ops (declareDatoms pf canonical valueType many (ucast aid) t) e2
                     else Inr e1) (\<lambda>e3.
              rbind (if unique then case allocate PartTx e3 of (t, e4) \<Rightarrow>
                       EngineBatchWrite ops (BuildEavtEntries (ucast aid) DbUniqueAid
                         (orZero [] (EncodeValue pf (FormatUint (ucast DbUniqueIdentityAid)) EmFixed 0)) t False EmFixed True) e4
                     else Inr e3) (\<lambda>e5. Inr ((aid, isNew), e5))))"

definition systemType :: "string \<Rightarrow> uint32" where
  "systemType name =
     (if name = ''db/ident'' \<or> name = ''db.part/id'' then DbTypeString
      else if name = ''db/txInstant'' then DbTypeInstant
      else if name = ''db/isComponent'' \<or> name = ''db/index'' \<or> name = ''db/fulltext'' \<or> name = ''db/noHistory'' then DbTypeBoolean
      else DbTypeRef)"

definition systemUnique :: "string \<Rightarrow> uint32" where
  "systemUnique name =
     (if name = ''db/unique/value'' then DbUniqueValueAid
      else if name = ''db/unique/identity'' then DbUniqueIdentityAid
      else 0)"

definition systemDatoms :: "(string \<Rightarrow> float64 option) \<Rightarrow> int64 \<Rightarrow> string \<times> uint32 \<Rightarrow> EavtEntry list list" where
  "systemDatoms pf tx s =
     (case s of (name, aid) \<Rightarrow>
        let eid = ucast aid; ref = (\<lambda>x. orZero [] (EncodeValue pf [] EmRef (ucast (x :: uint32))))
        in [BuildEavtEntries eid DbIdentAid (orZero [] (EncodeValue pf name EmVariable 0)) tx False EmVariable True,
            BuildEavtEntries eid DbValueTypeAid (ref (systemType name)) tx False EmRef True,
            BuildEavtEntries eid DbCardinalityAid (ref DbCardinalityOneAid) tx False EmRef True]
           @ (if systemUnique name \<noteq> 0 then [BuildEavtEntries eid DbUniqueAid (ref (systemUnique name)) tx False EmRef True] else []))"

definition BootstrapSystemAttrs :: "(string \<Rightarrow> float64 option) \<Rightarrow> 's kv_ops \<Rightarrow> 's Engine \<Rightarrow> 's Engine result" where
  "BootstrapSystemAttrs pf ops e =
     rbind (ScanPrefix ops 1 [0, 0, 0, ucast DbIdentAid] e) (\<lambda>(ks, e1).
       if list_ex (\<lambda>k. length k \<ge> 24 \<and> DecodeEid (BeUint64 k 4) = ucast DbIdentAid) ks then Inr e1
       else case allocate PartTx e1 of (tx, e2) \<Rightarrow> writeBatches ops (concat (map (systemDatoms pf tx) BootstrapSchema)) e2)"

section \<open>Entities\<close>

definition EngineAllocateInPartition :: "uint64 \<Rightarrow> 's Engine \<Rightarrow> int64 \<times> 's Engine" where
  "EngineAllocateInPartition pid e =
     (case allocate pid e of (eid, e1) \<Rightarrow> (eid, if eHydEnabled e1 then e1\<lparr>eHyd := hHydrateEmpty eid (eHyd e1)\<rparr> else e1))"

definition AllocateEntityId :: "'s Engine \<Rightarrow> int64 \<times> 's Engine" where
  "AllocateEntityId = EngineAllocateInPartition PartUser"

definition HydrateEID :: "'s kv_ops \<Rightarrow> int64 \<Rightarrow> 's Engine \<Rightarrow> 's Engine result" where
  "HydrateEID ops eid e =
     (if \<not> eHydEnabled e \<or> hContains eid (eHyd e) then Inr e
      else rbind (ScanPrefixActive ops 0 (EncodeEid eid) e) (\<lambda>(ks, e1).
             Inr (if ks \<noteq> [] then e1\<lparr>eHyd := hHydrate eid ks (eHyd e1)\<rparr> else e1)))"

section \<open>Lookups\<close>

text \<open>The anchor index answers first; the positions and keys it misses are collected in order.\<close>

fun probeAnchors :: "(nat \<times> bytes) list \<Rightarrow> AnchorIndex \<Rightarrow> int64 list \<Rightarrow> (int64 list \<times> (nat \<times> bytes) list \<times> AnchorIndex) result" where
  "probeAnchors [] an out = Inr (out, [], an)"
| "probeAnchors ((i, k) # ks) an out =
     (if length k > 4 then
        rbind (terminates (anProbe (BeUint32 k 0) (drop 4 k) an)) (\<lambda>((eid, ok), an1).
          if ok then probeAnchors ks an1 (out[i := eid])
          else rbind (probeAnchors ks an1 out) (\<lambda>(out1, miss, an2). Inr (out1, (i, k) # miss, an2)))
      else rbind (probeAnchors ks an out) (\<lambda>(out1, miss, an1). Inr (out1, (i, k) # miss, an1)))"

text \<open>The misses in key order; equal keys share one scan. \<open>prev\<close> is the last miss that was scanned.\<close>

fun scanMisses :: "'s kv_ops \<Rightarrow> (nat \<times> bytes) list \<Rightarrow> (nat \<times> bytes) option \<Rightarrow> int64 list \<Rightarrow> 's Engine \<Rightarrow> (int64 list \<times> 's Engine) result" where
  "scanMisses ops [] prev out e = Inr (out, e)"
| "scanMisses ops ((i, k) # ms) prev out e =
     (case prev of
        Some (j, pk) \<Rightarrow>
          (if cmp_loop pk k = 0 then scanMisses ops ms prev (out[i := out ! j]) e
           else rbind (ScanPrefixActive ops 2 k e) (\<lambda>(res, e1).
                  scanMisses ops ms (Some (i, k))
                    (if res \<noteq> [] \<and> length (hd res) \<ge> 20 then out[i := DecodeEid (BeUint64 (hd res) (length (hd res) - 16))] else out) e1))
      | None \<Rightarrow>
          rbind (ScanPrefixActive ops 2 k e) (\<lambda>(res, e1).
            scanMisses ops ms (Some (i, k))
              (if res \<noteq> [] \<and> length (hd res) \<ge> 20 then out[i := DecodeEid (BeUint64 (hd res) (length (hd res) - 16))] else out) e1))"

definition BatchLookupAvet :: "'s kv_ops \<Rightarrow> bytes list \<Rightarrow> 's Engine \<Rightarrow> (int64 list \<times> 's Engine) result" where
  "BatchLookupAvet ops keys e =
     (let out = replicate (length keys) 0
      in if keys = [] then Inr (out, e)
         else rbind (probeAnchors (enumerate 0 keys) (eAnchors e) out) (\<lambda>(out1, miss, an).
                if miss = [] then Inr (out1, e\<lparr>eAnchors := an\<rparr>)
                else scanMisses ops (sort_key snd miss) None out1 (e\<lparr>eAnchors := an\<rparr>)))"

fun firstLong :: "bytes list \<Rightarrow> bytes option" where
  "firstLong [] = None"
| "firstLong (k # ks) = (if length k \<ge> 20 then Some k else firstLong ks)"

definition LookupEntityByValue ::
  "(string \<Rightarrow> float64 option) \<Rightarrow> 's kv_ops \<Rightarrow> string \<Rightarrow> string \<Rightarrow> 's Engine \<Rightarrow> (int64 option \<times> 's Engine) result" where
  "LookupEntityByValue pf ops attrName value e =
     (case LookupAttr attrName (eResolver e) of
        None \<Rightarrow> Inr (None, e)
      | Some aid \<Rightarrow>
          (case EncodeValue pf value (ValueTypeToEncodeMode (typeOr 0 (ValueTypeFor aid (eResolver e)))) 0 of
             Inl err \<Rightarrow> Inr (None, e)
           | Inr encoded \<Rightarrow>
               rbind (terminates (anProbe aid encoded (eAnchors e))) (\<lambda>((eid, ok), an).
                 let e1 = e\<lparr>eAnchors := an\<rparr>
                 in if ok then rbind (HydrateEID ops eid e1) (\<lambda>e2. Inr (Some eid, e2))
                    else rbind (ScanPrefixActive ops 2 (put_be 4 aid @ encoded) e1) (\<lambda>(ks, e2).
                      case firstLong ks of
                        None \<Rightarrow> Inr (None, e2)
                      | Some k \<Rightarrow> let found = DecodeEid (BeUint64 k (length k - 16))
                          in rbind (HydrateEID ops found e2) (\<lambda>e3. Inr (Some found, e3))))))"

fun firstValue :: "bytes list \<Rightarrow> bytes option" where
  "firstValue [] = None"
| "firstValue (k # ks) =
     (if length k < 20 then firstValue ks
      else if BeUint64 k (length k - 8) AND 1 = 1 then firstValue ks
      else Some (slice k 12 (length k - 8)))"

definition LookupValueStr :: "'s kv_ops \<Rightarrow> int64 \<Rightarrow> string \<Rightarrow> 's Engine \<Rightarrow> (string option \<times> 's Engine) result" where
  "LookupValueStr ops eid attrName e =
     (case LookupAttr attrName (eResolver e) of
        None \<Rightarrow> Inr (None, e)
      | Some aid \<Rightarrow>
          rbind (ScanPrefixActive ops 0 (eidAttrPrefix eid aid) e) (\<lambda>(ks, e1).
            Inr (case firstValue ks of
                   None \<Rightarrow> None
                 | Some v \<Rightarrow> (case DecodeStoredValue v (typeOr 0 (ValueTypeFor aid (eResolver e1))) of SStr s \<Rightarrow> Some s | _ \<Rightarrow> None), e1)))"

section \<open>Derived keys and recovery\<close>

definition DeriveIndexKeys :: "bytes \<Rightarrow> bool \<Rightarrow> bool \<Rightarrow> EavtEntry list" where
  "DeriveIndexKeys k indexed isRef =
     (if length k < 20 then []
      else
        let n = length k; a = put_be 4 (BeUint32 k 8)
        in [\<lparr>CF = 1, Key = a @ slice k 0 8 @ drop 12 k\<rparr>]
           @ (if indexed then [\<lparr>CF = 2, Key = a @ slice k 12 (n - 8) @ slice k 0 8 @ drop (n - 8) k\<rparr>] else [])
           @ (if isRef then [\<lparr>CF = 3, Key = slice k 12 (n - 8) @ a @ slice k 0 8 @ drop (n - 8) k\<rparr>] else []))"

fun recoverLoop :: "Resolver \<Rightarrow> bytes list \<Rightarrow> AnchorIndex \<Rightarrow> (EavtEntry list \<times> AnchorIndex) result" where
  "recoverLoop r [] an = Inr ([], an)"
| "recoverLoop r (k # ks) an =
     (let n = length k; aid = BeUint32 k 8
      in if n < 20 \<or> aid = DbTxInstantAid then recoverLoop r ks an
         else
           let retracted = (BeUint64 k (n - 8) AND 1 = 1); indexed = IsIndexed aid r;
               isRef = (\<not> retracted \<and> ValueTypeFor aid r = Some DbTypeRef)
           in rbind (if \<not> retracted \<and> indexed then terminates (anPut aid (slice k 12 (n - 8)) (DecodeEid (BeUint64 k 0)) an) else Inr an) (\<lambda>an1.
              rbind (recoverLoop r ks an1) (\<lambda>(ds, an2). Inr (DeriveIndexKeys k indexed isRef @ ds, an2))))"

definition RecoverWriteState :: "'s kv_ops \<Rightarrow> 's Engine \<Rightarrow> 's Engine result" where
  "RecoverWriteState ops e =
     rbind (ScanPrefix ops 0 [] e) (\<lambda>(ks, e1).
     rbind (recoverLoop (eResolver e1) ks (eAnchors e1)) (\<lambda>(derived, an).
     rbind (kvApplyExpanded ops (map toCfKey derived) (eKV e1)) (\<lambda>s. Inr (e1\<lparr>eKV := s, eAnchors := an\<rparr>))))"

definition CmpBytes :: "bytes \<Rightarrow> bytes \<Rightarrow> int" where
  "CmpBytes = cmp_loop"

record Datom =
  dE :: int64
  dA :: uint32
  dAttrName :: string
  dValue :: expr
  dT :: int64
  dRetracted :: bool

text \<open>Where the parts of a key are: entity, attribute, and the bounds of the value.\<close>

definition datomParts :: "nat \<Rightarrow> bytes \<Rightarrow> (int64 \<times> uint32 \<times> nat \<times> nat) option" where
  "datomParts cf k =
     (let n = length k
      in if cf = 0 then Some (DecodeEid (BeUint64 k 0), BeUint32 k 8, 12, n - 8)
         else if cf = 1 then Some (DecodeEid (BeUint64 k 4), BeUint32 k 0, 12, n - 8)
         else if cf = 2 then Some (DecodeEid (BeUint64 k (n - 16)), BeUint32 k 0, 4, n - 16)
         else if cf = 3 then Some (DecodeEid (BeUint64 k (n - 12)), BeUint32 k (n - 16), 0, n - 20)
         else None)"

definition decodeDatom :: "Resolver \<Rightarrow> nat \<Rightarrow> bytes \<Rightarrow> Datom option" where
  "decodeDatom r cf k =
     (if length k < 20 then None
      else case DecodeSuffix (BeUint64 k (length k - 8)) of (t, retracted) \<Rightarrow>
        (case datomParts cf k of
           None \<Rightarrow> None
         | Some (eid, aid, vStart, vEnd) \<Rightarrow>
             if vEnd \<le> vStart then None
             else Some \<lparr>dE = eid, dA = aid, dAttrName = AttrName aid r,
                        dValue = DecodeStoredValue (slice k vStart vEnd) (typeOr 0 (ValueTypeFor aid r)), dT = t, dRetracted = retracted\<rparr>))"

definition ScanDatoms :: "'s kv_ops \<Rightarrow> nat \<Rightarrow> 's Engine \<Rightarrow> (Datom list \<times> 's Engine) result" where
  "ScanDatoms ops cf e =
     rbind (kvScanPrefix ops cf [] (eKV e)) (\<lambda>(ks, s).
       Inr (List.map_filter (decodeDatom (eResolver e) cf) ks, e\<lparr>eKV := s\<rparr>))"

section \<open>Bootstrap\<close>

record schemaMaps =
  identMap :: "int64 \<rightharpoonup> string"
  vtMap :: "int64 \<rightharpoonup> uint32"
  cardMap :: "int64 \<Rightarrow> bool"
  uniqueSet :: "int64 \<Rightarrow> bool"

definition bootstrapAidPrefix :: "uint32 \<Rightarrow> bytes" where
  "bootstrapAidPrefix aid = put_be 4 aid"

definition liveAevt :: "nat \<Rightarrow> uint32 \<Rightarrow> bytes \<Rightarrow> bool" where
  "liveAevt n aid k \<longleftrightarrow> \<not> (length k < n \<or> BeUint32 k 0 \<noteq> aid) \<and> \<not> BeUint64 k (length k - 8) AND 1 = 1"

definition addIdent :: "int64 \<Rightarrow> bytes \<Rightarrow> schemaMaps \<Rightarrow> schemaMaps" where
  "addIdent en k m =
     (if sint en < sint BootstrapFirstUserID then m
      else let name = DecodeVariableStr k 12 in if name \<noteq> [] then m\<lparr>identMap := (identMap m)(en \<mapsto> name)\<rparr> else m)"

definition addValueType :: "int64 \<Rightarrow> bytes \<Rightarrow> schemaMaps \<Rightarrow> schemaMaps" where
  "addValueType en k m = m\<lparr>vtMap := (vtMap m)(en \<mapsto> ucast (DecodeInt64 (BeUint64 k 12)))\<rparr>"

definition addCardinality :: "int64 \<Rightarrow> bytes \<Rightarrow> schemaMaps \<Rightarrow> schemaMaps" where
  "addCardinality en k m = m\<lparr>cardMap := (cardMap m)(en := (ucast (DecodeInt64 (BeUint64 k 12)) = DbCardinalityManyAid))\<rparr>"

definition addUnique :: "int64 \<Rightarrow> schemaMaps \<Rightarrow> schemaMaps" where
  "addUnique en m = m\<lparr>uniqueSet := (uniqueSet m)(en := True)\<rparr>"

definition schemaResidue :: "bytes \<Rightarrow> schemaMaps \<Rightarrow> schemaMaps" where
  "schemaResidue k m =
     (if length k < 24 \<or> BeUint64 k (length k - 8) AND 1 = 1 then m
      else
        let aid = BeUint32 k 8; en = DecodeEid (BeUint64 k 0); user = sint en \<ge> sint BootstrapFirstUserID
        in if aid = DbIdentAid then addIdent en k m
           else if aid = DbValueTypeAid then (if user then addValueType en k m else m)
           else if aid = DbCardinalityAid then (if user then addCardinality en k m else m)
           else if aid = DbUniqueAid then (if user then addUnique en m else m)
           else m)"

fun seedLoop :: "uint64 set \<Rightarrow> bytes list \<Rightarrow> uint64 set \<Rightarrow> Resolver \<Rightarrow> Resolver" where
  "seedLoop targets [] covered r = r"
| "seedLoop targets (k # ks) covered r =
     (if length k < 8 \<or> BeUint64 k (length k - 8) AND 1 = 1 then seedLoop targets ks covered r
      else
        let en = DecodeEid (BeUint64 k 0); p = PartitionOf en;
            (covered1, r1) = (if p \<in> targets then (insert p covered, AdvancePast en r) else (covered, r))
        in if card covered1 \<ge> card targets then r1 else seedLoop targets ks covered1 r1)"

definition SeedPartitionCounters :: "'s kv_ops \<Rightarrow> 's Engine \<Rightarrow> 's Engine result" where
  "SeedPartitionCounters ops e =
     rbind (kvScanPrefix ops 0 [] (eKV e)) (\<lambda>(ks, s).
       Inr (e\<lparr>eKV := s, eResolver := seedLoop (set (KnownPartitions (eResolver e))) ks {} (eResolver e)\<rparr>))"

text \<open>
  Go visits the entries of \<open>identMap\<close> in an order it does not specify: \<open>order\<close> is the order of this run.
\<close>

definition loadAttr :: "schemaMaps \<Rightarrow> int64 \<Rightarrow> Resolver \<Rightarrow> Resolver" where
  "loadAttr m en r =
     (case identMap m en of
        None \<Rightarrow> r
      | Some name \<Rightarrow> LoadUserAttr name en (typeOr DbTypeString (vtMap m en)) (cardMap m en) (uniqueSet m en) False r)"

definition BootstrapResolver :: "'s kv_ops \<Rightarrow> (schemaMaps \<Rightarrow> int64 list) \<Rightarrow> 's Engine \<Rightarrow> 's Engine result" where
  "BootstrapResolver ops order e =
     (let m0 = \<lparr>identMap = Map.empty, vtMap = Map.empty, cardMap = (\<lambda>_. False), uniqueSet = (\<lambda>_. False)\<rparr>;
          aevt = (\<lambda>n aid add ks m. fold (\<lambda>k. if liveAevt n aid k then add (DecodeEid (BeUint64 k 4)) k else id) ks m)
      in rbind (ScanPrefix ops 1 (bootstrapAidPrefix DbIdentAid) e) (\<lambda>(ks1, e1).
         rbind (ScanPrefix ops 1 (bootstrapAidPrefix DbValueTypeAid) e1) (\<lambda>(ks2, e2).
         rbind (ScanPrefix ops 1 (bootstrapAidPrefix DbCardinalityAid) e2) (\<lambda>(ks3, e3).
         rbind (ScanPrefix ops 0 [] e3) (\<lambda>(ks4, e4).
         rbind (ScanPrefix ops 1 (bootstrapAidPrefix DbUniqueAid) e4) (\<lambda>(ks5, e5).
         let m1 = aevt 24 DbIdentAid addIdent ks1 m0;
             m2 = aevt 28 DbValueTypeAid addValueType ks2 m1;
             m3 = aevt 28 DbCardinalityAid addCardinality ks3 m2;
             m4 = fold schemaResidue ks4 m3;
             m5 = aevt 20 DbUniqueAid (\<lambda>en k. addUnique en) ks5 m4
         in SeedPartitionCounters ops (e5\<lparr>eResolver := fold (loadAttr m5) (order m5) (eResolver e5)\<rparr>)))))))"

definition NewEngine :: "'s kv_ops \<Rightarrow> (schemaMaps \<Rightarrow> int64 list) \<Rightarrow> int \<Rightarrow> int \<Rightarrow> bool \<Rightarrow> 's \<Rightarrow> 's Engine result" where
  "NewEngine ops order hydMax anchorMax enabled s =
     BootstrapResolver ops order \<lparr>eKV = s, eResolver = NewResolver, eHyd = NewHydSet hydMax, eAnchors = NewAnchor anchorMax,
       eHydEnabled = enabled, eSpCount = 0, eSpKeysIn = 0\<rparr>"

end
