(* ===== verification/EavtLaws.thy ===== *)
theory EavtLaws
  imports Eavt
begin

text \<open>
  The laws of the database engine over any storage facade that behaves as sets of keys: its scans of active datoms
  do not depend on what is cached, a batch keeps cache and index current, and saving a value of a
  cardinality-one attribute replaces the previous ones, unless it is the same value.
\<close>

unbundle bit_operations_syntax

section \<open>Keys of typed datoms\<close>

lemma logical_key [simp]: "logical (BuildEavtKey e a x t r) = EncodeEid e @ put_be 4 a @ x"
  by (simp add: logical_def BuildEavtKey_def)

lemma suffixOf_key [simp]: "suffixOf (BuildEavtKey e a x t r) = EncodeSuffix t r"
proof -
  have "BeUint64 ((EncodeEid e @ put_be 4 a @ x) @ put_be 8 (EncodeSuffix t r) @ []) (12 + length x) = EncodeSuffix t r"
    by (rule BeUint64_put_be) simp
  then show ?thesis by (simp add: suffixOf_def BuildEavtKey_def)
qed

lemma EncodeSuffix_bit: "EncodeSuffix t r AND 1 = (if r then 1 else 0)"
  by (simp add: EncodeSuffix_def Let_def and_one_eq mod_2_eq_odd even_or_iff)

lemma isRetraction_key [simp]: "isRetraction (BuildEavtKey e a x t r) \<longleftrightarrow> r"
  by (simp add: isRetraction_def EncodeSuffix_bit)

lemma length_key [simp]: "length (BuildEavtKey e a x t r) = 20 + length x"
  by (simp add: BuildEavtKey_def)

lemma prefix_key: "take 12 (BuildEavtKey e a x t r) = eidAttrPrefix e a"
  by (simp add: BuildEavtKey_def eidAttrPrefix_def)

lemma value_of_key: "slice (BuildEavtKey e a x t r) 12 (length (BuildEavtKey e a x t r) - 8) = x"
proof -
  have "slice ((EncodeEid e @ put_be 4 a) @ x @ put_be 8 (EncodeSuffix t r)) 12 (12 + length x) = x"
    by (rule slice_mid) simp_all
  then show ?thesis by (simp add: BuildEavtKey_def)
qed

text \<open>The CF-0 keys of a database whose attributes have the types \<open>ty\<close>.\<close>

definition typedKeys :: "(uint32 \<Rightarrow> uint32) \<Rightarrow> bytes set \<Rightarrow> bool" where
  "typedKeys ty K \<longleftrightarrow> finite K \<and> (\<forall>k \<in> K. \<exists>e a v t r. k = BuildEavtKey e a (EncodeBoundValue v) t r \<and> value_ok (ty a) v \<and> 0 \<le> sint t
     \<and> length (EncodeBoundValue v) < 65516)"

lemma key_less_logical:
  assumes "value_ok (ty a) v" "value_ok (ty a') v'"
    "logical (BuildEavtKey e a (EncodeBoundValue v) t r) < logical (BuildEavtKey e' a' (EncodeBoundValue v') t' r')"
  shows "BuildEavtKey e a (EncodeBoundValue v) t r < BuildEavtKey e' a' (EncodeBoundValue v') t' r'"
proof -
  have "EncodeEid e < EncodeEid e' \<or> EncodeEid e = EncodeEid e' \<and> (put_be 4 a < put_be 4 a' \<or> put_be 4 a = put_be 4 a' \<and> EncodeBoundValue v < EncodeBoundValue v')"
    using assms(3) by (simp add: append_less_append)
  moreover have "EncodeBoundValue v @ x < EncodeBoundValue v' @ y" if "a = a'" "EncodeBoundValue v < EncodeBoundValue v'" for x y
  proof -
    have ne: "v \<noteq> v'" using that(2) by auto
    have "value_less v v'"
      using value_enc.enc_less [OF assms(1) assms(2) [folded that(1)] ne, of "[]" "[]"] that(2) by simp
    then show ?thesis using value_enc.enc_less [OF assms(1) assms(2) [folded that(1)] ne] by simp
  qed
  ultimately show ?thesis by (auto simp: BuildEavtKey_def append_less_append)
qed

lemma typed_datomKeys:
  assumes "typedKeys ty K"
  shows "datomKeys K"
proof -
  have "a < b" if "a \<in> K" "b \<in> K" "logical a < logical b" for a b
    using assms that key_less_logical unfolding typedKeys_def by metis
  moreover have "20 \<le> length k" if "k \<in> K" for k using assms that unfolding typedKeys_def by force
  ultimately show ?thesis using assms by (auto simp: datomKeys_def uniform_def typedKeys_def)
qed

lemma typedKeys_insert:
  "typedKeys ty K \<Longrightarrow> value_ok (ty a) v \<Longrightarrow> 0 \<le> sint t \<Longrightarrow> length (EncodeBoundValue v) < 65516 \<Longrightarrow> typedKeys ty (insert (BuildEavtKey e a (EncodeBoundValue v) t r) K)"
  unfolding typedKeys_def by (simp, blast)

text \<open>Versions of one datom are ordered by transaction, a retraction after an assertion of the same one.\<close>

lemma key_le_version:
  assumes "0 \<le> sint t" "0 \<le> sint t'"
  shows "BuildEavtKey e a x t r \<le> BuildEavtKey e a x t' r' \<longleftrightarrow> unat t < unat t' \<or> unat t = unat t' \<and> (r \<longrightarrow> r')"
proof -
  have "put_be 8 (EncodeSuffix t r) \<le> put_be 8 (EncodeSuffix t' r') \<longleftrightarrow> EncodeSuffix t r \<le> EncodeSuffix t' r'"
    unfolding le_less by (simp add: put_be_8_less)
  then have "BuildEavtKey e a x t r \<le> BuildEavtKey e a x t' r' \<longleftrightarrow> EncodeSuffix t r \<le> EncodeSuffix t' r'"
    by (simp add: BuildEavtKey_def le_less append_less_append)
  then show ?thesis using assms by (auto simp: word_le_nat_alt unat_EncodeSuffix)
qed

lemma logical_eq_key:
  "logical (BuildEavtKey e a x t r) = logical (BuildEavtKey e' a' x' t' r') \<longleftrightarrow> e = e' \<and> a = a' \<and> x = x'"
  by (auto simp: EncodeEid_inj)

text \<open>The transaction of a key; \<open>during\<close>: every key is older than \<open>t\<close>, except retractions of one attribute by \<open>t\<close> itself.\<close>

definition txOf :: "bytes \<Rightarrow> nat" where
  "txOf k = unat (suffixOf k) div 2"

lemma txOf_key [simp]: "0 \<le> sint t \<Longrightarrow> txOf (BuildEavtKey e a x t r) = unat t"
  by (simp add: txOf_def unat_EncodeSuffix)

definition during :: "int64 \<Rightarrow> int64 \<Rightarrow> uint32 \<Rightarrow> bytes set \<Rightarrow> bool" where
  "during t eid aid K \<longleftrightarrow> (\<forall>k \<in> K. txOf k < unat t \<or> (\<exists>x. k = BuildEavtKey eid aid x t True))"

lemma newest_during:
  assumes "typedKeys ty K" "during t eid aid K" "0 \<le> sint t" "r \<or> BuildEavtKey eid aid x t True \<notin> K"
  shows "newestKey K (BuildEavtKey eid aid x t r)"
  unfolding newestKey_def
proof (intro ballI impI)
  fix k assume k: "k \<in> K" "logical k = logical (BuildEavtKey eid aid x t r)"
  obtain e a v t' r' where k': "k = BuildEavtKey e a (EncodeBoundValue v) t' r'" "0 \<le> sint t'" using assms(1) k(1) unfolding typedKeys_def by blast
  then have kx: "k = BuildEavtKey eid aid x t' r'" using k(2) by (simp only: k'(1) logical_eq_key)
  show "k \<le> BuildEavtKey eid aid x t r"
  proof (cases "txOf k < unat t")
    case True
    then show ?thesis using k'(2) assms(3) by (simp add: kx key_le_version)
  next
    case False
    then obtain y where y: "k = BuildEavtKey eid aid y t True" using assms(2) k(1) by (auto simp: during_def)
    then have "x = y" using k(2) by (simp only: logical_eq_key)
    then show ?thesis using y assms(4) k(1) by auto
  qed
qed

lemma save_active:
  fixes v :: expr and K :: "bytes set"
  assumes "typedKeys ty K" "0 \<le> sint t" "\<forall>k \<in> K. txOf k < unat t" "value_ok (ty aid) v"
    and other: "\<forall>t'. BuildEavtKey eid aid (EncodeBoundValue v) t' False \<notin> K"
    and K1: "K1 = insert (BuildEavtKey eid aid (EncodeBoundValue v) t False)
      (K \<union> {BuildEavtKey eid aid x t True | x. \<exists>t'. BuildEavtKey eid aid x t' False \<in> K})"
  shows "active K1 k \<and> take 12 k = eidAttrPrefix eid aid \<longleftrightarrow> k = BuildEavtKey eid aid (EncodeBoundValue v) t False"
proof
  let ?k = "BuildEavtKey eid aid (EncodeBoundValue v) t False"
  assume k: "k = ?k"
  have "y \<le> ?k" if y: "y \<in> K1" "logical y = logical ?k" for y
  proof -
    consider "y = ?k" | "y \<in> K" | x where "y = BuildEavtKey eid aid x t True" "\<exists>t'. BuildEavtKey eid aid x t' False \<in> K"
      using y(1) K1 by blast
    then show ?thesis
    proof cases
      case 2
      then obtain e a w t' r where y': "y = BuildEavtKey e a (EncodeBoundValue w) t' r" "0 \<le> sint t'" using assms(1) unfolding typedKeys_def by blast
      have "e = eid" "a = aid" "EncodeBoundValue w = EncodeBoundValue v" using y(2) by (simp_all only: y'(1) logical_eq_key)
      moreover have "unat t' < unat t" using assms(3) 2 y' by force
      ultimately show ?thesis using y' assms(2) by (simp add: key_le_version)
    next
      case 3
      then have "x = EncodeBoundValue v" using y(2) by (simp only: logical_eq_key)
      then show ?thesis using 3(2) other by blast
    qed simp
  qed
  then show "active K1 k \<and> take 12 k = eidAttrPrefix eid aid" using k K1 by (auto simp: active_def prefix_key)
next
  let ?k = "BuildEavtKey eid aid (EncodeBoundValue v) t False"
  assume k: "active K1 k \<and> take 12 k = eidAttrPrefix eid aid"
  then have kK: "k \<in> K1" "\<not> isRetraction k" and nw: "\<And>y. y \<in> K1 \<Longrightarrow> 8 \<le> length y \<Longrightarrow> logical y = logical k \<Longrightarrow> y \<le> k" by (auto simp: active_def)
  show "k = ?k"
  proof (rule ccontr)
    assume "k \<noteq> ?k"
    then have kin: "k \<in> K" using kK K1 by auto
    then obtain e a w t' r where k': "k = BuildEavtKey e a (EncodeBoundValue w) t' r" "0 \<le> sint t'" using assms(1) unfolding typedKeys_def by blast
    have "eidAttrPrefix e a = eidAttrPrefix eid aid" using k by (simp add: k'(1) prefix_key)
    then have ea: "e = eid" "a = aid" by (auto simp: eidAttrPrefix_def EncodeEid_inj)
    have r: "\<not> r" using kK(2) k'(1) by simp
    let ?r = "BuildEavtKey eid aid (EncodeBoundValue w) t True"
    have "?r \<in> K1" using kin k'(1) ea r K1 by auto
    then have "?r \<le> k" using nw [of ?r] by (simp add: k'(1) ea)
    moreover have "unat t' < unat t" using assms(3) kin k' by force
    ultimately show False using k' ea assms(2) by (simp add: key_le_version)
  qed
qed

lemma resave_inactive:
  assumes "typedKeys ty K" "0 \<le> sint t" "\<forall>k \<in> K. txOf k < unat t" "BuildEavtKey eid aid x t0 False \<in> K"
    and K1: "K1 = insert (BuildEavtKey eid aid x t False) (K \<union> {BuildEavtKey eid aid x t True | x. \<exists>t'. BuildEavtKey eid aid x t' False \<in> K})"
    and k: "take 12 k = eidAttrPrefix eid aid"
  shows "\<not> active K1 k"
proof
  assume a: "active K1 k"
  then have kK: "k \<in> K1" "\<not> isRetraction k" and nw: "\<And>y. y \<in> K1 \<Longrightarrow> 8 \<le> length y \<Longrightarrow> logical y = logical k \<Longrightarrow> y \<le> k" by (auto simp: active_def)
  have "\<exists>y t1. k = BuildEavtKey eid aid y t1 False \<and> 0 \<le> sint t1 \<and> unat t1 \<le> unat t \<and> BuildEavtKey eid aid y t True \<in> K1"
  proof (cases "k \<in> K")
    case True
    then obtain e a w t1 r where k': "k = BuildEavtKey e a (EncodeBoundValue w) t1 r" "0 \<le> sint t1" using assms(1) unfolding typedKeys_def by blast
    have "eidAttrPrefix e a = eidAttrPrefix eid aid" using k by (simp add: k'(1) prefix_key)
    then have ea: "e = eid" "a = aid" by (auto simp: eidAttrPrefix_def EncodeEid_inj)
    have r: "\<not> r" using kK(2) k'(1) by simp
    have "unat t1 < unat t" using assms(3) True k' by force
    moreover have "BuildEavtKey eid aid (EncodeBoundValue w) t True \<in> K1" using True k'(1) ea r K1 by auto
    ultimately show ?thesis using k' ea r by (intro exI [of _ "EncodeBoundValue w"] exI [of _ t1]) simp
  next
    case False
    then have "k = BuildEavtKey eid aid x t False" using kK K1 by auto
    moreover have "BuildEavtKey eid aid x t True \<in> K1" using assms(4) K1 by auto
    ultimately show ?thesis using assms(2) by (intro exI [of _ x] exI [of _ t]) simp
  qed
  then obtain y t1 where y: "k = BuildEavtKey eid aid y t1 False" "0 \<le> sint t1" "unat t1 \<le> unat t" "BuildEavtKey eid aid y t True \<in> K1" by blast
  have "BuildEavtKey eid aid y t True \<le> k" using nw [OF y(4)] y(1) by simp
  then show False using y(1-3) assms(2) by (simp add: key_le_version)
qed

section \<open>The storage facade as sets of keys\<close>

definition batchKeys :: "CfKey list \<Rightarrow> nat \<Rightarrow> bytes set" where
  "batchKeys es cf = CfKey_Key ` {c \<in> set es. unat (Cf c) = cf}"

text \<open>Keys that can be written one after the other: each is the newest version of its datom when it is written.\<close>

fun writable :: "bytes set \<Rightarrow> bytes list \<Rightarrow> bool" where
  "writable K [] \<longleftrightarrow> True"
| "writable K (k # ks) \<longleftrightarrow> datomKeys (insert k K) \<and> newestKey K k \<and> writable (insert k K) ks"

lemma mirrors_writes:
  "mirrors K h \<Longrightarrow> writable K ks \<Longrightarrow> mirrors (K \<union> set ks) (fold hApplyKey ks h)"
proof (induction ks arbitrary: K h)
  case (Cons k ks)
  then show ?case using Cons.IH [of "insert k K" "hApplyKey k h"] by (simp add: mirrors_apply)
qed simp

lemma writable_datomKeys: "datomKeys K \<Longrightarrow> writable K ks \<Longrightarrow> datomKeys (K \<union> set ks)"
  by (induction ks arbitrary: K) (auto simp: insert_is_Un [symmetric] simp del: insert_is_Un, metis Un_insert_left)

text \<open>
  An engine stands for the sets of keys \<open>K\<close>: so does its store, the cache of hydrated entities mirrors the datoms, and
  the anchor index is well formed.
\<close>

definition represents :: "('s \<Rightarrow> (nat \<Rightarrow> bytes set) \<Rightarrow> bool) \<Rightarrow> 's Engine \<Rightarrow> (nat \<Rightarrow> bytes set) \<Rightarrow> bool" where
  "represents stands e K \<longleftrightarrow> stands (eKV e) K \<and> datomKeys (K 0) \<and> (eHydEnabled e \<longrightarrow> mirrors (K 0) (eHyd e)) \<and> anchorOk (eAnchors e)"

lemma batchKeys_datoms: "batchKeys (map toCfKey ens) 0 = set (map Key (filter (\<lambda>en. CF en = 0) ens))"
proof -
  have "{c \<in> set (map toCfKey ens). unat (Cf c) = 0} = toCfKey ` {en \<in> set ens. CF en = 0}"
    by (auto simp: toCfKey_def unat_eq_zero)
  then show ?thesis by (simp add: batchKeys_def image_image toCfKey_def)
qed

locale kv_store =
  fixes ops :: "'s kv_ops" and stands :: "'s \<Rightarrow> (nat \<Rightarrow> bytes set) \<Rightarrow> bool" and storable :: "bytes \<Rightarrow> bool"
  assumes finite_keys: "stands s K \<Longrightarrow> finite (K cf)"
    and scan: "stands s K \<Longrightarrow> cf < 4 \<Longrightarrow>
      \<exists>s'. kvScanPrefix ops cf p s = Inr (filter (\<lambda>k. take (length p) k = p) (sorted_list_of_set (K cf)), s') \<and> stands s' K"
    and batch: "stands s K \<Longrightarrow> (\<forall>c \<in> set es. unat (Cf c) < 4 \<and> storable (CfKey_Key c)) \<Longrightarrow>
      \<exists>s'. kvBatchWrite ops es s = Inr s' \<and> stands s' (\<lambda>cf. K cf \<union> batchKeys es cf)"
    and journal: "stands s K \<Longrightarrow> stands (kvJournalOnly ops es s) K"
    and expanded: "stands s K \<Longrightarrow> (\<forall>c \<in> set es. unat (Cf c) < 4 \<and> storable (CfKey_Key c)) \<Longrightarrow>
      \<exists>s'. kvApplyExpanded ops es s = Inr s' \<and> stands s' (\<lambda>cf. K cf \<union> batchKeys es cf)"
    and storable_length: "20 \<le> length k \<Longrightarrow> length k < 65536 \<Longrightarrow> storable k"
begin

lemma ScanPrefix_keys:
  assumes "represents stands e K" "cf < 4"
  shows "\<exists>e'. ScanPrefix ops cf p e = Inr (filter (\<lambda>k. take (length p) k = p) (sorted_list_of_set (K cf)), e') \<and> represents stands e' K
    \<and> eResolver e' = eResolver e \<and> eHydEnabled e' = eHydEnabled e"
proof -
  obtain s' where "kvScanPrefix ops cf p (eKV e) = Inr (filter (\<lambda>k. take (length p) k = p) (sorted_list_of_set (K cf)), s')" "stands s' K"
    using scan [of "eKV e" K cf p] assms by (auto simp: represents_def)
  then show ?thesis using assms(1) by (simp add: ScanPrefix_def represents_def)
qed

lemma ScanPrefixActive_keys:
  assumes "represents stands e K" "length p \<le> 12"
  shows "\<exists>e'. ScanPrefixActive ops 0 p e = Inr (scanActive (K 0) p, e') \<and> represents stands e' K \<and> eResolver e' = eResolver e"
proof -
  let ?eid = "DecodeEid (BeUint64 p 0)" and ?fast = "eHydEnabled e \<and> 8 \<le> length p"
  define q where "q = (if ?fast then hProbe ?eid (eHyd e) else (False, eHyd e))"
  let ?e1 = "e\<lparr>eHyd := snd q\<rparr>"
  have dk: "datomKeys (K 0)" and st: "stands (eKV e) K" using assms(1) by (auto simp: represents_def)
  have r1: "represents stands ?e1 K" using assms(1) mirrors_probe by (auto simp: represents_def q_def)
  have split: "ScanPrefixActive ops 0 p e = (if fst q then Inr (hLookupRange ?eid p (snd q), ?e1)
      else rbind (ScanPrefix ops 0 p ?e1) (\<lambda>(c, e2). Inr (activeKeys c, e2)))"
    by (simp add: ScanPrefixActive_def q_def hProbeComplete_def Let_def case_prod_beta)
  show ?thesis
  proof (cases "fst q")
    case True
    then have f: "?fast" "hContains ?eid (eHyd e)" by (auto simp: q_def hProbe_def hContains_def split: if_splits option.splits)
    have "take 8 p = EncodeEid ?eid" using f(1) by (simp add: eid_roundtrip eidOf_def)
    moreover have "hContains ?eid (snd q)" using f by (auto simp: q_def hProbe_def hContains_def hTouch_def split: option.splits)
    moreover have "mirrors (K 0) (snd q)" using r1 f(1) by (simp add: represents_def)
    ultimately have "hLookupRange ?eid p (snd q) = scanActive (K 0) p" using mirrors_lookup dk assms(2) by blast
    then show ?thesis using True split r1 by simp
  next
    case False
    obtain e' where "ScanPrefix ops 0 p ?e1 = Inr (filter (\<lambda>k. take (length p) k = p) (sorted_list_of_set (K 0)), e')" "represents stands e' K"
      "eResolver e' = eResolver ?e1" using ScanPrefix_keys [OF r1, of 0 p] by auto
    then show ?thesis using False split by (simp add: scanActive_def)
  qed
qed

lemma HydrateEID_keys:
  assumes "represents stands e K"
  shows "\<exists>e'. HydrateEID ops eid e = Inr e' \<and> represents stands e' K \<and> eResolver e' = eResolver e"
proof (cases "\<not> eHydEnabled e \<or> hContains eid (eHyd e)")
  case False
  obtain e' where e': "ScanPrefixActive ops 0 (EncodeEid eid) e = Inr (scanActive (K 0) (EncodeEid eid), e')" "represents stands e' K" "eResolver e' = eResolver e"
    using ScanPrefixActive_keys [OF assms, of "EncodeEid eid"] by auto
  then have "represents stands (e'\<lparr>eHyd := hHydrate eid (scanActive (K 0) (EncodeEid eid)) (eHyd e')\<rparr>) K"
    using mirrors_hydrate by (auto simp: represents_def)
  then show ?thesis using False e' by (simp add: HydrateEID_def)
qed (use assms in \<open>simp add: HydrateEID_def\<close>)

lemma mirrorAnchors_ok: "anchorOk an \<Longrightarrow> \<exists>an'. mirrorAnchors ens an = Inr an' \<and> anchorOk an'"
proof (induction ens arbitrary: an)
  case (Cons en ens)
  have "\<exists>an1. mirrorAnchor en an = Inr an1 \<and> anchorOk an1"
  proof -
    let ?k = "Key en" let ?aid = "BeUint32 ?k 0" and ?val = "slice ?k 4 (length ?k - 16)" and ?eid = "DecodeEid (BeUint64 ?k (length ?k - 16))"
    obtain y where "anPut ?aid ?val ?eid an = Some y" "anchorOk y"
      using put_ok [OF Cons.prems, of ?aid ?val ?eid] by blast
    moreover obtain z where "anDel ?aid ?val an = Some z" "anchorOk z" using del_ok [OF Cons.prems, of ?aid ?val] by blast
    ultimately show ?thesis using Cons.prems by (auto simp: mirrorAnchor_def Let_def terminates_def)
  qed
  then show ?case using Cons.IH by auto
qed simp

lemma EngineBatchWrite_keys:
  assumes "represents stands e K" "\<forall>en \<in> set ens. unat (CF en) < 4 \<and> storable (Key en)"
    and "writable (K 0) (map Key (filter (\<lambda>en. CF en = 0) ens))
      \<or> \<not> eHydEnabled e \<and> datomKeys (K 0 \<union> set (map Key (filter (\<lambda>en. CF en = 0) ens)))"
  shows "\<exists>e'. EngineBatchWrite ops ens e = Inr e' \<and> represents stands e' (\<lambda>cf. K cf \<union> batchKeys (map toCfKey ens) cf) \<and> eResolver e' = eResolver e
    \<and> eHydEnabled e' = eHydEnabled e"
proof (cases "ens = []")
  case True
  then show ?thesis using assms(1) by (simp add: EngineBatchWrite_def batchKeys_def)
next
  case False
  let ?cfs = "map toCfKey ens"
  let ?d = "filter (\<lambda>c. Cf c = 0) ?cfs"
  have d: "map CfKey_Key ?d = map Key (filter (\<lambda>en. CF en = 0) ens)" by (induction ens) (auto simp: toCfKey_def)
  obtain an where an: "mirrorAnchors ens (eAnchors e) = Inr an" "anchorOk an" using mirrorAnchors_ok assms(1) by (auto simp: represents_def)
  let ?s1 = "if ?d \<noteq> [] then kvJournalOnly ops ?d (eKV e) else eKV e"
  have "stands ?s1 K" using assms(1) journal by (simp add: represents_def)
  moreover have "\<forall>c \<in> set ?cfs. unat (Cf c) < 4 \<and> storable (CfKey_Key c)" using assms(2) by (auto simp: toCfKey_def)
  ultimately obtain s2 where s2: "kvBatchWrite ops ?cfs ?s1 = Inr s2" "stands s2 (\<lambda>cf. K cf \<union> batchKeys ?cfs cf)" using batch by blast
  have f: "fold (\<lambda>c. hApplyKey (CfKey_Key c)) ?d h = fold hApplyKey (map CfKey_Key ?d) h" for h by (simp add: fold_map comp_def)
  note w = assms(3) [folded d]
  have hyd: "mirrors (K 0 \<union> set (map CfKey_Key ?d)) (fold (\<lambda>c. hApplyKey (CfKey_Key c)) ?d (eHyd e))" if "eHydEnabled e"
  proof -
    have "mirrors (K 0) (eHyd e)" "writable (K 0) (map CfKey_Key ?d)" using assms(1) that w by (auto simp: represents_def)
    from mirrors_writes [OF this] show ?thesis by (simp only: f)
  qed
  have dk: "datomKeys (K 0 \<union> set (map CfKey_Key ?d))" using writable_datomKeys [of "K 0"] w assms(1) unfolding represents_def by blast
  have k0: "set (map CfKey_Key ?d) = batchKeys ?cfs 0" by (auto simp: batchKeys_def unat_eq_zero image_iff)
  have "represents stands (e\<lparr>eKV := s2, eAnchors := an,
      eHyd := if eHydEnabled e then fold (\<lambda>d. hApplyKey (CfKey_Key d)) ?d (eHyd e) else eHyd e\<rparr>) (\<lambda>cf. K cf \<union> batchKeys ?cfs cf)"
    using s2(2) an(2) hyd [unfolded k0] dk [unfolded k0] by (simp add: represents_def)
  then show ?thesis using False an(1) s2(1) by (simp add: EngineBatchWrite_def Let_def)
qed

lemma datom_entries:
  assumes "represents stands e K" "typedKeys ty (K 0)" "value_ok (ty aid) v" "length (EncodeBoundValue v) < 65516" "0 \<le> sint t"
    "newestKey (K 0) (BuildEavtKey eid aid (EncodeBoundValue v) t r) \<or> \<not> eHydEnabled e"
  shows "\<exists>e' K'. EngineBatchWrite ops (BuildEavtEntries eid aid (EncodeBoundValue v) t r mode indexed) e = Inr e' \<and> represents stands e' K'
    \<and> K' 0 = insert (BuildEavtKey eid aid (EncodeBoundValue v) t r) (K 0) \<and> typedKeys ty (K' 0) \<and> eResolver e' = eResolver e
    \<and> eHydEnabled e' = eHydEnabled e"
proof -
  let ?x = "EncodeBoundValue v" let ?k = "BuildEavtKey eid aid ?x t r"
  let ?ens = "BuildEavtEntries eid aid ?x t r mode indexed"
  have ty: "typedKeys ty (insert ?k (K 0))" using assms by (intro typedKeys_insert)
  have st: "\<forall>en \<in> set ?ens. unat (CF en) < 4 \<and> storable (Key en)"
    using assms(4) by (auto simp: BuildEavtEntries_keys BuildEavtKey_def BuildAevtKey_def BuildVaetKey_def BuildAvetKey_def intro!: storable_length)
  have f: "filter (\<lambda>en. CF en = 0) ?ens = [\<lparr>CF = 0, Key = ?k\<rparr>]" by (auto simp: BuildEavtEntries_keys)
  then have w: "writable (K 0) (map Key (filter (\<lambda>en. CF en = 0) ?ens))
      \<or> \<not> eHydEnabled e \<and> datomKeys (K 0 \<union> set (map Key (filter (\<lambda>en. CF en = 0) ?ens)))" using typed_datomKeys [OF ty] assms(6) by auto
  have "batchKeys (map toCfKey ?ens) 0 = {?k}" unfolding batchKeys_datoms f by simp
  then have k0: "K 0 \<union> batchKeys (map toCfKey ?ens) 0 = insert ?k (K 0)" by simp
  obtain e' where "EngineBatchWrite ops ?ens e = Inr e'" "represents stands e' (\<lambda>cf. K cf \<union> batchKeys (map toCfKey ?ens) cf)" "eResolver e' = eResolver e"
    "eHydEnabled e' = eHydEnabled e" using EngineBatchWrite_keys [OF assms(1) st w] by blast
  then show ?thesis using ty k0
    by (intro exI [of _ e'] exI [of _ "\<lambda>cf. K cf \<union> batchKeys (map toCfKey ?ens) cf"]) simp
qed

lemma retractKeys_keys:
  assumes "represents stands e K" "typedKeys ty (K 0)" "during t eid aid (K 0)" "0 \<le> sint t" "set eks \<subseteq> K 0" "\<forall>ek \<in> set eks. take 12 ek = eidAttrPrefix eid aid"
  shows "\<exists>e' K'. retractKeys ops eid aid t mode indexed eks e = Inr e' \<and> represents stands e' K' \<and> typedKeys ty (K' 0) \<and> during t eid aid (K' 0)
    \<and> K' 0 = K 0 \<union> {BuildEavtKey eid aid x t True | x. \<exists>t'. BuildEavtKey eid aid x t' False \<in> set eks} \<and> eResolver e' = eResolver e \<and> eHydEnabled e' = eHydEnabled e"
  using assms(1-3,5,6)
proof (induction eks arbitrary: e K)
  case Nil
  then show ?case by auto
next
  case (Cons ek eks)
  obtain e0 a v t' r where ek: "ek = BuildEavtKey e0 a (EncodeBoundValue v) t' r" "value_ok (ty a) v" "length (EncodeBoundValue v) < 65516"
    using Cons.prems(2,4) unfolding typedKeys_def by (metis insert_subset list.simps(15))
  have "eidAttrPrefix e0 a = eidAttrPrefix eid aid" using Cons.prems(5) ek(1) by (simp add: prefix_key)
  then have ea: "e0 = eid" "a = aid" by (auto simp: eidAttrPrefix_def EncodeEid_inj)
  have bit: "BeUint64 ek (length ek - 8) AND 1 = (if r then 1 else 0)"
    using suffixOf_key [of e0 a "EncodeBoundValue v" t' r] EncodeSuffix_bit by (simp add: suffixOf_def ek(1))
  have len: "\<not> length ek < 20" by (simp add: ek(1))
  show ?case
  proof (cases r)
    case True
    have "(\<exists>t'. BuildEavtKey eid aid x t' False \<in> set (ek # eks)) \<longleftrightarrow> (\<exists>t'. BuildEavtKey eid aid x t' False \<in> set eks)" for x
      using ek(1) True isRetraction_key by (metis insertE insertI2 list.simps(15))
    then show ?thesis using Cons.IH [OF Cons.prems(1-3)] Cons.prems(4,5) True bit len by simp
  next
    case False
    let ?x = "EncodeBoundValue v" let ?k = "BuildEavtKey eid aid ?x t True"
    have n: "newestKey (K 0) ?k" using newest_during [OF Cons.prems(2,3) assms(4)] by blast
    note n' = disjI1 [OF n, of "\<not> eHydEnabled e"]
    have val: "slice ek 12 (length ek - 8) = ?x" unfolding ek(1) by (rule value_of_key)
    obtain e1 K1 where b: "EngineBatchWrite ops (BuildEavtEntries eid aid ?x t True mode indexed) e = Inr e1" "represents stands e1 K1"
      "K1 0 = insert ?k (K 0)" "typedKeys ty (K1 0)" "eResolver e1 = eResolver e" "eHydEnabled e1 = eHydEnabled e"
      using datom_entries [OF Cons.prems(1,2) ek(2) [unfolded ea] ek(3) assms(4) n'] by blast
    have du: "during t eid aid (K1 0)" using Cons.prems(3) b(3) by (auto simp: during_def)
    have sub: "set eks \<subseteq> K1 0" "\<forall>ek \<in> set eks. take 12 ek = eidAttrPrefix eid aid" using Cons.prems(4,5) b(3) by auto
    from Cons.IH [OF b(2,4) du sub] obtain e' K' where r: "retractKeys ops eid aid t mode indexed eks e1 = Inr e'" "represents stands e' K'"
      "typedKeys ty (K' 0)" "during t eid aid (K' 0)" "K' 0 = K1 0 \<union> {BuildEavtKey eid aid x t True | x. \<exists>t'. BuildEavtKey eid aid x t' False \<in> set eks}"
      "eResolver e' = eResolver e1" "eHydEnabled e' = eHydEnabled e1" by blast
    have "K' 0 = K 0 \<union> {BuildEavtKey eid aid x t True | x. \<exists>t'. BuildEavtKey eid aid x t' False \<in> set (ek # eks)}"
    proof -
      have "BuildEavtKey eid aid x t'' False = ek \<Longrightarrow> x = ?x" for x t'' using ek(1) ea logical_eq_key by metis
      then show ?thesis unfolding r(5) b(3) using ek(1) ea False by auto
    qed
    moreover have "retractKeys ops eid aid t mode indexed (ek # eks) e = Inr e'" using b(1) r(1) bit len False val by simp
    ultimately show ?thesis using r b(5,6) by auto
  qed
qed

text \<open>Saving a value of a cardinality-one attribute in a new transaction.\<close>

lemma EavtSave_keys:
  assumes "represents stands e K" "typedKeys ty (K 0)" "0 \<le> sint t" "\<forall>k \<in> K 0. txOf k < unat t"
    and attr: "InternAttr attrName (eResolver e) = (Inr aid, r)" "\<not> IsMany aid r"
    and enc: "encodeForMode pf value (ValueTypeToEncodeMode (typeOr DbTypeString (ValueTypeFor aid r))) = Inr (EncodeBoundValue v)"
    and v: "value_ok (ty aid) v" "length (EncodeBoundValue v) < 65516"
    and other: "(\<forall>t'. BuildEavtKey eid aid (EncodeBoundValue v) t' False \<notin> K 0) \<or> \<not> eHydEnabled e"
  shows "\<exists>e' K'. EavtSave pf ops eid attrName value t e = Inr e' \<and> represents stands e' K'
    \<and> K' 0 = insert (BuildEavtKey eid aid (EncodeBoundValue v) t False)
        (K 0 \<union> {BuildEavtKey eid aid x t True | x. \<exists>t'. BuildEavtKey eid aid x t' False \<in> K 0})
    \<and> eResolver e' = r \<and> eHydEnabled e' = eHydEnabled e"
proof -
  let ?mode = "ValueTypeToEncodeMode (typeOr DbTypeString (ValueTypeFor aid r))" and ?p = "eidAttrPrefix eid aid"
  have r1: "represents stands (e\<lparr>eResolver := r\<rparr>) K" using assms(1) by (simp add: represents_def)
  have fin: "finite (K 0)" using assms(2) by (simp add: typedKeys_def)
  let ?eks = "filter (\<lambda>k. take (length ?p) k = ?p) (sorted_list_of_set (K 0))"
  obtain e2 where sc: "ScanPrefix ops 0 ?p (e\<lparr>eResolver := r\<rparr>) = Inr (?eks, e2)" "represents stands e2 K" "eResolver e2 = r" "eHydEnabled e2 = eHydEnabled e"
    using ScanPrefix_keys [OF r1, of 0 ?p] by auto
  have len: "length ?p = 12" by (simp add: eidAttrPrefix_def)
  have du: "during t eid aid (K 0)" using assms(4) by (auto simp: during_def)
  have sub: "set ?eks \<subseteq> K 0" "\<forall>ek \<in> set ?eks. take 12 ek = ?p" using fin len by auto
  have hit: "BuildEavtKey eid aid x t' False \<in> set ?eks \<longleftrightarrow> BuildEavtKey eid aid x t' False \<in> K 0" for x t'
    using fin len by (simp add: prefix_key)
  obtain e3 K3 where rk: "retractKeys ops eid aid t ?mode (IsIndexed aid r) ?eks e2 = Inr e3" "represents stands e3 K3" "typedKeys ty (K3 0)" "during t eid aid (K3 0)" "eHydEnabled e3 = eHydEnabled e2" "eResolver e3 = eResolver e2"
    "K3 0 = K 0 \<union> {BuildEavtKey eid aid x t True | x. \<exists>t'. BuildEavtKey eid aid x t' False \<in> K 0}"
    using retractKeys_keys [OF sc(2) assms(2) du assms(3) sub] unfolding hit by blast
  have "BuildEavtKey eid aid (EncodeBoundValue v) t True \<notin> K 0" using assms(3,4) by (metis less_irrefl txOf_key)
  then have "BuildEavtKey eid aid (EncodeBoundValue v) t True \<notin> K3 0 \<or> \<not> eHydEnabled e"
    using other unfolding rk(7) by (auto dest: arg_cong [of _ _ logical])
  then have "newestKey (K3 0) (BuildEavtKey eid aid (EncodeBoundValue v) t False) \<or> \<not> eHydEnabled e3"
    using newest_during [OF rk(3,4) assms(3)] rk(5) sc(4) by blast
  from datom_entries [OF rk(2,3) v assms(3) this] obtain e' K' where
    b: "EngineBatchWrite ops (BuildEavtEntries eid aid (EncodeBoundValue v) t False ?mode (IsIndexed aid r)) e3 = Inr e'" "represents stands e' K'"
    "K' 0 = insert (BuildEavtKey eid aid (EncodeBoundValue v) t False) (K3 0)" "eResolver e' = eResolver e3" "eHydEnabled e' = eHydEnabled e3" by blast
  have "EavtSave pf ops eid attrName value t e = Inr e'" using attr enc sc(1) rk(1) b(1) by (simp add: EavtSave_def Let_def)
  moreover have "eResolver e' = r" "eHydEnabled e' = eHydEnabled e" using sc(3,4) rk(5,6) b(4,5) by simp_all
  ultimately show ?thesis
    by (intro exI [of _ e'] exI [of _ K'] conjI b(2) b(3) [unfolded rk(7)])
qed

lemma save_replaces:
  assumes "represents stands e K" "typedKeys ty (K 0)" "0 \<le> sint t" "\<forall>k \<in> K 0. txOf k < unat t"
    and "InternAttr attrName (eResolver e) = (Inr aid, r)" "\<not> IsMany aid r"
    and "encodeForMode pf value (ValueTypeToEncodeMode (typeOr DbTypeString (ValueTypeFor aid r))) = Inr (EncodeBoundValue v)"
    and "value_ok (ty aid) v" "length (EncodeBoundValue v) < 65516"
    and "\<forall>t'. BuildEavtKey eid aid (EncodeBoundValue v) t' False \<notin> K 0"
  shows "\<exists>e1 e2. EavtSave pf ops eid attrName value t e = Inr e1
    \<and> ScanPrefixActive ops 0 (eidAttrPrefix eid aid) e1 = Inr ([BuildEavtKey eid aid (EncodeBoundValue v) t False], e2)"
proof -
  let ?k = "BuildEavtKey eid aid (EncodeBoundValue v) t False"
  let ?R = "{BuildEavtKey eid aid x t True | x. \<exists>t'. BuildEavtKey eid aid x t' False \<in> K 0}"
  obtain e1 K1 where s: "EavtSave pf ops eid attrName value t e = Inr e1" "represents stands e1 K1" "K1 0 = insert ?k (K 0 \<union> ?R)"
    using EavtSave_keys [OF assms(1-9) disjI1 [OF assms(10)]] by (elim exE conjE)
  have len: "length (eidAttrPrefix eid aid) = 12" by (simp add: eidAttrPrefix_def)
  obtain e2 where a: "ScanPrefixActive ops 0 (eidAttrPrefix eid aid) e1 = Inr (scanActive (K1 0) (eidAttrPrefix eid aid), e2)"
    using ScanPrefixActive_keys [OF s(2), of "eidAttrPrefix eid aid"] len by auto
  have dk: "datomKeys (K1 0)" using s(2) by (simp add: represents_def)
  have "active (K1 0) k \<and> take 12 k = eidAttrPrefix eid aid \<longleftrightarrow> k = ?k" for k
    using save_active [OF assms(2-4,8,10) s(3)] by blast
  then have "scanActive (K1 0) (eidAttrPrefix eid aid) = filter (\<lambda>k. k = ?k) (sorted_list_of_set (K1 0))"
    using scanActive_spec [OF dk, of "eidAttrPrefix eid aid"] len by simp
  also have "\<dots> = [?k]"
  proof (rule strict_sorted_equal)
    have "finite (K1 0)" "?k \<in> K1 0" using dk s(3) by (simp_all add: datomKeys_def)
    then show "set (filter (\<lambda>k. k = ?k) (sorted_list_of_set (K1 0))) = set [?k]" by auto
    show "ascending (filter (\<lambda>k. k = ?k) (sorted_list_of_set (K1 0)))" by (simp add: sorted_wrt_filter)
    show "ascending [?k]" by simp
  qed
  finally show ?thesis using s(1) a by simp
qed

text \<open>
  Saving the value the attribute already has: its assertion is among the keys the transaction retracts, and a
  retraction sorts after an assertion of the same transaction.
\<close>

lemma resave_loses:
  assumes "represents stands e K" "\<not> eHydEnabled e" "typedKeys ty (K 0)" "0 \<le> sint t" "\<forall>k \<in> K 0. txOf k < unat t"
    and "InternAttr attrName (eResolver e) = (Inr aid, r)" "\<not> IsMany aid r"
    and "encodeForMode pf value (ValueTypeToEncodeMode (typeOr DbTypeString (ValueTypeFor aid r))) = Inr (EncodeBoundValue v)"
    and "value_ok (ty aid) v" "length (EncodeBoundValue v) < 65516"
    and "BuildEavtKey eid aid (EncodeBoundValue v) t0 False \<in> K 0"
  shows "\<exists>e1 e2. EavtSave pf ops eid attrName value t e = Inr e1 \<and> ScanPrefixActive ops 0 (eidAttrPrefix eid aid) e1 = Inr ([], e2)"
proof -
  let ?k = "BuildEavtKey eid aid (EncodeBoundValue v) t False"
  let ?R = "{BuildEavtKey eid aid x t True | x. \<exists>t'. BuildEavtKey eid aid x t' False \<in> K 0}"
  obtain e1 K1 where s: "EavtSave pf ops eid attrName value t e = Inr e1" "represents stands e1 K1" "K1 0 = insert ?k (K 0 \<union> ?R)"
    using EavtSave_keys [OF assms(1,3-10) disjI2 [OF assms(2)], of eid] by (elim exE conjE)
  have len: "length (eidAttrPrefix eid aid) = 12" by (simp add: eidAttrPrefix_def)
  obtain e2 where a: "ScanPrefixActive ops 0 (eidAttrPrefix eid aid) e1 = Inr (scanActive (K1 0) (eidAttrPrefix eid aid), e2)"
    using ScanPrefixActive_keys [OF s(2), of "eidAttrPrefix eid aid"] len by auto
  have dk: "datomKeys (K1 0)" using s(2) by (simp add: represents_def)
  have "\<not> (active (K1 0) k \<and> take 12 k = eidAttrPrefix eid aid)" for k
    using resave_inactive [OF assms(3-5,11) s(3)] by blast
  then have "scanActive (K1 0) (eidAttrPrefix eid aid) = []"
    using scanActive_spec [OF dk, of "eidAttrPrefix eid aid"] len by simp
  then show ?thesis using s(1) a by simp
qed

end

end
