(* ===== verification/Scans.thy ===== *)
theory Scans
  imports FlushProtocol
begin

text \<open>
  Scans of the storage facade and its synchronous operations (\<^verbatim>\<open>src/go/internal/kvstore/kvstore.go\<close>). A scan cursor opened at any
  point of a flush delivers the visible keys in order; a failed synchronous flush blocks the later ones, and a
  journaled batch reaches the journal twice.
\<close>

section \<open>Page trees as the cursor loads them\<close>

lemma load_leaf:
  assumes "tree (pageOf z bo s) 0 u ks"
  shows "leafOf (storeLoader z bo s) False u = Some ks"
proof -
  obtain d where d: "pageOf z bo s u = Some d" "DeserializePage d = Inr ks" "length (concat ks) < 2 ^ 31" using assms by auto
  have "blobGet z bo u s = Inr (Some d)" using d(1) by (simp add: pageOf_Some)
  then have "ldLeafKeys (storeLoader z bo s) u = Inr (ToFlat ks)"
    using d(2) by (simp add: storeLoader_def pageDecoded_def DecodePageFlat_nested)
  then show ?thesis using ToFlat_keys [OF d(3)] by (simp add: leafOf_def)
qed

lemma shallow_pages:
  assumes t: "cf_tree (pageOf z bo s) t ks" and h: "unat (Height t) \<le> 1"
  shows "shallow_tree (storeLoader z bo s) (NewPageCursor (RootUUID t) (unat (Height t)) False)"
    "pc_keys (storeLoader z bo s) (NewPageCursor (RootUUID t) (unat (Height t)) False) = ks"
proof -
  let ?ld = "storeLoader z bo s" and ?c = "NewPageCursor (RootUUID t) (unat (Height t)) False"
  have a: "ascending ks" using t by (simp add: cf_tree_def)
  have "shallow_tree ?ld ?c \<and> pc_keys ?ld ?c = ks"
  proof (cases "RootUUID t = EmptyUUID")
    case True
    then show ?thesis using t h by (simp add: shallow_tree_def treeLeaves_def pc_keys_def NewPageCursor_def cf_tree_def)
  next
    case False
    then have tr: "tree (pageOf z bo s) (unat (Height t)) (RootUUID t) ks" using t by (simp add: cf_tree_def)
    consider "unat (Height t) = 0" | "unat (Height t) = 1" using h by linarith
    then show ?thesis
    proof cases
      case 1
      then show ?thesis using False tr load_leaf [of z bo s "RootUUID t" ks] a tree_nonempty [OF tr]
        by (simp add: shallow_tree_def treeLeaves_def pc_keys_def NewPageCursor_def)
    next
      case 2
      then obtain d es kss where k: "pageOf z bo s (RootUUID t) = Some d" "DeserializeIndexPage d = Inr es" "es \<noteq> []" "ks = concat kss"
        "forest (pageOf z bo s) 0 es kss"
        using tr tree_Suc [of "pageOf z bo s" 0] by auto
      have ix: "ldIndexPage ?ld (RootUUID t) = Inr es" "indexOf ?ld (RootUUID t) = es"
        using k(1,2) by (simp_all add: storeLoader_def pageDecoded_def pageOf_Some indexOf_def)
      have lf: "map (\<lambda>e. leafOf ?ld False (ieUUID e)) es = map Some kss" "map ieKey es = map hd kss" "\<forall>l \<in> set kss. l \<noteq> []"
      proof -
        have "map (\<lambda>e. leafOf ?ld False (ieUUID e)) es = map Some kss \<and> map ieKey es = map hd kss \<and> (\<forall>l \<in> set kss. l \<noteq> [])"
          using k(5)
        proof (induction es arbitrary: kss)
          case (Cons e es)
          then obtain l ls where l: "kss = l # ls" "ieKey e = hd l" "tree (pageOf z bo s) 0 (ieUUID e) l" "forest (pageOf z bo s) 0 es ls"
            by auto
          then show ?case using Cons.IH [OF l(4)] load_leaf [OF l(3)] tree_nonempty [OF l(3)] by simp
        qed simp
        then show "map (\<lambda>e. leafOf ?ld False (ieUUID e)) es = map Some kss" "map ieKey es = map hd kss" "\<forall>l \<in> set kss. l \<noteq> []"
          by blast+
      qed
      have "map (\<lambda>e. the (leafOf ?ld False (ieUUID e))) es = kss"
        using arg_cong [OF lf(1), of "map the"] by (simp add: comp_def)
      then have tl: "treeLeaves ?ld ?c = kss" using False 2 ix(2) by (simp add: treeLeaves_def NewPageCursor_def)
      have "leafOf ?ld False (ieUUID e) \<noteq> None" if "e \<in> set es" for e
      proof -
        have "leafOf ?ld False (ieUUID e) \<in> set (map Some kss)" using that by (simp flip: lf(1))
        then show ?thesis by auto
      qed
      then have "shallow_tree ?ld ?c" using tl False 2 ix k(3,4) a lf(2,3) by (simp add: shallow_tree_def NewPageCursor_def)
      then show ?thesis using tl k(4) by (simp add: pc_keys_def)
    qed
  qed
  then show "shallow_tree ?ld ?c" "pc_keys ?ld ?c = ks" by blast+
qed

section \<open>The snapshot of the memtable\<close>

lemma SnapshotRuns_keys:
  assumes "mt_ok mt" "cf < numCf mt"
  shows "\<exists>mt' rs. SnapshotRuns cf mt = Inr (mt', rs) \<and> mt_ok mt' \<and> same_abs mt mt' \<and> (\<forall>r \<in> set rs. run_ok r)
    \<and> (\<Union>r \<in> set rs. recKey ` set (Records r)) = dom (live mt cf) \<union> dom (frozen mt cf)"
proof -
  define mt' where "mt' = maybeMergeLocked cf (materializeLocked cf mt)"
  note o = reorganise_ok [OF assms(1), of cf, folded mt'_def]
  have len: "cf < length (buf mt)" "cf < length (runs mt)" using assms by (simp_all add: mt_ok_def)
  have s: "SnapshotRuns cf mt = Inr (mt', draining mt' ! cf @ runs mt' ! cf)" using len by (simp add: SnapshotRuns_def mt'_def Let_def)
  have b: "buf mt' ! cf = []" using len by (simp add: mt'_def maybeMergeLocked_eq materializeLocked_eq)
  have n: "numCf mt' = numCf mt" using o(2) by (simp add: same_abs_def)
  have dom: "dom (latest recKey xs) = recKey ` set xs" for xs
    using latest_None_iff [of recKey xs] by (auto simp: dom_def)
  have "dom (live mt' cf) = (\<Union>r \<in> set (runs mt' ! cf). recKey ` set (Records r))"
    "dom (frozen mt' cf) = (\<Union>r \<in> set (draining mt' ! cf). recKey ` set (Records r))"
    using assms(2) n b by (simp_all add: live_def frozen_def dom image_UN)
  moreover have "\<forall>r \<in> set (draining mt' ! cf @ runs mt' ! cf). run_ok r" using o(1) assms(2) n by (auto simp: mt_ok_def)
  ultimately show ?thesis using s o by (auto simp: same_abs_def)
qed

lemma runSources_keys: "sourceKeys ld (runSources False rs) = (\<Union>r \<in> set rs. recKey ` set (Records r))"
  by (auto simp: sourceKeys_def runSources_def NewRunCursor_def)

lemma NewMergedCursor_ok:
  assumes "sourcesOk ld srcs"
  shows "sourcesOk ld (mcSources (NewMergedCursor (pageOps ld) srcs))"
    "sourceKeys ld (mcSources (NewMergedCursor (pageOps ld) srcs)) = sourceKeys ld srcs"
proof -
  have "pc.sources_ok ld (emptyMerged srcs)" "mcHeap (emptyMerged srcs) = []" "length (mcSources (emptyMerged srcs)) = length srcs"
    using assms by (simp_all add: pc.sources_ok_def sourcesOk_def emptyMerged_def)
  note p = pc.pushAll_ok [OF this(1,2), of "length srcs", folded NewMergedCursor_def]
  show "sourcesOk ld (mcSources (NewMergedCursor (pageOps ld) srcs))"
    using p by (simp add: pc.sources_ok_def sourcesOk_def emptyMerged_def)
  show "sourceKeys ld (mcSources (NewMergedCursor (pageOps ld) srcs)) = sourceKeys ld srcs"
    using p by (simp add: sourceKeys_keyss pc.keyss_def emptyMerged_def) (simp add: sourceKeys_def)
qed

section \<open>Scans see the visible keys\<close>

lemma scan_sim:
  assumes s: "sim (pageOf z bo) good N (kv, fl) sp" and cf: "cf < kvNumCf kv" and h: "unat (Height (stTrees (kvPS kv) ! cf)) \<le> 1"
  shows "\<exists>mc kv' m. OpenScanCursor z bo cf kv = Inr (mc, kv') \<and> sim (pageOf z bo) good N (kv', fl) sp
    \<and> mcSeek (pageOps (storeLoader z bo (kvBlobs kv))) None t mc = Some m \<and> pc.mc_wf (storeLoader z bo (kvBlobs kv)) m
    \<and> pc.mc_rest (storeLoader z bo (kvBlobs kv)) m = sorted_list_of_set {k \<in> visible sp cf. t \<le> k}
    \<and> readKeys (storeLoader z bo (kvBlobs kv)) n m = Some (take n (sorted_list_of_set {k \<in> visible sp cf. t \<le> k}))"
proof -
  let ?ld = "storeLoader z bo (kvBlobs kv)" and ?t = "stTrees (kvPS kv) ! cf" and ?P = "pageOf z bo (kvBlobs kv)"
  obtain kss where ks: "good (kvBlobs kv)" "store_ok ?P kv kss sp" "keys_fit N (kvNumCf kv) kss sp"
    "flusher_ok ?P (kvNumCf kv) (stTrees (kvPS kv)) kss sp fl"
    using s by (auto simp: sim_def)
  note o = ks(2) [unfolded store_ok_def]
  have mt: "mt_ok (kvMT kv)" "cf < numCf (kvMT kv)" using o cf by auto
  obtain mt' rs where r: "SnapshotRuns cf (kvMT kv) = Inr (mt', rs)" "mt_ok mt'" "same_abs (kvMT kv) mt'" "\<forall>r \<in> set rs. run_ok r"
    "(\<Union>r \<in> set rs. recKey ` set (Records r)) = dom (live (kvMT kv) cf) \<union> dom (frozen (kvMT kv) cf)"
    using SnapshotRuns_keys [OF mt] by blast
  have len: "cf < length (stTrees (kvPS kv))" using o cf list_all2_lengthD unfolding trees_hold_def by fastforce
  then have tr: "treeAt (int cf) (kvPS kv) = ?t" by (simp add: treeAt_def)
  have ct: "cf_tree ?P ?t (kss ! cf)" using o len trees_hold_nth by blast
  define pcur where "pcur = NewPageCursor (RootUUID ?t) (unat (Height ?t)) False"
  note sh = shallow_pages [OF ct h, folded pcur_def]
  have "pc_wf ?ld pcur" using sh(1) by (simp add: pc_wf_def pcur_def NewPageCursor_def unloaded_def keyCount_def FlatLeaf_Count_def)
  then have src: "sourcesOk ?ld (PageStoreCursor pcur # runSources False rs)"
    using runSources_ok [OF r(4), of ?ld False] by (simp add: sourcesOk_def)
  have keys: "sourceKeys ?ld (PageStoreCursor pcur # runSources False rs) = visible sp cf"
    using sh(2) r(5) o cf runSources_keys [of ?ld rs] by (auto simp: sourceKeys_def visible_def)
  let ?mc = "(NewMergedCursor (pageOps ?ld) (PageStoreCursor pcur # runSources False rs))
    \<lparr>mcCF := int cf, mcRootUUID := RootUUID ?t, mcHeight := Height ?t, mcRunGen := gen mt'\<rparr>"
  have op: "OpenScanCursor z bo cf kv = Inr (?mc, kv\<lparr>kvMT := mt'\<rparr>)"
    using r(1) tr by (simp add: OpenScanCursor_def pcur_def Let_def)
  have "store_ok ?P (kv\<lparr>kvMT := mt'\<rparr>) kss sp" using o r(2,3) by (simp add: store_ok_def same_abs_def)
  then have sm: "sim (pageOf z bo) good N (kv\<lparr>kvMT := mt'\<rparr>, fl) sp" using ks by (auto simp: sim_def)
  have "sourcesOk ?ld (mcSources ?mc)" using NewMergedCursor_ok(1) [OF src] by simp
  then obtain m where "seekSources (pageOps ?ld) t ?mc = Some m" "pc.mc_wf ?ld m"
    "pc.mc_rest ?ld m = sorted_list_of_set {k \<in> sourceKeys ?ld (mcSources ?mc). t \<le> k}"
    "readKeys ?ld n m = Some (take n (sorted_list_of_set {k \<in> sourceKeys ?ld (mcSources ?mc). t \<le> k}))"
    using seekSources_reads [of ?ld ?mc t n] by blast
  moreover have "sourceKeys ?ld (mcSources ?mc) = visible sp cf" using NewMergedCursor_ok(2) [OF src] keys by simp
  ultimately show ?thesis using op sm by (auto simp: mcSeek_def)
qed

text \<open>C28. A scan delivers what is visible: in any state an opened store reaches by writes, reads and the phases of
  flushes, opening a scan cursor on a column family whose tree has at most one index level succeeds, and a seek
  followed by reads delivers exactly the visible keys at or above the target, in ascending order and each once,
  whether they are in the live memtable, in the frozen one or in the published tree.\<close>

theorem scan_delivers_visible_keys:
  fixes kv :: "(disk, 'w) KVStore"
  assumes replayed: "replayed = concat (replayBatches (jFiles (snd w)))"
    and "\<forall>x. Decompress z (compress z x) = Inr x" "NewKVStore z (fileOps False) now cfg d w = Inr kv"
    and "\<not> cfgReadOnly cfg" "\<not> cfgReplayOff cfg" "0 \<le> cfgPageCacheSize cfg" "disk_ok d"
    and "trees_hold (pageOf z (fileOps False) (kvBlobs kv)) (stTrees (kvPS kv)) kss" "\<forall>ks \<in> set kss. length ks \<le> N"
    and "\<forall>l \<in> set (LWrite replayed # ls). label_ok (kvNumCf kv) l"
    and "N + sum_list (map weight (LWrite replayed # ls)) < 2 ^ 63"
    and "flush_steps z (fileOps False) h bg (kv, Idle) ls (kv1, fl)"
    and "cf < kvNumCf kv" "unat (Height (stTrees (kvPS kv1) ! cf)) \<le> 1"
  shows "\<exists>mc kv2 m. OpenScanCursor z (fileOps False) cf kv1 = Inr (mc, kv2)
    \<and> mcSeek (pageOps (storeLoader z (fileOps False) (kvBlobs kv1))) None t mc = Some m
    \<and> readKeys (storeLoader z (fileOps False) (kvBlobs kv1)) n m =
        Some (take n (sorted_list_of_set
          {k \<in> visible (foldl (spec_next (kvNumCf kv)) (opened (kvNumCf kv) kss replayed) ls) cf. t \<le> k}))"
proof -
  note ps = file_page_store [OF assms(2)]
  have "label_ok (kvNumCf kv) (LWrite (concat (replayBatches (jFiles (snd w)))))" using assms(10) by (simp add: replayed)
  note s = page_store.NewKVStore_sim [OF ps assms(3-9) this, folded replayed]
  have "N + length replayed + sum_list (map weight ls) < 2 ^ 63" "\<forall>l \<in> set ls. label_ok (kvNumCf kv) l"
    using assms(10,11) by simp_all
  then have e: "sim (pageOf z (fileOps False)) disk_ok (N + length replayed + sum_list (map weight ls)) (kv1, fl)
      (foldl (spec_next (kvNumCf kv)) (opened (kvNumCf kv) kss replayed) ls)" "kvNumCf kv1 = kvNumCf kv"
    using page_store.sim_steps [OF ps assms(12) s] by simp_all
  show ?thesis using scan_sim [OF e(1) _ assms(14), of t n] assms(13) e(2) by auto
qed

theorem scan_delivers_visible_keys_witness:
  "\<exists>(kv :: (disk, unit) KVStore) kv1 mc kv2 m.
    flush_steps storedFrames (fileOps False) noHooks (\<lambda>_ _ _. False) (kv, Idle) [LWrite [demoEntry 7, demoEntry 3]] (kv1, Idle)
    \<and> OpenScanCursor storedFrames (fileOps False) 0 kv1 = Inr (mc, kv2)
    \<and> mcSeek (pageOps (storeLoader storedFrames (fileOps False) (kvBlobs kv1))) None [] mc = Some m
    \<and> readKeys (storeLoader storedFrames (fileOps False) (kvBlobs kv1)) 5 m = Some [replicate 9 3, replicate 9 7]"
proof -
  obtain kv :: "(disk, unit) KVStore" where kv: "NewKVStore storedFrames (fileOps False) 1 demoCfg TreeMerge.demoDisk ((), demoJournal) = Inr kv"
    "stTrees (kvPS kv) = [EmptyTree]" "kvNumCf kv = 1"
    using demo_open [OF demo_ok(1) demo_roots, of storedFrames 1 "()"] by blast
  note th = demo_trees [OF kv(2)]
  let ?es = "[demoEntry 7, demoEntry 3]"
  have d: "disk_ok TreeMerge.demoDisk" using demo_ok(1) by (simp add: disk_clean_def)
  have z: "\<forall>x. Decompress storedFrames (compress storedFrames x) = Inr x" by (simp add: storedFrames_inverse)
  have sm: "sim (pageOf storedFrames (fileOps False)) disk_ok 0 (kv, Idle) (opened 1 [[]] [])"
    using filePages.NewKVStore_sim [OF kv(1) demo_cfg(4,5) _ d th, of 0 1] kv(3) by (simp add: demo_cfg demo_replay)
  have ok: "label_ok 1 (LWrite ?es)" using demo_entry_ok [of 1 "[7, 3]"] by simp
  obtain kv1 where w: "writeEntries noHooks ?es kv = Inr kv1" using write_total [OF sm ok] by auto
  have st: "flush_steps storedFrames (fileOps False) noHooks (\<lambda>_ _ _. False) (kv, Idle) [LWrite ?es] (kv1, Idle)"
    using flush_steps.OneStep [OF flush_steps.NoStep Write [OF w]] by simp
  have "kvPS kv1 = kvPS kv" using writeEntries_cases [OF w] by auto
  then have h: "unat (Height (stTrees (kvPS kv1) ! 0)) \<le> 1" using kv(2) by (simp add: EmptyTree_def)
  have v: "{k \<in> visible (foldl (spec_next 1) (opened 1 [[]] []) [LWrite ?es]) 0. [] \<le> k} = {replicate 9 7, replicate 9 3}"
  proof -
    have "{e \<in> set ?es. unat (Cf e) = 0 \<and> 0 < (1::nat)} = {demoEntry 7, demoEntry 3}" by (auto simp: demoEntry_def)
    then have "keysIn 1 ?es 0 = {replicate 9 7, replicate 9 3}" unfolding keysIn_def by (simp add: demoEntry_def)
    then have "visible (foldl (spec_next 1) (opened 1 [[]] []) [LWrite ?es]) 0 = {replicate 9 7, replicate 9 3}"
      by (simp add: visible_def opened_def keysIn_def)
    then show ?thesis by auto
  qed
  have "replicate 9 3 < replicate 9 (7 :: byte)" by code_simp
  then have "sorted_list_of_set {replicate 9 7, replicate 9 (3 :: byte)} = [replicate 9 3, replicate 9 7]"
    by (intro strict_sorted_equal) (auto simp: ascending_sorted_list_of_set)
  moreover have "\<exists>mc kv2 m. OpenScanCursor storedFrames (fileOps False) 0 kv1 = Inr (mc, kv2)
    \<and> mcSeek (pageOps (storeLoader storedFrames (fileOps False) (kvBlobs kv1))) None [] mc = Some m
    \<and> readKeys (storeLoader storedFrames (fileOps False) (kvBlobs kv1)) 5 m =
        Some (take 5 (sorted_list_of_set {k \<in> visible (foldl (spec_next (kvNumCf kv)) (opened (kvNumCf kv) [[]] []) [LWrite ?es]) 0. [] \<le> k}))"
    by (rule scan_delivers_visible_keys [OF _ z kv(1) demo_cfg(4,5) _ d th _ _ _ st _ h, where N = 0 and replayed = "[]"])
      (use ok kv(3) in \<open>simp_all add: demo_cfg demo_replay\<close>)
  ultimately show ?thesis using st by (simp only: kv(3) v) fastforce
qed

section \<open>Synchronous flushes and journaled batches\<close>

text \<open>A failed synchronous flush blocks the later ones: \<open>Flush\<close> does not abort its capture when the preparation
  fails, so every later \<open>Flush\<close>, whatever has been written in between, reports success and does nothing.\<close>

theorem failed_flush_blocks:
  assumes "Flush z bo h now now2 kv = (Inl e, kv1)" "writeEntries h es kv1 = Inr kv2"
  shows "Flush z bo h now3 now4 kv2 = (Inr (), kv2)"
proof -
  obtain b kva where c: "CaptureFlush h kv = (Some b, kva)"
    using assms(1) by (auto simp: Flush_def split: prod.splits option.splits)
  then have "flushActive kva" by (auto simp: CaptureFlush_def Let_def split: if_splits prod.splits option.splits)
  moreover obtain b1 where "PrepareFlush z bo now now2 b kva = (Inl e, b1, kv1)"
    using assms(1) c by (auto simp: Flush_def split: prod.splits sum.splits)
  ultimately have "flushActive kv2" using PrepareFlush_frame(7) writeEntries_flags [OF assms(2)] by metis
  then show ?thesis by (simp add: Flush_def CaptureFlush_def)
qed

lemma empty_sink: "writeEntries h [] kv = Inr kv"
  by (simp add: writeEntries_def)

text \<open>A read-only page store behind a writable facade: every preparation fails.\<close>

lemma readonly_flush_fails:
  assumes "\<not> kvReadOnly kv" "\<not> flushActive kv" "stReadOnly (kvPS kv)" "sim pg good N (kv, Idle) sp"
  shows "\<exists>e kv1. Flush z bo h now now2 kv = (Inl e, kv1)"
proof -
  obtain b kva where c: "CaptureFlush h kv = (Some b, kva)" using capture_total assms(1,2) by blast
  have "sim pg good N (kva, Captured b) (spec_next (kvNumCf kv) sp LCapture)" using sim_capture [OF assms(4) c] by blast
  note p = PrepareFlush_keys [OF this, of z bo now now2]
  have "stReadOnly (kvPS kva)" using CaptureFlush_cases [OF c] assms(3) by auto
  then show ?thesis using c p by (simp add: Flush_def PrepareMerge_def sfail_def)
qed

theorem failed_flush_blocks_witness:
  "\<exists>(kv :: (disk, unit) KVStore) e kv1. Flush storedFrames (fileOps False) noHooks 1 2 kv = (Inl e, kv1)
    \<and> Flush storedFrames (fileOps False) noHooks 3 4 kv1 = (Inr (), kv1)"
proof -
  obtain kv :: "(disk, unit) KVStore" where kv: "NewKVStore storedFrames (fileOps False) 1 demoCfg TreeMerge.demoDisk ((), demoJournal) = Inr kv"
    "stTrees (kvPS kv) = [EmptyTree]" "kvNumCf kv = 1" "\<not> flushActive kv" "\<not> kvReadOnly kv"
    using demo_open [OF demo_ok(1) demo_roots, of storedFrames 1 "()"] by blast
  have d: "disk_ok TreeMerge.demoDisk" using demo_ok(1) by (simp add: disk_clean_def)
  have sm: "sim (pageOf storedFrames (fileOps False)) disk_ok 0 (kv, Idle) (opened 1 [[]] [])"
    using filePages.NewKVStore_sim [OF kv(1) demo_cfg(4,5) _ d demo_trees [OF kv(2)], of 0 1] kv(3) by (simp add: demo_cfg demo_replay)
  let ?kv = "kv\<lparr>kvPS := (kvPS kv)\<lparr>stReadOnly := True\<rparr>\<rparr>"
  have "sim (pageOf storedFrames (fileOps False)) disk_ok 0 (?kv, Idle) (opened 1 [[]] [])"
    using sm by (simp add: sim_def store_ok_def)
  then obtain e kv1 where f: "Flush storedFrames (fileOps False) noHooks 1 2 ?kv = (Inl e, kv1)"
    using readonly_flush_fails [of ?kv] kv(4,5) by fastforce
  from failed_flush_blocks [OF f empty_sink, of 3 4] show ?thesis using f by blast
qed

text \<open>A journaled batch is delivered to the journal twice: \<open>BatchWrite\<close> with journaling on calls the sink before
  and after its counters, so the log, and every follower fed from it, receives each record two times.\<close>

theorem batch_journaled_twice:
  assumes "BatchWrite h es True kv = Inr kv'" "journaling kv" "es \<noteq> []" "JournalSink h = Some sink" "OnFlushRequest h = None"
  shows "kvWorld kv' = sink es (sink es (kvWorld kv))"
proof -
  have "journaling (kv\<lparr>kvWorld := w, bwCount := a, bwKeys := b\<rparr>)" for w a b using assms(2) by (simp add: journaling_def)
  then show ?thesis using assms
    by (auto simp: BatchWrite_def journalDeliver_def storeSized_def maybeArmFlush_def Let_def rbind_Inr split: sum.splits)
qed

lemma BatchWrite_total:
  fixes kv :: "('a, 'b) KVStore"
  assumes "batchLoop es (kvMT kv) = Inr mt"
  shows "\<exists>kv'. BatchWrite h es j kv = Inr kv'"
proof -
  define dl :: "('a, 'b) KVStore \<Rightarrow> ('a, 'b) KVStore" where
    "dl = (\<lambda>k. if j \<and> journaling k \<and> es \<noteq> [] then journalDeliver h es k else k)"
  have m: "kvMT (dl k) = kvMT k" for k by (simp add: dl_def)
  define kv3 where "kv3 = dl ((dl kv)\<lparr>bwCount := bwCount (dl kv) + 1, bwKeys := bwKeys (dl kv) + word_of_nat (length es)\<rparr>)"
  have "kvMT kv3 = kvMT kv" by (simp add: kv3_def m)
  moreover have "BatchWrite h es j kv = rbind (storeSized (Batch es (kvMT kv3)) kv3) (\<lambda>kv4. Inr (maybeArmFlush h kv4))"
    unfolding BatchWrite_def Let_def kv3_def dl_def by (rule refl)
  ultimately show ?thesis using assms by (simp add: Batch_def sized_def storeSized_def)
qed

theorem batch_journaled_twice_witness:
  "\<exists>(kv :: (disk, nat) KVStore) kv'.
    BatchWrite (noHooks\<lparr>JournalSink := Some (\<lambda>es (n, d). (n + length es, d))\<rparr>) [demoEntry 7] True kv = Inr kv'
    \<and> fst (kvWorld kv) = 0 \<and> fst (kvWorld kv') = 2"
proof -
  let ?sink = "\<lambda>es :: CfKey list. \<lambda>(n :: nat, d :: jdisk). (n + length es, d)"
  let ?h = "noHooks\<lparr>JournalSink := Some ?sink\<rparr>"
  obtain kv :: "(disk, nat) KVStore" where kv: "NewKVStore storedFrames (fileOps False) 1 demoCfg TreeMerge.demoDisk (0, demoJournal) = Inr kv"
    "kvWorld kv = (0, demoJournal)"
    using demo_open [OF demo_ok(1) demo_roots, of storedFrames 1 0] by blast
  have mt: "mt_ok (kvMT kv)" "journaling kv"
    using NewKVStore_cases [OF kv(1) demo_cfg(4,5)] NewMemTable_ok(1) by (auto simp: journaling_def demo_replay)
  have "length (CfKey_Key (demoEntry 7)) < 2 ^ 32" by (simp add: demoEntry_def)
  then obtain kv' where b: "BatchWrite ?h [demoEntry 7] True kv = Inr kv'"
    using batchLoop_total [OF mt(1), of "[demoEntry 7]"] BatchWrite_total by (metis empty_iff empty_set set_ConsD)
  have "kvWorld kv' = ?sink [demoEntry 7] (?sink [demoEntry 7] (kvWorld kv))"
    by (rule batch_journaled_twice [OF b mt(2)]) (simp_all add: noHooks_def)
  then show ?thesis using b kv(2) by (intro exI [of _ kv] exI [of _ kv']) simp
qed

end
