(* ===== verification/EavtStore.thy ===== *)
theory EavtStore
  imports EavtLaws Scans
begin

text \<open>
  The database engine over the storage facade. The facade's scans and writes satisfy the laws of
  \<open>kv_store\<close> in every state that represents a set of keys, in whatever phase a flush is, so the laws of the engine
  hold of the program's own store.
\<close>

section \<open>The reading loop of \<open>ScanPrefix\<close>\<close>

text \<open>\<open>None\<close> is a loop that does not end.\<close>

partial_function (option) scanLoop :: "loader \<Rightarrow> bytes \<Rightarrow> PageCursor MergedCursor \<Rightarrow> bytes list option" where
  "scanLoop ld pfx mc =
     Option.bind (mcNext (pageOps ld) mc) (\<lambda>(k, m).
       case k of
         None \<Rightarrow> Some []
       | Some k \<Rightarrow> if take (length pfx) k = pfx then Option.bind (scanLoop ld pfx m) (\<lambda>ks. Some (k # ks)) else Some [])"

definition storeScan :: "zstd \<Rightarrow> 's blob_ops \<Rightarrow> nat \<Rightarrow> bytes \<Rightarrow> ('s, 'w) KVStore \<Rightarrow> (bytes list \<times> ('s, 'w) KVStore) result" where
  "storeScan z bo cf pfx kv =
     (let ld = storeLoader z bo (kvBlobs kv)
      in rbind (OpenScanCursor z bo cf kv) (\<lambda>(mc, kv1).
         rbind (terminates (Option.bind (mcSeek (pageOps ld) None pfx mc) (scanLoop ld pfx))) (\<lambda>ks. Inr (ks, kv1))))"

definition storeOps :: "zstd \<Rightarrow> 's blob_ops \<Rightarrow> 'w hooks \<Rightarrow> ('s, 'w) KVStore kv_ops" where
  "storeOps z bo h =
     \<lparr>kvScanPrefix = storeScan z bo, kvBatchWrite = (\<lambda>es. BatchWrite h es False), kvJournalOnly = JournalOnly h,
      kvApplyExpanded = ApplyJournalRecordsExpanded\<rparr>"

text \<open>A cursor at its end holds no key.\<close>

lemma push_frame [simp]:
  "mcAtEnd (pushCurrent pg i m) = mcAtEnd m" "mcAtEnd (stepSource pg i m) = mcAtEnd m" "mcAtEnd (takePair pg i m) = mcAtEnd m"
  by (auto simp: pushCurrent_def stepSource_def takePair_def Let_def split: option.splits prod.splits)

lemma advanceLoop_end:
  assumes "advanceLoop pg mc = Some m" "\<not> mcAtEnd mc" "mcAtEnd m"
  shows "mcKey m = None"
proof -
  have "\<not> mcAtEnd mc \<longrightarrow> mcAtEnd m \<longrightarrow> mcKey m = None"
    using assms(1)
  proof (rule advanceLoop.raw_induct [rotated])
    fix lp :: "'a page_ops \<Rightarrow> 'a MergedCursor \<Rightarrow> 'a MergedCursor option" and pg mc m
    assume IH: "\<And>pg mc m. lp pg mc = Some m \<Longrightarrow> \<not> mcAtEnd mc \<longrightarrow> mcAtEnd m \<longrightarrow> mcKey m = None"
    assume "(case heapPop (mcHeap mc) of
        None \<Rightarrow> Some (mc\<lparr>mcAtEnd := True, mcKey := None, mcPair := None\<rparr>)
      | Some eh \<Rightarrow>
          let i = heSrc (fst eh); k = heKey (fst eh); mc1 = mc\<lparr>mcHeap := snd eh\<rparr>
          in if (case mcLast mc of Some l \<Rightarrow> cmp_loop k l = 0 | None \<Rightarrow> False)
             then lp pg (if Valid pg (mcSources mc1 ! i) then pushCurrent pg i (stepSource pg i mc1) else mc1)
             else Some (pushCurrent pg i (stepSource pg i (takePair pg i (mc1\<lparr>mcLast := Some k, mcKey := Some k\<rparr>))))) = Some m"
    then show "\<not> mcAtEnd mc \<longrightarrow> mcAtEnd m \<longrightarrow> mcKey m = None"
      by (auto simp: Let_def split: option.splits if_splits dest!: IH)
  qed
  then show ?thesis using assms by blast
qed

definition ends :: "'p MergedCursor \<Rightarrow> bool" where
  "ends mc \<longleftrightarrow> (mcAtEnd mc \<longrightarrow> mcKey mc = None)"

lemma advance_ends: "advance pg mc = Some m \<Longrightarrow> ends mc \<Longrightarrow> ends m"
  using advanceLoop_end [of pg mc m] by (auto simp: advance_def ends_def split: if_splits)

lemma ensure_ends: "ensure pg mc = Some m \<Longrightarrow> ends mc \<Longrightarrow> ends m"
  using advance_ends by (auto simp: ensure_def split: if_splits)

lemma mcNext_ends: "mcNext pg mc = Some (k, m) \<Longrightarrow> ends m"
  using advance_ends by (fastforce simp: mcNext_def ends_def bind_eq_Some_conv)

lemma seek_ends: "mcSeek pg None t mc = Some m \<Longrightarrow> ends m"
  by (auto simp: mcSeek_def seekSources_def Let_def resetMerged_def ends_def dest: advance_ends [unfolded ends_def])

lemma scanLoop_reads:
  assumes "pc.mc_wf ld mc" "ends mc"
  shows "scanLoop ld pfx mc = Some (takeWhile (\<lambda>k. take (length pfx) k = pfx) (pc.mc_rest ld mc))"
  using assms
proof (induction "pc.mc_rest ld mc" arbitrary: mc)
  case Nil
  obtain m where m: "ensure (pageOps ld) mc = Some m" "pc.mc_wf ld m" "pc.mc_rest ld m = pc.mc_rest ld mc" "mcAtEnd m \<or> mcKey m \<noteq> None"
    using pc.ensure_ok [OF Nil.prems(1)] by blast
  have "mcAtEnd m" using m(3,4) Nil.hyps by (auto simp: pc.mc_rest_def split: if_splits)
  then have "mcNext (pageOps ld) mc = Some (None, m\<lparr>mcKey := None\<rparr>)"
    using m(1) ensure_ends [OF m(1) Nil.prems(2)] by (simp add: mcNext_def advance_def ends_def)
  then show ?case using Nil.hyps by (subst scanLoop.simps) simp
next
  case (Cons k ks)
  obtain k' m where m: "mcNext (pageOps ld) mc = Some (k', m)" "pc.mc_wf ld m" "pc.mc_rest ld m = tl (pc.mc_rest ld mc)"
    "pc.mc_rest ld mc \<noteq> [] \<longrightarrow> k' = Some (hd (pc.mc_rest ld mc))"
    using pc.mcNext_ok [OF Cons.prems(1)] by blast
  have "scanLoop ld pfx m = Some (takeWhile (\<lambda>k. take (length pfx) k = pfx) ks)"
    using Cons.hyps(1) [OF _ m(2) mcNext_ends [OF m(1)]] m(3) Cons.hyps(2) by (metis list.sel(3))
  then show ?case using m Cons.hyps(2) [symmetric] by (subst scanLoop.simps) simp
qed

section \<open>The facade as sets of keys\<close>

text \<open>
  The state stands for the keys \<open>K\<close>: it represents them in the sense of the flush protocol, in any phase of a flush, there
  are the four column families of the indexes, and no tree has more than one index level.
\<close>

definition stands :: "zstd \<Rightarrow> 's blob_ops \<Rightarrow> ('s \<Rightarrow> bool) \<Rightarrow> ('s, 'w) KVStore \<Rightarrow> (nat \<Rightarrow> bytes set) \<Rightarrow> bool" where
  "stands z bo good kv K \<longleftrightarrow> 4 \<le> kvNumCf kv \<and> (\<forall>cf < kvNumCf kv. unat (Height (stTrees (kvPS kv) ! cf)) \<le> 1)
     \<and> (\<exists>N fl sp. sim (pageOf z bo) good N (kv, fl) sp \<and> K = visible sp)"

lemma stands_finite:
  assumes "stands z bo good kv K"
  shows "finite (K cf)"
proof -
  obtain N fl sp kss where s: "K = visible sp" "store_ok (pageOf z bo (kvBlobs kv)) kv kss sp"
    using assms by (auto simp: stands_def sim_def)
  have "dom (latest recKey xs) = recKey ` set xs" for xs using latest_None_iff [of recKey xs] by (auto simp: dom_def)
  then have "finite (dom (live (kvMT kv) cf))" "finite (dom (frozen (kvMT kv) cf))" by (simp_all add: live_def frozen_def)
  then show ?thesis using s by (simp add: visible_def store_ok_def)
qed

lemma seek_prefix_list:
  assumes "finite (K :: bytes set)"
  shows "takeWhile (\<lambda>k. take (length p) k = p) (sorted_list_of_set {k \<in> K. p \<le> k}) = filter (\<lambda>k. take (length p) k = p) (sorted_list_of_set K)"
proof -
  have "sorted_list_of_set {k \<in> K. p \<le> k} = dropWhile (\<lambda>k. k < p) (sorted_list_of_set K)"
    using assms by (simp add: asc_dropWhile_filter [OF ascending_sorted_list_of_set])
      (rule strict_sorted_equal, auto simp: sorted_wrt_filter ascending_sorted_list_of_set not_less)
  then show ?thesis using seek_takeWhile_prefix [OF ascending_sorted_list_of_set [of K]] by simp
qed

lemma stands_scan:
  assumes "stands z bo good kv K" "cf < 4"
  shows "\<exists>kv'. storeScan z bo cf p kv = Inr (filter (\<lambda>k. take (length p) k = p) (sorted_list_of_set (K cf)), kv') \<and> stands z bo good kv' K"
proof -
  obtain N fl sp where s: "sim (pageOf z bo) good N (kv, fl) sp" "K = visible sp" "4 \<le> kvNumCf kv"
    "\<forall>cf < kvNumCf kv. unat (Height (stTrees (kvPS kv) ! cf)) \<le> 1"
    using assms by (auto simp: stands_def)
  let ?ld = "storeLoader z bo (kvBlobs kv)"
  obtain mc kv' m where o: "OpenScanCursor z bo cf kv = Inr (mc, kv')" "sim (pageOf z bo) good N (kv', fl) sp"
    "mcSeek (pageOps ?ld) None p mc = Some m" "pc.mc_wf ?ld m" "pc.mc_rest ?ld m = sorted_list_of_set {k \<in> visible sp cf. p \<le> k}"
    using scan_sim [OF s(1), of cf p 0] s(3,4) assms(2) by auto
  have f: "kvPS kv' = kvPS kv" "kvNumCf kv' = kvNumCf kv"
    using o(1) by (auto simp: OpenScanCursor_def Let_def rbind_Inr)
  have "scanLoop ?ld p m = Some (filter (\<lambda>k. take (length p) k = p) (sorted_list_of_set (K cf)))"
    using scanLoop_reads [OF o(4) seek_ends [OF o(3)], of p] seek_prefix_list [OF stands_finite [OF assms(1)]] o(5) s(2) by simp
  then show ?thesis using o(1-3) f s by (auto simp: storeScan_def Let_def terminates_def stands_def)
qed

lemma stands_frame:
  assumes "stands z bo good kv K" "kvPS kv' = kvPS kv" "kvBlobs kv' = kvBlobs kv" "kvMT kv' = kvMT kv"
    "kvNumCf kv' = kvNumCf kv" "kvCache kv' = kvCache kv"
  shows "stands z bo good kv' K"
  using assms sim_frame [OF _ assms(2-6)] unfolding stands_def by metis

text \<open>A batch in the memtable is a write of the flush protocol.\<close>

lemma stands_write:
  assumes "stands z bo good kv K" "writeEntries h es kv = Inr kv'" "\<forall>c \<in> set es. unat (Cf c) < 4 \<and> key_ok (CfKey_Key c)"
  shows "stands z bo good kv' (\<lambda>cf. K cf \<union> batchKeys es cf)"
proof -
  obtain N fl sp where s: "sim (pageOf z bo) good N (kv, fl) sp" "K = visible sp" "4 \<le> kvNumCf kv"
    "\<forall>cf < kvNumCf kv. unat (Height (stTrees (kvPS kv) ! cf)) \<le> 1"
    using assms by (auto simp: stands_def)
  have ok: "label_ok 0 (LWrite es)" using assms(3) by fastforce
  have "keysIn (kvNumCf kv) es cf = batchKeys es cf" for cf
  proof -
    have "{e \<in> set es. unat (Cf e) = cf \<and> cf < kvNumCf kv} = {c \<in> set es. unat (Cf c) = cf}" using assms(3) s(3) by fastforce
    then show ?thesis by (simp add: keysIn_def batchKeys_def)
  qed
  then have "visible (spec_next (kvNumCf kv) sp (LWrite es)) = (\<lambda>cf. K cf \<union> batchKeys es cf)" by (auto simp: visible_def s(2))
  moreover note sim_write [OF s(1) assms(2) ok]
  moreover have "kvPS kv' = kvPS kv"
    using writeEntries_cases [OF assms(2)] assms(2) by (cases "es = []") (auto simp: writeEntries_def)
  ultimately show ?thesis unfolding stands_def using s(3,4) by metis
qed

text \<open>The facade's batch alone is such a write with a journal that does nothing.\<close>

definition quietJournal :: "'w hooks \<Rightarrow> 'w hooks" where
  "quietJournal h = h\<lparr>JournalSink := Some (\<lambda>_ w. w)\<rparr>"

lemma quiet_journal [simp]: "JournalOnly (quietJournal h) es kv = kv"
  by (simp add: JournalOnly_def journalDeliver_def quietJournal_def)

lemma quiet_flush: "maybeArmFlush (quietJournal h) kv = maybeArmFlush h kv"
  by (simp add: maybeArmFlush_def quietJournal_def)

lemma quiet_batch: "es \<noteq> [] \<Longrightarrow> writeEntries (quietJournal h) es kv = BatchWrite h es False kv"
  by (simp add: writeEntries_def BatchWrite_def quiet_flush Let_def)

lemma Batch_nil: "mt_ok mt \<Longrightarrow> \<exists>n. Batch [] mt = Inr (mt, n)"
  by (simp add: Batch_def sized_def)

lemma stands_batch:
  assumes "stands z bo good kv K" "\<forall>c \<in> set es. unat (Cf c) < 4 \<and> key_ok (CfKey_Key c)"
  shows "\<exists>kv'. BatchWrite h es False kv = Inr kv' \<and> stands z bo good kv' (\<lambda>cf. K cf \<union> batchKeys es cf)"
proof (cases "es = []")
  case True
  obtain N fl sp where s: "sim (pageOf z bo) good N (kv, fl) sp" using assms by (auto simp: stands_def)
  then obtain n where "Batch [] (kvMT kv) = Inr (kvMT kv, n)" using Batch_nil by (fastforce simp: sim_def store_ok_def)
  then have "\<exists>kv'. BatchWrite h es False kv = Inr kv' \<and> stands z bo good kv' K"
    using True by (auto simp: BatchWrite_def storeSized_def intro!: stands_frame [OF assms(1)])
  then show ?thesis using True by (simp add: batchKeys_def)
next
  case False
  obtain N fl sp where s: "sim (pageOf z bo) good N (kv, fl) sp" using assms by (auto simp: stands_def)
  have "label_ok 0 (LWrite es)" using assms(2) by fastforce
  then obtain kv' where w: "writeEntries (quietJournal h) es kv = Inr kv'" using write_total [OF s] by blast
  then show ?thesis using stands_write [OF assms(1) w assms(2)] quiet_batch [OF False] by metis
qed

lemma stands_expanded:
  assumes "stands z bo good kv K" "\<forall>c \<in> set es. unat (Cf c) < 4 \<and> key_ok (CfKey_Key c)"
  shows "\<exists>kv'. ApplyJournalRecordsExpanded es kv = Inr kv' \<and> stands z bo good kv' (\<lambda>cf. K cf \<union> batchKeys es cf)"
proof (cases "es = []")
  case True
  then show ?thesis using assms(1) by (simp add: ApplyJournalRecordsExpanded_def batchKeys_def)
next
  case False
  obtain kv1 where b: "BatchWrite noHooks es False kv = Inr kv1" "stands z bo good kv1 (\<lambda>cf. K cf \<union> batchKeys es cf)"
    using stands_batch [OF assms] by blast
  obtain mt n where m: "Batch es (kvMT kv) = Inr (mt, n)" "kvMT kv1 = mt" "kvPS kv1 = kvPS kv" "kvBlobs kv1 = kvBlobs kv"
    "kvNumCf kv1 = kvNumCf kv" "kvCache kv1 = kvCache kv"
    using writeEntries_cases [of "quietJournal noHooks" es kv kv1] quiet_batch [OF False] b(1) False by metis
  then have "\<exists>kv'. storeSized (Batch es (kvMT kv)) kv = Inr kv' \<and> kvMT kv' = kvMT kv1 \<and> kvPS kv' = kvPS kv1 \<and> kvBlobs kv' = kvBlobs kv1
    \<and> kvNumCf kv' = kvNumCf kv1 \<and> kvCache kv' = kvCache kv1" by (simp add: storeSized_def)
  then show ?thesis using False stands_frame [OF b(2)] by (auto simp: ApplyJournalRecordsExpanded_def)
qed

lemma store_laws: "kv_store (storeOps z bo h) (stands z bo good) key_ok"
proof
  show "\<And>s K cf. stands z bo good s K \<Longrightarrow> finite (K cf)" by (rule stands_finite)
  show "\<exists>s'. kvScanPrefix (storeOps z bo h) cf p s = Inr (filter (\<lambda>k. take (length p) k = p) (sorted_list_of_set (K cf)), s') \<and> stands z bo good s' K"
    if "stands z bo good s K" "cf < 4" for s K cf p using stands_scan [OF that] by (simp add: storeOps_def)
  show "\<exists>s'. kvBatchWrite (storeOps z bo h) es s = Inr s' \<and> stands z bo good s' (\<lambda>cf. K cf \<union> batchKeys es cf)"
    if "stands z bo good s K" "\<forall>c \<in> set es. unat (Cf c) < 4 \<and> key_ok (CfKey_Key c)" for s K es using stands_batch [OF that] by (simp add: storeOps_def)
  show "stands z bo good (kvJournalOnly (storeOps z bo h) es s) K" if "stands z bo good s K" for s K es
    by (rule stands_frame [OF that]) (simp_all add: storeOps_def JournalOnly_def)
  show "\<exists>s'. kvApplyExpanded (storeOps z bo h) es s = Inr s' \<and> stands z bo good s' (\<lambda>cf. K cf \<union> batchKeys es cf)"
    if "stands z bo good s K" "\<forall>c \<in> set es. unat (Cf c) < 4 \<and> key_ok (CfKey_Key c)" for s K es using stands_expanded [OF that] by (simp add: storeOps_def)
  show "key_ok k" if "20 \<le> length k" "length k < 65536" for k using that by (simp add: key_ok_def)
qed

interpretation kv: kv_store "storeOps z bo h" "stands z bo good" key_ok
  for z :: zstd and bo :: "'s blob_ops" and h :: "'w hooks" and good
  by (rule store_laws)

section \<open>The engine over the program's store\<close>

text \<open>
  \<open>engineRun e K\<close>: the engine \<open>e\<close> results from an engine with empty caches over a store that holds the keys of some datoms, by
  batches of writes, scans of active datoms, hydrations and allocations of entities, and the CF-0 keys written so far make
  \<open>K\<close>. While the cache of hydrated entities is on, every written CF-0 key is the newest version of its datom at that
  moment; an allocated entity has no active datoms; the buffers of both caches keep to the range of their int32 offsets; and
  at any time the store may move to another state that holds the same keys, as the steps of a flush do.
\<close>

definition small32 :: "'s Engine \<Rightarrow> bool" where
  "small32 e \<longleftrightarrow> fits32 (eHyd e) \<and> int (length (anArena (eAnchors e))) < 2 ^ 31"

inductive engineRun :: "zstd \<Rightarrow> 's blob_ops \<Rightarrow> ('s \<Rightarrow> bool) \<Rightarrow> 'w hooks \<Rightarrow> ('s, 'w) KVStore Engine \<Rightarrow> bytes set \<Rightarrow> bool"
  for z bo good h where
  on_start: "stands z bo good s K \<Longrightarrow> datomKeys (K 0) \<Longrightarrow>
    engineRun z bo good h \<lparr>eKV = s, eResolver = r, eHyd = NewHydSet m, eAnchors = NewAnchor n, eHydEnabled = hyd, eSpCount = 0, eSpKeysIn = 0\<rparr> (K 0)"
| on_batch: "engineRun z bo good h e K \<Longrightarrow> EngineBatchWrite (storeOps z bo h) ens e = Inr e' \<Longrightarrow>
    \<forall>en \<in> set ens. unat (CF en) < 4 \<and> key_ok (Key en) \<Longrightarrow> ks = map Key (filter (\<lambda>en. CF en = 0) ens) \<Longrightarrow>
    writable K ks \<or> \<not> eHydEnabled e \<and> datomKeys (K \<union> set ks) \<Longrightarrow> small32 e' \<Longrightarrow> engineRun z bo good h e' (K \<union> set ks)"
| on_scan: "engineRun z bo good h e K \<Longrightarrow> length p \<le> 12 \<Longrightarrow> ScanPrefixActive (storeOps z bo h) 0 p e = Inr (found, e') \<Longrightarrow> engineRun z bo good h e' K"
| on_hydrate: "engineRun z bo good h e K \<Longrightarrow> HydrateEID (storeOps z bo h) eid e = Inr e' \<Longrightarrow> small32 e' \<Longrightarrow> engineRun z bo good h e' K"
| on_allocate: "engineRun z bo good h e K \<Longrightarrow> EngineAllocateInPartition pid e = (eid, e') \<Longrightarrow> entityKeys K eid = {} \<Longrightarrow> engineRun z bo good h e' K"
| on_store: "engineRun z bo good h e K \<Longrightarrow> stands z bo good s K' \<Longrightarrow> K' 0 = K \<Longrightarrow> engineRun z bo good h (e\<lparr>eKV := s\<rparr>) K"

lemma engineRun_represents: "engineRun z bo good h e K \<Longrightarrow> \<exists>K'. represents (stands z bo good) e K' \<and> K' 0 = K"
proof (induction rule: engineRun.induct)
  case (on_start s K r m n hyd)
  have "anchorOk (NewAnchor n)" using anchored_ok [OF Anchor.on_new] by blast
  then show ?case using on_start by (intro exI [of _ K]) (simp add: represents_def mirrors_new)
next
  case (on_batch e K ens e' ks)
  then obtain K' where K': "represents (stands z bo good) e K'" "K' 0 = K" by blast
  have "writable (K' 0) (map Key (filter (\<lambda>en. CF en = 0) ens))
    \<or> \<not> eHydEnabled e \<and> datomKeys (K' 0 \<union> set (map Key (filter (\<lambda>en. CF en = 0) ens)))" using on_batch.hyps(4,5) K'(2) by simp
  then have "represents (stands z bo good) e' (\<lambda>cf. K' cf \<union> batchKeys (map toCfKey ens) cf)"
    using kv.EngineBatchWrite_keys [OF K'(1) on_batch.hyps(3), of h] on_batch.hyps(2) by auto
  then show ?case using batchKeys_datoms [of ens] K'(2) on_batch.hyps(4)
    by (intro exI [of _ "\<lambda>cf. K' cf \<union> batchKeys (map toCfKey ens) cf"]) simp
next
  case (on_scan e K p found e')
  then show ?case using kv.ScanPrefixActive_keys [of z bo good e _ p h] by fastforce
next
  case (on_hydrate e K eid e')
  then show ?case using kv.HydrateEID_keys [of z bo good e _ h eid] by fastforce
next
  case (on_allocate e K pid eid e')
  then obtain K' where K': "represents (stands z bo good) e K'" "K' 0 = K" by blast
  have "represents (stands z bo good) e' K'"
    using on_allocate.hyps(2,3) K' mirrors_hydrateEmpty
    by (auto simp: represents_def EngineAllocateInPartition_def allocate_def split: prod.splits if_splits)
  then show ?case using K'(2) by blast
next
  case (on_store e K s K')
  then show ?case by (intro exI [of _ K']) (auto simp: represents_def)
qed

text \<open>C8. Scans of active datoms are exact with and without the cache. Take an engine that started with empty caches over the
  storage facade and then made any batches of writes, scans of active datoms, hydrations and allocations of entities, with
  steps of a flush in between, where the column-family trees have height at most one, the written keys have 9 to 65535 bytes
  and belong to the four index families, the CF-0 keys are keys of datoms (at least 20 bytes, and no datom between
  two versions of another), an allocated entity has no active datoms, the buffers of the caches stay below \<open>2\<^sup>3\<^sup>1\<close> bytes, and, while the cache of hydrated entities is on, every written
  CF-0 key is the newest version of its datom (saving a stored value of a cardinality-one attribute again is not such a
  write: it writes an assertion and a retraction of one transaction, and the retraction sorts last). Then
  \<open>ScanPrefixActive\<close> on column family 0 with a prefix of at most twelve bytes returns, in order, the newest version of
  every datom under the prefix whose newest version is no retraction, whether the cache of hydrated entities answers or
  the merged scan.\<close>

theorem engine_scan_exact:
  fixes e :: "('s, 'w) KVStore Engine"
  assumes "engineRun z bo good h e K" "length p \<le> 12"
  shows "\<exists>e'. ScanPrefixActive (storeOps z bo h) 0 p e =
      Inr (filter (\<lambda>k. active K k \<and> take (length p) k = p) (sorted_list_of_set K), e')"
proof -
  obtain K' where K': "represents (stands z bo good) e K'" "K' 0 = K" using engineRun_represents [OF assms(1)] by blast
  then have dk: "datomKeys K" by (auto simp: represents_def)
  show ?thesis using kv.ScanPrefixActive_keys [OF K'(1) assms(2), of h] unfolding K'(2) scanActive_spec [OF dk assms(2)] by blast
qed

text \<open>C7. Saving replaces: saving a value of a cardinality-one attribute in a transaction newer than every stored
  datom succeeds, and afterwards the active datoms of the entity's attribute are the new one alone, whatever values
  were asserted before, provided the value itself was never asserted there.\<close>

theorem save_replaces_values:
  fixes e :: "('s, 'w) KVStore Engine"
  assumes "represents (stands z bo good) e K" "typedKeys ty (K 0)" "0 \<le> sint t" "\<forall>k \<in> K 0. txOf k < unat t"
    and "InternAttr attrName (eResolver e) = (Inr aid, r)" "\<not> IsMany aid r"
    and "encodeForMode pf value (ValueTypeToEncodeMode (typeOr DbTypeString (ValueTypeFor aid r))) = Inr (EncodeBoundValue v)"
    and "value_ok (ty aid) v" "length (EncodeBoundValue v) < 65516"
    and "\<forall>t'. BuildEavtKey eid aid (EncodeBoundValue v) t' False \<notin> K 0"
  shows "\<exists>e1 e2. EavtSave pf (storeOps z bo h) eid attrName value t e = Inr e1
    \<and> ScanPrefixActive (storeOps z bo h) 0 (eidAttrPrefix eid aid) e1 = Inr ([BuildEavtKey eid aid (EncodeBoundValue v) t False], e2)"
  using assms by (rule kv.save_replaces)

text \<open>Saving a value again loses it: with the cache of hydrated entities off, saving for a cardinality-one
  attribute a value that an older transaction has asserted leaves the attribute with no active value at all, because
  the retraction of the old assertion and the new assertion carry the same transaction and the retraction sorts last.\<close>

theorem resave_loses_value:
  fixes e :: "('s, 'w) KVStore Engine"
  assumes "represents (stands z bo good) e K" "\<not> eHydEnabled e" "typedKeys ty (K 0)" "0 \<le> sint t" "\<forall>k \<in> K 0. txOf k < unat t"
    and "InternAttr attrName (eResolver e) = (Inr aid, r)" "\<not> IsMany aid r"
    and "encodeForMode pf value (ValueTypeToEncodeMode (typeOr DbTypeString (ValueTypeFor aid r))) = Inr (EncodeBoundValue v)"
    and "value_ok (ty aid) v" "length (EncodeBoundValue v) < 65516"
    and "BuildEavtKey eid aid (EncodeBoundValue v) t0 False \<in> K 0"
  shows "\<exists>e1 e2. EavtSave pf (storeOps z bo h) eid attrName value t e = Inr e1
    \<and> ScanPrefixActive (storeOps z bo h) 0 (eidAttrPrefix eid aid) e1 = Inr ([], e2)"
  using assms by (rule kv.resave_loses)

subsection \<open>A database of four empty column families\<close>

definition fourCfg :: Config where
  "fourCfg = demoCfg\<lparr>cfgNumCf := 4\<rparr>"

lemma four_cfg: "cfgNumCf fourCfg = 4" "cfgPath fourCfg = ''db''" "cfgPageCacheSize fourCfg = 100"
  "\<not> cfgReadOnly fourCfg" "\<not> cfgReplayOff fourCfg"
  using demo_cfg by (simp_all add: fourCfg_def)

lemma four_open:
  "\<exists>kv :: (disk, unit) KVStore. NewKVStore storedFrames (fileOps False) 1 fourCfg TreeMerge.demoDisk ((), demoJournal) = Inr kv
    \<and> stTrees (kvPS kv) = replicate 4 EmptyTree \<and> kvNumCf kv = 4"
proof -
  let ?data = "compress storedFrames (SerializeRoot (replicate 4 EmptyTree))"
  obtain d1 where p: "boPutRoot (fileOps False) (MakeRootName 1) ?data TreeMerge.demoDisk = (None, d1)"
    using fb.putRoot_clean [OF demo_ok(1), of "MakeRootName 1" ?data] by blast
  moreover obtain mt where "NewMemTable 4 = Inr mt" by (simp add: NewMemTable_def)
  ultimately show ?thesis using demo_roots
    by (auto simp: NewKVStore_def four_cfg OpenStore_def blobPutRoot_def replayJournals_def demo_replay storeSized_def Let_def)
qed

definition freshEngine :: "bool \<Rightarrow> 's \<Rightarrow> 's Engine" where
  "freshEngine hyd s = \<lparr>eKV = s, eResolver = NewResolver, eHyd = NewHydSet 0, eAnchors = NewAnchor 0,
     eHydEnabled = hyd, eSpCount = 0, eSpKeysIn = 0\<rparr>"

lemma four_engine:
  "\<exists>kv :: (disk, unit) KVStore. represents (stands storedFrames (fileOps False) disk_ok) (freshEngine hyd kv) (\<lambda>_. {})"
proof -
  obtain kv :: "(disk, unit) KVStore" where kv: "NewKVStore storedFrames (fileOps False) 1 fourCfg TreeMerge.demoDisk ((), demoJournal) = Inr kv"
    "stTrees (kvPS kv) = replicate 4 EmptyTree" "kvNumCf kv = 4"
    using four_open by blast
  have th: "trees_hold P (stTrees (kvPS kv)) (replicate 4 [])" for P
    unfolding kv(2) by (auto simp: trees_hold_def cf_tree_def EmptyTree_def EmptyUUID_def list_all2_conv_all_nth)
  have d: "disk_ok TreeMerge.demoDisk" using demo_ok(1) by (simp add: disk_clean_def)
  have "sim (pageOf storedFrames (fileOps False)) disk_ok 0 (kv, Idle) (opened 4 (replicate 4 []) [])"
    using filePages.NewKVStore_sim [OF kv(1) four_cfg(4,5) _ d th, of 0 4] kv(3) by (simp add: four_cfg demo_replay)
  moreover have "visible (opened 4 (replicate 4 []) []) = (\<lambda>_. {})" by (auto simp: visible_def opened_def keysIn_def fun_eq_iff)
  ultimately have "stands storedFrames (fileOps False) disk_ok kv (\<lambda>_. {})"
    using kv(2,3) by (auto simp: stands_def EmptyTree_def intro!: exI [of _ 0] exI [of _ Idle] exI [of _ "opened 4 (replicate 4 []) []"])
  moreover have "anchorOk (NewAnchor 0)" using anchored_ok [OF Anchor.on_new] by blast
  ultimately have "represents (stands storedFrames (fileOps False) disk_ok) (freshEngine hyd kv) (\<lambda>_. {})"
    by (simp add: represents_def freshEngine_def datomKeys_def uniform_def mirrors_new)
  then show ?thesis by blast
qed

lemma ident_attr:
  "InternAttr ''db/ident'' NewResolver = (Inr DbIdentAid, NewResolver)" "\<not> IsMany DbIdentAid NewResolver"
  "ValueTypeFor DbIdentAid NewResolver = Some DbTypeString"
proof -
  have "NormalizeAttr ''db/ident'' = Inr ''db/ident''" by code_simp
  moreover have "attrs NewResolver ''db/ident'' = Some DbIdentAid" by code_simp
  ultimately show "InternAttr ''db/ident'' NewResolver = (Inr DbIdentAid, NewResolver)" by (simp add: InternAttr_def)
qed code_simp+

lemma ident_value:
  "encodeForMode pf ''x'' (ValueTypeToEncodeMode (typeOr DbTypeString (ValueTypeFor DbIdentAid NewResolver))) = Inr (EncodeBoundValue (SStr ''x''))"
  "value_ok DbTypeString (SStr ''x'')" "length (EncodeBoundValue (SStr ''x'')) < 65516"
proof -
  have "ValueTypeToEncodeMode DbTypeString = EmVariable" by code_simp
  then show "encodeForMode pf ''x'' (ValueTypeToEncodeMode (typeOr DbTypeString (ValueTypeFor DbIdentAid NewResolver))) = Inr (EncodeBoundValue (SStr ''x''))"
    unfolding ident_attr(3) by (simp add: encodeForMode_def typeOr_def EncodeValue_def)
  show "value_ok DbTypeString (SStr ''x'')" by code_simp
  have "length (EncodeVariable ''x'') < 20" by code_simp
  then show "length (EncodeBoundValue (SStr ''x'')) < 65516" by simp
qed

text \<open>An entity is allocated, which declares it empty in the cache, and one datom is written for it.\<close>

lemma demo_allocated:
  "AllocateEntityId (freshEngine True kv) = (MakeEntityID PartUser 1, (freshEngine True kv)\<lparr>eResolver := snd (AllocateInPartition PartUser NewResolver),
     eHyd := hHydrateEmpty (MakeEntityID PartUser 1) (NewHydSet 0)\<rparr>)"
proof -
  have "fst (AllocateInPartition PartUser NewResolver) = Inr (MakeEntityID PartUser 1)" by code_simp
  then show ?thesis by (simp add: AllocateEntityId_def EngineAllocateInPartition_def allocate_def freshEngine_def case_prod_beta orZero_def)
qed

theorem engine_scan_exact_witness:
  "\<exists>(kv :: (disk, unit) KVStore) eid e1 e2 e3. AllocateEntityId (freshEngine True kv) = (eid, e1)
    \<and> EngineBatchWrite (storeOps storedFrames (fileOps False) noHooks) (BuildEavtEntries eid DbIdentAid (EncodeVariable ''x'') 1 False EmVariable False) e1 = Inr e2
    \<and> hContains eid (eHyd e2)
    \<and> ScanPrefixActive (storeOps storedFrames (fileOps False) noHooks) 0 (EncodeEid eid) e2 = Inr ([BuildEavtKey eid DbIdentAid (EncodeVariable ''x'') 1 False], e3)"
proof -
  let ?eid = "MakeEntityID PartUser 1" and ?ops = "storeOps storedFrames (fileOps False) (noHooks :: unit hooks)"
  let ?P = "stands storedFrames (fileOps False) disk_ok" and ?R = "engineRun storedFrames (fileOps False) disk_ok noHooks"
  let ?ens = "BuildEavtEntries ?eid DbIdentAid (EncodeBoundValue (SStr ''x'')) 1 False EmVariable False"
  let ?k = "BuildEavtKey ?eid DbIdentAid (EncodeBoundValue (SStr ''x'')) 1 False" and ?ty = "\<lambda>_ :: uint32. DbTypeString"
  obtain kv :: "(disk, unit) KVStore" where r: "represents ?P (freshEngine True kv) (\<lambda>_. {})" using four_engine by blast
  define e1 where "e1 = snd (AllocateEntityId (freshEngine True kv))"
  have a: "AllocateEntityId (freshEngine True kv) = (?eid, e1)" "eHyd e1 = hHydrateEmpty ?eid (NewHydSet 0)" "eAnchors e1 = NewAnchor 0" "eHydEnabled e1"
    by (simp_all add: e1_def demo_allocated) (simp_all add: freshEngine_def)
  have st: "?P kv (\<lambda>_. {})" using r by (simp add: represents_def freshEngine_def)
  have "?R (freshEngine True kv) {}" using engineRun.on_start [OF st] by (simp add: freshEngine_def datomKeys_def uniform_def)
  then have r1: "?R e1 {}" by (rule on_allocate [OF _ a(1) [unfolded AllocateEntityId_def]]) (simp add: entityKeys_def active_def)
  obtain K1 where K1: "represents ?P e1 K1" "K1 0 = {}" using engineRun_represents [OF r1] by blast
  have t0: "typedKeys ?ty {}" by (simp add: typedKeys_def)
  have ty: "typedKeys ?ty {?k}" by (rule typedKeys_insert [OF t0 ident_value(2) _ ident_value(3)]) simp
  have "newestKey (K1 0) ?k \<or> \<not> eHydEnabled e1" by (simp add: newestKey_def K1(2))
  from kv.datom_entries [OF K1(1) t0 [folded K1(2)] ident_value(2,3) _ this, of noHooks EmVariable False] obtain e2 where e2: "EngineBatchWrite ?ops ?ens e1 = Inr e2"
    by auto
  have f: "[?k] = map Key (filter (\<lambda>en. CF en = 0) ?ens)" by (auto simp: BuildEavtEntries_keys)
  have ok: "\<forall>en \<in> set ?ens. unat (CF en) < 4 \<and> key_ok (Key en)"
    using ident_value(3) by (auto simp: BuildEavtEntries_keys BuildEavtKey_def BuildAevtKey_def BuildVaetKey_def BuildAvetKey_def key_ok_def)
  have h2: "eHyd e2 = hApplyKey ?k (hHydrateEmpty ?eid (NewHydSet 0))" "eAnchors e2 = NewAnchor 0"
    using e2 a(2-4) by (auto simp: EngineBatchWrite_def BuildEavtEntries_keys mirrorAnchor_def toCfKey_def Let_def rbind_Inr)
  have "fits32 (hApplyKey (BuildEavtKey ?eid DbIdentAid (EncodeBoundValue (SStr ''x'')) 1 False) (hHydrateEmpty ?eid (NewHydSet 0)))" by code_simp
  then have "small32 e2" unfolding small32_def h2 by (simp add: NewAnchor_def)
  from on_batch [OF r1 e2 ok f _ this] have "?R e2 {?k}" using typed_datomKeys [OF ty] by (simp add: newestKey_def)
  then have "\<exists>e3. ScanPrefixActive ?ops 0 (EncodeEid ?eid) e2 = Inr (filter (\<lambda>k. active {?k} k \<and> take 8 k = EncodeEid ?eid) [?k], e3)"
    using engine_scan_exact [of storedFrames "fileOps False" disk_ok noHooks e2 "{?k}" "EncodeEid ?eid"] by simp
  moreover have "active {?k} ?k" by (simp add: active_def)
  moreover have "take 8 ?k = EncodeEid ?eid" by (simp add: BuildEavtKey_def)
  ultimately obtain e3 where "ScanPrefixActive ?ops 0 (EncodeEid ?eid) e2 = Inr ([?k], e3)" by auto
  moreover have "hContains ?eid (eHyd e2)" unfolding h2 hContains_apply by code_simp
  ultimately show ?thesis using a(1) e2 by (intro exI [of _ kv] exI [of _ ?eid] exI [of _ e1] exI [of _ e2] exI [of _ e3]) simp
qed

theorem save_replaces_values_witness:
  "\<exists>(kv :: (disk, unit) KVStore) e1 e2. EavtSave (\<lambda>_. None) (storeOps storedFrames (fileOps False) noHooks) 5 ''db/ident'' ''x'' 1 (freshEngine True kv) = Inr e1
    \<and> ScanPrefixActive (storeOps storedFrames (fileOps False) noHooks) 0 (eidAttrPrefix 5 DbIdentAid) e1
        = Inr ([BuildEavtKey 5 DbIdentAid (EncodeVariable ''x'') 1 False], e2)"
proof -
  obtain kv :: "(disk, unit) KVStore" where r: "represents (stands storedFrames (fileOps False) disk_ok) (freshEngine True kv) (\<lambda>_. {})"
    using four_engine by blast
  have "eResolver (freshEngine True kv) = NewResolver" by (simp add: freshEngine_def)
  then show ?thesis
    using save_replaces_values [OF r _ _ _ _ ident_attr(2) ident_value(1) _ ident_value(3), where ty = "\<lambda>_. DbTypeString" and t = 1
        and attrName = "''db/ident''" and eid = 5 and h = noHooks and pf = "\<lambda>_. None"] ident_attr(1) ident_value(2)
    by (auto simp: typedKeys_def)
qed

theorem resave_loses_value_witness:
  "\<exists>(kv :: (disk, unit) KVStore) e1 e2 e3. EavtSave (\<lambda>_. None) (storeOps storedFrames (fileOps False) noHooks) 5 ''db/ident'' ''x'' 1 (freshEngine False kv) = Inr e1
    \<and> EavtSave (\<lambda>_. None) (storeOps storedFrames (fileOps False) noHooks) 5 ''db/ident'' ''x'' 2 e1 = Inr e2
    \<and> ScanPrefixActive (storeOps storedFrames (fileOps False) noHooks) 0 (eidAttrPrefix 5 DbIdentAid) e2 = Inr ([], e3)"
proof -
  obtain kv :: "(disk, unit) KVStore" where r: "represents (stands storedFrames (fileOps False) disk_ok) (freshEngine False kv) (\<lambda>_. {})"
    using four_engine by blast
  let ?ops = "storeOps storedFrames (fileOps False) (noHooks :: unit hooks)" and ?ty = "\<lambda>_ :: uint32. DbTypeString"
  let ?k = "BuildEavtKey 5 DbIdentAid (EncodeBoundValue (SStr ''x'')) 1 False"
  have f: "eResolver (freshEngine False kv) = NewResolver" "\<not> eHydEnabled (freshEngine False kv)" by (simp_all add: freshEngine_def)
  have t0: "typedKeys ?ty {}" by (simp add: typedKeys_def)
  obtain e1 K1 where e1: "EavtSave (\<lambda>_. None) ?ops 5 ''db/ident'' ''x'' 1 (freshEngine False kv) = Inr e1"
    "represents (stands storedFrames (fileOps False) disk_ok) e1 K1" "K1 0 = {?k}" "eResolver e1 = NewResolver" "\<not> eHydEnabled e1"
    using kv.EavtSave_keys [OF r, of ?ty 1 "''db/ident''" DbIdentAid NewResolver "\<lambda>_. None" "''x''" "SStr ''x''" 5 noHooks]
      ident_attr ident_value f t0 by auto
  have ty: "typedKeys ?ty (K1 0)" unfolding e1(3) by (rule typedKeys_insert [OF t0 ident_value(2) _ ident_value(3)]) simp
  have tx: "\<forall>k \<in> K1 0. txOf k < unat (2 :: int64)" unfolding e1(3) by simp
  have i: "InternAttr ''db/ident'' (eResolver e1) = (Inr DbIdentAid, NewResolver)" using ident_attr(1) e1(4) by simp
  have m: "?k \<in> K1 0" using e1(3) by simp
  have "0 \<le> sint (2 :: int64)" by simp
  from resave_loses_value [OF e1(2,5) ty this tx i ident_attr(2) ident_value(1,2,3) m, where h = noHooks and pf = "\<lambda>_. None"] e1(1) show ?thesis by blast
qed

end
