(* ===== verification/Recovery.thy ===== *)
theory Recovery
  imports EavtStore
begin

text \<open>
  Recovery of the derived indexes, \<open>DeriveIndexKeys\<close> and \<open>RecoverWriteState\<close> of \<^verbatim>\<open>src/go/internal/eavt/write.go\<close>: the log
  holds the CF-0 keys only, and after a replay the keys of the other column families are derived from them. What
  the derivation leaves out is exactly the transaction instants and the retractions of references, and both
  omissions change what later reads return.
\<close>

unbundle bit_operations_syntax

section \<open>Derived keys\<close>

lemma aid_of_key: "BeUint32 (BuildEavtKey e a x t r) 8 = a"
  unfolding BuildEavtKey_def by (rule BeUint32_put_be) simp

lemma derived_of_key:
  "DeriveIndexKeys (BuildEavtKey e a x t r) indexed isRef =
     [\<lparr>CF = 1, Key = BuildAevtKey a e x t r\<rparr>]
     @ (if indexed then [\<lparr>CF = 2, Key = BuildAvetKey a x e t r\<rparr>] else [])
     @ (if isRef then [\<lparr>CF = 3, Key = BuildVaetKey x a e t r\<rparr>] else [])"
proof -
  let ?k = "BuildEavtKey e a x t r" and ?s = "put_be 8 (EncodeSuffix t r)"
  have "slice ?k 0 8 = EncodeEid e" by (simp add: BuildEavtKey_def slice_def)
  moreover have "drop 12 ?k = x @ ?s" "drop (length ?k - 8) ?k = ?s" by (simp_all add: BuildEavtKey_def)
  ultimately show ?thesis
    unfolding DeriveIndexKeys_def Let_def aid_of_key value_of_key by (simp add: BuildAevtKey_def BuildAvetKey_def BuildVaetKey_def)
qed

text \<open>Deriving agrees with writing: from the CF-0 key of a datom, \<open>DeriveIndexKeys\<close> makes exactly the keys that the
  write of the datom had made for the other column families.\<close>

theorem derived_keys_match:
  "set (DeriveIndexKeys (BuildEavtKey eid aid v t r) indexed (mode = EmRef)) = set (tl (BuildEavtEntries eid aid v t r mode indexed))"
  by (auto simp: derived_of_key BuildEavtEntries_keys)

section \<open>The recovery loop\<close>

definition rederived :: "Resolver \<Rightarrow> bytes \<Rightarrow> EavtEntry list" where
  "rederived r k =
     (if length k < 20 \<or> BeUint32 k 8 = DbTxInstantAid then []
      else DeriveIndexKeys k (IsIndexed (BeUint32 k 8) r)
             (BeUint64 k (length k - 8) AND 1 \<noteq> 1 \<and> ValueTypeFor (BeUint32 k 8) r = Some DbTypeRef))"

lemma recoverLoop_entries:
  "anchorOk an \<Longrightarrow> \<exists>an'. recoverLoop r ks an = Inr (concat (map (rederived r) ks), an') \<and> anchorOk an'"
proof (induction ks arbitrary: an)
  case (Cons k ks)
  let ?aid = "BeUint32 k 8"
  have "\<exists>an1. (if BeUint64 k (length k - 8) AND 1 \<noteq> 1 \<and> IsIndexed ?aid r
      then terminates (anPut ?aid (slice k 12 (length k - 8)) (DecodeEid (BeUint64 k 0)) an) else Inr an) = Inr an1 \<and> anchorOk an1"
    using put_ok [OF Cons.prems, of ?aid "slice k 12 (length k - 8)" "DecodeEid (BeUint64 k 0)"] Cons.prems by (auto simp: terminates_def)
  then obtain an1 where an1: "(if BeUint64 k (length k - 8) AND 1 \<noteq> 1 \<and> IsIndexed ?aid r
      then terminates (anPut ?aid (slice k 12 (length k - 8)) (DecodeEid (BeUint64 k 0)) an) else Inr an) = Inr an1" "anchorOk an1" by blast
  then show ?case using Cons.IH [OF Cons.prems] Cons.IH [OF an1(2)] by (auto simp: rederived_def Let_def)
qed simp

lemma rederived_key:
  "rederived r (BuildEavtKey e a x t ret) =
     (if a = DbTxInstantAid then []
      else [\<lparr>CF = 1, Key = BuildAevtKey a e x t ret\<rparr>]
        @ (if IsIndexed a r then [\<lparr>CF = 2, Key = BuildAvetKey a x e t ret\<rparr>] else [])
        @ (if \<not> ret \<and> ValueTypeFor a r = Some DbTypeRef then [\<lparr>CF = 3, Key = BuildVaetKey x a e t ret\<rparr>] else []))"
proof -
  have "BeUint64 (BuildEavtKey e a x t ret) (length (BuildEavtKey e a x t ret) - 8) AND 1 = (if ret then 1 else 0)"
    using suffixOf_key [of e a x t ret] EncodeSuffix_bit by (simp add: suffixOf_def)
  then show ?thesis by (simp add: rederived_def aid_of_key derived_of_key)
qed

context kv_store
begin

lemma RecoverWriteState_entries:
  assumes "represents stands e K" "typedKeys ty (K 0)"
  shows "\<exists>e'. RecoverWriteState ops e = Inr e' \<and> eResolver e' = eResolver e
    \<and> represents stands e' (\<lambda>cf. K cf \<union> batchKeys (map toCfKey (concat (map (rederived (eResolver e)) (sorted_list_of_set (K 0))))) cf)"
proof -
  let ?ks = "sorted_list_of_set (K 0)" and ?r = "eResolver e"
  let ?ds = "concat (map (rederived ?r) ?ks)"
  have fin: "finite (K 0)" using assms(2) by (simp add: typedKeys_def)
  obtain e1 where e1: "ScanPrefix ops 0 [] e = Inr (?ks, e1)" "represents stands e1 K" "eResolver e1 = ?r"
    using ScanPrefix_keys [OF assms(1), of 0 "[]"] by auto
  obtain an where an: "recoverLoop ?r ?ks (eAnchors e1) = Inr (?ds, an)" "anchorOk an"
    using recoverLoop_entries [of "eAnchors e1" ?r ?ks] e1(2) by (auto simp: represents_def)
  have ok: "CF d \<noteq> 0 \<and> unat (CF d) < 4 \<and> storable (Key d)" if d: "d \<in> set ?ds" for d
  proof -
    obtain k where k: "k \<in> K 0" "d \<in> set (rederived ?r k)" using d fin by auto
    obtain e a v t ret where "k = BuildEavtKey e a (EncodeBoundValue v) t ret" "length (EncodeBoundValue v) < 65516"
      using k(1) assms(2) unfolding typedKeys_def by blast
    then show ?thesis using k(2)
      by (auto simp: rederived_key BuildAevtKey_def BuildVaetKey_def BuildAvetKey_def split: if_splits intro!: storable_length)
  qed
  have "stands (eKV e1) K" using e1(2) by (simp add: represents_def)
  moreover have "\<forall>c \<in> set (map toCfKey ?ds). unat (Cf c) < 4 \<and> storable (CfKey_Key c)" using ok by (auto simp: toCfKey_def)
  ultimately obtain s where s: "kvApplyExpanded ops (map toCfKey ?ds) (eKV e1) = Inr s" "stands s (\<lambda>cf. K cf \<union> batchKeys (map toCfKey ?ds) cf)"
    using expanded by blast
  have k0: "batchKeys (map toCfKey ?ds) 0 = {}"
  proof -
    have "filter (\<lambda>en. CF en = 0) ?ds = []" unfolding filter_empty_conv using ok by blast
    then show ?thesis unfolding batchKeys_datoms by simp
  qed
  have "RecoverWriteState ops e = Inr (e1\<lparr>eKV := s, eAnchors := an\<rparr>)" using e1(1,3) an(1) s(1) by (simp add: RecoverWriteState_def)
  moreover have "represents stands (e1\<lparr>eKV := s, eAnchors := an\<rparr>) (\<lambda>cf. K cf \<union> batchKeys (map toCfKey ?ds) cf)"
    using e1(2) s(2) an(2) k0 by (simp add: represents_def)
  ultimately show ?thesis using e1(3) by (intro exI conjI) simp_all
qed

lemma ScanPrefixActive_index:
  assumes "represents stands e K" "cf < 4" "cf \<noteq> 0"
  shows "\<exists>e'. ScanPrefixActive ops cf p e = Inr (activeKeys (filter (\<lambda>k. take (length p) k = p) (sorted_list_of_set (K cf))), e')"
  using ScanPrefix_keys [OF assms(1,2), of p] assms(3) by (auto simp: ScanPrefixActive_def)

end
section \<open>What recovery rebuilds\<close>

definition rebuilt :: "Resolver \<Rightarrow> bytes set \<Rightarrow> nat \<Rightarrow> bytes set" where
  "rebuilt r K cf = {Key d | d. \<exists>k \<in> K. d \<in> set (rederived r k) \<and> unat (CF d) = cf}"

lemma rebuilt_keys:
  assumes "finite K"
  shows "batchKeys (map toCfKey (concat (map (rederived r) (sorted_list_of_set K)))) cf = rebuilt r K cf"
  using assms by (auto simp: rebuilt_def batchKeys_def toCfKey_def image_iff) force+

lemma rebuilt_member:
  assumes "typedKeys ty K"
  shows "y \<in> rebuilt r K cf \<longleftrightarrow> (\<exists>e a x t ret. BuildEavtKey e a x t ret \<in> K
    \<and> (\<exists>d \<in> set (rederived r (BuildEavtKey e a x t ret)). unat (CF d) = cf \<and> y = Key d))"
proof -
  have "\<exists>e a x t ret. k = BuildEavtKey e a x t ret" if "k \<in> K" for k using assms(1) that unfolding typedKeys_def by blast
  then show ?thesis unfolding rebuilt_def by blast
qed

lemma rederived_families:
  "(\<exists>d \<in> set (rederived r (BuildEavtKey e a x t ret)). unat (CF d) = 1 \<and> y = Key d) \<longleftrightarrow> a \<noteq> DbTxInstantAid \<and> y = BuildAevtKey a e x t ret"
  "(\<exists>d \<in> set (rederived r (BuildEavtKey e a x t ret)). unat (CF d) = 2 \<and> y = Key d) \<longleftrightarrow>
     a \<noteq> DbTxInstantAid \<and> IsIndexed a r \<and> y = BuildAvetKey a x e t ret"
  "(\<exists>d \<in> set (rederived r (BuildEavtKey e a x t ret)). unat (CF d) = 3 \<and> y = Key d) \<longleftrightarrow>
     a \<noteq> DbTxInstantAid \<and> \<not> ret \<and> ValueTypeFor a r = Some DbTypeRef \<and> y = BuildVaetKey x a e t ret"
  by (auto simp: rederived_key)

lemma rebuilt_families:
  assumes "typedKeys ty K"
  shows "rebuilt r K 1 = {BuildAevtKey a e x t ret | a e x t ret. BuildEavtKey e a x t ret \<in> K \<and> a \<noteq> DbTxInstantAid}"
    "rebuilt r K 2 = {BuildAvetKey a x e t ret | a e x t ret. BuildEavtKey e a x t ret \<in> K \<and> a \<noteq> DbTxInstantAid \<and> IsIndexed a r}"
    "rebuilt r K 3 = {BuildVaetKey x a e t False | a e x t. BuildEavtKey e a x t False \<in> K \<and> a \<noteq> DbTxInstantAid
      \<and> ValueTypeFor a r = Some DbTypeRef}"
  unfolding set_eq_iff rebuilt_member [OF assms] rederived_families mem_Collect_eq by metis+

lemma rebuilt_datoms:
  assumes "typedKeys ty K"
  shows "rebuilt r K 0 = {}"
  unfolding set_eq_iff rebuilt_member [OF assms] by (auto simp: rederived_key split: if_splits)

lemma recovery_families:
  fixes e :: "('s, 'w) KVStore Engine"
  assumes "represents (stands z bo good) e K" "typedKeys ty (K 0)"
  shows "\<exists>e' K'. RecoverWriteState (storeOps z bo h) e = Inr e' \<and> represents (stands z bo good) e' K' \<and> eResolver e' = eResolver e
    \<and> K' 0 = K 0
    \<and> K' 1 = K 1 \<union> {BuildAevtKey a eid x t r | a eid x t r. BuildEavtKey eid a x t r \<in> K 0 \<and> a \<noteq> DbTxInstantAid}
    \<and> K' 2 = K 2 \<union> {BuildAvetKey a x eid t r | a eid x t r. BuildEavtKey eid a x t r \<in> K 0 \<and> a \<noteq> DbTxInstantAid \<and> IsIndexed a (eResolver e)}
    \<and> K' 3 = K 3 \<union> {BuildVaetKey x a eid t False | a eid x t. BuildEavtKey eid a x t False \<in> K 0 \<and> a \<noteq> DbTxInstantAid
        \<and> ValueTypeFor a (eResolver e) = Some DbTypeRef}"
proof -
  have fin: "finite (K 0)" using assms(2) by (simp add: typedKeys_def)
  obtain e' where e': "RecoverWriteState (storeOps z bo h) e = Inr e'" "eResolver e' = eResolver e"
    "represents (stands z bo good) e' (\<lambda>cf. K cf \<union> batchKeys (map toCfKey (concat (map (rederived (eResolver e)) (sorted_list_of_set (K 0))))) cf)"
    using kv.RecoverWriteState_entries [OF assms, of h] by blast
  show ?thesis
    by (intro exI [of _ e'] exI conjI, rule e'(1), rule e'(3), rule e'(2))
      (simp_all only: rebuilt_keys [OF fin] rebuilt_families [OF assms(2)] rebuilt_datoms [OF assms(2)] Un_empty_right)
qed

text \<open>C11. What recovery rebuilds: over the storage facade \<open>RecoverWriteState\<close> succeeds on every store whose datoms are
  typed keys. The datoms in EAVT are unchanged; AEVT, AVET and VAET keep what they held and gain exactly the keys of all
  datoms except the transaction instants (AEVT), of the datoms of indexed attributes (AVET), and of the assertions, but
  no retraction, of references (VAET). The instants are left out of AVET and VAET too.\<close>

theorem recovery_rebuilds_indexes:
  fixes e :: "('s, 'w) KVStore Engine"
  assumes "represents (stands z bo good) e K" "typedKeys ty (K 0)"
  shows "\<exists>e' K'. RecoverWriteState (storeOps z bo h) e = Inr e' \<and> represents (stands z bo good) e' K' \<and> eResolver e' = eResolver e
    \<and> K' 0 = K 0
    \<and> K' 1 = K 1 \<union> {BuildAevtKey a eid x t r | a eid x t r. BuildEavtKey eid a x t r \<in> K 0 \<and> a \<noteq> DbTxInstantAid}
    \<and> K' 2 = K 2 \<union> {BuildAvetKey a x eid t r | a eid x t r. BuildEavtKey eid a x t r \<in> K 0 \<and> a \<noteq> DbTxInstantAid \<and> IsIndexed a (eResolver e)}
    \<and> K' 3 = K 3 \<union> {BuildVaetKey x a eid t False | a eid x t. BuildEavtKey eid a x t False \<in> K 0 \<and> a \<noteq> DbTxInstantAid
        \<and> ValueTypeFor a (eResolver e) = Some DbTypeRef}"
  using assms by (rule recovery_families)

section \<open>What recovery forgets\<close>

lemma vaet_parts [simp]:
  "logical (BuildVaetKey x a e t r) = x @ put_be 4 a @ EncodeEid e" "suffixOf (BuildVaetKey x a e t r) = EncodeSuffix t r"
  "length (BuildVaetKey x a e t r) = length x + 20"
proof -
  have "BeUint64 ((x @ put_be 4 a @ EncodeEid e) @ put_be 8 (EncodeSuffix t r) @ []) (length x + 12) = EncodeSuffix t r"
    by (rule BeUint64_put_be) simp
  then show "suffixOf (BuildVaetKey x a e t r) = EncodeSuffix t r" by (simp add: suffixOf_def BuildVaetKey_def add.commute)
qed (simp_all add: logical_def BuildVaetKey_def)

lemma vaet_le:
  assumes "0 \<le> sint t" "0 \<le> sint t'" "unat t \<le> unat t'"
  shows "BuildVaetKey x a e t False \<le> BuildVaetKey x a e t' False"
proof -
  have "EncodeSuffix t False \<le> EncodeSuffix t' False" using assms by (simp add: word_le_nat_alt unat_EncodeSuffix)
  then have "put_be 8 (EncodeSuffix t False) \<le> put_be 8 (EncodeSuffix t' False)" unfolding le_less by (auto simp: put_be_8_less)
  then show ?thesis by (auto simp: BuildVaetKey_def le_less append_less_append)
qed

text \<open>Keys of one length are uniform.\<close>

lemma uniform_length: "\<forall>k \<in> K. length k = n \<Longrightarrow> uniform K"
  unfolding uniform_def logical_def
proof (intro ballI impI)
  fix a b :: bytes
  assume "\<forall>k \<in> K. length k = n" "a \<in> K" "b \<in> K" "8 \<le> length a" "8 \<le> length b" "take (length a - 8) a < take (length b - 8) b"
  then have "take (length a - 8) a @ drop (length a - 8) a < take (length b - 8) b @ drop (length b - 8) b"
    by (subst append_less_append) simp_all
  then show "a < b" by simp
qed

text \<open>The parts of a stored datom, and the length of the references derived from stored datoms.\<close>

lemma typed_parts:
  assumes "typedKeys ty K" "BuildEavtKey e a x t r \<in> K"
  shows "\<exists>v t0. x = EncodeBoundValue v \<and> value_ok (ty a) v \<and> 0 \<le> sint t0 \<and> EncodeSuffix t r = EncodeSuffix t0 r"
proof -
  obtain e0 a0 v t0 r0 where k: "BuildEavtKey e a x t r = BuildEavtKey e0 a0 (EncodeBoundValue v) t0 r0" "value_ok (ty a0) v" "0 \<le> sint t0"
    using assms unfolding typedKeys_def by blast
  moreover have "a0 = a" "x = EncodeBoundValue v" using arg_cong [OF k(1), of logical] by (auto simp: EncodeEid_inj)
  moreover have "r0 = r" "EncodeSuffix t r = EncodeSuffix t0 r0"
    using arg_cong [OF k(1), of isRetraction] arg_cong [OF k(1), of suffixOf] by simp_all
  ultimately show ?thesis by blast
qed

lemma typed_reference:
  assumes "typedKeys ty K" "BuildEavtKey e a x t r \<in> K" "ty a = DbTypeRef"
  shows "length x = 8"
proof -
  obtain v where "x = EncodeBoundValue v" "value_ok (ty a) v" using typed_parts [OF assms(1,2)] by blast
  then obtain n where "x = EncodeInt n" using assms(3) by (auto simp: value_ok_def split: expr.splits)
  then show ?thesis by (simp add: EncodeInt_def)
qed

text \<open>C31. Recovery revives retracted references: after a crash before the first flush, when a reference has been
  asserted and later retracted, the EAVT index says that the datom is not active, but the VAET index rebuilt from the log
  lists the reference as active, because retractions are not derived for it.\<close>

theorem recovery_revives_reference:
  fixes e :: "('s, 'w) KVStore Engine"
  assumes "represents (stands z bo good) e K" "typedKeys ty (K 0)" "K 3 = {}"
    and ref: "ValueTypeFor aid (eResolver e) = Some DbTypeRef" "aid \<noteq> DbTxInstantAid" "\<forall>a. ValueTypeFor a (eResolver e) = Some DbTypeRef \<longrightarrow> ty a = DbTypeRef"
    and asserted: "BuildEavtKey eid aid (EncodeEid target) t False \<in> K 0" "0 \<le> sint t"
      "\<forall>t'. 0 \<le> sint t' \<longrightarrow> BuildEavtKey eid aid (EncodeEid target) t' False \<in> K 0 \<longrightarrow> unat t' \<le> unat t"
    and retracted: "BuildEavtKey eid aid (EncodeEid target) t2 True \<in> K 0" "0 \<le> sint t2" "unat t < unat t2"
  shows "\<not> active (K 0) (BuildEavtKey eid aid (EncodeEid target) t False)
    \<and> (\<exists>e1 e2 ks. RecoverWriteState (storeOps z bo h) e = Inr e1
        \<and> ScanPrefixActive (storeOps z bo h) 3 (EncodeEid target) e1 = Inr (ks, e2)
        \<and> BuildVaetKey (EncodeEid target) aid eid t False \<in> set ks)"
proof
  show "\<not> active (K 0) (BuildEavtKey eid aid (EncodeEid target) t False)"
  proof
    assume "active (K 0) (BuildEavtKey eid aid (EncodeEid target) t False)"
    then have "BuildEavtKey eid aid (EncodeEid target) t2 True \<le> BuildEavtKey eid aid (EncodeEid target) t False"
      using retracted(1) by (auto simp: active_def)
    then show False using key_le_version [OF retracted(2) asserted(2)] retracted(3) by simp
  qed
  let ?R = "{BuildVaetKey x a eid t False | a eid x t. BuildEavtKey eid a x t False \<in> K 0 \<and> a \<noteq> DbTxInstantAid
      \<and> ValueTypeFor a (eResolver e) = Some DbTypeRef}"
  let ?k = "BuildVaetKey (EncodeEid target) aid eid t False" and ?p = "EncodeEid target"
  obtain e1 K1 where e1: "RecoverWriteState (storeOps z bo h) e = Inr e1" "represents (stands z bo good) e1 K1" "K1 3 = ?R"
    using recovery_families [OF assms(1,2), of h] assms(3) by auto
  let ?ks = "filter (\<lambda>k. take (length ?p) k = ?p) (sorted_list_of_set (K1 3))"
  have fin: "finite (K1 3)" using e1(2) stands_finite by (auto simp: represents_def)
  have ref8: "length x = 8" if "BuildEavtKey e' a x t r \<in> K 0" "ValueTypeFor a (eResolver e) = Some DbTypeRef" for e' a x t r
    using typed_reference [OF assms(2) that(1)] ref(3) that(2) by blast
  have len: "length y = 28" if "y \<in> K1 3" for y using that ref8 unfolding e1(3) by auto
  obtain e2 where e2: "ScanPrefixActive (storeOps z bo h) 3 ?p e1 = Inr (activeKeys ?ks, e2)"
    using kv.ScanPrefixActive_index [OF e1(2), of 3 h ?p] by auto
  have asc: "ascending ?ks" by (simp add: sorted_wrt_filter)
  have set: "set ?ks = {k \<in> K1 3. take 8 k = ?p}" using fin by auto
  have u: "uniform (set ?ks)" by (rule uniform_length [of _ 28]) (use len set in auto)
  have kin: "?k \<in> set ?ks" unfolding set unfolding e1(3) using asserted(1) ref by (auto simp: BuildVaetKey_def)
  have "y \<le> ?k" if y: "y \<in> set ?ks" "logical y = logical ?k" for y
  proof -
    obtain a e' x t' where y': "y = BuildVaetKey x a e' t' False" "BuildEavtKey e' a x t' False \<in> K 0" "length x = 8"
      using y(1) ref8 unfolding set unfolding e1(3) by blast
    obtain t0 where t0: "0 \<le> sint t0" "EncodeSuffix t' False = EncodeSuffix t0 False" using typed_parts [OF assms(2) y'(2)] by blast
    have "x = ?p" "a = aid" "e' = eid" using y(2) y'(3) by (auto simp: y'(1) EncodeEid_inj)
    then have "y = BuildVaetKey ?p aid eid t0 False" "BuildEavtKey eid aid ?p t0 False \<in> K 0"
      using y' t0(2) by (simp_all add: BuildVaetKey_def BuildEavtKey_def)
    then show ?thesis using t0(1) asserted(2,3) vaet_le by simp
  qed
  moreover have "\<not> isRetraction ?k" by (simp add: isRetraction_def EncodeSuffix_bit)
  ultimately have "active (set ?ks) ?k" using kin by (auto simp: active_def)
  then have "?k \<in> set (activeKeys ?ks)" using activeKeys_filter [OF asc u] kin by simp
  then show "\<exists>e1 e2 ks. RecoverWriteState (storeOps z bo h) e = Inr e1 \<and> ScanPrefixActive (storeOps z bo h) 3 ?p e1 = Inr (ks, e2) \<and> ?k \<in> set ks"
    using e1(1) e2 by blast
qed

text \<open>C32. Recovery forgets when transactions happened: after a crash before the first flush no point in time resolves to a
  transaction any more, although the instants of the transactions are among the recovered datoms, because their AEVT keys,
  where \<open>ResolveAsOfTx\<close> looks for them, are not derived.\<close>

theorem recovery_forgets_instants:
  fixes e :: "('s, 'w) KVStore Engine"
  assumes "represents (stands z bo good) e K" "typedKeys ty (K 0)" "K 1 = {}"
    and "BuildEavtKey tx DbTxInstantAid (EncodeInt us) tx False \<in> K 0" "us \<le> asOf" "0 \<le> sint us"
    and "asOf \<noteq> NOT 0" "drop_bit 44 asOf \<noteq> PartTx"
  shows "\<exists>e1 e2. RecoverWriteState (storeOps z bo h) e = Inr e1 \<and> ResolveAsOfTx (storeOps z bo h) asOf e1 = Inr (None, e2)"
proof -
  obtain e1 K1 where e1: "RecoverWriteState (storeOps z bo h) e = Inr e1" "represents (stands z bo good) e1 K1"
    "K1 1 = {BuildAevtKey a eid x t r | a eid x t r. BuildEavtKey eid a x t r \<in> K 0 \<and> a \<noteq> DbTxInstantAid}"
    using recovery_families [OF assms(1,2), of h] assms(3) by auto
  let ?p = "[0, 0, 0, ucast DbTxInstantAid] :: bytes"
  have p: "?p = put_be 4 DbTxInstantAid" by code_simp
  have fin: "finite (K1 1)" using e1(2) stands_finite by (auto simp: represents_def)
  have "filter (\<lambda>k. take (length ?p) k = ?p) (sorted_list_of_set (K1 1)) = []"
    unfolding filter_empty_conv p set_sorted_list_of_set [OF fin] unfolding e1(3) by (auto simp: BuildAevtKey_def)
  then obtain e2 where "ScanPrefix (storeOps z bo h) 1 ?p e1 = Inr ([], e2)"
    using kv.ScanPrefix_keys [OF e1(2), of 1 h ?p] by auto
  then show ?thesis using e1(1) assms(7,8) by (simp add: ResolveAsOfTx_def)
qed

subsection \<open>Databases after a crash\<close>

text \<open>A database whose log held the given CF-0 keys and that has no other keys yet.\<close>

lemma crashed_engine:
  assumes "typedKeys ty (set ks)"
  shows "\<exists>kv :: (disk, unit) KVStore. represents (stands storedFrames (fileOps False) disk_ok) (freshEngine False kv) (\<lambda>cf. if cf = 0 then set ks else {})"
proof -
  let ?es = "map (\<lambda>k. \<lparr>Cf = 0, CfKey_Key = k\<rparr>) ks"
  obtain kv :: "(disk, unit) KVStore" where r: "represents (stands storedFrames (fileOps False) disk_ok) (freshEngine False kv) (\<lambda>_. {})"
    using four_engine by blast
  have len: "20 \<le> length k \<and> length k < 65536" if k0: "k \<in> set ks" for k
  proof -
    obtain e a v t r where "k = BuildEavtKey e a (EncodeBoundValue v) t r" "length (EncodeBoundValue v) < 65516"
      using assms k0 unfolding typedKeys_def by blast
    then show ?thesis by simp
  qed
  have st: "stands storedFrames (fileOps False) disk_ok kv (\<lambda>_. {})" using r by (simp add: represents_def freshEngine_def)
  have "\<forall>c \<in> set ?es. unat (Cf c) < 4 \<and> key_ok (CfKey_Key c)" using len by (force simp: key_ok_def)
  from stands_expanded [OF st this] obtain kv' :: "(disk, unit) KVStore" where kv': "stands storedFrames (fileOps False) disk_ok kv' (\<lambda>cf. {} \<union> batchKeys ?es cf)" by (elim exE conjE)
  have "batchKeys ?es cf = (if cf = 0 then set ks else {})" for cf
  proof -
    have "{c \<in> set ?es. unat (Cf c) = cf} = (if cf = 0 then set ?es else {})" by auto
    then show ?thesis by (simp add: batchKeys_def image_image)
  qed
  then have "represents (stands storedFrames (fileOps False) disk_ok) (freshEngine False kv') (\<lambda>cf. if cf = 0 then set ks else {})"
    using kv' r typed_datomKeys [OF assms] by (simp add: represents_def freshEngine_def)
  then show ?thesis by blast
qed

theorem recovery_rebuilds_indexes_witness:
  "\<exists>(kv :: (disk, unit) KVStore) e' K'. RecoverWriteState (storeOps storedFrames (fileOps False) noHooks) (freshEngine False kv) = Inr e'
    \<and> represents (stands storedFrames (fileOps False) disk_ok) e' K'
    \<and> K' 0 = {BuildEavtKey 5 7 (EncodeInt 3) 1 False} \<and> BuildAevtKey 7 5 (EncodeInt 3) 1 False \<in> K' 1"
proof -
  let ?k = "BuildEavtKey 5 7 (EncodeInt 3) 1 False"
  have ty: "typedKeys (\<lambda>_. DbTypeLong) (set [?k])"
    using typedKeys_insert [of "\<lambda>_. DbTypeLong" "{}" 7 "SInt 3" 1 5 False] by (simp add: typedKeys_def value_ok_def EncodeInt_def)
  obtain kv :: "(disk, unit) KVStore" where r: "represents (stands storedFrames (fileOps False) disk_ok) (freshEngine False kv)
      (\<lambda>cf. if cf = 0 then set [?k] else {})" using crashed_engine [OF ty] by blast
  obtain e' K' where e': "RecoverWriteState (storeOps storedFrames (fileOps False) noHooks) (freshEngine False kv) = Inr e'"
    "represents (stands storedFrames (fileOps False) disk_ok) e' K'" "K' 0 = {?k}"
    "K' 1 = {} \<union> {BuildAevtKey a eid x t r | a eid x t r. BuildEavtKey eid a x t r \<in> {?k} \<and> a \<noteq> DbTxInstantAid}"
    using recovery_rebuilds_indexes [OF r, of "\<lambda>_. DbTypeLong" noHooks] ty by auto
  have "BuildAevtKey 7 5 (EncodeInt 3) 1 False \<in> K' 1" unfolding e'(4)
    by (intro UnI2 CollectI exI [of _ 7] exI [of _ 5] exI [of _ "EncodeInt 3"] exI [of _ 1] exI [of _ False]) simp
  then show ?thesis using e'(1-3) by blast
qed

theorem recovery_revives_reference_witness:
  "\<exists>(kv :: (disk, unit) KVStore) e1 e2 ks. RecoverWriteState (storeOps storedFrames (fileOps False) noHooks) (freshEngine False kv) = Inr e1
    \<and> ScanPrefixActive (storeOps storedFrames (fileOps False) noHooks) 3 (EncodeEid 6) e1 = Inr (ks, e2)
    \<and> BuildVaetKey (EncodeEid 6) DbCardinalityAid 5 1 False \<in> set ks"
proof -
  let ?k = "\<lambda>t r. BuildEavtKey 5 DbCardinalityAid (EncodeEid 6) t r" and ?ty = "\<lambda>_ :: uint32. DbTypeRef"
  have v: "EncodeBoundValue (SInt 6) = EncodeEid 6" "value_ok DbTypeRef (SInt 6)" by (simp_all add: EncodeEid_def value_ok_def)
  have "typedKeys ?ty {}" by (simp add: typedKeys_def)
  then have ty: "typedKeys ?ty (set [?k 1 False, ?k 2 True])"
    using typedKeys_insert [of ?ty _ _ "SInt 6", unfolded v(1)] v(2) by simp
  obtain kv :: "(disk, unit) KVStore" where r: "represents (stands storedFrames (fileOps False) disk_ok) (freshEngine False kv)
      (\<lambda>cf. if cf = 0 then set [?k 1 False, ?k 2 True] else {})" using crashed_engine [OF ty] by blast
  have vt: "ValueTypeFor DbCardinalityAid (eResolver (freshEngine False kv)) = Some DbTypeRef"
    unfolding freshEngine_def Engine.simps by code_simp
  have only: "unat t' \<le> 1" if "?k t' False = ?k 1 False \<or> ?k t' False = ?k 2 True" "0 \<le> sint t'" for t'
  proof -
    have "?k t' False \<noteq> ?k 2 True" using isRetraction_key by metis
    then have "txOf (?k t' False) = txOf (?k 1 False)" using that by simp
    then show ?thesis using that(2) by simp
  qed
  have "\<not> active (set [?k 1 False, ?k 2 True]) (?k 1 False) \<and> (\<exists>e1 e2 ks. RecoverWriteState (storeOps storedFrames (fileOps False) noHooks) (freshEngine False kv) = Inr e1
    \<and> ScanPrefixActive (storeOps storedFrames (fileOps False) noHooks) 3 (EncodeEid 6) e1 = Inr (ks, e2)
    \<and> BuildVaetKey (EncodeEid 6) DbCardinalityAid 5 1 False \<in> set ks)"
    using recovery_revives_reference [OF r, of ?ty DbCardinalityAid 5 6 1 2 noHooks] ty vt only by auto
  then show ?thesis by blast
qed

theorem recovery_forgets_instants_witness:
  "\<exists>(kv :: (disk, unit) KVStore) e1 e2. RecoverWriteState (storeOps storedFrames (fileOps False) noHooks) (freshEngine False kv) = Inr e1
    \<and> ResolveAsOfTx (storeOps storedFrames (fileOps False) noHooks) 100 e1 = Inr (None, e2)"
proof -
  let ?k = "BuildEavtKey 5 DbTxInstantAid (EncodeInt 50) 5 False"
  have ty: "typedKeys (\<lambda>_. DbTypeInstant) (set [?k])"
    using typedKeys_insert [of "\<lambda>_. DbTypeInstant" "{}" _ "SInt 50"] by (simp add: typedKeys_def value_ok_def EncodeInt_def)
  obtain kv :: "(disk, unit) KVStore" where r: "represents (stands storedFrames (fileOps False) disk_ok) (freshEngine False kv)
      (\<lambda>cf. if cf = 0 then set [?k] else {})" using crashed_engine [OF ty] by blast
  have "drop_bit 44 (100 :: uint64) \<noteq> PartTx" "(100 :: uint64) \<noteq> NOT 0" by (simp_all add: PartTx_def) 
  then show ?thesis
    using recovery_forgets_instants [OF r, of "\<lambda>_. DbTypeInstant" 5 50 100 noHooks] ty by (simp add: word_le_nat_alt) blast
qed

end
