(* ===== verification/Txw.thy ===== *)
theory Txw
  imports Msgpack
begin

text \<open>
  Flat transactions as they arrive, \<^verbatim>\<open>src/go/internal/scheme/symtab.go\<close> and \<^verbatim>\<open>txw.go\<close>: the table of interned keywords and the
  decoding of a request into a list of operations. The table is an inverse pair of maps as long as its identifiers
  fit 32 bits.
\<close>

section \<open>The symbol table\<close>

record SymTab =
  stM :: "string \<rightharpoonup> uint32"
  stNames :: "string list"
  DbAdd :: uint32
  DbRetract :: uint32
  DbIdent :: uint32
  DbType :: uint32
  DbCardinality :: uint32
  DbUnique :: uint32
  DbCurrentTx :: uint32

definition InternSym :: "string \<Rightarrow> SymTab \<Rightarrow> uint32 \<times> SymTab" where
  "InternSym payload t =
     (case stM t payload of
        Some i \<Rightarrow> if i \<noteq> 0 then (i, t)
                  else let i = word_of_nat (length (stNames t) + 1) in (i, t\<lparr>stM := (stM t)(payload \<mapsto> i), stNames := stNames t @ [payload]\<rparr>)
      | None \<Rightarrow> let i = word_of_nat (length (stNames t) + 1) in (i, t\<lparr>stM := (stM t)(payload \<mapsto> i), stNames := stNames t @ [payload]\<rparr>))"

definition SymName :: "uint32 \<Rightarrow> SymTab \<Rightarrow> string" where
  "SymName i t = (if i = 0 \<or> unat i > length (stNames t) then [] else stNames t ! (unat i - 1))"

definition SymCount :: "SymTab \<Rightarrow> nat" where
  "SymCount t = length (stNames t)"

definition NewSymTab :: SymTab where
  "NewSymTab =
     (let t0 = \<lparr>stM = Map.empty, stNames = [], DbAdd = 0, DbRetract = 0, DbIdent = 0, DbType = 0, DbCardinality = 0, DbUnique = 0, DbCurrentTx = 0\<rparr>;
          (a, t1) = InternSym ''db/add'' t0;
          (r, t2) = InternSym ''db/retract'' t1;
          (i, t3) = InternSym ''db/ident'' t2;
          (v, t4) = InternSym ''db/valueType'' t3;
          (c, t5) = InternSym ''db/cardinality'' t4;
          (u, t6) = InternSym ''db/unique'' t5;
          (x, t7) = InternSym ''db/current-tx'' t6
      in t7\<lparr>DbAdd := a, DbRetract := r, DbIdent := i, DbType := v, DbCardinality := c, DbUnique := u, DbCurrentTx := x\<rparr>)"

text \<open>Names and identifiers are inverse to each other.\<close>

definition symtabOk :: "SymTab \<Rightarrow> bool" where
  "symtabOk t \<longleftrightarrow> length (stNames t) < 2 ^ 32 \<and> dom (stM t) = set (stNames t)
     \<and> (\<forall>i < length (stNames t). stM t (stNames t ! i) = Some (word_of_nat (Suc i)))"

lemma symbol_word: "i < 2 ^ 32 - 1 \<Longrightarrow> unat (word_of_nat (Suc i) :: uint32) = Suc i"
  by (subst of_nat_inverse [where r = "Suc i"]) simp_all

lemma interned_symbol:
  assumes "symtabOk t" "length (stNames t) < 2 ^ 32 - 1"
  shows "symtabOk (snd (InternSym p t)) \<and> SymName (fst (InternSym p t)) (snd (InternSym p t)) = p
    \<and> (\<exists>ns. stNames (snd (InternSym p t)) = stNames t @ ns)"
proof (cases "stM t p")
  case (Some w)
  then have "p \<in> set (stNames t)" using assms(1) by (auto simp: symtabOk_def)
  then obtain i where i: "i < length (stNames t)" "stNames t ! i = p" by (auto simp: in_set_conv_nth)
  then have w: "w = word_of_nat (Suc i)" using assms(1) Some by (auto simp: symtabOk_def)
  have u: "unat w = Suc i" unfolding w using i(1) assms(2) by (intro symbol_word) simp
  then have "w \<noteq> 0" by auto
  then show ?thesis using Some assms(1) i u by (auto simp: InternSym_def SymName_def)
next
  case None
  let ?n = "length (stNames t)"
  have p: "p \<notin> set (stNames t)" using None assms(1) by (auto simp: symtabOk_def)
  have u: "unat (word_of_nat (Suc ?n) :: uint32) = Suc ?n" using assms(2) by (intro symbol_word)
  then have nz: "word_of_nat (Suc ?n) \<noteq> (0 :: uint32)" by (metis nat.distinct(1) unat_0)
  have "stNames t ! i \<noteq> p" if "i < ?n" for i using p that nth_mem by metis
  then show ?thesis using None assms u nz
    by (auto simp: InternSym_def SymName_def symtabOk_def Let_def nth_append less_Suc_eq)
qed

lemma SymName_stable:
  "unat i \<le> length (stNames t) \<Longrightarrow> stNames t' = stNames t @ ns \<Longrightarrow> SymName i t' = SymName i t"
  using unat_gt_0 [of i] by (auto simp: SymName_def nth_append)

section \<open>Operations\<close>

text \<open>The kinds of slots with the fields each of them uses; \<open>slotSym\<close> is the field \<open>Sym\<close> of any slot.\<close>

datatype TxWSlot =
    TskMissing
  | TskInt int64
  | TskFloat float64
  | TskBool bool
  | TskStr string
  | TskKw uint32
  | TskBytes bytes
  | TskLookupRef uint32 TxWSlot

definition slotSym :: "TxWSlot \<Rightarrow> uint32" where
  "slotSym s = (case s of TskKw x \<Rightarrow> x | TskLookupRef x _ \<Rightarrow> x | _ \<Rightarrow> 0)"

record TxWOp =
  IsRetract :: bool
  opE :: TxWSlot
  AttrSym :: uint32
  opV :: TxWSlot
  AttrId :: uint32
  VResolved :: int64

text \<open>Decoding interns keywords; what was interned before an error stays in the table.\<close>

fun txSlotFromValue :: "Value \<Rightarrow> SymTab \<Rightarrow> TxWSlot result \<times> SymTab" where
  "txSlotFromValue (MInt x) tab = (Inr (TskInt x), tab)"
| "txSlotFromValue (MFloat x) tab = (Inr (TskFloat x), tab)"
| "txSlotFromValue (MStr x) tab = (Inr (TskStr x), tab)"
| "txSlotFromValue (MBin x) tab = (Inr (TskBytes x), tab)"
| "txSlotFromValue (MBool x) tab = (Inr (TskBool x), tab)"
| "txSlotFromValue MNil tab = (Inr TskMissing, tab)"
| "txSlotFromValue (MExt ty d) tab =
     (if ty = ExtKeyword then (case InternSym (string_of d) tab of (i, tab1) \<Rightarrow> (Inr (TskKw i), tab1))
      else if ty = ExtSymbol then (Inr (TskStr (string_of d)), tab)
      else (Inl (Error ''wire: unknown ext type''), tab))"
| "txSlotFromValue (MArray [a, v]) tab =
     (case txSlotFromValue a tab of
        (Inl e, tab1) \<Rightarrow> (Inl e, tab1)
      | (Inr (TskKw i), tab1) \<Rightarrow>
          (case txSlotFromValue v tab1 of
             (Inl e, tab2) \<Rightarrow> (Inl e, tab2)
           | (Inr x, tab2) \<Rightarrow> (Inr (TskLookupRef i x), tab2))
      | (Inr _, tab1) \<Rightarrow> (Inl (Error ''wire: tx lookup ref attr must be a keyword''), tab1))"
| "txSlotFromValue (MArray vs) tab = (Inl (Error ''wire: tx lookup ref must be a 2-element array''), tab)"
| "txSlotFromValue _ tab = (Inl (Error ''wire: unexpected value in tx op''), tab)"

definition txOpFromValue :: "Value \<Rightarrow> SymTab \<Rightarrow> TxWOp result \<times> SymTab" where
  "txOpFromValue v tab =
     (case v of
        MArray [h, e, a, x] \<Rightarrow>
          (case txSlotFromValue h tab of
             (Inl err, tab1) \<Rightarrow> (Inl err, tab1)
           | (Inr hs, tab1) \<Rightarrow>
               (case hs of
                  TskKw k \<Rightarrow>
                    if k \<noteq> DbAdd tab1 \<and> k \<noteq> DbRetract tab1 then (Inl (Error ''wire: tx: unknown op keyword''), tab1)
                    else
                      (case txSlotFromValue e tab1 of
                         (Inl err, tab2) \<Rightarrow> (Inl err, tab2)
                       | (Inr es, tab2) \<Rightarrow>
                           (case txSlotFromValue a tab2 of
                              (Inl err, tab3) \<Rightarrow> (Inl err, tab3)
                            | (Inr as, tab3) \<Rightarrow>
                                (case txSlotFromValue x tab3 of
                                   (Inl err, tab4) \<Rightarrow> (Inl err, tab4)
                                 | (Inr xs, tab4) \<Rightarrow>
                                     (Inr \<lparr>IsRetract = (k \<noteq> DbAdd tab1), opE = es, AttrSym = (case as of TskKw i \<Rightarrow> i | _ \<Rightarrow> 0),
                                           opV = xs, AttrId = 0, VResolved = 0\<rparr>, tab4))))
                | _ \<Rightarrow> (Inl (Error ''wire: tx op must start with a keyword''), tab1)))
      | _ \<Rightarrow> (Inl (Error ''wire: tx op must be a 4-element vector''), tab))"

fun txOpsFromValues :: "Value list \<Rightarrow> SymTab \<Rightarrow> TxWOp list result \<times> SymTab" where
  "txOpsFromValues [] tab = (Inr [], tab)"
| "txOpsFromValues (v # vs) tab =
     (case txOpFromValue v tab of
        (Inl e, tab1) \<Rightarrow> (Inl e, tab1)
      | (Inr op, tab1) \<Rightarrow>
          (case txOpsFromValues vs tab1 of
             (Inl e, tab2) \<Rightarrow> (Inl e, tab2)
           | (Inr ops, tab2) \<Rightarrow> (Inr (op # ops), tab2)))"

definition TxOpsFromValue :: "Value \<Rightarrow> SymTab \<Rightarrow> TxWOp list result \<times> SymTab" where
  "TxOpsFromValue v tab =
     (case v of
        MMap m \<Rightarrow>
          (case Member m (MStr ''txdata'') of
             None \<Rightarrow> (Inl (Error ''wire: tx request is missing txdata''), tab)
           | Some (MArray arr) \<Rightarrow> txOpsFromValues arr tab
           | Some _ \<Rightarrow> (Inl (Error ''wire: txdata must be an array''), tab))
      | _ \<Rightarrow> (Inl (Error ''wire: tx request must be a map''), tab))"

definition TxOpsFromMsgpack :: "bytes \<Rightarrow> SymTab \<Rightarrow> TxWOp list result \<times> SymTab" where
  "TxOpsFromMsgpack data tab = (case Unmarshal data of Inl e \<Rightarrow> (Inl e, tab) | Inr v \<Rightarrow> TxOpsFromValue v tab)"

end
