(* ===== verification/QueryStore.thy ===== *)
theory QueryStore
  imports Recovery Txw
begin

text \<open>
  The query store, \<^verbatim>\<open>src/go/internal/engine/write.go\<close> and the operations of \<^verbatim>\<open>engine.go\<close> that read or change the database: saving
  and retracting values given as s-expressions or as slots of a flat transaction, and lookups. The conversions of
  floats to text and back are parameters; timing counters are left out.
\<close>

unbundle bit_operations_syntax

section \<open>Values as text\<close>

text \<open>\<open>strconv.ParseFloat\<close>, and \<open>strconv.FormatFloat\<close> with the formats g and e and the shortest precision.\<close>

record float_text =
  ftParse :: "string \<Rightarrow> float64 option"
  ftG :: "float64 \<Rightarrow> string"
  ftE :: "float64 \<Rightarrow> string"

text \<open>\<open>numfmt.FloatString\<close>: digits and decimal point of the scientific form, laid out as Nim does.\<close>

definition splitAt :: "char \<Rightarrow> string \<Rightarrow> string \<times> string" where
  "splitAt c s = (takeWhile (\<lambda>x. x \<noteq> c) s, tl (dropWhile (\<lambda>x. x \<noteq> c) s))"

definition layoutDigits :: "string \<Rightarrow> int \<Rightarrow> string" where
  "layoutDigits digits decimalPoint =
     (let numDigits = int (length digits)
      in if -6 \<le> decimalPoint \<and> decimalPoint \<le> 17 then
           (if decimalPoint \<le> 0 then ''0.'' @ replicate (nat (- decimalPoint)) (CHR ''0'') @ digits
            else if decimalPoint < numDigits then take (nat decimalPoint) digits @ ''.'' @ drop (nat decimalPoint) digits
            else digits @ replicate (nat (decimalPoint - numDigits)) (CHR ''0'') @ ''.0'')
         else
           let m = take 1 digits @ (if numDigits > 1 then ''.'' @ drop 1 digits else []);
               x = decimalPoint - 1; a = nat \<bar>x\<bar>;
               d = (\<lambda>n. char_of (48 + n :: nat))
           in m @ ''e'' @ (if x < 0 then ''-'' else ''+'')
              @ (if a < 10 then [d a] else if a < 100 then [d (a div 10), d (a mod 10)] else [d (a div 100), d (a mod 100 div 10), d (a mod 10)]))"

definition FloatString :: "float_text \<Rightarrow> float64 \<Rightarrow> string" where
  "FloatString ft f =
     (if isNaN f then ''nan''
      else if f = 0x7FF0000000000000 then ''inf''
      else if f = 0xFFF0000000000000 then ''-inf''
      else if f = 0x8000000000000000 then ''-0.0''
      else if f = 0 then ''0.0''
      else
        let sci = ftE ft f;
            neg = (sci ! 0 = CHR ''-'');
            (mantissa, ex) = splitAt (CHR ''e'') (if neg then tl sci else sci);
            e = (case ParseInt64 ex of Some n \<Rightarrow> sint n | None \<Rightarrow> 0);
            digits = (case splitAt (CHR ''.'') mantissa of (a, b) \<Rightarrow> a @ b)
        in (if neg then ''-'' else []) @ layoutDigits digits (int (length digits) + (e - (int (length digits) - 1))))"

definition sexprToPackedValue :: "float_text \<Rightarrow> expr \<Rightarrow> string" where
  "sexprToPackedValue ft v =
     (case v of
        SVoid \<Rightarrow> []
      | SInt n \<Rightarrow> FormatInt n
      | SFloat f \<Rightarrow> ftG ft f
      | SStr s \<Rightarrow> s
      | SKeyword s \<Rightarrow> s
      | SBool b \<Rightarrow> if b then ''true'' else ''false''
      | SBytes b \<Rightarrow> string_of b
      | _ \<Rightarrow> [])"

definition sexprToValueForType :: "float_text \<Rightarrow> expr \<Rightarrow> uint32 \<Rightarrow> string" where
  "sexprToValueForType ft v vt =
     (if vt = DbTypeBoolean then (case v of SBool b \<Rightarrow> if b then ''1'' else ''0'' | _ \<Rightarrow> ''0'')
      else if vt = DbTypeBytes \<or> vt = DbTypeBlob then (case v of SBytes b \<Rightarrow> string_of b | _ \<Rightarrow> ''0'')
      else sexprToPackedValue ft v)"

definition slotToPackedValue :: "float_text \<Rightarrow> SymTab \<Rightarrow> TxWSlot \<Rightarrow> string" where
  "slotToPackedValue ft tab v =
     (case v of
        TskInt n \<Rightarrow> FormatInt n
      | TskFloat f \<Rightarrow> FloatString ft f
      | TskStr s \<Rightarrow> s
      | TskKw k \<Rightarrow> SymName k tab
      | TskBool b \<Rightarrow> if b then ''true'' else ''false''
      | TskBytes b \<Rightarrow> string_of b
      | _ \<Rightarrow> [])"

definition SlotToValueForType :: "float_text \<Rightarrow> TxWSlot \<Rightarrow> uint32 \<Rightarrow> SymTab \<Rightarrow> string" where
  "SlotToValueForType ft v vt tab =
     (if vt = DbTypeBoolean then (case v of TskBool b \<Rightarrow> if b then ''1'' else ''0'' | _ \<Rightarrow> ''0'')
      else if vt = DbTypeBytes \<or> vt = DbTypeBlob then (case v of TskBytes b \<Rightarrow> string_of b | _ \<Rightarrow> ''0'')
      else slotToPackedValue ft tab v)"

definition encodePacked :: "float_text \<Rightarrow> string \<Rightarrow> EncodeMode \<Rightarrow> int64 \<Rightarrow> bytes result" where
  "encodePacked ft packed mode eid =
     (if mode = EmRef then
        (case ParseInt64 packed of
           None \<Rightarrow> Inl (Error ''REF value must be an entity id'')
         | Some n \<Rightarrow> EncodeValue (ftParse ft) packed mode n)
      else EncodeValue (ftParse ft) packed mode eid)"

definition encodeSaveValue :: "float_text \<Rightarrow> expr \<Rightarrow> uint32 \<Rightarrow> EncodeMode \<Rightarrow> int64 \<Rightarrow> bytes result" where
  "encodeSaveValue ft v vt mode eid = encodePacked ft (sexprToValueForType ft v vt) mode eid"

definition encodeSaveValueSlot :: "float_text \<Rightarrow> TxWSlot \<Rightarrow> uint32 \<Rightarrow> EncodeMode \<Rightarrow> int64 \<Rightarrow> SymTab \<Rightarrow> bytes result" where
  "encodeSaveValueSlot ft v vt mode eid tab = encodePacked ft (SlotToValueForType ft v vt tab) mode eid"

section \<open>The store\<close>

record 's QueryStore =
  qEavt :: "'s Engine"
  qSymtab :: SymTab
  saveCount :: int64
  lookupCount :: int64
  execCount :: int64

definition NewQueryStore :: "'s Engine \<Rightarrow> 's QueryStore" where
  "NewQueryStore e = \<lparr>qEavt = e, qSymtab = NewSymTab, saveCount = 0, lookupCount = 0, execCount = 0\<rparr>"

definition Counters :: "'s QueryStore \<Rightarrow> int64 \<times> int64 \<times> int64" where
  "Counters q = (saveCount q, lookupCount q, execCount q)"

definition ResetCounters :: "'s QueryStore \<Rightarrow> 's QueryStore" where
  "ResetCounters q = q\<lparr>saveCount := 0, lookupCount := 0, execCount := 0\<rparr>"

abbreviation qResolver :: "'s QueryStore \<Rightarrow> Resolver" where
  "qResolver q \<equiv> eResolver (qEavt q)"

definition IsUniqueAttr :: "string \<Rightarrow> 's QueryStore \<Rightarrow> bool" where
  "IsUniqueAttr name q = (case LookupAttr name (qResolver q) of Some aid \<Rightarrow> IsUnique aid (qResolver q) | None \<Rightarrow> False)"

definition AllocateTx :: "float_text \<Rightarrow> 's kv_ops \<Rightarrow> uint64 \<Rightarrow> 's QueryStore \<Rightarrow> (int64 \<times> 's QueryStore) result" where
  "AllocateTx ft ops now q = rbind (AllocateTAndWriteTx (ftParse ft) ops now (qEavt q)) (\<lambda>(t, e). Inr (t, q\<lparr>qEavt := e\<rparr>))"

definition AllocateTxDeferred :: "'s QueryStore \<Rightarrow> int64 \<times> 's QueryStore" where
  "AllocateTxDeferred q = (case AllocateTDeferred (qEavt q) of (t, e) \<Rightarrow> (t, q\<lparr>qEavt := e\<rparr>))"

definition qAllocateInPartition :: "uint64 \<Rightarrow> 's QueryStore \<Rightarrow> int64 \<times> 's QueryStore" where
  "qAllocateInPartition pid q = (case EngineAllocateInPartition pid (qEavt q) of (x, e) \<Rightarrow> (x, q\<lparr>qEavt := e\<rparr>))"

definition qBatchLookupAvet :: "'s kv_ops \<Rightarrow> bytes list \<Rightarrow> 's QueryStore \<Rightarrow> (int64 list \<times> 's QueryStore) result" where
  "qBatchLookupAvet ops ks q = rbind (BatchLookupAvet ops ks (qEavt q)) (\<lambda>(xs, e). Inr (xs, q\<lparr>qEavt := e\<rparr>))"

definition DeclareAttrFromSQL :: "float_text \<Rightarrow> 's kv_ops \<Rightarrow> string \<Rightarrow> string \<Rightarrow> bool \<Rightarrow> bool \<Rightarrow> 's QueryStore \<Rightarrow> 's QueryStore result" where
  "DeclareAttrFromSQL ft ops attr typeName many unique q =
     rbind (EavtDeclareAttr (ftParse ft) ops attr (ValueTypeFromName typeName) many unique (qEavt q)) (\<lambda>(_, e). Inr (q\<lparr>qEavt := e\<rparr>))"

section \<open>Saving and retracting\<close>

fun retractEntries :: "int64 \<Rightarrow> uint32 \<Rightarrow> int64 \<Rightarrow> EncodeMode \<Rightarrow> bool \<Rightarrow> bytes list \<Rightarrow> EavtEntry list" where
  "retractEntries eid aid t mode indexed [] = []"
| "retractEntries eid aid t mode indexed (ek # eks) =
     (if length ek < 20 then [] else BuildEavtEntries eid aid (slice ek 12 (length ek - 8)) t True mode indexed)
       @ retractEntries eid aid t mode indexed eks"

definition saveResolvedEncodedInto ::
  "'s kv_ops \<Rightarrow> int64 \<Rightarrow> uint32 \<Rightarrow> bool \<Rightarrow> bool \<Rightarrow> EncodeMode \<Rightarrow> bytes \<Rightarrow> int64 \<Rightarrow> EavtEntry list \<Rightarrow> 's Engine \<Rightarrow> (EavtEntry list \<times> 's Engine) result" where
  "saveResolvedEncodedInto ops eid attrID many indexed mode encoded t ens e =
     rbind (if many then Inr ([], e) else ScanPrefixActive ops 0 (eidAttrPrefix eid attrID) e) (\<lambda>(ks, e1).
       Inr (ens @ retractEntries eid attrID t mode indexed ks @ BuildEavtEntries eid attrID encoded t False mode indexed, e1))"

text \<open>The type, cardinality, encoding and indexing of an attribute.\<close>

record opMeta =
  mAttrID :: uint32
  mVt :: uint32
  mMode :: EncodeMode
  mMany :: bool
  mIndexed :: bool

definition metaFor :: "Resolver \<Rightarrow> uint32 \<Rightarrow> opMeta" where
  "metaFor r aid = (let vt = typeOr 0 (ValueTypeFor aid r)
     in \<lparr>mAttrID = aid, mVt = vt, mMode = ValueTypeToEncodeMode vt, mMany = IsMany aid r, mIndexed = IsIndexed aid r\<rparr>)"

text \<open>
  The outer sum is a panic or a search that does not end, the inner one the error that the caller sees; the
  counter is advanced in every case.
\<close>

definition SaveWithT :: "float_text \<Rightarrow> 's kv_ops \<Rightarrow> int64 \<Rightarrow> string \<Rightarrow> expr \<Rightarrow> int64 \<Rightarrow> 's QueryStore \<Rightarrow> (unit result \<times> 's QueryStore) result" where
  "SaveWithT ft ops eid attr v t q =
     (let q1 = q\<lparr>saveCount := saveCount q + 1\<rparr>
      in case LookupAttr attr (qResolver q) of
           None \<Rightarrow> Inr (Inl (Error ''save to undeclared attr''), q1)
         | Some aid \<Rightarrow>
             let m = metaFor (qResolver q) aid
             in case encodeSaveValue ft v (mVt m) (mMode m) eid of
                  Inl err \<Rightarrow> Inr (Inl err, q1)
                | Inr encoded \<Rightarrow>
                    rbind (saveResolvedEncodedInto ops eid aid (mMany m) (mIndexed m) (mMode m) encoded t [] (qEavt q1)) (\<lambda>(ens, e1).
                    rbind (EngineBatchWrite ops ens e1) (\<lambda>e2. Inr (Inr (), q1\<lparr>qEavt := e2\<rparr>))))"

fun repeatsEid :: "(int64 \<times> expr) list \<Rightarrow> int64 set \<Rightarrow> bool" where
  "repeatsEid [] seen = False"
| "repeatsEid ((eid, v) # ps) seen = (eid \<in> seen \<or> repeatsEid ps (insert eid seen))"

text \<open>Repeated entities are saved one by one; what was written before an error stays.\<close>

fun saveEach :: "float_text \<Rightarrow> 's kv_ops \<Rightarrow> opMeta \<Rightarrow> (int64 \<times> expr) list \<Rightarrow> int64 \<Rightarrow> 's Engine \<Rightarrow> (unit result \<times> 's Engine) result" where
  "saveEach ft ops m [] t e = Inr (Inr (), e)"
| "saveEach ft ops m ((eid, v) # ps) t e =
     (case encodeSaveValue ft v (mVt m) (mMode m) eid of
        Inl err \<Rightarrow> Inr (Inl err, e)
      | Inr encoded \<Rightarrow>
          rbind (saveResolvedEncodedInto ops eid (mAttrID m) (mMany m) (mIndexed m) (mMode m) encoded t [] e) (\<lambda>(ens, e1).
          rbind (EngineBatchWrite ops ens e1) (saveEach ft ops m ps t)))"

fun collectSaves :: "float_text \<Rightarrow> 's kv_ops \<Rightarrow> opMeta \<Rightarrow> (int64 \<times> expr) list \<Rightarrow> int64 \<Rightarrow> EavtEntry list \<Rightarrow> 's Engine \<Rightarrow> (EavtEntry list result \<times> 's Engine) result" where
  "collectSaves ft ops m [] t acc e = Inr (Inr acc, e)"
| "collectSaves ft ops m ((eid, v) # ps) t acc e =
     (case encodeSaveValue ft v (mVt m) (mMode m) eid of
        Inl err \<Rightarrow> Inr (Inl err, e)
      | Inr encoded \<Rightarrow>
          rbind (saveResolvedEncodedInto ops eid (mAttrID m) (mMany m) (mIndexed m) (mMode m) encoded t acc e) (\<lambda>(acc1, e1).
            collectSaves ft ops m ps t acc1 e1))"

definition SaveManyWithT :: "float_text \<Rightarrow> 's kv_ops \<Rightarrow> string \<Rightarrow> (int64 \<times> expr) list \<Rightarrow> int64 \<Rightarrow> 's QueryStore \<Rightarrow> (unit result \<times> 's QueryStore) result" where
  "SaveManyWithT ft ops attr ps t q =
     (let q1 = q\<lparr>saveCount := saveCount q + word_of_nat (length ps)\<rparr>
      in case LookupAttr attr (qResolver q) of
           None \<Rightarrow> Inr (Inl (Error ''save-many to undeclared attr''), q1)
         | Some aid \<Rightarrow>
             let m = metaFor (qResolver q) aid;
                 bulk = \<not> (\<not> mMany m \<and> length ps > 1 \<and> repeatsEid ps {})
             in if \<not> bulk then rbind (saveEach ft ops m ps t (qEavt q1)) (\<lambda>(r, e). Inr (r, q1\<lparr>qEavt := e\<rparr>))
                else rbind (collectSaves ft ops m ps t [] (qEavt q1)) (\<lambda>(r, e).
                       case r of
                         Inl err \<Rightarrow> Inr (Inl err, q1\<lparr>qEavt := e\<rparr>)
                       | Inr es \<Rightarrow> rbind (EngineBatchWrite ops es e) (\<lambda>e2. Inr (Inr (), q1\<lparr>qEavt := e2\<rparr>))))"

definition Retract :: "float_text \<Rightarrow> 's kv_ops \<Rightarrow> int64 \<Rightarrow> string \<Rightarrow> expr \<Rightarrow> int64 \<Rightarrow> 's QueryStore \<Rightarrow> (unit result \<times> 's QueryStore) result" where
  "Retract ft ops eid attr v t q =
     (let q1 = q\<lparr>saveCount := saveCount q + 1\<rparr>
      in case LookupAttr attr (qResolver q) of
           None \<Rightarrow> Inr (Inr (), q1)
         | Some aid \<Rightarrow>
             let m = metaFor (qResolver q) aid
             in case encodeSaveValue ft v (mVt m) (mMode m) eid of
                  Inl err \<Rightarrow> Inr (Inl err, q1)
                | Inr encoded \<Rightarrow>
                    rbind (EngineBatchWrite ops (BuildEavtEntries eid aid encoded t True (mMode m) (mIndexed m)) (qEavt q1)) (\<lambda>e.
                      Inr (Inr (), q1\<lparr>qEavt := e\<rparr>)))"

section \<open>Flat transactions\<close>

definition opIsSchema :: "SymTab \<Rightarrow> TxWOp \<Rightarrow> bool" where
  "opIsSchema tab op \<longleftrightarrow> \<not> IsRetract op
     \<and> (AttrSym op = DbIdent tab \<or> AttrSym op = DbType tab \<or> AttrSym op = DbCardinality tab \<or> AttrSym op = DbUnique tab)"

definition effVal :: "TxWOp \<Rightarrow> TxWSlot" where
  "effVal op =
     (case opV op of
        TskInt n \<Rightarrow> if sint n < 0 then TskInt (VResolved op) else opV op
      | TskLookupRef _ _ \<Rightarrow> TskInt (VResolved op)
      | _ \<Rightarrow> opV op)"

text \<open>The field \<open>I\<close> of the entity slot.\<close>

definition slotInt :: "TxWSlot \<Rightarrow> int64" where
  "slotInt s = (case s of TskInt n \<Rightarrow> n | _ \<Rightarrow> 0)"

fun saveOps :: "float_text \<Rightarrow> 's kv_ops \<Rightarrow> SymTab \<Rightarrow> int64 \<Rightarrow> TxWOp list \<Rightarrow> EavtEntry list \<Rightarrow> 's Engine \<Rightarrow> (EavtEntry list \<times> 's Engine) result" where
  "saveOps ft ops tab t [] acc e = Inr (acc, e)"
| "saveOps ft ops tab t (op # txops) acc e =
     (if IsRetract op \<or> AttrId op = 0 \<or> opIsSchema tab op then saveOps ft ops tab t txops acc e
      else
        let m = metaFor (eResolver e) (AttrId op); eid = slotInt (opE op)
        in case encodeSaveValueSlot ft (effVal op) (mVt m) (mMode m) eid tab of
             Inl err \<Rightarrow> saveOps ft ops tab t txops acc e
           | Inr encoded \<Rightarrow>
               rbind (saveResolvedEncodedInto ops eid (mAttrID m) (mMany m) (mIndexed m) (mMode m) encoded t acc e) (\<lambda>(acc1, e1).
                 saveOps ft ops tab t txops acc1 e1))"

definition SaveBatchEdn :: "float_text \<Rightarrow> 's kv_ops \<Rightarrow> uint64 \<Rightarrow> TxWOp list \<Rightarrow> int64 \<Rightarrow> 's QueryStore \<Rightarrow> 's QueryStore result" where
  "SaveBatchEdn ft ops now txops t q =
     rbind (saveOps ft ops (qSymtab q) t txops (TxInstantEntry (ftParse ft) now t) (qEavt q)) (\<lambda>(ens, e1).
     rbind (EngineBatchWrite ops ens e1) (\<lambda>e2.
       Inr (q\<lparr>qEavt := e2, saveCount := saveCount q + word_of_nat (length txops)\<rparr>)))"

fun retractOps :: "float_text \<Rightarrow> SymTab \<Rightarrow> Resolver \<Rightarrow> int64 \<Rightarrow> TxWOp list \<Rightarrow> EavtEntry list" where
  "retractOps ft tab r t [] = []"
| "retractOps ft tab r t (op # txops) =
     (if \<not> IsRetract op \<or> AttrId op = 0 then retractOps ft tab r t txops
      else
        let m = metaFor r (AttrId op); eid = slotInt (opE op)
        in case encodeSaveValueSlot ft (opV op) (mVt m) (mMode m) eid tab of
             Inl err \<Rightarrow> retractOps ft tab r t txops
           | Inr encoded \<Rightarrow> BuildEavtEntries eid (AttrId op) encoded t True (mMode m) (mIndexed m) @ retractOps ft tab r t txops)"

definition RetractBatch :: "float_text \<Rightarrow> 's kv_ops \<Rightarrow> TxWOp list \<Rightarrow> int64 \<Rightarrow> 's QueryStore \<Rightarrow> 's QueryStore result" where
  "RetractBatch ft ops txops t q =
     (let q1 = q\<lparr>saveCount := saveCount q + word_of_nat (length txops)\<rparr>;
          ens = retractOps ft (qSymtab q) (qResolver q) t txops
      in if ens \<noteq> [] then rbind (EngineBatchWrite ops ens (qEavt q1)) (\<lambda>e. Inr (q1\<lparr>qEavt := e\<rparr>)) else Inr q1)"

definition sameValue :: "bytes \<Rightarrow> bytes \<Rightarrow> bool" where
  "sameValue encoded k \<longleftrightarrow> length k \<ge> 20 \<and> slice k 12 (length k - 8) = encoded"

definition HasDatomW :: "float_text \<Rightarrow> 's kv_ops \<Rightarrow> int64 \<Rightarrow> uint32 \<Rightarrow> TxWSlot \<Rightarrow> 's QueryStore \<Rightarrow> (bool \<times> 's QueryStore) result" where
  "HasDatomW ft ops eid attrID v q =
     (let e = qEavt q; m = metaFor (eResolver e) attrID
      in case encodeSaveValueSlot ft v (mVt m) (mMode m) eid (qSymtab q) of
           Inl err \<Rightarrow> Inr (False, q)
         | Inr encoded \<Rightarrow>
             let (hit, hyd) = (if eHydEnabled e then hProbeComplete eid (eHyd e) else (False, eHyd e));
                 e1 = e\<lparr>eHyd := hyd\<rparr>
             in if hit then
                  Inr (hHasAttrKey eid attrID hyd \<and> list_ex (sameValue encoded) (hLookupRange eid (eidAttrPrefix eid attrID @ encoded) hyd),
                       q\<lparr>qEavt := e1\<rparr>)
                else rbind (ScanPrefixActive ops 0 (eidAttrPrefix eid attrID) e1) (\<lambda>(ks, e2).
                       Inr (list_ex (sameValue encoded) ks, q\<lparr>qEavt := e2\<rparr>)))"

section \<open>Lookups\<close>

text \<open>The anchor index first, then the AVET index; \<open>first\<close> picks the key of a scan.\<close>

definition lookupEncoded :: "'s kv_ops \<Rightarrow> (bytes list \<Rightarrow> bytes option) \<Rightarrow> uint32 \<Rightarrow> bytes \<Rightarrow> 's Engine \<Rightarrow> (int64 option \<times> 's Engine) result" where
  "lookupEncoded ops first aid encoded e =
     rbind (terminates (anProbe aid encoded (eAnchors e))) (\<lambda>((eid, ok), an).
       let e1 = e\<lparr>eAnchors := an\<rparr>
       in if ok then rbind (HydrateEID ops eid e1) (\<lambda>e2. Inr (Some eid, e2))
          else rbind (ScanPrefixActive ops 2 (put_be 4 aid @ encoded) e1) (\<lambda>(ks, e2).
            case first ks of
              None \<Rightarrow> Inr (None, e2)
            | Some k \<Rightarrow> let found = DecodeEid (BeUint64 k (length k - 16)) in rbind (HydrateEID ops found e2) (\<lambda>e3. Inr (Some found, e3))))"

definition LookupEntityW :: "float_text \<Rightarrow> 's kv_ops \<Rightarrow> string \<Rightarrow> TxWSlot \<Rightarrow> 's QueryStore \<Rightarrow> (int64 option \<times> 's QueryStore) result" where
  "LookupEntityW ft ops attrName v q =
     (let q1 = q\<lparr>lookupCount := lookupCount q + 1\<rparr>
      in case LookupAttr attrName (qResolver q) of
           None \<Rightarrow> Inr (None, q1)
         | Some aid \<Rightarrow>
             let m = metaFor (qResolver q) aid
             in case EncodeValue (ftParse ft) (SlotToValueForType ft v (mVt m) (qSymtab q)) (mMode m) 0 of
                  Inl err \<Rightarrow> Inr (None, q1)
                | Inr encoded \<Rightarrow> rbind (lookupEncoded ops firstLong aid encoded (qEavt q1)) (\<lambda>(r, e). Inr (r, q1\<lparr>qEavt := e\<rparr>)))"

text \<open>\<open>LookupEntity\<close> looks at the first key of the scan only.\<close>

definition headLong :: "bytes list \<Rightarrow> bytes option" where
  "headLong ks = (case ks of k # _ \<Rightarrow> if length k \<ge> 20 then Some k else None | [] \<Rightarrow> None)"

definition LookupEntity :: "float_text \<Rightarrow> 's kv_ops \<Rightarrow> string \<Rightarrow> expr \<Rightarrow> 's QueryStore \<Rightarrow> (int64 option \<times> 's QueryStore) result" where
  "LookupEntity ft ops attrName v q =
     (let q1 = q\<lparr>lookupCount := lookupCount q + 1\<rparr>
      in case LookupAttr attrName (qResolver q) of
           None \<Rightarrow> Inr (None, q1)
         | Some aid \<Rightarrow>
             let m = metaFor (qResolver q) aid
             in case EncodeValue (ftParse ft) (sexprToValueForType ft v (mVt m)) (mMode m) 0 of
                  Inl err \<Rightarrow> Inr (None, q1)
                | Inr encoded \<Rightarrow> rbind (lookupEncoded ops headLong aid encoded (qEavt q1)) (\<lambda>(r, e). Inr (r, q1\<lparr>qEavt := e\<rparr>)))"

definition LookupValue :: "'s kv_ops \<Rightarrow> int64 \<Rightarrow> string \<Rightarrow> 's QueryStore \<Rightarrow> (expr option \<times> 's QueryStore) result" where
  "LookupValue ops eid attrName q =
     (case LookupAttr attrName (qResolver q) of
        None \<Rightarrow> Inr (None, q)
      | Some aid \<Rightarrow>
          rbind (ScanPrefixActive ops 0 (eidAttrPrefix eid aid) (qEavt q)) (\<lambda>(ks, e).
            case headLong ks of
              None \<Rightarrow> Inr (None, q\<lparr>qEavt := e\<rparr>)
            | Some k \<Rightarrow>
                rbind (HydrateEID ops eid e) (\<lambda>e1.
                  Inr (Some (DecodeStoredValue (slice k 12 (length k - 8)) (typeOr 0 (ValueTypeFor aid (eResolver e)))), q\<lparr>qEavt := e1\<rparr>))))"

end
