(* ===== verification/EdnTx.thy ===== *)
theory EdnTx
  imports QueryStore
begin

text \<open>
  The interpreter of flat transactions, \<^verbatim>\<open>src/go/internal/query/edn_tx.go\<close>, over the query store: a transaction is allocated, its
  schema operations are applied, lookup references and temporary identifiers are resolved, every operation is
  checked and completed, and then all assertions are written in one batch and all retractions in a second one.
\<close>

unbundle bit_operations_syntax

section \<open>Schema operations\<close>

definition dbValueTypes :: "string list" where
  "dbValueTypes = [''string'', ''long'', ''float'', ''boolean'', ''bytes'', ''blob'', ''keyword'', ''ref'', ''instant'']"

definition vtFromKeyword :: "string \<Rightarrow> string result" where
  "vtFromKeyword kw =
     (let n = map lowerChar kw
      in if take 8 n = ''db.type/'' then
           (let vt = drop 8 n in if vt \<in> set dbValueTypes then Inr vt else Inl (Error ''tx: unknown :db/valueType keyword''))
         else Inl (Error ''tx: :db/valueType must be a :db.type/* keyword''))"

definition isSchemaGroupOp :: "SymTab \<Rightarrow> TxWOp \<Rightarrow> bool" where
  "isSchemaGroupOp tab op \<longleftrightarrow> (if IsRetract op then False
     else AttrSym op = DbIdent tab \<or> AttrSym op = DbType tab \<or> AttrSym op = DbCardinality tab \<or> AttrSym op = DbUnique tab)"

definition sameSlotEntity :: "TxWSlot \<Rightarrow> TxWSlot \<Rightarrow> bool" where
  "sameSlotEntity a b =
     (case (a, b) of
        (TskInt x, TskInt y) \<Rightarrow> x = y
      | (TskKw x, TskKw y) \<Rightarrow> x = y
      | _ \<Rightarrow> False)"

record schemaGroup =
  sgIdent :: string
  sgVtName :: string
  sgMany :: bool
  sgUnique :: bool

fun schemaLoop :: "SymTab \<Rightarrow> TxWSlot \<Rightarrow> TxWOp list \<Rightarrow> schemaGroup \<Rightarrow> schemaGroup result" where
  "schemaLoop tab seed [] g = Inr g"
| "schemaLoop tab seed (op # ops) g =
     (if IsRetract op \<or> \<not> isSchemaGroupOp tab op then schemaLoop tab seed ops g
      else if \<not> sameSlotEntity (opE op) seed then schemaLoop tab seed ops g
      else
        let name = SymName (slotSym (opV op)) tab
        in if AttrSym op = DbIdent tab then
             (case opV op of
                TskKw k \<Rightarrow> schemaLoop tab seed ops (g\<lparr>sgIdent := name\<rparr>)
              | _ \<Rightarrow> Inl (Error ''tx: :db/ident value must be a keyword''))
           else if AttrSym op = DbType tab then
             rbind (vtFromKeyword name) (\<lambda>vt. schemaLoop tab seed ops (g\<lparr>sgVtName := vt\<rparr>))
           else if AttrSym op = DbCardinality tab then
             (if name = ''db.cardinality/many'' then schemaLoop tab seed ops (g\<lparr>sgMany := True\<rparr>)
              else if name = ''db.cardinality/one'' then schemaLoop tab seed ops (g\<lparr>sgMany := False\<rparr>)
              else Inl (Error ''tx: unknown :db/cardinality keyword''))
           else
             (if name = ''db.unique/identity'' \<or> name = ''db.unique/value'' then schemaLoop tab seed ops (g\<lparr>sgUnique := True\<rparr>)
              else Inl (Error ''tx: unknown :db/unique keyword'')))"

definition applySchemaGroupTx :: "float_text \<Rightarrow> 's kv_ops \<Rightarrow> TxWOp list \<Rightarrow> TxWSlot \<Rightarrow> 's QueryStore \<Rightarrow> 's QueryStore result" where
  "applySchemaGroupTx ft ops txops seed q =
     rbind (schemaLoop (qSymtab q) seed txops \<lparr>sgIdent = [], sgVtName = ''string'', sgMany = False, sgUnique = False\<rparr>) (\<lambda>g.
       if sgIdent g = [] then Inl (Error ''tx: schema entity has no :db/ident'')
       else DeclareAttrFromSQL ft ops (sgIdent g) (sgVtName g) (sgMany g) (sgUnique g) q)"

text \<open>The groups before a failing one stay declared, so the state is part of the result.\<close>

fun applySchemas :: "float_text \<Rightarrow> 's kv_ops \<Rightarrow> TxWOp list \<Rightarrow> TxWOp list \<Rightarrow> 's QueryStore \<Rightarrow> unit result \<times> 's QueryStore" where
  "applySchemas ft ops txops [] q = (Inr (), q)"
| "applySchemas ft ops txops (op # rest) q =
     (if \<not> IsRetract op \<and> AttrSym op = DbIdent (qSymtab q) then
        (case applySchemaGroupTx ft ops txops (opE op) q of
           Inl e \<Rightarrow> (Inl e, q)
         | Inr q1 \<Rightarrow> applySchemas ft ops txops rest q1)
      else applySchemas ft ops txops rest q)"

section \<open>The attribute cache\<close>

definition maxTxAttrs :: nat where
  "maxTxAttrs = 128"

record attrE =
  aeSym :: uint32
  aeName :: string
  aeAttrID :: uint32
  aeUnique :: bool
  aeDeclared :: bool
  aeVt :: uint32
  aeMode :: EncodeMode

definition emptyAttr :: attrE where
  "emptyAttr = \<lparr>aeSym = 0, aeName = [], aeAttrID = 0, aeUnique = False, aeDeclared = False, aeVt = 0, aeMode = EmRef\<rparr>"

text \<open>Linear probing from the symbol modulo the size; \<open>-2\<close> is a full table.\<close>

fun internProbe :: "uint32 \<Rightarrow> string \<Rightarrow> nat list \<Rightarrow> attrE list \<Rightarrow> int \<times> attrE list" where
  "internProbe sy name [] cache = (-2, cache)"
| "internProbe sy name (j # js) cache =
     (if aeSym (cache ! j) = 0 then (int j, cache[j := (cache ! j)\<lparr>aeSym := sy, aeName := name\<rparr>])
      else if aeSym (cache ! j) = sy then (int j, cache)
      else internProbe sy name js cache)"

definition internAttr :: "uint32 \<Rightarrow> string \<Rightarrow> attrE list \<Rightarrow> int \<times> attrE list" where
  "internAttr sy name cache =
     internProbe sy name (map (\<lambda>k. (unat sy mod maxTxAttrs + k) mod maxTxAttrs) [0..<maxTxAttrs]) cache"

definition refreshAttr :: "Resolver \<Rightarrow> attrE \<Rightarrow> attrE" where
  "refreshAttr r c =
     (if \<not> aeDeclared c then
        (case LookupAttr (aeName c) r of
           None \<Rightarrow> c
         | Some aid \<Rightarrow>
             let vt = typeOr 0 (ValueTypeFor aid r)
             in c\<lparr>aeAttrID := aid, aeUnique := IsUnique aid r, aeVt := vt, aeMode := ValueTypeToEncodeMode vt, aeDeclared := True\<rparr>)
      else c)"

definition refreshCache :: "Resolver \<Rightarrow> attrE list \<Rightarrow> attrE list" where
  "refreshCache r cache = map (\<lambda>c. if aeSym c \<noteq> 0 then refreshAttr r c else c) cache"

text \<open>The slots of the attributes of the operations, and the smallest and largest temporary identifier.\<close>

definition noteTid :: "TxWSlot \<Rightarrow> (int64 \<times> int64) option \<Rightarrow> (int64 \<times> int64) option" where
  "noteTid s tids =
     (case s of
        TskInt n \<Rightarrow>
          if sint n < 0 then
            (case tids of
               None \<Rightarrow> Some (n, n)
             | Some (lo, hi) \<Rightarrow> Some (if sint n < sint lo then n else lo, if sint n > sint hi then n else hi))
          else tids
      | _ \<Rightarrow> tids)"

fun surveyOps :: "SymTab \<Rightarrow> TxWOp list \<Rightarrow> attrE list \<Rightarrow> (int64 \<times> int64) option \<Rightarrow> int list \<times> attrE list \<times> (int64 \<times> int64) option" where
  "surveyOps tab [] cache tids = ([], cache, tids)"
| "surveyOps tab (op # ops) cache tids =
     (let (slot, cache1) = (if AttrSym op = 0 then (-1, cache) else internAttr (AttrSym op) (SymName (AttrSym op) tab) cache);
          (slots, cache2, tids1) = surveyOps tab ops cache1 (noteTid (opV op) (noteTid (opE op) tids))
      in (slot # slots, cache2, tids1))"

section \<open>Lookup keys\<close>

definition keyFor :: "float_text \<Rightarrow> SymTab \<Rightarrow> attrE \<Rightarrow> TxWSlot \<Rightarrow> bytes" where
  "keyFor ft tab c v = put_be 4 (aeAttrID c) @ orZero [] (EncodeValue (ftParse ft) (SlotToValueForType ft v (aeVt c) tab) (aeMode c) 0)"

definition slotOf :: "Resolver \<Rightarrow> SymTab \<Rightarrow> uint32 \<Rightarrow> attrE list \<Rightarrow> int \<times> attrE list" where
  "slotOf r tab sy cache =
     (case internAttr sy (SymName sy tab) cache of
        (j, cache1) \<Rightarrow> if j = -2 then (-2, cache1) else (j, cache1[nat j := refreshAttr r (cache1 ! nat j)]))"

text \<open>
  One operation can ask for up to three keys: for the entity of a new unique value, for a lookup reference in the
  entity slot and for one in the value slot. It has one owner entry, the position of the last key it asked for.
\<close>

definition refKey :: "float_text \<Rightarrow> Resolver \<Rightarrow> SymTab \<Rightarrow> TxWSlot \<Rightarrow> bytes list \<Rightarrow> int \<Rightarrow> attrE list \<Rightarrow> bytes list \<times> int \<times> attrE list" where
  "refKey ft r tab s ks owner cache =
     (case s of
        TskLookupRef sy v \<Rightarrow>
          (case slotOf r tab sy cache of
             (j, cache1) \<Rightarrow>
               if j \<ge> 0 \<and> aeDeclared (cache1 ! nat j) \<and> aeUnique (cache1 ! nat j)
               then (ks @ [keyFor ft tab (cache1 ! nat j) v], int (length ks), cache1)
               else (ks, owner, cache1))
      | _ \<Rightarrow> (ks, owner, cache))"

definition opKeys :: "float_text \<Rightarrow> Resolver \<Rightarrow> SymTab \<Rightarrow> TxWOp \<Rightarrow> int \<Rightarrow> bytes list \<Rightarrow> attrE list \<Rightarrow> bytes list \<times> int \<times> attrE list" where
  "opKeys ft r tab op aSlot ks cache =
     (let (ks1, owner1) =
            (case opE op of
               TskInt n \<Rightarrow>
                 if \<not> IsRetract op \<and> sint n < 0 \<and> AttrSym op \<noteq> 0 \<and> aSlot \<ge> 0 \<and> aeUnique (cache ! nat aSlot)
                 then (ks @ [keyFor ft tab (cache ! nat aSlot) (opV op)], int (length ks)) else (ks, -1)
             | _ \<Rightarrow> (ks, -1));
          (ks2, owner2, cache2) = refKey ft r tab (opE op) ks1 owner1 cache
      in refKey ft r tab (opV op) ks2 owner2 cache2)"

fun lookupPass :: "float_text \<Rightarrow> Resolver \<Rightarrow> SymTab \<Rightarrow> TxWOp list \<Rightarrow> int list \<Rightarrow> bytes list \<Rightarrow> attrE list \<Rightarrow> bytes list \<times> int list \<times> attrE list" where
  "lookupPass ft r tab (op # ops) (a # as) ks cache =
     (let (ks1, owner, cache1) = opKeys ft r tab op a ks cache;
          (ks2, owners, cache2) = lookupPass ft r tab ops as ks1 cache1
      in (ks2, owner # owners, cache2))"
| "lookupPass ft r tab _ _ ks cache = (ks, [], cache)"

section \<open>Temporary identifiers\<close>

definition isTid :: "TxWSlot \<Rightarrow> bool" where
  "isTid s = (case s of TskInt n \<Rightarrow> sint n < 0 | _ \<Rightarrow> False)"

definition tidIndex :: "int64 \<Rightarrow> TxWSlot \<Rightarrow> nat" where
  "tidIndex minTid s = unat (slotInt s - minTid)"

text \<open>The first assertion with a unique key for a temporary identifier decides; the entry is its position plus one.\<close>

fun anchorOps :: "int64 \<Rightarrow> nat \<Rightarrow> TxWOp list \<Rightarrow> int list \<Rightarrow> nat list \<Rightarrow> nat list" where
  "anchorOps minTid i (op # ops) (owner # owners) an =
     anchorOps minTid (i + 1) ops owners
       (if IsRetract op \<or> \<not> isTid (opE op) \<or> owner < 0 then an
        else if an ! tidIndex minTid (opE op) = 0 then an[tidIndex minTid (opE op) := i + 1] else an)"
| "anchorOps minTid i _ _ an = an"

record tidState =
  anchorEid :: "int64 list"
  freshTid :: "bool list"
  resolvedTids :: "int64 \<rightharpoonup> int64"

fun resolveTids :: "int64 \<Rightarrow> TxWOp list \<Rightarrow> int list \<Rightarrow> nat list \<Rightarrow> int64 list \<Rightarrow> tidState \<Rightarrow> 's QueryStore \<Rightarrow> tidState \<times> 's QueryStore" where
  "resolveTids minTid [] owners an results ts q = (ts, q)"
| "resolveTids minTid (op # ops) owners an results ts q =
     (let idx = tidIndex minTid (opE op)
      in if \<not> isTid (opE op) \<or> anchorEid ts ! idx \<noteq> 0 then resolveTids minTid ops owners an results ts q
         else
           let aop = an ! idx;
               owner = owners ! (aop - 1);
               found = (if aop \<noteq> 0 \<and> owner \<ge> 0 then results ! nat owner else 0);
               (eid, q1) = (if found \<noteq> 0 then (found, q) else qAllocateInPartition PartUser q)
           in resolveTids minTid ops owners an results
                (ts\<lparr>anchorEid := (anchorEid ts)[idx := eid], freshTid := (freshTid ts)[idx := True],
                    resolvedTids := (resolvedTids ts)(slotInt (opE op) \<mapsto> eid)\<rparr>) q1)"

section \<open>The apply pass\<close>

definition checkRetract :: "SymTab \<Rightarrow> TxWOp \<Rightarrow> unit result" where
  "checkRetract tab op =
     (if \<not> IsRetract op then Inr ()
      else if opE op = TskKw (DbCurrentTx tab) then Inl (Error ''tx: :db/retract on :db/current-tx is not allowed'')
      else if AttrSym op = 0 then Inl (Error ''tx: expected keyword for attribute'')
      else if (case opV op of TskKw _ \<Rightarrow> True | TskLookupRef _ _ \<Rightarrow> True | TskInt n \<Rightarrow> sint n < 0 | _ \<Rightarrow> False)
        then Inl (Error ''tx: :db/retract requires a concrete scalar value'')
      else if isTid (opE op) then Inl (Error ''tx: :db/retract does not take a tempid'')
      else Inr ())"

definition attrOfOp :: "Resolver \<Rightarrow> SymTab \<Rightarrow> attrE list \<Rightarrow> int \<Rightarrow> TxWOp \<Rightarrow> TxWOp result" where
  "attrOfOp r tab cache aSlot op =
     (if aSlot \<ge> 0 then
        (if \<not> aeDeclared (cache ! nat aSlot) \<and> \<not> IsRetract op then Inl (Error ''save to undeclared attr'')
         else Inr (op\<lparr>AttrId := aeAttrID (cache ! nat aSlot)\<rparr>))
      else if aSlot = -2 then
        (case LookupAttr (SymName (AttrSym op) tab) r of
           Some aid \<Rightarrow> Inr (op\<lparr>AttrId := aid\<rparr>)
         | None \<Rightarrow> if IsRetract op then Inr (op\<lparr>AttrId := 0\<rparr>) else Inl (Error ''save to undeclared attr''))
      else Inr op)"

definition foundFor :: "int \<Rightarrow> int64 list \<Rightarrow> int64" where
  "foundFor owner results = (if owner \<ge> 0 then results ! nat owner else 0)"

text \<open>\<open>tids\<close> holds the smallest and the largest temporary identifier and the entities they stand for.\<close>

definition entityOfOp :: "SymTab \<Rightarrow> int64 \<Rightarrow> (int64 \<times> int64) option \<Rightarrow> int64 list \<Rightarrow> int64 \<Rightarrow> TxWOp \<Rightarrow> TxWOp result" where
  "entityOfOp tab txEid tids eids found op =
     (case opE op of
        TskInt n \<Rightarrow>
          (if sint n < 0 then
             (case tids of
                Some (lo, hi) \<Rightarrow> Inr (op\<lparr>opE := TskInt (eids ! tidIndex lo (opE op))\<rparr>)
              | None \<Rightarrow> Inl (Panic ''index out of range''))
           else Inr op)
      | TskKw k \<Rightarrow> if k = DbCurrentTx tab then Inr (op\<lparr>opE := TskInt txEid\<rparr>) else Inl (Error ''tx: cannot resolve e slot'')
      | TskLookupRef _ _ \<Rightarrow>
          if found = 0 then Inl (Error ''tx: lookup ref did not match any entity'') else Inr (op\<lparr>opE := TskInt found\<rparr>)
      | _ \<Rightarrow> Inl (Error ''tx: cannot resolve e slot''))"

definition valueOfOp :: "(int64 \<times> int64) option \<Rightarrow> int64 list \<Rightarrow> int64 \<Rightarrow> TxWOp \<Rightarrow> TxWOp result" where
  "valueOfOp tids eids found op =
     (case opV op of
        TskInt n \<Rightarrow>
          (if sint n < 0 then
             (case tids of
                None \<Rightarrow> Inl (Error ''tx: tempid referenced in v slot but never allocated'')
              | Some (lo, hi) \<Rightarrow>
                  if sint n < sint lo \<or> sint n > sint hi \<or> eids ! tidIndex lo (opV op) = 0
                  then Inl (Error ''tx: tempid referenced in v slot but never allocated'')
                  else Inr (op\<lparr>VResolved := eids ! tidIndex lo (opV op)\<rparr>))
           else Inr op)
      | TskLookupRef _ _ \<Rightarrow>
          if found = 0 then Inl (Error ''tx: lookup ref did not match any entity'') else Inr (op\<lparr>VResolved := found\<rparr>)
      | _ \<Rightarrow> Inr op)"

text \<open>Whether the entity was made in this transaction: its number is taken for the index of a temporary identifier.\<close>

definition isFresh :: "(int64 \<times> int64) option \<Rightarrow> bool list \<Rightarrow> int64 \<Rightarrow> bool" where
  "isFresh tids fresh eid =
     (case tids of
        None \<Rightarrow> False
      | Some (lo, hi) \<Rightarrow>
          sint eid \<ge> 0 \<and> (let fi = sint (eid - lo) in fi \<ge> 0 \<and> fi < int (length fresh) \<and> fresh ! nat fi))"

definition dropKnown :: "float_text \<Rightarrow> 's kv_ops \<Rightarrow> (int64 \<times> int64) option \<Rightarrow> bool list \<Rightarrow> TxWOp \<Rightarrow> 's QueryStore \<Rightarrow> (TxWOp \<times> 's QueryStore) result" where
  "dropKnown ft ops tids fresh op q =
     (if \<not> IsRetract op \<and> AttrId op \<noteq> 0 \<and> \<not> isFresh tids fresh (slotInt (opE op)) then
        rbind (HasDatomW ft ops (slotInt (opE op)) (AttrId op) (effVal op) q) (\<lambda>(has, q1).
          Inr (if has then op\<lparr>AttrId := 0\<rparr> else op, q1))
      else Inr (op, q))"

definition applyOp ::
  "float_text \<Rightarrow> 's kv_ops \<Rightarrow> attrE list \<Rightarrow> int64 \<Rightarrow> (int64 \<times> int64) option \<Rightarrow> tidState \<Rightarrow> int64 list \<Rightarrow> int \<Rightarrow> int \<Rightarrow> TxWOp \<Rightarrow> 's QueryStore \<Rightarrow> (TxWOp result \<times> 's QueryStore) result" where
  "applyOp ft ops cache txEid tids ts results aSlot owner op q =
     (let tab = qSymtab q; found = foundFor owner results
      in if isSchemaGroupOp tab op then Inr (Inr op, q)
         else case rbind (checkRetract tab op) (\<lambda>_.
                   rbind (attrOfOp (qResolver q) tab cache aSlot op) (\<lambda>op1.
                   rbind (entityOfOp tab txEid tids (anchorEid ts) found op1) (\<lambda>op2.
                     valueOfOp tids (anchorEid ts) found op2))) of
                Inl e \<Rightarrow> Inr (Inl e, q)
              | Inr op3 \<Rightarrow> rbind (dropKnown ft ops tids (freshTid ts) op3 q) (\<lambda>(op4, q1). Inr (Inr op4, q1)))"

fun applyPass ::
  "float_text \<Rightarrow> 's kv_ops \<Rightarrow> attrE list \<Rightarrow> int64 \<Rightarrow> (int64 \<times> int64) option \<Rightarrow> tidState \<Rightarrow> int64 list \<Rightarrow> int list \<Rightarrow> int list \<Rightarrow> TxWOp list \<Rightarrow> 's QueryStore \<Rightarrow> (TxWOp list result \<times> 's QueryStore) result" where
  "applyPass ft ops cache txEid tids ts results (a # as) (owner # owners) (op # txops) q =
     rbind (applyOp ft ops cache txEid tids ts results a owner op q) (\<lambda>(r, q1).
       case r of
         Inl e \<Rightarrow> Inr (Inl e, q1)
       | Inr op1 \<Rightarrow>
           rbind (applyPass ft ops cache txEid tids ts results as owners txops q1) (\<lambda>(r2, q2).
             Inr (case r2 of Inl e \<Rightarrow> Inl e | Inr ops1 \<Rightarrow> Inr (op1 # ops1), q2)))"
| "applyPass ft ops cache txEid tids ts results _ _ _ q = Inr (Inr [], q)"

section \<open>The transaction\<close>

record TxReport =
  rTempids :: "int64 \<rightharpoonup> int64"
  rTx :: int64

definition maxTidSpan :: int where
  "maxTidSpan = 1000000"

text \<open>The tables of the temporary identifiers; \<open>make\<close> panics on a negative length.\<close>

definition tidTables :: "(int64 \<times> int64) option \<Rightarrow> nat result" where
  "tidTables tids =
     (case tids of
        None \<Rightarrow> Inr 0
      | Some (lo, hi) \<Rightarrow>
          let span = sint (hi - lo + 1)
          in if span > maxTidSpan then Inl (Error ''tx: tempid span too large'')
             else if span < 0 then Inl (Panic ''makeslice: len out of range'')
             else Inr (nat span))"

definition TransactTx :: "float_text \<Rightarrow> 's kv_ops \<Rightarrow> uint64 \<Rightarrow> TxWOp list \<Rightarrow> 's QueryStore \<Rightarrow> (TxReport result \<times> 's QueryStore) result" where
  "TransactTx ft ops now txops q =
     (if txops = [] then Inr (Inl (Error ''tx: empty txdata''), q)
      else
        let tab = qSymtab q;
            (slots, cache0, tids) = surveyOps tab txops (replicate maxTxAttrs emptyAttr) None;
            (txEid, q1) = AllocateTxDeferred q
        in case applySchemas ft ops txops txops q1 of
             (Inl e, q2) \<Rightarrow> Inr (Inl e, q2)
           | (Inr _, q2) \<Rightarrow>
               let (ks, owners, cache) = lookupPass ft (qResolver q2) tab txops slots [] (refreshCache (qResolver q2) cache0)
               in rbind (qBatchLookupAvet ops ks q2) (\<lambda>(results, q3).
                  case tidTables tids of
                    Inl (Panic p) \<Rightarrow> Inl (Panic p)
                  | Inl e \<Rightarrow> Inr (Inl e, q3)
                  | Inr span \<Rightarrow>
                      let lo = (case tids of Some (l, h) \<Rightarrow> l | None \<Rightarrow> 0);
                          an = anchorOps lo 0 txops owners (replicate span 0);
                          (ts, q4) = resolveTids lo txops owners an results
                            \<lparr>anchorEid = replicate span 0, freshTid = replicate span False, resolvedTids = Map.empty\<rparr> q3
                      in rbind (applyPass ft ops cache txEid tids ts results slots owners txops q4) (\<lambda>(r, q5).
                         case r of
                           Inl e \<Rightarrow> Inr (Inl e, q5)
                         | Inr txops1 \<Rightarrow>
                             rbind (SaveBatchEdn ft ops now txops1 txEid q5) (\<lambda>q6.
                             rbind (RetractBatch ft ops txops1 txEid q6) (\<lambda>q7.
                               Inr (Inr \<lparr>rTempids = resolvedTids ts, rTx = txEid\<rparr>, q7))))))"

end
