(* ===== verification/TxLaws.thy ===== *)
theory TxLaws
  imports EdnTx
begin

text \<open>
  Laws of flat transactions over a store that behaves as sets of keys. A transaction without schema operations that
  fails has written nothing; lookup references on both sides of an operation are confused, extreme temporary
  identifiers panic, and two values of a cardinality-one attribute in one transaction are both active.
\<close>

unbundle bit_operations_syntax

section \<open>Reads keep the keys\<close>

definition holdsKeys :: "('s \<Rightarrow> (nat \<Rightarrow> bytes set) \<Rightarrow> bool) \<Rightarrow> 's Engine \<Rightarrow> (nat \<Rightarrow> bytes set) \<Rightarrow> bool" where
  "holdsKeys st e K \<longleftrightarrow> st (eKV e) K \<and> anchorOk (eAnchors e)"

lemma allocate_holds: "holdsKeys st (snd (allocate p e)) K \<longleftrightarrow> holdsKeys st e K"
  by (auto simp: allocate_def holdsKeys_def split: prod.splits)

lemma AllocateTxDeferred_holds: "holdsKeys st (qEavt (snd (AllocateTxDeferred q))) K \<longleftrightarrow> holdsKeys st (qEavt q) K"
  using allocate_holds [of st PartTx "qEavt q" K] by (simp add: AllocateTxDeferred_def AllocateTDeferred_def case_prod_beta)

lemma qAllocateInPartition_holds: "holdsKeys st (qEavt (snd (qAllocateInPartition p q))) K \<longleftrightarrow> holdsKeys st (qEavt q) K"
  using allocate_holds [of st p "qEavt q" K]
  by (simp add: qAllocateInPartition_def EngineAllocateInPartition_def case_prod_beta) (simp add: holdsKeys_def)

lemma resolveTids_holds:
  "holdsKeys st (qEavt q) K \<Longrightarrow> holdsKeys st (qEavt (snd (resolveTids lo ops owners an results ts q))) K"
proof (induction ops arbitrary: ts q)
  case (Cons op ops)
  then show ?case using qAllocateInPartition_holds [of st PartUser q K] by (auto simp: Let_def split: prod.splits)
qed simp

context kv_store
begin

lemma ScanPrefix_holds:
  assumes "holdsKeys stands e K" "cf < 4"
  shows "\<exists>ks e'. ScanPrefix ops cf p e = Inr (ks, e') \<and> holdsKeys stands e' K"
  using scan [of "eKV e" K cf p] assms by (auto simp: ScanPrefix_def holdsKeys_def)

lemma ScanPrefixActive_holds:
  assumes "holdsKeys stands e K" "cf < 4"
  shows "\<exists>ks e'. ScanPrefixActive ops cf p e = Inr (ks, e') \<and> holdsKeys stands e' K"
proof -
  define hh where "hh = (if eHydEnabled e \<and> cf = 0 \<and> length p \<ge> 8 then hProbeComplete (DecodeEid (BeUint64 p 0)) (eHyd e) else (False, eHyd e))"
  have split: "ScanPrefixActive ops cf p e = (if fst hh then Inr (hLookupRange (DecodeEid (BeUint64 p 0)) p (snd hh), e\<lparr>eHyd := snd hh\<rparr>)
      else rbind (ScanPrefix ops cf p (e\<lparr>eHyd := snd hh\<rparr>)) (\<lambda>(c, e2). Inr (activeKeys c, e2)))"
    by (simp add: ScanPrefixActive_def hh_def Let_def case_prod_beta)
  have h: "holdsKeys stands (e\<lparr>eHyd := snd hh\<rparr>) K" using assms(1) by (simp add: holdsKeys_def)
  obtain ks e' where "ScanPrefix ops cf p (e\<lparr>eHyd := snd hh\<rparr>) = Inr (ks, e')" "holdsKeys stands e' K"
    using ScanPrefix_holds [OF h assms(2), of p] by blast
  then show ?thesis using split h by (cases "fst hh") simp_all
qed

lemma probeAnchors_ok: "anchorOk an \<Longrightarrow> \<exists>out' miss an'. probeAnchors ks an out = Inr (out', miss, an') \<and> anchorOk an'"
proof (induction ks arbitrary: an out)
  case (Cons k ks)
  obtain i b where k: "k = (i, b)" by (cases k)
  obtain eid ok an1 where p: "anProbe (BeUint32 b 0) (drop 4 b) an = Some ((eid, ok), an1)" "anchorOk an1"
    using probe_ok [OF Cons.prems, of "BeUint32 b 0" "drop 4 b"] by (metis prod.collapse)
  obtain o1 m1 a1 where 1: "probeAnchors ks an1 out = Inr (o1, m1, a1)" "anchorOk a1" using Cons.IH [OF p(2)] by blast
  obtain o2 m2 a2 where 2: "probeAnchors ks an1 (out[i := eid]) = Inr (o2, m2, a2)" "anchorOk a2" using Cons.IH [OF p(2)] by blast
  obtain o3 m3 a3 where 3: "probeAnchors ks an out = Inr (o3, m3, a3)" "anchorOk a3" using Cons.IH [OF Cons.prems] by blast
  show ?case using p(1) 1 2 3 by (simp add: k terminates_def)
qed simp

lemma scanMisses_holds: "holdsKeys stands e K \<Longrightarrow> \<exists>out' e'. scanMisses ops ms prev out e = Inr (out', e') \<and> holdsKeys stands e' K"
proof (induction ms arbitrary: prev out e)
  case (Cons m ms)
  obtain i k where m: "m = (i, k)" by (cases m)
  obtain ks e1 where s: "ScanPrefixActive ops 2 k e = Inr (ks, e1)" "holdsKeys stands e1 K"
    using ScanPrefixActive_holds [OF Cons.prems, of 2 k] by auto
  note IH1 = Cons.IH [OF s(2)] and IH2 = Cons.IH [OF Cons.prems]
  show ?case using s(1) IH1 IH2 by (auto simp: m split: option.split)
qed simp

lemma BatchLookupAvet_holds:
  assumes "holdsKeys stands e K"
  shows "\<exists>out e'. BatchLookupAvet ops ks e = Inr (out, e') \<and> holdsKeys stands e' K"
proof -
  have "anchorOk (eAnchors e)" using assms by (simp add: holdsKeys_def)
  from probeAnchors_ok [OF this] obtain out miss an where p: "probeAnchors (enumerate 0 ks) (eAnchors e) (replicate (length ks) 0) = Inr (out, miss, an)" "anchorOk an"
    by blast
  have "holdsKeys stands (e\<lparr>eAnchors := an\<rparr>) K" using assms p(2) by (simp add: holdsKeys_def)
  then show ?thesis using assms p(1) scanMisses_holds by (fastforce simp: BatchLookupAvet_def Let_def)
qed

lemma HasDatomW_holds:
  assumes "holdsKeys stands (qEavt q) K"
  shows "\<exists>b q'. HasDatomW ft ops eid aid v q = Inr (b, q') \<and> holdsKeys stands (qEavt q') K \<and> qSymtab q' = qSymtab q"
proof (cases "encodeSaveValueSlot ft v (mVt (metaFor (qResolver q) aid)) (mMode (metaFor (qResolver q) aid)) eid (qSymtab q)")
  case (Inl err)
  then show ?thesis using assms by (intro exI [of _ False] exI [of _ q]) (simp add: HasDatomW_def Let_def)
next
  case (Inr x)
  let ?e = "qEavt q"
  define hh where "hh = (if eHydEnabled ?e then hProbeComplete eid (eHyd ?e) else (False, eHyd ?e))"
  have split: "HasDatomW ft ops eid aid v q = (if fst hh then
        Inr (hHasAttrKey eid aid (snd hh) \<and> list_ex (sameValue x) (hLookupRange eid (eidAttrPrefix eid aid @ x) (snd hh)), q\<lparr>qEavt := ?e\<lparr>eHyd := snd hh\<rparr>\<rparr>)
      else rbind (ScanPrefixActive ops 0 (eidAttrPrefix eid aid) (?e\<lparr>eHyd := snd hh\<rparr>)) (\<lambda>(ks, e2). Inr (list_ex (sameValue x) ks, q\<lparr>qEavt := e2\<rparr>)))"
    using Inr by (simp add: HasDatomW_def hh_def Let_def case_prod_beta)
  have h: "holdsKeys stands (?e\<lparr>eHyd := snd hh\<rparr>) K" using assms by (simp add: holdsKeys_def)
  obtain ks e' where "ScanPrefixActive ops 0 (eidAttrPrefix eid aid) (?e\<lparr>eHyd := snd hh\<rparr>) = Inr (ks, e')" "holdsKeys stands e' K"
    using ScanPrefixActive_holds [OF h, of 0 "eidAttrPrefix eid aid"] by auto
  then show ?thesis using split h by (cases "fst hh") simp_all
qed

lemma applyOp_holds:
  assumes "holdsKeys stands (qEavt q) K"
  shows "\<exists>r q'. applyOp ft ops cache tx tids ts results a owner op q = Inr (r, q') \<and> holdsKeys stands (qEavt q') K"
proof -
  have d: "\<exists>o' q'. dropKnown ft ops tids f op3 q = Inr (o', q') \<and> holdsKeys stands (qEavt q') K" for f op3
    using HasDatomW_holds [OF assms, of ft "slotInt (opE op3)" "AttrId op3" "effVal op3"] assms by (auto simp: dropKnown_def)
  let ?found = "foundFor owner results"
  define x where "x = rbind (checkRetract (qSymtab q) op) (\<lambda>_. rbind (attrOfOp (qResolver q) (qSymtab q) cache a op) (\<lambda>op1.
      rbind (entityOfOp (qSymtab q) tx tids (anchorEid ts) ?found op1) (valueOfOp tids (anchorEid ts) ?found)))"
  have split: "applyOp ft ops cache tx tids ts results a owner op q = (if isSchemaGroupOp (qSymtab q) op then Inr (Inr op, q)
      else case x of Inl e \<Rightarrow> Inr (Inl e, q)
           | Inr op3 \<Rightarrow> rbind (dropKnown ft ops tids (freshTid ts) op3 q) (\<lambda>(op4, q1). Inr (Inr op4, q1)))"
    by (simp add: applyOp_def x_def Let_def)
  show ?thesis
  proof (cases x)
    case (Inl e)
    then show ?thesis using split assms by simp
  next
    case (Inr op3)
    obtain o' q' where "dropKnown ft ops tids (freshTid ts) op3 q = Inr (o', q')" "holdsKeys stands (qEavt q') K" using d by blast
    then show ?thesis using Inr split assms by simp
  qed
qed

lemma applyPass_holds:
  "holdsKeys stands (qEavt q) K \<Longrightarrow> \<exists>r q'. applyPass ft ops cache tx tids ts results as owners txops q = Inr (r, q') \<and> holdsKeys stands (qEavt q') K"
proof (induction txops arbitrary: as owners q)
  case (Cons op txops)
  show ?case
  proof (cases "as = [] \<or> owners = []")
    case True
    then show ?thesis using Cons.prems by (cases as) auto
  next
    case False
    then obtain a as' o' owners' where l: "as = a # as'" "owners = o' # owners'" by (meson neq_Nil_conv)
    obtain r q1 where 1: "applyOp ft ops cache tx tids ts results a o' op q = Inr (r, q1)" "holdsKeys stands (qEavt q1) K"
      using applyOp_holds [OF Cons.prems, of ft cache tx tids ts results a o' op] by blast
    obtain r2 q2 where "applyPass ft ops cache tx tids ts results as' owners' txops q1 = Inr (r2, q2)" "holdsKeys stands (qEavt q2) K"
      using Cons.IH [OF 1(2)] by blast
    then show ?thesis using 1 l by (auto split: sum.split)
  qed
qed auto

text \<open>A transaction without schema operations up to the point where it writes.\<close>

lemma no_schemas: "\<forall>op \<in> set rest. IsRetract op \<or> AttrSym op \<noteq> DbIdent (qSymtab q) \<Longrightarrow> applySchemas ft ops txops rest q = (Inr (), q)"
  by (induction rest) auto

lemma TransactTx_prefix:
  assumes "holdsKeys stands (qEavt q) K" "txops \<noteq> []" "\<forall>op \<in> set txops. IsRetract op \<or> AttrSym op \<noteq> DbIdent (qSymtab q)"
  shows "\<exists>r q5 (save :: TxWOp list \<Rightarrow> 's QueryStore \<Rightarrow> (TxReport result \<times> 's QueryStore) result) slots cache tids.
    surveyOps (qSymtab q) txops (replicate maxTxAttrs emptyAttr) None = (slots, cache, tids) \<and> holdsKeys stands (qEavt q5) K
    \<and> TransactTx ft ops now txops q = (case tidTables tids of
        Inl (Panic p) \<Rightarrow> Inl (Panic p)
      | Inl (Error x) \<Rightarrow> Inr (Inl (Error x), q5)
      | Inr _ \<Rightarrow> (case r of Inl e \<Rightarrow> Inr (Inl e, q5) | Inr txops1 \<Rightarrow> save txops1 q5))
    \<and> (\<forall>txops1 e q'. save txops1 q5 \<noteq> Inr (Inl e, q'))"
proof -
  let ?tab = "qSymtab q"
  obtain slots cache0 tids where sv: "surveyOps ?tab txops (replicate maxTxAttrs emptyAttr) None = (slots, cache0, tids)" by (metis prod_cases3)
  obtain tx q1 where a: "AllocateTxDeferred q = (tx, q1)" by (cases "AllocateTxDeferred q")
  have q1: "holdsKeys stands (qEavt q1) K" "qSymtab q1 = ?tab"
    using AllocateTxDeferred_holds [of stands q K] assms(1) a by (auto simp: AllocateTxDeferred_def split: prod.splits)
  have ns: "applySchemas ft ops txops txops q1 = (Inr (), q1)" by (rule no_schemas) (use assms(3) q1(2) in simp)
  obtain ks owners cache where lp: "lookupPass ft (qResolver q1) ?tab txops slots [] (refreshCache (qResolver q1) cache0) = (ks, owners, cache)"
    by (metis prod_cases3)
  obtain results e3 where bl: "BatchLookupAvet ops ks (qEavt q1) = Inr (results, e3)" "holdsKeys stands e3 K"
    using BatchLookupAvet_holds [OF q1(1), of ks] by blast
  let ?q3 = "q1\<lparr>qEavt := e3\<rparr>"
  show ?thesis
  proof (cases "tidTables tids")
    case (Inl e)
    show ?thesis
      by (intro exI [of _ "Inl e"] exI [of _ ?q3] exI [of _ "\<lambda>_ _. Inl e"] exI [of _ slots] exI [of _ cache0] exI [of _ tids])
        (use assms(2) sv a ns lp bl Inl in \<open>cases e; simp add: TransactTx_def qBatchLookupAvet_def Let_def\<close>)
  next
    case (Inr span)
    let ?lo = "case tids of Some (l, h) \<Rightarrow> l | None \<Rightarrow> 0"
    let ?ts0 = "\<lparr>anchorEid = replicate span 0, freshTid = replicate span False, resolvedTids = Map.empty\<rparr>"
    obtain ts q4 where rt: "resolveTids ?lo txops owners (anchorOps ?lo 0 txops owners (replicate span 0)) results ?ts0 ?q3 = (ts, q4)"
      by (metis surj_pair)
    have "holdsKeys stands (qEavt ?q3) K" using bl(2) by simp
    from resolveTids_holds [OF this] have "holdsKeys stands (qEavt q4) K" using arg_cong [OF rt, of snd] by (metis snd_conv)
    then obtain r q5 where ap: "applyPass ft ops cache tx tids ts results slots owners txops q4 = Inr (r, q5)" "holdsKeys stands (qEavt q5) K"
      using applyPass_holds [of q4 K ft cache tx tids ts results slots owners txops] by blast
    let ?save = "\<lambda>txops1 q5. rbind (SaveBatchEdn ft ops now txops1 tx q5) (\<lambda>q6. rbind (RetractBatch ft ops txops1 tx q6) (\<lambda>q7.
        Inr (Inr \<lparr>rTempids = resolvedTids ts, rTx = tx\<rparr>, q7)))"
    have ne: "\<forall>txops1 e q'. ?save txops1 q5 \<noteq> Inr (Inl e, q')" by (auto simp: rbind_Inr)
    show ?thesis
      by (intro exI [of _ r] exI [of _ q5] exI [of _ ?save] exI [of _ slots] exI [of _ cache0] exI [of _ tids])
        (use assms(2) sv a ns lp bl Inr rt ap ne in \<open>simp add: TransactTx_def qBatchLookupAvet_def Let_def\<close>)
  qed
qed

lemma failed_tx:
  assumes "holdsKeys stands (qEavt q) K" "\<forall>op \<in> set txops. IsRetract op \<or> AttrSym op \<noteq> DbIdent (qSymtab q)"
    "TransactTx ft ops now txops q = Inr (Inl err, q')"
  shows "holdsKeys stands (qEavt q') K"
proof (cases "txops = []")
  case True
  then show ?thesis using assms(1,3) by (simp add: TransactTx_def)
next
  case False
  obtain r q5 and save :: "TxWOp list \<Rightarrow> 's QueryStore \<Rightarrow> (TxReport result \<times> 's QueryStore) result" and tids
    where q5: "holdsKeys stands (qEavt q5) K"
      and t: "TransactTx ft ops now txops q = (case tidTables tids of Inl (Panic p) \<Rightarrow> Inl (Panic p) | Inl (Error x) \<Rightarrow> Inr (Inl (Error x), q5)
        | Inr _ \<Rightarrow> (case r of Inl e \<Rightarrow> Inr (Inl e, q5) | Inr txops1 \<Rightarrow> save txops1 q5))"
      and ne: "\<forall>txops1 e q'. save txops1 q5 \<noteq> Inr (Inl e, q')"
    using TransactTx_prefix [OF assms(1) False assms(2), of ft now] by (elim exE conjE)
  have "q' = q5"
    using t [unfolded assms(3)] ne by (cases "tidTables tids") (auto split: sum.splits go_error.splits dest: sym)
  then show ?thesis using q5 by simp
qed

lemma panicking_tx:
  assumes "holdsKeys stands (qEavt q) K" "\<forall>op \<in> set txops. IsRetract op \<or> AttrSym op \<noteq> DbIdent (qSymtab q)" "txops \<noteq> []"
    "tidTables (snd (snd (surveyOps (qSymtab q) txops (replicate maxTxAttrs emptyAttr) None))) = Inl (Panic p)"
  shows "TransactTx ft ops now txops q = Inl (Panic p)"
  using TransactTx_prefix [OF assms(1,3,2), of ft now] assms(4) by auto

end

section \<open>Temporary identifiers\<close>

lemma survey_tids: "snd (snd (surveyOps tab ops cache tids)) = fold (\<lambda>op. noteTid (opV op) \<circ> noteTid (opE op)) ops tids"
  by (induction ops arbitrary: cache tids) (auto simp: case_prod_beta Let_def)

text \<open>Bounds of a set of temporary identifiers.\<close>

definition spans :: "(int64 \<times> int64) option \<Rightarrow> int64 set \<Rightarrow> bool" where
  "spans tids S \<longleftrightarrow> (case tids of None \<Rightarrow> S = {} | Some (lo, hi) \<Rightarrow> lo \<in> S \<and> hi \<in> S \<and> (\<forall>n \<in> S. sint lo \<le> sint n \<and> sint n \<le> sint hi))"

definition tidsOf :: "TxWSlot \<Rightarrow> int64 set" where
  "tidsOf s = (case s of TskInt n \<Rightarrow> if sint n < 0 then {n} else {} | _ \<Rightarrow> {})"

lemma tidsOf_neg: "n \<in> tidsOf s \<Longrightarrow> sint n < 0"
  by (auto simp: tidsOf_def split: TxWSlot.splits if_splits)

lemma noteTid_spans: "spans tids S \<Longrightarrow> spans (noteTid s tids) (tidsOf s \<union> S)"
  by (auto simp: spans_def noteTid_def tidsOf_def split: option.splits TxWSlot.splits prod.splits if_splits)

lemma survey_spans:
  "spans tids S \<Longrightarrow> spans (fold (\<lambda>op. noteTid (opV op) \<circ> noteTid (opE op)) ops tids) ((\<Union>op \<in> set ops. tidsOf (opE op) \<union> tidsOf (opV op)) \<union> S)"
proof (induction ops arbitrary: tids S)
  case (Cons op ops)
  have "spans (noteTid (opV op) (noteTid (opE op) tids)) (tidsOf (opV op) \<union> (tidsOf (opE op) \<union> S))"
    by (intro noteTid_spans Cons.prems)
  from Cons.IH [OF this] show ?case by (simp add: Un_ac)
qed simp

text \<open>C34. Extreme temporary identifiers panic: a transaction that mentions both -1 and the smallest 64-bit integer as
  temporary identifiers does not get an error; the length of the tables, computed in 64 bits, is negative and
  allocating them panics.\<close>

theorem tempid_span_panics:
  fixes q :: "('s, 'w) KVStore QueryStore"
  assumes "holdsKeys (stands z bo good) (qEavt q) K" "\<forall>op \<in> set txops. IsRetract op \<or> AttrSym op \<noteq> DbIdent (qSymtab q)"
    and "\<exists>op \<in> set txops. -1 \<in> tidsOf (opE op) \<union> tidsOf (opV op)" "\<exists>op \<in> set txops. 0x8000000000000000 \<in> tidsOf (opE op) \<union> tidsOf (opV op)"
  shows "TransactTx ft (storeOps z bo h) now txops q = Inl (Panic ''makeslice: len out of range'')"
proof (rule kv.panicking_tx [OF assms(1,2)])
  show "txops \<noteq> []" using assms(3) by auto
  let ?S = "\<Union>op \<in> set txops. tidsOf (opE op) \<union> tidsOf (opV op)"
  let ?t = "snd (snd (surveyOps (qSymtab q) txops (replicate maxTxAttrs emptyAttr) None))"
  have sp: "spans ?t ?S" using survey_spans [of None "{}" txops] by (simp add: survey_tids spans_def)
  have in1: "-1 \<in> ?S" "0x8000000000000000 \<in> ?S" using assms(3,4) by auto
  then obtain lo hi where t: "?t = Some (lo, hi)" using sp by (cases ?t) (simp_all only: spans_def option.case empty_iff, metis surj_pair)
  have b: "\<forall>n \<in> ?S. sint lo \<le> sint n \<and> sint n \<le> sint hi" "hi \<in> ?S" using sp unfolding t spans_def option.case prod.case by blast+
  have neg: "sint n < 0" if "n \<in> ?S" for n using that tidsOf_neg by blast
  have s: "sint (-1 :: int64) = -1" "sint (0x8000000000000000 :: int64) = - (2 ^ 63)" by simp_all
  have "sint hi = -1" using bspec [OF b(1) in1(1)] neg [OF b(2)] s(1) by linarith
  moreover have "sint lo = - (2 ^ 63)" using bspec [OF b(1) in1(2)] s(2) sint_greater_eq [of lo] by simp
  ultimately have "hi = -1" "lo = 0x8000000000000000" using s by (metis signed_word_eqI)+
  then show "tidTables ?t = Inl (Panic ''makeslice: len out of range'')" unfolding t by (simp add: tidTables_def maxTidSpan_def)
qed

section \<open>Batches of one transaction\<close>

lemma newest_older:
  assumes "typedKeys ty K" "\<forall>k \<in> K. txOf k < unat t" "0 \<le> sint t"
  shows "newestKey K (BuildEavtKey e a x t r)"
proof -
  have "BuildEavtKey e a x t True \<notin> K" using assms(2,3) by (metis less_irrefl txOf_key)
  then show ?thesis using newest_during [OF assms(1) _ assms(3), of e a r x] assms(2) by (auto simp: during_def)
qed

lemma writable_list:
  assumes "typedKeys ty (K \<union> set ds)" "\<forall>d \<in> set ds. newestKey K d" "sorted_wrt (\<lambda>a b. logical a = logical b \<longrightarrow> a \<le> b) ds"
  shows "writable K ds"
  using assms
proof (induction ds arbitrary: K)
  case (Cons d ds)
  have "datomKeys (insert d K)"
    using Cons.prems(1) by (intro typed_datomKeys [of ty]) (auto simp: typedKeys_def)
  moreover have "writable (insert d K) ds"
    using Cons.prems by (intro Cons.IH) (auto simp: newestKey_def)
  ultimately show ?case using Cons.prems(2) by simp
qed simp

definition datomsOf :: "EavtEntry list \<Rightarrow> bytes list" where
  "datomsOf ens = map Key (filter (\<lambda>en. CF en = 0) ens)"

lemma datomsOf_append [simp]: "datomsOf (xs @ ys) = datomsOf xs @ datomsOf ys"
  by (simp add: datomsOf_def)

lemma datomsOf_entries [simp]: "datomsOf (BuildEavtEntries e a x t r mode indexed) = [BuildEavtKey e a x t r]"
  by (simp add: datomsOf_def BuildEavtEntries_keys)

definition wellSized :: "EavtEntry \<Rightarrow> bool" where
  "wellSized en \<longleftrightarrow> unat (CF en) < 4 \<and> 20 \<le> length (Key en) \<and> length (Key en) < 65536"

lemma entries_sized: "length x < 65516 \<Longrightarrow> \<forall>en \<in> set (BuildEavtEntries e a x t r mode indexed). wellSized en"
  by (auto simp: wellSized_def BuildEavtEntries_keys BuildEavtKey_def BuildAevtKey_def BuildVaetKey_def BuildAvetKey_def)

context kv_store
begin

lemma batch_datoms:
  assumes "represents stands e K" "typedKeys ty (K 0 \<union> set (datomsOf ens))" "\<forall>en \<in> set ens. wellSized en"
    and "\<forall>d \<in> set (datomsOf ens). newestKey (K 0) d" "sorted_wrt (\<lambda>a b. logical a = logical b \<longrightarrow> a \<le> b) (datomsOf ens)"
  shows "\<exists>e' K'. EngineBatchWrite ops ens e = Inr e' \<and> represents stands e' K' \<and> K' 0 = K 0 \<union> set (datomsOf ens)"
proof -
  have "writable (K 0) (datomsOf ens)" by (rule writable_list [OF assms(2,4,5)])
  then have w: "writable (K 0) (map Key (filter (\<lambda>en. CF en = 0) ens)) \<or> \<not> eHydEnabled e \<and> datomKeys (K 0 \<union> set (map Key (filter (\<lambda>en. CF en = 0) ens)))"
    by (simp add: datomsOf_def)
  have "\<forall>en \<in> set ens. unat (CF en) < 4 \<and> storable (Key en)" using assms(3) storable_length by (auto simp: wellSized_def)
  from EngineBatchWrite_keys [OF assms(1) this w] obtain e' where
    "EngineBatchWrite ops ens e = Inr e'" "represents stands e' (\<lambda>cf. K cf \<union> batchKeys (map toCfKey ens) cf)" by blast
  then show ?thesis by (intro exI [of _ e'] exI [of _ "\<lambda>cf. K cf \<union> batchKeys (map toCfKey ens) cf"]) (simp add: batchKeys_datoms datomsOf_def)
qed

lemma saveResolved_new:
  assumes "represents stands e K" "\<forall>k \<in> K 0. take 12 k \<noteq> eidAttrPrefix eid aid"
  shows "\<exists>e'. saveResolvedEncodedInto ops eid aid False indexed mode x t ens e = Inr (ens @ BuildEavtEntries eid aid x t False mode indexed, e')
    \<and> represents stands e' K \<and> eResolver e' = eResolver e"
proof -
  have len: "length (eidAttrPrefix eid aid) = 12" by (simp add: eidAttrPrefix_def)
  have dk: "datomKeys (K 0)" using assms(1) by (simp add: represents_def)
  then have "finite (K 0)" by (simp add: datomKeys_def)
  then have "scanActive (K 0) (eidAttrPrefix eid aid) = []"
    using scanActive_spec [OF dk, of "eidAttrPrefix eid aid"] len assms(2) by (auto simp: filter_empty_conv)
  then show ?thesis using ScanPrefixActive_keys [OF assms(1), of "eidAttrPrefix eid aid"] len by (auto simp: saveResolvedEncodedInto_def)
qed

end

section \<open>Two values in one transaction\<close>

lemma instant_entry:
  assumes "unat now < 2 ^ 63"
  shows "TxInstantEntry pf now t = BuildEavtEntries t DbTxInstantAid (EncodeInt now) t False EmFixed False"
proof -
  have t: "ParseInt64 ''true'' = None" "ParseInt64 ''false'' = None" by code_simp+
  have p: "ParseInt64 (FormatUint now) = Some now" using assms by (rule ParseInt64_FormatUint)
  then have "FormatUint now \<noteq> ''true''" "FormatUint now \<noteq> ''false''" using t by (metis option.distinct(1))+
  then show ?thesis using p by (simp add: TxInstantEntry_def EncodeValue_def orZero_def)
qed

text \<open>Two assertions of one attribute, as the interpreter hands them over.\<close>

definition assertOp :: "int64 \<Rightarrow> uint32 \<Rightarrow> uint32 \<Rightarrow> TxWSlot \<Rightarrow> TxWOp" where
  "assertOp eid attr aid v = \<lparr>IsRetract = False, opE = TskInt eid, AttrSym = attr, opV = v, AttrId = aid, VResolved = 0\<rparr>"

context kv_store
begin

lemma save_two:
  assumes r: "represents stands (qEavt q) K" and ty: "typedKeys ty (K 0)" and t: "0 \<le> sint t" "\<forall>k \<in> K 0. txOf k < unat t"
    and new: "\<forall>k \<in> K 0. take 12 k \<noteq> eidAttrPrefix eid aid" and a: "aid \<noteq> 0" "aid \<noteq> DbTxInstantAid"
    and meta: "metaFor (qResolver q) aid = m" "mAttrID m = aid" "\<not> mMany m" and now: "unat now < 2 ^ 63" "ty DbTxInstantAid = DbTypeInstant"
    and sch: "\<not> opIsSchema (qSymtab q) (assertOp eid attr aid s1)" "\<not> opIsSchema (qSymtab q) (assertOp eid attr aid s2)"
    and enc: "encodeSaveValueSlot ft (effVal (assertOp eid attr aid s1)) (mVt m) (mMode m) eid (qSymtab q) = Inr (EncodeBoundValue v1)"
      "encodeSaveValueSlot ft (effVal (assertOp eid attr aid s2)) (mVt m) (mMode m) eid (qSymtab q) = Inr (EncodeBoundValue v2)"
    and v: "value_ok (ty aid) v1" "value_ok (ty aid) v2" "length (EncodeBoundValue v1) < 65516" "length (EncodeBoundValue v2) < 65516"
  shows "\<exists>q' e2 ks. SaveBatchEdn ft ops now [assertOp eid attr aid s1, assertOp eid attr aid s2] t q = Inr q'
    \<and> ScanPrefixActive ops 0 (eidAttrPrefix eid aid) (qEavt q') = Inr (ks, e2)
    \<and> set ks = {BuildEavtKey eid aid (EncodeBoundValue v1) t False, BuildEavtKey eid aid (EncodeBoundValue v2) t False}"
proof -
  let ?x1 = "EncodeBoundValue v1" and ?x2 = "EncodeBoundValue v2" and ?xi = "EncodeBoundValue (SInt now)"
  let ?b = "\<lambda>x. BuildEavtEntries eid aid x t False (mMode m) (mIndexed m)"
  let ?ens = "(TxInstantEntry (ftParse ft) now t @ ?b ?x1) @ ?b ?x2"
  let ?k1 = "BuildEavtKey eid aid ?x1 t False" and ?k2 = "BuildEavtKey eid aid ?x2 t False"
  let ?ki = "BuildEavtKey t DbTxInstantAid ?xi t False"
  have ti: "TxInstantEntry (ftParse ft) now t = BuildEavtEntries t DbTxInstantAid ?xi t False EmFixed False"
    using instant_entry [OF now(1)] by simp
  have ds: "datomsOf ?ens = [?ki, ?k1, ?k2]" unfolding ti by simp
  obtain e1 where e1: "saveResolvedEncodedInto ops eid aid False (mIndexed m) (mMode m) ?x1 t (TxInstantEntry (ftParse ft) now t) (qEavt q)
      = Inr (TxInstantEntry (ftParse ft) now t @ ?b ?x1, e1)" "represents stands e1 K" "eResolver e1 = qResolver q"
    using saveResolved_new [OF r new] by blast
  obtain e2 where e2: "saveResolvedEncodedInto ops eid aid False (mIndexed m) (mMode m) ?x2 t (TxInstantEntry (ftParse ft) now t @ ?b ?x1) e1 = Inr (?ens, e2)"
    "represents stands e2 K" using saveResolved_new [OF e1(2) new] by blast
  have so: "saveOps ft ops (qSymtab q) t [assertOp eid attr aid s1, assertOp eid attr aid s2] (TxInstantEntry (ftParse ft) now t) (qEavt q) = Inr (?ens, e2)"
    using sch enc e1(1,3) e2(1) meta a(1) by (simp add: assertOp_def slotInt_def Let_def)
  have xi: "value_ok (ty DbTxInstantAid) (SInt now)" "length ?xi < 65516" using now(2) by (simp_all add: value_ok_def EncodeInt_def)
  have ty3: "typedKeys ty (insert ?ki (insert ?k1 (insert ?k2 (K 0))))" by (intro typedKeys_insert ty v xi t(1))
  have nk: "\<forall>d \<in> set (datomsOf ?ens). newestKey (K 0) d" unfolding ds using newest_older [OF ty t(2,1)] by simp
  have sw: "sorted_wrt (\<lambda>a b. logical a = logical b \<longrightarrow> a \<le> b) (datomsOf ?ens)"
    unfolding ds using key_le_version [OF t(1) t(1)] a(2) by (auto simp: EncodeEid_inj)
  have ws: "\<forall>en \<in> set ?ens. wellSized en" unfolding ti using entries_sized v(3,4) xi(2) by (metis Un_iff set_append)
  have "K 0 \<union> set (datomsOf ?ens) = insert ?ki (insert ?k1 (insert ?k2 (K 0)))" unfolding ds by auto
  then obtain e3 K3 where e3: "EngineBatchWrite ops ?ens e2 = Inr e3" "represents stands e3 K3" "K3 0 = insert ?ki (insert ?k1 (insert ?k2 (K 0)))"
    using batch_datoms [OF e2(2) _ ws nk sw] ty3 by metis
  let ?q = "q\<lparr>qEavt := e3, saveCount := saveCount q + 2\<rparr>"
  have sb: "SaveBatchEdn ft ops now [assertOp eid attr aid s1, assertOp eid attr aid s2] t q = Inr ?q"
    unfolding SaveBatchEdn_def so using e3(1) by simp
  have len: "length (eidAttrPrefix eid aid) = 12" by (simp add: eidAttrPrefix_def)
  obtain e4 where sc: "ScanPrefixActive ops 0 (eidAttrPrefix eid aid) e3 = Inr (scanActive (K3 0) (eidAttrPrefix eid aid), e4)"
    using ScanPrefixActive_keys [OF e3(2), of "eidAttrPrefix eid aid"] len by auto
  have dk: "datomKeys (K3 0)" using e3(2) by (simp add: represents_def)
  have pi: "take 12 ?ki \<noteq> eidAttrPrefix eid aid" using a(2) by (auto simp: prefix_key eidAttrPrefix_def)
  have mem: "k \<in> K3 0 \<and> take 12 k = eidAttrPrefix eid aid \<longleftrightarrow> k = ?k1 \<or> k = ?k2" for k
    unfolding e3(3) using new pi prefix_key by blast
  have act: "active (K3 0) k" if k: "k = ?k1 \<or> k = ?k2" for k
  proof -
    obtain x where x: "k = BuildEavtKey eid aid x t False" using k by blast
    have "y \<le> k" if y: "y \<in> K3 0" "logical y = logical k" for y
    proof -
      obtain e' a' w t' r' where y': "y = BuildEavtKey e' a' (EncodeBoundValue w) t' r'" using y(1) ty3 unfolding e3(3) typedKeys_def by blast
      have "e' = eid" "a' = aid" "EncodeBoundValue w = x" using y(2) by (simp_all only: x y' logical_eq_key)
      then have "y = ?k1 \<or> y = ?k2" using mem [of y] y(1) prefix_key y' by blast
      then obtain x' where "y = BuildEavtKey eid aid x' t False" by blast
      then show ?thesis using y(2) by (simp only: x logical_eq_key)
    qed
    then show ?thesis using mem [of k] k by (auto simp: active_def x)
  qed
  have "set (scanActive (K3 0) (eidAttrPrefix eid aid)) = {?k1, ?k2}"
  proof -
    have fin: "finite (K3 0)" using dk by (simp add: datomKeys_def)
    have "set (scanActive (K3 0) (eidAttrPrefix eid aid)) = {k \<in> K3 0. active (K3 0) k \<and> take 12 k = eidAttrPrefix eid aid}"
      using scanActive_spec [OF dk, of "eidAttrPrefix eid aid"] len fin by auto
    then show ?thesis using mem act by blast
  qed
  then show ?thesis using sb sc by (intro exI [of _ ?q] exI [of _ e4] exI [of _ "scanActive (K3 0) (eidAttrPrefix eid aid)"]) simp
qed

end

text \<open>C35. A transaction can give a cardinality-one attribute two values: when one transaction asserts two values of the
  attribute for an entity that has none, both are written with the same transaction and both are active afterwards.\<close>

theorem two_values_both_active:
  fixes q :: "('s, 'w) KVStore QueryStore"
  assumes "represents (stands z bo good) (qEavt q) K" "typedKeys ty (K 0)" "0 \<le> sint t" "\<forall>k \<in> K 0. txOf k < unat t"
    and "\<forall>k \<in> K 0. take 12 k \<noteq> eidAttrPrefix eid aid" "aid \<noteq> 0" "aid \<noteq> DbTxInstantAid"
    and "metaFor (qResolver q) aid = m" "mAttrID m = aid" "\<not> mMany m" "unat now < 2 ^ 63" "ty DbTxInstantAid = DbTypeInstant"
    and "\<not> opIsSchema (qSymtab q) (assertOp eid attr aid s1)" "\<not> opIsSchema (qSymtab q) (assertOp eid attr aid s2)"
    and "encodeSaveValueSlot ft (effVal (assertOp eid attr aid s1)) (mVt m) (mMode m) eid (qSymtab q) = Inr (EncodeBoundValue v1)"
      "encodeSaveValueSlot ft (effVal (assertOp eid attr aid s2)) (mVt m) (mMode m) eid (qSymtab q) = Inr (EncodeBoundValue v2)"
    and "value_ok (ty aid) v1" "value_ok (ty aid) v2" "length (EncodeBoundValue v1) < 65516" "length (EncodeBoundValue v2) < 65516"
  shows "\<exists>q' e2 ks. SaveBatchEdn ft (storeOps z bo h) now [assertOp eid attr aid s1, assertOp eid attr aid s2] t q = Inr q'
    \<and> ScanPrefixActive (storeOps z bo h) 0 (eidAttrPrefix eid aid) (qEavt q') = Inr (ks, e2)
    \<and> set ks = {BuildEavtKey eid aid (EncodeBoundValue v1) t False, BuildEavtKey eid aid (EncodeBoundValue v2) t False}"
  using assms by (rule kv.save_two)

section \<open>Failing transactions\<close>

text \<open>C10. A transaction that fails writes nothing: over the storage facade, when a transaction without schema operations
  ends with an error, whichever of its operations it is and however many were processed before it, every column
  family holds the keys it held before.\<close>

theorem failed_transaction_writes_nothing:
  fixes q :: "('s, 'w) KVStore QueryStore"
  assumes "holdsKeys (stands z bo good) (qEavt q) K" "\<forall>op \<in> set txops. IsRetract op \<or> AttrSym op \<noteq> DbIdent (qSymtab q)"
    and "TransactTx ft (storeOps z bo h) now txops q = Inr (Inl err, q')"
  shows "stands z bo good (eKV (qEavt q')) K"
  using kv.failed_tx [OF assms] by (simp add: holdsKeys_def)

section \<open>Lookup references\<close>

text \<open>C33. Two lookup references in one operation are confused: whenever the interpreter accepts an operation whose entity
  and value are both lookup references, it takes the same entity for both, so an operation that should link two
  entities links one to itself.\<close>

theorem lookup_refs_confused:
  assumes "applyOp ft ops cache txEid tids ts results aSlot owner op q = Inr (Inr op', q')"
    and "opE op = TskLookupRef s1 v1" "opV op = TskLookupRef s2 v2" "\<not> isSchemaGroupOp (qSymtab q) op"
  shows "opE op' = TskInt (VResolved op')"
proof -
  let ?found = "foundFor owner results"
  obtain op1 op2 op3 where 1: "attrOfOp (qResolver q) (qSymtab q) cache aSlot op = Inr op1"
    and 2: "entityOfOp (qSymtab q) txEid tids (anchorEid ts) ?found op1 = Inr op2"
    and 3: "valueOfOp tids (anchorEid ts) ?found op2 = Inr op3"
    and 4: "dropKnown ft ops tids (freshTid ts) op3 q = Inr (op', q')"
    using assms(1,4) by (auto simp: applyOp_def Let_def rbind_Inr split: sum.splits)
  have o1: "opE op1 = opE op \<and> opV op1 = opV op" using 1 by (auto simp: attrOfOp_def split: if_splits option.splits)
  have o2: "op2 = op1\<lparr>opE := TskInt ?found\<rparr>" using 2 o1 assms(2) by (auto simp: entityOfOp_def split: if_splits)
  have o3: "op3 = op2\<lparr>VResolved := ?found\<rparr>" using 3 o1 o2 assms(3) by (auto simp: valueOfOp_def split: if_splits)
  have "opE op' = opE op3 \<and> VResolved op' = VResolved op3" using 4 by (auto simp: dropKnown_def rbind_Inr split: if_splits)
  then show ?thesis using o2 o3 by simp
qed

section \<open>Floats\<close>


section \<open>Worked transactions\<close>

definition demoTexts :: float_text where
  "demoTexts = \<lparr>ftParse = (\<lambda>_. None), ftG = (\<lambda>_. ''2''), ftE = (\<lambda>_. ''2e+00'')\<rparr>"

definition addOp :: "TxWSlot \<Rightarrow> uint32 \<Rightarrow> TxWSlot \<Rightarrow> TxWOp" where
  "addOp e a v = \<lparr>IsRetract = False, opE = e, AttrSym = a, opV = v, AttrId = 0, VResolved = 0\<rparr>"

lemma four_store:
  "\<exists>kv :: (disk, unit) KVStore. holdsKeys (stands storedFrames (fileOps False) disk_ok) (qEavt (NewQueryStore (freshEngine hyd kv))) (\<lambda>_. {})"
  using four_engine [of hyd] by (auto simp: holdsKeys_def represents_def NewQueryStore_def)

lemma demo_symbols: "DbIdent NewSymTab = 3" "DbCurrentTx NewSymTab = 7"
  by code_simp+


theorem tempid_span_panics_witness:
  "\<exists>kv :: (disk, unit) KVStore. TransactTx demoTexts (storeOps storedFrames (fileOps False) noHooks) 1
      [addOp (TskInt (-1)) 9 (TskInt 1), addOp (TskInt 0x8000000000000000) 9 (TskInt 1)] (NewQueryStore (freshEngine True kv))
    = Inl (Panic ''makeslice: len out of range'')"
proof -
  obtain kv :: "(disk, unit) KVStore" where h: "holdsKeys (stands storedFrames (fileOps False) disk_ok) (qEavt (NewQueryStore (freshEngine True kv))) (\<lambda>_. {})"
    using four_store by blast
  show ?thesis
    by (intro exI [of _ kv] tempid_span_panics [OF h]) (simp_all add: addOp_def tidsOf_def NewQueryStore_def demo_symbols)
qed

theorem failed_transaction_writes_nothing_witness:
  "\<exists>(kv :: (disk, unit) KVStore) q'. TransactTx demoTexts (storeOps storedFrames (fileOps False) noHooks) 1
      [addOp (TskKw 7) 0 (TskInt 1), addOp TskMissing 0 (TskInt 1)] (NewQueryStore (freshEngine True kv)) = Inr (Inl (Error ''tx: cannot resolve e slot''), q')
    \<and> stands storedFrames (fileOps False) disk_ok (eKV (qEavt q')) (\<lambda>_. {})"
proof -
  obtain kv :: "(disk, unit) KVStore" where h: "holdsKeys (stands storedFrames (fileOps False) disk_ok) (qEavt (NewQueryStore (freshEngine True kv))) (\<lambda>_. {})"
    using four_store by blast
  let ?q = "NewQueryStore (freshEngine True kv)" and ?ops = "storeOps storedFrames (fileOps False) (noHooks :: unit hooks)"
  define tx where "tx = [addOp (TskKw 7) 0 (TskInt 1), addOp TskMissing 0 (TskInt 1)]"
  obtain t q1 where a: "AllocateTxDeferred ?q = (t, q1)" by (cases "AllocateTxDeferred ?q")
  have tab: "qSymtab q1 = NewSymTab" "qSymtab ?q = NewSymTab" using a by (auto simp: AllocateTxDeferred_def NewQueryStore_def split: prod.splits)
  have sc: "isSchemaGroupOp NewSymTab (addOp x 0 y) = False" for x y by (simp add: isSchemaGroupOp_def addOp_def) code_simp
  have sv: "surveyOps NewSymTab tx c None = ([-1, -1], c, None)" for c by (simp add: tx_def addOp_def noteTid_def)
  have as: "applySchemas demoTexts ?ops tx tx q1 = (Inr (), q1)" by (simp add: tx_def addOp_def tab demo_symbols)
  have lp: "lookupPass demoTexts r NewSymTab tx [-1, -1] [] c = ([], [-1, -1], c)" for r c
    by (simp add: tx_def opKeys_def refKey_def addOp_def Let_def)
  have rt: "resolveTids lo tx os an rs ts q2 = (ts, q2)" for lo os an rs ts and q2 :: "(disk, unit) KVStore QueryStore"
    by (simp add: tx_def addOp_def isTid_def)
  have o1: "applyOp demoTexts ?ops c t None ts [] (-1) (-1) (addOp (TskKw 7) 0 (TskInt 1)) q1 = Inr (Inr (addOp (TskInt t) 0 (TskInt 1)), q1)" for c ts
    unfolding applyOp_def tab Let_def sc by (simp add: addOp_def checkRetract_def attrOfOp_def entityOfOp_def demo_symbols valueOfOp_def dropKnown_def)
  have o2: "applyOp demoTexts ?ops c t None ts [] (-1) (-1) (addOp TskMissing 0 (TskInt 1)) q1 = Inr (Inl (Error ''tx: cannot resolve e slot''), q1)" for c ts
    unfolding applyOp_def tab Let_def sc by (simp add: addOp_def checkRetract_def attrOfOp_def entityOfOp_def)
  have ap: "applyPass demoTexts ?ops c t None ts [] [-1, -1] [-1, -1] tx q1 = Inr (Inl (Error ''tx: cannot resolve e slot''), q1)" for c ts
    by (simp add: tx_def o1 o2)
  have ne: "tx \<noteq> []" by (simp add: tx_def)
  have "TransactTx demoTexts ?ops 1 tx ?q = Inr (Inl (Error ''tx: cannot resolve e slot''), q1)"
    using ne by (simp add: TransactTx_def a tab sv as lp rt ap qBatchLookupAvet_def BatchLookupAvet_def tidTables_def Let_def)
  moreover have "\<forall>op \<in> set tx. IsRetract op \<or> AttrSym op \<noteq> DbIdent (qSymtab ?q)" by (simp add: tx_def addOp_def tab demo_symbols)
  ultimately show ?thesis using failed_transaction_writes_nothing [OF h] unfolding tx_def by blast
qed

theorem lookup_refs_confused_witness:
  "\<exists>(kv :: (disk, unit) KVStore) op' q'. applyOp demoTexts (storeOps storedFrames (fileOps False) noHooks)
      [emptyAttr\<lparr>aeSym := 8, aeAttrID := DbUniqueAid, aeDeclared := True\<rparr>] 1 None \<lparr>anchorEid = [], freshTid = [], resolvedTids = Map.empty\<rparr> [50, 60] 0 1
      (addOp (TskLookupRef 9 (TskStr ''a'')) 8 (TskLookupRef 9 (TskStr ''b''))) (NewQueryStore (freshEngine True kv)) = Inr (Inr op', q')
    \<and> opE op' = TskInt (VResolved op')"
proof -
  obtain kv :: "(disk, unit) KVStore" where h: "holdsKeys (stands storedFrames (fileOps False) disk_ok) (qEavt (NewQueryStore (freshEngine True kv))) (\<lambda>_. {})"
    using four_store by blast
  let ?q = "NewQueryStore (freshEngine True kv)" and ?ops = "storeOps storedFrames (fileOps False) (noHooks :: unit hooks)"
  let ?op = "addOp (TskLookupRef 9 (TskStr ''a'')) 8 (TskLookupRef 9 (TskStr ''b''))"
  have tab: "qSymtab ?q = NewSymTab" by (simp add: NewQueryStore_def)
  have sc: "\<not> isSchemaGroupOp NewSymTab ?op" by (simp add: isSchemaGroupOp_def addOp_def) code_simp
  obtain b q' where hd: "HasDatomW demoTexts ?ops 60 DbUniqueAid (TskInt 60) ?q = Inr (b, q')"
    using kv.HasDatomW_holds [OF h, of demoTexts noHooks 60 DbUniqueAid "TskInt 60"] by blast
  have "\<exists>op'. applyOp demoTexts ?ops [emptyAttr\<lparr>aeSym := 8, aeAttrID := DbUniqueAid, aeDeclared := True\<rparr>] 1 None
      \<lparr>anchorEid = [], freshTid = [], resolvedTids = Map.empty\<rparr> [50, 60] 0 1 ?op ?q = Inr (Inr op', q')"
    using hd sc unfolding applyOp_def tab Let_def
    by (simp add: addOp_def checkRetract_def attrOfOp_def entityOfOp_def valueOfOp_def dropKnown_def foundFor_def effVal_def slotInt_def isFresh_def)
  then show ?thesis using lookup_refs_confused [where op = ?op] sc tab by (fastforce simp: addOp_def)
qed

theorem two_values_both_active_witness:
  "\<exists>(kv :: (disk, unit) KVStore) q' e2 ks. SaveBatchEdn demoTexts (storeOps storedFrames (fileOps False) noHooks) 1
      [assertOp 5 8 DbPartIDAid (TskInt 1), assertOp 5 8 DbPartIDAid (TskInt 2)] 7 (NewQueryStore (freshEngine True kv)) = Inr q'
    \<and> ScanPrefixActive (storeOps storedFrames (fileOps False) noHooks) 0 (eidAttrPrefix 5 DbPartIDAid) (qEavt q') = Inr (ks, e2)
    \<and> set ks = {BuildEavtKey 5 DbPartIDAid (EncodeInt 1) 7 False, BuildEavtKey 5 DbPartIDAid (EncodeInt 2) 7 False}"
proof -
  obtain kv :: "(disk, unit) KVStore" where r: "represents (stands storedFrames (fileOps False) disk_ok) (freshEngine True kv) (\<lambda>_. {})"
    using four_engine by blast
  let ?q = "NewQueryStore (freshEngine True kv)"
  have q: "qEavt ?q = freshEngine True kv" "qSymtab ?q = NewSymTab" "eResolver (freshEngine True kv) = NewResolver" by (simp_all add: NewQueryStore_def freshEngine_def)
  have m: "metaFor NewResolver DbPartIDAid = \<lparr>mAttrID = DbPartIDAid, mVt = DbTypeLong, mMode = EmFixed, mMany = False, mIndexed = False\<rparr>" by code_simp
  have sch: "\<not> opIsSchema NewSymTab (assertOp 5 8 DbPartIDAid s)" for s by (simp add: opIsSchema_def assertOp_def) code_simp
  have enc: "encodeSaveValueSlot demoTexts (effVal (assertOp 5 8 DbPartIDAid (TskInt n))) DbTypeLong EmFixed 5 NewSymTab = Inr (EncodeBoundValue (SInt n))"
    if "0 \<le> sint n" "FormatInt n \<noteq> ''true''" "FormatInt n \<noteq> ''false''" for n
    using that by (simp add: encodeSaveValueSlot_def encodePacked_def SlotToValueForType_def slotToPackedValue_def effVal_def assertOp_def EncodeValue_def)
  have f: "FormatInt 1 = ''1''" "FormatInt 2 = ''2''" by code_simp+
  note two = two_values_both_active [where q = ?q and z = storedFrames and bo = "fileOps False" and good = disk_ok and K = "\<lambda>_. {}"
      and ty = "\<lambda>a. if a = DbTxInstantAid then DbTypeInstant else DbTypeLong" and t = 7 and eid = 5 and aid = DbPartIDAid and now = 1 and attr = 8
      and ?s1.0 = "TskInt 1" and ?s2.0 = "TskInt 2" and ?v1.0 = "SInt 1" and ?v2.0 = "SInt 2" and ft = demoTexts and h = noHooks, unfolded q, OF r]
  show ?thesis
    using two [OF _ _ _ _ _ _ m] sch enc [of 1] enc [of 2] f by (auto simp: typedKeys_def value_ok_def EncodeInt_def)
qed

end
