(* ===== verification/SaveLaws.thy ===== *)
theory SaveLaws
  imports TxLaws
begin

text \<open>
  The save of a value given as an s-expression, \<open>SaveWithT\<close> of \<^verbatim>\<open>src/go/internal/engine/write.go\<close>: it retracts the active values of
  a cardinality-one attribute and asserts the new one in a single batch. Any value that is not the active one
  replaces it; the active value itself is lost.
\<close>

unbundle bit_operations_syntax

section \<open>The keys of a save\<close>

text \<open>The values of the active datoms of an entity's attribute, and the keys after a save at transaction \<open>t\<close>.\<close>

definition activeValues :: "bytes set \<Rightarrow> int64 \<Rightarrow> uint32 \<Rightarrow> bytes set" where
  "activeValues K eid aid = {x. \<exists>t'. active K (BuildEavtKey eid aid x t' False)}"

definition afterSave :: "bytes set \<Rightarrow> int64 \<Rightarrow> uint32 \<Rightarrow> bytes \<Rightarrow> int64 \<Rightarrow> bytes set" where
  "afterSave K eid aid x t = insert (BuildEavtKey eid aid x t False) (K \<union> {BuildEavtKey eid aid y t True | y. y \<in> activeValues K eid aid})"

lemma typed_of_prefix:
  assumes "typedKeys ty K" "k \<in> K" "take 12 k = eidAttrPrefix eid aid"
  shows "\<exists>w t r. k = BuildEavtKey eid aid (EncodeBoundValue w) t r \<and> 0 \<le> sint t \<and> value_ok (ty aid) w \<and> length (EncodeBoundValue w) < 65516"
proof -
  obtain e a w t r where k: "k = BuildEavtKey e a (EncodeBoundValue w) t r" "0 \<le> sint t" "value_ok (ty a) w" "length (EncodeBoundValue w) < 65516"
    using assms(1,2) unfolding typedKeys_def by blast
  have "eidAttrPrefix e a = eidAttrPrefix eid aid" using assms(3) by (simp add: k(1) prefix_key)
  then have "e = eid" "a = aid" by (auto simp: eidAttrPrefix_def EncodeEid_inj)
  then show ?thesis using k by blast
qed

lemma retractEntries_datoms:
  assumes "\<forall>ek \<in> set eks. 20 \<le> length ek"
  shows "datomsOf (retractEntries eid aid t mode indexed eks) = map (\<lambda>ek. BuildEavtKey eid aid (slice ek 12 (length ek - 8)) t True) eks"
  using assms by (induction eks) (auto simp: datomsOf_def BuildEavtEntries_keys)

lemma retractEntries_sized:
  assumes "\<forall>ek \<in> set eks. length ek < 65536"
  shows "\<forall>en \<in> set (retractEntries eid aid t mode indexed eks). wellSized en"
  using assms
proof (induction eks)
  case (Cons ek eks)
  have "length (slice ek 12 (length ek - 8)) < 65516" using Cons.prems by (simp add: slice_def) linarith
  then show ?case using Cons entries_sized by (auto simp: not_less)
qed simp

text \<open>Every key of the attribute that the save leaves active is the new one.\<close>

lemma afterSave_active:
  assumes ty: "typedKeys ty K" and t: "0 \<le> sint t" "\<forall>k \<in> K. txOf k < unat t" and p: "take 12 k = eidAttrPrefix eid aid"
    and a: "active (afterSave K eid aid x t) k"
  shows "k = BuildEavtKey eid aid x t False"
proof (rule ccontr)
  let ?K = "afterSave K eid aid x t"
  assume ne: "k \<noteq> BuildEavtKey eid aid x t False"
  have kK: "k \<in> ?K" "\<not> isRetraction k" and nw: "\<And>y. y \<in> ?K \<Longrightarrow> 8 \<le> length y \<Longrightarrow> logical y = logical k \<Longrightarrow> y \<le> k" using a by (auto simp: active_def)
  have kin: "k \<in> K" using kK ne by (auto simp: afterSave_def)
  obtain w t' r where k: "k = BuildEavtKey eid aid (EncodeBoundValue w) t' r" "0 \<le> sint t'" using typed_of_prefix [OF ty kin p] by blast
  have r: "\<not> r" using kK(2) k(1) by simp
  have "active K k" using kin kK(2) nw by (auto simp: active_def k(1) afterSave_def)
  then have "EncodeBoundValue w \<in> activeValues K eid aid" using k(1) r by (auto simp: activeValues_def)
  then have "BuildEavtKey eid aid (EncodeBoundValue w) t True \<in> ?K" by (auto simp: afterSave_def)
  then have "BuildEavtKey eid aid (EncodeBoundValue w) t True \<le> k" using nw by (simp add: k(1))
  moreover have "unat t' < unat t" using t(2) kin k by force
  ultimately show False using k t(1) by (simp add: key_le_version)
qed

lemma afterSave_new:
  assumes ty: "typedKeys ty K" and t: "0 \<le> sint t" "\<forall>k \<in> K. txOf k < unat t"
  shows "active (afterSave K eid aid x t) (BuildEavtKey eid aid x t False) \<longleftrightarrow> x \<notin> activeValues K eid aid"
proof
  let ?k = "BuildEavtKey eid aid x t False"
  assume a: "active (afterSave K eid aid x t) ?k"
  show "x \<notin> activeValues K eid aid"
  proof
    assume "x \<in> activeValues K eid aid"
    then have "BuildEavtKey eid aid x t True \<in> afterSave K eid aid x t" by (auto simp: afterSave_def)
    then have "BuildEavtKey eid aid x t True \<le> ?k" using a by (auto simp: active_def)
    then show False using t(1) by (simp add: key_le_version)
  qed
next
  let ?k = "BuildEavtKey eid aid x t False"
  assume nx: "x \<notin> activeValues K eid aid"
  have "y \<le> ?k" if y: "y \<in> afterSave K eid aid x t" "logical y = logical ?k" for y
  proof -
    consider "y = ?k" | "y \<in> K" | z where "z \<in> activeValues K eid aid" "y = BuildEavtKey eid aid z t True" using y(1) by (auto simp: afterSave_def)
    then show ?thesis
    proof cases
      case 2
      then show ?thesis using newest_older [OF ty t(2,1), of eid aid x False] y(2) by (simp add: newestKey_def)
    next
      case 3
      then have "z = x" using y(2) by (simp only: logical_eq_key)
      then show ?thesis using 3(1) nx by simp
    qed simp
  qed
  then show "active (afterSave K eid aid x t) ?k" by (auto simp: active_def afterSave_def)
qed

text \<open>A batch at a new transaction: retractions of some values, then the assertion of another one.\<close>

lemma retract_assert_typed:
  assumes "typedKeys ty K" "0 \<le> sint t" "\<forall>x \<in> insert y (set xs). \<exists>v. x = EncodeBoundValue v \<and> value_ok (ty aid) v \<and> length x < 65516"
  shows "typedKeys ty (K \<union> set (map (\<lambda>x. BuildEavtKey eid aid x t True) xs @ [BuildEavtKey eid aid y t False]))"
  using assms
proof (induction xs)
  case Nil
  then obtain v where "y = EncodeBoundValue v" "value_ok (ty aid) v" "length y < 65516" by auto
  then show ?case using typedKeys_insert [of ty K aid v t eid False] Nil.prems by simp
next
  case (Cons x xs)
  then obtain v where "x = EncodeBoundValue v" "value_ok (ty aid) v" "length x < 65516" by auto
  then show ?case using typedKeys_insert [OF Cons.IH, of aid v t eid True] Cons.prems by simp
qed

lemma retract_assert_sorted:
  assumes "y \<notin> set xs"
  shows "sorted_wrt (\<lambda>a b. logical a = logical b \<longrightarrow> a \<le> b) (map (\<lambda>x. BuildEavtKey eid aid x t True) xs @ [BuildEavtKey eid aid y t False])"
  using assms by (induction xs) (auto simp: sorted_wrt_append)

lemma ScanPrefixActive_flag: "ScanPrefixActive ops cf p e = Inr (ks, e') \<Longrightarrow> eHydEnabled e' = eHydEnabled e"
  by (auto simp: ScanPrefixActive_def ScanPrefix_def Let_def rbind_Inr split: if_splits prod.splits)

lemma scanActive_lengths:
  assumes "typedKeys ty K" "length p \<le> 12" "k \<in> set (scanActive K p)"
  shows "20 \<le> length k \<and> length k < 65536"
proof -
  have "k \<in> K" using assms scanActive_spec [OF typed_datomKeys [OF assms(1)] assms(2)] by (auto simp: typedKeys_def)
  then show ?thesis using assms(1) unfolding typedKeys_def by force
qed

lemma activeValues_scan:
  assumes "typedKeys ty K"
  shows "activeValues K eid aid = (\<lambda>k. slice k 12 (length k - 8)) ` set (scanActive K (eidAttrPrefix eid aid))"
    (is "_ = ?v ` set ?ks")
    and "x \<in> activeValues K eid aid \<Longrightarrow> \<exists>v. x = EncodeBoundValue v \<and> value_ok (ty aid) v \<and> length x < 65516"
proof -
  have len: "length (eidAttrPrefix eid aid) = 12" by (simp add: eidAttrPrefix_def)
  have dk: "datomKeys K" and fin: "finite K" using typed_datomKeys [OF assms] assms by (simp_all add: typedKeys_def)
  have ks: "set ?ks = {k \<in> K. active K k \<and> take 12 k = eidAttrPrefix eid aid}" using scanActive_spec [OF dk, of "eidAttrPrefix eid aid"] len fin by auto
  have shape: "\<exists>y t'. k = BuildEavtKey eid aid (EncodeBoundValue y) t' False \<and> value_ok (ty aid) y \<and> length (EncodeBoundValue y) < 65516"
    if k: "k \<in> set ?ks" for k
  proof -
    have "k \<in> K" "take 12 k = eidAttrPrefix eid aid" "\<not> isRetraction k" using k ks by (auto simp: active_def)
    then obtain w t' r where w: "k = BuildEavtKey eid aid (EncodeBoundValue w) t' r" "value_ok (ty aid) w" "length (EncodeBoundValue w) < 65516" "\<not> isRetraction k"
      using typed_of_prefix [OF assms] by blast
    then show ?thesis by auto
  qed
  have mem: "BuildEavtKey eid aid x t' False \<in> set ?ks" if "active K (BuildEavtKey eid aid x t' False)" for x t'
    using that ks by (simp add: active_def prefix_key)
  show img: "activeValues K eid aid = ?v ` set ?ks"
  proof (intro set_eqI iffI)
    fix x assume "x \<in> activeValues K eid aid"
    then obtain t' where "active K (BuildEavtKey eid aid x t' False)" by (auto simp: activeValues_def)
    then show "x \<in> ?v ` set ?ks" by (intro image_eqI [where x = "BuildEavtKey eid aid x t' False"]) (simp_all only: value_of_key mem)
  next
    fix x assume "x \<in> ?v ` set ?ks"
    then obtain k where k: "k \<in> set ?ks" "x = ?v k" by blast
    then obtain t' where "k = BuildEavtKey eid aid x t' False" using shape [OF k(1)] value_of_key by metis
    then show "x \<in> activeValues K eid aid" using k(1) ks by (auto simp: activeValues_def)
  qed
  show "\<exists>v. x = EncodeBoundValue v \<and> value_ok (ty aid) v \<and> length x < 65516" if x: "x \<in> activeValues K eid aid"
  proof -
    obtain k where k: "k \<in> set ?ks" "x = ?v k" using x img by blast
    then show ?thesis using shape [OF k(1)] value_of_key by metis
  qed
qed

definition isFloat :: "expr \<Rightarrow> bool" where
  "isFloat v \<longleftrightarrow> (case v of SFloat _ \<Rightarrow> True | _ \<Rightarrow> False)"

lemma FormatInt_no_bool: "FormatInt n \<noteq> ''true''" "FormatInt n \<noteq> ''false''"
proof -
  have "ParseInt64 ''true'' = None" "ParseInt64 ''false'' = None" by code_simp+
  then show "FormatInt n \<noteq> ''true''" "FormatInt n \<noteq> ''false''" using ParseInt64_FormatInt [of n] by (metis option.distinct(1))+
qed

lemma encodeSaveValue_plain:
  assumes "value_ok vt v" "\<not> isFloat v"
  shows "encodeSaveValue ft v vt (ValueTypeToEncodeMode vt) eid = Inr (EncodeBoundValue v)"
  using assms FormatInt_no_bool
  by (cases v) (auto simp: value_ok_def isFloat_def encodeSaveValue_def encodePacked_def sexprToValueForType_def sexprToPackedValue_def
      ValueTypeToEncodeMode_def EncodeValue_def EncodeEid_def EncodeInt_def)

lemma scanActive_only:
  assumes "datomKeys K" "length p \<le> 12" "\<And>k'. active K k' \<and> take (length p) k' = p \<longleftrightarrow> k' = k"
  shows "scanActive K p = [k]"
proof (rule strict_sorted_equal)
  have "k \<in> K" "finite K" using assms(1) assms(3) [of k] by (auto simp: active_def datomKeys_def)
  then show "set (scanActive K p) = set [k]" using scanActive_spec [OF assms(1,2)] assms(3) by auto
qed (use ascending_scanActive assms in auto)

context kv_store
begin

lemma batch_after:
  assumes "represents stands e K" "typedKeys ty (K 0 \<union> set (datomsOf ens))" "\<forall>en \<in> set ens. wellSized en"
    and "\<forall>d \<in> set (datomsOf ens). newestKey (K 0) d"
    and "sorted_wrt (\<lambda>a b. logical a = logical b \<longrightarrow> a \<le> b) (datomsOf ens) \<or> \<not> eHydEnabled e"
  shows "\<exists>e' K'. EngineBatchWrite ops ens e = Inr e' \<and> represents stands e' K' \<and> eResolver e' = eResolver e \<and> eHydEnabled e' = eHydEnabled e
    \<and> K' 0 = K 0 \<union> set (datomsOf ens)"
proof -
  have "\<forall>en \<in> set ens. unat (CF en) < 4 \<and> storable (Key en)" using assms(3) storable_length by (auto simp: wellSized_def)
  moreover have "datomKeys (K 0 \<union> set (map Key (filter (\<lambda>en. CF en = 0) ens)))" using typed_datomKeys [OF assms(2)] by (simp add: datomsOf_def)
  moreover have "writable (K 0) (map Key (filter (\<lambda>en. CF en = 0) ens)) \<or> \<not> eHydEnabled e"
    using assms(5) writable_list [OF assms(2,4)] by (auto simp: datomsOf_def)
  ultimately obtain e' where "EngineBatchWrite ops ens e = Inr e'" "represents stands e' (\<lambda>cf. K cf \<union> batchKeys (map toCfKey ens) cf)"
      "eResolver e' = eResolver e" "eHydEnabled e' = eHydEnabled e"
    using EngineBatchWrite_keys [OF assms(1), of ens] by blast
  then show ?thesis by (intro exI [of _ e'] exI [of _ "\<lambda>cf. K cf \<union> batchKeys (map toCfKey ens) cf"]) (simp add: batchKeys_datoms datomsOf_def)
qed

lemma SaveWithT_keys:
  assumes r: "represents stands (qEavt q) K" and ty: "typedKeys ty (K 0)" and t: "0 \<le> sint t" "\<forall>k \<in> K 0. txOf k < unat t"
    and at: "LookupAttr attr (qResolver q) = Some aid" "metaFor (qResolver q) aid = m" "\<not> mMany m"
    and enc: "encodeSaveValue ft v (mVt m) (mMode m) eid = Inr (EncodeBoundValue w)" "value_ok (ty aid) w" "length (EncodeBoundValue w) < 65516"
    and other: "EncodeBoundValue w \<notin> activeValues (K 0) eid aid \<or> \<not> eHydEnabled (qEavt q)"
  shows "\<exists>q' K'. SaveWithT ft ops eid attr v t q = Inr (Inr (), q') \<and> represents stands (qEavt q') K' \<and> qResolver q' = qResolver q
    \<and> eHydEnabled (qEavt q') = eHydEnabled (qEavt q)
    \<and> K' 0 = afterSave (K 0) eid aid (EncodeBoundValue w) t"
proof -
  let ?p = "eidAttrPrefix eid aid" and ?x = "EncodeBoundValue w" and ?q1 = "q\<lparr>saveCount := saveCount q + 1\<rparr>"
  let ?ks = "scanActive (K 0) ?p"
  let ?vs = "map (\<lambda>k. slice k 12 (length k - 8)) ?ks"
  let ?ret = "retractEntries eid aid t (mMode m) (mIndexed m) ?ks"
  let ?ens = "?ret @ BuildEavtEntries eid aid ?x t False (mMode m) (mIndexed m)"
  have av: "set ?vs = activeValues (K 0) eid aid" using activeValues_scan(1) [OF ty] by simp
  obtain e1 where e1: "ScanPrefixActive ops 0 ?p (qEavt ?q1) = Inr (?ks, e1)" "represents stands e1 K" "eResolver e1 = qResolver q"
    using ScanPrefixActive_keys [of "qEavt q" K ?p] r by (auto simp: eidAttrPrefix_def)
  have flag: "eHydEnabled e1 = eHydEnabled (qEavt q)" using ScanPrefixActive_flag [OF e1(1)] by simp
  have sr: "saveResolvedEncodedInto ops eid aid (mMany m) (mIndexed m) (mMode m) ?x t [] (qEavt ?q1) = Inr (?ens, e1)"
    using e1(1) at(3) by (simp add: saveResolvedEncodedInto_def)
  have lens: "20 \<le> length k \<and> length k < 65536" if "k \<in> set ?ks" for k
    using scanActive_lengths [OF ty _ that] by (simp add: eidAttrPrefix_def)
  have ds: "datomsOf ?ens = map (\<lambda>x. BuildEavtKey eid aid x t True) ?vs @ [BuildEavtKey eid aid ?x t False]"
    using retractEntries_datoms lens by (simp add: comp_def)
  have typed: "typedKeys ty (K 0 \<union> set (datomsOf ?ens))"
    unfolding ds using activeValues_scan(2) [OF ty] enc av by (intro retract_assert_typed ty t(1)) auto
  have sized: "\<forall>en \<in> set ?ens. wellSized en" using retractEntries_sized [of ?ks eid aid t "mMode m" "mIndexed m"] lens entries_sized [OF enc(3)] by auto
  have nk: "\<forall>d \<in> set (datomsOf ?ens). newestKey (K 0) d" unfolding ds using newest_older [OF ty t(2,1)] by auto
  have so: "sorted_wrt (\<lambda>a b. logical a = logical b \<longrightarrow> a \<le> b) (datomsOf ?ens) \<or> \<not> eHydEnabled e1"
    unfolding ds flag using other retract_assert_sorted [of ?x ?vs] av by blast
  obtain e2 K' where e2: "EngineBatchWrite ops ?ens e1 = Inr e2" "represents stands e2 K'" "eResolver e2 = eResolver e1" "eHydEnabled e2 = eHydEnabled e1" "K' 0 = K 0 \<union> set (datomsOf ?ens)"
    using batch_after [OF e1(2) typed sized nk so] by blast
  have "K' 0 = afterSave (K 0) eid aid ?x t" unfolding e2(5) ds afterSave_def av [symmetric] by auto
  moreover have "SaveWithT ft ops eid attr v t q = Inr (Inr (), ?q1\<lparr>qEavt := e2\<rparr>)"
    using at enc(1) sr e2(1) by (simp add: SaveWithT_def Let_def)
  ultimately show ?thesis using e2(2-4) e1(3) flag by (intro exI [of _ "?q1\<lparr>qEavt := e2\<rparr>"] exI [of _ K']) simp
qed

text \<open>Looking up a value reads the first active datom of the attribute.\<close>

lemma LookupValue_keys:
  assumes "represents stands (qEavt q) K" "LookupAttr attr (qResolver q) = Some aid"
  shows "\<exists>q'. LookupValue ops eid attr q = Inr (case scanActive (K 0) (eidAttrPrefix eid aid) of [] \<Rightarrow> None
      | k # ks \<Rightarrow> Some (DecodeStoredValue (slice k 12 (length k - 8)) (typeOr 0 (ValueTypeFor aid (qResolver q)))), q')"
proof -
  let ?p = "eidAttrPrefix eid aid"
  have dk: "datomKeys (K 0)" using assms(1) by (simp add: represents_def)
  have len: "length ?p \<le> 12" by (simp add: eidAttrPrefix_def)
  obtain e1 where e1: "ScanPrefixActive ops 0 ?p (qEavt q) = Inr (scanActive (K 0) ?p, e1)" "represents stands e1 K" "eResolver e1 = qResolver q"
    using ScanPrefixActive_keys [OF assms(1) len] by auto
  obtain e2 where e2: "HydrateEID ops eid e1 = Inr e2" using HydrateEID_keys [OF e1(2)] by blast
  have "20 \<le> length k" if "k \<in> set (scanActive (K 0) ?p)" for k
    using that scanActive_spec [OF dk len] dk by (auto simp: datomKeys_def)
  then show ?thesis using assms(2) e1 e2 by (cases "scanActive (K 0) ?p") (simp_all add: LookupValue_def headLong_def)
qed

lemma save_lookup:
  assumes r: "represents stands (qEavt q) K" and ty: "typedKeys ty (K 0)" and t: "0 \<le> sint t" "\<forall>k \<in> K 0. txOf k < unat t"
    and at: "LookupAttr attr (qResolver q) = Some aid" "ValueTypeFor aid (qResolver q) = Some (ty aid)" "\<not> IsMany aid (qResolver q)"
    and v: "value_ok (ty aid) v" "\<not> isFloat v" "length (EncodeBoundValue v) < 65516"
    and other: "EncodeBoundValue v \<notin> activeValues (K 0) eid aid \<or> \<not> eHydEnabled (qEavt q)"
  shows "\<exists>q1 q2. SaveWithT ft ops eid attr v t q = Inr (Inr (), q1)
    \<and> LookupValue ops eid attr q1 = Inr (if EncodeBoundValue v \<in> activeValues (K 0) eid aid then None else Some v, q2)"
proof -
  let ?x = "EncodeBoundValue v" and ?p = "eidAttrPrefix eid aid"
  let ?k = "BuildEavtKey eid aid ?x t False"
  have len: "length ?p = 12" by (simp add: eidAttrPrefix_def)
  have enc: "encodeSaveValue ft v (mVt (metaFor (qResolver q) aid)) (mMode (metaFor (qResolver q) aid)) eid = Inr ?x"
    using encodeSaveValue_plain [OF v(1,2)] at(2) by (simp add: metaFor_def Let_def typeOr_def)
  have one: "\<not> mMany (metaFor (qResolver q) aid)" using at(3) by (simp add: metaFor_def Let_def)
  obtain q1 K1 where q1: "SaveWithT ft ops eid attr v t q = Inr (Inr (), q1)" "represents stands (qEavt q1) K1" "qResolver q1 = qResolver q"
      "K1 0 = afterSave (K 0) eid aid ?x t"
    using SaveWithT_keys [OF r ty t at(1) refl one enc v(1,3) other] by blast
  have dk: "datomKeys (K1 0)" using q1(2) by (simp add: represents_def)
  have act: "active (K1 0) k \<and> take 12 k = ?p \<longleftrightarrow> k = ?k \<and> ?x \<notin> activeValues (K 0) eid aid" for k
    using afterSave_active [OF ty t, of k eid aid ?x] afterSave_new [OF ty t, of eid aid ?x] q1(4) by (auto simp: prefix_key)
  have sc: "scanActive (K1 0) ?p = (if ?x \<in> activeValues (K 0) eid aid then [] else [?k])"
    using scanActive_spec [OF dk, of ?p] len scanActive_only [OF dk, of ?p ?k] act by auto
  have "\<exists>q2. LookupValue ops eid attr q1 = Inr (if ?x \<in> activeValues (K 0) eid aid then None else Some v, q2)"
    using LookupValue_keys [OF q1(2), of attr aid eid] at q1(3) sc decode_encoded [OF v(1), of "[]"] value_of_key [of eid aid ?x t False] by (auto simp: typeOr_def)
  then show ?thesis using q1(1) by blast
qed

end

section \<open>Saved values are read back\<close>

text \<open>C9. A saved value is read back. Take an engine over the storage facade, in any phase of a flush, with trees of height at most one
  and stored datoms that are typed, whose cache of hydrated entities is off or mirrors the stored datoms. For a
  cardinality-one attribute, saving an integer (long, reference or instant), a non-empty string without NUL characters
  or a byte string of the attribute's type, encoded in less than 65516 bytes, in a transaction newer than every stored datom,
  succeeds, and looking up the attribute then gives that value, whatever values were active before, provided the value
  itself was not one of them. Floats, booleans, keywords, empty strings and strings with NUL characters are not covered.\<close>

theorem saved_value_found:
  fixes q :: "('s, 'w) KVStore QueryStore"
  assumes "represents (stands z bo good) (qEavt q) K" "typedKeys ty (K 0)" "0 \<le> sint t" "\<forall>k \<in> K 0. txOf k < unat t"
    and "LookupAttr attr (qResolver q) = Some aid" "ValueTypeFor aid (qResolver q) = Some (ty aid)" "\<not> IsMany aid (qResolver q)"
    and "value_ok (ty aid) v" "\<not> isFloat v" "length (EncodeBoundValue v) < 65516"
    and "EncodeBoundValue v \<notin> activeValues (K 0) eid aid"
  shows "\<exists>q1 q2. SaveWithT ft (storeOps z bo h) eid attr v t q = Inr (Inr (), q1)
    \<and> LookupValue (storeOps z bo h) eid attr q1 = Inr (Some v, q2)"
  using kv.save_lookup [OF assms(1-10), of eid ft h] assms(11) by simp

text \<open>C30. Saving the active value again loses it. Take an engine over the storage facade, in any phase of a flush, with trees of
  height at most one and stored datoms that are typed, with the cache of hydrated entities off, a
  cardinality-one attribute, and an integer, a non-empty string without NUL characters or a byte string that is an
  active value of the attribute. Saving that value again in a transaction newer than every stored datom succeeds, and
  looking up the attribute afterwards gives no value.\<close>

theorem saved_again_lost:
  fixes q :: "('s, 'w) KVStore QueryStore"
  assumes "represents (stands z bo good) (qEavt q) K" "typedKeys ty (K 0)" "0 \<le> sint t" "\<forall>k \<in> K 0. txOf k < unat t"
    and "LookupAttr attr (qResolver q) = Some aid" "ValueTypeFor aid (qResolver q) = Some (ty aid)" "\<not> IsMany aid (qResolver q)"
    and "value_ok (ty aid) v" "\<not> isFloat v" "length (EncodeBoundValue v) < 65516"
    and "EncodeBoundValue v \<in> activeValues (K 0) eid aid" "\<not> eHydEnabled (qEavt q)"
  shows "\<exists>q1 q2. SaveWithT ft (storeOps z bo h) eid attr v t q = Inr (Inr (), q1)
    \<and> LookupValue (storeOps z bo h) eid attr q1 = Inr (None, q2)"
  using kv.save_lookup [OF assms(1-10), of eid ft h] assms(11,12) by simp

theorem saved_value_found_witness:
  "\<exists>(kv :: (disk, unit) KVStore) q1 q2. SaveWithT demoTexts (storeOps storedFrames (fileOps False) noHooks) 5 ''db/ident'' (SStr ''x'') 1
      (NewQueryStore (freshEngine True kv)) = Inr (Inr (), q1)
    \<and> LookupValue (storeOps storedFrames (fileOps False) noHooks) 5 ''db/ident'' q1 = Inr (Some (SStr ''x''), q2)"
proof -
  obtain kv :: "(disk, unit) KVStore" where r: "represents (stands storedFrames (fileOps False) disk_ok) (freshEngine True kv) (\<lambda>_. {})"
    using four_engine by blast
  have q: "qEavt (NewQueryStore (freshEngine True kv)) = freshEngine True kv" "eResolver (freshEngine True kv) = NewResolver"
    by (simp_all add: NewQueryStore_def freshEngine_def)
  have "LookupAttr ''db/ident'' NewResolver = Some DbIdentAid" by code_simp
  then show ?thesis
    using saved_value_found [where q = "NewQueryStore (freshEngine True kv)" and K = "\<lambda>_. {}" and ty = "\<lambda>_. DbTypeString" and t = 1 and eid = 5
      and ft = demoTexts and h = noHooks and attr = "''db/ident''" and v = "SStr ''x''", unfolded q, OF r _ _ _ _ ident_attr(3) ident_attr(2) ident_value(2) _ ident_value(3)]
    by (auto simp: typedKeys_def isFloat_def activeValues_def active_def)
qed

theorem saved_again_lost_witness:
  "\<exists>(kv :: (disk, unit) KVStore) q1 q2 q3. SaveWithT demoTexts (storeOps storedFrames (fileOps False) noHooks) 5 ''db/ident'' (SStr ''x'') 1
      (NewQueryStore (freshEngine False kv)) = Inr (Inr (), q1)
    \<and> SaveWithT demoTexts (storeOps storedFrames (fileOps False) noHooks) 5 ''db/ident'' (SStr ''x'') 2 q1 = Inr (Inr (), q2)
    \<and> LookupValue (storeOps storedFrames (fileOps False) noHooks) 5 ''db/ident'' q2 = Inr (None, q3)"
proof -
  obtain kv :: "(disk, unit) KVStore" where r: "represents (stands storedFrames (fileOps False) disk_ok) (freshEngine False kv) (\<lambda>_. {})"
    using four_engine by blast
  let ?q = "NewQueryStore (freshEngine False kv)" and ?ops = "storeOps storedFrames (fileOps False) (noHooks :: unit hooks)" and ?x = "EncodeBoundValue (SStr ''x'')"
  have q: "qEavt ?q = freshEngine False kv" "eResolver (freshEngine False kv) = NewResolver" "\<not> eHydEnabled (freshEngine False kv)"
    by (simp_all add: NewQueryStore_def freshEngine_def)
  have at: "LookupAttr ''db/ident'' NewResolver = Some DbIdentAid" by code_simp
  have m: "metaFor NewResolver DbIdentAid = \<lparr>mAttrID = DbIdentAid, mVt = DbTypeString, mMode = ValueTypeToEncodeMode DbTypeString,
      mMany = False, mIndexed = IsIndexed DbIdentAid NewResolver\<rparr>" using ident_attr(2,3) by (simp add: metaFor_def typeOr_def)
  have enc: "encodeSaveValue demoTexts (SStr ''x'') DbTypeString (ValueTypeToEncodeMode DbTypeString) 5 = Inr ?x"
    using ident_value(2) by (intro encodeSaveValue_plain) (simp_all add: isFloat_def)
  have t0: "typedKeys (\<lambda>_. DbTypeString) {}" by (simp add: typedKeys_def)
  obtain q1 K1 where q1: "SaveWithT demoTexts ?ops 5 ''db/ident'' (SStr ''x'') 1 ?q = Inr (Inr (), q1)"
      "represents (stands storedFrames (fileOps False) disk_ok) (qEavt q1) K1" "qResolver q1 = NewResolver" "\<not> eHydEnabled (qEavt q1)" "K1 0 = afterSave {} 5 DbIdentAid ?x 1"
    using kv.SaveWithT_keys [where q = ?q and K = "\<lambda>_. {}" and ty = "\<lambda>_. DbTypeString" and t = 1 and attr = "''db/ident''" and aid = DbIdentAid
      and eid = 5 and ft = demoTexts and h = noHooks and w = "SStr ''x''" and v = "SStr ''x''", unfolded q(1), OF r t0]
      at m enc ident_value q by auto
  have "activeValues {} 5 DbIdentAid = {}" by (simp add: activeValues_def active_def)
  then have K1: "K1 0 = {BuildEavtKey 5 DbIdentAid ?x 1 False}" using q1(5) by (simp add: afterSave_def)
  have ty: "typedKeys (\<lambda>_. DbTypeString) (K1 0)" unfolding K1 by (rule typedKeys_insert [OF t0 ident_value(2) _ ident_value(3)]) simp
  have av: "?x \<in> activeValues (K1 0) 5 DbIdentAid" unfolding K1 activeValues_def by (auto simp: active_def)
  have "\<exists>q2 q3. SaveWithT demoTexts ?ops 5 ''db/ident'' (SStr ''x'') 2 q1 = Inr (Inr (), q2) \<and> LookupValue ?ops 5 ''db/ident'' q2 = Inr (None, q3)"
    using ident_value(2,3) ident_attr(2,3) at q1(3)
    by (intro saved_again_lost [OF q1(2) ty _ _ _ _ _ _ _ _ av q1(4)]) (simp_all add: K1 isFloat_def)
  then show ?thesis using q1(1) by blast
qed

end
