(* ===== verification/Spec2Isabelle.thy ===== *)
theory Spec2Isabelle
  imports Gc Durability Wire Edn SaveLaws
begin

text \<open>
  A verification library for the Go engine of eavt-sql, \<^verbatim>\<open>src/go/internal\<close>: its storage core, the database layer on
  top of it, the interpreter of transactions and the codecs of its protocol.

  \<^bold>\<open>The program.\<close> The engine stores facts (entity, attribute, value, transaction) as byte-string keys in four
  index orders. A write appends its keys to the write-ahead log and to the memtable. A flush freezes the
  memtable, drains it in key order and merges the keys into copy-on-write B-trees of compressed pages, one tree
  per column family; it then publishes a root that names the trees, and the log segments it covers are deleted.
  A read merges, through one cursor, the runs of the memtable with the pages of the trees. A restart opens the
  newest root and replays the log, and derives the other indexes from the recovered datoms. A garbage collection
  deletes old roots and the blobs no retained root reaches. The database layer resolves attribute names, allocates
  identifiers and transactions, saves and retracts datoms, and answers scans of active datoms, for which it keeps
  two caches current: the complete key sets of hydrated entities, and an index from unique values to entities.
  Programs and rows travel as msgpack, transactions are written in EDN.

  \<^bold>\<open>The theories\<close>, in the order they build on each other, with the files they model:
  \<^item> \<open>Prelude\<close>: machine integers, byte slices, big-endian integers, the lexicographic order, binary search, errors
    (\<open>go_error\<close> with \<open>Error\<close> for returned errors and \<open>Panic\<close> for run-time panics); the collections \<open>slice_simps\<close>
    and \<open>cmp_simps\<close>.
  \<^item> \<open>Sexpr\<close>: the value type of \<^verbatim>\<open>sexpr/sexpr.go\<close> that keys are built from.
  \<^item> \<open>Keys\<close> (\<^verbatim>\<open>eavt/keys.go\<close>): encoders, decoders and the four index keys. The order of keys is the order of the facts;
    encoded values decode to themselves.
  \<^item> \<open>KeyedLists\<close>, \<open>MemTable\<close> (\<^verbatim>\<open>memtable/memtable.go\<close>): append buffers, sorted runs, size-tiered merges, the flush
    protocol and the drains. Every operation refines a stack of three finite maps (draining runs below frozen
    runs below the active layer); a drain returns the newest record per key in order; the accounted size bounds
    the stored keys.
  \<^item> \<open>MinHeap\<close>, \<open>RunCursor\<close>, \<open>CursorMerge\<close>, \<open>PageCursor\<close>, \<open>MergedScan\<close> (\<^verbatim>\<open>cursor/cursor.go\<close>, \<^verbatim>\<open>memtable/run_cursor.go\<close>,
    \<^verbatim>\<open>pagestore/cursor.go\<close>): the cursors. The locale of sorted cursors is met by the run cursor and by the page cursor on
    trees of height at most one; a merge of sorted cursors is a sorted cursor over the union of their keys, so a
    seek followed by reads returns exactly the keys from the target on.
  \<^item> \<open>Pages\<close> (\<^verbatim>\<open>pagestore/pages.go\<close>, \<^verbatim>\<open>types.go\<close>, \<^verbatim>\<open>flat.go\<close>): page formats, their round trips, the splitting of keys into
    pages, prefix ranges of index pages.
  \<^item> \<open>BlobStore\<close> (\<^verbatim>\<open>blobstore/blobstore.go\<close>): the file-backed blob store, its atomic writes and listings; the locale
    \<open>blob_store\<close> is the contract of the interface, interpreted on the file store.
  \<^item> \<open>Store\<close>, \<open>TreeMerge\<close>, \<open>Cache\<close>, \<open>Reads\<close> (\<^verbatim>\<open>pagestore/store.go\<close>, \<^verbatim>\<open>cache.go\<close>): the page store. \<open>TreeMerge\<close> describes a
    B-tree by its pages and shows, in the locale \<open>page_store\<close>, that a merge keeps every readable page readable
    whatever fails, and without faults produces well-formed trees holding the union of old and new keys; \<open>Cache\<close>
    that the page cache respects its budget and that loads see through it; \<open>Reads\<close> that prefix reads return
    exactly the keys of the tree with the prefix, also after a merge.
  \<^item> \<open>Gc\<close> (\<^verbatim>\<open>pagestore/gc.go\<close>): the garbage collection. The locale \<open>deletable_store\<close> is what it relies on; a retained root
    keeps every key.
  \<^item> \<open>Journal\<close>, \<open>Wal\<close> (\<^verbatim>\<open>wal/wal.go\<close> and the journal part of \<^verbatim>\<open>kvstore/kvstore.go\<close>): record framing, resynchronisation,
    segments, rotation, deletion and replay. Whatever fails, the files hold every acknowledged byte that is not
    covered by a durable flush, and replay returns those entries; a segment that could not be opened stops the deletion of
    all later ones.
  \<^item> \<open>KVStore\<close>, \<open>FlushProtocol\<close>, \<open>Durability\<close>, \<open>Scans\<close> (\<^verbatim>\<open>kvstore/kvstore.go\<close>, the background flush and the wiring in
    \<^verbatim>\<open>transactor/server.go\<close>, the storage part of \<^verbatim>\<open>eavt/write.go\<close>): the store facade. Writes, reads and the capture,
    prepare, publish and abort steps of a flush interleave in the relation \<open>flush_step\<close>; every run refines three key
    sets (on disk, being flushed, live), no acknowledged datom is lost while no flush is aborted, and a scan returns
    the visible keys in order.
  \<^item> \<open>Msgpack\<close>, \<open>Wire\<close>, \<open>Decimal\<close>, \<open>Edn\<close> (\<^verbatim>\<open>msgpack\<close>, \<^verbatim>\<open>sexpr/sexpr.go\<close>, \<^verbatim>\<open>edn/edn.go\<close>): the codecs. Decoding inverts encoding and
    ends on every input, what a receiver accepts is a program of the sender, and the EDN reader implements a grammar.
  \<^item> \<open>Resolver\<close> (\<^verbatim>\<open>eavt/resolver.go\<close>): attributes, partitions and identifiers. Identifiers are handed out once, and names
    and numbers of attributes stay inverse to each other.
  \<^item> \<open>Active\<close>, \<open>Hydrated\<close> (the filter of \<open>ScanPrefixActive\<close>, \<^verbatim>\<open>hydrated/hydrated.go\<close>): versions of datoms, and the cache of
    complete entities in packed arrays. As long as every write is the newest version of its datom, a hydrated entity
    answers as the store would.
  \<^item> \<open>Anchor\<close> (\<^verbatim>\<open>anchor/anchor.go\<close>): the hash index of unique values, an open-addressing table over a record arena with an
    intrusive list in order of use. Its searches end, what it finds is the last insertion that was not deleted.
  \<^item> \<open>Eavt\<close>, \<open>EavtLaws\<close>, \<open>EavtStore\<close>, \<open>Recovery\<close> (\<^verbatim>\<open>eavt/eavt.go\<close>, \<^verbatim>\<open>eavt/write.go\<close>): the database engine over a record of
    storage operations. The locale \<open>kv_store\<close> has the laws of a store that behaves as sets of keys and in it the laws of
    the engine; \<open>EavtStore\<close> interprets it on the facade, in every phase of a flush. Scans are exact with and without the
    caches as long as every write is the newest version of its datom, a save replaces the previous values, recovery derives the keys that were written, with the exceptions the theorems
    name.
  \<^item> \<open>Txw\<close>, \<open>QueryStore\<close>, \<open>EdnTx\<close>, \<open>TxLaws\<close>, \<open>SaveLaws\<close> (\<^verbatim>\<open>scheme/symtab.go\<close>, \<^verbatim>\<open>scheme/txw.go\<close>, \<^verbatim>\<open>engine/write.go\<close>, \<^verbatim>\<open>engine/engine.go\<close>,
    \<^verbatim>\<open>numfmt/numfmt.go\<close>, \<^verbatim>\<open>query/edn_tx.go\<close>): transactions. A request is decoded into flat operations over interned symbols,
    \<open>TransactTx\<close> applies its schema operations, resolves lookup references and temporary identifiers, checks every
    operation and writes the batch through the query store. A transaction without schema operations that fails leaves
    every index as it was, and a saved value is read back, unless it is the value the attribute already has; the
    remaining theorems of \<open>TxLaws\<close> are the cases where a transaction does something else than it says.

  \<^bold>\<open>Reading the definitions.\<close> A struct is a record, an operation a function from the state to its result and the
  new state, with Go's \<open>(value, ok)\<close> pairs as options and errors as the left of a sum. A record field or a
  definition carries the Go name where it is free. Loops are recursive functions; a loop whose termination
  depends on the data is a \<open>partial_function\<close> into \<open>option\<close> (page cursors, the merging cursor, the probes of the
  hash index), and the theorems about it show that it returns. There is no fuel.

  \<^bold>\<open>Parameters.\<close> zstd is a pair of functions with the hypothesis that decoding inverts encoding; the clock and the
  random identifiers are inputs; the conversions between floats and their decimal text are a record of functions. System
  calls take their outcomes from a list of faults, and the theorems hold for
  every such list unless they say otherwise. A source of distinct 16-byte identifiers is finite, so successful
  runs are stated for runs that do not exhaust it. Mutexes make the operations of one component atomic; the
  interleavings that the code allows between them are the sequences of operations of the state-machine theorems.

  \<^bold>\<open>Bounds.\<close> The merge theorems ask for keys of 9 to 65535 bytes: shorter keys can overflow the 16-bit count of a
  leaf page (\<open>BuildPages_count_overflow\<close>), and the encoders produce keys of at least 17 bytes; longer ones cannot
  be replayed from the log (\<open>oversized_record_rejected\<close>). Trees of fewer than \<open>2 ^ 63\<close> keys have a height below
  256, which the root blob stores in one byte. The order and the round trip of values, and with them the saves, are
  stated for the values of \<open>value_ok\<close>: integers, floats, byte strings and non-empty strings without NUL characters.
  The caches store the offsets of their keys as int32; offsets are natural numbers here, and the theorems about the
  caches keep to buffers below \<open>2 ^ 31\<close> bytes, where the two agree (\<open>caches_offsets\<close>, \<open>anchored_offsets\<close>). Reading the value of a
  record that has none panics, as indexing past a slice does. The decoder checks the room it reserves for an
  announced count against the limit of \<open>make\<close>; memory and stack are not bounded.

  \<^bold>\<open>Where the code falls short.\<close> Theorems of kind error state the behaviour that loses or invents data: booleans in
  fixed positions, page counts, siblings below deep index pages, hydrated seeks with short targets, oversized and
  torn log records, stuck segment deletion, missing index pages in merges, unreadable index pages and the unit of
  the age limit in garbage collections, the order of key-value reads in deep trees, aborted flushes, failed
  synchronous flushes, batches that are journaled twice, values that are saved a second time, references and
  transaction instants after a recovery, operations with two lookup references, extreme temporary identifiers, floats
  without a fraction, and two values of one attribute in one transaction.

  \<^bold>\<open>Not modelled.\<close> The Datalog planner and compiler, the query scanner and the Scheme interpreter with its host
  functions, which sit on top of the database layer; replication, the network servers and clients, the bulk loader;
  the S3 backend, which is network I/O. The tree invariant of key-value column families is not stated, and the page
  cursor's contract, and with it the scans of the engine, covers trees of height at most one, since deeper trees are
  scanned wrongly.
\<close>

end
